(* ===== verification/Prelude.thy ===== *)
theory Prelude
  imports Main "HOL-Library.Multiset"
begin

text \<open>
  Shared vocabulary of the development: the Python exceptions the package raises and the result
  type that carries them, the error-propagating list traversals, the products of extents, and the
  generic lemmas on lists that the components use.
\<close>

section \<open>Errors and results\<close>

text \<open>
  Every \<^verbatim>\<open>raise\<close> of the modelled code is a value of \<open>py_error\<close>, named after the exception
  class; the message text is not modelled. A function that may raise returns \<open>Inl\<close> of the
  class or \<open>Inr\<close> of its value.
\<close>

datatype py_error =
    TypeError
  | ValueError
  | NotImplementedError
  | RuntimeError
  | IndexError
  | KeyError
  | AttributeError
  | AssertionError
  | StopIteration
  | AirBackendError
  | SyntaxError
  | ZeroDivisionError
  | OverflowError
  | TxnBuilderError
  | UnboundLocalError
  | NameError
  | SystemExit

type_synonym 'a res = "py_error + 'a"

named_theorems res_simps \<open>rewriting of the error-propagating combinators\<close>

definition res_bind :: "'a res \<Rightarrow> ('a \<Rightarrow> 'b res) \<Rightarrow> 'b res" where
  "res_bind r f = (case r of Inl e \<Rightarrow> Inl e | Inr x \<Rightarrow> f x)"

lemma res_bind_simps [simp, res_simps]:
  "res_bind (Inl e) f = Inl e"
  "res_bind (Inr x) f = f x"
  by (simp_all add: res_bind_def)

lemma res_bind_Inr_iff [res_simps]:
  "res_bind r f = Inr y \<longleftrightarrow> (\<exists>x. r = Inr x \<and> f x = Inr y)"
  by (cases r) auto

lemma res_bind_Inl_iff:
  "res_bind r f = Inl e \<longleftrightarrow> r = Inl e \<or> (\<exists>x. r = Inr x \<and> f x = Inl e)"
  by (cases r) auto

lemma res_bind_cong [fundef_cong]:
  "r = r' \<Longrightarrow> (\<And>x. r' = Inr x \<Longrightarrow> f x = f' x) \<Longrightarrow> res_bind r f = res_bind r' f'"
  by (cases r') auto

definition res_check :: "bool \<Rightarrow> py_error \<Rightarrow> unit res" where
  "res_check ok e = (if ok then Inr () else Inl e)"

lemma res_check_iff [simp, res_simps]:
  "res_check ok e = Inr u \<longleftrightarrow> ok"
  "res_check ok e = Inl e' \<longleftrightarrow> \<not> ok \<and> e' = e"
  by (auto simp: res_check_def)

lemma res_check_simps [simp]:
  "res_check True e = Inr ()" "res_check False e = Inl e"
  by (simp_all add: res_check_def)

text \<open>A comprehension whose body may raise: the first error wins, as it does in the loop.\<close>

fun map_res :: "('a \<Rightarrow> 'b res) \<Rightarrow> 'a list \<Rightarrow> 'b list res" where
  "map_res f [] = Inr []"
| "map_res f (x # xs) = res_bind (f x) (\<lambda>y. res_bind (map_res f xs) (\<lambda>ys. Inr (y # ys)))"

lemma map_res_Inr_iff [res_simps]:
  "map_res f xs = Inr ys \<longleftrightarrow> list_all2 (\<lambda>x y. f x = Inr y) xs ys"
proof (induction xs arbitrary: ys)
  case (Cons x xs)
  then show ?case by (cases ys) (auto simp: res_simps)
qed auto

lemma map_res_length: "map_res f xs = Inr ys \<Longrightarrow> length ys = length xs"
  by (auto simp: res_simps dest: list_all2_lengthD)

lemma map_res_all_Inr:
  "(\<And>x. x \<in> set xs \<Longrightarrow> f x = Inr (g x)) \<Longrightarrow> map_res f xs = Inr (map g xs)"
  by (induction xs) auto

lemma map_res_nth:
  "map_res f xs = Inr ys \<Longrightarrow> i < length xs \<Longrightarrow> f (xs ! i) = Inr (ys ! i)"
  by (auto simp: res_simps list_all2_conv_all_nth)

text \<open>A loop of checks that returns nothing: the first failing element raises.\<close>

fun each_res :: "('a \<Rightarrow> unit res) \<Rightarrow> 'a list \<Rightarrow> unit res" where
  "each_res f [] = Inr ()"
| "each_res f (x # xs) = res_bind (f x) (\<lambda>_. each_res f xs)"

lemma each_res_Inr_iff [res_simps]:
  "each_res f xs = Inr u \<longleftrightarrow> (\<forall>x \<in> set xs. f x = Inr ())"
  by (induction xs) (auto simp: res_simps)

text \<open>A sequence of operations on a value, stopping at the first that raises.\<close>

fun apply_all :: "('k \<Rightarrow> 'a \<Rightarrow> 'a res) \<Rightarrow> 'k list \<Rightarrow> 'a \<Rightarrow> 'a res" where
  "apply_all f [] x = Inr x"
| "apply_all f (k # ks) x = res_bind (f k x) (apply_all f ks)"

section \<open>Products of extents\<close>

lemma prod_list_pos:
  fixes xs :: "int list"
  shows "(\<And>x. x \<in> set xs \<Longrightarrow> 0 < x) \<Longrightarrow> 0 < prod_list xs"
  by (induction xs) auto

lemma prod_list_ge_1:
  fixes xs :: "int list"
  shows "(\<And>x. x \<in> set xs \<Longrightarrow> 0 < x) \<Longrightarrow> 1 \<le> prod_list xs"
  using prod_list_pos [of xs] by fastforce

lemma prod_list_eq_1_iff:
  fixes xs :: "int list"
  assumes "\<And>x. x \<in> set xs \<Longrightarrow> 0 < x"
  shows "prod_list xs = 1 \<longleftrightarrow> (\<forall>x \<in> set xs. x = 1)"
  using assms
proof (induction xs)
  case (Cons x xs)
  have "0 < x" "0 < prod_list xs"
    using Cons.prems by (auto intro: prod_list_pos)
  then have "x * prod_list xs = 1 \<longleftrightarrow> x = 1 \<and> prod_list xs = 1"
    by (auto simp: pos_zmult_eq_1_iff)
  with Cons show ?case by auto
qed simp

section \<open>Lists\<close>

lemma concat_map_singleton: "concat (map (\<lambda>x. [f x]) xs) = map f xs"
  by (induction xs) auto

lemma upt_mult_concat:
  fixes m n :: nat
  shows "concat (map (\<lambda>i. map (\<lambda>j. i * n + j) [0..<n]) [0..<m]) = [0..<m * n]"
proof (induction m)
  case (Suc m)
  have "map (\<lambda>j. m * n + j) [0..<n] = [m * n..<m * n + n]"
    by (rule nth_equalityI) auto
  moreover have "[0..<m * n + n] = [0..<m * n] @ [m * n..<m * n + n]"
    by (rule upt_add_eq_append) simp
  ultimately show ?case
    using Suc by (simp add: ac_simps)
qed simp

text \<open>A permutation of the images lifts to a permutation of the sources.\<close>

lemma mset_map_lift:
  "mset (map f us) = mset ys \<Longrightarrow> \<exists>us'. mset us' = mset us \<and> map f us' = ys"
proof (induction ys arbitrary: us)
  case (Cons y ys)
  then have "y \<in> set (map f us)"
    by (metis list.set_intros(1) set_mset_mset)
  then obtain u where u: "u \<in> set us" "f u = y" by auto
  then obtain as bs where us: "us = as @ u # bs" by (meson split_list)
  with Cons.prems u have "mset (map f (as @ bs)) = mset ys" by simp
  then obtain us' where "mset us' = mset (as @ bs)" "map f us' = ys"
    using Cons.IH by blast
  with us u show ?case
    by (intro exI [of _ "u # us'"]) simp
qed auto

lemma mset_concat_swap:
  "mset (concat (map (\<lambda>x. map (\<lambda>y. f x y) ys) xs)) = mset (concat (map (\<lambda>y. map (\<lambda>x. f x y) xs) ys))"
proof (induction xs)
  case (Cons x xs)
  have "mset (concat (map (\<lambda>y. f x y # map (\<lambda>x. f x y) xs) ys))
      = mset (map (f x) ys) + mset (concat (map (\<lambda>y. map (\<lambda>x. f x y) xs) ys))"
    by (induction ys) (simp_all add: ac_simps)
  with Cons show ?case by (simp add: mset_concat comp_def)
qed (simp add: mset_concat comp_def)

section \<open>Boxes of indices\<close>

text \<open>The index tuples of a box of extents, in row-major order.\<close>

fun box :: "int list \<Rightarrow> int list list" where
  "box [] = [[]]"
| "box (n # ns) = concat (map (\<lambda>i. map ((#) (int i)) (box ns)) [0..<nat n])"

lemma box_iff: "is \<in> set (box ns) \<longleftrightarrow> list_all2 (\<lambda>i n. 0 \<le> i \<and> i < n) is ns"
proof (induction ns arbitrary: "is")
  case (Cons n ns)
  have "is \<in> set (box (n # ns)) \<longleftrightarrow> (\<exists>i js. is = i # js \<and> 0 \<le> i \<and> i < n \<and> js \<in> set (box ns))"
  proof
    assume "\<exists>i js. is = i # js \<and> 0 \<le> i \<and> i < n \<and> js \<in> set (box ns)"
    then obtain i js where "is = i # js" "0 \<le> i" "i < n" "js \<in> set (box ns)" by blast
    then show "is \<in> set (box (n # ns))"
      by (auto intro!: bexI [of _ "nat i"])
  qed auto
  also have "\<dots> \<longleftrightarrow> list_all2 (\<lambda>i n. 0 \<le> i \<and> i < n) is (n # ns)"
    by (auto simp: Cons list_all2_Cons2)
  finally show ?case .
qed simp

lemma box_length: "is \<in> set (box ns) \<Longrightarrow> length is = length ns"
  by (auto simp: box_iff dest: list_all2_lengthD)

lemma distinct_box: "distinct (box S)"
proof (induction S)
  case (Cons n S)
  have "distinct (concat (map (\<lambda>i. map ((#) (int i)) (box S)) ks))" if "distinct ks" for ks
    using that
  proof (induction ks)
    case (Cons k ks)
    with \<open>distinct (box S)\<close> show ?case by (auto simp: distinct_map)
  qed simp
  then show ?case by simp
qed simp

lemma length_box: "\<forall>n \<in> set ns. 0 \<le> n \<Longrightarrow> int (length (box ns)) = prod_list ns"
proof (induction ns)
  case (Cons n ns)
  have "length (box (n # ns)) = nat n * length (box ns)"
    by (simp add: length_concat comp_def sum_list_triv)
  with Cons show ?case by simp
qed simp

section \<open>Dicts of lists\<close>

text \<open>
  \<open>d.setdefault(k, []).append(v)\<close> on an insertion-ordered dict, and the dict built by a loop of them.
\<close>

fun dict_append :: "'k \<Rightarrow> 'v \<Rightarrow> ('k \<times> 'v list) list \<Rightarrow> ('k \<times> 'v list) list" where
  "dict_append k v [] = [(k, [v])]"
| "dict_append k v ((k', vs) # d) = (if k' = k then (k', vs @ [v]) # d else (k', vs) # dict_append k v d)"

definition group_by_key :: "('k \<times> 'v) list \<Rightarrow> ('k \<times> 'v list) list" where
  "group_by_key xs = foldl (\<lambda>d (k, v). dict_append k v d) [] xs"

lemma dict_append_keys: "set (map fst (dict_append k v d)) = insert k (set (map fst d))"
  by (induction k v d rule: dict_append.induct) auto

lemma dict_append_distinct: "distinct (map fst d) \<Longrightarrow> distinct (map fst (dict_append k v d))"
  by (induction k v d rule: dict_append.induct) (auto simp: dict_append_keys simp flip: set_map)

lemma map_of_dict_append:
  "map_of (dict_append k v d) k' =
     (if k' = k then Some ((case map_of d k of None \<Rightarrow> [] | Some vs \<Rightarrow> vs) @ [v]) else map_of d k')"
  by (induction k v d rule: dict_append.induct) auto

lemma group_by_key_snoc: "group_by_key (xs @ [(k, v)]) = dict_append k v (group_by_key xs)"
  by (simp add: group_by_key_def)

lemma group_by_key_distinct: "distinct (map fst (group_by_key xs))"
  by (induction xs rule: rev_induct) (auto simp: group_by_key_snoc dict_append_distinct, simp add: group_by_key_def)

lemma map_of_group_by_key:
  "map_of (group_by_key xs) k =
     (if k \<in> fst ` set xs then Some (map snd (filter (\<lambda>x. fst x = k) xs)) else None)"
proof (induction xs arbitrary: k rule: rev_induct)
  case (snoc x xs)
  obtain k' v where x: "x = (k', v)" by (cases x)
  have "k' \<notin> fst ` set xs \<Longrightarrow> filter (\<lambda>x. fst x = k') xs = []"
    by (auto simp: filter_empty_conv)
  then show ?case
    by (cases "k = k'") (simp_all add: x group_by_key_snoc map_of_dict_append snoc)
qed (simp add: group_by_key_def)

lemma group_by_key_mem:
  "(k, vs) \<in> set (group_by_key xs) \<longleftrightarrow> k \<in> fst ` set xs \<and> vs = map snd (filter (\<lambda>x. fst x = k) xs)"
proof -
  have "(k, vs) \<in> set (group_by_key xs) \<longleftrightarrow> map_of (group_by_key xs) k = Some vs"
    using group_by_key_distinct [of xs] by simp
  then show ?thesis by (auto simp: map_of_group_by_key)
qed

end
