(* ===== verification/Types.thy ===== *)
theory Types
  imports Prelude
begin

text \<open>
  Element types of the Python API: \<^verbatim>\<open>src/python/air/api/types.py\<close>. A \<^verbatim>\<open>DType\<close> is a record of
  the constructor's fields; the ten module-level instances are constants built by the modelled
  constructor; the four guards that emission paths call are functions into results.
\<close>

text \<open>
  A numpy scalar type, as the data the constructor reads from it: its name and its item size in
  bytes.
\<close>

record np_type =
  np_name :: string
  np_itemsize :: int

record dtype =
  dt_name :: string
  np_dtype :: "np_type option"
  default_vector_width :: int
  is_float :: bool
  wide_vector_width :: "int option"
  is_unsigned :: bool
  computes :: bool
  bits :: int
  allocatable :: bool

text \<open>
  \<open>DType.__init__\<close>: \<open>bits\<close> is taken from numpy unless it is stated. Asking numpy for the item
  size of a missing type raises, which is the \<open>TypeError\<close> branch.
\<close>

definition DType ::
  "string \<Rightarrow> np_type option \<Rightarrow> int \<Rightarrow> bool \<Rightarrow> int option \<Rightarrow> bool \<Rightarrow> bool \<Rightarrow> int option \<Rightarrow> bool \<Rightarrow> dtype res"
where
  "DType name np width flt wide unsigned can_compute nbits alloc =
     (case nbits of
        Some b \<Rightarrow> Inr \<lparr>dt_name = name, np_dtype = np, default_vector_width = width, is_float = flt,
                    wide_vector_width = wide, is_unsigned = unsigned, computes = can_compute,
                    bits = b, allocatable = alloc\<rparr>
      | None \<Rightarrow>
          (case np of
             None \<Rightarrow> Inl TypeError
           | Some t \<Rightarrow> Inr \<lparr>dt_name = name, np_dtype = np, default_vector_width = width, is_float = flt,
                    wide_vector_width = wide, is_unsigned = unsigned, computes = can_compute,
                    bits = np_itemsize t * 8, allocatable = alloc\<rparr>))"

definition np_bfloat16 :: np_type where "np_bfloat16 = \<lparr>np_name = ''bfloat16'', np_itemsize = 2\<rparr>"
definition np_float16 :: np_type where "np_float16 = \<lparr>np_name = ''float16'', np_itemsize = 2\<rparr>"
definition np_float32 :: np_type where "np_float32 = \<lparr>np_name = ''float32'', np_itemsize = 4\<rparr>"
definition np_int8 :: np_type where "np_int8 = \<lparr>np_name = ''int8'', np_itemsize = 1\<rparr>"
definition np_int16 :: np_type where "np_int16 = \<lparr>np_name = ''int16'', np_itemsize = 2\<rparr>"
definition np_int32 :: np_type where "np_int32 = \<lparr>np_name = ''int32'', np_itemsize = 4\<rparr>"
definition np_uint8 :: np_type where "np_uint8 = \<lparr>np_name = ''uint8'', np_itemsize = 1\<rparr>"
definition np_uint16 :: np_type where "np_uint16 = \<lparr>np_name = ''uint16'', np_itemsize = 2\<rparr>"
definition np_uint32 :: np_type where "np_uint32 = \<lparr>np_name = ''uint32'', np_itemsize = 4\<rparr>"

lemmas np_defs = np_bfloat16_def np_float16_def np_float32_def np_int8_def np_int16_def
  np_int32_def np_uint8_def np_uint16_def np_uint32_def

text \<open>
  The module-level instances, each the value its constructor call returns
  (\<open>instances_are_constructed\<close> below).
\<close>

definition bf16 :: dtype where
  "bf16 = \<lparr>dt_name = ''bf16'', np_dtype = Some np_bfloat16, default_vector_width = 16, is_float = True,
     wide_vector_width = Some 32, is_unsigned = False, computes = True, bits = 16, allocatable = True\<rparr>"

definition f16 :: dtype where
  "f16 = \<lparr>dt_name = ''f16'', np_dtype = Some np_float16, default_vector_width = 16, is_float = True,
     wide_vector_width = None, is_unsigned = False, computes = False, bits = 16, allocatable = True\<rparr>"

definition f32 :: dtype where
  "f32 = \<lparr>dt_name = ''f32'', np_dtype = Some np_float32, default_vector_width = 16, is_float = True,
     wide_vector_width = None, is_unsigned = False, computes = True, bits = 32, allocatable = True\<rparr>"

definition i4 :: dtype where
  "i4 = \<lparr>dt_name = ''i4'', np_dtype = None, default_vector_width = 64, is_float = False,
     wide_vector_width = None, is_unsigned = False, computes = True, bits = 4, allocatable = False\<rparr>"

definition i8 :: dtype where
  "i8 = \<lparr>dt_name = ''i8'', np_dtype = Some np_int8, default_vector_width = 32, is_float = False,
     wide_vector_width = None, is_unsigned = False, computes = True, bits = 8, allocatable = True\<rparr>"

definition i16 :: dtype where
  "i16 = \<lparr>dt_name = ''i16'', np_dtype = Some np_int16, default_vector_width = 16, is_float = False,
     wide_vector_width = None, is_unsigned = False, computes = True, bits = 16, allocatable = True\<rparr>"

definition i32 :: dtype where
  "i32 = \<lparr>dt_name = ''i32'', np_dtype = Some np_int32, default_vector_width = 16, is_float = False,
     wide_vector_width = None, is_unsigned = False, computes = True, bits = 32, allocatable = True\<rparr>"

definition ui8 :: dtype where
  "ui8 = \<lparr>dt_name = ''ui8'', np_dtype = Some np_uint8, default_vector_width = default_vector_width i8,
     is_float = False, wide_vector_width = None, is_unsigned = True, computes = True, bits = 8,
     allocatable = True\<rparr>"

definition ui16 :: dtype where
  "ui16 = \<lparr>dt_name = ''ui16'', np_dtype = Some np_uint16, default_vector_width = default_vector_width i16,
     is_float = False, wide_vector_width = None, is_unsigned = True, computes = True, bits = 16,
     allocatable = True\<rparr>"

definition ui32 :: dtype where
  "ui32 = \<lparr>dt_name = ''ui32'', np_dtype = Some np_uint32, default_vector_width = default_vector_width i32,
     is_float = False, wide_vector_width = None, is_unsigned = True, computes = True, bits = 32,
     allocatable = True\<rparr>"

lemmas dtype_defs = bf16_def f16_def f32_def i4_def i8_def i16_def i32_def ui8_def ui16_def ui32_def

definition all_dtypes :: "dtype list" where
  "all_dtypes = [bf16, f16, f32, i4, i8, i16, i32, ui8, ui16, ui32]"

lemma instances_are_constructed:
  "DType ''bf16'' (Some np_bfloat16) 16 True (Some 32) False True None True = Inr bf16"
  "DType ''f16'' (Some np_float16) 16 True None False False None True = Inr f16"
  "DType ''f32'' (Some np_float32) 16 True None False True None True = Inr f32"
  "DType ''i4'' None 64 False None False True (Some 4) False = Inr i4"
  "DType ''i8'' (Some np_int8) 32 False None False True None True = Inr i8"
  "DType ''i16'' (Some np_int16) 16 False None False True None True = Inr i16"
  "DType ''i32'' (Some np_int32) 16 False None False True None True = Inr i32"
  "DType ''ui8'' (Some np_uint8) (default_vector_width i8) False None True True None True = Inr ui8"
  "DType ''ui16'' (Some np_uint16) (default_vector_width i16) False None True True None True = Inr ui16"
  "DType ''ui32'' (Some np_uint32) (default_vector_width i32) False None True True None True = Inr ui32"
  by (simp_all add: DType_def dtype_defs np_defs)

text \<open>\<open>DType.itemsize\<close>: a sub-byte type has no byte size.\<close>

definition itemsize :: "dtype \<Rightarrow> int res" where
  "itemsize d = (case np_dtype d of None \<Rightarrow> Inl TypeError | Some t \<Rightarrow> Inr (np_itemsize t))"

definition width_for :: "dtype \<Rightarrow> string \<Rightarrow> int" where
  "width_for d target =
     (case wide_vector_width d of
        Some w \<Rightarrow> if target = ''npu2'' then w else default_vector_width d
      | None \<Rightarrow> default_vector_width d)"

definition SCALAR_TYPES :: "dtype list" where
  "SCALAR_TYPES = [bf16, f16, f32, i8, i16, i32]"

text \<open>\<open>_BY_NP\<close> and \<open>dtype_of\<close>: a dict from numpy types to instances, \<open>None\<close> when absent.\<close>

definition BY_NP :: "(np_type \<times> dtype) list" where
  "BY_NP = map (\<lambda>d. (the (np_dtype d), d)) [bf16, f16, f32, i8, i16, i32, ui8, ui16, ui32]"

definition dtype_of :: "np_type \<Rightarrow> dtype option" where
  "dtype_of t = map_of BY_NP t"

definition require_signless :: "dtype \<Rightarrow> unit res" where
  "require_signless d = (if \<not> is_unsigned d then Inr () else Inl NotImplementedError)"

definition require_computable :: "dtype \<Rightarrow> unit res" where
  "require_computable d = (if computes d then Inr () else Inl NotImplementedError)"

lemma require_signless_iff [simp]: "require_signless d = Inr u \<longleftrightarrow> \<not> is_unsigned d"
  by (simp add: require_signless_def)

lemma require_computable_iff [simp]: "require_computable d = Inr u \<longleftrightarrow> computes d"
  by (simp add: require_computable_def)

lemma all_dtypes_distinct: "distinct (map dt_name all_dtypes)"
  by (simp add: all_dtypes_def dtype_defs)

lemma itemsize_bits:
  assumes "d \<in> set all_dtypes" and "itemsize d = Inr n"
  shows "bits d = n * 8"
  using assms by (auto simp: all_dtypes_def dtype_defs itemsize_def np_defs)

lemma itemsize_allocatable:
  assumes "d \<in> set all_dtypes"
  shows "(\<exists>n. itemsize d = Inr n) \<longleftrightarrow> allocatable d"
  using assms by (auto simp: all_dtypes_def dtype_defs itemsize_def)

lemma BY_NP_distinct: "distinct (map fst BY_NP)"
  by code_simp

lemma dtype_of_roundtrip:
  assumes "d \<in> set all_dtypes" and "np_dtype d = Some t"
  shows "dtype_of t = Some d"
proof -
  have "d \<noteq> i4"
    using assms(2) by (auto simp: i4_def)
  with assms(1) have "d \<in> set [bf16, f16, f32, i8, i16, i32, ui8, ui16, ui32]"
    unfolding all_dtypes_def list.set by blast
  moreover have "(t, d) = (the (np_dtype d), d)"
    using assms(2) by simp
  ultimately have "(t, d) \<in> set BY_NP"
    unfolding BY_NP_def set_map by (rule image_eqI [rotated])
  with BY_NP_distinct show ?thesis
    by (simp add: dtype_of_def)
qed

end
