(* ===== verification/Index_Expr.thy ===== *)
theory Index_Expr
  imports Prelude "HOL-Library.FSet"
begin

text \<open>
  Affine index arithmetic: \<^verbatim>\<open>src/python/air/api/_index.py\<close>. An \<open>index_expr\<close> is the linear form
  the class keeps: an insertion-ordered dict from leaves to coefficients, as an association list,
  and a constant. A \<open>leaf\<close> is a coordinate or an induction variable (identified by the number of
  its Python object) or a \<open>DerivedLeaf\<close>, \<open>expr // k\<close> or \<open>expr % k\<close>.
\<close>

section \<open>Leaves and linear forms\<close>

datatype dkind = FloorDiv | Mod

datatype leaf =
    Leaf (leaf_id: nat) (leaf_name: string) (leaf_spatial: bool)
  | DerivedLeaf (d_kind: dkind) (d_expr: index_expr) (d_k: int)
and index_expr =
    IndexExpr (terms: "(leaf \<times> int) list") (const: int)

text \<open>
  Dict keys. A \<open>Leaf\<close> has the identity of its object; a \<open>DerivedLeaf\<close> compares by \<open>_key\<close>, which
  holds the frozenset of its expression's items: the order of the terms does not matter.
\<close>

datatype leaf_key =
    KLeaf nat
  | KDerived dkind "(leaf_key \<times> int) fset" int int

fun leaf_key_of :: "leaf \<Rightarrow> leaf_key"
and expr_key :: "index_expr \<Rightarrow> (leaf_key \<times> int) fset \<times> int" where
  "leaf_key_of (Leaf i n s) = KLeaf i"
| "leaf_key_of (DerivedLeaf kd e k) = (case expr_key e of (ts, c) \<Rightarrow> KDerived kd ts c k)"
| "expr_key (IndexExpr ts c) = (fset_of_list (map (\<lambda>(l, a). (leaf_key_of l, a)) ts), c)"

text \<open>\<open>IndexExpr.__init__\<close>: zero coefficients are dropped, so that cancellation yields a constant.\<close>

definition mk_index :: "(leaf \<times> int) list \<Rightarrow> int \<Rightarrow> index_expr" where
  "mk_index ts k = IndexExpr (filter (\<lambda>(l, c). c \<noteq> 0) ts) k"

definition index_constant :: "int \<Rightarrow> index_expr" where
  "index_constant k = mk_index [] k"

definition index_leaf :: "nat \<Rightarrow> string \<Rightarrow> bool \<Rightarrow> index_expr" where
  "index_leaf i n sp = mk_index [(Leaf i n sp, 1)] 0"

section \<open>The coefficient dict\<close>

text \<open>\<open>terms.get(leaf, 0)\<close> and \<open>terms[leaf] = v\<close> on the insertion-ordered dict.\<close>

fun dict_get :: "(leaf \<times> int) list \<Rightarrow> leaf \<Rightarrow> int" where
  "dict_get [] l = 0"
| "dict_get ((l', c) # ts) l = (if leaf_key_of l' = leaf_key_of l then c else dict_get ts l)"

fun dict_set :: "(leaf \<times> int) list \<Rightarrow> leaf \<Rightarrow> int \<Rightarrow> (leaf \<times> int) list" where
  "dict_set [] l v = [(l, v)]"
| "dict_set ((l', c) # ts) l v =
     (if leaf_key_of l' = leaf_key_of l then (l', v) # ts else (l', c) # dict_set ts l v)"

section \<open>Arithmetic\<close>

definition index_combine :: "index_expr \<Rightarrow> index_expr \<Rightarrow> int \<Rightarrow> index_expr" where
  "index_combine e e' sign =
     mk_index (foldl (\<lambda>ts (l, c). dict_set ts l (dict_get ts l + sign * c)) (terms e) (terms e'))
       (const e + sign * const e')"

definition index_add :: "index_expr \<Rightarrow> index_expr \<Rightarrow> index_expr" where
  "index_add e e' = index_combine e e' 1"

definition index_sub :: "index_expr \<Rightarrow> index_expr \<Rightarrow> index_expr" where
  "index_sub e e' = index_combine e e' (-1)"

definition index_scale :: "int \<Rightarrow> index_expr \<Rightarrow> index_expr" where
  "index_scale k e = mk_index (map (\<lambda>(l, c). (l, c * k)) (terms e)) (const e * k)"

text \<open>\<open>__mul__\<close>: at most one operand may depend on a coordinate.\<close>

definition index_mul :: "index_expr \<Rightarrow> index_expr \<Rightarrow> index_expr res" where
  "index_mul e e' =
     (if terms e \<noteq> [] \<and> terms e' \<noteq> [] then Inl TypeError
      else if terms e' \<noteq> [] then Inr (index_scale (const e) e')
      else Inr (index_scale (const e') e))"

definition index_neg :: "index_expr \<Rightarrow> index_expr" where
  "index_neg e = mk_index (map (\<lambda>(l, c). (l, - c)) (terms e)) (- const e)"

definition index_divide :: "index_expr \<Rightarrow> index_expr \<Rightarrow> dkind \<Rightarrow> index_expr res" where
  "index_divide e e' kd =
     (if terms e' \<noteq> [] then Inl TypeError
      else let k = const e' in
        if k \<le> 0 then Inl ValueError
        else if terms e = [] then
          Inr (mk_index [] (case kd of FloorDiv \<Rightarrow> const e div k | Mod \<Rightarrow> const e mod k))
        else if k = 1 then
          Inr (case kd of Mod \<Rightarrow> mk_index [] 0 | FloorDiv \<Rightarrow> e)
        else Inr (mk_index [(DerivedLeaf kd e k, 1)] 0))"

definition index_floordiv :: "index_expr \<Rightarrow> index_expr \<Rightarrow> index_expr res" where
  "index_floordiv e e' = index_divide e e' FloorDiv"

definition index_mod :: "index_expr \<Rightarrow> index_expr \<Rightarrow> index_expr res" where
  "index_mod e e' = index_divide e e' Mod"

section \<open>Queries\<close>

definition as_const :: "index_expr \<Rightarrow> int option" where
  "as_const e = (if terms e = [] then Some (const e) else None)"

text \<open>\<open>leaves()\<close>: the distinct real leaves, in order of first occurrence.\<close>

fun setdefault_leaves :: "leaf list \<Rightarrow> leaf list \<Rightarrow> leaf list" where
  "setdefault_leaves seen [] = seen"
| "setdefault_leaves seen (l # ls) =
     setdefault_leaves (if leaf_key_of l \<in> set (map leaf_key_of seen) then seen else seen @ [l]) ls"

fun leaf_leaves :: "leaf \<Rightarrow> leaf list"
and index_leaves :: "index_expr \<Rightarrow> leaf list" where
  "leaf_leaves (Leaf i n s) = [Leaf i n s]"
| "leaf_leaves (DerivedLeaf kd e k) = index_leaves e"
| "index_leaves (IndexExpr ts c) =
     setdefault_leaves [] (concat (map (\<lambda>(l, a). leaf_leaves l) ts))"

section \<open>Coercion\<close>

text \<open>
  The Python values that reach \<open>coerce_index\<close>, by the tests it makes: an index expression, a bool,
  an int, a value with \<open>__index__\<close> such as a \<open>Symbol\<close>, a switch or a runtime parameter (whose
  \<open>as_index()\<close> result is given), an SSA value of index type (with the constant it was defined by, if
  any, and whether it is a live tile coordinate), and anything else.
\<close>

datatype index_like =
    VIndex index_expr
  | VBool bool
  | VInt int
  | VRuntime index_expr
  | VSymbol int
  | VSSA nat "int option" bool
  | VOther

fun coerce_index :: "index_like \<Rightarrow> index_expr res" where
  "coerce_index (VIndex e) = Inr e"
| "coerce_index (VBool b) = Inl TypeError"
| "coerce_index (VInt k) = Inr (index_constant k)"
| "coerce_index (VRuntime e) = Inr e"
| "coerce_index (VSymbol k) = Inr (index_constant k)"
| "coerce_index (VSSA i (Some k) sp) = Inr (index_constant k)"
| "coerce_index (VSSA i None sp) = Inr (index_leaf i ''v'' sp)"
| "coerce_index VOther = Inl TypeError"

section \<open>Lowering to one affine map\<close>

text \<open>
  The \<open>air.ir\<close> affine-expression API is not part of the repository: it is the record of builder
  functions the lowering calls.
\<close>

record 'e affine_api =
  get_add :: "'e \<Rightarrow> 'e \<Rightarrow> 'e"
  get_mul :: "'e \<Rightarrow> 'e \<Rightarrow> 'e"
  get_mod :: "'e \<Rightarrow> 'e \<Rightarrow> 'e"
  get_floor_div :: "'e \<Rightarrow> 'e \<Rightarrow> 'e"
  get_constant :: "int \<Rightarrow> 'e"
  get_symbol :: "nat \<Rightarrow> 'e"

text \<open>\<open>_affine(symbol_of)\<close> on a leaf and on a linear form.\<close>

fun leaf_affine :: "'e affine_api \<Rightarrow> (leaf \<Rightarrow> 'e) \<Rightarrow> leaf \<Rightarrow> 'e"
and index_affine :: "'e affine_api \<Rightarrow> (leaf \<Rightarrow> 'e) \<Rightarrow> index_expr \<Rightarrow> 'e" where
  "leaf_affine A symbol_of (Leaf i n s) = symbol_of (Leaf i n s)"
| "leaf_affine A symbol_of (DerivedLeaf kd e k) =
     (let lhs = index_affine A symbol_of e; rhs = get_constant A k in
      case kd of Mod \<Rightarrow> get_mod A lhs rhs | FloorDiv \<Rightarrow> get_floor_div A lhs rhs)"
| "index_affine A symbol_of (IndexExpr ts c) =
     (let parts = map (\<lambda>(l, a). if a \<noteq> 1 then get_mul A (leaf_affine A symbol_of l) (get_constant A a)
                                 else leaf_affine A symbol_of l) ts
      in case parts of
           [] \<Rightarrow> get_constant A c
         | p # ps \<Rightarrow>
             let expr = foldl (get_add A) p ps
             in if c \<noteq> 0 then get_add A expr (get_constant A c) else expr)"

text \<open>
  \<open>materialize\<close>: a Python int, or one \<open>affine.apply\<close> of a map with a symbol per distinct real leaf
  (the map's single result expression and the leaves whose values are its operands). The symbol of a
  leaf is its position in \<open>leaves()\<close>.
\<close>

fun position_of :: "leaf list \<Rightarrow> leaf \<Rightarrow> nat" where
  "position_of [] l = 0"
| "position_of (l' # ls) l = (if leaf_key_of l' = leaf_key_of l then 0 else Suc (position_of ls l))"

datatype 'e materialized =
    MInt int
  | MApply 'e "leaf list"

definition index_materialize :: "'e affine_api \<Rightarrow> index_expr \<Rightarrow> 'e materialized" where
  "index_materialize A e =
     (if terms e = [] then MInt (const e)
      else let ls = index_leaves e
           in MApply (index_affine A (\<lambda>l. get_symbol A (position_of ls l)) e) ls)"


section \<open>Meaning of a linear form\<close>

text \<open>
  The value of an expression when the leaf with number \<open>i\<close> holds \<open>\<rho> i\<close>. Python's \<open>//\<close> and \<open>%\<close>
  round towards minus infinity, as \<open>div\<close> and \<open>mod\<close> do on \<open>int\<close>.
\<close>

fun eval_leaf :: "(nat \<Rightarrow> int) \<Rightarrow> leaf \<Rightarrow> int"
and eval_index :: "(nat \<Rightarrow> int) \<Rightarrow> index_expr \<Rightarrow> int" where
  "eval_leaf \<rho> (Leaf i n s) = \<rho> i"
| "eval_leaf \<rho> (DerivedLeaf kd e k) =
     (case kd of FloorDiv \<Rightarrow> eval_index \<rho> e div k | Mod \<Rightarrow> eval_index \<rho> e mod k)"
| "eval_index \<rho> (IndexExpr ts c) = (\<Sum>(l, a)\<leftarrow>ts. a * eval_leaf \<rho> l) + c"

abbreviation eval_terms :: "(nat \<Rightarrow> int) \<Rightarrow> (leaf \<times> int) list \<Rightarrow> int" where
  "eval_terms \<rho> ts \<equiv> (\<Sum>(l, a)\<leftarrow>ts. a * eval_leaf \<rho> l)"

lemma eval_index_eq: "eval_index \<rho> e = eval_terms \<rho> (terms e) + const e"
  by (cases e) simp

text \<open>
  The invariant of the class: the dict has one entry per key, no entry is zero, and the same holds
  inside every derived leaf, whose divisor is at least two.
\<close>

fun wf_leaf :: "leaf \<Rightarrow> bool"
and wf_index :: "index_expr \<Rightarrow> bool" where
  "wf_leaf (Leaf i n s) = True"
| "wf_leaf (DerivedLeaf kd e k) = (wf_index e \<and> 1 < k)"
| "wf_index (IndexExpr ts c) =
     (distinct (map (\<lambda>(l, a). leaf_key_of l) ts) \<and> (\<forall>(l, a) \<in> set ts. a \<noteq> 0 \<and> wf_leaf l))"

definition dict_keys :: "(leaf \<times> int) list \<Rightarrow> leaf_key list" where
  "dict_keys ts = map (\<lambda>(l, a). leaf_key_of l) ts"

definition wf_dict :: "(leaf \<times> int) list \<Rightarrow> bool" where
  "wf_dict ts \<longleftrightarrow> distinct (dict_keys ts) \<and> (\<forall>(l, a) \<in> set ts. wf_leaf l)"

lemma wf_index_iff: "wf_index e \<longleftrightarrow> wf_dict (terms e) \<and> (\<forall>(l, a) \<in> set (terms e). a \<noteq> 0)"
  by (cases e) (auto simp: wf_dict_def dict_keys_def)

text \<open>Leaves with the same key have the same value: a dict entry stands for all its spellings.\<close>

lemma eval_key:
  "leaf_key_of x = leaf_key_of y \<Longrightarrow> wf_leaf x \<Longrightarrow> wf_leaf y \<Longrightarrow> eval_leaf \<rho> x = eval_leaf \<rho> y"
  "expr_key e = expr_key e' \<Longrightarrow> wf_index e \<Longrightarrow> wf_index e' \<Longrightarrow> eval_index \<rho> e = eval_index \<rho> e'"
proof (induction \<rho> x and \<rho> e arbitrary: y and e' rule: eval_leaf_eval_index.induct)
  case (1 \<rho> i n s)
  then show ?case by (cases y) (auto split: prod.splits)
next
  case (2 \<rho> kd e k)
  then obtain e2 where y: "y = DerivedLeaf kd e2 k" and key: "expr_key e = expr_key e2"
    by (cases y) (auto split: prod.splits)
  have "eval_index \<rho> e = eval_index \<rho> e2"
    using 2 key by (cases kd) (auto simp: y)
  then show ?case using y by (cases kd) simp_all
next
  case (3 \<rho> ts c)
  obtain us where e': "e' = IndexExpr us c"
    using "3.prems"(1) by (cases e') auto
  let ?f = "\<lambda>(l, a :: int). (leaf_key_of l, a)"
  have keys: "set (map ?f ts) = set (map ?f us)"
  proof -
    have "fset_of_list (map ?f ts) = fset_of_list (map ?f us)"
      using "3.prems"(1) e' by simp
    then show ?thesis
      by (simp only: fset_of_list.rep_eq [symmetric])
  qed
  have dist: "distinct (map ?f vs)" if "distinct (map (\<lambda>(l, a). leaf_key_of l) vs)" for vs
    using that by (auto simp: distinct_map inj_on_def)
  have "distinct (map ?f us)" and "distinct (map ?f ts)"
    using "3.prems"(2,3) e' by (auto intro!: dist)
  from set_eq_iff_mset_eq_distinct [OF this] have "mset (map ?f us) = mset (map ?f ts)"
    using keys by blast
  from mset_map_lift [OF this]
  obtain us' where us': "mset us' = mset us" "map ?f us' = map ?f ts" by blast
  have len: "length us' = length ts"
    using arg_cong [OF us'(2), of length] by simp
  have "map (\<lambda>(l, a). a * eval_leaf \<rho> l) ts = map (\<lambda>(l, a). a * eval_leaf \<rho> l) us'"
  proof (rule nth_equalityI)
    fix i assume "i < length (map (\<lambda>(l, a). a * eval_leaf \<rho> l) ts)"
    then have i: "i < length ts" by simp
    obtain l a where t: "ts ! i = (l, a)" by force
    obtain l' a' where u: "us' ! i = (l', a')" by force
    have "?f (us' ! i) = ?f (ts ! i)"
      using arg_cong [OF us'(2), of "\<lambda>xs. xs ! i"] i len by simp
    then have k: "leaf_key_of l = leaf_key_of l'" "a' = a"
      using t u by auto
    have "(l, a) \<in> set ts" "(l', a') \<in> set us'"
      using i len t u nth_mem [of i ts] nth_mem [of i us'] by simp_all
    then have mem: "(l, a) \<in> set ts" "(l', a') \<in> set us"
      using mset_eq_setD [OF us'(1)] by simp_all
    have "eval_leaf \<rho> l = eval_leaf \<rho> l'"
      using "3.IH"[OF mem(1) refl k(1)] mem "3.prems" e' by auto
    then show "map (\<lambda>(l, a). a * eval_leaf \<rho> l) ts ! i = map (\<lambda>(l, a). a * eval_leaf \<rho> l) us' ! i"
      using i len t u k by simp
  qed (simp add: len)
  moreover have "sum_list (map (\<lambda>(l, a). a * eval_leaf \<rho> l) us') = eval_terms \<rho> us"
    using arg_cong [OF us'(1), of "\<lambda>M. sum_mset (image_mset (\<lambda>(l, a). a * eval_leaf \<rho> l) M)"]
    by (simp flip: sum_mset_sum_list)
  ultimately show ?case using e' by simp
qed


section \<open>The dict operations\<close>

lemma dict_get_set:
  "dict_get (dict_set ts l v) l' = (if leaf_key_of l = leaf_key_of l' then v else dict_get ts l')"
  by (induction ts l v rule: dict_set.induct) auto

lemma dict_keys_set:
  "set (dict_keys (dict_set ts l v)) = insert (leaf_key_of l) (set (dict_keys ts))"
  by (induction ts l v rule: dict_set.induct) (auto simp: dict_keys_def)

lemma wf_dict_set: "wf_dict ts \<Longrightarrow> wf_leaf l \<Longrightarrow> wf_dict (dict_set ts l v)"
proof (induction ts l v rule: dict_set.induct)
  case (2 l' c ts l v)
  then show ?case
    using dict_keys_set [of ts l v] by (auto simp: wf_dict_def dict_keys_def)
qed (auto simp: wf_dict_def dict_keys_def)

lemma dict_get_absent: "leaf_key_of l \<notin> set (dict_keys ts) \<Longrightarrow> dict_get ts l = 0"
  by (induction ts l rule: dict_get.induct) (auto simp: dict_keys_def)

lemma dict_get_present: "wf_dict ts \<Longrightarrow> (l, a) \<in> set ts \<Longrightarrow> dict_get ts l = a"
proof (induction ts)
  case (Cons t ts)
  then show ?case
    by (cases t) (force simp: wf_dict_def dict_keys_def)
qed simp

lemma dict_get_cong: "leaf_key_of l = leaf_key_of l' \<Longrightarrow> dict_get ts l = dict_get ts l'"
  by (induction ts) auto

lemma dict_get_filter_nonzero:
  "wf_dict ts \<Longrightarrow> dict_get (filter (\<lambda>(l, c). c \<noteq> 0) ts) l = dict_get ts l"
proof (induction ts)
  case (Cons t ts)
  obtain l' c where t: "t = (l', c)" by force
  have wf: "wf_dict ts" and new: "leaf_key_of l' \<notin> set (dict_keys ts)"
    using Cons.prems t by (auto simp: wf_dict_def dict_keys_def)
  have "dict_get ts l = 0" if "leaf_key_of l' = leaf_key_of l"
    using new that by (auto intro: dict_get_absent)
  with Cons.IH [OF wf] t show ?case by auto
qed simp

lemma wf_dict_filter: "wf_dict ts \<Longrightarrow> wf_dict (filter P ts)"
  unfolding wf_dict_def dict_keys_def by (auto intro: distinct_map_filter)

lemma terms_mk_index [simp]: "terms (mk_index ts k) = filter (\<lambda>(l, c). c \<noteq> 0) ts"
  by (simp add: mk_index_def)

lemma const_mk_index [simp]: "const (mk_index ts k) = k"
  by (simp add: mk_index_def)

lemma wf_mk_index: "wf_dict ts \<Longrightarrow> wf_index (mk_index ts k)"
  unfolding wf_index_iff by (auto intro: wf_dict_filter)

lemma eval_terms_filter: "eval_terms \<rho> (filter (\<lambda>(l, c). c \<noteq> 0) ts) = eval_terms \<rho> ts"
  by (induction ts) auto

lemma eval_mk_index [simp]: "eval_index \<rho> (mk_index ts k) = eval_terms \<rho> ts + k"
  by (simp add: eval_index_eq eval_terms_filter)

text \<open>Adding to an entry changes the value of the form by the leaf's share.\<close>

lemma eval_dict_set:
  "wf_leaf l \<Longrightarrow> (\<forall>(l', a) \<in> set ts. wf_leaf l') \<Longrightarrow>
     eval_terms \<rho> (dict_set ts l (dict_get ts l + d)) = eval_terms \<rho> ts + d * eval_leaf \<rho> l"
proof (induction ts)
  case (Cons t ts)
  then show ?case
    by (cases t) (auto simp: algebra_simps dest: eval_key(1) [of _ _ \<rho>])
qed simp

abbreviation merge_terms :: "int \<Rightarrow> (leaf \<times> int) list \<Rightarrow> (leaf \<times> int) list \<Rightarrow> (leaf \<times> int) list" where
  "merge_terms sign \<equiv> foldl (\<lambda>ts (l, c). dict_set ts l (dict_get ts l + sign * c))"

lemma wf_merge_terms:
  "wf_dict ts \<Longrightarrow> (\<forall>(l, a) \<in> set us. wf_leaf l) \<Longrightarrow> wf_dict (merge_terms sign ts us)"
  by (induction us arbitrary: ts) (auto simp: wf_dict_set)

lemma eval_merge_terms:
  "wf_dict ts \<Longrightarrow> (\<forall>(l, a) \<in> set us. wf_leaf l) \<Longrightarrow>
     eval_terms \<rho> (merge_terms sign ts us) = eval_terms \<rho> ts + sign * eval_terms \<rho> us"
proof (induction us arbitrary: ts)
  case (Cons u us)
  obtain l a where u: "u = (l, a)" by force
  have wf: "wf_dict (dict_set ts l (dict_get ts l + sign * a))"
    using Cons.prems u by (auto intro: wf_dict_set)
  have "eval_terms \<rho> (dict_set ts l (dict_get ts l + sign * a)) = eval_terms \<rho> ts + sign * a * eval_leaf \<rho> l"
    using Cons.prems u by (intro eval_dict_set) (auto simp: wf_dict_def)
  with Cons.IH [OF wf] Cons.prems(2) u show ?case
    by (simp add: algebra_simps)
qed simp

lemma dict_get_merge_terms:
  "distinct (dict_keys us) \<Longrightarrow>
     dict_get (merge_terms sign ts us) l = dict_get ts l + sign * dict_get us l"
proof (induction us arbitrary: ts)
  case (Cons u us)
  obtain l' a where u: "u = (l', a)" by force
  have "distinct (dict_keys us)" and "leaf_key_of l' \<notin> set (dict_keys us)"
    using Cons.prems u by (auto simp: dict_keys_def)
  then show ?case
    using Cons.IH u dict_get_absent [of l us] dict_get_cong [of l' l ts]
    by (auto simp: dict_get_set)
qed simp

section \<open>Every operation keeps the invariant and means what it says\<close>

lemma wf_constant [simp]: "wf_index (index_constant k)"
  by (simp add: index_constant_def mk_index_def)

lemma eval_constant [simp]: "eval_index \<rho> (index_constant k) = k"
  by (simp add: index_constant_def)

lemma wf_leaf_expr [simp]: "wf_index (index_leaf i n sp)"
  by (simp add: index_leaf_def mk_index_def)

lemma eval_leaf_expr [simp]: "eval_index \<rho> (index_leaf i n sp) = \<rho> i"
  by (simp add: index_leaf_def)

lemma wf_index_terms: "wf_index e \<Longrightarrow> \<forall>(l, a) \<in> set (terms e). wf_leaf l"
  by (auto simp: wf_index_iff wf_dict_def)

lemma wf_combine: "wf_index a \<Longrightarrow> wf_index b \<Longrightarrow> wf_index (index_combine a b s)"
  unfolding index_combine_def
  by (intro wf_mk_index wf_merge_terms) (auto simp: wf_index_iff wf_dict_def)

lemma eval_combine:
  "wf_index a \<Longrightarrow> wf_index b \<Longrightarrow>
     eval_index \<rho> (index_combine a b s) = eval_index \<rho> a + s * eval_index \<rho> b"
proof -
  assume wf: "wf_index a" "wf_index b"
  have "eval_terms \<rho> (merge_terms s (terms a) (terms b)) = eval_terms \<rho> (terms a) + s * eval_terms \<rho> (terms b)"
    using wf by (intro eval_merge_terms) (auto simp: wf_index_iff wf_dict_def)
  then show ?thesis
    by (simp add: index_combine_def eval_index_eq [of \<rho> a] eval_index_eq [of \<rho> b] algebra_simps)
qed

lemma coeff_combine:
  assumes "wf_index a" and "wf_index b"
  shows "dict_get (terms (index_combine a b s)) l = dict_get (terms a) l + s * dict_get (terms b) l"
proof -
  have "wf_dict (merge_terms s (terms a) (terms b))"
    using assms by (intro wf_merge_terms) (auto simp: wf_index_iff wf_dict_def)
  then show ?thesis
    using assms
    by (simp add: index_combine_def dict_get_filter_nonzero dict_get_merge_terms wf_index_iff wf_dict_def)
qed

lemma wf_scaled: "wf_index e \<Longrightarrow> wf_dict (map (\<lambda>(l, c). (l, f c)) (terms e))"
  by (auto simp: wf_index_iff wf_dict_def dict_keys_def comp_def case_prod_unfold)

lemma eval_terms_scaled:
  "eval_terms \<rho> (map (\<lambda>(l, c). (l, c * k)) ts) = eval_terms \<rho> ts * k"
  by (induction ts) (auto simp: algebra_simps)

lemma wf_scale: "wf_index e \<Longrightarrow> wf_index (index_scale k e)"
  unfolding index_scale_def by (intro wf_mk_index wf_scaled)

lemma eval_scale: "eval_index \<rho> (index_scale k e) = eval_index \<rho> e * k"
  by (simp add: index_scale_def eval_terms_scaled eval_index_eq [of \<rho> e] algebra_simps del: map_map)

lemma wf_neg: "wf_index e \<Longrightarrow> wf_index (index_neg e)"
  unfolding index_neg_def by (intro wf_mk_index wf_scaled)

lemma eval_neg: "eval_index \<rho> (index_neg e) = - eval_index \<rho> e"
  using eval_terms_scaled [of \<rho> "-1" "terms e"] by (simp add: index_neg_def eval_index_eq [of \<rho> e])

lemma eval_no_terms: "terms e = [] \<Longrightarrow> eval_index \<rho> e = const e"
  by (simp add: eval_index_eq)

lemma as_const_sound: "as_const e = Some k \<Longrightarrow> eval_index \<rho> e = k"
  by (auto simp: as_const_def eval_no_terms split: if_splits)

lemma as_const_constant [simp]: "as_const (index_constant k) = Some k"
  by (simp add: as_const_def index_constant_def)

lemma mul_spec:
  assumes "index_mul a b = Inr c" and "wf_index a" and "wf_index b"
  shows "wf_index c \<and> eval_index \<rho> c = eval_index \<rho> a * eval_index \<rho> b"
  using assms by (auto simp: index_mul_def wf_scale eval_scale eval_no_terms split: if_splits)

lemma divide_spec:
  assumes "index_divide a b kd = Inr c" and "wf_index a"
  shows "wf_index c \<and> 0 < eval_index \<rho> b \<and>
    eval_index \<rho> c = (case kd of FloorDiv \<Rightarrow> eval_index \<rho> a div eval_index \<rho> b
                               | Mod \<Rightarrow> eval_index \<rho> a mod eval_index \<rho> b)"
  using assms
  by (cases kd) (auto simp: index_divide_def Let_def eval_no_terms mk_index_def split: if_splits)


section \<open>Exact cancellation\<close>

lemma no_coeff_no_terms:
  assumes "wf_index e" and "\<And>l. dict_get (terms e) l = 0"
  shows "terms e = []"
proof (cases "terms e")
  case (Cons t ts)
  obtain l a where t: "t = (l, a)" by force
  with Cons have "(l, a) \<in> set (terms e)" by simp
  moreover from this have "dict_get (terms e) l = a"
    using assms(1) by (auto simp: wf_index_iff intro: dict_get_present)
  ultimately show ?thesis
    using assms by (auto simp: wf_index_iff)
qed

lemma const_combine [simp]: "const (index_combine a b s) = const a + s * const b"
  by (simp add: index_combine_def)

text \<open>
  A difference folds to a Python integer exactly when the two forms have the same coefficient on
  every leaf; the integer is then the difference of the constants.
\<close>

lemma as_const_sub_iff:
  assumes "wf_index a" and "wf_index b"
  shows "as_const (index_sub a b) = Some k \<longleftrightarrow>
    (\<forall>l. dict_get (terms a) l = dict_get (terms b) l) \<and> k = const a - const b"
proof -
  let ?d = "index_combine a b (-1)"
  have coeff: "dict_get (terms ?d) l = dict_get (terms a) l - dict_get (terms b) l" for l
    using coeff_combine [OF assms] by simp
  have "terms ?d = [] \<longleftrightarrow> (\<forall>l. dict_get (terms a) l = dict_get (terms b) l)"
    using coeff no_coeff_no_terms [OF wf_combine [OF assms, of "-1"]]
    by (metis dict_get.simps(1) right_minus_eq)
  then show ?thesis
    by (auto simp: as_const_def index_sub_def)
qed

lemma slice_size_recovered:
  assumes "wf_index row"
  shows "as_const (index_sub (index_add row (index_constant n)) row) = Some n"
proof -
  have "wf_index (index_add row (index_constant n))"
    using assms by (simp add: index_add_def wf_combine)
  with assms show ?thesis
    using as_const_sub_iff [of "index_add row (index_constant n)" row n]
    by (simp add: index_add_def coeff_combine) (simp add: index_constant_def)
qed

section \<open>The interface of an index operator\<close>

text \<open>
  What the rest of the package relies on when it combines offsets: an operator keeps the invariant and
  computes the integer function \<open>g\<close> of the operands' values, whatever the coordinates hold. An
  operator that may raise promises this of the results it returns.
\<close>

locale index_operator =
  fixes f :: "index_expr \<Rightarrow> index_expr \<Rightarrow> index_expr res"
    and g :: "int \<Rightarrow> int \<Rightarrow> int"
  assumes op_wf: "f a b = Inr c \<Longrightarrow> wf_index a \<Longrightarrow> wf_index b \<Longrightarrow> wf_index c"
    and op_eval: "f a b = Inr c \<Longrightarrow> wf_index a \<Longrightarrow> wf_index b \<Longrightarrow>
      eval_index \<rho> c = g (eval_index \<rho> a) (eval_index \<rho> b)"
begin

text \<open>Folding to a constant is sound: the constant is the operator's value for every binding.\<close>

lemma fold_sound:
  assumes "f a b = Inr c" and "as_const c = Some k" and "wf_index a" and "wf_index b"
  shows "g (eval_index \<rho> a) (eval_index \<rho> b) = k"
  using op_eval [OF assms(1,3,4)] as_const_sound [OF assms(2)] by metis

text \<open>The lowering of a result computes the operator's value.\<close>

lemma result_value:
  assumes "f a b = Inr c" and "wf_index a" and "wf_index b" and "f c d = Inr e" and "wf_index d"
  shows "eval_index \<rho> e = g (g (eval_index \<rho> a) (eval_index \<rho> b)) (eval_index \<rho> d)"
  using op_eval [OF assms(4) op_wf [OF assms(1-3)] assms(5)] op_eval [OF assms(1-3)] by simp

end

text \<open>An operator that always returns is the special case in which totality is promised as well.\<close>

locale total_index_operator = index_operator +
  assumes op_total: "\<exists>c. f a b = Inr c"
begin

lemma fold_all:
  assumes "wf_index a" and "\<forall>b \<in> set bs. wf_index b"
  shows "\<exists>c. foldl (\<lambda>r b. res_bind r (\<lambda>x. f x b)) (Inr a) bs = Inr c \<and> wf_index c \<and>
    (\<forall>\<rho>. eval_index \<rho> c = foldl g (eval_index \<rho> a) (map (eval_index \<rho>) bs))"
  using assms
proof (induction bs arbitrary: a)
  case (Cons b bs)
  obtain c where c: "f a b = Inr c" using op_total by blast
  have wfc: "wf_index c" using op_wf [OF c] Cons.prems by simp
  obtain d where d: "foldl (\<lambda>r b. res_bind r (\<lambda>x. f x b)) (Inr c) bs = Inr d" "wf_index d"
    "\<And>\<rho>. eval_index \<rho> d = foldl g (eval_index \<rho> c) (map (eval_index \<rho>) bs)"
    using Cons.IH [OF wfc] Cons.prems(2) by auto
  then show ?case
    using c op_eval [OF c] Cons.prems by simp
qed simp

end

interpretation ix_add: total_index_operator "\<lambda>a b. Inr (index_add a b)" "(+)"
  by unfold_locales (auto simp: index_add_def wf_combine eval_combine)

interpretation ix_sub: total_index_operator "\<lambda>a b. Inr (index_sub a b)" "(-)"
  by unfold_locales (auto simp: index_sub_def wf_combine eval_combine)

interpretation ix_mul: index_operator index_mul "(*)"
  by unfold_locales (auto dest: mul_spec)

interpretation ix_div: index_operator index_floordiv "(div)"
  by unfold_locales (auto simp: index_floordiv_def dest: divide_spec)

interpretation ix_mod: index_operator index_mod "(mod)"
  by unfold_locales (auto simp: index_mod_def dest: divide_spec)

lemma wf_add [simp, intro]: "wf_index a \<Longrightarrow> wf_index b \<Longrightarrow> wf_index (index_add a b)"
  by (simp add: index_add_def wf_combine)

lemma wf_sub [simp, intro]: "wf_index a \<Longrightarrow> wf_index b \<Longrightarrow> wf_index (index_sub a b)"
  by (simp add: index_sub_def wf_combine)

lemma eval_add [simp]:
  "wf_index a \<Longrightarrow> wf_index b \<Longrightarrow> eval_index \<rho> (index_add a b) = eval_index \<rho> a + eval_index \<rho> b"
  by (simp add: index_add_def eval_combine)

lemma eval_sub [simp]:
  "wf_index a \<Longrightarrow> wf_index b \<Longrightarrow> eval_index \<rho> (index_sub a b) = eval_index \<rho> a - eval_index \<rho> b"
  by (simp add: index_sub_def eval_combine)

definition wf_index_like :: "index_like \<Rightarrow> bool" where
  "wf_index_like v = (case v of VIndex e \<Rightarrow> wf_index e | VRuntime e \<Rightarrow> wf_index e | _ \<Rightarrow> True)"

lemma wf_coerce: "coerce_index v = Inr e \<Longrightarrow> wf_index_like v \<Longrightarrow> wf_index e"
  by (cases v rule: coerce_index.cases) (auto simp: wf_index_like_def)

section \<open>The lowering is faithful\<close>

text \<open>
  What the lowering relies on of \<open>air.ir\<close>: the documented meaning of affine expressions over symbol
  values \<open>vs\<close>, with a multiplication by a constant and a floor division and remainder by a positive
  constant.
\<close>

definition affine_laws :: "'e affine_api \<Rightarrow> ('e \<Rightarrow> int list \<Rightarrow> int) \<Rightarrow> bool" where
  "affine_laws A sem \<longleftrightarrow>
     (\<forall>x y vs. sem (get_add A x y) vs = sem x vs + sem y vs) \<and>
     (\<forall>x k vs. sem (get_mul A x (get_constant A k)) vs = sem x vs * k) \<and>
     (\<forall>x k vs. 0 < k \<longrightarrow> sem (get_mod A x (get_constant A k)) vs = sem x vs mod k) \<and>
     (\<forall>x k vs. 0 < k \<longrightarrow> sem (get_floor_div A x (get_constant A k)) vs = sem x vs div k) \<and>
     (\<forall>k vs. sem (get_constant A k) vs = k) \<and>
     (\<forall>i vs. i < length vs \<longrightarrow> sem (get_symbol A i) vs = vs ! i)"

lemma setdefault_keys:
  "set (map leaf_key_of (setdefault_leaves seen ls)) = set (map leaf_key_of seen) \<union> set (map leaf_key_of ls)"
  by (induction seen ls rule: setdefault_leaves.induct) auto

lemma setdefault_subset: "set (setdefault_leaves seen ls) \<subseteq> set seen \<union> set ls"
  by (induction seen ls rule: setdefault_leaves.induct) (auto split: if_splits)

lemma setdefault_distinct:
  "distinct (map leaf_key_of seen) \<Longrightarrow> distinct (map leaf_key_of (setdefault_leaves seen ls))"
  by (induction seen ls rule: setdefault_leaves.induct) auto

lemma leaves_are_leaves:
  "l \<in> set (leaf_leaves x) \<Longrightarrow> \<exists>i n s. l = Leaf i n s"
  "l \<in> set (index_leaves e) \<Longrightarrow> \<exists>i n s. l = Leaf i n s"
proof (induction x and e arbitrary: l and l rule: leaf_leaves_index_leaves.induct)
  case (3 ts c)
  have "l \<in> set (concat (map (\<lambda>(l, a). leaf_leaves l) ts))"
    using 3(2) setdefault_subset [of "[]" "concat (map (\<lambda>(l, a). leaf_leaves l) ts)", THEN subsetD, of l]
    unfolding index_leaves.simps by (simp only: list.set Un_empty_left)
  then obtain l' a where "(l', a) \<in> set ts" "l \<in> set (leaf_leaves l')" by auto
  with 3(1) [OF this(1) refl] show ?case by blast
qed auto

lemma index_leaves_distinct: "distinct (map leaf_key_of (index_leaves e))"
  by (cases e) (simp add: setdefault_distinct)

lemma position_of_less:
  "leaf_key_of l \<in> set (map leaf_key_of ls) \<Longrightarrow>
     position_of ls l < length ls \<and> leaf_key_of (ls ! position_of ls l) = leaf_key_of l"
  by (induction ls l rule: position_of.induct) auto

lemma eval_leaf_key_Leaf: "leaf_key_of l = KLeaf i \<Longrightarrow> eval_leaf \<rho> l = \<rho> i"
  by (cases l) (auto split: prod.splits)

lemma affine_eval:
  assumes laws: "affine_laws A sem"
    and sym: "\<And>i n s. KLeaf i \<in> set (map leaf_key_of ls) \<Longrightarrow> sem (symbol_of (Leaf i n s)) vs = \<rho> i"
  shows "wf_leaf x \<Longrightarrow> set (map leaf_key_of (leaf_leaves x)) \<subseteq> set (map leaf_key_of ls) \<Longrightarrow>
           sem (leaf_affine A symbol_of x) vs = eval_leaf \<rho> x"
    and "wf_index e \<Longrightarrow> set (map leaf_key_of (index_leaves e)) \<subseteq> set (map leaf_key_of ls) \<Longrightarrow>
           sem (index_affine A symbol_of e) vs = eval_index \<rho> e"
proof (induction x and e rule: leaf_leaves_index_leaves.induct)
  case (1 i n s)
  then show ?case using sym by simp
next
  case (2 kd e k)
  then show ?case using laws by (cases kd) (auto simp: affine_laws_def Let_def)
next
  case (3 ts c)
  have part: "sem (if a \<noteq> 1 then get_mul A (leaf_affine A symbol_of l) (get_constant A a)
      else leaf_affine A symbol_of l) vs = a * eval_leaf \<rho> l" if "(l, a) \<in> set ts" for l a
  proof -
    have "set (map leaf_key_of (leaf_leaves l)) \<subseteq> set (map leaf_key_of ls)"
      using that 3(3) setdefault_keys [of "[]" "concat (map (\<lambda>(l, a). leaf_leaves l) ts)"] by fastforce
    then have "sem (leaf_affine A symbol_of l) vs = eval_leaf \<rho> l"
      using 3(1) [OF that refl] 3(2) that by auto
    then show ?thesis
      using laws by (simp add: affine_laws_def)
  qed
  have sum: "sem (foldl (get_add A) p ps) vs = sem p vs + (\<Sum>q\<leftarrow>ps. sem q vs)" for p ps
    using laws by (induction ps arbitrary: p) (auto simp: affine_laws_def)
  let ?part = "\<lambda>(l, a). if a \<noteq> 1 then get_mul A (leaf_affine A symbol_of l) (get_constant A a)
      else leaf_affine A symbol_of l"
  have parts: "map (\<lambda>t. sem (?part t) vs) us = map (\<lambda>(l, a). a * eval_leaf \<rho> l) us" if "set us \<subseteq> set ts" for us
  proof (rule map_cong [OF refl])
    fix t assume "t \<in> set us"
    with that have "t \<in> set ts" by blast
    then obtain l a where t: "t = (l, a)" and la: "(l, a) \<in> set ts"
      by (metis surj_pair)
    from part [OF la] show "sem (?part t) vs = (case t of (l, a) \<Rightarrow> a * eval_leaf \<rho> l)"
      by (simp add: t)
  qed
  show ?case
  proof (cases ts)
    case Nil
    then show ?thesis using laws by (simp add: affine_laws_def)
  next
    case (Cons t us)
    have us: "set us \<subseteq> set ts" and t: "set [t] \<subseteq> set ts" using Cons by auto
    have tail: "(\<Sum>q\<leftarrow>map ?part us. sem q vs) = eval_terms \<rho> us"
      using arg_cong [OF parts [OF us], of sum_list] by (simp only: map_map comp_def)
    have head: "sem (?part t) vs = (case t of (l, a) \<Rightarrow> a * eval_leaf \<rho> l)"
      using parts [OF t] by (simp only: list.map list.inject)
    have "sem (foldl (get_add A) (?part t) (map ?part us)) vs = eval_terms \<rho> ts"
      by (simp only: sum tail head) (simp add: Cons)
    with Cons laws show ?thesis
      by (simp add: affine_laws_def Let_def)
  qed
qed


lemma materialize_spec:
  assumes laws: "affine_laws A sem" and wf: "wf_index e" and x: "index_materialize A e = MApply x ls"
  shows "sem x (map (eval_leaf \<rho>) ls) = eval_index \<rho> e"
proof -
  let ?symbol_of = "\<lambda>l. get_symbol A (position_of ls l)"
  have ls: "ls = index_leaves e" and xe: "x = index_affine A ?symbol_of e"
    using x by (auto simp: index_materialize_def Let_def split: if_splits)
  have "sem (?symbol_of (Leaf i n s)) (map (eval_leaf \<rho>) ls) = \<rho> i"
    if "KLeaf i \<in> set (map leaf_key_of ls)" for i n s
  proof -
    let ?p = "position_of ls (Leaf i n s)"
    have p: "?p < length ls" "leaf_key_of (ls ! ?p) = KLeaf i"
      using position_of_less [of "Leaf i n s" ls] that by auto
    then have "sem (?symbol_of (Leaf i n s)) (map (eval_leaf \<rho>) ls) = eval_leaf \<rho> (ls ! ?p)"
      using laws by (simp add: affine_laws_def)
    with p(2) show ?thesis by (simp add: eval_leaf_key_Leaf)
  qed
  then show ?thesis
    unfolding xe using laws wf by (intro affine_eval(2) [where ls = ls]) (auto simp: ls)
qed

section \<open>Structural identity of derived leaves\<close>

lemma key_items:
  assumes "wf_index e"
  shows "(k, a) |\<in>| fst (expr_key e) \<longleftrightarrow> a \<noteq> 0 \<and> (\<exists>l. leaf_key_of l = k \<and> dict_get (terms e) l = a)"
proof -
  obtain ts c where e: "e = IndexExpr ts c" by (cases e)
  have wf: "wf_dict ts" and nz: "\<forall>(l, a) \<in> set ts. a \<noteq> 0"
    using assms by (auto simp: wf_index_iff e)
  have "(k, a) |\<in>| fst (expr_key e) \<longleftrightarrow> (\<exists>l. leaf_key_of l = k \<and> (l, a) \<in> set ts)"
    by (auto simp: e fset_of_list_elem)
  also have "\<dots> \<longleftrightarrow> a \<noteq> 0 \<and> (\<exists>l. leaf_key_of l = k \<and> dict_get ts l = a)"
  proof
    assume "\<exists>l. leaf_key_of l = k \<and> (l, a) \<in> set ts"
    then show "a \<noteq> 0 \<and> (\<exists>l. leaf_key_of l = k \<and> dict_get ts l = a)"
      using wf nz dict_get_present by fastforce
  next
    assume "a \<noteq> 0 \<and> (\<exists>l. leaf_key_of l = k \<and> dict_get ts l = a)"
    then obtain l where l: "leaf_key_of l = k" "dict_get ts l = a" "a \<noteq> 0" by blast
    then have "leaf_key_of l \<in> set (dict_keys ts)"
      using dict_get_absent by metis
    then obtain l' a' where l': "(l', a') \<in> set ts" "leaf_key_of l' = k"
      using l(1) by (auto simp: dict_keys_def)
    then have "a' = a"
      using dict_get_present [OF wf l'(1)] dict_get_cong [of l' l ts] l by simp
    with l' show "\<exists>l. leaf_key_of l = k \<and> (l, a) \<in> set ts" by blast
  qed
  finally show ?thesis by (simp add: e)
qed

lemma expr_key_eqI:
  assumes "wf_index e" "wf_index e'" "\<And>l. dict_get (terms e) l = dict_get (terms e') l" "const e = const e'"
  shows "expr_key e = expr_key e'"
proof -
  have "fst (expr_key e) = fst (expr_key e')"
    by (rule fset_eqI) (use key_items assms in \<open>auto simp: prod_eq_iff\<close>)
  moreover have "snd (expr_key e) = snd (expr_key e')"
    using assms(4) by (cases e; cases e') simp
  ultimately show ?thesis by (simp add: prod_eq_iff)
qed


section \<open>The operators, branch by branch\<close>

lemma add_spec:
  assumes "wf_index a" "wf_index b"
  shows "wf_index (index_add a b) \<and> eval_index \<rho> (index_add a b) = eval_index \<rho> a + eval_index \<rho> b"
  using assms ix_add.op_eval [OF refl assms] by blast

lemma sub_spec:
  assumes "wf_index a" "wf_index b"
  shows "wf_index (index_sub a b) \<and> eval_index \<rho> (index_sub a b) = eval_index \<rho> a - eval_index \<rho> b"
  using assms ix_sub.op_eval [OF refl assms] by blast

lemma neg_spec:
  assumes "wf_index a"
  shows "wf_index (index_neg a) \<and> eval_index \<rho> (index_neg a) = - eval_index \<rho> a"
  using assms by (simp add: wf_neg eval_neg)

lemma mul_total_spec:
  assumes "wf_index a" "wf_index b"
  shows "case index_mul a b of
      Inl e \<Rightarrow> e = TypeError \<and> as_const a = None \<and> as_const b = None
    | Inr c \<Rightarrow> wf_index c \<and> eval_index \<rho> c = eval_index \<rho> a * eval_index \<rho> b"
proof (cases "index_mul a b")
  case (Inl e)
  then show ?thesis by (simp add: index_mul_def as_const_def split: if_splits)
next
  case (Inr c)
  then show ?thesis using ix_mul.op_wf [OF Inr assms] ix_mul.op_eval [OF Inr assms] by simp
qed

lemma divide_error:
  "index_divide a b kd = Inl e \<Longrightarrow>
     (e = TypeError \<and> as_const b = None) \<or> (e = ValueError \<and> (\<exists>k. as_const b = Some k \<and> k \<le> 0))"
  by (simp add: index_divide_def as_const_def Let_def split: if_splits)

lemma floordiv_total_spec:
  assumes "wf_index a"
  shows "case index_floordiv a b of
      Inl e \<Rightarrow> (e = TypeError \<and> as_const b = None) \<or> (e = ValueError \<and> (\<exists>k. as_const b = Some k \<and> k \<le> 0))
    | Inr c \<Rightarrow> wf_index c \<and> 0 < eval_index \<rho> b \<and> eval_index \<rho> c = eval_index \<rho> a div eval_index \<rho> b"
  using divide_spec [of a b FloorDiv, OF _ assms] divide_error [of a b FloorDiv]
  by (cases "index_divide a b FloorDiv") (simp_all add: index_floordiv_def)

lemma mod_total_spec:
  assumes "wf_index a"
  shows "case index_mod a b of
      Inl e \<Rightarrow> (e = TypeError \<and> as_const b = None) \<or> (e = ValueError \<and> (\<exists>k. as_const b = Some k \<and> k \<le> 0))
    | Inr c \<Rightarrow> wf_index c \<and> 0 < eval_index \<rho> b \<and> eval_index \<rho> c = eval_index \<rho> a mod eval_index \<rho> b"
  using divide_spec [of a b Mod, OF _ assms] divide_error [of a b Mod]
  by (cases "index_divide a b Mod") (simp_all add: index_mod_def)

section \<open>Properties\<close>

text \<open>
  C2: lowering is faithful. Whatever the coordinates hold, the value \<open>materialize\<close> yields for an
  expression (the folded integer, or the single \<open>affine.apply\<close> with one symbol per distinct real leaf)
  is the value of the expression, and the apply's operands are real leaves, each once. The hypothesis on
  \<open>air.ir\<close> is the documented meaning of its affine builders.
\<close>

theorem materialize_faithful:
  assumes "affine_laws A sem" and "wf_index e"
  shows "case index_materialize A e of
      MInt k \<Rightarrow> (\<forall>\<rho>. eval_index \<rho> e = k)
    | MApply x ls \<Rightarrow> (\<forall>\<rho>. sem x (map (eval_leaf \<rho>) ls) = eval_index \<rho> e) \<and>
        distinct (map leaf_key_of ls) \<and> (\<forall>l \<in> set ls. \<exists>i n s. l = Leaf i n s)"
proof (cases "terms e = []")
  case True
  then show ?thesis
    by (simp add: index_materialize_def eval_no_terms)
next
  case False
  then obtain x where x: "index_materialize A e = MApply x (index_leaves e)"
    by (simp add: index_materialize_def Let_def)
  then show ?thesis
    using materialize_spec [OF assms x] leaves_are_leaves(2) index_leaves_distinct by auto
qed

definition fn_affine :: "(int list \<Rightarrow> int) affine_api" where
  "fn_affine = \<lparr>get_add = (\<lambda>x y vs. x vs + y vs), get_mul = (\<lambda>x y vs. x vs * y vs),
     get_mod = (\<lambda>x y vs. x vs mod y vs), get_floor_div = (\<lambda>x y vs. x vs div y vs),
     get_constant = (\<lambda>k vs. k), get_symbol = (\<lambda>i vs. vs ! i)\<rparr>"

lemma fn_affine_laws: "affine_laws fn_affine (\<lambda>x. x)"
  by (simp add: affine_laws_def fn_affine_def)

theorem materialize_faithful_witness:
  "\<exists>x ls. index_materialize fn_affine
      (IndexExpr [(Leaf 0 ''tx'' True, 8), (DerivedLeaf Mod (IndexExpr [(Leaf 1 ''k'' False, 1)] 1) 4, 2)] 3)
      = MApply x ls \<and> x (map (eval_leaf (\<lambda>i. if i = 0 then 5 else 6)) ls) = 49"
proof -
  let ?e = "IndexExpr [(Leaf 0 ''tx'' True, 8), (DerivedLeaf Mod (IndexExpr [(Leaf 1 ''k'' False, 1)] 1) 4, 2)] 3"
  have wf: "wf_index ?e" by (simp split: prod.splits)
  obtain x ls where m: "index_materialize fn_affine ?e = MApply x ls"
    by (simp add: index_materialize_def Let_def)
  have "x (map (eval_leaf (\<lambda>i. if i = 0 then 5 else 6)) ls) = eval_index (\<lambda>i. if i = 0 then 5 else 6) ?e"
    using materialize_faithful [OF fn_affine_laws wf] unfolding m by simp
  with m show ?thesis by simp
qed

text \<open>
  Exact cancellation. The difference of two expressions is a Python integer precisely when they have
  the same coefficient on every leaf; in particular \<open>(row + n) - row\<close> always folds to \<open>n\<close>, which is how
  a slice recovers its static size.
\<close>

theorem difference_folds_exactly:
  assumes "wf_index a" and "wf_index b"
  shows "(as_const (index_sub a b) = Some k \<longleftrightarrow>
           (\<forall>l. dict_get (terms a) l = dict_get (terms b) l) \<and> k = const a - const b)
       \<and> as_const (index_sub (index_add a (index_constant n)) a) = Some n"
  using as_const_sub_iff [OF assms] slice_size_recovered [OF assms(1)] by blast

theorem difference_folds_exactly_witness:
  "as_const (index_sub (index_add (index_leaf 0 ''tx'' True) (index_constant 32)) (index_leaf 0 ''tx'' True))
     = Some 32"
  using difference_folds_exactly [of "index_leaf 0 ''tx'' True" "index_leaf 0 ''tx'' True"] by simp

text \<open>
  The operators compute. Addition, subtraction and negation always return, keep the class invariant
  and compute the integer operation for every binding of the coordinates; multiplication, floor division
  and remainder do so whenever they return, and they raise exactly when the combination is not affine or
  the divisor is not a positive constant.
\<close>

theorem index_operators_compute:
  assumes "wf_index a" and "wf_index b"
  shows "(wf_index (index_add a b) \<and> eval_index \<rho> (index_add a b) = eval_index \<rho> a + eval_index \<rho> b) \<and>
    (wf_index (index_sub a b) \<and> eval_index \<rho> (index_sub a b) = eval_index \<rho> a - eval_index \<rho> b) \<and>
    (wf_index (index_neg a) \<and> eval_index \<rho> (index_neg a) = - eval_index \<rho> a) \<and>
    (case index_mul a b of
       Inl e \<Rightarrow> e = TypeError \<and> as_const a = None \<and> as_const b = None
     | Inr c \<Rightarrow> wf_index c \<and> eval_index \<rho> c = eval_index \<rho> a * eval_index \<rho> b) \<and>
    (case index_floordiv a b of
       Inl e \<Rightarrow> (e = TypeError \<and> as_const b = None) \<or> (e = ValueError \<and> (\<exists>k. as_const b = Some k \<and> k \<le> 0))
     | Inr c \<Rightarrow> wf_index c \<and> 0 < eval_index \<rho> b \<and> eval_index \<rho> c = eval_index \<rho> a div eval_index \<rho> b) \<and>
    (case index_mod a b of
       Inl e \<Rightarrow> (e = TypeError \<and> as_const b = None) \<or> (e = ValueError \<and> (\<exists>k. as_const b = Some k \<and> k \<le> 0))
     | Inr c \<Rightarrow> wf_index c \<and> 0 < eval_index \<rho> b \<and> eval_index \<rho> c = eval_index \<rho> a mod eval_index \<rho> b)"
  using add_spec [OF assms] sub_spec [OF assms] neg_spec [OF assms(1)] mul_total_spec [OF assms]
    floordiv_total_spec [OF assms(1)] mod_total_spec [OF assms(1)]
  by (intro conjI) blast+

theorem index_operators_compute_witness:
  "eval_index (\<lambda>_. 7) (index_add (index_leaf 0 ''tx'' True) (index_constant 5)) = 12"
  using index_operators_compute [of "index_leaf 0 ''tx'' True" "index_constant 5" "\<lambda>_. 7"] by simp

text \<open>
  Derived leaves are structural. Two separately built copies of \<open>(a + b) // k\<close> or \<open>(a + b) % k\<close>, with
  the sum written in either order, cancel under subtraction.
\<close>

theorem derived_leaves_cancel:
  assumes "wf_index a" and "wf_index b"
    and x: "index_divide (index_add a b) c kd = Inr x" and y: "index_divide (index_add b a) c kd = Inr y"
  shows "as_const (index_sub x y) = Some 0"
proof -
  have ab: "wf_index (index_add a b)" "wf_index (index_add b a)" using assms by auto
  have coeff: "dict_get (terms (index_add a b)) l = dict_get (terms (index_add b a)) l" for l
    using assms by (simp add: index_add_def coeff_combine)
  have const: "const (index_add a b) = const (index_add b a)"
    by (simp add: index_add_def)
  have key: "expr_key (index_add a b) = expr_key (index_add b a)"
    using expr_key_eqI [OF ab] coeff const by blast
  have nil: "terms (index_add a b) = [] \<longleftrightarrow> terms (index_add b a) = []"
    using coeff no_coeff_no_terms [OF ab(1)] no_coeff_no_terms [OF ab(2)] by (metis dict_get.simps(1))
  have wf: "wf_index x" "wf_index y"
    using divide_spec [OF x ab(1)] divide_spec [OF y ab(2)] by auto
  have "dict_get (terms x) l = dict_get (terms y) l" for l
    using x y key nil coeff
    by (cases kd) (auto simp: index_divide_def Let_def mk_index_def split: if_splits prod.splits)
  moreover have "const x = const y"
    using x y nil const by (cases kd) (auto simp: index_divide_def Let_def mk_index_def split: if_splits)
  ultimately show ?thesis
    using as_const_sub_iff [OF wf] by simp
qed

theorem derived_leaves_cancel_witness:
  "\<exists>x y. index_divide (index_add (index_leaf 0 ''t'' True) (index_leaf 1 ''k'' False)) (index_constant 4) Mod = Inr x
     \<and> index_divide (index_add (index_leaf 1 ''k'' False) (index_leaf 0 ''t'' True)) (index_constant 4) Mod = Inr y
     \<and> as_const (index_sub x y) = Some 0"
proof -
  obtain x where x: "index_divide (index_add (index_leaf 0 ''t'' True) (index_leaf 1 ''k'' False)) (index_constant 4) Mod = Inr x"
    by (simp add: index_divide_def index_add_def index_combine_def index_leaf_def index_constant_def mk_index_def)
  obtain y where y: "index_divide (index_add (index_leaf 1 ''k'' False) (index_leaf 0 ''t'' True)) (index_constant 4) Mod = Inr y"
    by (simp add: index_divide_def index_add_def index_combine_def index_leaf_def index_constant_def mk_index_def)
  show ?thesis
    using derived_leaves_cancel [OF wf_leaf_expr wf_leaf_expr x y] x y by blast
qed

end
