(* ===== verification/View_Laws.thy ===== *)
theory View_Laws
  imports Views
begin

text \<open>
  What a region means and what the view operations do to it. A region denotes the list of addresses
  (in elements, from the start of its array) that a row-major walk over its sizes visits. Reshape keeps
  the list, transpose permutes it, a broadcast reads it through a projection of the index, and a
  subscript shifts the index.
\<close>

section \<open>Addresses\<close>

text \<open>An evaluated axis: offset, size, stride.\<close>

type_synonym axis = "int \<times> int \<times> int"

fun addr :: "axis list \<Rightarrow> int list \<Rightarrow> int" where
  "addr ((off, n, s) # axs) (i # is) = (off + i) * s + addr axs is"
| "addr _ _ = 0"

abbreviation axis_sizes :: "axis list \<Rightarrow> int list" where
  "axis_sizes axs \<equiv> map (\<lambda>a. fst (snd a)) axs"

definition walk :: "axis list \<Rightarrow> int list" where
  "walk axs = map (addr axs) (box (axis_sizes axs))"

definition region_axes :: "(nat \<Rightarrow> int) \<Rightarrow> 'o region \<Rightarrow> axis list" where
  "region_axes \<rho> v = zip (map (eval_index \<rho>) (offsets v)) (zip (sizes v) (strides v))"

definition region_walk :: "(nat \<Rightarrow> int) \<Rightarrow> 'o region \<Rightarrow> int list" where
  "region_walk \<rho> v = walk (region_axes \<rho> v)"

text \<open>The invariant of a region: one offset, size, stride and drop flag per axis, no empty axis.\<close>

definition wf_region :: "'o region \<Rightarrow> bool" where
  "wf_region v \<longleftrightarrow> length (offsets v) = length (sizes v) \<and> length (strides v) = length (sizes v) \<and>
     length (dropped v) = length (sizes v) \<and> length (logical_sizes v) = length (sizes v) \<and>
     (\<forall>n \<in> set (sizes v). 1 \<le> n) \<and> (\<forall>e \<in> set (offsets v). wf_index e)"

lemma walk_Nil [simp]: "walk [] = [0]"
  by (simp add: walk_def)

lemma walk_Cons:
  "walk ((off, n, s) # axs) = concat (map (\<lambda>i. map (\<lambda>a. (off + int i) * s + a) (walk axs)) [0..<nat n])"
  by (simp add: walk_def map_concat comp_def)

lemma concat_concat_map: "concat (concat (map g xs)) = concat (map (\<lambda>x. concat (g x)) xs)"
  by (induction xs) auto

lemma axis_sizes_zip [simp]:
  assumes "length offs = length szs" "length strs = length szs"
  shows "map (\<lambda>a. fst (snd a)) (zip offs (zip szs strs)) = szs"
proof -
  have "map (\<lambda>a. fst (snd a)) (zip offs (zip szs strs)) = map fst (map snd (zip offs (zip szs strs)))"
    by (simp only: map_map comp_def)
  with assms show ?thesis by simp
qed

lemma plus_sum: "(+) (a + b :: int) = (\<lambda>c. a + (b + c))"
  by (simp add: fun_eq_iff)

lemma walk_append: "walk (xs @ ys) = concat (map (\<lambda>a. map ((+) a) (walk ys)) (walk xs))"
proof (induction xs)
  case (Cons x xs)
  obtain off n s where x: "x = (off, n, s)" by (cases x)
  show ?case
    by (simp add: x walk_Cons Cons concat_concat_map map_concat comp_def plus_sum)
qed (simp add: map_idI)

lemma walk_append_cong: "walk xs = walk xs' \<Longrightarrow> walk ys = walk ys' \<Longrightarrow> walk (xs @ ys) = walk (xs' @ ys')"
  by (simp add: walk_append)

lemma walk_Cons_cong: "walk axs = walk axs' \<Longrightarrow> walk (x # axs) = walk (x # axs')"
  using walk_append_cong [of "[x]" "[x]" axs axs'] by simp

lemma walk_unit: "walk ((off, 1, s) # axs) = map ((+) (off * s)) (walk axs)"
  by (simp add: walk_Cons)

lemma walk_unit_zero: "off = 0 \<Longrightarrow> walk ((off, 1, s) # axs) = walk axs"
  by (simp add: walk_unit map_idI)

text \<open>A chain of axes whose strides continue each other visits an arithmetic progression.\<close>

fun chained :: "int \<Rightarrow> axis list \<Rightarrow> bool" where
  "chained inner [] = True"
| "chained inner ((off, n, s) # axs) = (s = inner * prod_list (axis_sizes axs) \<and> chained inner axs)"

definition base_of :: "axis list \<Rightarrow> int" where
  "base_of axs = (\<Sum>(off, n, s)\<leftarrow>axs. off * s)"

lemma base_of_simps [simp]: "base_of [] = 0" "base_of ((off, n, s) # axs) = off * s + base_of axs"
  by (simp_all add: base_of_def)

lemma walk_chained:
  assumes "chained inner axs" and "\<forall>n \<in> set (axis_sizes axs). 1 \<le> n"
  shows "walk axs = map (\<lambda>k. base_of axs + inner * int k) [0..<nat (prod_list (axis_sizes axs))]"
  using assms
proof (induction inner axs rule: chained.induct)
  case (2 inner off n s axs)
  let ?p = "prod_list (axis_sizes axs)"
  have p: "0 \<le> ?p" and n: "0 \<le> n"
    using 2(3) prod_list_ge_1 [of "axis_sizes axs"] by force+
  have s: "s = inner * ?p" using 2(2) by simp
  have "walk ((off, n, s) # axs)
      = concat (map (\<lambda>i. map (\<lambda>k. base_of ((off, n, s) # axs) + inner * int k)
          (map (\<lambda>j. i * nat ?p + j) [0..<nat ?p])) [0..<nat n])"
    using 2 p by (simp add: walk_Cons s comp_def algebra_simps)
  also have "\<dots> = map (\<lambda>k. base_of ((off, n, s) # axs) + inner * int k) [0..<nat n * nat ?p]"
    unfolding upt_mult_concat [symmetric] by (simp add: map_concat comp_def)
  finally show ?case
    using p n by (simp add: nat_mult_distrib)
qed simp

section \<open>Reshape keeps the walk\<close>

definition ev_in :: "(nat \<Rightarrow> int) \<Rightarrow> in_axis \<Rightarrow> axis" where
  "ev_in \<rho> = (\<lambda>(n, s, off). (eval_index \<rho> off, n, s))"

definition ev_out :: "(nat \<Rightarrow> int) \<Rightarrow> index_expr \<times> int \<times> int \<Rightarrow> axis" where
  "ev_out \<rho> = (\<lambda>(off, n, s). (eval_index \<rho> off, n, s))"

lemma ev_simps [simp]: "ev_in \<rho> (n, s, off) = (eval_index \<rho> off, n, s)" "ev_out \<rho> (off, n, s) = (eval_index \<rho> off, n, s)"
  by (simp_all add: ev_in_def ev_out_def)

lemma ev_sizes [simp]:
  "(\<lambda>a. fst (snd a)) \<circ> ev_in \<rho> = fst" "fst (snd (ev_out \<rho> x)) = fst (snd x)"
  "(\<lambda>a. fst (snd a)) \<circ> ev_out \<rho> = fst \<circ> snd" "fst (snd (ev_in \<rho> a)) = ax_size a"
  by (auto simp: ev_in_def ev_out_def fun_eq_iff split: prod.splits)

lemma carries_offset_zero: "\<not> carries_offset off \<Longrightarrow> eval_index \<rho> off = 0"
  by (auto simp: carries_offset_def dest: as_const_sound)

lemma contiguous_chained:
  "contiguous (a # as) \<Longrightarrow> chained (ax_stride (last (a # as))) (map (ev_in \<rho>) (a # as))"
proof (induction as arbitrary: a)
  case Nil
  then show ?case by (cases a) simp
next
  case (Cons b as)
  then have "chained (ax_stride (last (b # as))) (map (ev_in \<rho>) (b # as))" by simp
  moreover have "ax_stride a = ax_stride b * ax_size b" using Cons.prems by simp
  ultimately show ?case
    by (cases a; cases b) (simp add: comp_def mult.assoc mult.commute split: prod.splits)
qed

lemma run_strides_spec: "run_strides inner es = (inner * prod_list es, snd (run_strides inner es))"
  by (induction es) (auto split: prod.splits simp: ac_simps)

lemma group_strides_Cons [simp]: "group_strides inner (e # es) = inner * prod_list es # group_strides inner es"
  by (simp add: group_strides_def split: prod.splits) (metis fst_conv run_strides_spec)

lemma group_strides_Nil [simp]: "group_strides inner [] = []"
  by (simp add: group_strides_def)

lemma length_group_strides [simp]: "length (group_strides inner es) = length es"
  by (induction es) auto

text \<open>The axes a group is laid out as: zero offsets, the group's own on the innermost.\<close>

lemma laid_chained:
  assumes "es \<noteq> []"
  shows "chained inner (zip (replicate (length es - 1) 0 @ [off]) (zip es (group_strides inner es))) \<and>
    base_of (zip (replicate (length es - 1) 0 @ [off]) (zip es (group_strides inner es))) = off * inner"
  using assms
proof (induction es)
  case (Cons e es)
  show ?case
  proof (cases es)
    case (Cons e' es')
    have "axis_sizes (zip (replicate (length es - 1) 0 @ [off]) (zip es (group_strides inner es))) = es"
      by (rule axis_sizes_zip) (simp_all add: Cons)
    with Cons.IH Cons show ?thesis by simp
  qed simp
qed simp

lemma length_laid: "es \<noteq> [] \<Longrightarrow> length (replicate (length es - 1) x @ [y]) = length es"
  by (cases es) auto

lemma group_offset_spec:
  assumes "group_offset taken = Inr off" and "taken \<noteq> []"
  shows "eval_index \<rho> off * ax_stride (last taken) = base_of (map (ev_in \<rho>) taken)"
proof (cases "length taken = 1")
  case True
  then obtain n s o' where "taken = [(n, s, o')]" by (metis One_nat_def length_0_conv length_Suc_conv prod_cases3)
  with assms show ?thesis by (simp add: group_offset_def)
next
  case False
  then obtain ks where ks: "map_res (\<lambda>a. res_bind (as_int (ax_offset a)) (\<lambda>k. Inr (k * ax_stride a))) taken = Inr ks"
    and div: "sum_list ks mod ax_stride (last taken) = 0"
    and off: "off = index_constant (sum_list ks div ax_stride (last taken))"
    using assms(1) by (auto simp: group_offset_def res_simps Let_def split: if_splits)
  have "sum_list ks = base_of (map (ev_in \<rho>) taken)"
    using ks
  proof (induction taken arbitrary: ks)
    case (Cons a taken)
    obtain n s o' where a: "a = (n, s, o')" by (cases a)
    from Cons.prems obtain k ks' where "as_int o' = Inr k" "ks = k * s # ks'"
      "map_res (\<lambda>a. res_bind (as_int (ax_offset a)) (\<lambda>k. Inr (k * ax_stride a))) taken = Inr ks'"
      by (cases "as_int o'") (auto simp: a res_bind_Inr_iff)
    with Cons.IH show ?case
      by (auto simp: a as_int_def split: option.splits dest!: as_const_sound [where \<rho> = \<rho>])
  qed simp
  with div off show ?thesis by (metis div_mult_mod_eq add.right_neutral eval_constant)
qed

definition fill :: "out_axis list \<Rightarrow> (index_expr \<times> int \<times> int) list" where
  "fill out = snd (fill_run out)"

lemma fill_simps [simp]:
  "fill [] = []"
  "fill ((off, n, Some s) # out) = (off, n, s) # fill out"
  "fill ((off, n, None) # out) = (off, n, fst (fill_run out)) # fill out"
  by (simp_all add: fill_def Let_def split: prod.splits)

lemma fill_group:
  "length offs = length es \<Longrightarrow> length es = length ss \<Longrightarrow>
     fill (zip offs (zip es (map Some ss)) @ out) = zip offs (zip es ss) @ fill out"
  by (induction offs es ss rule: list_induct3) auto

lemma map_ev_out_zip: "map (ev_out \<rho>) (zip offs r) = zip (map (eval_index \<rho>) offs) r"
  by (induction offs r rule: list_induct2') (auto split: prod.splits simp: ev_out_def)

lemma grow_group_spec:
  assumes "grow_group c_in c_out taken ins laid shape = Inr (taken', ins', laid', shape')"
    and "c_in = prod_list (map ax_size taken)" and "c_out = prod_list laid"
  shows "taken' @ ins' = taken @ ins \<and> laid' @ shape' = laid @ shape \<and>
    prod_list (map ax_size taken') = prod_list laid' \<and> length taken \<le> length taken' \<and> length laid \<le> length laid'"
  using assms
proof (induction c_in c_out taken ins laid shape rule: grow_group.induct)
  case (1 c_in c_out taken ins laid shape)
  consider (eq) "c_in = c_out" | (lt) "c_in < c_out" | (gt) "c_out < c_in" by linarith
  then show ?case
  proof cases
    case eq
    with "1.prems" show ?thesis by (simp add: grow_group.simps)
  next
    case lt
    then obtain a as where ins: "ins = a # as"
      and g: "grow_group (c_in * ax_size a) c_out (taken @ [a]) as laid shape = Inr (taken', ins', laid', shape')"
      using "1.prems"(1) by (subst (asm) grow_group.simps) (auto split: list.splits)
    with "1.IH"(1) [of a as] "1.prems" lt show ?thesis by simp
  next
    case gt
    then obtain e es where sh: "shape = e # es"
      and g: "grow_group c_in (c_out * e) taken ins (laid @ [e]) es = Inr (taken', ins', laid', shape')"
      using "1.prems"(1) by (subst (asm) grow_group.simps) (auto split: list.splits)
    with "1.IH"(2) [of e es] "1.prems" gt show ?thesis by simp
  qed
qed

lemma lay_group_spec:
  assumes lay: "lay_group taken es = Inr grp" and ne: "taken \<noteq> []" "es \<noteq> []"
    and pos: "\<forall>a \<in> set taken. 1 \<le> ax_size a" "\<forall>e \<in> set es. 1 \<le> e"
    and prod: "prod_list (map ax_size taken) = prod_list es"
  shows "\<exists>axs. fill (grp @ out) = axs @ fill out \<and> map (fst \<circ> snd) axs = es \<and>
    walk (map (ev_out \<rho>) axs) = walk (map (ev_in \<rho>) taken) \<and>
    (\<forall>a \<in> set axs. wf_index (fst a) \<or> fst a \<in> ax_offset ` set taken)"
proof -
  let ?inner = "ax_stride (last taken)"
  obtain off where off: "group_offset taken = Inr off" and cont: "contiguous taken"
    and grp: "grp = zip (replicate (length es - 1) (index_constant 0) @ [off])
                  (zip es (map Some (group_strides ?inner es)))"
    using lay by (auto simp: lay_group_def res_simps split: if_splits)
  let ?offs = "replicate (length es - 1) (index_constant 0) @ [off]"
  let ?axs = "zip ?offs (zip es (group_strides ?inner es))"
  have len: "length ?offs = length es" using ne(2) by (rule length_laid)
  have ev: "map (ev_out \<rho>) ?axs
      = zip (replicate (length es - 1) 0 @ [eval_index \<rho> off]) (zip es (group_strides ?inner es))"
    by (simp add: map_ev_out_zip)
  have szs: "axis_sizes (map (ev_out \<rho>) ?axs) = es"
    unfolding ev by (rule axis_sizes_zip) (use ne in \<open>simp_all add: length_laid\<close>)
  have "chained ?inner (map (ev_in \<rho>) taken)"
    using ne(1) cont contiguous_chained [of "hd taken" "tl taken" \<rho>] by simp
  then have "walk (map (ev_in \<rho>) taken)
      = map (\<lambda>k. eval_index \<rho> off * ?inner + ?inner * int k) [0..<nat (prod_list es)]"
    using pos(1) prod by (subst walk_chained) (auto simp: group_offset_spec [OF off ne(1), of \<rho>])
  moreover have "walk (map (ev_out \<rho>) ?axs)
      = map (\<lambda>k. eval_index \<rho> off * ?inner + ?inner * int k) [0..<nat (prod_list es)]"
    using laid_chained [OF ne(2), of ?inner "eval_index \<rho> off"] pos(2) szs
    unfolding ev by (subst walk_chained) auto
  moreover have "map (fst \<circ> snd) ?axs = es"
    using axis_sizes_zip [OF len, of "group_strides ?inner es"] by (simp add: comp_def)
  moreover have "fst a = index_constant 0 \<or> fst a = off" if "a \<in> set ?axs" for a
  proof -
    have "fst a \<in> set ?offs" using that by (metis prod.collapse set_zip_leftD)
    then show ?thesis by auto
  qed
  moreover have "wf_index off \<or> off \<in> ax_offset ` set taken"
    using off ne(1) by (auto simp: group_offset_def res_simps Let_def split: if_splits)
  moreover have "fill (grp @ out) = ?axs @ fill out"
    unfolding grp by (rule fill_group) (use len in auto)
  ultimately show ?thesis
    by (intro exI [of _ ?axs]) force
qed

lemma reshape_loop_spec:
  assumes "reshape_loop ins shape = Inr out"
    and "\<forall>a \<in> set ins. 1 \<le> ax_size a" and "\<forall>e \<in> set shape. 1 \<le> e"
  shows "map (fst \<circ> snd) (fill out) = shape \<and> walk (map (ev_out \<rho>) (fill out)) = walk (map (ev_in \<rho>) ins) \<and>
    (\<forall>a \<in> set (fill out). wf_index (fst a) \<or> fst a \<in> ax_offset ` set ins)"
  using assms
proof (induction ins shape arbitrary: out rule: reshape_loop.induct)
  case 1
  then show ?case by simp
next
  case (2 e shape)
  then show ?case by (fastforce simp: res_simps walk_unit_zero split: if_splits)
next
  case (3 a ins)
  then show ?case
    by (cases a) (fastforce simp: walk_unit_zero carries_offset_zero split: if_splits)
next
  case (4 a ins e shape)
  obtain n s off where a: "a = (n, s, off)" by (cases a)
  consider (pair) "n = 1" "e = 1" | (drop) "n = 1" "e \<noteq> 1" "\<not> carries_offset off"
    | (unit) "n \<noteq> 1" "e = 1"
    | (grp) "e \<noteq> 1" "n \<noteq> 1 \<or> carries_offset off" by blast
  then show ?case
  proof cases
    case pair
    then obtain out' where "reshape_loop ins shape = Inr out'" "out = (off, 1, Some s) # out'"
      using 4(5) by (auto simp: a res_simps)
    with 4(1) 4(6,7) pair show ?thesis
      by (auto simp: a intro!: walk_Cons_cong)
  next
    case drop
    with 4(2) 4(5-7) show ?thesis
      by (auto simp: a walk_unit_zero carries_offset_zero)
  next
    case unit
    then obtain out' where "reshape_loop (a # ins) shape = Inr out'" "out = (index_constant 0, 1, None) # out'"
      using 4(5) by (auto simp: a res_simps)
    with 4(3) 4(6,7) unit show ?thesis
      by (auto simp: a walk_unit_zero)
  next
    case grp
    then obtain taken ins' laid shape' grp out' where
      g: "grow_group n e [a] ins [e] shape = Inr (taken, ins', laid, shape')"
      and lay: "lay_group taken (laid @ takeWhile (\<lambda>e. e = 1) shape') = Inr grp"
      and rest: "reshape_loop ins' (dropWhile (\<lambda>e. e = 1) shape') = Inr out'"
      and out: "out = grp @ out'"
      using 4(5) by (auto simp: a res_simps)
    let ?es = "laid @ takeWhile (\<lambda>e. e = 1) shape'" and ?rest = "dropWhile (\<lambda>e. e = 1) shape'"
    have spec: "taken @ ins' = a # ins" "laid @ shape' = e # shape"
      "prod_list (map ax_size taken) = prod_list laid" "taken \<noteq> []" "laid \<noteq> []"
      using grow_group_spec [OF g] by (auto simp: a)
    have ones: "prod_list (takeWhile (\<lambda>e. e = 1) xs) = 1" for xs :: "int list"
      by (induction xs) auto
    have parts: "?es @ ?rest = e # shape" using spec(2) by simp
    have ins: "set taken \<subseteq> set (a # ins)" "set ins' \<subseteq> set (a # ins)"
      using spec(1) by (metis Un_iff set_append subsetI)+
    have shp: "set ?es \<subseteq> set (e # shape)" "set ?rest \<subseteq> set (e # shape)"
      using parts by (metis Un_iff set_append subsetI)+
    have IH: "map (fst \<circ> snd) (fill out') = ?rest \<and> walk (map (ev_out \<rho>) (fill out')) = walk (map (ev_in \<rho>) ins') \<and>
      (\<forall>a \<in> set (fill out'). wf_index (fst a) \<or> fst a \<in> ax_offset ` set ins')"
      using grp g lay rest ins(2) shp(2) 4(6,7) by (intro 4(4)) (auto simp: a)
    have pos: "\<forall>a \<in> set taken. 1 \<le> ax_size a" "\<forall>e \<in> set ?es. 1 \<le> e" "?es \<noteq> []"
      using ins(1) shp(1) 4(6,7) spec(5) by (blast, blast, simp)
    have "prod_list (map ax_size taken) = prod_list ?es"
      using spec(3) ones by simp
    note grp_spec = lay_group_spec [OF lay spec(4) pos(3) pos(1) pos(2) this, of out' \<rho>]
    obtain axs where axs: "fill out = axs @ fill out'" "map (fst \<circ> snd) axs = ?es"
      "walk (map (ev_out \<rho>) axs) = walk (map (ev_in \<rho>) taken)"
      "\<forall>a \<in> set axs. wf_index (fst a) \<or> fst a \<in> ax_offset ` set taken"
      using grp_spec unfolding out by blast
    have "walk (map (ev_out \<rho>) (fill out)) = walk (map (ev_in \<rho>) (taken @ ins'))"
      unfolding axs(1) map_append using walk_append_cong [OF axs(3)] IH by blast
    moreover have "map (fst \<circ> snd) (fill out) = e # shape"
      using axs(1,2) IH parts by simp
    moreover have "wf_index (fst x) \<or> fst x \<in> ax_offset ` set (a # ins)" if "x \<in> set (fill out)" for x
      using that axs(1,4) IH image_mono [OF ins(1), of ax_offset] image_mono [OF ins(2), of ax_offset]
      by (simp del: set_simps) blast
    ultimately show ?thesis using spec(1) by auto
  qed
qed

lemma ev_in_zip:
  "length szs = length strs \<Longrightarrow> length strs = length offs \<Longrightarrow>
     map (ev_in \<rho>) (zip szs (zip strs offs)) = zip (map (eval_index \<rho>) offs) (zip szs strs)"
  by (induction szs strs offs rule: list_induct3) auto

lemma reshape_pattern_spec:
  assumes r: "reshape_pattern szs strs offs shape = Inr axes"
    and len: "length offs = length szs" "length strs = length szs"
    and pos: "\<forall>n \<in> set szs. 1 \<le> n" and wf: "\<forall>e \<in> set offs. wf_index e"
  shows "map (fst \<circ> snd) axes = shape \<and>
    walk (map (ev_out \<rho>) axes) = walk (zip (map (eval_index \<rho>) offs) (zip szs strs)) \<and>
    (\<forall>a \<in> set axes. wf_index (fst a)) \<and> (\<forall>n \<in> set shape. 1 \<le> n)"
proof (cases "szs = shape")
  case True
  with r have axes: "axes = zip offs (zip szs strs)" and sh: "\<forall>n \<in> set shape. 1 \<le> n"
    by (auto simp: reshape_pattern_def split: if_splits)
  have "fst a \<in> set offs" if "a \<in> set axes" for a
    using that unfolding axes by (metis prod.collapse set_zip_leftD)
  moreover have "map (fst \<circ> snd) axes = shape"
    unfolding axes True [symmetric] comp_def using len by (rule axis_sizes_zip)
  ultimately show ?thesis
    using sh wf by (auto simp: axes map_ev_out_zip)
next
  case False
  let ?ins = "zip szs (zip strs offs)"
  from False r obtain out where loop: "reshape_loop ?ins shape = Inr out"
    and axes: "axes = fill out" and sh: "\<forall>n \<in> set shape. 1 \<le> n"
    by (auto simp: reshape_pattern_def fill_def res_simps not_less split: if_splits)
  have ins: "\<forall>a \<in> set ?ins. 1 \<le> ax_size a" "ax_offset ` set ?ins \<subseteq> set offs"
    using pos by (force dest: set_zip_leftD, auto dest!: set_zip_rightD)
  show ?thesis
    using reshape_loop_spec [OF loop ins(1) sh, of \<rho>] ins(2) wf sh len ev_in_zip [of szs strs offs \<rho>]
    unfolding axes by (simp add: subset_iff) blast
qed

lemma reshape_spec:
  assumes "wf_region v" and "region_reshape v shape = Inr v'"
  shows "wf_region v' \<and> sizes v' = shape \<and> region_walk \<rho> v' = region_walk \<rho> v"
proof -
  obtain axes where r: "reshape_pattern (sizes v) (strides v) (offsets v) shape = Inr axes"
    and v': "v' = respan v (map fst axes) (map (fst \<circ> snd) axes) (map (snd \<circ> snd) axes)
               (map (fst \<circ> snd) axes) (Some (replicate (length axes) False))"
    using assms(2) by (auto simp: region_reshape_def res_simps Let_def)
  have spec: "map (fst \<circ> snd) axes = shape \<and>
    walk (map (ev_out \<rho>) axes) = region_walk \<rho> v \<and>
    (\<forall>a \<in> set axes. wf_index (fst a)) \<and> (\<forall>n \<in> set shape. 1 \<le> n)"
    using reshape_pattern_spec [OF r] assms(1) by (simp add: wf_region_def region_walk_def region_axes_def)
  have "region_axes \<rho> v' = map (ev_out \<rho>) axes"
    unfolding region_axes_def v'
    by (simp add: respan_def mk_slice_def) (induction axes; auto)
  with spec show ?thesis
    by (auto simp: region_walk_def wf_region_def v' respan_def mk_slice_def)
qed

section \<open>Reshape of a contiguous region always succeeds\<close>

fun packed :: "in_axis list \<Rightarrow> bool" where
  "packed [] = True"
| "packed ((n, s, off) # ins) =
     (1 \<le> n \<and> s = prod_list (map ax_size ins) \<and> as_const off = Some 0 \<and> packed ins)"

fun packed_out :: "(index_expr \<times> int \<times> int) list \<Rightarrow> bool" where
  "packed_out [] = True"
| "packed_out ((off, n, s) # out) =
     (s = prod_list (map (fst \<circ> snd) out) \<and> as_const off = Some 0 \<and> packed_out out)"

lemma packed_pos: "packed ins \<Longrightarrow> \<forall>a \<in> set ins. 1 \<le> ax_size a"
  by (induction ins rule: packed.induct) auto

lemma packed_prod_pos: "packed ins \<Longrightarrow> 1 \<le> prod_list (map ax_size ins)"
  using packed_pos prod_list_ge_1 [of "map ax_size ins"] by force

lemma packed_append: "packed (xs @ ys) \<Longrightarrow> packed ys"
  by (induction xs) (auto simp: packed.simps split: prod.splits)

lemma packed_contiguous: "packed (xs @ ys) \<Longrightarrow> contiguous xs"
  by (induction xs rule: contiguous.induct) (auto simp: ac_simps)

lemma packed_offsets: "packed (xs @ ys) \<Longrightarrow> \<forall>a \<in> set xs. as_const (ax_offset a) = Some 0"
  by (induction xs) force+

lemma packed_last: "packed (xs @ ys) \<Longrightarrow> xs \<noteq> [] \<Longrightarrow> ax_stride (last xs) = prod_list (map ax_size ys)"
  by (induction xs) (auto split: if_splits)

lemma packed_group_offset:
  assumes "packed (xs @ ys)" and "xs \<noteq> []"
  shows "\<exists>off. group_offset xs = Inr off \<and> as_const off = Some 0"
proof (cases "length xs = 1")
  case True
  then have "hd xs \<in> set xs" using assms(2) by simp
  with True packed_offsets [OF assms(1)] show ?thesis by (simp add: group_offset_def)
next
  case False
  have "map_res (\<lambda>a. res_bind (as_int (ax_offset a)) (\<lambda>k. Inr (k * ax_stride a))) xs = Inr (map (\<lambda>a. 0) xs)"
    using packed_offsets [OF assms(1)] by (intro map_res_all_Inr) (simp add: as_int_def)
  moreover have "ax_stride (last xs) \<noteq> 0"
    using packed_last [OF assms] packed_prod_pos [OF packed_append [OF assms(1)]] by simp
  ultimately show ?thesis
    using False by (simp add: group_offset_def)
qed

lemma grow_group_total:
  assumes "c_in * prod_list (map ax_size ins) = c_out * prod_list shape"
    and "\<forall>a \<in> set ins. 1 \<le> ax_size a" and "\<forall>e \<in> set shape. 1 \<le> e" and "1 \<le> c_in" "1 \<le> c_out"
  shows "\<exists>r. grow_group c_in c_out taken ins laid shape = Inr r"
  using assms
proof (induction c_in c_out taken ins laid shape rule: grow_group.induct)
  case (1 c_in c_out taken ins laid shape)
  consider (eq) "c_in = c_out" | (lt) "c_in < c_out" | (gt) "c_out < c_in" by linarith
  then show ?case
  proof cases
    case eq
    then show ?thesis by (simp add: grow_group.simps)
  next
    case lt
    have "1 \<le> prod_list shape" using "1.prems"(3) prod_list_ge_1 [of shape] by fastforce
    then have "c_out \<le> c_out * prod_list shape" using "1.prems"(5) by (simp add: mult_le_cancel_left1)
    with lt "1.prems"(1) obtain a as where ins: "ins = a # as"
      by (cases ins) auto
    have "\<exists>r. grow_group (c_in * ax_size a) c_out (taken @ [a]) as laid shape = Inr r"
      using "1.IH"(1) [of a as] "1.prems" lt ins mult_mono [of 1 c_in 1 "ax_size a"]
      by (simp add: mult.assoc)
    with lt ins show ?thesis by (subst grow_group.simps) simp
  next
    case gt
    have "1 \<le> prod_list (map ax_size ins)" using "1.prems"(2) prod_list_ge_1 [of "map ax_size ins"] by fastforce
    then have "c_in \<le> c_in * prod_list (map ax_size ins)" using "1.prems"(4) by (simp add: mult_le_cancel_left1)
    with gt "1.prems"(1) obtain e es where sh: "shape = e # es"
      by (cases shape) auto
    have "\<exists>r. grow_group c_in (c_out * e) taken ins (laid @ [e]) es = Inr r"
      using "1.IH"(2) [of e es] "1.prems" gt sh mult_mono [of 1 c_out 1 e]
      by (simp add: mult.assoc)
    with gt sh show ?thesis by (subst grow_group.simps) simp
  qed
qed

lemma packed_out_append:
  "packed_out (xs @ ys) \<longleftrightarrow> packed_out ys \<and>
     (\<forall>i < length xs. snd (snd (xs ! i)) = prod_list (map (fst \<circ> snd) (drop (Suc i) xs @ ys)) \<and>
        as_const (fst (xs ! i)) = Some 0)"
  by (induction xs) (auto simp: All_less_Suc2 comp_def)

lemma group_strides_nth: "i < length es \<Longrightarrow> group_strides inner es ! i = inner * prod_list (drop (Suc i) es)"
proof (induction es arbitrary: i)
  case (Cons e es)
  then show ?case by (cases i) auto
qed simp

lemma packed_lay_group:
  assumes pk: "packed (taken @ ins')" and ne: "taken \<noteq> []" "es \<noteq> []"
    and inner: "prod_list (map ax_size ins') = prod_list (map (fst \<circ> snd) (fill out))"
    and rest: "packed_out (fill out)"
  shows "\<exists>grp. lay_group taken es = Inr grp \<and> packed_out (fill (grp @ out))"
proof -
  let ?inner = "ax_stride (last taken)"
  obtain off where off: "group_offset taken = Inr off" "as_const off = Some 0"
    using packed_group_offset [OF pk ne(1)] by blast
  let ?offs = "replicate (length es - 1) (index_constant 0) @ [off]"
  have len: "length ?offs = length es" using ne(2) by (rule length_laid)
  have zero: "as_const (?offs ! i) = Some 0" if "i < length es" for i
    using off(2) that len by (cases "i < length es - 1") (auto simp: nth_append)
  have fst_drop: "map (fst \<circ> snd) (drop k (zip ?offs (zip es (group_strides ?inner es)))) = drop k es" for k
    using axis_sizes_zip [OF len, of "group_strides ?inner es"] by (simp add: drop_map [symmetric] comp_def)
  have "packed_out (zip ?offs (zip es (group_strides ?inner es)) @ fill out)"
    unfolding packed_out_append
    using rest len zero fst_drop inner packed_last [OF pk ne(1)]
    by (auto simp: group_strides_nth)
  moreover have "lay_group taken es = Inr (zip ?offs (zip es (map Some (group_strides ?inner es))))"
    using packed_contiguous [OF pk] off(1) by (simp add: lay_group_def)
  ultimately show ?thesis
    using fill_group [OF len, of "group_strides ?inner es" out] by auto
qed

lemma packed_lay_succeeds: "packed (taken @ ins') \<Longrightarrow> taken \<noteq> [] \<Longrightarrow> \<exists>grp. lay_group taken es = Inr grp"
  using packed_group_offset packed_contiguous by (fastforce simp: lay_group_def)

lemma fill_run_packed: "packed_out (fill out) \<Longrightarrow> fst (fill_run out) = prod_list (map (fst \<circ> snd) (fill out))"
  by (cases out rule: fill_run.cases) (auto simp: fill_def Let_def split: prod.splits)

lemma reshape_loop_packed:
  assumes "packed ins" and "\<forall>e \<in> set shape. 1 \<le> e" and "prod_list (map ax_size ins) = prod_list shape"
  shows "\<exists>out. reshape_loop ins shape = Inr out \<and> packed_out (fill out)"
  using assms
proof (induction ins shape rule: reshape_loop.induct)
  case 1
  then show ?case by simp
next
  case (2 e shape)
  have one: "e = 1" "prod_list shape = 1"
    using 2(2-4) prod_list_eq_1_iff [of "e # shape"] prod_list_eq_1_iff [of shape] by force+
  with 2 obtain out where out: "reshape_loop [] shape = Inr out" "packed_out (fill out)" by auto
  then show ?case
    using one fill_run_packed [OF out(2)] by simp
next
  case (3 a ins)
  have "\<And>x. x \<in> set (map ax_size (a # ins)) \<Longrightarrow> 0 < x"
    using packed_pos [OF 3(2)] by fastforce
  then have "\<forall>x \<in> set (map ax_size (a # ins)). x = 1"
    using 3(4) prod_list_eq_1_iff [of "map ax_size (a # ins)"] by simp
  then have "ax_size a = 1" "prod_list (map ax_size ins) = 1"
    using 3(4) by auto
  with 3 show ?case by (cases a) (auto simp: carries_offset_def)
next
  case (4 a ins e shape)
  obtain n s off where a: "a = (n, s, off)" by (cases a)
  have off: "as_const off = Some 0" and pk: "packed ins" and s: "s = prod_list (map ax_size ins)" and n: "1 \<le> n"
    using 4(5) by (auto simp: a)
  consider (pair) "n = 1" "e = 1" | (drop) "n = 1" "e \<noteq> 1" | (unit) "n \<noteq> 1" "e = 1" | (grp) "n \<noteq> 1" "e \<noteq> 1"
    by blast
  then show ?case
  proof cases
    case pair
    with 4(1) 4(6,7) pk obtain out where out: "reshape_loop ins shape = Inr out" "packed_out (fill out)"
      by (auto simp: a)
    have "map (fst \<circ> snd) (fill out) = shape"
      using reshape_loop_spec [OF out(1) packed_pos [OF pk]] 4(6) by auto
    with out pair s off 4(7) show ?thesis by (simp add: a)
  next
    case drop
    with 4(2) 4(6,7) pk off show ?thesis by (simp add: a carries_offset_def)
  next
    case unit
    with 4(3) 4(5-7) obtain out where out: "reshape_loop (a # ins) shape = Inr out" "packed_out (fill out)"
      by (auto simp: a)
    then show ?thesis
      using unit fill_run_packed [OF out(2)] by (simp add: a)
  next
    case grp
    have "\<exists>r. grow_group n e [a] ins [e] shape = Inr r"
      using 4(6,7) n packed_pos [OF pk] by (intro grow_group_total) (auto simp: a)
    then obtain taken ins' laid shape' where
      g: "grow_group n e [a] ins [e] shape = Inr (taken, ins', laid, shape')" by auto
    let ?es = "laid @ takeWhile (\<lambda>e. e = 1) shape'" and ?rest = "dropWhile (\<lambda>e. e = 1) shape'"
    have spec: "taken @ ins' = a # ins" "laid @ shape' = e # shape"
      "prod_list (map ax_size taken) = prod_list laid" "taken \<noteq> []" "laid \<noteq> []"
      using grow_group_spec [OF g] by (auto simp: a)
    have pks: "packed (taken @ ins')" using 4(5) spec(1) by simp
    have ones: "prod_list xs = prod_list (dropWhile (\<lambda>e. e = 1) xs)" for xs :: "int list"
      by (induction xs) auto
    have "set ?rest \<subseteq> set (laid @ shape')" using set_dropWhileD by force
    then have rest_pos: "\<forall>e \<in> set ?rest. 1 \<le> e" using 4(6) spec(2) by auto
    have "prod_list laid * prod_list (map ax_size ins') = prod_list laid * prod_list shape'"
      using 4(7) spec(1-3) by (metis map_append prod_list.append)
    moreover have "1 \<le> prod_list laid" using packed_pos [OF pks] spec(3) prod_list_ge_1 [of "map ax_size taken"] by force
    ultimately have prod: "prod_list (map ax_size ins') = prod_list ?rest" using ones [of shape'] by simp
    obtain gr where gr: "lay_group taken ?es = Inr gr"
      using packed_lay_succeeds [OF pks spec(4)] by blast
    have "\<exists>out. reshape_loop ins' ?rest = Inr out \<and> packed_out (fill out)"
      using grp g gr rest_pos prod packed_append [OF pks]
      by (intro 4(4) [of "(taken, ins', laid, shape')" taken "(ins', laid, shape')" ins' "(laid, shape')" laid shape'])
        (auto simp: a)
    then obtain out where out: "reshape_loop ins' ?rest = Inr out" "packed_out (fill out)" by blast
    have "map (fst \<circ> snd) (fill out) = ?rest"
      using reshape_loop_spec [OF out(1) packed_pos [OF packed_append [OF pks]] rest_pos] by blast
    with packed_lay_group [OF pks spec(4), of ?es out] spec(5) prod out(2)
    have "packed_out (fill (gr @ out))" by (simp add: gr)
    with g gr out grp show ?thesis by (simp add: a)
  qed
qed

lemma row_major_Cons [simp]: "row_major_strides (n # ns) = prod_list ns # row_major_strides ns"
  by (induction ns arbitrary: n) (simp_all add: Let_def mult.commute)

declare row_major_strides.simps(2,3) [simp del]

lemma length_row_major [simp]: "length (row_major_strides ns) = length ns"
  by (induction ns) auto

text \<open>The whole of an array as a region, whatever the array is.\<close>

definition whole_region :: "'o \<Rightarrow> int list \<Rightarrow> 'o region" where
  "whole_region p shape =
     mk_slice p (map (\<lambda>_. index_constant 0) shape) shape (row_major_strides shape) None False None"

lemma tensor_whole_region: "tensor_whole_view (Tensor shape dt name) = whole_region (Tensor shape dt name) shape"
  by (simp add: tensor_whole_view_def Tensor_def whole_region_def)

lemma buffer_whole_region:
  "buffer_whole_view (Buffer i shape dt w sp ex) = whole_region (Buffer i shape dt w sp ex) shape"
  by (simp add: buffer_whole_view_def Buffer_def whole_region_def)

lemma whole_region_sel [simp]:
  "offsets (whole_region p shape) = map (\<lambda>_. index_constant 0) shape" "sizes (whole_region p shape) = shape"
  "strides (whole_region p shape) = row_major_strides shape" "parent (whole_region p shape) = p"
  "readonly (whole_region p shape) = False" "logical_sizes (whole_region p shape) = shape"
  by (simp_all add: whole_region_def mk_slice_def)

lemma wf_whole_region: "\<forall>n \<in> set shape. 1 \<le> n \<Longrightarrow> wf_region (whole_region p shape)"
  by (auto simp: wf_region_def whole_region_def mk_slice_def)

lemma whole_axes: "region_axes \<rho> (whole_region p shape) = zip (map (\<lambda>_. 0) shape) (zip shape (row_major_strides shape))"
  by (simp add: region_axes_def comp_def)

lemma chained_row_major: "chained 1 (zip (map (\<lambda>_. 0) shape) (zip shape (row_major_strides shape))) \<and>
    base_of (zip (map (\<lambda>_. 0) shape) (zip shape (row_major_strides shape))) = 0"
  by (induction shape) auto

lemma whole_walk:
  assumes "\<forall>n \<in> set shape. 1 \<le> n"
  shows "region_walk \<rho> (whole_region p shape) = map int [0..<nat (prod_list shape)]"
  using chained_row_major [of shape] assms unfolding region_walk_def whole_axes
  by (subst walk_chained) auto

lemma packed_row_major:
  "\<forall>n \<in> set shape. 1 \<le> n \<Longrightarrow>
     packed (zip shape (zip (row_major_strides shape) (map (\<lambda>_. index_constant 0) shape)))"
proof (induction shape)
  case (Cons n ns)
  have "map fst (zip ns (zip (row_major_strides ns) (map (\<lambda>_. index_constant 0) ns))) = ns" by simp
  with Cons show ?case by simp
qed simp

lemma packed_out_strides: "packed_out axes \<Longrightarrow> map (snd \<circ> snd) axes = row_major_strides (map (fst \<circ> snd) axes)"
  by (induction axes rule: packed_out.induct) auto

lemma packed_out_offsets: "packed_out axes \<Longrightarrow> \<forall>a \<in> set axes. as_const (fst a) = Some 0"
  by (induction axes rule: packed_out.induct) auto

lemma whole_reshape_pattern:
  assumes pos: "\<forall>n \<in> set szs. 1 \<le> n" "\<forall>n \<in> set shape. 1 \<le> n" and prod: "prod_list szs = prod_list shape"
  shows "\<exists>axes. reshape_pattern szs (row_major_strides szs) (map (\<lambda>_. index_constant 0) szs) shape = Inr axes \<and>
    packed_out axes"
proof (cases "szs = shape")
  case True
  have "packed_out (zip (map (\<lambda>_. index_constant 0) ns) (zip ns (row_major_strides ns)))" for ns
  proof (induction ns)
    case (Cons n ns)
    have "map (fst \<circ> snd) (zip (map (\<lambda>_. index_constant 0) ns) (zip ns (row_major_strides ns))) = ns"
      unfolding comp_def by (rule axis_sizes_zip) auto
    with Cons show ?case by simp
  qed simp
  with True pos(2) show ?thesis
    by (auto simp: reshape_pattern_def not_less)
next
  case False
  have szs: "map fst (zip szs (zip (row_major_strides szs) (map (\<lambda>_. index_constant 0) szs))) = szs" by simp
  have no: "\<not> (\<exists>e \<in> set shape. e < 1)" using pos(2) by force
  obtain out where "reshape_loop (zip szs (zip (row_major_strides szs) (map (\<lambda>_. index_constant 0) szs))) shape = Inr out"
    "packed_out (fill out)"
    using reshape_loop_packed [OF packed_row_major [OF pos(1)] pos(2)] prod szs by auto
  with False no prod show ?thesis
    by (simp add: reshape_pattern_def fill_def)
qed

lemma whole_reshape_total:
  assumes pos: "\<forall>n \<in> set szs. 1 \<le> n" "\<forall>n \<in> set shape. 1 \<le> n" and prod: "prod_list szs = prod_list shape"
  shows "\<exists>v'. region_reshape (whole_region p szs) shape = Inr v' \<and> sizes v' = shape \<and>
    strides v' = row_major_strides shape \<and> (\<forall>e \<in> set (offsets v'). as_const e = Some 0)"
proof -
  obtain axes where axes: "reshape_pattern szs (row_major_strides szs) (map (\<lambda>_. index_constant 0) szs) shape = Inr axes"
    and pk: "packed_out axes"
    using whole_reshape_pattern [OF assms] by blast
  then obtain v' where v': "region_reshape (whole_region p szs) shape = Inr v'"
    and st: "strides v' = map (snd \<circ> snd) axes" and sz: "sizes v' = map (fst \<circ> snd) axes"
    and off: "offsets v' = map fst axes"
    by (simp add: region_reshape_def Let_def respan_def mk_slice_def)
  have "sizes v' = shape"
    using reshape_spec [OF wf_whole_region [OF pos(1)] v'] by blast
  with v' st sz off packed_out_strides [OF pk] packed_out_offsets [OF pk] show ?thesis by auto
qed

end
