(* ===== verification/View_Access.thy ===== *)
theory View_Access
  imports View_Laws
begin

text \<open>
  Transposition, broadcasting and subscripting of regions, the interface every view operation meets,
  and the properties of the view layer of \<^verbatim>\<open>src/python/air/api/_value.py\<close>.
\<close>

section \<open>Indexing a region\<close>

lemma set_walk: "set (walk axs) = addr axs ` {is. list_all2 (\<lambda>i n. 0 \<le> i \<and> i < n) is (axis_sizes axs)}"
  by (auto simp: walk_def box_iff)

lemma addr_sum:
  "length is = length axs \<Longrightarrow> addr axs is = (\<Sum>((off, n, s), i)\<leftarrow>zip axs is. (off + i) * s)"
  by (induction axs "is" rule: addr.induct) auto

section \<open>Transpose\<close>

lemma check_axes_perm:
  assumes "check_axes axes rank = Inr u"
  shows "mset (map nat axes) = mset [0..<rank]" and "axes = map int (map nat axes)"
proof -
  have s: "sort axes = map int [0..<rank]"
    using assms by (simp add: check_axes_def split: if_splits)
  then have "mset axes = mset (map int [0..<rank])" by (metis mset_sort)
  then have "mset (map nat axes) = mset (map nat (map int [0..<rank]))" by (simp only: mset_map)
  then show "mset (map nat axes) = mset [0..<rank]" by (simp add: comp_def)
  have "set axes = set (map int [0..<rank])" using s by (metis set_sort)
  then show "axes = map int (map nat axes)"
    by (auto simp: comp_def intro!: map_idI [symmetric])
qed

lemma permute_mset: "mset p = mset [0..<length xs] \<Longrightarrow> mset (permute xs p) = mset xs"
proof -
  assume "mset p = mset [0..<length xs]"
  then have "mset (map ((!) xs) p) = mset (map ((!) xs) [0..<length xs])" by (simp only: mset_map)
  then show ?thesis by (simp add: permute_def map_nth)
qed

lemma permute_zip:
  "\<forall>a \<in> set p. a < length xs \<and> a < length ys \<Longrightarrow> permute (zip xs ys) p = zip (permute xs p) (permute ys p)"
  by (induction p) (auto simp: permute_def)

lemma permute_map: "\<forall>a \<in> set p. a < length xs \<Longrightarrow> permute (map f xs) p = map f (permute xs p)"
  by (induction p) (auto simp: permute_def)

lemma length_permute [simp]: "length (permute xs p) = length p"
  by (simp add: permute_def)

lemma addr_permute:
  assumes "mset p = mset [0..<length axs]" and "length is = length axs"
  shows "addr (permute axs p) (permute is p) = addr axs is"
proof -
  have "\<forall>a \<in> set p. a < length axs" using mset_eq_setD [OF assms(1)] by simp
  then have z: "zip (permute axs p) (permute is p) = permute (zip axs is) p"
    using assms(2) by (simp add: permute_zip)
  have "mset (permute (zip axs is) p) = mset (zip axs is)"
    using assms by (intro permute_mset) simp
  then have "sum_mset (image_mset (\<lambda>((off, n, s), i). (off + i) * s) (mset (permute (zip axs is) p)))
      = sum_mset (image_mset (\<lambda>((off, n, s), i). (off + i) * s) (mset (zip axs is)))"
    by simp
  then show ?thesis
    using assms(2) by (simp add: addr_sum z flip: sum_mset_sum_list mset_map)
qed

text \<open>A walk over the same axes in another order visits the same addresses, each as often.\<close>

lemma walk_move_front: "mset (walk (xs @ y # ys)) = mset (walk (y # xs @ ys))"
proof -
  obtain off n s where y: "y = (off, n, s)" by (cases y)
  have "mset (walk (xs @ [y])) = mset (walk ([y] @ xs))"
    using mset_concat_swap [of "\<lambda>a b. a + b" "walk [y]" "walk xs"]
    by (simp only: walk_append add.commute)
  then have "mset (walk ((xs @ [y]) @ ys)) = mset (walk (([y] @ xs) @ ys))"
    unfolding walk_append [of _ ys] mset_concat mset_map map_map comp_def
    by (metis (no_types, lifting) image_mset.comp sum_mset_sum_list mset_map)
  then show ?thesis by simp
qed

lemma walk_perm: "mset xs = mset ys \<Longrightarrow> mset (walk xs) = mset (walk ys)"
proof (induction xs arbitrary: ys)
  case (Cons x xs)
  then have "x \<in> set ys" by (metis list.set_intros(1) set_mset_mset)
  then obtain as bs where ys: "ys = as @ x # bs" by (meson split_list)
  with Cons.prems have "mset xs = mset (as @ bs)" by simp
  then have IH: "mset (walk xs) = mset (walk (as @ bs))" by (rule Cons.IH)
  have "mset (walk ([x] @ xs)) = mset (walk ([x] @ as @ bs))"
    unfolding walk_append [of "[x]"] mset_concat map_map comp_def mset_map IH ..
  then show ?case by (simp add: ys walk_move_front)
qed simp

lemma region_axes_transpose:
  assumes wf: "wf_region v" and t: "region_transpose v axes = Inr v'"
  shows "region_axes \<rho> v' = permute (region_axes \<rho> v) (map nat axes)"
    and "mset (map nat axes) = mset [0..<length (sizes v)]"
proof -
  have c: "check_axes axes (length (sizes v)) = Inr ()"
    using t by (cases "check_axes axes (length (sizes v))") (auto simp: region_transpose_def)
  note p = check_axes_perm(1) [OF c]
  then show "mset (map nat axes) = mset [0..<length (sizes v)]" .
  have "\<forall>a \<in> set (map nat axes). a < length (sizes v)" using mset_eq_setD [OF p] by simp
  with wf t c show "region_axes \<rho> v' = permute (region_axes \<rho> v) (map nat axes)"
    by (auto simp: region_transpose_def Let_def region_axes_def respan_def mk_slice_def wf_region_def
        permute_zip permute_map)
qed

lemma length_region_axes: "wf_region v \<Longrightarrow> length (region_axes \<rho> v) = length (sizes v)"
  by (simp add: region_axes_def wf_region_def)

lemma region_axes_sizes [simp]: "wf_region v \<Longrightarrow> axis_sizes (region_axes \<rho> v) = sizes v"
  unfolding region_axes_def by (rule axis_sizes_zip) (auto simp: wf_region_def)

lemma transpose_spec:
  assumes wf: "wf_region v" and t: "region_transpose v axes = Inr v'"
  shows "wf_region v' \<and> mset (region_walk \<rho> v') = mset (region_walk \<rho> v) \<and>
    sizes v' = permute (sizes v) (map nat axes) \<and>
    (\<forall>is. length is = length (sizes v) \<longrightarrow>
       addr (region_axes \<rho> v') (permute is (map nat axes)) = addr (region_axes \<rho> v) is)"
proof -
  note ax = region_axes_transpose(1) [OF wf t, of \<rho>] and p = region_axes_transpose(2) [OF wf t]
  have len: "length (region_axes \<rho> v) = length (sizes v)" using wf by (rule length_region_axes)
  have "mset (region_walk \<rho> v') = mset (region_walk \<rho> v)"
    unfolding region_walk_def ax using p len by (intro walk_perm permute_mset) simp
  moreover have v': "v' = respan v (permute (offsets v) (map nat axes)) (permute (sizes v) (map nat axes))
      (permute (strides v) (map nat axes)) (permute (logical_sizes v) (map nat axes))
      (Some (permute (dropped v) (map nat axes)))"
    using t by (cases "check_axes axes (length (sizes v))") (auto simp: region_transpose_def Let_def)
  moreover have "set (permute xs (map nat axes)) = set xs" if "length xs = length (sizes v)" for xs :: "'b list"
    using permute_mset [of "map nat axes" xs] p that by (metis mset_eq_setD)
  then have "set (permute (sizes v) (map nat axes)) = set (sizes v)"
    and "set (permute (offsets v) (map nat axes)) = set (offsets v)"
    using wf permute_mset [of "map nat axes" "offsets v"] permute_mset [of "map nat axes" "sizes v"] p
    by (metis mset_eq_setD wf_region_def)+
  moreover have "addr (region_axes \<rho> v') (permute is (map nat axes)) = addr (region_axes \<rho> v) is"
    if "length is = length (sizes v)" for "is"
    unfolding ax using p len that by (intro addr_permute) auto
  moreover have "length axes = length (sizes v)"
    using p by (metis length_map length_upt minus_nat.diff_0 size_mset)
  moreover have "wf_region v'"
    using calculation wf by (auto simp: wf_region_def respan_def mk_slice_def)
  ultimately show ?thesis
    by (simp add: respan_def mk_slice_def)
qed

text \<open>The inverse permutation undoes a transpose.\<close>

fun position :: "int list \<Rightarrow> int \<Rightarrow> nat" where
  "position [] k = 0"
| "position (a # as) k = (if a = k then 0 else Suc (position as k))"

definition inverse_axes :: "int list \<Rightarrow> int list" where
  "inverse_axes axes = map (\<lambda>k. int (position axes (int k))) [0..<length axes]"

lemma position_nth: "k \<in> set as \<Longrightarrow> position as k < length as \<and> as ! position as k = k"
  by (induction as) auto

lemma sort_axes_iff: "sort axes = map int [0..<rank] \<longleftrightarrow> mset axes = mset (map int [0..<rank])"
proof
  assume "mset axes = mset (map int [0..<rank])"
  moreover have "sorted (map int [0..<rank])" by (simp add: sorted_map sorted_wrt_upt)
  ultimately show "sort axes = map int [0..<rank]" by (rule properties_for_sort [OF sym])
qed (metis mset_sort)

lemma inverse_axes_perm:
  assumes c: "check_axes axes rank = Inr u"
  shows "check_axes (inverse_axes axes) rank = Inr ()" and "length axes = rank"
    and "length xs = rank \<Longrightarrow> permute (permute xs (map nat axes)) (map nat (inverse_axes axes)) = xs"
proof -
  have m: "mset axes = mset (map int [0..<rank])"
    using c by (simp add: check_axes_def sort_axes_iff split: if_splits)
  then have st: "set axes = set (map int [0..<rank])" by (rule mset_eq_setD)
  show len: "length axes = rank" using m by (metis length_map length_upt minus_nat.diff_0 size_mset)
  have pos: "position axes (int k) < rank" "axes ! position axes (int k) = int k" if "k < rank" for k
    using position_nth [of "int k" axes] st that len by auto
  have "inj_on (\<lambda>k. int (position axes (int k))) {0..<rank}"
    by (rule inj_onI) (metis atLeastLessThan_iff of_nat_eq_iff pos(2))
  then have "distinct (inverse_axes axes)"
    by (simp add: inverse_axes_def distinct_map len)
  moreover have "set (inverse_axes axes) \<subseteq> int ` {0..<rank}"
    using pos(1) by (auto simp: inverse_axes_def len)
  moreover have "length (inverse_axes axes) = rank" by (simp add: inverse_axes_def len)
  then have "card (set (inverse_axes axes)) = card (int ` {0..<rank})"
    using distinct_card [OF \<open>distinct (inverse_axes axes)\<close>] by (simp add: card_image)
  ultimately have "mset (inverse_axes axes) = mset (map int [0..<rank])"
    by (intro set_eq_iff_mset_eq_distinct [THEN iffD1]) (auto simp: distinct_map card_subset_eq)
  then show "check_axes (inverse_axes axes) rank = Inr ()"
    by (simp add: check_axes_def sort_axes_iff)
  show "permute (permute xs (map nat axes)) (map nat (inverse_axes axes)) = xs" if "length xs = rank"
    using that pos len by (auto simp: permute_def inverse_axes_def intro: nth_equalityI)
qed

lemma transpose_inverse:
  assumes wf: "wf_region v" and t: "region_transpose v axes = Inr v'"
  shows "region_transpose v' (inverse_axes axes) = Inr (v\<lparr>is_view := True\<rparr>)"
proof -
  have c: "check_axes axes (length (sizes v)) = Inr ()"
    using t by (cases "check_axes axes (length (sizes v))") (auto simp: region_transpose_def)
  then have v': "v' = respan v (permute (offsets v) (map nat axes)) (permute (sizes v) (map nat axes))
      (permute (strides v) (map nat axes)) (permute (logical_sizes v) (map nat axes))
      (Some (permute (dropped v) (map nat axes)))"
    using t by (auto simp: region_transpose_def Let_def)
  have "check_axes (inverse_axes axes) (length (sizes v')) = Inr ()"
    using inverse_axes_perm(1,2) [OF c] by (simp add: v' respan_def mk_slice_def)
  then show ?thesis
    using wf
    by (cases v) (simp add: region_transpose_def Let_def v' respan_def mk_slice_def wf_region_def
        inverse_axes_perm(3) [OF c])
qed

section \<open>Broadcast\<close>

definition moved_sum :: "(nat \<Rightarrow> int) \<Rightarrow> (index_expr \<times> int) list \<Rightarrow> int" where
  "moved_sum \<rho> moved = (\<Sum>(off, s)\<leftarrow>moved. eval_index \<rho> off * s)"

text \<open>The index a broadcast reads: the added axes are dropped, a repeated axis is read at zero.\<close>

definition project :: "int list \<Rightarrow> int list \<Rightarrow> int list \<Rightarrow> int list" where
  "project shape szs is =
     (let new = length shape - length szs in
      map2 (\<lambda>(n, m) i. if n = m then i else 0) (zip (drop new shape) szs) (drop new is))"

lemma broadcast_axes_spec:
  assumes "broadcast_axes ns ins = Inr (axes, moved)" and "length ns = length ins"
  shows "map (fst \<circ> snd) axes = ns \<and>
    (\<forall>is. length is = length ns \<longrightarrow>
       addr (map (ev_out \<rho>) axes) is + moved_sum \<rho> moved
         = addr (map (ev_in \<rho>) ins) (map2 (\<lambda>(n, m) i. if n = m then i else 0) (zip ns (map ax_size ins)) is)) \<and>
    (\<forall>a \<in> set axes. wf_index (fst a) \<or> fst a \<in> ax_offset ` set ins) \<and>
    (\<forall>a \<in> set moved. fst a \<in> ax_offset ` set ins)"
  using assms
proof (induction ns ins arbitrary: axes moved rule: broadcast_axes.induct)
  case (1 n ns sz st off ins)
  from "1.prems"(1) obtain axes' moved' where
    rec: "broadcast_axes ns ins = Inr (axes', moved')" and ok: "n = sz \<or> sz = 1"
    and axes: "axes = (if n = sz then (off, n, st) else (index_constant 0, n, 0)) # axes'"
    and moved: "moved = (if n \<noteq> sz \<and> st \<noteq> 0 \<and> carries_offset off then [(off, st)] else []) @ moved'"
    by (auto simp: res_simps split: if_splits)
  have IH: "map (fst \<circ> snd) axes' = ns"
    "\<And>is. length is = length ns \<Longrightarrow> addr (map (ev_out \<rho>) axes') is + moved_sum \<rho> moved'
         = addr (map (ev_in \<rho>) ins) (map2 (\<lambda>(n, m) i. if n = m then i else 0) (zip ns (map ax_size ins)) is)"
    "\<forall>a \<in> set axes'. wf_index (fst a) \<or> fst a \<in> ax_offset ` set ins" "\<forall>a \<in> set moved'. fst a \<in> ax_offset ` set ins"
    using "1.IH" [OF _ rec] ok "1.prems"(2) by auto
  have "addr (map (ev_out \<rho>) axes) is + moved_sum \<rho> moved
         = addr (map (ev_in \<rho>) ((sz, st, off) # ins))
             (map2 (\<lambda>(n, m) i. if n = m then i else 0) (zip (n # ns) (map ax_size ((sz, st, off) # ins))) is)"
    if len: "length is = Suc (length ns)" for "is"
  proof -
    obtain i js where is': "is = i # js" "length js = length ns" using len by (cases "is") auto
    have "moved_sum \<rho> moved = (if n = sz then 0 else eval_index \<rho> off * st) + moved_sum \<rho> moved'"
      using carries_offset_zero [of off \<rho>] by (auto simp: moved moved_sum_def)
    then show ?thesis
      using IH(2) [OF is'(2)] by (simp add: is' axes)
  qed
  with IH show ?case by (auto simp: axes moved)
qed (auto simp: moved_sum_def)

lemma carrier_spec:
  "carrier st axes = Some k \<Longrightarrow> k < length axes \<and> snd (snd (axes ! k)) \<noteq> 0 \<and> st mod snd (snd (axes ! k)) = 0"
  by (induction st axes arbitrary: k rule: carrier.induct) (auto split: option.splits if_splits)

lemma addr_update:
  "k < length axs \<Longrightarrow> length is = length axs \<Longrightarrow> axs ! k = (off, n, s) \<Longrightarrow>
     addr (axs[k := (off + d, n, s)]) is = addr axs is + d * s"
proof (induction axs "is" arbitrary: k rule: addr.induct)
  case (1 o' n' s' axs i "is")
  then show ?case by (cases k) (auto simp: algebra_simps)
qed auto

lemma map_ev_out_update: "map (ev_out \<rho>) (axes[k := x]) = (map (ev_out \<rho>) axes)[k := ev_out \<rho> x]"
  by (simp add: map_update)

lemma move_offsets_spec:
  assumes "move_offsets moved axes = Inr axes'"
    and "\<forall>a \<in> set moved. wf_index (fst a)" and "\<forall>a \<in> set axes. wf_index (fst a)"
  shows "map (fst \<circ> snd) axes' = map (fst \<circ> snd) axes \<and> map (snd \<circ> snd) axes' = map (snd \<circ> snd) axes \<and>
    (\<forall>is. length is = length axes \<longrightarrow>
       addr (map (ev_out \<rho>) axes') is = addr (map (ev_out \<rho>) axes) is + moved_sum \<rho> moved) \<and>
    (\<forall>a \<in> set axes'. wf_index (fst a))"
  using assms
proof (induction moved axes rule: move_offsets.induct)
  case (1 axes)
  then show ?case by (auto simp: moved_sum_def)
next
  case (2 off st moved axes)
  obtain k where k: "carrier st axes = Some k"
    using "2.prems"(1) by (cases "carrier st axes") auto
  obtain off' n s where ak: "axes ! k = (off', n, s)" by (cases "axes ! k")
  from k ak have kl: "k < length axes" and s: "s \<noteq> 0" "st mod s = 0"
    using carrier_spec [OF k] by auto
  obtain d where d: "index_mul off (index_constant (st div s)) = Inr d"
    and rec: "move_offsets moved (axes[k := (index_add off' d, n, s)]) = Inr axes'"
    using "2.prems"(1) by (auto simp: k ak res_simps)
  have wf: "wf_index off" "wf_index off'"
    using "2.prems"(2,3) kl ak nth_mem [OF kl] by auto
  have dm: "wf_index d" "eval_index \<rho> d = eval_index \<rho> off * (st div s)"
    using ix_mul.op_wf [OF d wf(1) wf_constant] ix_mul.op_eval [OF d wf(1) wf_constant, of \<rho>] by simp_all
  let ?axes = "axes[k := (index_add off' d, n, s)]"
  have wfs: "\<forall>a \<in> set ?axes. wf_index (fst a)"
    using "2.prems"(3) wf dm(1) by (auto dest!: set_update_subset_insert [THEN subsetD])
  have same: "map (fst \<circ> snd) ?axes = map (fst \<circ> snd) axes" "map (snd \<circ> snd) ?axes = map (snd \<circ> snd) axes"
    using kl ak by (auto simp: map_update list_update_same_conv)
  have step: "addr (map (ev_out \<rho>) ?axes) is = addr (map (ev_out \<rho>) axes) is + eval_index \<rho> off * st"
    if "length is = length axes" for "is"
  proof -
    have "map (ev_out \<rho>) ?axes = (map (ev_out \<rho>) axes)[k := (eval_index \<rho> off' + eval_index \<rho> d, n, s)]"
      using wf(2) dm(1) by (simp add: map_ev_out_update)
    moreover have "st div s * s = st" using s by (metis add.right_neutral div_mult_mod_eq)
    ultimately show ?thesis
      using addr_update [of k "map (ev_out \<rho>) axes" "is"] kl ak that by (simp add: dm(2) mult.assoc)
  qed
  have "map (fst \<circ> snd) axes' = map (fst \<circ> snd) ?axes \<and> map (snd \<circ> snd) axes' = map (snd \<circ> snd) ?axes \<and>
    (\<forall>is. length is = length ?axes \<longrightarrow>
       addr (map (ev_out \<rho>) axes') is = addr (map (ev_out \<rho>) ?axes) is + moved_sum \<rho> moved) \<and>
    (\<forall>a \<in> set axes'. wf_index (fst a))"
    using "2.IH" [OF k ak [symmetric] refl d rec _ wfs] "2.prems"(2) by (simp add: comp_def)
  with same step show ?case by (simp add: moved_sum_def comp_def)
qed

lemma region_axes_out:
  "region_axes \<rho> (respan v (map fst axes) (map (fst \<circ> snd) axes) (map (snd \<circ> snd) axes) l d) = map (ev_out \<rho>) axes"
  unfolding region_axes_def by (simp add: respan_def mk_slice_def) (induction axes; auto)

lemma addr_lead:
  "length is = length ns + length axs \<Longrightarrow>
     addr (map (\<lambda>n. (0, n, 0)) ns @ axs) is = addr axs (drop (length ns) is)"
proof (induction ns arbitrary: "is")
  case (Cons n ns)
  then show ?case by (cases "is") auto
qed simp

lemma broadcast_axes_ok:
  "broadcast_axes ns ins = Inr r \<Longrightarrow> length ns = length ins \<Longrightarrow>
     list_all2 (\<lambda>n m. n = m \<or> m = 1) ns (map ax_size ins)"
  by (induction ns ins arbitrary: r rule: broadcast_axes.induct) (auto simp: res_simps split: if_splits)

lemma list_all2_project:
  "list_all2 (\<lambda>n m. n = m \<or> m = 1) ns ms \<Longrightarrow> list_all2 (\<lambda>i n. 0 \<le> i \<and> i < n) is ns \<Longrightarrow>
     list_all2 (\<lambda>i n. 0 \<le> i \<and> i < (n::int)) (map2 (\<lambda>(n, m) i. if n = m then i else 0) (zip ns ms) is) ms"
proof (induction ns ms arbitrary: "is" rule: list_all2_induct)
  case (Cons n ns m ms)
  then show ?case by (cases "is") auto
qed simp

lemma broadcast_spec:
  assumes wf: "wf_region v" and b: "region_broadcast_to v shape = Inr v'"
  shows "wf_region v' \<and> sizes v' = shape \<and> readonly v' \<and> length (sizes v) \<le> length shape \<and>
    (\<forall>is. length is = length shape \<longrightarrow>
       addr (region_axes \<rho> v') is = addr (region_axes \<rho> v) (project shape (sizes v) is)) \<and>
    (\<forall>is \<in> set (box shape). project shape (sizes v) is \<in> set (box (sizes v)))"
proof -
  let ?new = "length shape - length (sizes v)" and ?ins = "zip (sizes v) (zip (strides v) (offsets v))"
  let ?lead = "map (\<lambda>n. (index_constant 0, n, 0)) (take ?new shape)"
  obtain axes moved axes' where le: "length (sizes v) \<le> length shape" and pos: "\<forall>n \<in> set shape. 1 \<le> n"
    and ax: "broadcast_axes (drop ?new shape) ?ins = Inr (axes, moved)"
    and mv: "move_offsets moved (?lead @ axes) = Inr axes'"
    and v': "v' = (respan v (map fst axes') (map (fst \<circ> snd) axes') (map (snd \<circ> snd) axes') shape
                     (Some (replicate (length shape) False)))\<lparr>readonly := True\<rparr>"
    using b by (auto simp: region_broadcast_to_def res_simps Let_def not_less split: if_splits)
  have lens: "length (offsets v) = length (sizes v)" "length (strides v) = length (sizes v)"
    using wf by (auto simp: wf_region_def)
  have ins: "length ?ins = length (sizes v)" "map ax_size ?ins = sizes v" "map (ev_in \<rho>) ?ins = region_axes \<rho> v"
    using lens by (simp_all add: region_axes_def ev_in_zip)
  have "ax_offset ` set ?ins \<subseteq> set (offsets v)" by (auto dest!: set_zip_rightD)
  then have offs: "\<And>e. e \<in> ax_offset ` set ?ins \<Longrightarrow> wf_index e" using wf by (auto simp: wf_region_def)
  have len: "length (drop ?new shape) = length ?ins" using le ins(1) by simp
  note sp = broadcast_axes_spec [OF ax len, of \<rho>]
  have wfa: "\<forall>a \<in> set moved. wf_index (fst a)" "\<forall>a \<in> set (?lead @ axes). wf_index (fst a)"
    subgoal using sp offs by blast
    subgoal using sp offs by (simp add: ball_Un del: image_iff) blast
    done
  note ms = move_offsets_spec [OF mv wfa, of \<rho>]
  have szs: "map (fst \<circ> snd) (?lead @ axes) = shape"
    using sp by (simp add: comp_def)
  have axl: "length (?lead @ axes) = length shape" using szs by (metis length_map)
  have v'ax: "region_axes \<rho> v' = map (ev_out \<rho>) axes'"
    using region_axes_out [of \<rho> v axes'] by (simp add: v' region_axes_def)
  have "addr (region_axes \<rho> v') is = addr (region_axes \<rho> v) (project shape (sizes v) is)"
    if il: "length is = length shape" for "is"
  proof -
    have "addr (region_axes \<rho> v') is
        = addr (map (\<lambda>n. (0, n, 0)) (take ?new shape) @ map (ev_out \<rho>) axes) is + moved_sum \<rho> moved"
      using ms il axl unfolding v'ax by (simp add: comp_def)
    also have "\<dots> = addr (map (ev_out \<rho>) axes) (drop ?new is) + moved_sum \<rho> moved"
      using addr_lead [of "is" "take ?new shape" "map (ev_out \<rho>) axes"] il axl by simp
    finally show ?thesis
      using sp ins il le by (simp add: project_def Let_def)
  qed
  moreover have "project shape (sizes v) is \<in> set (box (sizes v))" if "is \<in> set (box shape)" for "is"
    using that list_all2_project [OF broadcast_axes_ok [OF ax len], of "drop ?new is"] le ins(2)
    by (auto simp: box_iff project_def Let_def intro!: list_all2_dropI)
  moreover have "wf_region v'"
    using ms szs pos axl by (auto simp: wf_region_def v' respan_def mk_slice_def)
  moreover have "sizes v' = shape"
    using ms szs by (simp add: v' respan_def mk_slice_def)
  moreover have "readonly v'" by (simp add: v')
  ultimately show ?thesis using le by blast
qed

section \<open>Subscript\<close>

lemma resolve_slice_iff:
  "resolve_subscript (Slice a b c) n = Inr (lo, m, dr) \<longleftrightarrow>
     (c = None \<or> c = Some 1) \<and> slice_bound a 0 = Inr lo \<and> \<not> dr \<and> 0 < m \<and>
     (\<exists>hi. slice_bound b n = Inr hi \<and> as_const (index_sub hi lo) = Some m)"
proof (cases "c = None \<or> c = Some 1")
  case True
  then show ?thesis
  proof (cases "slice_bound a 0"; cases "slice_bound b n")
    fix lo' hi assume "slice_bound a 0 = Inr lo'" "slice_bound b n = Inr hi"
    then show ?thesis using True
      by (cases "as_const (index_sub hi lo')") auto
  qed auto
qed auto

lemma resolve_subscript_size: "resolve_subscript sub n = Inr (lo, m, dr) \<Longrightarrow> 1 \<le> m"
proof (cases sub)
  case (Index v)
  then show "resolve_subscript sub n = Inr (lo, m, dr) \<Longrightarrow> 1 \<le> m" by (cases "coerce_index v") auto
qed (auto simp: resolve_slice_iff simp del: resolve_subscript.simps(1))

definition wf_subscript :: "subscript \<Rightarrow> bool" where
  "wf_subscript sub = (case sub of
      Slice lo hi st \<Rightarrow> (\<forall>v \<in> set_option lo \<union> set_option hi. wf_index_like v)
    | Index v \<Rightarrow> wf_index_like v | Ellipsis \<Rightarrow> True)"

lemma wf_slice_bound: "slice_bound v d = Inr e \<Longrightarrow> \<forall>x \<in> set_option v. wf_index_like x \<Longrightarrow> wf_index e"
  by (cases v) (auto simp: slice_bound_def dest: wf_coerce)

lemma resolve_subscript_wf:
  assumes "resolve_subscript sub n = Inr (lo, m, dr)" and "wf_subscript sub"
  shows "wf_index lo"
proof (cases sub)
  case (Slice a b c)
  then have "slice_bound a 0 = Inr lo"
    using assms(1) unfolding Slice resolve_slice_iff by blast
  with Slice assms(2) show ?thesis by (auto simp: wf_subscript_def dest: wf_slice_bound)
next
  case (Index v)
  then have "coerce_index v = Inr lo" using assms(1) by (auto simp: res_bind_Inr_iff)
  with Index assms(2) show ?thesis by (simp add: wf_subscript_def wf_coerce)
qed (use assms in simp)

lemma resolve_key_spec:
  assumes "resolve_key key ns = Inr rs"
  shows "length rs = length ns \<and> length key = length ns \<and>
    (\<forall>k < length ns. resolve_subscript (key ! k) (ns ! k) = Inr (rs ! k))"
proof -
  have key: "length key = length ns" and m: "map_res (\<lambda>(sub, n). resolve_subscript sub n) (zip key ns) = Inr rs"
    using assms by (auto simp: resolve_key_def normalize_key_def res_bind_Inr_iff split: if_splits)
  show ?thesis
    using key map_res_length [OF m] map_res_nth [OF m] by auto
qed

lemma addr_shift:
  "length ks = length axs \<Longrightarrow> length szs = length axs \<Longrightarrow> length is = length axs \<Longrightarrow>
     addr (zip (map2 (+) (map fst axs) ks) (zip szs (map (snd \<circ> snd) axs))) is = addr axs (map2 (+) ks is)"
proof (induction axs arbitrary: ks szs "is")
  case (Cons a axs)
  then show ?case
    by (cases a; cases ks; cases szs; cases "is") auto
qed simp

lemma getitem_spec:
  assumes wf: "wf_region v" and g: "region_getitem v key = Inr v'" and wfk: "\<forall>k \<in> set key. wf_subscript k"
  shows "\<exists>rs. resolve_key key (sizes v) = Inr rs \<and> wf_region v' \<and> sizes v' = map (fst \<circ> snd) rs \<and>
    (\<forall>is. length is = length (sizes v) \<longrightarrow>
       addr (region_axes \<rho> v') is = addr (region_axes \<rho> v) (map2 (+) (map (eval_index \<rho> \<circ> fst) rs) is))"
proof -
  obtain rs where rs: "resolve_key key (sizes v) = Inr rs"
    and v': "v' = respan v (map2 index_add (offsets v) (map fst rs)) (map (fst \<circ> snd) rs) (strides v)
              (map (fst \<circ> snd) rs) (Some (map2 (\<or>) (dropped v) (map (snd \<circ> snd) rs)))"
    using g by (auto simp: region_getitem_def res_bind_Inr_iff)
  note sp = resolve_key_spec [OF rs]
  have len: "length rs = length (sizes v)" using sp by simp
  have lens: "length (offsets v) = length (sizes v)" "length (strides v) = length (sizes v)"
      "length (dropped v) = length (sizes v)"
    using wf by (auto simp: wf_region_def)
  have los: "wf_index (fst (rs ! k))" "1 \<le> fst (snd (rs ! k))" if "k < length (sizes v)" for k
    using sp that wfk resolve_subscript_wf [of "key ! k" "sizes v ! k"] resolve_subscript_size [of "key ! k" "sizes v ! k"]
    by (cases "rs ! k"; force)+
  have wfo: "wf_index (offsets v ! k)" if "k < length (sizes v)" for k
    using wf that by (simp add: wf_region_def)
  have ev: "map (eval_index \<rho>) (map2 index_add (offsets v) (map fst rs))
      = map2 (+) (map (eval_index \<rho>) (offsets v)) (map (eval_index \<rho> \<circ> fst) rs)"
    using len lens los wfo by (intro nth_equalityI) auto
  have parts: "map fst (region_axes \<rho> v) = map (eval_index \<rho>) (offsets v)" "map (snd \<circ> snd) (region_axes \<rho> v) = strides v"
    using lens by (simp_all add: region_axes_def flip: map_map)
  have ax: "region_axes \<rho> v' = zip (map2 (+) (map fst (region_axes \<rho> v)) (map (eval_index \<rho> \<circ> fst) rs))
      (zip (map (fst \<circ> snd) rs) (map (snd \<circ> snd) (region_axes \<rho> v)))"
    unfolding parts ev [symmetric] by (simp add: region_axes_def v' respan_def mk_slice_def)
  have "\<forall>r \<in> set rs. wf_index (fst r) \<and> 1 \<le> fst (snd r)"
    using len los by (metis in_set_conv_nth)
  moreover have "wf_index (index_add a b)" if "(a, b) \<in> set (zip (offsets v) (map fst rs))" for a b
    using set_zip_leftD [OF that] set_zip_rightD [OF that] calculation wf by (auto simp: wf_region_def)
  ultimately have "wf_region v'"
    using len lens wf by (auto simp: wf_region_def v' respan_def mk_slice_def)
  moreover have "sizes v' = map (fst \<circ> snd) rs" by (simp add: v' respan_def mk_slice_def)
  moreover have "addr (region_axes \<rho> v') is = addr (region_axes \<rho> v) (map2 (+) (map (eval_index \<rho> \<circ> fst) rs) is)"
    if "length is = length (sizes v)" for "is"
    unfolding ax using that len length_region_axes [OF wf] by (intro addr_shift) auto
  ultimately show ?thesis using rs by blast
qed

section \<open>The interface of a view operation\<close>

text \<open>
  What a transfer relies on, whichever views were chained: an operation keeps the region well formed and
  of the same array, it never reaches an address its argument does not reach, and it never makes a
  read-only region writable.
\<close>

locale view_operation =
  fixes op :: "'k \<Rightarrow> 'o region \<Rightarrow> 'o region res"
  assumes op_wf: "op k v = Inr v' \<Longrightarrow> wf_region v \<Longrightarrow> wf_region v'"
    and op_within: "op k v = Inr v' \<Longrightarrow> wf_region v \<Longrightarrow> set (region_walk \<rho> v') \<subseteq> set (region_walk \<rho> v)"
    and op_parent: "op k v = Inr v' \<Longrightarrow> parent v' = parent v"
    and op_readonly: "op k v = Inr v' \<Longrightarrow> readonly v \<Longrightarrow> readonly v'"
begin

lemma chain:
  assumes "apply_all op ks v = Inr v'" and "wf_region v"
  shows "wf_region v' \<and> set (region_walk \<rho> v') \<subseteq> set (region_walk \<rho> v) \<and> parent v' = parent v \<and>
    (readonly v \<longrightarrow> readonly v')"
  using assms
proof (induction ks arbitrary: v)
  case (Cons k ks)
  then obtain w where w: "op k v = Inr w" "apply_all op ks w = Inr v'" by (auto simp: res_bind_Inr_iff)
  show ?case
    using Cons.IH [OF w(2) op_wf [OF w(1) Cons.prems(2)]] op_within [OF w(1) Cons.prems(2), of \<rho>]
      op_parent [OF w(1)] op_readonly [OF w(1)] by auto
qed simp

end

text \<open>An operation that only re-describes or reorders the walk visits every address exactly as often.\<close>

locale rearrangement = view_operation +
  assumes op_mset: "op k v = Inr v' \<Longrightarrow> wf_region v \<Longrightarrow> mset (region_walk \<rho> v') = mset (region_walk \<rho> v)"
    and op_flag: "op k v = Inr v' \<Longrightarrow> readonly v' = readonly v"
begin

lemma chain_mset:
  assumes "apply_all op ks v = Inr v'" and "wf_region v"
  shows "mset (region_walk \<rho> v') = mset (region_walk \<rho> v) \<and> readonly v' = readonly v"
  using assms
proof (induction ks arbitrary: v)
  case (Cons k ks)
  then obtain w where w: "op k v = Inr w" "apply_all op ks w = Inr v'" by (auto simp: res_bind_Inr_iff)
  show ?case
    using Cons.IH [OF w(2) op_wf [OF w(1) Cons.prems(2)]] op_mset [OF w(1) Cons.prems(2), of \<rho>]
      op_flag [OF w(1)] by simp
qed simp

end

lemma reshape_fields: "region_reshape v shape = Inr v' \<Longrightarrow> parent v' = parent v \<and> readonly v' = readonly v"
  by (auto simp: region_reshape_def res_bind_Inr_iff Let_def respan_def mk_slice_def)

lemma transpose_fields: "region_transpose v axes = Inr v' \<Longrightarrow> parent v' = parent v \<and> readonly v' = readonly v"
  by (auto simp: region_transpose_def res_bind_Inr_iff Let_def respan_def mk_slice_def)

lemma broadcast_fields: "region_broadcast_to v shape = Inr v' \<Longrightarrow> parent v' = parent v \<and> readonly v'"
  by (auto simp: region_broadcast_to_def res_bind_Inr_iff Let_def respan_def mk_slice_def split: if_splits)

lemma reshape_walk: "region_reshape v shape = Inr v' \<Longrightarrow> wf_region v \<Longrightarrow> region_walk \<rho> v' = region_walk \<rho> v"
  using reshape_spec by blast

interpretation reshape_op: rearrangement "\<lambda>shape v. region_reshape v shape"
  by unfold_locales (auto simp: reshape_walk dest: reshape_spec reshape_fields)

interpretation transpose_op: rearrangement "\<lambda>axes v. region_transpose v axes"
  by unfold_locales (auto dest: transpose_spec transpose_fields mset_eq_setD)

lemma broadcast_within:
  assumes "region_broadcast_to v shape = Inr v'" and "wf_region v"
  shows "set (region_walk \<rho> v') \<subseteq> set (region_walk \<rho> v)"
proof -
  note b = broadcast_spec [OF assms(2,1), of \<rho>]
  have "addr (region_axes \<rho> v') is \<in> set (walk (region_axes \<rho> v))" if "is \<in> set (box shape)" for "is"
  proof -
    have "length is = length shape" using that by (auto simp: box_iff dest: list_all2_lengthD)
    with b that assms(2) show ?thesis by (simp add: walk_def)
  qed
  with b show ?thesis by (auto simp: region_walk_def walk_def)
qed

interpretation broadcast_op: view_operation "\<lambda>shape v. region_broadcast_to v shape"
  using broadcast_spec broadcast_within broadcast_fields by unfold_locales blast+

text \<open>Any view operation, and the two that only rearrange.\<close>

datatype view_op = Reshape "int list" | Transpose "int list" | BroadcastTo "int list"

fun apply_view :: "view_op \<Rightarrow> 'o region \<Rightarrow> 'o region res" where
  "apply_view (Reshape shape) v = region_reshape v shape"
| "apply_view (Transpose axes) v = region_transpose v axes"
| "apply_view (BroadcastTo shape) v = region_broadcast_to v shape"

definition rearrange :: "view_op \<Rightarrow> 'o region \<Rightarrow> 'o region res" where
  "rearrange k v = (case k of BroadcastTo shape \<Rightarrow> Inl ValueError | _ \<Rightarrow> apply_view k v)"

interpretation any_view: view_operation apply_view
proof (unfold_locales, goal_cases)
  case (1 k v v')
  then show ?case by (cases k) (auto intro: reshape_op.op_wf transpose_op.op_wf broadcast_op.op_wf)
next
  case (2 k v v' \<rho>)
  then show ?case
    using reshape_op.op_within [of v _ v' \<rho>] transpose_op.op_within [of v _ v' \<rho>] broadcast_op.op_within [of v _ v' \<rho>]
    by (cases k) auto
next
  case (3 k v v')
  then show ?case by (cases k) (auto dest: reshape_fields transpose_fields broadcast_fields)
next
  case (4 k v v')
  then show ?case by (cases k) (auto dest: reshape_fields transpose_fields broadcast_fields)
qed

interpretation rearranging: rearrangement rearrange
proof (unfold_locales, goal_cases)
  case (1 k v v')
  then show ?case by (cases k) (auto simp: rearrange_def intro: reshape_op.op_wf transpose_op.op_wf)
next
  case (2 k v v' \<rho>)
  then show ?case
    using reshape_op.op_within [of v _ v' \<rho>] transpose_op.op_within [of v _ v' \<rho>]
    by (cases k) (auto simp: rearrange_def)
next
  case (5 k v v' \<rho>)
  then show ?case
    using reshape_op.op_mset [of v _ v' \<rho>] transpose_op.op_mset [of v _ v' \<rho>]
    by (cases k) (auto simp: rearrange_def)
qed (auto simp: rearrange_def dest: reshape_fields transpose_fields split: view_op.splits)

section \<open>Properties\<close>

text \<open>
  Reshape re-describes, it never moves. When \<open>reshape\<close> returns, the new region has exactly the
  requested shape, and for every value of the runtime offsets it visits the same addresses in the same
  order as before, of the same array and with the same access rights.
\<close>

theorem reshape_preserves_walk:
  assumes "wf_region v" and "region_reshape v shape = Inr v'"
  shows "wf_region v' \<and> sizes v' = shape \<and> (\<forall>\<rho>. region_walk \<rho> v' = region_walk \<rho> v) \<and>
    parent v' = parent v \<and> readonly v' = readonly v"
  using reshape_spec [OF assms] reshape_fields [OF assms(2)] by blast

theorem reshape_preserves_walk_witness:
  "\<exists>v'. region_reshape (whole_region () [4, 6]) [2, 2, 6] = Inr v' \<and>
     region_walk (\<lambda>_. 0) v' = region_walk (\<lambda>_. 0) (whole_region () [4, 6])"
proof -
  obtain v' where v': "region_reshape (whole_region () [4, 6]) [2, 2, 6] = Inr v'"
    using whole_reshape_total [of "[4, 6]" "[2, 2, 6]" "()"] by auto
  have "wf_region (whole_region () [4, 6])" by (rule wf_whole_region) simp
  from reshape_preserves_walk [OF this v'] v' show ?thesis by blast
qed

text \<open>
  A contiguous array always reshapes, as in numpy. For every target shape of positive extents with
  the same number of elements, \<open>reshape\<close> of a whole tensor returns a view, and its strides are the
  row-major strides of the new shape, at offset zero.
\<close>

theorem contiguous_reshape_total:
  assumes "\<forall>n \<in> set old. 1 \<le> n" and "\<forall>n \<in> set shape. 1 \<le> n" and "prod_list old = prod_list shape"
  shows "\<exists>v'. region_reshape (tensor_whole_view (Tensor old dt name)) shape = Inr v' \<and> sizes v' = shape \<and>
    strides v' = row_major_strides shape \<and> (\<forall>e \<in> set (offsets v'). as_const e = Some 0)"
  unfolding tensor_whole_region by (rule whole_reshape_total [OF assms])

theorem contiguous_reshape_total_witness:
  "\<exists>v'. region_reshape (tensor_whole_view (Tensor [3, 1, 8, 2] bf16 ''a'')) [1, 4, 12] = Inr v' \<and>
     strides v' = [48, 12, 1]"
  using contiguous_reshape_total [of "[3, 1, 8, 2]" "[1, 4, 12]" bf16 "''a''"] by auto

text \<open>
  Transpose permutes. The transposed region holds the element of index \<open>i\<close> at the permuted index,
  so it visits the same addresses equally often; and transposing by the inverse permutation gives the
  region back.
\<close>

theorem transpose_permutes:
  assumes "wf_region v" and "region_transpose v axes = Inr v'"
  shows "wf_region v' \<and> sizes v' = permute (sizes v) (map nat axes) \<and>
    (\<forall>\<rho> is. length is = length (sizes v) \<longrightarrow>
       addr (region_axes \<rho> v') (permute is (map nat axes)) = addr (region_axes \<rho> v) is) \<and>
    (\<forall>\<rho>. mset (region_walk \<rho> v') = mset (region_walk \<rho> v)) \<and>
    region_transpose v' (inverse_axes axes) = Inr (v\<lparr>is_view := True\<rparr>)"
  using transpose_spec [OF assms] transpose_inverse [OF assms] by blast

theorem transpose_permutes_witness:
  "\<exists>v'. region_transpose (whole_region () [2, 3, 5]) [2, 0, 1] = Inr v' \<and> sizes v' = [5, 2, 3] \<and>
     region_transpose v' (inverse_axes [2, 0, 1]) = Inr ((whole_region () [2, 3, 5])\<lparr>is_view := True\<rparr>)"
proof -
  obtain v' where v': "region_transpose (whole_region () [2, 3, 5]) [2, 0, 1] = Inr v'"
    by (simp add: region_transpose_def check_axes_def Let_def upt_rec)
  have "wf_region (whole_region () [2, 3, 5])" by (rule wf_whole_region) simp
  from transpose_permutes [OF this v'] v' show ?thesis by (simp add: permute_def)
qed

text \<open>
  Broadcasting is numpy's. The element of the broadcast region at an index is the element of the
  original at that index with the new axes dropped and every repeated axis read at zero, an index that
  is in range there; the result is read-only.
\<close>

theorem broadcast_reads_projection:
  assumes "wf_region v" and "region_broadcast_to v shape = Inr v'"
  shows "wf_region v' \<and> sizes v' = shape \<and> readonly v' \<and>
    (\<forall>\<rho> is. is \<in> set (box shape) \<longrightarrow> project shape (sizes v) is \<in> set (box (sizes v)) \<and>
       addr (region_axes \<rho> v') is = addr (region_axes \<rho> v) (project shape (sizes v) is))"
proof -
  have "length is = length shape" if "is \<in> set (box shape)" for "is"
    using that by (auto simp: box_iff dest: list_all2_lengthD)
  then show ?thesis using broadcast_spec [OF assms] by blast
qed

theorem broadcast_reads_projection_witness:
  "\<exists>v'. region_broadcast_to (whole_region () [4, 1]) [2, 4, 3] = Inr v' \<and> readonly v' \<and>
     addr (region_axes (\<lambda>_. 0) v') [1, 3, 2] = 3"
proof -
  obtain v' where v': "region_broadcast_to (whole_region () [4, 1]) [2, 4, 3] = Inr v'"
    by (simp add: region_broadcast_to_def Let_def carries_offset_def)
  have wf: "wf_region (whole_region () [4, 1])" by (rule wf_whole_region) simp
  have "[1, 3, 2] \<in> set (box [2, 4, 3])" unfolding box_iff by simp
  then have "addr (region_axes (\<lambda>_. 0) v') [1, 3, 2]
      = addr (region_axes (\<lambda>_. 0) (whole_region () [4, 1])) (project [2, 4, 3] [4, 1] [1, 3, 2])"
    using broadcast_reads_projection [OF wf v'] by auto
  with v' broadcast_reads_projection [OF wf v'] show ?thesis
    by (simp add: project_def whole_axes)
qed

text \<open>
  Subscripting composes. Index \<open>i\<close> of a sub-region is index \<open>start + i\<close> of the region it was taken
  from, with the sizes the subscripts name, whatever runtime values the starts have.
\<close>

theorem subscript_shifts_index:
  assumes "wf_region v" and "region_getitem v key = Inr v'" and "\<forall>k \<in> set key. wf_subscript k"
  shows "\<exists>rs. resolve_key key (sizes v) = Inr rs \<and> wf_region v' \<and> sizes v' = map (fst \<circ> snd) rs \<and>
    (\<forall>\<rho> is. length is = length (sizes v) \<longrightarrow>
       addr (region_axes \<rho> v') is = addr (region_axes \<rho> v) (map2 (+) (map (eval_index \<rho> \<circ> fst) rs) is))"
proof -
  obtain rs where rs: "resolve_key key (sizes v) = Inr rs"
    using getitem_spec [OF assms, of "\<lambda>_. 0"] by blast
  have "wf_region v' \<and> sizes v' = map (fst \<circ> snd) rs \<and> (\<forall>is. length is = length (sizes v) \<longrightarrow>
      addr (region_axes \<rho> v') is = addr (region_axes \<rho> v) (map2 (+) (map (eval_index \<rho> \<circ> fst) rs) is))" for \<rho>
    using getitem_spec [OF assms, of \<rho>] rs by auto
  with rs show ?thesis by blast
qed

theorem subscript_shifts_index_witness:
  "\<exists>v'. region_getitem (whole_region () [8, 8]) [Slice (Some (VInt 2)) (Some (VInt 6)) None, Index (VInt 3)] = Inr v' \<and>
     sizes v' = [4, 1] \<and> addr (region_axes (\<lambda>_. 0) v') [1, 0] = 27"
proof -
  let ?key = "[Slice (Some (VInt 2)) (Some (VInt 6)) None, Index (VInt 3)]"
  have rk: "resolve_key ?key [8, 8] = Inr [(index_constant 2, 4, False), (index_constant 3, 1, True)]"
    by code_simp
  then obtain v' where v': "region_getitem (whole_region () [8, 8]) ?key = Inr v'"
    by (simp add: region_getitem_def)
  have wf: "wf_region (whole_region () [8, 8])" by (rule wf_whole_region) simp
  have wfk: "\<forall>k \<in> set ?key. wf_subscript k" by (simp add: wf_subscript_def wf_index_like_def)
  show ?thesis
    using subscript_shifts_index [OF wf v' wfk] v' by (auto simp: rk whole_axes)
qed

lemma whole_chain_bounds:
  assumes "\<forall>n \<in> set shape. 1 \<le> n"
  shows "apply_all apply_view ks (whole_region t shape) = Inr v' \<Longrightarrow>
      wf_region v' \<and> (\<forall>\<rho>. \<forall>a \<in> set (region_walk \<rho> v'). 0 \<le> a \<and> a < prod_list shape)"
    and "apply_all rearrange ks (whole_region t shape) = Inr v' \<Longrightarrow>
      \<not> readonly v' \<and> (\<forall>\<rho>. mset (region_walk \<rho> v') = mset (map int [0..<nat (prod_list shape)]))"
proof -
  have wf: "wf_region (whole_region t shape)" using assms by (rule wf_whole_region)
  have w: "region_walk \<rho> (whole_region t shape) = map int [0..<nat (prod_list shape)]" for \<rho>
    using assms by (rule whole_walk)
  {
    assume c: "apply_all apply_view ks (whole_region t shape) = Inr v'"
    have "0 \<le> a \<and> a < prod_list shape" if "a \<in> set (region_walk \<rho> v')" for \<rho> a
    proof -
      have "a \<in> set (map int [0..<nat (prod_list shape)])" using any_view.chain [OF c wf, of \<rho>] that unfolding w by blast
      then show ?thesis by auto
    qed
    with any_view.chain [OF c wf]
    show "wf_region v' \<and> (\<forall>\<rho>. \<forall>a \<in> set (region_walk \<rho> v'). 0 \<le> a \<and> a < prod_list shape)" by blast
  }
  assume c: "apply_all rearrange ks (whole_region t shape) = Inr v'"
  show "\<not> readonly v' \<and> (\<forall>\<rho>. mset (region_walk \<rho> v') = mset (map int [0..<nat (prod_list shape)]))"
    using rearranging.chain_mset [OF c wf] by (simp add: w)
qed

text \<open>
  C36: no view leaves its array. Any chain of reshapes, transposes and broadcasts of a whole tensor or of a whole buffer that
  returns visits only addresses from zero up to the number of its elements; a chain of reshapes and
  transposes visits every one of them exactly once and stays writable.
\<close>

theorem view_chains_stay_in_bounds:
  assumes "\<forall>n \<in> set shape. 1 \<le> n"
  shows "(\<forall>ks v'. apply_all apply_view ks (tensor_whole_view (Tensor shape dt name)) = Inr v' \<longrightarrow>
            wf_region v' \<and> (\<forall>\<rho>. \<forall>a \<in> set (region_walk \<rho> v'). 0 \<le> a \<and> a < prod_list shape)) \<and>
    (\<forall>ks v'. apply_all rearrange ks (tensor_whole_view (Tensor shape dt name)) = Inr v' \<longrightarrow>
            \<not> readonly v' \<and> (\<forall>\<rho>. mset (region_walk \<rho> v') = mset (map int [0..<nat (prod_list shape)]))) \<and>
    (\<forall>ks v'. apply_all apply_view ks (buffer_whole_view (Buffer i shape dt w sp ex)) = Inr v' \<longrightarrow>
            wf_region v' \<and> (\<forall>\<rho>. \<forall>a \<in> set (region_walk \<rho> v'). 0 \<le> a \<and> a < prod_list shape)) \<and>
    (\<forall>ks v'. apply_all rearrange ks (buffer_whole_view (Buffer i shape dt w sp ex)) = Inr v' \<longrightarrow>
            \<not> readonly v' \<and> (\<forall>\<rho>. mset (region_walk \<rho> v') = mset (map int [0..<nat (prod_list shape)])))"
  unfolding tensor_whole_region buffer_whole_region
  by (intro conjI allI impI; (elim whole_chain_bounds [OF assms])?)
    (blast dest: whole_chain_bounds [OF assms])+

theorem view_chains_stay_in_bounds_witness:
  "\<exists>v' v2. apply_all rearrange [Transpose [1, 0]] (tensor_whole_view (Tensor [2, 3] i8 ''a'')) = Inr v' \<and>
     mset (region_walk (\<lambda>_. 0) v') = mset (map int [0..<6]) \<and>
     apply_all rearrange [Transpose [1, 0]] (buffer_whole_view (Buffer 0 [2, 3] i8 None L1 False)) = Inr v2 \<and>
     mset (region_walk (\<lambda>_. 0) v2) = mset (map int [0..<6])"
proof -
  obtain v' where v': "apply_all rearrange [Transpose [1, 0]] (tensor_whole_view (Tensor [2, 3] i8 ''a'')) = Inr v'"
    by (simp add: rearrange_def region_transpose_def check_axes_def Let_def upt_rec tensor_whole_region)
  obtain v2 where v2: "apply_all rearrange [Transpose [1, 0]] (buffer_whole_view (Buffer 0 [2, 3] i8 None L1 False)) = Inr v2"
    by (simp add: rearrange_def region_transpose_def check_axes_def Let_def upt_rec buffer_whole_region)
  have "\<forall>n \<in> set [2, 3 :: int]. 1 \<le> n" by simp
  from view_chains_stay_in_bounds [OF this, of i8 "''a''" 0 None L1 False] v' v2
  have "mset (region_walk (\<lambda>_. 0) v') = mset (map int [0..<nat (prod_list [2, 3])])"
    and "mset (region_walk (\<lambda>_. 0) v2) = mset (map int [0..<nat (prod_list [2, 3])])" by blast+
  with v' v2 show ?thesis by (intro exI [of _ v'] exI [of _ v2] conjI) simp_all
qed

end
