(* ===== verification/Grid.thy ===== *)
theory Grid
  imports Prelude
begin

text \<open>
  Iteration spaces and herds: symbols, grid parsing, the choice of a physical herd and the strip-mining
  of the logical grid onto it, from \<^verbatim>\<open>src/python/air/api/_trace.py\<close>.
\<close>

section \<open>Symbols\<close>

text \<open>A Python argument that should be an integer: an integer, or some other object.\<close>

datatype py_num = PyInt int | PyOther

datatype choices_arg = SingleChoice int | ChoiceList "py_num list"

record symbol =
  sym_choices :: "int list option"
  sym_hint :: "int option"
  sym_name :: string
  sym_value :: int

fun py_ints :: "py_num list \<Rightarrow> int list option" where
  "py_ints [] = Some []"
| "py_ints (PyInt k # xs) = map_option ((#) k) (py_ints xs)"
| "py_ints (PyOther # xs) = None"

definition check_choices :: "choices_arg option \<Rightarrow> int option \<Rightarrow> int list option res" where
  "check_choices choices hint =
     (case choices of
        None \<Rightarrow> Inr None
      | Some (SingleChoice k) \<Rightarrow> Inl TypeError
      | Some (ChoiceList xs) \<Rightarrow>
          (case py_ints xs of
             None \<Rightarrow> Inl TypeError
           | Some ks \<Rightarrow>
               if ks = [] then Inl ValueError
               else if hint \<noteq> None \<and> the hint \<notin> set ks then Inl ValueError
               else Inr (Some ks)))"

text \<open>\<open>Symbol.__init__\<close>; the symbol is appended to \<open>PENDING_SYMBOLS\<close>.\<close>

definition Symbol ::
  "choices_arg option \<Rightarrow> py_num option \<Rightarrow> int \<Rightarrow> string \<Rightarrow> symbol list \<Rightarrow> (symbol \<times> symbol list) res"
where
  "Symbol choices hint dflt name pending =
     (case hint of
        Some PyOther \<Rightarrow> Inl TypeError
      | _ \<Rightarrow>
          let h = (case hint of Some (PyInt k) \<Rightarrow> Some k | _ \<Rightarrow> None) in
          res_bind (check_choices choices h) (\<lambda>ks.
            let s = \<lparr>sym_choices = ks, sym_hint = h, sym_name = name,
                     sym_value = (case h of Some k \<Rightarrow> k
                                  | None \<Rightarrow> (case ks of Some (k # _) \<Rightarrow> k | _ \<Rightarrow> dflt))\<rparr>
            in Inr (s, pending @ [s])))"

section \<open>Iteration spaces\<close>

text \<open>A Python \<open>range\<close> (its step is never zero) and its length.\<close>

record py_range =
  r_start :: int
  r_stop :: int
  r_step :: int

definition range_len :: "py_range \<Rightarrow> int" where
  "range_len r =
     (if 0 < r_step r then
        (if r_start r < r_stop r then (r_stop r - r_start r - 1) div r_step r + 1 else 0)
      else
        (if r_stop r < r_start r then (r_start r - r_stop r - 1) div (- r_step r) + 1 else 0))"

record grid_dim =
  dim_step :: int
  dim_count :: int

definition reject_nonzero_start :: "int \<Rightarrow> unit res" where
  "reject_nonzero_start start = res_check (start = 0) NotImplementedError"

definition dim_from_range :: "py_range \<Rightarrow> grid_dim res" where
  "dim_from_range r =
     (if range_len r = 0 then Inl ValueError
      else
        res_bind (reject_nonzero_start (r_start r)) (\<lambda>_.
          if (r_stop r - r_start r) mod r_step r \<noteq> 0 then Inl ValueError
          else Inr \<lparr>dim_step = r_step r, dim_count = range_len r\<rparr>))"

definition dim_from_values :: "int list \<Rightarrow> grid_dim res" where
  "dim_from_values values =
     (case values of
        [] \<Rightarrow> Inl ValueError
      | v0 # vs \<Rightarrow>
          res_bind (reject_nonzero_start v0) (\<lambda>_.
            (case vs of
               [] \<Rightarrow> Inl ValueError
             | v1 # _ \<Rightarrow>
                 let step = v1 - v0 in
                 if \<exists>(a, b) \<in> set (zip values (tl values)). b - a \<noteq> step then Inl ValueError
                 else Inr \<lparr>dim_step = step, dim_count = int (length values)\<rparr>)))"

text \<open>
  What \<open>parse_grid\<close> distinguishes: one range, a product of materialised sequences, a list of ranges, and
  anything else.
\<close>

datatype grid_arg =
    GRange py_range
  | GProduct "int list list"
  | GRanges "py_range list"
  | GOther

fun parse_grid :: "grid_arg \<Rightarrow> grid_dim list res" where
  "parse_grid (GRange r) = res_bind (dim_from_range r) (\<lambda>d. Inr [d])"
| "parse_grid (GProduct args) = (if args = [] then Inl TypeError else map_res dim_from_values args)"
| "parse_grid (GRanges rs) = map_res dim_from_range rs"
| "parse_grid GOther = Inl TypeError"

section \<open>The physical herd\<close>

definition PHYSICAL_HERD :: "string \<Rightarrow> (nat \<Rightarrow> int list option) option" where
  "PHYSICAL_HERD target =
     (if target = ''npu1'' then Some [1 \<mapsto> [4], 2 \<mapsto> [1, 4]]
      else if target = ''npu2'' then Some [1 \<mapsto> [8], 2 \<mapsto> [2, 4]]
      else None)"

text \<open>
  \<open>resolve_target\<close>: a named target, or the generation the installed device reports (an argument here,
  it is read from the machine).
\<close>

definition resolve_target :: "string \<Rightarrow> string option \<Rightarrow> string res" where
  "resolve_target detected target =
     (case target of
        None \<Rightarrow> Inr detected
      | Some t \<Rightarrow>
          if t = ''auto'' then Inr detected
          else if PHYSICAL_HERD t = None then Inl ValueError else Inr t)"

text \<open>\<open>for d in range(min(n, cap), 0, -1)\<close>, on the counter \<open>d\<close>.\<close>

fun divisor_from :: "int \<Rightarrow> nat \<Rightarrow> int" where
  "divisor_from n 0 = 1"
| "divisor_from n (Suc d) = (if n mod int (Suc d) = 0 then int (Suc d) else divisor_from n d)"

definition largest_divisor_at_most :: "int \<Rightarrow> int \<Rightarrow> int" where
  "largest_divisor_at_most n cap = divisor_from n (nat (min n cap))"

definition resolve_physical :: "string \<Rightarrow> int list \<Rightarrow> int list option \<Rightarrow> int list res" where
  "resolve_physical target grid shape =
     (case PHYSICAL_HERD target of
        None \<Rightarrow> Inl KeyError
      | Some by_rank \<Rightarrow>
          (case by_rank (length grid) of
             None \<Rightarrow> Inl NotImplementedError
           | Some caps \<Rightarrow>
               (case shape of
                  Some sh \<Rightarrow>
                    if length sh \<noteq> length grid then Inl ValueError
                    else if \<exists>(g, p) \<in> set (zip grid sh). p \<le> 0 \<or> g mod p \<noteq> 0 then Inl ValueError
                    else Inr sh
                | None \<Rightarrow> Inr (map2 largest_divisor_at_most grid caps))))"

section \<open>The herd\<close>

text \<open>\<open>_parse_herd_anchor\<close>: the entries of a sequence are integers, bools or other objects.\<close>

datatype py_index = IdxInt int | IdxBool bool | IdxOther

datatype at_arg = AtScalar | AtSeq "py_index list"

fun anchor_entry :: "py_index \<Rightarrow> int res" where
  "anchor_entry (IdxInt k) = (if k < 0 then Inl ValueError else Inr k)"
| "anchor_entry (IdxBool b) = Inl TypeError"
| "anchor_entry IdxOther = Inl TypeError"

fun parse_herd_anchor :: "at_arg option \<Rightarrow> (int \<times> int) option res" where
  "parse_herd_anchor None = Inr None"
| "parse_herd_anchor (Some AtScalar) = Inl TypeError"
| "parse_herd_anchor (Some (AtSeq xs)) =
     (case xs of
        [c, r] \<Rightarrow> res_bind (anchor_entry c) (\<lambda>col. res_bind (anchor_entry r) (\<lambda>row. Inr (Some (col, row))))
      | _ \<Rightarrow> Inl ValueError)"

text \<open>
  \<open>_parse_herd_params\<close>: \<open>None\<close>, one runtime parameter or a sequence of objects, each of which is a runtime
  parameter (by its number) or is not.
\<close>

datatype params_arg = OneParam nat | ParamList "nat option list"

fun parse_herd_params :: "params_arg option \<Rightarrow> nat list option res" where
  "parse_herd_params None = Inr None"
| "parse_herd_params (Some (OneParam p)) = Inr (Some [p])"
| "parse_herd_params (Some (ParamList ps)) =
     res_bind (map_res (\<lambda>p. case p of None \<Rightarrow> Inl TypeError | Some k \<Rightarrow> Inr k) ps) (\<lambda>ks. Inr (Some ks))"

text \<open>The object files of a herd: a dict from file to the kernel that calls it, \<open>None\<close> when declared.\<close>

type_synonym objects = "(string \<times> string option) list"

fun objects_set :: "objects \<Rightarrow> string \<Rightarrow> string option \<Rightarrow> objects" where
  "objects_set [] obj k = [(obj, k)]"
| "objects_set ((ob, k') # os) obj k = (if ob = obj then (ob, k) # os else (ob, k') # objects_set os obj k)"

definition require_object :: "objects \<Rightarrow> string \<Rightarrow> string option \<Rightarrow> objects" where
  "require_object os obj kern =
     (if kern \<noteq> None \<or> obj \<notin> fst ` set os then objects_set os obj kern else os)"

text \<open>The one name the core-level \<open>link_with\<close> attribute is stamped with, at the end of \<open>_emit\<close>.\<close>

definition link_stamp :: "objects \<Rightarrow> string option res" where
  "link_stamp os =
     (let declared = map fst (filter (\<lambda>(ob, k). k = None) os) in
      if length os = 1 then Inr (Some (fst (hd os)))
      else if length declared = 1 then Inr (Some (hd declared))
      else if declared \<noteq> [] then Inl ValueError
      else Inr None)"

record herd_ctx =
  h_dims :: "grid_dim list"
  h_name :: string
  h_at :: "(int \<times> int) option"
  h_params :: "nat list option"
  h_target :: string
  h_grid :: "int list"
  h_tile_sizes :: "int list"
  h_physical :: "int list"
  h_repeats :: "int list"
  h_objects :: objects
  h_registered :: bool

text \<open>\<open>link_with\<close>: \<open>None\<close>, a string, or another object. \<open>current\<close> is the target being traced for.\<close>

datatype link_arg = LinkName string | LinkOther

definition HerdContext ::
  "string \<Rightarrow> string \<Rightarrow> grid_arg \<Rightarrow> string \<Rightarrow> int list option \<Rightarrow> string option \<Rightarrow> link_arg option \<Rightarrow>
     at_arg option \<Rightarrow> params_arg option \<Rightarrow> herd_ctx res"
where
  "HerdContext detected current iterable name shape target link_with at params =
     res_bind (parse_grid iterable) (\<lambda>dims.
       if 2 < length dims then Inl NotImplementedError
       else
         res_bind (parse_herd_anchor at) (\<lambda>anchor.
         res_bind (parse_herd_params params) (\<lambda>ps.
         res_bind (case target of None \<Rightarrow> Inr current | Some t \<Rightarrow> resolve_target detected (Some t)) (\<lambda>tgt.
         let grid = map dim_count dims in
         res_bind (resolve_physical tgt grid shape) (\<lambda>phys.
         res_bind (case link_with of
                     None \<Rightarrow> Inr []
                   | Some LinkOther \<Rightarrow> Inl TypeError
                   | Some (LinkName obj) \<Rightarrow>
                       if obj = [] then Inl TypeError else Inr (require_object [] obj None)) (\<lambda>objs.
         Inr \<lparr>h_dims = dims, h_name = name, h_at = anchor, h_params = ps, h_target = tgt, h_grid = grid,
              h_tile_sizes = map dim_step dims, h_physical = phys, h_repeats = map2 (div) grid phys,
              h_objects = objs, h_registered = False\<rparr>))))))"

text \<open>
  \<open>body\<close> registers the body once (its arity must be the rank of the space); leaving the \<open>with\<close> block
  without an exception and without a body raises.
\<close>

definition register_body :: "herd_ctx \<Rightarrow> nat \<Rightarrow> herd_ctx res" where
  "register_body h arity =
     (if h_registered h then Inl RuntimeError
      else if arity \<noteq> length (h_grid h) then Inl TypeError
      else Inr (h\<lparr>h_registered := True\<rparr>))"

definition ctx_exit :: "herd_ctx \<Rightarrow> bool \<Rightarrow> unit res" where
  "ctx_exit h raised = (if \<not> raised \<and> \<not> h_registered h then Inl RuntimeError else Inr ())"

section \<open>Strip-mining\<close>

text \<open>
  \<open>run_strip_mined\<close>: the induction-variable vectors the body is run with, in the order of the loop nest;
  an axis with one trip has no loop and no variable.
\<close>

fun strip_ivs :: "int list \<Rightarrow> int option list list" where
  "strip_ivs [] = [[]]"
| "strip_ivs (r # rs) =
     (if 1 < r then concat (map (\<lambda>i. map ((#) (Some (int i))) (strip_ivs rs)) [0..<nat r])
      else map ((#) None) (strip_ivs rs))"

text \<open>The value of one tile coordinate: \<open>phys * repeats\<close>, plus the strip variable when there is one.\<close>

definition tile_coord :: "int \<Rightarrow> int \<Rightarrow> int option \<Rightarrow> int" where
  "tile_coord phys r iv = phys * r + (if 1 < r then the iv else 0)"

fun tile_ids :: "int list \<Rightarrow> int list \<Rightarrow> int option list \<Rightarrow> int list" where
  "tile_ids (p # ps) (r # rs) (iv # ivs) = tile_coord p r iv # tile_ids ps rs ivs"
| "tile_ids _ _ _ = []"

section \<open>Exact tilings\<close>

lemma ceil_div_exact:
  fixes n s :: int
  assumes "0 < s" and "s dvd n"
  shows "((n - 1) div s + 1) * s = n"
proof -
  obtain k where n: "n = s * k" using assms(2) by blast
  have "(n - 1) div s = k - 1"
    by (rule int_div_pos_eq [of _ _ _ "s - 1"]) (use assms(1) in \<open>auto simp: n algebra_simps\<close>)
  then show ?thesis by (simp add: n)
qed

lemma range_len_exact:
  assumes "(r_stop r - r_start r) mod r_step r = 0" and "range_len r \<noteq> 0" and "r_step r \<noteq> 0"
  shows "range_len r * r_step r = r_stop r - r_start r \<and> 1 \<le> range_len r"
proof (cases "0 < r_step r")
  case True
  then have "r_start r < r_stop r" using assms(2) by (simp add: range_len_def split: if_splits)
  then have "0 \<le> (r_stop r - r_start r - 1) div r_step r" using True by (simp add: pos_imp_zdiv_nonneg_iff)
  with True \<open>r_start r < r_stop r\<close> show ?thesis
    using ceil_div_exact [OF True, of "r_stop r - r_start r"] assms(1)
    by (simp add: range_len_def mod_eq_0_iff_dvd)
next
  case False
  then have neg: "0 < - r_step r" using assms(3) by simp
  have lt: "r_stop r < r_start r" using False assms(2) by (simp add: range_len_def split: if_splits)
  then have "0 \<le> (r_start r - r_stop r - 1) div (- r_step r)" using neg by (simp add: pos_imp_zdiv_nonneg_iff)
  moreover have "- r_step r dvd r_start r - r_stop r"
    using assms(1) by (metis dvd_minus_iff minus_diff_eq minus_dvd_iff mod_eq_0_iff_dvd)
  then have "((r_start r - r_stop r - 1) div (- r_step r) + 1) * (- r_step r) = r_start r - r_stop r"
    by (rule ceil_div_exact [OF neg])
  ultimately show ?thesis
    using False lt by (simp add: range_len_def algebra_simps)
qed

lemma dim_from_range_spec:
  assumes "dim_from_range r = Inr d" and "r_step r \<noteq> 0"
  shows "r_start r = 0 \<and> 1 \<le> dim_count d \<and> dim_step d = r_step r \<and> dim_count d * dim_step d = r_stop r"
  using assms range_len_exact [of r]
  by (auto simp: dim_from_range_def reject_nonzero_start_def res_bind_Inr_iff split: if_splits)

lemma uniform_progression:
  "\<forall>(a, b) \<in> set (zip (v # vs) vs). b - a = (step::int) \<Longrightarrow> i < length (v # vs) \<Longrightarrow> (v # vs) ! i = v + int i * step"
proof (induction vs arbitrary: v i)
  case (Cons w vs)
  show ?case
  proof (cases i)
    case (Suc j)
    have "(w # vs) ! j = w + int j * step" using Cons Suc by (intro Cons.IH) auto
    with Suc Cons.prems(1) show ?thesis by (simp add: algebra_simps)
  qed simp
qed simp

lemma dim_from_values_spec:
  assumes "dim_from_values vs = Inr d"
  shows "vs = map (\<lambda>i. int i * dim_step d) [0..<nat (dim_count d)] \<and> 2 \<le> dim_count d"
proof -
  obtain v1 rest where vs: "vs = 0 # v1 # rest"
    and d: "d = \<lparr>dim_step = v1, dim_count = int (length vs)\<rparr>"
    and uni: "\<forall>(a, b) \<in> set (zip vs (tl vs)). b - a = v1"
    using assms
    by (auto simp: dim_from_values_def reject_nonzero_start_def res_bind_Inr_iff Let_def split: list.splits if_splits)
  have "vs ! i = int i * v1" if "i < length vs" for i
    using uniform_progression [of 0 "v1 # rest" v1 i] uni that by (simp add: vs)
  then have "vs = map (\<lambda>i. int i * v1) [0..<length vs]" by (intro nth_equalityI) auto
  moreover have "2 \<le> length vs" by (simp add: vs)
  ultimately show ?thesis unfolding d by simp
qed

section \<open>The largest divisor\<close>

lemma divisor_from_spec:
  assumes "0 < n"
  shows "divisor_from n d dvd n \<and> 1 \<le> divisor_from n d \<and> divisor_from n d \<le> max 1 (int d) \<and>
    (\<forall>k. 1 \<le> k \<and> k \<le> int d \<and> k dvd n \<longrightarrow> k \<le> divisor_from n d)"
proof (induction d)
  case (Suc d)
  show ?case
  proof (cases "n mod int (Suc d) = 0")
    case False
    then have "\<not> int (Suc d) dvd n" by (simp add: mod_eq_0_iff_dvd)
    then have "k \<le> int d" if "k \<le> int (Suc d)" "k dvd n" for k
      using that by (cases "k = int (Suc d)") auto
    with False Suc show ?thesis by auto
  qed auto
qed simp

lemma largest_divisor_spec:
  assumes "1 \<le> n" and "1 \<le> cap"
  shows "let d = largest_divisor_at_most n cap in
    d dvd n \<and> 1 \<le> d \<and> d \<le> cap \<and> (\<forall>k. 1 \<le> k \<and> k \<le> cap \<and> k dvd n \<longrightarrow> k \<le> d)"
proof -
  note spec = divisor_from_spec [of n "nat (min n cap)"]
  have "k \<le> min n cap" if "k \<le> cap" "k dvd n" for k
    using that assms zdvd_imp_le by simp
  with spec assms show ?thesis
    by (auto simp: largest_divisor_at_most_def Let_def)
qed

lemma physical_caps:
  "PHYSICAL_HERD t = Some f \<Longrightarrow> f n = Some caps \<Longrightarrow> length caps = n \<and> (\<forall>c \<in> set caps. 1 \<le> c)"
  by (auto simp: PHYSICAL_HERD_def split: if_splits)

lemma resolve_physical_spec:
  assumes "resolve_physical target grid shape = Inr phys" and "\<forall>g \<in> set grid. 1 \<le> g"
  shows "length phys = length grid \<and> (\<forall>k < length grid. 1 \<le> phys ! k \<and> phys ! k dvd grid ! k)"
proof -
  obtain f caps where f: "PHYSICAL_HERD target = Some f" "f (length grid) = Some caps"
    using assms(1) by (auto simp: resolve_physical_def split: option.splits)
  note caps = physical_caps [OF f]
  show ?thesis
  proof (cases shape)
    case None
    then have phys: "phys = map2 largest_divisor_at_most grid caps"
      using assms(1) f by (simp add: resolve_physical_def)
    have "1 \<le> phys ! k \<and> phys ! k dvd grid ! k" if "k < length grid" for k
      using largest_divisor_spec [of "grid ! k" "caps ! k"] assms(2) caps that by (simp add: phys Let_def)
    then show ?thesis using caps by (simp add: phys)
  next
    case (Some sh)
    then have "phys = sh" "length sh = length grid" and ok: "\<forall>(g, p) \<in> set (zip grid sh). \<not> (p \<le> 0 \<or> g mod p \<noteq> 0)"
      using assms(1) f by (auto simp: resolve_physical_def split: if_splits)
    moreover have "(grid ! k, sh ! k) \<in> set (zip grid sh)" if "k < length grid" for k
      using that calculation by (auto simp: in_set_zip)
    ultimately show ?thesis by (fastforce simp: mod_eq_0_iff_dvd)
  qed
qed

section \<open>Strip-mining covers the grid exactly\<close>

definition wf_grid_arg :: "grid_arg \<Rightarrow> bool" where
  "wf_grid_arg g = (case g of GRange r \<Rightarrow> r_step r \<noteq> 0 | GRanges rs \<Rightarrow> (\<forall>r \<in> set rs. r_step r \<noteq> 0) | _ \<Rightarrow> True)"

lemma parse_grid_counts:
  assumes "parse_grid g = Inr dims" and "wf_grid_arg g"
  shows "\<forall>d \<in> set dims. 1 \<le> dim_count d"
proof (cases g)
  case (GRange r)
  then show ?thesis
    using assms dim_from_range_spec by (auto simp: res_bind_Inr_iff wf_grid_arg_def)
next
  case (GProduct vs)
  then have m: "map_res dim_from_values vs = Inr dims" using assms(1) by (simp split: if_splits)
  show ?thesis
  proof
    fix d assume "d \<in> set dims"
    then obtain k where "k < length vs" "d = dims ! k" using map_res_length [OF m] by (metis in_set_conv_nth)
    then show "1 \<le> dim_count d" using map_res_nth [OF m] dim_from_values_spec by fastforce
  qed
next
  case (GRanges rs)
  then have m: "map_res dim_from_range rs = Inr dims" using assms(1) by simp
  show ?thesis
  proof
    fix d assume "d \<in> set dims"
    then obtain k where k: "k < length rs" "d = dims ! k" using map_res_length [OF m] by (metis in_set_conv_nth)
    then have "r_step (rs ! k) \<noteq> 0" using assms(2) GRanges by (simp add: wf_grid_arg_def)
    then show "1 \<le> dim_count d" using map_res_nth [OF m] k dim_from_range_spec by blast
  qed
qed (use assms in auto)

lemma HerdContext_fields:
  assumes "HerdContext detected current iterable name shape target link_with at params = Inr h"
  shows "parse_grid iterable = Inr (h_dims h) \<and> length (h_dims h) \<le> 2 \<and> h_grid h = map dim_count (h_dims h) \<and>
    h_tile_sizes h = map dim_step (h_dims h) \<and>
    resolve_physical (h_target h) (h_grid h) shape = Inr (h_physical h) \<and>
    h_repeats h = map2 (div) (h_grid h) (h_physical h) \<and> \<not> h_registered h"
  using assms unfolding HerdContext_def res_bind_Inr_iff Let_def
  by (auto simp: res_bind_Inr_iff split: if_splits)

lemma herd_repeats:
  assumes h: "HerdContext detected current iterable name shape target link_with at params = Inr h"
    and wf: "wf_grid_arg iterable"
  shows "list_all2 (\<lambda>p g. 1 \<le> p) (h_physical h) (h_grid h) \<and> list_all2 (\<lambda>r g. 1 \<le> r) (h_repeats h) (h_grid h) \<and>
    h_grid h = map2 (*) (h_physical h) (h_repeats h)"
proof -
  note f = HerdContext_fields [OF h]
  have pos: "\<forall>g \<in> set (h_grid h). 1 \<le> g" using parse_grid_counts [of iterable "h_dims h"] f wf by auto
  have sp: "length (h_physical h) = length (h_grid h)"
    "\<And>k. k < length (h_grid h) \<Longrightarrow> 1 \<le> h_physical h ! k \<and> h_physical h ! k dvd h_grid h ! k"
    using resolve_physical_spec [of "h_target h" "h_grid h" shape "h_physical h"] f pos by blast+
  have r: "h_repeats h = map2 (div) (h_grid h) (h_physical h)" using f by blast
  have "1 \<le> h_repeats h ! k" "h_grid h ! k = h_physical h ! k * h_repeats h ! k" if k: "k < length (h_grid h)" for k
  proof -
    have "1 \<le> h_grid h ! k" using pos k by auto
    moreover obtain q where q: "h_grid h ! k = h_physical h ! k * q" using sp(2) k by (auto elim: dvdE)
    ultimately have "1 \<le> h_grid h ! k div h_physical h ! k"
      using sp(2) [OF that] by (auto simp: int_one_le_iff_zero_less zero_less_mult_iff)
    then show "1 \<le> h_repeats h ! k" using that sp(1) by (simp add: r)
    show "h_grid h ! k = h_physical h ! k * h_repeats h ! k" using that sp by (simp add: r)
  qed
  note rep = this
  have len: "length (h_repeats h) = length (h_grid h)" using r sp(1) by simp
  have "h_grid h = map2 (*) (h_physical h) (h_repeats h)"
    by (rule nth_equalityI) (use rep(2) len sp(1) in auto)
  moreover have "list_all2 (\<lambda>p g. 1 \<le> p) (h_physical h) (h_grid h)" "list_all2 (\<lambda>r g. 1 \<le> r) (h_repeats h) (h_grid h)"
    using rep(1) sp len by (simp_all add: list_all2_conv_all_nth)
  ultimately show ?thesis by blast
qed

definition trip_ok :: "int option \<Rightarrow> int \<Rightarrow> bool" where
  "trip_ok iv r = (case iv of None \<Rightarrow> \<not> 1 < r | Some i \<Rightarrow> 1 < r \<and> 0 \<le> i \<and> i < r)"

lemma trip_ok_iff:
  "1 < r \<Longrightarrow> trip_ok iv r \<longleftrightarrow> (\<exists>i. iv = Some i \<and> 0 \<le> i \<and> i < r)" "\<not> 1 < r \<Longrightarrow> trip_ok iv r \<longleftrightarrow> iv = None"
  by (auto simp: trip_ok_def split: option.splits)

lemma strip_ivs_iff: "ivs \<in> set (strip_ivs rs) \<longleftrightarrow> list_all2 trip_ok ivs rs"
proof (induction rs arbitrary: ivs)
  case (Cons r rs)
  show ?case
  proof (cases "1 < r")
    case True
    have "ivs \<in> set (strip_ivs (r # rs)) \<longleftrightarrow> (\<exists>i js. ivs = Some i # js \<and> 0 \<le> i \<and> i < r \<and> js \<in> set (strip_ivs rs))"
    proof
      assume "\<exists>i js. ivs = Some i # js \<and> 0 \<le> i \<and> i < r \<and> js \<in> set (strip_ivs rs)"
      then obtain i js where "ivs = Some i # js" "0 \<le> i" "i < r" "js \<in> set (strip_ivs rs)" by blast
      with True show "ivs \<in> set (strip_ivs (r # rs))" by (auto intro!: bexI [of _ "nat i"])
    qed (use True in auto)
    with True show ?thesis by (auto simp: Cons list_all2_Cons2 trip_ok_iff)
  next
    case False
    then show ?thesis by (auto simp: Cons list_all2_Cons2 trip_ok_iff)
  qed
qed simp

text \<open>The core and the trip that compute a tile.\<close>

definition core_of :: "int list \<Rightarrow> int list \<Rightarrow> int list" where
  "core_of rs t = map2 (div) t rs"

definition trip_of :: "int list \<Rightarrow> int list \<Rightarrow> int option list" where
  "trip_of rs t = map2 (\<lambda>t r. if 1 < r then Some (t mod r) else None) t rs"

lemma tile_unique:
  fixes p r i t :: int
  assumes "1 \<le> r" and "0 \<le> i" and "i < r"
  shows "p * r + i = t \<longleftrightarrow> p = t div r \<and> i = t mod r"
  using assms by (auto simp: mult.commute)

lemma tile_ids_iff:
  assumes "list_all2 (\<lambda>i p. 0 \<le> i \<and> i < p) core ps" and "\<forall>r \<in> set rs. 1 \<le> r"
    and "ivs \<in> set (strip_ivs rs)" and "length ps = length rs"
  shows "tile_ids core rs ivs = t \<longleftrightarrow> length t = length rs \<and> core = core_of rs t \<and> ivs = trip_of rs t"
  using assms
proof (induction rs arbitrary: core ps ivs t)
  case Nil
  then show ?case by (auto simp: core_of_def trip_of_def)
next
  case (Cons r rs)
  obtain p ps' where ps: "ps = p # ps'" using Cons.prems(4) by (cases ps) auto
  obtain c core' where core: "core = c # core'" using Cons.prems(1) ps by (auto simp: list_all2_Cons2)
  obtain iv ivs' where ivs: "ivs = iv # ivs'" and iv: "trip_ok iv r"
    and ivs': "ivs' \<in> set (strip_ivs rs)"
    using Cons.prems(3) unfolding strip_ivs_iff list_all2_Cons2 by blast
  have r: "1 \<le> r" using Cons.prems(2) by simp
  have head: "tile_coord c r iv = x \<longleftrightarrow> c = x div r \<and> iv = (if 1 < r then Some (x mod r) else None)" for x
  proof (cases "1 < r")
    case True
    with iv obtain i where "iv = Some i" "0 \<le> i" "i < r" by (auto simp: trip_ok_def split: option.splits)
    with True r show ?thesis by (auto simp: tile_coord_def tile_unique)
  next
    case False
    with r iv show ?thesis by (auto simp: tile_coord_def trip_ok_def split: option.splits)
  qed
  have IH: "tile_ids core' rs ivs' = t' \<longleftrightarrow> length t' = length rs \<and> core' = core_of rs t' \<and> ivs' = trip_of rs t'" for t'
    using Cons.prems ivs' by (intro Cons.IH [of core' ps']) (auto simp: ps core)
  show ?case
  proof (cases t)
    case (Cons x t')
    then show ?thesis
      using head [of x] IH [of t'] by (auto simp: core ivs core_of_def trip_of_def)
  qed (simp add: core ivs)
qed

lemma core_trip_bounds:
  assumes "list_all2 (\<lambda>i g. 0 \<le> i \<and> i < g) t (map2 (*) ps rs)" and "\<forall>r \<in> set rs. 1 \<le> r" and "length ps = length rs"
  shows "list_all2 (\<lambda>i p. 0 \<le> i \<and> i < p) (core_of rs t) ps \<and> trip_of rs t \<in> set (strip_ivs rs)"
  using assms
proof (induction ps rs arbitrary: t rule: list_induct2')
  case (4 p ps r rs)
  obtain x t' where t: "t = x # t'" "0 \<le> x" "x < p * r" "list_all2 (\<lambda>i g. 0 \<le> i \<and> i < g) t' (map2 (*) ps rs)"
    using "4.prems"(1) by (auto simp: list_all2_Cons2)
  have r: "0 < r" using "4.prems"(2) by simp
  have "0 \<le> x div r" using t(2) r by (simp add: pos_imp_zdiv_nonneg_iff)
  moreover have "x div r < p"
  proof (rule ccontr)
    assume "\<not> x div r < p"
    then have "p * r \<le> x div r * r" using r by (intro mult_right_mono) auto
    moreover have "x div r * r \<le> x" using r by (metis div_mult_mod_eq le_add_same_cancel1 pos_mod_sign)
    ultimately show False using t(3) by simp
  qed
  moreover have "0 \<le> x mod r" "x mod r < r" using r by simp_all
  ultimately show ?case
    using "4.IH" [OF t(4)] "4.prems"(2,3) unfolding strip_ivs_iff
    by (auto simp: t(1) core_of_def trip_of_def trip_ok_def)
qed (auto simp: core_of_def trip_of_def)

lemma tile_ids_in_grid:
  "list_all2 (\<lambda>i p. 0 \<le> i \<and> i < p) core ps \<Longrightarrow> list_all2 trip_ok ivs rs \<Longrightarrow> \<forall>r \<in> set rs. 1 \<le> r \<Longrightarrow>
     length ps = length rs \<Longrightarrow> list_all2 (\<lambda>i g. 0 \<le> i \<and> i < g) (tile_ids core rs ivs) (map2 (*) ps rs)"
proof (induction core rs ivs arbitrary: ps rule: tile_ids.induct)
  case (1 c core r rs iv ivs)
  then obtain p ps' where ps: "ps = p # ps'" by (cases ps) auto
  have c: "0 \<le> c" "c + 1 \<le> p" and r: "1 \<le> r" and iv: "trip_ok iv r" using "1.prems" by (auto simp: ps)
  have "(c + 1) * r \<le> p * r" using c r by (intro mult_right_mono) auto
  moreover have "0 \<le> c * r" using c r by simp
  ultimately have "0 \<le> tile_coord c r iv \<and> tile_coord c r iv < p * r"
    using iv r by (cases "1 < r") (auto simp: tile_coord_def trip_ok_iff algebra_simps)
  with 1 show ?case by (auto simp: ps)
qed auto

lemma strip_ivs_distinct: "distinct (strip_ivs rs)"
proof (induction rs)
  case (Cons r rs)
  have "distinct (concat (map (\<lambda>i. map ((#) (Some (int i))) (strip_ivs rs)) [0..<n]))" for n
    using Cons by (induction n) (auto simp: distinct_map)
  with Cons show ?case by (auto simp: distinct_map)
qed simp

section \<open>Symbols resolve\<close>

lemma check_choices_spec:
  assumes "check_choices choices hint = Inr (Some ks)"
  shows "ks \<noteq> [] \<and> (\<forall>k. hint = Some k \<longrightarrow> k \<in> set ks)"
  using assms by (auto simp: check_choices_def split: option.splits choices_arg.splits if_splits)

lemma symbol_value:
  assumes "Symbol choices hint dflt name pending = Inr (s, pending')"
  shows "pending' = pending @ [s] \<and> (\<forall>k. hint = Some (PyInt k) \<longrightarrow> sym_value s = k) \<and>
    (\<forall>ks. sym_choices s = Some ks \<longrightarrow> sym_value s \<in> set ks)"
proof -
  define h where "h = (case hint of Some (PyInt k) \<Rightarrow> Some k | _ \<Rightarrow> None)"
  obtain ks where ks: "check_choices choices h = Inr ks" and p: "pending' = pending @ [s]"
    and s: "s = \<lparr>sym_choices = ks, sym_hint = h, sym_name = name,
        sym_value = (case h of Some k \<Rightarrow> k | None \<Rightarrow> (case ks of Some (k # _) \<Rightarrow> k | _ \<Rightarrow> dflt))\<rparr>"
    using assms unfolding Symbol_def Let_def h_def
    by (cases hint rule: option.exhaust; cases "the hint") (auto simp: res_bind_Inr_iff)
  have "sym_value s \<in> set l" if "ks = Some l" for l
    using check_choices_spec [of choices h l] ks that by (cases h; cases l) (auto simp: s)
  moreover have "hint = Some (PyInt k) \<Longrightarrow> sym_value s = k" for k
    by (simp add: s h_def)
  ultimately show ?thesis using p by (simp add: s)
qed

section \<open>Properties\<close>

text \<open>
  C5: strip-mining is exact. Whatever iteration space, explicit shape or target a herd is built with, when
  the constructor returns every tile of the logical grid is computed by exactly one core in exactly one
  trip of its loop nest, and no core computes a tile outside the grid.
\<close>

theorem strip_mining_exact:
  assumes "HerdContext detected current iterable name shape target link_with at params = Inr h"
    and "wf_grid_arg iterable"
  shows "(\<forall>t \<in> set (box (h_grid h)). \<exists>!(core, ivs). core \<in> set (box (h_physical h)) \<and>
            ivs \<in> set (strip_ivs (h_repeats h)) \<and> tile_ids core (h_repeats h) ivs = t) \<and>
    (\<forall>core \<in> set (box (h_physical h)). \<forall>ivs \<in> set (strip_ivs (h_repeats h)).
        tile_ids core (h_repeats h) ivs \<in> set (box (h_grid h))) \<and>
    distinct (strip_ivs (h_repeats h))"
proof -
  let ?P = "h_physical h" and ?R = "h_repeats h"
  have g: "h_grid h = map2 (*) ?P ?R" and len: "length ?P = length ?R" and r: "\<forall>r \<in> set ?R. 1 \<le> r"
    subgoal using herd_repeats [OF assms] by blast
    subgoal using herd_repeats [OF assms] list_all2_lengthD by metis
    subgoal using herd_repeats [OF assms] by (metis in_set_conv_nth list_all2_conv_all_nth)
    done
  have one: "tile_ids core ?R ivs = t \<longleftrightarrow> length t = length ?R \<and> core = core_of ?R t \<and> ivs = trip_of ?R t"
    if "core \<in> set (box ?P)" "ivs \<in> set (strip_ivs ?R)" for core ivs t
    using tile_ids_iff [OF _ r] that len by (simp add: box_iff)
  have preim: "core_of ?R t \<in> set (box ?P) \<and> trip_of ?R t \<in> set (strip_ivs ?R) \<and> length t = length ?R"
    if "t \<in> set (box (h_grid h))" for t
    using core_trip_bounds [OF _ r len, of t] that box_length [OF that] len by (simp add: box_iff g)
  show ?thesis
  proof (intro conjI ballI)
    fix t assume t: "t \<in> set (box (h_grid h))"
    show "\<exists>!(core, ivs). core \<in> set (box ?P) \<and> ivs \<in> set (strip_ivs ?R) \<and> tile_ids core ?R ivs = t"
      using one preim [OF t] by (intro ex1I [of _ "(core_of ?R t, trip_of ?R t)"]) auto
  next
    fix core ivs assume "core \<in> set (box ?P)" "ivs \<in> set (strip_ivs ?R)"
    then have "list_all2 (\<lambda>i p. 0 \<le> i \<and> i < p) core ?P" "list_all2 trip_ok ivs ?R"
      by (simp_all only: box_iff strip_ivs_iff)
    then have "list_all2 (\<lambda>i g. 0 \<le> i \<and> i < g) (tile_ids core ?R ivs) (map2 (*) ?P ?R)"
      using r len by (rule tile_ids_in_grid)
    then show "tile_ids core ?R ivs \<in> set (box (h_grid h))" by (simp only: box_iff g)
  qed (rule strip_ivs_distinct)
qed

theorem strip_mining_exact_witness:
  "\<exists>h. HerdContext ''npu2'' ''npu2'' (GRanges [\<lparr>r_start = 0, r_stop = 64, r_step = 16\<rparr>, \<lparr>r_start = 0, r_stop = 96, r_step = 8\<rparr>])
      ''h'' None None None None None = Inr h \<and> h_grid h = [4, 12] \<and> h_physical h = [2, 4] \<and> h_repeats h = [2, 3] \<and>
      (\<exists>!(core, ivs). core \<in> set (box [2, 4]) \<and> ivs \<in> set (strip_ivs [2, 3]) \<and> tile_ids core [2, 3] ivs = [3, 7])"
proof -
  let ?g = "GRanges [\<lparr>r_start = 0, r_stop = 64, r_step = 16\<rparr>, \<lparr>r_start = 0, r_stop = 96, r_step = 8\<rparr>]"
  let ?H = "HerdContext ''npu2'' ''npu2'' ?g ''h'' None None None None None"
  have "map_option (\<lambda>h. (h_grid h, h_physical h, h_repeats h)) (case ?H of Inr h \<Rightarrow> Some h | Inl e \<Rightarrow> None)
      = Some ([4, 12], [2, 4], [2, 3])"
    by code_simp
  then obtain h where h: "?H = Inr h" "h_grid h = [4, 12]" "h_physical h = [2, 4]" "h_repeats h = [2, 3]"
    by (auto split: sum.splits)
  have "wf_grid_arg ?g" by (simp add: wf_grid_arg_def)
  note ex = strip_mining_exact [OF h(1) this]
  have "[3, 7] \<in> set (box [4, 12])" unfolding box_iff by simp
  then have "\<exists>!(core, ivs). core \<in> set (box [2, 4]) \<and> ivs \<in> set (strip_ivs [2, 3]) \<and> tile_ids core [2, 3] ivs = [3, 7]"
    using ex unfolding h(2-4) by blast
  with h show ?thesis by blast
qed

text \<open>
  The default herd shape fits and is the widest that does. Without an explicit shape, each physical
  extent divides the grid, is at most the device's cap, and no larger divisor of the grid is.
\<close>

theorem default_herd_shape_maximal:
  assumes "resolve_physical target grid None = Inr phys" and "\<forall>g \<in> set grid. 1 \<le> g"
  shows "\<exists>caps. map_option (\<lambda>f. f (length grid)) (PHYSICAL_HERD target) = Some (Some caps) \<and>
    length phys = length grid \<and> length caps = length grid \<and>
    (\<forall>k < length grid. phys ! k dvd grid ! k \<and> 1 \<le> phys ! k \<and> phys ! k \<le> caps ! k \<and>
       (\<forall>d. 1 \<le> d \<and> d \<le> caps ! k \<and> d dvd grid ! k \<longrightarrow> d \<le> phys ! k))"
proof -
  obtain f caps where f: "PHYSICAL_HERD target = Some f" "f (length grid) = Some caps"
    and phys: "phys = map2 largest_divisor_at_most grid caps"
    using assms(1) by (auto simp: resolve_physical_def split: option.splits)
  note caps = physical_caps [OF f]
  have "phys ! k dvd grid ! k \<and> 1 \<le> phys ! k \<and> phys ! k \<le> caps ! k \<and>
      (\<forall>d. 1 \<le> d \<and> d \<le> caps ! k \<and> d dvd grid ! k \<longrightarrow> d \<le> phys ! k)" if "k < length grid" for k
    using largest_divisor_spec [of "grid ! k" "caps ! k"] assms(2) caps that by (simp add: phys Let_def)
  with f caps phys show ?thesis by auto
qed

theorem default_herd_shape_maximal_witness:
  "resolve_physical ''npu2'' [6, 9] None = Inr [2, 3] \<and> (\<nexists>d::int. 3 < d \<and> d \<le> 4 \<and> d dvd 9)"
proof -
  have r: "resolve_physical ''npu2'' [6, 9] None = Inr [2, 3]" by code_simp
  obtain caps where caps: "map_option (\<lambda>f. f (length [6, 9 :: int])) (PHYSICAL_HERD ''npu2'') = Some (Some caps)"
    and k: "\<forall>k < length [6, 9 :: int]. \<forall>d. 1 \<le> d \<and> d \<le> caps ! k \<and> d dvd [6, 9] ! k \<longrightarrow> d \<le> [2, 3] ! k"
    using default_herd_shape_maximal [OF r] by auto
  have "caps = [2, 4]" using caps by (simp add: PHYSICAL_HERD_def)
  then have "\<not> (3 < d \<and> d \<le> 4 \<and> d dvd 9)" for d :: int using k [THEN spec, of 1] by (cases "1 \<le> d") auto
  then have "\<nexists>d::int. 3 < d \<and> d \<le> 4 \<and> d dvd 9" by blast
  with r show ?thesis by blast
qed

text \<open>
  An iteration space has no partial tile. A range that is accepted starts at zero and its tiles span its
  extent exactly; a materialised axis that is accepted is the arithmetic progression of its tiles.
\<close>

theorem grid_dims_tile_exactly:
  "(\<forall>r d. r_step r \<noteq> 0 \<and> dim_from_range r = Inr d \<longrightarrow>
      r_start r = 0 \<and> 1 \<le> dim_count d \<and> dim_count d * dim_step d = r_stop r) \<and>
   (\<forall>vs d. dim_from_values vs = Inr d \<longrightarrow>
      2 \<le> dim_count d \<and> vs = map (\<lambda>i. int i * dim_step d) [0..<nat (dim_count d)])"
  using dim_from_range_spec dim_from_values_spec by blast

theorem grid_dims_tile_exactly_witness:
  "dim_from_range \<lparr>r_start = 0, r_stop = 64, r_step = 16\<rparr> = Inr \<lparr>dim_step = 16, dim_count = 4\<rparr> \<and> (4::int) * 16 = 64"
proof -
  let ?r = "\<lparr>r_start = 0, r_stop = 64, r_step = 16\<rparr>" and ?d = "\<lparr>dim_step = 16, dim_count = 4\<rparr>"
  have d: "dim_from_range ?r = Inr ?d" by code_simp
  have "dim_count ?d * dim_step ?d = r_stop ?r"
    using grid_dims_tile_exactly d by (metis py_range.select_convs(3) zero_neq_numeral)
  with d show ?thesis by simp
qed

text \<open>
  A symbol resolves to what it was given. The value is the hint when there is one and one of the choices
  when there are any.
\<close>

theorem symbol_resolves:
  assumes "Symbol choices hint dflt name pending = Inr (s, pending')"
  shows "pending' = pending @ [s] \<and> (\<forall>k. hint = Some (PyInt k) \<longrightarrow> sym_value s = k) \<and>
    (\<forall>ks. sym_choices s = Some ks \<longrightarrow> sym_value s \<in> set ks)"
  by (rule symbol_value [OF assms])

theorem symbol_resolves_witness:
  "\<exists>s. Symbol (Some (ChoiceList [PyInt 32, PyInt 64])) (Some (PyInt 64)) 16 ''tile_m'' [] = Inr (s, [s]) \<and> sym_value s = 64"
proof -
  let ?S = "Symbol (Some (ChoiceList [PyInt 32, PyInt 64])) (Some (PyInt 64)) 16 ''tile_m'' []"
  obtain s where s: "?S = Inr (s, [s])"
    by (simp add: Symbol_def check_choices_def Let_def)
  with symbol_resolves [OF s] show ?thesis by auto
qed

end
