(* ===== verification/Budget.thy ===== *)
theory Budget
  imports Views Grid
begin

text \<open>
  Memory budgets of \<^verbatim>\<open>src/python/air/api/_trace.py\<close>: what branch arms allocate at most, the
  bytes a core spends on a buffer, \<open>air.alloc\<close> with its checks, the scratch of reductions and \<open>_charge_shared_l1\<close>.
\<close>

section \<open>Peak bytes over branch arms\<close>

text \<open>An arm path has one (branch, arm) pair per enclosing \<open>ops.branch\<close>, outermost first.\<close>

type_synonym arm_path = "(nat \<times> nat) list"

text \<open>\<open>max\<close> over the arms of a branch, which are never none.\<close>

definition max_list :: "int list \<Rightarrow> int" where
  "max_list xs = (case xs of [] \<Rightarrow> 0 | y # ys \<Rightarrow> foldl max y ys)"

definition branch_entries :: "(arm_path \<times> int) list \<Rightarrow> (nat \<times> nat \<times> arm_path \<times> int) list" where
  "branch_entries entries =
     map (\<lambda>(p, n). (fst (hd p), snd (hd p), tl p, n)) (filter (\<lambda>(p, n). p \<noteq> []) entries)"

lemma sum_list_filter_le:
  fixes f :: "'a \<Rightarrow> nat"
  shows "sum_list (map f (filter P xs)) \<le> sum_list (map f xs)"
  by (induction xs) auto

lemma sum_list_Suc_less: "xs \<noteq> [] \<Longrightarrow> (\<Sum>x\<leftarrow>xs. f x) < (\<Sum>x\<leftarrow>xs. Suc (f x))"
proof -
  have "(\<Sum>x\<leftarrow>xs. Suc (f x)) = (\<Sum>x\<leftarrow>xs. f x) + length xs" by (induction xs) auto
  then show "xs \<noteq> [] \<Longrightarrow> (\<Sum>x\<leftarrow>xs. f x) < (\<Sum>x\<leftarrow>xs. Suc (f x))" by simp
qed

lemma branch_entries_decrease:
  assumes "(b, xs) \<in> set (group_by_key (branch_entries entries))" and "(a, rest) \<in> set (group_by_key xs)"
  shows "(\<Sum>(p, n)\<leftarrow>rest. length p) < (\<Sum>(p, n)\<leftarrow>entries. length p)"
proof -
  let ?be = "branch_entries entries"
  have xs: "xs = map snd (filter (\<lambda>x. fst x = b) ?be)" and rest: "rest = map snd (filter (\<lambda>x. fst x = a) xs)"
    and a: "a \<in> fst ` set xs"
    using assms by (auto simp: group_by_key_mem)
  let ?len = "\<lambda>x :: nat \<times> nat \<times> arm_path \<times> int. length (fst (snd (snd x)))"
  let ?sel = "filter (\<lambda>x. fst x = b \<and> fst (snd x) = a) ?be"
  have r: "rest = map (snd \<circ> snd) ?sel"
    unfolding rest xs by (simp add: filter_map comp_def conj_commute)
  have "?sel \<noteq> []" using a unfolding xs by (auto simp: filter_empty_conv)
  have "(\<Sum>(p, n)\<leftarrow>rest. length p) = (\<Sum>x\<leftarrow>?sel. ?len x)"
    unfolding r by (simp add: comp_def case_prod_unfold)
  also have "\<dots> < (\<Sum>x\<leftarrow>?sel. Suc (?len x))" using \<open>?sel \<noteq> []\<close> by (rule sum_list_Suc_less)
  also have "\<dots> \<le> (\<Sum>x\<leftarrow>?be. Suc (?len x))" by (rule sum_list_filter_le)
  also have "\<dots> = (\<Sum>x\<leftarrow>filter (\<lambda>(p, n). p \<noteq> []) entries. length (fst x))"
    unfolding branch_entries_def by (auto simp: comp_def case_prod_unfold intro!: arg_cong [of _ _ sum_list])
  also have "\<dots> \<le> (\<Sum>x\<leftarrow>entries. length (fst x))" by (rule sum_list_filter_le)
  finally show ?thesis by (simp add: case_prod_unfold)
qed

function peak_bytes :: "(arm_path \<times> int) list \<Rightarrow> int" where
  "peak_bytes entries =
     (\<Sum>(p, n)\<leftarrow>filter (\<lambda>(p, n). p = []) entries. n) +
     (\<Sum>(b, arms)\<leftarrow>group_by_key (branch_entries entries).
        max_list (map (\<lambda>(a, rest). peak_bytes rest) (group_by_key arms)))"
  by auto
termination
  by (relation "measure (\<lambda>entries. \<Sum>(p, n)\<leftarrow>entries. length p)") (auto intro: branch_entries_decrease)

declare peak_bytes.simps [simp del]

text \<open>
  One execution decides, at every branch it reaches, which arm is taken: \<open>ch\<close> maps the arms entered so far
  and a branch to an arm. It allocates the buffers whose whole path is taken; those of branches that come one after the other
  are added up, as \<open>_peak_bytes\<close> adds them. At a point inside the arms \<open>q\<close> the buffers of an enclosing arm can be live, since each is
  released in the block it was allocated in.
\<close>

fun taken :: "(arm_path \<Rightarrow> nat \<Rightarrow> nat) \<Rightarrow> arm_path \<Rightarrow> bool" where
  "taken ch [] = True"
| "taken ch ((b, a) # p) = (ch [] b = a \<and> taken (\<lambda>q. ch ((b, a) # q)) p)"

definition execution_bytes :: "(arm_path \<Rightarrow> nat \<Rightarrow> nat) \<Rightarrow> (arm_path \<times> int) list \<Rightarrow> int" where
  "execution_bytes ch entries = (\<Sum>(p, n)\<leftarrow>entries. if taken ch p then n else 0)"

definition bytes_at :: "arm_path \<Rightarrow> (arm_path \<times> int) list \<Rightarrow> int" where
  "bytes_at q entries = (\<Sum>(p, n)\<leftarrow>entries. if take (length p) q = p then n else 0)"

text \<open>The execution that goes to that point takes all those arms.\<close>

definition leads_to :: "arm_path \<Rightarrow> arm_path \<Rightarrow> nat \<Rightarrow> nat" where
  "leads_to q r b = (if length r < length q then snd (q ! length r) else 0)"

lemma taken_leads_to: "take (length p) (drop k q) = p \<Longrightarrow> taken (\<lambda>r. leads_to q (take k q @ r)) p"
proof (induction p arbitrary: k)
  case (Cons ba p)
  obtain b a where ba: "ba = (b, a)" by (cases ba)
  have "k < length q" using Cons.prems by (cases "k < length q") simp_all
  moreover from this have "q ! k = (b, a)" using Cons.prems by (simp add: ba flip: Cons_nth_drop_Suc)
  ultimately have k: "k < length q" "q ! k = (b, a)" by simp_all
  with Cons.prems have "take (length p) (drop (Suc k) q) = p" by (simp add: ba flip: Cons_nth_drop_Suc)
  from Cons.IH [OF this] k show ?case
    by (simp add: ba take_Suc_conv_app_nth leads_to_def min_def)
qed simp

lemma bytes_at_le:
  assumes "\<forall>(p, n) \<in> set entries. 0 \<le> n"
  shows "bytes_at q entries \<le> execution_bytes (leads_to q) entries"
  unfolding bytes_at_def execution_bytes_def
proof (rule sum_list_mono)
  fix x assume "x \<in> set entries"
  with assms taken_leads_to [of "fst x" 0 q]
  show "(case x of (p, n) \<Rightarrow> if take (length p) q = p then n else 0) \<le> (case x of (p, n) \<Rightarrow> if taken (leads_to q) p then n else 0)"
    by (cases x) auto
qed

lemma sum_dict_append:
  fixes f :: "'k \<Rightarrow> 'v \<Rightarrow> int"
  shows "(\<Sum>(k, vs)\<leftarrow>dict_append k v d. \<Sum>x\<leftarrow>vs. f k x) = f k v + (\<Sum>(k, vs)\<leftarrow>d. \<Sum>x\<leftarrow>vs. f k x)"
  by (induction k v d rule: dict_append.induct) auto

lemma sum_group_by_key:
  fixes f :: "'k \<Rightarrow> 'v \<Rightarrow> int"
  shows "(\<Sum>(k, v)\<leftarrow>xs. f k v) = (\<Sum>(k, vs)\<leftarrow>group_by_key xs. \<Sum>v\<leftarrow>vs. f k v)"
proof (induction xs rule: rev_induct)
  case (snoc x xs)
  then show ?case by (cases x) (simp add: group_by_key_snoc sum_dict_append)
qed (simp add: group_by_key_def)

lemma live_split:
  "execution_bytes ch entries = (\<Sum>(p, n)\<leftarrow>filter (\<lambda>(p, n). p = []) entries. n) +
     (\<Sum>(b, xs)\<leftarrow>group_by_key (branch_entries entries).
        execution_bytes (\<lambda>q. ch ((b, ch [] b) # q)) (map snd (filter (\<lambda>x. fst x = ch [] b) xs)))"
proof -
  let ?f = "\<lambda>b (x :: nat \<times> arm_path \<times> int). if taken ch ((b, fst x) # fst (snd x)) then snd (snd x) else 0"
  have "execution_bytes ch entries = (\<Sum>(p, n)\<leftarrow>filter (\<lambda>(p, n). p = []) entries. n) +
      (\<Sum>(b, x)\<leftarrow>branch_entries entries. ?f b x)"
  proof (induction entries)
    case (Cons e entries)
    obtain p n where e: "e = (p, n)" by (cases e)
    show ?case
    proof (cases p)
      case Nil
      with Cons show ?thesis by (simp add: e execution_bytes_def branch_entries_def)
    next
      case (Cons ba q)
      then show ?thesis
        using Cons.IH by (cases ba) (simp add: e execution_bytes_def branch_entries_def)
    qed
  qed (simp add: execution_bytes_def branch_entries_def)
  also have "(\<Sum>(b, x)\<leftarrow>branch_entries entries. ?f b x) =
      (\<Sum>(b, xs)\<leftarrow>group_by_key (branch_entries entries). \<Sum>x\<leftarrow>xs. ?f b x)"
    by (rule sum_group_by_key)
  finally have split: "execution_bytes ch entries = (\<Sum>(p, n)\<leftarrow>filter (\<lambda>(p, n). p = []) entries. n) +
      (\<Sum>(b, xs)\<leftarrow>group_by_key (branch_entries entries). \<Sum>x\<leftarrow>xs. ?f b x)" .
  have part: "(\<Sum>x\<leftarrow>xs. ?f b x) =
      execution_bytes (\<lambda>q. ch ((b, ch [] b) # q)) (map snd (filter (\<lambda>x. fst x = ch [] b) xs))" for b xs
    by (induction xs) (auto simp: execution_bytes_def)
  show ?thesis unfolding split part ..
qed

lemma max_list_Max: "xs \<noteq> [] \<Longrightarrow> max_list xs = Max (set xs)"
proof -
  have "foldl max y ys = Max (insert y (set ys))" for y :: int and ys
  proof (induction ys arbitrary: y)
    case (Cons z ys)
    then show ?case
      by (cases "ys = []") (auto simp: max.assoc max.commute)
  qed simp
  then show "xs \<noteq> [] \<Longrightarrow> max_list xs = Max (set xs)"
    by (cases xs) (simp_all add: max_list_def)
qed

lemma max_list_ge: "x \<in> set xs \<Longrightarrow> x \<le> max_list xs"
  using max_list_Max [of xs] by (cases xs) auto

lemma max_list_mem: "xs \<noteq> [] \<Longrightarrow> max_list xs \<in> set xs"
  using max_list_Max [of xs] Max_in [of "set xs"] by simp

lemma group_entries:
  assumes "(b, xs) \<in> set (group_by_key (branch_entries entries))"
  shows "xs \<noteq> [] \<and> (\<forall>(a, p, n) \<in> set xs. ((b, a) # p, n) \<in> set entries)"
proof -
  have xs: "xs = map snd (filter (\<lambda>x. fst x = b) (branch_entries entries))" and b: "b \<in> fst ` set (branch_entries entries)"
    using assms by (auto simp: group_by_key_mem)
  have "((b, a) # p, n) \<in> set entries" if "(b, a, p, n) \<in> set (branch_entries entries)" for a p n
    using that by (force simp: branch_entries_def neq_Nil_conv)
  then show ?thesis using b by (auto simp: xs filter_empty_conv)
qed

lemma group_arm:
  assumes "(a, rest) \<in> set (group_by_key xs)"
  shows "rest = map snd (filter (\<lambda>x. fst x = a) xs) \<and> set rest \<subseteq> snd ` set xs"
  using assms by (auto simp: group_by_key_mem)

lemma peak_nonneg:
  "\<forall>(p, n) \<in> set entries. 0 \<le> n \<Longrightarrow> 0 \<le> peak_bytes entries"
proof (induction entries rule: peak_bytes.induct)
  case (1 entries)
  have "0 \<le> max_list (map (\<lambda>(a, rest). peak_bytes rest) (group_by_key arms))"
    if g: "(b, arms) \<in> set (group_by_key (branch_entries entries))" for b arms
  proof -
    note e = group_entries [OF g]
    have "0 \<le> peak_bytes rest" if "(a, rest) \<in> set (group_by_key arms)" for a rest
      using 1(1) [OF g refl that refl] group_arm [OF that] e 1(2) by fastforce
    moreover have "group_by_key arms \<noteq> []"
      using e group_by_key_mem [of "fst (hd arms)" _ arms] by fastforce
    ultimately show ?thesis using max_list_mem [of "map (\<lambda>(a, rest). peak_bytes rest) (group_by_key arms)"] by auto
  qed
  then have "0 \<le> (\<Sum>(b, arms)\<leftarrow>group_by_key (branch_entries entries).
      max_list (map (\<lambda>(a, rest). peak_bytes rest) (group_by_key arms)))"
    by (intro sum_list_nonneg) auto
  moreover have "0 \<le> (\<Sum>(p, n)\<leftarrow>filter (\<lambda>(p, n). p = []) entries. n)"
    using 1(2) by (intro sum_list_nonneg) auto
  ultimately show ?case by (subst peak_bytes.simps) simp
qed

lemma peak_bytes_upper:
  "\<forall>(p, n) \<in> set entries. 0 \<le> n \<Longrightarrow> execution_bytes ch entries \<le> peak_bytes entries"
proof (induction entries arbitrary: ch rule: peak_bytes.induct)
  case (1 entries)
  have "execution_bytes (\<lambda>q. ch ((b, ch [] b) # q)) (map snd (filter (\<lambda>x. fst x = ch [] b) arms))
      \<le> max_list (map (\<lambda>(a, rest). peak_bytes rest) (group_by_key arms))"
    if g: "(b, arms) \<in> set (group_by_key (branch_entries entries))" for b arms
  proof (cases "ch [] b \<in> fst ` set arms")
    case True
    let ?rest = "map snd (filter (\<lambda>x. fst x = ch [] b) arms)"
    have m: "(ch [] b, ?rest) \<in> set (group_by_key arms)" using True by (simp add: group_by_key_mem)
    have "\<forall>(p, n) \<in> set ?rest. 0 \<le> n" using group_entries [OF g] 1(2) by fastforce
    then have "execution_bytes (\<lambda>q. ch ((b, ch [] b) # q)) ?rest \<le> peak_bytes ?rest"
      using 1(1) [OF g refl m refl] by blast
    also have "\<dots> \<le> max_list (map (\<lambda>(a, rest). peak_bytes rest) (group_by_key arms))"
      using m by (intro max_list_ge) force
    finally show ?thesis .
  next
    case False
    then have none: "filter (\<lambda>x. fst x = ch [] b) arms = []" by (force simp: filter_empty_conv)
    obtain a where a: "a \<in> fst ` set arms" using group_entries [OF g] by (cases arms) auto
    then have m: "(a, map snd (filter (\<lambda>x. fst x = a) arms)) \<in> set (group_by_key arms)"
      by (simp add: group_by_key_mem)
    have "0 \<le> peak_bytes (map snd (filter (\<lambda>x. fst x = a) arms))"
      using group_entries [OF g] 1(2) by (intro peak_nonneg) fastforce
    also have "\<dots> \<le> max_list (map (\<lambda>(a, rest). peak_bytes rest) (group_by_key arms))"
      using m by (intro max_list_ge) force
    finally show ?thesis using none by (simp add: execution_bytes_def)
  qed
  then have "(\<Sum>(b, arms)\<leftarrow>group_by_key (branch_entries entries).
        execution_bytes (\<lambda>q. ch ((b, ch [] b) # q)) (map snd (filter (\<lambda>x. fst x = ch [] b) arms)))
      \<le> (\<Sum>(b, arms)\<leftarrow>group_by_key (branch_entries entries).
        max_list (map (\<lambda>(a, rest). peak_bytes rest) (group_by_key arms)))"
    by (intro sum_list_mono) auto
  then show ?case using live_split [of ch entries] peak_bytes.simps [of entries] by simp
qed

lemma peak_bytes_attained: "\<exists>ch. execution_bytes ch entries = peak_bytes entries"
proof (induction entries rule: peak_bytes.induct)
  case (1 entries)
  let ?G = "group_by_key (branch_entries entries)"
  have ex: "\<exists>a ch. execution_bytes ch (map snd (filter (\<lambda>x. fst x = a) arms))
      = max_list (map (\<lambda>(a, rest). peak_bytes rest) (group_by_key arms))" if g: "(b, arms) \<in> set ?G" for b arms
  proof -
    have "group_by_key arms \<noteq> []"
      using group_entries [OF g] group_by_key_mem [of "fst (hd arms)" _ arms] by fastforce
    then obtain a rest where m: "(a, rest) \<in> set (group_by_key arms)"
      and mx: "max_list (map (\<lambda>(a, rest). peak_bytes rest) (group_by_key arms)) = peak_bytes rest"
      using max_list_mem [of "map (\<lambda>(a, rest). peak_bytes rest) (group_by_key arms)"] by auto
    obtain ch where "execution_bytes ch rest = peak_bytes rest" using 1 [OF g refl m refl] by blast
    with mx group_arm [OF m] show ?thesis by auto
  qed
  define pick where "pick b = (SOME (a, ch). execution_bytes ch (map snd (filter (\<lambda>x. fst x = a) (the (map_of ?G b))))
      = max_list (map (\<lambda>(a, rest). peak_bytes rest) (group_by_key (the (map_of ?G b)))))" for b
  have pick: "execution_bytes (snd (pick b)) (map snd (filter (\<lambda>x. fst x = fst (pick b)) arms))
      = max_list (map (\<lambda>(a, rest). peak_bytes rest) (group_by_key arms))" if g: "(b, arms) \<in> set ?G" for b arms
  proof -
    have m: "the (map_of ?G b) = arms" using g group_by_key_distinct [of "branch_entries entries"] by simp
    have "\<exists>x. case x of (a, ch) \<Rightarrow> execution_bytes ch (map snd (filter (\<lambda>x. fst x = a) arms))
        = max_list (map (\<lambda>(a, rest). peak_bytes rest) (group_by_key arms))"
      using ex [OF g] by auto
    from someI_ex [OF this] show ?thesis unfolding pick_def m by (simp add: case_prod_unfold)
  qed
  define ch where "ch p b = (case p of [] \<Rightarrow> fst (pick b) | (b', a) # q \<Rightarrow> snd (pick b') q b)" for p b
  have ch: "ch [] b = fst (pick b)" "(\<lambda>q. ch ((b, a) # q)) = snd (pick b)" for a b
    by (simp_all add: ch_def fun_eq_iff)
  have "(\<Sum>(b, arms)\<leftarrow>?G. execution_bytes (\<lambda>q. ch ((b, ch [] b) # q)) (map snd (filter (\<lambda>x. fst x = ch [] b) arms)))
      = (\<Sum>(b, arms)\<leftarrow>?G. max_list (map (\<lambda>(a, rest). peak_bytes rest) (group_by_key arms)))"
    using pick by (intro arg_cong [of _ _ sum_list] map_cong refl) (auto simp: ch)
  then have "execution_bytes ch entries = peak_bytes entries"
    using live_split [of ch entries] peak_bytes.simps [of entries] by simp
  then show ?case by blast
qed

section \<open>Allocation\<close>

definition L1_BYTES :: int where "L1_BYTES = 65536"

definition L2_BYTES_PER_MEMTILE :: int where "L2_BYTES_PER_MEMTILE = 512 * 1024"

definition DEVICE_COLUMNS :: "string \<Rightarrow> int res" where
  "DEVICE_COLUMNS target =
     (if target = ''npu1'' then Inr 4 else if target = ''npu2'' then Inr 8 else Inl KeyError)"

datatype scope_kind = Private | Shared | PerCore

datatype scope_owner = HerdOwner nat | SegmentOwner nat

text \<open>The \<open>scope=\<close> argument: missing, not a usable scope, or a scope handle with its kind and owner.\<close>

datatype scope_arg = NoScope | BadScope | ScopeOf scope_kind scope_owner

text \<open>A traced buffer also knows its scope kind and the branch arm it was allocated in.\<close>

record abuffer = buffer +
  b_scope :: scope_kind
  b_arm_path :: arm_path

text \<open>
  What \<open>alloc\<close> reads and writes of the tracer: the herd being traced with the rank of its grid, the
  enclosing segment, the buffers each of them holds, the branch arm, and the peak it reports; and of the herd, whether its
  body has an entry block and the scratch vectors of its reductions.
\<close>

record alloc_state =
  st_target :: string
  st_herd :: "(nat \<times> nat) option"
  st_herd_buffers :: "abuffer list"
  st_segment :: "nat option"
  st_segment_buffers :: "abuffer list"
  st_arm :: arm_path
  st_l1_peak :: int
  st_next :: nat
  st_entry :: bool
  st_scratch :: "((dtype \<times> int) \<times> abuffer) list"

definition require_allocatable :: "dtype \<Rightarrow> unit res" where
  "require_allocatable dt = res_check (allocatable dt) TypeError"

text \<open>\<open>_buffer_bytes\<close>: the first \<open>nlead\<close> extents are divided out, one \<open>//=\<close> each.\<close>

definition bytes_of :: "int list \<Rightarrow> dtype \<Rightarrow> nat \<Rightarrow> int res" where
  "bytes_of shape dt nlead =
     res_bind (itemsize dt) (\<lambda>n.
       if 0 \<in> set (take nlead shape) then Inl ZeroDivisionError
       else Inr (foldl (div) (n * prod_list shape) (take nlead shape)))"

definition buffer_bytes :: "abuffer \<Rightarrow> nat \<Rightarrow> int res" where
  "buffer_bytes b nlead = bytes_of (b_shape b) (b_dtype b) nlead"

text \<open>The (arm path, bytes) entries of the buffers of one memory space that are not yet released.\<close>

definition live_entries :: "space \<Rightarrow> abuffer list \<Rightarrow> (arm_path \<times> int) list res" where
  "live_entries sp bs =
     map_res (\<lambda>b. res_bind (buffer_bytes b 0) (\<lambda>n. Inr (b_arm_path b, n)))
       (filter (\<lambda>b. b_space b = sp \<and> \<not> released b) bs)"

text \<open>
  What one core spends on the enclosing segment's L1 buffers: its slab of a shared one when the shape has
  more axes than the herd, the whole of it otherwise, and the whole of a per-core one.
\<close>

definition shared_lead :: "nat \<Rightarrow> abuffer \<Rightarrow> nat" where
  "shared_lead nlead b = (if nlead < length (b_shape b) then nlead else 0)"

definition core_share :: "nat \<Rightarrow> abuffer \<Rightarrow> int res" where
  "core_share nlead b =
     (case b_scope b of
        Shared \<Rightarrow> buffer_bytes b (shared_lead nlead b)
      | PerCore \<Rightarrow> buffer_bytes b 0
      | Private \<Rightarrow> Inr 0)"

definition segment_share :: "nat \<Rightarrow> abuffer list \<Rightarrow> int res" where
  "segment_share nlead bs =
     res_bind (map_res (core_share nlead) (filter (\<lambda>b. b_space b = L1 \<and> \<not> released b) bs))
       (\<lambda>ns. Inr (sum_list ns))"

text \<open>The scope argument, resolved against what is being traced: memory space and capacity.\<close>

definition resolve_scope :: "alloc_state \<Rightarrow> scope_arg \<Rightarrow> (space \<times> int) res" where
  "resolve_scope st arg =
     (case arg of
        NoScope \<Rightarrow> Inl ValueError
      | BadScope \<Rightarrow> Inl NotImplementedError
      | ScopeOf kind (HerdOwner i) \<Rightarrow>
          if kind \<noteq> Private then Inl NotImplementedError
          else (case st_herd st of
                  None \<Rightarrow> Inl RuntimeError
                | Some (j, _) \<Rightarrow> if j = i then Inr (L1, L1_BYTES) else Inl RuntimeError)
      | ScopeOf kind (SegmentOwner i) \<Rightarrow>
          res_bind (if kind = Private
                    then res_bind (DEVICE_COLUMNS (st_target st)) (\<lambda>cols. Inr (L2, L2_BYTES_PER_MEMTILE * cols))
                    else Inr (L1, L1_BYTES)) (\<lambda>r.
            (case st_segment st of
               None \<Rightarrow> Inl RuntimeError
             | Some j \<Rightarrow> if j = i then Inr r else Inl RuntimeError)))"

text \<open>The bytes live at once after this allocation, as \<open>alloc\<close> charges them.\<close>

definition charged :: "alloc_state \<Rightarrow> space \<Rightarrow> bool \<Rightarrow> int \<Rightarrow> int res" where
  "charged st sp in_herd nbytes =
     res_bind (live_entries sp (if in_herd then st_herd_buffers st else st_segment_buffers st)) (\<lambda>es.
       let peak = peak_bytes (es @ [(st_arm st, nbytes)]) in
       if sp = L1 \<and> in_herd \<and> st_segment st \<noteq> None
       then res_bind (segment_share (snd (the (st_herd st))) (st_segment_buffers st)) (\<lambda>share. Inr (peak + share))
       else Inr peak)"

definition check_placement :: "space \<Rightarrow> py_num option \<Rightarrow> bool \<Rightarrow> unit res" where
  "check_placement sp column split =
     (if column = None \<and> split then Inr ()
      else if sp \<noteq> L2 then Inl ValueError
      else (case column of
              None \<Rightarrow> Inr ()
            | Some PyOther \<Rightarrow> Inl TypeError
            | Some (PyInt c) \<Rightarrow> if c < 0 then Inl TypeError else Inr ()))"

text \<open>\<open>alloc\<close>. A private allocation is budgeted here; a shared or per-core one waits for its herd.\<close>

definition alloc ::
  "int list \<Rightarrow> dtype \<Rightarrow> scope_arg \<Rightarrow> int option \<Rightarrow> py_num option \<Rightarrow> bool \<Rightarrow> alloc_state \<Rightarrow>
     (abuffer \<times> alloc_state) res"
where
  "alloc shape dt scope vector column split st =
     res_bind (require_allocatable dt) (\<lambda>_.
     res_bind (resolve_scope st scope) (\<lambda>(sp, capacity).
     let kind = (case scope of ScopeOf k _ \<Rightarrow> k | _ \<Rightarrow> Private);
         in_herd = (case scope of ScopeOf _ (HerdOwner _) \<Rightarrow> True | _ \<Rightarrow> False) in
     res_bind (res_check (\<not> (case vector of None \<Rightarrow> False | Some w \<Rightarrow> w < 0)) ValueError) (\<lambda>_.
     res_bind (bytes_of shape dt 0) (\<lambda>nbytes.
     res_bind (if kind \<noteq> Private then Inr 0
               else res_bind (charged st sp in_herd nbytes) (\<lambda>live.
                      if capacity < nbytes then Inl ValueError
                      else if capacity < live then Inl ValueError
                      else Inr live)) (\<lambda>live.
     res_bind (check_placement sp column split) (\<lambda>_.
     let b = buffer.extend
               (Buffer (st_next st) shape dt (Some (case vector of None \<Rightarrow> width_for dt (st_target st) | Some w \<Rightarrow> w))
                  sp (vector \<noteq> None))
               (abuffer.fields kind (st_arm st));
         st' = (if in_herd then st\<lparr>st_herd_buffers := st_herd_buffers st @ [b]\<rparr>
                else st\<lparr>st_segment_buffers := st_segment_buffers st @ [b]\<rparr>) in
     Inr (b, st'\<lparr>st_next := Suc (st_next st),
                 st_l1_peak := (if sp = L1 \<and> kind = Private then max (st_l1_peak st) live else st_l1_peak st)\<rparr>)))))))"

text \<open>
  \<open>scratch\<close> of herd \<open>i\<close>: one vector per element type and number of lanes, allocated as any private buffer and then taken out
  of the list of the herd's buffers; and what \<open>_free_scratch\<close> hands to \<open>free_buffers\<close>.
\<close>

definition scratch :: "nat \<Rightarrow> dtype \<Rightarrow> int \<Rightarrow> alloc_state \<Rightarrow> (abuffer \<times> alloc_state) res" where
  "scratch i dt lanes st =
     (case map_of (st_scratch st) (dt, lanes) of
        Some b \<Rightarrow> Inr (b, st)
      | None \<Rightarrow>
          if \<not> st_entry st then Inl RuntimeError
          else res_bind (alloc [lanes] dt (ScopeOf Private (HerdOwner i)) None None True st) (\<lambda>(b, st').
                 Inr (b, st'\<lparr>st_herd_buffers := remove1 b (st_herd_buffers st'),
                            st_scratch := st_scratch st' @ [((dt, lanes), b)]\<rparr>)))"

definition free_scratch :: "alloc_state \<Rightarrow> abuffer list \<times> alloc_state" where
  "free_scratch st = (map snd (st_scratch st), st\<lparr>st_scratch := []\<rparr>)"

text \<open>\<open>dealloc\<close> of a buffer, by its number.\<close>

definition dealloc :: "nat \<Rightarrow> abuffer list \<Rightarrow> abuffer list res" where
  "dealloc i bs =
     (case find (\<lambda>b. b_id b = i) bs of
        None \<Rightarrow> Inl TypeError
      | Some b \<Rightarrow> if released b then Inl ValueError
          else Inr (map (\<lambda>c. if b_id c = i then c\<lparr>released := True\<rparr> else c) bs))"

text \<open>\<open>_charge_shared_l1\<close>, run when a herd of rank \<open>nlead\<close> is entered.\<close>

definition charge_shared_l1 :: "alloc_state \<Rightarrow> nat \<Rightarrow> alloc_state res" where
  "charge_shared_l1 st nlead =
     (case st_segment st of
        None \<Rightarrow> Inr st
      | Some _ \<Rightarrow>
          let live_l1 = filter (\<lambda>b. b_space b = L1 \<and> \<not> released b) (st_segment_buffers st);
              shared = filter (\<lambda>b. b_scope b = Shared) live_l1;
              per_core = filter (\<lambda>b. b_scope b = PerCore) live_l1 in
          if shared = [] \<and> per_core = [] then Inr st
          else
            res_bind (map_res (\<lambda>b. buffer_bytes b (shared_lead nlead b)) shared) (\<lambda>ss.
            res_bind (map_res (\<lambda>b. buffer_bytes b 0) per_core) (\<lambda>ps.
              let live = sum_list ss + sum_list ps in
              if L1_BYTES < live then Inl ValueError
              else Inr (st\<lparr>st_l1_peak := max (st_l1_peak st) live\<rparr>))))"

section \<open>Bytes\<close>

definition wf_dims :: "int list \<Rightarrow> dtype \<Rightarrow> bool" where
  "wf_dims shape dt \<longleftrightarrow> (\<forall>n \<in> set shape. 1 \<le> n) \<and> (\<forall>k. itemsize dt = Inr k \<longrightarrow> 0 \<le> k)"

definition wf_buffers :: "abuffer list \<Rightarrow> bool" where
  "wf_buffers bs \<longleftrightarrow> (\<forall>b \<in> set bs. wf_dims (b_shape b) (b_dtype b))"

lemma bytes_nonneg: "bytes_of shape dt 0 = Inr n \<Longrightarrow> wf_dims shape dt \<Longrightarrow> 0 \<le> n"
  using prod_list_ge_1 [of shape] by (force simp: bytes_of_def res_bind_Inr_iff wf_dims_def)

text \<open>Dividing the leading extents out one by one is exact: it leaves the bytes of one slab.\<close>

lemma foldl_div_exact:
  "\<forall>n \<in> set xs. (1::int) \<le> n \<Longrightarrow> foldl (div) (k * prod_list xs) xs = k"
proof (induction xs arbitrary: k)
  case (Cons x xs)
  have "k * (x * prod_list xs) div x = k * prod_list xs"
    using Cons.prems by (simp add: mult.left_commute [of k x])
  with Cons show ?case by simp
qed simp

lemma slab_bytes:
  assumes "bytes_of shape dt nlead = Inr n" and "wf_dims shape dt"
  shows "\<exists>k. itemsize dt = Inr k \<and> n = k * prod_list (drop nlead shape) \<and>
    bytes_of shape dt 0 = Inr (n * prod_list (take nlead shape))"
proof -
  obtain k where k: "itemsize dt = Inr k" and n: "n = foldl (div) (k * prod_list shape) (take nlead shape)"
    using assms(1) by (auto simp: bytes_of_def res_bind_Inr_iff split: if_splits)
  have p: "prod_list shape = prod_list (drop nlead shape) * prod_list (take nlead shape)"
    by (metis append_take_drop_id mult.commute prod_list.append)
  have "\<forall>m \<in> set (take nlead shape). 1 \<le> m" using assms(2) by (auto simp: wf_dims_def dest: in_set_takeD)
  then have "n = k * prod_list (drop nlead shape)"
    unfolding n p mult.assoc [symmetric] by (rule foldl_div_exact)
  with k p show ?thesis by (simp add: bytes_of_def)
qed

lemma live_entries_nonneg:
  assumes "live_entries sp bs = Inr es" and "wf_buffers bs"
  shows "\<forall>(p, n) \<in> set es. 0 \<le> n"
proof -
  let ?bs = "filter (\<lambda>b. b_space b = sp \<and> \<not> released b) bs"
  have m: "map_res (\<lambda>b. res_bind (buffer_bytes b 0) (\<lambda>n. Inr (b_arm_path b, n))) ?bs = Inr es"
    using assms(1) by (simp add: live_entries_def)
  have "\<exists>b \<in> set bs. buffer_bytes b 0 = Inr (snd e)" if "e \<in> set es" for e
  proof -
    obtain k where k: "k < length ?bs" "e = es ! k" using \<open>e \<in> set es\<close> map_res_length [OF m] by (metis in_set_conv_nth)
    then have "buffer_bytes (?bs ! k) 0 = Inr (snd e)" using map_res_nth [OF m k(1)] by (auto simp: res_bind_Inr_iff dest: sym)
    moreover have "?bs ! k \<in> set bs" using nth_mem [OF k(1)] by simp
    ultimately show ?thesis by blast
  qed
  then show ?thesis
    using assms(2) bytes_nonneg by (fastforce simp: wf_buffers_def buffer_bytes_def)
qed

lemma map_res_append_one:
  "map_res f (xs @ [x]) = res_bind (map_res f xs) (\<lambda>ys. res_bind (f x) (\<lambda>y. Inr (ys @ [y])))"
proof (induction xs)
  case (Cons a xs)
  then show ?case by (cases "f a"; cases "map_res f xs"; cases "f x") auto
qed simp

lemma live_entries_append:
  assumes "live_entries sp bs = Inr es" and "b_space b = sp" and "\<not> released b" and "buffer_bytes b 0 = Inr n"
  shows "live_entries sp (bs @ [b]) = Inr (es @ [(b_arm_path b, n)])"
  using assms by (simp add: live_entries_def map_res_append_one)

text \<open>What a successful private allocation in a herd body leaves behind.\<close>

lemma alloc_herd_spec:
  assumes a: "alloc shape dt (ScopeOf Private (HerdOwner i)) vector column split st = Inr (b, st')"
  shows "\<exists>es n share. live_entries L1 (st_herd_buffers st) = Inr es \<and> bytes_of shape dt 0 = Inr n \<and>
    (if st_segment st = None then share = 0
     else segment_share (snd (the (st_herd st))) (st_segment_buffers st) = Inr share) \<and>
    st_herd_buffers st' = st_herd_buffers st @ [b] \<and> st_segment_buffers st' = st_segment_buffers st \<and>
    st_segment st' = st_segment st \<and> st_herd st' = st_herd st \<and> st_herd st \<noteq> None \<and>
    live_entries L1 (st_herd_buffers st') = Inr (es @ [(st_arm st, n)]) \<and>
    peak_bytes (es @ [(st_arm st, n)]) + share \<le> L1_BYTES \<and>
    peak_bytes (es @ [(st_arm st, n)]) + share \<le> st_l1_peak st'"
proof -
  obtain j r where h: "st_herd st = Some (j, r)" and ji: "j = i"
    using a by (auto simp: alloc_def resolve_scope_def res_bind_Inr_iff split: option.splits if_splits)
  obtain n live where n: "bytes_of shape dt 0 = Inr n" and live: "charged st L1 True n = Inr live"
    and cap: "live \<le> L1_BYTES"
    and b: "b = buffer.extend (Buffer (st_next st) shape dt
        (Some (case vector of None \<Rightarrow> width_for dt (st_target st) | Some w \<Rightarrow> w)) L1 (vector \<noteq> None))
        (abuffer.fields Private (st_arm st))"
    and st': "st' = st\<lparr>st_herd_buffers := st_herd_buffers st @ [b], st_next := Suc (st_next st),
        st_l1_peak := max (st_l1_peak st) live\<rparr>"
    using a by (auto simp: alloc_def resolve_scope_def h ji res_bind_Inr_iff Let_def not_less split: if_splits)
  obtain es share where es: "live_entries L1 (st_herd_buffers st) = Inr es"
    and share: "if st_segment st = None then share = 0
      else segment_share (snd (the (st_herd st))) (st_segment_buffers st) = Inr share"
    and l: "live = peak_bytes (es @ [(st_arm st, n)]) + share"
    using live by (cases "st_segment st") (auto simp: charged_def res_bind_Inr_iff Let_def)
  have fields: "b_space b = L1" "\<not> released b" "b_shape b = shape" "b_dtype b = dt" "b_arm_path b = st_arm st"
    by (simp_all add: b buffer.defs abuffer.defs Buffer_def)
  have "live_entries L1 (st_herd_buffers st') = Inr (es @ [(st_arm st, n)])"
    using live_entries_append [OF es fields(1,2), of n] n by (simp add: st' buffer_bytes_def fields)
  with es n share l cap h show ?thesis
    by (intro exI [of _ es] exI [of _ n] exI [of _ share] conjI) (simp_all add: st')
qed

section \<open>Properties\<close>

text \<open>
  C32: what \<open>_peak_bytes\<close> gives. For buffers of non-negative size it is never below the bytes that can be live together at a
  point of the body, and it is exactly the largest total that one execution allocates: of the arms of a branch the larger
  counts, and what branches that come one after the other allocate is summed, the conservative reading.
\<close>

theorem peak_bytes_exact:
  assumes "\<forall>(p, n) \<in> set entries. 0 \<le> n"
  shows "(\<forall>q. bytes_at q entries \<le> peak_bytes entries) \<and>
    (\<forall>ch. execution_bytes ch entries \<le> peak_bytes entries) \<and> (\<exists>ch. execution_bytes ch entries = peak_bytes entries)"
  using peak_bytes_upper [OF assms] peak_bytes_attained order_trans [OF bytes_at_le [OF assms]] by blast

theorem peak_bytes_exact_witness:
  "bytes_at [(0, 0), (1, 0)] [([], 8), ([(0, 0)], 40), ([(0, 1)], 24), ([(0, 0), (1, 0)], 4)] \<le> 52 \<and>
   execution_bytes (\<lambda>p b. 1) [([], 8), ([(0, 0)], 40), ([(0, 1)], 24), ([(0, 0), (1, 0)], 4)] \<le> 52 \<and>
   peak_bytes [([], 8), ([(0, 0)], 40), ([(0, 1)], 24), ([(0, 0), (1, 0)], 4)] = 52"
proof -
  let ?es = "[([], 8), ([(0, 0)], 40), ([(0, 1)], 24), ([(0, 0), (1, 0)], 4)] :: (arm_path \<times> int) list"
  have p: "peak_bytes ?es = 52" by code_simp
  have "\<forall>(p, n) \<in> set ?es. 0 \<le> n" by simp
  from peak_bytes_exact [OF this] have "bytes_at [(0, 0), (1, 0)] ?es \<le> peak_bytes ?es" "execution_bytes (\<lambda>p b. 1) ?es \<le> peak_bytes ?es" by blast+
  with p show ?thesis by simp
qed

text \<open>Two branches one after the other count both, although their buffers are never live together.\<close>

lemma successive_branches_summed:
  "peak_bytes [([(0, 0)], 40), ([(1, 0)], 24)] = 64 \<and> bytes_at q [([(0, 0)], 40), ([(1, 0)], 24)] \<le> 40"
proof
  show "peak_bytes [([(0, 0)], 40), ([(1, 0)], 24)] = 64" by code_simp
  show "bytes_at q [([(0, 0)], 40), ([(1, 0)], 24)] \<le> 40" by (cases q) (auto simp: bytes_at_def)
qed

text \<open>
  C33: \<open>air.alloc\<close> keeps the budget of the buffers it counts. After every successful allocation of a buffer of positive extents
  in a herd body, in every execution of the body the buffers in the herd's list that are not released, together with the
  core's share of the segment's shared and per-core buffers, fit in the 64 KB of the tile; the reported peak covers them. The
  scratch vectors of reductions are not in that list: \<open>scratch_not_counted\<close> below.
\<close>

theorem alloc_keeps_core_budget:
  assumes a: "alloc shape dt (ScopeOf Private (HerdOwner i)) vector column split st = Inr (b, st')"
    and "wf_buffers (st_herd_buffers st)" and "wf_dims shape dt"
  shows "\<exists>es share. live_entries L1 (st_herd_buffers st') = Inr es \<and>
    (if st_segment st' = None then share = 0
     else segment_share (snd (the (st_herd st'))) (st_segment_buffers st') = Inr share) \<and>
    (\<forall>ch. execution_bytes ch es + share \<le> L1_BYTES \<and> execution_bytes ch es + share \<le> st_l1_peak st')"
proof -
  obtain es n share where es: "live_entries L1 (st_herd_buffers st) = Inr es" and n: "bytes_of shape dt 0 = Inr n"
    and share: "if st_segment st = None then share = 0
      else segment_share (snd (the (st_herd st))) (st_segment_buffers st) = Inr share"
    and st': "st_segment_buffers st' = st_segment_buffers st" "st_segment st' = st_segment st" "st_herd st' = st_herd st"
      "live_entries L1 (st_herd_buffers st') = Inr (es @ [(st_arm st, n)])"
    and peak: "peak_bytes (es @ [(st_arm st, n)]) + share \<le> L1_BYTES"
      "peak_bytes (es @ [(st_arm st, n)]) + share \<le> st_l1_peak st'"
    using alloc_herd_spec [OF a] by blast
  have "\<forall>(p, n) \<in> set (es @ [(st_arm st, n)]). 0 \<le> n"
    using live_entries_nonneg [OF es assms(2)] bytes_nonneg [OF n assms(3)] by auto
  then have "execution_bytes ch (es @ [(st_arm st, n)]) \<le> peak_bytes (es @ [(st_arm st, n)])" for ch
    by (rule peak_bytes_upper)
  then have "execution_bytes ch (es @ [(st_arm st, n)]) + share \<le> L1_BYTES \<and>
      execution_bytes ch (es @ [(st_arm st, n)]) + share \<le> st_l1_peak st'" for ch
    using peak by (meson add_right_mono order_trans)
  with share st' show ?thesis by (intro exI [of _ "es @ [(st_arm st, n)]"] exI [of _ share]) simp
qed

definition empty_state :: alloc_state where
  "empty_state = \<lparr>st_target = ''npu2'', st_herd = Some (0, 1), st_herd_buffers = [], st_segment = None,
     st_segment_buffers = [], st_arm = [], st_l1_peak = 0, st_next = 0,
     st_entry = True, st_scratch = []\<rparr>"

theorem alloc_keeps_core_budget_witness:
  "\<exists>b st' es. alloc [64, 64] bf16 (ScopeOf Private (HerdOwner 0)) None None True empty_state = Inr (b, st') \<and>
     live_entries L1 (st_herd_buffers st') = Inr es \<and> execution_bytes (\<lambda>p b. 0) es \<le> 65536"
proof -
  have "(case alloc [64, 64] bf16 (ScopeOf Private (HerdOwner 0)) None None True empty_state of
      Inl e \<Rightarrow> False | Inr x \<Rightarrow> st_segment (snd x) = None)" by code_simp
  then obtain b st' where a: "alloc [64, 64] bf16 (ScopeOf Private (HerdOwner 0)) None None True empty_state = Inr (b, st')"
    and s: "st_segment st' = None"
    by (auto split: sum.splits)
  have "wf_buffers (st_herd_buffers empty_state)" by (simp add: wf_buffers_def empty_state_def)
  moreover have "wf_dims [64, 64] bf16" by (simp add: wf_dims_def itemsize_def bf16_def np_defs)
  ultimately show ?thesis
    using alloc_keeps_core_budget [OF a] a s by (auto simp: L1_BYTES_def)
qed

text \<open>
  A scratch vector is charged when it is made, and not after that: a core that holds one of 64 bytes is still given all 64 KB.
\<close>

lemma scratch_not_counted:
  "\<exists>v st1 b st2. scratch 0 f32 16 empty_state = Inr (v, st1) \<and> buffer_bytes v 0 = Inr 64 \<and>
     alloc [128, 256] bf16 (ScopeOf Private (HerdOwner 0)) None None True st1 = Inr (b, st2) \<and>
     buffer_bytes b 0 = Inr L1_BYTES \<and> map snd (st_scratch st2) = [v] \<and> st_herd_buffers st2 = [b]"
proof -
  have "(case scratch 0 f32 16 empty_state of Inl e \<Rightarrow> False | Inr (v, st1) \<Rightarrow> buffer_bytes v 0 = Inr 64 \<and>
      (case alloc [128, 256] bf16 (ScopeOf Private (HerdOwner 0)) None None True st1 of Inl e \<Rightarrow> False
       | Inr (b, st2) \<Rightarrow> buffer_bytes b 0 = Inr L1_BYTES \<and> map snd (st_scratch st2) = [v] \<and> st_herd_buffers st2 = [b]))"
    by code_simp
  then obtain v st1 where v: "scratch 0 f32 16 empty_state = Inr (v, st1)" and
    rest: "buffer_bytes v 0 = Inr 64 \<and> (case alloc [128, 256] bf16 (ScopeOf Private (HerdOwner 0)) None None True st1 of Inl e \<Rightarrow> False
       | Inr (b, st2) \<Rightarrow> buffer_bytes b 0 = Inr L1_BYTES \<and> map snd (st_scratch st2) = [v] \<and> st_herd_buffers st2 = [b])"
    by (cases "scratch 0 f32 16 empty_state") auto
  then obtain b st2 where "alloc [128, 256] bf16 (ScopeOf Private (HerdOwner 0)) None None True st1 = Inr (b, st2)"
    by (cases "alloc [128, 256] bf16 (ScopeOf Private (HerdOwner 0)) None None True st1") auto
  with v rest show ?thesis by auto
qed

text \<open>
  Entering a herd gates the shared buffers. When \<open>_charge_shared_l1\<close> returns, the slabs of the shared
  buffers and the per-core buffers come to at most 64 KB per core; and a slab's charge is exact, the bytes of
  the buffer divided by the product of its leading extents.
\<close>

theorem shared_l1_gated:
  assumes "charge_shared_l1 st nlead = Inr st'" and "st_segment st = Some s"
  shows "\<exists>ss ps. map_res (\<lambda>b. buffer_bytes b (shared_lead nlead b))
        (filter (\<lambda>b. b_scope b = Shared) (filter (\<lambda>b. b_space b = L1 \<and> \<not> released b) (st_segment_buffers st))) = Inr ss \<and>
    map_res (\<lambda>b. buffer_bytes b 0)
        (filter (\<lambda>b. b_scope b = PerCore) (filter (\<lambda>b. b_space b = L1 \<and> \<not> released b) (st_segment_buffers st))) = Inr ps \<and>
    sum_list ss + sum_list ps \<le> L1_BYTES \<and>
    (\<forall>b k n. wf_dims (b_shape b) (b_dtype b) \<and> buffer_bytes b k = Inr n \<longrightarrow>
       buffer_bytes b 0 = Inr (n * prod_list (take k (b_shape b))))"
proof -
  have slab: "buffer_bytes b 0 = Inr (n * prod_list (take k (b_shape b)))"
    if "wf_dims (b_shape b) (b_dtype b)" "buffer_bytes b k = Inr n" for b k n
    using slab_bytes [of "b_shape b" "b_dtype b" k n] that by (auto simp: buffer_bytes_def)
  from assms show ?thesis
    by (auto simp: charge_shared_l1_def Let_def res_bind_Inr_iff not_less L1_BYTES_def slab split: if_splits)
qed

definition shared_state :: alloc_state where
  "shared_state = empty_state\<lparr>st_herd := None, st_segment := Some 0, st_segment_buffers :=
     [buffer.extend (Buffer 0 [4, 32, 32] bf16 (Some 16) L1 False) (abuffer.fields Shared [])]\<rparr>"

theorem shared_l1_gated_witness:
  "\<exists>st' ss ps. charge_shared_l1 shared_state 1 = Inr st' \<and> ss = [2048] \<and> ps = [] \<and> sum_list ss + sum_list ps \<le> (65536::int)"
proof -
  have "(case charge_shared_l1 shared_state 1 of Inl e \<Rightarrow> False | Inr x \<Rightarrow> True)" by code_simp
  then obtain st' where c: "charge_shared_l1 shared_state 1 = Inr st'" by (auto split: sum.splits)
  have s: "st_segment shared_state = Some 0" by (simp add: shared_state_def)
  have m: "map_res (\<lambda>b. buffer_bytes b (shared_lead 1 b))
      (filter (\<lambda>b. b_scope b = Shared) (filter (\<lambda>b. b_space b = L1 \<and> \<not> released b) (st_segment_buffers shared_state))) = Inr [2048]"
    "map_res (\<lambda>b. buffer_bytes b 0)
      (filter (\<lambda>b. b_scope b = PerCore) (filter (\<lambda>b. b_space b = L1 \<and> \<not> released b) (st_segment_buffers shared_state))) = Inr []"
    by code_simp+
  from shared_l1_gated [OF c s] c show ?thesis unfolding m by (auto simp: L1_BYTES_def)
qed

end
