(* ===== verification/Regions.thy ===== *)
theory Regions
  imports Index_Expr Grid
begin

text \<open>
  Isolated regions and buffer lifetimes of \<^verbatim>\<open>src/python/air/api/_trace.py\<close>: what \<open>air.launch\<close>,
  \<open>air.segment\<close> and \<open>air.herd\<close> thread in as operands and rebind inside, the pruning of operands a body did
  not use, and the placement of deallocations.
\<close>

section \<open>Threading values into an isolated region\<close>

text \<open>
  The objects whose SSA value a region rebinds: coordinates (leaves), tensors, staged buffers and runtime
  parameters. An environment gives each its current value, by number.
\<close>

datatype cell = CLeaf nat | CTensor nat | CBuffer nat | CRtp nat

type_synonym env = "cell \<Rightarrow> nat"

fun rebind :: "env \<Rightarrow> cell list \<Rightarrow> nat list \<Rightarrow> env" where
  "rebind env (c # cs) (v # vs) = rebind (env(c := v)) cs vs"
| "rebind env _ _ = env"

text \<open>\<open>HerdContext._emit\<close>: operands are the outer leaves, the tensors, the staged buffers, the parameters.\<close>

definition herd_cells :: "nat list \<Rightarrow> nat list \<Rightarrow> nat list \<Rightarrow> nat list \<Rightarrow> cell list" where
  "herd_cells outer tensors staged rtps = map CLeaf outer @ map CTensor tensors @ map CBuffer staged @ map CRtp rtps"

definition herd_operands :: "env \<Rightarrow> nat list \<Rightarrow> nat list \<Rightarrow> nat list \<Rightarrow> nat list \<Rightarrow> nat list" where
  "herd_operands env outer tensors staged rtps =
     map (env \<circ> CLeaf) outer @ map (env \<circ> CTensor) tensors @ map (env \<circ> CBuffer) staged @ map (env \<circ> CRtp) rtps"

definition herd_bind :: "nat list \<Rightarrow> nat list \<Rightarrow> nat list \<Rightarrow> nat list \<Rightarrow> env \<Rightarrow> nat list \<Rightarrow> env" where
  "herd_bind outer tensors staged rtps env args =
     (let inner = drop 4 args; n_outer = length outer; base = n_outer + length tensors; n_staged = length staged;
          env1 = rebind env (map CLeaf outer) (take n_outer inner);
          env2 = rebind env1 (map CTensor tensors) (take (base - n_outer) (drop n_outer inner));
          env3 = rebind env2 (map CBuffer staged) (take n_staged (drop base inner))
      in rebind env3 (map CRtp rtps) (drop (base + n_staged) inner))"

text \<open>\<open>SegmentContext._emit_segment\<close>: outer leaves, parameters, tensors, after two block arguments per size.\<close>

definition segment_cells :: "nat list \<Rightarrow> nat list \<Rightarrow> nat list \<Rightarrow> cell list" where
  "segment_cells outer rtps tensors = map CLeaf outer @ map CRtp rtps @ map CTensor tensors"

definition segment_operands :: "env \<Rightarrow> nat list \<Rightarrow> nat list \<Rightarrow> nat list \<Rightarrow> nat list" where
  "segment_operands env outer rtps tensors = map (env \<circ> CLeaf) outer @ map (env \<circ> CRtp) rtps @ map (env \<circ> CTensor) tensors"

definition segment_sizes :: "int list \<Rightarrow> int list" where
  "segment_sizes grid = (if grid = [] then [] else grid @ replicate (2 - length grid) 1)"

definition segment_bind :: "nat \<Rightarrow> nat list \<Rightarrow> nat list \<Rightarrow> nat list \<Rightarrow> env \<Rightarrow> nat list \<Rightarrow> env" where
  "segment_bind n outer rtps tensors env args =
     (let bound = drop (2 * n) args; base = length outer;
          env1 = rebind env (map CLeaf outer) (take base bound);
          env2 = rebind env1 (map CRtp rtps) (take (length rtps) (drop base bound))
      in rebind env2 (map CTensor tensors) (drop (base + length rtps) bound))"

text \<open>\<open>_emit_launch\<close>: the tensors, then the dispatch index of a repeated launch.\<close>

definition launch_bind :: "nat \<Rightarrow> nat list \<Rightarrow> env \<Rightarrow> nat list \<Rightarrow> env \<times> nat option" where
  "launch_bind n tensors env args =
     (let first = 2 * n; bound = take (length tensors) (drop first args);
          extra = drop (first + length tensors) args
      in (rebind env (map CTensor tensors) bound, (case extra of [] \<Rightarrow> None | v # _ \<Rightarrow> Some v)))"

text \<open>The body runs between the binding and the restoring of the saved values.\<close>

definition in_region :: "cell list \<Rightarrow> (env \<Rightarrow> nat list \<Rightarrow> env) \<Rightarrow> env \<Rightarrow> nat list \<Rightarrow> (env \<Rightarrow> 'r \<times> env) \<Rightarrow> 'r \<times> env" where
  "in_region cells bnd env args body =
     (let saved = map env cells; (r, env') = body (bnd env args) in (r, rebind env' cells saved))"

section \<open>Pruning operands\<close>

text \<open>
  An isolated op: its async and size counts, its operands, and its block arguments (ids, then sizes, then one
  per kernel operand).
\<close>

record 'a hier_op =
  n_async :: nat
  n_sizes :: nat
  op_operands :: "nat list"
  op_args :: "'a list"

definition erase_at :: "nat \<Rightarrow> 'a list \<Rightarrow> 'a list" where
  "erase_at i xs = take i xs @ drop (Suc i) xs"

definition prune_unused_operands :: "('a \<Rightarrow> bool) \<Rightarrow> 'a hier_op \<Rightarrow> 'a hier_op" where
  "prune_unused_operands used p =
     (let ctrl = 2 * n_sizes p;
          dead = filter (\<lambda>i. \<not> used (op_args p ! i)) [ctrl..<length (op_args p)]
      in if dead = [] then p
         else
           let kept = filter (\<lambda>j. j + ctrl \<notin> set dead) [0..<length (op_args p) - ctrl];
               base = n_async p + n_sizes p
           in p\<lparr>op_operands := take base (op_operands p) @ map (\<lambda>j. op_operands p ! (base + j)) kept,
               op_args := fold erase_at (rev dead) (op_args p)\<rparr>)"

section \<open>Buffer lifetimes\<close>

text \<open>
  Operations of a block, by number; the deallocations the tracer adds name their buffer. A use of a buffer is
  the chain of operations around it, innermost first.
\<close>

datatype ir_op = IrOp nat | DeallocOf nat







fun insert_after :: "ir_op \<Rightarrow> ir_op \<Rightarrow> ir_op list \<Rightarrow> ir_op list" where
  "insert_after anchor x [] = [x]"
| "insert_after anchor x (y # ys) = (if y = anchor then y # x # ys else y # insert_after anchor x ys)"




section \<open>The interface of an isolated region\<close>

lemma rebind_other: "c \<notin> set cs \<Longrightarrow> rebind env cs vs c = env c"
  by (induction env cs vs rule: rebind.induct) auto

lemma rebind_nth:
  "distinct cs \<Longrightarrow> length vs = length cs \<Longrightarrow> k < length cs \<Longrightarrow> rebind env cs vs (cs ! k) = vs ! k"
proof (induction env cs vs arbitrary: k rule: rebind.induct)
  case (1 env c cs v vs)
  then show ?case by (cases k) (simp_all add: rebind_other del: fun_upd_apply, simp)
qed auto

lemma rebind_append:
  "length vs1 = length cs1 \<Longrightarrow> rebind (rebind env cs1 vs1) cs2 vs2 = rebind env (cs1 @ cs2) (vs1 @ vs2)"
  by (induction env cs1 vs1 rule: rebind.induct) auto

lemma rebind_same: "length vs = length cs \<Longrightarrow> map f cs = vs \<Longrightarrow> distinct cs \<Longrightarrow> c \<in> set cs \<Longrightarrow> rebind env cs vs c = f c"
  by (metis in_set_conv_nth length_map nth_map rebind_nth)

text \<open>
  The contract of threading: the cells are passed as operands in a fixed order, and inside the region each of
  them is the block argument at its operand's place, everything else being as outside.
\<close>

locale isolated_region =
  fixes cells :: "cell list"
    and ctrl :: nat
    and bnd :: "env \<Rightarrow> nat list \<Rightarrow> env"
  assumes bind_at: "distinct cells \<Longrightarrow> length args = ctrl + length cells \<Longrightarrow> k < length cells \<Longrightarrow>
      bnd env args (cells ! k) = args ! (ctrl + k)"
    and bind_other: "length args = ctrl + length cells \<Longrightarrow> c \<notin> set cells \<Longrightarrow> bnd env args c = env c"
begin

text \<open>
  When the block arguments hold the operands' values, an index expression over threaded coordinates has the
  same value inside the region as outside.
\<close>

lemma value_inside:
  assumes "distinct cells" and "length args = ctrl + length cells" and "c \<in> set cells"
    and runtime: "\<forall>k < length cells. val (args ! (ctrl + k)) = val (env (cells ! k))"
  shows "val (bnd env args c) = (val (env c) :: int)"
proof -
  obtain k where "k < length cells" "c = cells ! k" using assms(3) by (metis in_set_conv_nth)
  with assms show ?thesis by (simp add: bind_at)
qed

lemma restored:
  assumes "distinct cells" and "length args = ctrl + length cells"
    and body: "body (bnd env args) = (r, env')" and frame: "\<forall>c. c \<notin> set cells \<longrightarrow> env' c = bnd env args c"
  shows "in_region cells bnd env args body = (r, env)"
proof -
  have "rebind env' cells (map env cells) c = env c" for c
    using assms rebind_same [of "map env cells" cells env c env'] by (cases "c \<in> set cells") (auto simp: rebind_other bind_other)
  then show ?thesis using body by (auto simp: in_region_def Let_def)
qed

end

lemma herd_bind_eq:
  assumes "length args = 4 + length (herd_cells outer tensors staged rtps)"
  shows "herd_bind outer tensors staged rtps env args = rebind env (herd_cells outer tensors staged rtps) (drop 4 args)"
proof -
  let ?i = "drop 4 args"
  have l: "length ?i = length outer + length tensors + length staged + length rtps"
    using assms by (simp add: herd_cells_def)
  have "?i = take (length outer) ?i @ take (length tensors) (drop (length outer) ?i) @
      take (length staged) (drop (length outer + length tensors) ?i) @ drop (length outer + length tensors + length staged) ?i"
    by (metis append_assoc append_take_drop_id drop_drop add.commute)
  then show ?thesis
    using l by (simp add: herd_bind_def herd_cells_def Let_def rebind_append)
qed

lemma segment_bind_eq:
  assumes "length args = 2 * n + length (segment_cells outer rtps tensors)"
  shows "segment_bind n outer rtps tensors env args = rebind env (segment_cells outer rtps tensors) (drop (2 * n) args)"
proof -
  let ?i = "drop (2 * n) args"
  have l: "length ?i = length outer + length rtps + length tensors"
    using assms by (simp add: segment_cells_def)
  have "?i = take (length outer) ?i @ take (length rtps) (drop (length outer) ?i) @ drop (length outer + length rtps) ?i"
    by (metis append_assoc append_take_drop_id drop_drop add.commute)
  then show ?thesis
    using l by (simp add: segment_bind_def segment_cells_def Let_def rebind_append)
qed

interpretation herd_region: isolated_region "herd_cells outer tensors staged rtps" 4 "herd_bind outer tensors staged rtps"
  for outer tensors staged rtps
  by unfold_locales (simp_all add: herd_bind_eq rebind_nth rebind_other)

interpretation segment_region: isolated_region "segment_cells outer rtps tensors" "2 * n" "segment_bind n outer rtps tensors"
  for n outer rtps tensors
  by unfold_locales (simp_all add: segment_bind_eq rebind_nth rebind_other)

interpretation launch_region: isolated_region "map CTensor tensors" "2 * n" "\<lambda>env args. fst (launch_bind n tensors env args)"
  for n tensors
proof (unfold_locales, goal_cases)
  case (1 args k env)
  then show ?case
    using rebind_nth [of "map CTensor tensors" "drop (2 * n) args" k env] by (simp add: launch_bind_def Let_def)
next
  case (2 args c env)
  then show ?case by (simp add: launch_bind_def Let_def rebind_other)
qed

section \<open>Pruning keeps what the body uses\<close>

lemma erase_at_append [simp]: "erase_at (length as) (as @ b # bs) = as @ bs"
  by (simp add: erase_at_def)

lemma fold_erase:
  "fold erase_at (rev (filter (\<lambda>i. \<not> used ((as @ bs) ! i)) [length as..<length (as @ bs)])) (as @ bs) = as @ filter used bs"
proof (induction bs arbitrary: as)
  case (Cons b bs)
  have up: "[length as..<length (as @ b # bs)] = length as # [length (as @ [b])..<length ((as @ [b]) @ bs)]"
    by (subst upt_conv_Cons) (simp_all del: upt_Suc)
  let ?idx = "[length (as @ [b])..<length ((as @ [b]) @ bs)]" and ?P = "\<lambda>i. \<not> used ((as @ b # bs) ! i)"
  have IH: "fold erase_at (rev (filter ?P ?idx)) (as @ b # bs) = as @ b # filter used bs"
    using Cons.IH [of "as @ [b]"] by (simp only: append.assoc append_Cons append_Nil)
  have "filter ?P (length as # ?idx) = (if used b then [] else [length as]) @ filter ?P ?idx"
    by (simp del: upt_Suc)
  then show ?case
    unfolding up using IH by (cases "used b") (simp_all del: upt_Suc)
qed simp

lemma kept_operands:
  "length vs = length as \<Longrightarrow>
     map ((!) vs) (filter (\<lambda>j. used (as ! j)) [0..<length as]) = map snd (filter (\<lambda>x. used (fst x)) (zip as vs))"
proof -
  assume len: "length vs = length as"
  then have "zip as vs = map (\<lambda>j. (as ! j, vs ! j)) [0..<length as]"
    by (intro nth_equalityI) auto
  then show ?thesis by (simp add: filter_map comp_def)
qed

definition wf_hier :: "'a hier_op \<Rightarrow> bool" where
  "wf_hier p \<longleftrightarrow> 2 * n_sizes p \<le> length (op_args p) \<and>
     length (op_operands p) = n_async p + n_sizes p + (length (op_args p) - 2 * n_sizes p)"

abbreviation op_pairs :: "'a hier_op \<Rightarrow> ('a \<times> nat) list" where
  "op_pairs p \<equiv> zip (drop (2 * n_sizes p) (op_args p)) (drop (n_async p + n_sizes p) (op_operands p))"

lemma prune_spec:
  assumes wf: "wf_hier p"
  shows "let q = prune_unused_operands used p in
    op_args q = take (2 * n_sizes p) (op_args p) @ filter used (drop (2 * n_sizes p) (op_args p)) \<and>
    op_operands q = take (n_async p + n_sizes p) (op_operands p) @ map snd (filter (\<lambda>x. used (fst x)) (op_pairs p)) \<and>
    n_sizes q = n_sizes p \<and> n_async q = n_async p"
proof -
  let ?c = "2 * n_sizes p" and ?b = "n_async p + n_sizes p"
  let ?as = "drop ?c (op_args p)" and ?vs = "drop ?b (op_operands p)"
  let ?dead = "filter (\<lambda>i. \<not> used (op_args p ! i)) [?c..<length (op_args p)]"
  have len: "length ?vs = length ?as" "?c \<le> length (op_args p)" using wf by (auto simp: wf_hier_def)
  have args: "fold erase_at (rev ?dead) (op_args p) = take ?c (op_args p) @ filter used ?as"
    using fold_erase [of used "take ?c (op_args p)" ?as] len(2) by (simp add: min_absorb2)
  have "filter (\<lambda>j. j + ?c \<notin> set ?dead) [0..<length (op_args p) - ?c] = filter (\<lambda>j. used (?as ! j)) [0..<length ?as]"
    using len(2) by (intro filter_cong) (auto simp: add.commute)
  note kept = this
  have ops: "map (\<lambda>j. op_operands p ! (?b + j)) (filter (\<lambda>j. j + ?c \<notin> set ?dead) [0..<length (op_args p) - ?c])
      = map snd (filter (\<lambda>x. used (fst x)) (zip ?as ?vs))"
  proof -
    have "?b \<le> length (op_operands p)" using wf unfolding wf_hier_def by linarith
    then have "(!) ?vs = (\<lambda>j. op_operands p ! (?b + j))" by (intro ext) (simp add: nth_drop)
    with kept kept_operands [OF len(1), of used] show ?thesis by simp
  qed
  have "?dead = [] \<Longrightarrow> filter used ?as = ?as \<and> filter (\<lambda>x. used (fst x)) (zip ?as ?vs) = zip ?as ?vs"
  proof -
    assume "?dead = []"
    then have "used (op_args p ! i)" if "?c \<le> i" "i < length (op_args p)" for i
      using that by (auto simp: filter_empty_conv)
    then have "\<forall>a \<in> set ?as. used a" by (auto simp: in_set_conv_nth)
    then show ?thesis by (auto simp: filter_id_conv dest: set_zip_leftD)
  qed
  with args ops len(1) show ?thesis
    by (cases "?dead = []") (auto simp: prune_unused_operands_def Let_def)
qed

section \<open>Deallocations come after the last use\<close>

definition precedes :: "'a list \<Rightarrow> 'a \<Rightarrow> 'a \<Rightarrow> bool" where
  "precedes xs x y \<longleftrightarrow> (\<exists>as bs cs. xs = as @ x # bs @ y # cs)"

lemma precedes_Cons [simp]: "precedes (z # zs) x y \<longleftrightarrow> (z = x \<and> y \<in> set zs) \<or> precedes zs x y"
proof
  assume "precedes (z # zs) x y"
  then obtain as bs cs where "z # zs = as @ x # bs @ y # cs" by (auto simp: precedes_def)
  then show "(z = x \<and> y \<in> set zs) \<or> precedes zs x y"
    by (cases as) (auto simp: precedes_def)
next
  assume "(z = x \<and> y \<in> set zs) \<or> precedes zs x y"
  then show "precedes (z # zs) x y"
  proof
    assume "z = x \<and> y \<in> set zs"
    then obtain bs cs where "zs = bs @ y # cs" by (meson split_list)
    with \<open>z = x \<and> y \<in> set zs\<close> have "z # zs = [] @ x # bs @ y # cs" by simp
    then show ?thesis unfolding precedes_def by blast
  next
    assume "precedes zs x y"
    then obtain as bs cs where "zs = as @ x # bs @ y # cs" by (auto simp: precedes_def)
    then have "z # zs = (z # as) @ x # bs @ y # cs" by simp
    then show ?thesis unfolding precedes_def by blast
  qed
qed

lemma precedes_Nil [simp]: "\<not> precedes [] x y"
  by (simp add: precedes_def)



lemma set_insert_after [simp]: "set (insert_after a x ys) = insert x (set ys)"
  by (induction a x ys rule: insert_after.induct) auto















section \<open>Properties\<close>

text \<open>
  An isolated region sees what it was passed. Inside a herd every coordinate, tensor, staged buffer and
  runtime parameter resolves to the block argument at the position of the operand that carries its outer
  value, in the order the operands were built; so when the block arguments hold the operands' values nothing
  changes its value by crossing the boundary, and the outer values are restored afterwards.
\<close>

theorem herd_threads_operands:
  assumes "distinct (herd_cells outer tensors staged rtps)"
    and "length args = 4 + length (herd_cells outer tensors staged rtps)"
  shows "herd_operands env outer tensors staged rtps = map env (herd_cells outer tensors staged rtps) \<and>
    (\<forall>k < length (herd_cells outer tensors staged rtps).
       herd_bind outer tensors staged rtps env args (herd_cells outer tensors staged rtps ! k) = args ! (4 + k)) \<and>
    (\<forall>val. (\<forall>k < length (herd_cells outer tensors staged rtps).
              val (args ! (4 + k)) = val (herd_operands env outer tensors staged rtps ! k)) \<longrightarrow>
       (\<forall>c \<in> set (herd_cells outer tensors staged rtps).
          (val (herd_bind outer tensors staged rtps env args c) :: int) = val (env c))) \<and>
    (\<forall>body r env'. body (herd_bind outer tensors staged rtps env args) = (r :: 'r, env') \<and>
         (\<forall>c. c \<notin> set (herd_cells outer tensors staged rtps) \<longrightarrow> env' c = env c) \<longrightarrow>
       in_region (herd_cells outer tensors staged rtps) (herd_bind outer tensors staged rtps) env args body = (r, env))"
proof -
  let ?cs = "herd_cells outer tensors staged rtps"
  have ops: "herd_operands env outer tensors staged rtps = map env ?cs"
    by (simp add: herd_operands_def herd_cells_def)
  show ?thesis
  proof (intro conjI allI impI ballI)
    fix val :: "nat \<Rightarrow> int" and c
    assume "\<forall>k < length ?cs. val (args ! (4 + k)) = val (herd_operands env outer tensors staged rtps ! k)" "c \<in> set ?cs"
    then show "val (herd_bind outer tensors staged rtps env args c) = val (env c)"
      using herd_region.value_inside [OF assms] by (simp add: ops)
  next
    fix body r env' assume "body (herd_bind outer tensors staged rtps env args) = (r :: 'r, env') \<and>
      (\<forall>c. c \<notin> set ?cs \<longrightarrow> env' c = env c)"
    then show "in_region ?cs (herd_bind outer tensors staged rtps) env args body = (r, env)"
      using assms herd_region.bind_other by (intro herd_region.restored) auto
  qed (use ops assms herd_region.bind_at in auto)
qed

theorem herd_threads_operands_witness:
  "herd_bind [0] [0, 1] [7] [] (\<lambda>_. 0) [90, 91, 92, 93, 10, 11, 12, 13] (CTensor 1) = 12"
proof -
  have "distinct (herd_cells [0] [0, 1] [7] [])" by (simp add: herd_cells_def)
  moreover have "length [90, 91, 92, 93, 10, 11, 12, 13 :: nat] = 4 + length (herd_cells [0] [0, 1] [7] [])"
    by (simp add: herd_cells_def)
  ultimately have "\<forall>k < length (herd_cells [0] [0, 1] [7] []).
      herd_bind [0] [0, 1] [7] [] (\<lambda>_. 0) [90, 91, 92, 93, 10, 11, 12, 13] (herd_cells [0] [0, 1] [7] [] ! k)
        = [90, 91, 92, 93, 10, 11, 12, 13] ! (4 + k)"
    using herd_threads_operands [where 'r = unit] by blast
  from this [rule_format, of 2] show ?thesis by (simp add: herd_cells_def)
qed

text \<open>
  Pruning drops exactly the unused operands. The remaining kernel operands are those whose block argument
  has a use, in order and still paired with the same argument; the control part of the op is untouched.
\<close>

theorem prune_keeps_live_pairs:
  assumes "wf_hier p"
  shows "let q = prune_unused_operands used p in
    wf_hier q \<and> op_pairs q = filter (\<lambda>x. used (fst x)) (op_pairs p) \<and>
    take (2 * n_sizes q) (op_args q) = take (2 * n_sizes p) (op_args p) \<and>
    take (n_async q + n_sizes q) (op_operands q) = take (n_async p + n_sizes p) (op_operands p) \<and>
    (\<forall>a \<in> set (drop (2 * n_sizes q) (op_args q)). used a)"
proof -
  let ?q = "prune_unused_operands used p" and ?c = "2 * n_sizes p" and ?b = "n_async p + n_sizes p"
  note sp = prune_spec [OF assms, of used, unfolded Let_def]
  have le: "?c \<le> length (op_args p)" "?b \<le> length (op_operands p)"
    "length (drop ?c (op_args p)) = length (drop ?b (op_operands p))"
    using assms unfolding wf_hier_def by auto
  have z: "zip (filter used xs) (map snd (filter (\<lambda>x. used (fst x)) (zip xs ys))) = filter (\<lambda>x. used (fst x)) (zip xs ys)"
    if "length xs = length ys" for xs :: "'a list" and ys :: "nat list"
    using that by (induction xs ys rule: list_induct2) auto
  have len: "length (filter (\<lambda>x. used (fst x)) (zip xs ys)) = length (filter used xs)"
    if "length xs = length ys" for xs :: "'a list" and ys :: "nat list"
    using that by (induction xs ys rule: list_induct2) auto
  let ?as = "take ?c (op_args p)" and ?os = "take ?b (op_operands p)"
  have l: "length ?as = ?c" "length ?os = ?b" using le by simp_all
  have args: "op_args ?q = ?as @ filter used (drop ?c (op_args p))"
    and ops: "op_operands ?q = ?os @ map snd (filter (\<lambda>x. used (fst x)) (op_pairs p))"
    and n: "n_sizes ?q = n_sizes p" "n_async ?q = n_async p" using sp by blast+
  have parts: "take ?c (op_args ?q) = ?as" "drop ?c (op_args ?q) = filter used (drop ?c (op_args p))"
    "take ?b (op_operands ?q) = ?os" "drop ?b (op_operands ?q) = map snd (filter (\<lambda>x. used (fst x)) (op_pairs p))"
    unfolding args ops using l by simp_all
  have "length (op_args ?q) = ?c + length (filter used (drop ?c (op_args p)))"
    "length (op_operands ?q) = ?b + length (filter used (drop ?c (op_args p)))"
    unfolding args ops using l len [OF le(3)] by simp_all
  then have "wf_hier ?q" by (simp add: wf_hier_def n)
  with parts z [OF le(3)] show ?thesis by (simp add: Let_def n)
qed

theorem prune_keeps_live_pairs_witness:
  "let q = prune_unused_operands (\<lambda>a. a \<noteq> 5) \<lparr>n_async = 1, n_sizes = 1, op_operands = [70, 71, 80, 81, 82], op_args = [1, 2, 4, 5, 6 :: nat]\<rparr>
   in op_pairs q = [(4, 80), (6, 82)]"
proof -
  let ?p = "\<lparr>n_async = 1, n_sizes = 1, op_operands = [70, 71, 80, 81, 82], op_args = [1, 2, 4, 5, 6 :: nat]\<rparr>"
  have "wf_hier ?p"
    by (simp add: wf_hier_def)
  from prune_keeps_live_pairs [OF this, of "\<lambda>a. a \<noteq> 5"]
  have "op_pairs (prune_unused_operands (\<lambda>a. a \<noteq> 5) ?p) = filter (\<lambda>x. fst x \<noteq> 5) (op_pairs ?p)"
    unfolding Let_def by blast
  also have "filter (\<lambda>x. fst x \<noteq> 5) (op_pairs ?p) = [(4, 80), (6, 82)]" by simp
  finally show ?thesis unfolding Let_def .
qed








end
