(* ===== verification/Control.thy ===== *)
theory Control
  imports Index_Expr Budget
begin

text \<open>
  Loops, conditions, branches and switches: \<^verbatim>\<open>src/python/air/api/_loop.py\<close> and
  \<^verbatim>\<open>src/python/air/api/_cond.py\<close>. Loop constructors become loop plans (what \<open>scf.for\<close> or
  \<open>scf.forall\<close> is emitted with); branch and switch regions become operations on the tracer's arm path,
  composed over a small statement language as the \<open>with\<close> blocks compose them.
\<close>

section \<open>Loop bounds\<close>

text \<open>\<open>_as_bound\<close>: an integer or a symbol; an index expression has no \<open>__index__\<close>.\<close>

fun as_bound :: "index_like \<Rightarrow> int res" where
  "as_bound (VInt k) = Inr k"
| "as_bound (VSymbol k) = Inr k"
| "as_bound _ = Inl TypeError"

text \<open>\<open>_runtime\<close> values (switches, runtime parameters, raw SSA indices) are coerced first.\<close>

fun coerce_runtime :: "index_like \<Rightarrow> index_like res" where
  "coerce_runtime (VRuntime e) = Inr (VIndex e)"
| "coerce_runtime (VSSA i c sp) = res_bind (coerce_index (VSSA i c sp)) (\<lambda>e. Inr (VIndex e))"
| "coerce_runtime v = Inr v"

text \<open>\<open>any(leaf.spatial for leaf in stop.terms)\<close>: a derived leaf has no such slot.\<close>

fun any_spatial :: "leaf list \<Rightarrow> bool res" where
  "any_spatial [] = Inr False"
| "any_spatial (Leaf i n sp # ls) = (if sp then Inr True else any_spatial ls)"
| "any_spatial (DerivedLeaf kd e k # ls) = Inl AttributeError"

datatype loop_plan =
    StaticFor int int int
  | DynamicFor int index_expr int

definition check_static :: "int \<Rightarrow> int \<Rightarrow> int \<Rightarrow> unit res" where
  "check_static lo hi st =
     (if st \<le> 0 then Inl ValueError
      else if hi < lo then Inl ValueError
      else if (hi - lo) mod st \<noteq> 0 then Inl ValueError
      else Inr ())"

text \<open>\<open>stop\<close> folds to an integer when it is a constant expression.\<close>

definition fold_stop :: "index_like \<Rightarrow> index_like" where
  "fold_stop stop = (case stop of
      VIndex e \<Rightarrow> (case as_const e of Some k \<Rightarrow> VInt k | None \<Rightarrow> VIndex e)
    | v \<Rightarrow> v)"

definition plan_loop :: "index_like \<Rightarrow> index_like \<Rightarrow> index_like \<Rightarrow> loop_plan res" where
  "plan_loop start stop step =
     (case stop of
        VIndex e \<Rightarrow>
          res_bind (any_spatial (map fst (terms e))) (\<lambda>spatial.
            if spatial then Inl TypeError
            else
              res_bind (as_bound start) (\<lambda>lo. res_bind (as_bound step) (\<lambda>st.
                if st \<le> 0 then Inl ValueError else Inr (DynamicFor lo e st))))
      | _ \<Rightarrow>
          res_bind (as_bound start) (\<lambda>lo. res_bind (as_bound stop) (\<lambda>hi. res_bind (as_bound step) (\<lambda>st.
            res_bind (check_static lo hi st) (\<lambda>_. Inr (StaticFor lo hi st))))))"

definition sequential :: "index_like \<Rightarrow> index_like option \<Rightarrow> index_like option \<Rightarrow> loop_plan res" where
  "sequential start stop step =
     res_bind (coerce_runtime (case stop of None \<Rightarrow> VInt 0 | Some s \<Rightarrow> start)) (\<lambda>lo.
     res_bind (coerce_runtime (case stop of None \<Rightarrow> start | Some s \<Rightarrow> s)) (\<lambda>hi.
     res_bind (coerce_runtime (case step of None \<Rightarrow> VInt 1 | Some s \<Rightarrow> s)) (\<lambda>st.
       plan_loop lo (fold_stop hi) st)))"

text \<open>
  \<open>air.parallel\<close>: one \<open>scf.forall\<close>, with one axis from bounds or one per range of a grid. A grid entry
  is a range or is not.
\<close>

datatype parallel_arg = ParBound index_like | ParGrid "py_range option list"

definition grid_axis :: "py_range option \<Rightarrow> (int \<times> int \<times> int) res" where
  "grid_axis r =
     (case r of
        None \<Rightarrow> Inl TypeError
      | Some r \<Rightarrow>
          if r_step r \<le> 0 \<or> r_stop r < r_start r \<or> (r_stop r - r_start r) mod r_step r \<noteq> 0 then Inl ValueError
          else Inr (r_start r, r_stop r, r_step r))"

definition parallel :: "parallel_arg \<Rightarrow> index_like option \<Rightarrow> index_like option \<Rightarrow> (int \<times> int \<times> int) list res" where
  "parallel start stop step =
     (case start of
        ParGrid rs \<Rightarrow> if stop \<noteq> None \<or> step \<noteq> None then Inl TypeError else map_res grid_axis rs
      | ParBound b \<Rightarrow>
          let (lo, hi) = (case stop of None \<Rightarrow> (VInt 0, b) | Some s \<Rightarrow> (b, s));
              st = (case step of None \<Rightarrow> VInt 1 | Some s \<Rightarrow> s) in
          res_bind (as_bound lo) (\<lambda>lo. res_bind (as_bound hi) (\<lambda>hi. res_bind (as_bound st) (\<lambda>st.
            res_bind (check_static lo hi st) (\<lambda>_. Inr [(lo, hi, st)])))))"

text \<open>The values the induction variable of \<open>scf.for\<close> takes.\<close>

definition trips :: "int \<Rightarrow> int \<Rightarrow> int \<Rightarrow> int list" where
  "trips lo hi st = map (\<lambda>i. lo + int i * st) [0..<nat ((hi - lo + st - 1) div st)]"

section \<open>Conditions\<close>

datatype predicate = PEq | PNe | PSlt | PSle | PSgt | PSge

record condition =
  c_lhs :: index_expr
  c_rhs :: index_expr
  c_pred :: predicate

text \<open>
  \<open>IndexExpr._compare\<close>: a bool raises; what does not coerce defers to Python (\<open>NotImplemented\<close>, here
  \<open>None\<close>).
\<close>

definition index_compare :: "index_expr \<Rightarrow> index_like \<Rightarrow> predicate \<Rightarrow> condition option res" where
  "index_compare e other p =
     (case other of
        VBool b \<Rightarrow> Inl TypeError
      | _ \<Rightarrow> (case coerce_index other of
                Inl _ \<Rightarrow> Inr None
              | Inr e' \<Rightarrow> Inr (Some \<lparr>c_lhs = e, c_rhs = e', c_pred = p\<rparr>)))"

text \<open>\<open>Condition.materialize\<close>: the predicate of the emitted \<open>arith.cmpi\<close> on the two operands.\<close>

fun cmpi :: "predicate \<Rightarrow> int \<Rightarrow> int \<Rightarrow> bool" where
  "cmpi PEq a b = (a = b)"
| "cmpi PNe a b = (a \<noteq> b)"
| "cmpi PSlt a b = (a < b)"
| "cmpi PSle a b = (a \<le> b)"
| "cmpi PSgt a b = (a > b)"
| "cmpi PSge a b = (a \<ge> b)"

definition cond_holds :: "(nat \<Rightarrow> int) \<Rightarrow> condition \<Rightarrow> bool" where
  "cond_holds \<rho> c = cmpi (c_pred c) (eval_index \<rho> (c_lhs c)) (eval_index \<rho> (c_rhs c))"

text \<open>
  What opens a region: \<open>scf.if\<close> on a condition, or \<open>scf.index_switch\<close> with the single case 0 on a condition
  turned into \<open>select(pred, 1, 0)\<close> or on an index.
\<close>

datatype region_key = IfKey condition | SwitchCond condition | SwitchIndex index_expr

fun switch_operand :: "(nat \<Rightarrow> int) \<Rightarrow> region_key \<Rightarrow> int" where
  "switch_operand \<rho> (IfKey c) = (if cond_holds \<rho> c then 1 else 0)"
| "switch_operand \<rho> (SwitchCond c) = (if cond_holds \<rho> c then 1 else 0)"
| "switch_operand \<rho> (SwitchIndex e) = eval_index \<rho> e"

text \<open>Arm 0 is the \<open>with\<close> body (then block, default region); arm 1 is \<open>otherwise()\<close> (else block, case 0).\<close>

definition arm_run :: "(nat \<Rightarrow> int) \<Rightarrow> region_key \<Rightarrow> nat" where
  "arm_run \<rho> key = (if switch_operand \<rho> key = 0 then 1 else 0)"

section \<open>Branch regions\<close>

text \<open>A \<open>Branch\<close> or \<open>SwitchRegion\<close> object: whether it was entered, its body is open, \<open>otherwise\<close> was taken.\<close>

record branch_obj =
  br_entered :: bool
  br_open :: bool
  br_otherwise :: bool

record cond_state =
  cs_path :: arm_path
  cs_branches :: "nat \<Rightarrow> branch_obj"
  cs_aborted :: "string list"

definition new_branch :: branch_obj where
  "new_branch = \<lparr>br_entered = False, br_open = False, br_otherwise = False\<rparr>"

definition branch_enter :: "nat \<Rightarrow> cond_state \<Rightarrow> cond_state res" where
  "branch_enter b s =
     (if br_entered (cs_branches s b) then Inl RuntimeError
      else Inr (s\<lparr>cs_path := cs_path s @ [(b, 0)],
                  cs_branches := (cs_branches s)(b := (cs_branches s b)\<lparr>br_entered := True, br_open := True\<rparr>)\<rparr>))"

definition exit_region :: "bool \<Rightarrow> string \<Rightarrow> cond_state \<Rightarrow> cond_state" where
  "exit_region aborted what s = (if aborted then s\<lparr>cs_aborted := cs_aborted s @ [what]\<rparr> else s)"

definition branch_exit :: "nat \<Rightarrow> bool \<Rightarrow> string \<Rightarrow> cond_state \<Rightarrow> cond_state" where
  "branch_exit b aborted what s =
     exit_region aborted what
       (s\<lparr>cs_path := butlast (cs_path s),
          cs_branches := (cs_branches s)(b := (cs_branches s b)\<lparr>br_open := False\<rparr>)\<rparr>)"

definition otherwise :: "nat \<Rightarrow> cond_state \<Rightarrow> cond_state res" where
  "otherwise b s =
     (if \<not> br_entered (cs_branches s b) then Inl RuntimeError
      else if br_open (cs_branches s b) then Inl RuntimeError
      else if br_otherwise (cs_branches s b) then Inl RuntimeError
      else Inr (s\<lparr>cs_branches := (cs_branches s)(b := (cs_branches s b)\<lparr>br_otherwise := True\<rparr>)\<rparr>))"

definition else_enter :: "nat \<Rightarrow> cond_state \<Rightarrow> cond_state" where
  "else_enter b s = s\<lparr>cs_path := cs_path s @ [(b, 1)]\<rparr>"

definition else_exit :: "nat \<Rightarrow> bool \<Rightarrow> string \<Rightarrow> cond_state \<Rightarrow> cond_state" where
  "else_exit b aborted what s = exit_region aborted what (s\<lparr>cs_path := butlast (cs_path s)\<rparr>)"

text \<open>
  A body as the tracer sees it: allocations of a number of bytes, and \<open>with\<close> blocks over a branch object
  with an optional \<open>otherwise\<close> block. Tracing records each allocation with the arm path it is stamped with.
\<close>

datatype stmt =
    AllocS int
  | WithS nat region_key "stmt list" "stmt list option"

fun trace_stmt :: "stmt \<Rightarrow> cond_state \<Rightarrow> (cond_state \<times> (arm_path \<times> int) list) res"
and trace_block :: "stmt list \<Rightarrow> cond_state \<Rightarrow> (cond_state \<times> (arm_path \<times> int) list) res" where
  "trace_stmt (AllocS n) s = Inr (s, [(cs_path s, n)])"
| "trace_stmt (WithS b key body other) s =
     res_bind (branch_enter b s) (\<lambda>s1.
     res_bind (trace_block body s1) (\<lambda>(s2, es).
     let s3 = branch_exit b False ''ops.branch'' s2 in
     (case other of
        None \<Rightarrow> Inr (s3, es)
      | Some ob \<Rightarrow>
          res_bind (otherwise b s3) (\<lambda>s4.
          res_bind (trace_block ob (else_enter b s4)) (\<lambda>(s5, es').
            Inr (else_exit b False ''ops.branch'' s5, es @ es'))))))"
| "trace_block [] s = Inr (s, [])"
| "trace_block (c # cs) s =
     res_bind (trace_stmt c s) (\<lambda>(s1, es).
     res_bind (trace_block cs s1) (\<lambda>(s2, es'). Inr (s2, es @ es')))"

text \<open>The bytes one core allocates when it runs the body with the given values of the coordinates.\<close>

fun run_stmt :: "(nat \<Rightarrow> int) \<Rightarrow> stmt \<Rightarrow> int"
and run_block :: "(nat \<Rightarrow> int) \<Rightarrow> stmt list \<Rightarrow> int" where
  "run_stmt \<rho> (AllocS n) = n"
| "run_stmt \<rho> (WithS b key body other) =
     (if arm_run \<rho> key = 0 then run_block \<rho> body
      else (case other of None \<Rightarrow> 0 | Some ob \<Rightarrow> run_block \<rho> ob))"
| "run_block \<rho> [] = 0"
| "run_block \<rho> (c # cs) = run_stmt \<rho> c + run_block \<rho> cs"

section \<open>Loops cover their range\<close>

lemma check_static_iff:
  "check_static lo hi st = Inr () \<longleftrightarrow> 0 < st \<and> lo \<le> hi \<and> (hi - lo) mod st = 0"
  by (auto simp: check_static_def)

lemma upto_windows:
  fixes lo st :: int
  assumes "0 < st"
  shows "concat (map (\<lambda>i. [lo + int i * st..lo + int i * st + st - 1]) [0..<n]) = [lo..lo + int n * st - 1]"
proof (induction n)
  case (Suc n)
  have "[lo..lo + int n * st - 1] @ [lo + int n * st..lo + int n * st + st - 1] = [lo..lo + int n * st + st - 1]"
    using assms upto_split1 [of lo "lo + int n * st" "lo + int n * st + st - 1"]
    by (simp add: upto_split2 mult_nonneg_nonneg)
  with Suc show ?case by (simp add: algebra_simps)
qed (simp add: upto_empty)

text \<open>The windows of step width that the trips start are the range, cut in pieces, in order.\<close>

lemma trips_cover:
  assumes "check_static lo hi st = Inr ()"
  shows "concat (map (\<lambda>iv. [iv..iv + st - 1]) (trips lo hi st)) = [lo..hi - 1]"
proof -
  have st: "0 < st" and le: "lo \<le> hi" and dv: "st dvd hi - lo"
    using assms by (auto simp: check_static_iff mod_eq_0_iff_dvd)
  obtain k where k: "hi - lo = st * k" using dv by blast
  have "(st * k + st - 1) div st = k"
    using st by (intro int_div_pos_eq [of _ _ _ "st - 1"]) auto
  then have n: "(hi - lo + st - 1) div st = k" by (simp add: k)
  have "0 \<le> k" using k le st by (metis diff_ge_0_iff_ge zero_le_mult_iff not_less)
  then have "lo + int (nat k) * st = hi" using k by (simp add: mult.commute)
  then show ?thesis
    using upto_windows [OF st, of lo "nat k"] by (simp add: trips_def n comp_def)
qed

lemma any_spatial_False:
  "any_spatial ls = Inr False \<Longrightarrow> \<forall>l \<in> set ls. \<exists>i n. l = Leaf i n False"
  by (induction ls rule: any_spatial.induct) (auto split: if_splits)

lemma plan_static: "plan_loop start stop step = Inr (StaticFor lo hi st) \<Longrightarrow> check_static lo hi st = Inr ()"
  by (cases stop) (auto simp: plan_loop_def res_bind_Inr_iff split: if_splits)

lemma plan_dynamic:
  "plan_loop start stop step = Inr (DynamicFor lo e st) \<Longrightarrow> any_spatial (map fst (terms e)) = Inr False \<and> 0 < st"
  by (cases stop) (auto simp: plan_loop_def res_bind_Inr_iff split: if_splits)

lemma sequential_static:
  "sequential start stop step = Inr (StaticFor lo hi st) \<Longrightarrow> check_static lo hi st = Inr ()"
  unfolding sequential_def res_bind_Inr_iff using plan_static by blast

lemma sequential_dynamic:
  "sequential start stop step = Inr (DynamicFor lo e st) \<Longrightarrow>
     0 < st \<and> (\<forall>l \<in> set (map fst (terms e)). \<exists>i n. l = Leaf i n False)"
  unfolding sequential_def res_bind_Inr_iff using plan_dynamic any_spatial_False by blast

lemma uniform_eval:
  assumes "\<forall>l \<in> set (map fst (terms e)). \<exists>i n. l = Leaf i n False"
    and "\<forall>i n. Leaf i n False \<in> set (map fst (terms e)) \<longrightarrow> \<rho> i = \<rho>' i"
  shows "eval_index \<rho> e = eval_index \<rho>' e"
proof -
  have "eval_leaf \<rho> l = eval_leaf \<rho>' l" if "(l, a) \<in> set (terms e)" for l a
  proof -
    have "l \<in> set (map fst (terms e))" using that by force
    with assms show ?thesis by fastforce
  qed
  then have "eval_terms \<rho> (terms e) = eval_terms \<rho>' (terms e)"
    by (intro arg_cong [of _ _ sum_list] map_cong refl) auto
  then show ?thesis by (simp add: eval_index_eq)
qed

section \<open>The arm paths of a trace are what executes\<close>

fun stmt_keys :: "stmt \<Rightarrow> (nat \<times> region_key) list"
and block_keys :: "stmt list \<Rightarrow> (nat \<times> region_key) list" where
  "stmt_keys (AllocS n) = []"
| "stmt_keys (WithS b key body other) =
     (b, key) # block_keys body @ (case other of None \<Rightarrow> [] | Some ob \<Rightarrow> block_keys ob)"
| "block_keys [] = []"
| "block_keys (c # cs) = stmt_keys c @ block_keys cs"

text \<open>Bytes of the entries all of whose steps a fixed choice of arms makes.\<close>

definition chosen :: "(nat \<Rightarrow> nat) \<Rightarrow> arm_path \<Rightarrow> bool" where
  "chosen f p = (\<forall>(b, a) \<in> set p. f b = a)"

lemma taken_chosen: "taken (\<lambda>q. f) p = chosen f p"
  by (induction p) (auto simp: chosen_def)

abbreviation chosen_bytes :: "(nat \<Rightarrow> nat) \<Rightarrow> (arm_path \<times> int) list \<Rightarrow> int" where
  "chosen_bytes f es \<equiv> (\<Sum>(p, n)\<leftarrow>es. if chosen f p then n else 0)"

lemma execution_bytes_chosen: "execution_bytes (\<lambda>q. f) es = chosen_bytes f es"
  by (simp add: execution_bytes_def taken_chosen)

lemma chosen_snoc [simp]: "chosen f (p @ [(b, a)]) = (chosen f p \<and> f b = a)"
  by (auto simp: chosen_def)

definition trace_ok :: "(nat \<Rightarrow> int) \<Rightarrow> (nat \<times> region_key) list \<Rightarrow> int \<Rightarrow> cond_state \<Rightarrow>
    (cond_state \<times> (arm_path \<times> int) list) res \<Rightarrow> bool" where
  "trace_ok \<rho> keys tot s r \<longleftrightarrow> (\<exists>s' es. r = Inr (s', es) \<and> cs_path s' = cs_path s \<and> cs_aborted s' = cs_aborted s \<and>
     (\<forall>b. b \<notin> fst ` set keys \<longrightarrow> cs_branches s' b = cs_branches s b) \<and>
     (\<forall>f. (\<forall>(b, key) \<in> set keys. f b = arm_run \<rho> key) \<longrightarrow>
        chosen_bytes f es = (if chosen f (cs_path s) then tot else 0)))"

lemma trace_correct:
  "distinct (map fst (stmt_keys c)) \<Longrightarrow> \<forall>b \<in> fst ` set (stmt_keys c). cs_branches s b = new_branch \<Longrightarrow>
     trace_ok \<rho> (stmt_keys c) (run_stmt \<rho> c) s (trace_stmt c s)"
  "distinct (map fst (block_keys cs)) \<Longrightarrow> \<forall>b \<in> fst ` set (block_keys cs). cs_branches s b = new_branch \<Longrightarrow>
     trace_ok \<rho> (block_keys cs) (run_block \<rho> cs) s (trace_block cs s)"
proof (induction c and cs arbitrary: s and s rule: stmt_keys_block_keys.induct)
  case (1 n)
  then show ?case by (simp add: trace_ok_def)
next
  case (2 b key body other)
  define s1 where "s1 = s\<lparr>cs_path := cs_path s @ [(b, 0)],
    cs_branches := (cs_branches s)(b := (cs_branches s b)\<lparr>br_entered := True, br_open := True\<rparr>)\<rparr>"
  have e: "branch_enter b s = Inr s1"
    using 2(4) by (simp add: branch_enter_def s1_def new_branch_def)
  have "trace_ok \<rho> (block_keys body) (run_block \<rho> body) s1 (trace_block body s1)"
    using 2(3,4) by (intro 2(1)) (auto simp: s1_def)
  then obtain s2 es where b2: "trace_block body s1 = Inr (s2, es)" and p2: "cs_path s2 = cs_path s1" "cs_aborted s2 = cs_aborted s1"
    and br2: "\<And>b'. b' \<notin> fst ` set (block_keys body) \<Longrightarrow> cs_branches s2 b' = cs_branches s1 b'"
    and es: "\<And>f. (\<forall>(b, key) \<in> set (block_keys body). f b = arm_run \<rho> key) \<Longrightarrow>
        chosen_bytes f es = (if chosen f (cs_path s1) then run_block \<rho> body else 0)"
    by (auto simp: trace_ok_def)
  define s3 where "s3 = branch_exit b False ''ops.branch'' s2"
  have s3: "cs_path s3 = cs_path s" "cs_aborted s3 = cs_aborted s"
    "\<And>b'. b' \<noteq> b \<Longrightarrow> cs_branches s3 b' = cs_branches s2 b'"
    "cs_branches s3 b = (cs_branches s2 b)\<lparr>br_open := False\<rparr>"
    using p2 by (auto simp: s3_def branch_exit_def exit_region_def s1_def)
  have bnot: "b \<notin> fst ` set (block_keys body)" using 2(3) by auto
  show ?case
  proof (cases other)
    case None
    then have "trace_stmt (WithS b key body other) s = Inr (s3, es)" by (simp add: e b2 s3_def Let_def)
    moreover have "cs_branches s3 b' = cs_branches s b'" if "b' \<notin> fst ` set (stmt_keys (WithS b key body other))" for b'
      using that br2 s3(3) by (auto simp: None s1_def)
    moreover have "chosen_bytes f es = (if chosen f (cs_path s) then run_stmt \<rho> (WithS b key body other) else 0)"
      if "\<forall>(b, key) \<in> set (stmt_keys (WithS b key body other)). f b = arm_run \<rho> key" for f
      using that es [of f] by (auto simp: None s1_def)
    ultimately show ?thesis using s3 unfolding trace_ok_def by blast
  next
    case (Some ob)
    define s4 where "s4 = s3\<lparr>cs_branches := (cs_branches s3)(b := (cs_branches s3 b)\<lparr>br_otherwise := True\<rparr>)\<rparr>"
    have "cs_branches s3 b = \<lparr>br_entered = True, br_open = False, br_otherwise = False\<rparr>"
      using s3(4) br2 [OF bnot] 2(4) by (simp add: s1_def new_branch_def)
    then have o4: "otherwise b s3 = Inr s4" by (simp add: otherwise_def s4_def)
    have "trace_ok \<rho> (block_keys ob) (run_block \<rho> ob) (else_enter b s4) (trace_block ob (else_enter b s4))"
    proof (rule 2(2) [OF Some])
      show "distinct (map fst (block_keys ob))" using 2(3) by (simp add: Some)
      show "\<forall>b' \<in> fst ` set (block_keys ob). cs_branches (else_enter b s4) b' = new_branch"
      proof
        fix b' assume b': "b' \<in> fst ` set (block_keys ob)"
        then have "b' \<noteq> b" "b' \<notin> fst ` set (block_keys body)" "cs_branches s b' = new_branch"
          using 2(3,4) by (auto simp: Some)
        then show "cs_branches (else_enter b s4) b' = new_branch"
          using br2 s3(3) by (simp add: else_enter_def s4_def s1_def)
      qed
    qed
    then obtain s5 es' where b5: "trace_block ob (else_enter b s4) = Inr (s5, es')"
      and p5: "cs_path s5 = cs_path (else_enter b s4)" "cs_aborted s5 = cs_aborted (else_enter b s4)"
      and br5: "\<And>b'. b' \<notin> fst ` set (block_keys ob) \<Longrightarrow> cs_branches s5 b' = cs_branches (else_enter b s4) b'"
      and es': "\<And>f. (\<forall>(b, key) \<in> set (block_keys ob). f b = arm_run \<rho> key) \<Longrightarrow>
          chosen_bytes f es' = (if chosen f (cs_path (else_enter b s4)) then run_block \<rho> ob else 0)"
      by (auto simp: trace_ok_def)
    let ?s6 = "else_exit b False ''ops.branch'' s5"
    have "trace_stmt (WithS b key body other) s = Inr (?s6, es @ es')"
      using b5 o4 by (simp add: e b2 s3_def Let_def Some)
    moreover have "cs_path ?s6 = cs_path s" "cs_aborted ?s6 = cs_aborted s"
      using p5 s3 by (simp_all add: else_exit_def exit_region_def else_enter_def s4_def)
    moreover have "cs_branches ?s6 b' = cs_branches s b'" if "b' \<notin> fst ` set (stmt_keys (WithS b key body other))" for b'
    proof -
      have "b' \<noteq> b" "b' \<notin> fst ` set (block_keys body)" "b' \<notin> fst ` set (block_keys ob)"
        using that by (simp_all add: Some image_Un)
      then show ?thesis
        using br2 br5 s3(3) by (simp add: s1_def else_exit_def exit_region_def else_enter_def s4_def)
    qed
    moreover have "chosen_bytes f (es @ es') = (if chosen f (cs_path s) then run_stmt \<rho> (WithS b key body other) else 0)"
      if "\<forall>(b, key) \<in> set (stmt_keys (WithS b key body other)). f b = arm_run \<rho> key" for f
    proof -
      have f: "f b = arm_run \<rho> key" using that by simp
      have "chosen_bytes f es = (if chosen f (cs_path s1) then run_block \<rho> body else 0)"
        "chosen_bytes f es' = (if chosen f (cs_path (else_enter b s4)) then run_block \<rho> ob else 0)"
        using that es [of f] es' [of f] by (auto simp: Some)
      moreover have "arm_run \<rho> key = 0 \<or> arm_run \<rho> key = 1" by (simp add: arm_run_def)
      ultimately show ?thesis
        using f s3(1) by (auto simp: Some s1_def else_enter_def s4_def)
    qed
    ultimately show ?thesis unfolding trace_ok_def by blast
  qed
next
  case 3
  then show ?case by (simp add: trace_ok_def)
next
  case (4 c cs)
  have "trace_ok \<rho> (stmt_keys c) (run_stmt \<rho> c) s (trace_stmt c s)"
    using 4(3,4) by (intro 4(1)) auto
  then obtain s1 es where t1: "trace_stmt c s = Inr (s1, es)" and p1: "cs_path s1 = cs_path s" "cs_aborted s1 = cs_aborted s"
    and br1: "\<And>b. b \<notin> fst ` set (stmt_keys c) \<Longrightarrow> cs_branches s1 b = cs_branches s b"
    and es: "\<And>f. (\<forall>(b, key) \<in> set (stmt_keys c). f b = arm_run \<rho> key) \<Longrightarrow>
        chosen_bytes f es = (if chosen f (cs_path s) then run_stmt \<rho> c else 0)"
    by (auto simp: trace_ok_def)
  have "trace_ok \<rho> (block_keys cs) (run_block \<rho> cs) s1 (trace_block cs s1)"
  proof (rule 4(2))
    show "distinct (map fst (block_keys cs))" using 4(3) by simp
    show "\<forall>b \<in> fst ` set (block_keys cs). cs_branches s1 b = new_branch"
    proof
      fix b assume b: "b \<in> fst ` set (block_keys cs)"
      then have "b \<notin> fst ` set (stmt_keys c)" "cs_branches s b = new_branch" using 4(3,4) by auto
      then show "cs_branches s1 b = new_branch" by (simp add: br1)
    qed
  qed
  then obtain s2 es' where t2: "trace_block cs s1 = Inr (s2, es')" and p2: "cs_path s2 = cs_path s1" "cs_aborted s2 = cs_aborted s1"
    and br2: "\<And>b. b \<notin> fst ` set (block_keys cs) \<Longrightarrow> cs_branches s2 b = cs_branches s1 b"
    and es': "\<And>f. (\<forall>(b, key) \<in> set (block_keys cs). f b = arm_run \<rho> key) \<Longrightarrow>
        chosen_bytes f es' = (if chosen f (cs_path s1) then run_block \<rho> cs else 0)"
    by (auto simp: trace_ok_def)
  have "trace_block (c # cs) s = Inr (s2, es @ es')" by (simp add: t1 t2)
  moreover have "cs_branches s2 b = cs_branches s b" if "b \<notin> fst ` set (block_keys (c # cs))" for b
    using that br1 br2 by (auto simp: image_Un)
  moreover have "chosen_bytes f (es @ es') = (if chosen f (cs_path s) then run_block \<rho> (c # cs) else 0)"
    if "\<forall>(b, key) \<in> set (block_keys (c # cs)). f b = arm_run \<rho> key" for f
    using es [of f] es' [of f] that p1 by (auto simp: ball_Un)
  moreover have "cs_path s2 = cs_path s" "cs_aborted s2 = cs_aborted s" using p1 p2 by simp_all
  ultimately show ?case unfolding trace_ok_def by blast
qed

section \<open>Properties\<close>

text \<open>
  A loop with constant bounds covers its range exactly. When \<open>air.sequential\<close> accepts constant bounds, or
  \<open>air.parallel\<close> an axis of them, the step is positive and the windows of one step that the trips begin are
  the range, cut into pieces: no partial trip and no gap.
\<close>

theorem static_loops_tile_exactly:
  "(\<forall>start stop step lo hi st. sequential start stop step = Inr (StaticFor lo hi st) \<longrightarrow>
      0 < st \<and> concat (map (\<lambda>iv. [iv..iv + st - 1]) (trips lo hi st)) = [lo..hi - 1]) \<and>
   (\<forall>start stop step axes. parallel start stop step = Inr axes \<longrightarrow>
      (\<forall>(lo, hi, st) \<in> set axes. 0 < st \<and> concat (map (\<lambda>iv. [iv..iv + st - 1]) (trips lo hi st)) = [lo..hi - 1]))"
proof -
  have cov: "0 < st \<and> concat (map (\<lambda>iv. [iv..iv + st - 1]) (trips lo hi st)) = [lo..hi - 1]"
    if "check_static lo hi st = Inr ()" for lo hi st
    using that trips_cover by (auto simp: check_static_iff)
  have axis: "check_static lo hi st = Inr ()" if "grid_axis r = Inr (lo, hi, st)" for r lo hi st
    using that by (auto simp: grid_axis_def check_static_iff split: option.splits if_splits)
  have par: "check_static lo hi st = Inr ()"
    if p: "parallel start stop step = Inr axes" and m: "(lo, hi, st) \<in> set axes" for start stop step axes lo hi st
  proof (cases start)
    case (ParBound b)
    with p m show ?thesis
      by (auto simp: parallel_def res_bind_Inr_iff Let_def split: option.splits)
  next
    case (ParGrid rs)
    then have mr: "map_res grid_axis rs = Inr axes" using p by (simp add: parallel_def split: if_splits)
    obtain k where "k < length axes" "axes ! k = (lo, hi, st)" using m by (auto simp: in_set_conv_nth)
    then show ?thesis using axis map_res_nth [OF mr, of k] map_res_length [OF mr] by simp
  qed
  show ?thesis using cov par sequential_static by blast
qed

theorem static_loops_tile_exactly_witness:
  "sequential (VInt 0) (Some (VInt 32)) (Some (VInt 8)) = Inr (StaticFor 0 32 8) \<and>
   concat (map (\<lambda>iv. [iv..iv + 8 - 1]) (trips 0 32 8)) = [0..31]"
proof -
  have s: "sequential (VInt 0) (Some (VInt 32)) (Some (VInt 8)) = Inr (StaticFor 0 32 8)" by code_simp
  with static_loops_tile_exactly show ?thesis by fastforce
qed

text \<open>
  A runtime trip count is the same on every core. When \<open>air.sequential\<close> accepts a bound that is not a
  constant, no tile coordinate occurs in it: the bound has the same value under any two bindings that agree
  on the loop variables it is built from.
\<close>

theorem dynamic_bound_uniform:
  assumes "sequential start stop step = Inr (DynamicFor lo e st)"
  shows "0 < st \<and> (\<forall>l \<in> set (map fst (terms e)). \<exists>i n. l = Leaf i n False) \<and>
    (\<forall>\<rho> \<rho>'. (\<forall>i n. Leaf i n False \<in> set (map fst (terms e)) \<longrightarrow> \<rho> i = \<rho>' i) \<longrightarrow> eval_index \<rho> e = eval_index \<rho>' e)"
  using sequential_dynamic [OF assms] uniform_eval by blast

theorem dynamic_bound_uniform_witness:
  "sequential (VIndex (index_leaf 3 ''k'' False)) None None = Inr (DynamicFor 0 (index_leaf 3 ''k'' False) 1) \<and>
   eval_index (\<lambda>i. if i = 3 then 5 else 0) (index_leaf 3 ''k'' False) = eval_index (\<lambda>i. if i = 3 then 5 else 9) (index_leaf 3 ''k'' False)"
proof -
  have s: "sequential (VIndex (index_leaf 3 ''k'' False)) None None = Inr (DynamicFor 0 (index_leaf 3 ''k'' False) 1)"
    by (simp add: sequential_def fold_stop_def plan_loop_def as_const_def index_leaf_def mk_index_def)
  have "terms (index_leaf 3 ''k'' False) = [(Leaf 3 ''k'' False, 1)]" by (simp add: index_leaf_def mk_index_def)
  with dynamic_bound_uniform [OF s] s show ?thesis by simp
qed

text \<open>
  The tracer's arm paths describe the execution. Tracing a body of branches and switches over distinct
  region objects succeeds and restores the arm path; and whatever the coordinates hold, the bytes a core
  allocates by running the body are those whose recorded arm paths are the arms it takes, so
  they never exceed the peak that is charged.
\<close>

theorem traced_arms_bound_execution:
  assumes "distinct (map fst (block_keys body))" and "\<forall>b. cs_branches s b = new_branch" and "cs_path s = []"
  shows "\<exists>s' es. trace_block body s = Inr (s', es) \<and> cs_path s' = [] \<and> cs_aborted s' = cs_aborted s \<and>
    (\<forall>\<rho>. \<exists>ch. execution_bytes ch es = run_block \<rho> body) \<and>
    ((\<forall>(p, n) \<in> set es. 0 \<le> n) \<longrightarrow> (\<forall>\<rho>. run_block \<rho> body \<le> peak_bytes es))"
proof -
  have ok: "trace_ok \<rho> (block_keys body) (run_block \<rho> body) s (trace_block body s)" for \<rho>
    using assms by (intro trace_correct(2)) auto
  obtain s' es where t: "trace_block body s = Inr (s', es)" and st: "cs_path s' = []" "cs_aborted s' = cs_aborted s"
    using ok [of "\<lambda>_. 0"] assms(3) by (auto simp: trace_ok_def)
  have live: "\<exists>ch. execution_bytes ch es = run_block \<rho> body" for \<rho>
  proof -
    define f where "f b = arm_run \<rho> (the (map_of (block_keys body) b))" for b
    have "\<forall>(b, key) \<in> set (block_keys body). f b = arm_run \<rho> key"
      using assms(1) by (auto simp: f_def)
    then have "chosen_bytes f es = run_block \<rho> body"
      using ok [of \<rho>] t assms(3) by (auto simp: trace_ok_def chosen_def)
    then show ?thesis using execution_bytes_chosen [of f es] by metis
  qed
  then have "run_block \<rho> body \<le> peak_bytes es" if "\<forall>(p, n) \<in> set es. 0 \<le> n" for \<rho>
    using peak_bytes_upper [OF that] by metis
  with t st live show ?thesis by blast
qed

theorem traced_arms_bound_execution_witness:
  "\<exists>s' es. trace_block [AllocS 8, WithS 0 (SwitchIndex (index_leaf 0 ''tx'' True)) [AllocS 40] (Some [AllocS 24])]
       \<lparr>cs_path = [], cs_branches = (\<lambda>_. new_branch), cs_aborted = []\<rparr> = Inr (s', es) \<and>
     (\<exists>ch. execution_bytes ch es = run_block (\<lambda>_. 0) [AllocS 8, WithS 0 (SwitchIndex (index_leaf 0 ''tx'' True)) [AllocS 40] (Some [AllocS 24])]) \<and>
     run_block (\<lambda>_. 0) [AllocS 8, WithS 0 (SwitchIndex (index_leaf 0 ''tx'' True)) [AllocS 40] (Some [AllocS 24])] = 32"
proof -
  let ?body = "[AllocS 8, WithS 0 (SwitchIndex (index_leaf 0 ''tx'' True)) [AllocS 40] (Some [AllocS 24])]"
  let ?s = "\<lparr>cs_path = [], cs_branches = (\<lambda>_. new_branch), cs_aborted = []\<rparr>"
  have "distinct (map fst (block_keys ?body))" "\<forall>b. cs_branches ?s b = new_branch" "cs_path ?s = []" by simp_all
  from traced_arms_bound_execution [OF this] obtain s' es where "trace_block ?body ?s = Inr (s', es)"
    "\<forall>\<rho>. \<exists>ch. execution_bytes ch es = run_block \<rho> ?body" by blast
  moreover have "run_block (\<lambda>_. 0) ?body = 32" by (simp add: arm_run_def)
  ultimately show ?thesis by blast
qed

end
