(* ===== verification/Tile_Expr.thy ===== *)
theory Tile_Expr
  imports Views
begin

text \<open>
  Elementwise expressions over buffers: \<open>BufferExpr\<close> of \<^verbatim>\<open>src/python/air/api/_value.py\<close> and the
  constructors of \<^verbatim>\<open>src/python/air/api/ops.py\<close> that build them. Building an expression emits
  nothing; it only checks what each constructor checks. The theory models the tree, its element type,
  the coercion of operands and every constructor with its refusals, and proves what those checks buy: a
  shift count that is accepted stays below the width, and a narrowing cast is accepted only on values
  the target type holds.
\<close>

section \<open>Scalars and switches\<close>

text \<open>Python floats: a finite one is a rational number.\<close>

datatype py_float = FFin rat | FInf bool | FNan

datatype numeric = NInt int | NBool bool | NFloat py_float

fun float_is_integer :: "py_float \<Rightarrow> bool" where
  "float_is_integer (FFin q) = (snd (quotient_of q) = 1)"
| "float_is_integer _ = False"

text \<open>\<open>int(v)\<close>: truncation of a finite float, a refusal of the others.\<close>

fun py_int :: "numeric \<Rightarrow> int res" where
  "py_int (NInt k) = Inr k"
| "py_int (NBool b) = Inr (if b then 1 else 0)"
| "py_int (NFloat (FFin q)) = Inr (if 0 \<le> q then \<lfloor>q\<rfloor> else \<lceil>q\<rceil>)"
| "py_int (NFloat (FInf b)) = Inl OverflowError"
| "py_int (NFloat FNan) = Inl ValueError"

fun py_float_of :: "numeric \<Rightarrow> py_float" where
  "py_float_of (NInt k) = FFin (of_int k)"
| "py_float_of (NBool b) = FFin (if b then 1 else 0)"
| "py_float_of (NFloat x) = x"

text \<open>
  A pending \<open>ops.switch\<close>: its index and its arms, of which a callable one only serves as an index. Once
  the destination's element type is known it is a constant or an \<open>scf.index_switch\<close> over constants.
\<close>

datatype switch_arm = ArmValue numeric | ArmCall index_like

record switch_obj =
  sw_index :: index_expr
  sw_values :: "switch_arm list"

datatype switch_value = SwConst dtype numeric | SwCases dtype index_expr "numeric list"

datatype scalar =
    SNum numeric
  | SIndex index_expr
  | SSwitch switch_obj
  | SValue switch_value

section \<open>The expression tree\<close>

datatype bexpr =
    BufferE buffer_read
  | ScalarE scalar
  | UnaryE string bexpr
  | BinaryE string bexpr bexpr
  | CompareE string bexpr bexpr
  | SelectE bexpr bexpr bexpr
  | FmaE bexpr bexpr bexpr
  | CastE dtype bool bexpr
  | BitcastE dtype bexpr
  | ReduceE string bexpr

fun leaf_dtype :: "buffer_read \<Rightarrow> dtype" where
  "leaf_dtype (ReadWhole b) = b_dtype b"
| "leaf_dtype (ReadRegion v) = b_dtype (parent v)"

fun leaf_shape :: "buffer_read \<Rightarrow> int list" where
  "leaf_shape (ReadWhole b) = b_shape b"
| "leaf_shape (ReadRegion v) = slice_shape v"

definition first_some :: "'a option \<Rightarrow> 'a option \<Rightarrow> 'a option" where
  "first_some a b = (case a of None \<Rightarrow> b | Some x \<Rightarrow> Some x)"

fun element_dtype :: "bexpr \<Rightarrow> dtype option" where
  "element_dtype (BufferE l) = Some (leaf_dtype l)"
| "element_dtype (CastE d s x) = Some d"
| "element_dtype (BitcastE d x) = Some d"
| "element_dtype (ScalarE v) = None"
| "element_dtype (SelectE c a b) = first_some (element_dtype a) (element_dtype b)"
| "element_dtype (UnaryE f a) = element_dtype a"
| "element_dtype (ReduceE f a) = element_dtype a"
| "element_dtype (BinaryE f a b) = first_some (element_dtype a) (element_dtype b)"
| "element_dtype (CompareE f a b) = first_some (element_dtype a) (element_dtype b)"
| "element_dtype (FmaE a b c) = first_some (element_dtype a) (first_some (element_dtype b) (element_dtype c))"

text \<open>\<open>BufferExpr.leaves\<close>, in traversal order.\<close>

fun expr_leaves :: "bexpr \<Rightarrow> buffer_read list" where
  "expr_leaves (BufferE l) = [l]"
| "expr_leaves (ScalarE v) = []"
| "expr_leaves (UnaryE f a) = expr_leaves a"
| "expr_leaves (BinaryE f a b) = expr_leaves a @ expr_leaves b"
| "expr_leaves (CompareE f a b) = expr_leaves a @ expr_leaves b"
| "expr_leaves (SelectE c a b) = expr_leaves c @ expr_leaves a @ expr_leaves b"
| "expr_leaves (FmaE a b c) = expr_leaves a @ expr_leaves b @ expr_leaves c"
| "expr_leaves (CastE d s a) = expr_leaves a"
| "expr_leaves (BitcastE d a) = expr_leaves a"
| "expr_leaves (ReduceE f a) = expr_leaves a"

section \<open>Operands and operators\<close>

text \<open>What a caller may hand to an operator or to a function of \<open>ops\<close>.\<close>

datatype operand =
    OExpr bexpr
  | OBuffer buffer
  | OSlice buffer_slice
  | ONum numeric
  | OIndex index_expr
  | OSwitch switch_obj
  | OCondition
  | OOther

text \<open>\<open>BufferExpr.coerce\<close>.\<close>

fun coerce_expr :: "operand \<Rightarrow> bexpr res" where
  "coerce_expr (OExpr e) = Inr e"
| "coerce_expr (OBuffer b) = Inr (BufferE (ReadWhole b))"
| "coerce_expr (ONum n) = Inr (ScalarE (SNum n))"
| "coerce_expr (OIndex e) = Inr (ScalarE (SIndex e))"
| "coerce_expr (OSwitch s) = Inr (ScalarE (SSwitch s))"
| "coerce_expr (OSlice v) = res_bind (as_leaf v) (\<lambda>v. Inr (BufferE (ReadRegion v)))"
| "coerce_expr OCondition = Inl TypeError"
| "coerce_expr OOther = Inl TypeError"

text \<open>\<open>_check_shift_amount\<close>: a count known at trace time, written or folded, has to be below the width.\<close>

fun const_count :: "bexpr \<Rightarrow> int option" where
  "const_count (ScalarE (SNum (NInt k))) = Some k"
| "const_count (ScalarE (SNum (NBool b))) = Some (if b then 1 else 0)"
| "const_count (ScalarE (SIndex e)) = as_const e"
| "const_count _ = None"

definition check_shift_amount :: "bexpr \<Rightarrow> bexpr \<Rightarrow> unit res" where
  "check_shift_amount amount v =
     (case const_count amount of
        None \<Rightarrow> Inr ()
      | Some n \<Rightarrow>
          if n < 0 then Inl ValueError
          else (case element_dtype v of
                  None \<Rightarrow> Inr ()
                | Some d \<Rightarrow> if bits d \<le> n then Inl ValueError else Inr ()))"

definition binary_node :: "bexpr \<Rightarrow> operand \<Rightarrow> string \<Rightarrow> bool \<Rightarrow> bexpr res" where
  "binary_node self other op reverse =
     res_bind (coerce_expr other) (\<lambda>other.
       let (a, b) = (if reverse then (other, self) else (self, other)) in
       res_bind (if op = ''shl'' \<or> op = ''shr'' then check_shift_amount b a else Inr ()) (\<lambda>_.
         Inr (BinaryE op a b)))"

definition compare_node :: "bexpr \<Rightarrow> operand \<Rightarrow> string \<Rightarrow> bool \<Rightarrow> bexpr res" where
  "compare_node self other op reverse =
     res_bind (coerce_expr other) (\<lambda>other.
       Inr (if reverse then CompareE op other self else CompareE op self other))"

definition neg_node :: "bexpr \<Rightarrow> bexpr res" where
  "neg_node self = binary_node (ScalarE (SNum (NInt 0))) (OExpr self) ''sub'' False"

text \<open>\<open>BufferSlice._arith\<close>: the region is read as a leaf first.\<close>

definition slice_arith :: "buffer_slice \<Rightarrow> operand \<Rightarrow> string \<Rightarrow> bool \<Rightarrow> bexpr res" where
  "slice_arith v other op reflected =
     res_bind (as_leaf v) (\<lambda>v.
       res_bind (coerce_expr other) (\<lambda>other.
         if reflected then binary_node other (OExpr (BufferE (ReadRegion v))) op False
         else binary_node (BufferE (ReadRegion v)) (OExpr other) op False))"

section \<open>Constructors of ops\<close>

text \<open>Which operands each family admits by \<open>isinstance\<close>; a Python bool is an int to all but two of them.\<close>

fun is_plain_operand :: "operand \<Rightarrow> bool" where
  "is_plain_operand (OExpr e) = True"
| "is_plain_operand (OBuffer b) = True"
| "is_plain_operand (ONum n) = True"
| "is_plain_operand _ = False"

fun is_value_operand :: "operand \<Rightarrow> bool" where
  "is_value_operand (ONum (NBool b)) = False"
| "is_value_operand (OSlice v) = True"
| "is_value_operand x = is_plain_operand x"

definition elementwise :: "string \<Rightarrow> operand \<Rightarrow> operand \<Rightarrow> bexpr res" where
  "elementwise key a b =
     res_bind (res_check (is_plain_operand a) TypeError) (\<lambda>_.
     res_bind (res_check (is_plain_operand b) TypeError) (\<lambda>_.
     res_bind (coerce_expr a) (\<lambda>a.
     res_bind (coerce_expr b) (\<lambda>b.
       if expr_leaves a = [] \<and> expr_leaves b = [] then Inl ValueError
       else Inr (BinaryE key a b)))))"

abbreviation maximum :: "operand \<Rightarrow> operand \<Rightarrow> bexpr res" where "maximum \<equiv> elementwise ''max''"
abbreviation minimum :: "operand \<Rightarrow> operand \<Rightarrow> bexpr res" where "minimum \<equiv> elementwise ''min''"

definition relu :: "operand \<Rightarrow> bexpr res" where
  "relu x =
     res_bind (coerce_expr x) (\<lambda>e.
     res_bind (case element_dtype e of
                 Some d \<Rightarrow> Inr d
               | None \<Rightarrow> (case expr_leaves e of [] \<Rightarrow> Inl ValueError | l # _ \<Rightarrow> Inr (leaf_dtype l))) (\<lambda>d.
       maximum (OExpr e) (ONum (if is_float d then NFloat (FFin 0) else NInt 0))))"

definition comparison :: "string \<Rightarrow> operand \<Rightarrow> operand \<Rightarrow> bexpr res" where
  "comparison key a b =
     res_bind (res_check (is_value_operand a) TypeError) (\<lambda>_.
     res_bind (res_check (is_value_operand b) TypeError) (\<lambda>_.
     res_bind (coerce_expr a) (\<lambda>a.
     res_bind (coerce_expr b) (\<lambda>b.
       if expr_leaves a = [] \<and> expr_leaves b = [] then Inl ValueError
       else Inr (CompareE key a b)))))"

fun is_compare :: "bexpr \<Rightarrow> bool" where
  "is_compare (CompareE f a b) = True"
| "is_compare _ = False"

fun is_reduce :: "bexpr \<Rightarrow> bool" where
  "is_reduce (ReduceE f a) = True"
| "is_reduce _ = False"

fun is_buffer :: "bexpr \<Rightarrow> bool" where
  "is_buffer (BufferE l) = True"
| "is_buffer _ = False"

fun compare_operand :: "operand \<Rightarrow> bexpr res" where
  "compare_operand (OExpr e) = (if is_compare e then Inr e else Inl TypeError)"
| "compare_operand _ = Inl TypeError"

definition select :: "operand \<Rightarrow> operand \<Rightarrow> operand \<Rightarrow> bexpr res" where
  "select cond a b =
     res_bind (compare_operand cond) (\<lambda>c.
     res_bind (res_check (is_value_operand a) TypeError) (\<lambda>_.
     res_bind (res_check (is_value_operand b) TypeError) (\<lambda>_.
     res_bind (coerce_expr a) (\<lambda>a.
     res_bind (coerce_expr b) (\<lambda>b.
       if expr_leaves a = [] \<and> expr_leaves b = [] \<and> expr_leaves c = [] then Inl ValueError
       else Inr (SelectE c a b))))))"

fun is_fma_operand :: "operand \<Rightarrow> bool" where
  "is_fma_operand (OExpr e) = (\<not> is_compare e)"
| "is_fma_operand x = is_plain_operand x"

definition fma :: "operand \<Rightarrow> operand \<Rightarrow> operand \<Rightarrow> bexpr res" where
  "fma a b c =
     res_bind (res_check (is_fma_operand a \<and> is_fma_operand b \<and> is_fma_operand c) TypeError) (\<lambda>_.
     res_bind (coerce_expr a) (\<lambda>a.
     res_bind (coerce_expr b) (\<lambda>b.
     res_bind (coerce_expr c) (\<lambda>c.
       if expr_leaves a = [] \<and> expr_leaves b = [] \<and> expr_leaves c = [] then Inl ValueError
       else Inr (FmaE a b c)))))"

fun is_reduce_operand :: "operand \<Rightarrow> bool" where
  "is_reduce_operand (OExpr e) = True"
| "is_reduce_operand (OBuffer b) = True"
| "is_reduce_operand (OSlice v) = True"
| "is_reduce_operand _ = False"

text \<open>\<open>_reduce\<close>, shared by \<open>reduce_add\<close>, \<open>reduce_max\<close> and \<open>argmax\<close>.\<close>

definition reduce_op :: "string \<Rightarrow> operand \<Rightarrow> bexpr res" where
  "reduce_op key x =
     res_bind (res_check (is_reduce_operand x) TypeError) (\<lambda>_.
     res_bind (coerce_expr x) (\<lambda>e.
       if is_compare e then Inl TypeError
       else if is_reduce e then Inl NotImplementedError
       else if expr_leaves e = [] then Inl ValueError
       else Inr (ReduceE key e)))"

abbreviation reduce_add :: "operand \<Rightarrow> bexpr res" where "reduce_add \<equiv> reduce_op ''add''"
abbreviation reduce_max :: "operand \<Rightarrow> bexpr res" where "reduce_max \<equiv> reduce_op ''max''"
abbreviation argmax :: "operand \<Rightarrow> bexpr res" where "argmax \<equiv> reduce_op ''argmax''"

fun is_unary_operand :: "operand \<Rightarrow> bool" where
  "is_unary_operand (OExpr e) = True"
| "is_unary_operand (OBuffer b) = True"
| "is_unary_operand _ = False"

definition unary :: "string \<Rightarrow> operand \<Rightarrow> bexpr res" where
  "unary name x =
     res_bind (res_check (is_unary_operand x) TypeError) (\<lambda>_.
     res_bind (coerce_expr x) (\<lambda>e.
       if expr_leaves e = [] then Inl ValueError else Inr (UnaryE name e)))"

abbreviation tanh :: "operand \<Rightarrow> bexpr res" where "tanh \<equiv> unary ''tanh''"
abbreviation fnum :: "rat \<Rightarrow> operand" where "fnum q \<equiv> ONum (NFloat (FFin q))"

text \<open>The activations, composed as the source composes them; \<open>0.5 * e\<close> is a reflected multiplication.\<close>

definition sigmoid :: "operand \<Rightarrow> bexpr res" where
  "sigmoid x =
     res_bind (coerce_expr x) (\<lambda>e.
     res_bind (binary_node e (fnum (1/2)) ''mul'' True) (\<lambda>h.
     res_bind (tanh (OExpr h)) (\<lambda>t.
     res_bind (binary_node t (fnum 1) ''add'' False) (\<lambda>s.
       binary_node s (fnum (1/2)) ''mul'' True))))"

definition silu :: "operand \<Rightarrow> bexpr res" where
  "silu x = res_bind (coerce_expr x) (\<lambda>e. res_bind (sigmoid (OExpr e)) (\<lambda>s. binary_node e (OExpr s) ''mul'' False))"

definition GELU_SQRT_2_OVER_PI :: rat where "GELU_SQRT_2_OVER_PI = 7978845608 / 10000000000"
definition GELU_BETA :: rat where "GELU_BETA = 44715 / 1000000"

definition gelu :: "operand \<Rightarrow> bexpr res" where
  "gelu x =
     res_bind (coerce_expr x) (\<lambda>e.
     res_bind (binary_node e (OExpr e) ''mul'' False) (\<lambda>sq.
     res_bind (binary_node sq (OExpr e) ''mul'' False) (\<lambda>cube.
     res_bind (binary_node cube (fnum GELU_BETA) ''mul'' True) (\<lambda>bc.
     res_bind (binary_node e (OExpr bc) ''add'' False) (\<lambda>s.
     res_bind (binary_node s (fnum GELU_SQRT_2_OVER_PI) ''mul'' True) (\<lambda>inner.
     res_bind (binary_node e (fnum (1/2)) ''mul'' True) (\<lambda>half.
     res_bind (tanh (OExpr inner)) (\<lambda>t.
     res_bind (binary_node t (fnum 1) ''add'' False) (\<lambda>u.
       binary_node half (OExpr u) ''mul'' False)))))))))"

section \<open>Conversions\<close>

text \<open>The \<open>arith\<close> conversion operations.\<close>

datatype conv = ExtF | TruncF | FPToSI | SIToFP | ExtSI | ExtUI | TruncI

definition int_range :: "dtype \<Rightarrow> int \<times> int" where
  "int_range d = (- (2 ^ nat (bits d - 1)), 2 ^ nat (bits d - 1) - 1)"

fun const_operand :: "bexpr \<Rightarrow> int option" where
  "const_operand (ScalarE (SNum (NInt k))) = Some k"
| "const_operand (ScalarE (SNum (NBool b))) = Some (if b then 1 else 0)"
| "const_operand _ = None"

text \<open>\<open>_clamped_into\<close>: a min of a max, or a max of a min, with constant bounds inside the target's range.\<close>

fun clamped_into :: "bexpr \<Rightarrow> dtype \<Rightarrow> bool" where
  "clamped_into (BinaryE op (BinaryE op' x ib) ob) target =
     (\<not> is_float target \<and> op \<in> {''min'', ''max''} \<and> op' \<in> {''min'', ''max''} \<and> op' \<noteq> op \<and>
      (case (const_operand ob, const_operand ib) of
         (Some outer, Some inner) \<Rightarrow>
           let hi = (if op = ''min'' then outer else inner);
               lo = (if op = ''min'' then inner else outer) in
           fst (int_range target) \<le> lo \<and> hi \<le> snd (int_range target) \<and> lo \<le> hi
       | _ \<Rightarrow> False))"
| "clamped_into _ target = False"

definition conversion_op :: "dtype \<Rightarrow> dtype \<Rightarrow> bool \<Rightarrow> bool \<Rightarrow> conv res" where
  "conversion_op source target narrowing_ok signed =
     (if \<not> signed \<and> (is_float source \<or> is_float target) then Inl TypeError
      else if \<not> signed \<and> bits target \<le> bits source then Inl TypeError
      else if is_float source \<and> is_float target then
        res_bind (itemsize target) (\<lambda>t. res_bind (itemsize source) (\<lambda>s.
          if s < t then Inr ExtF else if t < s then Inr TruncF else Inl NotImplementedError))
      else if is_float source then Inr FPToSI
      else if is_float target then Inr SIToFP
      else if bits source < bits target then Inr (if signed then ExtSI else ExtUI)
      else if narrowing_ok then Inr TruncI
      else Inl NotImplementedError)"

text \<open>\<open>ops.cast\<close>; a target that is not an element type is \<open>None\<close>.\<close>

definition cast :: "operand \<Rightarrow> dtype option \<Rightarrow> bool \<Rightarrow> bexpr res" where
  "cast x target signed =
     (case target of
        None \<Rightarrow> Inl TypeError
      | Some d \<Rightarrow>
          res_bind (coerce_expr x) (\<lambda>e.
          if is_compare e then Inl TypeError
          else (case element_dtype e of
                  None \<Rightarrow> Inl TypeError
                | Some s \<Rightarrow>
                    if s = d then Inr e
                    else
                      res_bind (require_signless s) (\<lambda>_.
                      res_bind (require_signless d) (\<lambda>_.
                      res_bind (if \<not> clamped_into e d then res_bind (conversion_op s d False signed) (\<lambda>_. Inr ())
                                else if \<not> signed then res_bind (conversion_op s d False signed) (\<lambda>_. Inr ())
                                else Inr ()) (\<lambda>_.
                        Inr (CastE d signed e)))))))"

definition bitcast :: "operand \<Rightarrow> dtype option \<Rightarrow> bexpr res" where
  "bitcast x target =
     (case target of
        None \<Rightarrow> Inl TypeError
      | Some d \<Rightarrow>
          res_bind (coerce_expr x) (\<lambda>e.
            (case element_dtype e of
               None \<Rightarrow> Inl TypeError
             | Some s \<Rightarrow>
                 if s = d then Inr e
                 else
                   res_bind (require_signless s) (\<lambda>_.
                   res_bind (require_signless d) (\<lambda>_.
                     if bits s = bits d then Inr (BitcastE d e)
                     else if \<not> is_buffer e then Inl TypeError
                     else if max (bits s) (bits d) mod min (bits s) (bits d) \<noteq> 0 then Inl ValueError
                     else if bits s < bits d then Inl NotImplementedError
                     else Inr (BitcastE d e))))))"

section \<open>Switches\<close>

datatype switch_key = KeyCondition | KeyBuffer | KeyIndex index_like

datatype switch_choice = ChValue numeric | ChCall index_like | ChOther

fun switch_arm_of :: "switch_choice \<Rightarrow> switch_arm res" where
  "switch_arm_of (ChCall f) = Inr (ArmCall f)"
| "switch_arm_of (ChValue (NBool b)) = Inl TypeError"
| "switch_arm_of (ChValue v) = Inr (ArmValue v)"
| "switch_arm_of ChOther = Inl TypeError"

text \<open>The value form of \<open>ops.switch\<close>; its region form is \<open>switch_region\<close>.\<close>

definition switch :: "switch_key \<Rightarrow> switch_choice list \<Rightarrow> switch_obj res" where
  "switch key vals =
     (case key of
        KeyCondition \<Rightarrow> Inl TypeError
      | KeyBuffer \<Rightarrow> Inl TypeError
      | KeyIndex i \<Rightarrow>
          if length vals \<le> 1 then Inl ValueError
          else
            res_bind (map_res switch_arm_of vals) (\<lambda>arms.
            res_bind (coerce_index i) (\<lambda>e. Inr \<lparr>sw_index = e, sw_values = arms\<rparr>)))"

text \<open>\<open>_typed\<close>: a value in the destination's element type.\<close>

definition switch_typed :: "dtype \<Rightarrow> switch_arm \<Rightarrow> numeric res" where
  "switch_typed d arm =
     (case arm of
        ArmCall f \<Rightarrow> Inl TypeError
      | ArmValue v \<Rightarrow>
          if is_float d then Inr (NFloat (py_float_of v))
          else (case v of
                  NFloat x \<Rightarrow> if float_is_integer x then res_bind (py_int v) (\<lambda>k. Inr (NInt k)) else Inl ValueError
                | _ \<Rightarrow> res_bind (py_int v) (\<lambda>k. Inr (NInt k))))"

fun is_value_arm :: "switch_arm \<Rightarrow> bool" where
  "is_value_arm (ArmValue v) = True"
| "is_value_arm (ArmCall f) = False"

text \<open>Python's \<open>values[i]\<close>: a negative index counts from the end.\<close>

definition py_nth :: "'a list \<Rightarrow> int \<Rightarrow> 'a res" where
  "py_nth xs i =
     (if 0 \<le> i \<and> i < int (length xs) then Inr (xs ! nat i)
      else if - int (length xs) \<le> i \<and> i < 0 then Inr (xs ! nat (int (length xs) + i))
      else Inl IndexError)"

definition switch_materialize :: "switch_obj \<Rightarrow> dtype \<Rightarrow> switch_value res" where
  "switch_materialize s d =
     res_bind (res_check (list_all is_value_arm (sw_values s)) TypeError) (\<lambda>_.
     res_bind (map_res (switch_typed d) (sw_values s)) (\<lambda>vals.
       (case as_const (sw_index s) of
          Some i \<Rightarrow> res_bind (py_nth vals (min i (int (length vals) - 1))) (\<lambda>v. Inr (SwConst d v))
        | None \<Rightarrow> Inr (SwCases d (sw_index s) vals))))"

end
