(* ===== verification/Emit.thy ===== *)
theory Emit
  imports Tile_Expr
begin

text \<open>
  The elementwise emitter: \<^verbatim>\<open>src/python/air/api/_emit.py\<close>. An assignment \<open>dst[:] = expr\<close> becomes a loop
  nest whose body evaluates the tree once, on vectors of the innermost axis when the extents allow it and
  on single elements otherwise. Here the emitted operations are values of \<open>ir\<close>, the nest is a record, and
  every check the emitter makes before it opens the nest is a branch of its result.
\<close>

section \<open>Broadcasting\<close>

text \<open>\<open>_broadcast_offset\<close>: how many leading axes of the destination the operand lacks.\<close>

definition broadcast_offset :: "int list \<Rightarrow> int list \<Rightarrow> nat option" where
  "broadcast_offset shape dst =
     (if length dst < length shape then None
      else let off = length dst - length shape in
        if list_all (\<lambda>(e, t). e = t \<or> e = 1) (zip shape (drop off dst)) then Some off else None)"

text \<open>\<open>_broadcast_shape\<close>: one axis at a time, over the shapes aligned on the right.\<close>

fun join_extent :: "int \<Rightarrow> int list \<Rightarrow> int option" where
  "join_extent x [] = Some x"
| "join_extent x (e # es) =
     (if e = 1 then join_extent x es
      else if x = 1 \<or> x = e then join_extent e es
      else None)"

definition axis_extents :: "int list list \<Rightarrow> nat \<Rightarrow> nat \<Rightarrow> int list" where
  "axis_extents shapes rank axis =
     map (\<lambda>s. s ! (axis - (rank - length s))) (filter (\<lambda>s. rank - length s \<le> axis) shapes)"

fun sequence_opt :: "'a option list \<Rightarrow> 'a list option" where
  "sequence_opt [] = Some []"
| "sequence_opt (x # xs) =
     (case x of None \<Rightarrow> None | Some y \<Rightarrow> map_option (\<lambda>ys. y # ys) (sequence_opt xs))"

definition max_rank :: "int list list \<Rightarrow> nat" where
  "max_rank shapes = foldr (\<lambda>s r. max (length s) r) shapes 0"

definition broadcast_shape :: "int list list \<Rightarrow> int list option" where
  "broadcast_shape shapes =
     (let rank = max_rank shapes in
      sequence_opt (map (\<lambda>axis. join_extent 1 (axis_extents shapes rank axis)) [0..<rank]))"

definition expr_shape :: "bexpr \<Rightarrow> int list option" where
  "expr_shape e =
     (let shapes = map leaf_shape (expr_leaves e) in if shapes = [] then Some [] else broadcast_shape shapes)"

definition pins_an_axis :: "int list \<Rightarrow> int list \<Rightarrow> bool" where
  "pins_an_axis shape dst =
     (case broadcast_offset shape dst of
        None \<Rightarrow> False
      | Some off \<Rightarrow> list_ex (\<lambda>(e, t). e \<noteq> t) (zip shape (drop off dst)))"

text \<open>
  \<open>_is_repack\<close>. A bitcast node's operand always has an element type (\<open>ops.bitcast\<close> refuses one without),
  so the comparison of widths is total.
\<close>

fun is_repack :: "bexpr \<Rightarrow> bool" where
  "is_repack (BitcastE d x) = (case element_dtype x of None \<Rightarrow> False | Some s \<Rightarrow> bits s \<noteq> bits d)"
| "is_repack _ = False"

fun args :: "bexpr \<Rightarrow> bexpr list" where
  "args (BufferE l) = []"
| "args (ScalarE v) = []"
| "args (UnaryE f a) = [a]"
| "args (BinaryE f a b) = [a, b]"
| "args (CompareE f a b) = [a, b]"
| "args (SelectE c a b) = [c, a, b]"
| "args (FmaE a b c) = [a, b, c]"
| "args (CastE d s a) = [a]"
| "args (BitcastE d a) = [a]"
| "args (ReduceE f a) = [a]"

lemma args_size [termination_simp]: "a \<in> set (args e) \<Longrightarrow> size a < size e"
  by (cases e) auto

function (sequential) pins_for :: "bexpr \<Rightarrow> int list \<Rightarrow> bool" where
  "pins_for (BufferE l) dst = pins_an_axis (leaf_shape l) dst"
| "pins_for e dst = (is_repack e \<or> (\<exists>a \<in> set (args e). pins_for a dst))"
  by pat_completeness auto
termination by (relation "measure (size \<circ> fst)") (auto dest: args_size)

function has_repack :: "bexpr \<Rightarrow> bool" where
  "has_repack e = (is_repack e \<or> (\<exists>a \<in> set (args e). has_repack a))"
  by auto
termination by (relation "measure size") (auto dest: args_size)

declare has_repack.simps [simp del]

section \<open>Indices\<close>

text \<open>
  Index values of the nest: an induction variable by level, a constant, a coordinate's own value, an
  \<open>affine.apply\<close> of an expression, a sum.
\<close>

datatype ix = IxIv nat | IxConst int | IxLeaf nat | IxApply index_expr | IxAdd ix ix

fun axes_sizes :: "buffer_read \<Rightarrow> int list" where
  "axes_sizes (ReadWhole b) = b_shape b"
| "axes_sizes (ReadRegion v) = sizes v"

fun axes_dropped :: "buffer_read \<Rightarrow> bool list" where
  "axes_dropped (ReadWhole b) = replicate (length (b_shape b)) False"
| "axes_dropped (ReadRegion v) = dropped v"

text \<open>\<open>leaf.base\<close>, with the literal 0 of a whole buffer as a constant expression.\<close>

fun axes_base :: "buffer_read \<Rightarrow> index_expr list" where
  "axes_base (ReadWhole b) = map (\<lambda>_. index_constant 0) (b_shape b)"
| "axes_base (ReadRegion v) = offsets v"

fun leaf_buffer :: "buffer_read \<Rightarrow> buffer" where
  "leaf_buffer (ReadWhole b) = b"
| "leaf_buffer (ReadRegion v) = parent v"

abbreviation leaf_id :: "buffer_read \<Rightarrow> nat" where "leaf_id l \<equiv> b_id (leaf_buffer l)"

definition is_zero :: "index_expr \<Rightarrow> bool" where
  "is_zero e = (as_const e = Some 0)"

text \<open>\<open>_materialize_index\<close>: a bare coordinate passes through, a constant folds, anything else applies.\<close>

definition materialize_index :: "index_expr \<Rightarrow> ix" where
  "materialize_index e =
     (case terms e of
        [(Leaf i n s, c)] \<Rightarrow> if c = 1 \<and> const e = 0 then IxLeaf i else IxApply e
      | [] \<Rightarrow> IxConst (const e)
      | _ \<Rightarrow> IxApply e)"

text \<open>
  \<open>_leaf_index\<close> over the axes still to index: (extent, dropped, start) triples, and the destination axes
  the kept ones line up with. A pinned axis at offset zero takes the shared constant, which is missing
  when the emitter decided no axis needs it.
\<close>

fun leaf_index_from :: "(int \<times> bool \<times> index_expr) list \<Rightarrow> int list \<Rightarrow> ix list \<Rightarrow> ix option \<Rightarrow> ix option list" where
  "leaf_index_from [] dst ivs zero = []"
| "leaf_index_from ((e, True, s) # axs) dst ivs zero =
     Some (materialize_index s) # leaf_index_from axs dst ivs zero"
| "leaf_index_from ((e, False, s) # axs) dst ivs zero =
     (let walks = (e = hd dst); iv = hd ivs in
      (if is_zero s then (if walks then Some iv else zero)
       else if \<not> walks then Some (materialize_index s)
       else Some (IxAdd iv (materialize_index s)))
      # leaf_index_from axs (tl dst) (tl ivs) zero)"

definition leaf_axes :: "buffer_read \<Rightarrow> (int \<times> bool \<times> index_expr) list" where
  "leaf_axes l = zip (axes_sizes l) (zip (axes_dropped l) (axes_base l))"

definition complete_index :: "ix option list \<Rightarrow> ix list res" where
  "complete_index is = (case sequence_opt is of None \<Rightarrow> Inl TypeError | Some xs \<Rightarrow> Inr xs)"

definition leaf_index :: "buffer_read \<Rightarrow> int list \<Rightarrow> ix list \<Rightarrow> ix option \<Rightarrow> ix list res" where
  "leaf_index l dst ivs zero =
     (case broadcast_offset (leaf_shape l) dst of
        None \<Rightarrow> Inl TypeError
      | Some off \<Rightarrow> complete_index (leaf_index_from (leaf_axes l) (drop off dst) (drop off ivs) zero))"

definition pinned_index :: "buffer_read \<Rightarrow> ix option \<Rightarrow> ix list res" where
  "pinned_index l zero =
     complete_index (map (\<lambda>s. if is_zero s then zero else Some (materialize_index s)) (axes_base l))"

definition dst_index :: "buffer_read \<Rightarrow> ix list \<Rightarrow> ix list res" where
  "dst_index dst ivs =
     (case dst of ReadWhole b \<Rightarrow> Inr ivs | ReadRegion v \<Rightarrow> leaf_index dst (leaf_shape dst) ivs None)"

text \<open>\<open>_offset_key\<close> and \<open>_read_key\<close>: what makes two leaves the same read.\<close>

type_synonym read_key = "nat \<times> ((leaf_key \<times> int) fset \<times> int) list option \<times> int list"

definition read_key_of :: "buffer_read \<Rightarrow> read_key" where
  "read_key_of l =
     (leaf_id l, (case l of ReadWhole b \<Rightarrow> None | ReadRegion v \<Rightarrow> Some (map expr_key (offsets v))), leaf_shape l)"

section \<open>Checks made before the nest is opened\<close>

text \<open>\<open>_check_region\<close>; \<open>alive\<close> says which buffers have a value.\<close>

definition presented_shape :: "int list \<Rightarrow> int \<Rightarrow> int list" where
  "presented_shape shape ratio = butlast shape @ [last shape * ratio]"

definition check_leaf :: "(nat \<Rightarrow> bool) \<Rightarrow> int list \<Rightarrow> dtype option \<Rightarrow> buffer_read \<Rightarrow> unit res" where
  "check_leaf alive dst d l =
     (if broadcast_offset (leaf_shape l) dst = None then Inl ValueError
      else if Some (leaf_dtype l) \<noteq> d then Inl ValueError
      else if \<not> alive (leaf_id l) then Inl RuntimeError
      else Inr ())"

definition check_repacked :: "(nat \<Rightarrow> bool) \<Rightarrow> int list \<Rightarrow> dtype \<Rightarrow> buffer_read \<Rightarrow> unit res" where
  "check_repacked alive dst d l =
     (if leaf_shape l = [] then Inl IndexError
      else if broadcast_offset (presented_shape (leaf_shape l) (bits (leaf_dtype l) div bits d)) dst = None then Inl ValueError
      else if \<not> alive (leaf_id l) then Inl RuntimeError
      else Inr ())"

fun check_region :: "(nat \<Rightarrow> bool) \<Rightarrow> int list \<Rightarrow> dtype option \<Rightarrow> bexpr \<Rightarrow> unit res" where
  "check_region alive dst d (ReduceE f a) = Inl NotImplementedError"
| "check_region alive dst d (BitcastE t x) =
     (if is_repack (BitcastE t x)
      then (case x of BufferE l \<Rightarrow> check_repacked alive dst t l | _ \<Rightarrow> Inl AttributeError)
      else check_region alive dst (element_dtype x) x)"
| "check_region alive dst d (CastE t s x) = check_region alive dst (element_dtype x) x"
| "check_region alive dst d (BufferE l) = check_leaf alive dst d l"
| "check_region alive dst d (ScalarE v) = Inr ()"
| "check_region alive dst d (UnaryE f a) = check_region alive dst d a"
| "check_region alive dst d (BinaryE f a b) =
     res_bind (check_region alive dst d a) (\<lambda>_. check_region alive dst d b)"
| "check_region alive dst d (CompareE f a b) =
     res_bind (check_region alive dst d a) (\<lambda>_. check_region alive dst d b)"
| "check_region alive dst d (SelectE c a b) =
     res_bind (check_region alive dst d c) (\<lambda>_.
     res_bind (check_region alive dst d a) (\<lambda>_. check_region alive dst d b))"
| "check_region alive dst d (FmaE a b c) =
     res_bind (check_region alive dst d a) (\<lambda>_.
     res_bind (check_region alive dst d b) (\<lambda>_. check_region alive dst d c))"

text \<open>\<open>_regions_in\<close>: the element types of the tree, outermost first, each once.\<close>

definition add_dtype :: "dtype option \<Rightarrow> dtype list \<Rightarrow> dtype list" where
  "add_dtype d out = (case d of None \<Rightarrow> out | Some t \<Rightarrow> if t \<in> set out then out else out @ [t])"

fun regions_in :: "bexpr \<Rightarrow> dtype option \<Rightarrow> dtype list \<Rightarrow> dtype list" where
  "regions_in (CastE t s x) d out = regions_in x (element_dtype x) (add_dtype d out)"
| "regions_in (BitcastE t x) d out =
     (if is_repack (BitcastE t x) then add_dtype d out
      else regions_in x (element_dtype x) (add_dtype d out))"
| "regions_in (BufferE l) d out = add_dtype d out"
| "regions_in (ScalarE v) d out = add_dtype d out"
| "regions_in (UnaryE f a) d out = regions_in a d (add_dtype d out)"
| "regions_in (ReduceE f a) d out = regions_in a d (add_dtype d out)"
| "regions_in (BinaryE f a b) d out = regions_in b d (regions_in a d (add_dtype d out))"
| "regions_in (CompareE f a b) d out = regions_in b d (regions_in a d (add_dtype d out))"
| "regions_in (SelectE c a b) d out = regions_in b d (regions_in a d (regions_in c d (add_dtype d out)))"
| "regions_in (FmaE a b c) d out = regions_in c d (regions_in b d (regions_in a d (add_dtype d out)))"

definition MAX_VECTOR_BITS :: int where "MAX_VECTOR_BITS = 512"

definition cap_by_regions :: "int \<Rightarrow> dtype list \<Rightarrow> int" where
  "cap_by_regions width ds =
     foldl (\<lambda>w d. if bits d \<noteq> 0 then min w (max 1 (MAX_VECTOR_BITS div bits d)) else w) width ds"

definition FLOAT_UNARY_OPS :: "string list" where "FLOAT_UNARY_OPS = [''tanh'', ''exp'', ''rsqrt'']"

function has_transcendental :: "bexpr \<Rightarrow> bool" where
  "has_transcendental e =
     ((case e of UnaryE f a \<Rightarrow> f \<in> set FLOAT_UNARY_OPS | _ \<Rightarrow> False) \<or> (\<exists>a \<in> set (args e). has_transcendental a))"
  by auto
termination by (relation "measure size") (auto dest: args_size)

declare has_transcendental.simps [simp del]

definition cap_by_ops :: "int \<Rightarrow> dtype \<Rightarrow> bexpr \<Rightarrow> int" where
  "cap_by_ops width d e =
     (if default_vector_width d < width \<and> has_transcendental e then default_vector_width d else width)"

definition nest_width :: "buffer_read \<Rightarrow> bexpr \<Rightarrow> int" where
  "nest_width dst e =
     (let w = vector_width (leaf_buffer dst) in
      if w \<le> 0 then w
      else
        let w' = (if \<not> vector_width_explicit (leaf_buffer dst)
                  then cap_by_regions w (regions_in e (Some (leaf_dtype dst)) []) else w)
        in cap_by_ops w' (leaf_dtype dst) e)"

definition vectorizes :: "int list \<Rightarrow> int \<Rightarrow> bool" where
  "vectorizes shape width \<longleftrightarrow> shape \<noteq> [] \<and> 0 < width \<and> last shape mod width = 0"

definition check_repack :: "bexpr \<Rightarrow> int list \<Rightarrow> int \<Rightarrow> unit res" where
  "check_repack e shape width =
     (if \<not> has_repack e then Inr ()
      else if \<not> vectorizes shape width then Inl NotImplementedError
      else if prod_list (butlast shape) * (last shape div width) \<noteq> 1 then Inl NotImplementedError
      else Inr ())"

text \<open>\<open>_resolve_switches\<close>: every switch of the tree becomes a value of its region's type.\<close>

fun resolve_switches :: "bexpr \<Rightarrow> dtype \<Rightarrow> bexpr res" where
  "resolve_switches (ScalarE v) d =
     (case v of SSwitch s \<Rightarrow> res_bind (switch_materialize s d) (\<lambda>x. Inr (ScalarE (SValue x))) | _ \<Rightarrow> Inr (ScalarE v))"
| "resolve_switches (BufferE l) d = Inr (BufferE l)"
| "resolve_switches (CastE t s x) d =
     res_bind (resolve_switches x (case element_dtype x of None \<Rightarrow> d | Some u \<Rightarrow> u)) (\<lambda>x. Inr (CastE t s x))"
| "resolve_switches (BitcastE t x) d = res_bind (resolve_switches x d) (\<lambda>x. Inr (BitcastE t x))"
| "resolve_switches (UnaryE f a) d = res_bind (resolve_switches a d) (\<lambda>a. Inr (UnaryE f a))"
| "resolve_switches (ReduceE f a) d = res_bind (resolve_switches a d) (\<lambda>a. Inr (ReduceE f a))"
| "resolve_switches (BinaryE f a b) d =
     res_bind (resolve_switches a d) (\<lambda>a. res_bind (resolve_switches b d) (\<lambda>b. Inr (BinaryE f a b)))"
| "resolve_switches (CompareE f a b) d =
     res_bind (resolve_switches a d) (\<lambda>a. res_bind (resolve_switches b d) (\<lambda>b. Inr (CompareE f a b)))"
| "resolve_switches (SelectE c a b) d =
     res_bind (resolve_switches c d) (\<lambda>c. res_bind (resolve_switches a d) (\<lambda>a.
     res_bind (resolve_switches b d) (\<lambda>b. Inr (SelectE c a b))))"
| "resolve_switches (FmaE a b c) d =
     res_bind (resolve_switches a d) (\<lambda>a. res_bind (resolve_switches b d) (\<lambda>b.
     res_bind (resolve_switches c d) (\<lambda>c. Inr (FmaE a b c))))"

section \<open>The walk of the tree\<close>

text \<open>
  The operations the walk emits. A vector read or a scalar load names its buffer and index; the arithmetic
  ones carry the element type of the region they are emitted in.
\<close>

datatype ir =
    IRead nat "ix list"
  | ILoad nat "ix list"
  | IBroadcast ir
  | IConst dtype numeric
  | IIndexCast dtype index_expr
  | ISwitch dtype index_expr "numeric list"
  | IUnary dtype string ir
  | IBinary dtype string ir ir
  | ICmp dtype string ir ir
  | ISelect ir ir ir
  | IFma dtype ir ir ir
  | IConv conv dtype dtype ir
  | IBitcast dtype dtype ir
  | IRepack dtype dtype int ir

text \<open>
  The environment of one nest: its shape, its induction variables, the shared zero, its lanes on the vector
  path, the table of element types, and whether its \<open>load\<close> accepts a repacked read.
\<close>

record nest_env =
  ne_shape :: "int list"
  ne_ivs :: "ix list"
  ne_zero :: "ix option"
  ne_lanes :: "int option"
  ne_regions :: "dtype list"
  ne_repack :: bool

abbreviation vectorized :: "nest_env \<Rightarrow> bool" where "vectorized env \<equiv> ne_lanes env \<noteq> None"

text \<open>The \<open>load\<close> closures of \<open>_emit_vector\<close> and \<open>_emit_scalar\<close>.\<close>

definition load_leaf :: "nest_env \<Rightarrow> buffer_read \<Rightarrow> ir res" where
  "load_leaf env l =
     res_bind (leaf_index l (ne_shape env) (ne_ivs env) (ne_zero env)) (\<lambda>index.
       if vectorized env then
         if leaf_shape l \<noteq> [] \<and> last (leaf_shape l) = last (ne_shape env) then Inr (IRead (leaf_id l) index)
         else Inr (IBroadcast (ILoad (leaf_id l) index))
       else Inr (ILoad (leaf_id l) index))"

definition load_packed :: "nest_env \<Rightarrow> buffer_read \<Rightarrow> ir res" where
  "load_packed env l =
     (if \<not> vectorized env \<or> \<not> ne_repack env then Inl NotImplementedError
      else res_bind (pinned_index l (ne_zero env)) (\<lambda>index. Inr (IRead (leaf_id l) index)))"

definition splat :: "nest_env \<Rightarrow> ir \<Rightarrow> ir" where
  "splat env v = (if vectorized env then IBroadcast v else v)"

definition FLOAT_OPS :: "string list" where
  "FLOAT_OPS = [''add'', ''sub'', ''mul'', ''div'', ''max'', ''min'']"

definition INT_OPS :: "string list" where
  "INT_OPS = [''add'', ''sub'', ''mul'', ''div'', ''max'', ''min'', ''and'', ''or'', ''xor'', ''shl'', ''shr'']"

definition CMP_OPS :: "string list" where
  "CMP_OPS = [''lt'', ''le'', ''gt'', ''ge'', ''eq'', ''ne'']"

definition arith_table :: "dtype \<Rightarrow> string list" where
  "arith_table d = (if is_float d then FLOAT_OPS else INT_OPS)"

text \<open>A numeric scalar in a region: widened to float, or a whole float narrowed to an integer.\<close>

fun typed_constant :: "dtype \<Rightarrow> numeric \<Rightarrow> numeric res" where
  "typed_constant d (NInt k) = Inr (if is_float d then NFloat (FFin (of_int k)) else NInt k)"
| "typed_constant d (NBool b) = Inr (NBool b)"
| "typed_constant d (NFloat x) =
     (if is_float d then Inr (NFloat x)
      else if float_is_integer x then res_bind (py_int (NFloat x)) (\<lambda>k. Inr (NInt k))
      else Inl ValueError)"

fun eval_scalar :: "nest_env \<Rightarrow> dtype \<Rightarrow> scalar \<Rightarrow> ir res" where
  "eval_scalar env d (SNum n) = res_bind (typed_constant d n) (\<lambda>n. Inr (splat env (IConst d n)))"
| "eval_scalar env d (SIndex e) =
     (case as_const e of
        Some k \<Rightarrow> res_bind (typed_constant d (NInt k)) (\<lambda>n. Inr (splat env (IConst d n)))
      | None \<Rightarrow> if is_float d then Inl NotImplementedError else Inr (splat env (IIndexCast d e)))"
| "eval_scalar env d (SValue (SwConst t n)) = Inr (splat env (IConst t n))"
| "eval_scalar env d (SValue (SwCases t e ns)) = Inr (splat env (ISwitch t e ns))"
| "eval_scalar env d (SSwitch s) = Inl TypeError"

text \<open>\<open>regions[source]\<close>: the table holds the types \<open>_regions_in\<close> found.\<close>

definition region_of :: "nest_env \<Rightarrow> dtype option \<Rightarrow> dtype res" where
  "region_of env d = (case d of None \<Rightarrow> Inl KeyError | Some t \<Rightarrow> if t \<in> set (ne_regions env) then Inr t else Inl KeyError)"

type_synonym reads = "(read_key \<times> ir) list"

text \<open>\<open>_eval\<close>, threading the dict of reads already made in this body.\<close>

fun eval_node :: "nest_env \<Rightarrow> dtype \<Rightarrow> bexpr \<Rightarrow> reads \<Rightarrow> (ir \<times> reads) res" where
  "eval_node env d (BufferE l) rs =
     (case map_of rs (read_key_of l) of
        Some v \<Rightarrow> Inr (v, rs)
      | None \<Rightarrow> res_bind (load_leaf env l) (\<lambda>v. Inr (v, (read_key_of l, v) # rs)))"
| "eval_node env d (CastE t signed x) rs =
     res_bind (region_of env (element_dtype x)) (\<lambda>source.
     res_bind (eval_node env source x rs) (\<lambda>(v, rs).
     res_bind (conversion_op source d (clamped_into x d) signed) (\<lambda>c.
       Inr (IConv c source d v, rs))))"
| "eval_node env d (BitcastE t x) rs =
     (if \<not> is_repack (BitcastE t x) then
        res_bind (region_of env (element_dtype x)) (\<lambda>source.
        res_bind (eval_node env source x rs) (\<lambda>(v, rs). Inr (IBitcast source d v, rs)))
      else
        (case (ne_lanes env, x, element_dtype x) of
           (None, _, _) \<Rightarrow> Inl NotImplementedError
         | (Some lanes, BufferE l, Some source) \<Rightarrow>
             let ratio = bits source div bits t in
             if ratio = 0 then Inl ZeroDivisionError
             else if lanes mod ratio \<noteq> 0 then Inl ValueError
             else res_bind (load_packed env l) (\<lambda>v. Inr (IRepack source d ratio v, rs))
         | _ \<Rightarrow> Inl AttributeError))"
| "eval_node env d (ScalarE v) rs = res_bind (eval_scalar env d v) (\<lambda>v. Inr (v, rs))"
| "eval_node env d (UnaryE f a) rs =
     (if f \<notin> set FLOAT_UNARY_OPS \<or> \<not> is_float d then Inl NotImplementedError
      else res_bind (eval_node env d a rs) (\<lambda>(v, rs). Inr (IUnary d f v, rs)))"
| "eval_node env d (CompareE f a b) rs =
     (if f \<notin> set CMP_OPS then Inl NotImplementedError
      else res_bind (eval_node env d a rs) (\<lambda>(v, rs).
           res_bind (eval_node env d b rs) (\<lambda>(w, rs). Inr (ICmp d f v w, rs))))"
| "eval_node env d (SelectE c a b) rs =
     res_bind (eval_node env d c rs) (\<lambda>(u, rs).
     res_bind (eval_node env d a rs) (\<lambda>(v, rs).
     res_bind (eval_node env d b rs) (\<lambda>(w, rs). Inr (ISelect u v w, rs))))"
| "eval_node env d (FmaE a b c) rs =
     (if \<not> is_float d then Inl NotImplementedError
      else if \<not> vectorized env then Inl NotImplementedError
      else res_bind (eval_node env d a rs) (\<lambda>(u, rs).
           res_bind (eval_node env d b rs) (\<lambda>(v, rs).
           res_bind (eval_node env d c rs) (\<lambda>(w, rs). Inr (IFma d u v w, rs)))))"
| "eval_node env d (BinaryE f a b) rs =
     (if f \<notin> set (arith_table d) then Inl NotImplementedError
      else res_bind (eval_node env d a rs) (\<lambda>(v, rs).
           res_bind (eval_node env d b rs) (\<lambda>(w, rs). Inr (IBinary d f v w, rs))))"
| "eval_node env d (ReduceE f a) rs = Inl NotImplementedError"

section \<open>The nests\<close>

text \<open>A nest: its bounds, and the store of its body's value, by one element or by a vector of lanes.\<close>

record nest =
  n_bounds :: "(int \<times> int \<times> int) list"
  n_dst :: nat
  n_index :: "ix list"
  n_value :: ir
  n_lanes :: "int option"

definition nest_ivs :: "int list \<Rightarrow> ix list" where
  "nest_ivs shape = map IxIv [0..<length shape]"

definition zero_index_if :: "bool \<Rightarrow> ix option" where
  "zero_index_if needed = (if needed then Some (IxConst 0) else None)"

definition emit_nest :: "buffer_read \<Rightarrow> bexpr \<Rightarrow> int option \<Rightarrow> (int \<times> int \<times> int) list \<Rightarrow> nest res" where
  "emit_nest dst e lanes bounds =
     (let shape = leaf_shape dst;
          env = \<lparr>ne_shape = shape, ne_ivs = nest_ivs shape, ne_zero = zero_index_if (pins_for e shape),
                 ne_lanes = lanes, ne_regions = regions_in e (Some (leaf_dtype dst)) [], ne_repack = True\<rparr> in
      res_bind (eval_node env (leaf_dtype dst) e []) (\<lambda>(v, _).
      res_bind (dst_index dst (nest_ivs shape)) (\<lambda>index.
        Inr \<lparr>n_bounds = bounds, n_dst = leaf_id dst, n_index = index, n_value = v, n_lanes = lanes\<rparr>)))"

definition emit_vector :: "buffer_read \<Rightarrow> bexpr \<Rightarrow> int \<Rightarrow> nest res" where
  "emit_vector dst e width =
     (let shape = leaf_shape dst in
      emit_nest dst e (Some width) (map (\<lambda>n. (0, n, 1)) (butlast shape) @ [(0, last shape, width)]))"

definition emit_scalar :: "buffer_read \<Rightarrow> bexpr \<Rightarrow> nest res" where
  "emit_scalar dst e = emit_nest dst e None (map (\<lambda>n. (0, n, 1)) (leaf_shape dst))"

text \<open>\<open>emit_elementwise\<close> for a right-hand side that is not a reduction.\<close>

definition emit_assign :: "(nat \<Rightarrow> bool) \<Rightarrow> buffer_read \<Rightarrow> bexpr \<Rightarrow> nest res" where
  "emit_assign alive dst e =
     (let d = leaf_dtype dst; shape = leaf_shape dst in
      res_bind (check_region alive shape (Some d) e) (\<lambda>_.
      res_bind (if \<not> computes d \<and> \<not> is_buffer e then require_computable d else Inr ()) (\<lambda>_.
      if is_unsigned d then
        res_bind (if \<not> is_buffer e then require_signless d else Inr ()) (\<lambda>_. emit_scalar dst e)
      else
        let width = nest_width dst e in
        res_bind (check_repack e shape width) (\<lambda>_.
          if vectorizes shape width then emit_vector dst e width else emit_scalar dst e))))"

end
