(* ===== verification/Emit_Sem.thy ===== *)
theory Emit_Sem
  imports Emit
begin

text \<open>
  What an emitted nest computes. The arithmetic of the target is a parameter: one function per operation,
  acting on single elements. A vector operation acts lane by lane, a vector read takes consecutive elements
  of the innermost axis, and a nest runs its body once per trip, each trip writing one element or one run of
  lanes. The reference is the assignment itself, read as numpy reads it: every element of the destination
  becomes the expression evaluated at that element, operands broadcast.
\<close>

section \<open>Running a nest\<close>

record 'v arith_api =
  a_const :: "dtype \<Rightarrow> numeric \<Rightarrow> 'v"
  a_index :: "dtype \<Rightarrow> int \<Rightarrow> 'v"
  a_unary :: "dtype \<Rightarrow> string \<Rightarrow> 'v \<Rightarrow> 'v"
  a_binary :: "dtype \<Rightarrow> string \<Rightarrow> 'v \<Rightarrow> 'v \<Rightarrow> 'v"
  a_cmp :: "dtype \<Rightarrow> string \<Rightarrow> 'v \<Rightarrow> 'v \<Rightarrow> 'v"
  a_select :: "'v \<Rightarrow> 'v \<Rightarrow> 'v \<Rightarrow> 'v"
  a_fma :: "dtype \<Rightarrow> 'v \<Rightarrow> 'v \<Rightarrow> 'v \<Rightarrow> 'v"
  a_conv :: "conv \<Rightarrow> dtype \<Rightarrow> dtype \<Rightarrow> 'v \<Rightarrow> 'v"
  a_bitcast :: "dtype \<Rightarrow> dtype \<Rightarrow> 'v \<Rightarrow> 'v"
  a_piece :: "dtype \<Rightarrow> dtype \<Rightarrow> 'v \<Rightarrow> int \<Rightarrow> 'v"

type_synonym 'v memory = "nat \<Rightarrow> int list \<Rightarrow> 'v"

fun ix_val :: "(nat \<Rightarrow> int) \<Rightarrow> int list \<Rightarrow> ix \<Rightarrow> int" where
  "ix_val \<rho> vs (IxIv k) = vs ! k"
| "ix_val \<rho> vs (IxConst c) = c"
| "ix_val \<rho> vs (IxLeaf i) = \<rho> i"
| "ix_val \<rho> vs (IxApply e) = eval_index \<rho> e"
| "ix_val \<rho> vs (IxAdd a b) = ix_val \<rho> vs a + ix_val \<rho> vs b"

text \<open>The index \<open>j\<close> elements further along the innermost axis.\<close>

definition bump :: "int list \<Rightarrow> int \<Rightarrow> int list" where
  "bump is j = (if is = [] then [] else butlast is @ [last is + j])"

text \<open>\<open>scf.index_switch\<close>: case \<open>i\<close> for the first values, the last one by default.\<close>

definition switch_pick :: "numeric list \<Rightarrow> int \<Rightarrow> numeric" where
  "switch_pick ns i = (if 0 \<le> i \<and> i < int (length ns) - 1 then ns ! nat i else last ns)"

fun lane :: "'v arith_api \<Rightarrow> (nat \<Rightarrow> int) \<Rightarrow> 'v memory \<Rightarrow> int list \<Rightarrow> ir \<Rightarrow> int \<Rightarrow> 'v" where
  "lane A \<rho> m vs (IRead b idx) j = m b (bump (map (ix_val \<rho> vs) idx) j)"
| "lane A \<rho> m vs (ILoad b idx) j = m b (map (ix_val \<rho> vs) idx)"
| "lane A \<rho> m vs (IBroadcast x) j = lane A \<rho> m vs x 0"
| "lane A \<rho> m vs (IConst d n) j = a_const A d n"
| "lane A \<rho> m vs (IIndexCast d e) j = a_index A d (eval_index \<rho> e)"
| "lane A \<rho> m vs (ISwitch d e ns) j = a_const A d (switch_pick ns (eval_index \<rho> e))"
| "lane A \<rho> m vs (IUnary d f x) j = a_unary A d f (lane A \<rho> m vs x j)"
| "lane A \<rho> m vs (IBinary d f x y) j = a_binary A d f (lane A \<rho> m vs x j) (lane A \<rho> m vs y j)"
| "lane A \<rho> m vs (ICmp d f x y) j = a_cmp A d f (lane A \<rho> m vs x j) (lane A \<rho> m vs y j)"
| "lane A \<rho> m vs (ISelect c x y) j = a_select A (lane A \<rho> m vs c j) (lane A \<rho> m vs x j) (lane A \<rho> m vs y j)"
| "lane A \<rho> m vs (IFma d x y z) j = a_fma A d (lane A \<rho> m vs x j) (lane A \<rho> m vs y j) (lane A \<rho> m vs z j)"
| "lane A \<rho> m vs (IConv c s d x) j = a_conv A c s d (lane A \<rho> m vs x j)"
| "lane A \<rho> m vs (IBitcast s d x) j = a_bitcast A s d (lane A \<rho> m vs x j)"
| "lane A \<rho> m vs (IRepack s d r x) j = a_piece A s d (lane A \<rho> m vs x (j div r)) (j mod r)"

text \<open>The trips of a nest, outermost loop first.\<close>

definition loop_values :: "int \<times> int \<times> int \<Rightarrow> int list" where
  "loop_values b = (case b of (lo, hi, st) \<Rightarrow> map (\<lambda>k. lo + st * int k) [0..<nat ((hi - lo + st - 1) div st)])"

fun nest_points :: "(int \<times> int \<times> int) list \<Rightarrow> int list list" where
  "nest_points [] = [[]]"
| "nest_points (b # bs) = concat (map (\<lambda>v. map ((#) v) (nest_points bs)) (loop_values b))"

definition lanes_of :: "int option \<Rightarrow> int list" where
  "lanes_of w = (case w of None \<Rightarrow> [0] | Some n \<Rightarrow> map int [0..<nat n])"

text \<open>One trip: the value is computed from the memory before it, then stored lane by lane.\<close>

definition trip_writes :: "'v arith_api \<Rightarrow> (nat \<Rightarrow> int) \<Rightarrow> nest \<Rightarrow> 'v memory \<Rightarrow> int list \<Rightarrow> (int list \<times> 'v) list" where
  "trip_writes A \<rho> N m vs =
     map (\<lambda>j. (bump (map (ix_val \<rho> vs) (n_index N)) j, lane A \<rho> m vs (n_value N) j)) (lanes_of (n_lanes N))"

definition write_all :: "('a \<Rightarrow> 'v) \<Rightarrow> ('a \<times> 'v) list \<Rightarrow> 'a \<Rightarrow> 'v" where
  "write_all f ws = foldl (\<lambda>f (a, v). f(a := v)) f ws"

definition run_trip :: "'v arith_api \<Rightarrow> (nat \<Rightarrow> int) \<Rightarrow> nest \<Rightarrow> 'v memory \<Rightarrow> int list \<Rightarrow> 'v memory" where
  "run_trip A \<rho> N m vs = m(n_dst N := write_all (m (n_dst N)) (trip_writes A \<rho> N m vs))"

definition run_nest :: "'v arith_api \<Rightarrow> (nat \<Rightarrow> int) \<Rightarrow> nest \<Rightarrow> 'v memory \<Rightarrow> 'v memory" where
  "run_nest A \<rho> N m = foldl (run_trip A \<rho> N) m (nest_points (n_bounds N))"

section \<open>The assignment, as numpy reads it\<close>

text \<open>The index of an operand of shape \<open>shape\<close> that the destination index \<open>p\<close> reads.\<close>

definition operand_point :: "int list \<Rightarrow> int list \<Rightarrow> int list" where
  "operand_point shape p =
     map2 (\<lambda>e x. if e = 1 then 0 else x) shape (drop (length p - length shape) p)"

text \<open>The buffer coordinates of a region's element: an axis an integer took sits at its offset.\<close>

fun place :: "bool list \<Rightarrow> int list \<Rightarrow> int list \<Rightarrow> int list" where
  "place (True # ds) (b # bs) q = b # place ds bs q"
| "place (False # ds) (b # bs) (x # q) = (b + x) # place ds bs q"
| "place _ _ _ = []"

definition elem_addr :: "(nat \<Rightarrow> int) \<Rightarrow> buffer_read \<Rightarrow> int list \<Rightarrow> int list" where
  "elem_addr \<rho> l q = place (axes_dropped l) (map (eval_index \<rho>) (axes_base l)) q"

definition leaf_addr :: "(nat \<Rightarrow> int) \<Rightarrow> buffer_read \<Rightarrow> int list \<Rightarrow> int list" where
  "leaf_addr \<rho> l p = elem_addr \<rho> l (operand_point (leaf_shape l) p)"

definition number :: "dtype \<Rightarrow> numeric \<Rightarrow> numeric" where
  "number d n = (case typed_constant d n of Inl _ \<Rightarrow> n | Inr k \<Rightarrow> k)"

fun denote_scalar :: "'v arith_api \<Rightarrow> (nat \<Rightarrow> int) \<Rightarrow> dtype \<Rightarrow> scalar \<Rightarrow> 'v" where
  "denote_scalar A \<rho> d (SNum n) = a_const A d (number d n)"
| "denote_scalar A \<rho> d (SIndex e) = a_const A d (number d (NInt (eval_index \<rho> e)))"
| "denote_scalar A \<rho> d (SValue (SwConst t n)) = a_const A t n"
| "denote_scalar A \<rho> d (SValue (SwCases t e ns)) = a_const A t (switch_pick ns (eval_index \<rho> e))"
| "denote_scalar A \<rho> d (SSwitch s) = a_const A d (NInt 0)"

text \<open>The width of the pieces a repack splits an element into; the piece at index \<open>q\<close> of the run.\<close>

definition piece_at :: "'v arith_api \<Rightarrow> (nat \<Rightarrow> int) \<Rightarrow> 'v memory \<Rightarrow> dtype \<Rightarrow> buffer_read \<Rightarrow> int list \<Rightarrow> 'v" where
  "piece_at A \<rho> m d l p =
     (let r = bits (leaf_dtype l) div bits d;
          q = operand_point (presented_shape (leaf_shape l) r) p in
      a_piece A (leaf_dtype l) d (m (leaf_id l) (elem_addr \<rho> l (butlast q @ [last q div r]))) (last q mod r))"

fun denote :: "'v arith_api \<Rightarrow> (nat \<Rightarrow> int) \<Rightarrow> 'v memory \<Rightarrow> dtype \<Rightarrow> bexpr \<Rightarrow> int list \<Rightarrow> 'v" where
  "denote A \<rho> m d (BufferE l) p = m (leaf_id l) (leaf_addr \<rho> l p)"
| "denote A \<rho> m d (ScalarE v) p = denote_scalar A \<rho> d v"
| "denote A \<rho> m d (UnaryE f a) p = a_unary A d f (denote A \<rho> m d a p)"
| "denote A \<rho> m d (BinaryE f a b) p = a_binary A d f (denote A \<rho> m d a p) (denote A \<rho> m d b p)"
| "denote A \<rho> m d (CompareE f a b) p = a_cmp A d f (denote A \<rho> m d a p) (denote A \<rho> m d b p)"
| "denote A \<rho> m d (SelectE c a b) p =
     a_select A (denote A \<rho> m d c p) (denote A \<rho> m d a p) (denote A \<rho> m d b p)"
| "denote A \<rho> m d (FmaE a b c) p = a_fma A d (denote A \<rho> m d a p) (denote A \<rho> m d b p) (denote A \<rho> m d c p)"
| "denote A \<rho> m d (CastE t signed x) p =
     (case element_dtype x of
        None \<Rightarrow> denote A \<rho> m t x p
      | Some s \<Rightarrow>
          (case conversion_op s t (clamped_into x t) signed of
             Inl _ \<Rightarrow> denote A \<rho> m s x p
           | Inr c \<Rightarrow> a_conv A c s t (denote A \<rho> m s x p)))"
| "denote A \<rho> m d (BitcastE t x) p =
     (case (element_dtype x, x) of
        (None, _) \<Rightarrow> denote A \<rho> m t x p
      | (Some s, BufferE l) \<Rightarrow>
          if bits s \<noteq> bits t then piece_at A \<rho> m t l p else a_bitcast A s t (denote A \<rho> m s x p)
      | (Some s, _) \<Rightarrow> a_bitcast A s t (denote A \<rho> m s x p))"
| "denote A \<rho> m d (ReduceE f a) p = denote A \<rho> m d a p"

text \<open>Every cast's target is the element type of the region it stands in.\<close>

fun typed :: "dtype \<Rightarrow> bexpr \<Rightarrow> bool" where
  "typed d (BufferE l) = True"
| "typed d (ScalarE v) = True"
| "typed d (UnaryE f a) = typed d a"
| "typed d (BinaryE f a b) = (typed d a \<and> typed d b)"
| "typed d (CompareE f a b) = (typed d a \<and> typed d b)"
| "typed d (SelectE c a b) = (typed d c \<and> typed d a \<and> typed d b)"
| "typed d (FmaE a b c) = (typed d a \<and> typed d b \<and> typed d c)"
| "typed d (CastE t s x) = (t = d \<and> (case element_dtype x of None \<Rightarrow> False | Some u \<Rightarrow> typed u x))"
| "typed d (BitcastE t x) =
     (t = d \<and>
      (case element_dtype x of
         None \<Rightarrow> False
       | Some u \<Rightarrow> typed u x \<and> (bits u = bits t \<or> 0 < bits t \<and> bits t < bits u \<and> bits u mod bits t = 0)))"
| "typed d (ReduceE f a) = typed d a"

text \<open>A leaf whose lists agree in length, with positive extents.\<close>

definition wf_read :: "buffer_read \<Rightarrow> bool" where
  "wf_read l \<longleftrightarrow> length (axes_dropped l) = length (axes_sizes l) \<and> length (axes_base l) = length (axes_sizes l) \<and>
     (\<forall>n \<in> set (axes_sizes l). 1 \<le> n) \<and> (\<forall>e \<in> set (axes_base l). wf_index e)"

text \<open>The innermost axis of the buffer is walked, not taken by an integer.\<close>

definition aligned :: "buffer_read \<Rightarrow> bool" where
  "aligned l \<longleftrightarrow> axes_dropped l = [] \<or> \<not> last (axes_dropped l)"

text \<open>Leaves that the read dict identifies drop the same axes.\<close>

definition keyed :: "buffer_read set \<Rightarrow> bool" where
  "keyed L \<longleftrightarrow> (\<forall>l \<in> L. \<forall>l' \<in> L. read_key_of l = read_key_of l' \<longrightarrow> axes_dropped l = axes_dropped l')"

definition index_cast_exact :: "'v arith_api \<Rightarrow> bool" where
  "index_cast_exact A \<longleftrightarrow> (\<forall>d k. \<not> is_float d \<longrightarrow> a_index A d k = a_const A d (NInt k))"

section \<open>Indices\<close>

lemma bump_0 [simp]: "bump is 0 = is"
  by (simp add: bump_def)

lemma length_bump [simp]: "length (bump is j) = length is"
  by (simp add: bump_def)

lemma ix_val_materialize: "ix_val \<rho> vs (materialize_index e) = eval_index \<rho> e"
proof (cases "terms e")
  case Nil
  then show ?thesis by (simp add: materialize_index_def eval_no_terms)
next
  case (Cons t ts)
  then show ?thesis
    by (cases t; cases "fst t"; cases ts) (auto simp: materialize_index_def eval_index_eq)
qed

lemma is_zero_eval: "is_zero e \<Longrightarrow> eval_index \<rho> e = 0"
  by (auto simp: is_zero_def dest: as_const_sound)

lemma sequence_opt_Cons: "sequence_opt (x # xs) = Some ys \<longleftrightarrow> (\<exists>z zs. x = Some z \<and> sequence_opt xs = Some zs \<and> ys = z # zs)"
  by (auto split: option.splits)

abbreviation kept_extents :: "(int \<times> bool \<times> index_expr) list \<Rightarrow> int list" where
  "kept_extents axs \<equiv> map fst (filter (\<lambda>(e, d, s). \<not> d) axs)"

lemma leaf_index_from_val:
  assumes "sequence_opt (leaf_index_from axs dst ivs zero) = Some xs"
    and "zero = None \<or> zero = Some (IxConst 0)"
    and "list_all2 (\<lambda>e t. e = t \<or> e = 1) (kept_extents axs) dst"
    and "list_all2 (\<lambda>x n. 0 \<le> x \<and> x < n) (map (ix_val \<rho> vs) ivs) dst"
  shows "map (ix_val \<rho> vs) xs =
    place (map (fst \<circ> snd) axs) (map (eval_index \<rho> \<circ> snd \<circ> snd) axs)
      (map2 (\<lambda>e x. if e = 1 then 0 else x) (kept_extents axs) (map (ix_val \<rho> vs) ivs))"
  using assms(1,3,4,2)
proof (induction axs dst ivs zero arbitrary: xs rule: leaf_index_from.induct)
  case (1 dst ivs zero)
  then show ?case by simp
next
  case (2 e s axs dst ivs zero)
  then obtain z zs where "xs = z # zs" "z = materialize_index s"
    "sequence_opt (leaf_index_from axs dst ivs zero) = Some zs"
    by (auto simp: sequence_opt_Cons)
  with 2 show ?case by (simp add: ix_val_materialize)
next
  case (3 e s axs dst ivs zero)
  obtain t dst' where dst: "dst = t # dst'" "e = t \<or> e = 1" "list_all2 (\<lambda>e t. e = t \<or> e = 1) (kept_extents axs) dst'"
    using 3(3) by (auto simp: list_all2_Cons1)
  obtain iv ivs' where ivs: "ivs = iv # ivs'" "0 \<le> ix_val \<rho> vs iv" "ix_val \<rho> vs iv < t"
    "list_all2 (\<lambda>x n. 0 \<le> x \<and> x < n) (map (ix_val \<rho> vs) ivs') dst'"
    using 3(4) dst(1) by (cases ivs) auto
  from 3(2) obtain z zs where z: "xs = z # zs"
    "(if is_zero s then (if e = t then Some iv else zero)
       else if e \<noteq> t then Some (materialize_index s) else Some (IxAdd iv (materialize_index s))) = Some z"
    "sequence_opt (leaf_index_from axs dst' ivs' zero) = Some zs"
    unfolding dst(1) ivs(1) leaf_index_from.simps(3) Let_def list.sel sequence_opt_Cons by blast
  have "ix_val \<rho> vs z = eval_index \<rho> s + (if e = 1 then 0 else ix_val \<rho> vs iv)"
    using z(2) dst(2) ivs(2,3) 3(5) is_zero_eval [of s \<rho>]
    by (auto simp: ix_val_materialize split: if_splits)
  then show ?case
    using 3(1) [OF refl refl, of zs] z dst ivs 3(5) by simp
qed

lemma slice_shape_kept: "leaf_shape l = kept_extents (leaf_axes l)" if "wf_read l"
proof (cases l)
  case (ReadWhole b)
  have "filter (\<lambda>(e, d, s). \<not> d) (zip ns (zip (replicate (length ns) False) es)) = zip ns (zip (replicate (length ns) False) es)"
    if "length es = length ns" for ns :: "int list" and es :: "index_expr list"
    using that by (induction ns es rule: list_induct2') auto
  with that show ?thesis by (simp add: ReadWhole leaf_axes_def wf_read_def)
next
  case (ReadRegion v)
  have "map fst (filter (\<lambda>(s, drop). \<not> drop) (zip ns ds)) = kept_extents (zip ns (zip ds es))"
    if "length ds = length ns" "length es = length ns" for ns :: "int list" and ds and es :: "index_expr list"
    using that
  proof (induction ns arbitrary: ds es)
    case (Cons n ns)
    then obtain d ds' e es' where "ds = d # ds'" "es = e # es'" by (metis Suc_length_conv length_Cons)
    with Cons show ?case by auto
  qed simp
  with that show ?thesis by (simp add: ReadRegion leaf_axes_def wf_read_def slice_shape_def)
qed

lemma broadcast_offset_Some:
  "broadcast_offset shape dst = Some off \<longleftrightarrow>
     length shape \<le> length dst \<and> off = length dst - length shape \<and> list_all2 (\<lambda>e t. e = t \<or> e = 1) shape (drop off dst)"
proof (cases "length dst < length shape")
  case False
  define k where "k = length dst - length shape"
  have "list_all (\<lambda>(e, t). e = t \<or> e = 1) (zip shape (drop k dst)) \<longleftrightarrow> list_all2 (\<lambda>e t. e = t \<or> e = 1) shape (drop k dst)"
    using False unfolding list_all2_iff list_all_iff k_def by simp
  with False show ?thesis by (auto simp: broadcast_offset_def Let_def k_def)
qed (simp add: broadcast_offset_def)

lemma map_leaf_axes:
  assumes "wf_read l"
  shows "map (fst \<circ> snd) (leaf_axes l) = axes_dropped l"
    and "map (eval_index \<rho> \<circ> snd \<circ> snd) (leaf_axes l) = map (eval_index \<rho>) (axes_base l)"
  using assms by (simp_all add: leaf_axes_def wf_read_def flip: map_map)

text \<open>The indices emitted for a leaf are the coordinates of the element the destination index reads.\<close>

lemma leaf_index_val:
  assumes "leaf_index l dst ivs zero = Inr xs" and "wf_read l"
    and "zero = None \<or> zero = Some (IxConst 0)" and "map (ix_val \<rho> vs) ivs \<in> set (box dst)"
  shows "map (ix_val \<rho> vs) xs = leaf_addr \<rho> l (map (ix_val \<rho> vs) ivs)"
proof -
  obtain off where off: "broadcast_offset (leaf_shape l) dst = Some off"
    and xs: "sequence_opt (leaf_index_from (leaf_axes l) (drop off dst) (drop off ivs) zero) = Some xs"
    using assms(1) by (auto simp: leaf_index_def complete_index_def split: option.splits)
  have len: "length ivs = length dst" using box_length [OF assms(4)] by simp
  have "list_all2 (\<lambda>x n. 0 \<le> x \<and> x < n) (map (ix_val \<rho> vs) (drop off ivs)) (drop off dst)"
    using assms(4) by (simp add: box_iff flip: drop_map)
  moreover have o: "off = length dst - length (leaf_shape l)"
    and "list_all2 (\<lambda>e t. e = t \<or> e = 1) (kept_extents (leaf_axes l)) (drop off dst)"
    using off slice_shape_kept [OF assms(2)] by (auto simp: broadcast_offset_Some)
  ultimately have "map (ix_val \<rho> vs) xs =
    place (map (fst \<circ> snd) (leaf_axes l)) (map (eval_index \<rho> \<circ> snd \<circ> snd) (leaf_axes l))
      (map2 (\<lambda>e x. if e = 1 then 0 else x) (kept_extents (leaf_axes l)) (map (ix_val \<rho> vs) (drop off ivs)))"
    by (intro leaf_index_from_val [OF xs assms(3)])
  then show ?thesis
    unfolding map_leaf_axes [OF assms(2)] slice_shape_kept [OF assms(2), symmetric]
    by (simp add: leaf_addr_def elem_addr_def operand_point_def o len drop_map)
qed

end
