(* ===== verification/Emit_Correct.thy ===== *)
theory Emit_Correct
  imports Emit_Sem
begin

text \<open>
  The emitter is correct where it may be used (\<open>assignable\<close>): the nest it emits leaves in each element of the
  destination the value of the assigned expression at that element, and touches nothing else. What it emits elsewhere
  is evaluated at the end.
\<close>

section \<open>Lanes\<close>

text \<open>The points one trip covers, for the loop values \<open>vs\<close> of a nest over \<open>S\<close>.\<close>

definition trip_ok :: "int list \<Rightarrow> int option \<Rightarrow> int list \<Rightarrow> bool" where
  "trip_ok S w vs \<longleftrightarrow> (\<forall>j \<in> set (lanes_of w). bump vs j \<in> set (box S)) \<and> (w \<noteq> None \<longrightarrow> S \<noteq> [] \<and> 0 < the w \<and> last S mod the w = 0)"

lemma lanes_None [simp]: "lanes_of None = [0]"
  by (simp add: lanes_of_def)

lemma lanes_1 [simp]: "lanes_of (Some 1) = [0]"
  by (simp add: lanes_of_def)

lemma lanes_Some: "j \<in> set (lanes_of (Some w)) \<longleftrightarrow> 0 \<le> j \<and> j < w"
  by (auto simp: lanes_of_def image_iff intro!: bexI [of _ "nat j"])

lemma lane_0: "trip_ok S w vs \<Longrightarrow> 0 \<in> set (lanes_of w)"
  by (cases w) (auto simp: trip_ok_def lanes_Some)

lemma trip_box: "trip_ok S w vs \<Longrightarrow> vs \<in> set (box S)"
  using lane_0 [of S w vs] by (auto simp: trip_ok_def dest!: bspec [of _ _ 0])

lemma trip_lane: "trip_ok S w vs \<Longrightarrow> j \<in> set (lanes_of w) \<Longrightarrow> bump vs j \<in> set (box S)"
  by (simp add: trip_ok_def)

lemma ix_val_nest_ivs: "length vs = length S \<Longrightarrow> map (ix_val \<rho> vs) (nest_ivs S) = vs"
  using map_nth [of vs] by (simp add: nest_ivs_def comp_def)

lemma length_place:
  "length ds = length bs \<Longrightarrow> length (filter Not ds) = length q \<Longrightarrow> length (place ds bs q) = length ds"
  by (induction ds bs q rule: place.induct) auto

lemma bump_Cons: "xs \<noteq> [] \<Longrightarrow> bump (x # xs) j = x # bump xs j"
  by (simp add: bump_def)

lemma place_bump:
  assumes "length ds = length bs" and "length (filter Not ds) = length q" and "ds \<noteq> []" and "\<not> last ds"
  shows "place ds bs (bump q j) = bump (place ds bs q) j"
  using assms
proof (induction ds bs q rule: place.induct)
  case (1 ds b bs q)
  then have ds: "ds \<noteq> []" by auto
  then have "place ds bs q \<noteq> []" using length_place [of ds bs q] 1 by auto
  with 1 ds show ?case by (simp add: bump_Cons)
next
  case (2 ds b bs x q)
  show ?case
  proof (cases "ds = []")
    case True
    with 2 show ?thesis by (simp add: bump_def)
  next
    case False
    then have "\<not> last ds" using 2(5) by simp
    then have "False \<in> set ds" using last_in_set [OF False] by simp
    then have "filter Not ds \<noteq> []" by (auto simp: filter_empty_conv)
    then have q: "q \<noteq> []" using 2(3) by auto
    have "place ds bs q \<noteq> []" using length_place [of ds bs q] 2 False by auto
    with 2 False q show ?thesis by (simp add: bump_Cons)
  qed
qed auto

lemma map2_bump_last:
  "length xs = length ys \<Longrightarrow> xs \<noteq> [] \<Longrightarrow> f (last xs) (last ys + j) = f (last xs) (last ys) + j \<Longrightarrow>
     map2 f xs (bump ys j) = bump (map2 f xs ys) j"
proof (induction xs ys rule: list_induct2)
  case (Cons x xs y ys)
  then show ?case by (cases "xs = []") (auto simp: bump_def)
qed simp

lemma map2_bump_fixed:
  "length xs = length ys \<Longrightarrow> xs \<noteq> [] \<Longrightarrow> f (last xs) (last ys + j) = f (last xs) (last ys) \<Longrightarrow>
     map2 f xs (bump ys j) = map2 f xs ys"
proof (induction xs ys rule: list_induct2)
  case (Cons x xs y ys)
  then show ?case by (cases "xs = []") (auto simp: bump_def)
qed simp

lemma drop_bump: "n < length p \<Longrightarrow> drop n (bump p j) = bump (drop n p) j"
  by (auto simp: bump_def drop_butlast)

lemma length_operand_point: "length shape \<le> length p \<Longrightarrow> length (operand_point shape p) = length shape"
  by (simp add: operand_point_def)

lemma operand_point_bump:
  assumes "length shape \<le> length p" and "shape \<noteq> []" and "last shape \<noteq> 1"
  shows "operand_point shape (bump p j) = bump (operand_point shape p) j"
proof -
  have "length p - length shape < length p" using assms by (cases shape; cases p) auto
  then show ?thesis
    using assms unfolding operand_point_def length_bump
    by (subst drop_bump) (auto intro!: map2_bump_last)
qed

lemma operand_point_fixed:
  assumes "length shape \<le> length p" and "shape = [] \<or> last shape = 1"
  shows "operand_point shape (bump p j) = operand_point shape p"
proof (cases "shape = []")
  case False
  then have "length p - length shape < length p" using assms by (cases shape; cases p) auto
  then show ?thesis
    using assms False unfolding operand_point_def length_bump
    by (subst drop_bump) (auto intro!: map2_bump_fixed)
qed (simp add: operand_point_def)

lemma wf_read_lengths:
  assumes "wf_read l"
  shows "length (axes_dropped l) = length (axes_base l)" and "length (filter Not (axes_dropped l)) = length (leaf_shape l)"
proof -
  show "length (axes_dropped l) = length (axes_base l)" using assms by (simp add: wf_read_def)
  have "length (filter Not ds) = length (kept_extents (zip ns (zip ds es)))"
    if "length ds = length ns" "length es = length ns" for ns :: "int list" and ds and es :: "index_expr list"
    using that
  proof (induction ns arbitrary: ds es)
    case (Cons n ns)
    then obtain d ds' e es' where "ds = d # ds'" "es = e # es'" by (metis Suc_length_conv length_Cons)
    with Cons show ?case by auto
  qed simp
  then show "length (filter Not (axes_dropped l)) = length (leaf_shape l)"
    using assms unfolding slice_shape_kept [OF assms] leaf_axes_def by (simp add: wf_read_def)
qed

lemma elem_addr_bump:
  assumes "wf_read l" and "aligned l" and "length q = length (leaf_shape l)" and "leaf_shape l \<noteq> []"
  shows "elem_addr \<rho> l (bump q j) = bump (elem_addr \<rho> l q) j"
  using assms wf_read_lengths [OF assms(1)] unfolding elem_addr_def
  by (intro place_bump) (auto simp: aligned_def)

section \<open>Reads\<close>

text \<open>An environment of the emitter for a nest over \<open>S\<close> with lanes \<open>w\<close>, whose induction variables stand at \<open>vs\<close>.\<close>

definition env_ok :: "(nat \<Rightarrow> int) \<Rightarrow> int list \<Rightarrow> int option \<Rightarrow> int list \<Rightarrow> nest_env \<Rightarrow> bool" where
  "env_ok \<rho> S w vs env \<longleftrightarrow> ne_shape env = S \<and> map (ix_val \<rho> vs) (ne_ivs env) = vs \<and> ne_lanes env = w \<and>
     (ne_zero env = None \<or> ne_zero env = Some (IxConst 0))"

text \<open>A value whose lanes are the elements that leaf \<open>l\<close> contributes to the points of the trip.\<close>

definition reads_leaf :: "'v arith_api \<Rightarrow> (nat \<Rightarrow> int) \<Rightarrow> int option \<Rightarrow> int list \<Rightarrow> ir \<Rightarrow> buffer_read \<Rightarrow> bool" where
  "reads_leaf A \<rho> w vs v l \<longleftrightarrow>
     (\<forall>m. \<forall>j \<in> set (lanes_of w). lane A \<rho> m vs v j = m (leaf_id l) (leaf_addr \<rho> l (bump vs j)))"

lemma list_all2_last: "list_all2 P xs ys \<Longrightarrow> xs \<noteq> [] \<Longrightarrow> P (last xs) (last ys)"
  by (induction rule: list_all2_induct) (auto simp: list_all2_Nil)

lemma load_leaf_reads:
  assumes "load_leaf env l = Inr v" and "env_ok \<rho> S w vs env" and "trip_ok S w vs" and "wf_read l"
    and "w \<noteq> None \<longrightarrow> aligned l"
  shows "reads_leaf A \<rho> w vs v l"
proof -
  have box: "vs \<in> set (box S)" using trip_box [OF assms(3)] .
  then have len: "length vs = length S" by (rule box_length)
  have ivs: "map (ix_val \<rho> vs) (ne_ivs env) = vs" using assms(2) by (simp add: env_ok_def)
  obtain index where index: "leaf_index l S (ne_ivs env) (ne_zero env) = Inr index"
    and v: "v = (if w = None then ILoad (leaf_id l) index
                 else if leaf_shape l \<noteq> [] \<and> last (leaf_shape l) = last S then IRead (leaf_id l) index
                 else IBroadcast (ILoad (leaf_id l) index))"
    using assms(1,2) by (auto simp: load_leaf_def env_ok_def res_bind_Inr_iff split: if_splits)
  have val: "map (ix_val \<rho> vs) index = leaf_addr \<rho> l vs"
    using leaf_index_val [OF index assms(4), of \<rho> vs] assms(2) box ivs by (auto simp: env_ok_def)
  obtain off where "broadcast_offset (leaf_shape l) S = Some off"
    using index by (auto simp: leaf_index_def split: option.splits)
  then have bc: "length (leaf_shape l) \<le> length S" "list_all2 (\<lambda>e t. e = t \<or> e = 1) (leaf_shape l) (drop (length S - length (leaf_shape l)) S)"
    by (auto simp: broadcast_offset_Some)
  have qlen: "length (operand_point (leaf_shape l) vs) = length (leaf_shape l)"
    using bc(1) len by (simp add: length_operand_point)
  show ?thesis
  proof (cases "w = None")
    case True
    then show ?thesis using val by (simp add: reads_leaf_def v)
  next
    case False
    then obtain n where n: "w = Some n" "S \<noteq> []" "0 < n" "last S mod n = 0" using assms(3) by (auto simp: trip_ok_def)
    consider (walk) "leaf_shape l \<noteq> []" "last (leaf_shape l) = last S" "last S \<noteq> 1"
      | (unit) "leaf_shape l \<noteq> []" "last (leaf_shape l) = last S" "last S = 1"
      | (pin) "leaf_shape l = [] \<or> last (leaf_shape l) \<noteq> last S" by blast
    then show ?thesis
    proof cases
      case walk
      have "leaf_addr \<rho> l (bump vs j) = bump (leaf_addr \<rho> l vs) j" for j
        using walk assms(4,5) False bc(1) len qlen
        by (simp add: leaf_addr_def operand_point_bump elem_addr_bump)
      with walk val False show ?thesis by (simp add: reads_leaf_def v)
    next
      case unit
      then have "n dvd 1" using n(4) by (simp add: dvd_eq_mod_eq_0)
      then have "n = 1" using n(3) by simp
      with unit val False n show ?thesis by (simp add: reads_leaf_def v lanes_Some)
    next
      case pin
      have "leaf_shape l = [] \<or> last (leaf_shape l) = 1"
      proof (rule ccontr)
        assume *: "\<not> ?thesis"
        then have "last (leaf_shape l) = last (drop (length S - length (leaf_shape l)) S) \<or> last (leaf_shape l) = 1"
          by (intro list_all2_last [OF bc(2)]) simp
        moreover have "length S - length (leaf_shape l) < length S" using * n(2) by simp
        ultimately show False using * pin by (simp add: last_drop)
      qed
      then have "leaf_addr \<rho> l (bump vs j) = leaf_addr \<rho> l vs" for j
        using bc(1) len by (simp add: leaf_addr_def operand_point_fixed)
      with pin val False show ?thesis by (auto simp: reads_leaf_def v)
    qed
  qed
qed

text \<open>Leaves the dict identifies read the same elements, when they drop the same axes.\<close>

lemma same_key_same_addr:
  assumes "read_key_of l = read_key_of l'" and "axes_dropped l = axes_dropped l'" and "wf_read l" and "wf_read l'"
  shows "leaf_id l = leaf_id l'" and "leaf_addr \<rho> l p = leaf_addr \<rho> l' p"
proof -
  show "leaf_id l = leaf_id l'" using assms(1) by (simp add: read_key_of_def)
  have shape: "leaf_shape l = leaf_shape l'" using assms(1) by (simp add: read_key_of_def)
  have "map (eval_index \<rho>) (axes_base l) = map (eval_index \<rho>) (axes_base l')"
  proof (cases l)
    case (ReadWhole b)
    then show ?thesis using assms(1) by (cases l') (auto simp: read_key_of_def)
  next
    case (ReadRegion v)
    then obtain v' where v': "l' = ReadRegion v'" "map expr_key (offsets v) = map expr_key (offsets v')"
      using assms(1) by (cases l') (auto simp: read_key_of_def)
    have "list_all2 (\<lambda>e e'. expr_key e = expr_key e') (offsets v) (offsets v')"
      using v'(2) by (simp add: list_all2_conv_all_nth list_eq_iff_nth_eq)
    moreover have "\<forall>e \<in> set (offsets v). wf_index e" "\<forall>e \<in> set (offsets v'). wf_index e"
      using assms(3,4) ReadRegion v'(1) by (auto simp: wf_read_def)
    ultimately have "list_all2 (\<lambda>e e'. eval_index \<rho> e = eval_index \<rho> e') (offsets v) (offsets v')"
      by (auto simp: list_all2_conv_all_nth intro!: eval_key(2))
    then show ?thesis using ReadRegion v'(1) by (simp add: list_all2_conv_all_nth list_eq_iff_nth_eq)
  qed
  then show "leaf_addr \<rho> l p = leaf_addr \<rho> l' p"
    using assms(2) shape by (simp add: leaf_addr_def elem_addr_def)
qed

definition reads_ok :: "'v arith_api \<Rightarrow> (nat \<Rightarrow> int) \<Rightarrow> int option \<Rightarrow> int list \<Rightarrow> buffer_read set \<Rightarrow> reads \<Rightarrow> bool" where
  "reads_ok A \<rho> w vs L rs \<longleftrightarrow> (\<forall>(k, v) \<in> set rs. \<forall>l \<in> L. read_key_of l = k \<longrightarrow> reads_leaf A \<rho> w vs v l)"

lemma reads_ok_Nil [simp]: "reads_ok A \<rho> w vs L []"
  by (simp add: reads_ok_def)

lemma reads_ok_lookup: "reads_ok A \<rho> w vs L rs \<Longrightarrow> map_of rs (read_key_of l) = Some v \<Longrightarrow> l \<in> L \<Longrightarrow> reads_leaf A \<rho> w vs v l"
  by (auto simp: reads_ok_def dest!: map_of_SomeD)

lemma reads_ok_insert:
  assumes "reads_ok A \<rho> w vs L rs" and "reads_leaf A \<rho> w vs v l" and "l \<in> L" and "keyed L" and "\<forall>l \<in> L. wf_read l"
  shows "reads_ok A \<rho> w vs L ((read_key_of l, v) # rs)"
proof -
  have "reads_leaf A \<rho> w vs v l'" if h: "l' \<in> L" "read_key_of l' = read_key_of l" for l'
  proof -
    have "axes_dropped l = axes_dropped l'" using assms(3,4) h unfolding keyed_def by metis
    then have "leaf_id l = leaf_id l'" "\<And>p. leaf_addr \<rho> l p = leaf_addr \<rho> l' p"
      using same_key_same_addr [of l l'] assms(3,5) h by auto
    then show ?thesis using assms(2) by (simp add: reads_leaf_def)
  qed
  with assms(1) show ?thesis by (auto simp: reads_ok_def)
qed

section \<open>Repacked reads\<close>

lemma map2_replicate_zero: "length xs = n \<Longrightarrow> map2 (\<lambda>e x. if e = 1 then 0 else x) xs (replicate n 0) = replicate n (0 :: int)"
  by (induction xs arbitrary: n) auto

text \<open>The nest makes a single trip of \<open>w\<close> lanes.\<close>

definition one_trip :: "int list \<Rightarrow> int option \<Rightarrow> bool" where
  "one_trip S w \<longleftrightarrow> (case w of None \<Rightarrow> False | Some n \<Rightarrow> S \<noteq> [] \<and> (\<forall>k \<in> set (butlast S). k = 1) \<and> last S = n)"

lemma place_zeros:
  "length ds = length bs \<Longrightarrow> length (filter Not ds) = n \<Longrightarrow> place ds bs (replicate n 0) = bs"
proof (induction ds bs arbitrary: n rule: list_induct2)
  case (Cons d ds b bs)
  then show ?case by (cases d; cases n) auto
qed simp

lemma elem_addr_zeros:
  "wf_read l \<Longrightarrow> elem_addr \<rho> l (replicate (length (leaf_shape l)) 0) = map (eval_index \<rho>) (axes_base l)"
  using wf_read_lengths [of l] by (simp add: elem_addr_def place_zeros)

lemma pinned_index_val:
  assumes "pinned_index l zero = Inr xs" and "zero = None \<or> zero = Some (IxConst 0)"
  shows "map (ix_val \<rho> vs) xs = map (eval_index \<rho>) (axes_base l)"
proof -
  have "map (ix_val \<rho> vs) xs = map (eval_index \<rho>) es"
    if "sequence_opt (map (\<lambda>s. if is_zero s then zero else Some (materialize_index s)) es) = Some xs" for es xs
    using that
  proof (induction es arbitrary: xs)
    case (Cons e es)
    then obtain z zs where "xs = z # zs" "(if is_zero e then zero else Some (materialize_index e)) = Some z"
      "sequence_opt (map (\<lambda>s. if is_zero s then zero else Some (materialize_index s)) es) = Some zs"
      unfolding list.map sequence_opt_Cons by blast
    with Cons.IH [of zs] assms(2) show ?case
      by (auto simp: ix_val_materialize is_zero_eval split: if_splits)
  qed simp
  with assms(1) show ?thesis by (auto simp: pinned_index_def complete_index_def split: option.splits)
qed

lemma one_trip_zero:
  assumes "trip_ok S w vs" and "one_trip S w"
  shows "vs = replicate (length S) 0"
proof -
  obtain n where n: "w = Some n" "S \<noteq> []" "\<forall>k \<in> set (butlast S). k = 1" "last S = n" "0 < n"
    using assms by (auto simp: one_trip_def trip_ok_def split: option.splits)
  have box: "list_all2 (\<lambda>i k. 0 \<le> i \<and> i < k) vs S" using trip_box [OF assms(1)] by (simp add: box_iff)
  have "bump vs (n - 1) \<in> set (box S)" using trip_lane [OF assms(1), of "n - 1"] n by (simp add: lanes_Some)
  then have bbox: "list_all2 (\<lambda>i k. 0 \<le> i \<and> i < k) (bump vs (n - 1)) S" by (simp add: box_iff)
  have vs: "vs \<noteq> []" using box n(2) by auto
  then have "bump vs (n - 1) \<noteq> []" by (simp add: bump_def)
  from list_all2_last [OF bbox this] have "last (bump vs (n - 1)) < last S" by simp
  then have "last vs + (n - 1) < n" using vs n(4) by (simp add: bump_def)
  moreover have "0 \<le> last vs" using list_all2_last [OF box vs] by simp
  ultimately have l0: "last vs = 0" by simp
  have len: "length vs = length S" using box by (rule list_all2_lengthD)
  have "vs ! k = 0" if k: "k < length vs" for k
  proof (cases "k = length vs - 1")
    case True
    with l0 vs show ?thesis by (simp add: last_conv_nth)
  next
    case False
    with k len have kb: "k < length (butlast S)" by simp
    then have "S ! k = 1" using n(3) by (metis nth_butlast nth_mem)
    with list_all2_nthD [OF box k] show ?thesis by simp
  qed
  with len show ?thesis by (simp add: list_eq_iff_nth_eq)
qed

lemma bump_replicate: "0 < n \<Longrightarrow> bump (replicate n 0) j = replicate (n - 1) 0 @ [j]"
  by (cases n) (simp_all add: bump_def replicate_append_same [symmetric] del: replicate_append_same)

lemma repack_reads:
  assumes "load_packed env l = Inr v" and "check_repacked alive S t l = Inr ()" and "env_ok \<rho> S w vs env"
    and "trip_ok S w vs" and "one_trip S w" and "wf_read l" and "aligned l"
    and r: "r = bits (leaf_dtype l) div bits t" "2 \<le> r" and j: "j \<in> set (lanes_of w)"
  shows "lane A \<rho> m vs (IRepack (leaf_dtype l) t r v) j = piece_at A \<rho> m t l (bump vs j)"
proof -
  let ?sh = "leaf_shape l" and ?P = "presented_shape (leaf_shape l) r"
  obtain n where n: "w = Some n" "S \<noteq> []" "\<forall>k \<in> set (butlast S). k = 1" "last S = n"
    using assms(5) by (auto simp: one_trip_def split: option.splits)
  obtain index where index: "pinned_index l (ne_zero env) = Inr index" and v: "v = IRead (leaf_id l) index"
    using assms(1,3) by (auto simp: load_packed_def res_bind_Inr_iff split: if_splits)
  have val: "map (ix_val \<rho> vs) index = map (eval_index \<rho>) (axes_base l)"
    using pinned_index_val [OF index] assms(3) by (auto simp: env_ok_def)
  obtain off where bo: "?sh \<noteq> []" "broadcast_offset ?P S = Some off"
    using assms(2) r(1) by (auto simp: check_repacked_def split: if_splits)
  have P: "?P \<noteq> []" "length ?P = length ?sh" "last ?P = last ?sh * r"
    using bo(1) by (simp_all add: presented_shape_def)
  have bc: "length ?P \<le> length S" "list_all2 (\<lambda>e k. e = k \<or> e = 1) ?P (drop (length S - length ?P) S)"
    using bo(2) by (auto simp: broadcast_offset_Some)
  have pos: "1 \<le> last ?sh"
    using assms(6) bo(1) last_in_set [OF bo(1)] unfolding slice_shape_kept [OF assms(6)]
    by (auto simp: leaf_axes_def wf_read_def dest!: set_zip_leftD)
  then have "1 * 2 \<le> last ?sh * r" using r(2) by (intro mult_mono) auto
  then have lastP: "last ?P \<noteq> 1" using P(3) by simp
  have vs: "vs = replicate (length S) 0" using one_trip_zero [OF assms(4,5)] .
  have op0: "operand_point ?P vs = replicate (length ?sh) 0"
    using bc(1) P(2) by (simp add: operand_point_def vs map2_replicate_zero)
  have "operand_point ?P (bump vs j) = bump (replicate (length ?sh) 0) j"
    using operand_point_bump [of ?P vs j] bc(1) P(1) lastP op0 by (simp add: vs)
  then have q: "operand_point ?P (bump vs j) = replicate (length ?sh - 1) 0 @ [j]"
    using bo(1) by (simp add: bump_replicate)
  have "elem_addr \<rho> l (replicate (length ?sh - 1) 0 @ [j div r]) = bump (elem_addr \<rho> l (replicate (length ?sh) 0)) (j div r)"
    using elem_addr_bump [OF assms(6,7), of "replicate (length ?sh) 0" \<rho> "j div r"] bo(1)
    by (simp add: bump_replicate)
  then show ?thesis
    using val by (simp add: v piece_at_def q Let_def elem_addr_zeros [OF assms(6)] flip: r(1))
qed

section \<open>The walk\<close>

definition computes_node :: "'v arith_api \<Rightarrow> (nat \<Rightarrow> int) \<Rightarrow> int option \<Rightarrow> int list \<Rightarrow> ir \<Rightarrow> dtype \<Rightarrow> bexpr \<Rightarrow> bool" where
  "computes_node A \<rho> w vs v d e \<longleftrightarrow> (\<forall>m. \<forall>j \<in> set (lanes_of w). lane A \<rho> m vs v j = denote A \<rho> m d e (bump vs j))"

declare has_repack.simps [simp del]

lemma has_repack_args: "\<not> has_repack e \<Longrightarrow> a \<in> set (args e) \<Longrightarrow> \<not> has_repack a"
  by (subst (asm) has_repack.simps) blast

lemma computes_splat:
  "(\<And>m vs j. lane A \<rho> m vs v j = x) \<Longrightarrow> (\<And>m p. denote A \<rho> m d e p = x) \<Longrightarrow> computes_node A \<rho> w vs (splat env v) d e"
  by (simp add: computes_node_def splat_def)

lemma eval_scalar_computes:
  assumes "eval_scalar env d s = Inr v" and "index_cast_exact A"
  shows "computes_node A \<rho> w vs v d (ScalarE s)"
proof (cases s)
  case (SNum n)
  then obtain k where "typed_constant d n = Inr k" "v = splat env (IConst d k)"
    using assms(1) by (auto simp: res_bind_Inr_iff)
  then show ?thesis by (simp add: SNum number_def computes_splat [of _ _ _ "a_const A d k"])
next
  case (SIndex e)
  show ?thesis
  proof (cases "as_const e")
    case None
    then have "\<not> is_float d" "v = splat env (IIndexCast d e)"
      using assms(1) by (auto simp: SIndex split: if_splits)
    then show ?thesis using assms(2)
      by (simp add: SIndex number_def index_cast_exact_def computes_splat [of _ _ _ "a_const A d (NInt (eval_index \<rho> e))"])
  next
    case (Some k)
    then have "v = splat env (IConst d (if is_float d then NFloat (FFin (of_int k)) else NInt k))" "eval_index \<rho> e = k"
      using assms(1) as_const_sound by (auto simp: SIndex)
    then show ?thesis
      by (simp add: SIndex number_def computes_splat [of _ _ _ "a_const A d (if is_float d then NFloat (FFin (of_int k)) else NInt k)"])
  qed
next
  case (SSwitch x3)
  with assms show ?thesis by simp
next
  case (SValue x)
  then show ?thesis using assms(1) by (cases x) (auto intro!: computes_splat)
qed

text \<open>What the walk may rely on: the nest, its leaves and the arithmetic.\<close>

definition walk_ok :: "'v arith_api \<Rightarrow> (nat \<Rightarrow> int) \<Rightarrow> int list \<Rightarrow> int option \<Rightarrow> int list \<Rightarrow> buffer_read set \<Rightarrow> nest_env \<Rightarrow> bool" where
  "walk_ok A \<rho> S w vs L env \<longleftrightarrow> env_ok \<rho> S w vs env \<and> trip_ok S w vs \<and> keyed L \<and> index_cast_exact A \<and>
     (\<forall>l \<in> L. wf_read l \<and> (w \<noteq> None \<longrightarrow> aligned l))"

lemma eval_leaf_computes:
  assumes "eval_node env d (BufferE l) rs = Inr (v, rs')" and "walk_ok A \<rho> S w vs L env" and "l \<in> L" and "reads_ok A \<rho> w vs L rs"
  shows "reads_ok A \<rho> w vs L rs' \<and> computes_node A \<rho> w vs v d (BufferE l)"
proof -
  have "reads_ok A \<rho> w vs L rs' \<and> reads_leaf A \<rho> w vs v l"
  proof (cases "map_of rs (read_key_of l)")
    case None
    then have v: "load_leaf env l = Inr v" "rs' = (read_key_of l, v) # rs"
      using assms(1) by (auto simp: res_bind_Inr_iff)
    then have "reads_leaf A \<rho> w vs v l"
      using assms(2,3) by (intro load_leaf_reads [OF v(1)]) (auto simp: walk_ok_def)
    then show ?thesis using reads_ok_insert [OF assms(4)] assms(2,3) v(2) by (auto simp: walk_ok_def)
  next
    case (Some u)
    then show ?thesis using assms(1,3,4) by (auto intro: reads_ok_lookup)
  qed
  then show ?thesis by (simp add: computes_node_def reads_leaf_def)
qed

lemma eval_repack_computes:
  assumes "eval_node env d (BitcastE t x) rs = Inr (v, rs')" and "is_repack (BitcastE t x)" and "walk_ok A \<rho> S w vs L env"
    and "ne_repack env \<longrightarrow> check_region alive S (Some d) (BitcastE t x) = Inr ()" and "typed d (BitcastE t x)"
    and "ne_repack env \<longrightarrow> one_trip S w"
    and "set (expr_leaves x) \<subseteq> L"
  shows "rs' = rs \<and> computes_node A \<rho> w vs v d (BitcastE t x)"
proof -
  have rp: "ne_repack env"
    using assms(1,2) by (auto simp: Let_def res_bind_Inr_iff load_packed_def split: option.splits if_splits bexpr.splits)
  obtain l where x: "x = BufferE l" and cr: "check_repacked alive S t l = Inr ()"
    using assms(2,4) rp by (auto split: bexpr.splits)
  let ?s = "leaf_dtype l" and ?r = "bits (leaf_dtype l) div bits t"
  have b: "t = d" "bits t \<noteq> bits ?s" "0 < bits t" "bits t < bits ?s" "bits ?s mod bits t = 0"
    using assms(2,5) by (auto simp: x)
  then have r: "2 \<le> ?r"
    by (smt (verit) pos_imp_zdiv_pos_iff div_mult_mod_eq mult_cancel_right1)
  obtain u where u: "load_packed env l = Inr u" "v = IRepack ?s d ?r u" "rs' = rs"
    using assms(1,2) b by (auto simp: x Let_def res_bind_Inr_iff split: option.splits if_splits)
  have "lane A \<rho> m vs v j = piece_at A \<rho> m t l (bump vs j)" if "j \<in> set (lanes_of w)" for m j
    unfolding u(2) b(1) [symmetric]
    using assms(3,6,7) rp cr r that u(1) by (intro repack_reads) (auto simp: walk_ok_def x one_trip_def)
  then show ?thesis using b u(3) by (simp add: computes_node_def x)
qed

lemma eval_node_computes:
  assumes "eval_node env d e rs = Inr (v, rs')" and "walk_ok A \<rho> S w vs L env"
    and "ne_repack env \<longrightarrow> check_region alive S (Some d) e = Inr ()" and "typed d e"
    and "ne_repack env \<longrightarrow> has_repack e \<longrightarrow> one_trip S w"
    and "set (expr_leaves e) \<subseteq> L" and "reads_ok A \<rho> w vs L rs"
  shows "reads_ok A \<rho> w vs L rs' \<and> computes_node A \<rho> w vs v d e"
  using assms(1,3-7)
proof (induction e arbitrary: d rs v rs')
  case (BufferE l)
  then have "l \<in> L" by simp
  with eval_leaf_computes [OF BufferE(1) assms(2) _ BufferE(6)] show ?case by blast
next
  case (ScalarE s)
  then obtain "eval_scalar env d s = Inr v" "rs' = rs" by (auto simp: res_bind_Inr_iff)
  then show ?case using eval_scalar_computes assms(2) ScalarE(6) by (auto simp: walk_ok_def)
next
  case (UnaryE f a)
  have "\<not> has_repack (UnaryE f a) \<Longrightarrow> \<not> has_repack a" by (rule has_repack_args) auto
  moreover obtain u where "eval_node env d a rs = Inr (u, rs')" "v = IUnary d f u"
    using UnaryE(2) by (auto simp: res_bind_Inr_iff split: if_splits)
  ultimately show ?case using UnaryE(1) [of d rs u rs'] UnaryE(3-) by (auto simp: computes_node_def)
next
  case (BinaryE f a b)
  have h: "\<not> has_repack (BinaryE f a b) \<Longrightarrow> \<not> has_repack a \<and> \<not> has_repack b"
    using has_repack_args [of "BinaryE f a b"] by auto
  obtain u rs1 u' where u: "eval_node env d a rs = Inr (u, rs1)" "eval_node env d b rs1 = Inr (u', rs')" "v = IBinary d f u u'"
    using BinaryE(3) by (auto simp: res_bind_Inr_iff split: if_splits)
  have "reads_ok A \<rho> w vs L rs1 \<and> computes_node A \<rho> w vs u d a"
    using BinaryE(1) [OF u(1)] BinaryE(4-) h by (auto simp: res_bind_Inr_iff)
  moreover from this have "reads_ok A \<rho> w vs L rs' \<and> computes_node A \<rho> w vs u' d b"
    using BinaryE(2) [OF u(2)] BinaryE(4-) h by (auto simp: res_bind_Inr_iff)
  ultimately show ?case by (simp add: computes_node_def u(3))
next
  case (CompareE f a b)
  have h: "\<not> has_repack (CompareE f a b) \<Longrightarrow> \<not> has_repack a \<and> \<not> has_repack b"
    using has_repack_args [of "CompareE f a b"] by auto
  obtain u rs1 u' where u: "eval_node env d a rs = Inr (u, rs1)" "eval_node env d b rs1 = Inr (u', rs')" "v = ICmp d f u u'"
    using CompareE(3) by (auto simp: res_bind_Inr_iff split: if_splits)
  have "reads_ok A \<rho> w vs L rs1 \<and> computes_node A \<rho> w vs u d a"
    using CompareE(1) [OF u(1)] CompareE(4-) h by (auto simp: res_bind_Inr_iff)
  moreover from this have "reads_ok A \<rho> w vs L rs' \<and> computes_node A \<rho> w vs u' d b"
    using CompareE(2) [OF u(2)] CompareE(4-) h by (auto simp: res_bind_Inr_iff)
  ultimately show ?case by (simp add: computes_node_def u(3))
next
  case (SelectE c a b)
  have h: "\<not> has_repack (SelectE c a b) \<Longrightarrow> \<not> has_repack c \<and> \<not> has_repack a \<and> \<not> has_repack b"
    using has_repack_args [of "SelectE c a b"] by auto
  obtain u rs1 u' rs2 u'' where u: "eval_node env d c rs = Inr (u, rs1)" "eval_node env d a rs1 = Inr (u', rs2)"
    "eval_node env d b rs2 = Inr (u'', rs')" "v = ISelect u u' u''"
    using SelectE(4) by (auto simp: res_bind_Inr_iff)
  have "reads_ok A \<rho> w vs L rs1 \<and> computes_node A \<rho> w vs u d c"
    using SelectE(1) [OF u(1)] SelectE(5-) h by (auto simp: res_bind_Inr_iff)
  moreover from this have "reads_ok A \<rho> w vs L rs2 \<and> computes_node A \<rho> w vs u' d a"
    using SelectE(2) [OF u(2)] SelectE(5-) h by (auto simp: res_bind_Inr_iff)
  moreover from this have "reads_ok A \<rho> w vs L rs' \<and> computes_node A \<rho> w vs u'' d b"
    using SelectE(3) [OF u(3)] SelectE(5-) h by (auto simp: res_bind_Inr_iff)
  ultimately show ?case by (simp add: computes_node_def u(4))
next
  case (FmaE a b c)
  have h: "\<not> has_repack (FmaE a b c) \<Longrightarrow> \<not> has_repack a \<and> \<not> has_repack b \<and> \<not> has_repack c"
    using has_repack_args [of "FmaE a b c"] by auto
  obtain u rs1 u' rs2 u'' where u: "eval_node env d a rs = Inr (u, rs1)" "eval_node env d b rs1 = Inr (u', rs2)"
    "eval_node env d c rs2 = Inr (u'', rs')" "v = IFma d u u' u''"
    using FmaE(4) by (auto simp: res_bind_Inr_iff split: if_splits)
  have "reads_ok A \<rho> w vs L rs1 \<and> computes_node A \<rho> w vs u d a"
    using FmaE(1) [OF u(1)] FmaE(5-) h by (auto simp: res_bind_Inr_iff)
  moreover from this have "reads_ok A \<rho> w vs L rs2 \<and> computes_node A \<rho> w vs u' d b"
    using FmaE(2) [OF u(2)] FmaE(5-) h by (auto simp: res_bind_Inr_iff)
  moreover from this have "reads_ok A \<rho> w vs L rs' \<and> computes_node A \<rho> w vs u'' d c"
    using FmaE(3) [OF u(3)] FmaE(5-) h by (auto simp: res_bind_Inr_iff)
  ultimately show ?case by (simp add: computes_node_def u(4))
next
  case (CastE t signed x)
  have h: "\<not> has_repack (CastE t signed x) \<Longrightarrow> \<not> has_repack x" by (rule has_repack_args) auto
  obtain s u c where u: "element_dtype x = Some s" "eval_node env s x rs = Inr (u, rs')"
    "conversion_op s d (clamped_into x d) signed = Inr c" "v = IConv c s d u"
    using CastE(2) by (auto simp: res_bind_Inr_iff region_of_def split: option.splits if_splits)
  have "reads_ok A \<rho> w vs L rs' \<and> computes_node A \<rho> w vs u s x"
    using CastE(1) [OF u(2)] CastE(3-) h u(1) by auto
  then show ?case using CastE(4) u by (auto simp: computes_node_def)
next
  case (BitcastE t x)
  show ?case
  proof (cases "is_repack (BitcastE t x)")
    case True
    then have "ne_repack env \<longrightarrow> one_trip S w" using BitcastE(5) by (auto simp: has_repack.simps [of "BitcastE t x"])
    with eval_repack_computes [OF BitcastE(2) True assms(2) BitcastE(3,4)] BitcastE(6,7) show ?thesis by auto
  next
    case False
    have h: "\<not> has_repack (BitcastE t x) \<Longrightarrow> \<not> has_repack x" by (rule has_repack_args) auto
    obtain s u where u: "element_dtype x = Some s" "eval_node env s x rs = Inr (u, rs')" "v = IBitcast s d u"
      using BitcastE(2) False by (auto simp: res_bind_Inr_iff region_of_def split: option.splits if_splits)
    have "reads_ok A \<rho> w vs L rs' \<and> computes_node A \<rho> w vs u s x"
      using BitcastE(1) [OF u(2)] BitcastE(3-) h u(1) False by auto
    moreover have "bits s = bits t" "t = d" using False BitcastE(4) u(1) by auto
    ultimately show ?thesis using u by (cases x) (auto simp: computes_node_def)
  qed
next
  case (ReduceE f a)
  then show ?case by simp
qed

section \<open>The nest\<close>

lemma write_all_spec:
  "distinct (map fst ws) \<Longrightarrow> write_all f ws a = (case map_of ws a of None \<Rightarrow> f a | Some v \<Rightarrow> v)"
proof (induction ws arbitrary: f)
  case (Cons x ws)
  obtain k v where x: "x = (k, v)" by (cases x)
  have "write_all f (x # ws) a = write_all (f(k := v)) ws a" by (simp add: write_all_def x)
  also have "\<dots> = (case map_of ws a of None \<Rightarrow> (f(k := v)) a | Some u \<Rightarrow> u)" using Cons by (simp add: x)
  also have "\<dots> = (case map_of (x # ws) a of None \<Rightarrow> f a | Some u \<Rightarrow> u)"
    using Cons(2) by (auto simp: x split: option.splits dest!: map_of_SomeD) (force dest: map_of_SomeD)
  finally show ?case .
qed (simp add: write_all_def)

text \<open>
  A nest seen from outside: the trips cover the points \<open>P\<close>, the value stored at the address \<open>D p\<close> of a point
  is \<open>V m p\<close>, and that value does not depend on the addresses of the other points.
\<close>

definition covers :: "int list list \<Rightarrow> int list \<Rightarrow> int list list" where
  "covers pts lanes = concat (map (\<lambda>vs. map (bump vs) lanes) pts)"

definition stable :: "nat \<Rightarrow> (int list \<Rightarrow> int list) \<Rightarrow> ('v memory \<Rightarrow> int list \<Rightarrow> 'v) \<Rightarrow> int list set \<Rightarrow> bool" where
  "stable b D V P \<longleftrightarrow> (\<forall>m m' p. p \<in> P \<longrightarrow>
     (\<forall>b' a. (b' \<noteq> b \<or> a \<notin> D ` (P - {p})) \<longrightarrow> m b' a = m' b' a) \<longrightarrow> V m p = V m' p)"

lemma run_trip_spec:
  assumes "\<And>j. j \<in> set (lanes_of (n_lanes N)) \<Longrightarrow> bump (map (ix_val \<rho> vs) (n_index N)) j = D (bump vs j) \<and>
      lane A \<rho> m vs (n_value N) j = V (bump vs j)"
    and "distinct (map (bump vs) (lanes_of (n_lanes N)))" and "inj_on D (bump vs ` set (lanes_of (n_lanes N)))"
  shows "p \<in> bump vs ` set (lanes_of (n_lanes N)) \<Longrightarrow> run_trip A \<rho> N m vs (n_dst N) (D p) = V p"
    and "a \<notin> D ` bump vs ` set (lanes_of (n_lanes N)) \<Longrightarrow> run_trip A \<rho> N m vs (n_dst N) a = m (n_dst N) a"
    and "b \<noteq> n_dst N \<Longrightarrow> run_trip A \<rho> N m vs b = m b"
proof -
  let ?J = "lanes_of (n_lanes N)"
  have ws: "trip_writes A \<rho> N m vs = map (\<lambda>j. (D (bump vs j), V (bump vs j))) ?J"
    using assms(1) by (simp add: trip_writes_def)
  have "distinct (map D (map (bump vs) ?J))" using assms(2,3) by (subst distinct_map) simp
  then have d: "distinct (map fst (map (\<lambda>j. (D (bump vs j), V (bump vs j))) ?J))" by (simp add: comp_def)
  have run: "run_trip A \<rho> N m vs (n_dst N) a =
      (case map_of (map (\<lambda>j. (D (bump vs j), V (bump vs j))) ?J) a of None \<Rightarrow> m (n_dst N) a | Some v \<Rightarrow> v)" for a
    by (simp add: run_trip_def ws write_all_spec [OF d])
  show "run_trip A \<rho> N m vs (n_dst N) (D p) = V p" if "p \<in> bump vs ` set ?J"
  proof -
    from that have "(D p, V p) \<in> set (map (\<lambda>j. (D (bump vs j), V (bump vs j))) ?J)" by auto
    then show ?thesis using map_of_is_SomeI [OF d] by (simp add: run)
  qed
  show "run_trip A \<rho> N m vs (n_dst N) a = m (n_dst N) a" if "a \<notin> D ` bump vs ` set ?J"
  proof -
    from that have "map_of (map (\<lambda>j. (D (bump vs j), V (bump vs j))) ?J) a = None" by (auto simp: map_of_eq_None_iff)
    then show ?thesis by (simp add: run)
  qed
  show "run_trip A \<rho> N m vs b = m b" if "b \<noteq> n_dst N" using that by (simp add: run_trip_def)
qed

lemma run_points:
  assumes "\<And>m vs j. vs \<in> set pts \<Longrightarrow> j \<in> set (lanes_of (n_lanes N)) \<Longrightarrow>
      bump (map (ix_val \<rho> vs) (n_index N)) j = D (bump vs j) \<and> lane A \<rho> m vs (n_value N) j = V m (bump vs j)"
    and "distinct (covers pts (lanes_of (n_lanes N)))" and "set (covers pts (lanes_of (n_lanes N))) \<subseteq> P"
    and "inj_on D P" and "stable (n_dst N) D V P"
  shows "(\<forall>p \<in> set (covers pts (lanes_of (n_lanes N))). foldl (run_trip A \<rho> N) m pts (n_dst N) (D p) = V m p) \<and>
    (\<forall>a. a \<notin> D ` set (covers pts (lanes_of (n_lanes N))) \<longrightarrow> foldl (run_trip A \<rho> N) m pts (n_dst N) a = m (n_dst N) a) \<and>
    (\<forall>b. b \<noteq> n_dst N \<longrightarrow> foldl (run_trip A \<rho> N) m pts b = m b)"
  using assms(1-3)
proof (induction pts arbitrary: m)
  case Nil
  then show ?case by (simp add: covers_def)
next
  case (Cons vs pts)
  let ?J = "lanes_of (n_lanes N)" and ?m1 = "run_trip A \<rho> N m vs"
  let ?B = "bump vs ` set ?J" and ?R = "set (covers pts ?J)"
  have dist: "distinct (map (bump vs) ?J)" "distinct (covers pts ?J)" "?B \<inter> ?R = {}" "?B \<subseteq> P" "?R \<subseteq> P"
    using Cons(3,4) by (auto simp: covers_def)
  have injB: "inj_on D ?B" using assms(4) dist(4) by (rule inj_on_subset)
  have trip: "\<And>p. p \<in> ?B \<Longrightarrow> ?m1 (n_dst N) (D p) = V m p" "\<And>a. a \<notin> D ` ?B \<Longrightarrow> ?m1 (n_dst N) a = m (n_dst N) a"
    "\<And>b. b \<noteq> n_dst N \<Longrightarrow> ?m1 b = m b"
    using run_trip_spec [where V = "V m" and D = D, OF _ dist(1) injB] Cons(2) [of vs] by auto
  have IH: "\<And>p. p \<in> ?R \<Longrightarrow> foldl (run_trip A \<rho> N) ?m1 pts (n_dst N) (D p) = V ?m1 p"
    "\<And>a. a \<notin> D ` ?R \<Longrightarrow> foldl (run_trip A \<rho> N) ?m1 pts (n_dst N) a = ?m1 (n_dst N) a"
    "\<And>b. b \<noteq> n_dst N \<Longrightarrow> foldl (run_trip A \<rho> N) ?m1 pts b = ?m1 b"
    using Cons(1) [of ?m1] Cons(2) dist by auto
  have disj: "D p \<notin> D ` ?R" if "p \<in> ?B" for p
    using that dist(3-5) assms(4) by (auto dest: inj_onD)
  have VR: "V ?m1 p = V m p" if p: "p \<in> ?R" for p
  proof -
    have "?m1 b' a = m b' a" if h: "b' \<noteq> n_dst N \<or> a \<notin> D ` (P - {p})" for b' a
    proof (cases "b' = n_dst N")
      case True
      then have "a \<notin> D ` ?B" using h p dist(3,4) by auto
      with True trip(2) show ?thesis by simp
    qed (simp add: trip(3))
    then show ?thesis using assms(5) p dist(5) unfolding stable_def by blast
  qed
  have set: "set (covers (vs # pts) ?J) = ?B \<union> ?R" by (simp add: covers_def)
  show ?case
    unfolding set foldl_Cons
    using trip IH disj VR by (auto simp: image_Un)
qed

section \<open>The points of a nest\<close>

lemma loop_values_unit: "loop_values (0, n, 1) = map int [0..<nat n]"
  by (simp add: loop_values_def)

lemma nest_points_unit: "nest_points (map (\<lambda>n. (0, n, 1)) S) = box S"
  by (induction S) (simp_all add: loop_values_unit comp_def)

lemma blocks_cover: "concat (map (\<lambda>k. map (\<lambda>j. w * k + j) [0..<w]) [0..<q]) = [0..<q * w]"
proof (induction q)
  case (Suc q)
  have "map (\<lambda>j. w * q + j) [0..<w] = [q * w..<q * w + w]"
    by (simp add: list_eq_iff_nth_eq mult.commute)
  then show ?case using Suc upt_add_eq_append [of 0 "q * w" w] by (simp add: add.commute)
qed simp

lemma covers_concat: "covers (concat xss) J = concat (map (\<lambda>xs. covers xs J) xss)"
  by (induction xss) (simp_all add: covers_def)

lemma covers_Cons: "\<forall>vs \<in> set pts. vs \<noteq> [] \<Longrightarrow> covers (map ((#) v) pts) J = map ((#) v) (covers pts J)"
  by (induction pts) (auto simp: covers_def bump_Cons)

lemma nest_points_length: "vs \<in> set (nest_points bs) \<Longrightarrow> length vs = length bs"
  by (induction bs arbitrary: vs) auto

lemma strip_covers:
  assumes "0 < w" and "n mod w = 0"
  shows "covers (nest_points [(0, n, w)]) (lanes_of (Some w)) = box [n]"
proof (cases "0 \<le> n")
  case True
  define q where "q = nat (n div w)"
  have n: "n = w * int q" using assms True by (simp add: q_def pos_imp_zdiv_nonneg_iff) (metis mult_div_mod_eq add_0_right)
  have "(w * int q + (w - 1)) div w = int q + (w - 1) div w" using assms(1) by (intro div_mult_self4) simp
  moreover have "(w - 1) div w = 0" using assms(1) by (intro div_pos_pos_trivial) auto
  moreover have e: "n + w - 1 = w * int q + (w - 1)" by (simp add: n)
  ultimately have "(n + w - 1) div w = int q" unfolding e by simp
  then have lv: "loop_values (0, n, w) = map (\<lambda>k. w * int k) [0..<q]"
    by (simp add: loop_values_def)
  have "covers (nest_points [(0, n, w)]) (lanes_of (Some w)) =
      map (\<lambda>i. [int i]) (concat (map (\<lambda>k. map (\<lambda>j. nat w * k + j) [0..<nat w]) [0..<q]))"
    using assms(1) by (simp add: covers_def lv lanes_of_def map_concat comp_def bump_def)
  also have "\<dots> = box [n]"
    unfolding blocks_cover using assms(1) by (simp add: n nat_mult_distrib mult.commute)
  finally show ?thesis .
next
  case False
  then have "\<not> 0 < (n + w - 1) div w" using assms(1) by (simp add: pos_imp_zdiv_pos_iff)
  with False show ?thesis by (simp add: covers_def loop_values_def)
qed

lemma vector_covers:
  assumes "0 < w" and "n mod w = 0"
  shows "covers (nest_points (map (\<lambda>n. (0, n, 1)) xs @ [(0, n, w)])) (lanes_of (Some w)) = box (xs @ [n])"
proof (induction xs)
  case Nil
  then show ?case using strip_covers [OF assms] by simp
next
  case (Cons x xs)
  let ?pts = "nest_points (map (\<lambda>n. (0, n, 1)) xs @ [(0, n, w)])"
  have "\<forall>vs \<in> set ?pts. vs \<noteq> []" using nest_points_length by fastforce
  with Cons show ?case by (simp add: covers_concat covers_Cons loop_values_unit comp_def)
qed

lemma scalar_covers: "covers (nest_points (map (\<lambda>n. (0, n, 1)) S)) (lanes_of None) = box S"
  by (simp add: nest_points_unit covers_def)

section \<open>Addresses of the destination\<close>

lemma place_inj:
  assumes "length ds = length bs" and "length (filter Not ds) = length q" and "length q' = length q"
    and "place ds bs q = place ds bs q'"
  shows "q = q'"
  using assms
proof (induction ds bs q arbitrary: q' rule: place.induct)
  case (2 ds b bs x q)
  then show ?case by (cases q') auto
qed auto

lemma elem_addr_inj:
  assumes "wf_read l"
  shows "inj_on (elem_addr \<rho> l) (set (box (leaf_shape l)))"
proof (rule inj_onI)
  fix p q assume h: "p \<in> set (box (leaf_shape l))" "q \<in> set (box (leaf_shape l))" "elem_addr \<rho> l p = elem_addr \<rho> l q"
  then show "p = q"
    using wf_read_lengths [OF assms] box_length [OF h(1)] box_length [OF h(2)]
    by (intro place_inj [of "axes_dropped l" "map (eval_index \<rho>) (axes_base l)" p q]) (simp_all add: elem_addr_def)
qed

lemma operand_point_self: "p \<in> set (box S) \<Longrightarrow> operand_point S p = p"
proof -
  assume "p \<in> set (box S)"
  then have l: "list_all2 (\<lambda>i n. 0 \<le> i \<and> i < n) p S" by (simp add: box_iff)
  then have "map2 (\<lambda>e x. if e = 1 then 0 else x) S p = p" by (induction rule: list_all2_induct) auto
  with l show ?thesis by (simp add: operand_point_def list_all2_lengthD)
qed

lemma elem_addr_whole: "length p = length (b_shape b) \<Longrightarrow> elem_addr \<rho> (ReadWhole b) p = p"
proof -
  assume h: "length p = length (b_shape b)"
  have "place (replicate (length ns) False) (map (eval_index \<rho>) (map (\<lambda>_. index_constant 0) ns)) p = p"
    if "length p = length ns" for ns :: "int list" and p
    using that
  proof (induction ns arbitrary: p)
    case (Cons n ns)
    then show ?case by (cases p) auto
  qed simp
  with h show ?thesis by (simp add: elem_addr_def)
qed

lemma dst_index_val:
  assumes "dst_index dst (nest_ivs S) = Inr index" and "S = leaf_shape dst" and "wf_read dst" and "vs \<in> set (box S)"
  shows "map (ix_val \<rho> vs) index = elem_addr \<rho> dst vs"
proof (cases dst)
  case (ReadWhole b)
  then show ?thesis
    using assms(1,2) ix_val_nest_ivs [OF box_length [OF assms(4)], of \<rho>] box_length [OF assms(4)]
    by (simp add: dst_index_def elem_addr_whole)
next
  case (ReadRegion v)
  have ivs: "map (ix_val \<rho> vs) (nest_ivs S) = vs" using box_length [OF assms(4)] by (rule ix_val_nest_ivs)
  have "leaf_index dst S (nest_ivs S) None = Inr index" using assms(1,2) ReadRegion by (simp add: dst_index_def)
  from leaf_index_val [OF this assms(3), of \<rho> vs, unfolded ivs, OF _ assms(4)] show ?thesis
    using operand_point_self [OF assms(4)] assms(2) by (simp add: leaf_addr_def)
qed

section \<open>Hazards\<close>

text \<open>The elements an expression reads at one point of the destination.\<close>

definition piece_addr :: "(nat \<Rightarrow> int) \<Rightarrow> dtype \<Rightarrow> buffer_read \<Rightarrow> int list \<Rightarrow> int list" where
  "piece_addr \<rho> d l p =
     (let r = bits (leaf_dtype l) div bits d; q = operand_point (presented_shape (leaf_shape l) r) p
      in elem_addr \<rho> l (butlast q @ [last q div r]))"

fun touches :: "(nat \<Rightarrow> int) \<Rightarrow> bexpr \<Rightarrow> int list \<Rightarrow> (nat \<times> int list) list" where
  "touches \<rho> (BufferE l) p = [(leaf_id l, leaf_addr \<rho> l p)]"
| "touches \<rho> (ScalarE v) p = []"
| "touches \<rho> (UnaryE f a) p = touches \<rho> a p"
| "touches \<rho> (BinaryE f a b) p = touches \<rho> a p @ touches \<rho> b p"
| "touches \<rho> (CompareE f a b) p = touches \<rho> a p @ touches \<rho> b p"
| "touches \<rho> (SelectE c a b) p = touches \<rho> c p @ touches \<rho> a p @ touches \<rho> b p"
| "touches \<rho> (FmaE a b c) p = touches \<rho> a p @ touches \<rho> b p @ touches \<rho> c p"
| "touches \<rho> (CastE t s x) p = touches \<rho> x p"
| "touches \<rho> (BitcastE t x) p =
     touches \<rho> x p @ (case x of BufferE l \<Rightarrow> [(leaf_id l, piece_addr \<rho> t l p)] | _ \<Rightarrow> [])"
| "touches \<rho> (ReduceE f a) p = touches \<rho> a p"

text \<open>No element of the destination is read for another element than itself.\<close>

definition hazard_free :: "(nat \<Rightarrow> int) \<Rightarrow> buffer_read \<Rightarrow> bexpr \<Rightarrow> bool" where
  "hazard_free \<rho> dst e \<longleftrightarrow> (\<forall>p \<in> set (box (leaf_shape dst)). \<forall>(b, a) \<in> set (touches \<rho> e p).
     b = leaf_id dst \<longrightarrow> (\<forall>p' \<in> set (box (leaf_shape dst)). a = elem_addr \<rho> dst p' \<longrightarrow> p' = p))"

lemma denote_cong:
  "\<forall>(b, a) \<in> set (touches \<rho> e p). m b a = m' b a \<Longrightarrow> denote A \<rho> m d e p = denote A \<rho> m' d e p"
proof (induction e arbitrary: d)
  case (BitcastE t x)
  then have x: "denote A \<rho> m d x p = denote A \<rho> m' d x p" for d by auto
  show ?case
  proof (cases "\<exists>l. x = BufferE l")
    case True
    then obtain l where l: "x = BufferE l" by blast
    have "m (leaf_id l) (piece_addr \<rho> t l p) = m' (leaf_id l) (piece_addr \<rho> t l p)" using BitcastE(2) by (simp add: l)
    with x [of "leaf_dtype l"] show ?thesis by (simp add: l piece_at_def piece_addr_def Let_def)
  next
    case False
    with x show ?thesis by (cases "element_dtype x"; cases x) auto
  qed
next
  case (CastE t s x)
  then have "denote A \<rho> m d x p = denote A \<rho> m' d x p" for d by auto
  then show ?case by (auto split: option.splits sum.splits)
qed auto

lemma hazard_free_stable:
  assumes "hazard_free \<rho> dst e"
  shows "stable (leaf_id dst) (elem_addr \<rho> dst) (\<lambda>m. denote A \<rho> m d e) (set (box (leaf_shape dst)))"
  unfolding stable_def
proof (intro allI impI)
  fix m m' :: "'a memory" and p
  assume p: "p \<in> set (box (leaf_shape dst))"
    and agree: "\<forall>b' a. (b' \<noteq> leaf_id dst \<or> a \<notin> elem_addr \<rho> dst ` (set (box (leaf_shape dst)) - {p})) \<longrightarrow> m b' a = m' b' a"
  have "m b a = m' b a" if "(b, a) \<in> set (touches \<rho> e p)" for b a
  proof (cases "b = leaf_id dst")
    case True
    have "\<forall>p' \<in> set (box (leaf_shape dst)). a = elem_addr \<rho> dst p' \<longrightarrow> p' = p"
      using assms p that True unfolding hazard_free_def by fast
    then have "a \<notin> elem_addr \<rho> dst ` (set (box (leaf_shape dst)) - {p})" by blast
    with agree show ?thesis by simp
  qed (simp add: agree)
  then show "denote A \<rho> m d e p = denote A \<rho> m' d e p" by (intro denote_cong) auto
qed

section \<open>Assignments\<close>

text \<open>
  What the theorem asks of an assignment: leaves that are well formed, casts into the type that surrounds
  them, an innermost axis that no integer subscript took, leaves the read dict does not confuse, and no
  element read after it is written.
\<close>

definition assignable :: "(nat \<Rightarrow> int) \<Rightarrow> buffer_read \<Rightarrow> bexpr \<Rightarrow> bool" where
  "assignable \<rho> dst e \<longleftrightarrow> wf_read dst \<and> list_all wf_read (expr_leaves e) \<and> typed (leaf_dtype dst) e \<and>
     keyed (set (expr_leaves e)) \<and> aligned dst \<and> list_all aligned (expr_leaves e) \<and> hazard_free \<rho> dst e"

definition computes_assign :: "'v arith_api \<Rightarrow> (nat \<Rightarrow> int) \<Rightarrow> nest \<Rightarrow> buffer_read \<Rightarrow> bexpr \<Rightarrow> 'v memory \<Rightarrow> bool" where
  "computes_assign A \<rho> N dst e m \<longleftrightarrow>
     (\<forall>p \<in> set (box (leaf_shape dst)).
        run_nest A \<rho> N m (leaf_id dst) (elem_addr \<rho> dst p) = denote A \<rho> m (leaf_dtype dst) e p) \<and>
     (\<forall>b a. b \<noteq> leaf_id dst \<or> a \<notin> elem_addr \<rho> dst ` set (box (leaf_shape dst)) \<longrightarrow> run_nest A \<rho> N m b a = m b a)"

lemma emit_nest_computes:
  assumes "emit_nest dst e w bounds = Inr N" and "assignable \<rho> dst e" and "index_cast_exact A"
    and "check_region alive (leaf_shape dst) (Some (leaf_dtype dst)) e = Inr ()"
    and "has_repack e \<longrightarrow> one_trip (leaf_shape dst) w"
    and cover: "covers (nest_points bounds) (lanes_of w) = box (leaf_shape dst)"
    and vec: "w \<noteq> None \<longrightarrow> leaf_shape dst \<noteq> [] \<and> 0 < the w \<and> last (leaf_shape dst) mod the w = 0"
  shows "computes_assign A \<rho> N dst e m"
proof -
  let ?S = "leaf_shape dst" and ?D = "elem_addr \<rho> dst"
  define env where "env = \<lparr>ne_shape = ?S, ne_ivs = nest_ivs ?S, ne_zero = zero_index_if (pins_for e ?S),
    ne_lanes = w, ne_regions = regions_in e (Some (leaf_dtype dst)) [], ne_repack = True\<rparr>"
  obtain v rs index where ev: "eval_node env (leaf_dtype dst) e [] = Inr (v, rs)"
    and di: "dst_index dst (nest_ivs ?S) = Inr index"
    and N: "N = \<lparr>n_bounds = bounds, n_dst = leaf_id dst, n_index = index, n_value = v, n_lanes = w\<rparr>"
    using assms(1) unfolding emit_nest_def Let_def env_def [symmetric] by (auto simp: res_bind_Inr_iff)
  have trip: "trip_ok ?S w vs" if "vs \<in> set (nest_points bounds)" for vs
    using that vec cover [symmetric] by (auto simp: trip_ok_def covers_def)
  have step: "bump (map (ix_val \<rho> vs) (n_index N)) j = ?D (bump vs j) \<and>
      lane A \<rho> m vs (n_value N) j = denote A \<rho> m (leaf_dtype dst) e (bump vs j)"
    if vs: "vs \<in> set (nest_points bounds)" and j: "j \<in> set (lanes_of (n_lanes N))" for m vs j
  proof -
    have "walk_ok A \<rho> ?S w vs (set (expr_leaves e)) env"
      using assms(2,3) trip [OF vs] ix_val_nest_ivs [OF box_length [OF trip_box [OF trip [OF vs]]], of \<rho>]
      by (auto simp: walk_ok_def env_ok_def env_def zero_index_if_def assignable_def list_all_iff)
    from eval_node_computes [OF ev this, of alive]
    have "computes_node A \<rho> w vs v (leaf_dtype dst) e" using assms(2,4,5) by (auto simp: assignable_def)
    moreover have val: "map (ix_val \<rho> vs) index = ?D vs"
      using dst_index_val [OF di refl _ trip_box [OF trip [OF vs]]] assms(2) by (simp add: assignable_def)
    moreover have "bump (?D vs) j = ?D (bump vs j)"
    proof (cases "w = None")
      case True
      then show ?thesis using j by (simp add: N)
    next
      case False
      then show ?thesis
        using vec assms(2) box_length [OF trip_box [OF trip [OF vs]]]
        by (intro elem_addr_bump [symmetric]) (auto simp: assignable_def)
    qed
    ultimately show ?thesis using j by (simp add: N computes_node_def)
  qed
  have "n_dst N = leaf_id dst" "n_bounds N = bounds" "n_lanes N = w" by (simp_all add: N)
  moreover have "stable (leaf_id dst) ?D (\<lambda>m. denote A \<rho> m (leaf_dtype dst) e) (set (box ?S))"
    using assms(2) by (intro hazard_free_stable) (simp add: assignable_def)
  moreover have "inj_on ?D (set (box ?S))" using assms(2) by (intro elem_addr_inj) (simp add: assignable_def)
  ultimately show ?thesis
    using run_points [where V = "\<lambda>m. denote A \<rho> m (leaf_dtype dst) e" and D = ?D and P = "set (box ?S)"
        and pts = "nest_points bounds" and N = N and A = A and \<rho> = \<rho> and m = m, OF step] cover distinct_box [of ?S]
    by (simp add: computes_assign_def run_nest_def) metis
qed

lemma check_repack_one_trip:
  assumes "check_repack e S w = Inr ()" and "has_repack e" and "\<forall>n \<in> set S. 1 \<le> n"
  shows "vectorizes S w \<and> one_trip S (Some w)"
proof -
  have v: "vectorizes S w" and one: "prod_list (butlast S) * (last S div w) = 1"
    using assms(1,2) by (auto simp: check_repack_def split: if_splits)
  have pos: "\<forall>n \<in> set (butlast S). 1 \<le> n" using assms(3) by (auto dest: in_set_butlastD)
  have "0 < prod_list (butlast S)" using pos by (intro prod_list_pos) auto
  then have "prod_list (butlast S) = 1" "last S div w = 1" using one by (auto simp: zmult_eq_1_iff)
  moreover have "last S = w * (last S div w)" using v by (auto simp: vectorizes_def)
  moreover have p0: "\<And>x. x \<in> set (butlast S) \<Longrightarrow> 0 < x" using pos by force
  ultimately show ?thesis using v prod_list_eq_1_iff [OF p0] by (simp add: one_trip_def vectorizes_def)
qed

lemma wf_read_shape: "wf_read l \<Longrightarrow> \<forall>n \<in> set (leaf_shape l). 1 \<le> n"
  unfolding slice_shape_kept by (auto simp: leaf_axes_def wf_read_def dest: set_zip_leftD)

lemma emit_scalar_computes:
  assumes "emit_scalar dst e = Inr N" and "assignable \<rho> dst e" and "index_cast_exact A"
    and "check_region alive (leaf_shape dst) (Some (leaf_dtype dst)) e = Inr ()" and "\<not> has_repack e"
  shows "computes_assign A \<rho> N dst e m"
  using assms scalar_covers [of "leaf_shape dst"]
  by (intro emit_nest_computes [of _ _ None "map (\<lambda>n. (0, n, 1)) (leaf_shape dst)"]) (auto simp: emit_scalar_def)

lemma emit_vector_computes:
  assumes "emit_vector dst e w = Inr N" and "assignable \<rho> dst e" and "index_cast_exact A"
    and "check_region alive (leaf_shape dst) (Some (leaf_dtype dst)) e = Inr ()"
    and "has_repack e \<longrightarrow> one_trip (leaf_shape dst) (Some w)" and "vectorizes (leaf_shape dst) w"
  shows "computes_assign A \<rho> N dst e m"
proof -
  have v: "leaf_shape dst \<noteq> []" "0 < w" "last (leaf_shape dst) mod w = 0" using assms(6) by (auto simp: vectorizes_def)
  have "covers (nest_points (map (\<lambda>n. (0, n, 1)) (butlast (leaf_shape dst)) @ [(0, last (leaf_shape dst), w)]))
      (lanes_of (Some w)) = box (leaf_shape dst)"
    using vector_covers [OF v(2,3), of "butlast (leaf_shape dst)"] v(1) by simp
  with assms v show ?thesis
    by (intro emit_nest_computes [of _ _ "Some w" "map (\<lambda>n. (0, n, 1)) (butlast (leaf_shape dst)) @ [(0, last (leaf_shape dst), w)]"])
      (auto simp: emit_vector_def Let_def)
qed

lemma buffer_no_repack: "is_buffer e \<Longrightarrow> \<not> has_repack e"
  by (cases e) (auto simp: has_repack.simps [of "BufferE _"])

lemma emit_assign_computes:
  assumes "emit_assign alive dst e = Inr N" and "assignable \<rho> dst e" and "index_cast_exact A"
  shows "computes_assign A \<rho> N dst e m"
proof -
  let ?d = "leaf_dtype dst" and ?S = "leaf_shape dst"
  have cr: "check_region alive ?S (Some ?d) e = Inr ()"
    using assms(1) by (auto simp: emit_assign_def Let_def res_bind_Inr_iff)
  show ?thesis
  proof (cases "is_unsigned ?d")
    case True
    then have "emit_scalar dst e = Inr N" "is_buffer e"
      using assms(1) by (auto simp: emit_assign_def Let_def res_bind_Inr_iff split: if_splits)
    then show ?thesis using emit_scalar_computes [OF _ assms(2,3) cr] buffer_no_repack by blast
  next
    case False
    define w where "w = nest_width dst e"
    have rp: "check_repack e ?S w = Inr ()"
      and N: "(if vectorizes ?S w then emit_vector dst e w else emit_scalar dst e) = Inr N"
      using assms(1) False by (auto simp: emit_assign_def Let_def res_bind_Inr_iff w_def)
    have "has_repack e \<longrightarrow> vectorizes ?S w \<and> one_trip ?S (Some w)"
      using check_repack_one_trip [OF rp] wf_read_shape [of dst] assms(2) by (auto simp: assignable_def)
    then show ?thesis
      using N emit_vector_computes [OF _ assms(2,3) cr, of w] emit_scalar_computes [OF _ assms(2,3) cr]
      by (cases "vectorizes ?S w") auto
  qed
qed

section \<open>Properties\<close>

text \<open>
  C1: an elementwise assignment computes what it says, where the emitter may emit it. Let every cast and bitcast of the
  expression stand where its own element type is computed, let the reads that the emitter identifies drop the same axes, let no
  read and no destination drop its innermost axis, let no element of the destination be read for another element than it is
  written for, and let index casts be exact. Then, whichever path the emitter takes, every element of the destination ends as
  the value of the expression at that element, operands broadcast and converted as written, and no other element of memory
  changes. The emitter checks none of these conditions; what it emits without them is in the lemmas at the end.
\<close>

theorem assignment_computes:
  assumes "emit_assign alive dst e = Inr N" and "assignable \<rho> dst e" and "index_cast_exact A"
  shows "(\<forall>p \<in> set (box (leaf_shape dst)).
       run_nest A \<rho> N m (leaf_id dst) (elem_addr \<rho> dst p) = denote A \<rho> m (leaf_dtype dst) e p) \<and>
    (\<forall>b a. b \<noteq> leaf_id dst \<or> a \<notin> elem_addr \<rho> dst ` set (box (leaf_shape dst)) \<longrightarrow> run_nest A \<rho> N m b a = m b a)"
  using emit_assign_computes [OF assms] by (simp add: computes_assign_def)

text \<open>Integer arithmetic as one instance of the parameter, and a tile plus a converted column.\<close>

definition int_api :: "int arith_api" where
  "int_api = \<lparr>a_const = (\<lambda>d n. case n of NInt k \<Rightarrow> k | NBool b \<Rightarrow> of_bool b | NFloat x \<Rightarrow> 0), a_index = (\<lambda>d k. k),
     a_unary = (\<lambda>d f x. x),
     a_binary = (\<lambda>d f x y. if f = ''add'' then x + y else if f = ''mul'' then x * y
                  else if f = ''max'' then max x y else if f = ''min'' then min x y else x - y),
     a_cmp = (\<lambda>d f x y. of_bool (x < y)), a_select = (\<lambda>c x y. if c = 0 then y else x), a_fma = (\<lambda>d x y z. x * y + z),
     a_conv = (\<lambda>c s d x. x), a_bitcast = (\<lambda>s d x. x), a_piece = (\<lambda>s d x k. x)\<rparr>"

definition sum_dst :: buffer_read where "sum_dst = ReadWhole (Buffer 0 [2, 4] i32 (Some 2) L1 True)"

definition sum_expr :: bexpr where
  "sum_expr = BinaryE ''add'' (BufferE (ReadWhole (Buffer 1 [4] i32 None L1 False)))
     (CastE i32 True (BufferE (ReadWhole (Buffer 2 [2, 1] i16 None L1 False))))"

lemma sum_emitted: "(case emit_assign (\<lambda>_. True) sum_dst sum_expr of Inl _ \<Rightarrow> False | Inr N \<Rightarrow> n_lanes N = Some 2)"
  by code_simp

lemma sum_assignable: "assignable (\<lambda>_. 0) sum_dst sum_expr"
  by code_simp

lemma int_api_index: "index_cast_exact int_api"
  by (simp add: index_cast_exact_def int_api_def)

theorem assignment_computes_witness:
  "\<exists>N. emit_assign (\<lambda>_. True) sum_dst sum_expr = Inr N \<and>
     run_nest int_api (\<lambda>_. 0) N (\<lambda>b a. 10 * int b + last a) 0 [1, 3] = 33"
proof -
  obtain N where N: "emit_assign (\<lambda>_. True) sum_dst sum_expr = Inr N"
    using sum_emitted by (cases "emit_assign (\<lambda>_. True) sum_dst sum_expr") auto
  have p: "[1, 3] \<in> set (box (leaf_shape sum_dst))" by code_simp
  have "run_nest int_api (\<lambda>_. 0) N (\<lambda>b a. 10 * int b + last a) (leaf_id sum_dst) (elem_addr (\<lambda>_. 0) sum_dst [1, 3]) =
      denote int_api (\<lambda>_. 0) (\<lambda>b a. 10 * int b + last a) (leaf_dtype sum_dst) sum_expr [1, 3]"
    using assignment_computes [OF N sum_assignable int_api_index] p by blast
  moreover have "leaf_id sum_dst = 0" "elem_addr (\<lambda>_. 0) sum_dst [1, 3] = [1, 3]" by code_simp+
  moreover have "denote int_api (\<lambda>_. 0) (\<lambda>b a. 10 * int b + last a) (leaf_dtype sum_dst) sum_expr [1, 3] = 33" by code_simp
  ultimately show ?thesis using N by auto
qed

section \<open>Where the side conditions bite\<close>

text \<open>
  Three of the conditions of \<open>assignable\<close> are not enforced by the code. The read dict does not record which
  axes an integer subscript took, so a row and a column of a square tile are one read; a vector read follows
  the innermost axis of the buffer even when the region walks another; and the target of a cast is not
  compared with the type around it.
\<close>

definition square_tile :: "int \<Rightarrow> buffer" where "square_tile w = Buffer 1 [2, 2] i32 (Some w) L1 True"

definition tile_row :: "int \<Rightarrow> buffer_slice res" where
  "tile_row w = buffer_region (square_tile w) [Index (VInt 0), Slice None None None]"

definition tile_column :: "int \<Rightarrow> buffer_slice res" where
  "tile_column w = buffer_region (square_tile w) [Slice None None None, Index (VInt 0)]"

definition row_by_column :: "bexpr res" where
  "row_by_column = res_bind (tile_row 0) (\<lambda>r. res_bind (tile_column 0) (\<lambda>c. slice_arith r (OSlice c) ''mul'' False))"

definition tile_memory :: "int memory" where
  "tile_memory b a = (if b = 1 then 1 + 10 * hd a + last a else 0)"

definition stored_at :: "buffer_read \<Rightarrow> bexpr res \<Rightarrow> int list \<Rightarrow> (int \<times> int) res" where
  "stored_at dst e p =
     res_bind e (\<lambda>e. res_bind (emit_assign (\<lambda>_. True) dst e) (\<lambda>N.
       Inr (run_nest int_api (\<lambda>_. 0) N tile_memory (leaf_id dst) p, denote int_api (\<lambda>_. 0) tile_memory (leaf_dtype dst) e p)))"

text \<open>\<open>out[1] = b[0, 1] * b[1, 0]\<close> should be 2 times 11; the emitted nest squares \<open>b[0, 1]\<close>.\<close>

lemma row_and_column_share_a_read:
  "stored_at (ReadWhole (Buffer 0 [2] i32 (Some 0) L1 True)) row_by_column [1] = Inr (4, 22)"
  by code_simp

text \<open>\<open>out[1] = b[1, 0]\<close> should be 11; the vector read delivers \<open>b[0, 1]\<close>.\<close>

lemma column_read_delivers_a_row:
  "stored_at (ReadWhole (Buffer 0 [2] i32 (Some 2) L1 True))
     (res_bind (tile_column 2) (\<lambda>c. coerce_expr (OSlice c))) [1] = Inr (2, 11)"
  by code_simp

text \<open>\<open>out[:] = cast(a[:], i8)\<close> into an i32 tile converts to i32.\<close>

lemma cast_target_not_checked:
  "res_bind (cast (OBuffer (Buffer 1 [2] f32 None L1 False)) (Some i8) True) (\<lambda>e.
     res_bind (emit_assign (\<lambda>_. True) (ReadWhole (Buffer 0 [2] i32 None L1 False)) e) (\<lambda>N. Inr (n_value N)))
   = Inr (IConv FPToSI f32 i32 (ILoad 1 [IxIv 0]))"
  by code_simp

end
