(* ===== verification/Expr_Laws.thy ===== *)
theory Expr_Laws
  imports Emit_Correct
begin

text \<open>
  What the constructors of expressions guarantee about the values computed later: casts whose conversion is
  known when they are written, narrowings that lose nothing, shift counts below the width, switches whose
  folded and emitted forms agree.
\<close>

section \<open>Conversions\<close>

lemma conversion_clamped: "clamped_into e d \<Longrightarrow> \<exists>c. conversion_op s d True True = Inr c"
  by (cases "(e, d)" rule: clamped_into.cases) (auto simp: conversion_op_def)

lemma cast_cases:
  assumes "cast (OExpr e) (Some d) signed = Inr r"
  shows "(element_dtype e = Some d \<and> r = e) \<or>
    (\<exists>s c. element_dtype e = Some s \<and> s \<noteq> d \<and> \<not> is_unsigned s \<and> \<not> is_unsigned d \<and> r = CastE d signed e \<and>
       conversion_op s d (clamped_into e d) signed = Inr c)"
proof -
  obtain s where s: "element_dtype e = Some s" "\<not> is_compare e"
    using assms by (auto simp: cast_def split: option.splits if_splits)
  show ?thesis
  proof (cases "s = d")
    case True
    with s assms show ?thesis by (simp add: cast_def)
  next
    case False
    have r: "r = CastE d signed e" and u: "\<not> is_unsigned s" "\<not> is_unsigned d"
      and ok: "\<not> clamped_into e d \<or> \<not> signed \<longrightarrow> (\<exists>c. conversion_op s d False signed = Inr c)"
      using assms s False by (auto simp: cast_def res_bind_Inr_iff split: if_splits)
    have "\<exists>c. conversion_op s d (clamped_into e d) signed = Inr c"
    proof (cases "clamped_into e d")
      case clamped: True
      show ?thesis
      proof (cases signed)
        case True
        with clamped show ?thesis using conversion_clamped [of e d s] by simp
      next
        case False
        then obtain c where "conversion_op s d False signed = Inr c" using ok by blast
        with clamped False show ?thesis by (auto simp: conversion_op_def split: if_splits)
      qed
    next
      case False
      with ok show ?thesis by simp
    qed
    with r u s False show ?thesis by blast
  qed
qed

text \<open>What each conversion operation requires of the two types.\<close>

fun conv_fits :: "conv \<Rightarrow> dtype \<Rightarrow> dtype \<Rightarrow> bool" where
  "conv_fits ExtF s d = (is_float s \<and> is_float d)"
| "conv_fits TruncF s d = (is_float s \<and> is_float d)"
| "conv_fits FPToSI s d = (is_float s \<and> \<not> is_float d)"
| "conv_fits SIToFP s d = (\<not> is_float s \<and> is_float d)"
| "conv_fits ExtSI s d = (\<not> is_float s \<and> \<not> is_float d \<and> bits s < bits d)"
| "conv_fits ExtUI s d = (\<not> is_float s \<and> \<not> is_float d \<and> bits s < bits d)"
| "conv_fits TruncI s d = (\<not> is_float s \<and> \<not> is_float d \<and> bits d \<le> bits s)"

lemma conversion_fits: "conversion_op s d ok signed = Inr c \<Longrightarrow> conv_fits c s d \<and> (c = TruncI \<longrightarrow> ok) \<and> (c = ExtUI \<longleftrightarrow> \<not> signed)"
  by (auto simp: conversion_op_def res_bind_Inr_iff split: if_splits)

section \<open>Narrowing\<close>

text \<open>\<open>arith.trunci\<close> as it wraps on the scalar path and as it saturates on the vector path.\<close>

definition trunc_wrap :: "dtype \<Rightarrow> int \<Rightarrow> int" where
  "trunc_wrap d v = (v + 2 ^ nat (bits d - 1)) mod 2 ^ nat (bits d) - 2 ^ nat (bits d - 1)"

definition trunc_saturate :: "dtype \<Rightarrow> int \<Rightarrow> int" where
  "trunc_saturate d v = max (fst (int_range d)) (min (snd (int_range d)) v)"

lemma trunc_in_range:
  assumes "fst (int_range d) \<le> v" and "v \<le> snd (int_range d)" and "1 \<le> bits d"
  shows "trunc_wrap d v = v" and "trunc_saturate d v = v"
proof -
  have "nat (bits d) = Suc (nat (bits d - 1))" using assms(3) by simp
  then have "(2::int) ^ nat (bits d) = 2 * 2 ^ nat (bits d - 1)" by simp
  then have "(v + 2 ^ nat (bits d - 1)) mod 2 ^ nat (bits d) = v + 2 ^ nat (bits d - 1)"
    using assms(1,2) by (intro mod_pos_pos_trivial) (auto simp: int_range_def)
  then show "trunc_wrap d v = v" by (simp add: trunc_wrap_def)
  show "trunc_saturate d v = v" using assms by (simp add: trunc_saturate_def)
qed

text \<open>Arithmetic that compares integers of type \<open>s\<close> as integers.\<close>

definition int_order :: "int arith_api \<Rightarrow> dtype \<Rightarrow> bool" where
  "int_order A s \<longleftrightarrow> (\<forall>x y. a_binary A s ''min'' x y = min x y \<and> a_binary A s ''max'' x y = max x y) \<and>
     (\<forall>k. a_const A s (NInt k) = k) \<and> (\<forall>b. a_const A s (NBool b) = of_bool b)"

lemma const_operand_denote:
  assumes "const_operand e = Some k" and "int_order A s" and "\<not> is_float s"
  shows "denote A \<rho> m s e p = k"
  using assms by (cases e rule: const_operand.cases) (auto simp: int_order_def number_def)

lemma clamped_range:
  assumes "clamped_into e d" and "int_order A s" and "\<not> is_float s"
  shows "fst (int_range d) \<le> denote A \<rho> m s e p \<and> denote A \<rho> m s e p \<le> snd (int_range d)"
proof -
  obtain op op' x ib ob where e: "e = BinaryE op (BinaryE op' x ib) ob"
    using assms(1) by (cases "(e, d)" rule: clamped_into.cases) auto
  obtain outer inner where c: "const_operand ob = Some outer" "const_operand ib = Some inner"
    using assms(1) by (auto simp: e split: option.splits)
  have b: "denote A \<rho> m s ob p = outer" "denote A \<rho> m s ib p = inner"
    using const_operand_denote assms(2,3) c by blast+
  have d: "denote A \<rho> m s e p = a_binary A s op (a_binary A s op' (denote A \<rho> m s x p) inner) outer"
    by (simp add: e b)
  show ?thesis
  proof (cases "op = ''min''")
    case True
    then have "op' = ''max''" using assms(1) by (auto simp: e c)
    with True assms(1,2) show ?thesis unfolding d by (auto simp: e c int_order_def Let_def)
  next
    case False
    then have "op = ''max''" "op' = ''min''" using assms(1) by (auto simp: e c)
    with assms(1,2) show ?thesis unfolding d by (auto simp: e c int_order_def Let_def)
  qed
qed

section \<open>Switches\<close>

lemma switch_value_picks:
  assumes "switch_materialize s d = Inr v" and "0 \<le> eval_index \<rho> (sw_index s)" and "sw_values s \<noteq> []"
  shows "\<exists>ns. map_res (switch_typed d) (sw_values s) = Inr ns \<and>
    denote_scalar A \<rho> t (SValue v) = a_const A d (ns ! nat (min (eval_index \<rho> (sw_index s)) (int (length ns) - 1)))"
proof -
  obtain ns where ns: "map_res (switch_typed d) (sw_values s) = Inr ns"
    and v: "(case as_const (sw_index s) of
          Some i \<Rightarrow> res_bind (py_nth ns (min i (int (length ns) - 1))) (\<lambda>v. Inr (SwConst d v))
        | None \<Rightarrow> Inr (SwCases d (sw_index s) ns)) = Inr v"
    using assms(1) by (auto simp: switch_materialize_def res_bind_Inr_iff)
  have len: "ns \<noteq> []" using map_res_length [OF ns] assms(3) by auto
  let ?i = "eval_index \<rho> (sw_index s)"
  have "denote_scalar A \<rho> t (SValue v) = a_const A d (ns ! nat (min ?i (int (length ns) - 1)))"
  proof (cases "as_const (sw_index s)")
    case None
    have "switch_pick ns ?i = ns ! nat (min ?i (int (length ns) - 1))"
    proof (cases "?i < int (length ns) - 1")
      case True
      with assms(2) show ?thesis by (simp add: switch_pick_def)
    next
      case False
      then have "nat (min ?i (int (length ns) - 1)) = length ns - 1" by simp
      with False len show ?thesis by (simp add: switch_pick_def last_conv_nth)
    qed
    with None v show ?thesis by auto
  next
    case (Some k)
    then have k: "?i = k" by (rule as_const_sound)
    have "min k (int (length ns) - 1) \<ge> 0" using assms(2) k len by (simp add: Suc_leI)
    moreover have "min k (int (length ns) - 1) < int (length ns)" by simp
    ultimately have "py_nth ns (min k (int (length ns) - 1)) = Inr (ns ! nat (min k (int (length ns) - 1)))"
      by (simp add: py_nth_def)
    with Some v k show ?thesis by auto
  qed
  with ns show ?thesis by blast
qed

section \<open>Properties\<close>

text \<open>
  C37: a cast that is accepted where it is written is never refused when it is emitted. Its result has the
  target type, and the conversion the emitter will pick exists, fits the two types, and narrows integers only
  under a clamp.
\<close>

theorem cast_decided_when_written:
  assumes "cast (OExpr e) (Some d) signed = Inr r"
  shows "element_dtype r = Some d \<and>
    (r = e \<or> (\<exists>s c. element_dtype e = Some s \<and> r = CastE d signed e \<and> conversion_op s d (clamped_into e d) signed = Inr c \<and>
       conv_fits c s d \<and> (c = TruncI \<longrightarrow> clamped_into e d) \<and> (c = ExtUI \<longleftrightarrow> \<not> signed)))"
  using cast_cases [OF assms] conversion_fits by fastforce

definition wide_read :: bexpr where "wide_read = BufferE (ReadWhole (Buffer 1 [16] i32 None L1 False))"

definition clamp_i8 :: bexpr where
  "clamp_i8 = BinaryE ''min'' (BinaryE ''max'' wide_read (ScalarE (SNum (NInt (-128))))) (ScalarE (SNum (NInt 127)))"

theorem cast_decided_when_written_witness:
  "cast (OExpr clamp_i8) (Some i8) True = Inr (CastE i8 True clamp_i8) \<and> cast (OExpr wide_read) (Some i8) True = Inl NotImplementedError \<and>
   element_dtype (CastE i8 True clamp_i8) = Some i8"
proof -
  have c: "cast (OExpr clamp_i8) (Some i8) True = Inr (CastE i8 True clamp_i8)" by code_simp
  moreover have "cast (OExpr wide_read) (Some i8) True = Inl NotImplementedError" by code_simp
  ultimately show ?thesis using cast_decided_when_written [OF c] by blast
qed

text \<open>
  An accepted integer narrowing loses nothing. Every value that reaches the conversion is in the range of
  the target type, so the wrapping and the saturating form of the truncation are both the identity on it and
  the result does not depend on the path the emitter takes.
\<close>

theorem narrowing_cast_exact:
  assumes "cast (OExpr e) (Some d) True = Inr (CastE d True e)" and "element_dtype e = Some s"
    and "\<not> is_float s" and "\<not> is_float d" and "bits d \<le> bits s" and "1 \<le> bits d" and "int_order A s"
  shows "trunc_wrap d (denote A \<rho> m s e p) = denote A \<rho> m s e p \<and>
    trunc_saturate d (denote A \<rho> m s e p) = denote A \<rho> m s e p"
proof -
  have "e \<noteq> CastE d True e" by (metis add.right_neutral add_Suc_right bexpr.size(18) n_not_Suc_n)
  then obtain c where "conversion_op s d (clamped_into e d) True = Inr c"
    using cast_cases [OF assms(1)] assms(2) by auto
  then have "clamped_into e d" using assms(3-5) by (auto simp: conversion_op_def split: if_splits)
  then show ?thesis using clamped_range [OF _ assms(7,3)] trunc_in_range assms(6) by blast
qed

theorem narrowing_cast_exact_witness:
  "trunc_wrap i8 (denote int_api (\<lambda>_. 0) (\<lambda>b a. 1000) i32 clamp_i8 [3]) = 127 \<and> trunc_wrap i8 1000 = -24"
proof -
  have "cast (OExpr clamp_i8) (Some i8) True = Inr (CastE i8 True clamp_i8)" by code_simp
  moreover have "element_dtype clamp_i8 = Some i32" "\<not> is_float i32" "\<not> is_float i8" "bits i8 \<le> bits i32" "1 \<le> bits i8"
    by code_simp+
  moreover have "int_order int_api i32" by (auto simp: int_order_def int_api_def)
  ultimately have "trunc_wrap i8 (denote int_api (\<lambda>_. 0) (\<lambda>b a. 1000) i32 clamp_i8 [3]) = denote int_api (\<lambda>_. 0) (\<lambda>b a. 1000) i32 clamp_i8 [3]"
    by (intro conjunct1 [OF narrowing_cast_exact])
  moreover have "denote int_api (\<lambda>_. 0) (\<lambda>b a. 1000) i32 clamp_i8 [3] = 127" "trunc_wrap i8 1000 = -24" by code_simp+
  ultimately show ?thesis by simp
qed

text \<open>
  A shift count known at trace time is below the width. When a shift is accepted and its count is a
  literal or an index expression that folds, then for every binding of the coordinates the count is neither
  negative nor as large as the element is wide.
\<close>

theorem shift_count_below_width:
  assumes "binary_node self (OExpr amount) op False = Inr r" and "op = ''shl'' \<or> op = ''shr''"
    and "amount = ScalarE (SIndex e) \<and> as_const e \<noteq> None \<or> (\<exists>k. amount = ScalarE (SNum (NInt k)) \<and> e = index_constant k)"
    and "element_dtype self = Some d"
  shows "r = BinaryE op self amount \<and> 0 \<le> eval_index \<rho> e \<and> eval_index \<rho> e < bits d"
proof -
  have ok: "check_shift_amount amount self = Inr ()" and r: "r = BinaryE op self amount"
    using assms(1,2) by (auto simp: binary_node_def Let_def res_bind_Inr_iff)
  obtain n where n: "const_count amount = Some n" "eval_index \<rho> e = n"
    using assms(3) as_const_sound by auto
  with ok assms(4) r show ?thesis by (auto simp: check_shift_amount_def split: if_splits)
qed

theorem shift_count_below_width_witness:
  "binary_node wide_read (OExpr (ScalarE (SNum (NInt 31)))) ''shr'' False = Inr (BinaryE ''shr'' wide_read (ScalarE (SNum (NInt 31)))) \<and>
   binary_node wide_read (OExpr (ScalarE (SNum (NInt 32)))) ''shr'' False = Inl ValueError \<and> (31 :: int) < bits i32"
proof -
  have b: "binary_node wide_read (OExpr (ScalarE (SNum (NInt 31)))) ''shr'' False = Inr (BinaryE ''shr'' wide_read (ScalarE (SNum (NInt 31))))"
    by code_simp
  have e: "element_dtype wide_read = Some i32" by code_simp
  have "eval_index (\<lambda>_. 0) (index_constant 31) < bits i32"
    using shift_count_below_width [OF b _ _ e, of "index_constant 31" "\<lambda>_. 0"] by simp
  moreover have "binary_node wide_read (OExpr (ScalarE (SNum (NInt 32)))) ''shr'' False = Inl ValueError" by code_simp
  ultimately show ?thesis using b by simp
qed

text \<open>
  A switch picks the same value folded and emitted. For an index that is not negative, the constant a
  folded switch becomes and the value the emitted \<open>scf.index_switch\<close> selects are both the value at that
  position, the last one beyond the end, in the element type asked for.
\<close>

theorem switch_picks_by_index:
  assumes "switch_materialize s d = Inr v" and "0 \<le> eval_index \<rho> (sw_index s)" and "sw_values s \<noteq> []"
  shows "\<exists>ns. map_res (switch_typed d) (sw_values s) = Inr ns \<and>
    denote_scalar A \<rho> t (SValue v) = a_const A d (ns ! nat (min (eval_index \<rho> (sw_index s)) (int (length ns) - 1)))"
  using assms by (rule switch_value_picks)

definition two_way :: "int \<Rightarrow> switch_obj" where
  "two_way k = \<lparr>sw_index = index_constant k, sw_values = [ArmValue (NInt 5), ArmValue (NInt 6), ArmValue (NInt 7)]\<rparr>"

theorem switch_picks_by_index_witness:
  "switch_materialize (two_way 4) i32 = Inr (SwConst i32 (NInt 7)) \<and> denote_scalar int_api (\<lambda>_. 0) i32 (SValue (SwConst i32 (NInt 7))) = 7"
proof -
  have s: "switch_materialize (two_way 4) i32 = Inr (SwConst i32 (NInt 7))" by code_simp
  have e: "eval_index (\<lambda>_. 0) (sw_index (two_way 4)) = 4" by (simp add: two_way_def)
  obtain ns where ns: "map_res (switch_typed i32) (sw_values (two_way 4)) = Inr ns"
    "denote_scalar int_api (\<lambda>_. 0) i32 (SValue (SwConst i32 (NInt 7))) = a_const int_api i32 (ns ! nat (min 4 (int (length ns) - 1)))"
    using switch_picks_by_index [OF s, of "\<lambda>_. 0" int_api i32] e by (auto simp: two_way_def)
  moreover have "map_res (switch_typed i32) (sw_values (two_way 4)) = Inr [NInt 5, NInt 6, NInt 7]" by code_simp
  ultimately have "denote_scalar int_api (\<lambda>_. 0) i32 (SValue (SwConst i32 (NInt 7))) = 7" by (simp add: int_api_def)
  with s show ?thesis by blast
qed

text \<open>A negative index that folds picks from the end, where the emitted switch takes the last value.\<close>

lemma negative_switch_diverges:
  "switch_materialize (two_way (-2)) i32 = Inr (SwConst i32 (NInt 6)) \<and> switch_pick [NInt 5, NInt 6, NInt 7] (-2) = NInt 7"
  by code_simp

end
