(* ===== verification/Reduce.thy ===== *)
theory Reduce
  imports Emit_Correct
begin

text \<open>
  Reductions along the innermost axis: \<open>_emit_reduce\<close> and \<open>_emit_argmax\<close> of
  \<^verbatim>\<open>src/python/air/api/_emit.py\<close>, and the dispatch of \<open>emit_elementwise\<close>. A sum or a maximum is one
  \<open>vector.reduction\<close> over the whole axis, or a loop that combines steps of lanes in a scratch vector and
  reduces that; an argmax is a scalar loop over value and index. Both are shown to be the fold of the
  operand along the axis.
\<close>

section \<open>Checks\<close>

fun check_reduce_regions :: "dtype option \<Rightarrow> bexpr \<Rightarrow> unit res" where
  "check_reduce_regions d (CastE t s x) = check_reduce_regions (element_dtype x) x"
| "check_reduce_regions d (BufferE l) =
     (case d of None \<Rightarrow> Inr () | Some t \<Rightarrow> if leaf_dtype l \<noteq> t then Inl ValueError else Inr ())"
| "check_reduce_regions d (ScalarE v) = Inr ()"
| "check_reduce_regions d (UnaryE f a) = check_reduce_regions d a"
| "check_reduce_regions d (ReduceE f a) = check_reduce_regions d a"
| "check_reduce_regions d (BitcastE t a) = check_reduce_regions d a"
| "check_reduce_regions d (BinaryE f a b) =
     res_bind (check_reduce_regions d a) (\<lambda>_. check_reduce_regions d b)"
| "check_reduce_regions d (CompareE f a b) =
     res_bind (check_reduce_regions d a) (\<lambda>_. check_reduce_regions d b)"
| "check_reduce_regions d (SelectE c a b) =
     res_bind (check_reduce_regions d c) (\<lambda>_. res_bind (check_reduce_regions d a) (\<lambda>_. check_reduce_regions d b))"
| "check_reduce_regions d (FmaE a b c) =
     res_bind (check_reduce_regions d a) (\<lambda>_. res_bind (check_reduce_regions d b) (\<lambda>_. check_reduce_regions d c))"

definition reduced_shape :: "buffer_read list \<Rightarrow> int list res" where
  "reduced_shape ls = (case broadcast_shape (map leaf_shape ls) of None \<Rightarrow> Inl ValueError | Some s \<Rightarrow> Inr s)"

text \<open>Whether the destination keeps the reduced axis as 1; a refusal when it neither keeps nor drops it.\<close>

definition keepdims_of :: "int list \<Rightarrow> int list \<Rightarrow> bool res" where
  "keepdims_of dst src =
     (if dst = butlast src @ [1] then Inr True
      else if dst = butlast src then Inr False
      else Inl ValueError)"

definition check_reduce_leaf :: "(nat \<Rightarrow> bool) \<Rightarrow> int list \<Rightarrow> buffer_read \<Rightarrow> unit res" where
  "check_reduce_leaf alive src l =
     (if broadcast_offset (leaf_shape l) src = None then Inl ValueError
      else if \<not> alive (leaf_id l) then Inl RuntimeError
      else Inr ())"

text \<open>\<open>_reduce_lanes\<close>, and the choice of lanes: of a leaf that spans the axis, capped by the element types.\<close>

definition reduce_lanes :: "buffer_read \<Rightarrow> int \<Rightarrow> int" where
  "reduce_lanes l axis =
     (let w = vector_width (leaf_buffer l) in if w = 0 \<or> axis \<le> w \<or> axis mod w \<noteq> 0 then axis else w)"

definition pick_lanes :: "buffer_read list \<Rightarrow> dtype list \<Rightarrow> int \<Rightarrow> int" where
  "pick_lanes ls ds axis =
     (let spanning = filter (\<lambda>l. leaf_shape l \<noteq> [] \<and> last (leaf_shape l) = axis) ls;
          lanes = (case spanning of [] \<Rightarrow> axis | l # _ \<Rightarrow> reduce_lanes l axis);
          capped = cap_by_regions lanes ds in
      if capped \<noteq> 0 \<and> axis mod capped = 0 then capped else lanes)"

section \<open>Emission\<close>

text \<open>
  A reduction: the outer bounds, the axis and the lanes of one step, the value of the first step and of the
  step at the loop variable, the element type and the key of the combining operation.
\<close>

record reduce_nest =
  rn_outer :: "int list"
  rn_dst :: nat
  rn_index :: "ix list"
  rn_axis :: int
  rn_lanes :: int
  rn_first :: ir
  rn_step :: ir
  rn_dtype :: dtype
  rn_op :: string

definition reduce_env :: "int list \<Rightarrow> ix \<Rightarrow> int option \<Rightarrow> dtype list \<Rightarrow> nest_env" where
  "reduce_env src at lanes ds =
     \<lparr>ne_shape = src, ne_ivs = nest_ivs (butlast src) @ [at], ne_zero = Some (IxConst 0), ne_lanes = lanes,
      ne_regions = ds, ne_repack = False\<rparr>"

definition emit_reduce :: "(nat \<Rightarrow> bool) \<Rightarrow> buffer_read \<Rightarrow> string \<Rightarrow> bexpr \<Rightarrow> reduce_nest res" where
  "emit_reduce alive dst op x =
     (let d = leaf_dtype dst; ls = expr_leaves x in
      res_bind (require_computable d) (\<lambda>_.
      res_bind (require_signless d) (\<lambda>_.
      res_bind (reduced_shape ls) (\<lambda>src.
      res_bind (each_res (check_reduce_leaf alive src) ls) (\<lambda>_.
      res_bind (check_reduce_regions (Some d) x) (\<lambda>_.
      res_bind (keepdims_of (leaf_shape dst) src) (\<lambda>keepdims.
      res_bind (res_check (src \<noteq> []) IndexError) (\<lambda>_.
      res_bind (res_check (op \<in> {''add'', ''max''}) KeyError) (\<lambda>_.
        let axis = last src; ds = regions_in x (Some d) []; lanes = pick_lanes ls ds axis;
            outer = nest_ivs (butlast src) in
        res_bind (eval_node (reduce_env src (IxConst 0) (Some lanes) ds) d x []) (\<lambda>(first, _).
        res_bind (eval_node (reduce_env src (IxIv (length src - 1)) (Some lanes) ds) d x []) (\<lambda>(step, _).
        res_bind (dst_index dst (if keepdims then outer @ [IxConst 0] else outer)) (\<lambda>index.
          Inr \<lparr>rn_outer = butlast src, rn_dst = leaf_id dst, rn_index = index, rn_axis = axis, rn_lanes = lanes,
               rn_first = first, rn_step = step, rn_dtype = d, rn_op = op\<rparr>))))))))))))"

text \<open>An argmax: the value at a column, compared in its own type; the index is stored in the destination's.\<close>

record argmax_nest =
  am_outer :: "int list"
  am_dst :: nat
  am_index :: "ix list"
  am_axis :: int
  am_first :: ir
  am_column :: ir
  am_value_dtype :: dtype
  am_dtype :: dtype

definition emit_argmax :: "buffer_read \<Rightarrow> bexpr \<Rightarrow> argmax_nest res" where
  "emit_argmax dst x =
     (let d = leaf_dtype dst; ls = expr_leaves x in
      res_bind (require_signless d) (\<lambda>_.
      res_bind (res_check (\<not> is_float d) TypeError) (\<lambda>_.
      res_bind (reduced_shape ls) (\<lambda>src.
      let vd = (case element_dtype x of Some t \<Rightarrow> t | None \<Rightarrow> leaf_dtype (hd ls)) in
      res_bind (require_computable vd) (\<lambda>_.
      res_bind (require_signless vd) (\<lambda>_.
      res_bind (check_reduce_regions (Some vd) x) (\<lambda>_.
      res_bind (keepdims_of (leaf_shape dst) src) (\<lambda>keepdims.
      res_bind (res_check (src \<noteq> []) IndexError) (\<lambda>_.
        let ds = regions_in x (Some vd) []; outer = nest_ivs (butlast src) in
        res_bind (eval_node (reduce_env src (IxConst 0) None ds) vd x []) (\<lambda>(first, _).
        res_bind (eval_node (reduce_env src (IxIv (length src - 1)) None ds) vd x []) (\<lambda>(column, _).
          Inr \<lparr>am_outer = butlast src, am_dst = leaf_id dst,
               am_index = (if keepdims then outer @ [IxConst 0] else outer), am_axis = last src,
               am_first = first, am_column = column, am_value_dtype = vd, am_dtype = d\<rparr>)))))))))))"

datatype emitted = EmNest nest | EmReduce reduce_nest | EmArgmax argmax_nest

text \<open>\<open>emit_elementwise\<close>.\<close>

definition emit_elementwise :: "(nat \<Rightarrow> bool) \<Rightarrow> buffer_read \<Rightarrow> bexpr \<Rightarrow> emitted res" where
  "emit_elementwise alive dst e =
     res_bind (resolve_switches e (leaf_dtype dst)) (\<lambda>e.
       (case e of
          ReduceE op x \<Rightarrow>
            if op = ''argmax'' then res_bind (emit_argmax dst x) (\<lambda>N. Inr (EmArgmax N))
            else res_bind (emit_reduce alive dst op x) (\<lambda>N. Inr (EmReduce N))
        | _ \<Rightarrow> res_bind (emit_assign alive dst e) (\<lambda>N. Inr (EmNest N))))"

text \<open>\<open>Buffer.__setitem__\<close>: the whole tile, or the region the subscript names.\<close>

definition buffer_setitem :: "(nat \<Rightarrow> bool) \<Rightarrow> buffer \<Rightarrow> subscript list \<Rightarrow> operand \<Rightarrow> emitted res" where
  "buffer_setitem alive b key v =
     res_bind (require_compute b) (\<lambda>_.
       if is_whole key then res_bind (coerce_expr v) (\<lambda>e. emit_elementwise alive (ReadWhole b) e)
       else res_bind (buffer_region b key) (\<lambda>r. res_bind (coerce_expr v) (\<lambda>e. emit_elementwise alive (ReadRegion r) e)))"

section \<open>Running a reduction\<close>

text \<open>
  The steps of one row: the first seeds the scratch vector, each further one is combined into it lane by lane,
  and \<open>vector.reduction\<close>, a parameter \<open>R\<close> on the list of lanes, collapses it.
\<close>

definition step_lanes :: "'v arith_api \<Rightarrow> (nat \<Rightarrow> int) \<Rightarrow> 'v memory \<Rightarrow> ir \<Rightarrow> int list \<Rightarrow> int \<Rightarrow> 'v list" where
  "step_lanes A \<rho> m v vs w = map (\<lambda>j. lane A \<rho> m vs v (int j)) [0..<nat w]"

definition reduce_row :: "'v arith_api \<Rightarrow> (dtype \<Rightarrow> string \<Rightarrow> 'v list \<Rightarrow> 'v) \<Rightarrow> (nat \<Rightarrow> int) \<Rightarrow> reduce_nest \<Rightarrow> 'v memory \<Rightarrow> int list \<Rightarrow> 'v" where
  "reduce_row A R \<rho> N m p =
     (let f = a_binary A (rn_dtype N) (rn_op N); w = rn_lanes N;
          seed = step_lanes A \<rho> m (rn_first N) (p @ [0]) w;
          acc = foldl (\<lambda>acc at. map2 f acc (step_lanes A \<rho> m (rn_step N) (p @ [at]) w)) seed
                  (loop_values (w, rn_axis N, w))
      in R (rn_dtype N) (rn_op N) acc)"

definition argmax_row :: "'v arith_api \<Rightarrow> (nat \<Rightarrow> int) \<Rightarrow> argmax_nest \<Rightarrow> 'v memory \<Rightarrow> int list \<Rightarrow> 'v" where
  "argmax_row A \<rho> N m p =
     snd (foldl (\<lambda>(running, chosen) c.
            let cand = lane A \<rho> m (p @ [c]) (am_column N) 0;
                wins = a_cmp A (am_value_dtype N) ''gt'' cand running
            in (a_select A wins cand running, a_select A wins (a_index A (am_dtype N) c) chosen))
          (lane A \<rho> m (p @ [0]) (am_first N) 0, a_const A (am_dtype N) (NInt 0))
          (loop_values (1, am_axis N, 1)))"

definition store_rows :: "(nat \<Rightarrow> int) \<Rightarrow> int list \<Rightarrow> nat \<Rightarrow> ix list \<Rightarrow> ('v memory \<Rightarrow> int list \<Rightarrow> 'v) \<Rightarrow> 'v memory \<Rightarrow> 'v memory" where
  "store_rows \<rho> outer b index row m =
     foldl (\<lambda>m p. m(b := (m b)(map (ix_val \<rho> p) index := row m p))) m (box outer)"

definition run_reduce :: "'v arith_api \<Rightarrow> (dtype \<Rightarrow> string \<Rightarrow> 'v list \<Rightarrow> 'v) \<Rightarrow> (nat \<Rightarrow> int) \<Rightarrow> reduce_nest \<Rightarrow> 'v memory \<Rightarrow> 'v memory" where
  "run_reduce A R \<rho> N = store_rows \<rho> (rn_outer N) (rn_dst N) (rn_index N) (reduce_row A R \<rho> N)"

definition run_argmax :: "'v arith_api \<Rightarrow> (nat \<Rightarrow> int) \<Rightarrow> argmax_nest \<Rightarrow> 'v memory \<Rightarrow> 'v memory" where
  "run_argmax A \<rho> N = store_rows \<rho> (am_outer N) (am_dst N) (am_index N) (argmax_row A \<rho> N)"

section \<open>Folding an axis\<close>

definition fold1 :: "('v \<Rightarrow> 'v \<Rightarrow> 'v) \<Rightarrow> 'v list \<Rightarrow> 'v" where
  "fold1 f xs = foldl f (hd xs) (tl xs)"

locale combining =
  fixes f :: "'v \<Rightarrow> 'v \<Rightarrow> 'v"
  assumes assoc: "f (f x y) z = f x (f y z)" and comm: "f x y = f y x"
begin

lemma foldl_out: "foldl f (f x y) ys = f x (foldl f y ys)"
  by (induction ys arbitrary: y) (simp_all add: assoc)

lemma fold1_Cons: "xs \<noteq> [] \<Longrightarrow> fold1 f (x # xs) = f x (fold1 f xs)"
  by (cases xs) (simp_all add: fold1_def foldl_out)

lemma fold1_append: "xs \<noteq> [] \<Longrightarrow> ys \<noteq> [] \<Longrightarrow> fold1 f (xs @ ys) = f (fold1 f xs) (fold1 f ys)"
proof (induction xs)
  case (Cons x xs)
  then show ?case by (cases "xs = []") (simp_all add: fold1_Cons assoc, simp add: fold1_def)
qed simp

lemma fold1_map2: "length xs = length ys \<Longrightarrow> xs \<noteq> [] \<Longrightarrow> fold1 f (map2 f xs ys) = f (fold1 f xs) (fold1 f ys)"
proof (induction xs ys rule: list_induct2)
  case (Cons x xs y ys)
  show ?case
  proof (cases "xs = []")
    case True
    with Cons show ?thesis by (simp add: fold1_def)
  next
    case False
    then have "ys \<noteq> []" "map2 f xs ys \<noteq> []" using Cons(1) by auto
    with Cons False show ?thesis by (simp add: fold1_Cons) (metis assoc comm)
  qed
qed simp

text \<open>Combining blocks lane by lane and folding the lanes folds all the blocks.\<close>

lemma fold1_blocks:
  assumes "length seed = n" and "0 < n" and "\<forall>a \<in> set ats. length (blk a) = n"
  shows "fold1 f (foldl (\<lambda>acc a. map2 f acc (blk a)) seed ats) = fold1 f (seed @ concat (map blk ats))"
  using assms
proof (induction ats arbitrary: seed)
  case (Cons a ats)
  define s rest where "s = map2 f seed (blk a)" and "rest = concat (map blk ats)"
  have ne: "seed \<noteq> []" "blk a \<noteq> []" "s \<noteq> []" using Cons(2-4) by (auto simp: s_def)
  have s: "fold1 f s = fold1 f (seed @ blk a)" using Cons(2,4) ne by (simp add: s_def fold1_map2 fold1_append)
  have "fold1 f (foldl (\<lambda>acc a. map2 f acc (blk a)) s ats) = fold1 f (s @ rest)"
    unfolding rest_def using Cons by (intro Cons(1)) (auto simp: s_def)
  also have "\<dots> = fold1 f ((seed @ blk a) @ rest)"
  proof (cases "rest = []")
    case False
    then show ?thesis using s ne fold1_append [of s rest] fold1_append [of "seed @ blk a" rest] by simp
  qed (simp add: s)
  also have "\<dots> = fold1 f (seed @ concat (map blk (a # ats)))" by (simp add: rest_def)
  finally show ?case by (simp add: s_def)
qed simp

end

text \<open>What a reduction asks of the target: a combining operation, and a \<open>vector.reduction\<close> that folds it.\<close>

definition reduce_laws :: "'v arith_api \<Rightarrow> (dtype \<Rightarrow> string \<Rightarrow> 'v list \<Rightarrow> 'v) \<Rightarrow> dtype \<Rightarrow> string \<Rightarrow> bool" where
  "reduce_laws A R d op \<longleftrightarrow> combining (a_binary A d op) \<and> (\<forall>xs. xs \<noteq> [] \<longrightarrow> R d op xs = fold1 (a_binary A d op) xs)"

interpretation int_sum: combining "a_binary int_api d ''add''" for d
  by unfold_locales (simp_all add: int_api_def)

interpretation int_max: combining "a_binary int_api d ''max''" for d
  by unfold_locales (auto simp: int_api_def max_def)

section \<open>Shapes of a reduction\<close>

lemma join_extent_pos: "join_extent x es = Some y \<Longrightarrow> 1 \<le> x \<Longrightarrow> \<forall>e \<in> set es. 1 \<le> e \<Longrightarrow> 1 \<le> y"
  by (induction x es rule: join_extent.induct) (auto split: if_splits)

lemma sequence_opt_set: "sequence_opt xs = Some ys \<Longrightarrow> y \<in> set ys \<Longrightarrow> Some y \<in> set xs"
  by (induction xs arbitrary: ys) (auto split: option.splits)

lemma broadcast_shape_pos:
  assumes "broadcast_shape shapes = Some S" and "\<forall>s \<in> set shapes. \<forall>n \<in> set s. 1 \<le> n"
  shows "\<forall>n \<in> set S. 1 \<le> n"
proof
  fix n assume "n \<in> set S"
  then obtain axis where axis: "axis < max_rank shapes" "join_extent 1 (axis_extents shapes (max_rank shapes) axis) = Some n"
  proof -
    have "sequence_opt (map (\<lambda>axis. join_extent 1 (axis_extents shapes (max_rank shapes) axis)) [0..<max_rank shapes]) = Some S"
      using assms(1) by (simp add: broadcast_shape_def Let_def)
    from sequence_opt_set [OF this \<open>n \<in> set S\<close>]
    obtain axis where "axis \<in> set [0..<max_rank shapes]" "Some n = join_extent 1 (axis_extents shapes (max_rank shapes) axis)"
      unfolding set_map image_iff by blast
    then show thesis by (intro that [of axis]) auto
  qed
  have "s ! (axis - (max_rank shapes - length s)) \<in> set s" if "s \<in> set shapes" "max_rank shapes - length s \<le> axis" for s
    using that axis(1) by (intro nth_mem) auto
  then have "\<forall>e \<in> set (axis_extents shapes (max_rank shapes) axis). 1 \<le> e"
    using assms(2) by (auto simp: axis_extents_def)
  then show "1 \<le> n" using join_extent_pos [OF axis(2)] by simp
qed

lemma cap_by_regions_bounds: "1 \<le> w \<Longrightarrow> 1 \<le> cap_by_regions w ds \<and> cap_by_regions w ds \<le> w"
proof (induction ds arbitrary: w)
  case (Cons d ds)
  define w' where "w' = (if bits d \<noteq> 0 then min w (max 1 (MAX_VECTOR_BITS div bits d)) else w)"
  have "1 \<le> w'" "w' \<le> w" using Cons(2) by (simp_all add: w'_def)
  moreover have "cap_by_regions w (d # ds) = cap_by_regions w' ds" by (simp add: cap_by_regions_def w'_def)
  ultimately show ?case using Cons(1) [of w'] by simp
qed (simp add: cap_by_regions_def)

lemma pick_lanes_ok:
  assumes "1 \<le> axis" and "\<forall>l \<in> set ls. 0 \<le> vector_width (leaf_buffer l)"
  shows "0 < pick_lanes ls ds axis \<and> axis mod pick_lanes ls ds axis = 0"
proof -
  define spanning where "spanning = filter (\<lambda>l. leaf_shape l \<noteq> [] \<and> last (leaf_shape l) = axis) ls"
  define lanes where "lanes = (case spanning of [] \<Rightarrow> axis | l # _ \<Rightarrow> reduce_lanes l axis)"
  have "0 < lanes \<and> axis mod lanes = 0"
  proof (cases spanning)
    case (Cons l ls')
    then have "l \<in> set spanning" by simp
    then have "0 \<le> vector_width (leaf_buffer l)" using assms(2) by (simp add: spanning_def)
    with assms(1) show ?thesis by (auto simp: lanes_def Cons reduce_lanes_def Let_def)
  qed (use assms(1) in \<open>simp add: lanes_def\<close>)
  moreover from this have "1 \<le> cap_by_regions lanes ds" using cap_by_regions_bounds [of lanes ds] by simp
  ultimately show ?thesis
    by (auto simp: pick_lanes_def Let_def spanning_def [symmetric] lanes_def [symmetric])
qed

section \<open>Rows\<close>

definition row_values :: "'v arith_api \<Rightarrow> (nat \<Rightarrow> int) \<Rightarrow> 'v memory \<Rightarrow> dtype \<Rightarrow> bexpr \<Rightarrow> int \<Rightarrow> int list \<Rightarrow> 'v list" where
  "row_values A \<rho> m d x axis p = map (\<lambda>k. denote A \<rho> m d x (p @ [int k])) [0..<nat axis]"

text \<open>The leaves of a reduction's operand, as for an assignment.\<close>

definition reducible :: "buffer_read \<Rightarrow> dtype \<Rightarrow> bexpr \<Rightarrow> bool" where
  "reducible dst d x \<longleftrightarrow> wf_read dst \<and> list_all wf_read (expr_leaves x) \<and> list_all aligned (expr_leaves x) \<and>
     typed d x \<and> keyed (set (expr_leaves x)) \<and>
     list_all (\<lambda>l. leaf_id l \<noteq> leaf_id dst \<and> 0 \<le> vector_width (leaf_buffer l)) (expr_leaves x)"

lemma box_snoc: "p @ [k] \<in> set (box (S @ [n])) \<longleftrightarrow> p \<in> set (box S) \<and> 0 \<le> k \<and> k < n"
proof (cases "length p = length S")
  case True
  then show ?thesis by (simp add: box_iff list_all2_append)
next
  case False
  then show ?thesis using box_length [of "p @ [k]" "S @ [n]"] box_length [of p S] by auto
qed

lemma reduce_env_walk:
  assumes "reducible dst d x" and "index_cast_exact A" and "src \<noteq> []" and "p \<in> set (box (butlast src))"
    and "at = IxConst 0 \<and> v = 0 \<or> at = IxIv (length src - 1)"
    and "\<forall>j \<in> set (lanes_of w). 0 \<le> v + j \<and> v + j < last src" and "w \<noteq> None \<longrightarrow> 0 < the w \<and> last src mod the w = 0"
  shows "walk_ok A \<rho> src w (p @ [v]) (set (expr_leaves x)) (reduce_env src at w ds)"
proof -
  have len: "length p = length src - 1" using box_length [OF assms(4)] by simp
  have "bump (p @ [v]) j \<in> set (box src)" if "j \<in> set (lanes_of w)" for j
    using that assms(3,4,6) box_snoc [of p "v + j" "butlast src" "last src"] by (simp add: bump_def)
  then have "trip_ok src w (p @ [v])" using assms(3,7) by (simp add: trip_ok_def)
  moreover have "map (ix_val \<rho> (p @ [v])) (nest_ivs (butlast src) @ [at]) = p @ [v]"
  proof -
    have "map (ix_val \<rho> (p @ [v])) (nest_ivs (butlast src)) = p"
      using len by (simp add: nest_ivs_def comp_def list_eq_iff_nth_eq nth_append)
    moreover have "ix_val \<rho> (p @ [v]) at = v" using assms(5) len by (auto simp: nth_append)
    ultimately show ?thesis by simp
  qed
  ultimately show ?thesis
    using assms(1,2) by (auto simp: walk_ok_def env_ok_def reduce_env_def reducible_def list_all_iff)
qed

lemma reduce_value:
  assumes "eval_node (reduce_env src at w ds) d x [] = Inr (v, rs)" and "reducible dst d x"
    and "walk_ok A \<rho> src w vs (set (expr_leaves x)) (reduce_env src at w ds)" and "j \<in> set (lanes_of w)"
  shows "lane A \<rho> m vs v j = denote A \<rho> m d x (bump vs j)"
proof -
  have "computes_node A \<rho> w vs v d x"
    using eval_node_computes [OF assms(1,3), of "\<lambda>_. True"] assms(2) by (auto simp: reduce_env_def reducible_def)
  then show ?thesis using assms(4) by (simp add: computes_node_def)
qed

lemma touches_leaves: "(b, a) \<in> set (touches \<rho> e p) \<Longrightarrow> \<exists>l \<in> set (expr_leaves e). b = leaf_id l"
  by (induction e) (auto split: bexpr.splits)

lemma row_values_other:
  assumes "reducible dst d x"
  shows "row_values A \<rho> (m(leaf_id dst := g)) d x axis p = row_values A \<rho> m d x axis p"
proof -
  have "denote A \<rho> (m(leaf_id dst := g)) d x q = denote A \<rho> m d x q" for q
  proof (rule denote_cong, clarify)
    fix b a assume "(b, a) \<in> set (touches \<rho> x q)"
    then obtain l where "l \<in> set (expr_leaves x)" "b = leaf_id l" using touches_leaves by blast
    then have "b \<noteq> leaf_id dst" using assms by (auto simp: reducible_def list_all_iff)
    then show "(m(leaf_id dst := g)) b a = m b a" by simp
  qed
  then show ?thesis by (simp add: row_values_def)
qed

text \<open>Rows stored one after the other, when no row reads the destination.\<close>

lemma store_rows_spec:
  assumes "\<And>m p. p \<in> set (box outer) \<Longrightarrow> row m p = ref m p" and "\<And>m g p. ref (m(b := g)) p = ref m p"
    and "\<And>p. p \<in> set (box outer) \<Longrightarrow> map (ix_val \<rho> p) index = D p" and "inj_on D (set (box outer))"
  shows "(\<forall>p \<in> set (box outer). store_rows \<rho> outer b index row m b (D p) = ref m p) \<and>
    (\<forall>b' a. b' \<noteq> b \<or> a \<notin> D ` set (box outer) \<longrightarrow> store_rows \<rho> outer b index row m b' a = m b' a)"
proof -
  define step where "step = (\<lambda>m p. m(b := (m b)(map (ix_val \<rho> p) index := row m p)))"
  have "(\<forall>p \<in> set ps. foldl step m ps b (D p) = ref m p) \<and>
    (\<forall>b' a. b' \<noteq> b \<or> a \<notin> D ` set ps \<longrightarrow> foldl step m ps b' a = m b' a)"
    if "set ps \<subseteq> set (box outer)" "distinct ps" for ps
    using that
  proof (induction ps arbitrary: m)
    case (Cons p ps)
    define m' where "m' = m(b := (m b)(D p := ref m p))"
    have p: "p \<in> set (box outer)" using Cons(2) by simp
    have m': "step m p = m'" using assms(1,3) p by (simp add: step_def m'_def)
    have notin: "D p \<notin> D ` set ps" using assms(4) Cons(2,3) p by (auto dest!: inj_onD)
    have ref: "ref m' q = ref m q" for q by (simp add: m'_def assms(2))
    have IH: "\<forall>q \<in> set ps. foldl step m' ps b (D q) = ref m q"
      "\<And>b' a. b' \<noteq> b \<or> a \<notin> D ` set ps \<Longrightarrow> foldl step m' ps b' a = m' b' a"
      using Cons(1) [of m'] Cons(2,3) by (auto simp: ref)
    have "foldl step m' ps b (D p) = ref m p" using IH(2) [of b "D p"] notin by (simp add: m'_def)
    moreover have "foldl step m' ps b' a = m b' a" if "b' \<noteq> b \<or> a \<notin> D ` set (p # ps)" for b' a
      using IH(2) [of b' a] that by (auto simp: m'_def)
    ultimately show ?case using IH(1) by (simp add: m')
  qed simp
  from this [of "box outer"] show ?thesis using distinct_box [of outer] by (simp add: store_rows_def step_def)
qed

lemma dst_index_general:
  assumes "dst_index dst ivs = Inr index" and "wf_read dst" and "map (ix_val \<rho> vs) ivs \<in> set (box (leaf_shape dst))"
  shows "map (ix_val \<rho> vs) index = elem_addr \<rho> dst (map (ix_val \<rho> vs) ivs)"
proof (cases dst)
  case (ReadWhole b)
  then show ?thesis using assms box_length [OF assms(3)] by (simp add: dst_index_def elem_addr_whole)
next
  case (ReadRegion v)
  then have "leaf_index dst (leaf_shape dst) ivs None = Inr index" using assms(1) by (simp add: dst_index_def)
  from leaf_index_val [OF this assms(2) _ assms(3)] show ?thesis
    using operand_point_self [OF assms(3)] by (simp add: leaf_addr_def)
qed

text \<open>The point of the destination a row is stored at.\<close>

definition row_point :: "buffer_read \<Rightarrow> int list \<Rightarrow> int list \<Rightarrow> int list" where
  "row_point dst src p = (if leaf_shape dst = butlast src @ [1] then p @ [0] else p)"

lemma row_point_box:
  assumes "keepdims_of (leaf_shape dst) src = Inr k" and "p \<in> set (box (butlast src))"
  shows "row_point dst src p \<in> set (box (leaf_shape dst))" and "map (ix_val \<rho> p) (if k then nest_ivs (butlast src) @ [IxConst 0] else nest_ivs (butlast src)) = row_point dst src p"
proof -
  have iv: "map (ix_val \<rho> p) (nest_ivs (butlast src)) = p" using box_length [OF assms(2)] by (rule ix_val_nest_ivs)
  have k: "leaf_shape dst = (if k then butlast src @ [1] else butlast src)" "k \<longleftrightarrow> leaf_shape dst = butlast src @ [1]"
    using assms(1) by (auto simp: keepdims_of_def split: if_splits)
  show "row_point dst src p \<in> set (box (leaf_shape dst))"
    using k(1) assms(2) box_snoc [of p 0 "butlast src" 1] by (auto simp: row_point_def)
  show "map (ix_val \<rho> p) (if k then nest_ivs (butlast src) @ [IxConst 0] else nest_ivs (butlast src)) = row_point dst src p"
    using k(2) iv by (auto simp: row_point_def)
qed

lemma row_point_onto:
  assumes "keepdims_of (leaf_shape dst) src = Inr k" and "q \<in> set (box (leaf_shape dst))"
  shows "\<exists>p \<in> set (box (butlast src)). q = row_point dst src p \<and> p = take (length src - 1) q"
proof (cases "leaf_shape dst = butlast src @ [1]")
  case True
  obtain p x where q: "q = p @ [x]" using box_length [OF assms(2)] True by (cases q rule: rev_cases) auto
  then have "p \<in> set (box (butlast src))" "x = 0" using assms(2) True box_snoc [of p x "butlast src" 1] by auto
  moreover have "length p = length src - 1" using box_length [OF \<open>p \<in> set (box (butlast src))\<close>] by simp
  ultimately show ?thesis using True q by (auto simp: row_point_def)
next
  case False
  then have "leaf_shape dst = butlast src" using assms(1) by (auto simp: keepdims_of_def split: if_splits)
  with False assms(2) box_length [OF assms(2)] show ?thesis by (auto simp: row_point_def)
qed

lemma row_point_inj: "inj (row_point dst src)"
  by (auto simp: inj_def row_point_def split: if_splits)

section \<open>Sums and maxima\<close>

lemma loop_values_steps:
  assumes "0 < w"
  shows "loop_values (w, w * int (Suc q), w) = map (\<lambda>k. w * int (Suc k)) [0..<q]"
proof -
  have "(w * int q + (w - 1)) div w = int q + (w - 1) div w" using assms by (intro div_mult_self4) simp
  moreover have "(w - 1) div w = 0" using assms by (intro div_pos_pos_trivial) auto
  moreover have e: "w * int (Suc q) - w + w - 1 = w * int q + (w - 1)" by (simp add: algebra_simps)
  ultimately have "(w * int (Suc q) - w + w - 1) div w = int q" unfolding e by simp
  then show ?thesis by (simp add: loop_values_def algebra_simps)
qed

lemma length_foldl_map2:
  "length seed = n \<Longrightarrow> \<forall>a \<in> set ats. length (blk a) = n \<Longrightarrow> length (foldl (\<lambda>acc a. map2 f acc (blk a)) seed ats) = n"
  by (induction ats arbitrary: seed) auto

lemma reduce_row_fold:
  assumes N: "rn_axis N = axis" "rn_lanes N = w" "rn_dtype N = d" "rn_op N = op"
    and seed: "step_lanes A \<rho> m (rn_first N) (p @ [0]) w = map (\<lambda>j. g (int j)) [0..<nat w]"
    and step: "\<And>at. 0 \<le> at \<Longrightarrow> at + w \<le> axis \<Longrightarrow> step_lanes A \<rho> m (rn_step N) (p @ [at]) w = map (\<lambda>j. g (at + int j)) [0..<nat w]"
    and laws: "reduce_laws A R d op" and w: "0 < w" "axis mod w = 0" "1 \<le> axis"
  shows "reduce_row A R \<rho> N m p = fold1 (a_binary A d op) (map (\<lambda>k. g (int k)) [0..<nat axis])"
proof -
  have c: "combining (a_binary A d op)" and R: "\<And>xs. xs \<noteq> [] \<Longrightarrow> R d op xs = fold1 (a_binary A d op) xs"
    using laws by (auto simp: reduce_laws_def)
  define q n where "q = nat (axis div w) - 1" and "n = nat w"
  have n: "w = int n" "0 < n" using w(1) by (simp_all add: n_def)
  have e: "axis = w * (axis div w)" using w(2) by auto
  then have "0 < w * (axis div w)" using w(3) by simp
  then have "0 < axis div w" using w(1) by (simp add: zero_less_mult_iff)
  with e have axis: "axis = w * int (Suc q)" by (simp add: q_def)
  define blk where "blk at = step_lanes A \<rho> m (rn_step N) (p @ [at]) w" for at
  define s where "s = step_lanes A \<rho> m (rn_first N) (p @ [0]) w"
  have lv: "loop_values (w, axis, w) = map (\<lambda>k. w * int (Suc k)) [0..<q]" unfolding axis by (rule loop_values_steps [OF w(1)])
  have blk: "blk (w * int (Suc k)) = map (\<lambda>i. g (int i)) (map (\<lambda>j. n * Suc k + j) [0..<n])" if "k < q" for k
  proof -
    have "w * int (Suc k) + w \<le> axis"
    proof -
      have "w * int (Suc (Suc k)) \<le> w * int (Suc q)" using that w(1) by (intro mult_left_mono) auto
      then show ?thesis by (simp add: axis algebra_simps)
    qed
    moreover have "0 \<le> w * int (Suc k)" using w(1) by simp
    ultimately have "blk (w * int (Suc k)) = map (\<lambda>j. g (w * int (Suc k) + int j)) [0..<nat w]"
      unfolding blk_def by (intro step)
    then show ?thesis by (simp add: n comp_def algebra_simps)
  qed
  have s': "s = map (\<lambda>i. g (int i)) (map (\<lambda>j. n * 0 + j) [0..<n])"
    unfolding s_def seed by (simp add: n_def comp_def)
  have "s @ concat (map blk (loop_values (w, axis, w))) =
      s @ concat (map (\<lambda>k. map (\<lambda>i. g (int i)) (map (\<lambda>j. n * Suc k + j) [0..<n])) [0..<q])"
  proof -
    have "map blk (map (\<lambda>k. w * int (Suc k)) [0..<q]) = map (\<lambda>k. map (\<lambda>i. g (int i)) (map (\<lambda>j. n * Suc k + j) [0..<n])) [0..<q]"
    proof (rule nth_equalityI)
      fix i assume "i < length (map blk (map (\<lambda>k. w * int (Suc k)) [0..<q]))"
      then have i: "i < q" by simp
      then show "map blk (map (\<lambda>k. w * int (Suc k)) [0..<q]) ! i =
          map (\<lambda>k. map (\<lambda>i. g (int i)) (map (\<lambda>j. n * Suc k + j) [0..<n])) [0..<q] ! i"
        using blk [OF i] by (simp only: nth_map length_map length_upt nth_upt) simp
    qed simp
    then show ?thesis unfolding lv by (rule arg_cong)
  qed
  also have "\<dots> = map (\<lambda>i. g (int i)) (concat (map (\<lambda>k. map (\<lambda>j. n * k + j) [0..<n]) (0 # map Suc [0..<q])))"
    unfolding s' by (simp add: map_concat comp_def)
  also have "0 # map Suc [0..<q] = [0..<Suc q]" by (simp add: map_Suc_upt upt_conv_Cons del: upt_Suc)
  also have "map (\<lambda>i. g (int i)) (concat (map (\<lambda>k. map (\<lambda>j. n * k + j) [0..<n]) [0..<Suc q])) = map (\<lambda>k. g (int k)) [0..<nat axis]"
  proof -
    have "axis = int (Suc q * n)" by (simp add: axis n(1) algebra_simps)
    then have "nat axis = Suc q * n" by (simp only: nat_int)
    then show ?thesis unfolding blocks_cover by simp
  qed
  finally have all: "s @ concat (map blk (loop_values (w, axis, w))) = map (\<lambda>k. g (int k)) [0..<nat axis]" .
  have lens: "length s = n" "\<forall>a \<in> set (loop_values (w, axis, w)). length (blk a) = n"
    by (simp_all add: s_def blk_def step_lanes_def n_def)
  have "foldl (\<lambda>acc a. map2 (a_binary A d op) acc (blk a)) s (loop_values (w, axis, w)) \<noteq> []"
    using length_foldl_map2 [OF lens] n(2) by (metis less_numeral_extra(3) list.size(3))
  then have "reduce_row A R \<rho> N m p = fold1 (a_binary A d op) (foldl (\<lambda>acc a. map2 (a_binary A d op) acc (blk a)) s (loop_values (w, axis, w)))"
    by (simp add: reduce_row_def N Let_def R s_def blk_def)
  then show ?thesis using combining.fold1_blocks [OF c lens(1) n(2) lens(2)] all by simp
qed

lemma emit_reduce_parts:
  assumes "emit_reduce alive dst op x = Inr N"
  shows "\<exists>src k first step index ds lanes r r'.
    broadcast_shape (map leaf_shape (expr_leaves x)) = Some src \<and> src \<noteq> [] \<and>
    keepdims_of (leaf_shape dst) src = Inr k \<and> lanes = pick_lanes (expr_leaves x) ds (last src) \<and>
    eval_node (reduce_env src (IxConst 0) (Some lanes) ds) (leaf_dtype dst) x [] = Inr (first, r) \<and>
    eval_node (reduce_env src (IxIv (length src - 1)) (Some lanes) ds) (leaf_dtype dst) x [] = Inr (step, r') \<and>
    dst_index dst (if k then nest_ivs (butlast src) @ [IxConst 0] else nest_ivs (butlast src)) = Inr index \<and>
    N = \<lparr>rn_outer = butlast src, rn_dst = leaf_id dst, rn_index = index, rn_axis = last src, rn_lanes = lanes,
         rn_first = first, rn_step = step, rn_dtype = leaf_dtype dst, rn_op = op\<rparr>"
proof -
  obtain src where src: "reduced_shape (expr_leaves x) = Inr src"
    using assms by (auto simp: emit_reduce_def Let_def res_bind_Inr_iff)
  then have bs: "broadcast_shape (map leaf_shape (expr_leaves x)) = Some src"
    by (auto simp: reduced_shape_def split: option.splits)
  obtain k where k: "keepdims_of (leaf_shape dst) src = Inr k" "src \<noteq> []"
    using assms src by (auto simp: emit_reduce_def Let_def res_bind_Inr_iff)
  let ?ds = "regions_in x (Some (leaf_dtype dst)) []"
  let ?lanes = "pick_lanes (expr_leaves x) ?ds (last src)"
  obtain first r where f: "eval_node (reduce_env src (IxConst 0) (Some ?lanes) ?ds) (leaf_dtype dst) x [] = Inr (first, r)"
    using assms src k by (auto simp: emit_reduce_def Let_def res_bind_Inr_iff)
  obtain step r' where s: "eval_node (reduce_env src (IxIv (length src - 1)) (Some ?lanes) ?ds) (leaf_dtype dst) x [] = Inr (step, r')"
    using assms src k f by (auto simp: emit_reduce_def Let_def res_bind_Inr_iff)
  obtain index where i: "dst_index dst (if k then nest_ivs (butlast src) @ [IxConst 0] else nest_ivs (butlast src)) = Inr index"
    using assms src k f s by (auto simp: emit_reduce_def Let_def res_bind_Inr_iff)
  have "N = \<lparr>rn_outer = butlast src, rn_dst = leaf_id dst, rn_index = index, rn_axis = last src, rn_lanes = ?lanes,
         rn_first = first, rn_step = step, rn_dtype = leaf_dtype dst, rn_op = op\<rparr>"
    using assms src k f s i by (auto simp: emit_reduce_def Let_def res_bind_Inr_iff)
  with bs k f s i show ?thesis by blast
qed

lemma reduce_computes:
  assumes "emit_reduce alive dst op x = Inr N" and "reducible dst (leaf_dtype dst) x" and "index_cast_exact A"
    and "reduce_laws A R (leaf_dtype dst) op" and "broadcast_shape (map leaf_shape (expr_leaves x)) = Some src"
  shows "(\<forall>q \<in> set (box (leaf_shape dst)). run_reduce A R \<rho> N m (leaf_id dst) (elem_addr \<rho> dst q) =
        fold1 (a_binary A (leaf_dtype dst) op) (row_values A \<rho> m (leaf_dtype dst) x (last src) (take (length src - 1) q))) \<and>
    (\<forall>b a. b \<noteq> leaf_id dst \<or> a \<notin> elem_addr \<rho> dst ` set (box (leaf_shape dst)) \<longrightarrow> run_reduce A R \<rho> N m b a = m b a)"
proof -
  let ?d = "leaf_dtype dst" and ?f = "a_binary A (leaf_dtype dst) op"
  obtain k first step index ds lanes r r' where src: "src \<noteq> []" and k: "keepdims_of (leaf_shape dst) src = Inr k"
    and lanes: "lanes = pick_lanes (expr_leaves x) ds (last src)"
    and first: "eval_node (reduce_env src (IxConst 0) (Some lanes) ds) ?d x [] = Inr (first, r)"
    and step: "eval_node (reduce_env src (IxIv (length src - 1)) (Some lanes) ds) ?d x [] = Inr (step, r')"
    and index: "dst_index dst (if k then nest_ivs (butlast src) @ [IxConst 0] else nest_ivs (butlast src)) = Inr index"
    and N: "N = \<lparr>rn_outer = butlast src, rn_dst = leaf_id dst, rn_index = index, rn_axis = last src, rn_lanes = lanes,
         rn_first = first, rn_step = step, rn_dtype = ?d, rn_op = op\<rparr>"
    using emit_reduce_parts [OF assms(1)] assms(5) by auto
  have "\<forall>n \<in> set src. 1 \<le> n"
    using assms(2) wf_read_shape by (intro broadcast_shape_pos [OF assms(5)]) (auto simp: reducible_def list_all_iff)
  then have axis: "1 \<le> last src" using src by simp
  have w: "0 < lanes" "last src mod lanes = 0"
    using pick_lanes_ok [OF axis, of "expr_leaves x" ds] assms(2) by (auto simp: lanes reducible_def list_all_iff)
  have "lanes dvd last src" using w(2) by auto
  then have lle: "lanes \<le> last src" using axis by (intro zdvd_imp_le) auto
  let ?g = "\<lambda>m p k. denote A \<rho> m ?d x (p @ [k])"
  have row: "reduce_row A R \<rho> N m p = fold1 ?f (row_values A \<rho> m ?d x (last src) p)" if p: "p \<in> set (box (butlast src))" for m p
    unfolding row_values_def
  proof (rule reduce_row_fold [where g = "?g m p", OF _ _ _ _ _ _ assms(4) w axis])
    have wk: "walk_ok A \<rho> src (Some lanes) (p @ [0]) (set (expr_leaves x)) (reduce_env src (IxConst 0) (Some lanes) ds)"
      using w lle by (intro reduce_env_walk [OF assms(2,3) src p]) (auto simp: lanes_Some)
    show "step_lanes A \<rho> m (rn_first N) (p @ [0]) lanes = map (\<lambda>j. ?g m p (int j)) [0..<nat lanes]"
      using reduce_value [OF first assms(2) wk] by (auto simp: step_lanes_def N lanes_Some bump_def)
    fix at assume at: "0 \<le> at" "at + lanes \<le> last src"
    have wk: "walk_ok A \<rho> src (Some lanes) (p @ [at]) (set (expr_leaves x)) (reduce_env src (IxIv (length src - 1)) (Some lanes) ds)"
      using w at by (intro reduce_env_walk [OF assms(2,3) src p]) (auto simp: lanes_Some)
    show "step_lanes A \<rho> m (rn_step N) (p @ [at]) lanes = map (\<lambda>j. ?g m p (at + int j)) [0..<nat lanes]"
      using reduce_value [OF step assms(2) wk] by (auto simp: step_lanes_def N lanes_Some bump_def)
  qed (simp_all add: N)
  let ?D = "\<lambda>p. elem_addr \<rho> dst (row_point dst src p)"
  have idx: "map (ix_val \<rho> p) index = ?D p" if p: "p \<in> set (box (butlast src))" for p
  proof -
    note rp = row_point_box [OF k p]
    show ?thesis using dst_index_general [OF index, of \<rho> p] rp assms(2) by (auto simp: reducible_def)
  qed
  have inj: "inj_on ?D (set (box (butlast src)))"
  proof (rule inj_onI)
    fix p q assume h: "p \<in> set (box (butlast src))" "q \<in> set (box (butlast src))" "?D p = ?D q"
    then have "row_point dst src p = row_point dst src q"
      using inj_onD [OF elem_addr_inj [of dst \<rho>] h(3)] row_point_box(1) [OF k] assms(2) by (auto simp: reducible_def)
    then show "p = q" using injD [OF row_point_inj] by blast
  qed
  have other: "fold1 ?f (row_values A \<rho> (m(leaf_id dst := g)) ?d x (last src) p) = fold1 ?f (row_values A \<rho> m ?d x (last src) p)" for m g p
    by (simp add: row_values_other [OF assms(2)])
  have N': "rn_outer N = butlast src" "rn_dst N = leaf_id dst" "rn_index N = index" by (simp_all add: N)
  have spec: "(\<forall>p \<in> set (box (butlast src)). run_reduce A R \<rho> N m (leaf_id dst) (?D p) = fold1 ?f (row_values A \<rho> m ?d x (last src) p)) \<and>
    (\<forall>b' a. b' \<noteq> leaf_id dst \<or> a \<notin> ?D ` set (box (butlast src)) \<longrightarrow> run_reduce A R \<rho> N m b' a = m b' a)"
    unfolding run_reduce_def
    using store_rows_spec [where ref = "\<lambda>m p. fold1 ?f (row_values A \<rho> m ?d x (last src) p)" and D = ?D and outer = "butlast src"
        and row = "reduce_row A R \<rho> N" and b = "leaf_id dst" and index = index and \<rho> = \<rho> and m = m, OF row other idx inj]
    unfolding N' .
  have img: "?D ` set (box (butlast src)) = elem_addr \<rho> dst ` set (box (leaf_shape dst))"
  proof -
    have "row_point dst src ` set (box (butlast src)) = set (box (leaf_shape dst))"
      using row_point_onto [OF k] row_point_box(1) [OF k] by blast
    then show ?thesis by (metis image_image)
  qed
  have "run_reduce A R \<rho> N m (leaf_id dst) (elem_addr \<rho> dst q) = fold1 ?f (row_values A \<rho> m ?d x (last src) (take (length src - 1) q))"
    if "q \<in> set (box (leaf_shape dst))" for q
    using row_point_onto [OF k that] spec by auto
  with spec img show ?thesis by auto
qed

section \<open>Argmax\<close>

text \<open>Comparison and selection that follow a linear order on a key of the values.\<close>

definition order_laws :: "'v arith_api \<Rightarrow> dtype \<Rightarrow> ('v \<Rightarrow> int) \<Rightarrow> bool" where
  "order_laws A d key \<longleftrightarrow> (\<forall>x y u v. a_select A (a_cmp A d ''gt'' x y) u v = (if key y < key x then u else v))"

text \<open>The first position of the largest key.\<close>

definition first_max :: "('v \<Rightarrow> int) \<Rightarrow> 'v list \<Rightarrow> nat \<Rightarrow> bool" where
  "first_max key xs k \<longleftrightarrow> k < length xs \<and> (\<forall>i < length xs. key (xs ! i) \<le> key (xs ! k)) \<and> (\<forall>i < k. key (xs ! i) < key (xs ! k))"

lemma first_max_snoc:
  assumes "first_max key xs k"
  shows "first_max key (xs @ [x]) (if key (xs ! k) < key x then length xs else k)"
  using assms by (auto simp: first_max_def nth_append less_Suc_eq)

lemma first_max_unique: "first_max key xs k \<Longrightarrow> first_max key xs k' \<Longrightarrow> k = k'"
  unfolding first_max_def by (metis leD linorder_neqE_nat)

lemma argmax_loop:
  assumes "order_laws A vd key" and "index_cast_exact A" and "\<not> is_float d" and "0 < n"
    and "\<And>c. c < n \<Longrightarrow> val c = xs ! c" and "length xs = n"
  shows "\<exists>k. first_max key xs k \<and>
    foldl (\<lambda>(running, chosen) c. let cand = val c; wins = a_cmp A vd ''gt'' cand running
       in (a_select A wins cand running, a_select A wins (a_index A d (int c)) chosen)) (xs ! 0, a_const A d (NInt 0)) [1..<n]
     = (xs ! k, a_const A d (NInt (int k)))"
proof -
  let ?step = "\<lambda>(running, chosen) c. let cand = val c; wins = a_cmp A vd ''gt'' cand running
       in (a_select A wins cand running, a_select A wins (a_index A d (int c)) chosen)"
  have "\<exists>k. first_max key (take i xs) k \<and> foldl ?step (xs ! 0, a_const A d (NInt 0)) [1..<i] = (xs ! k, a_const A d (NInt (int k)))"
    if "0 < i" "i \<le> n" for i
    using that
  proof (induction i)
    case (Suc i)
    show ?case
    proof (cases "i = 0")
      case True
      with Suc(3) assms(6) show ?thesis by (intro exI [of _ 0]) (auto simp: first_max_def)
    next
      case False
      then obtain k where k: "first_max key (take i xs) k" "foldl ?step (xs ! 0, a_const A d (NInt 0)) [1..<i] = (xs ! k, a_const A d (NInt (int k)))"
        using Suc by auto
      have i: "i < n" using Suc(3) by simp
      have t: "take (Suc i) xs = take i xs @ [xs ! i]" using i assms(6) by (simp add: take_Suc_conv_app_nth)
      have ki: "take i xs ! k = xs ! k" using k(1) by (simp add: first_max_def)
      have len: "length (take i xs) = i" using i assms(6) by simp
      let ?k = "if key (xs ! k) < key (xs ! i) then i else k"
      have "first_max key (take (Suc i) xs) ?k" unfolding t using first_max_snoc [OF k(1), of "xs ! i"] unfolding ki len .
      moreover have "foldl ?step (xs ! 0, a_const A d (NInt 0)) [1..<Suc i] = (xs ! ?k, a_const A d (NInt (int ?k)))"
        using False assms(1-3) k(2) i assms(5) [of i] by (simp add: order_laws_def index_cast_exact_def Let_def)
      ultimately show ?thesis by blast
    qed
  qed simp
  from this [of n] assms(4,6) show ?thesis by simp
qed

lemma emit_argmax_parts:
  assumes "emit_argmax dst x = Inr N" and "element_dtype x = Some vd"
  shows "\<exists>src k first column ds r r'.
    broadcast_shape (map leaf_shape (expr_leaves x)) = Some src \<and> src \<noteq> [] \<and> \<not> is_float (leaf_dtype dst) \<and>
    keepdims_of (leaf_shape dst) src = Inr k \<and>
    eval_node (reduce_env src (IxConst 0) None ds) vd x [] = Inr (first, r) \<and>
    eval_node (reduce_env src (IxIv (length src - 1)) None ds) vd x [] = Inr (column, r') \<and>
    N = \<lparr>am_outer = butlast src, am_dst = leaf_id dst,
         am_index = (if k then nest_ivs (butlast src) @ [IxConst 0] else nest_ivs (butlast src)), am_axis = last src,
         am_first = first, am_column = column, am_value_dtype = vd, am_dtype = leaf_dtype dst\<rparr>"
proof -
  obtain src where src: "reduced_shape (expr_leaves x) = Inr src" and nf: "\<not> is_float (leaf_dtype dst)"
    using assms by (auto simp: emit_argmax_def Let_def res_bind_Inr_iff)
  then have bs: "broadcast_shape (map leaf_shape (expr_leaves x)) = Some src"
    by (auto simp: reduced_shape_def split: option.splits)
  obtain k where k: "keepdims_of (leaf_shape dst) src = Inr k" "src \<noteq> []"
    using assms src by (auto simp: emit_argmax_def Let_def res_bind_Inr_iff)
  let ?ds = "regions_in x (Some vd) []"
  obtain first r where f: "eval_node (reduce_env src (IxConst 0) None ?ds) vd x [] = Inr (first, r)"
    using assms src k by (auto simp: emit_argmax_def Let_def res_bind_Inr_iff)
  obtain column r' where c: "eval_node (reduce_env src (IxIv (length src - 1)) None ?ds) vd x [] = Inr (column, r')"
    using assms src k f by (auto simp: emit_argmax_def Let_def res_bind_Inr_iff)
  have "N = \<lparr>am_outer = butlast src, am_dst = leaf_id dst,
         am_index = (if k then nest_ivs (butlast src) @ [IxConst 0] else nest_ivs (butlast src)), am_axis = last src,
         am_first = first, am_column = column, am_value_dtype = vd, am_dtype = leaf_dtype dst\<rparr>"
    using assms src k f c by (auto simp: emit_argmax_def Let_def res_bind_Inr_iff)
  with bs nf k f c show ?thesis by blast
qed

lemma argmax_computes:
  assumes "emit_argmax (ReadWhole b) x = Inr N" and "reducible (ReadWhole b) vd x" and "index_cast_exact A"
    and "order_laws A vd key" and "element_dtype x = Some vd" and "broadcast_shape (map leaf_shape (expr_leaves x)) = Some src"
    and q: "q \<in> set (box (b_shape b))"
  shows "\<exists>k. first_max key (row_values A \<rho> m vd x (last src) (take (length src - 1) q)) k \<and>
    run_argmax A \<rho> N m (b_id b) q = a_const A (b_dtype b) (NInt (int k))"
proof -
  let ?dst = "ReadWhole b"
  obtain kd first column ds r r' where src: "src \<noteq> []" and nf: "\<not> is_float (b_dtype b)"
    and kd: "keepdims_of (b_shape b) src = Inr kd"
    and first: "eval_node (reduce_env src (IxConst 0) None ds) vd x [] = Inr (first, r)"
    and column: "eval_node (reduce_env src (IxIv (length src - 1)) None ds) vd x [] = Inr (column, r')"
    and N: "N = \<lparr>am_outer = butlast src, am_dst = b_id b,
         am_index = (if kd then nest_ivs (butlast src) @ [IxConst 0] else nest_ivs (butlast src)), am_axis = last src,
         am_first = first, am_column = column, am_value_dtype = vd, am_dtype = b_dtype b\<rparr>"
    using emit_argmax_parts [OF assms(1,5)] assms(6) by auto
  have kd': "keepdims_of (leaf_shape ?dst) src = Inr kd" using kd by simp
  have "\<forall>n \<in> set src. 1 \<le> n"
    using assms(2) wf_read_shape by (intro broadcast_shape_pos [OF assms(6)]) (auto simp: reducible_def list_all_iff)
  then have axis: "1 \<le> last src" using src by simp
  let ?vals = "\<lambda>m p. row_values A \<rho> m vd x (last src) p"
  have lanes: "lane A \<rho> m (p @ [0]) first 0 = ?vals m p ! 0"
    "\<And>c. c < nat (last src) \<Longrightarrow> lane A \<rho> m (p @ [int c]) column 0 = ?vals m p ! c"
    if p: "p \<in> set (box (butlast src))" for m p
  proof -
    have wk: "walk_ok A \<rho> src None (p @ [0]) (set (expr_leaves x)) (reduce_env src (IxConst 0) None ds)"
      using axis by (intro reduce_env_walk [OF assms(2,3) src p]) auto
    show "lane A \<rho> m (p @ [0]) first 0 = ?vals m p ! 0"
      using reduce_value [OF first assms(2) wk, of 0 m] axis by (simp add: row_values_def)
    fix c assume c: "c < nat (last src)"
    have wk: "walk_ok A \<rho> src None (p @ [int c]) (set (expr_leaves x)) (reduce_env src (IxIv (length src - 1)) None ds)"
      using c by (intro reduce_env_walk [OF assms(2,3) src p]) auto
    show "lane A \<rho> m (p @ [int c]) column 0 = ?vals m p ! c"
      using reduce_value [OF column assms(2) wk, of 0 m] c by (simp add: row_values_def)
  qed
  have row: "\<exists>k. first_max key (?vals m p) k \<and> argmax_row A \<rho> N m p = a_const A (b_dtype b) (NInt (int k))"
    if p: "p \<in> set (box (butlast src))" for m p
  proof -
    have lv: "loop_values (1, last src, 1) = map int [1..<nat (last src)]"
    proof -
      have "loop_values (1, last src, 1) = map (\<lambda>k. 1 + int k) [0..<nat (last src) - 1]"
        using nat_diff_distrib [of 1 "last src"] axis by (simp add: loop_values_def)
      also have "\<dots> = map int (map Suc [0..<nat (last src) - 1])" by simp
      also have "map Suc [0..<nat (last src) - 1] = [1..<nat (last src)]" using axis by (simp add: map_Suc_upt)
      finally show ?thesis .
    qed
    have n: "0 < nat (last src)" "length (?vals m p) = nat (last src)" using axis by (simp_all add: row_values_def)
    obtain k where k: "first_max key (?vals m p) k"
      "foldl (\<lambda>(running, chosen) c. let cand = lane A \<rho> m (p @ [int c]) column 0; wins = a_cmp A vd ''gt'' cand running
         in (a_select A wins cand running, a_select A wins (a_index A (b_dtype b) (int c)) chosen))
       (?vals m p ! 0, a_const A (b_dtype b) (NInt 0)) [1..<nat (last src)] = (?vals m p ! k, a_const A (b_dtype b) (NInt (int k)))"
      using argmax_loop [OF assms(4,3) nf n(1) lanes(2) [OF p] n(2)] by blast
    have "argmax_row A \<rho> N m p = snd (foldl (\<lambda>(running, chosen) c. let cand = lane A \<rho> m (p @ [int c]) column 0; wins = a_cmp A vd ''gt'' cand running
         in (a_select A wins cand running, a_select A wins (a_index A (b_dtype b) (int c)) chosen))
       (?vals m p ! 0, a_const A (b_dtype b) (NInt 0)) [1..<nat (last src)])"
      by (simp add: argmax_row_def N lv lanes(1) [OF p] foldl_map split_def)
    with k show ?thesis by auto
  qed
  define ref where "ref m p = a_const A (b_dtype b) (NInt (int (THE k. first_max key (?vals m p) k)))" for m p
  have row': "argmax_row A \<rho> N m p = ref m p \<and> first_max key (?vals m p) (THE k. first_max key (?vals m p) k)"
    if p: "p \<in> set (box (butlast src))" for m p
  proof -
    obtain k where k: "first_max key (?vals m p) k" "argmax_row A \<rho> N m p = a_const A (b_dtype b) (NInt (int k))"
      using row [OF p] by blast
    then have "(THE k. first_max key (?vals m p) k) = k" by (blast intro: first_max_unique)
    with k show ?thesis by (simp add: ref_def)
  qed
  have other: "ref (m(leaf_id ?dst := g)) p = ref m p" for m g p
    by (simp only: ref_def row_values_other [OF assms(2)])
  let ?D = "row_point ?dst src"
  have idx: "map (ix_val \<rho> p) (am_index N) = ?D p" if "p \<in> set (box (butlast src))" for p
    using row_point_box(2) [OF kd' that, of \<rho>] by (simp add: N)
  have inj: "inj_on ?D (set (box (butlast src)))" using row_point_inj by (rule inj_on_subset) simp
  have "\<exists>p \<in> set (box (butlast src)). q = ?D p \<and> p = take (length src - 1) q"
    using row_point_onto [OF kd', of q] q by (simp only: leaf_shape.simps)
  then obtain p where p: "p \<in> set (box (butlast src))" "q = ?D p" "p = take (length src - 1) q" by blast
  have "run_argmax A \<rho> N m (b_id b) (?D p) = ref m p"
    using store_rows_spec [where ref = ref and D = ?D and outer = "butlast src" and row = "argmax_row A \<rho> N"
        and b = "leaf_id ?dst" and index = "am_index N" and \<rho> = \<rho> and m = m, OF conjunct1 [OF row'] other idx inj] p(1)
    by (simp add: run_argmax_def N)
  then have "run_argmax A \<rho> N m (b_id b) q = ref m p" by (simp only: p(2))
  then show ?thesis using row' [OF p(1), of m] unfolding ref_def p(3) [symmetric] by blast
qed

section \<open>Properties\<close>

text \<open>
  C6: a reduction folds the innermost axis, where the order of the fold does not matter: for a combining operation that is
  associative and commutative, as those of integers are and the addition of floats is not, and a vector reduction that folds with
  it. The operand is a well-typed expression over buffers other than the destination's, with the reads that the emitter
  identifies dropping the same axes and none dropping its innermost one, and index casts are exact. Then the value
  stored for a row, read in one vector or stepped through a scratch vector with any legal number of lanes, is the fold of
  the operand's values along that row; nothing else is written.
\<close>

theorem reduction_folds_axis:
  assumes "emit_reduce alive dst op x = Inr N" and "reducible dst (leaf_dtype dst) x" and "index_cast_exact A"
    and "reduce_laws A R (leaf_dtype dst) op" and "broadcast_shape (map leaf_shape (expr_leaves x)) = Some src"
  shows "(\<forall>q \<in> set (box (leaf_shape dst)). run_reduce A R \<rho> N m (leaf_id dst) (elem_addr \<rho> dst q) =
        fold1 (a_binary A (leaf_dtype dst) op) (row_values A \<rho> m (leaf_dtype dst) x (last src) (take (length src - 1) q))) \<and>
    (\<forall>b a. b \<noteq> leaf_id dst \<or> a \<notin> elem_addr \<rho> dst ` set (box (leaf_shape dst)) \<longrightarrow> run_reduce A R \<rho> N m b a = m b a)"
  using assms by (rule reduce_computes)

definition row_sum_dst :: buffer_read where "row_sum_dst = ReadWhole (Buffer 0 [2] i32 None L1 False)"

definition row_sum_arg :: bexpr where
  "row_sum_arg = BinaryE ''mul'' (BufferE (ReadWhole (Buffer 1 [2, 4] i32 (Some 2) L1 True)))
     (BufferE (ReadWhole (Buffer 2 [2, 1] i32 None L1 False)))"

definition fold_lanes :: "dtype \<Rightarrow> string \<Rightarrow> int list \<Rightarrow> int" where
  "fold_lanes d op xs = fold1 (a_binary int_api d op) xs"

lemma int_sum_laws: "reduce_laws int_api fold_lanes d ''add''"
  using int_sum.combining_axioms by (simp add: reduce_laws_def fold_lanes_def)

theorem reduction_folds_axis_witness:
  "\<exists>N. emit_reduce (\<lambda>_. True) row_sum_dst ''add'' row_sum_arg = Inr N \<and> rn_lanes N = 2 \<and>
     run_reduce int_api fold_lanes (\<lambda>_. 0) N (\<lambda>b a. if b = 1 then last a + 1 else 10) 0 [1] = 100"
proof -
  have "(case emit_reduce (\<lambda>_. True) row_sum_dst ''add'' row_sum_arg of Inl _ \<Rightarrow> False | Inr N \<Rightarrow> rn_lanes N = 2)" by code_simp
  then obtain N where N: "emit_reduce (\<lambda>_. True) row_sum_dst ''add'' row_sum_arg = Inr N" "rn_lanes N = 2"
    by (cases "emit_reduce (\<lambda>_. True) row_sum_dst ''add'' row_sum_arg") auto
  have r: "reducible row_sum_dst (leaf_dtype row_sum_dst) row_sum_arg" by code_simp
  have s: "broadcast_shape (map leaf_shape (expr_leaves row_sum_arg)) = Some [2, 4]" by code_simp
  let ?m = "\<lambda>b a. if b = 1 then last a + 1 else (10 :: int)"
  have "[1] \<in> set (box (leaf_shape row_sum_dst))" by code_simp
  then have "run_reduce int_api fold_lanes (\<lambda>_. 0) N ?m (leaf_id row_sum_dst) (elem_addr (\<lambda>_. 0) row_sum_dst [1]) =
      fold1 (a_binary int_api (leaf_dtype row_sum_dst) ''add'')
        (row_values int_api (\<lambda>_. 0) ?m (leaf_dtype row_sum_dst) row_sum_arg (last [2, 4]) (take (length [2, 4 :: int] - 1) [1]))"
    using reduction_folds_axis [OF N(1) r int_api_index int_sum_laws s] by blast
  moreover have "leaf_id row_sum_dst = 0" "elem_addr (\<lambda>_. 0) row_sum_dst [1] = [1]" by code_simp+
  moreover have "fold1 (a_binary int_api (leaf_dtype row_sum_dst) ''add'')
        (row_values int_api (\<lambda>_. 0) ?m (leaf_dtype row_sum_dst) row_sum_arg (last [2, 4]) (take (length [2, 4 :: int] - 1) [1])) = 100" by code_simp
  ultimately show ?thesis using N by auto
qed

text \<open>
  Argmax finds the first maximum. Into a whole integer buffer it stores, for each row, the position of the
  largest value of the operand, the lowest one on a tie, as a constant of the destination's type.
\<close>

theorem argmax_finds_first_maximum:
  assumes "emit_argmax (ReadWhole b) x = Inr N" and "reducible (ReadWhole b) vd x" and "index_cast_exact A"
    and "order_laws A vd key" and "element_dtype x = Some vd" and "broadcast_shape (map leaf_shape (expr_leaves x)) = Some src"
    and "q \<in> set (box (b_shape b))"
  shows "\<exists>k. first_max key (row_values A \<rho> m vd x (last src) (take (length src - 1) q)) k \<and>
    run_argmax A \<rho> N m (b_id b) q = a_const A (b_dtype b) (NInt (int k))"
  using assms by (rule argmax_computes)

definition order_api :: "int arith_api" where
  "order_api = int_api\<lparr>a_cmp := (\<lambda>d f x y. if f = ''gt'' then of_bool (y < x) else 0)\<rparr>"

definition scores :: bexpr where "scores = BufferE (ReadWhole (Buffer 1 [2, 4] i16 None L1 False))"

theorem argmax_finds_first_maximum_witness:
  "\<exists>N. emit_argmax (ReadWhole (Buffer 0 [2, 1] i32 None L1 False)) scores = Inr N \<and>
     run_argmax order_api (\<lambda>_. 0) N (\<lambda>b a. [3, 7, 7, 5] ! nat (last a)) 0 [1, 0] = 1"
proof -
  let ?b = "Buffer 0 [2, 1] i32 None L1 False" and ?m = "\<lambda>(b :: nat) a. [3, 7, 7, 5 :: int] ! nat (last a)"
  have "(case emit_argmax (ReadWhole ?b) scores of Inl _ \<Rightarrow> False | Inr N \<Rightarrow> True)" by code_simp
  then obtain N where N: "emit_argmax (ReadWhole ?b) scores = Inr N" by (cases "emit_argmax (ReadWhole ?b) scores") auto
  have h: "reducible (ReadWhole ?b) i16 scores" "element_dtype scores = Some i16"
    "broadcast_shape (map leaf_shape (expr_leaves scores)) = Some [2, 4]" "[1, 0] \<in> set (box (b_shape ?b))" by code_simp+
  have c: "index_cast_exact order_api" "order_laws order_api i16 (\<lambda>x. x)"
    by (auto simp: index_cast_exact_def order_laws_def order_api_def int_api_def)
  have v: "row_values order_api (\<lambda>_. 0) ?m i16 scores (last [2, 4]) (take (length [2, 4 :: int] - 1) [1, 0]) = [3, 7, 7, 5]" by code_simp
  obtain k where k: "first_max (\<lambda>x. x) [3, 7, 7, 5 :: int] k" "run_argmax order_api (\<lambda>_. 0) N ?m (b_id ?b) [1, 0] = a_const order_api (b_dtype ?b) (NInt (int k))"
    using argmax_finds_first_maximum [OF N h(1) c(1,2) h(2-4), of "\<lambda>_. 0" ?m] v by auto
  have "first_max (\<lambda>x. x) [3, 7, 7, 5 :: int] 1" by (auto simp: first_max_def less_Suc_eq numeral_eq_Suc)
  then have "k = 1" using k(1) first_max_unique by blast
  with k(2) N show ?thesis by (auto simp: order_api_def int_api_def Buffer_def)
qed

text \<open>
  A region as the destination of an argmax: the index is stored at the region's own coordinates, without its
  offset. \<open>out[2:4] = argmax(x[:])\<close> writes elements 0 and 1.
\<close>

lemma argmax_ignores_region_offset:
  "res_bind (buffer_region (Buffer 0 [4] i32 None L1 False) [Slice (Some (VInt 2)) (Some (VInt 4)) None]) (\<lambda>r.
     res_bind (emit_argmax (ReadRegion r) scores) (\<lambda>N.
       Inr (map (\<lambda>p. map (ix_val (\<lambda>_. 0) p) (am_index N)) (box (am_outer N)), map (elem_addr (\<lambda>_. 0) (ReadRegion r)) (box [2]))))
   = Inr ([[0], [1]], [[2], [3]])"
  by code_simp

end
