(* ===== verification/Data_Transfer.thy ===== *)
theory Data_Transfer
  imports View_Access Tile_Expr
begin

text \<open>
  Data transfers: \<open>ops.load\<close>, \<open>ops.store\<close> and the endpoints they share with the channels, from
  \<^verbatim>\<open>src/python/air/api/ops.py\<close>. An endpoint is a whole array or a region of one; a transfer is accepted
  when both ends agree on shape (or, for a view, on the number of elements) and on the element type, and
  becomes one \<open>air.dma_memcpy_nd\<close>. The theory gives that operation its meaning, elements in the order of the
  two access patterns, and shows that an accepted transfer copies the source onto the destination.
\<close>

section \<open>Endpoints\<close>

text \<open>The two kinds of memory a transfer names: a buffer by identity, a tensor by its place in the interface.\<close>

datatype memref = BufferMem nat | TensorMem nat

datatype xfer_arg =
    XBuffer buffer
  | XSlice buffer_slice
  | XTensor nat tensor
  | XTensorSlice nat tensor_slice
  | XOther

type_synonym pattern = "index_expr list \<times> int list \<times> int list"

record endpoint =
  ep_value :: memref
  ep_dtype :: dtype
  ep_sizes :: "int list"
  ep_pattern :: "pattern option"
  ep_tensor :: "nat option"
  ep_view :: bool

datatype direction = Load | Store | ChannelPut | ChannelGet

datatype role = Source | Destination | Argument

fun arg_readonly :: "xfer_arg \<Rightarrow> bool" where
  "arg_readonly (XSlice v) = readonly v"
| "arg_readonly (XTensorSlice i v) = readonly v"
| "arg_readonly _ = False"

definition region_pattern :: "'o region \<Rightarrow> pattern" where
  "region_pattern v = (offsets v, sizes v, strides v)"

text \<open>\<open>_endpoint\<close>; \<open>alive\<close> says which buffers and tensors have a value.\<close>

definition endpoint_of :: "(memref \<Rightarrow> bool) \<Rightarrow> xfer_arg \<Rightarrow> direction \<Rightarrow> role \<Rightarrow> endpoint res" where
  "endpoint_of alive obj dir role =
     (if arg_readonly obj \<and> (role = Destination \<or> dir = ChannelGet) then Inl ValueError
      else
        (case obj of
           XBuffer b \<Rightarrow>
             if \<not> alive (BufferMem (b_id b)) then Inl RuntimeError
             else Inr \<lparr>ep_value = BufferMem (b_id b), ep_dtype = b_dtype b, ep_sizes = b_shape b,
                       ep_pattern = None, ep_tensor = None, ep_view = False\<rparr>
         | XSlice v \<Rightarrow>
             if \<not> alive (BufferMem (b_id (parent v))) then Inl RuntimeError
             else Inr \<lparr>ep_value = BufferMem (b_id (parent v)), ep_dtype = b_dtype (parent v),
                       ep_sizes = logical_sizes v, ep_pattern = Some (region_pattern v), ep_tensor = None,
                       ep_view = is_view v\<rparr>
         | XTensorSlice i v \<Rightarrow>
             Inr \<lparr>ep_value = TensorMem i, ep_dtype = t_dtype (parent v), ep_sizes = logical_sizes v,
                  ep_pattern = Some (region_pattern v), ep_tensor = Some i, ep_view = is_view v\<rparr>
         | XTensor i t \<Rightarrow>
             if \<not> alive (TensorMem i) then Inl RuntimeError
             else Inr \<lparr>ep_value = TensorMem i, ep_dtype = t_dtype t, ep_sizes = t_shape t, ep_pattern = None,
                       ep_tensor = Some i, ep_view = False\<rparr>
         | XOther \<Rightarrow> Inl TypeError))"

section \<open>Agreement of the two ends\<close>

text \<open>\<open>_squeeze_units\<close>: unit axes go from the front, then from the back, down to the given rank.\<close>

fun squeeze_front :: "int list \<Rightarrow> nat \<Rightarrow> int list" where
  "squeeze_front [] rank = []"
| "squeeze_front (n # ns) rank =
     (if rank < length (n # ns) \<and> n = 1 then squeeze_front ns rank else n # ns)"

function squeeze_back :: "int list \<Rightarrow> nat \<Rightarrow> int list" where
  "squeeze_back ns rank =
     (if rank < length ns \<and> last ns = 1 then squeeze_back (butlast ns) rank else ns)"
  by auto
termination by (relation "measure (length \<circ> fst)") auto

declare squeeze_back.simps [simp del]

definition squeeze_units :: "int list \<Rightarrow> nat \<Rightarrow> int list" where
  "squeeze_units ns rank = squeeze_back (squeeze_front ns rank) rank"

definition elements :: "int list \<Rightarrow> int" where
  "elements ns = foldl (*) 1 ns"

definition check_pair :: "endpoint \<Rightarrow> endpoint \<Rightarrow> unit res" where
  "check_pair dst src =
     (let d = ep_sizes dst; s = ep_sizes src in
      res_bind
        (if ep_view dst \<or> ep_view src then res_check (elements d = elements s) ValueError
         else if d \<noteq> s then
           let rank = min (length d) (length s) in
           res_check (squeeze_units d rank = squeeze_units s rank) ValueError
         else Inr ())
        (\<lambda>_. res_check (ep_dtype dst = ep_dtype src) ValueError))"

section \<open>load and store\<close>

text \<open>The \<open>dependency=\<close> argument: nothing, one object, or several, each a token or not.\<close>

datatype dependency = NoDependency | OneDependency bool | Dependencies "bool list"

fun check_dependency :: "dependency \<Rightarrow> unit res" where
  "check_dependency NoDependency = Inr ()"
| "check_dependency (OneDependency token) = res_check token TypeError"
| "check_dependency (Dependencies tokens) = each_res (\<lambda>token. res_check token TypeError) tokens"

definition check_padding :: "bool \<Rightarrow> bool \<Rightarrow> unit res" where
  "check_padding before after = res_check (\<not> before \<and> \<not> after) NotImplementedError"

record dma =
  dma_dst :: endpoint
  dma_src :: endpoint

fun is_buffer_arg :: "xfer_arg \<Rightarrow> bool" where
  "is_buffer_arg (XBuffer b) = True"
| "is_buffer_arg (XSlice v) = True"
| "is_buffer_arg _ = False"

definition load :: "(memref \<Rightarrow> bool) \<Rightarrow> xfer_arg \<Rightarrow> xfer_arg \<Rightarrow> bool \<Rightarrow> bool \<Rightarrow> dependency \<Rightarrow> dma res" where
  "load alive dst src pad_before pad_after dep =
     res_bind (check_dependency dep) (\<lambda>_.
     res_bind (check_padding pad_before pad_after) (\<lambda>_.
     res_bind (res_check (is_buffer_arg dst) TypeError) (\<lambda>_.
     res_bind (endpoint_of alive dst Load Destination) (\<lambda>d.
     res_bind (endpoint_of alive src Load Source) (\<lambda>s.
     res_bind (check_pair d s) (\<lambda>_.
       Inr \<lparr>dma_dst = d, dma_src = s\<rparr>))))))"

text \<open>\<open>store\<close> also marks the tensor it drains into as an output; \<open>outs\<close> are the marks so far.\<close>

definition store :: "(memref \<Rightarrow> bool) \<Rightarrow> xfer_arg \<Rightarrow> xfer_arg \<Rightarrow> bool \<Rightarrow> bool \<Rightarrow> dependency \<Rightarrow> nat set \<Rightarrow> (dma \<times> nat set) res" where
  "store alive src dst pad_before pad_after dep outs =
     res_bind (check_dependency dep) (\<lambda>_.
     res_bind (check_padding pad_before pad_after) (\<lambda>_.
     res_bind (res_check (is_buffer_arg src) TypeError) (\<lambda>_.
     res_bind (endpoint_of alive src Store Source) (\<lambda>s.
     res_bind (endpoint_of alive dst Store Destination) (\<lambda>d.
     res_bind (check_pair d s) (\<lambda>_.
       Inr (\<lparr>dma_dst = d, dma_src = s\<rparr>,
            (case ep_tensor d of None \<Rightarrow> outs | Some i \<Rightarrow> insert i outs))))))))"

definition copy :: "xfer_arg \<Rightarrow> xfer_arg \<Rightarrow> unit res" where
  "copy src dst = Inl NotImplementedError"

section \<open>Meaning of a transfer\<close>

text \<open>
  The flat addresses an endpoint visits, in order: all of its array, or the walk of its pattern at the
  current values \<open>\<rho>\<close> of the coordinates. \<open>air.dma_memcpy_nd\<close> moves the elements one by one.
\<close>

definition endpoint_walk :: "(nat \<Rightarrow> int) \<Rightarrow> endpoint \<Rightarrow> int list" where
  "endpoint_walk \<rho> ep =
     (case ep_pattern ep of
        None \<Rightarrow> map int [0..<nat (prod_list (ep_sizes ep))]
      | Some (offs, szs, strs) \<Rightarrow> walk (zip (map (eval_index \<rho>) offs) (zip szs strs)))"

type_synonym 'v store_map = "memref \<Rightarrow> int \<Rightarrow> 'v"

definition copy_one :: "memref \<Rightarrow> memref \<Rightarrow> 'v store_map \<Rightarrow> int \<times> int \<Rightarrow> 'v store_map" where
  "copy_one dst src m p = (case p of (a, b) \<Rightarrow> m(dst := (m dst)(a := m src b)))"

definition run_dma :: "(nat \<Rightarrow> int) \<Rightarrow> dma \<Rightarrow> 'v store_map \<Rightarrow> 'v store_map" where
  "run_dma \<rho> D m =
     foldl (copy_one (ep_value (dma_dst D)) (ep_value (dma_src D))) m
       (zip (endpoint_walk \<rho> (dma_dst D)) (endpoint_walk \<rho> (dma_src D)))"

section \<open>Regions that arise from an array\<close>

text \<open>
  The regions a program can build of an array of the given shape, with every subscript inside the axis it
  subscripts at the current values of the coordinates.
\<close>

definition in_range :: "(nat \<Rightarrow> int) \<Rightarrow> (index_expr \<times> int \<times> bool) list \<Rightarrow> int list \<Rightarrow> bool" where
  "in_range \<rho> rs ns \<longleftrightarrow> list_all2 (\<lambda>(lo, n, d) e. 0 \<le> eval_index \<rho> lo \<and> eval_index \<rho> lo + n \<le> e) rs ns"

inductive view_of :: "(nat \<Rightarrow> int) \<Rightarrow> 'o \<Rightarrow> int list \<Rightarrow> 'o region \<Rightarrow> bool" for \<rho> p shape where
  view_whole: "view_of \<rho> p shape (whole_region p shape)"
| view_slice:
    "\<lbrakk>resolve_key key shape = Inr rs; \<forall>k \<in> set key. wf_subscript k; in_range \<rho> rs shape\<rbrakk> \<Longrightarrow>
     view_of \<rho> p shape
       (mk_slice p (map fst rs) (map (fst \<circ> snd) rs) (row_major_strides shape) None False (Some (map (snd \<circ> snd) rs)))"
| view_getitem:
    "\<lbrakk>view_of \<rho> p shape v; region_getitem v key = Inr v'; \<forall>k \<in> set key. wf_subscript k;
      resolve_key key (sizes v) = Inr rs; in_range \<rho> rs (sizes v)\<rbrakk> \<Longrightarrow> view_of \<rho> p shape v'"
| view_step: "\<lbrakk>view_of \<rho> p shape v; apply_view k v = Inr v'\<rbrakk> \<Longrightarrow> view_of \<rho> p shape v'"

text \<open>What a transfer needs of a region: one element per logical element, inside the array, each once when writable.\<close>

definition sound_region :: "(nat \<Rightarrow> int) \<Rightarrow> int list \<Rightarrow> 'o region \<Rightarrow> bool" where
  "sound_region \<rho> shape v \<longleftrightarrow> wf_region v \<and> logical_sizes v = sizes v \<and>
     (\<forall>a \<in> set (region_walk \<rho> v). 0 \<le> a \<and> a < prod_list shape) \<and>
     (\<not> readonly v \<longrightarrow> distinct (region_walk \<rho> v))"

lemma shifted_index_in_box:
  assumes "in_range \<rho> rs ns" and "is \<in> set (box (map (fst \<circ> snd) rs))"
  shows "map2 (+) (map (eval_index \<rho> \<circ> fst) rs) is \<in> set (box ns)"
proof -
  have *: "list_all2 (\<lambda>i n. 0 \<le> i \<and> i < n) is (map (fst \<circ> snd) rs)" using assms(2) by (simp add: box_iff)
  then have "length is = length rs" "length ns = length rs"
    using assms(1) by (auto simp: in_range_def dest: list_all2_lengthD)
  moreover have "0 \<le> eval_index \<rho> (fst (rs ! k)) + is ! k \<and> eval_index \<rho> (fst (rs ! k)) + is ! k < ns ! k"
    if "k < length rs" for k
  proof -
    have "0 \<le> is ! k" "is ! k < fst (snd (rs ! k))" "0 \<le> eval_index \<rho> (fst (rs ! k))"
        "eval_index \<rho> (fst (rs ! k)) + fst (snd (rs ! k)) \<le> ns ! k"
      using * assms(1) that calculation by (auto simp: list_all2_conv_all_nth in_range_def split_beta)
    then show ?thesis by linarith
  qed
  ultimately show ?thesis by (simp add: box_iff list_all2_conv_all_nth)
qed

lemma shift_inj: "length xs = length ks \<Longrightarrow> length ys = length ks \<Longrightarrow> map2 (+) ks xs = map2 (+) ks ys \<Longrightarrow> xs = (ys :: int list)"
  by (induction ks arbitrary: xs ys) (auto simp: length_Suc_conv)

lemma region_walk_box: "wf_region v \<Longrightarrow> region_walk \<rho> v = map (addr (region_axes \<rho> v)) (box (sizes v))"
  by (simp add: region_walk_def walk_def)

lemma subregion_sound:
  assumes v: "sound_region \<rho> shape v" and wf': "wf_region v'" and sz: "sizes v' = map (fst \<circ> snd) rs"
    and lg: "logical_sizes v' = sizes v'" and ro: "readonly v' = readonly v"
    and rng: "in_range \<rho> rs (sizes v)"
    and ad: "\<And>is. length is = length (sizes v) \<Longrightarrow>
       addr (region_axes \<rho> v') is = addr (region_axes \<rho> v) (map2 (+) (map (eval_index \<rho> \<circ> fst) rs) is)"
  shows "sound_region \<rho> shape v'"
proof -
  define g where "g = (\<lambda>is. map2 (+) (map (eval_index \<rho> \<circ> fst) rs) is)"
  have wf: "wf_region v" using v by (simp add: sound_region_def)
  have len: "length rs = length (sizes v)" using rng by (auto simp: in_range_def dest: list_all2_lengthD)
  have lb: "length is = length rs" if "is \<in> set (box (sizes v'))" for "is"
    using box_length [OF that] by (simp add: sz)
  have w': "region_walk \<rho> v' = map (\<lambda>is. addr (region_axes \<rho> v) (g is)) (box (sizes v'))"
    unfolding region_walk_box [OF wf'] using lb len ad by (auto simp: g_def)
  have gb: "g ` set (box (sizes v')) \<subseteq> set (box (sizes v))"
    using shifted_index_in_box [OF rng] by (auto simp: g_def sz)
  have "set (region_walk \<rho> v') \<subseteq> set (region_walk \<rho> v)"
    unfolding w' region_walk_box [OF wf] using gb by auto
  moreover have "distinct (region_walk \<rho> v')" if "distinct (region_walk \<rho> v)"
  proof -
    have "inj_on g (set (box (sizes v')))"
      using lb unfolding inj_on_def g_def by (metis length_map shift_inj)
    moreover have "inj_on (addr (region_axes \<rho> v)) (g ` set (box (sizes v')))"
      using that gb unfolding region_walk_box [OF wf] by (auto simp: distinct_map intro: inj_on_subset)
    ultimately have "inj_on (\<lambda>is. addr (region_axes \<rho> v) (g is)) (set (box (sizes v')))"
      using comp_inj_on [of g _ "addr (region_axes \<rho> v)"] by (simp add: comp_def)
    then show ?thesis unfolding w' by (simp add: distinct_map distinct_box)
  qed
  ultimately show ?thesis using v wf' lg ro by (auto simp: sound_region_def)
qed

lemma whole_sound: "\<forall>n \<in> set shape. 1 \<le> n \<Longrightarrow> sound_region \<rho> shape (whole_region p shape)"
  using wf_whole_region [of shape p] whole_walk [of shape \<rho> p]
  by (auto simp: sound_region_def distinct_map)

text \<open>A first subscript of the array is that subscript of its whole region, up to the view mark.\<close>

lemma array_slice_getitem:
  assumes "resolve_key key shape = Inr rs"
  shows "\<exists>v'. region_getitem (whole_region p shape) key = Inr v' \<and>
    sizes v' = map (fst \<circ> snd) rs \<and> strides v' = row_major_strides shape \<and> readonly v' = False \<and>
    (\<forall>\<rho>. (\<forall>r \<in> set rs. wf_index (fst r)) \<longrightarrow> map (eval_index \<rho>) (offsets v') = map (eval_index \<rho> \<circ> fst) rs)"
proof -
  have len: "length rs = length shape" using resolve_key_spec [OF assms] by simp
  have "map (eval_index \<rho>) (map2 index_add (map (\<lambda>_. index_constant 0) shape) (map fst rs)) = map (eval_index \<rho> \<circ> fst) rs"
    if "\<forall>r \<in> set rs. wf_index (fst r)" for \<rho>
    using that len by (intro nth_equalityI) auto
  with assms show ?thesis
    by (simp add: region_getitem_def whole_region_def mk_slice_def respan_def)
qed

lemma slice_sound:
  assumes pos: "\<forall>n \<in> set shape. 1 \<le> n" and r: "resolve_key key shape = Inr rs"
    and wk: "\<forall>k \<in> set key. wf_subscript k" and rng: "in_range \<rho> rs shape"
  shows "sound_region \<rho> shape
    (mk_slice p (map fst rs) (map (fst \<circ> snd) rs) (row_major_strides shape) None False (Some (map (snd \<circ> snd) rs)))"
    (is "sound_region _ _ ?v")
proof -
  let ?w = "whole_region p shape"
  obtain v' where v': "region_getitem ?w key = Inr v'" and sz: "sizes v' = map (fst \<circ> snd) rs"
    and st: "strides v' = row_major_strides shape"
    and ev: "\<And>\<rho>. \<forall>r \<in> set rs. wf_index (fst r) \<Longrightarrow> map (eval_index \<rho>) (offsets v') = map (eval_index \<rho> \<circ> fst) rs"
    using array_slice_getitem [OF r, of p] by (elim exE conjE) simp
  note g = getitem_spec [OF wf_whole_region [OF pos] v' wk, of \<rho>]
  note sp = resolve_key_spec [OF r]
  have rsx: "wf_index (fst x) \<and> 1 \<le> fst (snd x)" if x: "x \<in> set rs" for x
  proof -
    obtain k where k: "k < length rs" "x = rs ! k" using x by (auto simp: in_set_conv_nth)
    obtain lo n d where x3: "rs ! k = (lo, n, d)" by (cases "rs ! k")
    have "resolve_subscript (key ! k) (shape ! k) = Inr (lo, n, d)" "wf_subscript (key ! k)"
      using sp k x3 wk by auto
    then have "wf_index lo" "1 \<le> n" using resolve_subscript_wf [of "key ! k" "shape ! k" lo n d] resolve_subscript_size [of "key ! k" "shape ! k" lo n d] by auto
    with k x3 show ?thesis by simp
  qed
  have len: "length rs = length shape" using sp by simp
  have wf: "wf_region ?v" using rsx len by (auto simp: wf_region_def mk_slice_def)
  have "region_axes \<rho> ?v = region_axes \<rho> v'"
    using ev [of \<rho>] rsx sz st by (simp add: region_axes_def mk_slice_def)
  then have ad: "addr (region_axes \<rho> ?v) is = addr (region_axes \<rho> ?w) (map2 (+) (map (eval_index \<rho> \<circ> fst) rs) is)"
    if "length is = length (sizes ?w)" for "is"
    using g r that by auto
  show ?thesis
    by (rule subregion_sound [OF whole_sound [OF pos] wf _ _ _ _ ad]) (use rng in \<open>simp_all add: mk_slice_def\<close>)
qed

lemma getitem_fields:
  "region_getitem v key = Inr v' \<Longrightarrow> parent v' = parent v \<and> readonly v' = readonly v \<and> logical_sizes v' = sizes v'"
  by (auto simp: region_getitem_def res_bind_Inr_iff respan_def mk_slice_def)

lemma getitem_sound:
  assumes "sound_region \<rho> shape v" and "region_getitem v key = Inr v'" and "\<forall>k \<in> set key. wf_subscript k"
    and "resolve_key key (sizes v) = Inr rs" and "in_range \<rho> rs (sizes v)"
  shows "sound_region \<rho> shape v'"
proof -
  have wf: "wf_region v" using assms(1) by (simp add: sound_region_def)
  note g = getitem_spec [OF wf assms(2,3), of \<rho>]
  show ?thesis
    by (rule subregion_sound [OF assms(1), of v' rs]) (use g assms(4,5) getitem_fields [OF assms(2)] in auto)
qed

lemma view_logical:
  assumes "apply_view k v = Inr v'" and "wf_region v" and "logical_sizes v = sizes v"
  shows "logical_sizes v' = sizes v'"
proof (cases k)
  case (Reshape shape)
  with assms show ?thesis by (auto simp: region_reshape_def res_bind_Inr_iff Let_def respan_def mk_slice_def)
next
  case (Transpose axes)
  with assms show ?thesis by (auto simp: region_transpose_def res_bind_Inr_iff Let_def respan_def mk_slice_def)
next
  case (BroadcastTo shape)
  then have b: "region_broadcast_to v shape = Inr v'" using assms(1) by simp
  then have "logical_sizes v' = shape"
    by (auto simp: region_broadcast_to_def res_bind_Inr_iff Let_def respan_def mk_slice_def split: if_splits)
  with broadcast_spec [OF assms(2) b] show ?thesis by simp
qed

lemma apply_view_sound:
  assumes "sound_region \<rho> shape v" and "apply_view k v = Inr v'"
  shows "sound_region \<rho> shape v'"
proof -
  have wf: "wf_region v" and lg: "logical_sizes v = sizes v" using assms(1) by (simp_all add: sound_region_def)
  have "distinct (region_walk \<rho> v')" if "\<not> readonly v'"
  proof (cases k)
    case (BroadcastTo ns)
    with assms(2) that broadcast_fields show ?thesis by auto
  next
    case (Reshape ns)
    then have r: "rearrange k v = Inr v'" using assms(2) by (simp add: rearrange_def)
    show ?thesis
      using rearranging.op_mset [OF r wf, of \<rho>] rearranging.op_flag [OF r] assms(1) that
      by (metis mset_eq_imp_distinct_iff sound_region_def)
  next
    case (Transpose axes)
    then have r: "rearrange k v = Inr v'" using assms(2) by (simp add: rearrange_def)
    show ?thesis
      using rearranging.op_mset [OF r wf, of \<rho>] rearranging.op_flag [OF r] assms(1) that
      by (metis mset_eq_imp_distinct_iff sound_region_def)
  qed
  then show ?thesis
    using any_view.op_wf [OF assms(2) wf] any_view.op_within [OF assms(2) wf, of \<rho>] view_logical [OF assms(2) wf lg] assms(1)
    by (auto simp: sound_region_def)
qed

lemma view_of_sound: "view_of \<rho> p shape v \<Longrightarrow> \<forall>n \<in> set shape. 1 \<le> n \<Longrightarrow> sound_region \<rho> shape v \<and> parent v = p"
proof (induction rule: view_of.induct)
  case view_whole
  then show ?case using whole_sound by (simp add: whole_region_def mk_slice_def)
next
  case (view_slice key rs)
  then show ?case using slice_sound by (simp add: mk_slice_def)
next
  case (view_getitem v key v' rs)
  then show ?case using getitem_sound getitem_fields by blast
next
  case (view_step v k v')
  then show ?case using apply_view_sound any_view.op_parent by blast
qed

section \<open>What an accepted transfer does\<close>

fun arg_shape :: "xfer_arg \<Rightarrow> int list" where
  "arg_shape (XBuffer b) = b_shape b"
| "arg_shape (XSlice v) = b_shape (parent v)"
| "arg_shape (XTensor i t) = t_shape t"
| "arg_shape (XTensorSlice i v) = t_shape (parent v)"
| "arg_shape XOther = []"

text \<open>An argument a program can build: a whole array, or one of its regions with subscripts in range.\<close>

definition wf_arg :: "(nat \<Rightarrow> int) \<Rightarrow> xfer_arg \<Rightarrow> bool" where
  "wf_arg \<rho> x \<longleftrightarrow> (\<forall>n \<in> set (arg_shape x). 1 \<le> n) \<and>
     (case x of XSlice v \<Rightarrow> view_of \<rho> (parent v) (b_shape (parent v)) v
      | XTensorSlice i v \<Rightarrow> view_of \<rho> (parent v) (t_shape (parent v)) v
      | _ \<Rightarrow> True)"

lemma elements_prod: "elements ns = prod_list ns"
proof -
  have "foldl (*) a ns = a * prod_list ns" for a
    by (induction ns arbitrary: a) (simp_all add: ac_simps)
  then show ?thesis by (simp add: elements_def)
qed

lemma prod_squeeze_front: "prod_list (squeeze_front ns rank) = prod_list ns"
  by (induction ns) auto

lemma prod_squeeze_back: "prod_list (squeeze_back ns rank) = prod_list ns"
proof (induction ns rank rule: squeeze_back.induct)
  case (1 ns rank)
  show ?case
  proof (cases "rank < length ns \<and> last ns = 1")
    case True
    then have "prod_list ns = prod_list (butlast ns)"
      by (metis append_butlast_last_id length_0_conv mult.right_neutral not_less_zero prod_list.Cons prod_list.Nil prod_list.append)
    with True 1 show ?thesis by (simp add: squeeze_back.simps [of ns])
  qed (subst squeeze_back.simps, auto)
qed

lemma check_pair_counts:
  assumes "check_pair d s = Inr u"
  shows "prod_list (ep_sizes d) = prod_list (ep_sizes s) \<and> ep_dtype d = ep_dtype s"
proof -
  have "prod_list (squeeze_units ns rank) = prod_list ns" for ns rank
    by (simp add: squeeze_units_def prod_squeeze_front prod_squeeze_back)
  with assms show ?thesis
    by (auto simp: check_pair_def Let_def res_bind_Inr_iff elements_prod split: if_splits) metis
qed

lemma region_endpoint_walk:
  "ep_pattern ep = Some (region_pattern v) \<Longrightarrow> endpoint_walk \<rho> ep = region_walk \<rho> v"
  by (simp add: endpoint_walk_def region_pattern_def region_walk_def region_axes_def)

lemma sound_region_length:
  assumes "sound_region \<rho> shape v"
  shows "int (length (region_walk \<rho> v)) = prod_list (logical_sizes v)"
proof -
  have "wf_region v" "\<forall>n \<in> set (sizes v). 0 \<le> n" "logical_sizes v = sizes v"
    using assms by (force simp: sound_region_def wf_region_def)+
  then show ?thesis by (simp add: region_walk_box length_box)
qed

definition endpoint_ok :: "(nat \<Rightarrow> int) \<Rightarrow> int list \<Rightarrow> bool \<Rightarrow> endpoint \<Rightarrow> bool" where
  "endpoint_ok \<rho> shape written ep \<longleftrightarrow>
     int (length (endpoint_walk \<rho> ep)) = prod_list (ep_sizes ep) \<and>
     (\<forall>a \<in> set (endpoint_walk \<rho> ep). 0 \<le> a \<and> a < prod_list shape) \<and>
     (written \<longrightarrow> distinct (endpoint_walk \<rho> ep))"

lemma region_endpoint_ok:
  assumes "ep_pattern ep = Some (region_pattern v)" and "ep_sizes ep = logical_sizes v"
    and "view_of \<rho> p shape v" and "\<forall>n \<in> set shape. 1 \<le> n" and "written \<longrightarrow> \<not> readonly v"
  shows "endpoint_ok \<rho> shape written ep"
  using assms sound_region_length [of \<rho> shape v] view_of_sound [OF assms(3,4)]
  by (auto simp: endpoint_ok_def region_endpoint_walk sound_region_def)

lemma whole_endpoint_ok:
  assumes "ep_pattern ep = None" and "ep_sizes ep = shape" and "\<forall>n \<in> set shape. 1 \<le> n"
  shows "endpoint_ok \<rho> shape written ep"
proof -
  have "0 < prod_list shape" by (rule prod_list_pos) (use assms(3) in force)
  with assms show ?thesis by (auto simp: endpoint_ok_def endpoint_walk_def distinct_map)
qed

lemma endpoint_sound:
  assumes ep: "endpoint_of alive x dir role = Inr ep" and wf: "wf_arg \<rho> x"
  shows "endpoint_ok \<rho> (arg_shape x) (role = Destination) ep"
proof -
  have pos: "\<forall>n \<in> set (arg_shape x). 1 \<le> n" using wf by (simp add: wf_arg_def)
  show ?thesis
  proof (cases x)
    case (XSlice v)
    with ep wf pos show ?thesis
      by (intro region_endpoint_ok [of _ v]) (auto simp: endpoint_of_def wf_arg_def split: if_splits)
  next
    case (XTensorSlice i v)
    with ep wf pos show ?thesis
      by (intro region_endpoint_ok [of _ v]) (auto simp: endpoint_of_def wf_arg_def split: if_splits)
  next
    case (XBuffer b)
    with ep pos show ?thesis by (intro whole_endpoint_ok) (auto simp: endpoint_of_def split: if_splits)
  next
    case (XTensor i t)
    with ep pos show ?thesis by (intro whole_endpoint_ok) (auto simp: endpoint_of_def split: if_splits)
  qed (use ep in \<open>simp add: endpoint_of_def\<close>)
qed

text \<open>Copying element by element over distinct destinations that the sources do not meet.\<close>

lemma copy_run:
  assumes "distinct as" and "length as = length bs" and "dst \<noteq> src \<or> set as \<inter> set bs = {}"
  shows "let m' = foldl (copy_one dst src) m (zip as bs) in
    map (m' dst) as = map (m src) bs \<and> (\<forall>r a. r \<noteq> dst \<or> a \<notin> set as \<longrightarrow> m' r a = m r a)"
  using assms(2,1,3)
proof (induction as bs arbitrary: m rule: list_induct2)
  case (Cons a as b bs)
  define m1 where "m1 = copy_one dst src m (a, b)"
  define m' where "m' = foldl (copy_one dst src) m1 (zip as bs)"
  have IH: "map (m' dst) as = map (m1 src) bs" "\<And>r c. r \<noteq> dst \<or> c \<notin> set as \<Longrightarrow> m' r c = m1 r c"
    using Cons.IH [of m1] Cons.prems by (auto simp: m'_def Let_def)
  have src: "m1 src c = m src c" if "c \<in> set bs" for c
    using Cons.prems(2) that by (auto simp: m1_def copy_one_def)
  have "m' dst a = m src b" using IH(2) [of dst a] Cons.prems by (simp add: m1_def copy_one_def)
  moreover have "map (m' dst) as = map (m src) bs" using IH(1) src by simp
  moreover have "m' r c = m r c" if "r \<noteq> dst \<or> c \<notin> set (a # as)" for r c
    using IH(2) [of r c] that by (auto simp: m1_def copy_one_def)
  ultimately show ?case by (simp add: Let_def m'_def m1_def)
qed simp

text \<open>The whole effect of a transfer \<open>D\<close> from \<open>src\<close> to \<open>dst\<close>.\<close>

definition transfers :: "(nat \<Rightarrow> int) \<Rightarrow> dma \<Rightarrow> xfer_arg \<Rightarrow> xfer_arg \<Rightarrow> 'v store_map \<Rightarrow> bool" where
  "transfers \<rho> D dst src m \<longleftrightarrow>
     (let d = dma_dst D; s = dma_src D; m' = run_dma \<rho> D m in
      ep_dtype d = ep_dtype s \<and>
      map (m' (ep_value d)) (endpoint_walk \<rho> d) = map (m (ep_value s)) (endpoint_walk \<rho> s) \<and>
      (\<forall>r a. r \<noteq> ep_value d \<or> a \<notin> set (endpoint_walk \<rho> d) \<longrightarrow> m' r a = m r a) \<and>
      (\<forall>a \<in> set (endpoint_walk \<rho> d). 0 \<le> a \<and> a < prod_list (arg_shape dst)) \<and>
      (\<forall>a \<in> set (endpoint_walk \<rho> s). 0 \<le> a \<and> a < prod_list (arg_shape src)))"

definition apart :: "(nat \<Rightarrow> int) \<Rightarrow> dma \<Rightarrow> bool" where
  "apart \<rho> D \<longleftrightarrow> ep_value (dma_dst D) \<noteq> ep_value (dma_src D) \<or>
     set (endpoint_walk \<rho> (dma_dst D)) \<inter> set (endpoint_walk \<rho> (dma_src D)) = {}"

lemma checked_pair_transfers:
  assumes "endpoint_of alive dst dir Destination = Inr d" and "endpoint_of alive' src dir' Source = Inr s"
    and "check_pair d s = Inr u" and "wf_arg \<rho> dst" and "wf_arg \<rho> src" and "apart \<rho> \<lparr>dma_dst = d, dma_src = s\<rparr>"
  shows "transfers \<rho> \<lparr>dma_dst = d, dma_src = s\<rparr> dst src m"
proof -
  have d: "endpoint_ok \<rho> (arg_shape dst) True d" and s: "endpoint_ok \<rho> (arg_shape src) False s"
    using endpoint_sound [OF assms(1,4)] endpoint_sound [OF assms(2,5)] by simp_all
  have "length (endpoint_walk \<rho> d) = length (endpoint_walk \<rho> s)"
    using check_pair_counts [OF assms(3)] d s by (simp add: endpoint_ok_def)
  moreover have "distinct (endpoint_walk \<rho> d)" using d by (simp add: endpoint_ok_def)
  ultimately show ?thesis
    using copy_run [of "endpoint_walk \<rho> d" "endpoint_walk \<rho> s" "ep_value d" "ep_value s" m] assms(6)
      check_pair_counts [OF assms(3)] d s
    by (simp add: transfers_def run_dma_def Let_def apart_def endpoint_ok_def)
qed

section \<open>Properties\<close>

text \<open>
  C3: a transfer that \<open>ops.load\<close> or \<open>ops.store\<close> accepts is a copy, if its subscripts are in range and its two regions do
  not overlap; the code checks neither. Reading the destination afterwards in the order of its access pattern gives the
  source's elements in the order of its own, of the same type, and nothing else changes; views of the sliced regions stay in the
  arrays. Whole arrays, sliced regions and chains of views of both are covered, at every value of the coordinates.
\<close>

theorem accepted_transfer_copies:
  assumes "load alive dst src pb pa dep = Inr D \<or> store alive src dst pb pa dep outs = Inr (D, outs')"
    and "wf_arg \<rho> dst" and "wf_arg \<rho> src" and "apart \<rho> D"
  shows "transfers \<rho> D dst src m"
proof -
  obtain d s dir where "endpoint_of alive dst dir Destination = Inr d" "endpoint_of alive src dir Source = Inr s"
    "check_pair d s = Inr ()" "D = \<lparr>dma_dst = d, dma_src = s\<rparr>"
    using assms(1) by (auto simp: load_def store_def res_bind_Inr_iff)
  then show ?thesis using checked_pair_transfers assms(2-4) by blast
qed

definition sample_tile :: buffer where "sample_tile = Buffer 0 [2, 3] i32 None L1 False"

definition sample_tensor :: tensor where "sample_tensor = Tensor [3, 2] i32 ''a''"

definition sample_columns :: tensor_slice where
  "sample_columns = respan (whole_region sample_tensor [3, 2]) [index_constant 0, index_constant 0] [2, 3] [1, 2] [2, 3]
     (Some [False, False])"

lemma sample_columns_view: "view_of \<rho> sample_tensor [3, 2] sample_columns"
proof (rule view_step [OF view_whole])
  show "apply_view (Transpose [1, 0]) (whole_region sample_tensor [3, 2]) = Inr sample_columns"
    by (simp add: region_transpose_def check_axes_def Let_def upt_rec permute_def sample_columns_def
        whole_region_def mk_slice_def respan_def)
qed

theorem accepted_transfer_copies_witness:
  "\<exists>D. load (\<lambda>_. True) (XBuffer sample_tile) (XTensorSlice 0 sample_columns) False False NoDependency = Inr D \<and>
     map (run_dma (\<lambda>_. 0) D (\<lambda>r a. case r of TensorMem i \<Rightarrow> 10 * a | BufferMem i \<Rightarrow> 0) (BufferMem 0)) (map int [0..<6])
       = [0, 20, 40, 10, 30, 50]"
proof -
  let ?m = "\<lambda>r a. case r of TensorMem i \<Rightarrow> 10 * a | BufferMem i \<Rightarrow> (0 :: int)"
  obtain D where D: "load (\<lambda>_. True) (XBuffer sample_tile) (XTensorSlice 0 sample_columns) False False NoDependency = Inr D"
    and d: "dma_dst D = \<lparr>ep_value = BufferMem 0, ep_dtype = i32, ep_sizes = [2, 3], ep_pattern = None, ep_tensor = None, ep_view = False\<rparr>"
    and s: "ep_value (dma_src D) = TensorMem 0" "ep_pattern (dma_src D) = Some (region_pattern sample_columns)"
    by (simp add: load_def endpoint_of_def check_pair_def check_padding_def elements_def sample_tile_def Buffer_def
        sample_columns_def respan_def mk_slice_def whole_region_def sample_tensor_def Tensor_def)
  have wf: "wf_arg (\<lambda>_. 0) (XBuffer sample_tile)" "wf_arg (\<lambda>_. 0) (XTensorSlice 0 sample_columns)"
    using sample_columns_view [of "\<lambda>_. 0"]
    by (simp_all add: wf_arg_def sample_tile_def Buffer_def sample_columns_def respan_def mk_slice_def whole_region_def
        sample_tensor_def Tensor_def)
  have "apart (\<lambda>_. 0) D" using d s by (simp add: apart_def)
  from accepted_transfer_copies [OF disjI1 [OF D] wf this, of ?m]
  have "map (run_dma (\<lambda>_. 0) D ?m (BufferMem 0)) (endpoint_walk (\<lambda>_. 0) (dma_dst D))
      = map (?m (TensorMem 0)) (endpoint_walk (\<lambda>_. 0) (dma_src D))"
    using d s by (simp add: transfers_def Let_def)
  moreover have "endpoint_walk (\<lambda>_. 0) (dma_dst D) = map int [0..<6]" using d by (simp add: endpoint_walk_def)
  moreover have "map (?m (TensorMem 0)) (endpoint_walk (\<lambda>_. 0) (dma_src D)) = [0, 20, 40, 10, 30, 50]"
    using s by (simp add: region_endpoint_walk sample_columns_def region_walk_def region_axes_def walk_def upt_rec
        respan_def mk_slice_def)
  ultimately show ?thesis using D by metis
qed

end
