(* ===== verification/Contract.thy ===== *)
theory Contract
  imports Reduce Data_Transfer
begin

text \<open>
  Fills and contractions: \<open>ops.fill\<close>, \<open>ops.dot\<close> and the slab of a shared accumulator, from
  \<^verbatim>\<open>src/python/air/api/ops.py\<close>. A contraction becomes one structured \<open>linalg\<close> operation, whose meaning is
  its indexing maps over its iteration domain. The theory shows that every rank \<open>dot\<close> accepts contracts the
  last axis of \<open>a\<close> with the first of \<open>b\<close>, and that the blocked form is the matrix product of the matrices the
  blocks lay out.
\<close>

section \<open>The calling core's slab\<close>

record slab =
  sl_buffer :: nat
  sl_offsets :: "index_expr list"
  sl_sizes :: "int list"

text \<open>\<open>accumulator_subview\<close>; \<open>herd\<close> holds the coordinates of the current herd, if there is one.\<close>

definition accumulator_subview :: "index_expr list option \<Rightarrow> buffer \<Rightarrow> slab res" where
  "accumulator_subview herd acc =
     (case herd of
        None \<Rightarrow> Inl RuntimeError
      | Some coords \<Rightarrow>
          let nlead = length coords in
          if length (b_shape acc) \<le> nlead then Inl ValueError
          else Inr \<lparr>sl_buffer = b_id acc,
                    sl_offsets = coords @ replicate (length (b_shape acc) - nlead) (index_constant 0),
                    sl_sizes = replicate nlead 1 @ drop nlead (b_shape acc)\<rparr>)"

section \<open>fill\<close>

datatype fill_arg = FillBuffer buffer | FillOther

datatype filled = FillLoop emitted | FillSlab slab dtype numeric | FillWhole nat dtype numeric

definition fill_scalar :: "dtype \<Rightarrow> numeric \<Rightarrow> numeric res" where
  "fill_scalar d v = (if is_float d then Inr (NFloat (py_float_of v)) else res_bind (py_int v) (\<lambda>k. Inr (NInt k)))"

fun is_scalar_number :: "numeric option \<Rightarrow> bool" where
  "is_scalar_number (Some (NInt k)) = True"
| "is_scalar_number (Some (NFloat x)) = True"
| "is_scalar_number _ = False"

definition fill_buffer :: "(nat \<Rightarrow> bool) \<Rightarrow> index_expr list option \<Rightarrow> bool \<Rightarrow> fill_arg \<Rightarrow> numeric option \<Rightarrow> filled res" where
  "fill_buffer alive herd shared arg v =
     (case arg of
        FillOther \<Rightarrow> Inl TypeError
      | FillBuffer b \<Rightarrow>
          res_bind (res_check (alive (b_id b)) RuntimeError) (\<lambda>_.
          res_bind (require_signless (b_dtype b)) (\<lambda>_.
          res_bind (require_computable (b_dtype b)) (\<lambda>_.
          res_bind (res_check (is_scalar_number v) TypeError) (\<lambda>_.
          res_bind (fill_scalar (b_dtype b) (the v)) (\<lambda>x.
            if \<not> shared \<and> b_shape b \<noteq> [] \<and> b_space b = L1 then
              res_bind (buffer_setitem alive b [Slice None None None] (ONum x)) (\<lambda>e. Inr (FillLoop e))
            else if shared then res_bind (accumulator_subview herd b) (\<lambda>s. Inr (FillSlab s (b_dtype b) x))
            else Inr (FillWhole (b_id b) (b_dtype b) x)))))))"

section \<open>dot\<close>

datatype contraction = Dot | Vecmat | Matvec | Matmul

text \<open>\<open>_CONTRACTIONS\<close>, keyed by the ranks of the operands.\<close>

definition contractions :: "nat \<times> nat \<Rightarrow> contraction option" where
  "contractions ranks =
     map_of [((1, 1), Dot), ((1, 2), Vecmat), ((2, 1), Matvec), ((2, 2), Matmul)] ranks"

definition nth_last :: "int list \<Rightarrow> nat \<Rightarrow> int" where
  "nth_last shape k = shape ! (length shape - k)"

definition blocked_extents :: "int list \<Rightarrow> int \<times> int" where
  "blocked_extents shape = (nth_last shape 3 * nth_last shape 2, nth_last shape 4 * nth_last shape 1)"

text \<open>\<open>_check_blocked_operands\<close>; an accumulator of rank below four has no such axes to read.\<close>

definition check_blocked_operands :: "int list \<Rightarrow> int list \<Rightarrow> int list \<Rightarrow> unit res" where
  "check_blocked_operands a b acc =
     (if length acc < 2 then Inl ValueError
      else
        let m_a = nth_last a 2; k_a = nth_last a 1; k_b = nth_last b 2; n_b = nth_last b 1;
            m_c = nth_last acc 2; n_c = nth_last acc 1 in
        res_bind (res_check (k_a = k_b) ValueError) (\<lambda>_.
        res_bind (res_check ((m_c, n_c) = (m_a, n_b)) ValueError) (\<lambda>_.
        res_bind (res_check (4 \<le> length acc) IndexError) (\<lambda>_.
          let (log_m_a, log_k_a) = blocked_extents a; (log_k_b, log_n_b) = blocked_extents b;
              (log_m_c, log_n_c) = blocked_extents acc in
          res_bind (res_check (log_k_a = log_k_b) ValueError) (\<lambda>_.
            res_check ((log_m_c, log_n_c) = (log_m_a, log_n_b)) ValueError)))))"

datatype dot_arg = DotMissing | DotBuffer buffer | DotOther

datatype kernel_arg = NoKernel | KernelName string | KernelOther

definition library_call :: "kernel_arg \<Rightarrow> string option res" where
  "library_call symbol =
     (case symbol of
        NoKernel \<Rightarrow> Inr None
      | KernelName s \<Rightarrow> if s = [] then Inl TypeError else Inr (Some s)
      | KernelOther \<Rightarrow> Inl TypeError)"

definition dot_operand :: "(nat \<Rightarrow> bool) \<Rightarrow> dot_arg \<Rightarrow> buffer res" where
  "dot_operand alive x =
     (case x of
        DotMissing \<Rightarrow> Inl TypeError
      | DotOther \<Rightarrow> Inl TypeError
      | DotBuffer b \<Rightarrow>
          res_bind (res_check (b_space b = L1) TypeError) (\<lambda>_.
          res_bind (res_check (alive (b_id b)) RuntimeError) (\<lambda>_.
          res_bind (require_signless (b_dtype b)) (\<lambda>_.
          res_bind (require_computable (b_dtype b)) (\<lambda>_. Inr b)))))"

datatype dot_kind = NamedDot contraction | TransposedDot | BlockedDot slab

record dot_op =
  d_kind :: dot_kind
  d_a :: buffer
  d_b :: buffer
  d_acc :: buffer
  d_library :: "string option"

definition alpha_is_one :: "numeric \<Rightarrow> bool" where
  "alpha_is_one alpha \<longleftrightarrow> py_float_of alpha = FFin 1"

definition unblocked_kind :: "buffer \<Rightarrow> buffer \<Rightarrow> buffer \<Rightarrow> bool \<Rightarrow> dot_kind res" where
  "unblocked_kind a b acc transpose_b =
     (case contractions (length (b_shape a), length (b_shape b)) of
        None \<Rightarrow> Inl NotImplementedError
      | Some c \<Rightarrow>
          let k_a = last (b_shape a); k_b = (if transpose_b then last (b_shape b) else hd (b_shape b));
              expected = butlast (b_shape a) @ (if transpose_b then butlast (b_shape b) else tl (b_shape b)) in
          res_bind (res_check (\<not> (transpose_b \<and> (length (b_shape a), length (b_shape b)) \<noteq> (2, 2))) ValueError) (\<lambda>_.
          res_bind (res_check (k_a = k_b) ValueError) (\<lambda>_.
          res_bind (res_check (b_shape acc = expected) ValueError) (\<lambda>_.
            Inr (if transpose_b then TransposedDot else NamedDot c)))))"

definition dot ::
  "(nat \<Rightarrow> bool) \<Rightarrow> index_expr list option \<Rightarrow> dot_arg \<Rightarrow> dot_arg \<Rightarrow> dot_arg \<Rightarrow> numeric \<Rightarrow> bool \<Rightarrow> dependency \<Rightarrow> kernel_arg \<Rightarrow> dot_op res"
where
  "dot alive herd a b acc alpha transpose_b dep symbol =
     res_bind (check_dependency dep) (\<lambda>_.
     res_bind (dot_operand alive a) (\<lambda>a.
     res_bind (dot_operand alive b) (\<lambda>b.
     res_bind (dot_operand alive acc) (\<lambda>acc.
     res_bind (res_check (alpha_is_one alpha) NotImplementedError) (\<lambda>_.
     res_bind
       (if (length (b_shape a), length (b_shape b)) = (6, 6) then
          res_bind (res_check (\<not> transpose_b) NotImplementedError) (\<lambda>_.
          res_bind (check_blocked_operands (b_shape a) (b_shape b) (b_shape acc)) (\<lambda>_.
          res_bind (accumulator_subview herd acc) (\<lambda>s. Inr (BlockedDot s))))
        else unblocked_kind a b acc transpose_b) (\<lambda>kind.
     res_bind (library_call symbol) (\<lambda>lib.
       Inr \<lparr>d_kind = kind, d_a = a, d_b = b, d_acc = acc, d_library = lib\<rparr>)))))))"

section \<open>Structured operations\<close>

text \<open>
  A \<open>linalg\<close> operation over a domain with indexing maps: for every point, in row-major order, the product of
  the two operands is accumulated into the output. \<open>up\<close> brings an operand to the accumulator's type.
\<close>

record structured =
  st_dom :: "int list"
  st_a :: "int list \<Rightarrow> int list"
  st_b :: "int list \<Rightarrow> int list"
  st_c :: "int list \<Rightarrow> int list"

text \<open>The maps of the named operations, of \<open>_transpose_b_maps\<close>, and of the OpDSL definition of \<open>block_matmul\<close>.\<close>

fun named_op :: "contraction \<Rightarrow> int list \<Rightarrow> int list \<Rightarrow> structured" where
  "named_op Dot a b = \<lparr>st_dom = [a ! 0], st_a = (\<lambda>d. [d ! 0]), st_b = (\<lambda>d. [d ! 0]), st_c = (\<lambda>d. [])\<rparr>"
| "named_op Vecmat a b = \<lparr>st_dom = [b ! 1, a ! 0], st_a = (\<lambda>d. [d ! 1]), st_b = (\<lambda>d. [d ! 1, d ! 0]), st_c = (\<lambda>d. [d ! 0])\<rparr>"
| "named_op Matvec a b = \<lparr>st_dom = [a ! 0, a ! 1], st_a = (\<lambda>d. [d ! 0, d ! 1]), st_b = (\<lambda>d. [d ! 1]), st_c = (\<lambda>d. [d ! 0])\<rparr>"
| "named_op Matmul a b = \<lparr>st_dom = [a ! 0, b ! 1, a ! 1], st_a = (\<lambda>d. [d ! 0, d ! 2]), st_b = (\<lambda>d. [d ! 2, d ! 1]), st_c = (\<lambda>d. [d ! 0, d ! 1])\<rparr>"

definition transpose_b_op :: "int list \<Rightarrow> int list \<Rightarrow> structured" where
  "transpose_b_op a b =
     \<lparr>st_dom = [a ! 0, b ! 0, a ! 1], st_a = (\<lambda>d. [d ! 0, d ! 2]), st_b = (\<lambda>d. [d ! 1, d ! 2]), st_c = (\<lambda>d. [d ! 0, d ! 1])\<rparr>"

text \<open>The nine dimensions of \<open>block_matmul\<close> in their declared order, \<open>a\<close> to \<open>i\<close>.\<close>

definition block_matmul_op :: "int list \<Rightarrow> int list \<Rightarrow> structured" where
  "block_matmul_op a b =
     \<lparr>st_dom = [a ! 0, b ! 0, a ! 1, a ! 3, b ! 2, a ! 2, a ! 4, b ! 5, a ! 5],
      st_a = (\<lambda>d. [d ! 0, d ! 2, d ! 5, d ! 3, d ! 6, d ! 8]),
      st_b = (\<lambda>d. [d ! 1, d ! 2, d ! 4, d ! 5, d ! 8, d ! 7]),
      st_c = (\<lambda>d. [d ! 1, d ! 0, d ! 4, d ! 3, d ! 6, d ! 7])\<rparr>"

definition slab_address :: "(nat \<Rightarrow> int) \<Rightarrow> slab \<Rightarrow> int list \<Rightarrow> int list" where
  "slab_address \<rho> s is = map2 (+) (map (eval_index \<rho>) (sl_offsets s)) is"

definition structured_of :: "(nat \<Rightarrow> int) \<Rightarrow> dot_op \<Rightarrow> structured" where
  "structured_of \<rho> D =
     (let a = b_shape (d_a D); b = b_shape (d_b D) in
      case d_kind D of
        NamedDot c \<Rightarrow> named_op c a b
      | TransposedDot \<Rightarrow> transpose_b_op a b
      | BlockedDot s \<Rightarrow> (block_matmul_op a b)\<lparr>st_c := slab_address \<rho> s \<circ> st_c (block_matmul_op a b)\<rparr>)"

definition accumulate :: "('v \<Rightarrow> 'v) \<Rightarrow> structured \<Rightarrow> nat \<Rightarrow> nat \<Rightarrow> nat \<Rightarrow> 'v :: semiring_0 memory \<Rightarrow> int list \<Rightarrow> 'v memory" where
  "accumulate up S a b acc m d =
     m(acc := (m acc)(st_c S d := m acc (st_c S d) + up (m a (st_a S d)) * up (m b (st_b S d))))"

definition run_dot :: "('v \<Rightarrow> 'v) \<Rightarrow> (nat \<Rightarrow> int) \<Rightarrow> dot_op \<Rightarrow> 'v :: semiring_0 memory \<Rightarrow> 'v memory" where
  "run_dot up \<rho> D m =
     (let S = structured_of \<rho> D in
      foldl (accumulate up S (b_id (d_a D)) (b_id (d_b D)) (b_id (d_acc D))) m (box (st_dom S)))"

section \<open>Sums over a box\<close>

lemma box_sum_Cons:
  fixes g :: "int list \<Rightarrow> 'v :: comm_monoid_add"
  shows "sum_list (map g (box (n # ns))) = (\<Sum>i<nat n. sum_list (map (\<lambda>d. g (int i # d)) (box ns)))"
proof -
  have "sum_list (map g (concat (map (\<lambda>i. map ((#) (int i)) (box ns)) ks)))
      = sum_list (map (\<lambda>i. sum_list (map (\<lambda>d. g (int i # d)) (box ns))) ks)" for ks
    by (induction ks) (simp_all add: comp_def)
  then show ?thesis by (simp add: sum_list_distinct_conv_sum_set lessThan_atLeast0 flip: set_upt)
qed

lemma sum_at:
  fixes h :: "nat \<Rightarrow> 'v :: comm_monoid_add"
  shows "(\<Sum>i<nat n. if int i = t then h i else 0) = (if 0 \<le> t \<and> t < n then h (nat t) else 0)"
proof (cases "0 \<le> t")
  case True
  then have "(\<Sum>i<nat n. if int i = t then h i else 0) = (\<Sum>i<nat n. if i = nat t then h i else 0)"
    by (intro sum.cong) auto
  with True show ?thesis by (simp add: zless_nat_eq_int_zless)
qed (auto intro!: sum.neutral)

lemma sum_guard:
  "(\<Sum>k \<in> S. if P then f k else 0) = (if P then \<Sum>k \<in> S. f k else (0 :: 'v :: comm_monoid_add))"
  by simp

lemma if_conj: "(if P \<and> Q then x else y) = (if P then if Q then x else y else y)"
  by simp

text \<open>A point of the output gathers the products of the domain points that map to it.\<close>

lemma accumulate_run:
  fixes m :: "'v :: semiring_0 memory"
  assumes "a \<noteq> acc" and "b \<noteq> acc"
  shows "foldl (accumulate up S a b acc) m ds r t =
    (if r = acc then m acc t + sum_list (map (\<lambda>d. if st_c S d = t then up (m a (st_a S d)) * up (m b (st_b S d)) else 0) ds)
     else m r t)"
  using assms
proof (induction ds arbitrary: m)
  case (Cons d ds)
  then show ?case by (simp add: accumulate_def add.assoc)
qed simp

lemma run_dot_at:
  fixes m :: "'v :: semiring_0 memory"
  assumes "b_id (d_a D) \<noteq> b_id (d_acc D)" and "b_id (d_b D) \<noteq> b_id (d_acc D)"
  shows "run_dot up \<rho> D m (b_id (d_acc D)) t = m (b_id (d_acc D)) t +
      sum_list (map (\<lambda>d. if st_c (structured_of \<rho> D) d = t
        then up (m (b_id (d_a D)) (st_a (structured_of \<rho> D) d)) * up (m (b_id (d_b D)) (st_b (structured_of \<rho> D) d))
        else 0) (box (st_dom (structured_of \<rho> D))))"
    and "r \<noteq> b_id (d_acc D) \<Longrightarrow> run_dot up \<rho> D m r = m r"
  using assms by (simp_all add: run_dot_def Let_def accumulate_run fun_eq_iff)

section \<open>Plain contractions\<close>

inductive plain_shapes :: "dot_kind \<Rightarrow> int list \<Rightarrow> int list \<Rightarrow> int list \<Rightarrow> bool" where
  shapes_dot: "plain_shapes (NamedDot Dot) [k] [k] []"
| shapes_vecmat: "plain_shapes (NamedDot Vecmat) [k] [k, n] [n]"
| shapes_matvec: "plain_shapes (NamedDot Matvec) [m, k] [k] [m]"
| shapes_matmul: "plain_shapes (NamedDot Matmul) [m, k] [k, n] [m, n]"
| shapes_transposed: "plain_shapes TransposedDot [m, k] [n, k] [m, n]"

lemma unblocked_shapes:
  assumes "unblocked_kind a b acc tb = Inr kind"
  shows "plain_shapes kind (b_shape a) (b_shape b) (b_shape acc)"
proof -
  obtain c where c: "contractions (length (b_shape a), length (b_shape b)) = Some c"
    using assms by (auto simp: unblocked_kind_def split: option.splits)
  then have "length (b_shape a) \<in> {1, 2} \<and> length (b_shape b) \<in> {1, 2} \<and>
      c = (if length (b_shape a) = 1 then if length (b_shape b) = 1 then Dot else Vecmat
           else if length (b_shape b) = 1 then Matvec else Matmul)"
    by (auto simp: contractions_def split: if_splits)
  with assms c show ?thesis
    by (auto simp: unblocked_kind_def res_bind_Inr_iff length_Suc_conv numeral_2_eq_2 split: if_splits
        intro: plain_shapes.intros)
qed

lemma dot_parts:
  assumes "dot alive herd a b acc alpha tb dep sym' = Inr D"
  shows "(\<exists>s. d_kind D = BlockedDot s \<and> accumulator_subview herd (d_acc D) = Inr s \<and> \<not> tb \<and>
            length (b_shape (d_a D)) = 6 \<and> length (b_shape (d_b D)) = 6 \<and>
            check_blocked_operands (b_shape (d_a D)) (b_shape (d_b D)) (b_shape (d_acc D)) = Inr ()) \<or>
    plain_shapes (d_kind D) (b_shape (d_a D)) (b_shape (d_b D)) (b_shape (d_acc D))"
  using assms unblocked_shapes
  by (auto simp: dot_def res_bind_Inr_iff split: if_splits)

definition b_index :: "dot_kind \<Rightarrow> int list \<Rightarrow> int \<Rightarrow> int list" where
  "b_index kind q k = (if kind = TransposedDot then q @ [k] else k # q)"

lemmas box_sums = box_sum_Cons sum_at sum_guard if_conj

lemma plain_contracts:
  fixes m :: "'v :: semiring_0 memory"
  assumes sh: "plain_shapes (d_kind D) (b_shape (d_a D)) (b_shape (d_b D)) (b_shape (d_acc D))"
    and ids: "b_id (d_a D) \<noteq> b_id (d_acc D)" "b_id (d_b D) \<noteq> b_id (d_acc D)"
    and t: "p @ q \<in> set (box (b_shape (d_acc D)))" and lp: "Suc (length p) = length (b_shape (d_a D))"
  shows "run_dot up \<rho> D m (b_id (d_acc D)) (p @ q) = m (b_id (d_acc D)) (p @ q) +
      (\<Sum>k<nat (last (b_shape (d_a D))).
         up (m (b_id (d_a D)) (p @ [int k])) * up (m (b_id (d_b D)) (b_index (d_kind D) q (int k)))) \<and>
    (\<forall>k<nat (last (b_shape (d_a D))). p @ [int k] \<in> set (box (b_shape (d_a D))) \<and>
       b_index (d_kind D) q (int k) \<in> set (box (b_shape (d_b D))))"
  unfolding run_dot_at(1) [OF ids]
  using sh t lp
  by (cases rule: plain_shapes.cases)
    (auto simp: structured_of_def Let_def b_index_def box_iff list_all2_Cons2 length_Suc_conv Cons_eq_append_conv
      append_eq_Cons_conv transpose_b_op_def box_sums numeral_2_eq_2 simp del: box.simps(2))

section \<open>Blocked contractions\<close>

text \<open>
  Where the element at a row and a column of a matrix sits in its blocked layout: after the leading axes, the
  block column, the block row, and the place inside the block.
\<close>

definition block_index :: "int list \<Rightarrow> int list \<Rightarrow> int \<Rightarrow> int \<Rightarrow> int list" where
  "block_index lead shape row col =
     lead @ [col div nth_last shape 1, row div nth_last shape 2, row mod nth_last shape 2, col mod nth_last shape 1]"

lemma sum_blocks:
  fixes G :: "int \<Rightarrow> int \<Rightarrow> 'v :: comm_monoid_add"
  assumes "0 < I"
  shows "(\<Sum>f<nat F. \<Sum>i<nat I. G (int f) (int i)) = (\<Sum>k<nat (F * I). G (int k div I) (int k mod I))"
proof (cases "0 \<le> F")
  case True
  define n where "n = nat I"
  have I: "I = int n" "0 < n" using assms by (simp_all add: n_def)
  have blk: "(\<Sum>k = f * n..<f * n + n. G (int k div I) (int k mod I)) = (\<Sum>i<n. G (int f) (int i))" for f
  proof -
    have "(\<Sum>k = f * n..<f * n + n. G (int k div I) (int k mod I)) = (\<Sum>i = 0..<n. G (int (i + f * n) div I) (int (i + f * n) mod I))"
      using sum.shift_bounds_nat_ivl [of "\<lambda>k. G (int k div I) (int k mod I)" 0 "f * n" n] by (simp add: add.commute)
    also have "\<dots> = (\<Sum>i = 0..<n. G (int f) (int i))"
      using I by (intro sum.cong) (auto simp: I(1) simp flip: zdiv_int zmod_int)
    finally show ?thesis by (simp add: lessThan_atLeast0)
  qed
  have "nat (F * I) = nat F * n" using True by (simp add: n_def nat_mult_distrib)
  then show ?thesis
    using sum.nat_group [of "\<lambda>k. G (int k div I) (int k mod I)" n "nat F"] unfolding blk by (simp add: n_def)
next
  case False
  with assms have "F * I \<le> 0" by (simp add: mult_nonpos_nonneg)
  with False show ?thesis by simp
qed

text \<open>What \<open>_check_blocked_operands\<close> accepts: the four inner axes of the three operands fit together.\<close>

lemma blocked_shapes:
  assumes chk: "check_blocked_operands a b acc = Inr ()"
    and len: "length a = 6" "length b = 6" "length acc = 6"
    and pos: "\<forall>n \<in> set a \<union> set b \<union> set acc. 0 < n"
  shows "b ! 4 = a ! 5 \<and> b ! 3 = a ! 2 \<and> acc ! 4 = a ! 4 \<and> acc ! 3 = a ! 3 \<and> acc ! 5 = b ! 5 \<and> acc ! 2 = b ! 2"
proof -
  have gt: "0 < a ! 5" "0 < a ! 4" "0 < b ! 5" using pos len by (auto simp: nth_mem)
  have "b ! 4 = a ! 5" "acc ! 4 = a ! 4" "acc ! 5 = b ! 5" "a ! 2 * a ! 5 = b ! 3 * b ! 4"
      "acc ! 3 * acc ! 4 = a ! 3 * a ! 4" "acc ! 2 * acc ! 5 = b ! 2 * b ! 5"
    using chk len by (auto simp: check_blocked_operands_def Let_def res_bind_Inr_iff blocked_extents_def nth_last_def split: if_splits)
  with gt show ?thesis by auto
qed

definition leads_agree :: "dot_op \<Rightarrow> slab \<Rightarrow> bool" where
  "leads_agree D s \<longleftrightarrow> length (b_shape (d_acc D)) = 6 \<and> length (sl_offsets s) = 6 \<and>
     b_shape (d_a D) ! 1 = b_shape (d_b D) ! 1"

lemma slab_address_inj:
  "length (sl_offsets s) = length xs \<Longrightarrow> length ys = length xs \<Longrightarrow> slab_address \<rho> s xs = slab_address \<rho> s ys \<longleftrightarrow> xs = ys"
  using shift_inj [of xs "map (eval_index \<rho>) (sl_offsets s)" ys] by (auto simp: slab_address_def)

lemma div_in_block:
  fixes x n k :: int
  assumes "0 \<le> x" and "x < n * k" and "0 < k"
  shows "0 \<le> x div k" "x div k < n" "0 \<le> x mod k" "x mod k < k"
proof -
  have "x div k * k \<le> x" using assms(3) div_mult_mod_eq [of x k] pos_mod_sign [of k x] by linarith
  then have "x div k * k < n * k" using assms(2) by linarith
  then show "x div k < n" using assms(3) by simp
qed (use assms in \<open>simp_all add: pos_imp_zdiv_nonneg_iff\<close>)

lemma blocked_contracts:
  fixes m :: "'v :: semiring_0 memory"
  assumes kind: "d_kind D = BlockedDot s" and la: "length (b_shape (d_a D)) = 6" and lb: "length (b_shape (d_b D)) = 6"
    and chk: "check_blocked_operands (b_shape (d_a D)) (b_shape (d_b D)) (b_shape (d_acc D)) = Inr ()"
    and pos: "\<forall>n \<in> set (b_shape (d_a D)) \<union> set (b_shape (d_b D)) \<union> set (b_shape (d_acc D)). 0 < n"
    and lead: "leads_agree D s"
    and ids: "b_id (d_a D) \<noteq> b_id (d_acc D)" "b_id (d_b D) \<noteq> b_id (d_acc D)"
    and p: "0 \<le> p" "p < b_shape (d_a D) ! 0" and q: "0 \<le> q" "q < b_shape (d_b D) ! 0"
    and row: "0 \<le> row" "row < fst (blocked_extents (b_shape (d_a D)))"
    and col: "0 \<le> col" "col < snd (blocked_extents (b_shape (d_b D)))"
  shows "run_dot up \<rho> D m (b_id (d_acc D)) (slab_address \<rho> s (block_index [q, p] (b_shape (d_acc D)) row col)) =
    m (b_id (d_acc D)) (slab_address \<rho> s (block_index [q, p] (b_shape (d_acc D)) row col)) +
    (\<Sum>c<nat (b_shape (d_a D) ! 1). \<Sum>k<nat (snd (blocked_extents (b_shape (d_a D)))).
       up (m (b_id (d_a D)) (block_index [p, int c] (b_shape (d_a D)) row (int k))) *
       up (m (b_id (d_b D)) (block_index [q, int c] (b_shape (d_b D)) (int k) col)))"
proof -
  define a b where "a = b_shape (d_a D)" and "b = b_shape (d_b D)"
  define acc where "acc = b_shape (d_acc D)"
  have len: "length a = 6" "length b = 6" "length acc = 6" "length (sl_offsets s) = 6"
    using la lb lead by (auto simp: a_def b_def acc_def leads_agree_def)
  note sh = blocked_shapes [OF chk [folded a_def b_def acc_def] len(1-3) pos [folded a_def b_def acc_def]]
  have gt: "0 < a ! 5" "0 < a ! 4" "0 < b ! 5" "0 < a ! 2" using pos len by (auto simp: a_def b_def acc_def nth_mem)
  define G where "G = (\<lambda>c f i. up (m (b_id (d_a D)) [p, int c, f, row div a ! 4, row mod a ! 4, i]) *
     up (m (b_id (d_b D)) [q, int c, col div b ! 5, f, i, col mod b ! 5]))"
  define t where "t = [q, p, col div b ! 5, row div a ! 4, row mod a ! 4, col mod b ! 5]"
  have tb: "block_index [q, p] acc row col = t" using len sh by (simp add: block_index_def nth_last_def t_def)
  have rr: "0 \<le> row div a ! 4" "row div a ! 4 < a ! 3" "0 \<le> row mod a ! 4" "row mod a ! 4 < a ! 4"
    using div_in_block [of row "a ! 3" "a ! 4"] row gt len by (simp_all add: blocked_extents_def nth_last_def a_def)
  have cc: "0 \<le> col div b ! 5" "col div b ! 5 < b ! 2" "0 \<le> col mod b ! 5" "col mod b ! 5 < b ! 5"
    using div_in_block [of col "b ! 2" "b ! 5"] col gt len by (simp_all add: blocked_extents_def nth_last_def b_def)
  have "run_dot up \<rho> D m (b_id (d_acc D)) (slab_address \<rho> s t) = m (b_id (d_acc D)) (slab_address \<rho> s t) +
      (\<Sum>c<nat (a ! 1). \<Sum>f<nat (a ! 2). \<Sum>i<nat (a ! 5). G c (int f) (int i))"
    unfolding run_dot_at(1) [OF ids] using kind rr cc p q len
    by (simp add: structured_of_def Let_def block_matmul_op_def slab_address_inj t_def box_sums G_def a_def b_def
        del: box.simps(2))
  also have "(\<Sum>c<nat (a ! 1). \<Sum>f<nat (a ! 2). \<Sum>i<nat (a ! 5). G c (int f) (int i))
      = (\<Sum>c<nat (a ! 1). \<Sum>k<nat (a ! 2 * a ! 5). G c (int k div a ! 5) (int k mod a ! 5))"
    by (intro sum.cong refl sum_blocks [OF gt(1)])
  finally show ?thesis
    using len sh unfolding G_def a_def [symmetric] b_def [symmetric] acc_def [symmetric] tb
    by (simp add: block_index_def nth_last_def blocked_extents_def)
qed

section \<open>Properties\<close>

text \<open>
  C8: one rule covers the four plain contractions and the transposed one, over the values of a semiring: no rounding. Whatever
  ranks \<open>ops.dot\<close> accepts, with the accumulator in another buffer than the operands,
  every element of the accumulator gains the sum, over the contracted axis, of products of \<open>a\<close> along its last
  axis and \<open>b\<close> along its first (its last when \<open>b\<close> is stored transposed); all elements read exist, and no other
  buffer changes.
\<close>

theorem dot_contracts:
  fixes m :: "'v :: semiring_0 memory"
  assumes "dot alive herd a b acc alpha tb dep lib = Inr D" and "\<nexists>s. d_kind D = BlockedDot s"
    and "b_id (d_a D) \<noteq> b_id (d_acc D)" and "b_id (d_b D) \<noteq> b_id (d_acc D)"
    and "p @ q \<in> set (box (b_shape (d_acc D)))" and "Suc (length p) = length (b_shape (d_a D))"
  shows "run_dot up \<rho> D m (b_id (d_acc D)) (p @ q) = m (b_id (d_acc D)) (p @ q) +
      (\<Sum>k<nat (last (b_shape (d_a D))).
         up (m (b_id (d_a D)) (p @ [int k])) * up (m (b_id (d_b D)) (b_index (d_kind D) q (int k)))) \<and>
    (\<forall>k<nat (last (b_shape (d_a D))). p @ [int k] \<in> set (box (b_shape (d_a D))) \<and>
       b_index (d_kind D) q (int k) \<in> set (box (b_shape (d_b D)))) \<and>
    (\<forall>r. r \<noteq> b_id (d_acc D) \<longrightarrow> run_dot up \<rho> D m r = m r)"
proof -
  have "plain_shapes (d_kind D) (b_shape (d_a D)) (b_shape (d_b D)) (b_shape (d_acc D))"
    using dot_parts [OF assms(1)] assms(2) by blast
  from plain_contracts [OF this assms(3-6)] run_dot_at(2) [OF assms(3,4)] show ?thesis by blast
qed

abbreviation tile_of :: "nat \<Rightarrow> int list \<Rightarrow> buffer" where
  "tile_of i shape \<equiv> Buffer i shape i32 None L1 False"

abbreviation dot_of :: "int list \<Rightarrow> int list \<Rightarrow> int list \<Rightarrow> dot_kind \<Rightarrow> dot_op" where
  "dot_of a b acc kind \<equiv> \<lparr>d_kind = kind, d_a = tile_of 0 a, d_b = tile_of 1 b, d_acc = tile_of 2 acc, d_library = None\<rparr>"

abbreviation dot_tiles :: "int list \<Rightarrow> int list \<Rightarrow> int list \<Rightarrow> dot_op res" where
  "dot_tiles a b acc \<equiv> dot (\<lambda>_. True) (Some [index_constant 0, index_constant 0]) (DotBuffer (tile_of 0 a))
     (DotBuffer (tile_of 1 b)) (DotBuffer (tile_of 2 acc)) (NFloat (FFin 1)) False NoDependency NoKernel"

definition ramp :: "int memory" where
  "ramp r t = (if r = 0 then 3 * t ! 0 + t ! 1 + 1 else if r = 1 then t ! 0 + 1 else 100)"

theorem dot_contracts_witness:
  "dot_tiles [2, 3] [3] [2] = Inr (dot_of [2, 3] [3] [2] (NamedDot Matvec)) \<and>
     run_dot id (\<lambda>_. 0) (dot_of [2, 3] [3] [2] (NamedDot Matvec)) ramp 2 [1] = 132"
proof -
  let ?D = "dot_of [2, 3] [3] [2] (NamedDot Matvec)"
  have D: "dot_tiles [2, 3] [3] [2] = Inr ?D"
    by (simp add: dot_def dot_operand_def Buffer_def require_signless_def require_computable_def i32_def alpha_is_one_def
        unblocked_kind_def contractions_def library_call_def)
  have "[1] @ [] \<in> set (box (b_shape (d_acc ?D)))" by (simp add: box_iff Buffer_def del: box.simps)
  from dot_contracts [OF D _ _ _ this, of id "\<lambda>_. 0" ramp] D show ?thesis
    by (simp add: Buffer_def ramp_def b_index_def numeral_3_eq_3)
qed

text \<open>
  C7: the blocked contraction is a matrix product, over the values of a semiring: no rounding. When \<open>ops.dot\<close> accepts
  rank-6 operands in other buffers than the accumulator's, and the leading
  axes agree as \<open>linalg\<close> requires, the element at a row and a column of the accumulator's matrix, on the calling
  core's slab, gains the sum over the whole contracted extent of the products of the row of \<open>a\<close>'s matrix and the
  column of \<open>b\<close>'s, each read where the blocked layout puts it.
\<close>

theorem blocked_dot_is_matrix_product:
  fixes m :: "'v :: semiring_0 memory"
  assumes "dot alive herd a b acc alpha tb dep lib = Inr D" and "d_kind D = BlockedDot s" and "leads_agree D s"
    and "\<forall>n \<in> set (b_shape (d_a D)) \<union> set (b_shape (d_b D)) \<union> set (b_shape (d_acc D)). 0 < n"
    and "b_id (d_a D) \<noteq> b_id (d_acc D)" and "b_id (d_b D) \<noteq> b_id (d_acc D)"
    and "0 \<le> p" "p < b_shape (d_a D) ! 0" and "0 \<le> q" "q < b_shape (d_b D) ! 0"
    and "0 \<le> row" "row < fst (blocked_extents (b_shape (d_a D)))"
    and "0 \<le> col" "col < snd (blocked_extents (b_shape (d_b D)))"
  shows "run_dot up \<rho> D m (b_id (d_acc D)) (slab_address \<rho> s (block_index [q, p] (b_shape (d_acc D)) row col)) =
    m (b_id (d_acc D)) (slab_address \<rho> s (block_index [q, p] (b_shape (d_acc D)) row col)) +
    (\<Sum>c<nat (b_shape (d_a D) ! 1). \<Sum>k<nat (snd (blocked_extents (b_shape (d_a D)))).
       up (m (b_id (d_a D)) (block_index [p, int c] (b_shape (d_a D)) row (int k))) *
       up (m (b_id (d_b D)) (block_index [q, int c] (b_shape (d_b D)) (int k) col)))"
proof -
  have "length (b_shape (d_a D)) = 6" "length (b_shape (d_b D)) = 6"
    "check_blocked_operands (b_shape (d_a D)) (b_shape (d_b D)) (b_shape (d_acc D)) = Inr ()"
    using dot_parts [OF assms(1)] assms(2) by (auto elim: plain_shapes.cases)
  from blocked_contracts [OF assms(2) this assms(4) assms(3) assms(5-14)] show ?thesis .
qed

definition sample_slab :: slab where
  "sample_slab = \<lparr>sl_buffer = 2, sl_offsets = replicate 6 (index_constant 0), sl_sizes = [1, 1, 1, 1, 2, 2]\<rparr>"

theorem blocked_dot_is_matrix_product_witness:
  "dot_tiles [1, 1, 2, 1, 2, 2] [1, 1, 1, 2, 2, 2] [1, 1, 1, 1, 2, 2]
      = Inr (dot_of [1, 1, 2, 1, 2, 2] [1, 1, 1, 2, 2, 2] [1, 1, 1, 1, 2, 2] (BlockedDot sample_slab)) \<and>
   run_dot id (\<lambda>_. 0) (dot_of [1, 1, 2, 1, 2, 2] [1, 1, 1, 2, 2, 2] [1, 1, 1, 1, 2, 2] (BlockedDot sample_slab))
     (\<lambda>_ t. 1 + t ! 2) 2 (slab_address (\<lambda>_. 0) sample_slab [0, 0, 0, 0, 1, 0]) = (7 :: int)"
proof -
  let ?D = "dot_of [1, 1, 2, 1, 2, 2] [1, 1, 1, 2, 2, 2] [1, 1, 1, 1, 2, 2] (BlockedDot sample_slab)"
  let ?m = "\<lambda>(_ :: nat) t. 1 + t ! 2 :: int"
  have D: "dot_tiles [1, 1, 2, 1, 2, 2] [1, 1, 1, 2, 2, 2] [1, 1, 1, 1, 2, 2] = Inr ?D"
    by (simp add: dot_def dot_operand_def Buffer_def require_signless_def require_computable_def i32_def alpha_is_one_def
        check_blocked_operands_def nth_last_def blocked_extents_def accumulator_subview_def library_call_def sample_slab_def
        numeral_eq_Suc Let_def)
  have "run_dot id (\<lambda>_. 0) ?D ?m 2 (slab_address (\<lambda>_. 0) sample_slab (block_index [0, 0] [1, 1, 1, 1, 2, 2] 1 0))
      = ?m 2 (slab_address (\<lambda>_. 0) sample_slab (block_index [0, 0] [1, 1, 1, 1, 2, 2] 1 0)) +
        (\<Sum>c<nat 1. \<Sum>k<nat 4. ?m 0 (block_index [0, int c] [1, 1, 2, 1, 2, 2] 1 (int k)) *
          ?m 1 (block_index [0, int c] [1, 1, 1, 2, 2, 2] (int k) 0))"
    using blocked_dot_is_matrix_product [OF D, of sample_slab 0 0 1 0 id "\<lambda>_. 0" ?m]
    by (simp add: Buffer_def leads_agree_def sample_slab_def blocked_extents_def nth_last_def)
  with D show ?thesis
    by (simp add: block_index_def nth_last_def slab_address_def sample_slab_def numeral_eq_Suc)
qed

end
