(* ===== verification/Channel.thy ===== *)
theory Channel
  imports Data_Transfer
begin

text \<open>
  Named channels: \<^verbatim>\<open>src/python/air/api/_channel.py\<close>, with the part of a module's body that channels and
  kernel declarations share. A channel object is declared in a module on its first use there, at the place its
  construction order gives it; a put or a get names one of its bundle indices. The theory models construction,
  declaration and indexing, and shows as an invariant of every sequence of declarations that a module lists its
  channels in construction order, each once.
\<close>

section \<open>Construction\<close>

datatype dims_arg = DimsNone | DimsInt int | DimsList "int list"

text \<open>\<open>_as_dims\<close>.\<close>

definition as_dims :: "dims_arg \<Rightarrow> int list option res" where
  "as_dims v =
     (case v of
        DimsNone \<Rightarrow> Inr None
      | DimsInt k \<Rightarrow> Inl TypeError
      | DimsList ds \<Rightarrow> if \<exists>d \<in> set ds. d \<le> 0 then Inl ValueError else Inr (Some ds))"

record channel =
  ch_name :: string
  ch_size :: "int list option"
  ch_broadcast :: "int list option"
  ch_type :: "string option"
  ch_attrs :: "string list"
  ch_declared :: "nat option"
  ch_seq :: nat

definition UNSUPPORTED :: "string list" where
  "UNSUPPORTED = [''channel_type'', ''dest'', ''packet_ids'', ''buffer_resources'', ''pad_before'', ''pad_after'']"

definition IMPLEMENTED_TYPES :: "string list" where
  "IMPLEMENTED_TYPES = [''npu_cascade'', ''npu_dma_packet'']"

text \<open>\<open>_reject_unsupported\<close>: the first extra keyword decides.\<close>

definition reject_unsupported :: "string list \<Rightarrow> unit res" where
  "reject_unsupported kwargs =
     (case kwargs of
        [] \<Rightarrow> Inr ()
      | k # _ \<Rightarrow> if k \<in> set UNSUPPORTED then Inl NotImplementedError else Inl TypeError)"

definition check_broadcast :: "int list option \<Rightarrow> int list option \<Rightarrow> unit res" where
  "check_broadcast sz bc =
     (case bc of
        None \<Rightarrow> Inr ()
      | Some bs \<Rightarrow>
          (case sz of
             None \<Rightarrow> Inl ValueError
           | Some ss \<Rightarrow>
               res_bind (res_check (length bs = length ss) ValueError) (\<lambda>_.
                 each_res (\<lambda>(s, b). res_check (b mod s = 0) ValueError) (zip ss bs))))"

text \<open>\<open>Channel.__init__\<close>; a name that is not a string is \<open>None\<close>, and \<open>seq\<close> is the construction counter.\<close>

definition Channel ::
  "string option \<Rightarrow> dims_arg \<Rightarrow> dims_arg \<Rightarrow> string option \<Rightarrow> string list \<Rightarrow> string list \<Rightarrow> nat \<Rightarrow> (channel \<times> nat) res"
where
  "Channel name sz bc ty attrs kwargs seq =
     res_bind (res_check (name \<noteq> None \<and> name \<noteq> Some []) TypeError) (\<lambda>_.
     res_bind (reject_unsupported kwargs) (\<lambda>_.
     res_bind (as_dims sz) (\<lambda>ss.
     res_bind (as_dims bc) (\<lambda>bs.
     res_bind (check_broadcast ss bs) (\<lambda>_.
     res_bind (res_check (ty = None \<or> the ty \<in> set IMPLEMENTED_TYPES) NotImplementedError) (\<lambda>_.
     res_bind (res_check (\<not> (ty = Some ''npu_cascade'' \<and> bc \<noteq> DimsNone)) ValueError) (\<lambda>_.
       Inr (\<lparr>ch_name = the name, ch_size = ss, ch_broadcast = bs, ch_type = ty, ch_attrs = attrs,
             ch_declared = None, ch_seq = seq\<rparr>, seq + 1))))))))"

section \<open>The body of a module\<close>

text \<open>
  The operations of a module's body: channel symbols with what their declaration states, private kernel
  declarations, and the traced function. \<open>_DECLARED_SEQ\<close> maps the symbols declared so far to their index.
\<close>

record chan_decl =
  cd_name :: string
  cd_size :: "int list option"
  cd_broadcast :: "int list option"
  cd_type :: "string option"
  cd_attrs :: "string list"

datatype mod_op = ChannelOp chan_decl | PrivateFunc string | KernelFunc string

record module_state =
  ms_module :: nat
  ms_body :: "mod_op list"
  ms_declared :: "string \<rightharpoonup> nat"

fun first_index :: "('a \<Rightarrow> bool) \<Rightarrow> 'a list \<Rightarrow> nat option" where
  "first_index P [] = None"
| "first_index P (x # xs) = (if P x then Some 0 else map_option Suc (first_index P xs))"

definition last_index :: "('a \<Rightarrow> bool) \<Rightarrow> 'a list \<Rightarrow> nat option" where
  "last_index P xs = map_option (\<lambda>k. length xs - 1 - k) (first_index P (rev xs))"

definition insert_at :: "nat \<Rightarrow> 'a \<Rightarrow> 'a list \<Rightarrow> 'a list" where
  "insert_at i x xs = take i xs @ x # drop i xs"

fun is_channel :: "mod_op \<Rightarrow> bool" where
  "is_channel (ChannelOp d) = True"
| "is_channel _ = False"

fun is_private :: "mod_op \<Rightarrow> bool" where
  "is_private (PrivateFunc f) = True"
| "is_private _ = False"

fun channel_named :: "string \<Rightarrow> mod_op \<Rightarrow> bool" where
  "channel_named n (ChannelOp d) = (cd_name d = n)"
| "channel_named n _ = False"

text \<open>A channel already emitted whose construction index is greater; an unknown symbol counts as \<open>-1\<close>.\<close>

fun is_later :: "(string \<rightharpoonup> nat) \<Rightarrow> nat \<Rightarrow> mod_op \<Rightarrow> bool" where
  "is_later declared seq (ChannelOp d) = (case declared (cd_name d) of None \<Rightarrow> False | Some k \<Rightarrow> seq < k)"
| "is_later declared seq _ = False"

section \<open>Declaration\<close>

text \<open>Where \<open>_declare\<close> inserts: before the first later channel, else after the last channel, else after the kernels.\<close>

definition channel_position :: "module_state \<Rightarrow> nat \<Rightarrow> nat res" where
  "channel_position st seq =
     (let ops = ms_body st in
      case first_index (is_later (ms_declared st) seq) ops of
        Some i \<Rightarrow> Inr i
      | None \<Rightarrow>
          (case last_index is_channel ops of
             Some i \<Rightarrow> if Suc i < length ops then Inr (Suc i) else Inl IndexError
           | None \<Rightarrow> (case last_index is_private ops of None \<Rightarrow> Inr 0 | Some i \<Rightarrow> Inr (Suc i))))"

fun add_attrs :: "string list \<Rightarrow> mod_op \<Rightarrow> mod_op" where
  "add_attrs attrs (ChannelOp d) = ChannelOp (d\<lparr>cd_attrs := attrs\<rparr>)"
| "add_attrs attrs op = op"

text \<open>The unit attributes go on the last channel of that name in the body.\<close>

definition stamp_attrs :: "string \<Rightarrow> string list \<Rightarrow> mod_op list \<Rightarrow> mod_op list" where
  "stamp_attrs name attrs ops =
     (if attrs = [] then ops
      else (case last_index (channel_named name) ops of None \<Rightarrow> ops | Some i \<Rightarrow> ops[i := add_attrs attrs (ops ! i)]))"

definition declare_channel :: "channel \<Rightarrow> module_state \<Rightarrow> (channel \<times> module_state) res" where
  "declare_channel c st =
     (if ch_declared c = Some (ms_module st) then Inr (c, st)
      else
        res_bind (channel_position st (ch_seq c)) (\<lambda>i.
          let op = ChannelOp \<lparr>cd_name = ch_name c, cd_size = ch_size c, cd_broadcast = ch_broadcast c,
                     cd_type = ch_type c, cd_attrs = []\<rparr>;
              body = stamp_attrs (ch_name c) (ch_attrs c) (insert_at i op (ms_body st)) in
          Inr (c\<lparr>ch_declared := Some (ms_module st)\<rparr>,
               st\<lparr>ms_body := body, ms_declared := (ms_declared st)(ch_name c \<mapsto> ch_seq c)\<rparr>)))"

section \<open>Bundle indices\<close>

datatype indices_arg = IndicesNone | IndicesInt int | IndicesList "index_like list"

fun index_list :: "indices_arg \<Rightarrow> index_like list" where
  "index_list IndicesNone = []"
| "index_list (IndicesInt k) = [VInt k]"
| "index_list (IndicesList is) = is"

text \<open>A get of a broadcast names a destination, everything else a source.\<close>

definition index_bounds :: "channel \<Rightarrow> direction \<Rightarrow> int list \<Rightarrow> int list" where
  "index_bounds c dir ss =
     (case ch_broadcast c of
        Some (b # bs) \<Rightarrow> if dir = ChannelGet then b # bs else ss
      | _ \<Rightarrow> ss)"

definition checked_index :: "index_like \<Rightarrow> int \<Rightarrow> index_expr res" where
  "checked_index idx extent =
     res_bind (coerce_index idx) (\<lambda>e.
       (case as_const e of
          Some v \<Rightarrow> if 0 \<le> v \<and> v < extent then Inr e else Inl ValueError
        | None \<Rightarrow> Inr e))"

definition channel_indices :: "channel \<Rightarrow> indices_arg \<Rightarrow> direction \<Rightarrow> index_expr list res" where
  "channel_indices c arg dir =
     (let is = index_list arg in
      if is = [] then Inr []
      else
        (case ch_size c of
           None \<Rightarrow> Inl ValueError
         | Some ss \<Rightarrow>
             if length is \<noteq> length ss then Inl ValueError
             else map_res (\<lambda>(i, n). checked_index i n) (zip is (index_bounds c dir ss))))"

section \<open>Kernel declarations\<close>

text \<open>
  The other symbols of a module body: \<open>air.extern\<close> puts a declaration at the head of the body on a first call,
  or after the declarations already there when its signature is given (\<open>_after_declarations\<close>).
\<close>

definition declare_lazily :: "string \<Rightarrow> module_state \<Rightarrow> module_state" where
  "declare_lazily f st = st\<lparr>ms_body := PrivateFunc f # ms_body st\<rparr>"

definition declare_eagerly :: "string \<Rightarrow> module_state \<Rightarrow> module_state" where
  "declare_eagerly f st =
     st\<lparr>ms_body := insert_at (case last_index is_private (ms_body st) of None \<Rightarrow> 0 | Some i \<Rightarrow> Suc i)
                     (PrivateFunc f) (ms_body st)\<rparr>"

section \<open>Positions\<close>

lemma first_index_None: "first_index P xs = None \<longleftrightarrow> (\<forall>x \<in> set xs. \<not> P x)"
  by (induction xs) auto

lemma first_index_Some:
  "first_index P xs = Some i \<Longrightarrow> i < length xs \<and> P (xs ! i) \<and> (\<forall>x \<in> set (take i xs). \<not> P x)"
  by (induction xs arbitrary: i) (auto split: if_splits)

lemma last_index_None: "last_index P xs = None \<longleftrightarrow> (\<forall>x \<in> set xs. \<not> P x)"
  by (simp add: last_index_def first_index_None)

lemma last_index_Some:
  assumes "last_index P xs = Some i"
  shows "i < length xs \<and> P (xs ! i) \<and> (\<forall>x \<in> set (drop (Suc i) xs). \<not> P x)"
proof -
  obtain k where k: "first_index P (rev xs) = Some k" "i = length xs - 1 - k"
    using assms by (auto simp: last_index_def)
  note f = first_index_Some [OF k(1)]
  have "rev (drop (Suc i) xs) = take k (rev xs)" using f k(2) by (simp add: take_rev Suc_diff_Suc)
  then have "set (drop (Suc i) xs) = set (take k (rev xs))" by (metis set_rev)
  with f k(2) show ?thesis by (auto simp: rev_nth)
qed

lemma insert_at_simps [simp]:
  "set (insert_at i x xs) = insert x (set xs)"
  "length (insert_at i x xs) = Suc (length xs)"
proof -
  have "set xs = set (take i xs) \<union> set (drop i xs)" by (metis append_take_drop_id set_append)
  then show "set (insert_at i x xs) = insert x (set xs)" by (auto simp: insert_at_def)
qed (simp add: insert_at_def)

fun decls :: "mod_op list \<Rightarrow> chan_decl list" where
  "decls [] = []"
| "decls (ChannelOp d # ops) = d # decls ops"
| "decls (op # ops) = decls ops"

lemma decls_append [simp]: "decls (xs @ ys) = decls xs @ decls ys"
  by (induction xs rule: decls.induct) auto

lemma set_decls: "d \<in> set (decls ops) \<longleftrightarrow> ChannelOp d \<in> set ops"
  by (induction ops rule: decls.induct) auto

lemma decls_Nil: "decls ops = [] \<longleftrightarrow> (\<forall>op \<in> set ops. \<not> is_channel op)"
  by (induction ops rule: decls.induct) auto

lemma decls_insert: "decls (insert_at i op ops) = decls (take i ops) @ decls [op] @ decls (drop i ops)"
  using decls_append [of "[op]" "drop i ops"] by (simp add: insert_at_def)

lemma decls_split: "decls ops = decls (take i ops) @ decls (drop i ops)"
  by (simp flip: decls_append)

text \<open>The position leaves every channel that is not later before it and, unless none follows, a later one after.\<close>

lemma channel_position_spec:
  assumes "channel_position st seq = Inr i"
  shows "(\<forall>d \<in> set (decls (take i (ms_body st))). \<not> is_later (ms_declared st) seq (ChannelOp d)) \<and>
    (decls (drop i (ms_body st)) = [] \<or>
     (\<exists>d ds. decls (drop i (ms_body st)) = d # ds \<and> is_later (ms_declared st) seq (ChannelOp d)))"
proof -
  let ?ops = "ms_body st" and ?P = "is_later (ms_declared st) seq"
  show ?thesis
  proof (cases "first_index ?P ?ops")
    case (Some k)
    then have i: "i = k" using assms by (simp add: channel_position_def Let_def)
    note f = first_index_Some [OF Some]
    obtain d where d: "?ops ! k = ChannelOp d" using f by (cases "?ops ! k") auto
    then have "drop k ?ops = ChannelOp d # drop (Suc k) ?ops" using f by (simp add: Cons_nth_drop_Suc [symmetric])
    with d f i show ?thesis by (auto simp: set_decls simp del: is_later.simps)
  next
    case None
    then have no: "\<forall>d \<in> set (decls ?ops). \<not> ?P (ChannelOp d)" by (auto simp: first_index_None set_decls simp del: is_later.simps)
    have "decls (drop i ?ops) = []"
    proof (cases "last_index is_channel ?ops")
      case (Some k)
      with None assms have "i = Suc k" by (auto simp: channel_position_def Let_def split: if_splits)
      with last_index_Some [OF Some] show ?thesis by (simp add: decls_Nil)
    next
      case None
      then have "decls ?ops = []" by (simp add: decls_Nil last_index_None)
      then show ?thesis using decls_split [of ?ops i] by simp
    qed
    with no decls_split [of ?ops i] show ?thesis by auto
  qed
qed

lemma index_before_last:
  "k < length (xs @ [y]) \<Longrightarrow> P ((xs @ [y]) ! k) \<Longrightarrow> \<not> P y \<Longrightarrow> Suc k \<le> length xs"
  by (cases "k = length xs") auto

lemma channel_position_le:
  assumes "channel_position st seq = Inr i" and body: "ms_body st = xs @ [KernelFunc f]"
  shows "i \<le> length xs"
proof (cases "first_index (is_later (ms_declared st) seq) (ms_body st)")
  case (Some k)
  then show ?thesis
    using assms first_index_Some [OF Some] index_before_last [of k xs "KernelFunc f" "is_later (ms_declared st) seq"]
    by (simp add: channel_position_def Let_def del: is_later.simps)
next
  case none: None
  show ?thesis
  proof (cases "last_index is_channel (ms_body st)")
    case (Some k)
    then show ?thesis
      using assms none last_index_Some [OF Some] index_before_last [of k xs "KernelFunc f" is_channel]
      by (simp add: channel_position_def Let_def split: if_splits)
  next
    case nochan: None
    show ?thesis
    proof (cases "last_index is_private (ms_body st)")
      case (Some k)
      then show ?thesis
        using assms none nochan last_index_Some [OF Some] index_before_last [of k xs "KernelFunc f" is_private]
        by (simp add: channel_position_def Let_def)
    qed (use assms none nochan in \<open>simp add: channel_position_def Let_def\<close>)
  qed
qed

text \<open>With the traced function at the end of the body, a position always exists.\<close>

lemma channel_position_total:
  assumes body: "ms_body st = xs @ [KernelFunc f]"
  shows "\<exists>i. channel_position st seq = Inr i"
proof -
  have "Suc k < length (ms_body st)" if "last_index is_channel (ms_body st) = Some k" for k
    using last_index_Some [OF that] index_before_last [of k xs "KernelFunc f" is_channel] body by simp
  then show ?thesis by (auto simp: channel_position_def Let_def split: option.splits)
qed

section \<open>Sequences of declarations\<close>

text \<open>
  The process: the channels constructed so far, the construction counter, and the module being traced. A step
  constructs a channel, opens the next module, declares a channel on its first use there, or declares a kernel.
  Two channels used in one module have two names.
\<close>

record world =
  w_chans :: "channel list"
  w_next :: nat
  w_mod :: module_state

definition fresh_module :: "nat \<Rightarrow> string \<Rightarrow> module_state" where
  "fresh_module i f = \<lparr>ms_module = i, ms_body = [KernelFunc f], ms_declared = Map.empty\<rparr>"

inductive chan_step :: "world \<Rightarrow> world \<Rightarrow> bool" where
  construct: "Channel name sz bc ty attrs kwargs (w_next w) = Inr (c, n) \<Longrightarrow>
     chan_step w (w\<lparr>w_chans := w_chans w @ [c], w_next := n\<rparr>)"
| open_module: "chan_step w (w\<lparr>w_mod := fresh_module (Suc (ms_module (w_mod w))) f\<rparr>)"
| use_channel: "\<lbrakk>i < length (w_chans w); declare_channel (w_chans w ! i) (w_mod w) = Inr (c, st);
      ch_declared (w_chans w ! i) = Some (ms_module (w_mod w)) \<or> ch_name (w_chans w ! i) \<notin> dom (ms_declared (w_mod w))\<rbrakk> \<Longrightarrow>
     chan_step w (w\<lparr>w_chans := (w_chans w)[i := c], w_mod := st\<rparr>)"
| first_call: "chan_step w (w\<lparr>w_mod := declare_lazily f (w_mod w)\<rparr>)"
| with_signature: "chan_step w (w\<lparr>w_mod := declare_eagerly f (w_mod w)\<rparr>)"

inductive_cases chan_stepE: "chan_step w w'"

definition start :: "string \<Rightarrow> world" where
  "start f = \<lparr>w_chans = [], w_next = 0, w_mod = fresh_module 0 f\<rparr>"

text \<open>What a declaration states of its channel.\<close>

definition decl_of :: "channel \<Rightarrow> chan_decl" where
  "decl_of c = \<lparr>cd_name = ch_name c, cd_size = ch_size c, cd_broadcast = ch_broadcast c, cd_type = ch_type c, cd_attrs = ch_attrs c\<rparr>"

definition in_module :: "world \<Rightarrow> channel \<Rightarrow> bool" where
  "in_module w c \<longleftrightarrow> c \<in> set (w_chans w) \<and> ch_declared c = Some (ms_module (w_mod w))"

text \<open>
  The invariant: construction indices are places in the list of channels; the body ends with the function; the
  declared channels, in the order of the body, are those marked for this module, by increasing index.
\<close>

definition order_of :: "module_state \<Rightarrow> chan_decl \<Rightarrow> nat" where
  "order_of st d = the (ms_declared st (cd_name d))"

definition chan_inv :: "world \<Rightarrow> bool" where
  "chan_inv w \<longleftrightarrow>
     map ch_seq (w_chans w) = [0..<length (w_chans w)] \<and> w_next w = length (w_chans w) \<and>
     (\<forall>c \<in> set (w_chans w). \<forall>m. ch_declared c = Some m \<longrightarrow> m \<le> ms_module (w_mod w)) \<and>
     (\<exists>xs f. ms_body (w_mod w) = xs @ [KernelFunc f]) \<and>
     set (decls (ms_body (w_mod w))) = decl_of ` {c. in_module w c} \<and>
     dom (ms_declared (w_mod w)) = ch_name ` {c. in_module w c} \<and>
     (\<forall>c. in_module w c \<longrightarrow> ms_declared (w_mod w) (ch_name c) = Some (ch_seq c)) \<and>
     sorted_wrt (<) (map (order_of (w_mod w)) (decls (ms_body (w_mod w))))"

lemma add_attrs_decl:
  "add_attrs attrs (ChannelOp \<lparr>cd_name = n, cd_size = s, cd_broadcast = b, cd_type = t, cd_attrs = []\<rparr>) =
     ChannelOp \<lparr>cd_name = n, cd_size = s, cd_broadcast = b, cd_type = t, cd_attrs = attrs\<rparr>"
  by simp

lemma last_index_insert_at:
  assumes "\<forall>y \<in> set xs. \<not> P y" and "P x" and "i \<le> length xs"
  shows "last_index P (insert_at i x xs) = Some i"
proof -
  obtain k where k: "last_index P (insert_at i x xs) = Some k"
    using assms(2) last_index_None [of P "insert_at i x xs"] by (cases "last_index P (insert_at i x xs)") auto
  note l = last_index_Some [OF k]
  have "k = i"
  proof (rule ccontr)
    assume "k \<noteq> i"
    then have "insert_at i x xs ! k \<in> set xs"
      using l assms(3) by (auto simp: insert_at_def nth_append nth_Cons' intro!: nth_mem)
    with l assms(1) show False by blast
  qed
  with k show ?thesis by simp
qed

lemma declare_inserts:
  assumes "declare_channel c st = Inr (c', st')" and "ch_declared c \<noteq> Some (ms_module st)"
    and "ms_body st = xs @ [KernelFunc f]" and "\<forall>d \<in> set (decls (ms_body st)). cd_name d \<noteq> ch_name c"
  shows "\<exists>i. channel_position st (ch_seq c) = Inr i \<and> i \<le> length xs \<and> c' = c\<lparr>ch_declared := Some (ms_module st)\<rparr> \<and>
    st' = st\<lparr>ms_body := insert_at i (ChannelOp (decl_of c)) (ms_body st), ms_declared := (ms_declared st)(ch_name c \<mapsto> ch_seq c)\<rparr>"
proof -
  let ?op = "ChannelOp \<lparr>cd_name = ch_name c, cd_size = ch_size c, cd_broadcast = ch_broadcast c, cd_type = ch_type c, cd_attrs = []\<rparr>"
  obtain i where i: "channel_position st (ch_seq c) = Inr i" and c': "c' = c\<lparr>ch_declared := Some (ms_module st)\<rparr>"
    and st': "st' = st\<lparr>ms_body := stamp_attrs (ch_name c) (ch_attrs c) (insert_at i ?op (ms_body st)),
                 ms_declared := (ms_declared st)(ch_name c \<mapsto> ch_seq c)\<rparr>"
    using assms(1,2) by (auto simp: declare_channel_def res_bind_Inr_iff Let_def)
  have le: "i \<le> length xs" using channel_position_le [OF i assms(3)] .
  then have len: "i \<le> length (ms_body st)" using assms(3) by simp
  have "\<not> channel_named (ch_name c) op" if "op \<in> set (ms_body st)" for op
    using that assms(4) by (auto simp: set_decls elim!: channel_named.elims)
  then have "last_index (channel_named (ch_name c)) (insert_at i ?op (ms_body st)) = Some i"
    using len by (intro last_index_insert_at) auto
  moreover have "insert_at i ?op (ms_body st) ! i = ?op" using len by (simp add: insert_at_def nth_append)
  moreover have "(insert_at i ?op (ms_body st))[i := ChannelOp (decl_of c)] = insert_at i (ChannelOp (decl_of c)) (ms_body st)"
    using len by (simp add: insert_at_def list_update_append)
  moreover have "ch_attrs c = [] \<Longrightarrow> ?op = ChannelOp (decl_of c)" by (simp add: decl_of_def)
  moreover have "add_attrs (ch_attrs c) ?op = ChannelOp (decl_of c)" by (simp add: decl_of_def)
  ultimately have "stamp_attrs (ch_name c) (ch_attrs c) (insert_at i ?op (ms_body st)) = insert_at i (ChannelOp (decl_of c)) (ms_body st)"
    by (simp add: stamp_attrs_def del: add_attrs.simps)
  with i c' st' le show ?thesis by simp
qed

lemma inv_names:
  assumes "chan_inv w" and "in_module w c" and "in_module w c'" and "ch_name c = ch_name c'"
  shows "c = c'"
proof -
  have "Some (ch_seq c) = Some (ch_seq c')" using assms unfolding chan_inv_def by metis
  moreover have "distinct (map ch_seq (w_chans w))" using assms(1) by (simp add: chan_inv_def)
  ultimately show ?thesis using assms(2,3) by (auto simp: in_module_def distinct_map inj_on_def)
qed

text \<open>The position \<open>_declare\<close> picks keeps the channels of the body in the order of their indices.\<close>

lemma position_keeps_order:
  assumes k: "channel_position st seq = Inr k" and names: "\<forall>d \<in> set (decls (ms_body st)). cd_name d \<in> dom (ms_declared st)"
    and neq: "\<forall>d \<in> set (decls (ms_body st)). order_of st d \<noteq> seq"
    and srt: "sorted_wrt (<) (map (order_of st) (decls (ms_body st)))"
  shows "sorted_wrt (<) (map (order_of st) (decls (take k (ms_body st))) @ seq # map (order_of st) (decls (drop k (ms_body st))))"
proof -
  let ?ord = "order_of st" and ?bef = "decls (take k (ms_body st))" and ?aft = "decls (drop k (ms_body st))"
  have split: "decls (ms_body st) = ?bef @ ?aft" by (rule decls_split)
  have later: "is_later (ms_declared st) seq (ChannelOp d) \<longleftrightarrow> seq < ?ord d" if "d \<in> set (?bef @ ?aft)" for d
  proof -
    have "cd_name d \<in> dom (ms_declared st)" using names that by (simp only: split)
    then obtain n where "ms_declared st (cd_name d) = Some n" by (auto simp: dom_def)
    then show ?thesis by (simp add: order_of_def)
  qed
  note pos = channel_position_spec [OF k]
  have before: "?ord d < seq" if "d \<in> set ?bef" for d
    using pos later [of d] neq that unfolding split by (metis Un_iff linorder_neqE_nat set_append)
  have after: "seq < ?ord d" if dd: "d \<in> set ?aft" for d
  proof -
    obtain d1 ds1 where d1: "?aft = d1 # ds1" "is_later (ms_declared st) seq (ChannelOp d1)"
      using pos dd by force
    then have "seq < ?ord d1" using later [of d1] by auto
    moreover have "d = d1 \<or> ?ord d1 < ?ord d" using srt dd unfolding split d1(1) by (auto simp: sorted_wrt_append)
    ultimately show ?thesis by auto
  qed
  show ?thesis using srt before after unfolding split by (auto simp: sorted_wrt_append dest: less_trans)
qed

text \<open>A first use in a module keeps the invariant: the new symbol lands where its index belongs.\<close>

lemma use_keeps_order:
  assumes inv: "chan_inv w" and i: "i < length (w_chans w)" and c0: "w_chans w ! i = c"
    and new: "ch_declared c \<noteq> Some (ms_module (w_mod w))" and nm: "ch_name c \<notin> dom (ms_declared (w_mod w))"
    and d: "declare_channel c (w_mod w) = Inr (c', st')"
  shows "chan_inv (w\<lparr>w_chans := (w_chans w)[i := c'], w_mod := st'\<rparr>)"
proof -
  let ?st = "w_mod w" and ?w = "w\<lparr>w_chans := (w_chans w)[i := c'], w_mod := st'\<rparr>"
  let ?ord = "order_of ?st" and ?ds = "decls (ms_body ?st)"
  obtain xs f where body: "ms_body ?st = xs @ [KernelFunc f]" using inv by (auto simp: chan_inv_def)
  have names: "cd_name d' \<in> dom (ms_declared ?st)" if "d' \<in> set ?ds" for d'
    using inv that by (auto simp: chan_inv_def decl_of_def)
  then have fresh: "\<forall>d' \<in> set ?ds. cd_name d' \<noteq> ch_name c" using nm by metis
  obtain k where k: "channel_position ?st (ch_seq c) = Inr k" and kle: "k \<le> length xs"
    and c': "c' = c\<lparr>ch_declared := Some (ms_module ?st)\<rparr>"
    and st': "st' = ?st\<lparr>ms_body := insert_at k (ChannelOp (decl_of c)) (ms_body ?st),
                 ms_declared := (ms_declared ?st)(ch_name c \<mapsto> ch_seq c)\<rparr>"
    using declare_inserts [OF d new body fresh] by blast
  have seqs: "distinct (map ch_seq (w_chans w))" using inv by (simp add: chan_inv_def)
  have mem: "in_module ?w x \<longleftrightarrow> x = c' \<or> in_module w x" for x
  proof -
    have "set ((w_chans w)[i := c']) = insert c' (set (w_chans w) - {c})"
      using i c0 seqs by (auto simp: set_update_distinct distinct_map)
    moreover have "ch_declared c' = Some (ms_module ?st)" by (simp add: c')
    ultimately show ?thesis using new by (auto simp: in_module_def st')
  qed
  have other: "order_of st' d' = ?ord d'" if "d' \<in> set ?ds" for d' using fresh that by (simp add: order_of_def st')
  have ds': "decls (ms_body st') = decls (take k (ms_body ?st)) @ decl_of c # decls (drop k (ms_body ?st))"
    by (simp add: st' decls_insert)
  have split: "?ds = decls (take k (ms_body ?st)) @ decls (drop k (ms_body ?st))" by (rule decls_split)
  have neq: "?ord d' \<noteq> ch_seq c" if dd: "d' \<in> set ?ds" for d'
  proof -
    obtain x where x: "in_module w x" "d' = decl_of x" using inv dd by (auto simp: chan_inv_def)
    have "?ord d' = ch_seq x" using inv x by (auto simp: chan_inv_def order_of_def decl_of_def)
    moreover have "x \<noteq> c" using x new by (auto simp: in_module_def)
    moreover have "x \<in> set (w_chans w)" "c \<in> set (w_chans w)" using x i c0 by (auto simp: in_module_def)
    ultimately show ?thesis using seqs by (auto simp: distinct_map inj_on_def)
  qed
  have "map (order_of st') (decls (ms_body st'))
      = map ?ord (decls (take k (ms_body ?st))) @ ch_seq c # map ?ord (decls (drop k (ms_body ?st)))"
  proof -
    have "\<forall>d' \<in> set (decls (take k (ms_body ?st))) \<union> set (decls (drop k (ms_body ?st))). order_of st' d' = ?ord d'"
      using other by (simp add: split)
    moreover have "order_of st' (decl_of c) = ch_seq c" by (simp add: order_of_def st' decl_of_def)
    ultimately show ?thesis by (simp add: ds')
  qed
  then have srt: "sorted_wrt (<) (map (order_of st') (decls (ms_body st')))"
    using position_keeps_order [OF k] names neq inv by (simp add: chan_inv_def)
  have seqs': "map ch_seq ((w_chans w)[i := c']) = map ch_seq (w_chans w)"
    using i c0 by (simp add: c' map_update) (metis list_update_id nth_map)
  have marked: "{x. in_module ?w x} = insert c' {x. in_module w x}" using mem by blast
  have same: "decl_of c' = decl_of c" "ch_name c' = ch_name c" "ch_seq c' = ch_seq c" by (simp_all add: c' decl_of_def)
  have tail: "\<exists>ys g. ms_body st' = ys @ [KernelFunc g]" using kle by (auto simp: st' body insert_at_def)
  have "set (decls (ms_body st')) = insert (decl_of c) (set ?ds)" using split by (auto simp: ds')
  also have "\<dots> = decl_of ` {x. in_module ?w x}" unfolding marked using inv same by (simp add: chan_inv_def)
  finally have dset: "set (decls (ms_body st')) = decl_of ` {x. in_module ?w x}" .
  have doms: "dom (ms_declared st') = ch_name ` {x. in_module ?w x}"
    unfolding marked using inv same by (simp add: chan_inv_def st')
  have old: "\<forall>x \<in> set ((w_chans w)[i := c']). \<forall>m. ch_declared x = Some m \<longrightarrow> m \<le> ms_module st'"
    using inv set_update_subset_insert [of "w_chans w" i c'] by (fastforce simp: chan_inv_def c' st')
  have "ms_declared st' (ch_name x) = Some (ch_seq x)" if "in_module ?w x" for x
  proof (cases "x = c'")
    case False
    then have x: "in_module w x" using mem that by blast
    then have "ms_declared ?st (ch_name x) = Some (ch_seq x)" using inv unfolding chan_inv_def by blast
    with nm show ?thesis by (auto simp: st')
  qed (simp add: st' same)
  with srt seqs' tail dset doms old inv show ?thesis unfolding chan_inv_def by simp
qed

lemma start_inv: "chan_inv (start f)"
  by (simp add: chan_inv_def start_def fresh_module_def in_module_def)

lemma step_keeps_order:
  assumes "chan_step w w'" and "chan_inv w"
  shows "chan_inv w'"
  using assms(1)
proof cases
  case (construct name sz bc ty attrs kwargs c n)
  then have c: "ch_seq c = w_next w" "n = Suc (w_next w)" "ch_declared c = None"
    by (auto simp: Channel_def res_bind_Inr_iff)
  then have "in_module w' x \<longleftrightarrow> in_module w x" for x by (auto simp: in_module_def construct)
  with c assms(2) show ?thesis by (auto simp: chan_inv_def construct)
next
  case (open_module f)
  have "\<not> in_module w' c" for c
    using assms(2) by (fastforce simp: in_module_def chan_inv_def open_module fresh_module_def)
  with assms(2) show ?thesis by (auto simp: chan_inv_def open_module fresh_module_def intro: le_SucI)
next
  case (use_channel i c st)
  show ?thesis
  proof (cases "ch_declared (w_chans w ! i) = Some (ms_module (w_mod w))")
    case True
    with use_channel have "w' = w" by (cases w) (simp add: declare_channel_def list_update_same_conv)
    with assms(2) show ?thesis by simp
  next
    case False
    with use_channel use_keeps_order [OF assms(2) use_channel(2) refl False] show ?thesis by auto
  qed
next
  case (first_call f)
  then have "in_module w' x \<longleftrightarrow> in_module w x" for x by (simp add: in_module_def declare_lazily_def)
  with assms(2) show ?thesis
    by (auto simp: chan_inv_def first_call declare_lazily_def order_of_def cong: map_cong)
next
  case (with_signature f)
  let ?k = "case last_index is_private (ms_body (w_mod w)) of None \<Rightarrow> 0 | Some i \<Rightarrow> Suc i"
  obtain xs g where body: "ms_body (w_mod w) = xs @ [KernelFunc g]" using assms(2) by (auto simp: chan_inv_def)
  have "?k \<le> length xs"
    using last_index_Some [of is_private "ms_body (w_mod w)"] index_before_last [of _ xs "KernelFunc g" is_private]
    by (auto simp: body split: option.splits)
  then have "\<exists>ys h. insert_at ?k (PrivateFunc f) (ms_body (w_mod w)) = ys @ [KernelFunc h]"
    by (auto simp: body insert_at_def)
  moreover have "decls (insert_at k (PrivateFunc f) ops) = decls ops" for k ops
    using decls_split [of ops k] by (simp add: decls_insert)
  moreover have "in_module w' x \<longleftrightarrow> in_module w x" for x by (simp add: in_module_def declare_eagerly_def with_signature)
  ultimately show ?thesis using assms(2) by (auto simp: chan_inv_def with_signature declare_eagerly_def order_of_def cong: map_cong)
qed

lemma reachable_inv: "chan_step\<^sup>*\<^sup>* (start f) w \<Longrightarrow> chan_inv w"
  by (induction rule: rtranclp_induct) (auto simp: start_inv intro: step_keeps_order)

section \<open>Properties\<close>

text \<open>
  C10: a module lists its channels in construction order, if no two channels used in it share a name. Whatever the order in
  which channels are first used, across any number of modules and with kernel declarations in between, the channel symbols of
  the module being traced are exactly the declarations of the channels used in it, each once, by increasing construction index.
\<close>

theorem channels_in_construction_order:
  assumes "chan_step\<^sup>*\<^sup>* (start f) w"
  shows "\<exists>cs. decls (ms_body (w_mod w)) = map decl_of cs \<and> sorted_wrt (<) (map ch_seq cs) \<and>
    set cs = {c \<in> set (w_chans w). ch_declared c = Some (ms_module (w_mod w))} \<and> distinct (map ch_name cs)"
proof -
  let ?ds = "decls (ms_body (w_mod w))"
  have inv: "chan_inv w" using assms by (rule reachable_inv)
  have "\<forall>d \<in> set ?ds. \<exists>c. in_module w c \<and> decl_of c = d" using inv by (auto simp: chan_inv_def)
  then obtain g where g: "\<And>d. d \<in> set ?ds \<Longrightarrow> in_module w (g d) \<and> decl_of (g d) = d" by metis
  define cs where "cs = map g ?ds"
  have seq: "order_of (w_mod w) (decl_of c) = ch_seq c" if "in_module w c" for c
    using inv that by (auto simp: chan_inv_def order_of_def decl_of_def)
  have "ch_seq (g d) = order_of (w_mod w) d" if "d \<in> set ?ds" for d using seq [of "g d"] g [OF that] by simp
  then have "map ch_seq cs = map (order_of (w_mod w)) ?ds" by (simp add: cs_def)
  then have srt: "sorted_wrt (<) (map ch_seq cs)" using inv by (simp add: chan_inv_def)
  have sub: "in_module w c" if "c \<in> set cs" for c using that g by (auto simp: cs_def)
  have all: "c \<in> set cs" if c: "in_module w c" for c
  proof -
    have d: "decl_of c \<in> set ?ds" using inv c by (auto simp: chan_inv_def)
    then have "ch_name (g (decl_of c)) = ch_name c" using g by (metis chan_decl.select_convs(1) decl_of_def)
    then have "g (decl_of c) = c" using inv_names [OF inv] g [OF d] c by blast
    with d show ?thesis by (force simp: cs_def)
  qed
  have "distinct cs" using srt by (auto simp: strict_sorted_iff distinct_map)
  moreover have "inj_on ch_name (set cs)" using inv_names [OF inv] sub by (auto simp: inj_on_def)
  moreover have "?ds = map decl_of cs" using g by (simp add: cs_def map_idI)
  moreover have "set cs = {c \<in> set (w_chans w). ch_declared c = Some (ms_module (w_mod w))}"
  proof -
    have "c \<in> set cs \<longleftrightarrow> in_module w c" for c using sub all by blast
    then show ?thesis by (simp add: set_eq_iff in_module_def)
  qed
  ultimately show ?thesis using srt by (intro exI [of _ cs]) (simp add: distinct_map)
qed

text \<open>
  C39: a channel can always be put in place. In every reachable state, using any channel whose name is not taken
  by another in the module succeeds, and leaves the module with its declaration; the case in which no operation
  follows the last channel never arises.
\<close>

theorem channel_use_progresses:
  assumes "chan_step\<^sup>*\<^sup>* (start f) w" and "i < length (w_chans w)"
    and "ch_declared (w_chans w ! i) = Some (ms_module (w_mod w)) \<or> ch_name (w_chans w ! i) \<notin> dom (ms_declared (w_mod w))"
  shows "\<exists>c st. declare_channel (w_chans w ! i) (w_mod w) = Inr (c, st) \<and>
    chan_step w (w\<lparr>w_chans := (w_chans w)[i := c], w_mod := st\<rparr>) \<and> ch_declared c = Some (ms_module st) \<and>
    ChannelOp (decl_of c) \<in> set (ms_body st)"
proof -
  let ?c = "w_chans w ! i"
  have inv: "chan_inv w" using assms(1) by (rule reachable_inv)
  then obtain xs g where body: "ms_body (w_mod w) = xs @ [KernelFunc g]" by (auto simp: chan_inv_def)
  obtain k where k: "channel_position (w_mod w) (ch_seq ?c) = Inr k" using channel_position_total [OF body] by blast
  obtain c st where d: "declare_channel ?c (w_mod w) = Inr (c, st)"
    using k by (cases "ch_declared ?c = Some (ms_module (w_mod w))") (simp_all add: declare_channel_def Let_def)
  have st: "ch_declared c = Some (ms_module st)"
    using d by (auto simp: declare_channel_def Let_def res_bind_Inr_iff split: if_splits)
  have step: "chan_step w (w\<lparr>w_chans := (w_chans w)[i := c], w_mod := st\<rparr>)" (is "chan_step w ?w")
    using use_channel [OF assms(2) d assms(3)] .
  have "in_module ?w c" using assms(2) st by (simp add: in_module_def set_update_memI)
  moreover have "chan_inv ?w" using step_keeps_order [OF step inv] .
  ultimately have "decl_of c \<in> set (decls (ms_body st))" by (auto simp: chan_inv_def)
  with d step st show ?thesis by (auto simp: set_decls)
qed

definition two_channels :: world where
  "two_channels = \<lparr>w_chans =
       [\<lparr>ch_name = ''In'', ch_size = None, ch_broadcast = None, ch_type = None, ch_attrs = [], ch_declared = Some 0, ch_seq = 0\<rparr>,
        \<lparr>ch_name = ''Out'', ch_size = Some [2], ch_broadcast = None, ch_type = None, ch_attrs = [], ch_declared = Some 0, ch_seq = 1\<rparr>],
     w_next = 2,
     w_mod = \<lparr>ms_module = 0,
        ms_body = [ChannelOp \<lparr>cd_name = ''In'', cd_size = None, cd_broadcast = None, cd_type = None, cd_attrs = []\<rparr>,
                   ChannelOp \<lparr>cd_name = ''Out'', cd_size = Some [2], cd_broadcast = None, cd_type = None, cd_attrs = []\<rparr>,
                   KernelFunc ''kernel''],
        ms_declared = [''Out'' \<mapsto> 1, ''In'' \<mapsto> 0]\<rparr>\<rparr>"

text \<open>Constructed in one order, used in the other.\<close>

lemma two_channels_reachable: "chan_step\<^sup>*\<^sup>* (start ''kernel'') two_channels"
proof -
  let ?in = "\<lparr>ch_name = ''In'', ch_size = None, ch_broadcast = None, ch_type = None, ch_attrs = [], ch_declared = None, ch_seq = 0\<rparr>"
  let ?out = "\<lparr>ch_name = ''Out'', ch_size = Some [2], ch_broadcast = None, ch_type = None, ch_attrs = [], ch_declared = None, ch_seq = 1\<rparr>"
  let ?st = "\<lparr>ms_module = 0, ms_body = [ChannelOp (decl_of ?out), KernelFunc ''kernel''], ms_declared = [''Out'' \<mapsto> 1]\<rparr>"
  define w0 where "w0 = start ''kernel''"
  define w1 where "w1 = w0\<lparr>w_chans := w_chans w0 @ [?in], w_next := 1\<rparr>"
  define w2 where "w2 = w1\<lparr>w_chans := w_chans w1 @ [?out], w_next := 2\<rparr>"
  define w3 where "w3 = w2\<lparr>w_chans := (w_chans w2)[1 := ?out\<lparr>ch_declared := Some 0\<rparr>], w_mod := ?st\<rparr>"
  have "chan_step w0 w1"
    unfolding w1_def by (rule construct [of "Some ''In''" DimsNone DimsNone None "[]" "[]"])
      (simp add: w0_def Channel_def start_def reject_unsupported_def as_dims_def check_broadcast_def)
  moreover have "chan_step w1 w2"
    unfolding w2_def by (rule construct [of "Some ''Out''" "DimsList [2]" DimsNone None "[]" "[]"])
      (simp add: w0_def w1_def Channel_def start_def reject_unsupported_def as_dims_def check_broadcast_def)
  moreover have "chan_step w2 w3"
    unfolding w3_def by (rule use_channel)
      (simp_all add: w0_def w1_def w2_def start_def fresh_module_def declare_channel_def channel_position_def last_index_def
        insert_at_def stamp_attrs_def Let_def decl_of_def)
  moreover have "chan_step w3 (w3\<lparr>w_chans := (w_chans w3)[0 := ?in\<lparr>ch_declared := Some 0\<rparr>], w_mod := w_mod two_channels\<rparr>)"
    by (rule use_channel)
      (simp_all add: w0_def w1_def w2_def w3_def start_def declare_channel_def channel_position_def last_index_def
        insert_at_def stamp_attrs_def Let_def decl_of_def two_channels_def)
  moreover have "w3\<lparr>w_chans := (w_chans w3)[0 := ?in\<lparr>ch_declared := Some 0\<rparr>], w_mod := w_mod two_channels\<rparr> = two_channels"
    by (simp add: w0_def w1_def w2_def w3_def start_def two_channels_def)
  ultimately have "chan_step\<^sup>*\<^sup>* w0 two_channels"
    by (metis (no_types) converse_rtranclp_into_rtranclp rtranclp.rtrancl_refl)
  then show ?thesis by (simp only: w0_def)
qed

theorem channels_in_construction_order_witness:
  "\<exists>cs. decls (ms_body (w_mod two_channels)) = map decl_of cs \<and> sorted_wrt (<) (map ch_seq cs) \<and> length cs = 2"
proof -
  obtain cs where "decls (ms_body (w_mod two_channels)) = map decl_of cs" "sorted_wrt (<) (map ch_seq cs)"
    using channels_in_construction_order [OF two_channels_reachable] by blast
  moreover from this(1) have "length (decls (ms_body (w_mod two_channels))) = length cs" by simp
  then have "length cs = 2" by (simp add: two_channels_def)
  ultimately show ?thesis by blast
qed

theorem channel_use_progresses_witness:
  "\<exists>c st. declare_channel (w_chans two_channels ! 1) (w_mod two_channels) = Inr (c, st) \<and> ch_declared c = Some (ms_module st)"
  using channel_use_progresses [OF two_channels_reachable, of 1] by (auto simp: two_channels_def)

end
