(* ===== verification/Hierarchy.thy ===== *)
theory Hierarchy
  imports Channel
begin

text \<open>
  The tracing of a launch: \<open>LaunchContext.build\<close> and \<open>_run_body\<close> of \<^verbatim>\<open>src/python/air/api/_compile.py\<close>,
  \<open>open_launch_region\<close>, \<open>in_launch_body\<close>, the segment and herd contexts of \<^verbatim>\<open>src/python/air/api/_trace.py\<close>
  and the placement of channel endpoints in \<^verbatim>\<open>src/python/air/api/_channel.py\<close>. A body is a sequence of calls
  that open nested regions and emit operations where the insertion point is; \<open>air.launch\<close>, \<open>air.segment\<close> and
  \<open>air.herd\<close> are isolated, so every tensor has another value inside each. The theory runs the calls with their
  exceptions and shows where operations end up, that their operands are visible there, and that every path
  restores what it changed.
\<close>

section \<open>State\<close>

text \<open>A region is a kind and a number; a block is the chain of regions around the insertion point, innermost first.\<close>

datatype region_kind = FuncR | LaunchR | SegmentR | HerdR | LoopR

type_synonym block = "(region_kind \<times> nat) list"

text \<open>The value a tensor has in an isolated region is that region's block argument, named by the region's number.\<close>

datatype op_kind = OpLaunch | OpSegment | OpHerd | OpLoop | OpPut | OpGet | OpRtp | OpDma

record placed =
  p_kind :: op_kind
  p_block :: block
  p_uses :: "nat list"

text \<open>\<open>LaunchState\<close>: whether the region was opened, and where to go back to once it is closed.\<close>

record launch_state =
  l_opened :: bool
  l_reentry :: "(block \<times> nat list) option"

record tstate =
  t_block :: block
  t_vals :: "nat list"
  t_launch :: "launch_state option"
  t_seg :: bool
  t_herd :: bool
  t_rtps :: nat
  t_fresh :: nat
  t_ops :: "placed list"
  t_outs :: "nat set"

text \<open>A call ends normally or with an exception; the state is what it is at that moment.\<close>

type_synonym outcome = "tstate \<times> py_error option"

definition and_then :: "outcome \<Rightarrow> (tstate \<Rightarrow> outcome) \<Rightarrow> outcome" where
  "and_then r f = (case r of (s, None) \<Rightarrow> f s | (s, Some e) \<Rightarrow> (s, Some e))"

text \<open>\<open>try: ... finally: ...\<close>\<close>

definition finally_do :: "outcome \<Rightarrow> (tstate \<Rightarrow> tstate) \<Rightarrow> outcome" where
  "finally_do r f = (f (fst r), snd r)"

definition raise_if :: "bool \<Rightarrow> py_error \<Rightarrow> tstate \<Rightarrow> outcome" where
  "raise_if b e s = (s, if b then Some e else None)"

definition emit_op :: "op_kind \<Rightarrow> nat list \<Rightarrow> tstate \<Rightarrow> tstate" where
  "emit_op k uses s = s\<lparr>t_ops := t_ops s @ [\<lparr>p_kind = k, p_block = t_block s, p_uses = uses\<rparr>]\<rparr>"

section \<open>Regions\<close>

text \<open>
  Emitting an isolated op whose operands are the tensors' values: its region gets a number, the tensors are
  bound to its block arguments, the body runs there, and both are undone however the body ends.
\<close>

definition isolated_region :: "op_kind \<Rightarrow> region_kind \<Rightarrow> (tstate \<Rightarrow> tstate) \<Rightarrow> (tstate \<Rightarrow> outcome) \<Rightarrow> tstate \<Rightarrow> outcome" where
  "isolated_region k r enter body s =
     (let s1 = emit_op k (t_vals s) s; i = t_fresh s;
          s2 = enter (s1\<lparr>t_fresh := Suc i, t_block := (r, i) # t_block s, t_vals := map (\<lambda>_. i) (t_vals s)\<rparr>)
      in finally_do (body s2) (\<lambda>s'. s'\<lparr>t_block := t_block s, t_vals := t_vals s\<rparr>))"

text \<open>A loop is not isolated: only the insertion point moves.\<close>

definition loop_call :: "(tstate \<Rightarrow> outcome) \<Rightarrow> tstate \<Rightarrow> outcome" where
  "loop_call body s =
     (let s1 = emit_op OpLoop [] s; i = t_fresh s in
      finally_do (body (s1\<lparr>t_fresh := Suc i, t_block := (LoopR, i) # t_block s\<rparr>)) (\<lambda>s'. s'\<lparr>t_block := t_block s\<rparr>))"

text \<open>
  \<open>_emit_launch\<close> and \<open>open_launch_region\<close>: a repeated launch sits in a loop, and the way back is published once the
  region has closed.
\<close>

definition mark_opened :: "tstate \<Rightarrow> tstate" where
  "mark_opened s = s\<lparr>t_launch := map_option (\<lambda>l. l\<lparr>l_opened := True\<rparr>) (t_launch s)\<rparr>"

definition publish_reentry :: "block \<times> nat list \<Rightarrow> tstate \<Rightarrow> tstate" where
  "publish_reentry home s = s\<lparr>t_launch := map_option (\<lambda>l. l\<lparr>l_reentry := Some home\<rparr>) (t_launch s)\<rparr>"

definition emit_launch :: "(tstate \<Rightarrow> outcome) \<Rightarrow> tstate \<Rightarrow> outcome" where
  "emit_launch body s =
     and_then (isolated_region OpLaunch LaunchR mark_opened body s)
       (\<lambda>s'. (publish_reentry ((LaunchR, t_fresh s) # t_block s, map (\<lambda>_. t_fresh s) (t_vals s)) s', None))"

definition open_launch_region :: "bool \<Rightarrow> (tstate \<Rightarrow> outcome) \<Rightarrow> tstate \<Rightarrow> outcome" where
  "open_launch_region rep body = (if rep then loop_call (emit_launch body) else emit_launch body)"

text \<open>\<open>in_launch_body\<close>: open the launch, stay in it, or step back into it.\<close>

definition in_launch_body :: "(tstate \<Rightarrow> outcome) \<Rightarrow> tstate \<Rightarrow> outcome" where
  "in_launch_body emit s =
     (case t_launch s of
        None \<Rightarrow> (s, Some RuntimeError)
      | Some l \<Rightarrow>
          if \<not> l_opened l then open_launch_region False emit s
          else (case l_reentry l of
                  None \<Rightarrow> emit s
                | Some (blk, vals) \<Rightarrow>
                    finally_do (emit (s\<lparr>t_block := blk, t_vals := vals\<rparr>))
                      (\<lambda>s'. s'\<lparr>t_block := t_block s, t_vals := t_vals s\<rparr>)))"

section \<open>Calls of a body\<close>

text \<open>
  What a body does. A segment and a herd state whether the body's arity fits; a herd also whether its runtime
  parameters were named and how many of its axes are strip-mined. A transfer through a channel names an L3
  tensor, with or without an offset that depends on a coordinate, or a buffer, and says what resolving its
  endpoint and bundle indices raises. \<open>Fails\<close> is any other call of the body that raises.
\<close>

datatype chan_target = OnBuffer | OnTensor nat bool

datatype body_call =
    Segment bool "body_call list"
  | Herd bool bool nat "body_call list"
  | Loop "body_call list"
  | Rtp
  | LoadL3 nat
  | StoreL3 nat
  | Put dependency chan_target "py_error option"
  | Get dependency chan_target "py_error option"
  | Fails py_error

definition emit_segment :: "(tstate \<Rightarrow> outcome) \<Rightarrow> tstate \<Rightarrow> outcome" where
  "emit_segment body s =
     finally_do (isolated_region OpSegment SegmentR (\<lambda>s. s\<lparr>t_seg := True\<rparr>) body s) (\<lambda>s'. s'\<lparr>t_seg := t_seg s\<rparr>)"

text \<open>\<open>SegmentContext._emit\<close>.\<close>

definition segment_call :: "bool \<Rightarrow> (tstate \<Rightarrow> outcome) \<Rightarrow> tstate \<Rightarrow> outcome" where
  "segment_call arity_ok body s =
     and_then (raise_if (\<not> arity_ok) TypeError s) (in_launch_body (emit_segment body))"

text \<open>
  \<open>HerdContext._emit\<close>: with several runtime parameters live, a herd has to name the ones it reads; its body runs
  under one loop for every strip-mined axis.
\<close>

definition emit_herd :: "nat \<Rightarrow> (tstate \<Rightarrow> outcome) \<Rightarrow> tstate \<Rightarrow> outcome" where
  "emit_herd strips body s =
     finally_do (isolated_region OpHerd HerdR (\<lambda>s. s\<lparr>t_herd := True\<rparr>) ((loop_call ^^ strips) body) s)
       (\<lambda>s'. s'\<lparr>t_herd := t_herd s\<rparr>)"

definition herd_call :: "bool \<Rightarrow> bool \<Rightarrow> nat \<Rightarrow> (tstate \<Rightarrow> outcome) \<Rightarrow> tstate \<Rightarrow> outcome" where
  "herd_call arity_ok named strips body s =
     and_then (raise_if (\<not> arity_ok) TypeError s) (\<lambda>s.
     and_then (raise_if (t_launch s = None) RuntimeError s) (\<lambda>s.
     and_then (raise_if (\<not> named \<and> 1 < t_rtps s) RuntimeError s) (emit_herd strips body)))"

definition rtp_call :: "tstate \<Rightarrow> outcome" where
  "rtp_call s = (emit_op OpRtp [] (s\<lparr>t_rtps := Suc (t_rtps s)\<rparr>), None)"

text \<open>Being written from the device is what makes a tensor an output.\<close>

definition mark_output :: "bool \<Rightarrow> nat \<Rightarrow> tstate \<Rightarrow> tstate" where
  "mark_output wr i s = (if wr then s\<lparr>t_outs := insert i (t_outs s)\<rparr> else s)"

definition dma_call :: "bool \<Rightarrow> nat \<Rightarrow> tstate \<Rightarrow> outcome" where
  "dma_call wr i s = (let s = mark_output wr i s in (emit_op OpDma [t_vals s ! i] s, None))"

text \<open>\<open>Channel._emit\<close>, after the declaration of its symbol: where an L3 endpoint may sit, and where it goes.\<close>

definition build_endpoint :: "op_kind \<Rightarrow> nat option \<Rightarrow> py_error option \<Rightarrow> tstate \<Rightarrow> outcome" where
  "build_endpoint k tensor err s =
     (case err of
        Some e \<Rightarrow> (s, Some e)
      | None \<Rightarrow> (emit_op k (case tensor of None \<Rightarrow> [] | Some i \<Rightarrow> [t_vals s ! i]) s, None))"

definition endpoint_call :: "op_kind \<Rightarrow> dependency \<Rightarrow> chan_target \<Rightarrow> py_error option \<Rightarrow> tstate \<Rightarrow> outcome" where
  "endpoint_call k dep target err s =
     and_then (raise_if (check_dependency dep \<noteq> Inr ()) TypeError s) (\<lambda>s.
       (case target of
          OnBuffer \<Rightarrow> build_endpoint k None err s
        | OnTensor i runtime \<Rightarrow>
            and_then (raise_if (t_launch s = None) RuntimeError s) (\<lambda>s.
            and_then (raise_if (t_herd s \<and> \<not> t_seg s) RuntimeError s) (\<lambda>s.
              let s = mark_output (k = OpGet) i s; l = the (t_launch s) in
              if l_opened l \<and> l_reentry l = None then build_endpoint k (Some i) err s
              else and_then (raise_if runtime RuntimeError s) (in_launch_body (build_endpoint k (Some i) err))))))"

fun trace_call :: "body_call \<Rightarrow> tstate \<Rightarrow> outcome" and trace_body :: "body_call list \<Rightarrow> tstate \<Rightarrow> outcome" where
  "trace_call (Segment ok body) = segment_call ok (trace_body body)"
| "trace_call (Herd ok named strips body) = herd_call ok named strips (trace_body body)"
| "trace_call (Loop body) = loop_call (trace_body body)"
| "trace_call Rtp = rtp_call"
| "trace_call (LoadL3 i) = dma_call False i"
| "trace_call (StoreL3 i) = dma_call True i"
| "trace_call (Put dep target err) = endpoint_call OpPut dep target err"
| "trace_call (Get dep target err) = endpoint_call OpGet dep target err"
| "trace_call (Fails e) = (\<lambda>s. (s, Some e))"
| "trace_body [] = (\<lambda>s. (s, None))"
| "trace_body (c # cs) = (\<lambda>s. and_then (trace_call c s) (trace_body cs))"

section \<open>The launch\<close>

text \<open>
  \<open>LaunchContext.build\<close> on a launch with \<open>n\<close> tensors: the function's arguments are the tensors' values in region 0.
  A launch with a grid or a repeat opens its region around the body.
\<close>

record launch_ctx =
  lc_grid :: bool
  lc_repeat :: bool
  lc_tensors :: nat
  lc_arity_ok :: bool
  lc_body :: "body_call list option"

definition func_state :: "nat \<Rightarrow> tstate" where
  "func_state n =
     \<lparr>t_block = [(FuncR, 0)], t_vals = replicate n 0, t_launch = Some \<lparr>l_opened = False, l_reentry = None\<rparr>, t_seg = False,
      t_herd = False, t_rtps = 0, t_fresh = 1, t_ops = [], t_outs = {}\<rparr>"

definition run_body :: "launch_ctx \<Rightarrow> body_call list \<Rightarrow> tstate \<Rightarrow> outcome" where
  "run_body ctx body s =
     and_then (raise_if (\<not> lc_arity_ok ctx) TypeError s)
       (if \<not> lc_grid ctx \<and> \<not> lc_repeat ctx then trace_body body
        else open_launch_region (lc_repeat ctx) (trace_body body))"

text \<open>
  What was current before (\<open>launch\<close>, \<open>seg\<close>, \<open>herd\<close> of the caller) comes back whichever way the body ends.
\<close>

definition build :: "launch_ctx \<Rightarrow> outcome res" where
  "build ctx =
     (case lc_body ctx of
        None \<Rightarrow> Inl RuntimeError
      | Some body \<Rightarrow>
          if lc_tensors ctx = 0 then Inl RuntimeError
          else Inr (finally_do (run_body ctx body (func_state (lc_tensors ctx))) (\<lambda>s. s\<lparr>t_launch := None, t_vals := []\<rparr>)))"

section \<open>Calls that leave the scope as they found it\<close>

text \<open>
  The contract of a call, whether it returns or raises: the insertion point, the tensors' values and the current
  segment and herd are what they were. Every construct that runs a body keeps it when the body does.
\<close>

definition same_scope :: "tstate \<Rightarrow> tstate \<Rightarrow> bool" where
  "same_scope s s' \<longleftrightarrow> t_block s' = t_block s \<and> t_vals s' = t_vals s \<and> t_seg s' = t_seg s \<and> t_herd s' = t_herd s \<and>
     (t_launch s' = None) = (t_launch s = None)"

lemma and_then_if: "and_then r f = (if snd r = None then f (fst r) else r)"
  by (cases r) (auto simp: and_then_def split: option.splits)

lemma finally_simps [simp]: "fst (finally_do r f) = f (fst r)" "snd (finally_do r f) = snd r"
  by (simp_all add: finally_do_def)

lemma finally_returns: "finally_do r f = (s', None) \<longleftrightarrow> (\<exists>s1. r = (s1, None) \<and> s' = f s1)"
  by (cases r) (auto simp: finally_do_def)

lemma raise_if_simps [simp]: "fst (raise_if b e s) = s" "snd (raise_if b e s) = None \<longleftrightarrow> \<not> b"
  "raise_if b e s = (s', None) \<longleftrightarrow> \<not> b \<and> s' = s"
  by (auto simp: raise_if_def)

lemma emit_op_simps [simp]:
  "t_block (emit_op k u s) = t_block s" "t_vals (emit_op k u s) = t_vals s" "t_seg (emit_op k u s) = t_seg s"
  "t_herd (emit_op k u s) = t_herd s" "t_launch (emit_op k u s) = t_launch s" "t_fresh (emit_op k u s) = t_fresh s"
  "t_rtps (emit_op k u s) = t_rtps s" "t_outs (emit_op k u s) = t_outs s"
  "t_ops (emit_op k u s) = t_ops s @ [\<lparr>p_kind = k, p_block = t_block s, p_uses = u\<rparr>]"
  by (simp_all add: emit_op_def)

lemma launch_simps [simp]:
  "t_block (mark_opened s) = t_block s" "t_vals (mark_opened s) = t_vals s" "t_seg (mark_opened s) = t_seg s"
  "t_herd (mark_opened s) = t_herd s" "t_ops (mark_opened s) = t_ops s" "t_fresh (mark_opened s) = t_fresh s"
  "t_launch (mark_opened s) = map_option (\<lambda>l. l\<lparr>l_opened := True\<rparr>) (t_launch s)"
  "t_block (publish_reentry b s) = t_block s" "t_vals (publish_reentry b s) = t_vals s" "t_seg (publish_reentry b s) = t_seg s"
  "t_herd (publish_reentry b s) = t_herd s" "t_ops (publish_reentry b s) = t_ops s"
  "t_launch (publish_reentry b s) = map_option (\<lambda>l. l\<lparr>l_reentry := Some b\<rparr>) (t_launch s)"
  by (simp_all add: mark_opened_def publish_reentry_def)

locale scoped_call =
  fixes call :: "tstate \<Rightarrow> outcome"
  assumes keeps: "same_scope s (fst (call s))"
begin

lemma keeps_simps:
  "t_block (fst (call s)) = t_block s" "t_vals (fst (call s)) = t_vals s" "t_seg (fst (call s)) = t_seg s"
  "t_herd (fst (call s)) = t_herd s" "t_launch (fst (call s)) = None \<longleftrightarrow> t_launch s = None"
  using keeps [of s] by (simp_all add: same_scope_def)

lemma loop_scoped: "scoped_call (loop_call call)"
  by unfold_locales (simp add: same_scope_def loop_call_def Let_def keeps_simps)

lemma launch_scoped: "scoped_call (emit_launch call)"
  by unfold_locales (simp add: same_scope_def emit_launch_def isolated_region_def Let_def and_then_if keeps_simps)

lemma segment_scoped: "scoped_call (emit_segment call)"
  by unfold_locales (simp add: same_scope_def emit_segment_def isolated_region_def Let_def keeps_simps)

end

context scoped_call
begin

lemma strips_scoped: "scoped_call ((loop_call ^^ strips) call)"
  by (induction strips) (simp_all add: scoped_call_axioms scoped_call.loop_scoped)

lemma herd_scoped: "scoped_call (emit_herd strips call)"
  using scoped_call.keeps_simps [OF strips_scoped]
  by unfold_locales (simp add: same_scope_def emit_herd_def isolated_region_def Let_def)

lemma open_launch_scoped: "scoped_call (open_launch_region rep call)"
  using launch_scoped scoped_call.loop_scoped [OF launch_scoped] by (cases rep) (simp_all add: open_launch_region_def)

lemma in_launch_scoped: "scoped_call (in_launch_body call)"
proof
  fix s
  show "same_scope s (fst (in_launch_body call s))"
    using scoped_call.keeps [OF open_launch_scoped [of False], of s]
    by (cases "t_launch s") (simp_all add: in_launch_body_def same_scope_def keeps_simps split: option.split del: not_None_eq)
qed

end

lemma build_endpoint_scoped: "scoped_call (build_endpoint k tensor err)"
  by unfold_locales (simp add: same_scope_def build_endpoint_def split: option.split)

interpretation endpoint: scoped_call "build_endpoint k tensor err" for k tensor err
  by (rule build_endpoint_scoped)

lemma mark_output_simps [simp]:
  "t_block (mark_output w i s) = t_block s" "t_vals (mark_output w i s) = t_vals s" "t_seg (mark_output w i s) = t_seg s"
  "t_herd (mark_output w i s) = t_herd s" "t_launch (mark_output w i s) = t_launch s" "t_ops (mark_output w i s) = t_ops s"
  by (simp_all add: mark_output_def)

lemma endpoint_scoped: "scoped_call (endpoint_call k dep target err)"
proof
  fix s
  have "same_scope s' (fst (in_launch_body (build_endpoint k (Some i) err) s'))" for s' i
    using scoped_call.keeps [OF endpoint.in_launch_scoped] by blast
  then show "same_scope s (fst (endpoint_call k dep target err s))"
    using endpoint.keeps
    by (auto simp: endpoint_call_def and_then_if Let_def same_scope_def split: chan_target.splits)
qed

lemma guarded_scoped:
  assumes "scoped_call f" and "\<And>s. g s = f s \<or> fst (g s) = s"
  shows "scoped_call g"
proof
  fix s show "same_scope s (fst (g s))"
    using assms(2) [of s] scoped_call.keeps [OF assms(1), of s] by (auto simp: same_scope_def)
qed

lemma traced_scoped: "scoped_call (trace_call c)" "scoped_call (trace_body cs)"
proof (induction c and cs rule: trace_call_trace_body.induct)
  case (1 ok body)
  show ?case
    by (rule guarded_scoped [OF scoped_call.in_launch_scoped [OF scoped_call.segment_scoped [OF 1]]])
      (simp add: segment_call_def and_then_if)
next
  case (2 ok named strips body)
  show ?case
    by (rule guarded_scoped [OF scoped_call.herd_scoped [OF 2, of strips]]) (simp add: herd_call_def and_then_if)
next
  case (3 body)
  then show ?case by (simp add: scoped_call.loop_scoped)
next
  case (11 c cs)
  then show ?case by (simp add: scoped_call_def same_scope_def and_then_if)
qed (simp_all add: endpoint_scoped, unfold_locales, simp_all add: same_scope_def rtp_call_def dma_call_def Let_def)

interpretation traced: scoped_call "trace_body cs" for cs
  by (rule traced_scoped)

section \<open>Where operations end up\<close>

text \<open>The number of the innermost isolated region around a point; a loop is not isolated.\<close>

fun isolated_id :: "block \<Rightarrow> nat" where
  "isolated_id [] = 0"
| "isolated_id ((k, i) # b) = (if k = LoopR then isolated_id b else i)"

definition in_launch :: "block \<Rightarrow> bool" where
  "in_launch b \<longleftrightarrow> LaunchR \<in> fst ` set b"

text \<open>
  An operation is well placed when the values it uses are block arguments of the isolated region it sits in and,
  for a segment or an L3 endpoint, when that region is the launch or inside it.
\<close>

definition well_placed :: "placed \<Rightarrow> bool" where
  "well_placed p \<longleftrightarrow> (\<forall>v \<in> set (p_uses p). v = isolated_id (p_block p)) \<and>
     (p_kind p = OpSegment \<or> p_kind p \<in> {OpPut, OpGet} \<and> p_uses p \<noteq> [] \<longrightarrow> in_launch (p_block p))"

definition launches :: "placed list \<Rightarrow> nat" where
  "launches ops = length (filter (\<lambda>p. p_kind p = OpLaunch) ops)"

definition pending :: "tstate \<Rightarrow> bool" where
  "pending s \<longleftrightarrow> (\<exists>l. t_launch s = Some l \<and> l_opened l \<and> l_reentry l = None)"

definition bound_to :: "nat \<Rightarrow> block \<Rightarrow> nat list \<Rightarrow> bool" where
  "bound_to n b vs \<longleftrightarrow> length vs = n \<and> (\<forall>v \<in> set vs. v = isolated_id b)"

definition launch_ok :: "nat \<Rightarrow> tstate \<Rightarrow> bool" where
  "launch_ok n s \<longleftrightarrow> (\<exists>l. t_launch s = Some l \<and> (\<not> l_opened l \<longrightarrow> l_reentry l = None) \<and>
     (\<forall>b vs. l_reentry l = Some (b, vs) \<longrightarrow> in_launch b \<and> bound_to n b vs) \<and>
     launches (t_ops s) = (if l_opened l then 1 else 0)) \<and> (\<forall>p \<in> set (t_ops s). well_placed p)"

definition good :: "nat \<Rightarrow> tstate \<Rightarrow> bool" where
  "good n s \<longleftrightarrow> launch_ok n s \<and> bound_to n (t_block s) (t_vals s) \<and> (pending s \<longrightarrow> in_launch (t_block s))"

lemma launches_append [simp]: "launches (xs @ ys) = launches xs + launches ys"
  by (simp add: launches_def)

lemma in_launch_Cons [simp]: "in_launch ((k, i) # b) \<longleftrightarrow> k = LaunchR \<or> in_launch b"
  by (auto simp: in_launch_def)

lemma bound_fresh: "k \<noteq> LoopR \<Longrightarrow> length vs = n \<Longrightarrow> bound_to n ((k, i) # b) (map (\<lambda>_. i) vs)"
  by (simp add: bound_to_def)

lemma state_ok_cong:
  assumes "t_launch s' = t_launch s" and "t_ops s' = t_ops s"
  shows "launch_ok n s' = launch_ok n s" "pending s' = pending s"
  using assms by (simp_all add: launch_ok_def pending_def)

lemma emit_ok:
  assumes "launch_ok n s" and "k \<noteq> OpLaunch" and "well_placed \<lparr>p_kind = k, p_block = t_block s, p_uses = u\<rparr>"
  shows "launch_ok n (emit_op k u s)"
  using assms by (auto simp: launch_ok_def launches_def)

lemma uses_bound: "bound_to n b vs \<Longrightarrow> k \<notin> {OpSegment, OpPut, OpGet} \<or> in_launch b \<Longrightarrow> well_placed \<lparr>p_kind = k, p_block = b, p_uses = vs\<rparr>"
  by (auto simp: well_placed_def bound_to_def)

definition opened :: "tstate \<Rightarrow> bool" where
  "opened s \<longleftrightarrow> (\<exists>l. t_launch s = Some l \<and> l_opened l)"

text \<open>
  How a call that returns moves between good states: no launch is left open around it, and the launch is
  opened exactly if it was already or the call needs it.
\<close>

definition moves :: "nat \<Rightarrow> bool \<Rightarrow> tstate \<Rightarrow> tstate \<Rightarrow> bool" where
  "moves n needs s s' \<longleftrightarrow> good n s' \<and> (pending s' \<longrightarrow> pending s) \<and> (opened s' \<longleftrightarrow> opened s \<or> needs)"

text \<open>A call for a point inside the launch, and a call for any point.\<close>

locale launched_call = scoped_call +
  fixes n :: nat and needs :: bool
  assumes places_inside: "call s = (s', None) \<Longrightarrow> good n s \<Longrightarrow> in_launch (t_block s) \<Longrightarrow> moves n needs s s'"

locale placing_call = scoped_call +
  fixes n :: nat and needs :: bool
  assumes places: "call s = (s', None) \<Longrightarrow> good n s \<Longrightarrow> moves n needs s s'"

sublocale placing_call \<subseteq> launched_call
  by unfold_locales (rule places)

lemma moved_back:
  assumes "moves n needs s2 s3" and "good n s" and "pending s2 \<longrightarrow> pending s" and "opened s2 = opened s"
    and "t_launch s' = t_launch s3" "t_ops s' = t_ops s3" "t_block s' = t_block s" "t_vals s' = t_vals s"
  shows "moves n needs s s'"
  using assms state_ok_cong(1) [of s' s3 n] state_ok_cong(2) [of s' s3] by (auto simp: moves_def good_def opened_def)

lemma region_entered:
  assumes good: "good n s" and k: "k \<in> {OpSegment, OpHerd}" and seg: "k = OpSegment \<longrightarrow> in_launch (t_block s)" and r: "r \<noteq> LoopR"
    and s2: "t_launch s2 = t_launch s" "t_ops s2 = t_ops (emit_op k (t_vals s) s)"
      "t_block s2 = (r, i) # t_block s" "t_vals s2 = map (\<lambda>_. i) (t_vals s)"
  shows "good n s2" "pending s2 = pending s" "opened s2 = opened s"
proof -
  have vals: "bound_to n (t_block s) (t_vals s)" and ok: "launch_ok n s" and pin: "pending s \<longrightarrow> in_launch (t_block s)"
    using good by (auto simp: good_def)
  have "launch_ok n (emit_op k (t_vals s) s)"
    using k seg by (intro emit_ok [OF ok] uses_bound [OF vals]) auto
  then have "launch_ok n s2" using s2 by (simp add: launch_ok_def)
  then show "good n s2" using s2 vals pin r by (auto simp: good_def pending_def bound_to_def)
qed (use s2 in \<open>simp_all add: pending_def opened_def\<close>)

context placing_call
begin

lemma region_places:
  assumes good: "good n s" and k: "k \<in> {OpSegment, OpHerd}" and seg: "k = OpSegment \<longrightarrow> in_launch (t_block s)" and r: "r \<noteq> LoopR"
    and enter: "\<And>s. t_block (enter s) = t_block s \<and> t_vals (enter s) = t_vals s \<and> t_launch (enter s) = t_launch s \<and> t_ops (enter s) = t_ops s"
    and run: "isolated_region k r enter call s = (s', None)"
  shows "moves n needs s s'"
proof -
  define s2 where "s2 = enter ((emit_op k (t_vals s) s)\<lparr>t_fresh := Suc (t_fresh s), t_block := (r, t_fresh s) # t_block s,
      t_vals := map (\<lambda>_. t_fresh s) (t_vals s)\<rparr>)"
  define s3 where "s3 = fst (call s2)"
  have run': "call s2 = (s3, None)" "s' = s3\<lparr>t_block := t_block s, t_vals := t_vals s\<rparr>"
    using run by (auto simp: isolated_region_def Let_def finally_do_def s2_def s3_def prod_eq_iff)
  have s2: "good n s2" "pending s2 = pending s" "opened s2 = opened s"
    by (rule region_entered [OF good k seg r, of s2 "t_fresh s"]; simp add: s2_def enter)+
  show ?thesis
    by (rule moved_back [OF places [OF run'(1) s2(1)] good]) (simp_all add: s2 run'(2))
qed

lemma segment_places: "launched_call (emit_segment call) n needs"
proof -
  have "moves n needs s s'" if ran: "emit_segment call s = (s', None)" and good: "good n s" and inside: "in_launch (t_block s)" for s s'
  proof -
    obtain s1 where run: "isolated_region OpSegment SegmentR (\<lambda>s. s\<lparr>t_seg := True\<rparr>) call s = (s1, None)"
      and s': "s' = s1\<lparr>t_seg := t_seg s\<rparr>"
      using ran unfolding emit_segment_def finally_returns by blast
    have "moves n needs s s1" by (rule region_places [OF good _ _ _ _ run]) (simp_all add: inside)
    then show ?thesis by (simp add: s' moves_def good_def launch_ok_def pending_def opened_def)
  qed
  then show ?thesis using segment_scoped by (simp add: launched_call_def launched_call_axioms_def)
qed

lemma loop_places: "placing_call (loop_call call) n needs"
proof -
  have "moves n needs s s'" if run: "loop_call call s = (s', None)" and good: "good n s" for s s'
  proof -
    define s2 where "s2 = (emit_op OpLoop [] s)\<lparr>t_fresh := Suc (t_fresh s), t_block := (LoopR, t_fresh s) # t_block s\<rparr>"
    define s3 where "s3 = fst (call s2)"
    have run': "call s2 = (s3, None)" "s' = s3\<lparr>t_block := t_block s\<rparr>"
      using run by (auto simp: loop_call_def Let_def finally_do_def s2_def s3_def prod_eq_iff)
    have "launch_ok n (emit_op OpLoop [] s)"
      using good by (intro emit_ok) (auto simp: good_def well_placed_def)
    then have "good n s2"
      using good by (auto simp: s2_def good_def launch_ok_def pending_def bound_to_def)
    from places [OF run'(1) this] show ?thesis
      by (rule moved_back [OF _ good]) (use keeps_simps(2) [of s2] in \<open>simp_all add: s2_def s3_def run'(2) pending_def opened_def\<close>)
  qed
  then show ?thesis using loop_scoped by (simp add: placing_call_def placing_call_axioms_def)
qed

end

context placing_call
begin

lemma strips_places: "placing_call ((loop_call ^^ strips) call) n needs"
  by (induction strips) (simp_all add: placing_call_axioms placing_call.loop_places)

lemma herd_places: "placing_call (emit_herd strips call) n needs"
proof -
  have "moves n needs s s'" if ran: "emit_herd strips call s = (s', None)" and good: "good n s" for s s'
  proof -
    obtain s1 where run: "isolated_region OpHerd HerdR (\<lambda>s. s\<lparr>t_herd := True\<rparr>) ((loop_call ^^ strips) call) s = (s1, None)"
      and s': "s' = s1\<lparr>t_herd := t_herd s\<rparr>"
      using ran unfolding emit_herd_def finally_returns by blast
    have "moves n needs s s1" by (rule placing_call.region_places [OF strips_places good _ _ _ _ run]) simp_all
    then show ?thesis by (simp add: s' moves_def good_def launch_ok_def pending_def opened_def)
  qed
  then show ?thesis using herd_scoped by (simp add: placing_call_def placing_call_axioms_def)
qed

end

context launched_call
begin

lemma emit_launch_places:
  assumes good: "good n s" and un: "\<not> opened s" and run: "emit_launch call s = (s', None)"
  shows "moves n True s s'"
proof -
  define s2 where "s2 = mark_opened ((emit_op OpLaunch (t_vals s) s)\<lparr>t_fresh := Suc (t_fresh s),
      t_block := (LaunchR, t_fresh s) # t_block s, t_vals := map (\<lambda>_. t_fresh s) (t_vals s)\<rparr>)"
  define s3 where "s3 = fst (call s2)"
  let ?home = "((LaunchR, t_fresh s) # t_block s, map (\<lambda>_. t_fresh s) (t_vals s))"
  have run': "call s2 = (s3, None)" "s' = publish_reentry ?home (s3\<lparr>t_block := t_block s, t_vals := t_vals s\<rparr>)"
    using run by (auto simp: emit_launch_def and_then_if isolated_region_def Let_def finally_do_def s2_def s3_def
        prod_eq_iff split: if_splits)
  have vals: "bound_to n (t_block s) (t_vals s)" using good by (simp add: good_def)
  obtain l where l: "t_launch s = Some l" "\<not> l_opened l" "l_reentry l = None" "launches (t_ops s) = 0" "\<forall>p \<in> set (t_ops s). well_placed p"
    using good un by (auto simp: good_def launch_ok_def opened_def)
  have "launch_ok n s2"
    using l vals by (auto simp: launch_ok_def s2_def launches_def well_placed_def bound_to_def)
  moreover have "pending s2" "opened s2" using l by (simp_all add: pending_def opened_def s2_def)
  ultimately have "good n s2" using vals by (simp add: good_def s2_def bound_to_def)
  from places_inside [OF run'(1) this] have "moves n needs s2 s3" by (simp add: s2_def)
  then obtain l3 where l3: "t_launch s3 = Some l3" "l_opened l3" "launch_ok n s3"
    using \<open>opened s2\<close> by (auto simp: moves_def good_def opened_def)
  show ?thesis
    using l3 vals by (auto simp: run'(2) moves_def opened_def good_def launch_ok_def pending_def bound_to_def)
qed

lemma in_launch_places: "placing_call (in_launch_body call) n True"
proof -
  have "moves n True s s'" if run: "in_launch_body call s = (s', None)" and good: "good n s" for s s'
  proof -
    obtain l where l: "t_launch s = Some l" using good by (auto simp: good_def launch_ok_def)
    consider "\<not> l_opened l" | "l_opened l" "l_reentry l = None" | b vs where "l_opened l" "l_reentry l = Some (b, vs)"
      by (cases "l_reentry l") auto
    then show ?thesis
    proof cases
      case 1
      then show ?thesis using run l emit_launch_places [OF good]
        by (simp add: in_launch_body_def open_launch_region_def opened_def)
    next
      case 2
      then have "call s = (s', None)" "in_launch (t_block s)" "opened s"
        using run l good by (auto simp: in_launch_body_def good_def pending_def opened_def)
      with places_inside [of s s'] good show ?thesis by (simp add: moves_def)
    next
      case (3 b vs)
      define s2 where "s2 = s\<lparr>t_block := b, t_vals := vs\<rparr>"
      define s3 where "s3 = fst (call s2)"
      have run': "call s2 = (s3, None)" "s' = s3\<lparr>t_block := t_block s, t_vals := t_vals s\<rparr>"
        using run l 3 by (auto simp: in_launch_body_def finally_do_def s2_def s3_def prod_eq_iff)
      have "in_launch b" "bound_to n b vs" using good l 3 by (auto simp: good_def launch_ok_def)
      then have "good n s2" "in_launch (t_block s2)" "opened s2"
        using good l 3 by (auto simp: s2_def good_def launch_ok_def opened_def)
      from places_inside [OF run'(1) this(1,2)] \<open>opened s2\<close> have "moves n True s2 s3" by (simp add: moves_def)
      then show ?thesis
        by (rule moved_back [OF _ good]) (simp_all add: s2_def run'(2) pending_def opened_def)
    qed
  qed
  then show ?thesis using in_launch_scoped by (simp add: placing_call_def placing_call_axioms_def)
qed

end

section \<open>A traced body\<close>

text \<open>The tensors a body names are the launch's own.\<close>

fun in_bounds :: "nat \<Rightarrow> body_call \<Rightarrow> bool" where
  "in_bounds n (Segment ok body) \<longleftrightarrow> (\<forall>c \<in> set body. in_bounds n c)"
| "in_bounds n (Herd ok named strips body) \<longleftrightarrow> (\<forall>c \<in> set body. in_bounds n c)"
| "in_bounds n (Loop body) \<longleftrightarrow> (\<forall>c \<in> set body. in_bounds n c)"
| "in_bounds n (LoadL3 i) \<longleftrightarrow> i < n"
| "in_bounds n (StoreL3 i) \<longleftrightarrow> i < n"
| "in_bounds n (Put dep (OnTensor i r) err) \<longleftrightarrow> i < n"
| "in_bounds n (Get dep (OnTensor i r) err) \<longleftrightarrow> i < n"
| "in_bounds n _ \<longleftrightarrow> True"

text \<open>What has to live inside the launch: a segment, or an L3 endpoint.\<close>

fun needs_launch :: "body_call \<Rightarrow> bool" where
  "needs_launch (Segment ok body) \<longleftrightarrow> True"
| "needs_launch (Herd ok named strips body) \<longleftrightarrow> (\<exists>c \<in> set body. needs_launch c)"
| "needs_launch (Loop body) \<longleftrightarrow> (\<exists>c \<in> set body. needs_launch c)"
| "needs_launch (Put dep (OnTensor i r) err) \<longleftrightarrow> True"
| "needs_launch (Get dep (OnTensor i r) err) \<longleftrightarrow> True"
| "needs_launch _ \<longleftrightarrow> False"

lemma placing_callI:
  "scoped_call f \<Longrightarrow> (\<And>s s'. f s = (s', None) \<Longrightarrow> good n s \<Longrightarrow> moves n needs s s') \<Longrightarrow> placing_call f n needs"
  by (simp add: placing_call_def placing_call_axioms_def)

lemma emit_moves:
  assumes "good n s" and "k \<noteq> OpLaunch" and "well_placed \<lparr>p_kind = k, p_block = t_block s, p_uses = u\<rparr>"
  shows "moves n False s (emit_op k u s)"
  using assms emit_ok [of n s k u] by (simp add: moves_def good_def pending_def opened_def)

lemma good_mark_output [simp]: "good n (mark_output w i s) = good n s" "moves n b (mark_output w i s) s' = moves n b s s'"
  by (simp_all add: moves_def good_def launch_ok_def pending_def opened_def mark_output_def)

lemma rtp_places: "placing_call rtp_call n False"
proof (rule placing_callI)
  show "scoped_call rtp_call" by unfold_locales (simp add: same_scope_def rtp_call_def)
  fix s s' assume "rtp_call s = (s', None)" and good: "good n s"
  then have s': "s' = (emit_op OpRtp [] s)\<lparr>t_rtps := Suc (t_rtps s)\<rparr>" by (auto simp: rtp_call_def emit_op_def)
  have "moves n False s (emit_op OpRtp [] s)" by (rule emit_moves [OF good]) (simp_all add: well_placed_def)
  then show "moves n False s s'" by (simp add: s' moves_def good_def launch_ok_def pending_def opened_def)
qed

lemma nth_bound: "bound_to n b vs \<Longrightarrow> i < n \<Longrightarrow> vs ! i = isolated_id b"
  by (simp add: bound_to_def)

lemma dma_places:
  assumes "i < n"
  shows "placing_call (dma_call w i) n False"
proof (rule placing_callI)
  show "scoped_call (dma_call w i)" by unfold_locales (simp add: same_scope_def dma_call_def Let_def)
  fix s s' assume run: "dma_call w i s = (s', None)" and good: "good n s"
  have "moves n False (mark_output w i s) (emit_op OpDma [t_vals s ! i] (mark_output w i s))"
    using good assms by (intro emit_moves) (simp_all add: well_placed_def, auto simp: good_def intro: nth_bound)
  then show "moves n False s s'" using run by (auto simp: dma_call_def Let_def)
qed

lemma build_endpoint_places:
  assumes "i < n" and "k \<in> {OpPut, OpGet}"
  shows "launched_call (build_endpoint k (Some i) err) n False"
proof -
  have "moves n False s s'" if "build_endpoint k (Some i) err s = (s', None)" "good n s" "in_launch (t_block s)" for s s'
  proof -
    have "s' = emit_op k [t_vals s ! i] s" using that(1) by (auto simp: build_endpoint_def split: option.splits)
    moreover have "moves n False s (emit_op k [t_vals s ! i] s)"
      using that assms by (intro emit_moves) (auto simp: well_placed_def good_def dest: nth_bound)
    ultimately show ?thesis by simp
  qed
  then show ?thesis by (simp add: launched_call_def launched_call_axioms_def build_endpoint_scoped)
qed

lemma endpoint_places:
  assumes k: "k \<in> {OpPut, OpGet}" and i: "\<And>i r. target = OnTensor i r \<Longrightarrow> i < n"
  shows "placing_call (endpoint_call k dep target err) n (target \<noteq> OnBuffer)"
proof (rule placing_callI [OF endpoint_scoped])
  fix s s' assume run: "endpoint_call k dep target err s = (s', None)" and good: "good n s"
  show "moves n (target \<noteq> OnBuffer) s s'"
  proof (cases target)
    case OnBuffer
    then have "s' = emit_op k [] s" using run by (auto simp: endpoint_call_def and_then_if build_endpoint_def split: if_splits option.splits)
    moreover have "moves n False s (emit_op k [] s)" using k by (intro emit_moves [OF good]) (auto simp: well_placed_def)
    ultimately show ?thesis by (simp add: OnBuffer)
  next
    case (OnTensor i r)
    define s2 where "s2 = mark_output (k = OpGet) i s"
    have i: "i < n" using i OnTensor by simp
    have g2: "good n s2" using good by (simp add: s2_def)
    have "moves n True s2 s'"
    proof (cases "pending s2")
      case True
      then have "build_endpoint k (Some i) err s2 = (s', None)"
        using run by (auto simp: OnTensor endpoint_call_def and_then_if pending_def s2_def Let_def split: if_splits)
      moreover have "in_launch (t_block s2)" "opened s2" using True g2 by (auto simp: good_def pending_def opened_def)
      ultimately show ?thesis using launched_call.places_inside [OF build_endpoint_places [OF i k] _ g2] by (simp add: moves_def)
    next
      case False
      then have "in_launch_body (build_endpoint k (Some i) err) s2 = (s', None)"
        using run by (auto simp: OnTensor endpoint_call_def and_then_if pending_def s2_def Let_def split: if_splits)
      then show ?thesis
        by (rule placing_call.places [OF launched_call.in_launch_places [OF build_endpoint_places [OF i k]] _ g2])
    qed
    then show ?thesis by (simp add: s2_def OnTensor)
  qed
qed

lemma guarded_places:
  "placing_call f n needs \<Longrightarrow> scoped_call g \<Longrightarrow> (\<And>s s'. g s = (s', None) \<Longrightarrow> f s = (s', None)) \<Longrightarrow> placing_call g n needs"
  using placing_call.places by (blast intro: placing_callI)

lemma needs_endpoint: "needs_launch (Put dep target err) = (target \<noteq> OnBuffer)" "needs_launch (Get dep target err) = (target \<noteq> OnBuffer)"
  by (cases target; simp)+

lemma trace_places:
  "in_bounds n c \<Longrightarrow> placing_call (trace_call c) n (needs_launch c)"
  "\<forall>c \<in> set cs. in_bounds n c \<Longrightarrow> placing_call (trace_body cs) n (\<exists>c \<in> set cs. needs_launch c)"
proof (induction c and cs rule: trace_call_trace_body.induct)
  case (1 ok body)
  then have "placing_call (trace_body body) n (\<exists>c \<in> set body. needs_launch c)" by simp
  then have "placing_call (in_launch_body (emit_segment (trace_body body))) n True"
    by (intro launched_call.in_launch_places placing_call.segment_places)
  then show ?case
    unfolding needs_launch.simps
    by (rule guarded_places [where g = "trace_call (Segment ok body)"])
      (use traced_scoped(1) [of "Segment ok body"] in \<open>auto simp: segment_call_def and_then_if split: if_splits\<close>)
next
  case (2 ok named strips body)
  then have "placing_call (emit_herd strips (trace_body body)) n (\<exists>c \<in> set body. needs_launch c)"
    by (intro placing_call.herd_places) simp
  then show ?case
    unfolding needs_launch.simps
    by (rule guarded_places [where g = "trace_call (Herd ok named strips body)"])
      (use traced_scoped(1) [of "Herd ok named strips body"] in \<open>auto simp: herd_call_def and_then_if split: if_splits\<close>)
next
  case (3 body)
  then show ?case by (simp add: placing_call.loop_places)
next
  case (7 dep target err)
  then show ?case unfolding trace_call.simps needs_endpoint by (intro endpoint_places) auto
next
  case (8 dep target err)
  then show ?case unfolding trace_call.simps needs_endpoint by (intro endpoint_places) auto
next
  case (9 e)
  show ?case by (rule placing_callI) (use traced_scoped(1) [of "Fails e"] in simp_all)
next
  case 10
  show ?case by (rule placing_callI) (use traced_scoped(2) [of "[]"] in \<open>simp_all add: moves_def\<close>)
next
  case (11 c cs)
  then have c: "placing_call (trace_call c) n (needs_launch c)"
    and cs: "placing_call (trace_body cs) n (\<exists>c \<in> set cs. needs_launch c)" by simp_all
  show ?case
  proof (rule placing_callI [OF traced_scoped(2)])
    fix s s' assume run: "trace_body (c # cs) s = (s', None)" and "good n s"
    then obtain s1 where s1: "trace_call c s = (s1, None)" "trace_body cs s1 = (s', None)"
      by (cases "trace_call c s") (auto simp: and_then_def split: option.splits)
    have "moves n (needs_launch c) s s1" by (rule placing_call.places [OF c s1(1) \<open>good n s\<close>])
    moreover from this have "moves n (\<exists>c \<in> set cs. needs_launch c) s1 s'"
      by (intro placing_call.places [OF cs s1(2)]) (simp add: moves_def)
    ultimately show "moves n (\<exists>c \<in> set (c # cs). needs_launch c) s s'" by (auto simp: moves_def)
  qed
qed (simp_all add: rtp_places dma_places)

text \<open>The interface holds of every body, once it names only tensors of the launch.\<close>

interpretation bounded: placing_call "trace_body (filter (in_bounds n) cs)" n "\<exists>c \<in> set (filter (in_bounds n) cs). needs_launch c"
  for n cs
  by (rule trace_places(2)) simp

lemma good_func_state: "good n (func_state n)" "\<not> opened (func_state n)" "\<not> pending (func_state n)"
  by (auto simp: good_def launch_ok_def func_state_def bound_to_def pending_def opened_def launches_def)

lemma open_launch_places:
  assumes "launched_call call n needs" and good: "good n s" and un: "\<not> opened s"
    and run: "open_launch_region rep call s = (s', None)"
  shows "moves n True s s'"
proof (cases rep)
  case True
  define s2 where "s2 = (emit_op OpLoop [] s)\<lparr>t_fresh := Suc (t_fresh s), t_block := (LoopR, t_fresh s) # t_block s\<rparr>"
  obtain s3 where run': "emit_launch call s2 = (s3, None)" "s' = s3\<lparr>t_block := t_block s\<rparr>"
    using run True by (auto simp: open_launch_region_def loop_call_def Let_def finally_returns s2_def)
  have "moves n False s (emit_op OpLoop [] s)" by (rule emit_moves [OF good]) (simp_all add: well_placed_def)
  then have g2: "good n s2" "\<not> opened s2"
    using un by (auto simp: s2_def moves_def good_def launch_ok_def pending_def opened_def bound_to_def)
  have s3: "moves n True s2 s3" by (rule launched_call.emit_launch_places [OF assms(1) g2 run'(1)])
  have "scoped_call (emit_launch call)" using assms(1) by (simp add: launched_call_def scoped_call.launch_scoped)
  then have "t_vals s3 = t_vals s" using scoped_call.keeps_simps(2) [of "emit_launch call" s2] run'(1) by (simp add: s2_def)
  then show ?thesis
    by (intro moved_back [OF s3 good]) (simp_all add: run'(2) s2_def pending_def opened_def)
next
  case False
  then show ?thesis using launched_call.emit_launch_places [OF assms(1) good un] run by (simp add: open_launch_region_def)
qed

lemma run_body_places:
  assumes body: "\<forall>c \<in> set body. in_bounds n c" and run: "run_body ctx body (func_state n) = (s', None)"
  shows "moves n (lc_grid ctx \<or> lc_repeat ctx \<or> (\<exists>c \<in> set body. needs_launch c)) (func_state n) s'"
proof -
  have whole: "filter (in_bounds n) body = body" using body by simp
  show ?thesis
  proof (cases "lc_grid ctx \<or> lc_repeat ctx")
    case True
    then have "open_launch_region (lc_repeat ctx) (trace_body body) (func_state n) = (s', None)"
      using run by (auto simp: run_body_def and_then_if split: if_splits)
    then have "moves n True (func_state n) s'"
      by (rule open_launch_places [OF bounded.launched_call_axioms [of n body, unfolded whole] good_func_state(1,2)])
    then show ?thesis by (simp only: True disj_assoc [symmetric] simp_thms)
  next
    case False
    then have "trace_body body (func_state n) = (s', None)" using run by (auto simp: run_body_def and_then_if split: if_splits)
    from bounded.places [of n body, unfolded whole, OF this good_func_state(1)] False show ?thesis by simp
  qed
qed

section \<open>Properties\<close>

lemma build_returns:
  "build ctx = Inr (s, None) \<Longrightarrow> \<exists>body s'. lc_body ctx = Some body \<and> 0 < lc_tensors ctx \<and>
     run_body ctx body (func_state (lc_tensors ctx)) = (s', None) \<and> s = s'\<lparr>t_launch := None, t_vals := []\<rparr>"
  by (auto simp: build_def finally_returns split: option.splits if_splits)

text \<open>
  C9: when a launch builds whose body names only tensors the launch has, every tensor that an operation uses is the value of the
  isolated region the operation sits in, every segment and every put or get of a tensor sits inside the launch, and the launch is
  emitted once if the launch has a grid or a repeat or its body needs it, and not at all otherwise. The uses that are followed are
  those of tensors; coordinates, bundle indices and L2 buffers are not among them.
\<close>

theorem launch_placement:
  assumes "build ctx = Inr (s, None)" and "lc_body ctx = Some body" and "\<forall>c \<in> set body. in_bounds (lc_tensors ctx) c"
  shows "(\<forall>p \<in> set (t_ops s). well_placed p) \<and>
    launches (t_ops s) = (if lc_grid ctx \<or> lc_repeat ctx \<or> (\<exists>c \<in> set body. needs_launch c) then 1 else 0)"
proof -
  obtain s' where run: "run_body ctx body (func_state (lc_tensors ctx)) = (s', None)" and s: "t_ops s = t_ops s'"
    using build_returns [OF assms(1)] assms(2) by auto
  from run_body_places [OF assms(3) run]
  have m: "launch_ok (lc_tensors ctx) s'" "opened s' \<longleftrightarrow> lc_grid ctx \<or> lc_repeat ctx \<or> (\<exists>c \<in> set body. needs_launch c)"
    by (auto simp: moves_def good_def good_func_state(2))
  show ?thesis
  proof (intro conjI)
    show "\<forall>p \<in> set (t_ops s). well_placed p" using m(1) by (auto simp: launch_ok_def s)
    show "launches (t_ops s) = (if lc_grid ctx \<or> lc_repeat ctx \<or> (\<exists>c \<in> set body. needs_launch c) then 1 else 0)"
      unfolding m(2) [symmetric] using m(1) by (auto simp: launch_ok_def opened_def s)
  qed
qed

text \<open>A gridless launch that feeds a staged herd from L3 before its segment and drains it afterwards.\<close>

definition staged_ctx :: launch_ctx where
  "staged_ctx = \<lparr>lc_grid = False, lc_repeat = False, lc_tensors = 2, lc_arity_ok = True,
     lc_body = Some [Put NoDependency (OnTensor 0 False) None,
       Segment True [Herd True False 1 [Get NoDependency OnBuffer None, Loop [Put NoDependency OnBuffer None]]],
       Get NoDependency (OnTensor 1 False) None]\<rparr>"

lemma staged_builds: "case build staged_ctx of Inl e \<Rightarrow> False | Inr r \<Rightarrow> snd r = None"
  by code_simp

theorem launch_placement_witness:
  "\<exists>s. build staged_ctx = Inr (s, None) \<and> launches (t_ops s) = 1 \<and> list_all well_placed (t_ops s)"
proof -
  obtain s where s: "build staged_ctx = Inr (s, None)"
    using staged_builds by (cases "build staged_ctx") (auto simp: prod_eq_iff)
  have "(\<forall>p \<in> set (t_ops s). well_placed p) \<and> launches (t_ops s) = 1"
    using launch_placement [OF s, of "the (lc_body staged_ctx)"] by (simp add: staged_ctx_def)
  with s show ?thesis by (auto simp: list_all_iff)
qed

text \<open>
  C38: whichever way a body ends, by returning or by an exception raised at any depth, the insertion point, the
  value of every tensor and the current segment and herd are what they were before it.
\<close>

theorem scopes_restored:
  "t_block (fst (trace_body cs s)) = t_block s \<and> t_vals (fst (trace_body cs s)) = t_vals s \<and>
   t_seg (fst (trace_body cs s)) = t_seg s \<and> t_herd (fst (trace_body cs s)) = t_herd s"
  by (simp add: traced.keeps_simps)

text \<open>
  In a gridless launch the way back into the launch stays published while a second segment is open, so an L3 endpoint
  written there, even inside a loop, is emitted once in the launch's block; with a grid it stays in its loop.
\<close>

definition two_segments :: "bool \<Rightarrow> launch_ctx" where
  "two_segments grid = \<lparr>lc_grid = grid, lc_repeat = False, lc_tensors = 1, lc_arity_ok = True,
     lc_body = Some [Segment True [], Segment True [Loop [Put NoDependency (OnTensor 0 False) None]]]\<rparr>"

definition put_blocks :: "launch_ctx \<Rightarrow> block list" where
  "put_blocks ctx = (case build ctx of Inl e \<Rightarrow> [] | Inr r \<Rightarrow> map p_block (filter (\<lambda>p. p_kind p = OpPut) (t_ops (fst r))))"

lemma second_segment_endpoint_escapes:
  "put_blocks (two_segments False) = [[(LaunchR, 1), (FuncR, 0)]]"
  "put_blocks (two_segments True) = [[(LoopR, 4), (SegmentR, 3), (LaunchR, 1), (FuncR, 0)]]"
  by code_simp+

end
