(* ===== verification/Extern.thy ===== *)
theory Extern
  imports Contract Channel Control
begin

text \<open>
  Calls of hand-written kernels: \<^verbatim>\<open>src/python/air/api/_extern.py\<close>. A kernel is a private function of the
  module; a call passes whole buffers, slabs, sub-regions and collapsed views as memrefs and everything else
  as a scalar of a declared type. The theory models the constructor, the passing of each argument and the
  declaration, and shows that a collapsed argument presents the kernel exactly the elements the view reads, in
  the view's own index order, and that a kernel is only ever called with the types it was declared with.
\<close>

section \<open>Regions as memrefs\<close>

text \<open>An argument as the call passes it; a sub-region has unit strides.\<close>

datatype memref_value =
    WholeRef nat
  | SubviewRef nat "index_expr list" "int list"
  | CollapsedRef nat "nat list list" "int list"
  | SlabRef slab

text \<open>\<open>_row_major\<close>: a second spelling of the strides of \<open>_value.py\<close>, by a running product.\<close>

fun row_major :: "int list \<Rightarrow> int list" where
  "row_major [] = []"
| "row_major (n # ns) = prod_list ns # row_major ns"

text \<open>\<open>while acc < extent and axis < len(source)\<close>: the run, its product, and the axes left.\<close>

fun grow_run :: "int \<Rightarrow> int \<Rightarrow> int list \<Rightarrow> nat \<Rightarrow> nat list \<times> int \<times> int list \<times> nat" where
  "grow_run extent acc [] ax = ([], acc, [], ax)"
| "grow_run extent acc (n # ns) ax =
     (if acc < extent then
        let (run, a, rest, ax') = grow_run extent (acc * n) ns (Suc ax) in (ax # run, a, rest, ax')
      else ([], acc, n # ns, ax))"

fun group_axes :: "int list \<Rightarrow> int list \<Rightarrow> nat \<Rightarrow> nat list list res" where
  "group_axes [] source ax = (if source = [] then Inr [] else Inl TypeError)"
| "group_axes (extent # target) source ax =
     (let (run, acc, rest, ax') = grow_run extent 1 source ax in
      if acc \<noteq> extent \<or> run = [] then Inl TypeError
      else res_bind (group_axes target rest ax') (\<lambda>groups. Inr (run # groups)))"

definition collapsed :: "buffer_slice \<Rightarrow> memref_value res" where
  "collapsed v =
     (let source = b_shape (parent v); target = sizes v in
      if list_ex (\<lambda>e. as_const e \<noteq> Some 0) (offsets v) then Inl TypeError
      else if prod_list source \<noteq> prod_list target then Inl TypeError
      else if length source < length target then Inl TypeError
      else if strides v \<noteq> row_major target then Inl TypeError
      else if target = source then Inr (WholeRef (b_id (parent v)))
      else res_bind (group_axes target source 0) (\<lambda>groups. Inr (CollapsedRef (b_id (parent v)) groups target)))"

definition region_value :: "buffer_slice \<Rightarrow> memref_value res" where
  "region_value v = (if is_view v then collapsed v else Inr (SubviewRef (b_id (parent v)) (offsets v) (sizes v)))"

text \<open>\<open>_core_slab\<close>: a shared buffer with a leading axis per herd axis is narrowed to the core's part.\<close>

definition core_slab :: "index_expr list option \<Rightarrow> bool \<Rightarrow> buffer \<Rightarrow> memref_value res" where
  "core_slab herd shared b =
     (if \<not> shared then Inr (WholeRef (b_id b))
      else (case herd of
              None \<Rightarrow> Inl RuntimeError
            | Some coords \<Rightarrow>
                if length (b_shape b) \<le> length coords then Inr (WholeRef (b_id b))
                else res_bind (accumulator_subview herd b) (\<lambda>s. Inr (SlabRef s))))"

section \<open>The meaning of a collapse\<close>

text \<open>
  \<open>memref.collapse_shape\<close>: the element at a source index is at the result index whose entry for each group is the
  row-major position of the group's part of the index.
\<close>

definition linear :: "int list \<Rightarrow> int list \<Rightarrow> int" where
  "linear shape is = sum_list (map2 (*) is (row_major shape))"

definition collapse_index :: "nat list list \<Rightarrow> int list \<Rightarrow> int list \<Rightarrow> int list" where
  "collapse_index groups source is = map (\<lambda>g. linear (map ((!) source) g) (map ((!) is) g)) groups"

text \<open>A grouping of the axes: runs of consecutive axes, none empty, whose extents are the target's.\<close>

definition grouping :: "int list \<Rightarrow> int list \<Rightarrow> nat list list \<Rightarrow> bool" where
  "grouping source target groups \<longleftrightarrow> concat groups = [0..<length source] \<and> [] \<notin> set groups \<and>
     map (\<lambda>g. prod_list (map ((!) source) g)) groups = target"

lemma row_major_strides_eq: "row_major shape = row_major_strides shape"
proof (induction shape rule: row_major_strides.induct)
  case (3 n m ns)
  then show ?case by (simp add: Let_def mult.commute flip: 3)
qed simp_all

lemma length_row_major_ext [simp]: "length (row_major shape) = length shape"
  by (induction shape) simp_all

lemma row_major_append: "row_major (xs @ ys) = map (\<lambda>s. s * prod_list ys) (row_major xs) @ row_major ys"
  by (induction xs) (simp_all add: mult.commute)

lemma linear_append:
  "length is = length xs \<Longrightarrow> linear (xs @ ys) (is @ js) = linear xs is * prod_list ys + linear ys js"
proof -
  assume len: "length is = length xs"
  have "sum_list (map2 (*) is (map (\<lambda>s. s * c) ss)) = sum_list (map2 (*) is ss) * c" for c and ss :: "int list"
    by (induction "is" ss rule: list_induct2') (simp_all add: algebra_simps)
  then show ?thesis using len by (simp add: linear_def row_major_append)
qed

lemma linear_Cons: "linear (n # ns) (i # is) = i * prod_list ns + linear ns is"
  by (simp add: linear_def)

lemma linear_bounds: "list_all2 (\<lambda>i n. 0 \<le> i \<and> i < n) is shape \<Longrightarrow> 0 \<le> linear shape is \<and> linear shape is < prod_list shape"
proof (induction "is" shape rule: list_all2_induct)
  case Nil
  then show ?case by (simp add: linear_def)
next
  case (Cons i "is" n ns)
  then have "0 \<le> prod_list ns" "i + 1 \<le> n" by auto
  then have "(i + 1) * prod_list ns \<le> n * prod_list ns" by (rule mult_right_mono [rotated])
  with Cons show ?case by (simp add: linear_Cons algebra_simps)
qed

text \<open>A collapse moves no element: grouping the index and then taking the position is taking the position.\<close>

lemma collapse_linear:
  assumes "concat groups = [k..<k + length source']" and "source' = drop k source" "k \<le> length source" and "length is = length source"
  shows "linear (map (\<lambda>g. prod_list (map ((!) source) g)) groups) (collapse_index groups source is) = linear source' (drop k is)"
  using assms
proof (induction groups arbitrary: k source')
  case Nil
  have "length source \<le> k" using Nil.prems(1) [symmetric] Nil.prems(2,3) by auto
  with Nil show ?case by (simp add: collapse_index_def linear_def)
next
  case (Cons g gs)
  have app: "g @ concat gs = [k..<length source]" using Cons.prems by simp
  have g: "g = [k..<k + length g]" and gs: "concat gs = [k + length g..<length source]" and le: "k + length g \<le> length source"
  proof -
    have "length g \<le> length source - k" using arg_cong [OF app, of length] by simp
    then show "k + length g \<le> length source" using Cons.prems(3) by simp
    have "g = take (length g) [k..<length source]" using arg_cong [OF app, of "take (length g)"] by simp
    then show "g = [k..<k + length g]" using \<open>k + length g \<le> length source\<close> by (simp add: take_upt)
    have "concat gs = drop (length g) [k..<length source]" using arg_cong [OF app, of "drop (length g)"] by simp
    then show "concat gs = [k + length g..<length source]" by (simp add: add.commute)
  qed
  have part: "map ((!) xs) g = take (length g) (drop k xs)" if "length xs = length source" for xs :: "int list"
    using le that by (subst g, intro nth_equalityI) auto
  have "linear (map (\<lambda>g. prod_list (map ((!) source) g)) gs) (collapse_index gs source is) = linear (drop (k + length g) source) (drop (k + length g) is)"
    using le gs Cons.prems by (intro Cons.IH) simp_all
  moreover have "prod_list (map (\<lambda>g. prod_list (map ((!) source) g)) gs) = prod_list (drop (k + length g) source)"
  proof -
    have "prod_list (map (\<lambda>g. prod_list (map ((!) source) g)) gs) = prod_list (map ((!) source) (concat gs))"
      by (induction gs) simp_all
    also have "map ((!) source) (concat gs) = drop (k + length g) source"
      unfolding gs using le by (intro nth_equalityI) simp_all
    finally show ?thesis .
  qed
  moreover have "linear (take (length g) (drop k source) @ drop (k + length g) source) (take (length g) (drop k is) @ drop (k + length g) is)
      = linear (take (length g) (drop k source)) (take (length g) (drop k is)) * prod_list (drop (k + length g) source)
        + linear (drop (k + length g) source) (drop (k + length g) is)"
    using le Cons.prems by (intro linear_append) simp
  moreover have "take (length g) (drop k xs) @ drop (k + length g) xs = drop k xs" for xs :: "int list"
    by (metis add.commute append_take_drop_id drop_drop)
  ultimately show ?case
    using Cons.prems part [of source] part [of "is"] by (simp add: collapse_index_def linear_Cons)
qed

section \<open>The grouping loop\<close>

lemma grow_run_spec:
  "grow_run extent acc ns ax = (run, a, rest, ax') \<Longrightarrow> ax \<le> ax' \<and> ax' \<le> ax + length ns \<and> run = [ax..<ax'] \<and>
     rest = drop (ax' - ax) ns \<and> a = acc * prod_list (take (ax' - ax) ns)"
proof (induction extent acc ns ax arbitrary: run a rest ax' rule: grow_run.induct)
  case (2 extent acc n ns ax)
  show ?case
  proof (cases "acc < extent")
    case True
    obtain run1 a1 rest1 ax1 where r: "grow_run extent (acc * n) ns (Suc ax) = (run1, a1, rest1, ax1)" by (metis prod_cases4)
    note IH = "2.IH" [OF True r]
    then obtain m where m: "ax1 = Suc (ax + m)" by (metis add_Suc le_Suc_ex)
    then have "[ax..<Suc (ax + m)] = ax # [Suc ax..<Suc (ax + m)]" by (simp add: upt_conv_Cons del: upt_Suc)
    with IH "2.prems" True r show ?thesis by (auto simp: m mult.assoc simp del: upt_Suc)
  qed (use "2.prems" in auto)
qed auto

lemma group_axes_sound:
  assumes "group_axes target (drop ax source) ax = Inr groups" and "ax \<le> length source"
  shows "concat groups = [ax..<length source] \<and> [] \<notin> set groups \<and> map (\<lambda>g. prod_list (map ((!) source) g)) groups = target"
  using assms
proof (induction target arbitrary: ax groups)
  case (Cons extent target)
  obtain run acc rest ax' where g: "grow_run extent 1 (drop ax source) ax = (run, acc, rest, ax')" by (metis prod_cases4)
  from grow_run_spec [OF g] have run: "ax \<le> ax'" "ax' \<le> length source" "run = [ax..<ax']" "rest = drop ax' source"
    "acc = prod_list (take (ax' - ax) (drop ax source))"
    using Cons.prems(2) by auto
  from Cons.prems(1) obtain gs where gs: "group_axes target (drop ax' source) ax' = Inr gs" "groups = run # gs" "acc = extent" "run \<noteq> []"
    by (auto simp: g run(4) res_bind_Inr_iff split: if_splits)
  have "map ((!) source) [ax..<ax'] = take (ax' - ax) (drop ax source)"
    using run(1,2) by (intro nth_equalityI) auto
  with Cons.IH [OF gs(1) run(2)] gs run show ?case by (auto simp: upt_add_eq_append [symmetric] dest: le_Suc_ex)
qed (auto split: if_splits)

lemma grow_run_complete:
  "\<forall>x \<in> set xs. 1 < x \<Longrightarrow> 0 < acc \<Longrightarrow> grow_run (acc * prod_list xs) acc (xs @ ys) ax = ([ax..<ax + length xs], acc * prod_list xs, ys, ax + length xs)"
proof (induction xs arbitrary: acc ax)
  case Nil
  then show ?case by (cases ys) simp_all
next
  case (Cons x xs)
  have "0 < prod_list xs" using Cons.prems(1) by (induction xs) (auto intro: mult_pos_pos)
  then have "acc * 1 < acc * (x * prod_list xs)"
    using Cons.prems by (intro mult_strict_left_mono) (auto intro: order_less_le_trans [of 1 x] simp: mult_le_cancel_left1)
  moreover have "grow_run (acc * x * prod_list xs) (acc * x) (xs @ ys) (Suc ax)
      = ([Suc ax..<Suc ax + length xs], acc * x * prod_list xs, ys, Suc ax + length xs)"
    using Cons.prems by (intro Cons.IH) auto
  moreover have "[ax..<ax + length (x # xs)] = ax # [Suc ax..<Suc ax + length xs]" by (simp add: upt_conv_Cons del: upt_Suc)
  ultimately show ?case by (simp add: mult.assoc del: upt_Suc)
qed

lemma group_axes_complete:
  assumes "concat groups = [ax..<length source]" and "[] \<notin> set groups" and "\<forall>n \<in> set source. 1 < n" and "ax \<le> length source"
  shows "group_axes (map (\<lambda>g. prod_list (map ((!) source) g)) groups) (drop ax source) ax = Inr groups"
  using assms
proof (induction groups arbitrary: ax)
  case Nil
  then show ?case using Nil.prems(1) [symmetric] by auto
next
  case (Cons g gs)
  have app: "g @ concat gs = [ax..<length source]" using Cons.prems by simp
  have "length g \<le> length source - ax" using arg_cong [OF app, of length] by simp
  then have le: "ax + length g \<le> length source" using Cons.prems(4) by simp
  have g: "g = [ax..<ax + length g]" using arg_cong [OF app, of "take (length g)"] le by (simp add: take_upt)
  have gs: "concat gs = [ax + length g..<length source]"
    using arg_cong [OF app, of "drop (length g)"] by (simp add: add.commute)
  have part: "map ((!) source) g = take (length g) (drop ax source)"
    using le by (subst g, intro nth_equalityI) auto
  have split: "drop ax source = take (length g) (drop ax source) @ drop (ax + length g) source"
    by (metis add.commute append_take_drop_id drop_drop)
  have "grow_run (prod_list (map ((!) source) g)) 1 (drop ax source) ax
      = (g, prod_list (map ((!) source) g), drop (ax + length g) source, ax + length g)"
    using grow_run_complete [of "take (length g) (drop ax source)" 1 "drop (ax + length g) source" ax] Cons.prems(3) le
    by (subst split, subst part) (auto simp: g [symmetric] part dest: in_set_takeD in_set_dropD)
  moreover have "group_axes (map (\<lambda>g. prod_list (map ((!) source) g)) gs) (drop (ax + length g) source) (ax + length g) = Inr gs"
    using Cons.prems le gs by (intro Cons.IH) auto
  ultimately show ?case using Cons.prems(2) by auto
qed

section \<open>What the kernel sees\<close>

lemma collapsed_parts:
  "collapsed v = Inr (CollapsedRef i groups target) \<Longrightarrow>
     i = b_id (parent v) \<and> target = sizes v \<and> (\<forall>e \<in> set (offsets v). as_const e = Some 0) \<and>
     strides v = row_major (sizes v) \<and> group_axes (sizes v) (b_shape (parent v)) 0 = Inr groups"
  by (auto simp: collapsed_def Let_def res_bind_Inr_iff list_ex_iff split: if_splits)

lemma addr_linear:
  "length offs = length ns \<Longrightarrow> length is = length ns \<Longrightarrow> \<forall>e \<in> set offs. as_const e = Some 0 \<Longrightarrow>
     addr (zip (map (eval_index \<rho>) offs) (zip ns (row_major ns))) is = linear ns is"
proof (induction ns arbitrary: offs "is")
  case (Cons n ns)
  then obtain e es i js where "offs = e # es" "is = i # js" by (metis length_Suc_conv)
  with Cons show ?case by (auto simp: linear_Cons dest: as_const_sound)
qed (simp add: linear_def)

lemma collapse_index_bounds:
  assumes "\<forall>g \<in> set groups. \<forall>a \<in> set g. a < length source" and "list_all2 (\<lambda>i n. 0 \<le> i \<and> i < n) is source"
  shows "list_all2 (\<lambda>i n. 0 \<le> i \<and> i < n) (collapse_index groups source is) (map (\<lambda>g. prod_list (map ((!) source) g)) groups)"
proof -
  have "list_all2 (\<lambda>i n. 0 \<le> i \<and> i < n) (map ((!) is) g) (map ((!) source) g)" if "g \<in> set groups" for g
    using assms that by (auto simp: list_all2_conv_all_nth)
  then show ?thesis by (auto simp: collapse_index_def list.rel_map list.rel_refl_strong linear_bounds intro!: list.rel_refl_strong)
qed

text \<open>
  C28: a view that is passed to a kernel collapsed groups all the axes of its buffer, in order, into runs whose
  extents are the view's, and the element the kernel finds at an index is the element the view reads there.
\<close>

theorem collapsed_argument_is_the_view:
  assumes wf: "wf_region v" and acc: "collapsed v = Inr (CollapsedRef i groups target)" and "is": "is \<in> set (box (b_shape (parent v)))"
  shows "i = b_id (parent v) \<and> target = sizes v \<and> grouping (b_shape (parent v)) target groups \<and>
    collapse_index groups (b_shape (parent v)) is \<in> set (box target) \<and>
    addr (region_axes \<rho> v) (collapse_index groups (b_shape (parent v)) is) = linear (b_shape (parent v)) is"
proof -
  let ?s = "b_shape (parent v)"
  note p = collapsed_parts [OF acc]
  have g: "grouping ?s (sizes v) groups"
    using group_axes_sound [of "sizes v" 0 ?s groups] p by (auto simp: grouping_def)
  have b: "list_all2 (\<lambda>i n. 0 \<le> i \<and> i < n) is ?s" using "is" by (simp add: box_iff)
  have lt: "\<forall>g \<in> set groups. \<forall>a \<in> set g. a < length ?s"
  proof -
    have "set (concat groups) = set [0..<length ?s]" using g by (simp only: grouping_def)
    then show ?thesis by auto
  qed
  have c: "list_all2 (\<lambda>i n. 0 \<le> i \<and> i < n) (collapse_index groups ?s is) (sizes v)"
    using collapse_index_bounds [OF lt b] g by (simp add: grouping_def)
  have "addr (region_axes \<rho> v) (collapse_index groups ?s is) = linear (sizes v) (collapse_index groups ?s is)"
    using p wf c by (simp add: region_axes_def wf_region_def addr_linear list_all2_lengthD)
  also have "\<dots> = linear ?s is"
    using collapse_linear [of groups 0 ?s ?s "is"] g b by (auto simp: grouping_def list_all2_lengthD)
  finally show ?thesis using p g c by (simp add: box_iff)
qed

text \<open>With no unit axis the loop finds the grouping whenever there is one.\<close>

lemma collapse_accepts:
  assumes "\<forall>e \<in> set (offsets v). as_const e = Some 0" and "strides v = row_major (sizes v)"
    and "grouping (b_shape (parent v)) (sizes v) groups" and "\<forall>n \<in> set (b_shape (parent v)). 1 < n" and "sizes v \<noteq> b_shape (parent v)"
  shows "collapsed v = Inr (CollapsedRef (b_id (parent v)) groups (sizes v))"
proof -
  let ?s = "b_shape (parent v)"
  have g: "concat groups = [0..<length ?s]" "[] \<notin> set groups" "sizes v = map (\<lambda>g. prod_list (map ((!) ?s) g)) groups"
    using assms(3) by (auto simp: grouping_def)
  have "prod_list (sizes v) = prod_list (map ((!) ?s) (concat groups))"
    unfolding g(3) by (induction groups) simp_all
  then have prod: "prod_list ?s = prod_list (sizes v)" by (simp add: g(1) map_nth)
  have "length groups \<le> length (concat groups)"
    using g(2)
  proof (induction groups)
    case (Cons a groups)
    then show ?case by (cases a) auto
  qed simp
  then have "length (sizes v) \<le> length ?s" by (simp add: g(1)) (simp add: g(3))
  moreover have "group_axes (sizes v) ?s 0 = Inr groups"
    using group_axes_complete [of groups 0 ?s] g assms(4) by simp
  ultimately show ?thesis using assms prod by (auto simp: collapsed_def Let_def list_ex_iff)
qed

text \<open>A unit axis is a grouping of its own, but the loop never enters a run for it.\<close>

definition unit_tile :: buffer where "unit_tile = Buffer 0 [1, 4, 8] bf16 None L1 False"

definition unit_view :: buffer_slice where
  "unit_view = mk_slice unit_tile (map index_constant [0, 0]) [1, 32] [32, 1] None True None"

lemma unit_axis_refused:
  "collapsed unit_view = Inl TypeError" "grouping (b_shape unit_tile) (sizes unit_view) [[0], [1, 2]]"
  by code_simp+

definition flat_view :: buffer_slice where
  "flat_view = mk_slice (Buffer 3 [2, 3, 4] bf16 None L1 False) (map index_constant [0, 0]) [6, 4] [4, 1] None True None"

theorem collapsed_argument_is_the_view_witness:
  "collapsed flat_view = Inr (CollapsedRef 3 [[0, 1], [2]] [6, 4]) \<and>
   addr (region_axes (\<lambda>_. 0) flat_view) (collapse_index [[0, 1], [2]] [2, 3, 4] [1, 2, 3]) = linear [2, 3, 4] [1, 2, 3]"
proof -
  have c: "collapsed flat_view = Inr (CollapsedRef 3 [[0, 1], [2]] [6, 4])" by code_simp
  have wf: "wf_region flat_view" by (simp add: flat_view_def wf_region_def mk_slice_def index_constant_def mk_index_def)
  have s: "b_shape (parent flat_view) = [2, 3, 4]" by (simp add: flat_view_def mk_slice_def Buffer_def)
  have "[1, 2, 3] \<in> set (box (b_shape (parent flat_view)))" unfolding s box_iff by simp
  from collapsed_argument_is_the_view [OF wf c this, of "\<lambda>_. 0"] c show ?thesis by (simp only: s simp_thms)
qed

section \<open>Scalars\<close>

text \<open>
  The arguments of a call: a buffer, with whether it is shared; a region; an elementwise expression; a runtime
  parameter; a comparison; an index expression; an SSA value and its printed type; a number; a symbol.
\<close>

datatype extern_arg =
    ArgBuffer buffer bool
  | ArgRegion buffer_slice
  | ArgExpr bexpr
  | ArgRtp nat
  | ArgCond condition
  | ArgIndex index_expr
  | ArgSsa string nat
  | ArgNum numeric
  | ArgSymbol int
  | ArgOther

datatype scalar_operand =
    ElementOf ir
  | ParamOf nat
  | FlagOf dtype condition
  | CastOf dtype index_expr
  | SsaOf nat
  | ConstOf dtype numeric

text \<open>What the call relies on of the bindings: how the type of each kind of operand prints.\<close>

record mlir_types =
  type_of :: "dtype \<Rightarrow> string"
  type_of_buffer :: "buffer \<Rightarrow> string"
  type_of_subview :: "buffer \<Rightarrow> index_expr list \<Rightarrow> int list \<Rightarrow> string"
  type_of_collapse :: "buffer \<Rightarrow> int list \<Rightarrow> string"

fun is_memref_arg :: "extern_arg \<Rightarrow> bool" where
  "is_memref_arg (ArgBuffer b shared) = True"
| "is_memref_arg (ArgRegion v) = (slice_shape v \<noteq> [])"
| "is_memref_arg _ = False"

text \<open>\<open>emit_scalar_value\<close> of \<^verbatim>\<open>src/python/air/api/_emit.py\<close>: one value, loaded and evaluated where it is used.\<close>

definition emit_scalar_value :: "bexpr \<Rightarrow> dtype \<Rightarrow> ir res" where
  "emit_scalar_value e d =
     (case expr_shape e of
        None \<Rightarrow> Inl TypeError
      | Some shape \<Rightarrow>
        if shape \<noteq> [] then Inl ValueError
        else let env = \<lparr>ne_shape = [], ne_ivs = [], ne_zero = zero_index_if (pins_for e []), ne_lanes = None,
                   ne_regions = regions_in e (Some d) [], ne_repack = False\<rparr>
        in res_bind (eval_node env d e []) (\<lambda>(v, _). Inr v))"

text \<open>A number as a constant of a declared type.\<close>

definition number_as :: "dtype \<Rightarrow> numeric \<Rightarrow> scalar_operand res" where
  "number_as d n =
     (if is_float d then Inr (ConstOf d (NFloat (py_float_of n)))
      else (case n of
              NFloat x \<Rightarrow> if float_is_integer x then res_bind (py_int n) (\<lambda>k. Inr (ConstOf d (NInt k))) else Inl ValueError
            | _ \<Rightarrow> res_bind (py_int n) (\<lambda>k. Inr (ConstOf d (NInt k)))))"

definition element_value :: "bexpr \<Rightarrow> dtype \<Rightarrow> scalar_operand res" where
  "element_value e d =
     (if element_dtype e \<noteq> Some d then Inl TypeError
      else res_bind (require_signless d) (\<lambda>_. res_bind (emit_scalar_value e d) (\<lambda>v. Inr (ElementOf v))))"

fun scalar_value :: "'m mlir_types_scheme \<Rightarrow> extern_arg \<Rightarrow> dtype \<Rightarrow> scalar_operand res" where
  "scalar_value A (ArgRtp k) d = (if d \<noteq> i32 then Inl TypeError else Inr (ParamOf k))"
| "scalar_value A (ArgExpr e) d = element_value e d"
| "scalar_value A (ArgRegion v) d = res_bind (coerce_expr (OSlice v)) (\<lambda>e. element_value e d)"
| "scalar_value A (ArgCond c) d = (if is_float d then Inl TypeError else Inr (FlagOf d c))"
| "scalar_value A (ArgIndex e) d =
     (if terms e = [] then number_as d (NInt (const e))
      else if is_float d then Inl TypeError else Inr (CastOf d e))"
| "scalar_value A (ArgSsa ty k) d = (if ty = type_of A d then Inr (SsaOf k) else Inl TypeError)"
| "scalar_value A (ArgNum n) d = number_as d n"
| "scalar_value A (ArgSymbol k) d = (if is_float d then Inl TypeError else number_as d (NInt k))"
| "scalar_value A _ d = Inl TypeError"

section \<open>Declarations and calls\<close>

datatype sig_entry = SigDtype dtype | SigType string

fun is_memref_type :: "sig_entry \<Rightarrow> bool" where
  "is_memref_type (SigDtype d) = False"
| "is_memref_type (SigType s) = (take 7 s = ''memref<'')"

fun declared_type :: "'m mlir_types_scheme \<Rightarrow> sig_entry \<Rightarrow> string" where
  "declared_type A (SigDtype d) = type_of A d"
| "declared_type A (SigType s) = s"

fun scalar_dtype :: "'m mlir_types_scheme \<Rightarrow> sig_entry \<Rightarrow> dtype res" where
  "scalar_dtype A (SigDtype d) = Inr d"
| "scalar_dtype A (SigType s) =
     (case find (\<lambda>d. type_of A d = s) SCALAR_TYPES of None \<Rightarrow> Inl TypeError | Some d \<Rightarrow> Inr d)"

record extern_kernel =
  ek_name :: string
  ek_link :: string
  ek_scalars :: "dtype list"
  ek_interface :: bool
  ek_link_mode :: "string option"
  ek_types :: "string list option"

definition declare_now :: "'m mlir_types_scheme \<Rightarrow> sig_entry list \<Rightarrow> extern_kernel \<Rightarrow> module_state option \<Rightarrow> (extern_kernel \<times> module_state option) res" where
  "declare_now A sig k st =
     (case st of
        None \<Rightarrow> Inl RuntimeError
      | Some m \<Rightarrow> Inr (k\<lparr>ek_types := Some (map (declared_type A) sig)\<rparr>, Some (declare_eagerly (ek_name k) m)))"

definition Extern ::
  "'m mlir_types_scheme \<Rightarrow> string option \<Rightarrow> string option \<Rightarrow> dtype option list \<Rightarrow> sig_entry list option \<Rightarrow> bool \<Rightarrow>
   string option \<Rightarrow> module_state option \<Rightarrow> (extern_kernel \<times> module_state option) res"
where
  "Extern A name link scalars sig cif mode st =
     (if name = None \<or> name = Some [] then Inl TypeError
      else if link = None \<or> link = Some [] then Inl ValueError
      else
        res_bind (each_res (\<lambda>s. case s of
            None \<Rightarrow> Inl TypeError
          | Some d \<Rightarrow> res_bind (require_signless d) (\<lambda>_. require_computable d)) scalars) (\<lambda>_.
        let k = \<lparr>ek_name = the name, ek_link = the link, ek_scalars = map the scalars, ek_interface = cif,
                 ek_link_mode = mode, ek_types = None\<rparr>
        in (case sig of
              None \<Rightarrow> Inr (k, st)
            | Some entries \<Rightarrow>
                res_bind (map_res (scalar_dtype A) (filter (\<lambda>t. \<not> is_memref_type t) entries)) (\<lambda>derived.
                if scalars \<noteq> [] \<and> map dt_name (map the scalars) \<noteq> map dt_name derived then Inl TypeError
                else declare_now A entries (k\<lparr>ek_scalars := derived\<rparr>) st))))"

text \<open>One memref argument, with its printed type; \<open>alive\<close> says whether a buffer has its value.\<close>

fun ref_type :: "'m mlir_types_scheme \<Rightarrow> buffer \<Rightarrow> memref_value \<Rightarrow> string" where
  "ref_type A b (WholeRef i) = type_of_buffer A b"
| "ref_type A b (SubviewRef i offs szs) = type_of_subview A b offs szs"
| "ref_type A b (CollapsedRef i gs shape) = type_of_collapse A b shape"
| "ref_type A b (SlabRef s) = type_of_subview A b (sl_offsets s) (sl_sizes s)"

datatype kernel_value = RefV memref_value | ScalarV scalar_operand

fun memref_arg :: "'m mlir_types_scheme \<Rightarrow> (nat \<Rightarrow> bool) \<Rightarrow> index_expr list \<Rightarrow> extern_arg \<Rightarrow> (kernel_value \<times> string) res" where
  "memref_arg A alive herd (ArgBuffer b shared) =
     res_bind (res_check (alive (b_id b)) RuntimeError) (\<lambda>_.
     res_bind (core_slab (Some herd) shared b) (\<lambda>r. Inr (RefV r, ref_type A b r)))"
| "memref_arg A alive herd (ArgRegion v) =
     res_bind (res_check (alive (b_id (parent v))) RuntimeError) (\<lambda>_.
     res_bind (region_value v) (\<lambda>r. Inr (RefV r, ref_type A (parent v) r)))"
| "memref_arg A alive herd _ = Inl TypeError"

text \<open>The argument loop, taking the declared scalar types in order.\<close>

fun pass_args :: "'m mlir_types_scheme \<Rightarrow> (nat \<Rightarrow> bool) \<Rightarrow> index_expr list \<Rightarrow> extern_arg list \<Rightarrow> dtype list \<Rightarrow> (kernel_value \<times> string) list res" where
  "pass_args A alive herd [] ds = Inr []"
| "pass_args A alive herd (a # as) ds =
     (if is_memref_arg a then
        res_bind (memref_arg A alive herd a) (\<lambda>x. res_bind (pass_args A alive herd as ds) (\<lambda>xs. Inr (x # xs)))
      else (case ds of
              [] \<Rightarrow> Inl StopIteration
            | d # ds \<Rightarrow>
                res_bind (scalar_value A a d) (\<lambda>v.
                res_bind (pass_args A alive herd as ds) (\<lambda>xs. Inr ((ScalarV v, type_of A d) # xs)))))"

text \<open>What a call changes: the kernel's declaration, the module, and the objects the herd links.\<close>

record emitted_call =
  kc_name :: string
  kc_values :: "kernel_value list"
  kc_types :: "string list"

definition extern_call ::
  "'m mlir_types_scheme \<Rightarrow> (nat \<Rightarrow> bool) \<Rightarrow> extern_kernel \<Rightarrow> extern_arg list \<Rightarrow> (index_expr list \<times> objects) option \<Rightarrow>
   module_state option \<Rightarrow> (emitted_call \<times> extern_kernel \<times> objects \<times> module_state) res"
where
  "extern_call A alive k as herd st =
     (case (herd, st) of
        (Some (coords, objs), Some m) \<Rightarrow>
          if length (filter (\<lambda>a. \<not> is_memref_arg a) as) \<noteq> length (ek_scalars k) then Inl TypeError
          else
            res_bind (pass_args A alive coords as (ek_scalars k)) (\<lambda>xs.
            let types = map snd xs;
                call = \<lparr>kc_name = ek_name k, kc_values = map fst xs, kc_types = types\<rparr>;
                objs' = (if ek_link_mode k \<noteq> Some ''merge'' then require_object objs (ek_link k) (Some (ek_name k)) else objs)
            in (case ek_types k of
                  None \<Rightarrow> Inr (call, k\<lparr>ek_types := Some types\<rparr>, objs', declare_lazily (ek_name k) m)
                | Some declared \<Rightarrow> if types \<noteq> declared then Inl TypeError else Inr (call, k, objs', m)))
      | _ \<Rightarrow> Inl RuntimeError)"

text \<open>A sequence of calls of one kernel, each in its own herd and module.\<close>

fun extern_calls ::
  "'m mlir_types_scheme \<Rightarrow> (nat \<Rightarrow> bool) \<Rightarrow> extern_kernel \<Rightarrow> (extern_arg list \<times> (index_expr list \<times> objects) option \<times> module_state option) list \<Rightarrow>
   (emitted_call \<times> objects \<times> module_state) list res"
where
  "extern_calls A alive k [] = Inr []"
| "extern_calls A alive k ((as, herd, st) # cs) =
     res_bind (extern_call A alive k as herd st) (\<lambda>(call, k, objs, m).
     res_bind (extern_calls A alive k cs) (\<lambda>rest. Inr ((call, objs, m) # rest)))"

section \<open>One signature per symbol\<close>

lemma pass_args_types:
  "pass_args A alive coords as ds = Inr xs \<Longrightarrow> length (filter (\<lambda>a. \<not> is_memref_arg a) as) = length ds \<Longrightarrow>
     length xs = length as \<and> map snd (filter (\<lambda>x. \<exists>v. fst x = ScalarV v) xs) = map (type_of A) ds"
proof (induction as arbitrary: ds xs)
  case (Cons a as)
  show ?case
  proof (cases "is_memref_arg a")
    case True
    then obtain x ys where x: "memref_arg A alive coords a = Inr x" "pass_args A alive coords as ds = Inr ys" "xs = x # ys"
      using Cons.prems by (auto simp: res_bind_Inr_iff)
    have "\<nexists>v. fst x = ScalarV v" using x(1) by (cases a) (auto simp: res_bind_Inr_iff)
    with Cons.IH [OF x(2)] Cons.prems(2) True x(3) show ?thesis by simp
  next
    case False
    then obtain d ds' where ds: "ds = d # ds'" using Cons.prems(2) by (cases ds) auto
    with False Cons.prems obtain v ys where "pass_args A alive coords as ds' = Inr ys" "xs = (ScalarV v, type_of A d) # ys"
      by (auto simp: res_bind_Inr_iff)
    with Cons.IH [of ds' ys] Cons.prems(2) False ds show ?thesis by simp
  qed
qed simp

lemma extern_call_types:
  assumes "extern_call A alive k as herd st = Inr (call, k', objs, m)"
  shows "ek_types k' = Some (kc_types call) \<and> (ek_types k = None \<or> ek_types k = Some (kc_types call)) \<and>
    ek_scalars k' = ek_scalars k \<and> length (kc_types call) = length as"
proof -
  obtain coords objs0 m0 where h: "herd = Some (coords, objs0)" "st = Some m0"
    using assms by (cases herd; cases st; auto simp: extern_call_def)
  have n: "length (filter (\<lambda>a. \<not> is_memref_arg a) as) = length (ek_scalars k)"
    using assms by (simp add: h extern_call_def split: if_splits)
  from assms n obtain xs where xs: "pass_args A alive coords as (ek_scalars k) = Inr xs"
    by (auto simp: h extern_call_def res_bind_Inr_iff)
  have "length xs = length as" using pass_args_types [OF xs n] by simp
  then show ?thesis
    using assms n xs by (cases "ek_types k") (auto simp: h extern_call_def Let_def split: if_splits)
qed

text \<open>Whatever the order of the calls, one kernel is always called with the same argument types.\<close>

lemma calls_match_declaration:
  assumes "extern_calls A alive k cs = Inr rs" and "r1 \<in> set rs" and "r2 \<in> set rs"
  shows "kc_types (fst r1) = kc_types (fst r2)"
proof -
  have "\<exists>ts. (ek_types k = None \<or> ek_types k = Some ts) \<and> (\<forall>r \<in> set rs. kc_types (fst r) = ts)"
    using assms(1)
  proof (induction cs arbitrary: k rs)
    case (Cons c cs)
    obtain as herd st where c: "c = (as, herd, st)" by (cases c)
    from Cons.prems obtain call k' objs m rest where r: "extern_call A alive k as herd st = Inr (call, k', objs, m)"
      "extern_calls A alive k' cs = Inr rest" "rs = (call, objs, m) # rest"
      by (auto simp: c res_bind_Inr_iff)
    from Cons.IH [OF r(2)] extern_call_types [OF r(1)] r(3) show ?case by fastforce
  qed (auto intro: exI [of _ "the _"] simp: not_None_eq)
  with assms(2,3) show ?thesis by metis
qed

text \<open>
  A kernel remembers that it was declared, not in which module: called again in another trace it is not
  declared there, and the call names a symbol the module does not have.
\<close>

definition plain_types :: mlir_types where
  "plain_types = \<lparr>type_of = dt_name, type_of_buffer = (\<lambda>b. ''memref''), type_of_subview = (\<lambda>b os ss. ''memref''),
     type_of_collapse = (\<lambda>b ss. ''memref'')\<rparr>"

definition sample_kernel :: extern_kernel where
  "sample_kernel = \<lparr>ek_name = ''mv'', ek_link = ''mv.o'', ek_scalars = [i32], ek_interface = True, ek_link_mode = None,
     ek_types = None\<rparr>"

definition sample_call :: "nat \<Rightarrow> extern_arg list \<times> (index_expr list \<times> objects) option \<times> module_state option" where
  "sample_call i =
     ([ArgBuffer (Buffer 0 [4] bf16 None L1 False) False, ArgNum (NInt 3)], Some ([], []),
      Some \<lparr>ms_module = i, ms_body = [KernelFunc ''kernel''], ms_declared = Map.empty\<rparr>)"

lemma second_module_undeclared:
  "map (\<lambda>(call, objs, m). (kc_name call, ms_body m)) (projr (extern_calls plain_types (\<lambda>_. True) sample_kernel [sample_call 0, sample_call 1]))
     = [(''mv'', [PrivateFunc ''mv'', KernelFunc ''kernel'']), (''mv'', [KernelFunc ''kernel''])]"
  by code_simp

end
