(* ===== verification/Compile.thy ===== *)
theory Compile
  imports Channel Control Grid
begin

text \<open>
  A launch from its declaration to its call: the constructor, \<open>_check_interface\<close> and \<open>CompiledKernel.__call__\<close> of
  \<^verbatim>\<open>src/python/air/api/_compile.py\<close>, and the loading and invoking of an artifact in
  \<^verbatim>\<open>src/python/air/backend/xrt.py\<close>. The device is a parameter: a function from the contents of the buffers, in
  the order of the kernel's arguments, to their contents after the run. The theory shows that a call hands every
  tensor its own buffer and returns exactly the outputs, and where that stops holding.
\<close>

section \<open>Declaring a launch\<close>

text \<open>The tensors and symbols declared since the last launch.\<close>

record pending_decls =
  pd_tensors :: "tensor list"
  pd_symbols :: "symbol list"

definition air_tensor :: "int list \<Rightarrow> dtype \<Rightarrow> string \<Rightarrow> bool \<Rightarrow> pending_decls \<Rightarrow> pending_decls res" where
  "air_tensor shape dt name both p =
     (if \<not> allocatable dt then Inl TypeError
      else Inr (p\<lparr>pd_tensors := pd_tensors p @ [(Tensor shape dt name)\<lparr>inout := both\<rparr>]\<rparr>))"

datatype repeat_arg = RepeatNone | RepeatInt int | RepeatBool bool | RepeatRange int int int | RepeatOther

definition parse_repeat :: "repeat_arg \<Rightarrow> (int \<times> int \<times> int) option res" where
  "parse_repeat r =
     (case r of
        RepeatNone \<Rightarrow> Inr None
      | RepeatBool b \<Rightarrow> Inl TypeError
      | RepeatOther \<Rightarrow> Inl TypeError
      | RepeatInt n \<Rightarrow> if n \<le> 0 then Inl ValueError else Inr (Some (0, n, 1))
      | RepeatRange lo hi st \<Rightarrow> if st \<le> 0 then Inl ValueError else if hi \<le> lo then Inl ValueError else Inr (Some (lo, hi, st)))"

record launch_decl =
  ld_dims :: "grid_dim list"
  ld_repeat :: "(int \<times> int \<times> int) option"
  ld_name :: string
  ld_target :: string
  ld_tensors :: "tensor list"
  ld_symbols :: "symbol list"
  ld_registered :: bool

definition DEFAULT_TARGET :: string where "DEFAULT_TARGET = ''auto''"

text \<open>\<open>LaunchContext.__init__\<close> claims what was declared and leaves the lists empty.\<close>

definition LaunchContext :: "grid_arg option \<Rightarrow> string \<Rightarrow> string option \<Rightarrow> repeat_arg \<Rightarrow> pending_decls \<Rightarrow> (launch_decl \<times> pending_decls) res" where
  "LaunchContext grid name target rep p =
     res_bind (case grid of None \<Rightarrow> Inr [] | Some g \<Rightarrow> parse_grid g) (\<lambda>dims.
     res_bind (parse_repeat rep) (\<lambda>r.
       Inr (\<lparr>ld_dims = dims, ld_repeat = r, ld_name = name, ld_target = (case target of None \<Rightarrow> DEFAULT_TARGET | Some t \<Rightarrow> if t = [] then DEFAULT_TARGET else t), ld_tensors = pd_tensors p,
             ld_symbols = pd_symbols p, ld_registered = False\<rparr>,
            p\<lparr>pd_tensors := [], pd_symbols := []\<rparr>)))"

definition launch_body :: "launch_decl \<Rightarrow> launch_decl res" where
  "launch_body l = (if ld_registered l then Inl RuntimeError else Inr (l\<lparr>ld_registered := True\<rparr>))"

definition inputs :: "tensor list \<Rightarrow> tensor list" where
  "inputs ts = filter (\<lambda>t. \<not> is_output t) ts"

definition outputs :: "tensor list \<Rightarrow> tensor list" where
  "outputs ts = filter is_output ts"

text \<open>\<open>_check_interface\<close>; an in-place tensor is neither an input nor an output for it.\<close>

definition check_interface :: "tensor list \<Rightarrow> unit res" where
  "check_interface ts =
     (if list_ex (\<lambda>t. t_shape t = []) ts then Inl RuntimeError
      else (case first_index (\<lambda>t. is_output t \<and> \<not> inout t) ts of
              None \<Rightarrow> Inl RuntimeError
            | Some first \<Rightarrow>
                if list_ex (\<lambda>t. \<not> is_output t \<and> \<not> inout t) (drop first ts) then Inl RuntimeError else Inr ()))"

section \<open>The backend\<close>

text \<open>
  Arrays are a shape, an element type and their elements in row-major order. An artifact is a file of a kind,
  with its instruction stream (\<open>None\<close> when there is none, else whether the file exists).
\<close>

record 'v arr =
  arr_shape :: "int list"
  arr_dtype :: np_type
  arr_data :: "'v list"

datatype binary = Elf | Xclbin | Pdi

record artifact =
  ar_binary :: binary
  ar_exists :: bool
  ar_insts :: "bool option"
  ar_txn :: bool
  ar_kernel_found :: bool

record xrt_backend =
  be_pyxrt :: bool
  be_loaded :: bool
  be_perf :: nat
  be_warmup :: nat

text \<open>\<open>XRTBackend.load\<close> and \<open>unload\<close>.\<close>

definition load_artifact :: "xrt_backend \<Rightarrow> artifact \<Rightarrow> xrt_backend res" where
  "load_artifact be art =
     (if \<not> be_pyxrt be \<or> be_loaded be \<or> \<not> ar_exists art \<or> ar_binary art = Pdi then Inl AirBackendError
      else
        res_bind (if ar_binary art = Elf then res_check (ar_kernel_found art) AirBackendError
                  else if ar_insts art = None \<and> ar_txn art then Inl AirBackendError
                  else if ar_insts art \<noteq> Some True then Inl AirBackendError
                  else res_check (ar_kernel_found art) AirBackendError) (\<lambda>_.
          Inr (be\<lparr>be_loaded := True\<rparr>)))"

definition unload :: "xrt_backend \<Rightarrow> xrt_backend" where
  "unload be = be\<lparr>be_loaded := False\<rparr>"

text \<open>A run that does not complete raises (\<open>_check_run_state\<close>); a timed call runs on the same buffers again.\<close>

fun run_times :: "nat \<Rightarrow> ('v list list \<Rightarrow> 'v list list option) \<Rightarrow> 'v list list \<Rightarrow> 'v list list res" where
  "run_times 0 dev bufs = Inr bufs"
| "run_times (Suc n) dev bufs =
     (case dev bufs of None \<Rightarrow> Inl AirBackendError | Some bufs' \<Rightarrow> run_times n dev bufs')"

definition runs :: "xrt_backend \<Rightarrow> nat" where
  "runs be = (if 0 < be_perf be then be_warmup be + be_perf be else 1)"

text \<open>The invoker of \<open>load\<close>: every argument is written to its buffer, and every buffer is read back flat.\<close>

definition invoker :: "xrt_backend \<Rightarrow> artifact \<Rightarrow> ('v list list \<Rightarrow> 'v list list option) \<Rightarrow> 'v arr list \<Rightarrow> 'v arr list res" where
  "invoker be art dev args =
     (if ar_binary art = Xclbin \<and> 5 < length args then Inl ValueError
      else
        res_bind (run_times (runs be) dev (map arr_data args)) (\<lambda>bufs.
          Inr (map2 (\<lambda>a d. \<lparr>arr_shape = [int (length d)], arr_dtype = arr_dtype a, arr_data = d\<rparr>) args bufs)))"

section \<open>Calling a compiled kernel\<close>

definition np_float64 :: np_type where "np_float64 = \<lparr>np_name = ''float64'', np_itemsize = 8\<rparr>"

text \<open>\<open>np.dtype(t.dtype.np_dtype)\<close>; numpy reads a missing type as double.\<close>

definition np_of :: "tensor \<Rightarrow> np_type" where
  "np_of t = (case np_dtype (t_dtype t) of None \<Rightarrow> np_float64 | Some d \<Rightarrow> d)"

fun check_args :: "'v arr list \<Rightarrow> tensor list \<Rightarrow> unit res" where
  "check_args (a # as) (t # ts) =
     (if arr_shape a \<noteq> t_shape t then Inl ValueError
      else if arr_dtype a \<noteq> np_of t then Inl ValueError
      else check_args as ts)"
| "check_args _ _ = Inr ()"

definition zeros :: "tensor \<Rightarrow> 'v :: zero arr" where
  "zeros t = \<lparr>arr_shape = t_shape t, arr_dtype = np_of t, arr_data = replicate (nat (prod_list (t_shape t))) 0\<rparr>"

definition reshape_to :: "'v arr \<Rightarrow> int list \<Rightarrow> 'v arr res" where
  "reshape_to a shape = (if int (length (arr_data a)) = prod_list shape then Inr (a\<lparr>arr_shape := shape\<rparr>) else Inl ValueError)"

datatype 'v kernel_result = One "'v arr" | Many "'v arr list"

fun result_list :: "'v kernel_result \<Rightarrow> 'v arr list" where
  "result_list (One a) = [a]"
| "result_list (Many as) = as"

definition pack_results :: "'v arr list \<Rightarrow> 'v kernel_result" where
  "pack_results xs = (if length xs = 1 then One (hd xs) else Many xs)"

definition kernel_call ::
  "xrt_backend \<Rightarrow> artifact \<Rightarrow> ('v list list \<Rightarrow> 'v list list option) \<Rightarrow> tensor list \<Rightarrow> 'v :: zero arr list \<Rightarrow>
   'v kernel_result res \<times> xrt_backend"
where
  "kernel_call be art dev ts args =
     (if length args \<noteq> length (inputs ts) then (Inl TypeError, be)
      else (case check_args args (inputs ts) of
              Inl e \<Rightarrow> (Inl e, be)
            | Inr _ \<Rightarrow>
                (case load_artifact be art of
                   Inl e \<Rightarrow> (Inl e, be)
                 | Inr be' \<Rightarrow>
                     (res_bind (invoker be' art dev (args @ map zeros (outputs ts))) (\<lambda>results.
                      res_bind (map_res (\<lambda>(r, t). reshape_to r (t_shape t)) (zip (drop (length args) results) (outputs ts))) (\<lambda>xs.
                        Inr (pack_results xs))), be'))))"

section \<open>Buffers by position\<close>

text \<open>The buffers a kernel expects, one per tensor in the order of its signature: an argument, or zeros.\<close>

fun bind_interface :: "tensor list \<Rightarrow> 'v :: zero arr list \<Rightarrow> 'v arr list" where
  "bind_interface [] args = []"
| "bind_interface (t # ts) args =
     (if is_output t then zeros t # bind_interface ts args else hd args # bind_interface ts (tl args))"

lemma bind_inputs_outputs:
  "length args = length xs \<Longrightarrow> \<forall>t \<in> set xs. \<not> is_output t \<Longrightarrow> \<forall>t \<in> set ys. is_output t \<Longrightarrow>
     bind_interface (xs @ ys) args = args @ map zeros ys"
proof (induction xs arbitrary: args)
  case Nil
  then show ?case by (induction ys) simp_all
next
  case (Cons t xs)
  then show ?case by (cases args) simp_all
qed

lemma filters_of_split:
  "\<forall>t \<in> set xs. \<not> is_output t \<Longrightarrow> \<forall>t \<in> set ys. is_output t \<Longrightarrow> inputs (xs @ ys) = xs \<and> outputs (xs @ ys) = ys"
  by (simp add: inputs_def outputs_def filter_empty_conv filter_id_conv)

lemma interface_split:
  assumes "check_interface ts = Inr ()" and "\<forall>t \<in> set ts. \<not> inout t"
  obtains xs ys where "ts = xs @ ys" "\<forall>t \<in> set xs. \<not> is_output t" "\<forall>t \<in> set ys. is_output t"
proof -
  obtain i where i: "first_index (\<lambda>t. is_output t \<and> \<not> inout t) ts = Some i"
    and rest: "\<not> list_ex (\<lambda>t. \<not> is_output t \<and> \<not> inout t) (drop i ts)"
    using assms(1) by (auto simp: check_interface_def split: if_splits option.splits)
  have "\<forall>t \<in> set (take i ts). \<not> is_output t" using first_index_Some [OF i] assms(2) by (auto dest: in_set_takeD)
  moreover have "\<forall>t \<in> set (drop i ts). is_output t" using rest assms(2) by (auto simp: list_ex_iff dest: in_set_dropD)
  ultimately show thesis by (intro that [of "take i ts" "drop i ts"]) simp_all
qed

text \<open>
  The contract of an invoker: it reads and writes its buffers by position. \<open>fits\<close> limits their number,
  \<open>device\<close> is what the run leaves in them.
\<close>

locale positional =
  fixes invoke :: "'v :: zero arr list \<Rightarrow> 'v arr list res"
    and device :: "'v list list \<Rightarrow> 'v list list res"
    and fits :: "nat \<Rightarrow> bool"
  assumes invoked: "fits (length args) \<Longrightarrow> device (map arr_data args) = Inr out \<Longrightarrow> length out = length args \<Longrightarrow>
      \<exists>rs. invoke args = Inr rs \<and> map arr_data rs = out"
begin

text \<open>When inputs come before outputs, the buffers read back after the arguments are the outputs'.\<close>

lemma outputs_read_back:
  assumes xs: "\<forall>t \<in> set xs. \<not> is_output t" and ys: "\<forall>t \<in> set ys. is_output t" and len: "length args = length xs"
    and "fits (length (xs @ ys))" and dev: "device (map arr_data (bind_interface (xs @ ys) args)) = Inr out"
    and out: "length out = length (xs @ ys)"
  shows "\<exists>rs. invoke (args @ map zeros ys) = Inr rs \<and> length rs = length (xs @ ys) \<and>
    map arr_data (drop (length args) rs) = map snd (filter (is_output \<circ> fst) (zip (xs @ ys) out))"
proof -
  have b: "bind_interface (xs @ ys) args = args @ map zeros ys" by (rule bind_inputs_outputs [OF len xs ys])
  obtain rs where rs: "invoke (args @ map zeros ys) = Inr rs" "map arr_data rs = out"
    using invoked [of "args @ map zeros ys" out] assms(4) dev out len by (auto simp: b)
  define o1 o2 where "o1 = take (length xs) out" and "o2 = drop (length xs) out"
  have o: "out = o1 @ o2" "length o1 = length xs" "length o2 = length ys" using out by (simp_all add: o1_def o2_def)
  have "filter (is_output \<circ> fst) (zip xs o1) = []" using xs by (auto simp: filter_empty_conv dest: set_zip_leftD)
  moreover have "filter (is_output \<circ> fst) (zip ys o2) = zip ys o2" using ys by (auto simp: filter_id_conv dest: set_zip_leftD)
  ultimately have "map snd (filter (is_output \<circ> fst) (zip (xs @ ys) out)) = o2" by (simp add: o)
  moreover have "map arr_data (drop (length args) rs) = o2" using rs(2) by (simp add: drop_map [symmetric] len o2_def)
  moreover have "length rs = length (xs @ ys)" using arg_cong [OF rs(2), of length] out by simp
  ultimately show ?thesis using rs(1) by simp
qed

end

interpretation xrt: positional "invoker be art dev" "run_times (runs be) dev" "\<lambda>n. ar_binary art \<noteq> Xclbin \<or> n \<le> 5"
  for be :: xrt_backend and art :: artifact and dev :: "'v :: zero list list \<Rightarrow> 'v list list option"
proof
  fix args :: "'v arr list" and out :: "'v list list"
  assume "ar_binary art \<noteq> Xclbin \<or> length args \<le> 5" "run_times (runs be) dev (map arr_data args) = Inr out"
    and len: "length out = length args"
  then have "invoker be art dev args =
      Inr (map2 (\<lambda>a d. \<lparr>arr_shape = [int (length d)], arr_dtype = arr_dtype a, arr_data = d\<rparr>) args out)"
    by (auto simp: invoker_def)
  moreover have "map arr_data (map2 (\<lambda>a d. \<lparr>arr_shape = [int (length d)], arr_dtype = arr_dtype a, arr_data = d\<rparr>) args out) = out"
    using len by (intro nth_equalityI) simp_all
  ultimately show "\<exists>rs. invoker be art dev args = Inr rs \<and> map arr_data rs = out" by blast
qed

section \<open>What a call returns\<close>

definition fits_tensor :: "'v arr \<Rightarrow> tensor \<Rightarrow> bool" where
  "fits_tensor a t \<longleftrightarrow> arr_shape a = t_shape t \<and> arr_dtype a = np_of t"

definition loadable :: "xrt_backend \<Rightarrow> artifact \<Rightarrow> bool" where
  "loadable be art \<longleftrightarrow> be_pyxrt be \<and> \<not> be_loaded be \<and> ar_exists art \<and> ar_binary art \<noteq> Pdi \<and> ar_kernel_found art \<and>
     (ar_binary art = Elf \<or> ar_insts art = Some True)"

lemma check_args_fit: "list_all2 fits_tensor args ts \<Longrightarrow> check_args args ts = Inr ()"
  by (induction args ts rule: list_all2_induct) (simp_all add: fits_tensor_def)

lemma load_loadable: "loadable be art \<Longrightarrow> load_artifact be art = Inr (be\<lparr>be_loaded := True\<rparr>)"
  by (auto simp: loadable_def load_artifact_def)

lemma reshape_results:
  assumes "length rs = length ts" and "\<forall>(d, t) \<in> set (zip (map arr_data rs) ts). int (length d) = prod_list (t_shape t)"
  shows "map_res (\<lambda>(r, t). reshape_to r (t_shape t)) (zip rs ts) = Inr (map2 (\<lambda>r t. r\<lparr>arr_shape := t_shape t\<rparr>) rs ts)"
  using assms by (induction rs ts rule: list_induct2) (simp_all add: reshape_to_def)

lemma reshaped_fields:
  "length rs = length ts \<Longrightarrow> map arr_data (map2 (\<lambda>r t. r\<lparr>arr_shape := t_shape t\<rparr>) rs ts) = map arr_data rs \<and>
     map arr_shape (map2 (\<lambda>r t. r\<lparr>arr_shape := t_shape t\<rparr>) rs ts) = map t_shape ts"
  by (induction rs ts rule: list_induct2) simp_all

lemma result_list_pack [simp]: "result_list (pack_results xs) = xs"
  by (cases xs) (auto simp: pack_results_def)

lemma output_lengths:
  assumes "map length out = map (length \<circ> arr_data) (bind_interface ts args)" and "\<forall>t \<in> set ts. \<forall>n \<in> set (t_shape t). 0 \<le> n"
  shows "\<forall>(d, t) \<in> set (zip (map snd (filter (is_output \<circ> fst) (zip ts out))) (outputs ts)). int (length d) = prod_list (t_shape t)"
  using assms
proof (induction ts args arbitrary: out rule: bind_interface.induct)
  case (2 t ts args)
  have pos: "0 \<le> prod_list (t_shape t)" using 2(4) by (auto intro!: prod_list_nonneg)
  obtain d ds where out: "out = d # ds" using 2(3) by (cases out) (auto split: if_splits)
  show ?case
  proof (cases "is_output t")
    case True
    have "map length ds = map (length \<circ> arr_data) (bind_interface ts args)" "int (length d) = prod_list (t_shape t)"
      using 2(3) True pos by (auto simp: out zeros_def)
    with 2(1) [OF True, of ds] 2(4) show ?thesis by (simp add: out True outputs_def)
  next
    case False
    have "map length ds = map (length \<circ> arr_data) (bind_interface ts (tl args))" using 2(3) False by (simp add: out)
    with 2(2) [OF False, of ds] 2(4) show ?thesis by (simp add: out False outputs_def)
  qed
qed simp

text \<open>
  C11: calling a compiled kernel whose interface was accepted, and that has no in-place tensor, returns, if nothing is loaded
  yet, the artifact can be loaded and is no xclbin with more than five tensors, the arguments fit the inputs, and the run on the
  device completes and keeps the sizes of the buffers. The device gets every tensor's own buffer, in the order of the kernel's
  signature, and the result is exactly the contents of the output tensors after the run, in declaration order and in
  their declared shapes.
\<close>

theorem call_returns_outputs:
  assumes iface: "check_interface ts = Inr ()" and plain: "\<forall>t \<in> set ts. \<not> inout t" and shp: "\<forall>t \<in> set ts. \<forall>n \<in> set (t_shape t). 0 \<le> n"
    and args: "list_all2 fits_tensor args (inputs ts)" and load: "loadable be art" and few: "ar_binary art \<noteq> Xclbin \<or> length ts \<le> 5"
    and dev: "run_times (runs be) dev (map arr_data (bind_interface ts args)) = Inr out"
    and len: "map length out = map (length \<circ> arr_data) (bind_interface ts args)"
  shows "\<exists>r. kernel_call be art dev ts args = (Inr r, be\<lparr>be_loaded := True\<rparr>) \<and>
    map arr_data (result_list r) = map snd (filter (is_output \<circ> fst) (zip ts out)) \<and>
    map arr_shape (result_list r) = map t_shape (outputs ts)"
proof -
  obtain xs ys where ts: "ts = xs @ ys" "\<forall>t \<in> set xs. \<not> is_output t" "\<forall>t \<in> set ys. is_output t"
    using interface_split [OF iface plain] .
  note io = filters_of_split [OF ts(2,3), folded ts(1)]
  have n: "length args = length xs" using args io by (simp add: list_all2_lengthD)
  have "length out = length (bind_interface ts args)" using arg_cong [OF len, of length] by simp
  then have out: "length out = length (xs @ ys)" by (simp add: ts(1) bind_inputs_outputs [OF n ts(2,3)] n)
  have runs_eq: "runs (be\<lparr>be_loaded := True\<rparr>) = runs be" by (simp add: runs_def)
  obtain rs where rs: "invoker (be\<lparr>be_loaded := True\<rparr>) art dev (args @ map zeros ys) = Inr rs" "length rs = length (xs @ ys)"
    "map arr_data (drop (length args) rs) = map snd (filter (is_output \<circ> fst) (zip ts out))"
    using xrt.outputs_read_back [OF ts(2,3) n, of art "be\<lparr>be_loaded := True\<rparr>" dev out] few dev out
    by (auto simp: runs_eq ts(1) [symmetric])
  let ?rs = "drop (length args) rs"
  have l: "length ?rs = length ys" using rs(2) n by simp
  have "\<forall>(d, t) \<in> set (zip (map arr_data ?rs) ys). int (length d) = prod_list (t_shape t)"
    using output_lengths [OF len shp] io by (simp only: rs(3))
  then have "kernel_call be art dev ts args =
      (Inr (pack_results (map2 (\<lambda>r t. r\<lparr>arr_shape := t_shape t\<rparr>) ?rs ys)), be\<lparr>be_loaded := True\<rparr>)"
    using args io n l rs(1) by (simp add: kernel_call_def check_args_fit load_loadable [OF load] reshape_results)
  then show ?thesis using reshaped_fields [OF l] rs(3) io by simp
qed

text \<open>The call leaves the artifact loaded, so calling the same kernel again is refused.\<close>

lemma second_call_refused:
  assumes "kernel_call be art dev ts args = (Inr r, be')" and "list_all2 fits_tensor args' (inputs ts)"
  shows "kernel_call be' art dev ts args' = (Inl AirBackendError, be')"
proof -
  have "be_loaded be'"
    using assms(1) by (auto simp: kernel_call_def load_artifact_def res_bind_Inr_iff split: if_splits sum.splits)
  then show ?thesis
    using assms(2) by (simp add: kernel_call_def check_args_fit list_all2_lengthD load_artifact_def)
qed

text \<open>A kernel of two inputs and an output that adds them, run once and run three times.\<close>

definition adder_tensors :: "tensor list" where
  "adder_tensors = [Tensor [2] i32 ''a'', Tensor [2] i32 ''b'', (Tensor [2] i32 ''c'')\<lparr>is_output := True\<rparr>]"

definition int_arr :: "int list \<Rightarrow> int arr" where
  "int_arr xs = \<lparr>arr_shape = [int (length xs)], arr_dtype = np_int32, arr_data = xs\<rparr>"

fun add_device :: "int list list \<Rightarrow> int list list option" where
  "add_device [a, b, c] = Some [a, b, map2 (+) c (map2 (+) a b)]"
| "add_device _ = None"

definition sample_backend :: xrt_backend where
  "sample_backend = \<lparr>be_pyxrt = True, be_loaded = False, be_perf = 0, be_warmup = 0\<rparr>"

definition sample_artifact :: artifact where
  "sample_artifact = \<lparr>ar_binary = Xclbin, ar_exists = True, ar_insts = Some True, ar_txn = False, ar_kernel_found = True\<rparr>"

lemmas call_sample_defs = adder_tensors_def int_arr_def sample_backend_def sample_artifact_def Tensor_def i32_def

theorem call_returns_outputs_witness:
  "\<exists>r. kernel_call sample_backend sample_artifact add_device adder_tensors [int_arr [1, 2], int_arr [10, 20]]
      = (Inr r, sample_backend\<lparr>be_loaded := True\<rparr>) \<and> map arr_data (result_list r) = [[11, 22]] \<and> map arr_shape (result_list r) = [[2]]"
proof -
  let ?args = "[int_arr [1, 2], int_arr [10, 20]]"
  have "check_interface adder_tensors = Inr ()" by (simp add: check_interface_def adder_tensors_def Tensor_def)
  moreover have "\<forall>t \<in> set adder_tensors. \<not> inout t" "\<forall>t \<in> set adder_tensors. \<forall>n \<in> set (t_shape t). 0 \<le> n"
    by (simp_all add: adder_tensors_def Tensor_def)
  moreover have "list_all2 fits_tensor ?args (inputs adder_tensors)"
    by (simp add: inputs_def fits_tensor_def np_of_def call_sample_defs)
  moreover have "loadable sample_backend sample_artifact" "ar_binary sample_artifact \<noteq> Xclbin \<or> length adder_tensors \<le> 5"
    by (simp_all add: loadable_def call_sample_defs)
  moreover have "run_times (runs sample_backend) add_device (map arr_data (bind_interface adder_tensors ?args)) = Inr [[1, 2], [10, 20], [11, 22]]"
    by (simp add: runs_def zeros_def call_sample_defs numeral_2_eq_2)
  moreover have "map length [[1, 2], [10, 20], [11, 22 :: int]] = map (length \<circ> arr_data) (bind_interface adder_tensors ?args)"
    by (simp add: zeros_def call_sample_defs)
  ultimately obtain r where "kernel_call sample_backend sample_artifact add_device adder_tensors ?args = (Inr r, sample_backend\<lparr>be_loaded := True\<rparr>)"
    "map arr_data (result_list r) = map snd (filter (is_output \<circ> fst) (zip adder_tensors [[1, 2], [10, 20], [11, 22]]))"
    "map arr_shape (result_list r) = map t_shape (outputs adder_tensors)"
    using call_returns_outputs by blast
  then show ?thesis by (auto simp: adder_tensors_def Tensor_def outputs_def)
qed

text \<open>
  An in-place tensor that the kernel writes counts as an output, so its own contents are never sent, and it is
  passed after the inputs whatever its place in the signature; and a timed call runs the kernel again on the
  buffers of the run before.
\<close>

definition state_tensors :: "tensor list" where
  "state_tensors = [(Tensor [2] i32 ''s'')\<lparr>is_output := True, inout := True\<rparr>, Tensor [2] i32 ''a'',
     (Tensor [2] i32 ''c'')\<lparr>is_output := True\<rparr>]"

lemma inout_passed_out_of_place:
  "check_interface state_tensors = Inr ()"
  "map t_name (inputs state_tensors @ outputs state_tensors) = [''a'', ''s'', ''c'']"
  "map arr_data ([int_arr [7, 7]] @ map zeros (outputs state_tensors)) = [[7, 7], [0, 0], [0, 0]]"
  by (simp_all add: check_interface_def state_tensors_def inputs_def outputs_def zeros_def call_sample_defs numeral_2_eq_2)

lemma timed_call_accumulates:
  "run_times (runs (sample_backend\<lparr>be_perf := 2, be_warmup := 1\<rparr>)) add_device [[1], [10], [0]] = Inr [[1], [10], [33]]"
  by (simp add: runs_def sample_backend_def numeral_3_eq_3)

end
