(* ===== verification/Scope.thy ===== *)
theory Scope
  imports Regions
begin

text \<open>
  The staged buffers a herd may name: \<open>_staged_in_scope\<close> of \<^verbatim>\<open>src/python/air/api/_trace.py\<close>. The walk over the
  enclosing blocks is a loop with no bound of its own: it ends because the insertion point is inside the
  segment's body, and it must, since asking for the parent of the module's block aborts the process. The theory
  writes the walk as a partial function and shows that it returns, and that it keeps exactly the buffers
  whose allocation is in a block around the insertion point.
\<close>

text \<open>What a block's owner says of its parent: no owner, an operation in a block, or the module itself.\<close>

datatype owner = Detached | InBlock nat | TopLevel

text \<open>The value \<open>None\<close> stands for a walk that does not return: it goes on for ever, or aborts.\<close>

partial_function (option) visible :: "(nat \<Rightarrow> owner) \<Rightarrow> nat \<Rightarrow> nat \<Rightarrow> nat list \<Rightarrow> nat list option" where
  "visible own entry b seen =
     (if b = entry then Some (b # seen)
      else (case own b of
              Detached \<Rightarrow> Some (b # seen)
            | TopLevel \<Rightarrow> None
            | InBlock p \<Rightarrow> visible own entry p (b # seen)))"

record staged_segment =
  ss_entry :: "nat option"
  ss_buffers :: "(nat \<times> nat) list"

text \<open>A buffer is its number and the block of its allocation.\<close>

definition staged_in_scope :: "(nat \<Rightarrow> owner) \<Rightarrow> nat \<Rightarrow> staged_segment option \<Rightarrow> (nat \<times> nat) list option" where
  "staged_in_scope own cur seg =
     (case seg of
        None \<Rightarrow> Some []
      | Some s \<Rightarrow>
          (case ss_entry s of
             None \<Rightarrow> Some (ss_buffers s)
           | Some entry \<Rightarrow>
               map_option (\<lambda>seen. filter (\<lambda>(b, home). home \<in> set seen) (ss_buffers s)) (visible own entry cur [])))"

section \<open>Blocks around a point\<close>

text \<open>\<open>inside own entry b\<close>: block \<open>b\<close> is the body \<open>entry\<close> or nested in it. \<open>around own entry b x\<close>: \<open>x\<close> is on the way.\<close>

inductive inside :: "(nat \<Rightarrow> owner) \<Rightarrow> nat \<Rightarrow> nat \<Rightarrow> bool" for own entry where
  here: "inside own entry entry"
| nested: "own b = InBlock p \<Longrightarrow> inside own entry p \<Longrightarrow> inside own entry b"

inductive around :: "(nat \<Rightarrow> owner) \<Rightarrow> nat \<Rightarrow> nat \<Rightarrow> nat \<Rightarrow> bool" for own entry where
  itself: "around own entry b b"
| outer: "b \<noteq> entry \<Longrightarrow> own b = InBlock p \<Longrightarrow> around own entry p x \<Longrightarrow> around own entry b x"

code_pred inside .
code_pred around .

lemma around_step:
  "around own entry b x \<longleftrightarrow> x = b \<or> (b \<noteq> entry \<and> (\<exists>p. own b = InBlock p \<and> around own entry p x))"
  by (subst around.simps) auto

lemma walk_returns:
  assumes "inside own entry b"
  shows "\<exists>vis. visible own entry b seen = Some vis \<and> set vis = {x. around own entry b x} \<union> set seen"
  using assms
proof (induction arbitrary: seen rule: inside.induct)
  case here
  have "around own entry entry x \<longleftrightarrow> x = entry" for x by (subst around_step) simp
  then show ?case by (subst visible.simps) auto
next
  case (nested b p)
  show ?case
  proof (cases "b = entry")
    case True
    have "around own entry entry x \<longleftrightarrow> x = entry" for x by (subst around_step) simp
    then show ?thesis by (subst visible.simps) (auto simp: True)
  next
    case False
    obtain vis where vis: "visible own entry p (b # seen) = Some vis" "set vis = {x. around own entry p x} \<union> set (b # seen)"
      using nested.IH by blast
    have "visible own entry b seen = Some vis" using False nested.hyps(1) vis(1) by (subst visible.simps) simp
    moreover have "around own entry b x \<longleftrightarrow> x = b \<or> around own entry p x" for x
      using False nested.hyps(1) by (subst around_step) simp
    ultimately show ?thesis using vis(2) by auto
  qed
qed

text \<open>Outside the segment's body the walk reaches the module and does not return.\<close>

inductive under_module :: "(nat \<Rightarrow> owner) \<Rightarrow> nat \<Rightarrow> nat \<Rightarrow> bool" for own entry where
  at_module: "b \<noteq> entry \<Longrightarrow> own b = TopLevel \<Longrightarrow> under_module own entry b"
| step: "b \<noteq> entry \<Longrightarrow> own b = InBlock p \<Longrightarrow> under_module own entry p \<Longrightarrow> under_module own entry b"

lemma walk_aborts: "under_module own entry b \<Longrightarrow> visible own entry b seen = None"
  by (induction arbitrary: seen rule: under_module.induct) (subst visible.simps; simp)+

text \<open>
  C40: where a herd is emitted inside a segment's body the walk over the enclosing blocks returns, and the buffers it
  keeps are exactly those allocated in a block around that point, in their order.
\<close>

theorem staged_walk_returns:
  assumes "inside own entry cur" and "ss_entry s = Some entry"
  shows "\<exists>bs. staged_in_scope own cur (Some s) = Some bs \<and>
    bs = filter (\<lambda>(b, home). around own entry cur home) (ss_buffers s)"
proof -
  obtain vis where "visible own entry cur [] = Some vis" "set vis = {x. around own entry cur x}"
    using walk_returns [OF assms(1), of "[]"] by auto
  with assms(2) show ?thesis by (simp add: staged_in_scope_def)
qed

text \<open>A segment's body 1 holding a closed loop 2, an open loop 3 and, in it, the point of a herd, in block 4.\<close>

definition loop_nest :: "nat \<Rightarrow> owner" where
  "loop_nest b = (if b = 0 then TopLevel else if b = 1 then InBlock 0 else if b = 4 then InBlock 3 else InBlock 1)"

definition loop_segment :: staged_segment where
  "loop_segment = \<lparr>ss_entry = Some 1, ss_buffers = [(10, 1), (11, 2), (12, 3), (13, 4)]\<rparr>"

theorem staged_walk_returns_witness:
  "staged_in_scope loop_nest 4 (Some loop_segment) = Some [(10, 1), (12, 3), (13, 4)]"
proof -
  have i: "inside loop_nest 1 4"
    by (rule nested [of _ _ 3], simp add: loop_nest_def, rule nested [of _ _ 1], simp add: loop_nest_def, rule here)
  have "around loop_nest 1 4 x \<longleftrightarrow> x = 4 \<or> x = 3 \<or> x = 1" for x
    by (subst around_step, subst around_step, subst around_step) (auto simp: loop_nest_def)
  with staged_walk_returns [OF i, of loop_segment] show ?thesis by (simp add: loop_segment_def)
qed

end
