(* ===== verification/Value_Cond.thy ===== *)
theory Value_Cond
  imports Control Extern Emit_Correct
begin

text \<open>
  Conditions over element values: \<open>ValueCondition\<close> and what \<open>ops.branch\<close> and the region form of \<open>ops.switch\<close> take,
  \<^verbatim>\<open>src/python/air/api/_cond.py\<close>. A comparison of single elements opens a region; the theory shows that the region
  taken is the one the comparison of the elements selects, with both operands read where the condition is written.
\<close>

section \<open>Conditions\<close>

text \<open>What a caller hands to \<open>ops.branch\<close>: a comparison of indices, a tile expression, an index, or anything else.\<close>

datatype branch_arg = CondArg condition | ExprArg bexpr | ValueArg string bexpr bexpr | IndexArg index_like

text \<open>\<open>_as_condition\<close>: a comparison with a single element becomes a \<open>ValueCondition\<close>.\<close>

fun as_condition :: "branch_arg \<Rightarrow> branch_arg" where
  "as_condition (ExprArg (CompareE f a b)) =
     (if expr_shape (CompareE f a b) = Some [] then ValueArg f a b else ExprArg (CompareE f a b))"
| "as_condition c = c"

datatype region_cond = IndexC condition | ValueC string bexpr bexpr

text \<open>\<open>Branch.__init__\<close> up to its fields, and \<open>switch_region\<close>.\<close>

definition branch_cond :: "branch_arg \<Rightarrow> region_cond res" where
  "branch_cond c =
     (case as_condition c of
        CondArg c \<Rightarrow> Inr (IndexC c)
      | ValueArg f a b \<Rightarrow> Inr (ValueC f a b)
      | _ \<Rightarrow> Inl TypeError)"

datatype switch_region_key = KeyCond region_cond | KeyIndex index_expr

definition switch_region :: "branch_arg \<Rightarrow> switch_region_key res" where
  "switch_region c =
     (case as_condition c of
        CondArg c \<Rightarrow> Inr (KeyCond (IndexC c))
      | ValueArg f a b \<Rightarrow> Inr (KeyCond (ValueC f a b))
      | ExprArg e \<Rightarrow> Inl TypeError
      | IndexArg i \<Rightarrow> res_bind (coerce_index i) (\<lambda>e. Inr (KeyIndex e)))"

text \<open>\<open>ValueCondition.materialize\<close>.\<close>

definition value_materialize :: "string \<Rightarrow> bexpr \<Rightarrow> bexpr \<Rightarrow> ir res" where
  "value_materialize f a b =
     (case (case element_dtype a of None \<Rightarrow> element_dtype b | Some d \<Rightarrow> Some d) of
        None \<Rightarrow> Inl TypeError
      | Some d \<Rightarrow> emit_scalar_value (CompareE f a b) d)"

section \<open>The arm that runs\<close>

text \<open>
  What the emitted operation keys on, in a core with coordinates \<open>\<rho>\<close> and memory \<open>m\<close>: an \<^verbatim>\<open>scf.if\<close> and the
  \<open>select(pred, 1, 0)\<close> of a switch run arm 0 when the condition holds. \<open>truth\<close> reads the \<^verbatim>\<open>i1\<close> the comparison yields.
\<close>

definition cond_value :: "'v arith_api \<Rightarrow> ('v \<Rightarrow> bool) \<Rightarrow> (nat \<Rightarrow> int) \<Rightarrow> 'v memory \<Rightarrow> region_cond \<Rightarrow> bool res" where
  "cond_value A truth \<rho> m c =
     (case c of
        IndexC c \<Rightarrow> Inr (cond_holds \<rho> c)
      | ValueC f a b \<Rightarrow> res_bind (value_materialize f a b) (\<lambda>v. Inr (truth (lane A \<rho> m [] v 0))))"

definition region_taken :: "'v arith_api \<Rightarrow> ('v \<Rightarrow> bool) \<Rightarrow> (nat \<Rightarrow> int) \<Rightarrow> 'v memory \<Rightarrow> region_cond \<Rightarrow> nat res" where
  "region_taken A truth \<rho> m c = res_bind (cond_value A truth \<rho> m c) (\<lambda>h. Inr (if h then 0 else 1))"

section \<open>A single value is what its expression denotes\<close>

lemma emit_scalar_value_computes:
  assumes "emit_scalar_value e d = Inr v" and "typed d e" and "index_cast_exact A"
    and "keyed (set (expr_leaves e))" and "\<forall>l \<in> set (expr_leaves e). wf_read l"
  shows "expr_shape e = Some [] \<and> lane A \<rho> m [] v 0 = denote A \<rho> m d e []"
proof -
  let ?env = "\<lparr>ne_shape = [], ne_ivs = [], ne_zero = zero_index_if (pins_for e []), ne_lanes = None,
                   ne_regions = regions_in e (Some d) [], ne_repack = False\<rparr>"
  obtain rs where ev: "eval_node ?env d e [] = Inr (v, rs)" and shape: "expr_shape e = Some []"
    using assms(1) unfolding emit_scalar_value_def Let_def
    by (auto simp: res_bind_Inr_iff split: option.splits if_splits)
  have "walk_ok A \<rho> [] None [] (set (expr_leaves e)) ?env"
    using assms(3-5) by (auto simp: walk_ok_def env_ok_def Emit_Correct.trip_ok_def zero_index_if_def bump_def)
  from eval_node_computes [OF ev this, of "\<lambda>_. True"] assms(2)
  have "computes_node A \<rho> None [] v d e" by simp
  with shape show ?thesis by (simp add: computes_node_def bump_def)
qed

section \<open>The arm is the one the elements select\<close>

lemma branch_cond_cases:
  assumes "branch_cond (ExprArg e) = Inr c"
  obtains f a b where "e = CompareE f a b" and "c = ValueC f a b" and "expr_shape e = Some []"
  using assms by (cases e) (auto simp: branch_cond_def split: if_splits)

text \<open>
  C35: a branch on data decides as the comparison of the elements does. When \<open>ops.branch\<close> accepts an elementwise
  comparison it is one of single elements, and when its region is then emitted, the body runs on a core exactly if the
  comparison the expression denotes over that core's memory holds, and the \<open>otherwise\<close> region if it does not.
\<close>

theorem value_branch_decides:
  assumes "branch_cond (ExprArg e) = Inr c" and "region_taken A truth \<rho> m c = Inr k" and "element_dtype e = Some d"
    and "typed d e" and "index_cast_exact A"
    and "keyed (set (expr_leaves e))" and "\<forall>l \<in> set (expr_leaves e). wf_read l"
  shows "expr_shape e = Some [] \<and> k = (if truth (denote A \<rho> m d e []) then 0 else 1)"
proof -
  obtain f a b where e: "e = CompareE f a b" and c: "c = ValueC f a b" and shape: "expr_shape e = Some []"
    using assms(1) by (rule branch_cond_cases)
  obtain v where v: "value_materialize f a b = Inr v" and k: "k = (if truth (lane A \<rho> m [] v 0) then 0 else 1)"
    using assms(2) unfolding region_taken_def cond_value_def c by (auto simp: res_bind_Inr_iff)
  have "first_some (element_dtype a) (element_dtype b) = Some d"
    using assms(3) unfolding e by simp
  then have "emit_scalar_value e d = Inr v"
    using v unfolding value_materialize_def e first_some_def by simp
  from emit_scalar_value_computes [OF this assms(4-7)] k shape show ?thesis by simp
qed

text \<open>A counter in a tile of four elements, compared with a constant.\<close>

definition counter_test :: "dtype \<Rightarrow> int \<Rightarrow> bexpr" where
  "counter_test d n =
     (case buffer_region (Buffer 1 [4] d None L1 False) [Index (VInt 2)] of
        Inl _ \<Rightarrow> ScalarE (SNum (NInt 0))
      | Inr r \<Rightarrow> CompareE ''lt'' (BufferE (ReadRegion r)) (ScalarE (SNum (NInt n))))"

definition counter_memory :: "int memory" where "counter_memory b a = 10 * int b + last a"

lemma counter_accepted:
  "(case branch_cond (ExprArg (counter_test i32 13)) of Inl _ \<Rightarrow> None
     | Inr c \<Rightarrow> (case region_taken int_api (\<lambda>v. v \<noteq> 0) (\<lambda>_. 0) counter_memory c of Inl _ \<Rightarrow> None | Inr k \<Rightarrow> Some k)) = Some 0"
  by code_simp

theorem value_branch_decides_witness:
  "\<exists>c. branch_cond (ExprArg (counter_test i32 13)) = Inr c \<and>
     region_taken int_api (\<lambda>v. v \<noteq> 0) (\<lambda>_. 0) counter_memory c = Inr 0 \<and>
     denote int_api (\<lambda>_. 0) counter_memory i32 (counter_test i32 13) [] \<noteq> 0"
proof -
  obtain c where c: "branch_cond (ExprArg (counter_test i32 13)) = Inr c"
    and k: "region_taken int_api (\<lambda>v. v \<noteq> 0) (\<lambda>_. 0) counter_memory c = Inr 0"
    using counter_accepted by (auto split: sum.splits)
  have "element_dtype (counter_test i32 13) = Some i32" and "typed i32 (counter_test i32 13)"
    by code_simp+
  moreover have "keyed (set (expr_leaves (counter_test i32 13)))"
    and "\<forall>l \<in> set (expr_leaves (counter_test i32 13)). wf_read l"
    by code_simp+
  ultimately have "(0 :: nat) = (if denote int_api (\<lambda>_. 0) counter_memory i32 (counter_test i32 13) [] \<noteq> 0 then 0 else 1)"
    using value_branch_decides [OF c k _ _ int_api_index] by blast
  with c k show ?thesis by (auto split: if_splits)
qed

section \<open>Types a comparison should refuse\<close>

text \<open>
  \<open>ValueCondition.materialize\<close> asks neither \<open>require_signless\<close> nor \<open>require_computable\<close>, so a comparison is emitted on
  an unsigned tile, whose elements no arith operation takes, and on an f16 tile, on which the core cannot compute;
  the same comparison in an assignment is refused.
\<close>

lemma unsigned_branch_emitted:
  "require_signless ui8 = Inl NotImplementedError \<and>
   (case branch_cond (ExprArg (counter_test ui8 3)) of Inr (ValueC f a b) \<Rightarrow> \<not> isl (value_materialize f a b) | _ \<Rightarrow> False)"
  by code_simp

lemma f16_branch_emitted:
  "require_computable f16 = Inl NotImplementedError \<and>
   (case branch_cond (ExprArg (counter_test f16 3)) of Inr (ValueC f a b) \<Rightarrow> \<not> isl (value_materialize f a b) | _ \<Rightarrow> False)"
  by code_simp

text \<open>Nor are the element types of the two operands compared: a 16-bit element is compared with a 32-bit one.\<close>

definition mixed_test :: bexpr where
  "mixed_test =
     CompareE ''lt'' (BufferE (ReadWhole (Buffer 1 [] i32 None L1 False))) (BufferE (ReadWhole (Buffer 2 [] i16 None L1 False)))"

lemma mixed_widths_compared:
  "(case branch_cond (ExprArg mixed_test) of
      Inr (ValueC f a b) \<Rightarrow>
        (case value_materialize f a b of Inr (ICmp d g v w) \<Rightarrow> d = i32 \<and> element_dtype b = Some i16 | _ \<Rightarrow> False)
    | _ \<Rightarrow> False)"
  by code_simp

end
