(* ===== verification/Ops_Ext.thy ===== *)
theory Ops_Ext
  imports Data_Transfer
begin

text \<open>
  The op classes of the dialect bindings, \<^verbatim>\<open>src/python/air/dialects/_air_ops_ext.py\<close>: access patterns split into
  static and dynamic halves, the three memcpy ops, the block arguments of the region ops and calls; and the DMA that
  \<open>_emit_dma\<close> of \<^verbatim>\<open>src/python/air/api/ops.py\<close> builds with them. The classes generated from the dialect are not part of
  the repository: an op is the record of what is handed to their constructors, and \<open>ShapedType::kDynamic\<close> is the
  argument \<open>dyn\<close>. The theory shows that the op of an accepted transfer moves what the transfer describes.
\<close>

section \<open>Static and dynamic halves\<close>

text \<open>An entry of an access pattern: a Python int or an SSA value.\<close>

datatype 'v entry = PyInt int | Ssa 'v

fun split_static_dynamic :: "int \<Rightarrow> 'v entry list \<Rightarrow> 'v list \<times> int list" where
  "split_static_dynamic dyn [] = ([], [])"
| "split_static_dynamic dyn (PyInt k # es) = (case split_static_dynamic dyn es of (ds, ss) \<Rightarrow> (ds, k # ss))"
| "split_static_dynamic dyn (Ssa v # es) = (case split_static_dynamic dyn es of (ds, ss) \<Rightarrow> (v # ds, dyn # ss))"

text \<open>How the dialect reads the two halves: a dynamic mark stands for the next operand.\<close>

fun mixed :: "int \<Rightarrow> 'v list \<Rightarrow> int list \<Rightarrow> 'v entry list option" where
  "mixed dyn [] [] = Some []"
| "mixed dyn (v # ds) [] = None"
| "mixed dyn ds (s # ss) =
     (if s \<noteq> dyn then map_option ((#) (PyInt s)) (mixed dyn ds ss)
      else (case ds of [] \<Rightarrow> None | v # ds \<Rightarrow> map_option ((#) (Ssa v)) (mixed dyn ds ss)))"

lemma split_length: "length (snd (split_static_dynamic dyn es)) = length es"
  by (induction dyn es rule: split_static_dynamic.induct) (auto split: prod.splits)

lemma split_mixed:
  "PyInt dyn \<notin> set es \<Longrightarrow> mixed dyn (fst (split_static_dynamic dyn es)) (snd (split_static_dynamic dyn es)) = Some es"
  by (induction dyn es rule: split_static_dynamic.induct) (auto split: prod.splits)

lemma mixed_no_static_mark: "mixed dyn ds ss = Some es \<Longrightarrow> PyInt dyn \<notin> set es"
  by (induction dyn ds ss arbitrary: es rule: mixed.induct) (auto split: if_splits list.splits)

lemma mixed_split_iff:
  "mixed dyn (fst (split_static_dynamic dyn es)) (snd (split_static_dynamic dyn es)) = Some es \<longleftrightarrow> PyInt dyn \<notin> set es"
  using split_mixed mixed_no_static_mark by blast

section \<open>Memcpy operations\<close>

text \<open>One side of a memcpy: three access lists, each in two halves.\<close>

record 'v accesses =
  dynamic_offsets :: "'v list"
  dynamic_sizes :: "'v list"
  dynamic_strides :: "'v list"
  static_offsets :: "int list"
  static_sizes :: "int list"
  static_strides :: "int list"

definition accesses_of :: "int \<Rightarrow> 'v entry list \<Rightarrow> 'v entry list \<Rightarrow> 'v entry list \<Rightarrow> 'v accesses" where
  "accesses_of dyn offs szs strs =
     (let (dyn_offsets, static_offsets) = split_static_dynamic dyn offs;
          (dyn_sizes, static_sizes) = split_static_dynamic dyn szs;
          (dyn_strides, static_strides) = split_static_dynamic dyn strs in
      \<lparr>dynamic_offsets = dyn_offsets, dynamic_sizes = dyn_sizes, dynamic_strides = dyn_strides,
       static_offsets = static_offsets, static_sizes = static_sizes, static_strides = static_strides\<rparr>)"

definition mixed_accesses :: "int \<Rightarrow> 'v accesses \<Rightarrow> ('v entry list \<times> 'v entry list \<times> 'v entry list) option" where
  "mixed_accesses dyn p =
     (case (mixed dyn (dynamic_offsets p) (static_offsets p), mixed dyn (dynamic_sizes p) (static_sizes p),
            mixed dyn (dynamic_strides p) (static_strides p)) of
        (Some offs, Some szs, Some strs) \<Rightarrow> Some (offs, szs, strs)
      | _ \<Rightarrow> None)"

lemma mixed_accesses_of:
  assumes "PyInt dyn \<notin> set offs \<union> set szs \<union> set strs"
  shows "mixed_accesses dyn (accesses_of dyn offs szs strs) = Some (offs, szs, strs)"
  using assms split_mixed [of dyn offs] split_mixed [of dyn szs] split_mixed [of dyn strs]
  by (simp add: mixed_accesses_def accesses_of_def split_beta)

text \<open>Padding is given on both sides or not at all.\<close>

definition check_pads :: "int list option \<Rightarrow> int list option \<Rightarrow> unit res" where
  "check_pads pad_before pad_after = res_check ((pad_before = None) = (pad_after = None)) ValueError"

record ('m, 'v) memcpy_nd =
  nd_dst :: 'm
  nd_dst_accesses :: "'v accesses"
  nd_src :: 'm
  nd_src_accesses :: "'v accesses"
  nd_pads :: "int list option \<times> int list option"

type_synonym 'v triple = "'v entry list \<times> 'v entry list \<times> 'v entry list"

definition dma_memcpy_nd ::
  "int \<Rightarrow> 'm \<Rightarrow> 'm \<Rightarrow> 'v triple \<Rightarrow> 'v triple \<Rightarrow> int list option \<Rightarrow> int list option \<Rightarrow> ('m, 'v) memcpy_nd res"
where
  "dma_memcpy_nd dyn dst src dst_pattern src_pattern pad_before pad_after =
     res_bind (check_pads pad_before pad_after) (\<lambda>_.
     case (dst_pattern, src_pattern) of
       ((dst_offsets, dst_sizes, dst_strides), (src_offsets, src_sizes, src_strides)) \<Rightarrow>
         Inr \<lparr>nd_dst = dst, nd_dst_accesses = accesses_of dyn dst_offsets dst_sizes dst_strides,
              nd_src = src, nd_src_accesses = accesses_of dyn src_offsets src_sizes src_strides,
              nd_pads = (pad_before, pad_after)\<rparr>)"

text \<open>\<open>ChannelGet\<close> and \<open>ChannelPut\<close>; Python ints among the indices and the destination become constants.\<close>

datatype 'v index_value = ConstantIndex int | IndexValue 'v

fun pyint_to_index :: "'v entry \<Rightarrow> 'v index_value" where
  "pyint_to_index (PyInt i) = ConstantIndex i"
| "pyint_to_index (Ssa v) = IndexValue v"

record ('m, 'v) channel_op =
  ch_symbol :: string
  ch_op_indices :: "'v index_value list"
  ch_memref :: 'm
  ch_accesses :: "'v accesses"
  ch_dest :: "'v index_value option"
  ch_pads :: "int list option \<times> int list option"

definition channel_put_op ::
  "int \<Rightarrow> string \<Rightarrow> 'm \<Rightarrow> 'v triple \<Rightarrow> 'v entry list \<Rightarrow> 'v entry option \<Rightarrow> int list option \<Rightarrow> int list option
    \<Rightarrow> ('m, 'v) channel_op res"
where
  "channel_put_op dyn chan_name mem p indices dest pad_before pad_after =
     (let dest = map_option pyint_to_index dest in
      res_bind (check_pads pad_before pad_after) (\<lambda>_.
      case p of (offs, szs, strs) \<Rightarrow>
        Inr \<lparr>ch_symbol = chan_name, ch_op_indices = map pyint_to_index indices, ch_memref = mem,
             ch_accesses = accesses_of dyn offs szs strs, ch_dest = dest, ch_pads = (pad_before, pad_after)\<rparr>))"

definition channel_get_op ::
  "int \<Rightarrow> string \<Rightarrow> 'm \<Rightarrow> 'v triple \<Rightarrow> 'v entry list \<Rightarrow> int list option \<Rightarrow> int list option \<Rightarrow> ('m, 'v) channel_op res"
where
  "channel_get_op dyn chan_name mem p indices pad_before pad_after =
     res_bind (check_pads pad_before pad_after) (\<lambda>_.
     case p of (offs, szs, strs) \<Rightarrow>
       Inr \<lparr>ch_symbol = chan_name, ch_op_indices = map pyint_to_index indices, ch_memref = mem,
            ch_accesses = accesses_of dyn offs szs strs, ch_dest = None, ch_pads = (pad_before, pad_after)\<rparr>)"

section \<open>The DMA of a transfer\<close>

text \<open>An SSA operand of an access pattern is one \<^verbatim>\<open>affine.apply\<close>: its map and the leaves it is applied to.\<close>

type_synonym 'e applied = "'e \<times> leaf list"

fun entry_of :: "'e materialized \<Rightarrow> 'e applied entry" where
  "entry_of (MInt k) = PyInt k"
| "entry_of (MApply x ls) = Ssa (x, ls)"

text \<open>The keyword arguments of an endpoint: its pattern, or the three empty defaults for a whole memref.\<close>

definition endpoint_args :: "'e affine_api \<Rightarrow> endpoint \<Rightarrow> 'e applied triple" where
  "endpoint_args A ep =
     (case ep_pattern ep of
        None \<Rightarrow> ([], [], [])
      | Some (offs, szs, strs) \<Rightarrow> (map (\<lambda>e. entry_of (index_materialize A e)) offs, map PyInt szs, map PyInt strs))"

definition emit_dma :: "'e affine_api \<Rightarrow> int \<Rightarrow> dma \<Rightarrow> (memref, 'e applied) memcpy_nd res" where
  "emit_dma A dyn D =
     dma_memcpy_nd dyn (ep_value (dma_dst D)) (ep_value (dma_src D)) (endpoint_args A (dma_dst D))
       (endpoint_args A (dma_src D)) None None"

section \<open>Meaning of a memcpy operation\<close>

text \<open>
  The documented meaning of \<^verbatim>\<open>air.dma_memcpy_nd\<close>: with all three lists of a side empty it walks the whole memref, of
  \<open>extent\<close> elements, and otherwise the walk of the mixed lists. \<open>sem\<close> is the meaning of an affine map.
\<close>

fun entry_val :: "('e \<Rightarrow> int list \<Rightarrow> int) \<Rightarrow> (nat \<Rightarrow> int) \<Rightarrow> 'e applied entry \<Rightarrow> int" where
  "entry_val sem \<rho> (PyInt k) = k"
| "entry_val sem \<rho> (Ssa (x, ls)) = sem x (map (eval_leaf \<rho>) ls)"

definition side_walk ::
  "int \<Rightarrow> ('e \<Rightarrow> int list \<Rightarrow> int) \<Rightarrow> (nat \<Rightarrow> int) \<Rightarrow> (memref \<Rightarrow> int) \<Rightarrow> memref \<Rightarrow> 'e applied accesses \<Rightarrow> int list option"
where
  "side_walk dyn sem \<rho> extent mem p =
     (case mixed_accesses dyn p of
        None \<Rightarrow> None
      | Some (offs, szs, strs) \<Rightarrow>
          if offs = [] \<and> szs = [] \<and> strs = [] then Some (map int [0..<nat (extent mem)])
          else Some (walk (zip (map (entry_val sem \<rho>) offs)
                 (zip (map (entry_val sem \<rho>) szs) (map (entry_val sem \<rho>) strs)))))"

definition run_memcpy ::
  "int \<Rightarrow> ('e \<Rightarrow> int list \<Rightarrow> int) \<Rightarrow> (nat \<Rightarrow> int) \<Rightarrow> (memref \<Rightarrow> int) \<Rightarrow> (memref, 'e applied) memcpy_nd \<Rightarrow> 'v store_map
    \<Rightarrow> 'v store_map option"
where
  "run_memcpy dyn sem \<rho> extent op m =
     (case (side_walk dyn sem \<rho> extent (nd_dst op) (nd_dst_accesses op),
            side_walk dyn sem \<rho> extent (nd_src op) (nd_src_accesses op)) of
        (Some ds, Some ss) \<Rightarrow> Some (foldl (copy_one (nd_dst op) (nd_src op)) m (zip ds ss))
      | _ \<Rightarrow> None)"

text \<open>
  What an endpoint needs for the op to say the same: linear forms in the normal form, no number that reads as the
  dynamic mark, a pattern of at least one axis, and a whole array that is the whole memref.
\<close>

definition expressible :: "int \<Rightarrow> (memref \<Rightarrow> int) \<Rightarrow> endpoint \<Rightarrow> bool" where
  "expressible dyn extent ep \<longleftrightarrow>
     (case ep_pattern ep of
        None \<Rightarrow> extent (ep_value ep) = prod_list (ep_sizes ep)
      | Some (offs, szs, strs) \<Rightarrow>
          offs \<noteq> [] \<and> dyn \<notin> set szs \<and> dyn \<notin> set strs \<and> (\<forall>e \<in> set offs. wf_index e \<and> (terms e = [] \<longrightarrow> const e \<noteq> dyn)))"

lemma entry_of_materialize:
  assumes "affine_laws A sem" and "wf_index e"
  shows "entry_val sem \<rho> (entry_of (index_materialize A e)) = eval_index \<rho> e"
proof (cases "terms e = []")
  case False
  then have m: "index_materialize A e = MApply (index_affine A (\<lambda>l. get_symbol A (position_of (index_leaves e) l)) e) (index_leaves e)"
    by (simp add: index_materialize_def Let_def)
  with materialize_spec [OF assms m] show ?thesis by simp
qed (simp add: index_materialize_def eval_no_terms)

lemma entry_of_static: "entry_of (index_materialize A e) = PyInt k \<longleftrightarrow> terms e = [] \<and> const e = k"
  by (simp add: index_materialize_def Let_def)

lemma side_walk_endpoint:
  assumes A: "affine_laws A sem" and ep: "expressible dyn extent ep"
    and args: "endpoint_args A ep = (offs, szs, strs)"
  shows "side_walk dyn sem \<rho> extent (ep_value ep) (accesses_of dyn offs szs strs) = Some (endpoint_walk \<rho> ep)"
proof (cases "ep_pattern ep")
  case None
  then have "offs = []" "szs = []" "strs = []" using args by (simp_all add: endpoint_args_def)
  with None ep show ?thesis
    by (simp add: side_walk_def accesses_of_def mixed_accesses_def expressible_def endpoint_walk_def)
next
  case (Some p)
  obtain os ns ts where p: "p = (os, ns, ts)" by (cases p)
  have args': "offs = map (\<lambda>e. entry_of (index_materialize A e)) os" "szs = map PyInt ns" "strs = map PyInt ts"
    using args Some p by (simp_all add: endpoint_args_def)
  have ok: "os \<noteq> []" "dyn \<notin> set ns" "dyn \<notin> set ts" "\<forall>e \<in> set os. wf_index e \<and> (terms e = [] \<longrightarrow> const e \<noteq> dyn)"
    using ep Some p by (simp_all add: expressible_def)
  have "PyInt dyn \<notin> set offs"
    using ok(4) entry_of_static [of A _ dyn] unfolding args' by (auto simp: image_iff) metis
  moreover have "PyInt dyn \<notin> set szs" "PyInt dyn \<notin> set strs" using ok args' by auto
  ultimately have m: "mixed_accesses dyn (accesses_of dyn offs szs strs) = Some (offs, szs, strs)"
    by (intro mixed_accesses_of) auto
  have "map (entry_val sem \<rho>) offs = map (eval_index \<rho>) os"
    using ok(4) entry_of_materialize [OF A] by (simp add: args')
  moreover have "map (entry_val sem \<rho>) szs = ns" "map (entry_val sem \<rho>) strs = ts"
    by (simp_all add: args' comp_def)
  moreover have "offs \<noteq> []" using ok(1) by (simp add: args')
  ultimately show ?thesis using Some p m by (simp add: side_walk_def endpoint_walk_def)
qed

text \<open>
  C4: the emitted DMA is the transfer, for endpoints that an op can express: with a pattern of at least one axis whose sizes,
  strides and constant offsets differ from the number that marks a dynamic entry and whose offsets are in normal form, or
  without a pattern, where the memref is moved whole and has as many elements as the endpoint. Then \<open>_emit_dma\<close> builds an op; and
  that op, read back from its static and dynamic halves with one \<^verbatim>\<open>affine.apply\<close> per runtime offset, moves at every value
  of the coordinates exactly what the transfer describes.
\<close>

theorem emitted_dma_moves:
  assumes "affine_laws A sem" and "expressible dyn extent (dma_dst D)" and "expressible dyn extent (dma_src D)"
  shows "\<exists>op. emit_dma A dyn D = Inr op \<and> run_memcpy dyn sem \<rho> extent op m = Some (run_dma \<rho> D m)"
proof -
  obtain dos dns dts where d: "endpoint_args A (dma_dst D) = (dos, dns, dts)" by (cases "endpoint_args A (dma_dst D)")
  obtain sos sns sts where s: "endpoint_args A (dma_src D) = (sos, sns, sts)" by (cases "endpoint_args A (dma_src D)")
  show ?thesis
    using side_walk_endpoint [OF assms(1,2) d, of \<rho>] side_walk_endpoint [OF assms(1,3) s, of \<rho>]
    by (simp add: emit_dma_def dma_memcpy_nd_def check_pads_def d s run_memcpy_def run_dma_def)
qed

text \<open>A row of a tensor chosen by a core's coordinate, loaded into a buffer.\<close>

definition row_transfer :: dma where
  "row_transfer =
     \<lparr>dma_dst = \<lparr>ep_value = BufferMem 0, ep_dtype = i32, ep_sizes = [1, 3], ep_pattern = None, ep_tensor = None, ep_view = False\<rparr>,
      dma_src = \<lparr>ep_value = TensorMem 0, ep_dtype = i32, ep_sizes = [1, 3],
                 ep_pattern = Some ([IndexExpr [(Leaf 0 ''tx'' True, 2)] 1, index_constant 0], [1, 3], [3, 1]),
                 ep_tensor = Some 0, ep_view = False\<rparr>\<rparr>"

theorem emitted_dma_moves_witness:
  "\<exists>op m'. emit_dma fn_affine (- 9223372036854775808) row_transfer = Inr op \<and>
     run_memcpy (- 9223372036854775808) (\<lambda>x. x) (\<lambda>_. 2) (\<lambda>_. 3) op (\<lambda>r a. case r of TensorMem i \<Rightarrow> 10 * a | BufferMem i \<Rightarrow> 0)
       = Some m' \<and> map (m' (BufferMem 0)) [0, 1, 2] = [150, 160, 170 :: int]"
proof -
  let ?m = "\<lambda>r a. case r of TensorMem i \<Rightarrow> 10 * a | BufferMem i \<Rightarrow> (0 :: int)"
  have "expressible (- 9223372036854775808) (\<lambda>_. 3) (dma_dst row_transfer)"
    "expressible (- 9223372036854775808) (\<lambda>_. 3) (dma_src row_transfer)"
    by (simp_all add: expressible_def row_transfer_def index_constant_def mk_index_def)
  from emitted_dma_moves [OF fn_affine_laws this, of "\<lambda>_. 2" ?m]
  obtain op where "emit_dma fn_affine (- 9223372036854775808) row_transfer = Inr op"
    "run_memcpy (- 9223372036854775808) (\<lambda>x. x) (\<lambda>_. 2) (\<lambda>_. 3) op ?m = Some (run_dma (\<lambda>_. 2) row_transfer ?m)" by blast
  moreover have "map (run_dma (\<lambda>_. 2) row_transfer ?m (BufferMem 0)) [0, 1, 2] = [150, 160, 170]" by code_simp
  ultimately show ?thesis by (intro exI conjI)
qed

text \<open>The same of a channel put: its halves say the pattern of the endpoint, and its ints are index constants.\<close>

lemma channel_put_keeps_pattern:
  assumes "channel_put_op dyn name mem (offs, szs, strs) indices dest pb pa = Inr op"
    and "PyInt dyn \<notin> set offs \<union> set szs \<union> set strs"
  shows "mixed_accesses dyn (ch_accesses op) = Some (offs, szs, strs)" and "length (ch_op_indices op) = length indices"
  using assms by (auto simp: channel_put_op_def Let_def res_bind_Inr_iff mixed_accesses_of)

text \<open>
  A view of no axes has an empty pattern, which an op reads as the whole memref: one element of a tile of four,
  reshaped to a scalar, is described as a transfer of one element and emitted as a transfer of four.
\<close>

definition one_element :: "buffer_slice res" where
  "one_element =
     res_bind (buffer_region (Buffer 0 [4] i32 None L1 False) [Slice (Some (VInt 0)) (Some (VInt 1)) None]) (\<lambda>v.
       region_reshape v [])"

lemma rank0_view_moves_whole:
  "(case one_element of Inl _ \<Rightarrow> None
     | Inr v \<Rightarrow> Some (elements (logical_sizes v), length (region_walk (\<lambda>_. 0) v),
         case region_pattern v of (offs, szs, strs) \<Rightarrow>
           map_option length (side_walk (- 9223372036854775808) (\<lambda>x :: int list \<Rightarrow> int. x) (\<lambda>_. 0) (\<lambda>_. 4) (BufferMem 0)
             (accesses_of (- 9223372036854775808) (map (\<lambda>e. entry_of (index_materialize fn_affine e)) offs)
               (map PyInt szs) (map PyInt strs)))))
   = Some (1, 1, Some 4)"
  by code_simp

section \<open>Region operations\<close>

text \<open>
  What may be passed to \<^verbatim>\<open>air.launch\<close>, \<^verbatim>\<open>air.segment\<close>, \<^verbatim>\<open>air.herd\<close> and \<^verbatim>\<open>air.rank\<close>: a value with its type, an operation
  with the types of its results, or something else. A size is a Python int or a value.
\<close>

datatype 'ty region_operand = ValueOperand 'ty | OpOperand "'ty list" | OtherOperand

fun get_region_operand_types :: "'ty region_operand list \<Rightarrow> 'ty list res" where
  "get_region_operand_types [] = Inr []"
| "get_region_operand_types (ValueOperand ty # os) =
     res_bind (get_region_operand_types os) (\<lambda>tys. Inr (ty # tys))"
| "get_region_operand_types (OpOperand rs # os) =
     (if length rs \<noteq> 1 then Inl AttributeError
      else res_bind (get_region_operand_types os) (\<lambda>tys. Inr (rs @ tys)))"
| "get_region_operand_types (OtherOperand # os) = Inl AttributeError"

definition size_type :: "'ty \<Rightarrow> 'ty entry \<Rightarrow> 'ty" where
  "size_type index_ty s = (case s of PyInt i \<Rightarrow> index_ty | Ssa ty \<Rightarrow> ty)"

text \<open>The block arguments of a region op: an id and a size for each dimension, then the operands.\<close>

definition region_block_args :: "'ty \<Rightarrow> 'ty entry list \<Rightarrow> 'ty region_operand list \<Rightarrow> 'ty list res" where
  "region_block_args index_ty szs operands =
     res_bind (get_region_operand_types operands) (\<lambda>tys.
       Inr (map (size_type index_ty) szs @ map (size_type index_ty) szs @ tys))"

fun operand_type :: "'ty region_operand \<Rightarrow> 'ty option" where
  "operand_type (ValueOperand ty) = Some ty"
| "operand_type (OpOperand [ty]) = Some ty"
| "operand_type _ = None"

lemma operand_types_iff: "get_region_operand_types os = Inr tys \<longleftrightarrow> map operand_type os = map Some tys"
proof (induction os arbitrary: tys rule: get_region_operand_types.induct)
  case (2 ty os)
  then show ?case by (cases tys) (auto simp: res_bind_Inr_iff)
next
  case (3 rs os)
  show ?case
  proof (cases "length rs = 1")
    case True
    then obtain r where "rs = [r]" by (auto simp: length_Suc_conv)
    with 3 show ?thesis by (cases tys) (auto simp: res_bind_Inr_iff)
  next
    case False
    then have "operand_type (OpOperand rs) = None" by (cases "OpOperand rs" rule: operand_type.cases) auto
    with False show ?thesis by (cases tys) auto
  qed
qed auto

lemma block_args_pair_operands:
  assumes "region_block_args index_ty szs operands = Inr args" and "i < length operands"
  shows "length args = 2 * length szs + length operands"
    and "operand_type (operands ! i) = Some (args ! (2 * length szs + i))"
proof -
  obtain tys where tys: "map operand_type operands = map Some tys"
    and args: "args = map (size_type index_ty) szs @ map (size_type index_ty) szs @ tys"
    using assms(1) by (auto simp: region_block_args_def res_bind_Inr_iff operand_types_iff)
  have len: "length tys = length operands" using tys by (metis length_map)
  then show "length args = 2 * length szs + length operands" by (simp add: args)
  show "operand_type (operands ! i) = Some (args ! (2 * length szs + i))"
    using arg_cong [OF tys, of "\<lambda>xs. xs ! i"] assms(2) len by (simp add: args nth_append)
qed

section \<open>Calls\<close>

text \<open>
  \<open>call\<close>: the callee is a function op or a name; a Python int input becomes a constant of the type at its place.
  A call is its results, its callee and its arguments.
\<close>

datatype 'v call_input = IntInput int | ValueInput 'v

datatype ('ty, 'v) call_arg = ConstantArg 'ty int | ValueArg 'v

datatype 'ty callee = ToFunc string "'ty list" | ToName string

fun call_args :: "'v call_input list \<Rightarrow> 'ty list \<Rightarrow> ('ty, 'v) call_arg list" where
  "call_args (IntInput i # is) (ty # tys) = ConstantArg ty i # call_args is tys"
| "call_args (ValueInput v # is) (ty # tys) = ValueArg v # call_args is tys"
| "call_args _ _ = []"

record ('ty, 'v) call_op =
  call_results :: "'ty list"
  call_callee :: string
  call_arguments :: "('ty, 'v) call_arg list"

fun call_op_of :: "'ty callee \<Rightarrow> 'v call_input list \<Rightarrow> 'ty list \<Rightarrow> ('ty, 'v) call_op" where
  "call_op_of (ToFunc f results) inputs input_types =
     \<lparr>call_results = results, call_callee = f, call_arguments = call_args inputs input_types\<rparr>"
| "call_op_of (ToName f) inputs input_types =
     \<lparr>call_results = input_types, call_callee = f, call_arguments = call_args inputs input_types\<rparr>"

text \<open>
  Inputs beyond the given types are dropped, all of them with the default of no types; and a call by name takes the
  types of its inputs for the types of its results.
\<close>

lemma call_drops_untyped: "call_arguments (call_op_of (ToFunc f results) inputs []) = []"
  by (cases inputs) auto

lemma call_by_name_results: "call_results (call_op_of (ToName f) [ValueInput v] [ty]) = [ty]"
  by simp

end
