(* ===== verification/Spensor_Types.thy ===== *)
theory Spensor_Types
  imports Prelude
begin

text \<open>
  The types of the Spensor dialect: \<^verbatim>\<open>src/python/spensor/spensor/dialects/spensor_dialect.py\<close>, with the declared
  memories of \<^verbatim>\<open>src/python/spensor/spensor/passes/memory_analysis.py\<close>. A Spensor is a tensor in a memory and an
  NDSpensor a tensor of Spensors; every operation computes its result type when it is built. The theory models
  those computations and shows which of them keep the number of elements, and that combining what a split
  produced gives back the type that was split.
\<close>

section \<open>Types\<close>

record memory_type =
  mt_name :: string
  mt_shape :: "int list"

record spensor_type =
  sp_shape :: "int list"
  sp_elem :: string
  sp_memory :: memory_type

record nd_type =
  nd_shape :: "int list"
  nd_spensor :: spensor_type

text \<open>The types an operand may have; \<open>OtherT\<close> is any other type.\<close>

datatype sp_type = SpensorT spensor_type | NDSpensorT nd_type | TensorT "int list" string | OtherT

text \<open>\<open>getConstantFromSSA\<close>: the integer of the constant that defines an operand, an assertion otherwise.\<close>

definition constant_operand :: "int option \<Rightarrow> int res" where
  "constant_operand v = (case v of None \<Rightarrow> Inl AssertionError | Some k \<Rightarrow> Inr k)"

text \<open>A Python list index: a negative one counts from the end.\<close>

definition list_position :: "'a list \<Rightarrow> int \<Rightarrow> nat res" where
  "list_position xs i =
     (if 0 \<le> i \<and> i < int (length xs) then Inr (nat i)
      else if - int (length xs) \<le> i \<and> i < 0 then Inr (nat (int (length xs) + i))
      else Inl IndexError)"

text \<open>\<open>xs.pop(i)\<close>, keeping the rest.\<close>

definition pop_at :: "'a list \<Rightarrow> int \<Rightarrow> 'a list res" where
  "pop_at xs i = res_bind (list_position xs i) (\<lambda>k. Inr (take k xs @ drop (Suc k) xs))"

definition floor_div :: "int \<Rightarrow> int \<Rightarrow> int res" where
  "floor_div a b = (if b = 0 then Inl ZeroDivisionError else Inr (a div b))"

section \<open>Result types\<close>

definition split_type :: "sp_type \<Rightarrow> int option \<Rightarrow> int option \<Rightarrow> nd_type res" where
  "split_type source parts dim =
     (case source of
        SpensorT s \<Rightarrow>
          res_bind (constant_operand dim) (\<lambda>d.
          res_bind (constant_operand parts) (\<lambda>n.
          res_bind (list_position (sp_shape s) d) (\<lambda>k.
          res_bind (floor_div (sp_shape s ! k) n) (\<lambda>m.
            Inr \<lparr>nd_shape = [n], nd_spensor = s\<lparr>sp_shape := (sp_shape s)[k := m]\<rparr>\<rparr>))))
      | _ \<Rightarrow> Inl AssertionError)"

definition unit_free :: "int list \<Rightarrow> int list" where
  "unit_free ns = (let kept = filter (\<lambda>n. n \<noteq> 1) ns in if kept = [] then [1] else kept)"

definition split_all_type :: "sp_type \<Rightarrow> int list \<Rightarrow> nd_type res" where
  "split_all_type source parts =
     (case source of
        SpensorT s \<Rightarrow>
          res_bind (res_check (length (sp_shape s) = length parts) AssertionError) (\<lambda>_.
          res_bind (map_res (\<lambda>(i, j). floor_div i j) (zip (sp_shape s) parts)) (\<lambda>shape.
            Inr \<lparr>nd_shape = unit_free parts, nd_spensor = s\<lparr>sp_shape := shape\<rparr>\<rparr>))
      | _ \<Rightarrow> Inl AssertionError)"

definition repeat_type :: "sp_type \<Rightarrow> int option \<Rightarrow> int option \<Rightarrow> int list \<Rightarrow> nd_type res" where
  "repeat_type source repeats dim result =
     (let grow = (\<lambda>shape s.
        res_bind (constant_operand dim) (\<lambda>d.
        res_bind (constant_operand repeats) (\<lambda>n.
        res_bind (list_position shape d) (\<lambda>k.
        res_bind (res_check (prod_list (shape[k := shape ! k * n]) = prod_list result) AssertionError) (\<lambda>_.
          Inr \<lparr>nd_shape = result, nd_spensor = s\<rparr>)))))
      in case source of
           SpensorT s \<Rightarrow> grow [1] s
         | NDSpensorT t \<Rightarrow> grow (nd_shape t) (nd_spensor t)
         | _ \<Rightarrow> Inl AssertionError)"

definition or_unit :: "int list \<Rightarrow> int list" where
  "or_unit ns = (if ns = [] then [1] else ns)"

definition combine_type :: "sp_type \<Rightarrow> int option \<Rightarrow> int option \<Rightarrow> memory_type \<Rightarrow> nd_type res" where
  "combine_type source nd_dim dim mem =
     (case source of
        NDSpensorT t \<Rightarrow>
          res_bind (constant_operand dim) (\<lambda>d.
          res_bind (constant_operand nd_dim) (\<lambda>nd.
          let shape = sp_shape (nd_spensor t) in
          res_bind (list_position shape d) (\<lambda>k.
          res_bind (list_position (nd_shape t) nd) (\<lambda>j.
          res_bind (pop_at (nd_shape t) nd) (\<lambda>rest.
            Inr \<lparr>nd_shape = or_unit rest,
                 nd_spensor = (nd_spensor t)\<lparr>sp_shape := shape[k := shape ! k * nd_shape t ! j], sp_memory := mem\<rparr>\<rparr>)))))
      | _ \<Rightarrow> Inl AssertionError)"

text \<open>\<open>NDReduceOp.get_result_type\<close> calls \<open>sorted\<close> and drops its result: the dims are popped in the order written.\<close>

fun pop_each :: "int list \<Rightarrow> int list \<Rightarrow> int list res" where
  "pop_each xs [] = Inr xs"
| "pop_each xs (d # ds) = res_bind (pop_at xs d) (\<lambda>xs. pop_each xs ds)"

definition reduce_type :: "sp_type \<Rightarrow> int list \<Rightarrow> memory_type \<Rightarrow> nd_type res" where
  "reduce_type source dims mem =
     (case source of
        NDSpensorT t \<Rightarrow>
          res_bind (res_check (length dims \<le> length (nd_shape t)) AssertionError) (\<lambda>_.
          res_bind (pop_each (nd_shape t) (rev dims)) (\<lambda>rest.
            Inr \<lparr>nd_shape = or_unit rest, nd_spensor = (nd_spensor t)\<lparr>sp_memory := mem\<rparr>\<rparr>))
      | _ \<Rightarrow> Inl AssertionError)"

fun grow_each :: "int list \<Rightarrow> (int \<times> int) list \<Rightarrow> int list res" where
  "grow_each shape [] = Inr shape"
| "grow_each shape ((n, i) # ps) = res_bind (list_position shape i) (\<lambda>k. grow_each (shape[k := shape ! k * n]) ps)"

definition combine_to_spensor_type :: "sp_type \<Rightarrow> int list \<Rightarrow> spensor_type res" where
  "combine_to_spensor_type source index =
     (case source of
        NDSpensorT t \<Rightarrow>
          res_bind (res_check (length (nd_shape t) = length index) AssertionError) (\<lambda>_.
          res_bind (grow_each (sp_shape (nd_spensor t)) (zip (nd_shape t) index)) (\<lambda>shape.
            Inr ((nd_spensor t)\<lparr>sp_shape := shape\<rparr>)))
      | _ \<Rightarrow> Inl AssertionError)"

fun move_type :: "sp_type \<Rightarrow> memory_type \<Rightarrow> sp_type res" where
  "move_type (NDSpensorT t) mem = Inr (NDSpensorT (t\<lparr>nd_spensor := (nd_spensor t)\<lparr>sp_memory := mem\<rparr>\<rparr>))"
| "move_type (SpensorT s) mem = Inr (SpensorT (s\<lparr>sp_memory := mem\<rparr>))"
| "move_type _ mem = Inl AssertionError"

definition last_to_one :: "int list \<Rightarrow> int list res" where
  "last_to_one shape = (if shape = [] then Inl IndexError else Inr (butlast shape @ [1]))"

fun reduce_sum_type :: "sp_type \<Rightarrow> sp_type res" where
  "reduce_sum_type (NDSpensorT t) =
     res_bind (last_to_one (sp_shape (nd_spensor t))) (\<lambda>sh. Inr (NDSpensorT (t\<lparr>nd_spensor := (nd_spensor t)\<lparr>sp_shape := sh\<rparr>\<rparr>)))"
| "reduce_sum_type (SpensorT s) = res_bind (last_to_one (sp_shape s)) (\<lambda>sh. Inr (SpensorT (s\<lparr>sp_shape := sh\<rparr>)))"
| "reduce_sum_type (TensorT shape e) = res_bind (last_to_one shape) (\<lambda>sh. Inr (TensorT sh e))"
| "reduce_sum_type OtherT = Inl AssertionError"

definition matmul_shape :: "int list \<Rightarrow> int list \<Rightarrow> int list res" where
  "matmul_shape a b =
     (if length a = 2 \<and> length b = 2 \<and> a ! 1 = b ! 0 then Inr [a ! 0, b ! 1] else Inl AssertionError)"

fun matmul_type :: "sp_type \<Rightarrow> sp_type \<Rightarrow> sp_type res" where
  "matmul_type (NDSpensorT a) (NDSpensorT b) =
     res_bind (matmul_shape (sp_shape (nd_spensor a)) (sp_shape (nd_spensor b))) (\<lambda>sh.
     res_bind (res_check (sp_memory (nd_spensor a) = sp_memory (nd_spensor b)) AssertionError) (\<lambda>_.
       Inr (NDSpensorT (a\<lparr>nd_spensor := (nd_spensor a)\<lparr>sp_shape := sh\<rparr>\<rparr>))))"
| "matmul_type (SpensorT a) (SpensorT b) =
     res_bind (matmul_shape (sp_shape a) (sp_shape b)) (\<lambda>sh.
     res_bind (res_check (sp_memory a = sp_memory b) AssertionError) (\<lambda>_. Inr (SpensorT (a\<lparr>sp_shape := sh\<rparr>))))"
| "matmul_type (TensorT a e) (TensorT b f) = res_bind (matmul_shape a b) (\<lambda>sh. Inr (TensorT sh e))"
| "matmul_type _ _ = Inl AssertionError"

section \<open>Writing a combined result into an output argument\<close>

text \<open>
  \<open>reverseCombine\<close> of \<^verbatim>\<open>passes/bufferize_output.py\<close>: a returned Spensor that combines moved pieces becomes an
  output argument, split so that each piece can be moved into its part. \<open>None\<close> is the direct move the code emits
  when the combined shape equals the shape of the NDSpensor.
\<close>

fun assign_each :: "int list \<Rightarrow> (int \<times> int) list \<Rightarrow> int list res" where
  "assign_each xs [] = Inr xs"
| "assign_each xs ((n, i) # ps) = res_bind (list_position xs i) (\<lambda>k. assign_each (xs[k := n]) ps)"

definition reverse_combine :: "sp_type \<Rightarrow> spensor_type \<Rightarrow> int list \<Rightarrow> nd_type option res" where
  "reverse_combine source output index =
     (case source of
        NDSpensorT t \<Rightarrow>
          if sp_shape output = nd_shape t then Inr None
          else res_bind (res_check (length index = length (nd_shape t)) AssertionError) (\<lambda>_.
               res_bind (assign_each (replicate (length (sp_shape output)) 1) (zip (nd_shape t) index)) (\<lambda>parts.
               res_bind (split_all_type (SpensorT output) parts) (\<lambda>u. Inr (Some u))))
      | _ \<Rightarrow> Inl AssertionError)"

section \<open>Combining dimensions\<close>

text \<open>The factor that the pairs of extents and positions multiply position \<open>p\<close> with.\<close>

definition factor_at :: "(int \<times> int) list \<Rightarrow> nat \<Rightarrow> int" where
  "factor_at ps p = prod_list (map fst (filter (\<lambda>x. snd x = int p) ps))"

lemma factor_at_simps [simp]:
  "factor_at [] p = 1"
  "factor_at ((n, i) # ps) p = (if i = int p then n * factor_at ps p else factor_at ps p)"
  by (simp_all add: factor_at_def)

lemma list_position_nonneg [simp]: "0 \<le> i \<Longrightarrow> i < int (length xs) \<Longrightarrow> list_position xs i = Inr (nat i)"
  by (simp add: list_position_def)

lemma grow_each_factors:
  assumes "\<And>n i. (n, i) \<in> set ps \<Longrightarrow> 0 \<le> i \<and> i < int (length shape)"
  shows "grow_each shape ps = Inr (map (\<lambda>p. shape ! p * factor_at ps p) [0..<length shape])"
  using assms
proof (induction ps arbitrary: shape)
  case Nil
  show ?case by (simp add: map_nth)
next
  case (Cons x ps)
  obtain n i where x: "x = (n, i)" by (cases x)
  have i: "0 \<le> i" "i < int (length shape)"
    using Cons.prems [of n i] by (simp_all add: x)
  have "grow_each (shape[nat i := shape ! nat i * n]) ps
      = Inr (map (\<lambda>p. shape[nat i := shape ! nat i * n] ! p * factor_at ps p) [0..<length shape])"
    using Cons.prems by (subst Cons.IH) auto
  moreover have "map (\<lambda>p. shape[nat i := shape ! nat i * n] ! p * factor_at ps p) [0..<length shape]
      = map (\<lambda>p. shape ! p * factor_at (x # ps) p) [0..<length shape]"
    using i by (auto simp: x nth_list_update)
  ultimately show ?case
    using i by (simp add: x)
qed

text \<open>The positions of the partitions that a \<open>split_all\<close> keeps in the shape of its result.\<close>

definition kept_axes :: "int list \<Rightarrow> int list" where
  "kept_axes parts =
     (let ks = filter (\<lambda>k. parts ! k \<noteq> 1) [0..<length parts] in if ks = [] then [0] else map int ks)"

lemma filter_as_positions: "filter P xs = map ((!) xs) (filter (\<lambda>k. P (xs ! k)) [0..<length xs])"
proof -
  have "filter P xs = filter P (map ((!) xs) [0..<length xs])"
    by (simp add: map_nth)
  also have "\<dots> = map ((!) xs) (filter (P \<circ> (!) xs) [0..<length xs])"
    by (simp only: filter_map)
  finally show ?thesis by (simp add: comp_def)
qed

lemma factor_at_positions:
  assumes "distinct ks"
  shows "factor_at (map (\<lambda>k. (f k, int k)) ks) p = (if p \<in> set ks then f p else 1)"
  using assms by (induction ks) auto

lemma zip_unit_free:
  assumes "parts \<noteq> []"
  obtains ks where "zip (unit_free parts) (kept_axes parts) = map (\<lambda>k. (parts ! k, int k)) ks"
    "length (unit_free parts) = length (kept_axes parts)" "distinct ks" "set ks \<subseteq> {..<length parts}"
    "\<And>k. k < length parts \<Longrightarrow> k \<notin> set ks \<Longrightarrow> parts ! k = 1"
proof -
  let ?ks = "filter (\<lambda>k. parts ! k \<noteq> 1) [0..<length parts]"
  have kept: "filter (\<lambda>n. n \<noteq> 1) parts = map ((!) parts) ?ks"
    by (rule filter_as_positions)
  show thesis
  proof (cases "?ks = []")
    case True
    have units: "parts ! k = 1" if "k < length parts" for k
      using True that by (auto simp: filter_empty_conv)
    with True kept have "unit_free parts = [parts ! 0]"
      using assms by (simp add: unit_free_def)
    with True show thesis
      using assms units by (intro that [of "[0]"]) (auto simp: kept_axes_def)
  next
    case False
    with kept have u: "unit_free parts = map ((!) parts) ?ks"
      by (simp add: unit_free_def)
    have a: "kept_axes parts = map int ?ks"
      using False by (simp add: kept_axes_def Let_def)
    show thesis
    proof (rule that [of ?ks])
      show "zip (unit_free parts) (kept_axes parts) = map (\<lambda>k. (parts ! k, int k)) ?ks"
        unfolding u a by (simp add: zip_map_map zip_same_conv_map)
    qed (auto simp: u a)
  qed
qed

lemma split_all_typeD:
  assumes "split_all_type source parts = Inr t"
  obtains s where "source = SpensorT s" "length (sp_shape s) = length parts"
    "\<And>k. k < length parts \<Longrightarrow> parts ! k \<noteq> 0" "nd_shape t = unit_free parts"
    "nd_spensor t = s\<lparr>sp_shape := map (\<lambda>k. sp_shape s ! k div parts ! k) [0..<length parts]\<rparr>"
proof -
  obtain s where s: "source = SpensorT s"
    using assms by (cases source) (auto simp: split_all_type_def)
  obtain shape where len: "length (sp_shape s) = length parts"
    and sh: "map_res (\<lambda>(i, j). floor_div i j) (zip (sp_shape s) parts) = Inr shape"
    and t: "t = \<lparr>nd_shape = unit_free parts, nd_spensor = s\<lparr>sp_shape := shape\<rparr>\<rparr>"
    using assms by (auto simp: s split_all_type_def res_bind_Inr_iff)
  have l: "length shape = length parts"
    using map_res_length [OF sh] len by simp
  have k: "parts ! k \<noteq> 0 \<and> shape ! k = sp_shape s ! k div parts ! k" if "k < length parts" for k
    using map_res_nth [OF sh, of k] that len by (simp add: floor_div_def split: if_splits)
  then have "shape = map (\<lambda>k. sp_shape s ! k div parts ! k) [0..<length parts]"
    using l by (intro nth_equalityI) auto
  then show thesis
    using k len by (intro that [OF s]) (simp_all add: t)
qed

text \<open>
  A \<open>split_all\<close> loses nothing when the partitions divide the shape: combining the dimensions of its result back
  at the positions of the partitions the result keeps gives exactly the type that was split. Partitions of one are
  dropped from the shape of the result, so the positions have to be those of the others.
\<close>

theorem split_all_combines_back:
  assumes "split_all_type (SpensorT s) parts = Inr t" and "parts \<noteq> []"
    and "\<And>k. k < length parts \<Longrightarrow> parts ! k dvd sp_shape s ! k"
  shows "combine_to_spensor_type (NDSpensorT t) (kept_axes parts) = Inr s"
proof -
  have len: "length (sp_shape s) = length parts" and nd: "nd_shape t = unit_free parts"
    and sp: "nd_spensor t = s\<lparr>sp_shape := map (\<lambda>k. sp_shape s ! k div parts ! k) [0..<length parts]\<rparr>"
    using split_all_typeD [OF assms(1)] by auto
  obtain ks where z: "zip (unit_free parts) (kept_axes parts) = map (\<lambda>k. (parts ! k, int k)) ks"
    and l: "length (unit_free parts) = length (kept_axes parts)"
    and d: "distinct ks" and b: "set ks \<subseteq> {..<length parts}"
    and u: "\<And>k. k < length parts \<Longrightarrow> k \<notin> set ks \<Longrightarrow> parts ! k = 1"
    using zip_unit_free [OF assms(2)] by metis
  have "sp_shape s ! k div parts ! k * factor_at (map (\<lambda>k. (parts ! k, int k)) ks) k = sp_shape s ! k"
    if "k < length parts" for k
    using that u [OF that] assms(3) [OF that] by (cases "k \<in> set ks") (simp_all add: factor_at_positions [OF d])
  then have "map (\<lambda>k. sp_shape s ! k div parts ! k * factor_at (map (\<lambda>k. (parts ! k, int k)) ks) k) [0..<length parts]
      = sp_shape s"
    using len by (intro nth_equalityI) simp_all
  moreover have "grow_each (sp_shape (nd_spensor t)) (map (\<lambda>k. (parts ! k, int k)) ks)
      = Inr (map (\<lambda>k. sp_shape s ! k div parts ! k * factor_at (map (\<lambda>k. (parts ! k, int k)) ks) k) [0..<length parts])"
    using b by (subst grow_each_factors) (auto simp: sp)
  ultimately show ?thesis
    by (simp add: combine_to_spensor_type_def nd l z sp)
qed

lemma split_all_combines_back_witness:
  "combine_to_spensor_type
     (NDSpensorT \<lparr>nd_shape = [4, 2], nd_spensor = \<lparr>sp_shape = [4, 7, 3], sp_elem = ''f32'', sp_memory = \<lparr>mt_name = ''L3'', mt_shape = []\<rparr>\<rparr>\<rparr>)
     (kept_axes [4, 1, 2])
   = Inr \<lparr>sp_shape = [16, 7, 6], sp_elem = ''f32'', sp_memory = \<lparr>mt_name = ''L3'', mt_shape = []\<rparr>\<rparr>"
proof (rule split_all_combines_back)
  fix k :: nat
  assume "k < length [4, 1, 2 :: int]"
  then have "k = 0 \<or> k = 1 \<or> k = 2" by auto
  then show "[4, 1, 2] ! k dvd sp_shape \<lparr>sp_shape = [16, 7, 6], sp_elem = ''f32'', sp_memory = \<lparr>mt_name = ''L3'', mt_shape = []\<rparr>\<rparr> ! k"
    by auto
qed (simp_all add: split_all_type_def floor_div_def unit_free_def)

section \<open>Splitting the output\<close>

definition assigned_at :: "(int \<times> int) list \<Rightarrow> int \<Rightarrow> int \<Rightarrow> int" where
  "assigned_at ps i d = (case map_of (map prod.swap ps) i of None \<Rightarrow> d | Some n \<Rightarrow> n)"

lemma assign_each_nth:
  assumes "\<And>n i. (n, i) \<in> set ps \<Longrightarrow> 0 \<le> i \<and> i < int (length xs)" and "distinct (map snd ps)"
  shows "assign_each xs ps = Inr (map (\<lambda>p. assigned_at ps (int p) (xs ! p)) [0..<length xs])"
  using assms
proof (induction ps arbitrary: xs)
  case Nil
  show ?case by (simp add: assigned_at_def map_nth)
next
  case (Cons x ps)
  obtain n i where x: "x = (n, i)" by (cases x)
  have i: "0 \<le> i" "i < int (length xs)"
    using Cons.prems(1) [of n i] by (simp_all add: x)
  have fresh: "map_of (map prod.swap ps) i = None"
    using Cons.prems(2) by (auto simp: x map_of_eq_None_iff image_image)
  have "assign_each (xs[nat i := n]) ps
      = Inr (map (\<lambda>p. assigned_at ps (int p) (xs[nat i := n] ! p)) [0..<length xs])"
    using Cons.prems by (subst Cons.IH) auto
  moreover have "map (\<lambda>p. assigned_at ps (int p) (xs[nat i := n] ! p)) [0..<length xs]
      = map (\<lambda>p. assigned_at (x # ps) (int p) (xs ! p)) [0..<length xs]"
    using i fresh by (auto simp: x assigned_at_def nth_list_update)
  ultimately show ?case
    using i by (simp add: x)
qed

text \<open>With distinct positions, the extent assigned to a position is the factor it was multiplied with.\<close>

lemma assigned_is_factor:
  "distinct (map snd ps) \<Longrightarrow> assigned_at ps (int p) 1 = factor_at ps p"
proof (induction ps)
  case (Cons x ps)
  obtain n i where x: "x = (n, i)" by (cases x)
  have "factor_at ps p = 1" if "i = int p"
  proof -
    have "int p \<notin> snd ` set ps"
      using Cons.prems that by (simp add: x)
    then have "filter (\<lambda>y. snd y = int p) ps = []"
      by (force simp: filter_empty_conv)
    then show ?thesis by (simp add: factor_at_def)
  qed
  with Cons show ?case by (auto simp: x assigned_at_def)
qed (simp add: assigned_at_def)

text \<open>The factors in the order of the positions are the extents themselves when the positions increase.\<close>

lemma factors_in_order:
  assumes "sorted_wrt (<) (map snd ps)" and "\<And>n i. (n, i) \<in> set ps \<Longrightarrow> int a \<le> i \<and> i < int b"
  shows "filter (\<lambda>n. n \<noteq> 1) (map (factor_at ps) [a..<b]) = filter (\<lambda>n. n \<noteq> 1) (map fst ps)"
  using assms
proof (induction ps arbitrary: a)
  case Nil
  show ?case by (simp add: filter_empty_conv)
next
  case (Cons x ps)
  obtain n i where x: "x = (n, i)" by (cases x)
  have i: "int a \<le> i" "i < int b"
    using Cons.prems(2) [of n i] by (simp_all add: x)
  have above: "i < j" if "(m, j) \<in> set ps" for m j
    using Cons.prems(1) that by (force simp: x)
  have none: "factor_at ps p = 1" if "int p \<le> i" for p
  proof -
    have "filter (\<lambda>y. snd y = int p) ps = []"
      using above that by (force simp: filter_empty_conv)
    then show ?thesis by (simp add: factor_at_def)
  qed
  let ?k = "nat i"
  have "[a..<b] = [a..<?k] @ [?k..<b]"
    using i upt_add_eq_append [of a ?k "b - ?k"] by simp
  moreover have "[?k..<b] = ?k # [Suc ?k..<b]"
    using i by (simp add: upt_conv_Cons)
  moreover have "filter (\<lambda>n. n \<noteq> 1) (map (factor_at (x # ps)) [a..<?k]) = []"
    using none by (auto simp: x filter_empty_conv)
  moreover have "factor_at (x # ps) ?k = n"
    using i none [of ?k] by (simp add: x)
  moreover have tail: "map (factor_at (x # ps)) [Suc ?k..<b] = map (factor_at ps) [Suc ?k..<b]"
    using i by (auto simp: x)
  have "filter (\<lambda>n. n \<noteq> 1) (map (factor_at (x # ps)) [Suc ?k..<b]) = filter (\<lambda>n. n \<noteq> 1) (map fst ps)"
    unfolding tail using Cons.prems i above by (intro Cons.IH) (force simp: x)+
  ultimately have "filter (\<lambda>n. n \<noteq> 1) (map (factor_at (x # ps)) [a..<b])
      = (if n \<noteq> 1 then [n] else []) @ filter (\<lambda>n. n \<noteq> 1) (map fst ps)"
    by (simp del: factor_at_simps)
  then show ?case
    by (simp add: x del: factor_at_simps)
qed

lemma combine_to_spensorD:
  assumes "combine_to_spensor_type source index = Inr s"
  obtains t shape where "source = NDSpensorT t" "length (nd_shape t) = length index"
    "grow_each (sp_shape (nd_spensor t)) (zip (nd_shape t) index) = Inr shape" "s = (nd_spensor t)\<lparr>sp_shape := shape\<rparr>"
  using assms by (cases source) (auto simp: combine_to_spensor_type_def res_bind_Inr_iff)

lemma factor_at_pos:
  "(\<And>n i. (n, i) \<in> set ps \<Longrightarrow> 0 < n) \<Longrightarrow> 0 < factor_at ps p"
  unfolding factor_at_def by (rule prod_list_pos) auto

text \<open>
  A returned result that combines the dimensions of moved pieces is written into an output argument split into
  those pieces again: when each dimension of the NDSpensor is combined into a later dimension of the Spensor than the
  one before, \<open>reverse_combine\<close> splits the output into the type of the pieces, less the unit dimensions, so each
  piece moves into its own part.
\<close>

theorem reverse_combine_restores:
  assumes "combine_to_spensor_type (NDSpensorT t) index = Inr s"
    and "sorted_wrt (<) index" and "\<And>i. i \<in> set index \<Longrightarrow> 0 \<le> i \<and> i < int (length (sp_shape (nd_spensor t)))"
    and "\<And>n. n \<in> set (nd_shape t) \<Longrightarrow> 0 < n" and "sp_shape s \<noteq> nd_shape t"
  shows "reverse_combine (NDSpensorT t) s index = Inr (Some (t\<lparr>nd_shape := unit_free (nd_shape t)\<rparr>))"
proof -
  let ?shape = "sp_shape (nd_spensor t)" and ?ps = "zip (nd_shape t) index"
  let ?parts = "map (factor_at ?ps) [0..<length ?shape]"
  have len: "length (nd_shape t) = length index"
    using assms(1) by (elim combine_to_spensorD) simp
  then have snds: "map snd ?ps = index" and fsts: "map fst ?ps = nd_shape t" by simp_all
  have range: "0 \<le> i \<and> i < int (length ?shape)" if "(n, i) \<in> set ?ps" for n i
    using assms(3) set_zip_rightD [OF that] by blast
  have pos: "0 < factor_at ?ps p" for p
    by (rule factor_at_pos) (meson assms(4) set_zip_leftD)
  have dist: "distinct (map snd ?ps)"
    using assms(2) unfolding snds by (simp add: strict_sorted_iff)
  have s: "s = (nd_spensor t)\<lparr>sp_shape := map (\<lambda>p. ?shape ! p * factor_at ?ps p) [0..<length ?shape]\<rparr>"
    using assms(1) grow_each_factors [OF range] by (elim combine_to_spensorD) simp
  have "assign_each (replicate (length ?shape) 1) ?ps = Inr ?parts"
    using range by (subst assign_each_nth [OF _ dist]) (simp_all add: assigned_is_factor [OF dist])
  moreover have "split_all_type (SpensorT s) ?parts = Inr (t\<lparr>nd_shape := unit_free (nd_shape t)\<rparr>)"
  proof -
    have "factor_at ?ps p \<noteq> 0" for p
      using pos [of p] by simp
    then have "map_res (\<lambda>(i, j). floor_div i j) (zip (sp_shape s) ?parts) = Inr ?shape"
      unfolding map_res_Inr_iff by (simp add: s list_all2_conv_all_nth floor_div_def)
    moreover have "unit_free ?parts = unit_free (nd_shape t)"
      using factors_in_order [of ?ps 0 "length ?shape"] assms(2) range
      by (simp add: unit_free_def snds fsts)
    ultimately show ?thesis
      by (simp add: split_all_type_def s)
  qed
  ultimately show ?thesis
    using assms(5) len by (simp add: reverse_combine_def s)
qed

lemma reverse_combine_restores_witness:
  "reverse_combine
     (NDSpensorT \<lparr>nd_shape = [4, 2], nd_spensor = \<lparr>sp_shape = [4, 7, 3], sp_elem = ''f32'', sp_memory = \<lparr>mt_name = ''L3'', mt_shape = []\<rparr>\<rparr>\<rparr>)
     \<lparr>sp_shape = [16, 7, 6], sp_elem = ''f32'', sp_memory = \<lparr>mt_name = ''L3'', mt_shape = []\<rparr>\<rparr> [0, 2]
   = Inr (Some (\<lparr>nd_shape = [4, 2], nd_spensor = \<lparr>sp_shape = [4, 7, 3], sp_elem = ''f32'', sp_memory = \<lparr>mt_name = ''L3'', mt_shape = []\<rparr>\<rparr>\<rparr>
       \<lparr>nd_shape := unit_free [4, 2]\<rparr>))"
proof -
  let ?t = "\<lparr>nd_shape = [4, 2], nd_spensor = \<lparr>sp_shape = [4, 7, 3], sp_elem = ''f32'', sp_memory = \<lparr>mt_name = ''L3'', mt_shape = []\<rparr>\<rparr>\<rparr>"
  have "combine_to_spensor_type (NDSpensorT ?t) [0, 2]
      = Inr \<lparr>sp_shape = [16, 7, 6], sp_elem = ''f32'', sp_memory = \<lparr>mt_name = ''L3'', mt_shape = []\<rparr>\<rparr>"
    by (simp add: combine_to_spensor_type_def numeral_2_eq_2)
  then have "reverse_combine (NDSpensorT ?t)
      \<lparr>sp_shape = [16, 7, 6], sp_elem = ''f32'', sp_memory = \<lparr>mt_name = ''L3'', mt_shape = []\<rparr>\<rparr> [0, 2]
      = Inr (Some (?t\<lparr>nd_shape := unit_free (nd_shape ?t)\<rparr>))"
    by (rule reverse_combine_restores) auto
  then show ?thesis by simp
qed

text \<open>
  The increase is needed. With the positions of the example of \<open>CombineToSpensorOp\<close>, \<open>[1, 0]\<close>, the output is split
  into the transposed arrangement of pieces; with both dimensions combined into one position the second extent
  overwrites the first, and the output is split into two pieces of four times the extent.
\<close>

lemma reverse_combine_transposes:
  "reverse_combine
     (NDSpensorT \<lparr>nd_shape = [4, 2], nd_spensor = \<lparr>sp_shape = [64, 64], sp_elem = ''f32'', sp_memory = m\<rparr>\<rparr>)
     \<lparr>sp_shape = [128, 256], sp_elem = ''f32'', sp_memory = m\<rparr> [1, 0]
   = Inr (Some \<lparr>nd_shape = [2, 4], nd_spensor = \<lparr>sp_shape = [64, 64], sp_elem = ''f32'', sp_memory = m\<rparr>\<rparr>)"
  by (simp add: reverse_combine_def split_all_type_def floor_div_def unit_free_def numeral_2_eq_2)

lemma reverse_combine_overwrites:
  "combine_to_spensor_type
     (NDSpensorT \<lparr>nd_shape = [4, 2], nd_spensor = \<lparr>sp_shape = [64, 64], sp_elem = ''f32'', sp_memory = m\<rparr>\<rparr>) [0, 0]
   = Inr \<lparr>sp_shape = [512, 64], sp_elem = ''f32'', sp_memory = m\<rparr>"
  "reverse_combine
     (NDSpensorT \<lparr>nd_shape = [4, 2], nd_spensor = \<lparr>sp_shape = [64, 64], sp_elem = ''f32'', sp_memory = m\<rparr>\<rparr>)
     \<lparr>sp_shape = [512, 64], sp_elem = ''f32'', sp_memory = m\<rparr> [0, 0]
   = Inr (Some \<lparr>nd_shape = [2], nd_spensor = \<lparr>sp_shape = [256, 64], sp_elem = ''f32'', sp_memory = m\<rparr>\<rparr>)"
  by (simp_all add: combine_to_spensor_type_def reverse_combine_def split_all_type_def floor_div_def unit_free_def numeral_2_eq_2)

section \<open>What the result types lose\<close>

text \<open>A split does not check that the partitions divide the extent: the remainder is dropped.\<close>

lemma split_drops_remainder:
  "split_type (SpensorT \<lparr>sp_shape = [10, 4], sp_elem = e, sp_memory = m\<rparr>) (Some 3) (Some 0)
   = Inr \<lparr>nd_shape = [3], nd_spensor = \<lparr>sp_shape = [3, 4], sp_elem = e, sp_memory = m\<rparr>\<rparr>"
  by (simp add: split_type_def constant_operand_def floor_div_def)

text \<open>A reduction over dimensions not written in increasing order removes others, or none at all.\<close>

lemma reduce_in_order_written:
  "reduce_type (NDSpensorT \<lparr>nd_shape = [4, 2, 3], nd_spensor = s\<rparr>) [1, 0] m
   = Inr \<lparr>nd_shape = [2], nd_spensor = s\<lparr>sp_memory := m\<rparr>\<rparr>"
  "reduce_type (NDSpensorT \<lparr>nd_shape = [4, 2], nd_spensor = s\<rparr>) [1, 0] m = Inl IndexError"
  by (simp_all add: reduce_type_def pop_at_def or_unit_def list_position_def)

text \<open>A combined dimension is removed from the shape, where the documentation keeps it with extent one.\<close>

lemma combine_removes_dimension:
  "combine_type (NDSpensorT \<lparr>nd_shape = [4, 2], nd_spensor = \<lparr>sp_shape = [64, 64], sp_elem = e, sp_memory = m\<rparr>\<rparr>) (Some 1) (Some 0) l2
   = Inr \<lparr>nd_shape = [4], nd_spensor = \<lparr>sp_shape = [128, 64], sp_elem = e, sp_memory = l2\<rparr>\<rparr>"
  by (simp add: combine_type_def constant_operand_def pop_at_def or_unit_def)

end
