(* ===== verification/Spensor_Memory.thy ===== *)
theory Spensor_Memory
  imports Prelude
begin

text \<open>
  The declared memories of a Spensor module: \<^verbatim>\<open>src/python/spensor/spensor/passes/memory_analysis.py\<close> and the class
  \<open>Memory\<close> of \<^verbatim>\<open>utils/spensor_global_analysis.py\<close>. The pass collects the declarations into a mapping by name and
  asserts that every memory a declaration loads from or stores to is declared; the later passes look memories up in
  it.
\<close>

record memory_info =
  mem_name :: string
  mem_shape :: "int list"
  mem_load :: "string set"
  mem_store :: "string set"
  mem_space :: "int option"

text \<open>The properties of a \<open>spensor.declare_memory\<close> operation, whose connections are lists.\<close>

record memory_decl =
  md_name :: string
  md_shape :: "int list"
  md_load :: "string list"
  md_store :: "string list"
  md_space :: "int option"

type_synonym memories = "(string \<times> memory_info) list"

definition memory_of :: "memory_decl \<Rightarrow> memory_info" where
  "memory_of d = \<lparr>mem_name = md_name d, mem_shape = md_shape d, mem_load = set (md_load d),
     mem_store = set (md_store d), mem_space = md_space d\<rparr>"

text \<open>\<open>DeclareMemoryPattern.match_and_rewrite\<close>: a name declared before keeps its memory.\<close>

definition declare_memory :: "memory_decl \<Rightarrow> memories \<Rightarrow> memories" where
  "declare_memory d m = (if md_name d \<in> fst ` set m then m else m @ [(md_name d, memory_of d)])"

text \<open>One walk over the declarations of the module.\<close>

definition declare_all :: "memory_decl list \<Rightarrow> memories \<Rightarrow> memories" where
  "declare_all ds m = foldl (\<lambda>m d. declare_memory d m) m ds"

text \<open>
  \<open>MemoryAnalysis.apply\<close>. The walker walks the module again after a walk that declared something, so the mapping is
  that of two walks; the assertions follow.
\<close>

definition memory_analysis :: "memory_decl list \<Rightarrow> memories res" where
  "memory_analysis ds =
     (let m = declare_all ds (declare_all ds []) in
      if \<forall>(k, v) \<in> set m. mem_load v \<subseteq> fst ` set m \<and> mem_store v \<subseteq> fst ` set m then Inr m
      else Inl AssertionError)"

definition lookup_memory :: "memories \<Rightarrow> string \<Rightarrow> memory_info res" where
  "lookup_memory m name = (case map_of m name of None \<Rightarrow> Inl KeyError | Some v \<Rightarrow> Inr v)"

section \<open>The mapping\<close>

lemma declare_all_simps [simp]:
  "declare_all [] m = m"
  "declare_all (d # ds) m = declare_all ds (declare_memory d m)"
  by (simp_all add: declare_all_def)

lemma declared_keys: "fst ` set (declare_all ds m) = fst ` set m \<union> md_name ` set ds"
  by (induction ds arbitrary: m) (auto simp: declare_memory_def)

lemma declared_distinct: "distinct (map fst m) \<Longrightarrow> distinct (map fst (declare_all ds m))"
  by (induction ds arbitrary: m) (auto simp: declare_memory_def)

lemma declared_lookup:
  "map_of (declare_all ds m) k =
     (case map_of m k of Some v \<Rightarrow> Some v | None \<Rightarrow> map_option memory_of (find (\<lambda>d. md_name d = k) ds))"
proof (induction ds arbitrary: m)
  case Nil
  show ?case by (simp split: option.split)
next
  case (Cons d ds)
  then show ?case
    by (auto simp: declare_memory_def map_add_def weak_map_of_SomeI split: option.splits dest: map_of_SomeD)
      (force dest: map_of_SomeD simp: map_of_eq_None_iff)+
qed

lemma declare_all_again: "md_name ` set ds \<subseteq> fst ` set m \<Longrightarrow> declare_all ds m = m"
  by (induction ds) (auto simp: declare_memory_def)

lemma memory_analysis_one_walk:
  "memory_analysis ds =
     (if \<forall>(k, v) \<in> set (declare_all ds []). mem_load v \<subseteq> md_name ` set ds \<and> mem_store v \<subseteq> md_name ` set ds
      then Inr (declare_all ds []) else Inl AssertionError)"
  by (auto simp: memory_analysis_def Let_def declare_all_again declared_keys)

text \<open>
  The mapping that the memory analysis leaves holds one memory for each declared name, that of its first
  declaration, and is closed under its connections: a memory that one may load from or store to can be looked up
  itself, so the lookups of the later passes along connections do not raise.
\<close>

theorem memories_closed:
  assumes "memory_analysis ds = Inr m"
  shows "lookup_memory m k =
      (case find (\<lambda>d. md_name d = k) ds of None \<Rightarrow> Inl KeyError | Some d \<Rightarrow> Inr (memory_of d))
    \<and> (\<forall>v j. lookup_memory m k = Inr v \<longrightarrow> j \<in> mem_load v \<union> mem_store v \<longrightarrow>
         (\<exists>w. lookup_memory m j = Inr w \<and> mem_name w = j))"
proof -
  have m: "m = declare_all ds []"
    and closed: "\<And>k v. (k, v) \<in> set m \<Longrightarrow> mem_load v \<subseteq> md_name ` set ds \<and> mem_store v \<subseteq> md_name ` set ds"
    using assms by (auto simp: memory_analysis_one_walk split: if_splits)
  have look: "lookup_memory m k =
      (case find (\<lambda>d. md_name d = k) ds of None \<Rightarrow> Inl KeyError | Some d \<Rightarrow> Inr (memory_of d))" for k
    by (simp add: lookup_memory_def m declared_lookup split: option.split)
  have "\<exists>w. lookup_memory m j = Inr w \<and> mem_name w = j"
    if v: "lookup_memory m k = Inr v" and j: "j \<in> mem_load v \<union> mem_store v" for v j
  proof -
    have "(k, v) \<in> set m"
      using v by (auto simp: lookup_memory_def split: option.splits dest: map_of_SomeD)
    with closed j have "j \<in> md_name ` set ds" by blast
    then have "find (\<lambda>d. md_name d = j) ds \<noteq> None"
      by (auto simp: find_None_iff)
    then obtain d where d: "find (\<lambda>d. md_name d = j) ds = Some d" by blast
    then have "md_name d = j" by (auto simp: find_Some_iff)
    with d show ?thesis by (simp add: look memory_of_def)
  qed
  with look [of k] show ?thesis by blast
qed

definition strix_decls :: "memory_decl list" where
  "strix_decls =
     [\<lparr>md_name = ''L1'', md_shape = [4, 4], md_load = [''L2'', ''L3''], md_store = [''L2'', ''L3''], md_space = Some 2\<rparr>,
      \<lparr>md_name = ''L2'', md_shape = [6], md_load = [''L3''], md_store = [''L3''], md_space = Some 1\<rparr>,
      \<lparr>md_name = ''L3'', md_shape = [], md_load = [], md_store = [], md_space = Some 0\<rparr>]"

lemma memories_closed_witness:
  "\<exists>w. lookup_memory (map (\<lambda>d. (md_name d, memory_of d)) strix_decls) ''L3'' = Inr w \<and> mem_name w = ''L3''"
proof -
  have "memory_analysis strix_decls = Inr (map (\<lambda>d. (md_name d, memory_of d)) strix_decls)"
    by (simp add: memory_analysis_one_walk strix_decls_def declare_memory_def memory_of_def)
  from memories_closed [OF this, of "''L1''"] show ?thesis
    by (simp add: lookup_memory_def strix_decls_def memory_of_def)
qed

end
