(* ===== verification/Spensor_Tile.thy ===== *)
theory Spensor_Tile
  imports Spensor_Memory
begin

text \<open>
  Fitting a parallel loop into the grid of a memory: \<^verbatim>\<open>src/python/spensor/spensor/passes/tile_parallel.py\<close>. A
  \<^verbatim>\<open>scf.parallel\<close> tagged with a memory becomes one over the tiles of that memory, inside \<^verbatim>\<open>scf.for\<close> loops over what
  does not fit; its indices are rebuilt by affine maps. The theory shows that the nest runs the body at exactly the
  index tuples of the original loop, once each, and that the new parallel loop fits the memory.
\<close>

section \<open>Factors of the bounds\<close>

text \<open>The inner \<open>for\<close> of \<open>tile_parallel_op\<close>: the largest divisor of the bound up to the extent of the memory.\<close>

fun tile_divisor :: "int \<Rightarrow> nat \<Rightarrow> int option" where
  "tile_divisor bound 0 = None"
| "tile_divisor bound (Suc n) = (if bound mod int (Suc n) = 0 then Some (int (Suc n)) else tile_divisor bound n)"

definition rest_tile :: "int \<Rightarrow> int list" where
  "rest_tile bound = (if bound = 1 then [] else [bound])"

fun tile_parallel_op :: "int list \<Rightarrow> int list \<Rightarrow> (int list \<times> int list) list" where
  "tile_parallel_op [] shapes = []"
| "tile_parallel_op (bound # bounds) [] = ([], [bound]) # tile_parallel_op bounds []"
| "tile_parallel_op (bound # bounds) (shape # shapes) =
     (if bound \<le> shape then ([bound], [])
      else case tile_divisor bound (nat shape) of
             None \<Rightarrow> ([], rest_tile bound)
           | Some d \<Rightarrow> ([d], rest_tile (bound div d)))
     # tile_parallel_op bounds shapes"

text \<open>
  \<open>getLinearizeIndexAffineMap\<close>: the factors of the arguments. The text of the lambda it evaluates has no parameter
  list and no terms for an empty shape, which Python does not parse.
\<close>

definition linearize_factors :: "int list \<Rightarrow> int list res" where
  "linearize_factors shape =
     (if shape = [] then Inl SyntaxError
      else Inr (rev (foldl (\<lambda>fs dim. fs @ [dim * last fs]) [1] (rev (drop 1 shape)))))"

section \<open>The tiled loops\<close>

text \<open>An index of the new loops: an argument of the parallel block, or the variable of one of the \<^verbatim>\<open>for\<close> loops.\<close>

datatype tile_var = ParArg nat | ForArg nat

text \<open>
  The nest: the bounds of the parallel loop, those of the loops wrapped around it, the innermost first, and for each
  argument of the original body the indices and factors of its affine map.
\<close>

record tiled =
  ti_par :: "int list"
  ti_for :: "int list"
  ti_args :: "(tile_var list \<times> int list) list"

text \<open>The loop over \<open>tile_parallel_bounds\<close>; \<open>k\<close> block arguments and \<open>f\<close> loop variables are used up before it.\<close>

fun tile_args :: "(int list \<times> int list) list \<Rightarrow> nat \<Rightarrow> nat \<Rightarrow> (tile_var list \<times> int list) list res" where
  "tile_args [] k f = Inr []"
| "tile_args ((tile, extra) # ts) k f =
     res_bind (res_check (length extra \<le> 1) AssertionError) (\<lambda>_.
     res_bind (linearize_factors (tile @ extra)) (\<lambda>factors.
     res_bind (tile_args ts (k + length tile) (f + length extra)) (\<lambda>args.
       Inr ((map ParArg [k..<k + length tile] @ map ForArg [f..<f + length extra], factors) # args))))"

definition tile_loop :: "int list \<Rightarrow> int list \<Rightarrow> tiled res" where
  "tile_loop bounds shape =
     (let ts = tile_parallel_op bounds shape in
      res_bind (tile_args ts 0 0) (\<lambda>args.
      Inr \<lparr>ti_par = concat (map fst ts), ti_for = concat (map snd ts), ti_args = args\<rparr>))"

text \<open>
  \<open>TileParallelPattern.match_and_rewrite\<close> on a loop with a memory tag and the constants of its upper bounds. \<open>None\<close>
  is a loop left as it is.
\<close>

definition tile_parallel :: "memories \<Rightarrow> string option \<Rightarrow> int option list \<Rightarrow> tiled option res" where
  "tile_parallel memories tag upper =
     (case tag of
        None \<Rightarrow> Inr None
      | Some name \<Rightarrow>
          res_bind (lookup_memory memories name) (\<lambda>mem.
          if mem_shape mem = [] then Inr None
          else res_bind (map_res (\<lambda>b. case b of None \<Rightarrow> Inl AssertionError | Some n \<Rightarrow> Inr n) upper) (\<lambda>bounds.
               res_bind (tile_loop bounds (mem_shape mem)) (\<lambda>t. Inr (Some t)))))"

section \<open>Executing the nest\<close>

definition tile_value :: "int list \<Rightarrow> int list \<Rightarrow> tile_var \<Rightarrow> int" where
  "tile_value ps fs v = (case v of ParArg i \<Rightarrow> ps ! i | ForArg i \<Rightarrow> fs ! i)"

definition apply_map :: "int list \<Rightarrow> int list \<Rightarrow> int" where
  "apply_map factors xs = sum_list (map2 (*) xs factors)"

definition body_args :: "(tile_var list \<times> int list) list \<Rightarrow> int list \<Rightarrow> int list \<Rightarrow> int list" where
  "body_args args ps fs = map (\<lambda>(vs, factors). apply_map factors (map (tile_value ps fs) vs)) args"

text \<open>The arguments of the body over one execution: the \<^verbatim>\<open>for\<close> loops from the outermost in, then the parallel one.\<close>

definition tiled_points :: "tiled \<Rightarrow> int list list" where
  "tiled_points t =
     concat (map (\<lambda>fs. map (\<lambda>ps. body_args (ti_args t) ps (rev fs)) (box (ti_par t))) (box (rev (ti_for t))))"

section \<open>The factorisation\<close>

lemma tile_divisor_Some:
  "tile_divisor bound n = Some d \<Longrightarrow> 0 < d \<and> d \<le> int n \<and> d dvd bound"
  by (induction n) (auto split: if_splits)

lemma tile_divisor_exists: "0 < n \<Longrightarrow> tile_divisor bound n \<noteq> None"
proof (induction n)
  case (Suc n)
  then show ?case by (cases n) auto
qed simp

text \<open>A tile of a bound: the bound itself in one of the loops, or a product over both.\<close>

inductive tiles :: "int \<Rightarrow> int list \<times> int list \<Rightarrow> bool" where
  par: "tiles n ([n], [])"
| seq: "tiles n ([], [n])"
| split: "0 < d \<Longrightarrow> 0 < e \<Longrightarrow> tiles (d * e) ([d], [e])"

inductive_cases tilesE: "tiles n (tile, extra)"

lemma tile_parallel_op_tiles:
  assumes "\<forall>n \<in> set bounds. 0 < n" and "\<forall>n \<in> set shape. 0 < n"
  shows "list_all2 tiles bounds (tile_parallel_op bounds shape)"
  using assms
proof (induction bounds shape rule: tile_parallel_op.induct)
  case (3 bound bounds shape shapes)
  show ?case
  proof (cases "bound \<le> shape")
    case True
    with 3 show ?thesis by (auto intro: tiles.intros)
  next
    case False
    with 3 obtain d where d: "tile_divisor bound (nat shape) = Some d"
      using tile_divisor_exists [of "nat shape" bound] by auto
    then have p: "0 < d" "d \<le> shape" "d dvd bound"
      using tile_divisor_Some [OF d] 3(3) by auto
    then obtain e where e: "bound = d * e" by blast
    have "0 < e"
      using 3(2) p e by (simp add: zero_less_mult_iff)
    have "e \<noteq> 1"
      using False p e by auto
    then have "tiles bound ([d], rest_tile (bound div d))"
      using p \<open>0 < e\<close> by (simp add: e rest_tile_def tiles.split)
    with 3 False d show ?thesis by simp
  qed
qed (auto intro: tiles.intros)

lemma linearize_factors_tiles:
  "linearize_factors [n] = Inr [1]"
  "linearize_factors [d, e] = Inr [e, 1]"
  by (simp_all add: linearize_factors_def)

text \<open>What the affine maps compute, tile by tile.\<close>

fun join_tiles :: "(int list \<times> int list) list \<Rightarrow> int list \<Rightarrow> int list \<Rightarrow> int list" where
  "join_tiles [] ps fs = []"
| "join_tiles (([d], [e]) # ts) ps fs = (hd ps * e + hd fs) # join_tiles ts (tl ps) (tl fs)"
| "join_tiles ((tile, []) # ts) ps fs = hd ps # join_tiles ts (tl ps) fs"
| "join_tiles ((tile, extra) # ts) ps fs = hd fs # join_tiles ts ps (tl fs)"

text \<open>Its inverse: the indices of the new loops that reach a tuple of the original one.\<close>

fun cut_par :: "(int list \<times> int list) list \<Rightarrow> int list \<Rightarrow> int list" where
  "cut_par (([d], [e]) # ts) (x # xs) = (x div e) # cut_par ts xs"
| "cut_par ((tile, []) # ts) (x # xs) = x # cut_par ts xs"
| "cut_par ((tile, extra) # ts) (x # xs) = cut_par ts xs"
| "cut_par ts xs = []"

fun cut_for :: "(int list \<times> int list) list \<Rightarrow> int list \<Rightarrow> int list" where
  "cut_for (([d], [e]) # ts) (x # xs) = (x mod e) # cut_for ts xs"
| "cut_for ((tile, []) # ts) (x # xs) = cut_for ts xs"
| "cut_for ((tile, extra) # ts) (x # xs) = x # cut_for ts xs"
| "cut_for ts xs = []"

abbreviation in_box :: "int list \<Rightarrow> int list \<Rightarrow> bool" where
  "in_box is ns \<equiv> list_all2 (\<lambda>i n. 0 \<le> i \<and> i < n) is ns"

lemma mixed_radix:
  fixes d e i j :: int
  assumes "0 \<le> i" "i < d" "0 \<le> j" "j < e"
  shows "(i * e + j) div e = i" "(i * e + j) mod e = j" "0 \<le> i * e + j" "i * e + j < d * e"
proof -
  show "(i * e + j) div e = i" "(i * e + j) mod e = j" "0 \<le> i * e + j"
    using assms by simp_all
  have "i * e + j < (i + 1) * e"
    using assms by (simp add: algebra_simps)
  also have "\<dots> \<le> d * e"
    using assms by (intro mult_right_mono) simp_all
  finally show "i * e + j < d * e" .
qed

lemma cut_radix:
  fixes d e x :: int
  assumes "0 < e" "0 \<le> x" "x < d * e"
  shows "0 \<le> x div e" "x div e < d" "0 \<le> x mod e" "x mod e < e"
proof -
  show "0 \<le> x div e" "0 \<le> x mod e" "x mod e < e"
    using assms by (simp_all add: pos_imp_zdiv_nonneg_iff)
  have "x div e * e \<le> x"
    using div_mult_mod_eq [of x e] pos_mod_sign [of e x] assms(1) by linarith
  with assms have "x div e * e < d * e" by linarith
  with assms(1) show "x div e < d" by simp
qed

lemma join_tiles_cut:
  assumes "list_all2 tiles bounds ts" and "in_box ps (concat (map fst ts))" and "in_box fs (concat (map snd ts))"
  shows "cut_par ts (join_tiles ts ps fs) = ps \<and> cut_for ts (join_tiles ts ps fs) = fs
    \<and> in_box (join_tiles ts ps fs) bounds"
  using assms
proof (induction arbitrary: ps fs rule: list_all2_induct)
  case (Cons n ns t ts)
  from Cons.hyps(1) show ?case
  proof cases
    case par
    with Cons show ?thesis by (auto simp: list_all2_Cons2)
  next
    case seq
    with Cons show ?thesis by (auto simp: list_all2_Cons2)
  next
    case (split d e)
    with Cons.prems obtain i ps' j fs' where
      "ps = i # ps'" "0 \<le> i" "i < d" "in_box ps' (concat (map fst ts))"
      "fs = j # fs'" "0 \<le> j" "j < e" "in_box fs' (concat (map snd ts))"
      by (auto simp: list_all2_Cons2)
    with split Cons.IH [of ps' fs'] show ?thesis by (simp add: mixed_radix)
  qed
qed simp

lemma cut_tiles_join:
  assumes "list_all2 tiles bounds ts" and "in_box xs bounds"
  shows "join_tiles ts (cut_par ts xs) (cut_for ts xs) = xs \<and> in_box (cut_par ts xs) (concat (map fst ts))
    \<and> in_box (cut_for ts xs) (concat (map snd ts))"
  using assms
proof (induction arbitrary: xs rule: list_all2_induct)
  case (Cons n ns t ts)
  then obtain x xs' where xs: "xs = x # xs'" "0 \<le> x" "x < n" "in_box xs' ns"
    by (auto simp: list_all2_Cons2)
  note IH = Cons.IH [OF xs(4)]
  from Cons.hyps(1) show ?case
  proof cases
    case par
    with IH xs show ?thesis by simp
  next
    case seq
    with IH xs show ?thesis by simp
  next
    case (split d e)
    with IH xs show ?thesis by (simp add: cut_radix)
  qed
qed simp

lemma tile_args_join:
  assumes "list_all2 tiles bounds ts"
  shows "\<exists>args. tile_args ts k f = Inr args \<and> (\<forall>ps fs.
    length ps = k + length (concat (map fst ts)) \<longrightarrow> length fs = f + length (concat (map snd ts)) \<longrightarrow>
    body_args args ps fs = join_tiles ts (drop k ps) (drop f fs))"
  using assms
proof (induction arbitrary: k f rule: list_all2_induct)
  case Nil
  show ?case by (simp add: body_args_def)
next
  case (Cons n ns t ts)
  note eval = body_args_def apply_map_def tile_value_def linearize_factors_tiles drop_Suc tl_drop hd_drop_conv_nth
  obtain tile extra where t: "t = (tile, extra)" by (cases t)
  obtain args where args: "tile_args ts (k + length tile) (f + length extra) = Inr args"
    and rest: "\<And>ps fs. length ps = k + length tile + length (concat (map fst ts)) \<Longrightarrow>
      length fs = f + length extra + length (concat (map snd ts)) \<Longrightarrow>
      body_args args ps fs = join_tiles ts (drop (k + length tile) ps) (drop (f + length extra) fs)"
    using Cons.IH [of "k + length tile" "f + length extra"] by blast
  from Cons.hyps(1) show ?case
  proof cases
    case par
    then show ?thesis
      using args rest by (auto simp: t eval)
  next
    case seq
    then show ?thesis
      using args rest by (auto simp: t eval)
  next
    case (split d e)
    then show ?thesis
      using args rest by (auto simp: t eval)
  qed
qed

section \<open>The nest runs the original iterations\<close>

lemma mset_eqI_distinct: "distinct xs \<Longrightarrow> distinct ys \<Longrightarrow> set xs = set ys \<Longrightarrow> mset xs = mset ys"
  using set_eq_iff_mset_eq_distinct by blast

lemma box_rev: "mset (map rev (box (rev ns))) = mset (box ns)"
proof -
  have "set (map rev (box (rev ns))) = set (box ns)"
  proof (rule set_eqI)
    fix xs
    have "xs \<in> set (map rev (box (rev ns))) \<longleftrightarrow> rev xs \<in> set (box (rev ns))"
      by (metis (no_types, lifting) image_iff list.set_map rev_rev_ident)
    also have "\<dots> \<longleftrightarrow> xs \<in> set (box ns)"
      by (simp add: box_iff)
    finally show "xs \<in> set (map rev (box (rev ns))) \<longleftrightarrow> xs \<in> set (box ns)" .
  qed
  moreover have "distinct (map rev (box (rev ns)))"
    by (simp add: distinct_map distinct_box)
  ultimately show ?thesis
    by (intro mset_eqI_distinct distinct_box)
qed

text \<open>Joining every pair of indices of the two boxes gives every index of the box of the bounds, once.\<close>

lemma join_tiles_cover:
  assumes tiles: "list_all2 tiles bounds ts"
    and pairs: "distinct zs" "set zs = set (box (concat (map fst ts))) \<times> set (box (concat (map snd ts)))"
  shows "mset (map (\<lambda>(ps, fs). join_tiles ts ps fs) zs) = mset (box bounds)"
proof (intro mset_eqI_distinct distinct_box)
  let ?P = "box (concat (map fst ts))" and ?F = "box (concat (map snd ts))"
  have "inj_on (\<lambda>(ps, fs). join_tiles ts ps fs) (set ?P \<times> set ?F)"
  proof (rule inj_onI, clarify)
    fix fs ps gs qs
    assume m: "fs \<in> set ?F" "ps \<in> set ?P" "gs \<in> set ?F" "qs \<in> set ?P"
      and eq: "join_tiles ts ps fs = join_tiles ts qs gs"
    from m have "cut_par ts (join_tiles ts ps fs) = ps \<and> cut_for ts (join_tiles ts ps fs) = fs"
      and "cut_par ts (join_tiles ts qs gs) = qs \<and> cut_for ts (join_tiles ts qs gs) = gs"
      using join_tiles_cut [OF tiles] unfolding box_iff by simp_all
    then show "ps = qs \<and> fs = gs"
      unfolding eq by simp
  qed
  then show "distinct (map (\<lambda>(ps, fs). join_tiles ts ps fs) zs)"
    unfolding distinct_map pairs(2) by (intro conjI pairs(1))
  show "set (map (\<lambda>(ps, fs). join_tiles ts ps fs) zs) = set (box bounds)"
  proof (rule set_eqI)
    fix xs
    show "xs \<in> set (map (\<lambda>(ps, fs). join_tiles ts ps fs) zs) \<longleftrightarrow> xs \<in> set (box bounds)"
    proof
      assume "xs \<in> set (box bounds)"
      then have "in_box xs bounds" by (simp add: box_iff)
      from cut_tiles_join [OF tiles this]
      have "(cut_par ts xs, cut_for ts xs) \<in> set ?P \<times> set ?F"
        and "xs = (\<lambda>(ps, fs). join_tiles ts ps fs) (cut_par ts xs, cut_for ts xs)"
        by (simp_all add: box_iff)
      then show "xs \<in> set (map (\<lambda>(ps, fs). join_tiles ts ps fs) zs)"
        unfolding set_map pairs(2) by (rule rev_image_eqI)
    next
      assume "xs \<in> set (map (\<lambda>(ps, fs). join_tiles ts ps fs) zs)"
      then obtain fs ps where "fs \<in> set ?F" "ps \<in> set ?P" "xs = join_tiles ts ps fs"
        unfolding set_map pairs(2) by auto
      then show "xs \<in> set (box bounds)"
        using join_tiles_cut [OF tiles] unfolding box_iff by blast
    qed
  qed
qed

lemma tiled_points_join:
  assumes tiles: "list_all2 tiles bounds ts"
    and args: "\<And>ps fs. length ps = length (concat (map fst ts)) \<Longrightarrow> length fs = length (concat (map snd ts)) \<Longrightarrow>
      body_args args ps fs = join_tiles ts ps fs"
  shows "mset (tiled_points \<lparr>ti_par = concat (map fst ts), ti_for = concat (map snd ts), ti_args = args\<rparr>)
    = mset (box bounds)"
proof -
  let ?P = "box (concat (map fst ts))" and ?F = "map rev (box (rev (concat (map snd ts))))"
  let ?zs = "map prod.swap (List.product ?F ?P)"
  have "tiled_points \<lparr>ti_par = concat (map fst ts), ti_for = concat (map snd ts), ti_args = args\<rparr>
      = concat (map (\<lambda>fs. map (\<lambda>ps. join_tiles ts ps fs) ?P) ?F)"
    unfolding tiled_points_def by (auto simp: args comp_def dest!: box_length intro!: arg_cong [of _ _ concat])
  also have "\<dots> = map (\<lambda>(ps, fs). join_tiles ts ps fs) ?zs"
    by (simp add: product_concat_map map_concat comp_def)
  finally have pts: "tiled_points \<lparr>ti_par = concat (map fst ts), ti_for = concat (map snd ts), ti_args = args\<rparr>
      = map (\<lambda>(ps, fs). join_tiles ts ps fs) ?zs" .
  have "set ?F = set (box (concat (map snd ts)))"
    using box_rev by (rule mset_eq_setD)
  then have "set ?zs = set ?P \<times> set (box (concat (map snd ts)))"
    by (simp only: set_map [of prod.swap] set_product product_swap)
  moreover have "distinct ?zs"
    unfolding distinct_map [of prod.swap] by (intro conjI distinct_product distinct_box) (simp_all add: distinct_map distinct_box)
  ultimately show ?thesis
    unfolding pts by (intro join_tiles_cover [OF tiles])
qed

lemma tile_loop_exact:
  assumes "\<forall>n \<in> set bounds. 0 < n" and "\<forall>n \<in> set shape. 0 < n"
  shows "\<exists>t. tile_loop bounds shape = Inr t \<and> mset (tiled_points t) = mset (box bounds)"
proof -
  let ?ts = "tile_parallel_op bounds shape"
  have tiles: "list_all2 tiles bounds ?ts"
    using assms by (rule tile_parallel_op_tiles)
  then obtain args where "tile_args ?ts 0 0 = Inr args"
    and "\<And>ps fs. length ps = length (concat (map fst ?ts)) \<Longrightarrow> length fs = length (concat (map snd ?ts)) \<Longrightarrow>
      body_args args ps fs = join_tiles ?ts ps fs"
    using tile_args_join [OF tiles, of 0 0] by auto
  with tiled_points_join [OF tiles] show ?thesis
    by (simp add: tile_loop_def Let_def)
qed

text \<open>The extents of the new parallel loop, position by position, are at most those of the memory.\<close>

lemma tile_parallel_op_fits:
  assumes "\<forall>n \<in> set shape. 0 < n"
  shows "list_all2 (\<le>) (concat (map fst (tile_parallel_op bounds shape))) (take (length bounds) shape)"
  using assms
proof (induction bounds shape rule: tile_parallel_op.induct)
  case (3 bound bounds shape shapes)
  then have IH: "list_all2 (\<le>) (concat (map fst (tile_parallel_op bounds shapes))) (take (length bounds) shapes)"
    by simp
  obtain d where d: "tile_divisor bound (nat shape) = Some d"
    using 3(2) tile_divisor_exists [of "nat shape" bound] by auto
  with tile_divisor_Some [OF d] 3(2) have "d \<le> shape" by simp
  with IH d show ?case by simp
qed simp_all

text \<open>
  C29: a parallel loop tagged with a memory is rewritten into a nest that runs the original body at exactly the index
  tuples of the original loop, each once, whatever divisors of the bounds the extents of the memory allow; and the
  parallel loop of the nest fits the memory, position by position.
\<close>

theorem tiling_exact:
  assumes "lookup_memory memories name = Inr mem" and "mem_shape mem \<noteq> []"
    and "\<forall>n \<in> set (mem_shape mem). 0 < n" and "\<forall>n \<in> set bounds. 0 < n"
  shows "\<exists>t. tile_parallel memories (Some name) (map Some bounds) = Inr (Some t)
    \<and> mset (tiled_points t) = mset (box bounds)
    \<and> list_all2 (\<le>) (ti_par t) (take (length bounds) (mem_shape mem))"
proof -
  obtain t where t: "tile_loop bounds (mem_shape mem) = Inr t" "mset (tiled_points t) = mset (box bounds)"
    using tile_loop_exact assms(3,4) by blast
  then have "ti_par t = concat (map fst (tile_parallel_op bounds (mem_shape mem)))"
    by (auto simp: tile_loop_def Let_def res_bind_Inr_iff)
  moreover have "map_res (\<lambda>b. case b of None \<Rightarrow> Inl AssertionError | Some n \<Rightarrow> Inr n) (map Some bounds) = Inr bounds"
    by (induction bounds) simp_all
  ultimately show ?thesis
    using t assms(1,2) tile_parallel_op_fits [OF assms(3)] by (simp add: tile_parallel_def)
qed

lemma tiling_exact_witness:
  "\<exists>t. tile_parallel (map (\<lambda>d. (md_name d, memory_of d)) strix_decls) (Some ''L1'') (map Some [8, 6, 3]) = Inr (Some t)
    \<and> mset (tiled_points t) = mset (box [8, 6, 3]) \<and> list_all2 (\<le>) (ti_par t) [4, 4]"
proof -
  have "lookup_memory (map (\<lambda>d. (md_name d, memory_of d)) strix_decls) ''L1'' = Inr (memory_of (hd strix_decls))"
    and shape: "mem_shape (memory_of (hd strix_decls)) = [4, 4]"
    by (simp_all add: lookup_memory_def strix_decls_def memory_of_def)
  from tiling_exact [OF this(1), of "[8, 6, 3]"] show ?thesis
    by (simp add: shape)
qed

text \<open>The tiles of that loop: eight and six over a grid of four by four, three in a loop of its own.\<close>

lemma tiling_example:
  "tile_parallel_op [8, 6, 3] [4, 4] = [([4], [2]), ([3], [2]), ([], [3])]"
  by (simp add: numeral_eq_Suc rest_tile_def)

text \<open>
  Extents of a memory have to be positive: over one of extent zero a unit bound leaves no index at all, and building
  its affine map raises.
\<close>

lemma empty_memory_extent_raises: "tile_loop [1] [0] = Inl SyntaxError"
  by (simp add: tile_loop_def rest_tile_def linearize_factors_def)

end
