(* ===== verification/Spensor_Loops.thy ===== *)
theory Spensor_Loops
  imports Spensor_Types Spensor_Memory
begin

text \<open>
  The parallel analysis of the Spensor dialect: \<^verbatim>\<open>src/python/spensor/spensor/passes/parallel_analysis.py\<close> over the
  tables of \<^verbatim>\<open>utils/spensor_global_analysis.py\<close>. Every operation is attached to a loop with constant bounds, loops
  are nested by memory and fused where an operation joins two of them, and the tables record which loop variable
  offsets which dimension of a result. Operations and loops are named by numbers: the order in which they are made.
\<close>

section \<open>Loops and tables\<close>

text \<open>A variable of a loop: its position, as the code writes it, and the loop.\<close>

type_synonym loop_var = "int \<times> nat"

record constant_loop =
  cl_bounds :: "int list"
  cl_tag :: "memory_info option"
  cl_parent :: "nat option"
  cl_ops :: "nat list"

record pa_state =
  pa_loops :: "constant_loop list"
  pa_loop_of :: "nat \<rightharpoonup> nat"
  pa_offsets :: "nat \<rightharpoonup> loop_var option list"
  pa_uses :: "loop_var \<rightharpoonup> (nat \<times> nat) list"
  pa_increased :: "nat \<rightharpoonup> (nat \<times> int) list"
  pa_bare :: "nat set"

definition pa_empty :: pa_state where
  "pa_empty = \<lparr>pa_loops = [], pa_loop_of = Map.empty, pa_offsets = Map.empty, pa_uses = Map.empty,
     pa_increased = Map.empty, pa_bare = {}\<rparr>"

text \<open>A run of the pass: \<open>None\<close> is one that does not return, otherwise it raises or leaves a state.\<close>

type_synonym 'a run = "'a res option"

definition run_bind :: "'a run \<Rightarrow> ('a \<Rightarrow> 'b run) \<Rightarrow> 'b run" where
  "run_bind r f = (case r of None \<Rightarrow> None | Some (Inl e) \<Rightarrow> Some (Inl e) | Some (Inr x) \<Rightarrow> f x)"

lemma run_bind_simps [simp]:
  "run_bind None f = None" "run_bind (Some (Inl e)) f = Some (Inl e)" "run_bind (Some (Inr x)) f = f x"
  by (simp_all add: run_bind_def)

lemma run_bind_Inr_iff: "run_bind r f = Some (Inr y) \<longleftrightarrow> (\<exists>x. r = Some (Inr x) \<and> f x = Some (Inr y))"
  by (auto simp: run_bind_def split: option.splits sum.splits)

section \<open>Attaching operations\<close>

definition new_loop :: "int list \<Rightarrow> memory_info option \<Rightarrow> nat option \<Rightarrow> pa_state \<Rightarrow> nat \<times> pa_state" where
  "new_loop bounds tag parent st =
     (length (pa_loops st),
      st\<lparr>pa_loops := pa_loops st @ [\<lparr>cl_bounds = bounds, cl_tag = tag, cl_parent = parent, cl_ops = []\<rparr>]\<rparr>)"

definition add_use :: "loop_var \<Rightarrow> nat \<times> nat \<Rightarrow> (loop_var \<rightharpoonup> (nat \<times> nat) list) \<Rightarrow> loop_var \<rightharpoonup> (nat \<times> nat) list" where
  "add_use v u uses = uses(v \<mapsto> (case uses v of None \<Rightarrow> [] | Some us \<Rightarrow> us) @ [u])"

fun add_uses :: "nat \<Rightarrow> nat \<Rightarrow> loop_var option list \<Rightarrow> (loop_var \<rightharpoonup> (nat \<times> nat) list) \<Rightarrow> loop_var \<rightharpoonup> (nat \<times> nat) list" where
  "add_uses i oper [] uses = uses"
| "add_uses i oper (None # vs) uses = add_uses (Suc i) oper vs uses"
| "add_uses i oper (Some v # vs) uses = add_uses (Suc i) oper vs (add_use v (i, oper) uses)"

definition update_loop :: "nat \<Rightarrow> (constant_loop \<Rightarrow> constant_loop) \<Rightarrow> pa_state \<Rightarrow> pa_state" where
  "update_loop l f st = st\<lparr>pa_loops := (pa_loops st)[l := f (pa_loops st ! l)]\<rparr>"

definition insert_op :: "nat \<Rightarrow> nat \<Rightarrow> loop_var option list \<Rightarrow> pa_state \<Rightarrow> pa_state" where
  "insert_op oper l vars st =
     (update_loop l (cl_ops_update (\<lambda>ops. ops @ [oper])) st)
       \<lparr>pa_offsets := (pa_offsets st)(oper \<mapsto> vars), pa_loop_of := (pa_loop_of st)(oper \<mapsto> l),
        pa_uses := add_uses 0 oper vars (pa_uses st)\<rparr>"

definition increase_bound :: "nat \<Rightarrow> nat \<Rightarrow> int \<Rightarrow> pa_state \<Rightarrow> pa_state res" where
  "increase_bound l p n st =
     (let bounds = cl_bounds (pa_loops st ! l); parent_bounds = cl_bounds (pa_loops st ! p) in
      res_bind (list_position parent_bounds n) (\<lambda>j.
      if parent_bounds ! j = 1 then Inr st
      else res_bind (list_position bounds n) (\<lambda>i.
        Inr (update_loop l (cl_bounds_update (\<lambda>_. bounds[i := parent_bounds ! j]))
              (update_loop p (cl_bounds_update (\<lambda>_. parent_bounds[j := 1])) st)))))"

section \<open>Fusing loops\<close>

text \<open>\<open>getNestedLoop\<close>, from the outermost loop in. The fuel bounds the length of the chain of parents.\<close>

fun nested_loops :: "nat \<Rightarrow> pa_state \<Rightarrow> nat \<Rightarrow> nat list" where
  "nested_loops 0 st l = []"
| "nested_loops (Suc fuel) st l =
     (case cl_parent (pa_loops st ! l) of None \<Rightarrow> [l] | Some p \<Rightarrow> nested_loops fuel st p @ [l])"

definition get_nested_loop :: "pa_state \<Rightarrow> nat \<Rightarrow> nat list" where
  "get_nested_loop st l = nested_loops (length (pa_loops st)) st l"

definition check_loop_bound_eq :: "constant_loop \<Rightarrow> constant_loop \<Rightarrow> bool" where
  "check_loop_bound_eq a b \<longleftrightarrow>
     filter (\<lambda>x. x \<noteq> 1) (cl_bounds a) = filter (\<lambda>x. x \<noteq> 1) (cl_bounds b)
     \<and> (cl_tag a = None \<or> cl_tag b = None \<or> cl_tag a = cl_tag b)"

definition wide_positions :: "int list \<Rightarrow> int list" where
  "wide_positions bounds = map int (filter (\<lambda>i. bounds ! i \<noteq> 1) [0..<length bounds])"

text \<open>\<open>getLoopIndexMapping\<close>: from the positions of the second loop to those of the first.\<close>

definition loop_index_mapping :: "constant_loop \<Rightarrow> constant_loop \<Rightarrow> (int \<times> int) list res" where
  "loop_index_mapping a b =
     (let is = wide_positions (cl_bounds a); js = wide_positions (cl_bounds b) in
      if length is = length js then Inr (zip js is) else Inl AssertionError)"

definition rename_var :: "(int \<times> int) list \<Rightarrow> nat \<Rightarrow> nat \<Rightarrow> loop_var option \<Rightarrow> loop_var option res" where
  "rename_var mapping l1 l2 v =
     (case v of
        None \<Rightarrow> Inr None
      | Some (j, l) \<Rightarrow>
          if l = l2 then (case map_of mapping j of None \<Rightarrow> Inl KeyError | Some i \<Rightarrow> Inr (Some (i, l1)))
          else Inr v)"

text \<open>The body of the loop that empties the second loop: its last operation moves to the end of the first.\<close>

definition move_last_op :: "(int \<times> int) list \<Rightarrow> nat \<Rightarrow> nat \<Rightarrow> pa_state \<Rightarrow> pa_state res" where
  "move_last_op mapping l1 l2 st =
     (let oper = last (cl_ops (pa_loops st ! l2));
          st = update_loop l2 (cl_ops_update butlast) st;
          st = update_loop l1 (cl_ops_update (\<lambda>ops. ops @ [oper])) (st\<lparr>pa_loop_of := (pa_loop_of st)(oper \<mapsto> l1)\<rparr>)
      in case pa_offsets st oper of
           None \<Rightarrow> Inl KeyError
         | Some vars \<Rightarrow>
             res_bind (map_res (rename_var mapping l1 l2) vars) (\<lambda>vars.
             Inr (st\<lparr>pa_offsets := (pa_offsets st)(oper \<mapsto> vars)\<rparr>)))"

partial_function (option) move_ops :: "(int \<times> int) list \<Rightarrow> nat \<Rightarrow> nat \<Rightarrow> pa_state \<Rightarrow> pa_state run" where
  "move_ops mapping l1 l2 st =
     (if cl_ops (pa_loops st ! l2) = [] then Some (Inr st)
      else case move_last_op mapping l1 l2 st of
             Inl e \<Rightarrow> Some (Inl e)
           | Inr st \<Rightarrow> move_ops mapping l1 l2 st)"

definition merge_uses :: "(int \<times> int) list \<Rightarrow> nat \<Rightarrow> nat \<Rightarrow> int \<Rightarrow> pa_state \<Rightarrow> pa_state res" where
  "merge_uses mapping l1 l2 j st =
     (case pa_uses st (j, l2) of
        None \<Rightarrow> Inr st
      | Some us \<Rightarrow>
          (case map_of mapping j of
             None \<Rightarrow> Inl KeyError
           | Some i \<Rightarrow>
               Inr (st\<lparr>pa_uses := (pa_uses st)
                 ((i, l1) \<mapsto> (case pa_uses st (i, l1) of None \<Rightarrow> [] | Some vs \<Rightarrow> vs) @ us, (j, l2) \<mapsto> [])\<rparr>)))"

text \<open>One round of \<open>fuseLoop\<close>: the loops of one depth.\<close>

definition fuse_pair :: "nat \<Rightarrow> nat \<Rightarrow> pa_state \<Rightarrow> pa_state run" where
  "fuse_pair l1 l2 st =
     (let a = pa_loops st ! l1; b = pa_loops st ! l2 in
      run_bind (Some (res_check (check_loop_bound_eq a b) AssertionError)) (\<lambda>_.
      run_bind (Some (loop_index_mapping a b)) (\<lambda>mapping.
      run_bind (move_ops mapping l1 l2
                 (update_loop l1 (cl_tag_update (\<lambda>t. if t = None then cl_tag b else t)) st)) (\<lambda>st.
      Some (apply_all (merge_uses mapping l1 l2) (map int [0..<length (cl_bounds b)]) st)))))"

fun fuse_pairs :: "(nat \<times> nat) list \<Rightarrow> pa_state \<Rightarrow> pa_state run" where
  "fuse_pairs [] st = Some (Inr st)"
| "fuse_pairs ((l1, l2) # ps) st = run_bind (fuse_pair l1 l2 st) (fuse_pairs ps)"

definition fuse_loop :: "nat \<Rightarrow> nat \<Rightarrow> pa_state \<Rightarrow> (nat \<times> pa_state) run" where
  "fuse_loop l1 l2 st =
     (let n1 = get_nested_loop st l1; n2 = get_nested_loop st l2;
          (n1, n2) = (if length n1 < length n2 then (n2, n1) else (n1, n2)) in
      run_bind (fuse_pairs (zip n1 n2) st) (\<lambda>st. Some (Inr (n1 ! (length n2 - 1), st))))"

section \<open>The patterns\<close>

text \<open>
  The operations the analysis matches, with what it reads of them: the operations that own their operands, \<open>None\<close>
  for a block argument, constants, and the memories and the rank of their types.
\<close>

datatype pa_op =
    SplitI "int option" "int option" nat
  | SplitAllI "nat option" "int list"
  | MoveI "nat option" string string
  | BinaryI "nat option" "nat option"
  | ReduceSumI "nat option"
  | MoveToI "nat option" "nat option"
  | CombineI "nat option" "int option" "int option" nat
  | ReduceI "nat option" "int list" nat
  | RepeatI "nat option" "int option" "int option" nat

definition owner_loop :: "nat option \<Rightarrow> pa_state \<Rightarrow> nat res" where
  "owner_loop owner st =
     (case owner of
        None \<Rightarrow> Inl AssertionError
      | Some oper \<Rightarrow> (case pa_loop_of st oper of None \<Rightarrow> Inl KeyError | Some l \<Rightarrow> Inr l))"

definition parent_of :: "nat \<Rightarrow> pa_state \<Rightarrow> nat res" where
  "parent_of l st = (case cl_parent (pa_loops st ! l) of None \<Rightarrow> Inl AssertionError | Some p \<Rightarrow> Inr p)"

definition split_pattern :: "nat \<Rightarrow> int option \<Rightarrow> int option \<Rightarrow> nat \<Rightarrow> pa_state \<Rightarrow> pa_state res" where
  "split_pattern oper parts dim rank st =
     res_bind (constant_operand parts) (\<lambda>n.
     res_bind (constant_operand dim) (\<lambda>d.
     let (l, st) = new_loop [n] None None st; vars = replicate rank None in
     res_bind (list_position vars d) (\<lambda>k. Inr (insert_op oper l (vars[k := Some (0, l)]) st))))"

definition split_all_vars :: "int list \<Rightarrow> nat \<Rightarrow> loop_var option list" where
  "split_all_vars parts l = map (\<lambda>i. if parts ! i \<noteq> 1 then Some (int i, l) else None) [0..<length parts]"

definition split_all_pattern :: "nat \<Rightarrow> nat option \<Rightarrow> int list \<Rightarrow> pa_state \<Rightarrow> pa_state res" where
  "split_all_pattern oper owner parts st =
     (if (case owner of None \<Rightarrow> False | Some src \<Rightarrow> pa_loop_of st src \<noteq> None) then Inl AssertionError
      else let (l, st) = new_loop (if \<forall>n \<in> set parts. n = 1 then [1] else parts) None None st in
           Inr (insert_op oper l (split_all_vars parts l) st))"

text \<open>
  The branch for a move between two other memories resets no variable its \<^verbatim>\<open>while\<close> tests: the body never runs and the
  operation is attached to no loop.
\<close>

definition move_pattern :: "memories \<Rightarrow> nat \<Rightarrow> nat option \<Rightarrow> string \<Rightarrow> string \<Rightarrow> pa_state \<Rightarrow> pa_state res" where
  "move_pattern memories oper owner from_name to_name st =
     res_bind (case owner of None \<Rightarrow> Inl AssertionError
               | Some src \<Rightarrow> (case pa_loop_of st src of None \<Rightarrow> Inl AssertionError | Some l \<Rightarrow> Inr l)) (\<lambda>l.
     res_bind (lookup_memory memories to_name) (\<lambda>to_tag.
     res_bind (lookup_memory memories from_name) (\<lambda>from_tag.
     let st = update_loop l (cl_tag_update (\<lambda>t. if t = None then Some to_tag else t)) st;
         tag = the (cl_tag (pa_loops st ! l)) in
     if to_tag = tag then
       res_bind (res_check (mem_name from_tag \<in> mem_load tag) AssertionError) (\<lambda>_. Inr (insert_op oper l [] st))
     else if from_tag = tag then
       if mem_name to_tag \<in> mem_store tag then Inr (insert_op oper l [] st)
       else res_bind (res_check (mem_name tag \<in> mem_load to_tag) AssertionError) (\<lambda>_.
            let (k, st) = new_loop (map (\<lambda>_. 1) (cl_bounds (pa_loops st ! l))) (Some to_tag) (Some l) st in
            Inr ((insert_op oper k [] st)\<lparr>pa_bare := insert k (pa_bare st)\<rparr>))
     else res_bind (parent_of l st) (\<lambda>_. Inr st))))"

text \<open>\<open>simpleBinaryOpPattern\<close>; the operations of the block it moves before the loop are not part of the tables.\<close>

definition binary_pattern :: "nat \<Rightarrow> nat option \<Rightarrow> nat option \<Rightarrow> pa_state \<Rightarrow> pa_state run" where
  "binary_pattern oper lhs rhs st =
     run_bind (Some (res_check (lhs \<noteq> None \<and> rhs \<noteq> None) AssertionError)) (\<lambda>_.
     run_bind (Some (owner_loop lhs st)) (\<lambda>a.
     run_bind (Some (owner_loop rhs st)) (\<lambda>b.
     if a \<noteq> b then
       run_bind (Some (res_check (check_loop_bound_eq (pa_loops st ! a) (pa_loops st ! b)) AssertionError)) (\<lambda>_.
       run_bind (fuse_loop a b st) (\<lambda>(l, st). Some (Inr (insert_op oper l [] st))))
     else Some (Inr (insert_op oper a [] st)))))"

definition move_to_pattern :: "nat \<Rightarrow> nat option \<Rightarrow> nat option \<Rightarrow> pa_state \<Rightarrow> pa_state run" where
  "move_to_pattern oper source dest st =
     run_bind (Some (res_check (source \<noteq> None \<and> dest \<noteq> None) AssertionError)) (\<lambda>_.
     run_bind (Some (owner_loop source st)) (\<lambda>a.
     run_bind (Some (owner_loop dest st)) (\<lambda>b.
     if a \<noteq> b then run_bind (fuse_loop a b st) (\<lambda>(l, st). Some (Inr (insert_op oper l [] st)))
     else Some (Inr (insert_op oper a [] st)))))"

definition reduce_sum_pattern :: "nat \<Rightarrow> nat option \<Rightarrow> pa_state \<Rightarrow> pa_state res" where
  "reduce_sum_pattern oper source st = res_bind (owner_loop source st) (\<lambda>l. Inr (insert_op oper l [] st))"

text \<open>What a combination and a reduction share: the bound moves into the inner loop and is recorded for the outer one.\<close>

definition grow_bound :: "nat \<Rightarrow> nat \<Rightarrow> int \<Rightarrow> pa_state \<Rightarrow> pa_state res" where
  "grow_bound l p nd st =
     res_bind (increase_bound l p nd st) (\<lambda>st.
     Inr (st\<lparr>pa_increased := (pa_increased st)(p \<mapsto> (case pa_increased st p of None \<Rightarrow> [] | Some r \<Rightarrow> r) @ [(l, nd)])\<rparr>))"

definition combine_pattern :: "nat \<Rightarrow> nat option \<Rightarrow> int option \<Rightarrow> int option \<Rightarrow> nat \<Rightarrow> pa_state \<Rightarrow> pa_state res" where
  "combine_pattern oper source nd_dim dim rank st =
     res_bind (constant_operand nd_dim) (\<lambda>nd.
     res_bind (constant_operand dim) (\<lambda>d.
     res_bind (owner_loop source st) (\<lambda>l.
     res_bind (parent_of l st) (\<lambda>p.
     res_bind (grow_bound l p nd st) (\<lambda>st.
     let vars = replicate rank None in
     res_bind (list_position vars d) (\<lambda>k. Inr (insert_op oper p (vars[k := Some (nd, l)]) st)))))))"

definition reduce_pattern :: "nat \<Rightarrow> nat option \<Rightarrow> int list \<Rightarrow> nat \<Rightarrow> pa_state \<Rightarrow> pa_state res" where
  "reduce_pattern oper source dims rank st =
     res_bind (owner_loop source st) (\<lambda>l.
     res_bind (parent_of l st) (\<lambda>p.
     res_bind (apply_all (grow_bound l p) dims st) (\<lambda>st. Inr (insert_op oper p (replicate rank None) st))))"

text \<open>The variable after position \<open>i\<close> takes over the uses of position \<open>i\<close>.\<close>

fun retarget :: "loop_var \<Rightarrow> (nat \<times> nat) list \<Rightarrow> (nat \<rightharpoonup> loop_var option list) \<Rightarrow> (nat \<rightharpoonup> loop_var option list) res" where
  "retarget v [] offsets = Inr offsets"
| "retarget v ((dim, oper) # us) offsets =
     (case offsets oper of
        None \<Rightarrow> Inl KeyError
      | Some vars \<Rightarrow> if dim < length vars then retarget v us (offsets(oper \<mapsto> vars[dim := Some v])) else Inl IndexError)"

definition shift_var :: "nat \<Rightarrow> int \<Rightarrow> pa_state \<Rightarrow> pa_state res" where
  "shift_var l i st =
     res_bind (retarget (i + 1, l) (case pa_uses st (i, l) of None \<Rightarrow> [] | Some us \<Rightarrow> us) (pa_offsets st)) (\<lambda>offsets.
     case pa_uses st (i, l) of
       None \<Rightarrow> Inl KeyError
     | Some us \<Rightarrow> Inr (st\<lparr>pa_offsets := offsets, pa_uses := ((pa_uses st)((i + 1, l) \<mapsto> us))((i, l) := None)\<rparr>))"

text \<open>Where the Python slices \<open>xs[:n]\<close> and \<open>xs[n:]\<close> cut.\<close>

definition py_slice :: "'a list \<Rightarrow> int \<Rightarrow> nat" where
  "py_slice xs n = nat (if n < 0 then int (length xs) + n else n)"

definition repeat_bounds :: "int list \<Rightarrow> int \<Rightarrow> int \<Rightarrow> int list" where
  "repeat_bounds bounds dim repeats =
     take (py_slice bounds (dim - 1)) bounds @ repeats # drop (py_slice bounds dim) bounds"

definition repeat_pattern :: "nat \<Rightarrow> nat option \<Rightarrow> int option \<Rightarrow> int option \<Rightarrow> nat \<Rightarrow> pa_state \<Rightarrow> pa_state res" where
  "repeat_pattern oper source repeats dim rank st =
     res_bind (constant_operand repeats) (\<lambda>n.
     res_bind (constant_operand dim) (\<lambda>d.
     res_bind (owner_loop source st) (\<lambda>l.
     let bounds = cl_bounds (pa_loops st ! l) in
     res_bind (apply_all (shift_var l) [d..int (length bounds) - 1] st) (\<lambda>st.
       Inr (insert_op oper l (replicate rank None)
             (update_loop l (cl_bounds_update (\<lambda>_. repeat_bounds bounds d n)) st))))))"

fun pa_step :: "memories \<Rightarrow> nat \<Rightarrow> pa_op \<Rightarrow> pa_state \<Rightarrow> pa_state run" where
  "pa_step ms oper (SplitI parts dim rank) st = Some (split_pattern oper parts dim rank st)"
| "pa_step ms oper (SplitAllI owner parts) st = Some (split_all_pattern oper owner parts st)"
| "pa_step ms oper (MoveI owner from_name to_name) st = Some (move_pattern ms oper owner from_name to_name st)"
| "pa_step ms oper (BinaryI lhs rhs) st = binary_pattern oper lhs rhs st"
| "pa_step ms oper (ReduceSumI source) st = Some (reduce_sum_pattern oper source st)"
| "pa_step ms oper (MoveToI source dest) st = move_to_pattern oper source dest st"
| "pa_step ms oper (CombineI source nd_dim dim rank) st = Some (combine_pattern oper source nd_dim dim rank st)"
| "pa_step ms oper (ReduceI source dims rank) st = Some (reduce_pattern oper source dims rank st)"
| "pa_step ms oper (RepeatI source repeats dim rank) st = Some (repeat_pattern oper source repeats dim rank st)"

text \<open>\<open>ParallelAnalysis.apply\<close>: one walk over the operations, in their order.\<close>

fun parallel_analysis :: "memories \<Rightarrow> nat \<Rightarrow> pa_op list \<Rightarrow> pa_state \<Rightarrow> pa_state run" where
  "parallel_analysis ms n [] st = Some (Inr st)"
| "parallel_analysis ms n (x # xs) st = run_bind (pa_step ms n x st) (parallel_analysis ms (Suc n) xs)"

section \<open>Consistency of the tables\<close>

text \<open>
  Parents are older than their children; an operation is attached to the loop that holds it, and to no other; the
  attached operations are those made so far that have an entry of offsets, and the offsets use existing loops.
\<close>

definition pa_wf :: "nat \<Rightarrow> pa_state \<Rightarrow> bool" where
  "pa_wf n st \<longleftrightarrow>
     (\<forall>l p. l < length (pa_loops st) \<longrightarrow> cl_parent (pa_loops st ! l) = Some p \<longrightarrow> p < l)
     \<and> (\<forall>x l. pa_loop_of st x = Some l \<longleftrightarrow> l < length (pa_loops st) \<and> x \<in> set (cl_ops (pa_loops st ! l)))
     \<and> (\<forall>l < length (pa_loops st). distinct (cl_ops (pa_loops st ! l)))
     \<and> dom (pa_offsets st) = dom (pa_loop_of st) \<and> dom (pa_loop_of st) \<subseteq> {..<n}
     \<and> (\<forall>x vars i l. pa_offsets st x = Some vars \<longrightarrow> Some (i, l) \<in> set vars \<longrightarrow> l < length (pa_loops st))"

lemma pa_wfD:
  assumes "pa_wf n st"
  shows "\<And>l p. l < length (pa_loops st) \<Longrightarrow> cl_parent (pa_loops st ! l) = Some p \<Longrightarrow> p < l"
    and "\<And>x l. pa_loop_of st x = Some l \<longleftrightarrow> l < length (pa_loops st) \<and> x \<in> set (cl_ops (pa_loops st ! l))"
    and "\<And>l. l < length (pa_loops st) \<Longrightarrow> distinct (cl_ops (pa_loops st ! l))"
    and "dom (pa_offsets st) = dom (pa_loop_of st)" and "dom (pa_loop_of st) \<subseteq> {..<n}"
    and "\<And>x vars i l. pa_offsets st x = Some vars \<Longrightarrow> Some (i, l) \<in> set vars \<Longrightarrow> l < length (pa_loops st)"
  using assms unfolding pa_wf_def by blast+

lemma pa_wf_empty: "pa_wf 0 pa_empty"
  by (simp add: pa_wf_def pa_empty_def)

lemma pa_wf_mono: "pa_wf n st \<Longrightarrow> n \<le> m \<Longrightarrow> pa_wf m st"
  unfolding pa_wf_def by (meson lessThan_subset_iff subset_trans)

lemma update_loop_simps [simp]:
  "length (pa_loops (update_loop l f st)) = length (pa_loops st)"
  "pa_loop_of (update_loop l f st) = pa_loop_of st" "pa_offsets (update_loop l f st) = pa_offsets st"
  "pa_uses (update_loop l f st) = pa_uses st" "pa_increased (update_loop l f st) = pa_increased st"
  "pa_bare (update_loop l f st) = pa_bare st"
  by (simp_all add: update_loop_def)

lemma update_loop_nth:
  "k < length (pa_loops st) \<Longrightarrow>
    pa_loops (update_loop l f st) ! k = (if k = l then f (pa_loops st ! k) else pa_loops st ! k)"
  by (simp add: update_loop_def nth_list_update)

text \<open>Changes of a loop that keep its operations and parent.\<close>

lemma pa_wf_update:
  assumes "pa_wf n st" and "\<And>c. cl_ops (f c) = cl_ops c" and "\<And>c. cl_parent (f c) = cl_parent c"
  shows "pa_wf n (update_loop l f st)"
  using pa_wfD [OF assms(1)] unfolding pa_wf_def
  by (auto simp: update_loop_nth assms(2,3) split: if_splits)

lemma pa_wf_cong:
  assumes "pa_loops st' = pa_loops st" "pa_loop_of st' = pa_loop_of st" "pa_offsets st' = pa_offsets st"
  shows "pa_wf n st' \<longleftrightarrow> pa_wf n st"
  by (simp add: pa_wf_def assms)

lemma pa_wf_new_loop:
  assumes "pa_wf n st" and "new_loop bounds tag parent st = (l, st')"
    and "\<And>p. parent = Some p \<Longrightarrow> p < length (pa_loops st)"
  shows "pa_wf n st' \<and> l < length (pa_loops st')"
proof -
  have st': "pa_loops st' = pa_loops st @ [\<lparr>cl_bounds = bounds, cl_tag = tag, cl_parent = parent, cl_ops = []\<rparr>]"
    "pa_loop_of st' = pa_loop_of st" "pa_offsets st' = pa_offsets st" "l = length (pa_loops st)"
    using assms(2) by (auto simp: new_loop_def)
  then show ?thesis
    using pa_wfD [OF assms(1)] assms(3) unfolding pa_wf_def
    by (auto simp: nth_append less_Suc_eq)
qed

lemma pa_wf_insert:
  assumes "pa_wf n st" and "l < length (pa_loops st)" and "\<And>i k. Some (i, k) \<in> set vars \<Longrightarrow> k < length (pa_loops st)"
  shows "pa_wf (Suc n) (insert_op n l vars st)"
proof -
  have fresh: "n \<notin> dom (pa_loop_of st)"
    using pa_wfD(5) [OF assms(1)] by auto
  then have "n \<notin> set (cl_ops (pa_loops st ! k))" if "k < length (pa_loops st)" for k
    using pa_wfD(2) [OF assms(1), of n k] that by auto
  then show ?thesis
    using pa_wfD [OF assms(1)] assms(2,3) fresh unfolding pa_wf_def insert_op_def
    by (auto simp: update_loop_nth less_Suc_eq split: if_splits)
qed

lemma map_res_member: "map_res f xs = Inr ys \<Longrightarrow> y \<in> set ys \<Longrightarrow> \<exists>x \<in> set xs. f x = Inr y"
  by (induction xs arbitrary: ys) (auto simp: res_bind_Inr_iff)

lemma pa_wf_insert_plain: "pa_wf n st \<Longrightarrow> l < length (pa_loops st) \<Longrightarrow> pa_wf (Suc n) (insert_op n l [] st)"
  by (rule pa_wf_insert) auto

lemma rename_var_range:
  assumes "rename_var mapping l1 l2 v = Inr (Some (i, l))"
  shows "l = l1 \<or> v = Some (i, l)"
  using assms by (auto simp: rename_var_def split: option.splits if_splits)

lemma pa_wf_move_last:
  assumes wf: "pa_wf n st" and l: "l1 < length (pa_loops st)" "l2 < length (pa_loops st)"
    and ops: "cl_ops (pa_loops st ! l2) \<noteq> []" and moved: "move_last_op mapping l1 l2 st = Inr st'"
  shows "pa_wf n st' \<and> length (pa_loops st') = length (pa_loops st)"
proof -
  define x where "x = last (cl_ops (pa_loops st ! l2))"
  have x: "cl_ops (pa_loops st ! l2) = butlast (cl_ops (pa_loops st ! l2)) @ [x]"
    using ops by (simp add: x_def)
  have xl: "pa_loop_of st x = Some l2"
    using pa_wfD(2) [OF wf] l ops by (simp add: x_def)
  have other: "x \<notin> set (cl_ops (pa_loops st ! k))" if "k < length (pa_loops st)" "k \<noteq> l2" for k
    using pa_wfD(2) [OF wf, of x k] xl that by auto
  have gone: "x \<notin> set (butlast (cl_ops (pa_loops st ! l2)))" "distinct (butlast (cl_ops (pa_loops st ! l2)))"
    using pa_wfD(3) [OF wf l(2)] x by (metis distinct_append not_distinct_conv_prefix, metis distinct_butlast)
  let ?ops = "\<lambda>k. if k = l1 then (if l1 = l2 then butlast (cl_ops (pa_loops st ! k)) else cl_ops (pa_loops st ! k)) @ [x]
                  else if k = l2 then butlast (cl_ops (pa_loops st ! k)) else cl_ops (pa_loops st ! k)"
  obtain vars vars' where vars: "pa_offsets st x = Some vars" "map_res (rename_var mapping l1 l2) vars = Inr vars'"
    and st': "length (pa_loops st') = length (pa_loops st)"
      "pa_loop_of st' = (pa_loop_of st)(x \<mapsto> l1)" "pa_offsets st' = (pa_offsets st)(x \<mapsto> vars')"
      "\<And>k. k < length (pa_loops st) \<Longrightarrow> cl_ops (pa_loops st' ! k) = ?ops k \<and> cl_parent (pa_loops st' ! k) = cl_parent (pa_loops st ! k)"
    using moved unfolding move_last_op_def Let_def
    by (auto simp: update_loop_def nth_list_update x_def res_bind_Inr_iff split: option.splits)
  have range: "k < length (pa_loops st)" if used: "Some (i, k) \<in> set vars'" for i k
  proof -
    obtain v where "v \<in> set vars" "rename_var mapping l1 l2 v = Inr (Some (i, k))"
      using map_res_member [OF vars(2) used] by blast
    then show ?thesis
      using rename_var_range pa_wfD(6) [OF wf vars(1)] l by blast
  qed
  have mem: "y \<in> set (?ops k) \<longleftrightarrow> (if y = x then k = l1 else y \<in> set (cl_ops (pa_loops st ! k)))"
    if "k < length (pa_loops st)" for y k
  proof (cases "k = l2")
    case True
    then have "set (cl_ops (pa_loops st ! k)) = insert x (set (butlast (cl_ops (pa_loops st ! k))))"
      using x by (metis Un_insert_right append_Nil2 list.simps(15) set_append)
    with True gone show ?thesis by auto
  next
    case False
    with other [OF that] show ?thesis by auto
  qed
  have dist: "distinct (?ops k)" if "k < length (pa_loops st)" for k
    using pa_wfD(3) [OF wf that] gone other [OF that] by auto
  have xn: "x < n"
    using pa_wfD(5) [OF wf] xl by auto
  show ?thesis
    unfolding pa_wf_def
  proof (intro conjI allI impI)
    show "dom (pa_offsets st') = dom (pa_loop_of st')" "dom (pa_loop_of st') \<subseteq> {..<n}"
      using st' pa_wfD(4,5) [OF wf] xn by auto
    show "k < length (pa_loops st')" if "pa_offsets st' y = Some us" "Some (i, k) \<in> set us" for y us i k
      using that st' range pa_wfD(6) [OF wf] by (cases "y = x") auto
    fix y k
    show "pa_loop_of st' y = Some k \<longleftrightarrow> k < length (pa_loops st') \<and> y \<in> set (cl_ops (pa_loops st' ! k))"
      using st' mem [of k y] pa_wfD(2) [OF wf, of y k] l(1) by auto
  qed (use st' dist pa_wfD(1) [OF wf] in simp_all)
qed

lemma pa_wf_move_ops:
  assumes "move_ops mapping l1 l2 st = Some r" and "pa_wf n st" and "l1 < length (pa_loops st)" "l2 < length (pa_loops st)"
    and "r = Inr st'"
  shows "pa_wf n st' \<and> length (pa_loops st') = length (pa_loops st)"
  using assms
proof (induction arbitrary: st' rule: move_ops.raw_induct [rotated 1, consumes 1, case_names step])
  case (step move mapping l1 l2 st r)
  show ?case
  proof (cases "cl_ops (pa_loops st ! l2) = []")
    case True
    with step.hyps step.prems show ?thesis by simp
  next
    case False
    then obtain st1 where st1: "move_last_op mapping l1 l2 st = Inr st1" and r: "move mapping l1 l2 st1 = Some r"
      using step.hyps step.prems(4) False by (auto split: sum.splits)
    note wf1 = pa_wf_move_last [OF step.prems(1-3) False st1]
    with step.IH [OF r] step.prems show ?thesis by simp
  qed
qed

text \<open>
  The loops of the patterns over dimensions and variables share a contract: one round that does not raise keeps an
  invariant of the tables, so all rounds do.
\<close>

locale table_loop =
  fixes round :: "'k \<Rightarrow> pa_state \<Rightarrow> pa_state res" and inv :: "pa_state \<Rightarrow> bool"
  assumes round_keeps: "round k st = Inr st' \<Longrightarrow> inv st \<Longrightarrow> inv st'"
begin

lemma rounds_keep: "apply_all round ks st = Inr st' \<Longrightarrow> inv st \<Longrightarrow> inv st'"
  by (induction ks arbitrary: st) (auto simp: res_bind_Inr_iff intro: round_keeps)

end

text \<open>The invariant of the rounds: consistent tables with as many loops as before.\<close>

definition tables_with :: "nat \<Rightarrow> nat \<Rightarrow> pa_state \<Rightarrow> bool" where
  "tables_with n m st \<longleftrightarrow> pa_wf n st \<and> length (pa_loops st) = m"

lemma merge_uses_keeps:
  "merge_uses mapping l1 l2 j st = Inr st' \<Longrightarrow>
    pa_loops st' = pa_loops st \<and> pa_loop_of st' = pa_loop_of st \<and> pa_offsets st' = pa_offsets st"
  by (auto simp: merge_uses_def split: option.splits)

lemma merge_uses_wf:
  assumes "merge_uses mapping l1 l2 j st = Inr st'"
  shows "pa_wf n st' = pa_wf n st \<and> length (pa_loops st') = length (pa_loops st)"
  using merge_uses_keeps [OF assms] pa_wf_cong [of st' st n] by simp

interpretation merging: table_loop "merge_uses mapping l1 l2" "tables_with n m" for mapping l1 l2 n m
  by unfold_locales (auto simp: tables_with_def dest!: merge_uses_wf [where n = n])

lemma pa_wf_fuse_pair:
  assumes "fuse_pair l1 l2 st = Some (Inr st')" and "pa_wf n st" and "l1 < length (pa_loops st)" "l2 < length (pa_loops st)"
  shows "pa_wf n st' \<and> length (pa_loops st') = length (pa_loops st)"
proof -
  let ?a = "pa_loops st ! l1" and ?b = "pa_loops st ! l2"
  let ?st = "update_loop l1 (cl_tag_update (\<lambda>t. if t = None then cl_tag ?b else t)) st"
  obtain mapping st1 where st1: "move_ops mapping l1 l2 ?st = Some (Inr st1)"
    and st': "apply_all (merge_uses mapping l1 l2) (map int [0..<length (cl_bounds ?b)]) st1 = Inr st'"
    using assms(1) unfolding fuse_pair_def Let_def run_bind_Inr_iff by blast
  have "pa_wf n ?st"
    using assms(2) by (rule pa_wf_update) simp_all
  then have "pa_wf n st1 \<and> length (pa_loops st1) = length (pa_loops st)"
    using pa_wf_move_ops [OF st1, of n st1] assms(3,4) by simp
  then show ?thesis
    using merging.rounds_keep [OF st', where n = n and m = "length (pa_loops st)"] by (simp add: tables_with_def)
qed

lemma nested_loops_range:
  assumes "pa_wf n st"
  shows "l < length (pa_loops st) \<Longrightarrow> set (nested_loops fuel st l) \<subseteq> {..<length (pa_loops st)}"
proof (induction fuel arbitrary: l)
  case (Suc fuel)
  show ?case
  proof (cases "cl_parent (pa_loops st ! l)")
    case (Some p)
    then have "p < length (pa_loops st)"
      using pa_wfD(1) [OF assms Suc.prems] Suc.prems by fastforce
    with Suc Some show ?thesis by simp
  qed (use Suc in simp)
qed simp

text \<open>With enough fuel the chain of parents is complete, so \<open>getNestedLoop\<close> satisfies the equation of its loop.\<close>

lemma nested_loops_fuel:
  assumes "pa_wf n st"
  shows "l < length (pa_loops st) \<Longrightarrow> l < fuel \<Longrightarrow> l < fuel' \<Longrightarrow> nested_loops fuel st l = nested_loops fuel' st l"
proof (induction fuel arbitrary: l fuel')
  case (Suc fuel)
  obtain f where f: "fuel' = Suc f"
    using Suc.prems(3) by (cases fuel') auto
  show ?case
  proof (cases "cl_parent (pa_loops st ! l)")
    case (Some p)
    then have "p < l"
      using pa_wfD(1) [OF assms Suc.prems(1)] by simp
    with Suc.IH [of p f] Suc.prems f Some show ?thesis by simp
  qed (simp add: f)
qed simp

lemma get_nested_loop_unfold:
  assumes "pa_wf n st" and "l < length (pa_loops st)"
  shows "get_nested_loop st l =
    (case cl_parent (pa_loops st ! l) of None \<Rightarrow> [l] | Some p \<Rightarrow> get_nested_loop st p @ [l])"
proof -
  obtain f where f: "length (pa_loops st) = Suc f"
    using assms(2) by (cases "length (pa_loops st)") auto
  show ?thesis
  proof (cases "cl_parent (pa_loops st ! l)")
    case (Some p)
    then have "p < l"
      using pa_wfD(1) [OF assms] by simp
    then have "nested_loops f st p = nested_loops (Suc f) st p"
      using assms(2) f by (intro nested_loops_fuel [OF assms(1)]) auto
    with Some f show ?thesis
      by (simp add: get_nested_loop_def del: nested_loops.simps(2) flip: f)
        (simp add: f)
  qed (simp add: get_nested_loop_def f)
qed

lemma get_nested_loop_ends: "pa_wf n st \<Longrightarrow> l < length (pa_loops st) \<Longrightarrow> get_nested_loop st l \<noteq> []"
  by (simp add: get_nested_loop_unfold split: option.split)

lemma pa_wf_fuse_pairs:
  assumes "fuse_pairs ps st = Some (Inr st')" and "pa_wf n st"
    and "\<And>l1 l2. (l1, l2) \<in> set ps \<Longrightarrow> l1 < length (pa_loops st) \<and> l2 < length (pa_loops st)"
  shows "pa_wf n st' \<and> length (pa_loops st') = length (pa_loops st)"
  using assms
proof (induction ps st rule: fuse_pairs.induct)
  case (2 l1 l2 ps st)
  then obtain st1 where st1: "fuse_pair l1 l2 st = Some (Inr st1)" "fuse_pairs ps st1 = Some (Inr st')"
    by (auto simp: run_bind_Inr_iff)
  have "pa_wf n st1 \<and> length (pa_loops st1) = length (pa_loops st)"
    using 2(4) [of l1 l2] by (intro pa_wf_fuse_pair [OF st1(1) 2(3)]) simp_all
  moreover have "a < length (pa_loops st) \<and> b < length (pa_loops st)" if "(a, b) \<in> set ps" for a b
    using 2(4) [of a b] that by simp
  ultimately show ?case
    using 2(1) [of st1] st1 by simp
qed simp

lemma pa_wf_fuse_loop:
  assumes "fuse_loop a b st = Some (Inr (l, st'))" and "pa_wf n st" and "a < length (pa_loops st)" "b < length (pa_loops st)"
  shows "pa_wf n st' \<and> length (pa_loops st') = length (pa_loops st) \<and> l < length (pa_loops st')"
proof -
  let ?na = "get_nested_loop st a" and ?nb = "get_nested_loop st b"
  obtain n1 n2 where ns: "(n1, n2) = (if length ?na < length ?nb then (?nb, ?na) else (?na, ?nb))"
    by (cases "length ?na < length ?nb") auto
  then have le: "length n2 \<le> length n1" and ne: "n2 \<noteq> []"
    and range: "set n1 \<subseteq> {..<length (pa_loops st)}" "set n2 \<subseteq> {..<length (pa_loops st)}"
    using get_nested_loop_ends [OF assms(2)] nested_loops_range [OF assms(2)] assms(3,4)
    by (auto split: if_splits simp: get_nested_loop_def)
  have fused: "fuse_pairs (zip n1 n2) st = Some (Inr st')" and l: "l = n1 ! (length n2 - 1)"
    using assms(1) unfolding fuse_loop_def Let_def ns [symmetric] by (auto simp: run_bind_Inr_iff)
  have "l1 < length (pa_loops st) \<and> l2 < length (pa_loops st)" if "(l1, l2) \<in> set (zip n1 n2)" for l1 l2
    using range set_zip_leftD [OF that] set_zip_rightD [OF that] by auto
  then have "pa_wf n st' \<and> length (pa_loops st') = length (pa_loops st)"
    using fused assms(2) by (intro pa_wf_fuse_pairs)
  moreover have "length n2 - 1 < length n1"
    using le ne by (cases n2) auto
  then have "l \<in> set n1"
    unfolding l by (rule nth_mem)
  ultimately show ?thesis
    using range(1) by auto
qed

lemma owner_loop_range: "owner_loop owner st = Inr l \<Longrightarrow> pa_wf n st \<Longrightarrow> l < length (pa_loops st)"
  using pa_wfD(2) by (auto simp: owner_loop_def split: option.splits)

lemma parent_of_range:
  "parent_of l st = Inr p \<Longrightarrow> pa_wf n st \<Longrightarrow> l < length (pa_loops st) \<Longrightarrow> p < length (pa_loops st)"
  using pa_wfD(1) by (fastforce simp: parent_of_def split: option.splits)

lemma pa_wf_increase:
  assumes "increase_bound l p k st = Inr st'" and "pa_wf n st"
  shows "pa_wf n st' \<and> length (pa_loops st') = length (pa_loops st)"
  using assms by (auto simp: increase_bound_def Let_def res_bind_Inr_iff pa_wf_update split: if_splits)

lemma pa_wf_grow:
  assumes "grow_bound l p k st = Inr st'" and "pa_wf n st"
  shows "pa_wf n st' \<and> length (pa_loops st') = length (pa_loops st)"
proof -
  obtain st1 where st1: "increase_bound l p k st = Inr st1"
    and st': "pa_loops st' = pa_loops st1" "pa_loop_of st' = pa_loop_of st1" "pa_offsets st' = pa_offsets st1"
    using assms(1) by (auto simp: grow_bound_def res_bind_Inr_iff)
  show ?thesis
    using pa_wf_increase [OF st1 assms(2)] pa_wf_cong [OF st'] st'(1) by simp
qed

lemma retarget_keeps:
  assumes "retarget v us offsets = Inr offsets'" and "snd v < m"
    and "\<And>x vars i l. offsets x = Some vars \<Longrightarrow> Some (i, l) \<in> set vars \<Longrightarrow> l < m"
  shows "dom offsets' = dom offsets \<and> (\<forall>x vars i l. offsets' x = Some vars \<longrightarrow> Some (i, l) \<in> set vars \<longrightarrow> l < m)"
  using assms
proof (induction v us offsets rule: retarget.induct)
  case (2 v d x us offsets)
  then obtain vars where vars: "offsets x = Some vars" "d < length vars"
    and rest: "retarget v us (offsets(x \<mapsto> vars[d := Some v])) = Inr offsets'"
    by (auto split: option.splits if_splits)
  have "l < m" if "(offsets(x \<mapsto> vars[d := Some v])) y = Some us" "Some (i, l) \<in> set us" for y us i l
  proof (cases "y = x")
    case True
    with that have "Some (i, l) \<in> insert (Some v) (set vars)"
      using set_update_subset_insert [of vars d "Some v"] by auto
    then show ?thesis
      using 2(3) 2(4) [OF vars(1), of i l] by auto
  next
    case False
    with that 2(4) show ?thesis by auto
  qed
  then have "dom offsets' = dom (offsets(x \<mapsto> vars[d := Some v])) \<and>
      (\<forall>x vars i l. offsets' x = Some vars \<longrightarrow> Some (i, l) \<in> set vars \<longrightarrow> l < m)"
    using 2(1) [OF vars(1,2) rest 2(3)] by blast
  with vars(1) show ?case by (auto simp: insert_absorb domI)
qed simp

lemma pa_wf_shift:
  assumes "shift_var l i st = Inr st'" and "pa_wf n st" and "l < length (pa_loops st)"
  shows "pa_wf n st' \<and> length (pa_loops st') = length (pa_loops st)"
proof -
  obtain us offsets where re: "retarget (i + 1, l) us (pa_offsets st) = Inr offsets"
    and st': "pa_loops st' = pa_loops st" "pa_loop_of st' = pa_loop_of st" "pa_offsets st' = offsets"
    using assms(1) by (auto simp: shift_var_def res_bind_Inr_iff split: option.splits)
  have "dom offsets = dom (pa_offsets st) \<and>
      (\<forall>x vars i k. offsets x = Some vars \<longrightarrow> Some (i, k) \<in> set vars \<longrightarrow> k < length (pa_loops st))"
    using assms(3) pa_wfD(6) [OF assms(2)] by (intro retarget_keeps [OF re]) auto
  then show ?thesis
    using assms(2) by (simp add: pa_wf_def st')
qed

lemma pa_wf_join:
  assumes "owner_loop x st = Inr a" "owner_loop y st = Inr b" and "pa_wf n st"
    and "if a = b then st' = insert_op n a [] st
      else \<exists>l st1. fuse_loop a b st = Some (Inr (l, st1)) \<and> st' = insert_op n l [] st1"
  shows "pa_wf (Suc n) st'"
proof (cases "a = b")
  case True
  with assms owner_loop_range [OF assms(1,3)] show ?thesis by (simp add: pa_wf_insert_plain)
next
  case False
  with assms(4) obtain l st1 where f: "fuse_loop a b st = Some (Inr (l, st1))" and "st' = insert_op n l [] st1"
    by auto
  with pa_wf_fuse_loop [OF f assms(3)] owner_loop_range [OF assms(1,3)] owner_loop_range [OF assms(2,3)] show ?thesis by (simp add: pa_wf_insert_plain)
qed

lemma pa_wf_binary:
  assumes "binary_pattern n lhs rhs st = Some (Inr st')" and "pa_wf n st"
  shows "pa_wf (Suc n) st'"
proof -
  obtain a b where ab: "owner_loop lhs st = Inr a" "owner_loop rhs st = Inr b"
    and r: "(if a \<noteq> b then
       run_bind (Some (res_check (check_loop_bound_eq (pa_loops st ! a) (pa_loops st ! b)) AssertionError)) (\<lambda>_.
       run_bind (fuse_loop a b st) (\<lambda>(l, st). Some (Inr (insert_op n l [] st))))
     else Some (Inr (insert_op n a [] st))) = Some (Inr st')"
    using assms(1) unfolding binary_pattern_def run_bind_Inr_iff by blast
  show ?thesis
    using r by (intro pa_wf_join [OF ab assms(2)]) (cases "a = b"; simp add: run_bind_Inr_iff; blast)
qed

lemma pa_wf_move_to:
  assumes "move_to_pattern n source dest st = Some (Inr st')" and "pa_wf n st"
  shows "pa_wf (Suc n) st'"
proof -
  obtain a b where ab: "owner_loop source st = Inr a" "owner_loop dest st = Inr b"
    and r: "(if a \<noteq> b then run_bind (fuse_loop a b st) (\<lambda>(l, st). Some (Inr (insert_op n l [] st)))
     else Some (Inr (insert_op n a [] st))) = Some (Inr st')"
    using assms(1) unfolding move_to_pattern_def run_bind_Inr_iff by blast
  show ?thesis
    using r by (intro pa_wf_join [OF ab assms(2)]) (cases "a = b"; simp add: run_bind_Inr_iff; blast)
qed

lemma pa_wf_split:
  assumes "split_pattern n parts dim rank st = Inr st'" and "pa_wf n st"
  shows "pa_wf (Suc n) st'"
proof -
  obtain m d where c: "constant_operand parts = Inr m" "constant_operand dim = Inr d"
    using assms(1) by (cases parts; cases dim) (auto simp: split_pattern_def constant_operand_def)
  obtain l st1 where new: "new_loop [m] None None st = (l, st1)"
    by fastforce
  obtain k where st': "st' = insert_op n l ((replicate rank None)[k := Some (0, l)]) st1"
    using assms(1) by (auto simp: split_pattern_def c new res_bind_Inr_iff Let_def)
  have vars: "k < length (pa_loops st1)" if "Some (i, k) \<in> set ((replicate rank None)[j := Some (0, l)])" for i k j
    using that set_update_subset_insert [of "replicate rank None" j "Some (0, l)"] pa_wf_new_loop [OF assms(2) new]
    by auto
  show ?thesis
    unfolding st' using pa_wf_new_loop [OF assms(2) new] vars by (intro pa_wf_insert) auto
qed

lemma pa_wf_split_all:
  assumes "split_all_pattern n owner parts st = Inr st'" and "pa_wf n st"
  shows "pa_wf (Suc n) st'"
proof -
  obtain bounds l st1 where new: "new_loop bounds None None st = (l, st1)"
    and st': "st' = insert_op n l (split_all_vars parts l) st1"
    using assms(1) by (auto simp: split_all_pattern_def split: if_splits prod.splits)
  show ?thesis
    unfolding st' using pa_wf_new_loop [OF assms(2) new]
    by (intro pa_wf_insert) (auto simp: split_all_vars_def split: if_splits)
qed

lemma pa_wf_move:
  assumes "move_pattern ms n owner from_name to_name st = Inr st'" and "pa_wf n st"
  shows "pa_wf (Suc n) st'"
proof -
  obtain l to_tag from_tag where src: "(case owner of None \<Rightarrow> Inl AssertionError
      | Some src \<Rightarrow> (case pa_loop_of st src of None \<Rightarrow> Inl AssertionError | Some l \<Rightarrow> Inr l)) = Inr l"
    and tags: "lookup_memory ms to_name = Inr to_tag" "lookup_memory ms from_name = Inr from_tag"
    using assms(1) by (auto simp: move_pattern_def res_bind_Inr_iff)
  define st1 where "st1 = update_loop l (cl_tag_update (\<lambda>t. if t = None then Some to_tag else t)) st"
  have wf1: "pa_wf n st1" and l: "l < length (pa_loops st1)"
    using pa_wf_update [OF assms(2)] src pa_wfD(2) [OF assms(2)] by (auto simp: st1_def split: option.splits)
  consider "st' = insert_op n l [] st1"
    | k st2 where "new_loop (map (\<lambda>_. 1) (cl_bounds (pa_loops st1 ! l))) (Some to_tag) (Some l) st1 = (k, st2)"
        "st' = (insert_op n k [] st2)\<lparr>pa_bare := insert k (pa_bare st2)\<rparr>"
    | "st' = st1"
    using assms(1) unfolding move_pattern_def src tags res_bind_simps st1_def [symmetric] Let_def
    by (auto simp: res_bind_Inr_iff split: if_splits prod.splits)
  then show ?thesis
  proof cases
    case 1
    with wf1 l show ?thesis by (simp add: pa_wf_insert_plain)
  next
    case 2
    then have "pa_wf n st2 \<and> k < length (pa_loops st2)"
      using l by (intro pa_wf_new_loop [OF wf1]) auto
    then have "pa_wf (Suc n) (insert_op n k [] st2)"
      by (intro pa_wf_insert) auto
    with 2(2) show ?thesis by (simp add: pa_wf_def)
  next
    case 3
    with wf1 show ?thesis by (simp add: pa_wf_mono)
  qed
qed

lemma pa_wf_combine:
  assumes "combine_pattern n source nd_dim dim rank st = Inr st'" and "pa_wf n st"
  shows "pa_wf (Suc n) st'"
proof -
  obtain l p nd st1 k where l: "owner_loop source st = Inr l" and p: "parent_of l st = Inr p"
    and grow: "grow_bound l p nd st = Inr st1" and st': "st' = insert_op n p ((replicate rank None)[k := Some (nd, l)]) st1"
    using assms(1) by (auto simp: combine_pattern_def res_bind_Inr_iff Let_def)
  note lr = owner_loop_range [OF l assms(2)]
  note wf1 = pa_wf_grow [OF grow assms(2)] and pr = parent_of_range [OF p assms(2) lr]
  have "j < length (pa_loops st1)" if "Some (i, j) \<in> set ((replicate rank None)[k := Some (nd, l)])" for i j
    using that set_update_subset_insert [of "replicate rank None" k "Some (nd, l)"] wf1 lr by auto
  then show ?thesis
    unfolding st' using wf1 pr by (intro pa_wf_insert) auto
qed

interpretation growing: table_loop "grow_bound l p" "tables_with n m" for l p n m
  by unfold_locales (auto simp: tables_with_def dest!: pa_wf_grow)

interpretation shifting: table_loop "shift_var l" "\<lambda>st. tables_with n m st \<and> l < m" for l n m
  by unfold_locales (auto simp: tables_with_def dest!: pa_wf_shift)

lemma pa_wf_reduce:
  assumes "reduce_pattern n source dims rank st = Inr st'" and "pa_wf n st"
  shows "pa_wf (Suc n) st'"
proof -
  obtain l p st1 where l: "owner_loop source st = Inr l" and p: "parent_of l st = Inr p"
    and grow: "apply_all (grow_bound l p) dims st = Inr st1" and st': "st' = insert_op n p (replicate rank None) st1"
    using assms(1) by (auto simp: reduce_pattern_def res_bind_Inr_iff)
  note pr = parent_of_range [OF p assms(2) owner_loop_range [OF l assms(2)]]
  have "pa_wf n st1 \<and> length (pa_loops st1) = length (pa_loops st)"
    using growing.rounds_keep [OF grow] assms(2) by (simp add: tables_with_def)
  then show ?thesis
    unfolding st' using pr by (intro pa_wf_insert) auto
qed

lemma pa_wf_repeat:
  assumes "repeat_pattern n source repeats dim rank st = Inr st'" and "pa_wf n st"
  shows "pa_wf (Suc n) st'"
proof -
  obtain l d bounds st1 where l: "owner_loop source st = Inr l"
    and shift: "apply_all (shift_var l) [d..int (length (cl_bounds (pa_loops st ! l))) - 1] st = Inr st1"
    and st': "st' = insert_op n l (replicate rank None) (update_loop l (cl_bounds_update (\<lambda>_. bounds)) st1)"
    using assms(1) by (auto simp: repeat_pattern_def res_bind_Inr_iff Let_def)
  note lr = owner_loop_range [OF l assms(2)]
  have "pa_wf n st1 \<and> length (pa_loops st1) = length (pa_loops st)"
    using shifting.rounds_keep [OF shift] assms(2) lr by (simp add: tables_with_def)
  then show ?thesis
    unfolding st' using lr by (intro pa_wf_insert pa_wf_update) auto
qed

lemma pa_wf_step:
  assumes "pa_step ms n x st = Some (Inr st')" and "pa_wf n st"
  shows "pa_wf (Suc n) st'"
proof (cases x)
  case (ReduceSumI source)
  then obtain l where l: "owner_loop source st = Inr l" and "st' = insert_op n l [] st"
    using assms(1) by (auto simp: reduce_sum_pattern_def res_bind_Inr_iff)
  with owner_loop_range [OF l assms(2)] assms(2) show ?thesis by (simp add: pa_wf_insert_plain)
qed (use assms in \<open>auto intro: pa_wf_split pa_wf_split_all pa_wf_move pa_wf_binary pa_wf_move_to pa_wf_combine
    pa_wf_reduce pa_wf_repeat\<close>)

lemma pa_wf_analysis:
  "parallel_analysis ms n xs st = Some (Inr st') \<Longrightarrow> pa_wf n st \<Longrightarrow> pa_wf (n + length xs) st'"
proof (induction ms n xs st rule: parallel_analysis.induct)
  case (2 ms n x xs st)
  then show ?case
    by (auto simp: run_bind_Inr_iff dest!: pa_wf_step)
qed simp

section \<open>Consistency of the analysis\<close>

text \<open>Two splits over loops that differ in their unit dimension.\<close>

definition two_splits :: pa_state where
  "two_splits = \<lparr>
     pa_loops = [\<lparr>cl_bounds = [4, 1], cl_tag = None, cl_parent = None, cl_ops = [0]\<rparr>,
                 \<lparr>cl_bounds = [1, 4], cl_tag = None, cl_parent = None, cl_ops = [1]\<rparr>],
     pa_loop_of = [0 \<mapsto> 0, 1 \<mapsto> 1], pa_offsets = [0 \<mapsto> [Some (0, 0), None], 1 \<mapsto> [None, Some (1, 1)]],
     pa_uses = [(0, 0) \<mapsto> [(0, 0)], (1, 1) \<mapsto> [(1, 1)]], pa_increased = Map.empty, pa_bare = {}\<rparr>"

lemma two_splits_run:
  "parallel_analysis ms 0 [SplitAllI None [4, 1], SplitAllI None [1, 4]] pa_empty = Some (Inr two_splits)"
  by (simp add: split_all_pattern_def new_loop_def insert_op_def split_all_vars_def update_loop_def add_use_def
    pa_empty_def two_splits_def)

text \<open>
  C31: whatever program the analysis returns from, its tables agree: an operation is mapped to a loop exactly when that
  loop lists it, so it is in no second loop, and once only; the operations with offsets are those with a loop; the
  loops that offsets name exist; and the parents of loops form chains, a parent being older than its children.
\<close>

theorem analysis_consistent:
  assumes "parallel_analysis ms 0 xs pa_empty = Some (Inr st)"
  shows "(\<forall>x l. pa_loop_of st x = Some l \<longleftrightarrow> l < length (pa_loops st) \<and> x \<in> set (cl_ops (pa_loops st ! l)))
    \<and> (\<forall>l < length (pa_loops st). distinct (cl_ops (pa_loops st ! l)))
    \<and> dom (pa_offsets st) = dom (pa_loop_of st) \<and> dom (pa_loop_of st) \<subseteq> {..<length xs}
    \<and> (\<forall>x vars i l. pa_offsets st x = Some vars \<longrightarrow> Some (i, l) \<in> set vars \<longrightarrow> l < length (pa_loops st))
    \<and> (\<forall>l < length (pa_loops st). \<forall>p. cl_parent (pa_loops st ! l) = Some p \<longrightarrow> p < l)"
  using pa_wf_analysis [OF assms pa_wf_empty] unfolding pa_wf_def by simp

lemma analysis_consistent_witness:
  "parallel_analysis [] 0 [SplitAllI None [4, 1], SplitAllI None [1, 4]] pa_empty = Some (Inr two_splits) \<and>
   (\<forall>x l. pa_loop_of two_splits x = Some l \<longleftrightarrow> l < length (pa_loops two_splits) \<and> x \<in> set (cl_ops (pa_loops two_splits ! l))) \<and>
   dom (pa_offsets two_splits) = dom (pa_loop_of two_splits) \<and> pa_loop_of two_splits 0 = Some 0 \<and> pa_loop_of two_splits 1 = Some 1"
  using analysis_consistent [OF two_splits_run [of "[]"]] two_splits_run [of "[]"] by (simp add: two_splits_def)

end
