(* ===== verification/Spensor_Fusion.thy ===== *)
theory Spensor_Fusion
  imports Spensor_Loops
begin

text \<open>
  Fusing loops in the parallel analysis of the Spensor dialect, over the tables of \<^verbatim>\<open>Spensor_Loops\<close>: what one round
  of \<open>fuseLoop\<close> does to the operations and offsets of two loops, and the programs on which the analysis raises,
  loses an operation or does not return.
\<close>

section \<open>What a fusion does\<close>

text \<open>The variable an offset uses after the second loop became the first.\<close>

definition fused_var :: "(int \<times> int) list \<Rightarrow> nat \<Rightarrow> nat \<Rightarrow> loop_var option \<Rightarrow> loop_var option" where
  "fused_var mapping l1 l2 v =
     (case v of None \<Rightarrow> None
      | Some (j, l) \<Rightarrow> if l = l2 then Some (the (map_of mapping j), l1) else Some (j, l))"

definition renamable :: "(int \<times> int) list \<Rightarrow> nat \<Rightarrow> loop_var option list \<Rightarrow> bool" where
  "renamable mapping l2 vars \<longleftrightarrow> (\<forall>j. Some (j, l2) \<in> set vars \<longrightarrow> map_of mapping j \<noteq> None)"

lemma rename_vars:
  "renamable mapping l2 vars \<Longrightarrow>
    map_res (rename_var mapping l1 l2) vars = Inr (map (fused_var mapping l1 l2) vars)"
  by (rule map_res_all_Inr)
    (auto simp: renamable_def rename_var_def fused_var_def split: option.splits)

lemma move_last_op_renames:
  assumes "cl_ops (pa_loops st ! l2) = ops @ [x]" and "l1 \<noteq> l2" "l1 < length (pa_loops st)" "l2 < length (pa_loops st)"
    and "pa_offsets st x = Some vars" and "renamable mapping l2 vars"
  obtains st' where "move_last_op mapping l1 l2 st = Inr st'" "length (pa_loops st') = length (pa_loops st)"
    "cl_ops (pa_loops st' ! l1) = cl_ops (pa_loops st ! l1) @ [x]" "cl_ops (pa_loops st' ! l2) = ops"
    "\<And>k. k \<noteq> l1 \<Longrightarrow> k \<noteq> l2 \<Longrightarrow> pa_loops st' ! k = pa_loops st ! k"
    "\<And>k. cl_bounds (pa_loops st' ! k) = cl_bounds (pa_loops st ! k)"
    "pa_loop_of st' = (pa_loop_of st)(x \<mapsto> l1)" "pa_uses st' = pa_uses st"
    "pa_offsets st' = (pa_offsets st)(x \<mapsto> map (fused_var mapping l1 l2) vars)"
proof -
  have bounds: "cl_bounds (xs[k := f (xs ! k)] ! i) = cl_bounds (xs ! i)"
    if "\<And>c. cl_bounds (f c) = cl_bounds c" for f xs k i
    using that by (cases "k < length xs") (auto simp: nth_list_update list_update_beyond not_less)
  let ?st = "st\<lparr>pa_loop_of := (pa_loop_of st)(x \<mapsto> l1),
      pa_loops := (pa_loops st)[l2 := cl_ops_update butlast (pa_loops st ! l2),
        l1 := cl_ops_update (\<lambda>ops. ops @ [x]) (pa_loops st ! l1)],
      pa_offsets := (pa_offsets st)(x \<mapsto> map (fused_var mapping l1 l2) vars)\<rparr>"
  have "cl_bounds (pa_loops ?st ! k) = cl_bounds (pa_loops st ! k)" for k
    using bounds [of "cl_ops_update butlast" "pa_loops st" l2] assms(2)
      bounds [of "cl_ops_update (\<lambda>ops. ops @ [x])" "(pa_loops st)[l2 := cl_ops_update butlast (pa_loops st ! l2)]" l1]
    by simp
  then show thesis
    using assms by (intro that [of ?st]) (auto simp: move_last_op_def Let_def update_loop_def rename_vars)
qed

lemma move_ops_moves:
  assumes "cl_ops (pa_loops st ! l2) = ops" and "distinct ops" and "l1 \<noteq> l2"
    and "l1 < length (pa_loops st)" "l2 < length (pa_loops st)"
    and "\<And>x. x \<in> set ops \<Longrightarrow> \<exists>vars. pa_offsets st x = Some vars \<and> renamable mapping l2 vars"
  shows "\<exists>st'. move_ops mapping l1 l2 st = Some (Inr st') \<and> length (pa_loops st') = length (pa_loops st)
    \<and> cl_ops (pa_loops st' ! l1) = cl_ops (pa_loops st ! l1) @ rev ops \<and> cl_ops (pa_loops st' ! l2) = []
    \<and> (\<forall>k. k \<noteq> l1 \<longrightarrow> k \<noteq> l2 \<longrightarrow> pa_loops st' ! k = pa_loops st ! k)
    \<and> (\<forall>k. cl_bounds (pa_loops st' ! k) = cl_bounds (pa_loops st ! k))
    \<and> (\<forall>x. pa_loop_of st' x = (if x \<in> set ops then Some l1 else pa_loop_of st x)) \<and> pa_uses st' = pa_uses st
    \<and> (\<forall>x. pa_offsets st' x = (if x \<in> set ops then map_option (map (fused_var mapping l1 l2)) (pa_offsets st x)
                              else pa_offsets st x))"
  using assms
proof (induction ops arbitrary: st rule: rev_induct)
  case Nil
  then show ?case by (simp add: move_ops.simps)
next
  case (snoc x ops)
  obtain vars where vars: "pa_offsets st x = Some vars" "renamable mapping l2 vars"
    using snoc.prems(6) [of x] by auto
  from move_last_op_renames [OF snoc.prems(1,3-5) vars]
  obtain st1 where st1: "move_last_op mapping l1 l2 st = Inr st1"
    and len: "length (pa_loops st1) = length (pa_loops st)"
    and ops1: "cl_ops (pa_loops st1 ! l1) = cl_ops (pa_loops st ! l1) @ [x]"
    and ops2: "cl_ops (pa_loops st1 ! l2) = ops"
    and other: "\<And>k. k \<noteq> l1 \<Longrightarrow> k \<noteq> l2 \<Longrightarrow> pa_loops st1 ! k = pa_loops st ! k"
    and bounds: "\<And>k. cl_bounds (pa_loops st1 ! k) = cl_bounds (pa_loops st ! k)"
    and loops: "pa_loop_of st1 = (pa_loop_of st)(x \<mapsto> l1)" and uses: "pa_uses st1 = pa_uses st"
    and offs: "pa_offsets st1 = (pa_offsets st)(x \<mapsto> map (fused_var mapping l1 l2) vars)"
    by blast
  have step: "move_ops mapping l1 l2 st = move_ops mapping l1 l2 st1"
    using snoc.prems(1) st1 by (subst move_ops.simps) simp
  have x: "x \<notin> set ops"
    using snoc.prems(2) by simp
  have "\<exists>vars. pa_offsets st1 y = Some vars \<and> renamable mapping l2 vars" if "y \<in> set ops" for y
    using snoc.prems(6) [of y] that x by (auto simp: offs)
  from snoc.IH [OF ops2 _ snoc.prems(3) _ _ this] snoc.prems(2,4,5)
  obtain st' where "move_ops mapping l1 l2 st1 = Some (Inr st')"
    "length (pa_loops st') = length (pa_loops st)"
    "cl_ops (pa_loops st' ! l1) = cl_ops (pa_loops st1 ! l1) @ rev ops" "cl_ops (pa_loops st' ! l2) = []"
    "\<forall>k. k \<noteq> l1 \<longrightarrow> k \<noteq> l2 \<longrightarrow> pa_loops st' ! k = pa_loops st1 ! k"
    "\<forall>k. cl_bounds (pa_loops st' ! k) = cl_bounds (pa_loops st1 ! k)"
    "\<forall>x. pa_loop_of st' x = (if x \<in> set ops then Some l1 else pa_loop_of st1 x)" "pa_uses st' = pa_uses st1"
    "\<forall>x. pa_offsets st' x = (if x \<in> set ops then map_option (map (fused_var mapping l1 l2)) (pa_offsets st1 x)
                              else pa_offsets st1 x)"
    by (auto simp: len)
  then show ?case
    using x vars(1) by (intro exI [of _ st']) (auto simp: step ops1 other bounds loops uses offs)
qed

text \<open>The mapping pairs positions of equal bounds.\<close>

lemma wide_bounds: "filter (\<lambda>x. x \<noteq> 1) bounds = map (\<lambda>i. bounds ! nat i) (wide_positions bounds)"
  by (subst filter_as_positions) (simp add: wide_positions_def comp_def)

lemma mapping_matches:
  assumes "check_loop_bound_eq a b"
  obtains mapping where "loop_index_mapping a b = Inr mapping"
    "\<And>j. map_of mapping j \<noteq> None \<longleftrightarrow> j \<in> set (wide_positions (cl_bounds b))"
    "\<And>i j. map_of mapping j = Some i \<Longrightarrow> i \<in> set (wide_positions (cl_bounds a)) \<and> cl_bounds a ! nat i = cl_bounds b ! nat j"
proof -
  let ?is = "wide_positions (cl_bounds a)" and ?js = "wide_positions (cl_bounds b)"
  have eq: "map (\<lambda>i. cl_bounds a ! nat i) ?is = map (\<lambda>j. cl_bounds b ! nat j) ?js"
    using assms by (simp add: check_loop_bound_eq_def wide_bounds)
  then have len: "length ?is = length ?js" by (rule map_eq_imp_length_eq)
  show thesis
  proof (rule that)
    show "loop_index_mapping a b = Inr (zip ?js ?is)"
      by (simp add: loop_index_mapping_def Let_def len)
    show "map_of (zip ?js ?is) j \<noteq> None \<longleftrightarrow> j \<in> set ?js" for j
      using len by (simp add: map_of_eq_None_iff flip: set_map)
    show "i \<in> set ?is \<and> cl_bounds a ! nat i = cl_bounds b ! nat j" if m: "map_of (zip ?js ?is) j = Some i" for i j
    proof -
      have "(j, i) \<in> set (zip ?js ?is)"
        using m by (rule map_of_SomeD)
      then obtain k where k: "k < length ?is" "j = ?js ! k" "i = ?is ! k"
        by (auto simp: in_set_zip)
      have "map (\<lambda>i. cl_bounds a ! nat i) ?is ! k = map (\<lambda>j. cl_bounds b ! nat j) ?js ! k"
        by (simp only: eq)
      with k len show ?thesis by simp
    qed
  qed
qed

text \<open>What a loop has to satisfy for its fusion into another: its operations and the table use only wide variables.\<close>

definition uses_wide :: "nat \<Rightarrow> pa_state \<Rightarrow> bool" where
  "uses_wide l st \<longleftrightarrow>
     (\<forall>x \<in> set (cl_ops (pa_loops st ! l)). \<forall>vars j. pa_offsets st x = Some vars \<longrightarrow> Some (j, l) \<in> set vars \<longrightarrow>
        j \<in> set (wide_positions (cl_bounds (pa_loops st ! l))))
     \<and> (\<forall>j. pa_uses st (j, l) \<noteq> None \<longrightarrow> j \<in> set (wide_positions (cl_bounds (pa_loops st ! l))))"

lemma merge_uses_returns:
  assumes "\<And>j. j \<in> set js \<Longrightarrow> pa_uses st (j, l2) \<noteq> None \<Longrightarrow> map_of mapping j \<noteq> None" and "l1 \<noteq> l2"
  shows "\<exists>st'. apply_all (merge_uses mapping l1 l2) js st = Inr st'
    \<and> pa_loops st' = pa_loops st \<and> pa_loop_of st' = pa_loop_of st \<and> pa_offsets st' = pa_offsets st"
  using assms
proof (induction js arbitrary: st)
  case (Cons j js)
  obtain st1 where st1: "merge_uses mapping l1 l2 j st = Inr st1"
    using Cons.prems(1) [of j] by (cases "pa_uses st (j, l2)"; cases "map_of mapping j") (auto simp: merge_uses_def)
  have "pa_uses st1 (k, l2) \<noteq> None \<longleftrightarrow> pa_uses st (k, l2) \<noteq> None" for k
    using st1 \<open>l1 \<noteq> l2\<close> by (auto simp: merge_uses_def split: option.splits if_splits)
  then have "\<exists>st'. apply_all (merge_uses mapping l1 l2) js st1 = Inr st'
      \<and> pa_loops st' = pa_loops st1 \<and> pa_loop_of st' = pa_loop_of st1 \<and> pa_offsets st' = pa_offsets st1"
    using Cons.prems by (intro Cons.IH) auto
  then obtain st' where "apply_all (merge_uses mapping l1 l2) js st1 = Inr st'"
    "pa_loops st' = pa_loops st1" "pa_loop_of st' = pa_loop_of st1" "pa_offsets st' = pa_offsets st1"
    by blast
  with st1 merge_uses_keeps [OF st1] show ?case by simp
qed simp

text \<open>
  C30: fusing two loops whose bounds agree up to unit dimensions moves every operation of the second loop to the first,
  in reverse order, and no other; each offset that used a variable of the second loop now uses a variable of the first
  that runs to the same bound, and no other offset changes. The second loop may use only variables whose bound is not
  one.
\<close>

theorem fusion_keeps_bounds:
  assumes wf: "pa_wf n st" and l: "l1 \<noteq> l2" "l1 < length (pa_loops st)" "l2 < length (pa_loops st)"
    and eq: "check_loop_bound_eq (pa_loops st ! l1) (pa_loops st ! l2)" and wide: "uses_wide l2 st"
  shows "\<exists>st' f. fuse_pair l1 l2 st = Some (Inr st')
    \<and> cl_ops (pa_loops st' ! l1) = cl_ops (pa_loops st ! l1) @ rev (cl_ops (pa_loops st ! l2))
    \<and> cl_ops (pa_loops st' ! l2) = []
    \<and> (\<forall>x. pa_loop_of st' x = (if pa_loop_of st x = Some l2 then Some l1 else pa_loop_of st x))
    \<and> (\<forall>x. pa_offsets st' x = (if pa_loop_of st x = Some l2 then map_option (map f) (pa_offsets st x) else pa_offsets st x))
    \<and> (\<forall>x vars v. pa_loop_of st x = Some l2 \<longrightarrow> pa_offsets st x = Some vars \<longrightarrow> v \<in> set vars \<longrightarrow>
        (case v of
           Some (j, l) \<Rightarrow>
             if l = l2 then (\<exists>i. f v = Some (i, l1)
               \<and> cl_bounds (pa_loops st' ! l1) ! nat i = cl_bounds (pa_loops st ! l2) ! nat j)
             else f v = v
         | None \<Rightarrow> f v = v))"
proof -
  let ?a = "pa_loops st ! l1" and ?b = "pa_loops st ! l2"
  let ?st = "update_loop l1 (cl_tag_update (\<lambda>t. if t = None then cl_tag ?b else t)) st"
  obtain mapping where m: "loop_index_mapping ?a ?b = Inr mapping"
    and dom: "\<And>j. map_of mapping j \<noteq> None \<longleftrightarrow> j \<in> set (wide_positions (cl_bounds ?b))"
    and same: "\<And>i j. map_of mapping j = Some i \<Longrightarrow> cl_bounds ?a ! nat i = cl_bounds ?b ! nat j"
    using mapping_matches [OF eq] by metis
  have loops: "cl_ops (pa_loops ?st ! k) = cl_ops (pa_loops st ! k)" "cl_bounds (pa_loops ?st ! k) = cl_bounds (pa_loops st ! k)" for k
    using l(2) by (auto simp: update_loop_def nth_list_update)
  have in2: "x \<in> set (cl_ops ?b) \<longleftrightarrow> pa_loop_of st x = Some l2" for x
    using pa_wfD(2) [OF wf] l(3) by blast
  have "\<exists>vars. pa_offsets ?st x = Some vars \<and> renamable mapping l2 vars" if x: "x \<in> set (cl_ops ?b)" for x
  proof -
    have "x \<in> dom (pa_offsets st)"
      using pa_wfD(4) [OF wf] x in2 by auto
    then obtain vars where vars: "pa_offsets st x = Some vars" by auto
    have "map_of mapping j \<noteq> None" if "Some (j, l2) \<in> set vars" for j
      using wide x vars that unfolding dom uses_wide_def by blast
    with vars show ?thesis by (simp add: renamable_def)
  qed
  from move_ops_moves [OF loops(1) pa_wfD(3) [OF wf l(3)] l(1) _ _ this] l
  obtain st1 where st1: "move_ops mapping l1 l2 ?st = Some (Inr st1)"
    and ops1: "cl_ops (pa_loops st1 ! l1) = cl_ops ?a @ rev (cl_ops ?b)" and ops2: "cl_ops (pa_loops st1 ! l2) = []"
    and bounds: "\<And>k. cl_bounds (pa_loops st1 ! k) = cl_bounds (pa_loops st ! k)"
    and of1: "\<And>x. pa_loop_of st1 x = (if x \<in> set (cl_ops ?b) then Some l1 else pa_loop_of st x)"
    and uses: "pa_uses st1 = pa_uses st"
    and offs: "\<And>x. pa_offsets st1 x = (if x \<in> set (cl_ops ?b) then map_option (map (fused_var mapping l1 l2)) (pa_offsets st x)
                              else pa_offsets st x)"
    by (auto simp: loops)
  have "map_of mapping j \<noteq> None" if "pa_uses st1 (j, l2) \<noteq> None" for j
    using wide that unfolding dom uses uses_wide_def by blast
  from merge_uses_returns [of "map int [0..<length (cl_bounds ?b)]" st1 l2 mapping l1, OF this l(1)]
  obtain st2 where st2: "apply_all (merge_uses mapping l1 l2) (map int [0..<length (cl_bounds ?b)]) st1 = Inr st2"
    and keeps: "pa_loops st2 = pa_loops st1" "pa_loop_of st2 = pa_loop_of st1" "pa_offsets st2 = pa_offsets st1"
    by blast
  have fused: "fuse_pair l1 l2 st = Some (Inr st2)"
    by (simp add: fuse_pair_def eq m st1 st2)
  have var: "case v of
        Some (j, l) \<Rightarrow>
          if l = l2 then (\<exists>i. fused_var mapping l1 l2 v = Some (i, l1)
            \<and> cl_bounds (pa_loops st2 ! l1) ! nat i = cl_bounds ?b ! nat j)
          else fused_var mapping l1 l2 v = v
      | None \<Rightarrow> fused_var mapping l1 l2 v = v"
    if "pa_loop_of st x = Some l2" "pa_offsets st x = Some vars" "v \<in> set vars" for x vars v
  proof -
    have "map_of mapping j \<noteq> None" if "v = Some (j, l2)" for j
      using wide in2 \<open>pa_loop_of st x = Some l2\<close> \<open>pa_offsets st x = Some vars\<close> \<open>v \<in> set vars\<close> that
      unfolding dom uses_wide_def by blast
    then show ?thesis
      using same by (auto simp: fused_var_def keeps bounds split: option.split)
  qed
  show ?thesis
    using fused ops1 ops2 var
    by (intro exI [of _ st2] exI [of _ "fused_var mapping l1 l2"]) (simp add: keeps of1 offs in2)
qed

lemma fusion_keeps_bounds_witness:
  "\<exists>st' f. fuse_pair 0 1 two_splits = Some (Inr st') \<and> cl_ops (pa_loops st' ! 0) = [0, 1]
    \<and> pa_offsets st' 1 = map_option (map f) (pa_offsets two_splits 1)"
proof -
  have wf: "pa_wf 2 two_splits"
    using pa_wf_analysis [OF two_splits_run pa_wf_empty] by (simp add: numeral_2_eq_2)
  have loops: "pa_loops two_splits ! 0 = \<lparr>cl_bounds = [4, 1], cl_tag = None, cl_parent = None, cl_ops = [0]\<rparr>"
    "pa_loops two_splits ! 1 = \<lparr>cl_bounds = [1, 4], cl_tag = None, cl_parent = None, cl_ops = [1]\<rparr>"
    by (simp_all add: two_splits_def)
  have eq: "check_loop_bound_eq (pa_loops two_splits ! 0) (pa_loops two_splits ! 1)"
    by (simp add: two_splits_def check_loop_bound_eq_def)
  have wide: "uses_wide 1 two_splits"
    by (auto simp: uses_wide_def loops wide_positions_def two_splits_def split: if_splits)
  have of1: "pa_loop_of two_splits 1 = Some 1"
    by (simp add: two_splits_def)
  have len: "(0::nat) < length (pa_loops two_splits)" "1 < length (pa_loops two_splits)"
    by (simp_all add: two_splits_def)
  from fusion_keeps_bounds [OF wf zero_neq_one len eq wide] of1 loops show ?thesis
    by fastforce
qed

section \<open>Where the analysis fails\<close>

lemma move_last_same_loop:
  assumes "l < length (pa_loops st)" and "cl_ops (pa_loops st ! l) = ops @ [x]" and "pa_offsets st x = Some vars"
    and "\<And>j. Some (j, l) \<in> set vars \<Longrightarrow> map_of mapping j = Some j"
  obtains st' where "move_last_op mapping l l st = Inr st'" "length (pa_loops st') = length (pa_loops st)"
    "cl_ops (pa_loops st' ! l) = ops @ [x]" "pa_offsets st' = pa_offsets st"
proof -
  have "map_res (rename_var mapping l l) vars = Inr (map (\<lambda>v. v) vars)"
    using assms(4) by (intro map_res_all_Inr) (auto simp: rename_var_def split: option.splits)
  then show thesis
    using assms(1-3) by (intro that [of "st\<lparr>pa_loop_of := (pa_loop_of st)(x \<mapsto> l),
        pa_loops := (pa_loops st)[l := cl_ops_update (\<lambda>ops. ops @ [x]) (cl_ops_update butlast (pa_loops st ! l))],
        pa_offsets := (pa_offsets st)(x \<mapsto> vars)\<rparr>"])
      (auto simp: move_last_op_def Let_def update_loop_def fun_upd_idem)
qed

text \<open>
  Two loops with the same parent share the outer loops of their nests. Fusing the nests moves the operations of a
  shared loop from its own list to the end of that list, for ever.
\<close>

lemma move_ops_same_loop:
  assumes "move_ops mapping l1 l2 st = Some r" and "l1 = l2" and "l2 < length (pa_loops st)" and "cl_ops (pa_loops st ! l2) \<noteq> []"
    and "\<forall>x \<in> set (cl_ops (pa_loops st ! l2)). \<exists>vars. pa_offsets st x = Some vars
      \<and> (\<forall>j. Some (j, l2) \<in> set vars \<longrightarrow> map_of mapping j = Some j)"
  shows False
  using assms
proof (induction rule: move_ops.raw_induct [rotated 1, consumes 1, case_names step])
  case (step move mapping l1 l2 st r)
  let ?ops = "cl_ops (pa_loops st ! l2)"
  have ops: "?ops = butlast ?ops @ [last ?ops]" "last ?ops \<in> set ?ops"
    using step.prems(3) by simp_all
  then obtain vars where vars: "pa_offsets st (last ?ops) = Some vars"
    "\<And>j. Some (j, l2) \<in> set vars \<Longrightarrow> map_of mapping j = Some j"
    using step.prems(4) by blast
  from move_last_same_loop [OF step.prems(2) ops(1) vars]
  obtain st1 where st1: "move_last_op mapping l2 l2 st = Inr st1" "length (pa_loops st1) = length (pa_loops st)"
    "cl_ops (pa_loops st1 ! l2) = ?ops" "pa_offsets st1 = pa_offsets st"
    using ops(1) by metis
  have "move mapping l2 l2 st1 = Some r"
    using step.hyps step.prems(1,3) st1(1) by simp
  with step.IH [of mapping l2 l2 st1 r] step.prems st1 show False by simp
qed

lemma fuse_pair_same_loop:
  assumes "pa_wf n st" and "l < length (pa_loops st)" and "cl_ops (pa_loops st ! l) \<noteq> []" and "uses_wide l st"
  shows "fuse_pair l l st = None"
proof -
  let ?c = "pa_loops st ! l" and ?st = "update_loop l (cl_tag_update (\<lambda>t. if t = None then cl_tag (pa_loops st ! l) else t)) st"
  let ?js = "wide_positions (cl_bounds ?c)"
  have ops: "cl_ops (pa_loops ?st ! l) = cl_ops ?c"
    using assms(2) by (simp add: update_loop_nth)
  have "\<exists>vars. pa_offsets ?st x = Some vars \<and> (\<forall>j. Some (j, l) \<in> set vars \<longrightarrow> map_of (zip ?js ?js) j = Some j)"
    if x: "x \<in> set (cl_ops ?c)" for x
  proof -
    have "x \<in> dom (pa_offsets st)"
      using pa_wfD(2,4) [OF assms(1)] x assms(2) by auto
    then obtain vars where vars: "pa_offsets st x = Some vars" by auto
    have "j \<in> set ?js" if "Some (j, l) \<in> set vars" for j
      using assms(4) x vars that unfolding uses_wide_def by blast
    then show ?thesis
      using vars by (auto simp: zip_same_conv_map map_of_map_restrict)
  qed
  then have "move_ops (zip ?js ?js) l l ?st \<noteq> Some r" for r
    using move_ops_same_loop [of "zip ?js ?js" l l ?st r] assms(2,3) ops by auto
  then have "move_ops (zip ?js ?js) l l ?st = None"
    by (meson not_None_eq)
  then show ?thesis
    by (simp add: fuse_pair_def check_loop_bound_eq_def loop_index_mapping_def Let_def)
qed

lemma siblings_never_fuse:
  assumes "pa_wf n st" and "a < length (pa_loops st)" "b < length (pa_loops st)"
    and "hd (get_nested_loop st a) = r" "hd (get_nested_loop st b) = r"
    and "cl_ops (pa_loops st ! r) \<noteq> []" and "uses_wide r st"
  shows "fuse_loop a b st = None"
proof -
  obtain as bs where ab: "get_nested_loop st a = r # as" "get_nested_loop st b = r # bs"
    using get_nested_loop_ends [OF assms(1)] assms(2-5) by (metis list.collapse)
  have "r < length (pa_loops st)"
    using nested_loops_range [OF assms(1,2), of "length (pa_loops st)"] ab(1) by (simp add: get_nested_loop_def)
  then have "fuse_pair r r st = None"
    using fuse_pair_same_loop assms(1,6,7) by blast
  then show ?thesis
    by (simp add: fuse_loop_def ab Let_def)
qed

text \<open>
  A program that does it: a tile moved from one memory into the next twice, and the copies added. The analysis does
  not return from it.
\<close>

definition strix_memories :: memories where
  "strix_memories = map (\<lambda>d. (md_name d, memory_of d)) strix_decls"

definition strix_memory :: "string \<Rightarrow> memory_info" where
  "strix_memory name = the (map_of strix_memories name)"

lemma strix_lookup:
  "lookup_memory strix_memories ''L1'' = Inr (strix_memory ''L1'')"
  "lookup_memory strix_memories ''L2'' = Inr (strix_memory ''L2'')"
  "lookup_memory strix_memories ''L3'' = Inr (strix_memory ''L3'')"
  "mem_name (strix_memory ''L1'') = ''L1''" "mem_name (strix_memory ''L2'') = ''L2''" "mem_name (strix_memory ''L3'') = ''L3''"
  "mem_load (strix_memory ''L1'') = {''L2'', ''L3''}" "mem_load (strix_memory ''L2'') = {''L3''}"
  "mem_store (strix_memory ''L2'') = {''L3''}" "mem_store (strix_memory ''L1'') = {''L2'', ''L3''}"
  by (simp_all add: lookup_memory_def strix_memory_def strix_memories_def strix_decls_def memory_of_def)

lemma strix_distinct:
  "strix_memory ''L1'' \<noteq> strix_memory ''L2''" "strix_memory ''L2'' \<noteq> strix_memory ''L1''"
  "strix_memory ''L1'' \<noteq> strix_memory ''L3''" "strix_memory ''L3'' \<noteq> strix_memory ''L1''"
  "strix_memory ''L3'' \<noteq> strix_memory ''L2''" "strix_memory ''L2'' \<noteq> strix_memory ''L3''"
  by ((rule notI, drule arg_cong [of _ _ mem_name], simp add: strix_lookup(4-6))+)

definition two_copies :: pa_state where
  "two_copies = \<lparr>
     pa_loops = [\<lparr>cl_bounds = [4], cl_tag = Some (strix_memory ''L2''), cl_parent = None, cl_ops = [0, 1]\<rparr>,
                 \<lparr>cl_bounds = [1], cl_tag = Some (strix_memory ''L1''), cl_parent = Some 0, cl_ops = [2]\<rparr>,
                 \<lparr>cl_bounds = [1], cl_tag = Some (strix_memory ''L1''), cl_parent = Some 0, cl_ops = [3]\<rparr>],
     pa_loop_of = [0 \<mapsto> 0, 1 \<mapsto> 0, 2 \<mapsto> 1, 3 \<mapsto> 2],
     pa_offsets = [0 \<mapsto> [Some (0, 0)], 1 \<mapsto> [], 2 \<mapsto> [], 3 \<mapsto> []],
     pa_uses = [(0, 0) \<mapsto> [(0, 0)]], pa_increased = Map.empty, pa_bare = {1, 2}\<rparr>"

abbreviation copies_program :: "pa_op list" where
  "copies_program \<equiv> [SplitAllI None [4], MoveI (Some 0) ''L3'' ''L2'', MoveI (Some 1) ''L2'' ''L1'', MoveI (Some 1) ''L2'' ''L1'']"

lemma two_copies_run: "parallel_analysis strix_memories 0 copies_program pa_empty = Some (Inr two_copies)"
proof -
  note eval = new_loop_def insert_op_def update_loop_def pa_empty_def move_pattern_def split_all_pattern_def
    split_all_vars_def add_use_def strix_lookup strix_distinct Let_def numeral_eq_Suc
  show ?thesis
    by (simp add: eval two_copies_def fun_upd_twist insert_commute)
qed

lemma parallel_analysis_append:
  "parallel_analysis ms n (xs @ ys) st = run_bind (parallel_analysis ms n xs st) (parallel_analysis ms (n + length xs) ys)"
  by (induction ms n xs st rule: parallel_analysis.induct)
    (auto simp: run_bind_def split: option.split sum.split)

lemma copies_of_one_tile_diverge:
  "parallel_analysis strix_memories 0 (copies_program @ [BinaryI (Some 2) (Some 3)]) pa_empty = None"
proof -
  have wf: "pa_wf 4 two_copies"
    using pa_wf_analysis [OF two_copies_run pa_wf_empty] by (simp add: numeral_eq_Suc)
  have nest: "get_nested_loop two_copies 1 = [0, 1]" "get_nested_loop two_copies 2 = [0, 2]"
    by (simp_all add: get_nested_loop_def two_copies_def numeral_eq_Suc)
  have "uses_wide 0 two_copies" "cl_ops (pa_loops two_copies ! 0) \<noteq> []"
    by (auto simp: uses_wide_def two_copies_def wide_positions_def split: if_splits)
  then have "fuse_loop 1 2 two_copies = None"
    using nest by (intro siblings_never_fuse [OF wf, where r = 0]) (simp_all add: two_copies_def)
  then have "binary_pattern 4 (Some 2) (Some 3) two_copies = None"
    by (simp add: binary_pattern_def owner_loop_def two_copies_def check_loop_bound_eq_def)
  then have "parallel_analysis strix_memories 4 [BinaryI (Some 2) (Some 3)] two_copies = None"
    by simp
  then show ?thesis
    unfolding parallel_analysis_append two_copies_run by (simp add: numeral_eq_Suc)
qed

text \<open>A split into one partition uses a variable whose bound is one, which the mapping of a fusion leaves out.\<close>

lemma unit_split_fusion_raises:
  "parallel_analysis ms 0 [SplitI (Some 1) (Some 0) 1, SplitI (Some 1) (Some 0) 1, BinaryI (Some 0) (Some 1)] pa_empty
   = Some (Inl KeyError)"
  by (simp add: split_pattern_def constant_operand_def new_loop_def insert_op_def update_loop_def pa_empty_def
    binary_pattern_def owner_loop_def fuse_loop_def get_nested_loop_def fuse_pair_def check_loop_bound_eq_def
    loop_index_mapping_def wide_positions_def move_ops.simps move_last_op_def rename_var_def Let_def)

text \<open>A move between two memories other than that of a nested loop is left without a loop.\<close>

lemma third_memory_move_lost:
  assumes "pa_loop_of st src = Some l" and "l < length (pa_loops st)" and "cl_tag (pa_loops st ! l) = Some tag"
    and "cl_parent (pa_loops st ! l) = Some p" and "lookup_memory ms from_name = Inr from_tag"
    and "lookup_memory ms to_name = Inr to_tag" and "from_tag \<noteq> tag" "to_tag \<noteq> tag" and "pa_wf n st"
    and "move_pattern ms n (Some src) from_name to_name st = Inr st'"
  shows "pa_loop_of st' n = None"
proof -
  have "st' = update_loop l (cl_tag_update (\<lambda>t. if t = None then Some to_tag else t)) st"
    using assms(10) assms(1-8) by (simp add: move_pattern_def Let_def parent_of_def update_loop_nth)
  then show ?thesis
    using pa_wfD(5) [OF assms(9)] by auto
qed

text \<open>
  The bounds of the loop of a \<open>split_all\<close> keep the unit partitions that the shape of its result drops, so a combination
  over the only dimension of the result grows the unit bound: nothing moves into the inner loop.
\<close>

lemma combine_grows_unit_bound:
  assumes "cl_bounds (pa_loops st ! p) = [1, 4]"
  shows "increase_bound l p 0 st = Inr st"
  using assms by (simp add: increase_bound_def)

text \<open>A repetition replaces the bound before its dimension, and at dimension zero lengthens the bounds by the others.\<close>

lemma repeat_bounds_misplaced:
  "repeat_bounds [4, 2] 1 3 = [3, 2]" "repeat_bounds [4, 2] 0 3 = [4, 3, 4, 2]"
  by (simp_all add: repeat_bounds_def py_slice_def)

end
