(* ===== verification/Spensor_Expand.thy ===== *)
theory Spensor_Expand
  imports Spensor_Fusion Spensor_Tile
begin

text \<open>
  The subviews of the expanded loops: \<^verbatim>\<open>src/python/spensor/spensor/passes/expand_parallel.py\<close>. A split becomes, in
  the parallel loop that the analysis attached it to, a subview of its source whose offsets are loop variables times
  the extents of the piece. The theory shows that over the iterations of the loop the subviews of a split cover every
  element of the source once, also after a combination moved one of the bounds into the inner loop.
\<close>

section \<open>Subviews\<close>

text \<open>
  A subview: per dimension of the source no offset, or a loop variable with the affine map applied to it; the sizes;
  the strides are all one.
\<close>

record subview =
  sv_offsets :: "(loop_var \<times> (int \<Rightarrow> int)) option list"
  sv_sizes :: "int list"

text \<open>
  \<open>getSubViewOpWithSSA\<close>. The map of the leading dimensions that the piece lacks is \<open>AffineMap.identity\<close> of the
  compiler library, the parameter \<open>lead\<close>.
\<close>

definition subview_with_vars :: "(int \<Rightarrow> int) \<Rightarrow> int list \<Rightarrow> int list \<Rightarrow> loop_var option list \<Rightarrow> subview res" where
  "subview_with_vars lead source dest vars =
     (let extra = length source - length dest; maps = replicate extra lead @ map (\<lambda>dim x. x * dim) dest in
      res_bind (res_check (length vars = length source) AssertionError) (\<lambda>_.
      Inr \<lparr>sv_offsets = map2 (\<lambda>v m. map_option (\<lambda>v. (v, m)) v) vars maps, sv_sizes = replicate extra 1 @ dest\<rparr>))"

text \<open>A variable of the analysis as the block argument of the parallel operation of its loop; \<open>made\<close> are the loops that have one.\<close>

definition block_arg :: "nat set \<Rightarrow> pa_state \<Rightarrow> loop_var \<Rightarrow> loop_var res" where
  "block_arg made st v =
     (case v of (i, l) \<Rightarrow>
        res_bind (res_check (l \<in> made) KeyError) (\<lambda>_.
        res_bind (list_position (cl_bounds (pa_loops st ! l)) i) (\<lambda>k. Inr (int k, l))))"

fun place_vars :: "nat set \<Rightarrow> pa_state \<Rightarrow> nat \<Rightarrow> loop_var option list \<Rightarrow> loop_var option list \<Rightarrow> loop_var option list res" where
  "place_vars made st n [] ssa = Inr ssa"
| "place_vars made st n (None # vs) ssa = place_vars made st (Suc n) vs ssa"
| "place_vars made st n (Some v # vs) ssa =
     res_bind (block_arg made st v) (\<lambda>arg.
     res_bind (res_check (n < length ssa) IndexError) (\<lambda>_. place_vars made st (Suc n) vs (ssa[n := Some arg])))"

text \<open>\<open>getSubViewOp\<close>.\<close>

definition subview_op :: "(int \<Rightarrow> int) \<Rightarrow> nat set \<Rightarrow> pa_state \<Rightarrow> nat \<Rightarrow> int list \<Rightarrow> int list \<Rightarrow> subview res" where
  "subview_op lead made st oper source dest =
     (case pa_offsets st oper of
        None \<Rightarrow> Inl KeyError
      | Some vars \<Rightarrow>
          res_bind (place_vars made st 0 vars (replicate (length dest) None)) (\<lambda>ssa.
          subview_with_vars lead source dest ssa))"

text \<open>The inner loops of \<open>getNewSubviewShape\<close>, for dimension \<open>n\<close> of an operation that uses variable \<open>i\<close>.\<close>

fun grow_dim :: "pa_state \<Rightarrow> nat \<Rightarrow> int \<Rightarrow> (nat \<times> int) list \<Rightarrow> int list \<Rightarrow> int list res" where
  "grow_dim st n i [] dest = Inr dest"
| "grow_dim st n i ((l, index) # rs) dest =
     (if index = i then
        res_bind (res_check (n < length dest) IndexError) (\<lambda>_.
        res_bind (list_position (cl_bounds (pa_loops st ! l)) i) (\<lambda>k.
          grow_dim st n i rs (dest[n := dest ! n * cl_bounds (pa_loops st ! l) ! k])))
      else grow_dim st n i rs dest)"

fun grow_dims :: "pa_state \<Rightarrow> nat \<Rightarrow> loop_var option list \<Rightarrow> int list \<Rightarrow> int list res" where
  "grow_dims st n [] dest = Inr dest"
| "grow_dims st n (None # vs) dest = grow_dims st (Suc n) vs dest"
| "grow_dims st n (Some (i, l) # vs) dest =
     res_bind (grow_dim st n i (case pa_increased st l of None \<Rightarrow> [] | Some rs \<Rightarrow> rs) dest) (grow_dims st (Suc n) vs)"

definition new_subview_shape :: "pa_state \<Rightarrow> nat \<Rightarrow> int list \<Rightarrow> int list res" where
  "new_subview_shape st oper dest =
     (case pa_offsets st oper of None \<Rightarrow> Inl KeyError | Some vars \<Rightarrow> grow_dims st 0 vars dest)"

text \<open>\<open>SpensorSplitPattern\<close> and \<open>SpensorSplitAllPattern\<close>: the shape of the piece, then its subview of the source.\<close>

definition expand_split :: "(int \<Rightarrow> int) \<Rightarrow> nat set \<Rightarrow> pa_state \<Rightarrow> nat \<Rightarrow> spensor_type \<Rightarrow> nd_type \<Rightarrow> subview res" where
  "expand_split lead made st oper source result =
     res_bind (new_subview_shape st oper (sp_shape (nd_spensor result))) (\<lambda>dest.
     subview_op lead made st oper (sp_shape source) dest)"

section \<open>The elements of a subview\<close>

text \<open>The offsets in an iteration \<open>env\<close>, which gives each loop its indices, and the elements of the source it shows.\<close>

definition offset_at :: "(nat \<Rightarrow> int list) \<Rightarrow> (loop_var \<times> (int \<Rightarrow> int)) option \<Rightarrow> int" where
  "offset_at env off = (case off of None \<Rightarrow> 0 | Some ((i, l), m) \<Rightarrow> m (env l ! nat i))"

definition subview_points :: "(nat \<Rightarrow> int list) \<Rightarrow> subview \<Rightarrow> int list list" where
  "subview_points env sv = map (map2 (\<lambda>off i. offset_at env off + i) (sv_offsets sv)) (box (sv_sizes sv))"

section \<open>Pieces that tile a source\<close>

lemma join_pieces:
  assumes "length vs = length bounds" "length is = length bounds" "length dest = length bounds"
  shows "join_tiles (map2 (\<lambda>b d. ([b], [d])) bounds dest) vs is = map2 (+) (map2 (*) vs dest) is"
  using assms
proof (induction bounds arbitrary: vs "is" dest)
  case (Cons b bounds)
  then show ?case by (cases vs; cases "is"; cases dest) auto
qed simp

lemma pieces_cover:
  assumes "length dest = length bounds" and "\<forall>b \<in> set bounds. 0 < b" "\<forall>d \<in> set dest. 0 < d"
  shows "mset (concat (map (\<lambda>vs. map (\<lambda>is. map2 (+) (map2 (*) vs dest) is) (box dest)) (box bounds)))
    = mset (box (map2 (*) bounds dest))"
proof -
  let ?ts = "map2 (\<lambda>b d. ([b], [d])) bounds dest"
  have tiles: "list_all2 tiles (map2 (*) bounds dest) ?ts"
    using assms by (auto simp: list_all2_conv_all_nth intro: tiles.split)
  have boxes: "concat (map fst ?ts) = bounds" "concat (map snd ?ts) = dest"
    using assms(1) by (induction bounds dest rule: list_induct2') auto
  have "concat (map (\<lambda>vs. map (\<lambda>is. map2 (+) (map2 (*) vs dest) is) (box dest)) (box bounds))
      = concat (map (\<lambda>vs. map (\<lambda>is. join_tiles ?ts vs is) (box dest)) (box bounds))"
    using assms(1) by (auto simp: join_pieces dest!: box_length intro!: arg_cong [of _ _ concat])
  also have "\<dots> = map (\<lambda>(ps, fs). join_tiles ?ts ps fs) (List.product (box bounds) (box dest))"
    by (simp add: product_concat_map map_concat comp_def)
  finally show ?thesis
    using join_tiles_cover [OF tiles, of "List.product (box bounds) (box dest)"]
    by (simp only: boxes distinct_product distinct_box set_product)
qed

section \<open>The subviews of a split\<close>

lemma place_vars_all:
  assumes "length ssa = n + length vs" and "\<And>k. n \<le> k \<Longrightarrow> k < length ssa \<Longrightarrow> ssa ! k = None"
    and "\<And>v. Some v \<in> set vs \<Longrightarrow> block_arg made st v = Inr v"
  shows "place_vars made st n vs ssa = Inr (take n ssa @ vs)"
  using assms
proof (induction vs arbitrary: n ssa)
  case (Cons v vs)
  have take: "take (Suc n) (ssa[n := v]) = take n ssa @ [v]"
    using Cons.prems(1) by (simp add: take_Suc_conv_app_nth)
  have same: "v = None \<Longrightarrow> ssa[n := v] = ssa"
    using Cons.prems(1) Cons.prems(2) [of n] by (metis add_Suc_right le_add1 length_Cons less_add_Suc1 list_update_id order_refl)
  have "place_vars made st (Suc n) vs (ssa[n := v]) = Inr (take (Suc n) (ssa[n := v]) @ vs)"
    using Cons.prems by (intro Cons.IH) (auto simp: nth_list_update)
  then show ?case
    using same Cons.prems(1,3) take by (cases v) auto
qed simp

lemma split_all_vars_nth:
  "k < length parts \<Longrightarrow> split_all_vars parts l ! k = (if parts ! k \<noteq> 1 then Some (int k, l) else None)"
  by (simp add: split_all_vars_def)

lemma subview_of_pieces:
  assumes offs: "pa_offsets st x = Some (split_all_vars parts l)" and made: "l \<in> made"
    and len: "length (cl_bounds (pa_loops st ! l)) = length parts" "length dest = length parts" "length source = length parts"
    and unit: "\<And>k. k < length parts \<Longrightarrow> parts ! k = 1 \<Longrightarrow> cl_bounds (pa_loops st ! l) ! k = 1"
  obtains sv where "subview_op lead made st x source dest = Inr sv"
    "\<And>vs. vs \<in> set (box (cl_bounds (pa_loops st ! l))) \<Longrightarrow>
      subview_points (env(l := vs)) sv = map (\<lambda>is. map2 (+) (map2 (*) vs dest) is) (box dest)"
proof -
  let ?vars = "split_all_vars parts l" and ?bounds = "cl_bounds (pa_loops st ! l)"
  let ?sv = "\<lparr>sv_offsets = map2 (\<lambda>v m. map_option (\<lambda>v. (v, m)) v) ?vars (map (\<lambda>dim x. x * dim) dest), sv_sizes = dest\<rparr>"
  have lv: "length ?vars = length parts" by (simp add: split_all_vars_def)
  have "block_arg made st v = Inr v" if "Some v \<in> set ?vars" for v
    using that made len(1) by (auto simp: split_all_vars_def block_arg_def split: if_splits)
  then have "place_vars made st 0 ?vars (replicate (length dest) None) = Inr ?vars"
    using lv len by (subst place_vars_all) auto
  then have sv: "subview_op lead made st x source dest = Inr ?sv"
    by (simp add: subview_op_def offs subview_with_vars_def len lv)
  show thesis
  proof (rule that [OF sv])
    fix vs assume vs: "vs \<in> set (box ?bounds)"
    then have lvs: "length vs = length parts" using len(1) by (simp add: box_length)
    have zero: "vs ! k = 0" if "k < length parts" "parts ! k = 1" for k
      using vs that unit [OF that] len(1) by (fastforce simp: box_iff list_all2_conv_all_nth)
    have "map2 (\<lambda>off i. offset_at (env(l := vs)) off + i) (sv_offsets ?sv) is = map2 (+) (map2 (*) vs dest) is"
      if "length is = length parts" for "is"
      using lv lvs len that zero
      by (intro nth_equalityI) (auto simp: split_all_vars_nth offset_at_def)
    then show "subview_points (env(l := vs)) ?sv = map (\<lambda>is. map2 (+) (map2 (*) vs dest) is) (box dest)"
      using len by (auto simp: subview_points_def dest!: box_length)
  qed
qed

lemma subviews_cover:
  assumes offs: "pa_offsets st x = Some (split_all_vars parts l)" and made: "l \<in> made"
    and len: "length (cl_bounds (pa_loops st ! l)) = length parts" "length dest = length parts" "length source = length parts"
    and unit: "\<And>k. k < length parts \<Longrightarrow> parts ! k = 1 \<Longrightarrow> cl_bounds (pa_loops st ! l) ! k = 1"
    and pos: "\<And>k. k < length parts \<Longrightarrow> 0 < cl_bounds (pa_loops st ! l) ! k \<and> 0 < dest ! k"
    and prod: "\<And>k. k < length parts \<Longrightarrow> cl_bounds (pa_loops st ! l) ! k * dest ! k = source ! k"
  shows "\<exists>sv. subview_op lead made st x source dest = Inr sv
    \<and> mset (concat (map (\<lambda>vs. subview_points (env(l := vs)) sv) (box (cl_bounds (pa_loops st ! l))))) = mset (box source)"
proof -
  let ?bounds = "cl_bounds (pa_loops st ! l)"
  obtain sv where sv: "subview_op lead made st x source dest = Inr sv"
    and pts: "\<And>vs. vs \<in> set (box ?bounds) \<Longrightarrow>
      subview_points (env(l := vs)) sv = map (\<lambda>is. map2 (+) (map2 (*) vs dest) is) (box dest)"
    using subview_of_pieces [OF offs made len unit] by blast
  have whole: "map2 (*) ?bounds dest = source"
    using len prod by (intro nth_equalityI) auto
  have cover: "mset (concat (map (\<lambda>vs. map (\<lambda>is. map2 (+) (map2 (*) vs dest) is) (box dest)) (box ?bounds)))
      = mset (box (map2 (*) ?bounds dest))"
    using len pos by (intro pieces_cover) (auto simp: in_set_conv_nth)
  have views: "map (\<lambda>vs. subview_points (env(l := vs)) sv) (box ?bounds)
      = map (\<lambda>vs. map (\<lambda>is. map2 (+) (map2 (*) vs dest) is) (box dest)) (box ?bounds)"
    using pts by (intro map_cong refl)
  show ?thesis
    unfolding views [symmetric] using sv cover by (intro exI [of _ sv] conjI) (simp_all only: views whole)
qed

lemma grow_dims_unchanged:
  assumes "\<And>i l. Some (i, l) \<in> set vars \<Longrightarrow> pa_increased st l = None"
  shows "grow_dims st n vars dest = Inr dest"
  using assms
proof (induction st n vars dest rule: grow_dims.induct)
  case (3 st n i l vs dest)
  have "pa_increased st l = None"
    using 3(2) [of i l] by simp
  then have g: "grow_dim st n i (case pa_increased st l of None \<Rightarrow> [] | Some rs \<Rightarrow> rs) dest = Inr dest"
    by simp
  have "grow_dims st (Suc n) vs dest = Inr dest"
    using 3(2) by (intro 3(1) [OF g]) (meson list.set_intros(2))
  with g show ?case by simp
qed auto

lemma split_all_pattern_state:
  assumes "pa_wf n st" and "split_all_pattern n owner parts st = Inr st'"
  shows "pa_loop_of st' n = Some (length (pa_loops st))"
    and "pa_offsets st' n = Some (split_all_vars parts (length (pa_loops st)))"
    and "cl_bounds (pa_loops st' ! length (pa_loops st)) = (if \<forall>m \<in> set parts. m = 1 then [1] else parts)"
    and "pa_increased st' = pa_increased st"
  using assms(2)
  by (auto simp: split_all_pattern_def new_loop_def insert_op_def update_loop_def Let_def nth_append split: if_splits)

text \<open>
  Expanding a \<open>split_all\<close> whose partitions divide the shape gives, in the loop the analysis made for it, a subview
  that over the iterations of the loop shows every element of the source exactly once, whatever the iterations of the
  other loops.
\<close>

theorem split_subviews_partition:
  assumes "pa_wf n st" and "split_all_pattern n owner parts st = Inr st'" and "pa_loop_of st' n = Some l"
    and "pa_increased st l = None" and "l \<in> made" and "parts \<noteq> []"
    and "split_all_type (SpensorT s) parts = Inr t"
    and "\<And>k. k < length parts \<Longrightarrow> 0 < parts ! k \<and> 0 < sp_shape s ! k \<and> parts ! k dvd sp_shape s ! k"
  shows "\<exists>sv. expand_split lead made st' n s t = Inr sv
    \<and> mset (concat (map (\<lambda>vs. subview_points (env(l := vs)) sv) (box (cl_bounds (pa_loops st' ! l))))) = mset (box (sp_shape s))"
proof -
  note state = split_all_pattern_state [OF assms(1,2)]
  have l: "l = length (pa_loops st)" using state(1) assms(3) by simp
  have len: "length (sp_shape s) = length parts"
    and t: "nd_spensor t = s\<lparr>sp_shape := map (\<lambda>k. sp_shape s ! k div parts ! k) [0..<length parts]\<rparr>"
    using split_all_typeD [OF assms(7)] by auto
  let ?dest = "map (\<lambda>k. sp_shape s ! k div parts ! k) [0..<length parts]"
  have shape: "new_subview_shape st' n ?dest = Inr ?dest"
    unfolding new_subview_shape_def state(2) using assms(4)
    by (auto intro!: grow_dims_unchanged simp: state(4) l split_all_vars_def split: if_splits)
  have pos: "0 < ?dest ! k \<and> parts ! k * ?dest ! k = sp_shape s ! k" if "k < length parts" for k
    using assms(8) [OF that] that by (auto simp: zero_less_mult_iff elim!: dvdE)
  have "\<exists>sv. subview_op lead made st' n (sp_shape s) ?dest = Inr sv
    \<and> mset (concat (map (\<lambda>vs. subview_points (env(l := vs)) sv) (box (cl_bounds (pa_loops st' ! l))))) = mset (box (sp_shape s))"
  proof (cases "\<forall>m \<in> set parts. m = 1")
    case False
    then have "cl_bounds (pa_loops st' ! l) = parts" using state(3) by (auto simp: l)
    then show ?thesis
      using pos assms(5,8) len state(2) by (intro subviews_cover [where parts = parts]) (auto simp: l)
  next
    case True
    then have bounds: "cl_bounds (pa_loops st' ! l) = [1]" using state(3) by (simp add: l)
    have vars: "split_all_vars parts (length (pa_loops st)) = replicate (length parts) None"
      using True by (auto simp: split_all_vars_def intro!: nth_equalityI)
    have dest: "?dest = sp_shape s"
      using True len by (intro nth_equalityI) (simp_all add: all_set_conv_all_nth)
    have "place_vars made st' 0 (replicate (length parts) None) (replicate (length parts) None) = Inr (replicate (length parts) None)"
      by (subst place_vars_all) auto
    then have sv: "subview_op lead made st' n (sp_shape s) ?dest = Inr
        \<lparr>sv_offsets = replicate (length parts) None, sv_sizes = sp_shape s\<rparr>"
      unfolding dest by (auto simp: subview_op_def state(2) vars subview_with_vars_def len intro!: nth_equalityI)
    have "map2 (\<lambda>off i. offset_at e off + i) (replicate (length parts) None) is = is" if "length is = length parts" for e "is"
      using that by (intro nth_equalityI) (auto simp: offset_at_def)
    then have views: "subview_points e \<lparr>sv_offsets = replicate (length parts) None, sv_sizes = sp_shape s\<rparr> = box (sp_shape s)" for e
      unfolding subview_points_def subview.simps using len by (intro map_idI) (auto dest: box_length)
    have "box [1] = [[0]]" by simp
    then have "concat (map (\<lambda>vs. subview_points (env(l := vs)) \<lparr>sv_offsets = replicate (length parts) None, sv_sizes = sp_shape s\<rparr>) (box [1]))
        = box (sp_shape s)"
      by (simp only: list.map views concat.simps append_Nil2)
    then show ?thesis
      unfolding bounds
      by (intro exI [of _ "\<lparr>sv_offsets = replicate (length parts) None, sv_sizes = sp_shape s\<rparr>"] conjI sv) (simp only:)
  qed
  then show ?thesis
    by (simp add: expand_split_def t shape)
qed

definition l1_memory :: memory_type where
  "l1_memory = \<lparr>mt_name = ''L1'', mt_shape = [4, 4]\<rparr>"

lemma split_subviews_partition_witness:
  "\<exists>sv. expand_split (\<lambda>x. x) {0}
       (insert_op 0 0 [Some (0, 0), None] (snd (new_loop [2, 1] None None pa_empty))) 0
       \<lparr>sp_shape = [6, 3], sp_elem = ''f32'', sp_memory = l1_memory\<rparr>
       \<lparr>nd_shape = [2], nd_spensor = \<lparr>sp_shape = [3, 3], sp_elem = ''f32'', sp_memory = l1_memory\<rparr>\<rparr> = Inr sv
    \<and> mset (concat (map (\<lambda>vs. subview_points ((\<lambda>_. [])(0 := vs)) sv) (box [2, 1]))) = mset (box [6, 3])"
proof -
  let ?st = "insert_op 0 0 [Some (0, 0), None] (snd (new_loop [2, 1] None None pa_empty))"
  let ?s = "\<lparr>sp_shape = [6, 3], sp_elem = ''f32'', sp_memory = l1_memory\<rparr>"
  have run: "split_all_pattern 0 None [2, 1] pa_empty = Inr ?st"
    by (simp add: split_all_pattern_def new_loop_def split_all_vars_def pa_empty_def)
  have bounds: "cl_bounds (pa_loops ?st ! 0) = [2, 1]" and of0: "pa_loop_of ?st 0 = Some 0"
    by (simp_all add: insert_op_def update_loop_def new_loop_def pa_empty_def)
  have t: "split_all_type (SpensorT ?s) [2, 1] = Inr \<lparr>nd_shape = [2], nd_spensor = ?s\<lparr>sp_shape := [3, 3]\<rparr>\<rparr>"
    by (simp add: split_all_type_def floor_div_def unit_free_def)
  have "0 < [2, 1 :: int] ! k \<and> 0 < sp_shape ?s ! k \<and> [2, 1] ! k dvd sp_shape ?s ! k" if "k < length [2, 1 :: int]" for k
  proof -
    from that have "k = 0 \<or> k = 1" by auto
    then show ?thesis by auto
  qed
  from split_subviews_partition [OF pa_wf_empty run of0 _ _ _ t this, of "{0}" "\<lambda>x. x" "\<lambda>_. []"]
  show ?thesis
    by (simp only: bounds) (simp add: pa_empty_def)
qed

section \<open>After a combination\<close>

lemma grow_dims_one:
  assumes inc: "pa_increased st p = Some [(l, int d)]" and d: "d < length (cl_bounds (pa_loops st ! l))"
    and len: "length dest = length parts" and le: "n \<le> length parts"
  shows "grow_dims st n (drop n (split_all_vars parts p)) dest =
    Inr (if n \<le> d \<and> d < length parts \<and> parts ! d \<noteq> 1 then dest[d := dest ! d * cl_bounds (pa_loops st ! l) ! d] else dest)"
  using le len
proof (induction "length parts - n" arbitrary: n dest)
  case 0
  then show ?case by (auto simp: split_all_vars_def)
next
  case (Suc m)
  then have n: "n < length parts" by simp
  then have drop: "drop n (split_all_vars parts p)
      = (if parts ! n \<noteq> 1 then Some (int n, p) else None) # drop (Suc n) (split_all_vars parts p)"
    by (subst Cons_nth_drop_Suc [symmetric]) (simp_all add: split_all_vars_nth, simp add: split_all_vars_def)
  have IH: "length dest = length parts \<Longrightarrow> grow_dims st (Suc n) (drop (Suc n) (split_all_vars parts p)) dest =
      Inr (if Suc n \<le> d \<and> d < length parts \<and> parts ! d \<noteq> 1 then dest[d := dest ! d * cl_bounds (pa_loops st ! l) ! d] else dest)"
    for dest
    using Suc(2) n by (intro Suc(1)) auto
  show ?case
  proof (cases "parts ! n = 1")
    case True
    then show ?thesis
      using n Suc.prems(2) by (auto simp: drop IH Suc_le_eq le_less)
  next
    case False
    then show ?thesis
      using n Suc.prems(2) d by (auto simp: drop inc IH)
  qed
qed

text \<open>
  Combining the pieces of a split along a dimension moves the bound of that dimension from the loop of the split
  into the loop inside it, and the piece grows by the same factor: over the remaining iterations of its loop the
  subviews of the split still show every element of the source exactly once.
\<close>

theorem combined_split_partitions:
  assumes "pa_offsets st x = Some (split_all_vars parts p)" and "p < length (pa_loops st)" "l < length (pa_loops st)" "l \<noteq> p"
    and "cl_bounds (pa_loops st ! p) = parts" and "cl_bounds (pa_loops st ! l) = replicate (length parts) 1"
    and "pa_increased st p = None" and "d < length parts" and "grow_bound l p (int d) st = Inr st'" and "p \<in> made"
    and "split_all_type (SpensorT s) parts = Inr t"
    and "\<And>k. k < length parts \<Longrightarrow> 0 < parts ! k \<and> 0 < sp_shape s ! k \<and> parts ! k dvd sp_shape s ! k"
  shows "cl_bounds (pa_loops st' ! p) = parts[d := 1] \<and> (\<exists>sv. expand_split lead made st' x s t = Inr sv
    \<and> mset (concat (map (\<lambda>vs. subview_points (env(p := vs)) sv) (box (cl_bounds (pa_loops st' ! p))))) = mset (box (sp_shape s)))"
proof -
  have len: "length (sp_shape s) = length parts"
    and t: "nd_spensor t = s\<lparr>sp_shape := map (\<lambda>k. sp_shape s ! k div parts ! k) [0..<length parts]\<rparr>"
    using split_all_typeD [OF assms(11)] by auto
  let ?dest = "map (\<lambda>k. sp_shape s ! k div parts ! k) [0..<length parts]"
  have unit: "parts[d := 1] = parts" if "parts ! d = 1"
    using that by (metis list_update_id)
  have st': "pa_offsets st' = pa_offsets st" "pa_increased st' p = Some [(l, int d)]"
    "cl_bounds (pa_loops st' ! p) = parts[d := 1]"
    "cl_bounds (pa_loops st' ! l) = (replicate (length parts) 1)[d := parts ! d]"
    using assms(2-9) unit
    by (auto simp: grow_bound_def increase_bound_def Let_def update_loop_def nth_list_update res_bind_Inr_iff
        intro!: nth_equalityI split: if_splits)
  let ?grown = "?dest[d := ?dest ! d * parts ! d]"
  have "?grown = ?dest" if "parts ! d = 1"
    using that assms(8) by (intro nth_equalityI) (auto simp: nth_list_update)
  then have grown: "new_subview_shape st' x ?dest = Inr ?grown"
    using grow_dims_one [OF st'(2), of ?dest parts 0] assms(1,8)
    by (cases "parts ! d = 1") (simp_all add: new_subview_shape_def st')
  have pos: "0 < parts[d := 1] ! k \<and> 0 < ?grown ! k \<and> parts[d := 1] ! k * ?grown ! k = sp_shape s ! k" if k: "k < length parts" for k
  proof -
    obtain e where e: "sp_shape s ! k = parts ! k * e" and "0 < parts ! k"
      using assms(12) [OF k] by (auto elim!: dvdE)
    moreover have "0 < e"
      using assms(12) [OF k] e by (auto simp: zero_less_mult_iff)
    ultimately show ?thesis
      using k assms(8) by (cases "k = d") (simp_all add: nth_list_update)
  qed
  have "\<exists>sv. subview_op lead made st' x (sp_shape s) ?grown = Inr sv
    \<and> mset (concat (map (\<lambda>vs. subview_points (env(p := vs)) sv) (box (cl_bounds (pa_loops st' ! p))))) = mset (box (sp_shape s))"
    using pos assms(1,8,10) len by (intro subviews_cover [where parts = parts]) (auto simp: st' nth_list_update)
  then show ?thesis
    by (simp add: expand_split_def t grown st'(3))
qed

definition split_and_copy :: pa_state where
  "split_and_copy = \<lparr>
     pa_loops = [\<lparr>cl_bounds = [4, 2], cl_tag = None, cl_parent = None, cl_ops = [0]\<rparr>,
                 \<lparr>cl_bounds = [1, 1], cl_tag = None, cl_parent = Some 0, cl_ops = [1]\<rparr>],
     pa_loop_of = [0 \<mapsto> 0, 1 \<mapsto> 1], pa_offsets = [0 \<mapsto> [Some (0, 0), Some (1, 0)], 1 \<mapsto> []],
     pa_uses = [(0, 0) \<mapsto> [(0, 0)], (1, 0) \<mapsto> [(1, 0)]], pa_increased = Map.empty, pa_bare = {1}\<rparr>"

lemma combined_split_partitions_witness:
  "\<exists>st' sv. grow_bound 1 0 1 split_and_copy = Inr st'
    \<and> mset (concat (map (\<lambda>vs. subview_points ((\<lambda>_. [])(0 := vs)) sv) (box [4, 1]))) = mset (box [8, 6])"
proof -
  let ?s = "\<lparr>sp_shape = [8, 6], sp_elem = ''f32'', sp_memory = l1_memory\<rparr>"
  have t: "split_all_type (SpensorT ?s) [4, 2] = Inr \<lparr>nd_shape = [4, 2], nd_spensor = ?s\<lparr>sp_shape := [2, 3]\<rparr>\<rparr>"
    by (simp add: split_all_type_def floor_div_def unit_free_def)
  have dvd: "0 < [4, 2 :: int] ! k \<and> 0 < sp_shape ?s ! k \<and> [4, 2] ! k dvd sp_shape ?s ! k" if "k < length [4, 2 :: int]" for k
  proof -
    from that have "k = 0 \<or> k = 1" by auto
    then show ?thesis by auto
  qed
  obtain st' where st': "grow_bound 1 0 (int 1) split_and_copy = Inr st'"
    by (simp add: grow_bound_def increase_bound_def split_and_copy_def)
  have "cl_bounds (pa_loops st' ! 0) = [4, 2][1 := 1] \<and> (\<exists>sv. expand_split (\<lambda>x. x) {0} st' 0 ?s
      \<lparr>nd_shape = [4, 2], nd_spensor = ?s\<lparr>sp_shape := [2, 3]\<rparr>\<rparr> = Inr sv
    \<and> mset (concat (map (\<lambda>vs. subview_points ((\<lambda>_. [])(0 := vs)) sv) (box (cl_bounds (pa_loops st' ! 0))))) = mset (box (sp_shape ?s)))"
    by (rule combined_split_partitions [OF _ _ _ _ _ _ _ _ st' _ t dvd])
      (auto simp: split_and_copy_def split_all_vars_def upt_rec)
  with st' show ?thesis by auto
qed

end
