(* ===== verification/Py_Text.thy ===== *)
theory Py_Text
  imports Prelude "HOL-Library.AList"
begin

text \<open>
  The string methods of Python that the backends use, on ASCII text: white space, \<open>strip\<close>, \<open>split\<close>, \<open>rsplit\<close>, \<open>in\<close>,
  \<open>endswith\<close>, \<open>lower\<close> and the decimal form of an integer; and the insertion into an ordered dict.
\<close>

definition is_space :: "char \<Rightarrow> bool" where
  "is_space c = (let k = (of_char c :: nat) in 9 \<le> k \<and> k \<le> 13 \<or> 28 \<le> k \<and> k \<le> 32)"

definition is_word_char :: "char \<Rightarrow> bool" where
  "is_word_char c =
     (let k = (of_char c :: nat) in 48 \<le> k \<and> k \<le> 57 \<or> 65 \<le> k \<and> k \<le> 90 \<or> 97 \<le> k \<and> k \<le> 122 \<or> k = 95)"

definition strip :: "string \<Rightarrow> string" where
  "strip s = rev (dropWhile is_space (rev (dropWhile is_space s)))"

text \<open>\<open>s.split(c)\<close> for one character, and \<open>s.rsplit(c, 1)[0]\<close>.\<close>

fun split_on :: "'a \<Rightarrow> 'a list \<Rightarrow> 'a list list" where
  "split_on c [] = [[]]"
| "split_on c (x # xs) =
     (if x = c then [] # split_on c xs
      else (case split_on c xs of [] \<Rightarrow> [[x]] | p # ps \<Rightarrow> (x # p) # ps))"

definition before_last :: "'a \<Rightarrow> 'a list \<Rightarrow> 'a list" where
  "before_last c s = (if c \<in> set s then rev (tl (dropWhile (\<lambda>x. x \<noteq> c) (rev s))) else s)"

definition begins_with :: "'a list \<Rightarrow> 'a list \<Rightarrow> bool" where
  "begins_with p s = (take (length p) s = p)"

definition ends_with :: "'a list \<Rightarrow> 'a list \<Rightarrow> bool" where
  "ends_with p s = begins_with (rev p) (rev s)"

fun contains :: "'a list \<Rightarrow> 'a list \<Rightarrow> bool" where
  "contains p [] = (p = [])"
| "contains p (x # xs) = (begins_with p (x # xs) \<or> contains p xs)"

definition lower_char :: "char \<Rightarrow> char" where
  "lower_char c = (let k = (of_char c :: nat) in if 65 \<le> k \<and> k \<le> 90 then char_of (k + 32) else c)"

definition lower :: "string \<Rightarrow> string" where
  "lower s = map lower_char s"

text \<open>\<open>c.join(ps)\<close>.\<close>

fun join :: "'a list \<Rightarrow> 'a list list \<Rightarrow> 'a list" where
  "join c [] = []"
| "join c [p] = p"
| "join c (p # q # ps) = p @ c @ join c (q # ps)"

text \<open>\<open>str\<close> of an integer.\<close>

definition digit_char :: "nat \<Rightarrow> char" where
  "digit_char d = ''0123456789'' ! d"

fun str_nat :: "nat \<Rightarrow> string" where
  "str_nat n = (if n < 10 then [digit_char n] else str_nat (n div 10) @ [digit_char (n mod 10)])"

declare str_nat.simps [simp del]

definition str_int :: "int \<Rightarrow> string" where
  "str_int i = (if i < 0 then CHR ''-'' # str_nat (nat (- i)) else str_nat (nat i))"

section \<open>Laws\<close>

lemma split_on_ne [simp]: "split_on c s \<noteq> []"
  by (cases s) (auto split: list.splits)

lemma split_on_append:
  "c \<notin> set p \<Longrightarrow> split_on c (p @ c # s) = p # split_on c s"
  by (induction p) auto

lemma split_on_none: "c \<notin> set p \<Longrightarrow> split_on c p = [p]"
  by (induction p) auto

lemma split_on_join:
  assumes "ps \<noteq> []" and "\<forall>p \<in> set ps. c \<notin> set p"
  shows "split_on c (join [c] ps) = ps"
  using assms by (induction "[c]" ps rule: join.induct) (auto simp: split_on_append split_on_none)

lemma join_elems: "x \<in> set (join c ps) \<Longrightarrow> x \<in> set c \<or> (\<exists>p \<in> set ps. x \<in> set p)"
  by (induction c ps rule: join.induct) auto

lemma before_last_append: "c \<notin> set s \<Longrightarrow> before_last c (p @ c # s) = p"
proof -
  assume "c \<notin> set s"
  then have "dropWhile (\<lambda>x. x \<noteq> c) (rev s @ c # rev p) = c # rev p"
    by (subst dropWhile_append2) auto
  then show ?thesis by (simp add: before_last_def)
qed

lemma begins_with_simps [simp]:
  "begins_with [] s"
  "\<not> begins_with (a # p) []"
  "begins_with (a # p) (b # s) \<longleftrightarrow> a = b \<and> begins_with p s"
  by (auto simp: begins_with_def)

lemma begins_with_append [simp]: "begins_with p (p @ s)"
  by (simp add: begins_with_def)

lemma begins_with_iff: "begins_with p s \<longleftrightarrow> (\<exists>r. s = p @ r)"
  by (metis append_take_drop_id begins_with_append begins_with_def)

lemma ends_with_iff: "ends_with p s \<longleftrightarrow> (\<exists>r. s = r @ p)"
  by (auto simp: ends_with_def begins_with_iff) (metis rev_append rev_rev_ident)

lemma contains_iff: "contains p s \<longleftrightarrow> (\<exists>a b. s = a @ p @ b)"
proof (induction p s rule: contains.induct)
  case (2 p x xs)
  show ?case
  proof
    assume "contains p (x # xs)"
    then consider "begins_with p (x # xs)" | "contains p xs" by auto
    then show "\<exists>a b. x # xs = a @ p @ b"
    proof cases
      case 1
      then show ?thesis by (auto simp: begins_with_iff intro: exI [of _ "[]"])
    next
      case 2
      with "2.IH" show ?thesis by (metis append_Cons)
    qed
  next
    assume "\<exists>a b. x # xs = a @ p @ b"
    then obtain a b where "x # xs = a @ p @ b" by blast
    then have "begins_with p (x # xs) \<or> (\<exists>a b. xs = a @ p @ b)" by (cases a) (auto simp: begins_with_iff)
    with "2.IH" show "contains p (x # xs)" by auto
  qed
qed simp

lemma digit_char_inj: "a < 10 \<Longrightarrow> b < 10 \<Longrightarrow> digit_char a = digit_char b \<longleftrightarrow> a = b"
  unfolding digit_char_def by (rule nth_eq_iff_index_eq) simp_all

lemma digit_char_ne: "d < 10 \<Longrightarrow> digit_char d \<noteq> CHR ''-''"
  using nth_mem [of d "''0123456789''"] by (auto simp: digit_char_def)

lemma str_nat_ne [simp]: "str_nat n \<noteq> []"
  by (subst str_nat.simps) simp

lemma str_nat_inj: "str_nat m = str_nat n \<longleftrightarrow> m = n"
proof (induction m arbitrary: n rule: less_induct)
  case (less m)
  show ?case
  proof (cases "m < 10"; cases "n < 10")
    assume "\<not> m < 10" "\<not> n < 10"
    moreover have "m div 10 < m" using \<open>\<not> m < 10\<close> by simp
    note less.IH [OF this, of "n div 10"]
    ultimately have "str_nat m = str_nat n \<longleftrightarrow> m div 10 = n div 10 \<and> m mod 10 = n mod 10"
      by (simp add: str_nat.simps [of m] str_nat.simps [of n] digit_char_inj)
    then show ?thesis by (metis div_mult_mod_eq)
  qed (auto simp: str_nat.simps [of m] str_nat.simps [of n] digit_char_inj dest: sym [of "[]"])
qed

lemma str_nat_digits: "CHR ''-'' \<notin> set (str_nat n)"
proof (induction n rule: str_nat.induct)
  case (1 n)
  note nd = digit_char_ne [THEN not_sym]
  show ?case using 1 nd [of "n mod 10"] nd [of n] by (cases "n < 10") (simp_all add: str_nat.simps [of n])
qed

lemma str_int_inj: "str_int i = str_int j \<longleftrightarrow> i = j"
proof -
  have "str_nat n \<noteq> CHR ''-'' # s" for n s using str_nat_digits [of n] by auto
  then show ?thesis by (auto simp: str_int_def str_nat_inj) metis+
qed

section \<open>Ordered dicts\<close>

lemma update_new: "k \<notin> fst ` set al \<Longrightarrow> AList.update k v al = al @ [(k, v)]"
  by (induction al) auto

end
