(* ===== verification/Txn_Builder.thy ===== *)
theory Txn_Builder
  imports Py_Text "HOL-Library.AList" "HOL-Library.Word"
begin

text \<open>
  The builder of instruction streams, \<^verbatim>\<open>src/python/air/backend/txn_builder.py\<close>: the signatures it reads from the
  generated header, the library it compiles and caches, and the two-call protocol it drives the library by. The
  generated functions and the C++ compiler are parameters. Text is ASCII.
\<close>

section \<open>Signatures\<close>

datatype ctype = C_int64 | C_uint64 | C_size_t | C_int32 | C_uint32

definition CTYPE_OF :: "(string \<times> ctype) list" where
  "CTYPE_OF =
     [(''int64_t'', C_int64), (''uint64_t'', C_uint64), (''size_t'', C_size_t), (''int32_t'', C_int32),
      (''uint32_t'', C_uint32)]"

text \<open>
  The pattern \<^verbatim>\<open>generate_txn_(\w+)\s*\(([^)]*)\)\<close> at one place of the text: name, parameters and what follows. Each of
  its parts ends where a character of another class begins, so a match is found without backtracking or not at all.
\<close>

definition keyword :: string where "keyword = ''generate_txn_''"

definition match_signature :: "string \<Rightarrow> (string \<times> string \<times> string) option" where
  "match_signature s =
     (if \<not> begins_with keyword s then None
      else
        let r = drop (length keyword) s; name = takeWhile is_word_char r in
        if name = [] then None
        else (case dropWhile is_space (dropWhile is_word_char r) of
                [] \<Rightarrow> None
              | c # r \<Rightarrow>
                  if c \<noteq> CHR ''('' then None
                  else (case dropWhile (\<lambda>c. c \<noteq> CHR '')'') r of
                          [] \<Rightarrow> None
                        | _ # rest \<Rightarrow> Some (name, takeWhile (\<lambda>c. c \<noteq> CHR '')'') r, rest))))"

lemma match_signature_shorter:
  assumes "match_signature s = Some (name, ps, rest)"
  shows "length rest < length s"
proof -
  have l: "length (dropWhile P xs) \<le> length xs" for P and xs :: string by (rule length_dropWhile_le)
  let ?r = "drop (length keyword) s"
  obtain r where r: "dropWhile is_space (dropWhile is_word_char ?r) = CHR ''('' # r"
    and rest: "\<exists>c. dropWhile (\<lambda>c. c \<noteq> CHR '')'') r = c # rest"
    using assms by (auto simp: match_signature_def Let_def split: if_splits list.splits)
  obtain c where "dropWhile (\<lambda>c. c \<noteq> CHR '')'') r = c # rest" using rest by blast
  then have "Suc (length rest) \<le> length r" using l [of "\<lambda>c. c \<noteq> CHR '')''" r] by simp
  also have "Suc (length r) \<le> length s"
    using arg_cong [OF r, of length] l [of is_space "dropWhile is_word_char ?r"] l [of is_word_char ?r] by simp
  finally show ?thesis by simp
qed

text \<open>\<open>finditer\<close>: from the left, each search going on after the match before it.\<close>

function find_signatures :: "string \<Rightarrow> (string \<times> string) list" where
  "find_signatures s =
     (case match_signature s of
        Some (name, ps, rest) \<Rightarrow> (name, ps) # find_signatures rest
      | None \<Rightarrow> (case s of [] \<Rightarrow> [] | _ # s \<Rightarrow> find_signatures s))"
  by auto
termination by (relation "measure length") (auto dest: match_signature_shorter)

declare find_signatures.simps [simp del]

text \<open>One parameter: its type is what stands before the last space.\<close>

definition parse_param :: "string \<Rightarrow> (string \<times> ctype) list res" where
  "parse_param p =
     (let p = strip p in
      if p = [] then Inr []
      else
        let ty = strip (before_last CHR '' '' p) in
        (case map_of CTYPE_OF ty of None \<Rightarrow> Inl TxnBuilderError | Some c \<Rightarrow> Inr [(ty, c)]))"

type_synonym signatures = "(string \<times> (string \<times> ctype) list) list"

fun add_signatures :: "(string \<times> string) list \<Rightarrow> signatures \<Rightarrow> signatures res" where
  "add_signatures [] sigs = Inr sigs"
| "add_signatures ((name, ps) # ms) sigs =
     res_bind (map_res parse_param (split_on CHR '','' ps)) (\<lambda>params.
       add_signatures ms (AList.update name (concat params) sigs))"

definition parse_signatures :: "string \<Rightarrow> signatures res" where
  "parse_signatures header_text = add_signatures (find_signatures header_text) []"

section \<open>The library\<close>

text \<open>
  The libraries that lie in the file system: by directory, the path and text of the header each was compiled from.
  Without a \<open>workdir\<close> the directory is named by a digest of the generated source, which names the header's path, and the
  header. \<open>compiles\<close> says whether the compiler succeeds.
\<close>

type_synonym libraries = "string \<Rightarrow> (string \<times> string) option"

record txn_builder =
  tb_signatures :: signatures
  tb_library :: "string \<times> string"

definition build_library ::
  "(string \<times> string \<Rightarrow> string) \<Rightarrow> (string \<times> string \<Rightarrow> bool) \<Rightarrow> string option \<Rightarrow> string \<times> string \<Rightarrow> libraries
    \<Rightarrow> ((string \<times> string) \<times> libraries) res"
where
  "build_library digest compiles workdir src libs =
     (let dir = (case workdir of None \<Rightarrow> digest src | Some d \<Rightarrow> d) in
      case libs dir of
        Some lib \<Rightarrow> Inr (lib, libs)
      | None \<Rightarrow> if compiles src then Inr (src, libs(dir \<mapsto> src)) else Inl TxnBuilderError)"

text \<open>A library has a wrapper for each signature of the header it was compiled from.\<close>

definition exports :: "string \<Rightarrow> string \<Rightarrow> bool" where
  "exports txt name = (case parse_signatures txt of Inl _ \<Rightarrow> False | Inr sigs \<Rightarrow> map_of sigs name \<noteq> None)"

text \<open>\<open>TxnBuilder.__init__\<close>; \<open>files\<close> are the texts of the files that exist.\<close>

definition TxnBuilder ::
  "(string \<times> string \<Rightarrow> string) \<Rightarrow> (string \<times> string \<Rightarrow> bool) \<Rightarrow> (string \<Rightarrow> string option) \<Rightarrow> string \<Rightarrow> string option \<Rightarrow> libraries
    \<Rightarrow> (txn_builder \<times> libraries) res"
where
  "TxnBuilder digest compiles files header workdir libs =
     (case files header of
        None \<Rightarrow> Inl TxnBuilderError
      | Some txt \<Rightarrow>
          res_bind (parse_signatures txt) (\<lambda>sigs.
            if sigs = [] then Inl TxnBuilderError
            else res_bind (build_library digest compiles workdir (header, txt) libs) (\<lambda>(lib, libs).
              if list_ex (\<lambda>(name, _). \<not> exports (snd lib) name) sigs then Inl AttributeError
              else Inr (\<lparr>tb_signatures = sigs, tb_library = lib\<rparr>, libs))))"

section \<open>Calls\<close>

text \<open>\<open>ctypes\<close> passes the low bits of an integer, without a check.\<close>

fun marshal :: "ctype \<Rightarrow> int \<Rightarrow> int" where
  "marshal C_int64 v = sint (word_of_int v :: 64 word)"
| "marshal C_uint64 v = uint (word_of_int v :: 64 word)"
| "marshal C_size_t v = uint (word_of_int v :: 64 word)"
| "marshal C_int32 v = sint (word_of_int v :: 32 word)"
| "marshal C_uint32 v = uint (word_of_int v :: 32 word)"

text \<open>
  A generated function: its name and arguments, and whatever state it keeps, give a stream of words or none.
  \<open>air_txn\<close> is the shim's wrapper: it copies the stream when the buffer holds it and returns its length.
\<close>

type_synonym 'st generator = "string \<Rightarrow> int list \<Rightarrow> 'st \<Rightarrow> 32 word list option \<times> 'st"

definition air_txn ::
  "'st generator \<Rightarrow> string \<Rightarrow> int list \<Rightarrow> 32 word list \<Rightarrow> nat \<Rightarrow> 'st \<Rightarrow> int \<times> 32 word list \<times> 'st"
where
  "air_txn gen name args out cap st =
     (case gen name args st of
        (None, st) \<Rightarrow> (-1, out, st)
      | (Some r, st) \<Rightarrow> (int (length r), if length r \<le> cap then r @ drop (length r) out else out, st))"

definition txn_call :: "'st generator \<Rightarrow> signatures \<Rightarrow> string \<Rightarrow> int list \<Rightarrow> 'st \<Rightarrow> 32 word list res \<times> 'st" where
  "txn_call gen sigs name args st =
     (case map_of sigs name of
        None \<Rightarrow> (Inl TxnBuilderError, st)
      | Some params \<Rightarrow>
          if length args \<noteq> length params then (Inl TxnBuilderError, st)
          else
            let vals = map2 (\<lambda>(_, c) v. marshal c v) params args in
            (case air_txn gen name vals [] 0 st of
               (n, _, st) \<Rightarrow>
                 if n < 0 then (Inl TxnBuilderError, st)
                 else (case air_txn gen name vals (replicate (nat n) 0) (nat n) st of
                         (got, words, st) \<Rightarrow> if got \<noteq> n then (Inl TxnBuilderError, st) else (Inr words, st))))"

section \<open>Headers are read back\<close>

text \<open>
  The declarations of a header: the text before each, its name, the white space before the parenthesis, and its
  parameters, of which each is a type, a number of spaces and a name, with white space around.
\<close>

type_synonym param_decl = "string \<times> string \<times> nat \<times> string \<times> string"

type_synonym txn_decl = "string \<times> string \<times> string \<times> param_decl list"

fun render_param :: "param_decl \<Rightarrow> string" where
  "render_param (lead, ty, k, x, trail) = lead @ ty @ replicate (Suc k) CHR '' '' @ x @ trail"

fun render_decl :: "txn_decl \<Rightarrow> string" where
  "render_decl (pre, name, gap, ps) = pre @ keyword @ name @ gap @ ''('' @ join '','' (map render_param ps) @ '')''"

definition render_header :: "txn_decl list \<Rightarrow> string \<Rightarrow> string" where
  "render_header ds tail = concat (map render_decl ds) @ tail"

fun wf_param :: "param_decl \<Rightarrow> bool" where
  "wf_param (lead, ty, k, x, trail) \<longleftrightarrow>
     list_all is_space lead \<and> list_all is_space trail \<and> ty \<in> fst ` set CTYPE_OF \<and> x \<noteq> [] \<and> list_all is_word_char x"

fun wf_decl :: "txn_decl \<Rightarrow> bool" where
  "wf_decl (pre, name, gap, ps) \<longleftrightarrow>
     \<not> contains keyword pre \<and> name \<noteq> [] \<and> list_all is_word_char name \<and> list_all is_space gap \<and> list_all wf_param ps"

fun decl_signature :: "txn_decl \<Rightarrow> string \<times> (string \<times> ctype) list" where
  "decl_signature (pre, name, gap, ps) = (name, map (\<lambda>(_, ty, _). (ty, the (map_of CTYPE_OF ty))) ps)"

lemma space_not_word: "is_space c \<Longrightarrow> \<not> is_word_char c"
  by (auto simp: is_space_def is_word_char_def Let_def)

lemma punctuation [simp]:
  "\<not> is_space CHR '',''" "\<not> is_space CHR '')''" "\<not> is_space CHR ''(''" "is_space CHR '' ''"
  "\<not> is_word_char CHR '',''" "\<not> is_word_char CHR '')''" "\<not> is_word_char CHR ''(''" "\<not> is_word_char CHR '' ''"
  by code_simp+

lemma ctype_words: "ty \<in> fst ` set CTYPE_OF \<Longrightarrow> ty \<noteq> [] \<and> list_all is_word_char ty"
  unfolding CTYPE_OF_def by (elim imageE) (auto simp: is_word_char_def Let_def)

lemma dropWhile_all: "list_all P xs \<Longrightarrow> dropWhile P (xs @ ys) = dropWhile P ys"
  by (induction xs) auto

lemma strip_pad:
  assumes "list_all is_space l" and "list_all is_space t" and "s \<noteq> []" and "\<not> is_space (hd s)" and "\<not> is_space (last s)"
  shows "strip (l @ s @ t) = s"
proof -
  have "dropWhile is_space (s @ t) = s @ t" using assms(3,4) by (cases s) auto
  moreover have "dropWhile is_space (rev s) = rev s" using assms(3,5) by (cases s rule: rev_cases) auto
  ultimately show ?thesis using assms(1,2) by (simp add: strip_def dropWhile_all)
qed

lemma strip_ends:
  assumes "s \<noteq> []" and "list_all is_word_char s"
  shows "\<not> is_space (hd s)" and "\<not> is_space (last s)" and "CHR '' '' \<notin> set s" and "CHR '','' \<notin> set s" and "CHR '')'' \<notin> set s"
proof -
  have "\<forall>c \<in> set s. \<not> is_space c" "\<forall>c \<in> set s. is_word_char c"
    using assms(2) space_not_word by (auto simp: list_all_iff)
  with assms(1) show "\<not> is_space (hd s)" "\<not> is_space (last s)" by auto
  from \<open>\<forall>c \<in> set s. is_word_char c\<close>
  show "CHR '' '' \<notin> set s" "CHR '','' \<notin> set s" "CHR '')'' \<notin> set s" using punctuation(5-8) by blast+
qed

lemma parse_rendered_param:
  assumes "wf_param (lead, ty, k, x, trail)"
  shows "parse_param (render_param (lead, ty, k, x, trail)) = Inr [(ty, the (map_of CTYPE_OF ty))]"
proof -
  let ?s = "ty @ replicate (Suc k) CHR '' '' @ x"
  have ty: "ty \<noteq> []" "list_all is_word_char ty" and x: "x \<noteq> []" "list_all is_word_char x"
    and pad: "list_all is_space lead" "list_all is_space trail" and key: "ty \<in> fst ` set CTYPE_OF"
    using assms ctype_words by auto
  have s: "strip (render_param (lead, ty, k, x, trail)) = ?s"
    using strip_pad [OF pad, of ?s] strip_ends [OF ty] strip_ends [OF x] ty(1) x(1) by simp
  have "?s = (ty @ replicate k CHR '' '') @ CHR '' '' # x" using replicate_append_same [of k "CHR '' ''"] by simp
  then have "before_last CHR '' '' ?s = [] @ ty @ replicate k CHR '' ''"
    using before_last_append [OF strip_ends(3) [OF x], of "ty @ replicate k CHR '' ''"] by simp
  moreover have "strip ([] @ ty @ replicate k CHR '' '') = ty"
    by (rule strip_pad) (use ty strip_ends [OF ty] in \<open>auto simp: list_all_iff\<close>)
  moreover obtain c where "map_of CTYPE_OF ty = Some c"
    using key by (cases "map_of CTYPE_OF ty") (auto simp: map_of_eq_None_iff)
  ultimately show ?thesis using ty(1) unfolding parse_param_def s by (simp add: Let_def)
qed

lemma rendered_param_chars:
  assumes "wf_param p"
  shows "CHR '','' \<notin> set (render_param p)" and "CHR '')'' \<notin> set (render_param p)"
proof -
  obtain lead ty k x trail where p: "p = (lead, ty, k, x, trail)" by (cases p)
  have "list_all is_word_char ty" "list_all is_word_char x" "list_all is_space lead" "list_all is_space trail"
    using assms ctype_words by (auto simp: p)
  then show "CHR '','' \<notin> set (render_param p)" "CHR '')'' \<notin> set (render_param p)"
    by (auto simp: p list_all_iff)
qed

lemma rendered_params:
  assumes "list_all wf_param ps"
  shows "map_res parse_param (split_on CHR '','' (join '','' (map render_param ps)))
      = Inr (if ps = [] then [[]] else map (\<lambda>(_, ty, _). [(ty, the (map_of CTYPE_OF ty))]) ps)"
proof (cases "ps = []")
  case True
  then show ?thesis by (simp add: parse_param_def strip_def)
next
  case False
  have "split_on CHR '','' (join '','' (map render_param ps)) = map render_param ps"
    using False assms rendered_param_chars by (intro split_on_join) (auto simp: list_all_iff)
  moreover have "parse_param (render_param p) = Inr ((\<lambda>(_, ty, _). [(ty, the (map_of CTYPE_OF ty))]) p)" if "p \<in> set ps" for p
  proof -
    obtain lead ty k x trail where p: "p = (lead, ty, k, x, trail)" by (cases p)
    have "wf_param p" using that assms by (simp add: list_all_iff)
    then show ?thesis using parse_rendered_param [of lead ty k x trail] by (simp only: p prod.case)
  qed
  ultimately show ?thesis
    using False by (simp add: map_res_Inr_iff list.rel_map list_all2_same)
qed

text \<open>The keyword does not overlap itself, so it is found exactly where the declarations have it.\<close>

lemma keyword_not_before:
  assumes "\<not> contains keyword (a # pre)"
  shows "\<not> begins_with keyword ((a # pre) @ keyword @ r)"
proof
  assume "begins_with keyword ((a # pre) @ keyword @ r)"
  then obtain z where "(a # pre) @ keyword @ r = keyword @ z" unfolding begins_with_iff by blast
  then obtain us where us: "a # pre = keyword @ us \<or> (a # pre) @ us = keyword \<and> keyword @ r = us @ z"
    unfolding append_eq_append_conv2 by blast
  have "a # pre \<noteq> keyword @ us" for us using assms contains_iff by (metis append_Nil)
  with us have k: "(a # pre) @ us = keyword" and r: "keyword @ r = us @ z" by auto
  have "us \<noteq> []" using k assms contains_iff by (metis append_Nil append_Nil2)
  then have "hd us = CHR ''g''" using arg_cong [OF r, of hd] by (simp add: keyword_def)
  moreover have "set us \<subseteq> set (tl keyword)" using arg_cong [OF k, of "\<lambda>x. set (tl x)"] by auto
  moreover have "CHR ''g'' \<notin> set (tl keyword)" by (simp add: keyword_def)
  ultimately show False using \<open>us \<noteq> []\<close> by (metis hd_in_set subsetD)
qed

lemma find_signatures_tail: "\<not> contains keyword s \<Longrightarrow> find_signatures s = []"
proof (induction s)
  case Nil
  show ?case by (subst find_signatures.simps) (simp add: match_signature_def keyword_def begins_with_def)
next
  case (Cons c s)
  then have "match_signature (c # s) = None" by (simp add: match_signature_def)
  with Cons show ?case by (subst find_signatures.simps) simp
qed

lemma find_signatures_skip:
  "\<not> contains keyword pre \<Longrightarrow> find_signatures (pre @ keyword @ r) = find_signatures (keyword @ r)"
proof (induction pre)
  case (Cons a pre)
  from keyword_not_before [OF Cons.prems, of r]
  have "match_signature ((a # pre) @ keyword @ r) = None" by (simp add: match_signature_def)
  then have "find_signatures ((a # pre) @ keyword @ r) = find_signatures (pre @ keyword @ r)"
    by (subst find_signatures.simps) simp
  with Cons show ?case by simp
qed simp

lemma match_declaration:
  assumes "name \<noteq> []" and "list_all is_word_char name" and "list_all is_space gap" and "CHR '')'' \<notin> set ps"
  shows "match_signature (keyword @ name @ gap @ ''('' @ ps @ '')'' @ rest) = Some (name, ps, rest)"
proof -
  let ?r = "name @ gap @ ''('' @ ps @ '')'' @ rest"
  have stop: "takeWhile is_word_char (gap @ ''('' @ ps @ '')'' @ rest) = []"
    "dropWhile is_word_char (gap @ ''('' @ ps @ '')'' @ rest) = gap @ ''('' @ ps @ '')'' @ rest"
    using assms(3) space_not_word by (cases gap; simp)+
  have name: "\<And>c. c \<in> set name \<Longrightarrow> is_word_char c" using assms(2) by (simp add: list_all_iff)
  have "takeWhile is_word_char ?r = name" "dropWhile is_word_char ?r = gap @ ''('' @ ps @ '')'' @ rest"
    using stop name by (simp_all add: takeWhile_append2 dropWhile_append2)
  moreover have "dropWhile is_space (gap @ ''('' @ ps @ '')'' @ rest) = ''('' @ ps @ '')'' @ rest"
    using assms(3) by (simp add: dropWhile_all)
  moreover have "takeWhile (\<lambda>c. c \<noteq> CHR '')'') (ps @ '')'' @ rest) = ps"
    "dropWhile (\<lambda>c. c \<noteq> CHR '')'') (ps @ '')'' @ rest) = '')'' @ rest"
    using assms(4) by (subst takeWhile_append2 dropWhile_append2; auto)+
  ultimately show ?thesis using assms(1) by (simp add: match_signature_def Let_def)
qed

lemma find_rendered:
  assumes "list_all wf_decl ds" and "\<not> contains keyword tail"
  shows "find_signatures (render_header ds tail) = map (\<lambda>(_, name, _, ps). (name, join '','' (map render_param ps))) ds"
  using assms(1)
proof (induction ds)
  case Nil
  then show ?case using assms(2) by (simp add: render_header_def find_signatures_tail)
next
  case (Cons d ds)
  obtain pre name gap ps where d: "d = (pre, name, gap, ps)" by (cases d)
  let ?params = "join '','' (map render_param ps)"
  have wf: "\<not> contains keyword pre" "name \<noteq> []" "list_all is_word_char name" "list_all is_space gap" "list_all wf_param ps"
    using Cons.prems by (simp_all add: d)
  have "CHR '')'' \<notin> set ?params"
    using wf(5) rendered_param_chars(2) join_elems [of "CHR '')''" "'',''" "map render_param ps"] by (auto simp: list_all_iff simp del: wf_param.simps render_param.simps)
  note m = match_declaration [OF wf(2-4) this, of "render_header ds tail"]
  have "render_header (d # ds) tail = pre @ keyword @ name @ gap @ ''('' @ ?params @ '')'' @ render_header ds tail"
    by (simp add: render_header_def d)
  also have "find_signatures \<dots> = (name, ?params) # find_signatures (render_header ds tail)"
    unfolding find_signatures_skip [OF wf(1)] by (subst find_signatures.simps) (simp only: m option.case prod.case)
  finally show ?case using Cons by (simp add: d)
qed

lemma add_rendered:
  assumes "list_all wf_decl ds" and "distinct (map (fst \<circ> snd) ds)" and "fst ` set sigs \<inter> (fst \<circ> snd) ` set ds = {}"
  shows "add_signatures (map (\<lambda>(_, name, _, ps). (name, join '','' (map render_param ps))) ds) sigs
      = Inr (sigs @ map decl_signature ds)"
  using assms
proof (induction ds arbitrary: sigs)
  case (Cons d ds)
  obtain pre name gap ps where d: "d = (pre, name, gap, ps)" by (cases d)
  have "concat (if ps = [] then [[]] else map (\<lambda>(_, ty, _). [(ty, the (map_of CTYPE_OF ty))]) ps)
      = map (\<lambda>(_, ty, _). (ty, the (map_of CTYPE_OF ty))) ps"
  proof -
    have "concat (map (\<lambda>(_, ty, _). [(ty, the (map_of CTYPE_OF ty))]) ps) = map (\<lambda>(_, ty, _). (ty, the (map_of CTYPE_OF ty))) ps"
      by (induction ps) auto
    then show ?thesis by simp
  qed
  moreover have "name \<notin> fst ` set sigs" using Cons.prems(3) by (auto simp: d)
  moreover have "list_all wf_param ps" using Cons.prems(1) by (simp add: d)
  ultimately show ?case
    using Cons.IH [of "sigs @ [decl_signature d]"] Cons.prems
    by (auto simp: d rendered_params update_new)
qed simp

text \<open>
  A header is read back. From a text whose declarations have distinct names, parameters of the known types and
  nothing between them that looks like a declaration, \<open>_parse_signatures\<close> recovers every name with its parameter types,
  in order, whatever white space the declarations use.
\<close>

theorem signatures_read_back:
  assumes "list_all wf_decl ds" and "distinct (map (fst \<circ> snd) ds)" and "\<not> contains keyword tail"
  shows "parse_signatures (render_header ds tail) = Inr (map decl_signature ds)"
  using assms by (simp add: parse_signatures_def find_rendered add_rendered)

definition sample_decls :: "txn_decl list" where
  "sample_decls =
     [(''#include <vector> std::vector<uint32_t> '', ''main_task'', [],
       [([], ''int64_t'', 0, ''context'', []), ('' '', ''size_t'', 1, ''n'', '' '')]),
      ('' { return emit(); } '', ''reset'', '' '', [])]"

theorem signatures_read_back_witness:
  "parse_signatures (render_header sample_decls '' { }'')
     = Inr [(''main_task'', [(''int64_t'', C_int64), (''size_t'', C_size_t)]), (''reset'', [])]"
proof -
  have "list_all wf_decl sample_decls" "distinct (map (fst \<circ> snd) sample_decls)" "\<not> contains keyword '' { }''"
    by code_simp+
  from signatures_read_back [OF this]
  have "parse_signatures (render_header sample_decls '' { }'') = Inr (map decl_signature sample_decls)" .
  moreover have "map decl_signature sample_decls
      = [(''main_task'', [(''int64_t'', C_int64), (''size_t'', C_size_t)]), (''reset'', [])]"
    by code_simp
  ultimately show ?thesis by simp
qed

section \<open>The protocol returns the stream\<close>

fun fits_ctype :: "ctype \<Rightarrow> int \<Rightarrow> bool" where
  "fits_ctype C_int64 v \<longleftrightarrow> - (2 ^ 63) \<le> v \<and> v < 2 ^ 63"
| "fits_ctype C_uint64 v \<longleftrightarrow> 0 \<le> v \<and> v < 2 ^ 64"
| "fits_ctype C_size_t v \<longleftrightarrow> 0 \<le> v \<and> v < 2 ^ 64"
| "fits_ctype C_int32 v \<longleftrightarrow> - (2 ^ 31) \<le> v \<and> v < 2 ^ 31"
| "fits_ctype C_uint32 v \<longleftrightarrow> 0 \<le> v \<and> v < 2 ^ 32"

lemma marshal_fits: "fits_ctype c v \<Longrightarrow> marshal c v = v"
  by (cases c) (simp_all add: unsigned_of_int signed_of_int take_bit_int_eq_self signed_take_bit_int_eq_self)

lemma marshal_args:
  "list_all2 (\<lambda>(_, c) v. fits_ctype c v) params args \<Longrightarrow> map2 (\<lambda>(_, c) v. marshal c v) params args = args"
  by (induction rule: list_all2_induct) (auto simp: marshal_fits)

text \<open>Whatever the two runs of the generator give, words that are returned are the whole stream of the second.\<close>

lemma words_are_complete:
  assumes "txn_call gen sigs name args st = (Inr words, st')" and "map_of sigs name = Some params"
  shows "fst (gen name (map2 (\<lambda>(_, c) v. marshal c v) params args) (snd (gen name (map2 (\<lambda>(_, c) v. marshal c v) params args) st)))
      = Some words"
proof -
  let ?vals = "map2 (\<lambda>(_, c) v. marshal c v) params args"
  obtain r1 st1 where g1: "gen name ?vals st = (r1, st1)" by (cases "gen name ?vals st")
  obtain r2 st2 where g2: "gen name ?vals st1 = (r2, st2)" by (cases "gen name ?vals st1")
  show ?thesis
    using assms by (cases r1; cases r2) (auto simp: txn_call_def Let_def air_txn_def g1 g2 split: if_splits)
qed

text \<open>
  C14: the two-call protocol is transparent. For a function that gives the same stream each time it is run on the
  arguments, and arguments in the range of the declared types, \<open>__call__\<close> returns exactly that stream, of any length
  and with no word of the zeroed buffer left in it, and raises exactly when there is none.
\<close>

theorem txn_call_returns_stream:
  assumes "map_of sigs name = Some params" and "list_all2 (\<lambda>(_, c) v. fits_ctype c v) params args"
    and "\<And>st. fst (gen name args st) = stream"
  shows "fst (txn_call gen sigs name args st) = (case stream of None \<Rightarrow> Inl TxnBuilderError | Some words \<Rightarrow> Inr words)"
proof -
  have l: "length args = length params" using assms(2) by (simp add: list_all2_lengthD)
  have v: "map2 (\<lambda>(_, c) v. marshal c v) params args = args" using assms(2) by (rule marshal_args)
  obtain st1 where g1: "gen name args st = (stream, st1)" using assms(3) [of st] by (cases "gen name args st") auto
  obtain st2 where g2: "gen name args st1 = (stream, st2)" using assms(3) [of st1] by (cases "gen name args st1") auto
  show ?thesis
    using assms(1) by (cases stream) (simp_all add: txn_call_def l v air_txn_def g1 g2)
qed

text \<open>A generator that counts its runs.\<close>

definition count_runs :: "nat generator" where
  "count_runs name args k = (if args = [] then None else Some (map word_of_int args), Suc k)"

theorem txn_call_returns_stream_witness:
  "fst (txn_call count_runs [(''f'', [(''int64_t'', C_int64), (''uint32_t'', C_uint32)])] ''f'' [37, 4294967295] 0)
     = Inr [37, 4294967295]"
proof -
  let ?params = "[(''int64_t'', C_int64), (''uint32_t'', C_uint32)]"
  have "fst (txn_call count_runs [(''f'', ?params)] ''f'' [37, 4294967295] 0)
      = (case Some [37, 4294967295] of None \<Rightarrow> Inl TxnBuilderError | Some words \<Rightarrow> Inr words)"
    by (rule txn_call_returns_stream [where params = ?params]) (simp_all add: count_runs_def)
  then show ?thesis by simp
qed

section \<open>The cache of libraries\<close>

text \<open>
  With a digest that tells headers apart and builders that take the default directory, a builder drives the library of
  the header it was given.
\<close>

definition keyed_libraries :: "(string \<times> string \<Rightarrow> string) \<Rightarrow> libraries \<Rightarrow> bool" where
  "keyed_libraries digest libs \<longleftrightarrow> (\<forall>dir lib. libs dir = Some lib \<longrightarrow> dir = digest lib)"

lemma default_library_is_current:
  assumes "inj digest" and "keyed_libraries digest libs"
    and "TxnBuilder digest compiles files header None libs = Inr (b, libs')" and "files header = Some txt"
  shows "tb_library b = (header, txt) \<and> keyed_libraries digest libs'"
proof -
  have known: "lib = (header, txt)" if "libs (digest (header, txt)) = Some lib" for lib
    using assms(1,2) that unfolding keyed_libraries_def by (metis injD)
  obtain lib where "build_library digest compiles None (header, txt) libs = Inr (lib, libs')" "tb_library b = lib"
    using assms(3,4) by (auto simp: TxnBuilder_def res_bind_Inr_iff split: if_splits)
  then show ?thesis
    using known assms(2) by (cases "libs (digest (header, txt))") (auto simp: build_library_def keyed_libraries_def split: if_splits)
qed

text \<open>
  In a given directory a library that lies there is taken as it is: after the header changed, the builder reads the new
  signatures and drives the old library.
\<close>

definition header_v :: "string \<Rightarrow> string" where
  "header_v body = ''words generate_txn_f(int64_t n) {'' @ body @ ''}''"

lemma given_directory_keeps_old_library:
  "(case TxnBuilder (\<lambda>_. []) (\<lambda>_. True) (\<lambda>_. Some (header_v ''old'')) ''h'' (Some ''w'') (\<lambda>_. None) of
      Inl _ \<Rightarrow> None
    | Inr (_, libs) \<Rightarrow>
        (case TxnBuilder (\<lambda>_. []) (\<lambda>_. True) (\<lambda>_. Some (header_v ''new'')) ''h'' (Some ''w'') libs of
           Inl _ \<Rightarrow> None | Inr (b, _) \<Rightarrow> Some (snd (tb_library b)))) = Some (header_v ''old'')"
  by code_simp

section \<open>What the reader lets through\<close>

text \<open>
  A parameter whose star stands before its name has the type in front of the last space, so a pointer is taken for the
  integer it points to; and an argument out of range is not refused.
\<close>

lemma pointer_read_as_integer:
  "parse_signatures ''words generate_txn_f(int64_t *p)'' = Inr [(''f'', [(''int64_t'', C_int64)])]"
  by code_simp

lemma argument_truncated: "marshal C_int32 4294967333 = 37"
  by simp

end
