(* ===== verification/Xrt_Compile.thy ===== *)
theory Xrt_Compile
  imports Compile Py_Text
begin

text \<open>
  Compilation for the NPU, \<^verbatim>\<open>src/python/air/backend/xrt.py\<close>: the settings of an \<open>XRTBackend\<close>, the detection of the
  device, the command line \<open>compile\<close> hands to \<^verbatim>\<open>aircc\<close> and the artifact it returns. The compiler, \<^verbatim>\<open>xrt-smi\<close> and the file
  system are parameters; what is printed is not modelled. Loading an artifact is in \<open>Compile\<close>.
\<close>

section \<open>The host\<close>

text \<open>
  What \<open>compile\<close> asks its surroundings: the variables \<^verbatim>\<open>AIR_TARGET_DEVICE\<close> and \<^verbatim>\<open>PEANO_INSTALL_DIR\<close> (empty when unset), what
  running \<^verbatim>\<open>xrt-smi examine\<close> gives, which paths are directories, the llvm-aie package (empty when there is none) and
  whether \<^verbatim>\<open>aircc\<close> is found.
\<close>

datatype probe = ProbeFails | ProbeExits | ProbeReports string

record host =
  h_override :: string
  h_probe :: probe
  h_peano_env :: string
  h_isdir :: "string \<Rightarrow> bool"
  h_site_peano :: string
  h_aircc :: bool

definition NPU_MODELS :: "(string \<times> string list) list" where
  "NPU_MODELS =
     [(''npu1'', [''npu1'', ''Phoenix'']),
      (''npu2'', [''npu4'', ''Strix'', ''npu5'', ''Strix Halo'', ''npu6'', ''Krackan'', ''Gorgon Point''])]"

fun detected :: "(string \<times> string list) list \<Rightarrow> string \<Rightarrow> string option" where
  "detected [] output_lc = None"
| "detected ((version, keywords) # ms) output_lc =
     (if list_ex (\<lambda>kw. contains (lower kw) output_lc) keywords then Some version else detected ms output_lc)"

definition detect_target_device :: "host \<Rightarrow> string \<Rightarrow> string res" where
  "detect_target_device h fallback =
     (let override = strip (h_override h) in
      if override \<noteq> [] then
        (if override \<notin> fst ` set NPU_MODELS then Inl ValueError else Inr override)
      else (case h_probe h of
              ProbeFails \<Rightarrow> Inr fallback
            | ProbeExits \<Rightarrow> Inr fallback
            | ProbeReports out \<Rightarrow>
                (case detected NPU_MODELS (lower out) of Some version \<Rightarrow> Inr version | None \<Rightarrow> Inr fallback)))"

section \<open>Settings\<close>

text \<open>A setting that may be a string or, for callers written against an older form, a bool.\<close>

datatype text_arg = FlagArg bool | TextArg string

record settings =
  x_verbose :: bool
  x_target :: "string option"
  x_omit_while_true :: bool
  x_pingpong :: text_arg
  x_linalg_to_func :: text_arg
  x_derive_call :: bool
  x_loop_fusion :: bool
  x_tiling_sizes :: "int list"
  x_omit_broadcast :: bool
  x_multiplexing :: "string list"
  x_race_fix :: bool
  x_race_fix_v2 :: bool
  x_coalesce :: bool
  x_trace_offset :: int
  x_trace_size :: int
  x_format :: string
  x_kernel_name :: string
  x_instance_name :: string
  x_kernel_id :: string
  x_xclbin_input :: string
  x_cols :: int
  x_debug_ir :: bool
  x_emit_txn :: bool
  x_bf16_emulation :: bool
  x_stack_size :: int
  x_perf :: int
  x_warmup :: int

text \<open>\<open>XRTBackend.__init__\<close>: the checks, and the form of \<open>omit_pingpong\<close> that is kept.\<close>

definition init_backend :: "settings \<Rightarrow> settings res" where
  "init_backend s =
     (if x_race_fix s \<and> x_race_fix_v2 s then Inl AirBackendError
      else if x_perf s < 0 then Inl ValueError
      else if x_warmup s < 0 then Inl ValueError
      else if x_stack_size s \<le> 0 then Inl ValueError
      else Inr (s\<lparr>x_pingpong := (case x_pingpong s of FlagArg b \<Rightarrow> TextArg (if b then ''all'' else []) | t \<Rightarrow> t)\<rparr>))"

section \<open>The command line\<close>

abbreviation given :: "bool \<Rightarrow> string list \<Rightarrow> string list" where
  "given b args \<equiv> (if b then args else [])"

definition binary_name :: "settings \<Rightarrow> string \<Rightarrow> string" where
  "binary_name s base =
     (if x_format s = ''elf'' then base @ ''.elf''
      else if x_format s = ''txn'' then base @ ''.txn''
      else if x_format s = ''pdi'' then base @ ''.pdi''
      else base @ ''.xclbin'')"

definition output_options :: "settings \<Rightarrow> string \<Rightarrow> string \<Rightarrow> string list" where
  "output_options s output_binary insts =
     (if x_format s = ''elf'' then [''--elf-name'', output_binary]
      else if x_format s = ''pdi'' then [''--pdi-name'', output_binary, ''-i'', insts]
      else [''-o'', output_binary, ''-i'', insts])"

definition pingpong_value :: "text_arg \<Rightarrow> string" where
  "pingpong_value t = (case t of FlagArg b \<Rightarrow> if b then ''all'' else [] | TextArg v \<Rightarrow> v)"

definition truthy :: "text_arg \<Rightarrow> bool" where
  "truthy t = (case t of FlagArg b \<Rightarrow> b | TextArg v \<Rightarrow> v \<noteq> [])"

definition text_of :: "text_arg \<Rightarrow> string" where
  "text_of t = (case t of FlagArg b \<Rightarrow> [] | TextArg v \<Rightarrow> v)"

text \<open>The options that change what the passes do, for a \<open>lower_linalg_to_func\<close> that is not \<open>True\<close>.\<close>

definition pass_options :: "settings \<Rightarrow> string list" where
  "pass_options s =
     map (\<lambda>n. ''--air-runtime-loop-tiling-sizes='' @ str_int n) (x_tiling_sizes s) @
     given (x_verbose s) [''-v''] @
     given (x_omit_while_true s) [''--omit-while-true-loop''] @
     given (truthy (x_pingpong s)) [''--omit-ping-pong-transform='' @ pingpong_value (x_pingpong s)] @
     given (truthy (x_linalg_to_func s))
       ([''--lower-linalg-to-func'', text_of (x_linalg_to_func s)] @ given (x_derive_call s) [''--derive-library-call'']) @
     given (x_loop_fusion s) [''--air-loop-fusion''] @
     given (x_omit_broadcast s) [''--omit-auto-broadcast''] @
     map (\<lambda>ch. ''--air-channel-multiplexing='' @ ch) (x_multiplexing s) @
     given (x_race_fix s) [''--use-lock-race-condition-fix''] @
     given (x_race_fix_v2 s) [''--use-lock-race-condition-fix-v2''] @
     given (x_coalesce s) [''--coalesce-shim-dma'']"

definition package_options :: "settings \<Rightarrow> string list" where
  "package_options s =
     given (x_trace_size s \<noteq> 0) [''-trace-size'', str_int (x_trace_size s), ''-trace-offset'', str_int (x_trace_offset s)] @
     given (x_format s \<noteq> []) [''--output-format'', x_format s] @
     given (x_kernel_name s \<noteq> []) [''--xclbin-kernel-name'', x_kernel_name s] @
     given (x_instance_name s \<noteq> []) [''--xclbin-instance-name'', x_instance_name s] @
     given (x_kernel_id s \<noteq> []) [''--xclbin-kernel-id'', x_kernel_id s] @
     given (x_xclbin_input s \<noteq> []) [''--xclbin-input'', x_xclbin_input s]"

definition tool_options :: "settings \<Rightarrow> string \<Rightarrow> string list" where
  "tool_options s peano =
     (if peano \<noteq> [] then [''--peano'', peano, ''--no-xchesscc'', ''--no-xbridge''] else [''--xchesscc'', ''--xbridge'']) @
     given (x_debug_ir s) [''--debug-ir''] @
     given (x_emit_txn s) [''--emit-txn-cpp''] @
     given (x_bf16_emulation s) [''--bf16-emulation''] @
     given (x_stack_size s \<noteq> 2048) [''--stack-size'', str_int (x_stack_size s)]"

definition aircc_options :: "settings \<Rightarrow> string \<Rightarrow> string \<Rightarrow> string \<Rightarrow> string \<Rightarrow> string list" where
  "aircc_options s target output_binary insts peano =
     [''--device'', target, ''air.mlir''] @ output_options s output_binary insts @ pass_options s @ package_options s @
     tool_options s peano"

section \<open>Compilation\<close>

text \<open>\<open>XRTCompileArtifact\<close>.\<close>

record compiled =
  cp_binary :: string
  cp_kernel :: string
  cp_insts :: "string option"
  cp_txn_header :: "string option"

text \<open>The device a design is compiled for, with the columns it is confined to.\<close>

definition target_device :: "settings \<Rightarrow> host \<Rightarrow> string res" where
  "target_device s h =
     res_bind (case x_target s of Some t \<Rightarrow> Inr t | None \<Rightarrow> detect_target_device h ''npu1'') (\<lambda>target.
       if x_format s = ''elf'' \<and> contains ''npu1'' target then Inl AirBackendError
       else if 0 < x_cols s then
         (let max_cols = (if target = ''npu1'' then 4 else 8) in
          if max_cols - 1 < x_cols s then Inl AirBackendError
          else Inr (target @ ''_'' @ str_int (x_cols s) @ ''col''))
       else Inr target)"

definition peano_dir :: "host \<Rightarrow> string" where
  "peano_dir h =
     (let dir = (if h_peano_env h \<noteq> [] \<and> \<not> h_isdir h (h_peano_env h) then [] else h_peano_env h) in
      if dir \<noteq> [] then dir else h_site_peano h)"

text \<open>
  \<open>compile\<close> on a loaded or unloaded backend; \<open>is_module\<close> says whether the argument is a module, an operation or text,
  \<open>aircc\<close> whether the compiler succeeds on a command line, and \<open>exists\<close> which files there are afterwards.
\<close>

definition txn_header_path :: string where "txn_header_path = ''air_project/npu.air.txn.h''"

definition compile ::
  "host \<Rightarrow> (string list \<Rightarrow> bool) \<Rightarrow> (string \<Rightarrow> bool) \<Rightarrow> settings \<Rightarrow> bool \<Rightarrow> bool \<Rightarrow> string \<Rightarrow> string \<Rightarrow> string \<Rightarrow> compiled res"
where
  "compile h aircc exists s loaded is_module base name insts =
     (if loaded then Inl AirBackendError
      else if \<not> is_module then Inl AirBackendError
      else res_bind (target_device s h) (\<lambda>target.
        let output_binary = binary_name s base;
            options = aircc_options s target output_binary insts (peano_dir h) in
        if x_linalg_to_func s = FlagArg True \<and> x_verbose s then Inl TypeError
        else if \<not> h_aircc h then Inl AirBackendError
        else if x_linalg_to_func s = FlagArg True then Inl TypeError
        else if \<not> aircc options then Inl AirBackendError
        else
          let elf_kernel = (if x_format s = ''elf'' \<and> x_instance_name s \<noteq> [] then ''main:'' @ x_instance_name s else name) in
          if x_emit_txn s then
            (if \<not> exists txn_header_path then Inl AirBackendError
             else Inr \<lparr>cp_binary = output_binary, cp_kernel = elf_kernel, cp_insts = None, cp_txn_header = Some txn_header_path\<rparr>)
          else Inr \<lparr>cp_binary = output_binary, cp_kernel = elf_kernel, cp_insts = Some insts, cp_txn_header = None\<rparr>))"

text \<open>An artifact as \<open>load\<close> looks at it: the kind of its binary by extension, and which of its files exist.\<close>

definition binary_kind :: "string \<Rightarrow> binary" where
  "binary_kind path = (if ends_with ''.pdi'' path then Pdi else if ends_with ''.elf'' path then Elf else Xclbin)"

definition artifact_of :: "(string \<Rightarrow> bool) \<Rightarrow> (string \<Rightarrow> bool) \<Rightarrow> compiled \<Rightarrow> artifact" where
  "artifact_of exists has_kernel c =
     \<lparr>ar_binary = binary_kind (cp_binary c), ar_exists = exists (cp_binary c), ar_insts = map_option exists (cp_insts c),
      ar_txn = (cp_txn_header c \<noteq> None), ar_kernel_found = has_kernel (cp_kernel c)\<rparr>"

definition backend_of :: "settings \<Rightarrow> bool \<Rightarrow> xrt_backend" where
  "backend_of s pyxrt = \<lparr>be_pyxrt = pyxrt, be_loaded = False, be_perf = nat (x_perf s), be_warmup = nat (x_warmup s)\<rparr>"

section \<open>Every setting reaches the compiler\<close>

text \<open>A reader of command lines: whether a flag is there, the argument after an option, and the values of a repeated one.\<close>

definition read_flag :: "string \<Rightarrow> string list \<Rightarrow> bool" where
  "read_flag f opts = (f \<in> set opts)"

definition read_value :: "string \<Rightarrow> string list \<Rightarrow> string option" where
  "read_value f opts = (case dropWhile (\<lambda>s. s \<noteq> f) opts of _ # v # _ \<Rightarrow> Some v | _ \<Rightarrow> None)"

definition read_all :: "string \<Rightarrow> string list \<Rightarrow> string list" where
  "read_all p opts = map (drop (length p)) (filter (begins_with p) opts)"

text \<open>The command line that settings call for, as tables.\<close>

definition flags_of :: "settings \<Rightarrow> string \<Rightarrow> (string \<times> bool) list" where
  "flags_of s peano =
     [(''-v'', x_verbose s), (''--omit-while-true-loop'', x_omit_while_true s),
      (''--derive-library-call'', truthy (x_linalg_to_func s) \<and> x_derive_call s), (''--air-loop-fusion'', x_loop_fusion s),
      (''--omit-auto-broadcast'', x_omit_broadcast s), (''--use-lock-race-condition-fix'', x_race_fix s),
      (''--use-lock-race-condition-fix-v2'', x_race_fix_v2 s), (''--coalesce-shim-dma'', x_coalesce s),
      (''--no-xchesscc'', peano \<noteq> []), (''--no-xbridge'', peano \<noteq> []), (''--xchesscc'', peano = []), (''--xbridge'', peano = []),
      (''--debug-ir'', x_debug_ir s), (''--emit-txn-cpp'', x_emit_txn s), (''--bf16-emulation'', x_bf16_emulation s)]"

definition only_if :: "bool \<Rightarrow> 'a \<Rightarrow> 'a option" where
  "only_if b v = (if b then Some v else None)"

definition output_values :: "settings \<Rightarrow> string \<Rightarrow> string \<Rightarrow> string \<Rightarrow> (string \<times> string option) list" where
  "output_values s target output_binary insts =
     [(''--device'', Some target), (''--elf-name'', only_if (x_format s = ''elf'') output_binary),
      (''--pdi-name'', only_if (x_format s = ''pdi'') output_binary),
      (''-o'', only_if (x_format s \<noteq> ''elf'' \<and> x_format s \<noteq> ''pdi'') output_binary), (''-i'', only_if (x_format s \<noteq> ''elf'') insts)]"

definition option_values :: "settings \<Rightarrow> string \<Rightarrow> (string \<times> string option) list" where
  "option_values s peano =
     [(''--lower-linalg-to-func'', only_if (truthy (x_linalg_to_func s)) (text_of (x_linalg_to_func s))),
      (''-trace-size'', only_if (x_trace_size s \<noteq> 0) (str_int (x_trace_size s))),
      (''-trace-offset'', only_if (x_trace_size s \<noteq> 0) (str_int (x_trace_offset s))),
      (''--output-format'', only_if (x_format s \<noteq> []) (x_format s)),
      (''--xclbin-kernel-name'', only_if (x_kernel_name s \<noteq> []) (x_kernel_name s)),
      (''--xclbin-instance-name'', only_if (x_instance_name s \<noteq> []) (x_instance_name s)),
      (''--xclbin-kernel-id'', only_if (x_kernel_id s \<noteq> []) (x_kernel_id s)),
      (''--xclbin-input'', only_if (x_xclbin_input s \<noteq> []) (x_xclbin_input s)),
      (''--peano'', only_if (peano \<noteq> []) peano),
      (''--stack-size'', only_if (x_stack_size s \<noteq> 2048) (str_int (x_stack_size s)))]"

definition repeated_values :: "settings \<Rightarrow> (string \<times> string list) list" where
  "repeated_values s =
     [(''--air-runtime-loop-tiling-sizes='', map str_int (x_tiling_sizes s)),
      (''--omit-ping-pong-transform='', given (truthy (x_pingpong s)) [pingpong_value (x_pingpong s)]),
      (''--air-channel-multiplexing='', x_multiplexing s)]"

text \<open>Values that are not themselves spelt like options.\<close>

definition plain :: "string \<Rightarrow> bool" where
  "plain v \<longleftrightarrow> \<not> begins_with ''-'' v"

definition plain_settings :: "settings \<Rightarrow> bool" where
  "plain_settings s \<longleftrightarrow>
     plain (text_of (x_linalg_to_func s)) \<and> plain (x_format s) \<and> plain (x_kernel_name s) \<and> plain (x_instance_name s) \<and>
     plain (x_kernel_id s) \<and> plain (x_xclbin_input s) \<and> 0 \<le> x_trace_size s \<and> 0 \<le> x_trace_offset s \<and> 0 < x_stack_size s"

lemma plain_ne [simp]: "plain v \<Longrightarrow> v \<noteq> CHR ''-'' # f" "plain v \<Longrightarrow> CHR ''-'' # f \<noteq> v"
  by (auto simp: plain_def begins_with_def)

lemma not_plain [simp]: "\<not> plain (CHR ''-'' # f)"
  by (simp add: plain_def begins_with_def)

lemma plain_str_int: "0 \<le> i \<Longrightarrow> plain (str_int i)"
  using str_nat_digits [of "nat i"] by (cases "str_nat (nat i)") (auto simp: plain_def begins_with_def str_int_def)

lemma plain_values:
  assumes "plain_settings s"
  shows "plain (text_of (x_linalg_to_func s))" and "plain (x_format s)" and "plain (x_kernel_name s)"
    and "plain (x_instance_name s)" and "plain (x_kernel_id s)" and "plain (x_xclbin_input s)"
    and "plain (str_int (x_trace_size s))" and "plain (str_int (x_trace_offset s))" and "plain (str_int (x_stack_size s))"
  using assms plain_str_int by (auto simp: plain_settings_def)

lemma set_given [simp]: "x \<in> set (given b xs) \<longleftrightarrow> b \<and> x \<in> set xs"
  by simp

lemma read_value_append: "f \<notin> set xs \<Longrightarrow> read_value f (xs @ ys) = read_value f ys"
  unfolding read_value_def by (subst dropWhile_append2) auto

lemma read_value_none: "f \<notin> set xs \<Longrightarrow> read_value f xs = None"
  using read_value_append [of f xs "[]"] by (simp add: read_value_def)

lemma read_value_simps [simp]:
  "read_value f [] = None"
  "read_value f (f # v # xs) = Some v"
  "s \<noteq> f \<Longrightarrow> read_value f (s # xs) = read_value f xs"
  by (simp_all add: read_value_def)

lemma read_all_append [simp]: "read_all p (xs @ ys) = read_all p xs @ read_all p ys"
  by (simp add: read_all_def)

lemma read_all_Cons: "read_all p (x # xs) = (if begins_with p x then drop (length p) x # read_all p xs else read_all p xs)"
  by (simp add: read_all_def)

lemma read_all_Nil [simp]: "read_all p [] = []"
  by (simp add: read_all_def)

lemma read_all_none: "list_all (\<lambda>x. \<not> begins_with p x) xs \<Longrightarrow> read_all p xs = []"
  by (induction xs) (simp_all add: read_all_def)

lemma read_all_map: "read_all p (map (\<lambda>x. p @ f x) xs) = map f xs"
  by (induction xs) (simp_all add: read_all_def)

text \<open>An option given on a condition is read before the rest; the form of the right-hand side lets the rest be rewritten.\<close>

lemma read_value_given:
  "read_value f ((if b then f # v # xs else []) @ rest) = first_some (only_if b v) (read_value f rest)"
  "read_value f ((if b then [f, v] @ xs else []) @ rest) = first_some (only_if b v) (read_value f rest)"
  "read_value f ((if b then f # v # xs else ys) @ rest) = first_some (only_if b v) (read_value f (ys @ rest))"
  "a \<noteq> f \<Longrightarrow> n \<noteq> f \<Longrightarrow>
     read_value f ((if b then a # n # f # v # xs else []) @ rest) = first_some (only_if b v) (read_value f rest)"
  "read_value f (if b then f # v # xs else []) = only_if b v"
  by (simp_all add: first_some_def only_if_def)

lemma read_value_last: "f \<notin> set xs \<Longrightarrow> read_value f (if b then xs else []) = None"
  by (simp add: read_value_none)

lemma first_some_None [simp]: "first_some x None = x"
  by (simp add: first_some_def split: option.splits)

lemma mem_either: "x \<in> set (if b then xs else ys) \<longleftrightarrow> b \<and> x \<in> set xs \<or> \<not> b \<and> x \<in> set ys"
  by simp

lemma list_all_either:
  "list_all P (if b then xs else ys) \<longleftrightarrow> (b \<longrightarrow> list_all P xs) \<and> (\<not> b \<longrightarrow> list_all P ys)"
  by simp

lemmas option_groups = aircc_options_def output_options_def pass_options_def package_options_def tool_options_def

lemma output_values_read:
  assumes "plain target" and "plain output_binary" and "plain insts" and "plain peano" and "plain_settings s"
  shows "\<forall>(f, v) \<in> set (output_values s target output_binary insts).
      read_value f (aircc_options s target output_binary insts peano) = v"
proof -
  note ints = plain_values [OF assms(5)]
  have "\<forall>f \<in> fst ` set (output_values s target output_binary insts).
      f \<notin> set (pass_options s @ package_options s @ tool_options s peano)"
    using assms(1-4) ints
    by (simp add: output_values_def pass_options_def package_options_def tool_options_def mem_either
        image_iff split del: if_split)
  then show ?thesis
    using assms(1-3) by (auto simp: output_values_def aircc_options_def output_options_def only_if_def read_value_none)
qed

lemma option_values_read:
  assumes "plain target" and "plain output_binary" and "plain insts" and "plain peano" and "plain_settings s"
  shows "\<forall>(f, v) \<in> set (option_values s peano). read_value f (aircc_options s target output_binary insts peano) = v"
proof -
  note vals = plain_values [OF assms(5)]
  have head: "\<forall>f \<in> fst ` set (option_values s peano).
      f \<notin> set ([''--device'', target, ''air.mlir''] @ output_options s output_binary insts)"
    using assms(1-3) by (simp add: option_values_def output_options_def)
  have tail: "\<forall>(f, v) \<in> set (option_values s peano). read_value f (pass_options s @ package_options s @ tool_options s peano) = v"
    using assms(4) vals unfolding pass_options_def package_options_def tool_options_def append_assoc
    by (simp add: option_values_def read_value_append read_value_last read_value_given mem_either image_iff
        split del: if_split)
  show ?thesis
  proof (intro ballI, clarify)
    fix f v
    assume m: "(f, v) \<in> set (option_values s peano)"
    have "read_value f (pass_options s @ package_options s @ tool_options s peano) = v"
      using bspec [OF tail m] by (simp only: prod.case)
    moreover have "f \<notin> set ([''--device'', target, ''air.mlir''] @ output_options s output_binary insts)"
      using bspec [OF head imageI [OF m, of fst]] unfolding fst_conv .
    note read_value_append [OF this, of "pass_options s @ package_options s @ tool_options s peano"]
    ultimately show "read_value f (aircc_options s target output_binary insts peano) = v"
      by (simp only: aircc_options_def append_assoc)
  qed
qed

lemma flags_read:
  assumes "plain target" and "plain output_binary" and "plain insts" and "plain peano" and "plain_settings s"
  shows "\<forall>(f, b) \<in> set (flags_of s peano). read_flag f (aircc_options s target output_binary insts peano) = b"
  using assms(1-4) plain_values [OF assms(5)]
  by (simp add: option_groups flags_of_def read_flag_def mem_either image_iff split del: if_split)

lemma repeated_values_read:
  assumes "plain target" and "plain output_binary" and "plain insts" and "plain peano" and "plain_settings s"
  shows "\<forall>(p, vs) \<in> set (repeated_values s). read_all p (aircc_options s target output_binary insts peano) = vs"
proof -
  note ints = plain_values [OF assms(5)]
  have plain: "\<not> begins_with (CHR ''-'' # p) v" if "plain v" for p v
    using that by (auto simp: plain_def begins_with_def)
  have "\<forall>p \<in> fst ` set (repeated_values s). list_all (\<lambda>x. \<not> begins_with p x)
      ([''--device'', target, ''air.mlir''] @ output_options s output_binary insts @ package_options s @ tool_options s peano)"
    using assms(1-4) ints plain
    by (simp add: repeated_values_def output_options_def package_options_def tool_options_def
        list_all_either split del: if_split)
  then have rest: "read_all p ([''--device'', target, ''air.mlir''] @ output_options s output_binary insts @
      package_options s @ tool_options s peano) = []" if "p \<in> fst ` set (repeated_values s)" for p
    using that read_all_none by blast
  have pass: "\<forall>(p, vs) \<in> set (repeated_values s). read_all p (pass_options s) = vs"
    using plain ints
      read_all_map [of "''--air-runtime-loop-tiling-sizes=''" str_int "x_tiling_sizes s", simplified]
      read_all_map [of "''--air-channel-multiplexing=''" "\<lambda>ch. ch" "x_multiplexing s", simplified]
    by (cases "truthy (x_pingpong s)")
      (simp_all add: repeated_values_def pass_options_def read_all_none list_all_either list.pred_map comp_def list.pred_True read_all_Cons
        split del: if_split)
  show ?thesis
  proof (intro ballI, clarify)
    fix p vs
    assume m: "(p, vs) \<in> set (repeated_values s)"
    have "read_all p (pass_options s) = vs" using bspec [OF pass m] by (simp only: prod.case)
    moreover have "p \<in> fst ` set (repeated_values s)" using m by force
    ultimately show "read_all p (aircc_options s target output_binary insts peano) = vs"
      using rest [of p] unfolding aircc_options_def read_all_append by simp
  qed
qed

lemma plain_append: "plain v \<Longrightarrow> w \<noteq> [] \<Longrightarrow> plain w \<Longrightarrow> plain (v @ w)"
  by (cases v) (auto simp: plain_def)

lemma plain_char [simp]: "plain (c # v) \<longleftrightarrow> c \<noteq> CHR ''-''"
  by (auto simp: plain_def)

lemma detected_model: "detected ms out = Some v \<Longrightarrow> v \<in> fst ` set ms"
  by (induction ms out rule: detected.induct) (auto split: if_splits)

lemma detected_device:
  assumes "detect_target_device h fallback = Inr t"
  shows "t = fallback \<or> t = ''npu1'' \<or> t = ''npu2''"
  using assms detected_model [of NPU_MODELS]
  by (auto simp: detect_target_device_def Let_def NPU_MODELS_def split: if_splits probe.splits option.splits)

lemma target_device_plain:
  assumes "target_device s h = Inr t" and "\<forall>d. x_target s = Some d \<longrightarrow> plain d"
  shows "plain t"
proof -
  obtain d where d: "(case x_target s of Some t \<Rightarrow> Inr t | None \<Rightarrow> detect_target_device h ''npu1'') = Inr d"
    and t: "t = d \<or> t = d @ ''_'' @ str_int (x_cols s) @ ''col''"
    using assms(1) by (auto simp: target_device_def Let_def res_bind_Inr_iff split: if_splits)
  have "plain d" using d assms(2) detected_device [of h "''npu1''"] by (auto split: option.splits)
  then show ?thesis using t plain_append by auto
qed

lemma binary_name_plain: "plain base \<Longrightarrow> plain (binary_name s base)"
  by (simp add: binary_name_def plain_append)

lemma compiled_facts:
  assumes "compile h aircc exists s loaded is_module base name insts = Inr c"
  shows "\<exists>target. target_device s h = Inr target \<and> aircc (aircc_options s target (binary_name s base) insts (peano_dir h))"
    and "cp_binary c = binary_name s base"
    and "cp_insts c = (if x_emit_txn s then None else Some insts)" and "cp_txn_header c \<noteq> None \<longleftrightarrow> x_emit_txn s"
  using assms by (auto simp: compile_def Let_def res_bind_Inr_iff split: if_splits)

text \<open>
  C12: the settings of the compilation reach the compiler. When \<open>compile\<close> returns, \<^verbatim>\<open>aircc\<close> succeeded on a command line from which
  they are read back, if no value that is passed begins like an option, the trace size and offset are not negative and the
  stack size is positive: every flag is there exactly if it was asked for, every
  option carries its value or is absent, and the repeated options list their values in order. The iterations of a timed call
  are settings too, but of the invoker and not of the compiler.
\<close>

theorem settings_reach_aircc:
  assumes "compile h aircc exists s loaded is_module base name insts = Inr c"
    and "plain_settings s" and "plain base" and "plain insts" and "plain (peano_dir h)"
    and "\<forall>d. x_target s = Some d \<longrightarrow> plain d"
  shows "\<exists>target options. target_device s h = Inr target \<and> aircc options \<and>
    (\<forall>(f, b) \<in> set (flags_of s (peano_dir h)). read_flag f options = b) \<and>
    (\<forall>(f, v) \<in> set (output_values s target (cp_binary c) insts @ option_values s (peano_dir h)). read_value f options = v) \<and>
    (\<forall>(p, vs) \<in> set (repeated_values s). read_all p options = vs)"
proof -
  obtain target where t: "target_device s h = Inr target"
    and run: "aircc (aircc_options s target (binary_name s base) insts (peano_dir h))"
    using compiled_facts(1) [OF assms(1)] by blast
  note plain = target_device_plain [OF t assms(6)] binary_name_plain [OF assms(3)] assms(4,5,2)
  show ?thesis
    unfolding compiled_facts(2) [OF assms(1)] set_append ball_Un
    using t run flags_read [OF plain] output_values_read [OF plain] option_values_read [OF plain] repeated_values_read [OF plain]
    by (intro exI conjI)
qed

definition sample_settings :: settings where
  "sample_settings =
     \<lparr>x_verbose = False, x_target = Some ''npu2'', x_omit_while_true = True, x_pingpong = TextArg ''L1'', x_linalg_to_func = TextArg ''k.o'',
      x_derive_call = True, x_loop_fusion = False, x_tiling_sizes = [2, 2], x_omit_broadcast = False, x_multiplexing = [''L1''],
      x_race_fix = False, x_race_fix_v2 = False, x_coalesce = False, x_trace_offset = 0, x_trace_size = 0, x_format = ''elf'',
      x_kernel_name = [], x_instance_name = ''main'', x_kernel_id = [], x_xclbin_input = [], x_cols = 4, x_debug_ir = False,
      x_emit_txn = False, x_bf16_emulation = False, x_stack_size = 4096, x_perf = 0, x_warmup = 10\<rparr>"

definition sample_host :: host where
  "sample_host =
     \<lparr>h_override = [], h_probe = ProbeFails, h_peano_env = ''/opt/peano'',
      h_isdir = (\<lambda>_. True), h_site_peano = [], h_aircc = True\<rparr>"

lemma sample_target: "target_device sample_settings sample_host = Inr ''npu2_4col''"
  by (simp add: target_device_def sample_settings_def str_int_def str_nat.simps digit_char_def)

lemma sample_compiles:
  "compile sample_host (\<lambda>_. True) (\<lambda>_. True) sample_settings False True ''air'' ''MLIR_AIE'' ''air.insts.bin''
     = Inr \<lparr>cp_binary = ''air.elf'', cp_kernel = ''main:main'', cp_insts = Some ''air.insts.bin'', cp_txn_header = None\<rparr>"
  by (simp add: compile_def sample_target binary_name_def Let_def) (simp add: sample_settings_def sample_host_def)

text \<open>A compiler that succeeds on this command line only.\<close>

definition sample_line :: "string list" where
  "sample_line = aircc_options sample_settings ''npu2_4col'' ''air.elf'' ''air.insts.bin'' ''/opt/peano''"

lemma sample_line_compiles:
  "compile sample_host ((=) sample_line) (\<lambda>_. True) sample_settings False True ''air'' ''MLIR_AIE'' ''air.insts.bin''
     = Inr \<lparr>cp_binary = ''air.elf'', cp_kernel = ''main:main'', cp_insts = Some ''air.insts.bin'', cp_txn_header = None\<rparr>"
  by (simp add: compile_def sample_target binary_name_def Let_def sample_line_def) (simp add: sample_settings_def sample_host_def peano_dir_def)

theorem settings_reach_aircc_witness:
  "compile sample_host ((=) sample_line) (\<lambda>_. True) sample_settings False True ''air'' ''MLIR_AIE'' ''air.insts.bin''
     = Inr \<lparr>cp_binary = ''air.elf'', cp_kernel = ''main:main'', cp_insts = Some ''air.insts.bin'', cp_txn_header = None\<rparr> \<and>
   read_value ''--device'' sample_line = Some ''npu2_4col'' \<and> read_value ''--stack-size'' sample_line = Some ''4096'' \<and>
   read_flag ''--derive-library-call'' sample_line \<and> \<not> read_flag ''--debug-ir'' sample_line \<and>
   read_all ''--air-runtime-loop-tiling-sizes='' sample_line = [''2'', ''2'']"
proof -
  have "plain_settings sample_settings" "plain ''air''" "plain ''air.insts.bin''" "plain (peano_dir sample_host)"
    "\<forall>d. x_target sample_settings = Some d \<longrightarrow> plain d"
    by (simp_all add: plain_settings_def sample_settings_def sample_host_def peano_dir_def text_of_def) (simp add: plain_def)
  from settings_reach_aircc [OF sample_line_compiles this]
  obtain target where t: "target_device sample_settings sample_host = Inr target"
    and flags: "\<forall>(f, b) \<in> set (flags_of sample_settings (peano_dir sample_host)). read_flag f sample_line = b"
    and vals: "\<forall>(f, v) \<in> set (output_values sample_settings target ''air.elf'' ''air.insts.bin'' @
        option_values sample_settings (peano_dir sample_host)). read_value f sample_line = v"
    and reps: "\<forall>(p, vs) \<in> set (repeated_values sample_settings). read_all p sample_line = vs"
    by auto
  have target: "target = ''npu2_4col''" using t sample_target by simp
  note sample_defs = flags_of_def output_values_def option_values_def repeated_values_def sample_settings_def truthy_def
    text_of_def only_if_def str_int_def str_nat.simps digit_char_def
  have m: "(''--derive-library-call'', True) \<in> set (flags_of sample_settings (peano_dir sample_host))"
    "(''--debug-ir'', False) \<in> set (flags_of sample_settings (peano_dir sample_host))"
    "(''--device'', Some ''npu2_4col'') \<in> set (output_values sample_settings ''npu2_4col'' ''air.elf'' ''air.insts.bin'' @
       option_values sample_settings (peano_dir sample_host))"
    "(''--stack-size'', Some ''4096'') \<in> set (output_values sample_settings ''npu2_4col'' ''air.elf'' ''air.insts.bin'' @
       option_values sample_settings (peano_dir sample_host))"
    "(''--air-runtime-loop-tiling-sizes='', [''2'', ''2'']) \<in> set (repeated_values sample_settings)"
    by (simp_all add: sample_defs)
  show ?thesis
    using sample_line_compiles bspec [OF flags m(1)] bspec [OF flags m(2)] bspec [OF vals [unfolded target] m(3)]
      bspec [OF vals [unfolded target] m(4)] bspec [OF reps m(5)]
    by (simp only: prod.case simp_thms)
qed

text \<open>
  What \<open>load\<close> does with the artifact that the same backend compiled, when its files and kernel are there: it is refused
  exactly for a PDI, and for a dynamic instruction stream outside an ELF.
\<close>

lemma binary_kind_name:
  "binary_kind (binary_name s base) = (if x_format s = ''elf'' then Elf else if x_format s = ''pdi'' then Pdi else Xclbin)"
  by (simp add: binary_kind_def binary_name_def ends_with_def)

theorem compiled_artifact_loads:
  assumes "compile h aircc exists s loaded is_module base name insts = Inr c"
    and "exists (cp_binary c)" and "exists insts" and "has_kernel (cp_kernel c)"
  shows "load_artifact (backend_of s True) (artifact_of exists has_kernel c) =
    (if x_format s = ''pdi'' \<or> x_emit_txn s \<and> x_format s \<noteq> ''elf'' then Inl AirBackendError
     else Inr ((backend_of s True)\<lparr>be_loaded := True\<rparr>))"
proof -
  note c = compiled_facts [OF assms(1)]
  have "ar_binary (artifact_of exists has_kernel c) = (if x_format s = ''elf'' then Elf else if x_format s = ''pdi'' then Pdi else Xclbin)"
    unfolding artifact_of_def c(2) by (simp only: artifact.simps binary_kind_name)
  moreover have "ar_txn (artifact_of exists has_kernel c) = x_emit_txn s"
    "ar_insts (artifact_of exists has_kernel c) = (if x_emit_txn s then None else Some True)"
    using c(3,4) assms(3) by (auto simp: artifact_of_def)
  ultimately show ?thesis
    using assms(2,4) by (simp add: load_artifact_def backend_of_def artifact_of_def)
qed

theorem compiled_artifact_loads_witness:
  "load_artifact (backend_of sample_settings True)
     (artifact_of (\<lambda>_. True) (\<lambda>k. k = ''main:main'')
       \<lparr>cp_binary = ''air.elf'', cp_kernel = ''main:main'', cp_insts = Some ''air.insts.bin'', cp_txn_header = None\<rparr>)
     = Inr ((backend_of sample_settings True)\<lparr>be_loaded := True\<rparr>)"
  using compiled_artifact_loads [OF sample_compiles, of "\<lambda>k. k = ''main:main''"] by (simp add: sample_settings_def)

text \<open>The form of \<open>lower_linalg_to_func\<close> that \<open>XRTRunner\<close> declares, a bool, has no command line.\<close>

lemma bool_lowering_never_compiles:
  "x_linalg_to_func s = FlagArg True \<Longrightarrow> isl (compile h aircc exists s loaded is_module base name insts)"
  by (cases "target_device s h") (simp_all add: compile_def Let_def)

end
