(* ===== verification/Xrt_Runner.thy ===== *)
theory Xrt_Runner
  imports Xrt_Compile
begin

text \<open>
  Running a design and checking its outputs, \<^verbatim>\<open>src/python/air/backend/xrt_runner.py\<close>: the settings handed to the
  backend, the buffers made for the outputs, the run, and the comparison with the expected values. The numerical
  predicates of numpy and the trace utilities are parameters; what is printed is not modelled.
\<close>

section \<open>Element types\<close>

text \<open>\<open>TYPE_MAP_DICT\<close>: for each numpy type the MLIR type, with its width in bits.\<close>

definition TYPE_MAP :: "(string \<times> string \<times> int) list" where
  "TYPE_MAP =
     [(''int8'', ''i8'', 8), (''int16'', ''i16'', 16), (''int32'', ''i32'', 32), (''int64'', ''i64'', 64),
      (''uint8'', ''ui8'', 8), (''uint16'', ''ui16'', 16), (''uint32'', ''ui32'', 32), (''uint64'', ''ui64'', 64),
      (''float16'', ''f16'', 16), (''float32'', ''f32'', 32), (''float64'', ''f64'', 64), (''bfloat16'', ''bf16'', 16)]"

text \<open>
  \<open>type_mapper\<close>: a type without an entry maps to \<open>None\<close>, which is called. The module does not import \<open>AirBackendError\<close>, so
  raising it is a \<open>NameError\<close>.
\<close>

definition type_mapper :: "np_type \<Rightarrow> string res" where
  "type_mapper t =
     (case map_of TYPE_MAP (np_name t) of
        None \<Rightarrow> Inl TypeError
      | Some (ty, width) \<Rightarrow> if width \<noteq> 8 * np_itemsize t then Inl NameError else Inr ty)"

text \<open>\<open>DType.mlir\<close> of \<^verbatim>\<open>src/python/air/api/types.py\<close>: a type of part of a byte is built directly.\<close>

definition dtype_mlir :: "dtype \<Rightarrow> string res" where
  "dtype_mlir d =
     (if bits d mod 8 \<noteq> 0 then Inr (CHR ''i'' # str_int (bits d))
      else (case np_dtype d of None \<Rightarrow> Inl TypeError | Some t \<Rightarrow> type_mapper t))"

definition is_np_float :: "np_type \<Rightarrow> bool" where
  "is_np_float t = (np_name t \<in> {''float16'', ''float32'', ''float64'', ''bfloat16''})"

section \<open>Expected outputs\<close>

text \<open>Sampled values of an output: its shape, the coordinates axis by axis, and the values there.\<close>

record 'v sampled =
  sm_shape :: "int list"
  sm_indices :: "int list list"
  sm_values :: "'v arr"

text \<open>
  What decides a comparison: \<open>np.isclose\<close> at the tolerances, the number of mismatches that \<open>int(total * percentage / 100)\<close>
  admits, and \<open>np.corrcoef\<close> of two arrays with its lower bound, if there is one (\<open>None\<close> is a coefficient that is not finite).
\<close>

record 'v tolerance =
  close_to :: "'v \<Rightarrow> 'v \<Rightarrow> bool"
  acceptable :: "nat \<Rightarrow> nat"
  correlation :: "'v list \<Rightarrow> 'v list \<Rightarrow> rat option"
  min_correlation :: "rat option"

definition mismatches :: "'v tolerance \<Rightarrow> 'v list \<Rightarrow> 'v list \<Rightarrow> nat" where
  "mismatches T actual expected = length (filter (\<lambda>(a, e). \<not> close_to T a e) (zip actual expected))"

definition correlates :: "'v tolerance \<Rightarrow> 'v list \<Rightarrow> 'v list \<Rightarrow> bool" where
  "correlates T actual expected =
     (case min_correlation T of
        None \<Rightarrow> True
      | Some lo \<Rightarrow> expected = [] \<or> (case correlation T actual expected of None \<Rightarrow> False | Some c \<Rightarrow> lo \<le> c))"

text \<open>One turn of \<open>_check_outputs\<close>, and its loop, which stops at the first output that fails.\<close>

definition check_output :: "'v tolerance \<Rightarrow> 'v arr \<Rightarrow> 'v arr \<Rightarrow> bool res" where
  "check_output T actual expected =
     res_bind (reshape_to actual (arr_shape expected)) (\<lambda>actual.
       Inr (if is_np_float (arr_dtype expected)
            then mismatches T (arr_data actual) (arr_data expected) \<le> acceptable T (length (arr_data expected)) \<and>
                 correlates T (arr_data actual) (arr_data expected)
            else arr_data actual = arr_data expected))"

fun check_each :: "('a \<Rightarrow> 'b \<Rightarrow> bool res) \<Rightarrow> 'a list \<Rightarrow> 'b list \<Rightarrow> bool res" where
  "check_each f (a # as) (e # es) = res_bind (f a e) (\<lambda>ok. if ok then check_each f as es else Inr False)"
| "check_each f _ _ = Inr True"

definition check_outputs :: "'v tolerance \<Rightarrow> 'v arr list \<Rightarrow> 'v arr list \<Rightarrow> bool res" where
  "check_outputs T actual expected =
     (if length actual \<noteq> length expected then Inl AssertionError else check_each (check_output T) actual expected)"

text \<open>
  \<open>actual[tuple(indices)]\<close> for one coordinate list per axis, all of the same length: the elements at the coordinates, a
  negative coordinate counting from the end of its axis.
\<close>

definition flat_index :: "int list \<Rightarrow> int list \<Rightarrow> nat option" where
  "flat_index shape is =
     (let js = map2 (\<lambda>i n. if i < 0 then i + n else i) is shape in
      if length is = length shape \<and> list_all2 (\<lambda>j n. 0 \<le> j \<and> j < n) js shape
      then Some (nat (foldl (\<lambda>a (j, n). a * n + j) 0 (zip js shape))) else None)"

definition gather :: "'v arr \<Rightarrow> int list list \<Rightarrow> 'v list res" where
  "gather a idx =
     map_res (\<lambda>k. case flat_index (arr_shape a) (map (\<lambda>d. d ! k) idx) of
                     None \<Rightarrow> Inl IndexError | Some p \<Rightarrow> Inr (arr_data a ! p)) [0..<(case idx of [] \<Rightarrow> 0 | d # _ \<Rightarrow> length d)]"

text \<open>\<open>values[0].dtype\<close>: the type is read off the first value.\<close>

definition value_dtype :: "'v sampled \<Rightarrow> np_type res" where
  "value_dtype o' = (if arr_data (sm_values o') = [] then Inl IndexError else Inr (arr_dtype (sm_values o')))"

text \<open>Two one-dimensional arrays compared elementwise: a single element is repeated, other lengths have to agree.\<close>

definition against :: "'v list \<Rightarrow> 'v list \<Rightarrow> ('v list \<times> 'v list) res" where
  "against xs ys =
     (if length xs = length ys then Inr (xs, ys)
      else if length xs = 1 then Inr (replicate (length ys) (hd xs), ys)
      else if length ys = 1 then Inr (xs, replicate (length xs) (hd ys))
      else Inl ValueError)"

definition check_sampled :: "'v tolerance \<Rightarrow> 'v arr \<Rightarrow> 'v sampled \<Rightarrow> bool res" where
  "check_sampled T actual expected =
     res_bind (reshape_to actual (sm_shape expected)) (\<lambda>actual.
     res_bind (value_dtype expected) (\<lambda>dt.
     res_bind (gather actual (sm_indices expected)) (\<lambda>vals.
     res_bind (against vals (arr_data (sm_values expected))) (\<lambda>(xs, ys).
       Inr (if is_np_float dt then mismatches T xs ys \<le> acceptable T (length (arr_data (sm_values expected)))
            else vals = arr_data (sm_values expected))))))"

definition check_outputs_stochastic :: "'v tolerance \<Rightarrow> 'v arr list \<Rightarrow> 'v sampled list \<Rightarrow> bool res" where
  "check_outputs_stochastic T actual expected =
     (if length actual \<noteq> length expected then Inl AssertionError else check_each (check_sampled T) actual expected)"

section \<open>Output buffers\<close>

definition zero_arr :: "int list \<Rightarrow> np_type \<Rightarrow> 'v :: zero arr" where
  "zero_arr shape t = \<lparr>arr_shape = shape, arr_dtype = t, arr_data = replicate (nat (prod_list shape)) 0\<rparr>"

definition nbytes :: "int list \<Rightarrow> np_type \<Rightarrow> int" where
  "nbytes shape t = prod_list shape * np_itemsize t"

definition sampled_placeholder :: "'v sampled \<Rightarrow> 'v :: zero arr res" where
  "sampled_placeholder o' = map_sum id (zero_arr (sm_shape o')) (value_dtype o')"

text \<open>
  The placeholders of \<open>run_test\<close>, with the shape and type of the first output where they are recorded: with a trace, the
  first output is a byte array with room for the trace behind it.
\<close>

definition placeholders ::
  "int \<Rightarrow> 'v :: zero arr list \<Rightarrow> 'v sampled list \<Rightarrow> ('v arr list \<times> (int list \<times> np_type) option) res"
where
  "placeholders trace_size expected sampled =
     (if 0 < trace_size then
        (case expected of
           e # es \<Rightarrow>
             Inr (zero_arr [nbytes (arr_shape e) (arr_dtype e) + trace_size] np_uint8 # map (\<lambda>o'. zero_arr (arr_shape o') (arr_dtype o')) es,
                  Some (arr_shape e, arr_dtype e))
         | [] \<Rightarrow>
             (case sampled of
                e # es \<Rightarrow>
                  res_bind (value_dtype e) (\<lambda>dt.
                  res_bind (map_res sampled_placeholder es) (\<lambda>rest.
                    Inr (zero_arr [nbytes (sm_shape e) dt + trace_size] np_uint8 # rest, Some (sm_shape e, dt))))
              | [] \<Rightarrow> Inr ([zero_arr [trace_size] np_uint8], None)))
      else if expected \<noteq> [] then Inr (map (\<lambda>o'. zero_arr (arr_shape o') (arr_dtype o')) expected, None)
      else if sampled \<noteq> [] then res_bind (map_res sampled_placeholder sampled) (\<lambda>outs. Inr (outs, None))
      else Inl AssertionError)"

text \<open>
  \<open>extract\<close> stands for the utility that splits the first output from the trace behind it and for the writing of the trace, if
  it can be imported.
\<close>

type_synonym 'v extractor = "'v arr \<Rightarrow> int list \<Rightarrow> np_type \<Rightarrow> 'v arr res"

definition take_trace ::
  "'v extractor option \<Rightarrow> int \<Rightarrow> (int list \<times> np_type) option \<Rightarrow> 'v arr list \<Rightarrow> 'v arr list res"
where
  "take_trace extract trace_size first_output actual =
     (if \<not> 0 < trace_size then Inr actual
      else (case extract of
              None \<Rightarrow> Inl NameError
            | Some ex \<Rightarrow>
                (case actual of
                   [] \<Rightarrow> Inl IndexError
                 | a # as \<Rightarrow>
                     (case first_output of
                        None \<Rightarrow> Inl UnboundLocalError
                      | Some (shape, t) \<Rightarrow> res_bind (ex a shape t) (\<lambda>a'. Inr (a' # as))))))"

section \<open>A test\<close>

text \<open>
  \<open>XRTRunner.run_test\<close> on a compiled artifact: the exit code. \<open>dev\<close> is the device, as in \<open>Compile\<close>. What \<open>compile\<close> returned
  is loaded, run on the inputs and the placeholders, and unloaded.
\<close>

record 'v test =
  ts_inputs :: "'v arr list"
  ts_expected :: "'v arr list"
  ts_sampled :: "'v sampled list"

definition run_test ::
  "xrt_backend \<Rightarrow> artifact res \<Rightarrow> ('v list list \<Rightarrow> 'v list list option) \<Rightarrow> 'v extractor option \<Rightarrow> int \<Rightarrow> 'v tolerance \<Rightarrow>
   'v :: zero test \<Rightarrow> int res"
where
  "run_test be art dev extract trace_size T t =
     res_bind (placeholders trace_size (ts_expected t) (ts_sampled t)) (\<lambda>(outs, first_output).
     res_bind art (\<lambda>art.
     res_bind (load_artifact be art) (\<lambda>be.
     res_bind (invoker be art dev (ts_inputs t @ outs)) (\<lambda>results.
     res_bind (take_trace extract trace_size first_output (drop (length (ts_inputs t)) results)) (\<lambda>actual.
       if ts_expected t \<noteq> [] \<and> actual \<noteq> [] then
         res_bind (check_outputs T actual (ts_expected t)) (\<lambda>ok. Inr (if ok then 0 else -1))
       else if ts_sampled t \<noteq> [] \<and> actual \<noteq> [] then
         res_bind (check_outputs_stochastic T actual (ts_sampled t)) (\<lambda>ok. Inr (if ok then 0 else -1))
       else Inr 0)))))"

section \<open>What passing means\<close>

definition output_matches :: "'v tolerance \<Rightarrow> 'v list \<Rightarrow> 'v arr \<Rightarrow> bool" where
  "output_matches T out e \<longleftrightarrow>
     (if is_np_float (arr_dtype e)
      then mismatches T out (arr_data e) \<le> acceptable T (length (arr_data e)) \<and> correlates T out (arr_data e)
      else out = arr_data e)"

definition whole_arr :: "'v arr \<Rightarrow> bool" where
  "whole_arr e \<longleftrightarrow> int (length (arr_data e)) = prod_list (arr_shape e)"

lemma check_output_whole:
  assumes "whole_arr e" and "length (arr_data a) = length (arr_data e)"
  shows "check_output T a e = Inr (output_matches T (arr_data a) e)"
  using assms by (simp add: check_output_def reshape_to_def whole_arr_def output_matches_def)

lemma check_each_spec:
  assumes "list_all2 (\<lambda>a e. f a e = Inr (g a e)) as es"
  shows "check_each f as es = Inr (list_all2 g as es)"
  using assms by (induction rule: list_all2_induct) simp_all

lemma zero_arr_data: "whole_arr e \<Longrightarrow> arr_data (zero_arr (arr_shape e) t) = replicate (length (arr_data e)) 0"
  unfolding whole_arr_def zero_arr_def by (simp flip: of_nat_eq_iff)

text \<open>
  C13: what the exit code means. Take a test without a trace that expects whole arrays (not samples of them), on an artifact that
  loads and is no xclbin with more than five arguments, and a run on the device that completes and keeps the sizes of its
  buffers. It exits with 0 exactly if the contents of every output buffer after the run match the expected output: equal
  for integers, and for floats within the number of mismatches and the correlation asked for. It exits with -1 otherwise.
  The run starts from the inputs followed by zeroed outputs.
\<close>

theorem exit_code_decides:
  assumes load: "loadable be art" and few: "ar_binary art \<noteq> Xclbin \<or> length (ts_inputs t) + length (ts_expected t) \<le> 5"
    and some: "ts_expected t \<noteq> []" and whole: "\<forall>e \<in> set (ts_expected t). whole_arr e"
    and run: "run_times (runs be) dev (map arr_data (ts_inputs t) @ map (\<lambda>e. replicate (length (arr_data e)) 0) (ts_expected t)) = Inr out"
    and sizes: "map length out = map (length \<circ> arr_data) (ts_inputs t @ ts_expected t)"
  shows "run_test be (Inr art) dev extract 0 T t =
    Inr (if list_all2 (output_matches T) (drop (length (ts_inputs t)) out) (ts_expected t) then 0 else -1)"
proof -
  let ?outs = "map (\<lambda>e. zero_arr (arr_shape e) (arr_dtype e)) (ts_expected t)"
  have bufs: "map arr_data (ts_inputs t @ ?outs) =
      map arr_data (ts_inputs t) @ map (\<lambda>e. replicate (length (arr_data e)) 0) (ts_expected t)"
    using whole by (simp add: zero_arr_data)
  have "runs (be\<lparr>be_loaded := True\<rparr>) = runs be" by (simp add: runs_def)
  moreover have "length out = length (ts_inputs t @ ?outs)" using arg_cong [OF sizes, of length] by simp
  ultimately obtain rs where rs: "invoker (be\<lparr>be_loaded := True\<rparr>) art dev (ts_inputs t @ ?outs) = Inr rs" "map arr_data rs = out"
    using xrt.invoked [of art "ts_inputs t @ ?outs" "be\<lparr>be_loaded := True\<rparr>" dev out] few run unfolding bufs by auto
  define as where "as = drop (length (ts_inputs t)) rs"
  have data: "map arr_data as = drop (length (ts_inputs t)) out" by (simp add: as_def rs(2) [symmetric] drop_map)
  have "map (length \<circ> arr_data) as = map (length \<circ> arr_data) (ts_expected t)"
    using arg_cong [OF sizes, of "drop (length (ts_inputs t))"] by (simp add: data [symmetric] drop_map flip: map_map)
  then have l: "length as = length (ts_expected t)" "\<And>i. i < length as \<Longrightarrow> length (arr_data (as ! i)) = length (arr_data (ts_expected t ! i))"
    by (auto dest: map_eq_imp_length_eq) (metis comp_apply length_map nth_map)
  have "check_each (check_output T) as (ts_expected t) = Inr (list_all2 (\<lambda>a e. output_matches T (arr_data a) e) as (ts_expected t))"
    using l whole by (intro check_each_spec list_all2_all_nthI check_output_whole) simp_all
  also have "list_all2 (\<lambda>a e. output_matches T (arr_data a) e) as (ts_expected t) \<longleftrightarrow>
      list_all2 (output_matches T) (drop (length (ts_inputs t)) out) (ts_expected t)"
    by (simp add: data [symmetric] list.rel_map)
  finally have "check_outputs T as (ts_expected t) =
      Inr (list_all2 (output_matches T) (drop (length (ts_inputs t)) out) (ts_expected t))"
    using l by (simp add: check_outputs_def)
  moreover have "\<not> length rs \<le> length (ts_inputs t)" using l(1) some by (auto simp: as_def)
  ultimately show ?thesis
    using some by (simp add: run_test_def placeholders_def load_loadable [OF load] rs(1) take_trace_def as_def [symmetric])
qed

text \<open>With the default percentage, under which no mismatch is acceptable, a float output passes only if every element is close.\<close>

lemma all_close:
  assumes "output_matches T out e" and "is_np_float (arr_dtype e)" and "acceptable T (length (arr_data e)) = 0"
    and "length out = length (arr_data e)"
  shows "list_all2 (close_to T) out (arr_data e)"
  using assms by (auto simp: output_matches_def mismatches_def filter_empty_conv list_all2_iff)

definition exact_tolerance :: "int tolerance" where
  "exact_tolerance = \<lparr>close_to = (=), acceptable = (\<lambda>_. 0), correlation = (\<lambda>_ _. None), min_correlation = None\<rparr>"

definition adder_test :: "int list \<Rightarrow> int test" where
  "adder_test cs = \<lparr>ts_inputs = [int_arr [1, 2], int_arr [10, 20]], ts_expected = [int_arr cs], ts_sampled = []\<rparr>"

theorem exit_code_decides_witness:
  "run_test sample_backend (Inr sample_artifact) add_device None 0 exact_tolerance (adder_test [11, 22]) = Inr 0 \<and>
   run_test sample_backend (Inr sample_artifact) add_device None 0 exact_tolerance (adder_test [11, 23]) = Inr (-1)"
proof -
  have run: "run_test sample_backend (Inr sample_artifact) add_device None 0 exact_tolerance (adder_test [11, y])
      = Inr (if list_all2 (output_matches exact_tolerance) [[11, 22]] [int_arr [11, y]] then 0 else -1)" for y
  proof -
    let ?t = "adder_test [11, y]"
    have "run_test sample_backend (Inr sample_artifact) add_device None 0 exact_tolerance ?t =
      Inr (if list_all2 (output_matches exact_tolerance) (drop (length (ts_inputs ?t)) [[1, 2], [10, 20], [11, 22]]) (ts_expected ?t) then 0 else -1)"
    proof (rule exit_code_decides)
      show "loadable sample_backend sample_artifact" by (simp add: loadable_def call_sample_defs)
      show "run_times (runs sample_backend) add_device (map arr_data (ts_inputs ?t) @
          map (\<lambda>e. replicate (length (arr_data e)) 0) (ts_expected ?t)) = Inr [[1, 2], [10, 20], [11, 22]]"
        by (simp add: runs_def adder_test_def call_sample_defs numeral_2_eq_2)
    qed (simp_all add: adder_test_def whole_arr_def int_arr_def)
    then show ?thesis by (simp add: adder_test_def)
  qed
  show ?thesis
    unfolding run by (simp add: output_matches_def int_arr_def is_np_float_def np_int32_def)
qed

section \<open>Where the runner departs from its documentation\<close>

text \<open>
  A run that only collects a trace records no shape for its first output, and the split of the trace reads it: whatever
  the device does, such a test ends in an exception. Element types without a mapping raise what calling \<open>None\<close> raises.
\<close>

lemma trace_only_raises:
  assumes "0 < trace_size" and "ts_expected t = []" and "ts_sampled t = []"
  shows "isl (run_test be art dev extract trace_size T t)"
proof -
  have p: "placeholders trace_size [] [] = Inr ([zero_arr [trace_size] np_uint8], None)"
    using assms(1) by (simp add: placeholders_def)
  have "run_test be art dev extract trace_size T t \<noteq> Inr c" for c
  proof
    assume "run_test be art dev extract trace_size T t = Inr c"
    then obtain xs ys where "take_trace extract trace_size None xs = Inr ys"
      unfolding run_test_def assms(2,3) p res_bind_simps(2) prod.case by (auto simp: res_bind_Inr_iff)
    with assms(1) show False by (simp add: take_trace_def split: option.splits list.splits)
  qed
  then show ?thesis by (cases "run_test be art dev extract trace_size T t") auto
qed

lemma unmapped_type_raises:
  "type_mapper \<lparr>np_name = ''complex64'', np_itemsize = 8\<rparr> = Inl TypeError"
  by (simp add: type_mapper_def TYPE_MAP_def)

text \<open>Every element type maps to the MLIR type of its own name, so the mapping tells the types apart.\<close>

lemma dtype_mlir_name: "d \<in> set all_dtypes \<Longrightarrow> dtype_mlir d = Inr (dt_name d)"
proof -
  have "list_all (\<lambda>d. dtype_mlir d = Inr (dt_name d)) all_dtypes"
    by (simp add: all_dtypes_def dtype_defs np_defs dtype_mlir_def type_mapper_def TYPE_MAP_def str_int_def str_nat.simps digit_char_def)
  then show "d \<in> set all_dtypes \<Longrightarrow> dtype_mlir d = Inr (dt_name d)" by (simp add: list_all_iff)
qed

end
