(* ===== verification/Kernel_Contexts.thy ===== *)
theory Kernel_Contexts
  imports Prelude Py_Text
begin

text \<open>
  The hardware contexts of compiled kernels: the part of \<open>KernelCache\<close> in
  \<^verbatim>\<open>src/programming_examples/llms/shared/infra/cache.py\<close> that opens, orders and evicts them. A device opens only a
  few contexts, and all caches of a process share them: the class variable \<open>_contexts\<close> lists them by last use.
  Whether the driver opens a context is a parameter of the artifact and of the number of contexts open; what is
  logged is not modelled.
\<close>

section \<open>State\<close>

record xrt_artifact =
  xa_binary :: string
  xa_kernel :: string
  xa_insts :: "string option"

text \<open>The keys of the pool of shared buffers: a name given by the caller, or a kernel and the index of an argument.\<close>

datatype pool_key = AliasKey string nat | ArgKey string nat nat

text \<open>The buffers a cache holds, \<open>_cached_bos\<close> and \<open>_shared_bos\<close>. A buffer is a number.\<close>

record bufs =
  bf_bos :: "string \<rightharpoonup> nat list"
  bf_pool :: "pool_key \<rightharpoonup> nat"

text \<open>A cache. A loaded backend is the artifact it was loaded from.\<close>

record cache =
  kc_dir :: string
  kc_artifacts :: "(string \<times> xrt_artifact) list"
  kc_loaded :: "string \<rightharpoonup> xrt_artifact"
  kc_max :: nat
  kc_bufs :: bufs

text \<open>The contents of all buffers, and the next unused number.\<close>

record 'b bo_store =
  st_data :: "nat \<Rightarrow> 'b list"
  st_next :: nat

text \<open>
  The process: \<open>_contexts\<close> with the least recently used first, the caches that are alive, \<open>_next_uid\<close> and the buffers. A key of
  \<open>_contexts\<close> is the number of a cache and the name of a kernel; its value is a weak reference to that cache and the
  name again.
\<close>

type_synonym context_key = "nat \<times> string"

record 'b process =
  contexts :: "context_key list"
  caches :: "nat \<rightharpoonup> cache"
  next_uid :: nat
  buffers :: "'b bo_store"

definition update_cache :: "nat \<Rightarrow> (cache \<Rightarrow> cache) \<Rightarrow> 'b process \<Rightarrow> 'b process" where
  "update_cache u f p = p\<lparr>caches := (caches p)(u := map_option f (caches p u))\<rparr>"

text \<open>The contexts open on the device: those of the caches that are alive.\<close>

definition open_count :: "'b process \<Rightarrow> nat" where
  "open_count p = length (filter (\<lambda>(u, n). caches p u \<noteq> None) (contexts p))"

section \<open>Creating a cache\<close>

text \<open>\<open>int(env)\<close>: a sign, and digits with single underscores between them.\<close>

fun digits_value :: "int \<Rightarrow> string \<Rightarrow> int option" where
  "digits_value acc [] = Some acc"
| "digits_value acc (c # cs) =
     (if c \<in> set ''0123456789'' then digits_value (10 * acc + (of_char c - 48)) cs
      else if c = CHR ''_'' \<and> cs \<noteq> [] \<and> hd cs \<noteq> CHR ''_'' then digits_value acc cs else None)"

definition parse_int :: "string \<Rightarrow> int option" where
  "parse_int s =
     (case s of
        [] \<Rightarrow> None
      | c # cs \<Rightarrow>
          let (neg, ds) = (if c = CHR ''-'' then (True, cs) else if c = CHR ''+'' then (False, cs) else (False, c # cs)) in
          if ds = [] \<or> hd ds = CHR ''_'' then None
          else map_option (\<lambda>v. if neg then - v else v) (digits_value 0 ds))"

text \<open>\<open>KernelCache.__init__\<close>; the number is taken before the value of \<open>max_contexts\<close> is checked.\<close>

definition max_contexts_of :: "int option \<Rightarrow> string \<Rightarrow> nat res" where
  "max_contexts_of given env =
     res_bind (case given of
                 Some k \<Rightarrow> Inr k
               | None \<Rightarrow>
                   if strip env = [] then Inr 0
                   else (case parse_int (strip env) of None \<Rightarrow> Inl ValueError | Some k \<Rightarrow> Inr k)) (\<lambda>k.
       if k < 0 then Inl ValueError else Inr (nat k))"

definition empty_bufs :: bufs where
  "empty_bufs = \<lparr>bf_bos = Map.empty, bf_pool = Map.empty\<rparr>"

definition new_cache :: "string \<Rightarrow> int option \<Rightarrow> string \<Rightarrow> 'b process \<Rightarrow> nat res \<times> 'b process" where
  "new_cache dir given env p =
     (let p' = p\<lparr>next_uid := Suc (next_uid p)\<rparr> in
      case max_contexts_of given env of
        Inl e \<Rightarrow> (Inl e, p')
      | Inr k \<Rightarrow>
          (Inr (next_uid p),
           p'\<lparr>caches := (caches p)(next_uid p \<mapsto>
                \<lparr>kc_dir = dir, kc_artifacts = [], kc_loaded = Map.empty, kc_max = k, kc_bufs = empty_bufs\<rparr>)\<rparr>))"

section \<open>Evicting\<close>

text \<open>\<open>_release_lru_context\<close>: the loop over \<open>_contexts\<close>, with \<open>freed\<close>.\<close>

fun release_from ::
  "(nat \<rightharpoonup> cache) \<Rightarrow> bool \<Rightarrow> context_key list \<Rightarrow> bool \<times> (nat \<rightharpoonup> cache) \<times> context_key list"
where
  "release_from cs freed [] = (freed, cs, [])"
| "release_from cs freed ((u, n) # ks) =
     (case cs u of
        None \<Rightarrow> release_from cs True ks
      | Some c \<Rightarrow>
          (case kc_loaded c n of
             None \<Rightarrow> release_from cs freed ks
           | Some _ \<Rightarrow> (True, cs(u \<mapsto> c\<lparr>kc_loaded := (kc_loaded c)(n := None)\<rparr>), ks)))"

definition release_lru :: "'b process \<Rightarrow> bool \<times> 'b process" where
  "release_lru p =
     (case release_from (caches p) False (contexts p) of (ok, cs, ks) \<Rightarrow> (ok, p\<lparr>caches := cs, contexts := ks\<rparr>))"

lemma release_from_shorter: "length (snd (snd (release_from cs freed ks))) \<le> length ks - 1"
  by (induction cs freed ks rule: release_from.induct) (auto split: option.splits intro: le_trans)

lemma release_lru_shorter:
  "contexts p \<noteq> [] \<Longrightarrow> length (contexts (snd (release_lru p))) < length (contexts p)"
  using release_from_shorter [of "caches p" False "contexts p"]
  by (cases "contexts p") (auto simp: release_lru_def split: prod.splits)

section \<open>Opening\<close>

text \<open>The two loops of \<open>_load_backend\<close>: evict down to the cap, then evict until the driver opens the context.\<close>

function make_room :: "nat \<Rightarrow> 'b process \<Rightarrow> 'b process" where
  "make_room cap p =
     (if cap \<noteq> 0 \<and> cap \<le> length (contexts p) then
        (if fst (release_lru p) then make_room cap (snd (release_lru p)) else snd (release_lru p))
      else p)"
  by pat_completeness auto
termination
  by (relation "measure (length \<circ> contexts \<circ> snd)") (auto intro!: release_lru_shorter)

function open_context :: "(xrt_artifact \<Rightarrow> nat \<Rightarrow> bool) \<Rightarrow> xrt_artifact \<Rightarrow> 'b process \<Rightarrow> unit res \<times> 'b process" where
  "open_context opens art p =
     (if opens art (open_count p) then (Inr (), p)
      else if contexts p = [] then (Inl AirBackendError, p)
      else open_context opens art (snd (release_lru p)))"
  by pat_completeness auto
termination
  by (relation "measure (length \<circ> contexts \<circ> snd \<circ> snd)") (auto intro!: release_lru_shorter)

declare make_room.simps [simp del] open_context.simps [simp del]

text \<open>A key that is assigned again keeps its place in the order.\<close>

definition insert_context :: "context_key \<Rightarrow> context_key list \<Rightarrow> context_key list" where
  "insert_context k ks = (if k \<in> set ks then ks else ks @ [k])"

definition move_to_end :: "context_key \<Rightarrow> context_key list \<Rightarrow> context_key list res" where
  "move_to_end k ks = (if k \<in> set ks then Inr (filter (\<lambda>k'. k' \<noteq> k) ks @ [k]) else Inl KeyError)"

definition load_backend :: "(xrt_artifact \<Rightarrow> nat \<Rightarrow> bool) \<Rightarrow> nat \<Rightarrow> string \<Rightarrow> xrt_artifact \<Rightarrow> 'b process \<Rightarrow> unit res \<times> 'b process" where
  "load_backend opens u name art p =
     (case caches p u of
        None \<Rightarrow> (Inl AttributeError, p)
      | Some c \<Rightarrow>
          (case open_context opens art (make_room (kc_max c) p) of
             (Inl e, p) \<Rightarrow> (Inl e, p)
           | (Inr _, p) \<Rightarrow>
               (Inr (), update_cache u (\<lambda>c. c\<lparr>kc_loaded := (kc_loaded c)(name \<mapsto> art)\<rparr>)
                          (p\<lparr>contexts := insert_context (u, name) (contexts p)\<rparr>))))"

text \<open>
  The first level of \<open>load_and_run\<close>: a loaded kernel becomes the most recently used, any other is loaded. A cache that is
  not alive cannot be called; the first branch stands for that.
\<close>

definition activate :: "(xrt_artifact \<Rightarrow> nat \<Rightarrow> bool) \<Rightarrow> nat \<Rightarrow> string \<Rightarrow> 'b process \<Rightarrow> xrt_artifact res \<times> 'b process" where
  "activate opens u name p =
     (case caches p u of
        None \<Rightarrow> (Inl AttributeError, p)
      | Some c \<Rightarrow>
          (case map_of (kc_artifacts c) name of
             None \<Rightarrow> (Inl RuntimeError, p)
           | Some art \<Rightarrow>
               (case kc_loaded c name of
                  Some loaded \<Rightarrow>
                    (case move_to_end (u, name) (contexts p) of
                       Inl e \<Rightarrow> (Inl e, p)
                     | Inr ks \<Rightarrow> (Inr loaded, p\<lparr>contexts := ks\<rparr>))
                | None \<Rightarrow> map_prod (map_sum id (\<lambda>_. art)) id (load_backend opens u name art p))))"

section \<open>The order of the contexts\<close>

text \<open>
  The contexts are exactly the loaded kernels of the caches that are alive, once each. A cache that was collected leaves
  its keys behind until the callbacks of its weak references run.
\<close>

definition tracks :: "'b process \<Rightarrow> bool" where
  "tracks p \<longleftrightarrow> distinct (contexts p) \<and>
     (\<forall>u c n. caches p u = Some c \<longrightarrow> (kc_loaded c n \<noteq> None \<longleftrightarrow> (u, n) \<in> set (contexts p)))"

lemma tracks_iff: "tracks p \<Longrightarrow> caches p u = Some c \<Longrightarrow> (u, n) \<in> set (contexts p) \<longleftrightarrow> kc_loaded c n \<noteq> None"
  unfolding tracks_def by blast

text \<open>An eviction: the oldest contexts go, the kernels that stay loaded keep their artifacts, nothing else changes.\<close>

definition unloaded :: "cache \<Rightarrow> cache \<Rightarrow> bool" where
  "unloaded c c' \<longleftrightarrow> kc_loaded c' \<subseteq>\<^sub>m kc_loaded c \<and> c'\<lparr>kc_loaded := kc_loaded c\<rparr> = c"

definition evicts :: "'b process \<Rightarrow> 'b process \<Rightarrow> bool" where
  "evicts p p' \<longleftrightarrow> (tracks p \<longrightarrow> tracks p') \<and> (\<exists>k. contexts p' = drop k (contexts p)) \<and>
     next_uid p' = next_uid p \<and> buffers p' = buffers p \<and> dom (caches p') = dom (caches p) \<and>
     (\<forall>u c c'. caches p u = Some c \<longrightarrow> caches p' u = Some c' \<longrightarrow> unloaded c c')"

lemma unloaded_refl [simp]: "unloaded c c"
  by (simp add: unloaded_def)

lemma unloaded_fields:
  assumes "unloaded c c'"
  shows "kc_artifacts c' = kc_artifacts c" "kc_max c' = kc_max c" "kc_bufs c' = kc_bufs c" "kc_loaded c' \<subseteq>\<^sub>m kc_loaded c"
    "kc_dir c' = kc_dir c"
  using assms by (cases c; cases c'; simp add: unloaded_def)+

lemma unloaded_trans: "unloaded a b \<Longrightarrow> unloaded b c \<Longrightarrow> unloaded a c"
  by (cases a; cases b; cases c) (auto simp: unloaded_def intro: map_le_trans)

lemma evicts_refl [simp]: "evicts p p"
  by (auto simp: evicts_def intro: exI [of _ 0])

lemma evicts_trans:
  assumes "evicts p q" and "evicts q r"
  shows "evicts p r"
proof -
  have "\<exists>k. contexts r = drop k (contexts p)"
    using assms by (auto simp: evicts_def)
  moreover have "unloaded c c'" if "caches p u = Some c" and "caches r u = Some c'" for u c c'
  proof -
    have "u \<in> dom (caches q)" using assms(1) that(1) by (auto simp: evicts_def)
    then obtain d where "caches q u = Some d" by auto
    with assms that have "unloaded c d" "unloaded d c'" unfolding evicts_def by blast+
    then show ?thesis by (rule unloaded_trans)
  qed
  ultimately show ?thesis using assms by (auto simp: evicts_def)
qed

text \<open>The loop of \<open>_release_lru_context\<close> drops a prefix and unloads one kernel of it.\<close>

lemma release_from_suffix: "\<exists>k. snd (snd (release_from cs freed ks)) = drop k ks"
proof (induction cs freed ks rule: release_from.induct)
  case (2 cs freed u n ks)
  then show ?case by (auto split: option.splits) (metis drop_Suc_Cons drop0)+
qed simp

lemma release_from_caches:
  "release_from cs freed ks = (ok, cs', ks') \<Longrightarrow>
     dom cs' = dom cs \<and> (\<forall>u c c'. cs u = Some c \<longrightarrow> cs' u = Some c' \<longrightarrow> unloaded c c')"
proof (induction cs freed ks rule: release_from.induct)
  case (2 cs freed u n ks)
  then show ?case
    by (auto simp: unloaded_def map_le_def split: option.splits if_splits)
qed simp

lemma release_from_tracks:
  assumes "release_from cs freed ks = (ok, cs', ks')" and "distinct ks"
    and "\<forall>u c n. cs u = Some c \<longrightarrow> (kc_loaded c n \<noteq> None \<longleftrightarrow> (u, n) \<in> set ks)"
  shows "distinct ks' \<and> (\<forall>u c n. cs' u = Some c \<longrightarrow> (kc_loaded c n \<noteq> None \<longleftrightarrow> (u, n) \<in> set ks'))"
  using assms
proof (induction cs freed ks rule: release_from.induct)
  case (2 cs freed u n ks)
  show ?case
  proof (cases "cs u")
    case None
    have "\<forall>v c m. cs v = Some c \<longrightarrow> (kc_loaded c m \<noteq> None \<longleftrightarrow> (v, m) \<in> set ks)"
      using "2.prems"(3) None by (metis Pair_inject option.distinct(1) set_ConsD list.set_intros(2))
    with "2.prems"(1,2) None show ?thesis by (intro "2.IH"(1)) auto
  next
    case (Some c)
    have "kc_loaded c n \<noteq> None"
      using "2.prems"(3) [rule_format, OF Some, of n] by simp
    then have "cs' = cs(u \<mapsto> c\<lparr>kc_loaded := (kc_loaded c)(n := None)\<rparr>)" "ks' = ks"
      using "2.prems"(1) Some by auto
    moreover have "kc_loaded d m \<noteq> None \<longleftrightarrow> (v, m) \<in> set ks" if "cs' v = Some d" for v d m
    proof (cases "v = u")
      case True
      with that \<open>cs' = _\<close> have d: "kc_loaded d = (kc_loaded c)(n := None)" by auto
      show ?thesis
        using "2.prems"(2) "2.prems"(3) [rule_format, OF Some, of m] True unfolding d by (cases "m = n") simp_all
    next
      case False
      with that \<open>cs' = _\<close> have "cs v = Some d" by simp
      from "2.prems"(3) [rule_format, OF this, of m] False show ?thesis by simp
    qed
    ultimately show ?thesis using "2.prems"(2) by auto
  qed
qed simp

lemma release_lru_evicts: "evicts p (snd (release_lru p))"
proof -
  obtain ok cs' ks' where r: "release_from (caches p) False (contexts p) = (ok, cs', ks')"
    by (cases "release_from (caches p) False (contexts p)") auto
  then have p': "snd (release_lru p) = p\<lparr>caches := cs', contexts := ks'\<rparr>"
    by (simp add: release_lru_def)
  have "\<exists>k. ks' = drop k (contexts p)"
    using release_from_suffix [of "caches p" False "contexts p"] r by simp
  with release_from_caches [OF r] release_from_tracks [OF r] show ?thesis
    unfolding evicts_def p' tracks_def by auto
qed

lemma release_from_empty: "\<not> fst (release_from cs freed ks) \<Longrightarrow> snd (snd (release_from cs freed ks)) = []"
  by (induction cs freed ks rule: release_from.induct) (auto split: option.splits)

lemma release_lru_empty: "\<not> fst (release_lru p) \<Longrightarrow> contexts (snd (release_lru p)) = []"
  using release_from_empty [of "caches p" False "contexts p"] by (auto simp: release_lru_def split: prod.splits)

lemma make_room_evicts: "evicts p (make_room cap p)"
proof (induction cap p rule: make_room.induct)
  case (1 cap p)
  then show ?case
    by (subst make_room.simps) (auto intro: evicts_trans release_lru_evicts)
qed

lemma make_room_below: "cap \<noteq> 0 \<Longrightarrow> length (contexts (make_room cap p)) < cap"
proof (induction cap p rule: make_room.induct)
  case (1 cap p)
  then show ?case
    by (subst make_room.simps) (auto simp: release_lru_empty)
qed

lemma open_context_evicts: "evicts p (snd (open_context opens art p))"
proof (induction opens art p rule: open_context.induct)
  case (1 opens art p)
  then show ?case
    by (subst open_context.simps) (auto intro: evicts_trans release_lru_evicts)
qed

text \<open>An artifact that loads on an idle device loads: the loop evicts until it does.\<close>

lemma open_context_succeeds: "opens art 0 \<Longrightarrow> fst (open_context opens art p) = Inr ()"
proof (induction opens art p rule: open_context.induct)
  case (1 opens art p)
  then show ?case
    by (subst open_context.simps) (auto simp: open_count_def)
qed

lemma open_context_opened:
  "open_context opens art p = (Inr x, p') \<Longrightarrow> opens art (open_count p')"
proof (induction opens art p rule: open_context.induct)
  case (1 opens art p)
  then show ?case
    by (subst (asm) (2) open_context.simps) (auto split: if_splits)
qed

section \<open>Order of last use\<close>

text \<open>
  The order of the contexts against a history of uses: every open context where its kernel was last used. So the first
  one, which is the next to be evicted, is the least recently used.
\<close>

definition by_last_use :: "context_key list \<Rightarrow> 'b process \<Rightarrow> bool" where
  "by_last_use h p \<longleftrightarrow> contexts p = filter (\<lambda>k. k \<in> set (contexts p)) (remdups h)"

lemma remdups_snoc: "remdups (xs @ [x]) = filter (\<lambda>y. y \<noteq> x) (remdups xs) @ [x]"
  by (induction xs) auto

lemma filter_drop_distinct: "distinct xs \<Longrightarrow> filter (\<lambda>x. x \<in> set (drop k xs)) xs = drop k xs"
proof -
  assume d: "distinct xs"
  have "filter (\<lambda>x. x \<in> set (drop k xs)) (take k xs) = []"
    using d by (auto simp: filter_empty_conv dest: set_take_disj_set_drop_if_distinct [of xs k k])
  moreover have "filter (\<lambda>x. x \<in> set (drop k xs)) (drop k xs) = drop k xs" by simp
  ultimately show ?thesis
    using filter_append [of "\<lambda>x. x \<in> set (drop k xs)" "take k xs" "drop k xs"] by simp
qed

lemma evicts_by_last_use:
  assumes "evicts p p'" and "by_last_use h p"
  shows "by_last_use h p'"
proof -
  let ?ks = "contexts p"
  obtain k where k: "contexts p' = drop k ?ks" using assms(1) by (auto simp: evicts_def)
  have ks: "?ks = filter (\<lambda>x. x \<in> set ?ks) (remdups h)" using assms(2) by (simp add: by_last_use_def)
  then have "distinct ?ks" by (metis distinct_filter distinct_remdups)
  then have "drop k ?ks = filter (\<lambda>x. x \<in> set (drop k ?ks)) ?ks" by (simp add: filter_drop_distinct)
  also have "\<dots> = filter (\<lambda>x. x \<in> set (drop k ?ks)) (remdups h)"
    by (subst (2) ks) (auto simp: filter_filter intro!: filter_cong dest: in_set_dropD)
  finally show ?thesis by (simp add: by_last_use_def k)
qed

lemma used_last:
  assumes "by_last_use h p" and "contexts p' = filter (\<lambda>k'. k' \<noteq> k) (contexts p) @ [k]"
  shows "by_last_use (h @ [k]) p'"
proof -
  have "filter (\<lambda>k'. k' \<noteq> k) (contexts p)
      = filter (\<lambda>k'. k' \<noteq> k) (filter (\<lambda>x. x \<in> set (contexts p)) (remdups h))"
    using assms(1) by (simp add: by_last_use_def)
  also have "\<dots> = filter (\<lambda>x. x \<in> set (contexts p')) (filter (\<lambda>k'. k' \<noteq> k) (remdups h))"
    unfolding filter_filter assms(2) by (rule filter_cong) auto
  finally have "contexts p' = filter (\<lambda>x. x \<in> set (contexts p')) (filter (\<lambda>k'. k' \<noteq> k) (remdups h)) @ [k]"
    using assms(2) by (rule subst)
  moreover have last: "filter (\<lambda>x. x \<in> set (contexts p')) [k] = [k]" by (simp add: assms(2))
  ultimately show ?thesis
    unfolding by_last_use_def remdups_snoc filter_append last by blast
qed

section \<open>What activating a kernel does\<close>

text \<open>The part of a cache that only its own operations change.\<close>

definition fixed :: "cache \<Rightarrow> string \<times> (string \<times> xrt_artifact) list \<times> nat \<times> bufs" where
  "fixed c = (kc_dir c, kc_artifacts c, kc_max c, kc_bufs c)"

definition same_rest :: "'b process \<Rightarrow> 'b process \<Rightarrow> bool" where
  "same_rest p p' \<longleftrightarrow> next_uid p' = next_uid p \<and> buffers p' = buffers p \<and>
     (\<forall>u. map_option fixed (caches p' u) = map_option fixed (caches p u))"

lemma evicts_same_rest: "evicts p p' \<Longrightarrow> same_rest p p'"
proof -
  assume e: "evicts p p'"
  have "map_option fixed (caches p' u) = map_option fixed (caches p u)" for u
  proof (cases "caches p u")
    case None
    then have "u \<notin> dom (caches p')" using e by (simp add: evicts_def domIff)
    then have "caches p' u = None" by (simp add: domIff)
    with None show ?thesis by simp
  next
    case (Some c)
    with e have "u \<in> dom (caches p')" by (auto simp: evicts_def)
    then obtain c' where c': "caches p' u = Some c'" by auto
    with e Some have "unloaded c c'" by (auto simp: evicts_def)
    with Some c' show ?thesis by (simp add: fixed_def unloaded_fields)
  qed
  with e show ?thesis by (simp add: same_rest_def evicts_def)
qed

lemma same_rest_trans: "same_rest p q \<Longrightarrow> same_rest q r \<Longrightarrow> same_rest p r"
  by (simp add: same_rest_def)

text \<open>The cases of \<open>activate\<close>: refused, a hit, a load that fails, a load.\<close>

lemma activate_cases:
  assumes "activate opens u name p = (r, p')"
  obtains (refused) e where "r = Inl e" "p' = p"
  | (hit) c a where "caches p u = Some c" "kc_loaded c name = Some a" "(u, name) \<in> set (contexts p)" "r = Inr a"
      "p' = p\<lparr>contexts := filter (\<lambda>k. k \<noteq> (u, name)) (contexts p) @ [(u, name)]\<rparr>"
  | (failed) e where "evicts p p'" "r = Inl e"
  | (opened) c a q where "caches p u = Some c" "kc_loaded c name = None" "map_of (kc_artifacts c) name = Some a" "r = Inr a"
      "evicts p q" "kc_max c \<noteq> 0 \<longrightarrow> length (contexts q) < kc_max c"
      "p' = update_cache u (\<lambda>c. c\<lparr>kc_loaded := (kc_loaded c)(name \<mapsto> a)\<rparr>)
              (q\<lparr>contexts := insert_context (u, name) (contexts q)\<rparr>)"
proof (cases "caches p u")
  case None
  with assms show thesis by (intro refused) (auto simp: activate_def)
next
  case (Some c)
  note c = this
  show thesis
  proof (cases "map_of (kc_artifacts c) name")
    case None
    with assms c show thesis by (intro refused) (auto simp: activate_def)
  next
    case (Some a)
    note a = this
    show thesis
    proof (cases "kc_loaded c name")
      case (Some l)
      show thesis
      proof (cases "(u, name) \<in> set (contexts p)")
        case True
        with assms c a Some show thesis by (intro hit) (auto simp: activate_def move_to_end_def)
      next
        case False
        with assms c a Some show thesis by (intro refused) (auto simp: activate_def move_to_end_def)
      qed
    next
      case None
      let ?m = "make_room (kc_max c) p"
      obtain r' q where q: "open_context opens a ?m = (r', q)" by force
      have e: "evicts ?m q" using open_context_evicts [of ?m opens a] q by simp
      then have pq: "evicts p q" by (rule evicts_trans [OF make_room_evicts])
      show thesis
      proof (cases r')
        case (Inl er)
        with assms c a None q pq show thesis by (intro failed) (auto simp: activate_def load_backend_def)
      next
        case (Inr x)
        have "length (contexts q) < kc_max c" if "kc_max c \<noteq> 0"
          using make_room_below [OF that, of p] e by (auto simp: evicts_def)
        with assms c a None q pq Inr show thesis
          by (intro opened) (auto simp: activate_def load_backend_def)
      qed
    qed
  qed
qed

lemma opened_caches:
  assumes "evicts p q" and "caches p u = Some c"
  obtains d where "caches q u = Some d" "unloaded c d"
proof -
  have "u \<in> dom (caches q)" using assms by (auto simp: evicts_def)
  then obtain d where "caches q u = Some d" by auto
  with assms that show thesis by (auto simp: evicts_def)
qed

lemma activate_same_rest: "activate opens u name p = (r, p') \<Longrightarrow> same_rest p p'"
proof (erule activate_cases)
  fix c a q
  assume e: "evicts p q" "caches p u = Some c"
    and p': "p' = update_cache u (\<lambda>c. c\<lparr>kc_loaded := (kc_loaded c)(name \<mapsto> a)\<rparr>) (q\<lparr>contexts := insert_context (u, name) (contexts q)\<rparr>)"
  have "map_option fixed (caches p' v) = map_option fixed (caches q v)" for v
    by (cases "caches q v") (auto simp: p' update_cache_def fixed_def)
  then have "same_rest q p'" by (simp add: same_rest_def p' update_cache_def)
  with evicts_same_rest [OF e(1)] show ?thesis by (rule same_rest_trans)
qed (auto simp: same_rest_def dest: evicts_same_rest [unfolded same_rest_def])

lemma activate_tracks:
  assumes "activate opens u name p = (r, p')" and "tracks p"
  shows "tracks p'"
  using assms(1)
proof (rule activate_cases)
  fix c a
  assume "p' = p\<lparr>contexts := filter (\<lambda>k. k \<noteq> (u, name)) (contexts p) @ [(u, name)]\<rparr>" "(u, name) \<in> set (contexts p)"
  moreover from this have "set (contexts p') = set (contexts p)" by auto
  ultimately show ?thesis using assms(2) by (simp add: tracks_def)
next
  fix c a q
  assume c: "caches p u = Some c" "kc_loaded c name = None" and e: "evicts p q"
    and p': "p' = update_cache u (\<lambda>c. c\<lparr>kc_loaded := (kc_loaded c)(name \<mapsto> a)\<rparr>) (q\<lparr>contexts := insert_context (u, name) (contexts q)\<rparr>)"
  obtain d where d: "caches q u = Some d" "unloaded c d" using e c(1) by (rule opened_caches)
  have q: "tracks q" using e assms(2) by (simp add: evicts_def)
  have "kc_loaded d name = None"
    using unloaded_fields(4) [OF d(2)] c(2) by (auto simp: map_le_def dom_def)
  then have "(u, name) \<notin> set (contexts q)" by (simp add: tracks_iff [OF q d(1)])
  then have ks: "contexts p' = contexts q @ [(u, name)]" by (simp add: p' update_cache_def insert_context_def)
  have "kc_loaded c' n \<noteq> None \<longleftrightarrow> (v, n) \<in> set (contexts p')" if "caches p' v = Some c'" for v c' n
  proof (cases "v = u")
    case True
    with that d(1) have "c' = d\<lparr>kc_loaded := (kc_loaded d)(name \<mapsto> a)\<rparr>" by (simp add: p' update_cache_def)
    moreover have "kc_loaded d n \<noteq> None \<longleftrightarrow> (u, n) \<in> set (contexts q)" using q d(1) by (simp add: tracks_def)
    ultimately show ?thesis using True by (simp add: ks)
  next
    case False
    with that have "caches q v = Some c'" by (simp add: p' update_cache_def)
    with q False show ?thesis by (simp add: tracks_def ks)
  qed
  moreover have "distinct (contexts p')"
    using q \<open>(u, name) \<notin> set (contexts q)\<close> by (simp add: tracks_def ks)
  ultimately show ?thesis by (simp add: tracks_def)
qed (use assms(2) in \<open>auto simp: evicts_def\<close>)

lemma activate_by_last_use:
  assumes "activate opens u name p = (r, p')" and "tracks p" and "by_last_use h p"
  shows "by_last_use (if isl r then h else h @ [(u, name)]) p'"
  using assms(1)
proof (rule activate_cases)
  fix c a
  assume "p' = p\<lparr>contexts := filter (\<lambda>k. k \<noteq> (u, name)) (contexts p) @ [(u, name)]\<rparr>" "r = Inr a"
  then show ?thesis using used_last [OF assms(3), of p' "(u, name)"] by simp
next
  fix c a q
  assume c: "caches p u = Some c" "kc_loaded c name = None" and e: "evicts p q" and r: "r = Inr a"
    and p': "p' = update_cache u (\<lambda>c. c\<lparr>kc_loaded := (kc_loaded c)(name \<mapsto> a)\<rparr>) (q\<lparr>contexts := insert_context (u, name) (contexts q)\<rparr>)"
  obtain k where k: "contexts q = drop k (contexts p)" using e by (auto simp: evicts_def)
  have "(u, name) \<notin> set (contexts p)" using c(2) by (simp add: tracks_iff [OF assms(2) c(1)])
  then have "(u, name) \<notin> set (contexts q)" unfolding k by (auto dest: in_set_dropD)
  then have "contexts p' = filter (\<lambda>k. k \<noteq> (u, name)) (contexts q) @ [(u, name)]"
    by (simp add: p' update_cache_def insert_context_def) (metis (mono_tags, lifting) filter_True)
  with used_last [OF evicts_by_last_use [OF e assms(3)]] r show ?thesis by simp
qed (use assms(3) evicts_by_last_use in auto)

lemma activate_cap:
  assumes "activate opens u name p = (r, p')" and "\<And>c. caches p u = Some c \<Longrightarrow> kc_max c = k" and "0 < k"
    and "length (contexts p) \<le> k"
  shows "length (contexts p') \<le> k"
  using assms(1)
proof (rule activate_cases)
  fix c a
  assume p': "p' = p\<lparr>contexts := filter (\<lambda>k. k \<noteq> (u, name)) (contexts p) @ [(u, name)]\<rparr>" and m: "(u, name) \<in> set (contexts p)"
  have "length (filter (\<lambda>k. k \<noteq> (u, name)) (contexts p)) < length (contexts p)"
    using m by (rule length_filter_less) simp
  with assms(4) show ?thesis by (simp add: p')
next
  fix c a q
  assume "caches p u = Some c" "kc_max c \<noteq> 0 \<longrightarrow> length (contexts q) < kc_max c"
    and p': "p' = update_cache u (\<lambda>c. c\<lparr>kc_loaded := (kc_loaded c)(name \<mapsto> a)\<rparr>) (q\<lparr>contexts := insert_context (u, name) (contexts q)\<rparr>)"
  with assms(2,3) have "length (contexts q) < k" by auto
  then show ?thesis by (simp add: p' update_cache_def insert_context_def)
qed (use assms(4) in \<open>auto simp: evicts_def\<close>)

text \<open>Every loaded backend is the one of the artifact the cache has under its name.\<close>

definition current :: "'b process \<Rightarrow> bool" where
  "current p \<longleftrightarrow> (\<forall>u c n a. caches p u = Some c \<longrightarrow> kc_loaded c n = Some a \<longrightarrow> map_of (kc_artifacts c) n = Some a)"

lemma evicts_current:
  assumes "evicts p q" and "current p"
  shows "current q"
  unfolding current_def
proof (intro allI impI)
  fix u d n a
  assume d: "caches q u = Some d" "kc_loaded d n = Some a"
  then have "u \<in> dom (caches p)" using assms(1) by (auto simp: evicts_def)
  then obtain c where c: "caches p u = Some c" by auto
  with assms(1) d(1) have un: "unloaded c d" by (auto simp: evicts_def)
  then have "kc_loaded c n = Some a" using unloaded_fields(4) [OF un] d(2) by (auto simp: map_le_def dom_def)
  with assms(2) c show "map_of (kc_artifacts d) n = Some a" by (simp add: current_def unloaded_fields [OF un])
qed

lemma activate_current:
  assumes "activate opens u name p = (r, p')" and "current p"
  shows "current p'"
  using assms(1)
proof (rule activate_cases)
  fix c a q
  assume c: "caches p u = Some c" "map_of (kc_artifacts c) name = Some a" and e: "evicts p q"
    and p': "p' = update_cache u (\<lambda>c. c\<lparr>kc_loaded := (kc_loaded c)(name \<mapsto> a)\<rparr>) (q\<lparr>contexts := insert_context (u, name) (contexts q)\<rparr>)"
  obtain d where d: "caches q u = Some d" "unloaded c d" using e c(1) by (rule opened_caches)
  have "current q" using e assms(2) by (rule evicts_current)
  with d(1) have "kc_loaded d n = Some b \<Longrightarrow> map_of (kc_artifacts d) n = Some b" for n b by (simp add: current_def)
  with \<open>current q\<close> d(1) c(2) unloaded_fields(1) [OF d(2)] show ?thesis
    by (auto simp: current_def p' update_cache_def)
next
  fix e
  assume "evicts p p'"
  then show ?thesis using assms(2) by (rule evicts_current)
qed (use assms(2) in \<open>simp_all add: current_def\<close>)

text \<open>A kernel the device can hold alone is always activated, whatever else is open.\<close>

lemma activate_succeeds:
  assumes "tracks p" and "current p" and "caches p u = Some c" and "map_of (kc_artifacts c) name = Some a" and "opens a 0"
  obtains p' where "activate opens u name p = (Inr a, p')"
proof (cases "kc_loaded c name")
  case None
  obtain q where "open_context opens a (make_room (kc_max c) p) = (Inr (), q)"
    using open_context_succeeds [of opens a, OF assms(5)] by (metis prod.collapse)
  with assms(3,4) None that show thesis by (auto simp: activate_def load_backend_def)
next
  case (Some l)
  then have "(u, name) \<in> set (contexts p)" by (simp add: tracks_iff [OF assms(1,3)])
  moreover have "l = a" using assms(2,3,4) Some by (auto simp: current_def)
  ultimately show thesis using assms(3,4) Some that by (auto simp: activate_def move_to_end_def)
qed

end
