(* ===== verification/Kernel_Buffers.thy ===== *)
theory Kernel_Buffers
  imports Kernel_Contexts
begin

text \<open>
  The buffers of \<open>KernelCache.load_and_run\<close>, \<^verbatim>\<open>src/programming_examples/llms/shared/infra/cache.py\<close>: which buffer an
  argument gets, what is written before a launch, and what is read back. A buffer object and its copy on the device
  are one list of bytes: every write is followed by the sync to the device and every read is preceded by the sync
  from it. The kernel and the allocator are parameters. Timing is not modelled.
\<close>

section \<open>A call\<close>

text \<open>A numpy array: its bytes in C order, and whether it is C-contiguous, which \<open>np.frombuffer\<close> asks for.\<close>

record 'b np_array =
  na_bytes :: "'b list"
  na_contiguous :: bool

text \<open>The arguments of \<open>load_and_run\<close>. The pool name of an alias is \<open>None\<close> where it is not a string.\<close>

record 'b call =
  ca_name :: string
  ca_inputs :: "'b np_array list"
  ca_outputs :: "int list option"
  ca_static :: "int list"
  ca_intermediate :: "int list"
  ca_key :: "string option"
  ca_shared :: bool
  ca_alias :: "(int \<times> string option) list"
  ca_resident :: bool

text \<open>
  What the process runs on: whether the driver opens a context of an artifact when that many are open, the contents of
  a new buffer of a size, and a kernel as a function of the contents of its arguments.
\<close>

record 'b device =
  dv_opens :: "xrt_artifact \<Rightarrow> nat \<Rightarrow> bool"
  dv_alloc :: "nat \<Rightarrow> nat \<Rightarrow> 'b list option"
  dv_kernel :: "xrt_artifact \<Rightarrow> 'b list list \<Rightarrow> 'b list list option"

definition aliased :: "'b call \<Rightarrow> nat \<Rightarrow> string option" where
  "aliased c i = (case map_of (ca_alias c) (int i) of None \<Rightarrow> None | Some nm \<Rightarrow> nm)"

definition is_static :: "'b call \<Rightarrow> nat \<Rightarrow> bool" where
  "is_static c i \<longleftrightarrow> int i \<in> set (ca_static c)"

definition check_aliases :: "'b call \<Rightarrow> unit res" where
  "check_aliases c =
     (if list_ex (\<lambda>(i, _). i \<in> set (ca_static c)) (ca_alias c) then Inl ValueError
      else if list_ex (\<lambda>(i, _). \<not> (0 \<le> i \<and> i < int (length (ca_inputs c)))) (ca_alias c) then Inl ValueError
      else if list_ex (\<lambda>(_, nm). nm = None \<or> nm = Some []) (ca_alias c) then Inl ValueError
      else Inr ())"

section \<open>Allocation\<close>

text \<open>\<open>shared_idx\<close> and \<open>_pool_key\<close>.\<close>

definition pooled :: "'b call \<Rightarrow> nat \<Rightarrow> bool" where
  "pooled c i \<longleftrightarrow> (ca_shared c \<and> \<not> is_static c i) \<or> int i \<in> fst ` set (ca_alias c)"

definition pool_key_of :: "'b call \<Rightarrow> nat \<Rightarrow> nat \<Rightarrow> pool_key" where
  "pool_key_of c i sz = (case aliased c i of Some nm \<Rightarrow> AliasKey nm sz | None \<Rightarrow> ArgKey (ca_name c) i sz)"

definition alloc_bo :: "'b device \<Rightarrow> nat \<Rightarrow> 'b bo_store \<Rightarrow> nat res \<times> 'b bo_store" where
  "alloc_bo dv sz s =
     (case dv_alloc dv (st_next s) sz of
        None \<Rightarrow> (Inl RuntimeError, s)
      | Some xs \<Rightarrow> (Inr (st_next s), s\<lparr>st_data := (st_data s)(st_next s := xs), st_next := Suc (st_next s)\<rparr>))"

text \<open>The loop over the arguments on the first call of a key.\<close>

fun alloc_all ::
  "'b device \<Rightarrow> 'b call \<Rightarrow> nat \<Rightarrow> nat list \<Rightarrow> (pool_key \<rightharpoonup> nat) \<Rightarrow> 'b bo_store \<Rightarrow>
   nat list res \<times> (pool_key \<rightharpoonup> nat) \<times> 'b bo_store"
where
  "alloc_all dv c i [] pool s = (Inr [], pool, s)"
| "alloc_all dv c i (sz # sizes) pool s =
     (let k = pool_key_of c i sz in
      case (if pooled c i then pool k else None) of
        Some bo \<Rightarrow> map_prod (map_sum id ((#) bo)) id (alloc_all dv c (Suc i) sizes pool s)
      | None \<Rightarrow>
          (case alloc_bo dv sz s of
             (Inl e, s) \<Rightarrow> (Inl e, pool, s)
           | (Inr bo, s) \<Rightarrow>
               map_prod (map_sum id ((#) bo)) id
                 (alloc_all dv c (Suc i) sizes (if pooled c i then pool(k \<mapsto> bo) else pool) s)))"

definition bo_key_of :: "'b call \<Rightarrow> string" where
  "bo_key_of c = (case ca_key c of None \<Rightarrow> ca_name c | Some k \<Rightarrow> k)"

definition sizes_of :: "'b call \<Rightarrow> nat list" where
  "sizes_of c = map (length \<circ> na_bytes) (ca_inputs c)"

definition get_bos :: "'b device \<Rightarrow> 'b call \<Rightarrow> bufs \<Rightarrow> 'b bo_store \<Rightarrow> nat list res \<times> bufs \<times> 'b bo_store" where
  "get_bos dv c b s =
     (case bf_bos b (bo_key_of c) of
        Some bos \<Rightarrow> (Inr bos, b, s)
      | None \<Rightarrow>
          (case alloc_all dv c 0 (sizes_of c) (bf_pool b) s of
             (Inl e, pool, s) \<Rightarrow> (Inl e, b\<lparr>bf_pool := pool\<rparr>, s)
           | (Inr bos, pool, s) \<Rightarrow>
               (Inr bos, b\<lparr>bf_bos := (bf_bos b)(bo_key_of c \<mapsto> bos), bf_pool := pool\<rparr>, s)))"

section \<open>Writing, launching, reading\<close>

text \<open>Phase 1: an argument is skipped where its contents are to stay.\<close>

definition skips :: "'b call \<Rightarrow> bool \<Rightarrow> nat \<Rightarrow> bool" where
  "skips c first i \<longleftrightarrow>
     (is_static c i \<and> \<not> first) \<or>
     (int i \<in> set (ca_intermediate c) \<and> (\<not> first \<or> (ca_resident c \<and> int i \<in> fst ` set (ca_alias c))))"

definition write_bo :: "nat \<Rightarrow> 'b list \<Rightarrow> 'b bo_store \<Rightarrow> 'b bo_store" where
  "write_bo bo xs s = s\<lparr>st_data := (st_data s)(bo := xs @ drop (length xs) (st_data s bo))\<rparr>"

fun write_inputs :: "'b call \<Rightarrow> bool \<Rightarrow> nat list \<Rightarrow> nat \<Rightarrow> 'b np_array list \<Rightarrow> 'b bo_store \<Rightarrow> unit res \<times> 'b bo_store" where
  "write_inputs c first bos i [] s = (Inr (), s)"
| "write_inputs c first bos i (a # as) s =
     (if skips c first i then write_inputs c first bos (Suc i) as s
      else if length bos \<le> i then (Inl IndexError, s)
      else if \<not> na_contiguous a then (Inl ValueError, s)
      else if length (st_data s (bos ! i)) < length (na_bytes a) then (Inl ValueError, s)
      else write_inputs c first bos (Suc i) as (write_bo (bos ! i) (na_bytes a) s))"

text \<open>
  Phase 2: the kernel gets every buffer of the key. What it leaves in them is stored in the order of the arguments, which
  matters only where one buffer stands for several of them.
\<close>

definition store_all :: "nat list \<Rightarrow> 'b list list \<Rightarrow> 'b bo_store \<Rightarrow> 'b bo_store" where
  "store_all bos xss s = s\<lparr>st_data := fold (\<lambda>(bo, xs) d. d(bo := xs)) (zip bos xss) (st_data s)\<rparr>"

definition launch :: "'b device \<Rightarrow> xrt_artifact \<Rightarrow> nat list \<Rightarrow> 'b bo_store \<Rightarrow> unit res \<times> 'b bo_store" where
  "launch dv art bos s =
     (case dv_kernel dv art (map (st_data s) bos) of
        None \<Rightarrow> (Inl RuntimeError, s)
      | Some outs \<Rightarrow> (Inr (), store_all bos outs s))"

text \<open>
  Phase 3. A result is a view of a buffer with its number of bytes, or an empty array. An index of \<open>output_indices\<close> may count
  from the end where it is synced, but the results are picked by the indices as they are written.
\<close>

type_synonym view = "(nat \<times> nat) option"

definition readback_of :: "'b call \<Rightarrow> int list" where
  "readback_of c = (case ca_outputs c of None \<Rightarrow> [int (length (ca_inputs c)) - 1] | Some is \<Rightarrow> is)"

definition read_back :: "'b call \<Rightarrow> nat list \<Rightarrow> 'b bo_store \<Rightarrow> view list res" where
  "read_back c bos s =
     res_bind (each_res (\<lambda>i. res_check (- int (length bos) \<le> i \<and> i < int (length bos)) IndexError) (readback_of c)) (\<lambda>_.
       map_res (\<lambda>(i, sz).
         if int i \<notin> set (readback_of c) then Inr None
         else if length bos \<le> i then Inl IndexError
         else if length (st_data s (bos ! i)) < sz then Inl ValueError
         else Inr (Some (bos ! i, sz))) (List.enumerate 0 (sizes_of c)))"

text \<open>The call from the second level on: the buffers of the cache and the contents of all buffers.\<close>

definition run_buffers ::
  "'b device \<Rightarrow> xrt_artifact \<Rightarrow> 'b call \<Rightarrow> bufs \<Rightarrow> 'b bo_store \<Rightarrow> view list res \<times> bufs \<times> 'b bo_store"
where
  "run_buffers dv art c b s =
     (let first = (bf_bos b (bo_key_of c) = None) in
      case get_bos dv c b s of
        (Inl e, b, s) \<Rightarrow> (Inl e, b, s)
      | (Inr bos, b, s) \<Rightarrow>
          (case write_inputs c first bos 0 (ca_inputs c) s of
             (Inl e, s) \<Rightarrow> (Inl e, b, s)
           | (Inr _, s) \<Rightarrow>
               (case launch dv art bos s of
                  (Inl e, s) \<Rightarrow> (Inl e, b, s)
                | (Inr _, s) \<Rightarrow> (read_back c bos s, b, s))))"

definition read_view :: "'b bo_store \<Rightarrow> view \<Rightarrow> 'b list" where
  "read_view s v = (case v of None \<Rightarrow> [] | Some (bo, n) \<Rightarrow> take n (st_data s bo))"

text \<open>\<open>load_and_run\<close>, over what activates a kernel.\<close>

definition load_and_run_with ::
  "(nat \<Rightarrow> string \<Rightarrow> 'b process \<Rightarrow> xrt_artifact res \<times> 'b process) \<Rightarrow> 'b device \<Rightarrow> nat \<Rightarrow> 'b call \<Rightarrow> 'b process \<Rightarrow>
   view list res \<times> 'b process"
where
  "load_and_run_with act dv u c p =
     (case caches p u of
        None \<Rightarrow> (Inl AttributeError, p)
      | Some kc \<Rightarrow>
          if map_of (kc_artifacts kc) (ca_name c) = None then (Inl RuntimeError, p)
          else
            (case check_aliases c of
               Inl e \<Rightarrow> (Inl e, p)
             | Inr _ \<Rightarrow>
                 (case act u (ca_name c) p of
                    (Inl e, p) \<Rightarrow> (Inl e, p)
                  | (Inr art, p) \<Rightarrow>
                      (case run_buffers dv art c (kc_bufs kc) (buffers p) of
                         (r, b, s) \<Rightarrow> (r, update_cache u (\<lambda>kc. kc\<lparr>kc_bufs := b\<rparr>) (p\<lparr>buffers := s\<rparr>))))))"

definition load_and_run :: "'b device \<Rightarrow> nat \<Rightarrow> 'b call \<Rightarrow> 'b process \<Rightarrow> view list res \<times> 'b process" where
  "load_and_run dv = load_and_run_with (activate (dv_opens dv)) dv"

lemmas load_and_run_defs = load_and_run_def load_and_run_with_def

section \<open>A device for examples\<close>

text \<open>A device that holds one context, clears new buffers, and runs the addition of the first two arguments into the third.\<close>

definition adding_device :: "int device" where
  "adding_device =
     \<lparr>dv_opens = (\<lambda>_ n. n = 0), dv_alloc = (\<lambda>_ n. Some (replicate n 0)),
      dv_kernel = (\<lambda>_ args. case args of [w, x, y] \<Rightarrow> Some [w, x, map2 (+) w x] | _ \<Rightarrow> None)\<rparr>"

definition bytes :: "'b list \<Rightarrow> 'b np_array" where
  "bytes xs = \<lparr>na_bytes = xs, na_contiguous = True\<rparr>"

text \<open>A call of the kernel of that name under a key, whose first argument is static.\<close>

definition add_call :: "string \<Rightarrow> string \<Rightarrow> int list \<Rightarrow> int list \<Rightarrow> int call" where
  "add_call name key w x =
     \<lparr>ca_name = name, ca_inputs = [bytes w, bytes x, bytes (replicate (length x) 0)], ca_outputs = None, ca_static = [0],
      ca_intermediate = [2], ca_key = Some key, ca_shared = False, ca_alias = [], ca_resident = False\<rparr>"

section \<open>What a call leaves alone\<close>

definition held :: "bufs \<Rightarrow> nat set" where
  "held b = \<Union> (set ` ran (bf_bos b)) \<union> ran (bf_pool b)"

text \<open>The buffers of two keys of a cache have in common only what is in its pool.\<close>

definition keys_apart :: "bufs \<Rightarrow> bool" where
  "keys_apart b \<longleftrightarrow> (\<forall>K K' bos bos'. bf_bos b K = Some bos \<longrightarrow> bf_bos b K' = Some bos' \<longrightarrow> K \<noteq> K' \<longrightarrow>
     set bos \<inter> set bos' \<subseteq> ran (bf_pool b))"

lemma keys_apartD:
  "keys_apart b \<Longrightarrow> bf_bos b K = Some bos \<Longrightarrow> bf_bos b K' = Some bos' \<Longrightarrow> K \<noteq> K' \<Longrightarrow> bo \<in> set bos \<Longrightarrow> bo \<in> set bos' \<Longrightarrow>
   bo \<in> ran (bf_pool b)"
  unfolding keys_apart_def by blast

text \<open>The contents of the buffers that exist do not change.\<close>

definition extends :: "'b bo_store \<Rightarrow> 'b bo_store \<Rightarrow> bool" where
  "extends s s' \<longleftrightarrow> st_next s \<le> st_next s' \<and> (\<forall>bo < st_next s. st_data s' bo = st_data s bo)"

lemma extends_refl [simp]: "extends s s"
  by (simp add: extends_def)

lemma extends_trans: "extends s t \<Longrightarrow> extends t u \<Longrightarrow> extends s u"
  by (simp add: extends_def)

lemma alloc_bo_extends: "alloc_bo dv n s = (r, s') \<Longrightarrow> extends s s'"
  by (auto simp: alloc_bo_def extends_def split: option.splits)

lemma alloc_bo_new: "alloc_bo dv n s = (Inr bo, s') \<Longrightarrow> bo = st_next s \<and> st_next s' = Suc (st_next s)"
  by (auto simp: alloc_bo_def split: option.splits)

lemma ran_upd_new: "ran (m(k \<mapsto> v)) \<subseteq> insert v (ran m)"
  by (auto simp: ran_def)

lemma alloc_all_frame:
  "alloc_all dv c i ns pool s = (r, pool', s') \<Longrightarrow>
     extends s s' \<and> pool \<subseteq>\<^sub>m pool' \<and> ran pool' \<subseteq> ran pool \<union> {st_next s..<st_next s'} \<and>
     (\<forall>bos. r = Inr bos \<longrightarrow> length bos = length ns \<and> set bos \<subseteq> ran pool \<union> {st_next s..<st_next s'})"
proof (induction dv c i ns pool s arbitrary: r rule: alloc_all.induct)
  case (2 dv c i sz ns pool s)
  let ?k = "pool_key_of c i sz"
  show ?case
  proof (cases "if pooled c i then pool ?k else None")
    case (Some bo)
    then have bo: "bo \<in> ran pool" by (auto simp: ran_def split: if_splits)
    obtain r1 where r1: "alloc_all dv c (Suc i) ns pool s = (r1, pool', s')" "r = map_sum id ((#) bo) r1"
      using "2.prems" Some by (cases "alloc_all dv c (Suc i) ns pool s") auto
    from "2.IH"(2) [OF refl Some r1(1)] r1(2) bo show ?thesis
      by (cases r1) auto
  next
    case None
    obtain r0 s0 where a: "alloc_bo dv sz s = (r0, s0)" by force
    show ?thesis
    proof (cases r0)
      case (Inl e)
      with "2.prems" None a alloc_bo_extends [OF a] show ?thesis by (auto simp: extends_def)
    next
      case (Inr bo)
      let ?pool = "if pooled c i then pool(?k \<mapsto> bo) else pool"
      have new: "bo = st_next s" "st_next s0 = Suc (st_next s)"
        using alloc_bo_new [of dv sz s bo s0] a Inr by auto
      obtain r1 where r1: "alloc_all dv c (Suc i) ns ?pool s0 = (r1, pool', s')" "r = map_sum id ((#) bo) r1"
        using "2.prems" None a Inr by (cases "alloc_all dv c (Suc i) ns ?pool s0") auto
      have ih: "extends s0 s' \<and> ?pool \<subseteq>\<^sub>m pool' \<and> ran pool' \<subseteq> ran ?pool \<union> {st_next s0..<st_next s'} \<and>
          (\<forall>bos. r1 = Inr bos \<longrightarrow> length bos = length ns \<and> set bos \<subseteq> ran ?pool \<union> {st_next s0..<st_next s'})"
        using "2.IH"(1) [OF refl None a [symmetric] Inr r1(1)] .
      have "extends s s'" using alloc_bo_extends [OF a] ih extends_trans by blast
      moreover have "pool \<subseteq>\<^sub>m ?pool" using None by (auto simp: map_le_def)
      then have "pool \<subseteq>\<^sub>m pool'" using ih map_le_trans by blast
      moreover have "ran ?pool \<subseteq> insert bo (ran pool)" using ran_upd_new [of pool ?k bo] by auto
      moreover have bo: "bo \<in> {st_next s..<st_next s'}" using new ih by (auto simp: extends_def)
      ultimately have R: "ran ?pool \<union> {st_next s0..<st_next s'} \<subseteq> ran pool \<union> {st_next s..<st_next s'}"
        and "extends s s'" "pool \<subseteq>\<^sub>m pool'" using new by auto
      moreover have "ran pool' \<subseteq> ran pool \<union> {st_next s..<st_next s'}" using ih R by blast
      moreover have "length bos = Suc (length ns) \<and> set bos \<subseteq> ran pool \<union> {st_next s..<st_next s'}" if bos: "r = Inr bos" for bos
      proof -
        obtain bos' where "r1 = Inr bos'" "bos = bo # bos'" using r1(2) bos by (cases r1) auto
        with ih R bo show ?thesis by auto
      qed
      ultimately show ?thesis by simp
    qed
  qed
qed auto

lemma get_bos_frame:
  assumes "get_bos dv c b s = (r, b', s')" and "held b \<subseteq> {..<st_next s}" and "keys_apart b"
  shows "extends s s'" and "held b' \<subseteq> held b \<union> {st_next s..<st_next s'}" and "keys_apart b'"
    and "ran (bf_pool b') \<inter> {..<st_next s} = ran (bf_pool b)"
    and "\<And>K. K \<noteq> bo_key_of c \<Longrightarrow> bf_bos b' K = bf_bos b K"
    and "\<And>bos. r = Inr bos \<Longrightarrow> bf_bos b' (bo_key_of c) = Some bos"
proof -
  let ?goal = "extends s s' \<and> held b' \<subseteq> held b \<union> {st_next s..<st_next s'} \<and> keys_apart b' \<and>
    ran (bf_pool b') \<inter> {..<st_next s} = ran (bf_pool b) \<and> (\<forall>K. K \<noteq> bo_key_of c \<longrightarrow> bf_bos b' K = bf_bos b K) \<and>
    (\<forall>bos. r = Inr bos \<longrightarrow> bf_bos b' (bo_key_of c) = Some bos)"
  have below: "ran (bf_pool b) \<subseteq> {..<st_next s}" using assms(2) by (auto simp: held_def)
  have ?goal
  proof (cases "bf_bos b (bo_key_of c)")
    case (Some bos)
    with assms below show ?thesis by (auto simp: get_bos_def)
  next
    case None
    obtain r0 pool' s0 where a: "alloc_all dv c 0 (sizes_of c) (bf_pool b) s = (r0, pool', s0)"
      by (cases "alloc_all dv c 0 (sizes_of c) (bf_pool b) s") auto
    note f = alloc_all_frame [OF a]
    have s': "s' = s0" and pool: "bf_pool b' = pool'" and r: "r = r0"
      using assms(1) None a by (auto simp: get_bos_def split: sum.splits)
    have bos': "bf_bos b' = (case r0 of Inl e \<Rightarrow> bf_bos b | Inr bos \<Rightarrow> (bf_bos b)(bo_key_of c \<mapsto> bos))"
      using assms(1) None a by (auto simp: get_bos_def split: sum.splits)
    have grow: "ran (bf_pool b) \<subseteq> ran pool'" using f by (auto simp: map_le_def ran_def dom_def) (metis option.distinct(1))
    have old: "ran pool' \<inter> {..<st_next s} = ran (bf_pool b)" using f grow below by auto
    have new: "set bos \<subseteq> ran (bf_pool b) \<union> {st_next s..<st_next s0}" if "r0 = Inr bos" for bos using f that by simp
    have held': "held b' \<subseteq> held b \<union> {st_next s..<st_next s'}"
    proof (cases r0)
      case (Inl e)
      with f show ?thesis by (auto simp: held_def bos' pool s')
    next
      case (Inr bos)
      have "\<Union> (set ` ran (bf_bos b')) \<subseteq> set bos \<union> \<Union> (set ` ran (bf_bos b))"
        using ran_upd_new [of "bf_bos b" "bo_key_of c" bos] Inr by (auto simp: bos')
      with new [OF Inr] f show ?thesis by (auto simp: held_def pool s')
    qed
    have "keys_apart b'"
      unfolding keys_apart_def
    proof (intro allI impI subsetI)
      fix K K' xs xs' bo
      assume xs: "bf_bos b' K = Some xs" "bf_bos b' K' = Some xs'" "K \<noteq> K'" and bo: "bo \<in> set xs \<inter> set xs'"
      have one: "bo \<in> ran pool'" if "r0 = Inr xs" "bo \<in> set xs" "bf_bos b L = Some ys" "bo \<in> set ys" for xs L ys
      proof -
        have "bo < st_next s" using that assms(2) by (auto simp: held_def ran_def)
        with new [OF that(1)] that(2) grow show ?thesis by auto
      qed
      show "bo \<in> ran (bf_pool b')"
      proof (cases r0)
        case (Inl e)
        with xs bo keys_apartD [OF assms(3)] grow show ?thesis by (auto simp: bos' pool)
      next
        case (Inr ys)
        with xs bo keys_apartD [OF assms(3)] grow one [OF Inr] show ?thesis
          by (auto simp: bos' pool split: if_splits)
      qed
    qed
    with f held' old show ?thesis by (auto simp: s' pool bos' r split: sum.splits)
  qed
  then show "extends s s'" "held b' \<subseteq> held b \<union> {st_next s..<st_next s'}" "keys_apart b'"
    "ran (bf_pool b') \<inter> {..<st_next s} = ran (bf_pool b)" "\<And>K. K \<noteq> bo_key_of c \<Longrightarrow> bf_bos b' K = bf_bos b K"
    "\<And>bos. r = Inr bos \<Longrightarrow> bf_bos b' (bo_key_of c) = Some bos"
    by auto
qed

text \<open>Writing and launching change the buffers of the key only.\<close>

definition changes_only :: "nat set \<Rightarrow> 'b bo_store \<Rightarrow> 'b bo_store \<Rightarrow> bool" where
  "changes_only B s s' \<longleftrightarrow> st_next s' = st_next s \<and> (\<forall>bo. bo \<notin> B \<longrightarrow> st_data s' bo = st_data s bo)"

lemma changes_only_refl [simp]: "changes_only B s s"
  by (simp add: changes_only_def)

lemma changes_only_trans: "changes_only B s t \<Longrightarrow> changes_only B t u \<Longrightarrow> changes_only B s u"
  by (simp add: changes_only_def)

lemma write_inputs_frame: "write_inputs c first bos i as s = (r, s') \<Longrightarrow> changes_only (set bos) s s'"
proof (induction c first bos i as s rule: write_inputs.induct)
  case (2 c first bos i a as s)
  show ?case
  proof (cases "\<not> skips c first i \<and> i < length bos \<and> na_contiguous a \<and> length (na_bytes a) \<le> length (st_data s (bos ! i))")
    case True
    then have "changes_only (set bos) (write_bo (bos ! i) (na_bytes a) s) s'"
      using 2 by (auto simp: not_le)
    moreover have "changes_only (set bos) s (write_bo (bos ! i) (na_bytes a) s)"
      using True by (auto simp: changes_only_def write_bo_def)
    ultimately show ?thesis by (rule changes_only_trans [rotated])
  next
    case False
    with 2 show ?thesis by (auto simp: not_le split: if_splits)
  qed
qed simp

lemma fold_upd_other: "bo \<notin> fst ` set ps \<Longrightarrow> fold (\<lambda>(b, xs) d. d(b := xs)) ps d bo = d bo"
  by (induction ps arbitrary: d) auto

lemma get_bos_extends: "get_bos dv c b s = (r, b', s') \<Longrightarrow> extends s s'"
  using alloc_all_frame [of dv c 0 "sizes_of c" "bf_pool b" s] by (auto simp: get_bos_def split: option.splits prod.splits sum.splits)

lemma launch_frame: "launch dv art bos s = (r, s') \<Longrightarrow> changes_only (set bos) s s'"
proof -
  have "fold (\<lambda>(b, xs) d. d(b := xs)) (zip bos outs) d bo = d bo" if "bo \<notin> set bos" for bo outs and d :: "nat \<Rightarrow> 'a list"
    using that by (intro fold_upd_other) (auto dest: set_zip_leftD)
  then show "launch dv art bos s = (r, s') \<Longrightarrow> changes_only (set bos) s s'"
    by (auto simp: launch_def store_all_def changes_only_def split: option.splits)
qed

lemma run_buffers_frame:
  assumes "run_buffers dv art c b s = (r, b', s')" and "held b \<subseteq> {..<st_next s}" and "keys_apart b"
  shows "st_next s \<le> st_next s'" and "held b' \<subseteq> held b \<union> {st_next s..<st_next s'}" and "keys_apart b'"
    and "ran (bf_pool b') \<inter> {..<st_next s} = ran (bf_pool b)"
    and "\<And>K. K \<noteq> bo_key_of c \<Longrightarrow> bf_bos b' K = bf_bos b K"
    and "\<And>bo. bo < st_next s \<Longrightarrow> (\<And>bos. bf_bos b' (bo_key_of c) = Some bos \<Longrightarrow> bo \<notin> set bos) \<Longrightarrow> st_data s' bo = st_data s bo"
proof -
  obtain r0 b0 s0 where g: "get_bos dv c b s = (r0, b0, s0)" by (cases "get_bos dv c b s") auto
  note f = get_bos_frame [OF g assms(2,3)]
  have b': "b' = b0" using assms(1) g by (auto simp: run_buffers_def Let_def split: sum.splits prod.splits)
  have ch: "s' = s0 \<or> (\<exists>bos. r0 = Inr bos \<and> changes_only (set bos) s0 s')"
    using assms(1) g write_inputs_frame launch_frame
    by (auto simp: run_buffers_def Let_def split: sum.splits prod.splits) (blast intro: changes_only_trans)+
  then have next': "st_next s' = st_next s0" by (auto simp: changes_only_def)
  show "st_next s \<le> st_next s'" using f(1) next' by (simp add: extends_def)
  show "held b' \<subseteq> held b \<union> {st_next s..<st_next s'}" "keys_apart b'" "ran (bf_pool b') \<inter> {..<st_next s} = ran (bf_pool b)"
    "\<And>K. K \<noteq> bo_key_of c \<Longrightarrow> bf_bos b' K = bf_bos b K"
    using f(2-5) by (simp_all add: b' next')
  fix bo
  assume bo: "bo < st_next s" and out: "\<And>bos. bf_bos b' (bo_key_of c) = Some bos \<Longrightarrow> bo \<notin> set bos"
  have "st_data s0 bo = st_data s bo" using f(1) bo by (simp add: extends_def)
  moreover have "st_data s' bo = st_data s0 bo"
    using ch f(6) out b' by (auto simp: changes_only_def)
  ultimately show "st_data s' bo = st_data s bo" by simp
qed

section \<open>What a call computes\<close>

text \<open>The contents of the buffers at the launch: kept where the call skips an argument, the caller's bytes elsewhere.\<close>

definition launched_with :: "'b call \<Rightarrow> bool \<Rightarrow> nat list \<Rightarrow> 'b bo_store \<Rightarrow> 'b list list" where
  "launched_with c first bos s =
     map (\<lambda>i. if skips c first i then st_data s (bos ! i) else na_bytes (ca_inputs c ! i)) [0..<length (ca_inputs c)]"

definition fits :: "'b call \<Rightarrow> nat list \<Rightarrow> 'b bo_store \<Rightarrow> bool" where
  "fits c bos s \<longleftrightarrow> distinct bos \<and> map (length \<circ> st_data s) bos = sizes_of c"

lemma write_inputs_writes:
  assumes "distinct bos" and "length bos = i + length as" and "\<forall>a \<in> set as. na_contiguous a"
    and "\<And>j. j < length as \<Longrightarrow> length (st_data s (bos ! (i + j))) = length (na_bytes (as ! j))"
  shows "\<exists>s'. write_inputs c first bos i as s = (Inr (), s') \<and> changes_only (set (drop i bos)) s s' \<and>
    (\<forall>j < length as. st_data s' (bos ! (i + j)) = (if skips c first (i + j) then st_data s (bos ! (i + j)) else na_bytes (as ! j)))"
  using assms(2-4)
proof (induction as arbitrary: i s)
  case (Cons a as)
  have i: "i < length bos" using Cons.prems(1) by simp
  let ?s = "if skips c first i then s else write_bo (bos ! i) (na_bytes a) s"
  have la: "length (st_data s (bos ! i)) = length (na_bytes a)" using Cons.prems(3) [of 0] by simp
  have other: "bos ! (Suc i + j) \<noteq> bos ! i" if "j < length as" for j
    using that Cons.prems(1) assms(1) by (simp add: nth_eq_iff_index_eq)
  have "length (st_data ?s (bos ! (Suc i + j))) = length (na_bytes (as ! j))" if "j < length as" for j
    using Cons.prems(3) [of "Suc j"] that other [OF that] by (auto simp: write_bo_def)
  then obtain s' where s': "write_inputs c first bos (Suc i) as ?s = (Inr (), s')" "changes_only (set (drop (Suc i) bos)) ?s s'"
      "\<And>j. j < length as \<Longrightarrow> st_data s' (bos ! (Suc i + j)) = (if skips c first (Suc i + j) then st_data ?s (bos ! (Suc i + j)) else na_bytes (as ! j))"
    using Cons.IH [of "Suc i" ?s] Cons.prems(1,2) by auto
  have run: "write_inputs c first bos i (a # as) s = (Inr (), s')"
    using s'(1) i la Cons.prems(2) by auto
  have d: "set (drop i bos) = insert (bos ! i) (set (drop (Suc i) bos))"
    using i by (metis Cons_nth_drop_Suc list.simps(15))
  have "changes_only (set (drop i bos)) s ?s" by (auto simp: changes_only_def write_bo_def d)
  moreover have "changes_only (set (drop i bos)) ?s s'" using s'(2) by (auto simp: changes_only_def d)
  ultimately have "changes_only (set (drop i bos)) s s'" by (rule changes_only_trans)
  moreover have "st_data s' (bos ! (i + j)) = (if skips c first (i + j) then st_data s (bos ! (i + j)) else na_bytes ((a # as) ! j))"
    if "j < length (a # as)" for j
  proof (cases j)
    case 0
    have "bos ! i \<notin> set (drop (Suc i) bos)"
      using assms(1) i by (metis Cons_nth_drop_Suc distinct.simps(2) distinct_drop)
    with s'(2) have "st_data s' (bos ! i) = st_data ?s (bos ! i)" by (simp add: changes_only_def)
    with 0 la show ?thesis by (simp add: write_bo_def)
  next
    case (Suc k)
    with that have k: "k < length as" by simp
    with s'(3) [OF k] other [OF k] Suc show ?thesis by (auto simp: write_bo_def)
  qed
  ultimately show ?case using run by blast
qed simp

lemma store_all_nth:
  assumes "distinct bos" and "length outs = length bos" and "i < length bos"
  shows "st_data (store_all bos outs s) (bos ! i) = outs ! i"
proof -
  have "fold (\<lambda>(b, xs) d. d(b := xs)) (zip bos outs) d (bos ! i) = outs ! i" for d
    using assms
  proof (induction bos arbitrary: outs i d)
    case (Cons bo bos)
    then obtain xs outs' where outs: "outs = xs # outs'" by (cases outs) auto
    show ?case
    proof (cases i)
      case 0
      have "bo \<notin> fst ` set (zip bos outs')" using Cons.prems(1) by (auto dest: set_zip_leftD)
      from fold_upd_other [OF this, of "d(bo := xs)"] show ?thesis
        unfolding outs 0 by (simp del: fun_upd_apply add: fun_upd_same)
    next
      case (Suc k)
      with Cons outs show ?thesis by simp
    qed
  qed simp
  then show ?thesis by (simp add: store_all_def)
qed

text \<open>On buffers that fit its arguments a call returns.\<close>

lemma call_on_fitting_buffers:
  assumes bos: "get_bos dv c b s = (Inr bos, b', s0)" and fit: "fits c bos s0"
    and contiguous: "\<forall>a \<in> set (ca_inputs c). na_contiguous a"
    and kernel: "dv_kernel dv art (launched_with c (bf_bos b (bo_key_of c) = None) bos s0) = Some outs"
    and lens: "map length outs = sizes_of c"
    and outputs: "\<forall>i \<in> set (readback_of c). 0 \<le> i \<and> i < int (length (ca_inputs c))"
  shows "\<exists>views s'. run_buffers dv art c b s = (Inr views, b', s') \<and> map (st_data s') bos = outs \<and>
    map (read_view s') views = map (\<lambda>i. if int i \<in> set (readback_of c) then outs ! i else []) [0..<length (ca_inputs c)]"
proof -
  let ?first = "bf_bos b (bo_key_of c) = None" and ?n = "length (ca_inputs c)"
  have d: "distinct bos" and sz: "map (length \<circ> st_data s0) bos = sizes_of c" using fit by (auto simp: fits_def)
  have n: "length bos = ?n" using arg_cong [OF sz, of length] by (simp add: sizes_of_def)
  have "length (st_data s0 (bos ! i)) = length (na_bytes (ca_inputs c ! i))" if "i < ?n" for i
    using arg_cong [OF sz, of "\<lambda>l. l ! i"] that n by (simp add: sizes_of_def)
  then obtain s1 where w: "write_inputs c ?first bos 0 (ca_inputs c) s0 = (Inr (), s1)"
      "\<And>i. i < ?n \<Longrightarrow> st_data s1 (bos ! i) = (if skips c ?first i then st_data s0 (bos ! i) else na_bytes (ca_inputs c ! i))"
    using write_inputs_writes [OF d, of 0 "ca_inputs c" s0 c ?first] n contiguous by auto
  have args: "map (st_data s1) bos = launched_with c ?first bos s0"
    unfolding launched_with_def using w(2) n by (intro nth_equalityI) auto
  define s2 where "s2 = store_all bos outs s1"
  have l: "launch dv art bos s1 = (Inr (), s2)" using kernel by (simp add: launch_def args s2_def)
  have ln: "length outs = ?n" using arg_cong [OF lens, of length] by (simp add: sizes_of_def)
  have out: "st_data s2 (bos ! i) = outs ! i" if "i < ?n" for i
    unfolding s2_def using d ln n that by (intro store_all_nth) auto
  have len: "length (outs ! i) = sizes_of c ! i" if "i < ?n" for i
    using arg_cong [OF lens, of "\<lambda>l. l ! i"] that ln by simp
  let ?views = "map (\<lambda>i. if int i \<in> set (readback_of c) then Some (bos ! i, sizes_of c ! i) else None) [0..<?n]"
  have enum: "List.enumerate 0 (sizes_of c) = map (\<lambda>i. (i, sizes_of c ! i)) [0..<?n]"
    by (intro nth_equalityI) (simp_all add: sizes_of_def nth_enumerate_eq)
  have "map_res (\<lambda>(i, sz). if int i \<notin> set (readback_of c) then Inr None
         else if length bos \<le> i then Inl IndexError
         else if length (st_data s2 (bos ! i)) < sz then Inl ValueError
         else Inr (Some (bos ! i, sz))) (List.enumerate 0 (sizes_of c)) =
      Inr (map (\<lambda>(i, sz). if int i \<in> set (readback_of c) then Some (bos ! i, sz) else None) (List.enumerate 0 (sizes_of c)))"
    using out len n by (intro map_res_all_Inr) (auto simp: enum)
  also have "map (\<lambda>(i, sz). if int i \<in> set (readback_of c) then Some (bos ! i, sz) else None) (List.enumerate 0 (sizes_of c)) = ?views"
    by (simp add: enum)
  finally have views: "read_back c bos s2 = Inr ?views"
    using outputs n by (auto simp: read_back_def each_res_Inr_iff res_bind_Inr_iff)
  have "run_buffers dv art c b s = (Inr ?views, b', s2)"
    using bos w(1) l views by (simp add: run_buffers_def)
  moreover have "map (st_data s2) bos = outs" using out n ln by (intro nth_equalityI) auto
  moreover have "map (read_view s2) ?views = map (\<lambda>i. if int i \<in> set (readback_of c) then outs ! i else []) [0..<?n]"
    using out len by (auto simp: read_view_def)
  ultimately show ?thesis by blast
qed

text \<open>What a call that returns has written, whatever the buffers are: all of an argument that is not skipped, and nothing else.\<close>

lemma write_inputs_returned:
  assumes "write_inputs c first bos i as s = (Inr (), s')" and "distinct bos" and "j < length bos"
  shows "st_data s' (bos ! j) =
    (if i \<le> j \<and> j < i + length as \<and> \<not> skips c first j
     then na_bytes (as ! (j - i)) @ drop (length (na_bytes (as ! (j - i)))) (st_data s (bos ! j)) else st_data s (bos ! j))"
  using assms(1)
proof (induction as arbitrary: i s)
  case (Cons a as)
  show ?case
  proof (cases "skips c first i")
    case True
    with Cons.prems have w: "write_inputs c first bos (Suc i) as s = (Inr (), s')" by simp
    show ?thesis
    proof (cases "j = i")
      case False
      then have "j - i = Suc (j - Suc i)" if "i \<le> j" using that by simp
      with False show ?thesis using Cons.IH [OF w] by (auto simp: Suc_le_eq)
    qed (use True Cons.IH [OF w] in simp)
  next
    case False
    with Cons.prems have i: "i < length bos"
      and w: "write_inputs c first bos (Suc i) as (write_bo (bos ! i) (na_bytes a) s) = (Inr (), s')"
      by (auto split: if_splits)
    show ?thesis
    proof (cases "j = i")
      case True
      then show ?thesis using False Cons.IH [OF w] by (simp add: write_bo_def)
    next
      case ne: False
      then have "bos ! j \<noteq> bos ! i" using assms(2,3) i by (simp add: nth_eq_iff_index_eq)
      moreover have "j - i = Suc (j - Suc i)" if "i \<le> j" using that ne by simp
      ultimately show ?thesis using ne Cons.IH [OF w] by (auto simp: Suc_le_eq write_bo_def)
    qed
  qed
qed auto

text \<open>The contents at the launch, for every buffer of the key.\<close>

definition launch_contents :: "'b call \<Rightarrow> bool \<Rightarrow> nat list \<Rightarrow> 'b bo_store \<Rightarrow> 'b list list" where
  "launch_contents c first bos s =
     map (\<lambda>j. if j < length (ca_inputs c) \<and> \<not> skips c first j
               then na_bytes (ca_inputs c ! j) @ drop (length (na_bytes (ca_inputs c ! j))) (st_data s (bos ! j))
               else st_data s (bos ! j)) [0..<length bos]"

lemma read_back_views:
  assumes "read_back c bos s = Inr views"
  shows "map (read_view s) views = map (\<lambda>i. if int i \<in> set (readback_of c) then take (sizes_of c ! i) (st_data s (bos ! i)) else [])
      [0..<length (ca_inputs c)] \<and> (\<forall>i < length (ca_inputs c). int i \<in> set (readback_of c) \<longrightarrow> i < length bos \<and> sizes_of c ! i \<le> length (st_data s (bos ! i)))"
proof -
  let ?f = "\<lambda>(i, sz). if int i \<notin> set (readback_of c) then Inr None
         else if length bos \<le> i then Inl IndexError
         else if length (st_data s (bos ! i)) < sz then Inl ValueError
         else (Inr (Some (bos ! i, sz)) :: view res)"
  have m: "map_res ?f (List.enumerate 0 (sizes_of c)) = Inr views"
    using assms by (auto simp: read_back_def res_bind_Inr_iff)
  have n: "length (sizes_of c) = length (ca_inputs c)" by (simp add: sizes_of_def)
  then have len: "length views = length (ca_inputs c)" using map_res_length [OF m] by simp
  have at: "?f (i, sizes_of c ! i) = Inr (views ! i)" if "i < length (ca_inputs c)" for i
    using map_res_nth [OF m, of i] that n by (simp add: nth_enumerate_eq)
  have view: "read_view s (views ! i) = (if int i \<in> set (readback_of c) then take (sizes_of c ! i) (st_data s (bos ! i)) else []) \<and>
      (int i \<in> set (readback_of c) \<longrightarrow> i < length bos \<and> sizes_of c ! i \<le> length (st_data s (bos ! i)))"
    if "i < length (ca_inputs c)" for i
    using at [OF that] by (auto simp: read_view_def split: if_splits dest: sym)
  with len show ?thesis by (auto intro!: nth_equalityI)
qed

text \<open>
  C15: what a call computes. Whenever the part of \<open>load_and_run\<close> after the activation returns, on buffers that are distinct (no
  two arguments of the call share one through the pool) and a kernel that leaves as many contents as it is given, it ran the
  kernel once: on the caller's bytes in every buffer that is written, and on the kept contents in those that are skipped
  as static or intermediate, or that have no argument. It leaves in every buffer of the key what the kernel
  leaves there, and in every other buffer what was there before; and it returns for each argument whose index is
  in \<open>output_indices\<close>, counted from the start, the first bytes of what the kernel left, as many as the argument has, and
  nothing for the others.
\<close>

theorem call_computes_kernel:
  assumes "run_buffers dv art c b s = (Inr views, b', s')"
    and "\<forall>bos. bf_bos b' (bo_key_of c) = Some bos \<longrightarrow> distinct bos"
    and "\<forall>args outs. dv_kernel dv art args = Some outs \<longrightarrow> length outs = length args"
  shows "\<exists>bos s0 outs. get_bos dv c b s = (Inr bos, b', s0) \<and>
    dv_kernel dv art (launch_contents c (bf_bos b (bo_key_of c) = None) bos s0) = Some outs \<and>
    map (st_data s') bos = outs \<and> (\<forall>bo < st_next s. bo \<notin> set bos \<longrightarrow> st_data s' bo = st_data s bo) \<and>
    map (read_view s') views =
      map (\<lambda>i. if int i \<in> set (readback_of c) then take (sizes_of c ! i) (outs ! i) else []) [0..<length (ca_inputs c)] \<and>
    (\<forall>i < length (ca_inputs c). int i \<in> set (readback_of c) \<longrightarrow> i < length bos \<and> sizes_of c ! i \<le> length (outs ! i))"
proof -
  let ?first = "bf_bos b (bo_key_of c) = None"
  obtain bos s0 s1 where g: "get_bos dv c b s = (Inr bos, b', s0)" and w: "write_inputs c ?first bos 0 (ca_inputs c) s0 = (Inr (), s1)"
    and l: "launch dv art bos s1 = (Inr (), s')" and r: "read_back c bos s' = Inr views"
    using assms(1) by (auto simp: run_buffers_def Let_def split: prod.splits sum.splits)
  have key: "bf_bos b' (bo_key_of c) = Some bos"
    using g by (auto simp: get_bos_def split: option.splits prod.splits sum.splits)
  then have d: "distinct bos" using assms(2) by blast
  have args: "map (st_data s1) bos = launch_contents c ?first bos s0"
    unfolding launch_contents_def using write_inputs_returned [OF w d] by (intro nth_equalityI) auto
  obtain outs where k: "dv_kernel dv art (map (st_data s1) bos) = Some outs" and s': "s' = store_all bos outs s1"
    using l by (auto simp: launch_def split: option.splits)
  have len: "length outs = length bos" using assms(3) k by fastforce
  have out: "map (st_data s') bos = outs"
    unfolding s' using store_all_nth [OF d len] len by (intro nth_equalityI) auto
  then have nth: "st_data s' (bos ! i) = outs ! i" if "i < length bos" for i using that by auto
  note views = read_back_views [OF r]
  have "map (read_view s') views = map (\<lambda>i. if int i \<in> set (readback_of c) then take (sizes_of c ! i) (outs ! i) else []) [0..<length (ca_inputs c)]"
    using views nth by (auto intro!: nth_equalityI)
  moreover have "changes_only (set bos) s0 s'"
    using write_inputs_frame [OF w] launch_frame [OF l] by (rule changes_only_trans)
  moreover have "extends s s0" using get_bos_extends [OF g] .
  ultimately show ?thesis
    using g k out views nth unfolding args changes_only_def extends_def by (intro exI conjI) auto
qed

text \<open>The second call of a key: the static argument is read from the buffer and not from the caller.\<close>

lemma call_computes_kernel_witness:
  "\<exists>views s'. run_buffers adding_device undefined (add_call ''k'' ''layer0'' [9, 9] [3, 4])
       \<lparr>bf_bos = [''layer0'' \<mapsto> [0, 1, 2]], bf_pool = Map.empty\<rparr>
       \<lparr>st_data = (!) [[10, 20], [0, 0], [7, 7], [5]], st_next = 4\<rparr> =
     (Inr views, \<lparr>bf_bos = [''layer0'' \<mapsto> [0, 1, 2]], bf_pool = Map.empty\<rparr>, s') \<and>
     map (st_data s') [0, 1, 2] = [[10, 20], [3, 4], [13, 24]] \<and> st_data s' 3 = [5] \<and> map (read_view s') views = [[], [], [13, 24]]"
proof -
  let ?c = "add_call ''k'' ''layer0'' [9, 9] [3, 4]"
  let ?b = "\<lparr>bf_bos = [''layer0'' \<mapsto> [0, 1, 2]], bf_pool = Map.empty\<rparr>"
  let ?s = "\<lparr>st_data = (!) [[10, 20], [0, 0], [7, 7], [5 :: int]], st_next = 4\<rparr>"
  have ins: "ca_inputs ?c = [bytes [9, 9], bytes [3, 4], bytes [0, 0]]" and key: "bo_key_of ?c = ''layer0''"
    by (simp_all add: add_call_def bo_key_of_def numeral_2_eq_2)
  have upt: "[0..<3] = [0, 1, 2 :: nat]" by (simp add: upt_rec numeral_2_eq_2 numeral_3_eq_3)
  have out: "readback_of ?c = [2]" by (simp add: readback_of_def add_call_def)
  have args: "launched_with ?c (bf_bos ?b (bo_key_of ?c) = None) [0, 1, 2] ?s = [[10, 20], [3, 4], [7, 7]]"
    unfolding launched_with_def ins key by (simp add: upt skips_def is_static_def add_call_def bytes_def)
  have g: "get_bos adding_device ?c ?b ?s = (Inr [0, 1, 2], ?b, ?s)" by (simp add: get_bos_def key)
  have f: "fits ?c [0, 1, 2] ?s" by (simp add: fits_def sizes_of_def ins bytes_def)
  have k: "dv_kernel adding_device undefined (launched_with ?c (bf_bos ?b (bo_key_of ?c) = None) [0, 1, 2] ?s) = Some [[10, 20], [3, 4], [13, 24]]"
    unfolding args by (simp add: adding_device_def)
  obtain views s' where run: "run_buffers adding_device undefined ?c ?b ?s = (Inr views, ?b, s')"
    using call_on_fitting_buffers [OF g f _ k] by (auto simp: ins out sizes_of_def bytes_def)
  have "\<forall>bos. bf_bos ?b (bo_key_of ?c) = Some bos \<longrightarrow> distinct bos" by (simp add: key)
  moreover have "\<forall>args outs. dv_kernel adding_device undefined args = Some outs \<longrightarrow> length outs = length args"
    by (auto simp: adding_device_def split: list.splits)
  ultimately obtain bos s0 outs where t: "get_bos adding_device ?c ?b ?s = (Inr bos, ?b, s0)"
      "dv_kernel adding_device undefined (launch_contents ?c (bf_bos ?b (bo_key_of ?c) = None) bos s0) = Some outs"
      "map (st_data s') bos = outs" "\<forall>bo < st_next ?s. bo \<notin> set bos \<longrightarrow> st_data s' bo = st_data ?s bo"
      "map (read_view s') views =
         map (\<lambda>i. if int i \<in> set (readback_of ?c) then take (sizes_of ?c ! i) (outs ! i) else []) [0..<length (ca_inputs ?c)]"
    using call_computes_kernel [OF run] by blast
  have bos: "bos = [0, 1, 2]" "s0 = ?s" using t(1) g by simp_all
  have "launch_contents ?c (bf_bos ?b (bo_key_of ?c) = None) [0, 1, 2] ?s = [[10, 20], [3, 4], [7, 7]]"
    unfolding launch_contents_def ins key by (simp add: upt skips_def is_static_def add_call_def bytes_def)
  with t(2) have outs: "outs = [[10, 20], [3, 4], [13, 24]]" by (simp add: bos adding_device_def)
  have "map (read_view s') views = [[], [], [13, 24]]"
    using t(5) unfolding outs ins out by (simp add: upt sizes_of_def ins bytes_def)
  moreover have "st_data s' 3 = [5]" using t(4) by (simp add: bos)
  ultimately show ?thesis using run t(3) by (simp add: bos outs)
qed

section \<open>Where calls depart from their documentation\<close>

text \<open>
  A first call that raises while it writes, here on an array that is not contiguous, leaves its buffers allocated. The next
  call of the key is not a first one: it never writes the static arguments, and the kernel runs on what was there.
\<close>

definition after_failure :: "bufs \<times> int bo_store" where
  "after_failure =
     (\<lparr>bf_bos = [''layer0'' \<mapsto> [0, 1, 2]], bf_pool = Map.empty\<rparr>,
      \<lparr>st_data = (\<lambda>_. [])(0 := [0, 0], 1 := [0, 0], 2 := [0, 0]), st_next = 3\<rparr>)"

lemma interrupted_first_call:
  "run_buffers adding_device art
     ((add_call ''k'' ''layer0'' [10, 20] [3, 4])\<lparr>ca_inputs := [\<lparr>na_bytes = [10, 20], na_contiguous = False\<rparr>, bytes [3, 4], bytes [0, 0]]\<rparr>)
     empty_bufs \<lparr>st_data = \<lambda>_. [], st_next = 0\<rparr> = (Inl ValueError, after_failure)"
  by (simp add: run_buffers_def get_bos_def add_call_def bo_key_of_def empty_bufs_def sizes_of_def bytes_def pooled_def
      alloc_bo_def adding_device_def after_failure_def skips_def numeral_2_eq_2 numeral_3_eq_3 fun_upd_def)
    (simp add: fun_eq_iff)

lemma interrupted_first_call_loses_weights:
  "\<exists>views s'. run_buffers adding_device art (add_call ''k'' ''layer0'' [10, 20] [3, 4]) (fst after_failure) (snd after_failure)
       = (Inr views, fst after_failure, s') \<and> map (read_view s') views = [[], [], [3, 4]]"
  by (simp add: run_buffers_def get_bos_def add_call_def bo_key_of_def after_failure_def bytes_def sizes_of_def skips_def
      is_static_def launch_def adding_device_def read_back_def readback_of_def write_bo_def store_all_def read_view_def
      numeral_2_eq_2 numeral_3_eq_3 nth_Cons')

text \<open>An output index that counts from the end is synced from the device, and its result is empty.\<close>

lemma negative_output_returns_nothing:
  assumes "i < 0" and "readback_of c = [i]" and "read_back c bos s = Inr views"
  shows "views = replicate (length (ca_inputs c)) None"
proof -
  have "\<not> (int j \<in> set [i])" for j using assms(1) by simp
  then have "read_back c bos s = res_bind (each_res (\<lambda>i. res_check (- int (length bos) \<le> i \<and> i < int (length bos)) IndexError) [i])
      (\<lambda>_. map_res (\<lambda>_. Inr None) (List.enumerate 0 (sizes_of c)))"
    unfolding read_back_def assms(2) by (auto intro!: arg_cong2 [where f = res_bind] ext arg_cong2 [where f = map_res])
  moreover have "map_res (\<lambda>_. Inr None) xs = (Inr (replicate (length xs) None) :: view list res)" for xs :: "(nat \<times> nat) list"
    by (induction xs) auto
  ultimately have "res_bind (each_res (\<lambda>i. res_check (- int (length bos) \<le> i \<and> i < int (length bos)) IndexError) [i])
      (\<lambda>_. Inr (replicate (length (ca_inputs c)) None)) = Inr views"
    using assms(3) by (simp add: sizes_of_def)
  then show ?thesis by (auto simp: res_bind_Inr_iff)
qed

end
