(* ===== verification/Kernel_Cache.thy ===== *)
theory Kernel_Cache
  imports Kernel_Buffers
begin

text \<open>
  \<open>KernelCache\<close> as a whole, \<^verbatim>\<open>src/programming_examples/llms/shared/infra/cache.py\<close>: compiling into a cache, its manifest, and
  a process of several caches as a transition system. The theory shows that the contexts stay in the order of last use
  and within the cap, that evicting is invisible in the results, and that a buffer is written only by calls of its own
  key unless it is in the pool.
\<close>

section \<open>Compiling\<close>

text \<open>\<open>Path.suffix\<close>: from the last dot of the last component, unless that dot is its first or last character.\<close>

definition path_suffix :: "string \<Rightarrow> string" where
  "path_suffix s =
     (let base = rev (takeWhile (\<lambda>c. c \<noteq> CHR ''/'') (rev s));
          ext = rev (takeWhile (\<lambda>c. c \<noteq> CHR ''.'') (rev base)) in
      if ext = [] \<or> length base \<le> Suc (length ext) then [] else CHR ''.'' # ext)"

text \<open>
  \<open>compile_and_cache\<close> after \<open>backend.compile\<close>, whose artifact is an argument: the binary is copied under the kernel's name, and
  the instructions where there are some. \<open>exists\<close> says which paths exist.
\<close>

definition cached_artifact :: "(string \<Rightarrow> bool) \<Rightarrow> string \<Rightarrow> string \<Rightarrow> xrt_artifact \<Rightarrow> xrt_artifact" where
  "cached_artifact exists dir name art =
     \<lparr>xa_binary = dir @ ''/'' @ name @ path_suffix (xa_binary art), xa_kernel = xa_kernel art,
      xa_insts = (case xa_insts art of
                    None \<Rightarrow> None
                  | Some f \<Rightarrow> if f \<noteq> [] \<and> exists f then Some (dir @ ''/'' @ name @ ''.insts.bin'') else None)\<rparr>"

definition compile_and_cache :: "(string \<Rightarrow> bool) \<Rightarrow> string \<Rightarrow> xrt_artifact res \<Rightarrow> cache \<Rightarrow> unit res \<times> cache" where
  "compile_and_cache exists name compiled c =
     (case compiled of
        Inl e \<Rightarrow> (Inl e, c)
      | Inr art \<Rightarrow>
          (Inr (), c\<lparr>kc_artifacts := AList.update name (cached_artifact exists (kc_dir c) name art) (kc_artifacts c)\<rparr>))"

section \<open>The manifest\<close>

text \<open>
  \<open>_toolchain_id\<close>: the versions of two distributions, the stamps of two binaries under roots given by the environment, and
  those of the extension libraries. A stamp is a size and a modification time in seconds.
\<close>

definition stamp :: "int \<times> int \<Rightarrow> string" where
  "stamp st = str_int (fst st) @ '':'' @ str_int (snd st)"

definition binary_id :: "string \<Rightarrow> (string \<Rightarrow> (int \<times> int) option) \<Rightarrow> string \<Rightarrow> string" where
  "binary_id root stat rel =
     (if root = [] then ''unset''
      else (case stat (root @ ''/'' @ rel) of None \<Rightarrow> ''missing'' | Some st \<Rightarrow> stamp st))"

text \<open>The libraries found, or the class of the exception that looking for them raised.\<close>

definition libs_id :: "string + (string \<times> int \<times> int) list \<Rightarrow> string" where
  "libs_id libs =
     (case libs of
        Inl e \<Rightarrow> ''?('' @ e @ '')''
      | Inr ls \<Rightarrow> if ls = [] then ''?(FileNotFoundError)'' else join '';'' (map (\<lambda>(nm, st). nm @ '':'' @ stamp st) ls))"

definition toolchain_id ::
  "(string \<Rightarrow> string option) \<Rightarrow> (string \<Rightarrow> string) \<Rightarrow> (string \<Rightarrow> (int \<times> int) option) \<Rightarrow> string + (string \<times> int \<times> int) list \<Rightarrow>
   (string \<times> string) list"
where
  "toolchain_id version env stat libs =
     map (\<lambda>d. (d, case version d of None \<Rightarrow> ''?'' | Some v \<Rightarrow> v)) [''llvm-aie'', ''mlir_aie''] @
     [(''peano_clang'', binary_id (env ''PEANO_INSTALL_DIR'') stat ''bin/clang''),
      (''aie_opt'', binary_id (env ''MLIR_AIE_INSTALL_DIR'') stat ''bin/aie-opt''),
      (''air_lib'', libs_id libs)]"

text \<open>The manifest as data; writing and reading JSON keeps it.\<close>

record manifest =
  mf_toolchain :: "(string \<times> string) list option"
  mf_entries :: "(string \<times> xrt_artifact) list"

definition save_manifest :: "(string \<times> string) list \<Rightarrow> cache \<Rightarrow> manifest" where
  "save_manifest tc c =
     \<lparr>mf_toolchain = Some tc,
      mf_entries = map (\<lambda>(nm, art). (nm, art\<lparr>xa_insts := (if xa_insts art = Some [] then None else xa_insts art)\<rparr>)) (kc_artifacts c)\<rparr>"

fun load_entries ::
  "(string \<Rightarrow> bool) \<Rightarrow> (string \<times> xrt_artifact) list \<Rightarrow> (string \<times> xrt_artifact) list \<Rightarrow> bool \<times> (string \<times> xrt_artifact) list"
where
  "load_entries exists [] arts = (True, arts)"
| "load_entries exists ((nm, art) # es) arts =
     (if exists (xa_binary art) then load_entries exists es (AList.update nm art arts) else (False, arts))"

definition load_manifest :: "(string \<Rightarrow> bool) \<Rightarrow> (string \<times> string) list \<Rightarrow> manifest option \<Rightarrow> cache \<Rightarrow> bool \<times> cache" where
  "load_manifest exists tc file c =
     (case file of
        None \<Rightarrow> (False, c)
      | Some m \<Rightarrow>
          if mf_toolchain m \<noteq> Some tc then (False, c)
          else (case load_entries exists (mf_entries m) (kc_artifacts c) of (ok, arts) \<Rightarrow> (ok, c\<lparr>kc_artifacts := arts\<rparr>)))"

section \<open>A process\<close>

text \<open>
  What can happen in a process: a cache is created, compiles a kernel or loads its manifest, a kernel is run, a cache is
  collected, and the callback of a weak reference to a collected cache runs.
\<close>

datatype 'b event =
    NewCache string "int option" string
  | Compile nat "string \<Rightarrow> bool" string "xrt_artifact res"
  | LoadManifest nat "string \<Rightarrow> bool" "(string \<times> string) list" "manifest option"
  | Run nat "'b call"
  | Collect nat
  | Callback context_key

fun step :: "'b device \<Rightarrow> 'b event \<Rightarrow> 'b process \<Rightarrow> 'b process" where
  "step dv (NewCache dir given env) p = snd (new_cache dir given env p)"
| "step dv (Compile u exists name compiled) p = update_cache u (\<lambda>c. snd (compile_and_cache exists name compiled c)) p"
| "step dv (LoadManifest u exists tc file) p = update_cache u (\<lambda>c. snd (load_manifest exists tc file c)) p"
| "step dv (Run u c) p = snd (load_and_run dv u c p)"
| "step dv (Collect u) p = p\<lparr>caches := (caches p)(u := None)\<rparr>"
| "step dv (Callback (u, n)) p =
     (if caches p u = None then p\<lparr>contexts := filter (\<lambda>k. k \<noteq> (u, n)) (contexts p)\<rparr> else p)"

text \<open>The kernels whose context an event uses.\<close>

fun uses :: "'b device \<Rightarrow> 'b event \<Rightarrow> 'b process \<Rightarrow> context_key list" where
  "uses dv (Run u c) p =
     (if check_aliases c = Inr () \<and> \<not> isl (fst (activate (dv_opens dv) u (ca_name c) p)) then [(u, ca_name c)] else [])"
| "uses dv _ p = []"

definition initial :: "'b process" where
  "initial = \<lparr>contexts = [], caches = Map.empty, next_uid = 0, buffers = \<lparr>st_data = (\<lambda>_. []), st_next = 0\<rparr>\<rparr>"

text \<open>The reachable states, each with the uses that led to it.\<close>

inductive reaches :: "'b device \<Rightarrow> context_key list \<Rightarrow> 'b process \<Rightarrow> bool" for dv where
  start: "reaches dv [] initial"
| event: "reaches dv h p \<Longrightarrow> reaches dv (h @ uses dv ev p) (step dv ev p)"

section \<open>Contexts\<close>

lemma load_and_run_activates:
  assumes "load_and_run dv u c p = (r, p')"
  obtains (refused) "p' = p" "uses dv (Run u c) p = []"
  | (failed) e where "activate (dv_opens dv) u (ca_name c) p = (Inl e, p')" "uses dv (Run u c) p = []" "r = Inl e"
  | (run) kc art q b s where "caches p u = Some kc" "activate (dv_opens dv) u (ca_name c) p = (Inr art, q)"
      "uses dv (Run u c) p = [(u, ca_name c)]" "run_buffers dv art c (kc_bufs kc) (buffers q) = (r, b, s)"
      "p' = update_cache u (\<lambda>kc. kc\<lparr>kc_bufs := b\<rparr>) (q\<lparr>buffers := s\<rparr>)"
proof (cases "caches p u")
  case None
  with assms show thesis by (intro refused) (auto simp: load_and_run_defs activate_def)
next
  case (Some kc)
  note kc = this
  show thesis
  proof (cases "map_of (kc_artifacts kc) (ca_name c) = None \<or> isl (check_aliases c)")
    case True
    with assms kc show thesis
      by (intro refused) (auto simp: load_and_run_defs activate_def isl_def split: if_splits sum.splits)
  next
    case False
    then have chk: "check_aliases c = Inr ()" by (cases "check_aliases c") auto
    obtain r0 q where a: "activate (dv_opens dv) u (ca_name c) p = (r0, q)" by force
    show thesis
    proof (cases r0)
      case (Inl e)
      with assms kc False chk a show thesis by (intro failed) (auto simp: load_and_run_defs)
    next
      case (Inr art)
      obtain r1 b s where "run_buffers dv art c (kc_bufs kc) (buffers p) = (r1, b, s)"
        by (cases "run_buffers dv art c (kc_bufs kc) (buffers p)") auto
      moreover have "buffers q = buffers p" using activate_same_rest [OF a] by (simp add: same_rest_def)
      ultimately show thesis
        using assms kc False chk a Inr by (intro run) (auto simp: load_and_run_defs)
    qed
  qed
qed

lemma by_last_use_cong: "contexts p' = contexts p \<Longrightarrow> by_last_use h p' = by_last_use h p"
  by (simp add: by_last_use_def)

lemma by_last_use_filter:
  assumes "by_last_use h p" and "contexts p' = filter P (contexts p)"
  shows "by_last_use h p'"
proof -
  have "filter P (contexts p) = filter P (filter (\<lambda>x. x \<in> set (contexts p)) (remdups h))"
    using assms(1) by (simp add: by_last_use_def)
  also have "\<dots> = filter (\<lambda>x. x \<in> set (filter P (contexts p))) (remdups h)"
    unfolding filter_filter by (rule filter_cong) auto
  finally show ?thesis unfolding by_last_use_def assms(2) .
qed

lemma tracks_alt:
  "tracks p \<longleftrightarrow> distinct (contexts p) \<and>
     (\<forall>u l n. map_option kc_loaded (caches p u) = Some l \<longrightarrow> (l n \<noteq> None \<longleftrightarrow> (u, n) \<in> set (contexts p)))"
  unfolding tracks_def map_option_eq_Some by blast

lemma update_cache_simps [simp]:
  "contexts (update_cache u f p) = contexts p" "next_uid (update_cache u f p) = next_uid p" "buffers (update_cache u f p) = buffers p"
  "caches (update_cache u f p) v = (if v = u then map_option f (caches p u) else caches p v)"
  by (simp_all add: update_cache_def)

lemma compile_and_cache_loaded [simp]:
  "kc_loaded (snd (compile_and_cache exists name compiled c)) = kc_loaded c"
  "kc_max (snd (compile_and_cache exists name compiled c)) = kc_max c"
  "kc_bufs (snd (compile_and_cache exists name compiled c)) = kc_bufs c"
  by (simp_all add: compile_and_cache_def split: sum.splits)

lemma load_manifest_loaded [simp]:
  "kc_loaded (snd (load_manifest exists tc file c)) = kc_loaded c"
  "kc_max (snd (load_manifest exists tc file c)) = kc_max c"
  "kc_bufs (snd (load_manifest exists tc file c)) = kc_bufs c"
  by (simp_all add: load_manifest_def split: option.splits prod.splits)

text \<open>The contexts are those of loaded kernels, in the order of last use; numbers of caches are not used again.\<close>

definition contexts_ok :: "context_key list \<Rightarrow> 'b process \<Rightarrow> bool" where
  "contexts_ok h p \<longleftrightarrow> tracks p \<and> by_last_use h p \<and> fst ` set (contexts p) \<union> dom (caches p) \<subseteq> {..<next_uid p}"

lemma contexts_ok_cong:
  assumes "contexts_ok h p" and "contexts p' = contexts p" and "next_uid p' = next_uid p"
    and "\<And>u. map_option kc_loaded (caches p' u) = map_option kc_loaded (caches p u)"
  shows "contexts_ok h p'"
proof -
  have "dom (caches p') = dom (caches p)"
    using assms(4) by (metis (no_types, lifting) domIff map_option_is_None set_eqI)
  with assms show ?thesis
    by (simp add: contexts_ok_def tracks_alt by_last_use_cong [OF assms(2)])
qed

lemma same_rest_dom: "same_rest p p' \<Longrightarrow> dom (caches p') = dom (caches p)"
  unfolding same_rest_def by (metis (no_types, lifting) domIff map_option_is_None set_eqI)

lemma evicts_contexts: "evicts p q \<Longrightarrow> set (contexts q) \<subseteq> set (contexts p)"
  by (auto simp: evicts_def dest: in_set_dropD)

lemma activate_contexts:
  assumes "activate opens u name p = (r, p')"
  shows "set (contexts p') \<subseteq> set (contexts p) \<union> (if isl r then {} else {(u, name)})" and "\<not> isl r \<Longrightarrow> u \<in> dom (caches p)"
  using assms
  by (auto elim!: activate_cases simp: update_cache_def insert_context_def dest!: evicts_contexts split: if_splits)

lemma activate_contexts_ok:
  assumes "activate opens u name p = (r, p')" and "contexts_ok h p"
  shows "contexts_ok (if isl r then h else h @ [(u, name)]) p'"
proof -
  have ok: "tracks p" "by_last_use h p" "fst ` set (contexts p) \<union> dom (caches p) \<subseteq> {..<next_uid p}"
    using assms(2) by (simp_all add: contexts_ok_def)
  have dom: "dom (caches p') = dom (caches p)"
    by (rule same_rest_dom [OF activate_same_rest [OF assms(1)]])
  have next': "next_uid p' = next_uid p"
    using activate_same_rest [OF assms(1)] by (simp add: same_rest_def)
  have "fst ` set (contexts p') \<subseteq> fst ` set (contexts p) \<union> dom (caches p)"
    using activate_contexts [OF assms(1)] by (auto split: if_splits)
  then have "fst ` set (contexts p') \<subseteq> {..<next_uid p'}" unfolding next' using ok(3) by (rule subset_trans)
  with ok(3) have "fst ` set (contexts p') \<union> dom (caches p') \<subseteq> {..<next_uid p'}" by (simp add: dom next')
  with activate_tracks [OF assms(1) ok(1)] activate_by_last_use [OF assms(1) ok(1,2)] show ?thesis
    by (simp add: contexts_ok_def)
qed

lemma step_contexts_ok:
  assumes "contexts_ok h p"
  shows "contexts_ok (h @ uses dv ev p) (step dv ev p)"
proof (cases ev)
  case (NewCache dir given env)
  have new: "(next_uid p, n) \<notin> set (contexts p)" for n
    using assms by (force simp: contexts_ok_def)
  let ?q = "step dv ev p"
  have q: "contexts ?q = contexts p" "next_uid ?q = Suc (next_uid p)"
    "caches ?q = caches p \<or> (\<exists>c. kc_loaded c = Map.empty \<and> caches ?q = (caches p)(next_uid p \<mapsto> c))"
    by (auto simp: NewCache new_cache_def Let_def split: sum.splits intro: exI [of _ "\<lparr>kc_dir = d, kc_artifacts = a, kc_loaded = l, kc_max = m, kc_bufs = b\<rparr>" for d a l m b])
  have "dom (caches ?q) \<subseteq> insert (next_uid p) (dom (caches p))" using q(3) by auto
  then have "dom (caches ?q) \<subseteq> {..<next_uid ?q}"
    using assms unfolding q(2) contexts_ok_def lessThan_Suc by blast
  moreover have "fst ` set (contexts ?q) \<subseteq> {..<next_uid ?q}"
    using assms unfolding q(1,2) contexts_ok_def lessThan_Suc by blast
  moreover have "by_last_use h ?q"
    using assms by (simp add: contexts_ok_def by_last_use_cong [OF q(1)])
  moreover have "tracks ?q"
    using q(3) assms new unfolding contexts_ok_def tracks_def q(1) by (elim disjE exE) simp_all
  moreover have "uses dv ev p = []" by (simp add: NewCache)
  ultimately show ?thesis by (simp add: contexts_ok_def)
next
  case (Compile u exists name compiled)
  show ?thesis
    by (rule contexts_ok_cong [of _ p]) (auto simp: Compile assms option.map_comp comp_def)
next
  case (LoadManifest u exists tc m)
  show ?thesis
    by (rule contexts_ok_cong [of _ p]) (auto simp: LoadManifest assms option.map_comp comp_def)
next
  case (Run u c)
  obtain r p' where run: "load_and_run dv u c p = (r, p')" by force
  then show ?thesis
  proof (cases rule: load_and_run_activates)
    case refused
    with assms run show ?thesis by (simp add: Run)
  next
    case (failed e)
    with activate_contexts_ok [OF failed(1) assms] run show ?thesis by (simp add: Run)
  next
    case (run kc art q b s)
    have "contexts_ok (h @ uses dv ev p) q" using activate_contexts_ok [OF run(2) assms] run(3) by (simp add: Run)
    then show ?thesis
      by (rule contexts_ok_cong) (auto simp: Run \<open>load_and_run dv u c p = (r, p')\<close> run(5) option.map_comp comp_def)
  qed
next
  case (Collect u)
  with assms show ?thesis
    by (auto simp: contexts_ok_def tracks_def by_last_use_def)
next
  case (Callback k)
  obtain u n where k: "k = (u, n)" by force
  show ?thesis
  proof (cases "caches p u")
    case None
    let ?p = "p\<lparr>contexts := filter (\<lambda>k. k \<noteq> (u, n)) (contexts p)\<rparr>"
    have "by_last_use h ?p"
      by (rule by_last_use_filter [of h p _ "\<lambda>k. k \<noteq> (u, n)"]) (use assms in \<open>simp_all add: contexts_ok_def\<close>)
    moreover have "tracks ?p"
      unfolding tracks_def
    proof (intro conjI allI impI)
      show "distinct (contexts ?p)" using assms by (simp add: contexts_ok_def tracks_def)
      fix v c m
      assume c: "caches ?p v = Some c"
      then have "v \<noteq> u" "caches p v = Some c" using None by auto
      with assms show "kc_loaded c m \<noteq> None \<longleftrightarrow> (v, m) \<in> set (contexts ?p)"
        by (simp add: contexts_ok_def tracks_iff)
    qed
    moreover have "fst ` set (contexts ?p) \<union> dom (caches ?p) \<subseteq> {..<next_uid ?p}"
      using assms by (auto simp: contexts_ok_def image_subset_iff)
    ultimately show ?thesis using None by (simp add: Callback k contexts_ok_def)
  next
    case (Some c)
    with assms show ?thesis by (simp add: Callback k)
  qed
qed

lemma reaches_contexts_ok: "reaches dv h p \<Longrightarrow> contexts_ok h p"
proof (induction rule: reaches.induct)
  case start
  then show ?case by (simp add: contexts_ok_def initial_def tracks_def by_last_use_def)
qed (rule step_contexts_ok)

section \<open>Evicting the least recently used\<close>

text \<open>The loaded kernels in the order of last use, least recent first.\<close>

definition loaded_by_use :: "context_key list \<Rightarrow> 'b process \<Rightarrow> context_key list" where
  "loaded_by_use h p = filter (\<lambda>(u, n). case caches p u of None \<Rightarrow> False | Some c \<Rightarrow> kc_loaded c n \<noteq> None) (remdups h)"

lemma open_contexts:
  assumes "tracks p" and "by_last_use h p"
  shows "filter (\<lambda>(u, n). caches p u \<noteq> None) (contexts p) = loaded_by_use h p"
proof -
  have "filter (\<lambda>(u, n). caches p u \<noteq> None) (contexts p)
      = filter (\<lambda>(u, n). caches p u \<noteq> None) (filter (\<lambda>k. k \<in> set (contexts p)) (remdups h))"
    using assms(2) by (simp add: by_last_use_def)
  also have "\<dots> = loaded_by_use h p"
    unfolding loaded_by_use_def filter_filter
    using tracks_iff [OF assms(1)] by (intro filter_cong refl) (auto split: prod.splits option.splits)
  finally show ?thesis .
qed

lemma release_from_first:
  assumes "filter (\<lambda>(u, n). cs u \<noteq> None) ks = k # rest" and "distinct ks"
    and "\<And>u c n. cs u = Some c \<Longrightarrow> (u, n) \<in> set ks \<Longrightarrow> kc_loaded c n \<noteq> None"
  shows "\<exists>cs' ks'. release_from cs freed ks = (True, cs', ks') \<and> filter (\<lambda>(u, n). cs' u \<noteq> None) ks' = rest"
  using assms
proof (induction cs freed ks rule: release_from.induct)
  case (2 cs freed u n ks)
  show ?case
  proof (cases "cs u")
    case None
    with "2.prems" have "\<exists>cs' ks'. release_from cs True ks = (True, cs', ks') \<and> filter (\<lambda>(u, n). cs' u \<noteq> None) ks' = rest"
      by (intro "2.IH"(1)) auto
    with None show ?thesis by simp
  next
    case (Some c)
    with "2.prems"(3) [of u c n] obtain a where "kc_loaded c n = Some a" by auto
    moreover have "(\<lambda>(v, m). (cs(u \<mapsto> d)) v \<noteq> None) = (\<lambda>(v, m :: string). cs v \<noteq> None)" for d
      using Some by (auto simp: fun_eq_iff)
    ultimately show ?thesis
      using "2.prems"(1) Some by (auto simp del: fun_upd_apply not_None_eq)
  qed
qed simp

lemma release_from_freed: "fst (release_from cs True ks)"
  by (induction cs True ks rule: release_from.induct) (auto split: option.splits)

lemma release_lru_fails:
  assumes "tracks p"
  shows "\<not> fst (release_lru p) \<longleftrightarrow> contexts p = []"
proof (cases "contexts p")
  case (Cons k ks)
  obtain u n where k: "k = (u, n)" by (cases k)
  have "\<exists>x. kc_loaded c n = Some x" if "caches p u = Some c" for c
    using tracks_iff [OF assms that, of n] Cons k by auto
  then show ?thesis
    using release_from_freed by (auto simp: release_lru_def Cons k split: option.splits prod.splits) (metis fst_conv)+
qed (simp add: release_lru_def)

text \<open>
  C17: eviction takes the least recently used kernel. In every reachable state the table of contexts, but for the entries
  of caches that are gone, lists exactly the loaded kernels by their last use, least recent first. If a kernel is loaded,
  \<open>_release_lru_context\<close> succeeds and unloads exactly the first of them, whatever caches it and the
  others belong to; the rest stays loaded in its order. It fails exactly when the table is empty.
\<close>

theorem evicts_least_recently_used:
  assumes "reaches dv h p"
  shows "filter (\<lambda>(u, n). caches p u \<noteq> None) (contexts p) = loaded_by_use h p \<and>
    (\<forall>k ks. loaded_by_use h p = k # ks \<longrightarrow> fst (release_lru p) \<and> loaded_by_use h (snd (release_lru p)) = ks) \<and>
    (\<not> fst (release_lru p) \<longleftrightarrow> contexts p = [])"
proof -
  have ok: "tracks p" "by_last_use h p" using reaches_contexts_ok [OF assms] by (simp_all add: contexts_ok_def)
  note listed = open_contexts [OF ok]
  have first: "fst (release_lru p) \<and> loaded_by_use h (snd (release_lru p)) = ks" if l: "loaded_by_use h p = k # ks" for k ks
  proof -
    have "filter (\<lambda>(u, n). caches p u \<noteq> None) (contexts p) = k # ks" using listed l by simp
    then obtain cs' ks' where r: "release_from (caches p) False (contexts p) = (True, cs', ks')"
        and "filter (\<lambda>(u, n). cs' u \<noteq> None) ks' = ks"
      using release_from_first [of "caches p" "contexts p" k ks False] ok(1) tracks_iff [OF ok(1)] by (auto simp: tracks_def)
    moreover define p' where "p' = p\<lparr>caches := cs', contexts := ks'\<rparr>"
    ultimately have p': "release_lru p = (True, p')" "filter (\<lambda>(u, n). caches p' u \<noteq> None) (contexts p') = ks"
      by (simp_all add: release_lru_def p'_def)
    then have "evicts p p'" using release_lru_evicts [of p] by simp
    from evicts_by_last_use [OF this ok(2)] this ok(1) have "tracks p'" "by_last_use h p'" by (simp_all add: evicts_def)
    from open_contexts [OF this] p' show ?thesis by simp
  qed
  show ?thesis using listed first release_lru_fails [OF ok(1)] by blast
qed

section \<open>The cap\<close>

fun run_events :: "'b device \<Rightarrow> 'b event list \<Rightarrow> 'b process \<Rightarrow> 'b process" where
  "run_events dv [] p = p"
| "run_events dv (ev # evs) p = run_events dv evs (step dv ev p)"

definition capped :: "nat \<Rightarrow> 'b process \<Rightarrow> bool" where
  "capped k p \<longleftrightarrow> (\<forall>u c. caches p u = Some c \<longrightarrow> kc_max c = k) \<and> length (contexts p) \<le> k"

lemma same_rest_max:
  assumes "same_rest p p'" and "caches p' u = Some c'"
  obtains c where "caches p u = Some c" "kc_max c' = kc_max c"
proof -
  have "map_option fixed (caches p' u) = map_option fixed (caches p u)" using assms(1) unfolding same_rest_def by blast
  then have "map_option fixed (caches p u) = Some (fixed c')" using assms(2) by simp
  then obtain c where "caches p u = Some c" "fixed c = fixed c'" by auto
  with that show thesis by (simp add: fixed_def)
qed

lemma activate_capped:
  assumes "activate opens u name p = (r, p')" and "capped k p" and "0 < k"
  shows "capped k p'"
proof -
  have "length (contexts p') \<le> k" using assms by (intro activate_cap [OF assms(1)]) (auto simp: capped_def)
  moreover have "kc_max c' = k" if "caches p' v = Some c'" for v c'
    using same_rest_max [OF activate_same_rest [OF assms(1)] that] assms(2) by (auto simp: capped_def)
  ultimately show ?thesis by (simp add: capped_def)
qed

lemma step_capped:
  assumes "capped k p" and "0 < k" and "\<And>dir given env. ev = NewCache dir given env \<Longrightarrow> max_contexts_of given env = Inr k"
  shows "capped k (step dv ev p)"
proof (cases ev)
  case (NewCache dir given env)
  with assms show ?thesis by (auto simp: capped_def new_cache_def Let_def)
next
  case (Run u c)
  obtain r p' where run: "load_and_run dv u c p = (r, p')" by force
  then show ?thesis
  proof (cases rule: load_and_run_activates)
    case (run kc art q b s)
    have "capped k q" using activate_capped [OF run(2) assms(1,2)] .
    with run(5) \<open>load_and_run dv u c p = (r, p')\<close> show ?thesis by (auto simp: Run capped_def)
  qed (use assms run activate_capped in \<open>auto simp: Run\<close>)
next
  case (Callback x)
  obtain u n where "x = (u, n)" by force
  with assms show ?thesis by (auto simp: Callback capped_def intro: le_trans [OF length_filter_le])
qed (use assms in \<open>auto simp: capped_def\<close>)

text \<open>
  The cap on contexts holds. If every cache of a process is created with the same positive cap, given as an argument
  or by the environment, then after any sequence of events the process holds no more contexts than that.
\<close>

theorem context_cap_kept:
  assumes "\<And>dir given env. NewCache dir given env \<in> set evs \<Longrightarrow> max_contexts_of given env = Inr k" and "0 < k"
  shows "length (contexts (run_events dv evs initial)) \<le> k"
proof -
  have "capped k p \<Longrightarrow> capped k (run_events dv evs p)" for p
    using assms(1)
  proof (induction evs arbitrary: p)
    case (Cons ev evs)
    have "capped k (step dv ev p)" using Cons.prems by (intro step_capped assms(2)) auto
    then have "capped k (run_events dv evs (step dv ev p))" by (rule Cons.IH) (use Cons.prems(2) in auto)
    then show ?case by simp
  qed simp
  moreover have "capped k initial" by (simp add: capped_def initial_def)
  ultimately show ?thesis by (auto simp: capped_def)
qed

section \<open>Contexts are invisible\<close>

text \<open>
  The process without contexts: what every cache holds bufs_apart from what is loaded, and the buffers. A call on it runs the
  artifact its cache has for the name.
\<close>

type_synonym 'b view_state = "(nat \<rightharpoonup> string \<times> (string \<times> xrt_artifact) list \<times> nat \<times> bufs) \<times> 'b bo_store"

definition forget :: "'b process \<Rightarrow> 'b view_state" where
  "forget p = (\<lambda>u. map_option fixed (caches p u), buffers p)"

definition run_plain :: "'b device \<Rightarrow> nat \<Rightarrow> 'b call \<Rightarrow> 'b view_state \<Rightarrow> view list res \<times> 'b view_state" where
  "run_plain dv u c = (\<lambda>(cs, s).
     case cs u of
       None \<Rightarrow> (Inl AttributeError, cs, s)
     | Some (dir, arts, cap, b) \<Rightarrow>
         (case map_of arts (ca_name c) of
            None \<Rightarrow> (Inl RuntimeError, cs, s)
          | Some art \<Rightarrow>
              (case check_aliases c of
                 Inl e \<Rightarrow> (Inl e, cs, s)
               | Inr _ \<Rightarrow> (case run_buffers dv art c b s of (r, b, s) \<Rightarrow> (r, cs(u \<mapsto> (dir, arts, cap, b)), s)))))"

text \<open>
  What a call asks of the management of contexts: it activates the artifact of the cache, and touches nothing else. The
  condition under which it does survives what a call does to the buffers.
\<close>

locale context_service =
  fixes act :: "nat \<Rightarrow> string \<Rightarrow> 'b process \<Rightarrow> xrt_artifact res \<times> 'b process"
    and good :: "'b process \<Rightarrow> bool"
  assumes serves: "good p \<Longrightarrow> caches p u = Some c \<Longrightarrow> map_of (kc_artifacts c) n = Some a \<Longrightarrow> \<exists>p'. act u n p = (Inr a, p')"
    and keeps: "good p \<Longrightarrow> act u n p = (r, p') \<Longrightarrow> same_rest p p' \<and> good p'"
    and indifferent: "good p \<Longrightarrow> good (update_cache u (\<lambda>kc. kc\<lparr>kc_bufs := b\<rparr>) (p\<lparr>buffers := s\<rparr>))"
begin

lemma run_refines:
  assumes "good p"
  shows "map_prod id forget (load_and_run_with act dv u c p) = run_plain dv u c (forget p)"
    and "good (snd (load_and_run_with act dv u c p))"
proof -
  have "map_prod id forget (load_and_run_with act dv u c p) = run_plain dv u c (forget p) \<and>
    good (snd (load_and_run_with act dv u c p))"
  proof (cases "caches p u")
    case None
    with assms show ?thesis by (simp add: load_and_run_with_def run_plain_def forget_def)
  next
    case (Some kc)
    note kc = this
    show ?thesis
    proof (cases "map_of (kc_artifacts kc) (ca_name c)")
      case None
      with assms kc show ?thesis by (simp add: load_and_run_with_def run_plain_def forget_def fixed_def)
    next
      case (Some a)
      note a = this
      show ?thesis
      proof (cases "check_aliases c")
        case (Inl e)
        with assms kc a show ?thesis by (simp add: load_and_run_with_def run_plain_def forget_def fixed_def)
      next
        case (Inr x)
        obtain q where q: "act u (ca_name c) p = (Inr a, q)" using serves [OF assms kc a] by blast
        note k = keeps [OF assms q]
        obtain r b s where r: "run_buffers dv a c (kc_bufs kc) (buffers p) = (r, b, s)"
          by (cases "run_buffers dv a c (kc_bufs kc) (buffers p)") auto
        have rest: "map_option fixed (caches q v) = map_option fixed (caches p v)" "buffers q = buffers p" for v
          using k by (simp_all add: same_rest_def)
        have "load_and_run_with act dv u c p = (r, update_cache u (\<lambda>kc. kc\<lparr>kc_bufs := b\<rparr>) (q\<lparr>buffers := s\<rparr>))"
          using kc a Inr q r rest(2) by (simp add: load_and_run_with_def)
        moreover have "map_option fixed (map_option (\<lambda>kc. kc\<lparr>kc_bufs := b\<rparr>) (caches q u)) = Some (kc_dir kc, kc_artifacts kc, kc_max kc, b)"
          using rest(1) [of u] kc by (auto simp: fixed_def)
        ultimately show ?thesis
          using kc a Inr r k rest indifferent
          by (auto simp: run_plain_def forget_def fixed_def fun_eq_iff)
      qed
    qed
  qed
  then show "map_prod id forget (load_and_run_with act dv u c p) = run_plain dv u c (forget p)"
    "good (snd (load_and_run_with act dv u c p))" by simp_all
qed

end

text \<open>Every artifact in use loads on a device on which nothing else is open.\<close>

definition loadable_alone :: "(xrt_artifact \<Rightarrow> nat \<Rightarrow> bool) \<Rightarrow> 'b process \<Rightarrow> bool" where
  "loadable_alone opens p \<longleftrightarrow> (\<forall>u c n a. caches p u = Some c \<longrightarrow> map_of (kc_artifacts c) n = Some a \<longrightarrow> opens a 0)"

lemma same_rest_artifacts:
  assumes "same_rest p p'" and "caches p' u = Some c'"
  obtains c where "caches p u = Some c" "kc_artifacts c' = kc_artifacts c"
proof -
  have "map_option fixed (caches p' u) = map_option fixed (caches p u)" using assms(1) unfolding same_rest_def by blast
  then have "map_option fixed (caches p u) = Some (fixed c')" using assms(2) by simp
  then obtain c where "caches p u = Some c" "fixed c = fixed c'" by auto
  with that show thesis by (simp add: fixed_def)
qed

interpretation evicting: context_service "activate opens" "\<lambda>p. tracks p \<and> current p \<and> loadable_alone opens p" for opens
proof
  fix p :: "'b process" and u c n a
  assume "tracks p \<and> current p \<and> loadable_alone opens p" and c: "caches p u = Some c" "map_of (kc_artifacts c) n = Some a"
  then have "tracks p" "current p" "opens a 0" unfolding loadable_alone_def by blast+
  from activate_succeeds [OF this(1,2) c, of opens] this(3) show "\<exists>p'. activate opens u n p = (Inr a, p')" by blast
next
  fix p p' :: "'b process" and u n r
  assume good: "tracks p \<and> current p \<and> loadable_alone opens p" and act: "activate opens u n p = (r, p')"
  have "loadable_alone opens p'"
    unfolding loadable_alone_def
    using same_rest_artifacts [OF activate_same_rest [OF act]] good by (metis loadable_alone_def)
  with good act show "same_rest p p' \<and> tracks p' \<and> current p' \<and> loadable_alone opens p'"
    using activate_same_rest activate_tracks activate_current by blast
next
  fix p :: "'b process" and u b s
  let ?q = "update_cache u (\<lambda>kc. kc\<lparr>kc_bufs := b\<rparr>) (p\<lparr>buffers := s\<rparr>)"
  assume good: "tracks p \<and> current p \<and> loadable_alone opens p"
  have "map_option kc_loaded (caches ?q v) = map_option kc_loaded (caches p v)" for v
    by (cases "caches p v") auto
  then have "tracks ?q" using good by (simp add: tracks_alt)
  with good show "tracks ?q \<and> current ?q \<and> loadable_alone opens ?q"
    by (auto simp: current_def loadable_alone_def)
qed

fun run_calls :: "'b device \<Rightarrow> (nat \<times> 'b call) list \<Rightarrow> 'b process \<Rightarrow> 'b list list res list \<times> 'b process" where
  "run_calls dv [] p = ([], p)"
| "run_calls dv ((u, c) # cs) p =
     (case load_and_run dv u c p of
        (r, p') \<Rightarrow> map_prod ((#) (map_sum id (map (read_view (buffers p'))) r)) id (run_calls dv cs p'))"

fun run_plain_calls :: "'b device \<Rightarrow> (nat \<times> 'b call) list \<Rightarrow> 'b view_state \<Rightarrow> 'b list list res list \<times> 'b view_state" where
  "run_plain_calls dv [] st = ([], st)"
| "run_plain_calls dv ((u, c) # cs) st =
     (case run_plain dv u c st of
        (r, st') \<Rightarrow> map_prod ((#) (map_sum id (map (read_view (snd st'))) r)) id (run_plain_calls dv cs st'))"

text \<open>
  C16: contexts and their eviction are invisible. From any reachable state in which the loaded kernels are those of the
  current artifacts (\<open>recompiled_kernel_stays_loaded\<close> is one where they are not), on a device that can hold each of them alone,
  every sequence of calls on any of the caches gives the results, errors included, and leaves the buffers, of the process that
  has no contexts at all.
\<close>

theorem eviction_invisible:
  assumes "reaches dv h p" and "current p" and "loadable_alone (dv_opens dv) p"
  shows "map_prod id forget (run_calls dv cs p) = run_plain_calls dv cs (forget p)"
proof -
  have "tracks p" using reaches_contexts_ok [OF assms(1)] by (simp add: contexts_ok_def)
  with assms(2,3) have "tracks p \<and> current p \<and> loadable_alone (dv_opens dv) p" by simp
  then show ?thesis
  proof (induction cs arbitrary: p)
    case (Cons uc cs)
    obtain u c where uc: "uc = (u, c)" by force
    obtain r p' where r: "load_and_run dv u c p = (r, p')" by force
    have "run_plain dv u c (forget p) = (r, forget p')"
      using evicting.run_refines(1) [OF Cons.prems, of dv u c] r by (simp add: load_and_run_def)
    moreover have "tracks p' \<and> current p' \<and> loadable_alone (dv_opens dv) p'"
      using evicting.run_refines(2) [OF Cons.prems, of dv u c] r by (simp add: load_and_run_def)
    from Cons.IH [OF this] have "map_prod id forget (run_calls dv cs p') = run_plain_calls dv cs (forget p')" .
    moreover have "snd (forget p') = buffers p'" by (simp add: forget_def)
    ultimately show ?case
      by (cases "run_calls dv cs p'") (auto simp: uc r dest: sym)
  qed simp
qed

section \<open>Buffers of a key\<close>

definition bufs_of :: "'b process \<Rightarrow> nat \<Rightarrow> bufs option" where
  "bufs_of p u = map_option kc_bufs (caches p u)"

text \<open>Caches hold buffers that exist, and none in common.\<close>

definition bufs_apart :: "(nat \<Rightarrow> bufs option) \<Rightarrow> nat \<Rightarrow> bool" where
  "bufs_apart F n \<longleftrightarrow> (\<forall>u b. F u = Some b \<longrightarrow> held b \<subseteq> {..<n} \<and> keys_apart b) \<and>
     (\<forall>u v b b'. F u = Some b \<longrightarrow> F v = Some b' \<longrightarrow> u \<noteq> v \<longrightarrow> held b \<inter> held b' = {})"

lemma apartD:
  assumes "bufs_apart F n" and "F u = Some b"
  shows "held b \<subseteq> {..<n}" "keys_apart b" "\<And>v b'. F v = Some b' \<Longrightarrow> u \<noteq> v \<Longrightarrow> held b \<inter> held b' = {}"
  using assms unfolding bufs_apart_def by blast+

lemma apart_update:
  assumes "bufs_apart F n" and "n \<le> n'" and "keys_apart b'" and "held b' \<subseteq> (case F u of None \<Rightarrow> {} | Some b \<Rightarrow> held b) \<union> {n..<n'}"
  shows "bufs_apart (F(u \<mapsto> b')) n'"
proof -
  have below: "held b \<subseteq> {..<n}" if "F v = Some b" for v b using apartD(1) [OF assms(1) that] .
  have "held b' \<subseteq> {..<n'}" using assms(2,4) below by (fastforce split: option.splits)
  moreover have "held b' \<inter> held b = {}" if "F v = Some b" "v \<noteq> u" for v b
    using assms(4) below [OF that(1)] apartD(3) [OF assms(1) that(1)] that(2) by (fastforce split: option.splits)
  moreover have "held b \<subseteq> {..<n'}" if "F v = Some b" for v b using below [OF that] assms(2) by auto
  ultimately show ?thesis
    using assms(1,3) unfolding bufs_apart_def by (auto split: if_splits)
qed

lemma apart_fewer: "bufs_apart F n \<Longrightarrow> (\<And>u. F' u = F u \<or> F' u = None) \<Longrightarrow> bufs_apart F' n"
  unfolding bufs_apart_def by (metis option.distinct(1))

definition owns :: "'b process \<Rightarrow> nat \<Rightarrow> string \<Rightarrow> nat \<Rightarrow> bool" where
  "owns p u K bo \<longleftrightarrow> (\<exists>b bos. bufs_of p u = Some b \<and> bf_bos b K = Some bos \<and> bo \<in> set bos \<and> bo \<notin> ran (bf_pool b))"

lemma same_rest_bufs: "same_rest p p' \<Longrightarrow> bufs_of p' = bufs_of p"
proof
  fix u
  assume "same_rest p p'"
  then have "map_option fixed (caches p' u) = map_option fixed (caches p u)" by (simp add: same_rest_def)
  then have "map_option (snd \<circ> snd \<circ> snd) (map_option fixed (caches p' u)) = map_option (snd \<circ> snd \<circ> snd) (map_option fixed (caches p u))"
    by simp
  then show "bufs_of p' u = bufs_of p u" by (simp add: bufs_of_def option.map_comp comp_def fixed_def)
qed

text \<open>What a call does to the buffers: nothing, or a run on those of its cache.\<close>

lemma load_and_run_buffers:
  assumes "load_and_run dv v c p = (r, p')"
  obtains (same) "bufs_of p' = bufs_of p" "buffers p' = buffers p"
  | (ran) b art b' s where "bufs_of p v = Some b" "run_buffers dv art c b (buffers p) = (r, b', s)"
      "bufs_of p' = (bufs_of p)(v \<mapsto> b')" "buffers p' = s"
  using assms
proof (cases rule: load_and_run_activates)
  case refused
  with same show thesis by simp
next
  case (failed e)
  from activate_same_rest [OF failed(1)] same show thesis by (simp add: same_rest_bufs same_rest_def)
next
  case (run kc art q b s)
  note rest = activate_same_rest [OF run(2)]
  show thesis
  proof (rule ran)
    show "bufs_of p v = Some (kc_bufs kc)" using run(1) by (simp add: bufs_of_def)
    show "run_buffers dv art c (kc_bufs kc) (buffers p) = (r, b, s)" using run(4) rest by (simp add: same_rest_def)
    have "bufs_of q v \<noteq> None" using run(1) same_rest_bufs [OF rest] by (simp add: bufs_of_def)
    then show "bufs_of p' = (bufs_of p)(v \<mapsto> b)"
      unfolding same_rest_bufs [OF rest, symmetric] run(5)
      by (auto simp: bufs_of_def fun_eq_iff)
  qed (simp add: run(5))
qed

lemma load_and_run_owns:
  assumes "load_and_run dv v c p = (r, p')" and "bufs_apart (bufs_of p) (st_next (buffers p))"
  shows "bufs_apart (bufs_of p') (st_next (buffers p'))"
    and "owns p u K bo \<Longrightarrow> (v, bo_key_of c) \<noteq> (u, K) \<Longrightarrow> owns p' u K bo \<and> st_data (buffers p') bo = st_data (buffers p) bo"
proof -
  have "bufs_apart (bufs_of p') (st_next (buffers p')) \<and>
    (owns p u K bo \<longrightarrow> (v, bo_key_of c) \<noteq> (u, K) \<longrightarrow> owns p' u K bo \<and> st_data (buffers p') bo = st_data (buffers p) bo)"
    using assms(1)
  proof (cases rule: load_and_run_buffers)
    case same
    with assms(2) show ?thesis by (simp add: owns_def)
  next
    case (ran b art b' s)
    note f = run_buffers_frame [OF ran(2) apartD(1,2) [OF assms(2) ran(1)]]
    have "bufs_apart (bufs_of p') (st_next (buffers p'))"
      unfolding ran(3,4) using f(1-3) ran(1) by (intro apart_update [OF assms(2)]) auto
    moreover have "owns p' u K bo \<and> st_data (buffers p') bo = st_data (buffers p) bo"
      if own: "owns p u K bo" and other: "(v, bo_key_of c) \<noteq> (u, K)"
    proof -
      obtain d bos where d: "bufs_of p u = Some d" "bf_bos d K = Some bos" "bo \<in> set bos" "bo \<notin> ran (bf_pool d)"
        using own by (auto simp: owns_def)
      have held: "bo \<in> held d" using d by (auto simp: held_def ran_def)
      then have low: "bo < st_next (buffers p)" using apartD(1) [OF assms(2) d(1)] by auto
      have own': "owns p' u K bo"
      proof (cases "u = v")
        case True
        with ran(1) d(1) have "d = b" by simp
        moreover from this have "bf_bos b' K = Some bos" using f(5) [of K] other True d(2) by auto
        moreover have "bo \<notin> ran (bf_pool b')" using f(4) low d(4) \<open>d = b\<close> by auto
        ultimately show ?thesis using ran(3) True d(3) by (auto simp: owns_def)
      next
        case False
        with ran(3) d show ?thesis by (auto simp: owns_def)
      qed
      have "bo \<notin> set ys" if "bf_bos b' (bo_key_of c) = Some ys" for ys
      proof
        assume bo: "bo \<in> set ys"
        then have "bo \<in> held b'" using that by (auto simp: held_def ran_def)
        show False
        proof (cases "u = v")
          case True
          with own' ran(3) obtain zs where "bf_bos b' K = Some zs" "bo \<in> set zs" "bo \<notin> ran (bf_pool b')"
            by (auto simp: owns_def)
          with keys_apartD [OF f(3) that this(1) _ bo] other True show False by auto
        next
          case False
          with \<open>bo \<in> held b'\<close> f(2) low have "bo \<in> held b" by auto
          with apartD(3) [OF assms(2) d(1) ran(1) False] held show False by auto
        qed
      qed
      then have "st_data s bo = st_data (buffers p) bo" by (intro f(6) [OF low]) auto
      with own' ran(4) show ?thesis by simp
    qed
    ultimately show ?thesis by blast
  qed
  then show "bufs_apart (bufs_of p') (st_next (buffers p'))"
    "owns p u K bo \<Longrightarrow> (v, bo_key_of c) \<noteq> (u, K) \<Longrightarrow> owns p' u K bo \<and> st_data (buffers p') bo = st_data (buffers p) bo"
    by blast+
qed

lemma reaches_apart: "reaches dv h p \<Longrightarrow> bufs_apart (bufs_of p) (st_next (buffers p))"
proof (induction rule: reaches.induct)
  case start
  then show ?case by (simp add: bufs_apart_def bufs_of_def initial_def)
next
  case (event h p ev)
  show ?case
  proof (cases ev)
    case (NewCache dir given env)
    let ?q = "step dv ev p"
    have "bufs_of ?q = bufs_of p \<or> bufs_of ?q = (bufs_of p)(next_uid p \<mapsto> empty_bufs)" "buffers ?q = buffers p"
      by (auto simp: NewCache new_cache_def Let_def bufs_of_def fun_eq_iff split: sum.splits)
    moreover have "held empty_bufs = {}" "keys_apart empty_bufs" by (simp_all add: held_def keys_apart_def empty_bufs_def)
    then have "bufs_apart ((bufs_of p)(next_uid p \<mapsto> empty_bufs)) (st_next (buffers p))"
      by (intro apart_update [OF event.IH]) auto
    ultimately show ?thesis using event.IH by (auto simp del: fun_upd_apply)
  next
    case (Compile u exists name compiled)
    then have "bufs_of (step dv ev p) = bufs_of p" by (auto simp: bufs_of_def fun_eq_iff option.map_comp comp_def)
    with event.IH show ?thesis by (simp add: Compile)
  next
    case (LoadManifest u exists tc m)
    then have "bufs_of (step dv ev p) = bufs_of p" by (auto simp: bufs_of_def fun_eq_iff option.map_comp comp_def)
    with event.IH show ?thesis by (simp add: LoadManifest)
  next
    case (Run u c)
    obtain r p' where run: "load_and_run dv u c p = (r, p')" by force
    with load_and_run_owns(1) [OF run event.IH] show ?thesis by (simp add: Run)
  next
    case (Collect u)
    have "bufs_apart (bufs_of (step dv ev p)) (st_next (buffers p))"
      by (rule apart_fewer [OF event.IH]) (auto simp: Collect bufs_of_def)
    then show ?thesis by (simp add: Collect)
  next
    case (Callback k)
    obtain u n where "k = (u, n)" by force
    with event.IH show ?thesis by (simp add: Callback bufs_of_def)
  qed
qed

text \<open>
  The buffers of a key are its own. In any reachable state a buffer that a cache holds under a key, and that is not
  in its pool, keeps its contents through every sequence of calls, of this cache or another, that use other keys. So the
  weights written by the first call of a layer are there for its next one.
\<close>

theorem key_buffers_kept:
  assumes "reaches dv h p" and "owns p u K bo" and "\<forall>(v, c) \<in> set cs. (v, bo_key_of c) \<noteq> (u, K)"
  shows "st_data (buffers (snd (run_calls dv cs p))) bo = st_data (buffers p) bo"
proof -
  have "bufs_apart (bufs_of p) (st_next (buffers p))" by (rule reaches_apart [OF assms(1)])
  with assms(2,3) show ?thesis
  proof (induction cs arbitrary: p)
    case (Cons vc cs)
    obtain v c where vc: "vc = (v, c)" by force
    obtain r p' where r: "load_and_run dv v c p = (r, p')" by force
    note o1 = load_and_run_owns(1) [OF r Cons.prems(3)] and o2 = load_and_run_owns(2) [OF r Cons.prems(3), of u K bo]
    have p': "owns p' u K bo \<and> st_data (buffers p') bo = st_data (buffers p) bo"
      using o2 Cons.prems(1,2) by (auto simp: vc)
    have "st_data (buffers (snd (run_calls dv cs p'))) bo = st_data (buffers p') bo"
      using p' o1 Cons.prems(2) by (intro Cons.IH) auto
    with p' show ?case by (simp add: vc r)
  qed simp
qed

section \<open>Restoring a cache from its manifest\<close>

lemma load_entries_all:
  assumes "\<And>nm art. (nm, art) \<in> set es \<Longrightarrow> exists (xa_binary art)" and "distinct (map fst (arts @ es))"
  shows "load_entries exists es arts = (True, arts @ es)"
  using assms
proof (induction es arbitrary: arts)
  case (Cons e es)
  obtain nm art where e: "e = (nm, art)" by force
  have "AList.update nm art arts = arts @ [(nm, art)]"
    using Cons.prems(2) by (intro update_new) (auto simp: e)
  moreover have "exists (xa_binary art)" by (rule Cons.prems(1) [of nm]) (simp add: e)
  moreover have "load_entries exists es (arts @ [(nm, art)]) = (True, (arts @ [(nm, art)]) @ es)"
    using Cons.prems by (intro Cons.IH) (auto simp: e)
  ultimately show ?case by (simp add: e)
qed simp

text \<open>
  The manifest restores a cache. Loading what \<open>_save_manifest\<close> wrote, under the same toolchain and with every binary
  still there, gives a new cache exactly the artifacts that were compiled, in their order.
\<close>

theorem manifest_restores:
  assumes "distinct (map fst (kc_artifacts c))"
    and "\<And>nm art. (nm, art) \<in> set (kc_artifacts c) \<Longrightarrow> exists (xa_binary art) \<and> xa_insts art \<noteq> Some []"
  shows "load_manifest exists tc (Some (save_manifest tc c)) (c\<lparr>kc_artifacts := []\<rparr>) = (True, c)"
proof -
  let ?es = "mf_entries (save_manifest tc c)"
  have es: "?es = kc_artifacts c"
    using assms(2) by (auto simp: save_manifest_def intro!: map_idI)
  have "load_entries exists ?es [] = (True, [] @ ?es)"
    unfolding es using assms by (intro load_entries_all) auto
  then have "load_entries exists (kc_artifacts c) [] = (True, kc_artifacts c)" by (simp add: es)
  then show ?thesis
    by (simp add: load_manifest_def es) (simp add: save_manifest_def)
qed

definition compiled_cache :: cache where
  "compiled_cache =
     \<lparr>kc_dir = ''cache'', kc_artifacts = [], kc_loaded = Map.empty, kc_max = 0, kc_bufs = empty_bufs\<rparr>"

definition elf :: "string \<Rightarrow> xrt_artifact" where
  "elf name = \<lparr>xa_binary = name @ ''.elf'', xa_kernel = ''main'', xa_insts = None\<rparr>"

lemma manifest_restores_witness:
  "let c = snd (compile_and_cache (\<lambda>_. True) ''k2'' (Inr (elf ''air''))
              (snd (compile_and_cache (\<lambda>_. True) ''k1'' (Inr (elf ''air'')) compiled_cache)))
   in map fst (kc_artifacts c) = [''k1'', ''k2''] \<and>
      load_manifest (\<lambda>_. True) [] (Some (save_manifest [] c)) (c\<lparr>kc_artifacts := []\<rparr>) = (True, c)"
proof -
  let ?c = "snd (compile_and_cache (\<lambda>_. True) ''k2'' (Inr (elf ''air''))
              (snd (compile_and_cache (\<lambda>_. True) ''k1'' (Inr (elf ''air'')) compiled_cache)))"
  have arts: "kc_artifacts ?c = [(''k1'', cached_artifact (\<lambda>_. True) ''cache'' ''k1'' (elf ''air'')),
      (''k2'', cached_artifact (\<lambda>_. True) ''cache'' ''k2'' (elf ''air''))]"
    by (simp add: compile_and_cache_def compiled_cache_def)
  have "load_manifest (\<lambda>_. True) [] (Some (save_manifest [] ?c)) (?c\<lparr>kc_artifacts := []\<rparr>) = (True, ?c)"
    by (rule manifest_restores; unfold arts) (auto simp: cached_artifact_def elf_def)
  then show ?thesis by (simp add: Let_def arts del: not_None_eq)
qed

text \<open>Another toolchain leaves the cache as it was; a binary that is gone leaves the entries before it.\<close>

lemma other_toolchain_refused:
  "mf_toolchain m \<noteq> Some tc \<Longrightarrow> load_manifest exists tc (Some m) c = (False, c)"
  by (simp add: load_manifest_def)

lemma missing_binary_keeps_entries:
  "load_entries (\<lambda>f. f = ''k1.elf'') [(''k1'', elf ''k1''), (''k2'', elf ''k2'')] [] = (False, [(''k1'', elf ''k1'')])"
  by (simp add: elf_def)

section \<open>An example process\<close>

text \<open>A cache with two kernels, of which the device holds one at a time.\<close>

definition two_kernels :: "int event list" where
  "two_kernels = [NewCache ''cache'' (Some 0) [], Compile 0 (\<lambda>_. True) ''k1'' (Inr (elf ''air'')),
     Compile 0 (\<lambda>_. True) ''k2'' (Inr (elf ''air''))]"

definition two_kernels_state :: "int process" where
  "two_kernels_state = run_events adding_device two_kernels initial"

lemma run_events_reaches:
  assumes "reaches dv h p"
  shows "\<exists>h'. reaches dv (h @ h') (run_events dv evs p)"
  using assms
proof (induction evs arbitrary: h p)
  case Nil
  then show ?case by (intro exI [of _ "[]"]) simp
next
  case (Cons ev evs)
  from Cons.IH [OF reaches.event [OF Cons.prems]] show ?case by auto
qed

lemma two_kernels_cache:
  "caches two_kernels_state = [0 \<mapsto> compiled_cache\<lparr>kc_artifacts :=
     [(''k1'', cached_artifact (\<lambda>_. True) ''cache'' ''k1'' (elf ''air'')), (''k2'', cached_artifact (\<lambda>_. True) ''cache'' ''k2'' (elf ''air''))]\<rparr>]"
  "buffers two_kernels_state = \<lparr>st_data = (\<lambda>_. []), st_next = 0\<rparr>"
  by (auto simp: two_kernels_state_def two_kernels_def initial_def new_cache_def max_contexts_of_def compile_and_cache_def
      compiled_cache_def update_cache_def fun_eq_iff)

lemma two_kernels_reached: obtains h where "reaches adding_device h two_kernels_state"
  using run_events_reaches [OF reaches.start, of adding_device two_kernels] by (auto simp: two_kernels_state_def)

definition alternating :: "(nat \<times> int call) list" where
  "alternating = [(0, add_call ''k1'' ''layer0'' [10, 20] [1, 2]), (0, add_call ''k2'' ''layer1'' [30, 40] [1, 2]),
     (0, add_call ''k1'' ''layer0'' [] [5, 6]), (0, add_call ''k3'' ''layer0'' [] [5, 6])]"

text \<open>The two kernels evict each other, and the third call still finds the weights of the first.\<close>

lemma eviction_invisible_witness:
  "fst (run_calls adding_device alternating two_kernels_state) =
     [Inr [[], [], [11, 22]], Inr [[], [], [31, 42]], Inr [[], [], [15, 26]], Inl RuntimeError]"
proof -
  obtain h where h: "reaches adding_device h two_kernels_state" by (rule two_kernels_reached)
  have "current two_kernels_state" by (simp add: current_def two_kernels_cache compiled_cache_def)
  moreover have "loadable_alone (dv_opens adding_device) two_kernels_state"
    by (simp add: loadable_alone_def adding_device_def)
  ultimately have e: "map_prod id forget (run_calls adding_device alternating two_kernels_state)
      = run_plain_calls adding_device alternating (forget two_kernels_state)"
    by (rule eviction_invisible [OF h])
  have "fst (run_plain_calls adding_device alternating (forget two_kernels_state)) =
      [Inr [[], [], [11, 22]], Inr [[], [], [31, 42]], Inr [[], [], [15, 26]], Inl RuntimeError]"
    unfolding forget_def two_kernels_cache by code_simp
  with arg_cong [OF e, of fst] show ?thesis by simp
qed

text \<open>On a device with room for both kernels, the second is the next to go after the first was used again.\<close>

definition wide_device :: "int device" where
  "wide_device = adding_device\<lparr>dv_opens := (\<lambda>_ n. n < 8)\<rparr>"

definition bare_call :: "string \<Rightarrow> int call" where
  "bare_call name =
     \<lparr>ca_name = name, ca_inputs = [], ca_outputs = Some [], ca_static = [], ca_intermediate = [], ca_key = None,
      ca_shared = False, ca_alias = [], ca_resident = False\<rparr>"

definition three_uses :: "int event list" where
  "three_uses = two_kernels @ [Run 0 (bare_call ''k1''), Run 0 (bare_call ''k2''), Run 0 (bare_call ''k1'')]"

definition layer_run :: "int event list" where
  "layer_run = two_kernels @ [Run 0 (add_call ''k1'' ''layer0'' [10, 20] [1, 2])]"

fun history :: "'b device \<Rightarrow> 'b event list \<Rightarrow> 'b process \<Rightarrow> context_key list" where
  "history dv [] p = []"
| "history dv (ev # evs) p = uses dv ev p @ history dv evs (step dv ev p)"

lemma run_events_history:
  "reaches dv h p \<Longrightarrow> reaches dv (h @ history dv evs p) (run_events dv evs p)"
proof (induction evs arbitrary: h p)
  case (Cons ev evs)
  from Cons.IH [OF reaches.event [OF Cons.prems, of ev]] show ?case by simp
qed simp

lemma evicts_least_recently_used_witness:
  "let h = history wide_device three_uses initial; p = run_events wide_device three_uses initial in
     h = [(0, ''k1''), (0, ''k2''), (0, ''k1'')] \<and> loaded_by_use h p = [(0, ''k2''), (0, ''k1'')] \<and>
     filter (\<lambda>(u, n). caches p u \<noteq> None) (contexts p) = [(0, ''k2''), (0, ''k1'')] \<and>
     fst (release_lru p) \<and> loaded_by_use h (snd (release_lru p)) = [(0, ''k1'')]"
proof -
  let ?p = "run_events wide_device three_uses initial"
  have h: "history wide_device three_uses initial = [(0, ''k1''), (0, ''k2''), (0, ''k1'')]"
    by code_simp
  have "loaded_by_use [(0, ''k1''), (0, ''k2''), (0, ''k1'')] ?p = [(0, ''k2''), (0, ''k1'')]"
    by code_simp
  moreover have "reaches wide_device [(0, ''k1''), (0, ''k2''), (0, ''k1'')] ?p"
    using run_events_history [OF reaches.start, of wide_device three_uses] h by simp
  note evicts_least_recently_used [OF this]
  ultimately show ?thesis unfolding h Let_def by auto
qed

lemma context_cap_kept_witness:
  "length (contexts (run_events wide_device (NewCache ''cache'' None '' 1 '' # tl three_uses) initial)) \<le> 1"
  by (rule context_cap_kept)
    (auto simp: three_uses_def two_kernels_def max_contexts_of_def strip_def is_space_def parse_int_def)

lemma layer_run_bufs:
  "fst (snd (run_buffers wide_device art (add_call ''k1'' ''layer0'' [10, 20] [1, 2]) empty_bufs \<lparr>st_data = \<lambda>_. [], st_next = 0\<rparr>))
     = \<lparr>bf_bos = [''layer0'' \<mapsto> [0, 1, 2]], bf_pool = Map.empty\<rparr>"
  by (simp add: run_buffers_def get_bos_def add_call_def bo_key_of_def empty_bufs_def sizes_of_def bytes_def pooled_def
      alloc_bo_def wide_device_def adding_device_def skips_def is_static_def launch_def numeral_2_eq_2 split: prod.splits sum.splits)

lemma key_buffers_kept_witness:
  "st_data (buffers (snd (run_calls wide_device [(0, add_call ''k2'' ''layer1'' [30, 40] [1, 2])]
      (run_events wide_device layer_run initial)))) 0 = [10, 20]"
proof -
  let ?p = "run_events wide_device layer_run initial"
  have r: "reaches wide_device (history wide_device layer_run initial) ?p"
    using run_events_history [OF reaches.start, of wide_device layer_run] by simp
  have c: "current two_kernels_state" "loadable_alone (dv_opens wide_device) two_kernels_state"
    by (simp_all add: current_def loadable_alone_def two_kernels_cache compiled_cache_def wide_device_def)
  obtain h where "reaches adding_device h two_kernels_state" by (rule two_kernels_reached)
  then have "tracks two_kernels_state" using reaches_contexts_ok by (auto simp: contexts_ok_def)
  with c have "run_plain wide_device 0 (add_call ''k1'' ''layer0'' [10, 20] [1, 2]) (forget two_kernels_state)
      = map_prod id forget (load_and_run wide_device 0 (add_call ''k1'' ''layer0'' [10, 20] [1, 2]) two_kernels_state)"
    unfolding load_and_run_def by (intro evicting.run_refines(1) [symmetric]) simp
  moreover have "?p = snd (load_and_run wide_device 0 (add_call ''k1'' ''layer0'' [10, 20] [1, 2]) two_kernels_state)"
    by (simp add: layer_run_def two_kernels_state_def two_kernels_def)
  ultimately have p: "forget ?p = snd (run_plain wide_device 0 (add_call ''k1'' ''layer0'' [10, 20] [1, 2]) (forget two_kernels_state))"
    by (simp add: snd_map_prod)
  have "forget two_kernels_state = ([0 \<mapsto> (''cache'', kc_artifacts (the (caches two_kernels_state 0)), 0, empty_bufs)], \<lparr>st_data = (\<lambda>_. []), st_next = 0\<rparr>)"
    by (auto simp: forget_def two_kernels_cache fixed_def compiled_cache_def fun_eq_iff)
  then have "\<exists>arts. fst (forget ?p) 0 = Some (''cache'', arts, 0, \<lparr>bf_bos = [''layer0'' \<mapsto> [0, 1, 2]], bf_pool = Map.empty\<rparr>)"
    unfolding p
    using layer_run_bufs [of "cached_artifact (\<lambda>_. True) ''cache'' ''k1'' (elf ''air'')"]
    by (auto simp: run_plain_def two_kernels_cache compiled_cache_def check_aliases_def add_call_def split: prod.splits)
  then have o: "owns ?p 0 ''layer0'' 0"
    by (auto simp: owns_def bufs_of_def forget_def fixed_def)
  have d: "st_data (buffers ?p) 0 = [10, 20]" by code_simp
  from key_buffers_kept [OF r o, of "[(0, add_call ''k2'' ''layer1'' [30, 40] [1, 2])]"] show ?thesis
    unfolding d by (simp add: bo_key_of_def add_call_def)
qed

section \<open>Where the cache departs from its documentation\<close>

text \<open>Compiling a kernel again under a name that is loaded does not unload it: calls keep running the old binary.\<close>

lemma recompiled_kernel_stays_loaded:
  assumes "tracks p" and "caches p u = Some c" and "kc_loaded c name = Some old"
  shows "fst (activate opens u name (step dv (Compile u exists name (Inr art)) p)) = Inr old"
proof -
  have "(u, name) \<in> set (contexts p)" using assms by (simp add: tracks_iff)
  then show ?thesis
    using assms(2,3) by (simp add: activate_def move_to_end_def compile_and_cache_def update_conv)
qed

text \<open>The pool of shared buffers is called process-wide, but it is an attribute of each cache: two caches share no buffer.\<close>

lemma pools_not_process_wide:
  assumes "reaches dv h p" and "caches p u = Some c" and "caches p v = Some d" and "u \<noteq> v"
  shows "ran (bf_pool (kc_bufs c)) \<inter> ran (bf_pool (kc_bufs d)) = {}"
proof -
  have "bufs_of p u = Some (kc_bufs c)" "bufs_of p v = Some (kc_bufs d)" using assms(2,3) by (simp_all add: bufs_of_def)
  with apartD(3) [OF reaches_apart [OF assms(1)] this(1) this(2) assms(4)] show ?thesis by (auto simp: held_def)
qed

end
