(* ===== verification/Bfp16.thy ===== *)
theory Bfp16
  imports Prelude "HOL-Library.Word" Complex_Main
begin

text \<open>
  Block floating point: the bfp16ebs8 packers, unpackers and tile shuffles of
  \<^verbatim>\<open>src/programming_examples/matrix_multiplication/bfp16/bfp16_utils.py\<close> and
  \<^verbatim>\<open>src/programming_examples/matrix_multiplication/bf16_x_bfp16/matmul_bf16_x_bfp16.py\<close>. Eight floats share the largest
  of their exponents and keep eight bits of two's complement each. The floats that are packed are their 32 bits; a float that is
  computed by unpacking is its value, a rational or an infinity. The theory shows that packing rounds
  every element down to the grid of its block, that the packed matrix operand reads back element by element, and that
  unshuffling undoes shuffling.
\<close>

unbundle bit_operations_syntax

section \<open>Packing\<close>

text \<open>The fields of a float: its sign, the biased exponent, and the mantissa with the leading one of a normal number.\<close>

definition f32_sign :: "32 word \<Rightarrow> bool" where
  "f32_sign w \<longleftrightarrow> w AND 0x80000000 \<noteq> 0"

definition f32_exp :: "32 word \<Rightarrow> int" where
  "f32_exp w = uint (drop_bit 23 w AND 0xFF)"

definition f32_mant :: "32 word \<Rightarrow> 32 word" where
  "f32_mant w = (w AND 0x007FFFFF) OR (if f32_exp w \<noteq> 0 then 0x00800000 else 0)"

text \<open>\<open>signed_mant\<close> as an int64, and its upper bits truncated to an int8.\<close>

definition signed_mant :: "32 word \<Rightarrow> int" where
  "signed_mant w = (if f32_sign w then uint ((NOT (f32_mant w) + 1) AND 0xFFFFFFFF) else uint (f32_mant w))"

definition top_byte :: "int \<Rightarrow> int" where
  "top_byte s = sint (word_of_int (drop_bit (23 - 7 + 1) s) :: 8 word)"

definition align_mant :: "int \<Rightarrow> 32 word \<Rightarrow> int \<Rightarrow> 8 word" where
  "align_mant max_exp w s =
     (let shift = max_exp - f32_exp w in
      word_of_int (if 32 \<le> shift then (if f32_sign w then -1 else 0) else drop_bit (nat (min shift 31)) (top_byte s)))"

text \<open>One record: the shared exponent and eight mantissas.\<close>

definition max_exp :: "32 word list \<Rightarrow> int" where
  "max_exp ws = Max (set (map f32_exp ws))"

definition pack_block :: "32 word list \<Rightarrow> 8 word list" where
  "pack_block ws = word_of_int (max_exp ws) # map (\<lambda>w. align_mant (max_exp ws) w (signed_mant w)) ws"

text \<open>Consecutive blocks, as a reshape to \<open>[-1, n]\<close> has them.\<close>

fun blocks_of :: "nat \<Rightarrow> 'a list \<Rightarrow> 'a list list" where
  "blocks_of n xs = (if n = 0 \<or> xs = [] then [] else take n xs # blocks_of n (drop n xs))"

declare blocks_of.simps [simp del]

text \<open>The array is its last dimension and its elements in row-major order.\<close>

definition nbytes_bfp :: "nat \<Rightarrow> nat res" where
  "nbytes_bfp n = (if n mod 8 \<noteq> 0 then Inl AssertionError else Inr (n div 8 * 9))"

definition float_to_bfp16ebs8 :: "nat \<times> 32 word list \<Rightarrow> (nat \<times> 8 word list) res" where
  "float_to_bfp16ebs8 x =
     (if fst x mod 8 \<noteq> 0 then Inl AssertionError
      else Inr (fst x div 8 * 9, concat (map pack_block (blocks_of 8 (snd x)))))"

text \<open>The scalar packer of the matrix multiplication works on int64, so its negation does not wrap at 32 bits.\<close>

definition signed_mant64 :: "32 word \<Rightarrow> int" where
  "signed_mant64 w =
     (let mant_explicit = uint (w AND 0x007FFFFF) OR (if f32_exp w \<noteq> 0 then 0x00800000 else 0) in
      if f32_sign w then (NOT mant_explicit + 1) AND 0xFFFFFFFF else mant_explicit)"

definition bf16_block_to_bfp16ebs8 :: "32 word list \<Rightarrow> 8 word list" where
  "bf16_block_to_bfp16ebs8 ws = word_of_int (max_exp ws) # map (\<lambda>w. align_mant (max_exp ws) w (signed_mant64 w)) ws"

section \<open>Unpacking\<close>

text \<open>\<open>np.ldexp(1.0, shared_exp - 127 - 6)\<close>; the reference of the matrix multiplication writes it with shifts.\<close>

definition block_unit :: "int \<Rightarrow> rat" where
  "block_unit e = (if 133 \<le> e then 2 ^ nat (e - 133) else 1 / 2 ^ nat (133 - e))"

definition shifted_unit :: "int \<Rightarrow> rat" where
  "shifted_unit e = (if 127 \<le> e then of_int (push_bit (nat (e - 127)) 1) else 1 / of_int (push_bit (nat (127 - e)) 1)) / 64"

text \<open>
  The float32 product of an int8 and such a power of two: it has at most eight significant bits and is a multiple of the
  smallest float (\<open>product_in_format\<close>), so it is exact unless it leaves the range, where it is an infinity.
\<close>

datatype f32_val = Finite rat | PosInf | NegInf

definition f32_of :: "rat \<Rightarrow> f32_val" where
  "f32_of x = (if 2 ^ 128 \<le> x then PosInf else if x \<le> - (2 ^ 128) then NegInf else Finite x)"

definition unpack_block :: "8 word list \<Rightarrow> f32_val list" where
  "unpack_block r = map (\<lambda>b. f32_of (of_int (sint b) * block_unit (uint (hd r)))) (tl r)"

definition bfp16ebs8_to_float :: "nat \<times> 8 word list \<Rightarrow> (nat \<times> f32_val list) res" where
  "bfp16ebs8_to_float b =
     (if fst b mod 9 \<noteq> 0 then Inl AssertionError
      else Inr (fst b div 9 * 8, concat (map unpack_block (blocks_of 9 (snd b)))))"

section \<open>Values\<close>

text \<open>The value of a float that is finite.\<close>

definition f32_int :: "32 word \<Rightarrow> int" where
  "f32_int w = (if f32_sign w then - uint (f32_mant w) else uint (f32_mant w))"

definition f32_value :: "32 word \<Rightarrow> rat" where
  "f32_value w = of_int (f32_int w) * 2 ^ nat (max 1 (f32_exp w)) / 2 ^ 150"

text \<open>A finite number that the format rounds: normal, or the positive zero.\<close>

definition plain_float :: "32 word \<Rightarrow> bool" where
  "plain_float w \<longleftrightarrow> f32_exp w < 255 \<and> (f32_exp w \<noteq> 0 \<or> w = 0)"

lemma units_agree: "0 \<le> e \<Longrightarrow> shifted_unit e = block_unit e"
proof -
  assume "0 \<le> e"
  consider "133 \<le> e" | "127 \<le> e" "e < 133" | "e < 127" by linarith
  then show ?thesis
  proof cases
    case 1
    then have "nat (e - 127) = nat (e - 133) + 6" by simp
    with 1 show ?thesis by (simp add: shifted_unit_def block_unit_def push_bit_eq_mult power_add)
  next
    case 2
    then have "nat (e - 127) + nat (133 - e) = 6" by simp
    then have "(2 :: rat) ^ nat (e - 127) * 2 ^ nat (133 - e) = 2 ^ 6" by (metis power_add)
    with 2 show ?thesis by (simp add: shifted_unit_def block_unit_def push_bit_eq_mult field_simps)
  next
    case 3
    then have "nat (133 - e) = nat (127 - e) + 6" by simp
    with 3 show ?thesis by (simp add: shifted_unit_def block_unit_def push_bit_eq_mult power_add)
  qed
qed

lemma block_unit_power: "0 \<le> e \<Longrightarrow> block_unit e = 2 ^ nat e / 2 ^ 133"
proof -
  assume e: "0 \<le> e"
  show ?thesis
  proof (cases "133 \<le> e")
    case True
    then have "nat e = nat (e - 133) + 133" by simp
    then have "(2 :: rat) ^ nat e = 2 ^ nat (e - 133) * 2 ^ 133" by (metis power_add)
    with True show ?thesis by (simp add: block_unit_def)
  next
    case False
    with e have "133 = nat e + nat (133 - e)" by simp
    then have "(2 :: rat) ^ 133 = 2 ^ nat e * 2 ^ nat (133 - e)" by (metis power_add)
    with False show ?thesis by (simp add: block_unit_def field_simps del: power_numeral)
  qed
qed

text \<open>A product that the unpackers compute is a significand of fewer than 24 bits times a power of two from the smallest on.\<close>

lemma product_in_format:
  fixes b :: "8 word"
  assumes "0 \<le> e"
  shows "\<exists>i k. of_int (sint b) * block_unit e = of_int i * 2 ^ k / (2 ^ 149 :: rat) \<and> \<bar>i\<bar> < 2 ^ 24"
proof (intro exI conjI)
  have "(2 :: rat) ^ (nat e + 16) = 2 ^ nat e * 2 ^ 16" by (simp add: power_add)
  then show "of_int (sint b) * block_unit e = of_int (sint b) * 2 ^ (nat e + 16) / (2 ^ 149 :: rat)"
    by (simp add: block_unit_power [OF assms])
  have "- (2 ^ 7) \<le> sint b" "sint b < 2 ^ 7" using sint_range_size [of b] by (simp_all add: word_size)
  then show "\<bar>sint b\<bar> < 2 ^ 24" by simp
qed

section \<open>Rounding down\<close>

lemma f32_exp_mod: "f32_exp w = uint w div 2 ^ 23 mod 2 ^ 8"
proof -
  have m: "(0xFF :: 32 word) = mask 8" by (simp add: mask_eq_exp_minus_1)
  have t: "take_bit 32 (uint w) = uint w" using uint_lt2p [of w] by (simp add: take_bit_int_eq_self)
  show ?thesis
    unfolding f32_exp_def m take_bit_eq_mask [symmetric] unsigned_take_bit_eq
    by (simp add: unsigned_drop_bit_eq t take_bit_eq_mod [of 8 "_ :: int"] drop_bit_eq_div [of 23 "_ :: int"])
qed

lemma f32_exp_bounds: "0 \<le> f32_exp w" "f32_exp w < 256"
  by (simp_all add: f32_exp_mod)

lemma low_bits: "uint (w AND 0x007FFFFF :: 32 word) = take_bit 23 (uint w)"
proof -
  have m: "(0x007FFFFF :: 32 word) = mask 23" by (simp add: mask_eq_exp_minus_1)
  show ?thesis unfolding m take_bit_eq_mask [symmetric] by (simp add: unsigned_take_bit_eq)
qed

lemma leading_one: "take_bit 23 i OR 0x00800000 = take_bit 23 i + (0x00800000 :: int)"
proof -
  have "take_bit 23 i + 2 ^ 23 = take_bit 23 i OR (2 ^ 23 :: int)"
  proof (rule disjunctive_add)
    fix n
    show "\<not> bit (take_bit 23 i) n \<or> \<not> bit (2 ^ 23 :: int) n"
      unfolding bit_take_bit_iff bit_exp_iff by auto
  qed
  then show ?thesis by simp
qed

lemma f32_mant_value: "uint (f32_mant w) = take_bit 23 (uint w) + (if f32_exp w \<noteq> 0 then 0x00800000 else 0)"
  using low_bits [of w] leading_one [of "uint w"] by (simp add: f32_mant_def unsigned_or_eq)

lemma f32_mant_bounds: "0 \<le> uint (f32_mant w)" "uint (f32_mant w) < 2 ^ 24"
proof -
  show "0 \<le> uint (f32_mant w)" by simp
  have "take_bit 23 (uint w) < (2 :: int) ^ 23" by (rule take_bit_int_less_exp)
  then show "uint (f32_mant w) < 2 ^ 24" by (auto simp: f32_mant_value)
qed

lemma signed_mant_value: "signed_mant w = (if f32_sign w then take_bit 32 (- uint (f32_mant w)) else uint (f32_mant w))"
proof -
  have all: "(0xFFFFFFFF :: 32 word) = -1" by (simp add: word_of_int_eq_iff)
  have "(NOT (f32_mant w) + 1) AND 0xFFFFFFFF = - f32_mant w"
    unfolding all and.right_neutral by (rule minus_eq_not_plus_1 [symmetric])
  then have "uint ((NOT (f32_mant w) + 1) AND 0xFFFFFFFF) = take_bit 32 (- uint (f32_mant w))"
    by (simp add: uint_word_ariths take_bit_eq_mod)
  then show ?thesis unfolding signed_mant_def by simp
qed

lemma signed_mant64_value: "signed_mant64 w = signed_mant w"
proof -
  define m where "m = uint (w AND 0x007FFFFF) OR (if f32_exp w \<noteq> 0 then 0x00800000 else 0 :: int)"
  have m: "m = uint (f32_mant w)" by (simp add: m_def f32_mant_def unsigned_or_eq)
  have mask: "(0xFFFFFFFF :: int) = mask 32" by (simp add: mask_eq_exp_minus_1)
  have "(NOT m + 1) AND 0xFFFFFFFF = take_bit 32 (- m)"
    unfolding mask take_bit_eq_mask [symmetric] by (simp add: minus_eq_not_plus_1)
  then show ?thesis unfolding signed_mant64_def m_def [symmetric] signed_mant_value by (simp add: m)
qed

lemma top_byte_value: "top_byte (signed_mant w) = f32_int w div 2 ^ 17"
proof -
  define m where "m = uint (f32_mant w)"
  have m: "0 \<le> m" "m < 2 ^ 24" using f32_mant_bounds [of w] by (simp_all add: m_def)
  define s where "s = f32_int w"
  have s_m: "s = (if f32_sign w then - m else m)" by (simp add: s_def f32_int_def m_def)
  have s: "- (2 ^ 24) < s" "s < 2 ^ 24" using m by (simp_all add: s_m)
  have sm: "signed_mant w = take_bit 32 s"
    using m by (simp add: signed_mant_value s_m m_def [symmetric] take_bit_int_eq_self)
  have "top_byte (signed_mant w) = sint (word_of_int (drop_bit 17 (take_bit 32 s)) :: 8 word)"
    by (simp add: top_byte_def sm)
  also have "(word_of_int (drop_bit 17 (take_bit 32 s)) :: 8 word) = word_of_int (drop_bit 17 s)"
    by (simp add: drop_bit_take_bit word_of_int_eq_iff)
  also have "sint (word_of_int (drop_bit 17 s) :: 8 word) = drop_bit 17 s"
    using s by (simp add: int_word_sint drop_bit_eq_div)
  finally show ?thesis by (simp add: s_def drop_bit_eq_div)
qed


text \<open>A mantissa is the element over the grid of its block, rounded down.\<close>

lemma f32_int_bounds: "- (2 ^ 24) < f32_int w" "f32_int w < 2 ^ 24"
proof -
  have "- (2 ^ 24) < (if c then - m else m) \<and> (if c then - m else m) < (2 :: int) ^ 24"
    if "0 \<le> m" "m < 2 ^ 24" for m and c using that by auto
  from this [OF f32_mant_bounds] show "- (2 ^ 24) < f32_int w" "f32_int w < 2 ^ 24"
    unfolding f32_int_def by blast+
qed

lemma f32_int_sign:
  assumes "f32_exp w \<noteq> 0 \<or> w = 0"
  shows "f32_sign w \<longleftrightarrow> f32_int w < 0"
proof (cases "w = 0")
  case True then show ?thesis by (simp add: f32_sign_def f32_int_def)
next
  case False
  have "0 < uint (f32_mant w)"
    unfolding f32_mant_value using False assms by (auto intro!: add_nonneg_pos)
  then show ?thesis by (simp add: f32_int_def)
qed

lemma div_power_neg: "- (2 ^ n) \<le> i \<Longrightarrow> i < 0 \<Longrightarrow> i div 2 ^ n = (-1 :: int)"
  by (rule int_div_pos_eq [of _ _ _ "i + 2 ^ n"]) simp_all

lemma div_within:
  fixes y d :: int
  assumes "0 < d" "- b \<le> y" "y < b" "0 < b"
  shows "- b \<le> y div d" "y div d < b"
proof -
  have bd: "b * 1 \<le> b * d" "(b - 1) * 1 \<le> (b - 1) * d"
    using assms by (intro mult_left_mono; simp)+
  have "- b * d \<le> y" using bd(1) assms by linarith
  then have "(- b * d) div d \<le> y div d" using assms by (intro zdiv_mono1)
  then show "- b \<le> y div d" using assms nonzero_mult_div_cancel_right [of d "- b"] by simp
  have "y \<le> (b - 1) * 1" using assms by simp
  also note bd(2)
  finally have "y \<le> (b - 1) * d" .
  then have "y div d \<le> ((b - 1) * d) div d" using assms by (intro zdiv_mono1)
  then show "y div d < b" using assms by simp
qed

lemma align_value:
  assumes shift: "f32_exp w \<le> e" and zero: "f32_exp w \<noteq> 0 \<or> w = 0"
  shows "sint (align_mant e w (signed_mant w)) = f32_int w div 2 ^ (17 + nat (e - f32_exp w))"
proof -
  define i where "i = f32_int w"
  have i: "- (2 ^ 24) < i" "i < 2 ^ 24" using f32_int_bounds [of w] by (simp_all add: i_def)
  define n where "n = nat (e - f32_exp w)"
  define x where "x = i div 2 ^ (17 + n)"
  have x: "x = i div 2 ^ 17 div 2 ^ n" by (simp add: x_def zdiv_zmult2_eq power_add)
  have b: "- 128 \<le> i div 2 ^ 17" "i div 2 ^ 17 < 128" using i by simp_all
  have xb: "- 128 \<le> x \<and> x < 128"
    using div_within [of "2 ^ n" 128 "i div 2 ^ 17"] b by (simp add: x)
  have "align_mant e w (signed_mant w) = word_of_int x"
  proof (cases "n < 32")
    case True
    then have "nat (min (e - f32_exp w) 31) = n" "\<not> 32 \<le> e - f32_exp w" using shift by (auto simp: n_def)
    then show ?thesis by (simp add: align_mant_def top_byte_value x drop_bit_eq_div i_def)
  next
    case False
    then have "32 \<le> e - f32_exp w" by (simp add: n_def)
    moreover have "x = (if i < 0 then -1 else 0)"
    proof -
      have "(2 :: int) ^ 24 \<le> 2 ^ (17 + n)" using False by (intro power_increasing) simp_all
      then show ?thesis using i div_power_neg [of "17 + n" i] by (simp add: x_def div_pos_pos_trivial)
    qed
    ultimately show ?thesis using f32_int_sign [OF zero] by (simp add: align_mant_def i_def)
  qed
  then have "sint (align_mant e w (signed_mant w)) = x" using xb by (simp add: int_word_sint)
  then show ?thesis by (simp add: x_def i_def n_def)
qed

lemma floor_in_block:
  fixes i :: int and M :: nat
  assumes "k \<le> M"
  shows "of_int (i div 2 ^ (17 + (M - k))) * (2 ^ M / 2 ^ 133) \<le> of_int i * 2 ^ k / (2 ^ 150 :: rat)"
    and "of_int i * 2 ^ k / (2 ^ 150 :: rat) < (of_int (i div 2 ^ (17 + (M - k))) + 1) * (2 ^ M / 2 ^ 133)"
proof -
  define d :: int where "d = 2 ^ (17 + (M - k))"
  define q where "q = i div d"
  define u :: rat where "u = 2 ^ k / 2 ^ 150"
  have u: "0 < u" by (simp add: u_def)
  have d: "0 < d" by (simp add: d_def)
  have *: "(2 :: rat) ^ M / 2 ^ 133 = of_int d * u"
  proof -
    have "(2 :: rat) ^ (M + 17) = 2 ^ ((17 + (M - k)) + k)" using assms by simp
    then have "(2 :: rat) ^ M * 2 ^ 17 = of_int d * 2 ^ k" unfolding power_add d_def by simp
    then show ?thesis by (simp add: u_def field_simps)
  qed
  have i: "i = q * d + i mod d" by (simp add: q_def)
  have "0 \<le> i mod d" "i mod d < d" using d by simp_all
  with i have "q * d \<le> i" "i < (q + 1) * d" by (simp_all add: distrib_right)
  then have "rat_of_int (q * d) \<le> of_int i" "rat_of_int i < of_int ((q + 1) * d)" by (simp_all only: of_int_le_iff of_int_less_iff)
  then have "rat_of_int (q * d) * u \<le> of_int i * u" "rat_of_int i * u < of_int ((q + 1) * d) * u"
    using u by (simp_all only: mult_le_cancel_right_pos mult_less_cancel_right_pos)
  then show "of_int (i div 2 ^ (17 + (M - k))) * (2 ^ M / 2 ^ 133) \<le> of_int i * 2 ^ k / (2 ^ 150 :: rat)"
    and "of_int i * 2 ^ k / (2 ^ 150 :: rat) < (of_int (i div 2 ^ (17 + (M - k))) + 1) * (2 ^ M / 2 ^ 133)"
    unfolding * d_def [symmetric] q_def [symmetric] by (simp_all add: u_def mult.assoc)
qed


lemma blocks_of_append:
  assumes "length b = n" "0 < n"
  shows "blocks_of n (b @ xs) = b # blocks_of n xs"
  using assms by (subst blocks_of.simps) auto

lemma blocks_of_Nil [simp]: "blocks_of n [] = []"
  by (subst blocks_of.simps) simp

lemma blocks_of_concat:
  "0 < n \<Longrightarrow> (\<And>b. b \<in> set bs \<Longrightarrow> length b = n) \<Longrightarrow> blocks_of n (concat bs) = bs"
  by (induction bs) (simp_all add: blocks_of_append)

text \<open>A list of whole blocks.\<close>

lemma blocks_of_whole:
  assumes "0 < n" "n dvd length xs"
  shows "concat (blocks_of n xs) = xs \<and> (\<forall>b \<in> set (blocks_of n xs). length b = n)"
  using assms
proof (induction n xs rule: blocks_of.induct)
  case (1 n xs)
  show ?case
  proof (cases "xs = []")
    case False
    with "1.prems" have le: "n \<le> length xs" by (simp add: dvd_imp_le)
    with "1.prems" have "n dvd length (drop n xs)" by (simp add: dvd_diff_nat)
    with 1 False have "concat (blocks_of n (drop n xs)) = drop n xs \<and> (\<forall>b \<in> set (blocks_of n (drop n xs)). length b = n)"
      by simp
    moreover have "blocks_of n xs = take n xs # blocks_of n (drop n xs)"
      using "1.prems" False by (subst blocks_of.simps) simp
    moreover have "length (take n xs) = n" using le by simp
    ultimately show ?thesis by (metis append_take_drop_id concat.simps(2) set_ConsD)
  qed simp
qed

lemma concat_nth:
  assumes "\<And>b. b \<in> set bs \<Longrightarrow> length b = n" "i < length bs" "j < n"
  shows "concat bs ! (n * i + j) = bs ! i ! j"
  using assms
proof (induction bs arbitrary: i)
  case (Cons b bs)
  show ?case
  proof (cases i)
    case 0 with Cons.prems show ?thesis by (simp add: nth_append)
  next
    case (Suc i')
    have b: "length b = n" using Cons.prems by simp
    have "concat (b # bs) ! (n * i + j) = concat bs ! (n * i' + j)" by (simp add: Suc b nth_append)
    with Cons Suc show ?thesis by simp
  qed
qed simp

lemma take_drop_concat:
  assumes "\<And>b. b \<in> set bs \<Longrightarrow> length b = n" "i < length bs"
  shows "take n (drop (i * n) (concat bs @ rest)) = bs ! i"
  using assms
proof (induction bs arbitrary: i)
  case (Cons b bs)
  then have "length b = n" by simp
  with Cons show ?case by (cases i) simp_all
qed simp

text \<open>
  What packing keeps of an element: the largest multiple of the unit of its block that is not above it, as a float. The one
  such multiple that is no finite float is \<open>-2 ^ 128\<close>, below the most negative numbers (\<open>rounds_down_finite\<close>).
\<close>

definition rounds_down :: "32 word list \<Rightarrow> f32_val \<Rightarrow> 32 word \<Rightarrow> bool" where
  "rounds_down block v w \<longleftrightarrow>
     (\<exists>x q. v = f32_of x \<and> x = of_int q * block_unit (max_exp block) \<and>
       x \<le> f32_value w \<and> f32_value w < x + block_unit (max_exp block))"

lemma max_exp_bounds:
  assumes "ws \<noteq> []"
  shows "w \<in> set ws \<Longrightarrow> f32_exp w \<le> max_exp ws" "0 \<le> max_exp ws" "max_exp ws < 256"
proof -
  have "max_exp ws \<in> set (map f32_exp ws)" unfolding max_exp_def using assms by (intro Max_in) auto
  then show "0 \<le> max_exp ws" "max_exp ws < 256" using f32_exp_bounds by auto
  show "w \<in> set ws \<Longrightarrow> f32_exp w \<le> max_exp ws" unfolding max_exp_def by (intro Max_ge) auto
qed

text \<open>An element that is not below the floor of the format by rounding is decoded to a finite number.\<close>

lemma f32_value_bounds:
  assumes "f32_exp w < 255"
  shows "\<bar>f32_value w\<bar> < 2 ^ 128"
proof -
  define k where "k = nat (max 1 (f32_exp w))"
  have k: "k \<le> 254" using assms by (simp add: k_def)
  have "\<bar>rat_of_int (f32_int w)\<bar> \<le> of_int (2 ^ 24 - 1)"
    using f32_int_bounds [of w] by (simp only: of_int_abs [symmetric] of_int_le_iff)
  moreover have "(2 :: rat) ^ k \<le> 2 ^ 254" using k by (intro power_increasing) simp_all
  ultimately have "\<bar>rat_of_int (f32_int w)\<bar> * 2 ^ k \<le> of_int (2 ^ 24 - 1) * 2 ^ 254" by (intro mult_mono) simp_all
  also have "\<dots> < (2 ^ 128 * 2 ^ 150 :: rat)" by simp
  finally show ?thesis by (simp add: f32_value_def abs_mult k_def [symmetric] field_simps)
qed

lemma rounds_down_finite:
  assumes "rounds_down block v w" and "f32_exp w < 255"
  shows "(\<exists>x. v = Finite x \<and> - (2 ^ 128) < x \<and> x \<le> f32_value w \<and> f32_value w < x + block_unit (max_exp block)) \<or>
    v = NegInf \<and> f32_value w < block_unit (max_exp block) - 2 ^ 128"
proof -
  obtain x where v: "v = f32_of x" and x: "x \<le> f32_value w" "f32_value w < x + block_unit (max_exp block)"
    using assms(1) by (auto simp: rounds_down_def)
  have "x < 2 ^ 128" using x(1) f32_value_bounds [OF assms(2)] by (simp add: abs_less_iff)
  with v x show ?thesis by (cases "x \<le> - (2 ^ 128)") (auto simp: f32_of_def)
qed

lemma unpack_pack:
  assumes "ws \<noteq> []" "i < length ws" "plain_float (ws ! i)"
  shows "rounds_down ws (unpack_block (pack_block ws) ! i) (ws ! i)"
proof -
  define w where "w = ws ! i"
  define M where "M = nat (max_exp ws)"
  define k where "k = nat (f32_exp w)"
  have w: "w \<in> set ws" "f32_exp w \<noteq> 0 \<or> w = 0" using assms by (auto simp: w_def plain_float_def)
  note m = max_exp_bounds [OF assms(1)] f32_exp_bounds [of w]
  have e: "f32_exp w \<le> max_exp ws" using m(1) w by simp
  then have k: "k \<le> M" "M - k = nat (max_exp ws - f32_exp w)" using m by (auto simp: k_def M_def)
  have u: "uint (word_of_int (max_exp ws) :: 8 word) = max_exp ws" using m(2,3) by (simp add: uint_word_of_int)
  have unit: "block_unit (max_exp ws) = 2 ^ M / 2 ^ 133" using m(2) by (simp add: block_unit_power M_def)
  define q where "q = f32_int w div 2 ^ (17 + (M - k))"
  have x: "unpack_block (pack_block ws) ! i = f32_of (of_int q * block_unit (max_exp ws))"
    using assms align_value [OF e w(2)] by (simp add: unpack_block_def pack_block_def u q_def k w_def del: of_int_sint)
  have v: "f32_value w = of_int (f32_int w) * 2 ^ k / 2 ^ 150"
  proof (cases "w = 0")
    case True then show ?thesis by (simp add: f32_value_def f32_int_def f32_sign_def f32_mant_def f32_exp_def)
  next
    case False
    with w m have "max 1 (f32_exp w) = f32_exp w" by simp
    then show ?thesis by (simp add: f32_value_def k_def)
  qed
  show ?thesis
    unfolding rounds_down_def x w_def [symmetric] v unit
    using floor_in_block [OF k(1), of "f32_int w"]
    by (intro exI [of _ "of_int q * (2 ^ M / 2 ^ 133)"] exI [of _ q] conjI refl) (simp_all only: q_def distrib_right mult_1_left)
qed


lemma pack_block_length: "length (pack_block ws) = length ws + 1"
  by (simp add: pack_block_def)

lemma unpack_block_length: "length (unpack_block r) = length r - 1"
  by (simp add: unpack_block_def)

text \<open>
  C18: packing an array of floats whose last dimension is a multiple of eight and unpacking it again succeeds, keeps the
  last dimension, and gives for every element the largest multiple of the unit of its block that is not above the
  element; so the error is less than one unit, and always downwards, for negative numbers too. The elements are normal
  numbers or the positive zero; where the multiple is \<open>-2 ^ 128\<close>, which no float holds, the result is minus infinity.
\<close>

theorem bfp16_floor:
  assumes last: "n mod 8 = 0" and whole: "n dvd length ws" "0 < n" and ok: "\<forall>w \<in> set ws. plain_float w"
  shows "\<exists>bs xs. float_to_bfp16ebs8 (n, ws) = Inr (n div 8 * 9, bs) \<and>
                 bfp16ebs8_to_float (n div 8 * 9, bs) = Inr (n, xs) \<and> length xs = length ws \<and>
                 (\<forall>i < length ws. rounds_down (take 8 (drop (8 * (i div 8)) ws)) (xs ! i) (ws ! i))"
proof -
  define blocks where "blocks = blocks_of 8 ws"
  have "8 dvd length ws" using last whole by (meson dvd_trans mod_eq_0_iff_dvd)
  from blocks_of_whole [OF _ this] have ws: "concat blocks = ws" and l: "\<And>b. b \<in> set blocks \<Longrightarrow> length b = 8"
    by (auto simp: blocks_def)
  define xs where "xs = concat (map (\<lambda>b. unpack_block (pack_block b)) blocks)"
  have "blocks_of 9 (concat (map pack_block blocks)) = map pack_block blocks"
    by (rule blocks_of_concat) (auto simp: pack_block_length l)
  then have unpacked: "bfp16ebs8_to_float (n div 8 * 9, concat (map pack_block blocks)) = Inr (n, xs)"
    using last by (auto simp: bfp16ebs8_to_float_def xs_def o_def)
  have lens: "length (concat blocks) = 8 * length blocks" "length xs = 8 * length blocks"
    using l by (simp_all add: length_concat xs_def o_def unpack_block_length pack_block_length sum_list_triv cong: map_cong)
  have "rounds_down (take 8 (drop (8 * (i div 8)) ws)) (xs ! i) (ws ! i)" if i: "i < length ws" for i
  proof -
    define j r where "j = i div 8" and "r = i mod 8"
    have ij: "i = 8 * j + r" "r < 8" by (simp_all add: j_def r_def)
    have j: "j < length blocks" using i lens ws ij by simp
    then have b: "length (blocks ! j) = 8" "blocks ! j \<in> set blocks" using l by simp_all
    have w: "ws ! i = blocks ! j ! r" using concat_nth [of blocks 8 j r] l j ij ws by simp
    have "xs ! i = unpack_block (pack_block (blocks ! j)) ! r"
    proof -
      have "\<And>c. c \<in> set (map (\<lambda>b. unpack_block (pack_block b)) blocks) \<Longrightarrow> length c = 8"
        using l by (auto simp: unpack_block_length pack_block_length)
      from concat_nth [of "map (\<lambda>b. unpack_block (pack_block b)) blocks" 8 j r, OF this] j ij show ?thesis by (simp add: xs_def)
    qed
    moreover have "take 8 (drop (8 * j) ws) = blocks ! j"
      using take_drop_concat [of blocks 8 j "[]"] l j ws by (simp add: mult.commute)
    moreover have "rounds_down (blocks ! j) (unpack_block (pack_block (blocks ! j)) ! r) (blocks ! j ! r)"
    proof (rule unpack_pack)
      show "plain_float (blocks ! j ! r)" using ok i by (simp flip: w)
    qed (use b ij in auto)
    ultimately show ?thesis by (simp add: w j_def)
  qed
  moreover have "float_to_bfp16ebs8 (n, ws) = Inr (n div 8 * 9, concat (map pack_block blocks))"
    using last by (simp add: float_to_bfp16ebs8_def blocks_def)
  moreover have "length xs = length ws" using lens ws by simp
  ultimately show ?thesis using unpacked by blast
qed

text \<open>\<open>1, -1.5, 0.1, 0, 100, -100, 2 ^ -40\<close> and \<open>-2 ^ -40\<close>.\<close>

definition bfp_sample :: "32 word list" where
  "bfp_sample = [0x3F800000, 0xBFC00000, 0x3DCCCCCD, 0, 0x42C80000, 0xC2C80000, 0x2B800000, 0xAB800000]"

lemma bfp16_floor_witness:
  "\<exists>bs xs. float_to_bfp16ebs8 (8, bfp_sample) = Inr (8 div 8 * 9, bs) \<and>
           bfp16ebs8_to_float (8 div 8 * 9, bs) = Inr (8, xs) \<and> length xs = length bfp_sample \<and>
           (\<forall>i < length bfp_sample. rounds_down (take 8 (drop (8 * (i div 8)) bfp_sample)) (xs ! i) (bfp_sample ! i))"
  by (rule bfp16_floor) code_simp+

lemma bfp_sample_decodes: "unpack_block (pack_block bfp_sample) = map Finite [1, -2, 0, 0, 100, -100, 0, -1]"
  by code_simp

text \<open>
  What the hypothesis leaves out. A negative zero next to a one decodes to minus one unit; a subnormal among subnormals
  decodes to half of its value. The most negative finite number decodes to minus infinity.
\<close>

lemma negative_zero_decodes_below: "unpack_block (pack_block (0x80000000 # replicate 7 0x3F800000)) ! 0 = Finite (- 1 / 64)"
  by code_simp

lemma subnormals_halve:
  "unpack_block (pack_block (replicate 8 0x00400000)) ! 0 = Finite (f32_value 0x00400000 / 2)"
  by code_simp

lemma most_negative_overflows: "plain_float 0xFF7FFFFF \<and> unpack_block (pack_block (replicate 8 0xFF7FFFFF)) ! 0 = NegInf"
  by code_simp

text \<open>The scalar packer and the vectorised one give the same record.\<close>

lemma packers_agree: "bf16_block_to_bfp16ebs8 ws = pack_block ws"
  by (simp add: bf16_block_to_bfp16ebs8_def pack_block_def signed_mant64_value)


section \<open>The packed matrix operand\<close>

definition bfp_tile_bytes :: "nat \<Rightarrow> nat \<Rightarrow> nat" where
  "bfp_tile_bytes tile_n tile_k = tile_n * tile_k div 8 * 9"

text \<open>
  \<^verbatim>\<open>pack_b_bfp16ebs8\<close>: the matrix is its rows. Reshaping to \<open>[Kb, KB_in, 8, Nb, NB_in, 8]\<close> and transposing makes
  every record eight elements of one column.
\<close>

definition column_block :: "'a list list \<Rightarrow> nat \<Rightarrow> nat \<Rightarrow> 'a list" where
  "column_block B r c = map (\<lambda>k_i. B ! (r + k_i) ! c) [0..<8]"

definition sub_tiles :: "nat \<Rightarrow> nat \<Rightarrow> (nat \<times> nat) list" where
  "sub_tiles tile_n tile_k = List.product [0..<tile_n div 8] [0..<tile_k div 8]"

definition sub_tile_records :: "32 word list list \<Rightarrow> nat \<Rightarrow> nat \<Rightarrow> nat \<Rightarrow> nat \<Rightarrow> nat \<times> nat \<Rightarrow> 8 word list list" where
  "sub_tile_records B tile_n tile_k nb kb p =
     map (\<lambda>n_i. pack_block (column_block B ((kb * (tile_k div 8) + snd p) * 8) ((nb * (tile_n div 8) + fst p) * 8 + n_i))) [0..<8]"

definition pack_tile :: "32 word list list \<Rightarrow> nat \<Rightarrow> nat \<Rightarrow> nat \<Rightarrow> nat \<Rightarrow> 8 word list" where
  "pack_tile B tile_n tile_k nb kb =
     concat (concat (map (sub_tile_records B tile_n tile_k nb kb) (sub_tiles tile_n tile_k)))"

definition pack_b_bfp16ebs8 :: "nat \<Rightarrow> nat \<Rightarrow> 32 word list list \<Rightarrow> nat \<Rightarrow> nat \<Rightarrow> 8 word list list list res" where
  "pack_b_bfp16ebs8 K N B tile_n tile_k =
     (if tile_n mod 8 \<noteq> 0 \<or> tile_k mod 8 \<noteq> 0 then Inl AssertionError
      else if tile_k = 0 then Inl ZeroDivisionError
      else if K mod tile_k \<noteq> 0 then Inl AssertionError
      else if tile_n = 0 then Inl ZeroDivisionError
      else if N mod tile_n \<noteq> 0 then Inl AssertionError
      else Inr (map (\<lambda>nb. map (pack_tile B tile_n tile_k nb) [0..<K div tile_k]) [0..<N div tile_n]))"

text \<open>The reference reads the tiles back with a cursor, into a zero matrix.\<close>

definition decode_record :: "8 word list \<Rightarrow> nat \<Rightarrow> f32_val list" where
  "decode_record tile cursor =
     (let block = take 9 (drop cursor tile) in map (\<lambda>b. f32_of (of_int (sint b) * shifted_unit (uint (hd block)))) (tl block))"

definition store_block :: "nat \<Rightarrow> nat \<Rightarrow> f32_val list list \<Rightarrow> (nat \<Rightarrow> nat \<Rightarrow> f32_val) \<Rightarrow> nat \<Rightarrow> nat \<Rightarrow> f32_val" where
  "store_block k0 n0 sub_T Bf r c =
     (if k0 \<le> r \<and> r < k0 + 8 \<and> n0 \<le> c \<and> c < n0 + 8 then sub_T ! (c - n0) ! (r - k0) else Bf r c)"

definition decode_sub_tile ::
    "nat \<Rightarrow> nat \<Rightarrow> nat \<Rightarrow> nat \<Rightarrow> 8 word list \<Rightarrow> nat \<times> nat \<Rightarrow> nat \<times> (nat \<Rightarrow> nat \<Rightarrow> f32_val) \<Rightarrow> nat \<times> (nat \<Rightarrow> nat \<Rightarrow> f32_val)" where
  "decode_sub_tile tile_n tile_k nb kb tile p s =
     (let sub_T = map (\<lambda>n_i. decode_record tile (fst s + n_i * 9)) [0..<8] in
      (fst s + 8 * 9, store_block (kb * tile_k + snd p * 8) (nb * tile_n + fst p * 8) sub_T (snd s)))"

definition decode_tile :: "nat \<Rightarrow> nat \<Rightarrow> 8 word list list list \<Rightarrow> nat \<times> nat \<Rightarrow> (nat \<Rightarrow> nat \<Rightarrow> f32_val) \<Rightarrow> nat \<Rightarrow> nat \<Rightarrow> f32_val" where
  "decode_tile tile_n tile_k B_packed q Bf =
     snd (fold (decode_sub_tile tile_n tile_k (fst q) (snd q) (B_packed ! fst q ! snd q)) (sub_tiles tile_n tile_k) (0, Bf))"

definition decode_b :: "nat \<Rightarrow> nat \<Rightarrow> 8 word list list list \<Rightarrow> nat \<Rightarrow> nat \<Rightarrow> nat \<Rightarrow> nat \<Rightarrow> f32_val" where
  "decode_b k n B_packed tile_n tile_k =
     fold (decode_tile tile_n tile_k B_packed) (List.product [0..<n div tile_n] [0..<k div tile_k]) (\<lambda>r c. Finite 0)"

text \<open>The cursor stands at the record that is read.\<close>

lemma decode_record_at:
  assumes "\<And>b. b \<in> set bs \<Longrightarrow> length b = 9" "i < length bs"
  shows "decode_record (pre @ concat bs @ rest) (length pre + i * 9) = unpack_block (bs ! i)"
proof -
  have "take 9 (drop (length pre + i * 9) (pre @ concat bs @ rest)) = bs ! i"
    using take_drop_concat [OF assms, of rest] by simp
  then show ?thesis unfolding decode_record_def unpack_block_def Let_def by (simp add: units_agree)
qed

definition decoded :: "32 word list list \<Rightarrow> nat \<Rightarrow> nat \<Rightarrow> f32_val" where
  "decoded B r c = unpack_block (pack_block (column_block B (8 * (r div 8)) c)) ! (r mod 8)"

text \<open>Stores that agree on a position, wherever they cover it.\<close>

lemma fold_stores:
  assumes "\<And>p f. p \<in> set ps \<Longrightarrow> upd p f r c = (if R p then g else f r c)"
  shows "fold upd ps f r c = (if \<exists>p \<in> set ps. R p then g else f r c)"
  using assms by (induction ps arbitrary: f) auto

definition covers_position :: "nat \<Rightarrow> nat \<Rightarrow> nat \<times> nat \<Rightarrow> nat \<times> nat \<Rightarrow> nat \<Rightarrow> nat \<Rightarrow> bool" where
  "covers_position tile_n tile_k q p r c \<longleftrightarrow>
     snd q * tile_k + snd p * 8 \<le> r \<and> r < snd q * tile_k + snd p * 8 + 8 \<and>
     fst q * tile_n + fst p * 8 \<le> c \<and> c < fst q * tile_n + fst p * 8 + 8"


lemma sub_tile_loop:
  assumes tile: "tile = pre @ concat (concat (map (sub_tile_records B tile_n tile_k nb kb) ps)) @ rest"
  shows "fold (decode_sub_tile tile_n tile_k nb kb tile) ps (length pre, f) =
     (length pre + 72 * length ps,
      fold (\<lambda>p. store_block (kb * tile_k + snd p * 8) (nb * tile_n + fst p * 8)
                 (map unpack_block (sub_tile_records B tile_n tile_k nb kb p))) ps f)"
  using assms
proof (induction ps arbitrary: pre f)
  case (Cons p ps)
  define rs where "rs = sub_tile_records B tile_n tile_k nb kb p"
  define more where "more = concat (concat (map (sub_tile_records B tile_n tile_k nb kb) ps)) @ rest"
  have rs: "length rs = 8" "\<And>b. b \<in> set rs \<Longrightarrow> length b = 9"
    by (auto simp: rs_def sub_tile_records_def pack_block_length column_block_def)
  have tile: "tile = pre @ concat rs @ more" using Cons.prems by (simp add: rs_def more_def)
  have "map (\<lambda>n_i. decode_record tile (length pre + n_i * 9)) [0..<8] = map unpack_block rs"
  proof (rule nth_equalityI)
    show "map (\<lambda>n_i. decode_record tile (length pre + n_i * 9)) [0..<8] ! i = map unpack_block rs ! i"
      if "i < length (map (\<lambda>n_i. decode_record tile (length pre + n_i * 9)) [0..<8])" for i
      using that decode_record_at [of rs i pre more] rs tile by simp
  qed (simp add: rs)
  moreover have "length (concat rs) = 72" using rs by (simp add: length_concat sum_list_triv cong: map_cong)
  ultimately show ?case
    using Cons.IH [of "pre @ concat rs"] tile by (simp add: decode_sub_tile_def rs_def more_def)
qed simp

lemma pack_tile_length:
  assumes "tile_n mod 8 = 0" "tile_k mod 8 = 0"
  shows "length (pack_tile B tile_n tile_k nb kb) = bfp_tile_bytes tile_n tile_k"
proof -
  obtain a b where ab: "tile_n = 8 * a" "tile_k = 8 * b" using assms by (metis dvdE mod_eq_0_iff_dvd)
  have "length (concat (concat (map (sub_tile_records B tile_n tile_k nb kb) ps))) = 72 * length ps" for ps
    by (induction ps)
      (simp_all add: sub_tile_records_def pack_block_length column_block_def length_concat sum_list_triv o_def)
  then show ?thesis by (simp add: pack_tile_def sub_tiles_def bfp_tile_bytes_def ab)
qed

lemma store_decoded:
  assumes "tile_n mod 8 = 0" "tile_k mod 8 = 0"
  shows "store_block (snd q * tile_k + snd p * 8) (fst q * tile_n + fst p * 8)
           (map unpack_block (sub_tile_records B tile_n tile_k (fst q) (snd q) p)) f r c =
         (if covers_position tile_n tile_k q p r c then decoded B r c else f r c)"
proof (cases "covers_position tile_n tile_k q p r c")
  case True
  obtain a b where ab: "tile_n = 8 * a" "tile_k = 8 * b" using assms by (metis dvdE mod_eq_0_iff_dvd)
  define k0 n0 where "k0 = snd q * tile_k + snd p * 8" and "n0 = fst q * tile_n + fst p * 8"
  have rc: "k0 \<le> r" "r < k0 + 8" "n0 \<le> c" "c < n0 + 8" using True by (auto simp: covers_position_def k0_def n0_def)
  define x where "x = snd q * b + snd p"
  have k0: "k0 = 8 * x" by (simp add: k0_def ab x_def)
  moreover from rc obtain d where d: "r = k0 + d" "d < 8" by (metis add_diff_inverse_nat less_diff_conv2 add.commute not_less)
  ultimately have r: "r div 8 = snd q * b + snd p" "r mod 8 = r - k0" by (simp_all flip: x_def)
  from rc obtain e where e: "c = n0 + e" "e < 8" by (metis add_diff_inverse_nat less_diff_conv2 add.commute not_less)
  have "n0 = (fst q * (tile_n div 8) + fst p) * 8" by (simp add: n0_def ab)
  with e have "sub_tile_records B tile_n tile_k (fst q) (snd q) p ! (c - n0) = pack_block (column_block B (8 * (r div 8)) c)"
    by (simp add: sub_tile_records_def ab r mult.commute)
  moreover have "length (sub_tile_records B tile_n tile_k (fst q) (snd q) p) = 8" by (simp add: sub_tile_records_def)
  ultimately show ?thesis
    using True rc r by (simp add: store_block_def decoded_def flip: k0_def n0_def)
qed (auto simp: store_block_def covers_position_def)

lemma tile_decoded:
  assumes "tile_n mod 8 = 0" "tile_k mod 8 = 0" "B_packed ! fst q ! snd q = pack_tile B tile_n tile_k (fst q) (snd q)"
  shows "decode_tile tile_n tile_k B_packed q f r c =
    (if \<exists>p \<in> set (sub_tiles tile_n tile_k). covers_position tile_n tile_k q p r c then decoded B r c else f r c)"
  using sub_tile_loop [of "pack_tile B tile_n tile_k (fst q) (snd q)" "[]" B tile_n tile_k "fst q" "snd q" "sub_tiles tile_n tile_k" "[]" f]
  by (simp add: decode_tile_def assms pack_tile_def fold_stores store_decoded)

lemma covered:
  assumes "tile_n mod 8 = 0" "tile_k mod 8 = 0" "k mod tile_k = 0" "n mod tile_n = 0" "r < k" "c < n"
  shows "\<exists>q \<in> set (List.product [0..<n div tile_n] [0..<k div tile_k]).
           \<exists>p \<in> set (sub_tiles tile_n tile_k). covers_position tile_n tile_k q p r c"
proof -
  have split: "i div t < m div t \<and> i mod t div 8 < t div 8 \<and>
      i div t * t + i mod t div 8 * 8 \<le> i \<and> i < i div t * t + i mod t div 8 * 8 + 8"
    if t: "t mod 8 = 0" and m: "m mod t = 0" and i: "i < m" for i m t :: nat
  proof -
    obtain a M where a: "t = 8 * a" and M: "m = t * M" using t m by (metis dvdE mod_eq_0_iff_dvd)
    have "0 < t" using i M by (cases t) auto
    then have "i mod t < 8 * a" by (simp add: a)
    then have "i mod t div 8 < a" by (simp add: div_less_iff_less_mult)
    moreover have "i div t < M" using i M \<open>0 < t\<close> by (simp add: div_less_iff_less_mult mult.commute)
    moreover have "i = i div t * t + (i mod t div 8 * 8 + i mod t mod 8)" by simp
    moreover have "i mod t mod 8 < 8" by simp
    moreover have "m div t = M" "t div 8 = a" using \<open>0 < t\<close> M a by simp_all
    ultimately show ?thesis by linarith
  qed
  from split [of tile_k k r] split [of tile_n n c] assms show ?thesis
    by (intro bexI [of _ "(c div tile_n, r div tile_k)"] bexI [of _ "(c mod tile_n div 8, r mod tile_k div 8)"])
      (auto simp: covers_position_def sub_tiles_def)
qed

text \<open>
  C19: for a matrix of plain numbers whose sides are whole tiles of whole sub-tiles, packing succeeds with one tile of the
  announced number of bytes per pair of indices, and the reference reads back for every position of the matrix the
  element of that position, rounded down in its block of eight along the column, as a float: minus infinity where that is
  \<open>-2 ^ 128\<close>.
\<close>

theorem packed_matrix_reads_back:
  assumes "tile_n mod 8 = 0" "tile_k mod 8 = 0" "0 < tile_n" "0 < tile_k" "K mod tile_k = 0" "N mod tile_n = 0"
    and ok: "\<forall>r < K. \<forall>c < N. plain_float (B ! r ! c)"
  shows "\<exists>P. pack_b_bfp16ebs8 K N B tile_n tile_k = Inr P \<and>
             length P = N div tile_n \<and>
             (\<forall>ts \<in> set P. length ts = K div tile_k \<and> (\<forall>t \<in> set ts. length t = bfp_tile_bytes tile_n tile_k)) \<and>
             (\<forall>r < K. \<forall>c < N. rounds_down (column_block B (8 * (r div 8)) c) (decode_b K N P tile_n tile_k r c) (B ! r ! c))"
proof -
  define P where "P = map (\<lambda>nb. map (pack_tile B tile_n tile_k nb) [0..<K div tile_k]) [0..<N div tile_n]"
  have pack: "pack_b_bfp16ebs8 K N B tile_n tile_k = Inr P"
    using assms by (simp add: pack_b_bfp16ebs8_def P_def)
  have P: "P ! fst q ! snd q = pack_tile B tile_n tile_k (fst q) (snd q)"
    if "q \<in> set (List.product [0..<N div tile_n] [0..<K div tile_k])" for q
    using that by (auto simp: P_def)
  have bytes: "length (pack_tile B tile_n tile_k nb kb) = bfp_tile_bytes tile_n tile_k" for nb kb
    by (rule pack_tile_length) (rule assms)+
  have "rounds_down (column_block B (8 * (r div 8)) c) (decode_b K N P tile_n tile_k r c) (B ! r ! c)"
    if rc: "r < K" "c < N" for r c
  proof -
    have "decode_b K N P tile_n tile_k r c = decoded B r c"
      unfolding decode_b_def
      by (subst fold_stores [where g = "decoded B r c" and
            R = "\<lambda>q. \<exists>p \<in> set (sub_tiles tile_n tile_k). covers_position tile_n tile_k q p r c"])
        (use tile_decoded [OF assms(1,2) P] covered [OF assms(1,2,5,6) rc] in auto)
    moreover have "column_block B (8 * (r div 8)) c ! (r mod 8) = B ! r ! c" by (simp add: column_block_def)
    moreover have "rounds_down (column_block B (8 * (r div 8)) c) (decoded B r c) (column_block B (8 * (r div 8)) c ! (r mod 8))"
      unfolding decoded_def by (rule unpack_pack) (use ok rc in \<open>auto simp: column_block_def\<close>)
    ultimately show ?thesis by simp
  qed
  with pack bytes show ?thesis by (auto simp: P_def)
qed


lemma packed_matrix_reads_back_witness:
  "\<exists>P. pack_b_bfp16ebs8 8 8 (replicate 8 bfp_sample) 8 8 = Inr P \<and> length P = 8 div 8 \<and>
       (\<forall>ts \<in> set P. length ts = 8 div 8 \<and> (\<forall>t \<in> set ts. length t = bfp_tile_bytes 8 8)) \<and>
       (\<forall>r < 8. \<forall>c < 8. rounds_down (column_block (replicate 8 bfp_sample) (8 * (r div 8)) c) (decode_b 8 8 P 8 8 r c)
                               (replicate 8 bfp_sample ! r ! c))"
  by (rule packed_matrix_reads_back) code_simp+


section \<open>The sub-tiles of a tile box\<close>

text \<open>
  A row-major array of shape \<open>[a, b, c, d]\<close> with its two middle axes exchanged, flat again. All three transposes of
  \<^verbatim>\<open>shuffle_bfp16ebs8\<close> have this form: \<open>(0, 2, 1, 3)\<close>, and \<open>(0, 1, 3, 2, 4)\<close> with the first two axes taken as one.
\<close>

definition flat4 :: "nat \<Rightarrow> nat \<Rightarrow> nat \<Rightarrow> nat \<Rightarrow> nat \<Rightarrow> nat \<Rightarrow> nat \<Rightarrow> nat" where
  "flat4 b c d i j k l = ((i * b + j) * c + k) * d + l"

definition swap_axes :: "nat \<Rightarrow> nat \<Rightarrow> nat \<Rightarrow> nat \<Rightarrow> 'a list \<Rightarrow> 'a list" where
  "swap_axes a b c d xs =
     map (\<lambda>n. xs ! flat4 b c d (n div (c * b * d)) (n div d mod b) (n div (b * d) mod c) (n mod d)) [0..<a * b * c * d]"

definition shuffle_bfp16ebs8 :: "nat \<Rightarrow> nat \<Rightarrow> 8 word list \<Rightarrow> nat \<Rightarrow> nat \<Rightarrow> bool \<Rightarrow> 8 word list res" where
  "shuffle_bfp16ebs8 H MW mat tile_h tile_w_elems unshuffle =
     res_bind (nbytes_bfp tile_w_elems) (\<lambda>tw.
          if tile_w_elems mod 64 \<noteq> 0 \<or> tile_h mod 8 \<noteq> 0 then Inl AssertionError
          else if tile_h = 0 then Inl ZeroDivisionError
          else if H mod tile_h \<noteq> 0 then Inl AssertionError
          else if tw = 0 then Inl ZeroDivisionError
          else if MW mod tw \<noteq> 0 then Inl AssertionError
          else let ty = H div tile_h; tx = MW div tw;
                   boxes = swap_axes ty tile_h tx tw mat;
                   boxes = (if \<not> unshuffle then swap_axes (ty * tx * (tile_h div 8)) 8 (tw div 9) 9 boxes
                            else swap_axes (ty * tx * (tile_h div 8)) (tw div 9) 8 9 boxes)
               in Inr (swap_axes ty tx tile_h tw boxes))"

lemma flat4_bound:
  assumes "i < a" "j < b" "k < c" "l < d"
  shows "flat4 b c d i j k l < a * b * c * d"
proof -
  have le: "x * m + y < n * m" if "x < n" "y < m" for x y n m :: nat
  proof -
    have "x * m + y < Suc x * m" using that by simp
    also have "\<dots> \<le> n * m" using that by (intro mult_le_mono1) simp
    finally show ?thesis .
  qed
  show ?thesis unfolding flat4_def by (intro le assms)
qed

lemma flat4_split:
  assumes "j < b" "k < c" "l < d"
  shows "flat4 b c d i j k l div (b * c * d) = i" "flat4 b c d i j k l div d mod c = k"
    "flat4 b c d i j k l div (c * d) mod b = j" "flat4 b c d i j k l mod d = l"
proof -
  have d: "flat4 b c d i j k l div d = (i * b + j) * c + k" "flat4 b c d i j k l mod d = l"
    using assms by (simp_all add: flat4_def)
  have cd: "flat4 b c d i j k l div (c * d) = i * b + j"
    using assms d(1) by (metis div_mult2_eq div_mult_self3 div_less add_0_right mult.commute less_nat_zero_code)
  show "flat4 b c d i j k l mod d = l" by (rule d)
  show "flat4 b c d i j k l div d mod c = k" using assms by (simp add: d)
  show "flat4 b c d i j k l div (c * d) mod b = j" using assms by (simp add: cd)
  show "flat4 b c d i j k l div (b * c * d) = i"
    using assms cd by (metis div_mult2_eq div_mult_self3 div_less add_0_right mult.commute mult.assoc less_nat_zero_code)
qed

lemma swap_axes_nth:
  assumes "i < a" "j < b" "k < c" "l < d"
  shows "swap_axes a b c d xs ! flat4 c b d i k j l = xs ! flat4 b c d i j k l"
proof -
  have "flat4 c b d i k j l < a * b * c * d"
    using flat4_bound [of i a k c j b l d] assms by (simp add: mult.commute mult.left_commute)
  then show ?thesis
    using flat4_split [of k c j b l d i] assms by (simp add: swap_axes_def)
qed

lemma swap_axes_length [simp]: "length (swap_axes a b c d xs) = a * b * c * d"
  by (simp add: swap_axes_def)

lemma flat4_surj:
  assumes "n < a * b * c * d"
  obtains i j k l where "n = flat4 b c d i j k l" "i < a" "j < b" "k < c" "l < d"
proof
  have pos: "0 < b" "0 < c" "0 < d" using assms by (auto intro!: gr0I)
  show "n = flat4 b c d (n div d div c div b) (n div d div c mod b) (n div d mod c) (n mod d)"
    by (simp add: flat4_def)
  have "n div d < a * b * c" using assms pos by (simp add: div_less_iff_less_mult)
  then have "n div d div c < a * b" using pos by (simp add: div_less_iff_less_mult)
  then show "n div d div c div b < a" using pos by (simp add: div_less_iff_less_mult)
qed (use assms in \<open>auto intro!: gr0I mod_less_divisor\<close>)

lemma swap_axes_twice:
  assumes "length xs = a * b * c * d"
  shows "swap_axes a c b d (swap_axes a b c d xs) = xs"
proof (rule nth_equalityI)
  show "length (swap_axes a c b d (swap_axes a b c d xs)) = length xs" using assms by (simp add: mult.commute mult.left_commute)
  fix n assume "n < length (swap_axes a c b d (swap_axes a b c d xs))"
  then have "n < a * b * c * d" by (simp add: mult.commute mult.left_commute)
  then obtain i j k l where "n = flat4 b c d i j k l" "i < a" "j < b" "k < c" "l < d" by (rule flat4_surj)
  then show "swap_axes a c b d (swap_axes a b c d xs) ! n = xs ! n" by (simp add: swap_axes_nth)
qed

text \<open>Shuffling keeps the matrix's shape, and unshuffling the result gives the matrix back; and the other way round.\<close>

lemma shuffle_restores:
  assumes len: "length mat = H * MW" and ok: "shuffle_bfp16ebs8 H MW mat tile_h tile_w u = Inr out"
  shows "length out = H * MW \<and> shuffle_bfp16ebs8 H MW out tile_h tile_w (\<not> u) = Inr mat"
proof -
  define tw where "tw = tile_w div 8 * 9"
  have g: "tile_w mod 8 = 0" "tile_w mod 64 = 0" "tile_h mod 8 = 0" "tile_h \<noteq> 0" "H mod tile_h = 0" "tw \<noteq> 0" "MW mod tw = 0"
    using ok by (auto simp: shuffle_bfp16ebs8_def nbytes_bfp_def tw_def split: if_splits)
  obtain ty tx h w where d: "H = tile_h * ty" "MW = tw * tx" "tile_h = 8 * h" "tw = w * 9"
    using g by (metis dvdE mod_eq_0_iff_dvd tw_def)
  define B where "B = swap_axes ty tile_h tx tw mat"
  define C where "C = swap_axes (ty * tx * h) (if u then w else 8) (if u then 8 else w) 9 B"
  have out: "out = swap_axes ty tx tile_h tw C"
    using ok g d by (auto simp: shuffle_bfp16ebs8_def nbytes_bfp_def tw_def [symmetric] B_def C_def Let_def split: if_splits)
  have lens: "length mat = ty * tile_h * tx * tw" "length B = ty * tx * h * 8 * w * 9" "length C = ty * tx * tile_h * tw"
    using len d by (simp_all add: B_def C_def ac_simps)
  have C: "swap_axes ty tile_h tx tw out = C" unfolding out by (rule swap_axes_twice) (rule lens)
  have B: "swap_axes (ty * tx * h) (if u then 8 else w) (if u then w else 8) 9 C = B"
    unfolding C_def by (rule swap_axes_twice) (simp add: lens)
  have mat: "swap_axes ty tx tile_h tw B = mat" unfolding B_def by (rule swap_axes_twice) (rule lens)
  have "shuffle_bfp16ebs8 H MW out tile_h tile_w (\<not> u) =
      Inr (swap_axes ty tx tile_h tw (swap_axes (ty * tx * h) (if u then 8 else w) (if u then w else 8) 9 (swap_axes ty tile_h tx tw out)))"
    using g d by (auto simp: shuffle_bfp16ebs8_def nbytes_bfp_def tw_def [symmetric] Let_def)
  then have "shuffle_bfp16ebs8 H MW out tile_h tile_w (\<not> u) = Inr mat" unfolding C B mat .
  moreover have "length out = H * MW" using out d by (simp add: ac_simps)
  ultimately show ?thesis by blast
qed

end
