(* ===== verification/Awq.thy ===== *)
theory Awq
  imports Prelude "HOL-Library.Word"
begin

text \<open>
  Four-bit weights: the unpackers and packers of \<^verbatim>\<open>src/programming_examples/llms/llama32_1b_int4/awq_repacker.py\<close> and
  \<^verbatim>\<open>awq_pack.py\<close>, and the tile packers of \<^verbatim>\<open>matrix_multiplication/int4_awq/matmul_int4_packed.py\<close> and
  \<^verbatim>\<open>matrix_vector_multiplication/int4_awq/matvec_int4_packed.py\<close>. The theory follows a weight from the checkpoint's
  permuted nibbles to its byte in the tile of the device. Rounding to bfloat16 and the float product are arguments.
\<close>

unbundle bit_operations_syntax

section \<open>Matrices\<close>

record 'a mat =
  m_rows :: nat
  m_cols :: nat
  m_at :: "nat \<Rightarrow> nat \<Rightarrow> 'a"

definition mat :: "nat \<Rightarrow> nat \<Rightarrow> (nat \<Rightarrow> nat \<Rightarrow> 'a) \<Rightarrow> 'a mat" where
  "mat r c f = \<lparr>m_rows = r, m_cols = c, m_at = f\<rparr>"

lemma mat_simps [simp]: "m_rows (mat r c f) = r" "m_cols (mat r c f) = c" "m_at (mat r c f) = f"
  by (simp_all add: mat_def)

text \<open>\<open>argsort\<close>: the positions in the order of their elements.\<close>

definition argsort :: "nat list \<Rightarrow> nat list" where
  "argsort xs = sort_key (\<lambda>i. xs ! i) [0..<length xs]"

section \<open>Nibbles of the checkpoint\<close>

definition awq_pack_order :: "nat list" where
  "awq_pack_order = [0, 2, 4, 6, 1, 3, 5, 7]"

definition awq_unpack_perm :: "nat list" where
  "awq_unpack_perm = argsort awq_pack_order"

text \<open>One unpacker widens to int64 and shifts arithmetically, the other views the words as uint32.\<close>

definition signed_nibbles :: "32 word \<Rightarrow> 8 word list" where
  "signed_nibbles p = map (\<lambda>i. word_of_int (drop_bit (i * 4) (sint p) AND 0xF)) [0..<8]"

definition unpack_awq_int32 :: "32 word mat \<Rightarrow> 8 word mat" where
  "unpack_awq_int32 packed =
     mat (m_rows packed) (m_cols packed * 8)
       (\<lambda>r c. signed_nibbles (m_at packed r (c div 8)) ! (awq_unpack_perm ! (c mod 8)))"

definition awq_reorder_perm :: "nat list" where
  "awq_reorder_perm = [0, 2, 4, 6, 1, 3, 5, 7]"

definition awq_inv_perm :: "nat list" where
  "awq_inv_perm = argsort awq_reorder_perm"

definition awq_shifts :: "nat list" where
  "awq_shifts = [0, 4, 8, 12, 16, 20, 24, 28]"

definition unsigned_nibbles :: "32 word \<Rightarrow> 8 word list" where
  "unsigned_nibbles p = map (\<lambda>s. ucast (drop_bit s p AND 0xF)) awq_shifts"

text \<open>The second one reshapes to \<open>[n_outer, -1]\<close>.\<close>

definition awq_unpack_int32_to_nibbles :: "32 word mat \<Rightarrow> nat \<Rightarrow> 8 word mat res" where
  "awq_unpack_int32_to_nibbles packed n_outer =
     (let total = m_rows packed * m_cols packed * 8; width = m_cols packed * 8 in
      if n_outer = 0 \<or> total mod n_outer \<noteq> 0 then Inl ValueError
      else let n_cols = total div n_outer in
           Inr (mat n_outer n_cols (\<lambda>r c. let i = r * n_cols + c in
             unsigned_nibbles (m_at packed (i div width) (i mod width div 8)) ! (awq_inv_perm ! (i mod 8)))))"

text \<open>
  The generator of the self-test packs. The in-place \<open>or\<close> of a slice with one column too many raises, unless the slice
  is a single column, which broadcasts to no column.
\<close>

definition pack_word :: "(nat \<Rightarrow> 8 word) \<Rightarrow> 32 word" where
  "pack_word nib = fold (\<lambda>i q. q OR push_bit (4 * i) (ucast (nib (awq_pack_order ! i)))) [0..<8] 0"

definition gen_awq_pack :: "8 word mat \<Rightarrow> 32 word mat res" where
  "gen_awq_pack nibs =
     (if m_cols nibs mod 8 \<noteq> 0 \<and> 8 < m_cols nibs then Inl ValueError
      else Inr (mat (m_rows nibs) (m_cols nibs div 8) (\<lambda>r b. pack_word (\<lambda>k. m_at nibs r (8 * b + k)))))"

section \<open>Dense weights and byte pairs\<close>

definition shape :: "'a mat \<Rightarrow> nat \<times> nat" where
  "shape m = (m_rows m, m_cols m)"

text \<open>
  \<open>np.repeat(\<dots>, group_size, axis=0)\<close> has one row per row of the weights when the groups are whole; else the subtraction
  broadcasts a single row or raises.
\<close>

definition dequant_to_bf16 ::
    "('s \<Rightarrow> 16 word) \<Rightarrow> (int \<Rightarrow> 16 word \<Rightarrow> 'v) \<Rightarrow> ('v \<Rightarrow> 16 word) \<Rightarrow> 32 word mat \<Rightarrow> 32 word mat \<Rightarrow> 's mat \<Rightarrow> nat \<Rightarrow> 16 word mat res" where
  "dequant_to_bf16 cast scaled rnd qweight qzeros scales group_size =
     (let q = unpack_awq_int32 qweight; z = unpack_awq_int32 qzeros; K = m_rows q; N = m_cols q in
      if group_size = 0 then Inl ZeroDivisionError
      else if shape z \<noteq> (K div group_size, N) \<or> shape scales \<noteq> (K div group_size, N) then Inl ValueError
      else if K mod group_size \<noteq> 0 \<and> K \<noteq> 1 then Inl ValueError
      else Inr (mat (K div group_size * group_size) N
        (\<lambda>k n. rnd (scaled (uint (m_at q k n) - uint (m_at z (k div group_size) n)) (cast (m_at scales (k div group_size) n))))))"

text \<open>The other dequantisation takes scales that are bfloat16 already, and asserts the shapes of the packed tensors.\<close>

definition awq_dequant_layer ::
    "(int \<Rightarrow> 16 word \<Rightarrow> 'v) \<Rightarrow> ('v \<Rightarrow> 16 word) \<Rightarrow> 32 word mat \<Rightarrow> 32 word mat \<Rightarrow> 16 word mat \<Rightarrow> nat \<Rightarrow> 16 word mat res" where
  "awq_dequant_layer scaled rnd qweight qzeros scales gs =
     (let K = m_rows qweight; n_packed = m_cols qweight; N = n_packed * 8 in
      if gs = 0 then Inl ZeroDivisionError
      else if K mod gs \<noteq> 0 \<or> shape qzeros \<noteq> (K div gs, n_packed) \<or> shape scales \<noteq> (K div gs, N) then Inl AssertionError
      else res_bind (awq_unpack_int32_to_nibbles qweight K) (\<lambda>W.
           res_bind (awq_unpack_int32_to_nibbles qzeros (K div gs)) (\<lambda>Z.
           Inr (mat K N (\<lambda>k n. rnd (scaled (uint (m_at W k n) - uint (m_at Z (k div gs) n)) (m_at scales (k div gs) n)))))))"

text \<open>The even and the odd columns of an array, combined; a single column broadcasts.\<close>

definition pair_columns :: "('a \<Rightarrow> 'a \<Rightarrow> 'b) \<Rightarrow> 'a mat \<Rightarrow> 'b mat res" where
  "pair_columns f m =
     (let lo = (m_cols m + 1) div 2; hi = m_cols m div 2 in
      if lo \<noteq> hi \<and> lo \<noteq> 1 \<and> hi \<noteq> 1 then Inl ValueError
      else Inr (mat (m_rows m) (if lo = 1 then hi else lo)
        (\<lambda>r j. f (m_at m r (2 * (if lo = 1 then 0 else j))) (m_at m r (2 * (if hi = 1 then 0 else j) + 1)))))"

definition transposed :: "'a mat \<Rightarrow> 'a mat" where
  "transposed m = mat (m_cols m) (m_rows m) (\<lambda>i j. m_at m j i)"

definition repack_hf_awq_linear ::
    "('s \<Rightarrow> 16 word) \<Rightarrow> 32 word mat \<Rightarrow> 32 word mat \<Rightarrow> 's mat \<Rightarrow> nat \<Rightarrow> (8 word mat \<times> 16 word mat \<times> 8 word mat) res" where
  "repack_hf_awq_linear cast qweight qzeros scales group_size =
     (let q = unpack_awq_int32 qweight; z = unpack_awq_int32 qzeros; K = m_rows q; N = m_cols q in
      if group_size = 0 then Inl ZeroDivisionError
      else if shape z \<noteq> (K div group_size, N) \<or> shape scales \<noteq> (K div group_size, N) then Inl ValueError
      else res_bind (pair_columns (\<lambda>lo hi. (lo AND 0x0F) OR push_bit 4 (hi AND 0x0F)) (transposed q)) (\<lambda>A_q.
           Inr (A_q, mat (m_rows scales) (m_cols scales) (\<lambda>g n. cast (m_at scales g n)), z)))"

text \<open>The reference of the matrix multiplication reads the byte pairs back, element by element.\<close>

definition reference_weight ::
    "(int \<Rightarrow> 16 word \<Rightarrow> 'v) \<Rightarrow> 8 word mat \<Rightarrow> 16 word mat \<Rightarrow> 8 word mat \<Rightarrow> nat \<Rightarrow> nat \<Rightarrow> nat \<Rightarrow> 'v" where
  "reference_weight scaled W_q W_s W_z K kk n =
     (let gs = K div m_rows W_s; b = uint (m_at W_q n (kk div 2));
          nib = (if kk mod 2 = 0 then b AND 0x0F else drop_bit 4 b AND 0x0F); g = kk div gs
      in scaled (nib - uint (m_at W_z g n)) (m_at W_s g n))"

section \<open>Tiles\<close>

definition packed_tile_bytes :: "nat \<Rightarrow> nat \<Rightarrow> nat \<Rightarrow> nat \<times> nat \<times> nat \<times> nat" where
  "packed_tile_bytes n_tile k_chunk gs =
     (let n_gpc = k_chunk div gs; q = n_tile * (k_chunk div 2); s = n_gpc * n_tile * 2; z = n_gpc * n_tile in (q, s, z, q + s + z))"

text \<open>The bytes of a slice, whose bounds Python clips, and the assignment of bytes to a part of the tile.\<close>

definition slice_bytes :: "('a \<Rightarrow> 8 word list) \<Rightarrow> 'a mat \<Rightarrow> nat \<Rightarrow> nat \<Rightarrow> nat \<Rightarrow> nat \<Rightarrow> 8 word list" where
  "slice_bytes enc m r h c w =
     concat (map (\<lambda>i. concat (map (\<lambda>j. enc (m_at m i j)) [c..<min (c + w) (m_cols m)])) [r..<min (r + h) (m_rows m)])"

definition fill_part :: "nat \<Rightarrow> 8 word list \<Rightarrow> 8 word list res" where
  "fill_part n bs = (if length bs = n then Inr bs else if length bs = 1 then Inr (replicate n (hd bs)) else Inl ValueError)"

definition bf16_bytes :: "16 word \<Rightarrow> 8 word list" where
  "bf16_bytes w = [ucast w, ucast (drop_bit 8 w)]"

text \<open>The body of both packers: the tile whose first output column is \<open>col_off\<close>, for the chunk \<open>k_outer\<close>.\<close>

definition pack_one_tile :: "8 word mat \<Rightarrow> 16 word mat \<Rightarrow> 8 word mat \<Rightarrow> nat \<Rightarrow> nat \<Rightarrow> nat \<Rightarrow> nat \<Rightarrow> nat \<Rightarrow> 8 word list res" where
  "pack_one_tile W_q W_s W_z n_tile k_chunk gs col_off k_outer =
     (let n_gpc = k_chunk div gs; g_off = k_outer * n_gpc in
      case packed_tile_bytes n_tile k_chunk gs of (q_bytes, s_bytes, z_bytes, _) \<Rightarrow>
      res_bind (fill_part q_bytes (slice_bytes (\<lambda>b. [b]) W_q col_off n_tile (k_outer * (k_chunk div 2)) (k_chunk div 2))) (\<lambda>q.
      res_bind (fill_part s_bytes (slice_bytes bf16_bytes W_s g_off n_gpc col_off n_tile)) (\<lambda>s.
      res_bind (fill_part z_bytes (slice_bytes (\<lambda>b. [b]) W_z g_off n_gpc col_off n_tile)) (\<lambda>z.
      Inr (q @ s @ z)))))"

definition pack_inputs ::
    "8 word mat \<Rightarrow> 16 word mat \<Rightarrow> 8 word mat \<Rightarrow> nat \<Rightarrow> nat \<Rightarrow> nat \<Rightarrow> nat \<Rightarrow> nat \<Rightarrow> 8 word list list list res" where
  "pack_inputs W_q W_s W_z K N gs n_tile k_chunk =
     (if gs = 0 \<or> n_tile = 0 \<or> k_chunk = 0 then Inl ZeroDivisionError
      else map_res (\<lambda>n_outer. map_res (pack_one_tile W_q W_s W_z n_tile k_chunk gs (n_outer * n_tile)) [0..<K div k_chunk])
             [0..<N div n_tile])"

text \<open>The matrix-vector packer lays the tiles out by launch, core, row block and chunk, with a running index.\<close>

definition gemv_rows :: "nat \<Rightarrow> nat \<Rightarrow> nat \<Rightarrow> nat \<Rightarrow> nat list" where
  "gemv_rows M m_tile n_cores m_per_launch =
     (let per_core = m_per_launch div n_cores in
      concat (map (\<lambda>lj. concat (map (\<lambda>c. map (\<lambda>outer. lj * m_per_launch + c * per_core + outer * m_tile)
                                              [0..<per_core div m_tile]) [0..<n_cores])) [0..<M div m_per_launch]))"

definition pack_inputs_gemv ::
    "8 word mat \<Rightarrow> 16 word mat \<Rightarrow> 8 word mat \<Rightarrow> nat \<Rightarrow> nat \<Rightarrow> nat \<Rightarrow> nat \<Rightarrow> nat \<Rightarrow> nat \<Rightarrow> nat \<Rightarrow> 8 word list list res" where
  "pack_inputs_gemv A_q A_s A_z M K gs m_tile k_chunk n_cores m_per_launch =
     (if gs = 0 \<or> n_cores = 0 \<or> m_tile = 0 \<or> k_chunk = 0 \<or> m_per_launch = 0 then Inl ZeroDivisionError
      else map_res (\<lambda>(row_off, kc). pack_one_tile A_q A_s A_z m_tile k_chunk gs row_off kc)
             (List.product (gemv_rows M m_tile n_cores m_per_launch) [0..<K div k_chunk]))"

text \<open>The drivers from the checkpoint to the tiles.\<close>

definition repack_for_gemv ::
    "('s \<Rightarrow> 16 word) \<Rightarrow> 32 word mat \<Rightarrow> 32 word mat \<Rightarrow> 's mat \<Rightarrow> nat \<Rightarrow> nat \<Rightarrow> nat \<Rightarrow> nat \<Rightarrow> 8 word list list res" where
  "repack_for_gemv cast qweight qzeros scales group_size m_tile k_chunk n_cores =
     res_bind (repack_hf_awq_linear cast qweight qzeros scales group_size) (\<lambda>(A_q, A_s, A_z).
     let M = m_rows A_q; K = m_cols A_q * 2 in pack_inputs_gemv A_q A_s A_z M K group_size m_tile k_chunk n_cores M)"

definition awq_pack_for_npu ::
    "('s \<Rightarrow> 16 word) \<Rightarrow> 32 word mat \<Rightarrow> 32 word mat \<Rightarrow> 's mat \<Rightarrow> nat \<Rightarrow> nat \<Rightarrow> nat \<Rightarrow> 8 word list list list res" where
  "awq_pack_for_npu cast qweight qzeros scales gs n_tile k_chunk =
     (let K = m_rows qweight; N = m_cols qweight * 8 in
      if gs = 0 then Inl ZeroDivisionError
      else res_bind (awq_unpack_int32_to_nibbles qweight K) (\<lambda>W.
           res_bind (awq_unpack_int32_to_nibbles qzeros (K div gs)) (\<lambda>Z.
           res_bind (pair_columns (\<lambda>lo hi. lo OR push_bit 4 hi) (transposed W)) (\<lambda>W_q.
           pack_inputs W_q (mat (m_rows scales) (m_cols scales) (\<lambda>g n. cast (m_at scales g n))) Z K N gs n_tile k_chunk))))"

section \<open>Unpacking inverts packing\<close>

lemma nibble_mask: "x AND 0xF = take_bit 4 (x :: 'a :: len word)" "y AND 0xF = take_bit 4 (y :: int)"
  by (simp_all add: take_bit_eq_mask mask_eq_exp_minus_1)

lemma signed_nibble:
  assumes "s \<le> 28"
  shows "word_of_int (drop_bit s (sint (p :: 32 word)) AND 0xF) = (ucast (drop_bit s p AND 0xF) :: 8 word)"
  unfolding nibble_mask
proof (rule bit_word_eqI)
  fix n assume "n < LENGTH(8)"
  have "min 31 (s + n) = s + n" if "n < 4" using that assms by auto
  then show "bit (word_of_int (take_bit 4 (drop_bit s (sint p))) :: 8 word) n = bit (ucast (take_bit 4 (drop_bit s p)) :: 8 word) n"
    using \<open>n < LENGTH(8)\<close> assms by (auto simp: bit_simps min.commute)
qed

lemma nibbles_agree: "signed_nibbles p = unsigned_nibbles p"
  using signed_nibble [of 0 p]
  by (simp add: signed_nibbles_def unsigned_nibbles_def awq_shifts_def upt_rec signed_nibble)

lemma perms: "awq_unpack_perm = [0, 4, 1, 5, 2, 6, 3, 7]" "awq_inv_perm = [0, 4, 1, 5, 2, 6, 3, 7]"
  by code_simp+

lemma other_nibble:
  assumes "take_bit 4 x = x" "j < 8"
  shows "take_bit 4 (drop_bit (4 * j) (push_bit (4 * i) (x :: 32 word))) = (if i = j then x else 0)"
proof (rule bit_word_eqI)
  fix n assume n: "n < LENGTH(32)"
  have x: "bit x m \<Longrightarrow> m < 4" for m using assms(1) by (metis bit_take_bit_iff)
  show "bit (take_bit 4 (drop_bit (4 * j) (push_bit (4 * i) x))) n = bit (if i = j then x else 0) n"
  proof (cases "i = j")
    case True then show ?thesis using n assms(2) x [of n] by (auto simp: bit_simps)
  next
    case False
    have "\<not> (n < 4 \<and> 4 * i \<le> 4 * j + n \<and> 4 * j + n - 4 * i < 4)" using False by linarith
    then show ?thesis using False x by (auto simp: bit_simps)
  qed
qed

lemma nibble_of_fold:
  assumes "\<And>i. i \<in> set ks \<Longrightarrow> take_bit 4 (x i) = x i" "j < 8"
  shows "take_bit 4 (drop_bit (4 * j) (fold (\<lambda>i q. q OR push_bit (4 * i) (x i)) ks (q :: 32 word))) =
    fold (\<lambda>i q. q OR (if i = j then x i else 0)) ks (take_bit 4 (drop_bit (4 * j) q))"
  using assms by (induction ks arbitrary: q) (simp_all add: drop_bit_or take_bit_or other_nibble)

lemma pack_word_nibble:
  assumes small: "\<And>k. k < 8 \<Longrightarrow> nib k < 16" and k: "k < 8"
  shows "unsigned_nibbles (pack_word nib) ! (awq_inv_perm ! k) = nib k"
proof -
  have wide: "take_bit 4 (ucast (nib i) :: 32 word) = ucast (nib i)" if "i < 8" for i
  proof (rule word_uint_eqI)
    have "uint (nib i) < 16" using small [OF that] by (simp add: word_less_def)
    then show "uint (take_bit 4 (ucast (nib i) :: 32 word)) = uint (ucast (nib i) :: 32 word)"
      by (simp add: unsigned_take_bit_eq unsigned_ucast_eq take_bit_int_eq_self)
  qed
  have order: "awq_pack_order ! i < 8" if "i < 8" for i
  proof -
    have "i \<in> {0, 1, 2, 3, 4, 5, 6, 7}" using that by auto
    then show ?thesis by (auto simp: awq_pack_order_def)
  qed
  have nibble: "take_bit 4 (drop_bit (4 * j) (pack_word nib)) = (ucast (nib (awq_pack_order ! j)) :: 32 word)" if j: "j < 8" for j
  proof -
    have "take_bit 4 (drop_bit (4 * j) (pack_word nib)) =
        fold (\<lambda>i q. q OR (if i = j then ucast (nib (awq_pack_order ! i)) else 0)) [0..<8] (0 :: 32 word)"
      unfolding pack_word_def using order wide j by (subst nibble_of_fold) auto
    moreover have "j \<in> {0, 1, 2, 3, 4, 5, 6, 7}" using j by auto
    ultimately show ?thesis by (auto simp: upt_rec)
  qed
  have shifts: "awq_shifts ! j = 4 * j \<and> j < length awq_shifts" if "j < 8" for j
  proof -
    have "j \<in> {0, 1, 2, 3, 4, 5, 6, 7}" using that by auto
    then show ?thesis by (auto simp: awq_shifts_def)
  qed
  have "unsigned_nibbles (pack_word nib) ! j = nib (awq_pack_order ! j)" if j: "j < 8" for j
  proof -
    have "ucast (ucast x :: 32 word) = x" for x :: "8 word" by (rule bit_word_eqI) (simp add: bit_simps)
    then show ?thesis using nibble [OF j] shifts [OF j] by (simp add: unsigned_nibbles_def nibble_mask)
  qed
  moreover have "awq_inv_perm ! k < 8 \<and> awq_pack_order ! (awq_inv_perm ! k) = k"
  proof -
    have "k \<in> {0, 1, 2, 3, 4, 5, 6, 7}" using k by auto
    then show ?thesis by (auto simp: perms awq_pack_order_def)
  qed
  ultimately show ?thesis by simp
qed

text \<open>The two unpackers give the same matrix.\<close>

lemma unpackers_agree:
  assumes "0 < m_rows p"
  shows "\<exists>u. awq_unpack_int32_to_nibbles p (m_rows p) = Inr u \<and> shape u = shape (unpack_awq_int32 p) \<and>
    (\<forall>r < m_rows u. \<forall>c < m_cols u. m_at u r c = m_at (unpack_awq_int32 p) r c)"
proof -
  define w where "w = m_cols p * 8"
  have i: "(r * w + c) div w = r" "(r * w + c) mod w div 8 = c div 8" "(r * w + c) mod 8 = c mod 8" if "c < w" for r c
  proof -
    show "(r * w + c) div w = r" "(r * w + c) mod w div 8 = c div 8" using that by simp_all
    have "r * w + c = c + r * m_cols p * 8" by (simp add: w_def)
    then show "(r * w + c) mod 8 = c mod 8" by (simp only: mod_mult_self1)
  qed
  have "m_rows p * m_cols p * 8 = m_rows p * w" by (simp add: w_def)
  with assms i show ?thesis
    by (simp add: awq_unpack_int32_to_nibbles_def unpack_awq_int32_def shape_def nibbles_agree perms flip: w_def)
qed

lemma unpack_pack_word:
  assumes "c < m_cols nibs" "r < m_rows nibs" "m_cols nibs mod 8 = 0" "\<forall>r < m_rows nibs. \<forall>c < m_cols nibs. m_at nibs r c < 16"
  shows "unsigned_nibbles (pack_word (\<lambda>k. m_at nibs r (8 * (c div 8) + k))) ! (awq_inv_perm ! (c mod 8)) = m_at nibs r c"
proof -
  have "8 * (c div 8) + k < m_cols nibs" if "k < 8" for k
  proof -
    obtain b where "m_cols nibs = 8 * b" using assms(3) by (metis dvdE mod_eq_0_iff_dvd)
    moreover from this assms(1) have "c div 8 < b" by (simp add: div_less_iff_less_mult mult.commute)
    ultimately show ?thesis using that by linarith
  qed
  with assms have "\<And>k. k < 8 \<Longrightarrow> m_at nibs r (8 * (c div 8) + k) < 16" by blast
  from pack_word_nibble [of "\<lambda>k. m_at nibs r (8 * (c div 8) + k)", OF this, of "c mod 8"] show ?thesis by simp
qed

text \<open>
  Packing a matrix of nibbles whose columns are whole blocks of eight and unpacking it gives the matrix back, with
  either unpacker.
\<close>

theorem awq_unpack_inverts_pack:
  assumes "m_cols nibs mod 8 = 0" "0 < m_rows nibs" and small: "\<forall>r < m_rows nibs. \<forall>c < m_cols nibs. m_at nibs r c < 16"
  shows "\<exists>q u. gen_awq_pack nibs = Inr q \<and> awq_unpack_int32_to_nibbles q (m_rows nibs) = Inr u \<and>
           shape u = shape nibs \<and> shape (unpack_awq_int32 q) = shape nibs \<and>
           (\<forall>r < m_rows nibs. \<forall>c < m_cols nibs. m_at u r c = m_at nibs r c \<and> m_at (unpack_awq_int32 q) r c = m_at nibs r c)"
proof -
  define q where "q = mat (m_rows nibs) (m_cols nibs div 8) (\<lambda>r b. pack_word (\<lambda>k. m_at nibs r (8 * b + k)))"
  have pack: "gen_awq_pack nibs = Inr q" using assms by (simp add: gen_awq_pack_def q_def)
  have cols: "m_cols nibs div 8 * 8 = m_cols nibs" using assms(1) by auto
  have un: "shape (unpack_awq_int32 q) = shape nibs"
    by (simp add: unpack_awq_int32_def shape_def q_def cols)
  have at: "m_at (unpack_awq_int32 q) r c = m_at nibs r c" if "r < m_rows nibs" "c < m_cols nibs" for r c
    using unpack_pack_word [OF that(2,1) assms(1) small]
    by (simp add: unpack_awq_int32_def q_def nibbles_agree perms)
  have "m_rows q = m_rows nibs" by (simp add: q_def)
  with unpackers_agree [of q] assms(2) obtain u where
    "awq_unpack_int32_to_nibbles q (m_rows nibs) = Inr u" "shape u = shape (unpack_awq_int32 q)"
    "\<forall>r < m_rows u. \<forall>c < m_cols u. m_at u r c = m_at (unpack_awq_int32 q) r c" by auto
  with pack un at show ?thesis by (intro exI [of _ q] exI [of _ u]) (simp add: shape_def)
qed

text \<open>Two rows of eight nibbles.\<close>

definition sample_nibbles :: "8 word mat" where
  "sample_nibbles = mat 2 8 (\<lambda>r c. if c = 5 then 15 else if even c then 3 else if r = 0 then 14 else 9)"

lemma awq_unpack_inverts_pack_witness:
  "\<exists>q u. gen_awq_pack sample_nibbles = Inr q \<and> awq_unpack_int32_to_nibbles q (m_rows sample_nibbles) = Inr u \<and>
     shape u = shape sample_nibbles \<and> shape (unpack_awq_int32 q) = shape sample_nibbles \<and>
     (\<forall>r < m_rows sample_nibbles. \<forall>c < m_cols sample_nibbles.
        m_at u r c = m_at sample_nibbles r c \<and> m_at (unpack_awq_int32 q) r c = m_at sample_nibbles r c)"
  by (rule awq_unpack_inverts_pack) (simp_all add: sample_nibbles_def)

section \<open>Slices\<close>

lemma concat_map_upt_length:
  "(\<And>i. i < h \<Longrightarrow> length (f (r + i)) = L) \<Longrightarrow> length (concat (map f [r..<r + h])) = h * L"
  by (induction h) auto

lemma concat_map_upt_nth:
  "(\<And>i. i < h \<Longrightarrow> length (f (r + i)) = L) \<Longrightarrow> i < h \<Longrightarrow> x < L \<Longrightarrow> concat (map f [r..<r + h]) ! (i * L + x) = f (r + i) ! x"
proof (induction h)
  case (Suc h)
  have len: "length (concat (map f [r..<r + h])) = h * L" by (rule concat_map_upt_length) (simp add: Suc.prems)
  show ?case
  proof (cases "i = h")
    case True then show ?thesis using len by (simp add: nth_append)
  next
    case False
    with Suc.prems have "i < h" by simp
    then have "i * L + x < h * L"
      using \<open>x < L\<close> by (metis Suc_leI add.commute add_less_cancel_left less_le_trans mult_Suc mult_le_mono1)
    then show ?thesis using Suc \<open>i < h\<close> len by (simp add: nth_append)
  qed
qed simp

lemma slice_within:
  assumes "r + h \<le> m_rows m" "c + w \<le> m_cols m" and e: "\<And>v. length (enc v) = e"
  shows "length (slice_bytes enc m r h c w) = h * (w * e)"
    and "i < h \<Longrightarrow> j < w \<Longrightarrow> b < e \<Longrightarrow> slice_bytes enc m r h c w ! ((i * w + j) * e + b) = enc (m_at m (r + i) (c + j)) ! b"
proof -
  define row where "row = (\<lambda>i. concat (map (\<lambda>j. enc (m_at m i j)) [c..<c + w]))"
  have s: "slice_bytes enc m r h c w = concat (map row [r..<r + h])"
    using assms by (simp add: slice_bytes_def row_def min_def)
  have row: "length (row i) = w * e" for i unfolding row_def by (rule concat_map_upt_length) (simp add: e)
  show "length (slice_bytes enc m r h c w) = h * (w * e)" unfolding s by (rule concat_map_upt_length) (simp add: row)
  assume ij: "i < h" "j < w" "b < e"
  have "j * e + b < w * e"
    using ij by (metis Suc_leI add.commute add_less_cancel_left less_le_trans mult_Suc mult_le_mono1)
  then have "concat (map row [r..<r + h]) ! (i * (w * e) + (j * e + b)) = row (r + i) ! (j * e + b)"
    using ij by (intro concat_map_upt_nth) (simp_all add: row)
  also have "\<dots> = enc (m_at m (r + i) (c + j)) ! b"
    unfolding row_def using ij by (intro concat_map_upt_nth) (simp_all add: e)
  finally show "slice_bytes enc m r h c w ! ((i * w + j) * e + b) = enc (m_at m (r + i) (c + j)) ! b"
    unfolding s by (simp add: algebra_simps)
qed

text \<open>The reader of a tile, as the kernel addresses it: nibble pairs by output column, then scales and zeros by group.\<close>

definition tile_weight :: "(int \<Rightarrow> 16 word \<Rightarrow> 'v) \<Rightarrow> nat \<Rightarrow> nat \<Rightarrow> nat \<Rightarrow> 8 word list \<Rightarrow> nat \<Rightarrow> nat \<Rightarrow> 'v" where
  "tile_weight scaled n_tile k_chunk gs t n k =
     (let q_bytes = n_tile * (k_chunk div 2); s_bytes = k_chunk div gs * n_tile * 2; g = k div gs * n_tile + n;
          b = t ! (n * (k_chunk div 2) + k div 2);
          nib = (if even k then take_bit 4 b else drop_bit 4 b);
          scale = ucast (t ! (q_bytes + 2 * g)) OR push_bit 8 (ucast (t ! (q_bytes + 2 * g + 1)));
          z = t ! (q_bytes + s_bytes + g)
      in scaled (uint nib - uint z) scale)"

lemma bf16_bytes_join: "ucast (bf16_bytes w ! 0) OR push_bit 8 (ucast (bf16_bytes w ! 1)) = w"
proof (rule bit_word_eqI)
  fix n assume "n < LENGTH(16)"
  then show "bit (ucast (bf16_bytes w ! 0) OR push_bit 8 (ucast (bf16_bytes w ! 1)) :: 16 word) n = bit w n"
    by (auto simp: bf16_bytes_def bit_simps)
qed

lemma tile_holds_weights:
  assumes shapes: "(n_out + n_tile) \<le> m_rows W_q" "(kc + 1) * (k_chunk div 2) \<le> m_cols W_q"
    "(kc + 1) * (k_chunk div gs) \<le> m_rows W_s" "n_out + n_tile \<le> m_cols W_s" "shape W_z = shape W_s"
    and gs: "0 < gs" "gs dvd k_chunk" "even k_chunk"
  shows "\<exists>t. pack_one_tile W_q W_s W_z n_tile k_chunk gs n_out kc = Inr t \<and>
    length t = (case packed_tile_bytes n_tile k_chunk gs of (_, _, _, n) \<Rightarrow> n) \<and>
    (\<forall>n < n_tile. \<forall>k < k_chunk. tile_weight scaled n_tile k_chunk gs t n k =
       scaled (uint (let b = m_at W_q (n_out + n) ((kc * k_chunk + k) div 2) in if even k then take_bit 4 b else drop_bit 4 b)
             - uint (m_at W_z ((kc * k_chunk + k) div gs) (n_out + n)))
            (m_at W_s ((kc * k_chunk + k) div gs) (n_out + n)))"
proof -
  define h G where "h = k_chunk div 2" and "G = k_chunk div gs"
  define q s z where "q = slice_bytes (\<lambda>b. [b]) W_q n_out n_tile (kc * h) h"
    and "s = slice_bytes bf16_bytes W_s (kc * G) G n_out n_tile"
    and "z = slice_bytes (\<lambda>b. [b]) W_z (kc * G) G n_out n_tile"
  have z_shape: "m_rows W_z = m_rows W_s" "m_cols W_z = m_cols W_s" using shapes(5) by (auto simp: shape_def)
  have bounds: "kc * h + h \<le> m_cols W_q" "kc * G + G \<le> m_rows W_s" using shapes by (simp_all add: h_def G_def add.commute)
  have lens: "length q = n_tile * h" "length s = G * n_tile * 2" "length z = G * n_tile"
    using slice_within(1) [of n_out n_tile W_q "kc * h" h "\<lambda>b. [b]" 1]
      slice_within(1) [of "kc * G" G W_s n_out n_tile bf16_bytes 2]
      slice_within(1) [of "kc * G" G W_z n_out n_tile "\<lambda>b. [b]" 1] shapes bounds z_shape
    by (simp_all add: q_def s_def z_def bf16_bytes_def)
  have tile: "pack_one_tile W_q W_s W_z n_tile k_chunk gs n_out kc = Inr (q @ s @ z)"
    using lens unfolding pack_one_tile_def packed_tile_bytes_def fill_part_def Let_def
    by (simp flip: q_def s_def z_def h_def G_def)
  have "tile_weight scaled n_tile k_chunk gs (q @ s @ z) n k =
       scaled (uint (let b = m_at W_q (n_out + n) ((kc * k_chunk + k) div 2) in if even k then take_bit 4 b else drop_bit 4 b)
             - uint (m_at W_z ((kc * k_chunk + k) div gs) (n_out + n)))
            (m_at W_s ((kc * k_chunk + k) div gs) (n_out + n))" if nk: "n < n_tile" "k < k_chunk" for n k
  proof -
    obtain m where m: "k_chunk = 2 * m" using gs(3) by (rule evenE)
    define g where "g = k div gs"
    have kG: "k_chunk = gs * G" using gs by (simp add: G_def)
    have "kc * k_chunk + k = k + kc * G * gs" by (simp add: kG)
    then have "(kc * k_chunk + k) div gs = (k + kc * G * gs) div gs" by (rule arg_cong)
    also have "\<dots> = kc * G + g" using gs by (simp add: g_def)
    finally have g: "g < G" "(kc * k_chunk + k) div gs = kc * G + g"
      using nk gs by (simp_all add: g_def kG div_less_iff_less_mult mult.commute [of G])
    have k: "k div 2 < h" "(kc * k_chunk + k) div 2 = kc * h + k div 2" using nk m by (auto simp: h_def)
    have inside: "i * w + j < n * w" if "i < n" "j < w" for i j n w :: nat
      using that by (metis Suc_leI add.commute add_less_cancel_left less_le_trans mult_Suc mult_le_mono1)
    have "q ! (n * h + k div 2) = m_at W_q (n_out + n) (kc * h + k div 2)"
      using slice_within(2) [of n_out n_tile W_q "kc * h" h "\<lambda>b. [b]" 1 n "k div 2" 0] shapes bounds nk k by (simp add: q_def)
    moreover have "s ! (2 * (g * n_tile + n) + b) = bf16_bytes (m_at W_s (kc * G + g) (n_out + n)) ! b" if "b < 2" for b
      using slice_within(2) [of "kc * G" G W_s n_out n_tile bf16_bytes 2 g n b] shapes bounds nk g that
      by (simp add: s_def bf16_bytes_def mult.commute)
    from this [of 0] this [of 1]
    have "s ! (2 * (g * n_tile + n)) = bf16_bytes (m_at W_s (kc * G + g) (n_out + n)) ! 0"
      "s ! (2 * (g * n_tile + n) + 1) = bf16_bytes (m_at W_s (kc * G + g) (n_out + n)) ! 1" by simp_all
    moreover have "z ! (g * n_tile + n) = m_at W_z (kc * G + g) (n_out + n)"
      using slice_within(2) [of "kc * G" G W_z n_out n_tile "\<lambda>b. [b]" 1 g n 0] shapes bounds nk g z_shape by (simp add: z_def)
    moreover have "n * h + k div 2 < n_tile * h" "g * n_tile + n < G * n_tile"
      using inside nk k g by blast+
    ultimately show ?thesis
      using lens k g(2)
      by (simp add: tile_weight_def Let_def nth_append bf16_bytes_join [unfolded One_nat_def] flip: h_def G_def g_def)
  qed
  with tile lens show ?thesis
    by (intro exI [of _ "q @ s @ z"]) (simp add: packed_tile_bytes_def Let_def flip: h_def G_def)
qed

section \<open>From the checkpoint to the tiles\<close>

lemma pair_columns_even:
  assumes "even (m_cols m)"
  shows "\<exists>p. pair_columns f m = Inr p \<and> shape p = (m_rows m, m_cols m div 2) \<and>
    (\<forall>r. \<forall>j < m_cols m div 2. m_at p r j = f (m_at m r (2 * j)) (m_at m r (2 * j + 1)))"
proof -
  have "(m_cols m + 1) div 2 = m_cols m div 2" using assms by presburger
  then show ?thesis by (auto simp: pair_columns_def shape_def Let_def)
qed

lemma unpacked_small:
  assumes "c < m_cols (unpack_awq_int32 p)"
  shows "take_bit 4 (m_at (unpack_awq_int32 p) r c) = m_at (unpack_awq_int32 p) r c"
proof -
  have "c mod 8 \<in> {0, 1, 2, 3, 4, 5, 6, 7}" by auto
  then have "awq_unpack_perm ! (c mod 8) < length awq_shifts" by (auto simp: perms awq_shifts_def)
  then show ?thesis
    by (auto simp: unpack_awq_int32_def nibbles_agree unsigned_nibbles_def nibble_mask intro!: bit_word_eqI simp: bit_simps)
qed

lemma byte_pair:
  assumes "take_bit 4 lo = lo" "take_bit 4 hi = (hi :: 8 word)"
  shows "take_bit 4 (lo OR push_bit 4 hi) = lo" "drop_bit 4 (lo OR push_bit 4 hi) = hi"
proof -
  have b: "bit lo n \<Longrightarrow> n < 4" "bit hi n \<Longrightarrow> n < 4" for n using assms by (metis bit_take_bit_iff)+
  show "take_bit 4 (lo OR push_bit 4 hi) = lo" "drop_bit 4 (lo OR push_bit 4 hi) = hi"
    by (rule bit_word_eqI; use b in \<open>force simp: bit_simps\<close>)+
qed

lemma tile_in_range:
  assumes "shape W_q = (N, K div 2)" "shape W_s = (K div gs, N)" "0 < gs" "gs dvd k_chunk" "even k_chunk" "k_chunk dvd K" "0 < k_chunk"
    and "i < N div n_tile" "kc < K div k_chunk"
  shows "i * n_tile + n_tile \<le> m_rows W_q" "(kc + 1) * (k_chunk div 2) \<le> m_cols W_q"
    "(kc + 1) * (k_chunk div gs) \<le> m_rows W_s" "i * n_tile + n_tile \<le> m_cols W_s"
proof -
  obtain a where a: "K = k_chunk * a" using assms(6) by blast
  obtain b where b: "k_chunk = gs * b" using assms(4) by blast
  obtain c where c: "k_chunk = 2 * c" using assms(5) by (rule evenE)
  have "kc + 1 \<le> a" using assms(7,9) by (simp add: a)
  then have "(kc + 1) * c \<le> a * c" "(kc + 1) * b \<le> a * b" by (intro mult_le_mono1; simp)+
  moreover have "K div 2 = a * c" by (simp add: a c)
  moreover have "K div gs = a * b" using assms(3) by (simp add: a b)
  moreover have "k_chunk div 2 = c" using c by simp
  moreover have "k_chunk div gs = b" unfolding b using assms(3) by simp
  moreover have "(i + 1) * n_tile \<le> N"
  proof -
    have "(i + 1) * n_tile \<le> N div n_tile * n_tile" using assms(8) by (intro mult_le_mono1) simp
    then show ?thesis by (meson div_times_less_eq_dividend le_trans)
  qed
  ultimately show "i * n_tile + n_tile \<le> m_rows W_q" "(kc + 1) * (k_chunk div 2) \<le> m_cols W_q"
    "(kc + 1) * (k_chunk div gs) \<le> m_rows W_s" "i * n_tile + n_tile \<le> m_cols W_s"
    using assms(1,2) by (simp_all add: shape_def)
qed

lemma pack_inputs_tiles:
  assumes "shape W_q = (N, K div 2)" "shape W_s = (K div gs, N)" "shape W_z = shape W_s"
    and "0 < gs" "gs dvd k_chunk" "even k_chunk" "0 < k_chunk" "k_chunk dvd K" "0 < n_tile"
  shows "\<exists>tiles. pack_inputs W_q W_s W_z K N gs n_tile k_chunk = Inr tiles \<and> length tiles = N div n_tile \<and>
    (\<forall>i < N div n_tile. length (tiles ! i) = K div k_chunk \<and>
      (\<forall>kc < K div k_chunk. pack_one_tile W_q W_s W_z n_tile k_chunk gs (i * n_tile) kc = Inr (tiles ! i ! kc)))"
proof -
  define T where "T = (\<lambda>i kc. projr (pack_one_tile W_q W_s W_z n_tile k_chunk gs (i * n_tile) kc))"
  have T: "pack_one_tile W_q W_s W_z n_tile k_chunk gs (i * n_tile) kc = Inr (T i kc)"
    if "i < N div n_tile" "kc < K div k_chunk" for i kc
  proof -
    have "\<exists>t. pack_one_tile W_q W_s W_z n_tile k_chunk gs (i * n_tile) kc = Inr t"
      using tile_holds_weights [OF tile_in_range [OF assms(1,2,4,5,6,8,7) that] assms(3) assms(4,5,6), of "\<lambda>_ _. ()"] by blast
    then show ?thesis by (auto simp: T_def)
  qed
  have "pack_inputs W_q W_s W_z K N gs n_tile k_chunk =
      Inr (map (\<lambda>i. map (T i) [0..<K div k_chunk]) [0..<N div n_tile])"
    using assms T by (auto simp: pack_inputs_def intro!: map_res_all_Inr)
  then show ?thesis by (auto simp: T)
qed

text \<open>
  C20: the tiles that the layer packer builds from the checkpoint hold exactly the weights of the dense dequantisation:
  reading a tile as the kernel addresses it and rounding gives, for every input and output feature, the element of the
  dense matrix.
\<close>

theorem awq_tiles_hold_weights:
  assumes K: "0 < m_rows qweight" "k_chunk dvd m_rows qweight" "0 < k_chunk" "even k_chunk" and gs: "0 < gs" "gs dvd k_chunk"
    and N: "0 < n_tile" "n_tile dvd m_cols qweight * 8"
    and shapes: "shape qzeros = (m_rows qweight div gs, m_cols qweight)" "shape scales = (m_rows qweight div gs, m_cols qweight * 8)"
  shows "\<exists>tiles D. awq_pack_for_npu cast qweight qzeros scales gs n_tile k_chunk = Inr tiles \<and>
      dequant_to_bf16 cast scaled rnd qweight qzeros scales gs = Inr D \<and> shape D = (m_rows qweight, m_cols qweight * 8) \<and>
      (\<forall>k < m_rows qweight. \<forall>n < m_cols qweight * 8.
         rnd (tile_weight scaled n_tile k_chunk gs (tiles ! (n div n_tile) ! (k div k_chunk)) (n mod n_tile) (k mod k_chunk)) = m_at D k n)"
proof -
  define K N where "K = m_rows qweight" and "N = m_cols qweight * 8"
  define Q Z where "Q = unpack_awq_int32 qweight" and "Z = unpack_awq_int32 qzeros"
  define S where "S = mat (m_rows scales) (m_cols scales) (\<lambda>g n. cast (m_at scales g n))"
  have dims: "shape Q = (K, N)" "shape Z = (K div gs, N)" "shape S = (K div gs, N)"
    using shapes by (simp_all add: Q_def Z_def S_def unpack_awq_int32_def shape_def K_def N_def)
  have dK: "even K" "gs dvd K" "0 < K div gs"
    using assms by (auto simp: K_def intro: dvd_trans) (metis K(1) dvd_div_eq_0_iff dvd_trans gr0I less_not_refl2)
  obtain W where W: "awq_unpack_int32_to_nibbles qweight K = Inr W" "shape W = (K, N)"
    "\<And>r c. r < K \<Longrightarrow> c < N \<Longrightarrow> m_at W r c = m_at Q r c"
    using unpackers_agree [of qweight] K(1) dims(1) by (auto simp: K_def Q_def shape_def)
  obtain Zu where Zu: "awq_unpack_int32_to_nibbles qzeros (K div gs) = Inr Zu" "shape Zu = (K div gs, N)"
    "\<And>r c. r < K div gs \<Longrightarrow> c < N \<Longrightarrow> m_at Zu r c = m_at Z r c"
    using unpackers_agree [of qzeros] dK(3) dims(2) shapes(1) by (auto simp: K_def Z_def shape_def)
  obtain W_q where W_q: "pair_columns (\<lambda>lo hi. lo OR push_bit 4 hi) (transposed W) = Inr W_q" "shape W_q = (N, K div 2)"
    "\<And>n j. j < K div 2 \<Longrightarrow> m_at W_q n j = m_at W (2 * j) n OR push_bit 4 (m_at W (2 * j + 1) n)"
    using pair_columns_even [of "transposed W" "\<lambda>lo hi. lo OR push_bit 4 hi"] dK(1) W(2) by (auto simp: transposed_def shape_def)
  obtain tiles where tiles: "pack_inputs W_q S Zu K N gs n_tile k_chunk = Inr tiles"
    "\<And>i kc. i < N div n_tile \<Longrightarrow> kc < K div k_chunk \<Longrightarrow> pack_one_tile W_q S Zu n_tile k_chunk gs (i * n_tile) kc = Inr (tiles ! i ! kc)"
    using pack_inputs_tiles [of W_q N K S gs Zu k_chunk n_tile] W_q(2) dims(3) Zu(2) assms by (auto simp: K_def)
  have packed: "awq_pack_for_npu cast qweight qzeros scales gs n_tile k_chunk = Inr tiles"
    using W(1) Zu(1) W_q(1) tiles(1) gs(1) by (simp add: awq_pack_for_npu_def Let_def flip: K_def N_def S_def)
  define D where "D = mat K N (\<lambda>k n. rnd (scaled (uint (m_at Q k n) - uint (m_at Z (k div gs) n)) (cast (m_at scales (k div gs) n))))"
  have D: "dequant_to_bf16 cast scaled rnd qweight qzeros scales gs = Inr D"
    using gs(1) dims shapes(2) dK by (simp add: dequant_to_bf16_def Let_def D_def shape_def flip: Q_def Z_def K_def N_def)
  have "rnd (tile_weight scaled n_tile k_chunk gs (tiles ! (n div n_tile) ! (k div k_chunk)) (n mod n_tile) (k mod k_chunk)) = m_at D k n"
    if kn: "k < K" "n < N" for k n
  proof -
    define i kc where "i = n div n_tile" and "kc = k div k_chunk"
    have i: "i < N div n_tile" "i * n_tile + n mod n_tile = n" "n mod n_tile < n_tile"
      using kn N by (auto simp: i_def N_def div_less_iff_less_mult)
    have kc: "kc < K div k_chunk" "kc * k_chunk + k mod k_chunk = k" "k mod k_chunk < k_chunk"
      using kn K by (auto simp: kc_def K_def div_less_iff_less_mult)
    have parity: "even (k mod k_chunk) = even k" using K(4) by (simp add: dvd_mod_iff)
    obtain m where m: "K = 2 * m" using dK(1) by (rule evenE)
    have j: "2 * (k div 2) < K" "2 * (k div 2) + 1 < K" "k div 2 < K div 2" using kn(1) unfolding m by presburger+
    obtain G where G: "K = gs * G" using dK(2) by blast
    have g: "k div gs < K div gs" using kn(1) gs(1) by (simp add: G div_less_iff_less_mult mult.commute)
    define lo hi where "lo = m_at Q (2 * (k div 2)) n" and "hi = m_at Q (2 * (k div 2) + 1) n"
    have small: "take_bit 4 lo = lo" "take_bit 4 hi = hi"
      unfolding lo_def hi_def Q_def by (rule unpacked_small; use dims(1) kn(2) in \<open>simp add: shape_def Q_def\<close>)+
    have "m_at W_q n (k div 2) = lo OR push_bit 4 hi" using W_q(3) W(3) j kn(2) by (simp add: lo_def hi_def)
    then have nib: "(let b = m_at W_q n (k div 2) in if even k then take_bit 4 b else drop_bit 4 b) = m_at Q k n"
      using byte_pair [OF small] by (cases "even k") (simp_all add: lo_def hi_def odd_two_times_div_two_succ [unfolded One_nat_def])
    have "tile_weight scaled n_tile k_chunk gs (tiles ! i ! kc) (n mod n_tile) (k mod k_chunk) =
        scaled (uint (m_at Q k n) - uint (m_at Zu (k div gs) n)) (m_at S (k div gs) n)"
      using tile_holds_weights [OF tile_in_range [OF W_q(2) dims(3) gs(1,2) K(4) K(2) [folded K_def] K(3) i(1) kc(1)] _ gs(1,2) K(4), of Zu scaled]
        tiles(2) [OF i(1) kc(1)] dims(3) Zu(2) i kc(2,3) parity nib by (auto simp: Let_def)
    then show ?thesis using Zu(3) [OF g kn(2)] by (simp add: D_def S_def flip: i_def kc_def)
  qed
  with packed D show ?thesis by (auto simp: D_def shape_def K_def N_def)
qed

text \<open>Four input features in two groups, eight output features in two tiles of two chunks.\<close>

definition sample_checkpoint :: "nat \<Rightarrow> 32 word mat" where
  "sample_checkpoint n = mat n 1 (\<lambda>r c. 0x9ABCDEF1 + of_nat (0x1357 * r))"

definition sample_scales :: "16 word mat" where
  "sample_scales = mat 2 8 (\<lambda>r c. of_nat (300 * r + 77 * c + 1))"

lemma awq_tiles_hold_weights_witness:
  "\<exists>tiles D. awq_pack_for_npu (\<lambda>w. w) (sample_checkpoint 4) (sample_checkpoint 2) sample_scales 2 4 2 = Inr tiles \<and>
      dequant_to_bf16 (\<lambda>w. w) (\<lambda>i w. i * uint w) word_of_int (sample_checkpoint 4) (sample_checkpoint 2) sample_scales 2 = Inr D \<and>
      shape D = (m_rows (sample_checkpoint 4), m_cols (sample_checkpoint 4) * 8) \<and>
      (\<forall>k < m_rows (sample_checkpoint 4). \<forall>n < m_cols (sample_checkpoint 4) * 8.
         word_of_int (tile_weight (\<lambda>i w. i * uint w) 4 2 2 (tiles ! (n div 4) ! (k div 2)) (n mod 4) (k mod 2)) = m_at D k n)"
  by (rule awq_tiles_hold_weights) (simp_all add: sample_checkpoint_def sample_scales_def shape_def)

text \<open>The two dequantisations agree.\<close>

lemma dequants_agree:
  assumes K: "0 < m_rows qweight" and gs: "0 < gs" "gs dvd m_rows qweight"
    and shapes: "shape qzeros = (m_rows qweight div gs, m_cols qweight)" "shape scales = (m_rows qweight div gs, m_cols qweight * 8)"
  shows "\<exists>D L. dequant_to_bf16 (\<lambda>s. s) scaled rnd qweight qzeros scales gs = Inr D \<and>
      awq_dequant_layer scaled rnd qweight qzeros scales gs = Inr L \<and> shape L = shape D \<and>
      (\<forall>k < m_rows qweight. \<forall>n < m_cols qweight * 8. m_at L k n = m_at D k n)"
proof -
  define K N where "K = m_rows qweight" and "N = m_cols qweight * 8"
  define Q Z where "Q = unpack_awq_int32 qweight" and "Z = unpack_awq_int32 qzeros"
  obtain G where G: "K = gs * G" using gs by (auto simp: K_def)
  have dims: "shape Q = (K, N)" "shape Z = (K div gs, N)" "0 < K div gs"
    using shapes K gs G by (simp_all add: Q_def Z_def unpack_awq_int32_def shape_def K_def N_def)
  obtain W where W: "awq_unpack_int32_to_nibbles qweight K = Inr W" "\<And>r c. r < K \<Longrightarrow> c < N \<Longrightarrow> m_at W r c = m_at Q r c"
    using unpackers_agree [of qweight] K dims(1) by (auto simp: K_def Q_def shape_def)
  obtain Zu where Zu: "awq_unpack_int32_to_nibbles qzeros (K div gs) = Inr Zu"
    "\<And>r c. r < K div gs \<Longrightarrow> c < N \<Longrightarrow> m_at Zu r c = m_at Z r c"
    using unpackers_agree [of qzeros] dims(2,3) shapes(1) by (auto simp: K_def Z_def shape_def)
  define L where "L = mat K N (\<lambda>k n. rnd (scaled (uint (m_at W k n) - uint (m_at Zu (k div gs) n)) (m_at scales (k div gs) n)))"
  define D where "D = mat K N (\<lambda>k n. rnd (scaled (uint (m_at Q k n) - uint (m_at Z (k div gs) n)) (m_at scales (k div gs) n)))"
  have "awq_dequant_layer scaled rnd qweight qzeros scales gs = Inr L"
    using gs shapes W(1) Zu(1) by (simp add: awq_dequant_layer_def Let_def L_def flip: K_def N_def)
  moreover have "dequant_to_bf16 (\<lambda>s. s) scaled rnd qweight qzeros scales gs = Inr D"
    using gs shapes(2) dims by (simp add: dequant_to_bf16_def Let_def D_def shape_def flip: Q_def Z_def K_def N_def)
  moreover have "m_at L k n = m_at D k n" if "k < K" "n < N" for k n
  proof -
    have "k div gs < K div gs" using that gs(1) by (simp add: G div_less_iff_less_mult mult.commute)
    then show ?thesis using W(2) Zu(2) that by (simp add: L_def D_def)
  qed
  ultimately show ?thesis by (intro exI [of _ D] exI [of _ L]) (simp add: K_def N_def L_def D_def shape_def)
qed

text \<open>The repacked tensors give the same weights, read back by the reference of the multiplication.\<close>

lemma byte_nibbles:
  "uint (b :: 8 word) AND 0x0F = uint (take_bit 4 b)"
  "drop_bit 4 (uint (b :: 8 word)) AND 0x0F = uint (drop_bit 4 b)"
proof -
  have "n < 8" if "bit b n" for n using bit_imp_le_length [OF that] by simp
  then show "uint b AND 0x0F = uint (take_bit 4 b)" "drop_bit 4 (uint b) AND 0x0F = uint (drop_bit 4 b)"
    unfolding nibble_mask by (auto intro!: bit_eqI simp: bit_simps) fastforce
qed

lemma repacked_weights:
  assumes K: "0 < m_rows qweight" "even (m_rows qweight)" and gs: "0 < gs" "gs dvd m_rows qweight"
    and shapes: "shape qzeros = (m_rows qweight div gs, m_cols qweight)" "shape scales = (m_rows qweight div gs, m_cols qweight * 8)"
    and D: "dequant_to_bf16 cast scaled rnd qweight qzeros scales gs = Inr D"
  shows "\<exists>A_q A_s A_z. repack_hf_awq_linear cast qweight qzeros scales gs = Inr (A_q, A_s, A_z) \<and>
      (\<forall>k < m_rows qweight. \<forall>n < m_cols qweight * 8.
        rnd (reference_weight scaled A_q A_s A_z (m_rows qweight) k n) = m_at D k n)"
proof -
  define K N where "K = m_rows qweight" and "N = m_cols qweight * 8"
  define Q Z where "Q = unpack_awq_int32 qweight" and "Z = unpack_awq_int32 qzeros"
  define S where "S = mat (m_rows scales) (m_cols scales) (\<lambda>g n. cast (m_at scales g n))"
  have dims: "shape Q = (K, N)" "shape Z = (K div gs, N)"
    using shapes by (simp_all add: Q_def Z_def unpack_awq_int32_def shape_def K_def N_def)
  obtain A_q where A_q: "pair_columns (\<lambda>lo hi. (lo AND 0x0F) OR push_bit 4 (hi AND 0x0F)) (transposed Q) = Inr A_q"
    "\<And>n j. j < K div 2 \<Longrightarrow> m_at A_q n j = (m_at Q (2 * j) n AND 0x0F) OR push_bit 4 (m_at Q (2 * j + 1) n AND 0x0F)"
    using pair_columns_even [of "transposed Q" "\<lambda>lo hi. (lo AND 0x0F) OR push_bit 4 (hi AND 0x0F)"] K(2) dims(1)
    by (auto simp: transposed_def shape_def K_def)
  have repack: "repack_hf_awq_linear cast qweight qzeros scales gs = Inr (A_q, S, Z)"
    using gs(1) dims shapes(2) A_q(1) by (simp add: repack_hf_awq_linear_def Let_def shape_def K_def N_def S_def flip: Q_def Z_def)
  have D_at: "m_at D k n = rnd (scaled (uint (m_at Q k n) - uint (m_at Z (k div gs) n)) (m_at S (k div gs) n))" for k n
    using D gs dims shapes(2) by (auto simp: dequant_to_bf16_def Let_def S_def K_def shape_def simp flip: Q_def Z_def split: if_splits)
  have "rnd (reference_weight scaled A_q S Z K k n) = m_at D k n" if kn: "k < K" "n < N" for k n
  proof -
    obtain m where m: "K = 2 * m" using K(2) unfolding K_def by (rule evenE)
    have j: "2 * (k div 2) < K" "2 * (k div 2) + 1 < K" "k div 2 < K div 2" using kn(1) unfolding m by presburger+
    have "K div m_rows S = gs"
      using K(1) gs shapes(2) by (auto simp: S_def K_def shape_def elim!: dvdE)
    moreover have small: "take_bit 4 (m_at Q i n) = m_at Q i n" for i
      unfolding Q_def by (rule unpacked_small) (use dims(1) kn(2) in \<open>simp add: shape_def Q_def\<close>)
    define lo hi where "lo = m_at Q (2 * (k div 2)) n" and "hi = m_at Q (2 * (k div 2) + 1) n"
    have b: "m_at A_q n (k div 2) = lo OR push_bit 4 hi"
      unfolding A_q(2) [OF j(3)] nibble_mask small by (simp add: lo_def hi_def)
    have Q: "m_at Q k n = (if even k then lo else hi)"
      by (simp add: lo_def hi_def odd_two_times_div_two_succ [unfolded One_nat_def])
    note byte_pair [OF small small]
    then have "take_bit 4 (lo OR push_bit 4 hi) = lo" "drop_bit 4 (lo OR push_bit 4 hi) = hi" unfolding lo_def hi_def by blast+
    then have "(if k mod 2 = 0 then uint (m_at A_q n (k div 2)) AND 0x0F else drop_bit 4 (uint (m_at A_q n (k div 2))) AND 0x0F) = uint (m_at Q k n)"
      unfolding b Q byte_nibbles by (simp add: even_iff_mod_2_eq_zero)
    ultimately show ?thesis by (simp add: reference_weight_def Let_def D_at)
  qed
  with repack show ?thesis by (auto simp: K_def N_def)
qed

text \<open>The tiles of the matrix-vector packer are those of the matrix packer, in order.\<close>

lemma concat_blocks: "concat (map (\<lambda>a. map (\<lambda>b. f (a * n + b)) [0..<n]) [0..<m]) = map f [0..<m * n]"
proof (induction m)
  case (Suc m)
  have "map f [m * n..<m * n + n] = map (\<lambda>b. f (m * n + b)) [0..<n]"
    by (rule nth_equalityI) simp_all
  moreover have "[0..<Suc m * n] = [0..<m * n] @ [m * n..<m * n + n]"
    by (metis add.commute le0 mult_Suc upt_add_eq_append)
  ultimately show ?case using Suc by simp
qed simp

lemma gemv_rows_consecutive:
  assumes "m_tile dvd m_per_launch div n_cores" "n_cores dvd m_per_launch" "m_per_launch dvd M" "0 < n_cores" "0 < m_tile" "0 < m_per_launch"
  shows "gemv_rows M m_tile n_cores m_per_launch = map (\<lambda>i. i * m_tile) [0..<M div m_tile]"
proof -
  obtain p where p: "m_per_launch = n_cores * p" using assms(2) by blast
  obtain d where d: "p = m_tile * d" using assms(1,4) by (auto simp: p)
  obtain l where l: "M = m_per_launch * l" using assms(3) by blast
  define row where "row = (\<lambda>i. map (\<lambda>b. (i * d + b) * m_tile) [0..<d])"
  have flat: "concat (map (\<lambda>x. concat (f x)) xs) = concat (concat (map f xs))" for f :: "nat \<Rightarrow> nat list list" and xs
    by (induction xs) simp_all
  have "gemv_rows M m_tile n_cores m_per_launch =
      concat (map (\<lambda>lj. concat (map (\<lambda>c. row (lj * n_cores + c)) [0..<n_cores])) [0..<l])"
    using assms by (simp add: gemv_rows_def row_def p d l algebra_simps)
  also have "\<dots> = concat (map row [0..<l * n_cores])" by (simp only: flat concat_blocks)
  also have "\<dots> = map (\<lambda>i. i * m_tile) [0..<l * n_cores * d]"
    unfolding row_def by (rule concat_blocks)
  also have "l * n_cores * d = M div m_tile" using assms(5) by (simp add: l p d)
  finally show ?thesis .
qed

lemma map_res_append: "map_res f (xs @ ys) = res_bind (map_res f xs) (\<lambda>us. res_bind (map_res f ys) (\<lambda>vs. Inr (us @ vs)))"
  by (induction xs) (auto simp: res_bind_def split: sum.splits)

lemma map_res_map: "map_res f (map g xs) = map_res (\<lambda>x. f (g x)) xs"
  by (induction xs) simp_all

lemma map_res_product:
  "map_res (\<lambda>(x, y). f x y) (List.product xs ys) = res_bind (map_res (\<lambda>x. map_res (f x) ys) xs) (\<lambda>zs. Inr (concat zs))"
  by (induction xs) (auto simp: map_res_append map_res_map res_bind_def split: sum.splits)

text \<open>
  When the row blocks divide the rows of a core, the cores those of a launch, and the launches the rows, the
  matrix-vector packer raises when the matrix packer raises on the same operands, and otherwise its tiles are the matrix
  packer's in row-major order; so launches and cores only number the tiles.
\<close>

theorem gemv_tiles_are_gemm_tiles:
  assumes "m_tile dvd m_per_launch div n_cores" "n_cores dvd m_per_launch" "m_per_launch dvd M"
    "0 < n_cores" "0 < m_tile" "0 < m_per_launch"
  shows "pack_inputs_gemv A_q A_s A_z M K gs m_tile k_chunk n_cores m_per_launch =
         res_bind (pack_inputs A_q A_s A_z K M gs m_tile k_chunk) (\<lambda>tiles. Inr (concat tiles))"
  using assms
  by (auto simp: pack_inputs_gemv_def pack_inputs_def gemv_rows_consecutive map_res_product map_res_map)


lemma gemv_tiles_are_gemm_tiles_witness:
  "pack_inputs_gemv (mat 8 1 (\<lambda>r c. of_nat r)) sample_scales (mat 2 8 (\<lambda>r c. 3)) 8 2 1 2 2 2 4 =
   res_bind (pack_inputs (mat 8 1 (\<lambda>r c. of_nat r)) sample_scales (mat 2 8 (\<lambda>r c. 3)) 2 8 1 2 2) (\<lambda>tiles. Inr (concat tiles))"
  by (rule gemv_tiles_are_gemm_tiles) simp_all

text \<open>The second tile of that call: two bytes of nibble pairs, two groups of two scales, and their zeros.\<close>

lemma second_tile:
  "pack_one_tile (mat 8 1 (\<lambda>r c. of_nat r)) sample_scales (mat 2 8 (\<lambda>r c. 3)) 2 2 1 2 0 =
     Inr [2, 3, 155, 0, 232, 0, 199, 1, 20, 2, 3, 3, 3, 3]"
  by code_simp

end
