(* ===== verification/Nd_Array.thy ===== *)
theory Nd_Array
  imports Prelude "HOL-Library.Word"
begin

text \<open>
  The part of numpy that the weight codecs use: an array is its shape and its elements in row-major order, so that \<open>reshape\<close>
  keeps the elements and \<open>transpose\<close> moves them. An element is addressed by its indices.
\<close>

unbundle bit_operations_syntax

section \<open>Arrays\<close>

record 'a nd =
  nd_shape :: "nat list"
  nd_data :: "'a list"

fun ravel :: "nat list \<Rightarrow> nat list \<Rightarrow> nat" where
  "ravel (n # ns) (i # is) = i * prod_list ns + ravel ns is"
| "ravel ns is = 0"

fun indices :: "nat list \<Rightarrow> nat list list" where
  "indices [] = [[]]"
| "indices (n # ns) = concat (map (\<lambda>i. map ((#) i) (indices ns)) [0..<n])"

definition nd_get :: "'a nd \<Rightarrow> nat list \<Rightarrow> 'a" where
  "nd_get a is = nd_data a ! ravel (nd_shape a) is"

definition nd_build :: "nat list \<Rightarrow> (nat list \<Rightarrow> 'a) \<Rightarrow> 'a nd" where
  "nd_build ns f = \<lparr>nd_shape = ns, nd_data = map f (indices ns)\<rparr>"

definition nd_full :: "'a nd \<Rightarrow> bool" where
  "nd_full a \<longleftrightarrow> length (nd_data a) = prod_list (nd_shape a)"

definition in_shape :: "nat list \<Rightarrow> nat list \<Rightarrow> bool" where
  "in_shape ns is \<longleftrightarrow> list_all2 (<) is ns"

lemma inside_simps [simp]:
  "in_shape [] is \<longleftrightarrow> is = []" "in_shape (n # ns) (i # is) \<longleftrightarrow> i < n \<and> in_shape ns is" "\<not> in_shape (n # ns) []"
  by (auto simp: in_shape_def)

lemma inside_Cons: "in_shape (n # ns) is \<longleftrightarrow> (\<exists>i js. is = i # js \<and> i < n \<and> in_shape ns js)"
  by (auto simp: in_shape_def list_all2_Cons2)

lemma set_indices: "is \<in> set (indices ns) \<longleftrightarrow> in_shape ns is"
proof (induction ns arbitrary: "is")
  case (Cons n ns)
  then show ?case by (auto simp: inside_Cons image_iff)
qed simp

lemma length_indices [simp]: "length (indices ns) = prod_list ns"
  by (induction ns) (simp_all add: length_concat comp_def sum_list_triv)

text \<open>An element of a concatenation of pieces of equal length.\<close>

lemma nth_concat_even:
  assumes "\<And>x. x \<in> set xs \<Longrightarrow> length x = k" and "i < length xs" and "j < k"
  shows "concat xs ! (i * k + j) = xs ! i ! j"
  using assms
proof (induction xs arbitrary: i)
  case (Cons x xs)
  then show ?case by (cases i) (auto simp: nth_append)
qed simp

lemma length_concat_even: "(\<And>x. x \<in> set xs \<Longrightarrow> length x = k) \<Longrightarrow> length (concat xs) = length xs * k"
  by (induction xs) auto

lemma ravel_less: "in_shape ns is \<Longrightarrow> ravel ns is < prod_list ns"
proof (induction ns arbitrary: "is")
  case (Cons n ns)
  then obtain i js where s: "is = i # js" "i < n" "in_shape ns js" by (auto simp: inside_Cons)
  have "i * prod_list ns + ravel ns js < Suc i * prod_list ns" using Cons.IH [OF s(3)] by simp
  also have "\<dots> \<le> n * prod_list ns" using s(2) by (intro mult_right_mono) auto
  finally show ?case by (simp add: s)
qed auto

lemma nth_indices: "in_shape ns is \<Longrightarrow> indices ns ! ravel ns is = is"
proof (induction ns arbitrary: "is")
  case (Cons n ns)
  then obtain i js where s: "is = i # js" "i < n" "in_shape ns js" by (auto simp: inside_Cons)
  have "concat (map (\<lambda>i. map ((#) i) (indices ns)) [0..<n]) ! (i * prod_list ns + ravel ns js)
      = map (\<lambda>i. map ((#) i) (indices ns)) [0..<n] ! i ! ravel ns js"
    by (rule nth_concat_even) (use s ravel_less [OF s(3)] in auto)
  with s Cons.IH [OF s(3)] ravel_less [OF s(3)] show ?case by simp
qed simp

lemma build_simps [simp]: "nd_shape (nd_build ns f) = ns" "nd_full (nd_build ns f)" "nd_data (nd_build ns f) = map f (indices ns)"
  by (simp_all add: nd_build_def nd_full_def)

lemma get_build [simp]: "in_shape ns is \<Longrightarrow> nd_get (nd_build ns f) is = f is"
  by (simp add: nd_get_def ravel_less nth_indices)

lemma map_ravel_indices: "map (ravel ns) (indices ns) = [0..<prod_list ns]"
proof (induction ns)
  case (Cons n ns)
  have "map (ravel (n # ns)) (indices (n # ns)) = concat (map (\<lambda>i. map (\<lambda>k. i * prod_list ns + k) [0..<prod_list ns]) [0..<n])"
    by (simp add: map_concat comp_def flip: Cons)
  also have "\<dots> = [0..<n * prod_list ns]"
  proof (induction n)
    case (Suc n)
    have "map (\<lambda>k. n * prod_list ns + k) [0..<prod_list ns] = [n * prod_list ns..<Suc n * prod_list ns]"
      by (rule nth_equalityI) simp_all
    with Suc upt_add_eq_append [of 0 "n * prod_list ns" "prod_list ns"] show ?case by (simp add: add.commute)
  qed simp
  finally show ?case by simp
qed simp

lemma data_of_get: "nd_full a \<Longrightarrow> nd_data a = map (nd_get a) (indices (nd_shape a))"
proof -
  assume f: "nd_full a"
  have "map (nd_get a) (indices (nd_shape a)) = map ((!) (nd_data a)) (map (ravel (nd_shape a)) (indices (nd_shape a)))"
    by (simp add: nd_get_def)
  also have "\<dots> = nd_data a" using f map_nth [of "nd_data a"] by (simp add: map_ravel_indices nd_full_def)
  finally show ?thesis by simp
qed

lemma nd_eqI:
  assumes "nd_full a" and "nd_full b" and "nd_shape a = nd_shape b"
    and "\<And>is. in_shape (nd_shape a) is \<Longrightarrow> nd_get a is = nd_get b is"
  shows "a = b"
proof -
  have "nd_data a = nd_data b"
    unfolding data_of_get [OF assms(1)] data_of_get [OF assms(2)] using assms(3,4) by (auto simp: set_indices)
  with assms(3) show ?thesis by simp
qed

declare indices.simps [simp del]

section \<open>Reshaping, transposing, slicing\<close>

definition reshape :: "nat list \<Rightarrow> 'a nd \<Rightarrow> 'a nd res" where
  "reshape ns a = (if prod_list ns = length (nd_data a) then Inr (a\<lparr>nd_shape := ns\<rparr>) else Inl ValueError)"

text \<open>With a last extent of -1; the other extents must not be 0.\<close>

definition reshape_rest :: "nat list \<Rightarrow> 'a nd \<Rightarrow> 'a nd res" where
  "reshape_rest ns a =
     (if prod_list ns = 0 \<or> length (nd_data a) mod prod_list ns \<noteq> 0 then Inl ValueError
      else Inr (a\<lparr>nd_shape := ns @ [length (nd_data a) div prod_list ns]\<rparr>))"

text \<open>Axis \<open>k\<close> of the result is axis \<open>axes ! k\<close> of the operand.\<close>

definition moved :: "nat list \<Rightarrow> nat list \<Rightarrow> nat list" where
  "moved axes is = map (\<lambda>k. is ! length (takeWhile (\<lambda>x. x \<noteq> k) axes)) [0..<length axes]"

definition transpose_nd :: "nat list \<Rightarrow> 'a nd \<Rightarrow> 'a nd" where
  "transpose_nd axes a = nd_build (map ((!) (nd_shape a)) axes) (\<lambda>is. nd_get a (moved axes is))"

definition map_nd :: "('a \<Rightarrow> 'b) \<Rightarrow> 'a nd \<Rightarrow> 'b nd" where
  "map_nd f a = \<lparr>nd_shape = nd_shape a, nd_data = map f (nd_data a)\<rparr>"

definition zip_nd :: "('a \<Rightarrow> 'b \<Rightarrow> 'c) \<Rightarrow> 'a nd \<Rightarrow> 'b nd \<Rightarrow> 'c nd" where
  "zip_nd f a b = \<lparr>nd_shape = nd_shape a, nd_data = map2 f (nd_data a) (nd_data b)\<rparr>"

text \<open>\<open>a[r0:r1, c0:c1]\<close>, cut off at the extents; the axes after the second are kept.\<close>

definition slice2 :: "nat \<Rightarrow> nat \<Rightarrow> nat \<Rightarrow> nat \<Rightarrow> 'a nd \<Rightarrow> 'a nd res" where
  "slice2 r0 r1 c0 c1 a =
     (case nd_shape a of
        R # C # ns \<Rightarrow> Inr (nd_build ((min r1 R - r0) # (min c1 C - c0) # ns) (\<lambda>is. nd_get a ((r0 + is ! 0) # (c0 + is ! 1) # drop 2 is)))
      | _ \<Rightarrow> Inl IndexError)"

text \<open>\<open>a[:, c0:c1]\<close> of a matrix.\<close>

definition columns :: "nat \<Rightarrow> nat \<Rightarrow> 'a nd \<Rightarrow> 'a nd" where
  "columns c0 c1 a = nd_build [nd_shape a ! 0, min c1 (nd_shape a ! 1) - c0] (\<lambda>is. nd_get a [is ! 0, c0 + is ! 1])"

text \<open>\<open>a[\<dots>, k, \<dots>]\<close>: one position of an axis, which goes away.\<close>

definition pick_axis :: "nat \<Rightarrow> nat \<Rightarrow> 'a nd \<Rightarrow> 'a nd" where
  "pick_axis ax k a = nd_build (take ax (nd_shape a) @ drop (Suc ax) (nd_shape a)) (\<lambda>is. nd_get a (take ax is @ k # drop ax is))"

text \<open>\<open>np.repeat\<close> along the last axis.\<close>

definition repeat_last :: "nat \<Rightarrow> 'a nd \<Rightarrow> 'a nd" where
  "repeat_last k a =
     nd_build (butlast (nd_shape a) @ [last (nd_shape a) * k]) (\<lambda>is. nd_get a (butlast is @ [last is div k]))"

text \<open>\<open>dst[:, rows] = src\<close>, for rows without repetition.\<close>

definition put_rows :: "nat list \<Rightarrow> 'a nd \<Rightarrow> 'a nd \<Rightarrow> 'a nd" where
  "put_rows rows src dst =
     nd_build (nd_shape dst) (\<lambda>is. if is ! 1 \<in> set rows
       then nd_get src (is[1 := length (takeWhile (\<lambda>x. x \<noteq> is ! 1) rows)]) else nd_get dst is)"

lemma get_reshape:
  "reshape ns a = Inr b \<Longrightarrow> ravel ns is = ravel (nd_shape a) js \<Longrightarrow> nd_get b is = nd_get a js"
  by (auto simp: reshape_def nd_get_def split: if_splits)

lemma reshape_shape: "reshape ns a = Inr b \<Longrightarrow> nd_shape b = ns"
  by (auto simp: reshape_def split: if_splits)

lemma reshape_filled: "reshape ns a = Inr b \<Longrightarrow> nd_full b"
  by (auto simp: reshape_def nd_full_def split: if_splits)

lemma reshape_Inr: "nd_full a \<Longrightarrow> prod_list ns = prod_list (nd_shape a) \<Longrightarrow> reshape ns a = Inr (a\<lparr>nd_shape := ns\<rparr>)"
  by (simp add: reshape_def nd_full_def)

lemma get_shape_update: "ravel ns is = ravel (nd_shape a) js \<Longrightarrow> nd_get (a\<lparr>nd_shape := ns\<rparr>) is = nd_get a js"
  by (simp add: nd_get_def)

lemma filled_shape_update: "nd_full a \<Longrightarrow> prod_list ns = prod_list (nd_shape a) \<Longrightarrow> nd_full (a\<lparr>nd_shape := ns\<rparr>)"
  by (simp add: nd_full_def)

lemma map_nd_simps [simp]:
  "nd_shape (map_nd f a) = nd_shape a" "nd_full (map_nd f a) \<longleftrightarrow> nd_full a" "nd_data (map_nd f a) = map f (nd_data a)"
  by (simp_all add: map_nd_def nd_full_def)

lemma get_map_nd: "nd_full a \<Longrightarrow> in_shape (nd_shape a) is \<Longrightarrow> nd_get (map_nd f a) is = f (nd_get a is)"
  by (simp add: nd_get_def nd_full_def ravel_less)

lemma zip_nd_simps [simp]:
  "nd_shape (zip_nd f a b) = nd_shape a"
  "nd_full a \<Longrightarrow> nd_full b \<Longrightarrow> nd_shape b = nd_shape a \<Longrightarrow> nd_full (zip_nd f a b)"
  by (simp_all add: zip_nd_def nd_full_def)

lemma get_zip_nd:
  "nd_full a \<Longrightarrow> nd_full b \<Longrightarrow> nd_shape b = nd_shape a \<Longrightarrow> in_shape (nd_shape a) is \<Longrightarrow>
   nd_get (zip_nd f a b) is = f (nd_get a is) (nd_get b is)"
  by (simp add: nd_get_def nd_full_def zip_nd_def ravel_less)

lemma transpose_simps [simp]:
  "nd_shape (transpose_nd axes a) = map ((!) (nd_shape a)) axes" "nd_full (transpose_nd axes a)"
  "length (nd_data (transpose_nd axes a)) = prod_list (map ((!) (nd_shape a)) axes)"
  by (simp_all add: transpose_nd_def)

lemma get_transpose:
  "in_shape (map ((!) (nd_shape a)) axes) is \<Longrightarrow> nd_get (transpose_nd axes a) is = nd_get a (moved axes is)"
  by (simp add: transpose_nd_def)

lemma slice2_matrix:
  "nd_shape a = [R, C] \<Longrightarrow> slice2 r0 r1 c0 c1 a = Inr (nd_build [min r1 R - r0, min c1 C - c0] (\<lambda>is. nd_get a [r0 + is ! 0, c0 + is ! 1]))"
  by (auto simp: slice2_def nd_build_def set_indices inside_Cons)

lemma columns_simps [simp]:
  "nd_shape (columns c0 c1 a) = [nd_shape a ! 0, min c1 (nd_shape a ! 1) - c0]" "nd_full (columns c0 c1 a)"
  by (simp_all add: columns_def)

lemma get_columns:
  "r < nd_shape a ! 0 \<Longrightarrow> c < min c1 (nd_shape a ! 1) - c0 \<Longrightarrow> nd_get (columns c0 c1 a) [r, c] = nd_get a [r, c0 + c]"
  by (simp add: columns_def)

lemma pick_axis_simps [simp]:
  "nd_shape (pick_axis ax k a) = take ax (nd_shape a) @ drop (Suc ax) (nd_shape a)" "nd_full (pick_axis ax k a)"
  by (simp_all add: pick_axis_def)

lemma repeat_last_simps [simp]:
  "nd_shape (repeat_last k a) = butlast (nd_shape a) @ [last (nd_shape a) * k]" "nd_full (repeat_last k a)"
  by (simp_all add: repeat_last_def)

lemma put_rows_simps [simp]: "nd_shape (put_rows rows src dst) = nd_shape dst" "nd_full (put_rows rows src dst)"
  by (simp_all add: put_rows_def)

text \<open>The rows of the last axis, and \<open>np.concatenate\<close> along it for arrays that agree in the other extents.\<close>

definition chunk :: "nat \<Rightarrow> nat \<Rightarrow> 'a list \<Rightarrow> 'a list" where
  "chunk k i xs = take k (drop (i * k) xs)"

definition last_row :: "'a nd \<Rightarrow> nat \<Rightarrow> 'a list" where
  "last_row a i = chunk (last (nd_shape a)) i (nd_data a)"

definition concat_last :: "'a nd list \<Rightarrow> 'a nd" where
  "concat_last as =
     (let lead = butlast (nd_shape (hd as)) in
      \<lparr>nd_shape = lead @ [sum_list (map (last \<circ> nd_shape) as)],
       nd_data = concat (map (\<lambda>i. concat (map (\<lambda>a. last_row a i) as)) [0..<prod_list lead])\<rparr>)"

section \<open>Views of 16-bit elements\<close>

text \<open>Little-endian bytes.\<close>

definition bytes16 :: "16 word \<Rightarrow> 8 word list" where
  "bytes16 w = [ucast w, ucast (drop_bit 8 w)]"

definition tobytes :: "16 word list \<Rightarrow> 8 word list" where
  "tobytes ws = concat (map bytes16 ws)"

fun words16 :: "8 word list \<Rightarrow> 16 word list" where
  "words16 (lo # hi # bs) = (ucast lo OR push_bit 8 (ucast hi)) # words16 bs"
| "words16 bs = []"

definition frombuffer16 :: "8 word list \<Rightarrow> 16 word list res" where
  "frombuffer16 bs = (if even (length bs) then Inr (words16 bs) else Inl ValueError)"

text \<open>\<open>view(np.int16)\<close> halves the last extent and \<open>view(np.uint8)\<close> doubles it.\<close>

definition view16 :: "8 word nd \<Rightarrow> 16 word nd res" where
  "view16 a =
     (if odd (last (nd_shape a)) then Inl ValueError
      else Inr \<lparr>nd_shape = butlast (nd_shape a) @ [last (nd_shape a) div 2], nd_data = words16 (nd_data a)\<rparr>)"

definition view8 :: "16 word nd \<Rightarrow> 8 word nd" where
  "view8 a = \<lparr>nd_shape = butlast (nd_shape a) @ [last (nd_shape a) * 2], nd_data = tobytes (nd_data a)\<rparr>"

lemma bytes16_join: "ucast (ucast w :: 8 word) OR push_bit 8 (ucast (ucast (drop_bit 8 w) :: 8 word)) = (w :: 16 word)"
proof (rule bit_word_eqI)
  fix n assume "n < LENGTH(16)"
  then show "bit (ucast (ucast w :: 8 word) OR push_bit 8 (ucast (ucast (drop_bit 8 w) :: 8 word)) :: 16 word) n = bit w n"
    by (auto simp: bit_simps)
qed

lemma tobytes_simps [simp]: "tobytes [] = []" "tobytes (w # ws) = bytes16 w @ tobytes ws" "tobytes (ws @ vs) = tobytes ws @ tobytes vs"
  by (simp_all add: tobytes_def)

lemma words16_tobytes [simp]: "words16 (tobytes ws @ bs) = ws @ words16 bs"
  by (induction ws) (simp_all add: bytes16_def bytes16_join)

lemma words16_tobytes' [simp]: "words16 (tobytes ws) = ws"
  using words16_tobytes [of ws "[]"] by simp

lemma length_tobytes [simp]: "length (tobytes ws) = 2 * length ws"
  by (induction ws) (simp_all add: bytes16_def)

lemma length_words16 [simp]: "length (words16 bs) = length bs div 2"
  by (induction bs rule: words16.induct) simp_all

lemma tobytes_words16: "even (length bs) \<Longrightarrow> tobytes (words16 bs) = bs"
proof (induction bs rule: words16.induct)
  case (1 lo hi bs)
  have b: "\<not> bit w n" if "8 \<le> n" for w :: "8 word" and n using that bit_imp_le_length [of w n] by auto
  have "ucast (ucast lo OR push_bit 8 (ucast hi) :: 16 word) = lo"
    by (rule bit_word_eqI) (auto simp: bit_simps)
  moreover have "ucast (drop_bit 8 (ucast lo OR push_bit 8 (ucast hi) :: 16 word)) = hi"
    by (rule bit_word_eqI) (auto simp: bit_simps b)
  ultimately have "bytes16 (ucast lo OR push_bit 8 (ucast hi)) = [lo, hi]" by (simp add: bytes16_def)
  with 1 show ?case by simp
qed simp_all

lemma words16_append: "even (length xs) \<Longrightarrow> words16 (xs @ ys) = words16 xs @ words16 ys"
  by (induction xs rule: words16.induct) simp_all

lemma words16_take_drop: "words16 (drop (2 * n) bs) = drop n (words16 bs)" "words16 (take (2 * n) bs) = take n (words16 bs)"
proof -
  show "words16 (drop (2 * n) bs) = drop n (words16 bs)"
  proof (induction n arbitrary: bs)
    case (Suc n)
    then show ?case by (cases bs rule: words16.cases) auto
  qed simp
  show "words16 (take (2 * n) bs) = take n (words16 bs)"
  proof (induction n arbitrary: bs)
    case (Suc n)
    then show ?case by (cases bs rule: words16.cases) auto
  qed simp
qed

lemma words16_chunk: "words16 (chunk (2 * k) i bs) = chunk k i (words16 bs)"
  by (simp only: chunk_def mult.left_commute [of i 2 k] words16_take_drop)

lemma chunk_nth: "length xs = n * k \<Longrightarrow> i < n \<Longrightarrow> j < k \<Longrightarrow> chunk k i xs ! j = xs ! (i * k + j)"
proof -
  assume "length xs = n * k" "i < n" "j < k"
  moreover from this have "Suc i * k \<le> n * k" by (intro mult_right_mono) auto
  ultimately show ?thesis by (simp add: chunk_def)
qed

lemma chunk_length: "length xs = n * k \<Longrightarrow> i < n \<Longrightarrow> length (chunk k i xs) = k"
proof -
  assume "length xs = n * k" "i < n"
  moreover from this have "Suc i * k \<le> n * k" by (intro mult_right_mono) auto
  ultimately show ?thesis by (simp add: chunk_def)
qed

lemma chunk_concat:
  assumes "\<And>x. x \<in> set xs \<Longrightarrow> length x = k" and "i < length xs"
  shows "chunk k i (concat xs) = xs ! i"
proof -
  have i: "i * k + k \<le> length xs * k" using assms(2) mult_right_mono [of "Suc i" "length xs" k] by simp
  then have "length (chunk k i (concat xs)) = k" using length_concat_even [OF assms(1)] by (simp add: chunk_def)
  moreover have "length (xs ! i) = k" using assms by simp
  moreover have "chunk k i (concat xs) ! j = xs ! i ! j" if "j < k" for j
  proof -
    have "length (concat xs) = length xs * k" by (rule length_concat_even) (rule assms(1))
    with i have "i * k \<le> length (concat xs)" by linarith
    with nth_concat_even [OF assms(1) assms(2) that] that show ?thesis by (simp add: chunk_def nth_drop)
  qed
  ultimately show ?thesis by (auto intro: nth_equalityI)
qed

end
