(* ===== verification/Q4nx_Codec.thy ===== *)
theory Q4nx_Codec
  imports Nd_Array
begin

text \<open>
  The Q4NX weight codec: the block packer and the stream order of \<^verbatim>\<open>src/programming_examples/fused_decode/proj_qmm_pack.py\<close>,
  its vectorised form in \<^verbatim>\<open>q4_0_codec.py\<close>, and the readers of \<^verbatim>\<open>src/programming_examples/llms\<close>:
  \<^verbatim>\<open>llama32_1b_q4nx_weights.py\<close> (both headers), \<^verbatim>\<open>qwen3_8b_q4nx_weights.py\<close>, \<^verbatim>\<open>gemma4_e2b_q4nx_weights.py\<close> and
  \<^verbatim>\<open>fused_prefill/packing.py\<close>. A block is 32 rows by 256 columns: 256 scales, 256 offsets and the nibbles, two rows
  to a byte. The arithmetic and the conversions of floats are arguments.
\<close>

unbundle bit_operations_syntax

section \<open>The block packer\<close>

abbreviation (input) ROW_BLOCK :: nat where "ROW_BLOCK \<equiv> 32"
abbreviation (input) COL_BLOCK :: nat where "COL_BLOCK \<equiv> 256"
abbreviation (input) GROUP :: nat where "GROUP \<equiv> 32"
abbreviation (input) PARALLEL :: nat where "PARALLEL \<equiv> 16"
abbreviation (input) N_GROUPS :: nat where "N_GROUPS \<equiv> 8"
abbreviation (input) ROW_GROUPS :: nat where "ROW_GROUPS \<equiv> 2"
abbreviation (input) BLOCK_BF16 :: nat where "BLOCK_BF16 \<equiv> 2560"

definition pack_q4k_block :: "('f \<Rightarrow> 16 word) \<Rightarrow> 8 word nd \<Rightarrow> 'f nd \<Rightarrow> 'f nd \<Rightarrow> 16 word list res" where
  "pack_q4k_block bf q scale mn =
     (if nd_shape q \<noteq> [ROW_BLOCK, COL_BLOCK] \<or> nd_shape scale \<noteq> [ROW_BLOCK, N_GROUPS] \<or> nd_shape mn \<noteq> [ROW_BLOCK, N_GROUPS]
      then Inl AssertionError
      else
        let sc = nd_build [N_GROUPS, ROW_BLOCK] (\<lambda>is. bf (nd_get scale [is ! 1, is ! 0]));
            mi = nd_build [N_GROUPS, ROW_BLOCK] (\<lambda>is. bf (nd_get mn [is ! 1, is ! 0]));
            qs = nd_build [ROW_GROUPS, COL_BLOCK, PARALLEL div 2]
                   (\<lambda>is. let w0 = nd_get q [is ! 0 * PARALLEL + is ! 2 * 2, is ! 1] AND 0xF;
                            w1 = nd_get q [is ! 0 * PARALLEL + is ! 2 * 2 + 1, is ! 1] AND 0xF
                        in push_bit 4 w1 OR w0)
        in frombuffer16 (tobytes (nd_data sc) @ tobytes (nd_data mi) @ nd_data qs))"

section \<open>The stream order\<close>

text \<open>The steps of a column: all rows of a step together, or the lower half of the rows for all steps before the upper.\<close>

definition cascade_order :: "nat \<Rightarrow> nat \<Rightarrow> nat \<Rightarrow> bool \<Rightarrow> (nat \<times> nat \<times> nat) list res" where
  "cascade_order NCY nbi_pc nbj dual_chan =
     (let steps = List.product [0..<nbi_pc] [0..<nbj] in
      if dual_chan then
        res_bind (res_check (NCY mod 2 = 0) AssertionError) (\<lambda>_.
          Inr (concat (map (\<lambda>h. concat (map (\<lambda>(i, j). map (\<lambda>cy. (i, j, cy)) [h * (NCY div 2)..<(h + 1) * (NCY div 2)]) steps)) [0..<2])))
      else Inr (concat (map (\<lambda>(i, j). map (\<lambda>cy. (i, j, cy)) [0..<NCY]) steps)))"

text \<open>The row block of the matrix that a core gets in a step.\<close>

definition cascade_row :: "nat \<Rightarrow> nat \<Rightarrow> nat \<Rightarrow> bool \<Rightarrow> bool \<Rightarrow> nat \<Rightarrow> nat \<Rightarrow> nat \<Rightarrow> nat" where
  "cascade_row NCX NCY nbi_pc core_major iter_major cx i cy =
     (if iter_major then i * (NCX * NCY) + cx * NCY + cy
      else if core_major then (cx * NCY + cy) * nbi_pc + i
      else cx * (NCY * nbi_pc) + i * NCY + cy)"

definition block_of :: "('f \<Rightarrow> 16 word) \<Rightarrow> 8 word nd \<Rightarrow> 'f nd \<Rightarrow> 'f nd \<Rightarrow> nat \<Rightarrow> nat \<Rightarrow> 16 word list res" where
  "block_of bf q scale mn gi j =
     (let rs = gi * ROW_BLOCK; cs = j * COL_BLOCK; gs = j * (COL_BLOCK div GROUP) in
      res_bind (slice2 rs (rs + ROW_BLOCK) cs (cs + COL_BLOCK) q) (\<lambda>q'.
      res_bind (slice2 rs (rs + ROW_BLOCK) gs (gs + N_GROUPS) scale) (\<lambda>scale'.
      res_bind (slice2 rs (rs + ROW_BLOCK) gs (gs + N_GROUPS) mn) (\<lambda>mn'.
      pack_q4k_block bf q' scale' mn'))))"

definition pack_q4k_cascade ::
  "('f \<Rightarrow> 16 word) \<Rightarrow> 8 word nd \<Rightarrow> 'f nd \<Rightarrow> 'f nd \<Rightarrow> nat \<Rightarrow> nat \<Rightarrow> bool \<Rightarrow> bool \<Rightarrow> bool \<Rightarrow> 16 word list res"
where
  "pack_q4k_cascade bf q scale mn NCX NCY core_major iter_major dual_chan =
     (case nd_shape q of
        [M, K] \<Rightarrow>
          res_bind (res_check (M mod ROW_BLOCK = 0 \<and> K mod COL_BLOCK = 0) AssertionError) (\<lambda>_.
          let nbi = M div ROW_BLOCK; nbj = K div COL_BLOCK; n_cores = NCX * NCY in
          if n_cores = 0 then Inl ZeroDivisionError
          else
            res_bind (res_check (nbi mod n_cores = 0) AssertionError) (\<lambda>_.
            let nbi_pc = nbi div n_cores in
            res_bind (cascade_order NCY nbi_pc nbj dual_chan) (\<lambda>order.
            res_bind (map_res (\<lambda>(cx, i, j, cy). block_of bf q scale mn (cascade_row NCX NCY nbi_pc core_major iter_major cx i cy) j)
                        (List.product [0..<NCX] order)) (\<lambda>blocks.
            if blocks = [] then Inl ValueError else Inr (concat blocks)))))
      | _ \<Rightarrow> Inl ValueError)"

section \<open>The vectorised packer\<close>

definition per_block :: "('f \<Rightarrow> 16 word) \<Rightarrow> nat \<Rightarrow> nat \<Rightarrow> 'f nd \<Rightarrow> 16 word nd res" where
  "per_block bf nbi nbj a =
     res_bind (reshape [nbi, ROW_BLOCK, nbj, N_GROUPS] a) (\<lambda>a. Inr (map_nd bf (transpose_nd [0, 2, 3, 1] a)))"

definition pair_nibbles :: "nat \<Rightarrow> nat \<Rightarrow> 8 word nd \<Rightarrow> 16 word nd res" where
  "pair_nibbles nbi nbj q =
     res_bind (reshape [nbi, ROW_BLOCK, nbj, COL_BLOCK] q) (\<lambda>qv.
     res_bind (reshape [nbi, nbj, ROW_BLOCK div PARALLEL, PARALLEL div 2, 2, COL_BLOCK] (transpose_nd [0, 2, 1, 3] qv)) (\<lambda>qv.
     let lo = map_nd (\<lambda>w. w AND 0xF) (pick_axis 4 0 qv);
         hi = map_nd (\<lambda>w. w AND 0xF) (pick_axis 4 1 qv);
         qs = transpose_nd [0, 1, 2, 4, 3] (zip_nd (\<lambda>h l. push_bit 4 h OR l) hi lo)
     in res_bind (reshape_rest [nbi, nbj] qs) view16))"

text \<open>The numbers of the row and column blocks in the order of the stream.\<close>

definition stream_index :: "nat \<Rightarrow> nat \<Rightarrow> nat \<Rightarrow> nat \<Rightarrow> bool \<Rightarrow> (nat nd \<times> nat nd) res" where
  "stream_index NCX NCY nbi_pc nbj dual_chan =
     (let gi = nd_build [NCX, nbi_pc, nbj, NCY] (\<lambda>is. is ! 1 * (NCX * NCY) + is ! 0 * NCY + is ! 3);
          gj = nd_build [NCX, nbi_pc, nbj, NCY] (\<lambda>is. is ! 2)
      in if dual_chan then
           res_bind (res_check (NCY mod 2 = 0) AssertionError) (\<lambda>_.
           res_bind (reshape [NCX, nbi_pc, nbj, 2, NCY div 2] gi) (\<lambda>gi.
           res_bind (reshape [NCX, nbi_pc, nbj, 2, NCY div 2] gj) (\<lambda>gj.
           Inr (transpose_nd [0, 3, 1, 2, 4] gi, transpose_nd [0, 3, 1, 2, 4] gj))))
         else Inr (gi, gj))"

definition pack_q4k_cascade_fast ::
  "('f \<Rightarrow> 16 word) \<Rightarrow> 8 word nd \<Rightarrow> 'f nd \<Rightarrow> nat \<Rightarrow> nat \<Rightarrow> bool \<Rightarrow> 'f nd option \<Rightarrow> 16 word list res"
where
  "pack_q4k_cascade_fast bf q scale NCX NCY dual_chan mins =
     (case nd_shape q of
        [M, K] \<Rightarrow>
          res_bind (res_check (M mod ROW_BLOCK = 0 \<and> K mod COL_BLOCK = 0) AssertionError) (\<lambda>_.
          let nbi = M div ROW_BLOCK; nbj = K div COL_BLOCK; n_cores = NCX * NCY in
          if n_cores = 0 then Inl ZeroDivisionError
          else
            res_bind (res_check (nbi mod n_cores = 0) AssertionError) (\<lambda>_.
            let nbi_pc = nbi div n_cores in
            res_bind (per_block bf nbi nbj scale) (\<lambda>sc.
            res_bind (case mins of None \<Rightarrow> Inr (map_nd (\<lambda>_. 0) sc) | Some m \<Rightarrow> per_block bf nbi nbj m) (\<lambda>mn.
            res_bind (pair_nibbles nbi nbj q) (\<lambda>qs.
            res_bind (reshape_rest [nbi, nbj] sc) (\<lambda>sc.
            res_bind (reshape_rest [nbi, nbj] mn) (\<lambda>mn.
            let blocks = concat_last [sc, mn, qs] in
            res_bind (res_check (nd_shape blocks ! 2 = BLOCK_BF16) AssertionError) (\<lambda>_.
            res_bind (stream_index NCX NCY nbi_pc nbj dual_chan) (\<lambda>(gi, gj).
            Inr (concat (map2 (\<lambda>g j. last_row blocks (ravel [nbi, nbj] [g, j])) (nd_data gi) (nd_data gj))))))))))))
      | _ \<Rightarrow> Inl ValueError)"

section \<open>Bundles\<close>

record q4_entry =
  en_dtype :: "string option"
  en_shape :: "nat list"
  en_offsets :: "nat \<times> nat"

record q4_bundle =
  bu_header :: "string \<Rightarrow> q4_entry option"
  bu_base :: nat
  bu_bytes :: "8 word list"

text \<open>The file starts with the length of its header, which is JSON.\<close>

definition le_value :: "8 word list \<Rightarrow> nat" where
  "le_value bs = foldr (\<lambda>b n. unat b + 256 * n) bs 0"

definition read_bundle :: "(8 word list \<Rightarrow> (string \<Rightarrow> q4_entry option) res) \<Rightarrow> 8 word list \<Rightarrow> q4_bundle res" where
  "read_bundle json file =
     (if length file < 8 then Inl ValueError
      else let hlen = le_value (take 8 file) in
           res_bind (json (take hlen (drop 8 file))) (\<lambda>hdr. Inr \<lparr>bu_header = hdr, bu_base = 8 + hlen, bu_bytes = file\<rparr>))"

definition q4_entry_of :: "q4_bundle \<Rightarrow> string \<Rightarrow> q4_entry res" where
  "q4_entry_of b name = (case bu_header b name of None \<Rightarrow> Inl KeyError | Some e \<Rightarrow> Inr e)"

definition raw_i16 :: "q4_bundle \<Rightarrow> string \<Rightarrow> 16 word list res" where
  "raw_i16 b name =
     res_bind (q4_entry_of b name) (\<lambda>e.
       case en_offsets e of (o0, o1) \<Rightarrow> frombuffer16 (take (o1 - o0) (drop (bu_base b + o0) (bu_bytes b))))"

definition bf16_tensor :: "(16 word \<Rightarrow> 'f) \<Rightarrow> q4_bundle \<Rightarrow> string \<Rightarrow> 'f nd res" where
  "bf16_tensor f32 b name =
     res_bind (raw_i16 b name) (\<lambda>ws.
     res_bind (q4_entry_of b name) (\<lambda>e. reshape (en_shape e) \<lparr>nd_shape = [length ws], nd_data = map f32 ws\<rparr>))"

section \<open>The blocks of a tensor\<close>

definition even_rows :: "nat list" where
  "even_rows = concat (map (\<lambda>g. map (\<lambda>k. g * PARALLEL + 2 * k) [0..<PARALLEL div 2]) [0..<ROW_BLOCK div PARALLEL])"

definition odd_rows :: "nat list" where
  "odd_rows = map Suc even_rows"

text \<open>The scales and offsets of each block and group, and the nibbles in their rows.\<close>

definition block_fields :: "nat \<Rightarrow> 16 word list \<Rightarrow> (16 word nd \<times> 16 word nd \<times> 8 word nd) res" where
  "block_fields nb raw =
     res_bind (reshape [nb, BLOCK_BF16] \<lparr>nd_shape = [length raw], nd_data = raw\<rparr>) (\<lambda>i16.
     res_bind (reshape [nb, N_GROUPS, ROW_BLOCK] (columns 0 256 i16)) (\<lambda>sc.
     res_bind (reshape [nb, N_GROUPS, ROW_BLOCK] (columns 256 512 i16)) (\<lambda>mn.
     res_bind (reshape [nb, ROW_BLOCK div PARALLEL, COL_BLOCK, PARALLEL div 2] (view8 (columns 512 BLOCK_BF16 i16))) (\<lambda>qb.
     res_bind (reshape [nb, ROW_BLOCK div 2, COL_BLOCK] (transpose_nd [0, 1, 3, 2] (map_nd (\<lambda>w. w AND 0xF) qb))) (\<lambda>lo.
     res_bind (reshape [nb, ROW_BLOCK div 2, COL_BLOCK] (transpose_nd [0, 1, 3, 2] (map_nd (drop_bit 4) qb))) (\<lambda>hi.
     Inr (sc, mn, put_rows odd_rows hi (put_rows even_rows lo (nd_build [nb, ROW_BLOCK, COL_BLOCK] (\<lambda>_. 0))))))))))"

text \<open>A value per block, row and column becomes a matrix.\<close>

definition unblock :: "nat \<Rightarrow> nat \<Rightarrow> nat \<Rightarrow> nat \<Rightarrow> nat \<Rightarrow> nat \<Rightarrow> 'a nd \<Rightarrow> 'a nd res" where
  "unblock nbi nbj h w M K a =
     res_bind (reshape [nbi, nbj, h, w] a) (\<lambda>a. reshape [M, K] (transpose_nd [0, 2, 1, 3] a))"

record 'f float_ops =
  fl_of_bf16 :: "16 word \<Rightarrow> 'f"
  fl_of_u8 :: "8 word \<Rightarrow> 'f"
  fl_add :: "'f \<Rightarrow> 'f \<Rightarrow> 'f"
  fl_sub :: "'f \<Rightarrow> 'f \<Rightarrow> 'f"
  fl_mul :: "'f \<Rightarrow> 'f \<Rightarrow> 'f"

definition weights_of :: "'f float_ops \<Rightarrow> ('f \<Rightarrow> 'f \<Rightarrow> 'f \<Rightarrow> 'f) \<Rightarrow> 16 word nd \<times> 16 word nd \<times> 8 word nd \<Rightarrow> 'f nd" where
  "weights_of fl comb parts =
     (case parts of (sc, mn, q) \<Rightarrow>
        let scale = repeat_last GROUP (transpose_nd [0, 2, 1] (map_nd (fl_of_bf16 fl) sc));
            offset = repeat_last GROUP (transpose_nd [0, 2, 1] (map_nd (fl_of_bf16 fl) mn))
        in zip_nd (\<lambda>s (q, m). comb s q m) scale (zip_nd Pair (map_nd (fl_of_u8 fl) q) offset))"

definition affine :: "'f float_ops \<Rightarrow> 'f \<Rightarrow> 'f \<Rightarrow> 'f \<Rightarrow> 'f" where
  "affine fl s q m = fl_add fl (fl_mul fl s q) m"

definition zero_point :: "'f float_ops \<Rightarrow> 'f \<Rightarrow> 'f \<Rightarrow> 'f \<Rightarrow> 'f" where
  "zero_point fl s q m = fl_mul fl s (fl_sub fl q m)"

definition dequant_blocks ::
  "'f float_ops \<Rightarrow> ('f \<Rightarrow> 'f \<Rightarrow> 'f \<Rightarrow> 'f) \<Rightarrow> nat \<Rightarrow> nat \<Rightarrow> nat \<Rightarrow> nat \<Rightarrow> 16 word list \<Rightarrow> 'f nd res"
where
  "dequant_blocks fl comb nbi nbj M K raw =
     res_bind (block_fields (nbi * nbj) raw) (\<lambda>parts.
       unblock nbi nbj ROW_BLOCK COL_BLOCK M K (weights_of fl comb parts))"

section \<open>The readers\<close>

text \<open>\<open>llama32_1b_q4nx\<close>: the header says which of the two encodings it is.\<close>

definition llama_dims :: "q4_bundle \<Rightarrow> string \<Rightarrow> nat list option res" where
  "llama_dims b name =
     res_bind (q4_entry_of b name) (\<lambda>e. Inr (if en_dtype e = Some ''Q4NX'' then Some (en_shape e) else None))"

definition llama_dequant :: "'f float_ops \<Rightarrow> q4_bundle \<Rightarrow> string \<Rightarrow> nat option \<Rightarrow> nat option \<Rightarrow> 'f nd res" where
  "llama_dequant fl b name M K =
     res_bind (llama_dims b name) (\<lambda>hdr_dims.
     res_bind (case hdr_dims of
                 None \<Rightarrow> (case (M, K) of (Some m, Some k) \<Rightarrow> Inr (m, k) | _ \<Rightarrow> Inl ValueError)
               | Some ds \<Rightarrow>
                   if M \<noteq> None \<and> [M, K] \<noteq> map Some ds then Inl ValueError
                   else (case ds of [m, k] \<Rightarrow> Inr (m, k) | _ \<Rightarrow> Inl ValueError)) (\<lambda>(m, k).
     let nbi = m div ROW_BLOCK; nbj = k div COL_BLOCK in
     res_bind (q4_entry_of b name) (\<lambda>e.
     res_bind (if hdr_dims \<noteq> None then Inr ()
               else (case en_shape e of [] \<Rightarrow> Inl IndexError | n # _ \<Rightarrow> res_check (n = nbi * nbj) ValueError)) (\<lambda>_.
     res_bind (raw_i16 b name) (\<lambda>raw.
     dequant_blocks fl (if hdr_dims \<noteq> None then zero_point fl else affine fl) nbi nbj m k raw)))))"

text \<open>The others read one encoding only. They check the number of blocks with \<open>assert\<close>, or leave the program.\<close>

definition checked_dequant :: "py_error \<Rightarrow> (string \<Rightarrow> 16 word list res) \<Rightarrow> 'f float_ops \<Rightarrow> q4_bundle \<Rightarrow> string \<Rightarrow> nat \<Rightarrow> nat \<Rightarrow> 'f nd res" where
  "checked_dequant err raw fl b name M K =
     (let nbi = M div ROW_BLOCK; nbj = K div COL_BLOCK in
      res_bind (q4_entry_of b name) (\<lambda>e.
      res_bind (case en_shape e of [] \<Rightarrow> Inl IndexError | n # _ \<Rightarrow> res_check (n = nbi * nbj) err) (\<lambda>_.
      res_bind (raw name) (dequant_blocks fl (affine fl) nbi nbj M K))))"

definition qwen_dequant :: "'f float_ops \<Rightarrow> q4_bundle \<Rightarrow> string \<Rightarrow> nat \<Rightarrow> nat \<Rightarrow> 'f nd res" where
  "qwen_dequant fl b = checked_dequant AssertionError (raw_i16 b) fl b"

text \<open>\<open>np.fromfile\<close> returns fewer elements where the file ends.\<close>

definition fromfile16 :: "q4_bundle \<Rightarrow> nat \<Rightarrow> nat \<Rightarrow> 16 word list" where
  "fromfile16 b n pos = words16 (take (2 * n) (drop pos (bu_bytes b)))"

definition gemma_raw :: "q4_bundle \<Rightarrow> string \<Rightarrow> 16 word list res" where
  "gemma_raw b name =
     res_bind (q4_entry_of b name) (\<lambda>e. case en_offsets e of (s, t) \<Rightarrow> Inr (fromfile16 b ((t - s) div 2) (bu_base b + s)))"

definition gemma_dequant :: "'f float_ops \<Rightarrow> q4_bundle \<Rightarrow> string \<Rightarrow> nat \<Rightarrow> nat \<Rightarrow> 'f nd res" where
  "gemma_dequant fl b = checked_dequant SystemExit (gemma_raw b) fl b"

text \<open>The rows \<open>[r0, r1)\<close> only, read from the part of the file that holds them.\<close>

definition lm_head_rows :: "'f float_ops \<Rightarrow> q4_bundle \<Rightarrow> nat \<Rightarrow> nat \<Rightarrow> string \<Rightarrow> nat \<Rightarrow> 'f nd res" where
  "lm_head_rows fl b r0 r1 name K =
     (if r0 mod ROW_BLOCK \<noteq> 0 \<or> (int r1 - int r0) mod int ROW_BLOCK \<noteq> 0 then Inl SystemExit
      else
        let nbj = K div COL_BLOCK; i0 = r0 div ROW_BLOCK; i1 = r1 div ROW_BLOCK; nb = (i1 - i0) * nbj in
        res_bind (q4_entry_of b name) (\<lambda>e. case en_offsets e of (s, t) \<Rightarrow>
          if r1 < r0 then Inl ValueError
          else dequant_blocks fl (affine fl) (i1 - i0) nbj (r1 - r0) K
            (fromfile16 b (nb * BLOCK_BF16) (bu_base b + s + i0 * nbj * BLOCK_BF16 * 2))))"

text \<open>The same walk without the product: nibbles, scales and offsets as matrices.\<close>

definition group_matrix :: "nat \<Rightarrow> nat \<Rightarrow> nat \<Rightarrow> nat \<Rightarrow> 'a nd \<Rightarrow> 'a nd res" where
  "group_matrix nbi nbj rows K a = unblock nbi nbj ROW_BLOCK N_GROUPS rows (K div 32) (transpose_nd [0, 2, 1] a)"

definition q4nx_raw :: "'f float_ops \<Rightarrow> q4_bundle \<Rightarrow> string \<Rightarrow> nat \<Rightarrow> nat \<Rightarrow> nat \<Rightarrow> (8 word nd \<times> 'f nd \<times> 'f nd) res" where
  "q4nx_raw fl b name rows K r0 =
     (let nbi = rows div ROW_BLOCK; nbj = K div COL_BLOCK; nb = nbi * nbj in
      res_bind (q4_entry_of b name) (\<lambda>e. case en_offsets e of (s, t) \<Rightarrow>
        res_bind (block_fields nb (fromfile16 b (nb * BLOCK_BF16) (bu_base b + s + r0 div ROW_BLOCK * nbj * BLOCK_BF16 * 2)))
          (\<lambda>(sc, mn, q).
        res_bind (unblock nbi nbj ROW_BLOCK COL_BLOCK rows K q) (\<lambda>q.
        res_bind (group_matrix nbi nbj rows K (map_nd (fl_of_bf16 fl) sc)) (\<lambda>sc.
        res_bind (group_matrix nbi nbj rows K (map_nd (fl_of_bf16 fl) mn)) (\<lambda>mn.
        Inr (q, sc, mn)))))))"

end
