(* ===== verification/Q4nx_Laws.thy ===== *)
theory Q4nx_Laws
  imports Q4nx_Codec
begin

text \<open>
  What the codec of \<^verbatim>\<open>Q4nx_Codec\<close> means: where a block holds the scale, the offset and the nibble of an element, what the
  packer puts there and what the readers make of it.
\<close>

unbundle bit_operations_syntax

section \<open>The fields of a block\<close>

definition block_scale :: "16 word list \<Rightarrow> nat \<Rightarrow> nat \<Rightarrow> 16 word" where
  "block_scale blk g r = blk ! (g * 32 + r)"

definition block_offset :: "16 word list \<Rightarrow> nat \<Rightarrow> nat \<Rightarrow> 16 word" where
  "block_offset blk g r = blk ! (256 + g * 32 + r)"

definition block_nibble :: "16 word list \<Rightarrow> nat \<Rightarrow> nat \<Rightarrow> 8 word" where
  "block_nibble blk r c =
     (let b = tobytes blk ! (1024 + (r div 16 * 2048 + c * 8 + r mod 16 div 2)) in
      if even r then b AND 0xF else drop_bit 4 b)"

lemma nth_build: "in_shape ns is \<Longrightarrow> k = ravel ns is \<Longrightarrow> nd_data (nd_build ns f) ! k = f is"
  using get_build [of ns "is" f] unfolding nd_get_def by simp

lemma low_nibble: "w AND 0xF = take_bit 4 (w :: 'a :: len word)"
  by (simp add: take_bit_eq_mask mask_eq_exp_minus_1)

lemma nibbles_apart:
  "(push_bit 4 (v AND 0xF) OR (w AND 0xF)) AND 0xF = (w AND 0xF :: 8 word)"
  "drop_bit 4 (push_bit 4 (v AND 0xF) OR (w AND 0xF)) = (v AND 0xF :: 8 word)"
  by (rule bit_word_eqI; auto simp: low_nibble bit_simps)+

lemma packed_fields:
  assumes "pack_q4k_block bf q s m = Inr blk"
  shows "length blk = BLOCK_BF16"
    and "g < 8 \<Longrightarrow> r < 32 \<Longrightarrow> block_scale blk g r = bf (nd_get s [r, g])"
    and "g < 8 \<Longrightarrow> r < 32 \<Longrightarrow> block_offset blk g r = bf (nd_get m [r, g])"
    and "r < 32 \<Longrightarrow> c < 256 \<Longrightarrow> block_nibble blk r c = nd_get q [r, c] AND 0xF"
proof -
  define S where "S = nd_build [8, 32] (\<lambda>is. bf (nd_get s [is ! 1, is ! 0]))"
  define T where "T = nd_build [8, 32] (\<lambda>is. bf (nd_get m [is ! 1, is ! 0]))"
  define Q where "Q = nd_build [2, 256, 8] (\<lambda>is. push_bit 4 (nd_get q [is ! 0 * 16 + is ! 2 * 2 + 1, is ! 1] AND 0xF)
                                         OR (nd_get q [is ! 0 * 16 + is ! 2 * 2, is ! 1] AND 0xF))"
  have len: "length (nd_data S) = 256" "length (nd_data T) = 256" "length (nd_data Q) = 4096"
    by (simp_all add: S_def T_def Q_def)
  from assms have "frombuffer16 (tobytes (nd_data S) @ tobytes (nd_data T) @ nd_data Q) = Inr blk"
    by (simp add: pack_q4k_block_def S_def T_def Q_def split: if_splits)
  then have blk: "blk = nd_data S @ nd_data T @ words16 (nd_data Q)" by (simp add: frombuffer16_def len)
  have bytes: "tobytes blk = tobytes (nd_data S) @ tobytes (nd_data T) @ nd_data Q"
    by (simp add: blk tobytes_words16 len)
  show "length blk = BLOCK_BF16" by (simp add: blk len)
  {
    assume g: "g < 8" "r < 32"
    then have i: "g * 32 + r < 256" by simp
    have "nd_data S ! (g * 32 + r) = bf (nd_get s [r, g])" "nd_data T ! (g * 32 + r) = bf (nd_get m [r, g])"
      unfolding S_def T_def using g by (subst nth_build [of _ "[g, r]"]; simp)+
    with i show "block_scale blk g r = bf (nd_get s [r, g])" "block_offset blk g r = bf (nd_get m [r, g])"
      by (simp_all add: block_scale_def block_offset_def blk nth_append len)
  }
  assume r: "r < 32" "c < 256"
  let ?g = "r div 16" and ?k = "r mod 16 div 2"
  have idx: "in_shape [2, 256, 8] [?g, c, ?k]" using r by (simp add: less_mult_imp_div_less)
  have "tobytes blk ! (1024 + (?g * 2048 + c * 8 + ?k)) = nd_data Q ! ravel [2, 256, 8] [?g, c, ?k]"
    by (simp add: bytes nth_append len)
  also have "\<dots> = push_bit 4 (nd_get q [?g * 16 + ?k * 2 + 1, c] AND 0xF) OR (nd_get q [?g * 16 + ?k * 2, c] AND 0xF)"
    unfolding Q_def by (subst nth_build [OF idx refl]) simp
  finally have b: "tobytes blk ! (1024 + (?g * 2048 + c * 8 + ?k))
    = push_bit 4 (nd_get q [?g * 16 + ?k * 2 + 1, c] AND 0xF) OR (nd_get q [?g * 16 + ?k * 2, c] AND 0xF)" .
  have "even r \<Longrightarrow> ?g * 16 + ?k * 2 = r" "odd r \<Longrightarrow> ?g * 16 + ?k * 2 + 1 = r" by presburger+
  then show "block_nibble blk r c = nd_get q [r, c] AND 0xF"
    unfolding block_nibble_def Let_def b by (cases "even r") (simp_all only: nibbles_apart if_True if_False simp_thms)
qed

section \<open>Reading the fields of many blocks\<close>

lemma tobytes_nth: "k < 2 * length ws \<Longrightarrow> tobytes ws ! k = bytes16 (ws ! (k div 2)) ! (k mod 2)"
proof (induction ws arbitrary: k)
  case (Cons w ws)
  show ?case
  proof (cases "k < 2")
    case True
    then show ?thesis by (auto simp: bytes16_def less_2_cases_iff)
  next
    case False
    with Cons.prems have "tobytes (w # ws) ! k = bytes16 (ws ! ((k - 2) div 2)) ! ((k - 2) mod 2)"
      using Cons.IH [of "k - 2"] by (auto simp: bytes16_def numeral_2_eq_2)
    moreover have "(k - 2) div 2 = k div 2 - 1" "(k - 2) mod 2 = k mod 2" "k div 2 \<noteq> 0" using False by presburger+
    ultimately show ?thesis by (simp add: nth_Cons')
  qed
qed simp

lemma row_positions:
  assumes "r < 32"
  shows "r \<in> set even_rows \<longleftrightarrow> even r" and "r \<in> set odd_rows \<longleftrightarrow> odd r"
    and "even r \<Longrightarrow> length (takeWhile (\<lambda>x. x \<noteq> r) even_rows) = r div 2"
    and "odd r \<Longrightarrow> length (takeWhile (\<lambda>x. x \<noteq> r) odd_rows) = r div 2"
proof -
  have "\<forall>r \<in> set [0..<32]. (r \<in> set even_rows \<longleftrightarrow> even r) \<and> (r \<in> set odd_rows \<longleftrightarrow> odd r) \<and>
     (even r \<longrightarrow> length (takeWhile (\<lambda>x. x \<noteq> r) even_rows) = r div 2) \<and>
     (odd r \<longrightarrow> length (takeWhile (\<lambda>x. x \<noteq> r) odd_rows) = r div 2)"
    by code_simp
  with assms show "r \<in> set even_rows \<longleftrightarrow> even r" "r \<in> set odd_rows \<longleftrightarrow> odd r"
    "even r \<Longrightarrow> length (takeWhile (\<lambda>x. x \<noteq> r) even_rows) = r div 2"
    "odd r \<Longrightarrow> length (takeWhile (\<lambda>x. x \<noteq> r) odd_rows) = r div 2"
    by auto
qed

lemma reshape_bind: "nd_full a \<Longrightarrow> prod_list ns = prod_list (nd_shape a) \<Longrightarrow> res_bind (reshape ns a) f = f (a\<lparr>nd_shape := ns\<rparr>)"
  by (simp add: reshape_Inr)

lemma view8_simps [simp]:
  "nd_shape (view8 a) = butlast (nd_shape a) @ [last (nd_shape a) * 2]"
  "nd_shape a = ns @ [n] \<Longrightarrow> nd_full a \<Longrightarrow> nd_full (view8 a)"
  by (simp_all add: view8_def nd_full_def)

text \<open>Each block is read as its fields say.\<close>

lemma fields_read:
  assumes len: "length raw = nb * BLOCK_BF16"
  obtains sc mn q where "block_fields nb raw = Inr (sc, mn, q)"
    and "nd_shape sc = [nb, 8, 32]" "nd_shape mn = [nb, 8, 32]" "nd_shape q = [nb, 32, 256]" "nd_full sc" "nd_full mn" "nd_full q"
    and "\<And>b g r. b < nb \<Longrightarrow> g < 8 \<Longrightarrow> r < 32 \<Longrightarrow> nd_get sc [b, g, r] = block_scale (chunk BLOCK_BF16 b raw) g r"
    and "\<And>b g r. b < nb \<Longrightarrow> g < 8 \<Longrightarrow> r < 32 \<Longrightarrow> nd_get mn [b, g, r] = block_offset (chunk BLOCK_BF16 b raw) g r"
    and "\<And>b r c. b < nb \<Longrightarrow> r < 32 \<Longrightarrow> c < 256 \<Longrightarrow> nd_get q [b, r, c] = block_nibble (chunk BLOCK_BF16 b raw) r c"
proof -
  define A where "A = \<lparr>nd_shape = [nb, 2560], nd_data = raw\<rparr>"
  have A: "nd_shape A = [nb, 2560]" "nd_full A" using len by (simp_all add: A_def nd_full_def)
  have A_get: "nd_get A [b, i] = chunk 2560 b raw ! i" if "b < nb" "i < 2560" for b i
    using that chunk_nth [OF len that] by (simp add: A_def nd_get_def)
  define S where "S = (columns 0 256 A)\<lparr>nd_shape := [nb, 8, 32]\<rparr>"
  define T where "T = (columns 256 512 A)\<lparr>nd_shape := [nb, 8, 32]\<rparr>"
  define C where "C = columns 512 2560 A"
  define B where "B = (view8 C)\<lparr>nd_shape := [nb, 2, 256, 8]\<rparr>"
  have C: "nd_shape C = [nb, 2048]" "nd_full C" by (simp_all add: C_def A)
  have B: "nd_shape B = [nb, 2, 256, 8]" "nd_full B"
    using view8_simps(2) [of C "[nb]"] C by (auto simp: B_def intro!: filled_shape_update)
  define H where "H f = (transpose_nd [0, 1, 3, 2] (map_nd f B))\<lparr>nd_shape := [nb, 16, 256]\<rparr>" for f :: "8 word \<Rightarrow> 8 word"
  define L where "L = H (\<lambda>w. w AND 0xF)"
  define U where "U = H (drop_bit 4)"
  define Q where "Q = put_rows odd_rows U (put_rows even_rows L (nd_build [nb, 32, 256] (\<lambda>_. 0)))"
  have ok: "block_fields nb raw = Inr (S, T, Q)"
  proof -
    have d: "32 div 16 = (2 :: nat)" "16 div 2 = (8 :: nat)" "32 div 2 = (16 :: nat)" by simp_all
    have 1: "reshape [nb, 2560] \<lparr>nd_shape = [length raw], nd_data = raw\<rparr> = Inr A" by (simp add: reshape_def A_def len)
    have 2: "reshape [nb, 8, 32] (columns 0 256 A) = Inr S" "reshape [nb, 8, 32] (columns 256 512 A) = Inr T"
      by (simp_all add: S_def T_def reshape_Inr A)
    have 3: "reshape [nb, 2, 256, 8] (view8 (columns 512 2560 A)) = Inr B"
      unfolding B_def C_def [symmetric] by (rule reshape_Inr) (use view8_simps(2) [of C "[nb]"] C in auto)
    have 4: "reshape [nb, 16, 256] (transpose_nd [0, 1, 3, 2] (map_nd f B)) = Inr (H f)" for f
      unfolding H_def by (rule reshape_Inr) (simp_all add: B)
    show ?thesis unfolding block_fields_def Q_def L_def U_def by (simp only: d 1 2 3 4 res_bind_simps)
  qed
  show thesis
  proof (rule that [OF ok])
    show "nd_shape S = [nb, 8, 32]" "nd_shape T = [nb, 8, 32]" "nd_shape Q = [nb, 32, 256]" "nd_full Q"
      by (simp_all add: S_def T_def Q_def)
    show "nd_full S" "nd_full T" by (auto simp: S_def T_def A intro!: filled_shape_update)
    fix b :: nat assume b: "b < nb"
    {
      fix g r :: nat assume gr: "g < 8" "r < 32"
      then have i: "g * 32 + r < 256" by simp
      have "nd_get S [b, g, r] = nd_get (columns 0 256 A) [b, g * 32 + r]"
        "nd_get T [b, g, r] = nd_get (columns 256 512 A) [b, g * 32 + r]"
        unfolding S_def T_def by (rule get_shape_update; simp add: A)+
      with i show "nd_get S [b, g, r] = block_scale (chunk 2560 b raw) g r" "nd_get T [b, g, r] = block_offset (chunk 2560 b raw) g r"
        by (simp_all add: get_columns A A_get b block_scale_def block_offset_def add.assoc)
    }
    fix r c :: nat assume rc: "r < 32" "c < 256"
    let ?g = "r div 16" and ?k = "r mod 16 div 2"
    have gk: "?g < 2" "?k < 8" using rc by (simp_all add: less_mult_imp_div_less)
    let ?i = "?g * 2048 + c * 8 + ?k"
    have i: "?i < 4096" using gk rc by simp
    have C_get: "nd_data C ! (b * 2048 + j) = chunk 2560 b raw ! (512 + j)" if "j < 2048" for j
      using that b get_columns [of b A j 2560 512] A_get [OF b, of "512 + j"] by (simp add: C_def A nd_get_def)
    have halves: "(b * 4096 + x) div 2 = b * 2048 + x div 2" "(b * 4096 + x) mod 2 = (1024 + x) mod 2"
      "512 + x div 2 = (1024 + x) div 2" for x by presburger+
    have "nd_get B [b, ?g, c, ?k] = tobytes (nd_data C) ! (b * 4096 + ?i)"
      by (simp add: B_def view8_def nd_get_def add.assoc)
    also have "\<dots> = bytes16 (nd_data C ! ((b * 4096 + ?i) div 2)) ! ((b * 4096 + ?i) mod 2)"
    proof (rule tobytes_nth)
      have "Suc b * 4096 \<le> nb * 4096" using b by (intro mult_right_mono) auto
      then show "b * 4096 + ?i < 2 * length (nd_data C)" using C i by (simp add: nd_full_def)
    qed
    also note halves(1) [of ?i]
    also note halves(2) [of ?i]
    also have "nd_data C ! (b * 2048 + ?i div 2) = chunk 2560 b raw ! ((1024 + ?i) div 2)"
      unfolding halves(3) [of ?i, symmetric] using C_get [of "?i div 2"] i by simp
    also have "bytes16 (chunk 2560 b raw ! ((1024 + ?i) div 2)) ! ((1024 + ?i) mod 2) = tobytes (chunk 2560 b raw) ! (1024 + ?i)"
      using i chunk_length [OF len b] by (intro tobytes_nth [symmetric]) simp
    finally have B_get: "nd_get B [b, ?g, c, ?k] = tobytes (chunk 2560 b raw) ! (1024 + ?i)" .
    have H_get: "nd_get (H f) [b, r div 2, c] = f (nd_get B [b, ?g, c, ?k])" for f
    proof -
      have "nd_get (H f) [b, r div 2, c] = nd_get (transpose_nd [0, 1, 3, 2] (map_nd f B)) [b, ?g, ?k, c]"
        unfolding H_def
      proof (rule get_shape_update)
        have "r div 2 = ?g * 8 + ?k" by presburger
        then show "ravel [nb, 16, 256] [b, r div 2, c] = ravel (nd_shape (transpose_nd [0, 1, 3, 2] (map_nd f B))) [b, ?g, ?k, c]"
          by (simp add: B algebra_simps)
      qed
      also have "\<dots> = nd_get (map_nd f B) [b, ?g, c, ?k]"
        using b rc gk by (subst get_transpose) (simp_all add: B moved_def upt_rec)
      also have "\<dots> = f (nd_get B [b, ?g, c, ?k])" using b rc gk by (intro get_map_nd) (simp_all add: B)
      finally show ?thesis .
    qed
    have "nd_get Q [b, r, c] = (if even r then nd_get L [b, r div 2, c] else nd_get U [b, r div 2, c])"
      using b rc row_positions [OF rc(1)] by (auto simp: Q_def put_rows_def)
    then show "nd_get Q [b, r, c] = block_nibble (chunk 2560 b raw) r c"
      by (simp add: block_nibble_def Let_def L_def U_def H_get B_get)
  qed
qed

section \<open>Matrices from blocks\<close>

lemma block_position: "bi < nbi \<Longrightarrow> bj < nbj \<Longrightarrow> bi * nbj + bj < nbi * (nbj :: nat)"
proof -
  assume "bi < nbi" "bj < nbj"
  then have "bi * nbj + bj < Suc bi * nbj" by simp
  also have "\<dots> \<le> nbi * nbj" using \<open>bi < nbi\<close> by (intro mult_right_mono) auto
  finally show ?thesis .
qed

lemma unblock_read:
  assumes "nd_full a" and "nd_shape a = [nbi * nbj, h, w]" and "M = nbi * h" and "K = nbj * w"
  obtains m where "unblock nbi nbj h w M K a = Inr m" and "nd_shape m = [M, K]" and "nd_full m"
    and "\<And>bi bj r c. bi < nbi \<Longrightarrow> bj < nbj \<Longrightarrow> r < h \<Longrightarrow> c < w \<Longrightarrow>
      nd_get m [bi * h + r, bj * w + c] = nd_get a [bi * nbj + bj, r, c]"
proof -
  let ?a = "a\<lparr>nd_shape := [nbi, nbj, h, w]\<rparr>"
  let ?t = "transpose_nd [0, 2, 1, 3] ?a"
  let ?m = "?t\<lparr>nd_shape := [M, K]\<rparr>"
  have 1: "reshape [nbi, nbj, h, w] a = Inr ?a" by (rule reshape_Inr) (simp_all add: assms)
  have 2: "reshape [M, K] ?t = Inr ?m" by (rule reshape_Inr) (simp_all add: assms)
  show thesis
  proof (rule that)
    show "unblock nbi nbj h w M K a = Inr ?m" by (simp only: unblock_def 1 2 res_bind_simps)
    show "nd_full ?m" by (rule filled_shape_update) (simp_all add: assms)
    fix bi bj r c assume i: "bi < nbi" "bj < nbj" "r < h" "c < w"
    have "nd_get ?m [bi * h + r, bj * w + c] = nd_get ?t [bi, r, bj, c]"
      by (rule get_shape_update) (simp add: assms algebra_simps)
    also have "\<dots> = nd_get ?a [bi, bj, r, c]"
      using i by (subst get_transpose) (simp_all add: moved_def upt_rec)
    also have "\<dots> = nd_get a [bi * nbj + bj, r, c]"
      by (rule get_shape_update) (simp add: assms algebra_simps)
    finally show "nd_get ?m [bi * h + r, bj * w + c] = nd_get a [bi * nbj + bj, r, c]" .
  qed simp
qed

lemma unblock_error:
  assumes "nd_full a" and "nd_shape a = [nbi * nbj, h, w]" and "M * K \<noteq> nbi * h * (nbj * w)"
  shows "unblock nbi nbj h w M K a = Inl ValueError"
proof -
  have "reshape [nbi, nbj, h, w] a = Inr (a\<lparr>nd_shape := [nbi, nbj, h, w]\<rparr>)" by (rule reshape_Inr) (simp_all add: assms)
  with assms(3) show ?thesis by (simp add: unblock_def reshape_def ac_simps)
qed

text \<open>The weight a block gives its element.\<close>

definition block_weight :: "'f float_ops \<Rightarrow> ('f \<Rightarrow> 'f \<Rightarrow> 'f \<Rightarrow> 'f) \<Rightarrow> 16 word list \<Rightarrow> nat \<Rightarrow> nat \<Rightarrow> 'f" where
  "block_weight fl comb blk r c =
     comb (fl_of_bf16 fl (block_scale blk (c div 32) r)) (fl_of_u8 fl (block_nibble blk r c)) (fl_of_bf16 fl (block_offset blk (c div 32) r))"

lemma repeated_group:
  assumes "nd_full a" and "nd_shape a = [nb, 8, 32]" and "b < nb" "r < 32" "c < 256"
  shows "nd_get (repeat_last 32 (transpose_nd [0, 2, 1] (map_nd f a))) [b, r, c] = f (nd_get a [b, c div 32, r])"
proof -
  have c: "c div 32 < 8" using assms(5) by (simp add: less_mult_imp_div_less)
  have "nd_get (repeat_last 32 (transpose_nd [0, 2, 1] (map_nd f a))) [b, r, c] = nd_get (transpose_nd [0, 2, 1] (map_nd f a)) [b, r, c div 32]"
    using assms by (simp add: repeat_last_def)
  also have "\<dots> = nd_get (map_nd f a) [b, c div 32, r]"
    using assms c by (subst get_transpose) (simp_all add: moved_def upt_rec)
  also have "\<dots> = f (nd_get a [b, c div 32, r])" using assms c by (intro get_map_nd) simp_all
  finally show ?thesis .
qed

lemma weights_read:
  assumes "block_fields nb raw = Inr parts" and len: "length raw = nb * BLOCK_BF16"
  shows "nd_shape (weights_of fl comb parts) = [nb, 32, 256]" and "nd_full (weights_of fl comb parts)"
    and "b < nb \<Longrightarrow> r < 32 \<Longrightarrow> c < 256 \<Longrightarrow> nd_get (weights_of fl comb parts) [b, r, c] = block_weight fl comb (chunk BLOCK_BF16 b raw) r c"
proof -
  obtain sc mn q where f: "block_fields nb raw = Inr (sc, mn, q)"
    "nd_shape sc = [nb, 8, 32]" "nd_shape mn = [nb, 8, 32]" "nd_shape q = [nb, 32, 256]" "nd_full sc" "nd_full mn" "nd_full q"
    and g: "\<And>b g r. b < nb \<Longrightarrow> g < 8 \<Longrightarrow> r < 32 \<Longrightarrow> nd_get sc [b, g, r] = block_scale (chunk BLOCK_BF16 b raw) g r"
      "\<And>b g r. b < nb \<Longrightarrow> g < 8 \<Longrightarrow> r < 32 \<Longrightarrow> nd_get mn [b, g, r] = block_offset (chunk BLOCK_BF16 b raw) g r"
      "\<And>b r c. b < nb \<Longrightarrow> r < 32 \<Longrightarrow> c < 256 \<Longrightarrow> nd_get q [b, r, c] = block_nibble (chunk BLOCK_BF16 b raw) r c"
    by (rule fields_read [OF len]) (rule that; assumption)
  let ?s = "repeat_last 32 (transpose_nd [0, 2, 1] (map_nd (fl_of_bf16 fl) sc))"
  let ?o = "repeat_last 32 (transpose_nd [0, 2, 1] (map_nd (fl_of_bf16 fl) mn))"
  let ?z = "zip_nd Pair (map_nd (fl_of_u8 fl) q) ?o"
  have w: "weights_of fl comb parts = zip_nd (\<lambda>s (q, m). comb s q m) ?s ?z"
    using assms(1) f(1) by (auto simp: weights_of_def)
  have sh: "nd_shape ?s = [nb, 32, 256]" "nd_shape ?o = [nb, 32, 256]" "nd_shape ?z = [nb, 32, 256]" "nd_full ?z"
    using f by simp_all
  show "nd_shape (weights_of fl comb parts) = [nb, 32, 256]" "nd_full (weights_of fl comb parts)"
    unfolding w using f by simp_all
  assume i: "b < nb" "r < 32" "c < 256"
  then have c: "c div 32 < 8" by (simp add: less_mult_imp_div_less)
  have "nd_get ?z [b, r, c] = (fl_of_u8 fl (nd_get q [b, r, c]), fl_of_bf16 fl (nd_get mn [b, c div 32, r]))"
  proof -
    have "nd_get ?o [b, r, c] = fl_of_bf16 fl (nd_get mn [b, c div 32, r])" by (rule repeated_group) (use i f in simp_all)
    moreover have "nd_get ?z [b, r, c] = (nd_get (map_nd (fl_of_u8 fl) q) [b, r, c], nd_get ?o [b, r, c])"
      by (rule get_zip_nd) (use i f in simp_all)
    ultimately show ?thesis using i f by (simp add: get_map_nd)
  qed
  moreover have "nd_get ?s [b, r, c] = fl_of_bf16 fl (nd_get sc [b, c div 32, r])"
    by (rule repeated_group) (use i f in simp_all)
  moreover have "nd_get (weights_of fl comb parts) [b, r, c] = (case nd_get ?z [b, r, c] of (q, m) \<Rightarrow> comb (nd_get ?s [b, r, c]) q m)"
    unfolding w by (rule get_zip_nd) (use sh i in simp_all)
  ultimately show "nd_get (weights_of fl comb parts) [b, r, c] = block_weight fl comb (chunk BLOCK_BF16 b raw) r c"
    using i c by (simp add: g block_weight_def)
qed

lemma dequant_read:
  assumes "length raw = nbi * nbj * BLOCK_BF16" and "M = nbi * 32" and "K = nbj * 256"
  obtains m where "dequant_blocks fl comb nbi nbj M K raw = Inr m" and "nd_shape m = [M, K]" and "nd_full m"
    and "\<And>bi bj r c. bi < nbi \<Longrightarrow> bj < nbj \<Longrightarrow> r < 32 \<Longrightarrow> c < 256 \<Longrightarrow>
      nd_get m [bi * 32 + r, bj * 256 + c] = block_weight fl comb (chunk BLOCK_BF16 (bi * nbj + bj) raw) r c"
proof -
  obtain sc mn q where f: "block_fields (nbi * nbj) raw = Inr (sc, mn, q)" by (rule fields_read [OF assms(1)])
  note w = weights_read [OF f assms(1), where fl = fl and comb = comb]
  obtain m where m: "unblock nbi nbj 32 256 M K (weights_of fl comb (sc, mn, q)) = Inr m" "nd_shape m = [M, K]" "nd_full m"
    and g: "\<And>bi bj r c. bi < nbi \<Longrightarrow> bj < nbj \<Longrightarrow> r < 32 \<Longrightarrow> c < 256 \<Longrightarrow>
      nd_get m [bi * 32 + r, bj * 256 + c] = nd_get (weights_of fl comb (sc, mn, q)) [bi * nbj + bj, r, c]"
    by (rule unblock_read [OF w(2,1) assms(2,3)]) (rule that; assumption)
  show thesis
    by (rule that [OF _ m(2,3)]) (use f m g w(3) block_position in \<open>auto simp: dequant_blocks_def\<close>)
qed

lemma dequant_blocks_Inr:
  assumes "dequant_blocks fl comb nbi nbj M K raw = Inr m"
  shows "length raw = nbi * nbj * BLOCK_BF16" and "M * K = nbi * 32 * (nbj * 256)"
proof -
  show len: "length raw = nbi * nbj * BLOCK_BF16"
    using assms by (auto simp: dequant_blocks_def block_fields_def reshape_def res_simps split: if_splits)
  obtain sc mn q where f: "block_fields (nbi * nbj) raw = Inr (sc, mn, q)" by (rule fields_read [OF len])
  show "M * K = nbi * 32 * (nbj * 256)"
  proof (rule ccontr)
    assume "M * K \<noteq> nbi * 32 * (nbj * 256)"
    then have "unblock nbi nbj 32 256 M K (weights_of fl comb (sc, mn, q)) = Inl ValueError"
      by (rule unblock_error [OF weights_read(2,1) [OF f len]])
    with assms f show False by (simp add: dequant_blocks_def)
  qed
qed

text \<open>The row of a matrix with at least one column is that of a block.\<close>

lemma whole_extents:
  assumes "M * K = M div 32 * 32 * (K div 256 * 256)" and "M * K \<noteq> (0 :: nat)"
  shows "M div 32 * 32 = M" and "K div 256 * 256 = K"
proof -
  have le: "M div 32 * 32 \<le> M" "K div 256 * 256 \<le> K" by auto
  show "M div 32 * 32 = M"
  proof (rule ccontr)
    assume "M div 32 * 32 \<noteq> M"
    with le(1) have "M div 32 * 32 < M" by simp
    then have "M div 32 * 32 * (K div 256 * 256) < M * K"
      using le(2) assms(2) by (metis gr0I le_less_trans mult_eq_0_iff mult_le_mono2 mult_less_cancel2)
    with assms(1) show False by simp
  qed
  show "K div 256 * 256 = K"
  proof (rule ccontr)
    assume "K div 256 * 256 \<noteq> K"
    with le(2) have "K div 256 * 256 < K" by simp
    then have "M div 32 * 32 * (K div 256 * 256) < M * K"
      using le(1) assms(2) by (metis gr0I le_less_trans mult_eq_0_iff mult_le_mono1 mult_less_cancel1)
    with assms(1) show False by simp
  qed
qed

end
