(* ===== verification/Q4nx_Stream.thy ===== *)
theory Q4nx_Stream
  imports Q4nx_Laws
begin

text \<open>
  Whole tensors of the Q4NX codec: the stream holds every block once, the vectorised packer makes the same stream, packed
  blocks are dequantised to the values they were packed from, and a range of rows can be read on its own.
\<close>

unbundle bit_operations_syntax

section \<open>The block of a position\<close>

text \<open>A block of whole matrices, as the bytes of the packer.\<close>

definition scale_words :: "('f \<Rightarrow> 16 word) \<Rightarrow> 'f nd \<Rightarrow> nat \<Rightarrow> nat \<Rightarrow> 16 word list" where
  "scale_words bf s gi j = map (\<lambda>is. bf (nd_get s [gi * 32 + is ! 1, j * 8 + is ! 0])) (indices [8, 32])"

definition nibble_bytes :: "8 word nd \<Rightarrow> nat \<Rightarrow> nat \<Rightarrow> 8 word list" where
  "nibble_bytes q gi j =
     map (\<lambda>is. push_bit 4 (nd_get q [gi * 32 + (is ! 0 * 16 + is ! 2 * 2 + 1), j * 256 + is ! 1] AND 0xF)
               OR (nd_get q [gi * 32 + (is ! 0 * 16 + is ! 2 * 2), j * 256 + is ! 1] AND 0xF)) (indices [2, 256, 8])"

lemma word_lengths [simp]: "length (scale_words bf s gi j) = 256" "length (nibble_bytes q gi j) = 4096"
  by (simp_all add: scale_words_def nibble_bytes_def)

lemma map_indices_cong: "(\<And>is. in_shape ns is \<Longrightarrow> f is = g is) \<Longrightarrow> map f (indices ns) = map g (indices ns)"
  by (simp add: set_indices)

lemma block_slice:
  assumes "nd_shape a = [nbi * h, nbj * w]" and "gi < nbi" and "j < nbj"
  shows "slice2 (gi * h) (gi * h + h) (j * w) (j * w + w) a = Inr (nd_build [h, w] (\<lambda>is. nd_get a [gi * h + is ! 0, j * w + is ! 1]))"
proof -
  have "gi * h + h \<le> nbi * h" "j * w + w \<le> nbj * w"
    using assms(2,3) mult_right_mono [of "Suc gi" nbi h] mult_right_mono [of "Suc j" nbj w] by simp_all
  then show ?thesis by (simp add: slice2_matrix [OF assms(1)] min_absorb1)
qed

lemma block_of_eq:
  assumes "nd_shape q = [nbi * 32, nbj * 256]" and "nd_shape s = [nbi * 32, nbj * 8]" and "nd_shape m = [nbi * 32, nbj * 8]"
    and "gi < nbi" and "j < nbj"
  shows "block_of bf q s m gi j = Inr (scale_words bf s gi j @ scale_words bf m gi j @ words16 (nibble_bytes q gi j))"
proof -
  let ?q = "nd_build [32, 256] (\<lambda>is. nd_get q [gi * 32 + is ! 0, j * 256 + is ! 1])"
  let ?s = "nd_build [32, 8] (\<lambda>is. nd_get s [gi * 32 + is ! 0, j * 8 + is ! 1])"
  let ?m = "nd_build [32, 8] (\<lambda>is. nd_get m [gi * 32 + is ! 0, j * 8 + is ! 1])"
  have "block_of bf q s m gi j = pack_q4k_block bf ?q ?s ?m"
    using block_slice [OF assms(1,4,5)] block_slice [OF assms(2,4,5)] block_slice [OF assms(3,4,5)]
    by (simp add: block_of_def Let_def)
  also have "\<dots> = frombuffer16 (tobytes (scale_words bf s gi j) @ tobytes (scale_words bf m gi j) @ nibble_bytes q gi j)"
  proof -
    have s: "map (\<lambda>is. bf (nd_get (nd_build [32, 8] (\<lambda>is. nd_get a [gi * 32 + is ! 0, j * 8 + is ! 1])) [is ! 1, is ! 0])) (indices [8, 32])
        = scale_words bf a gi j" for a
      unfolding scale_words_def by (rule map_indices_cong) (auto simp: inside_Cons)
    have q: "map (\<lambda>is. push_bit 4 (nd_get ?q [is ! 0 * 16 + is ! 2 * 2 + 1, is ! 1] AND 0xF)
                    OR (nd_get ?q [is ! 0 * 16 + is ! 2 * 2, is ! 1] AND 0xF)) (indices [2, 256, 8]) = nibble_bytes q gi j"
      unfolding nibble_bytes_def by (rule map_indices_cong) (auto simp: inside_Cons)
    show ?thesis using q s [of s] s [of m] unfolding pack_q4k_block_def by simp
  qed
  also have "\<dots> = Inr (scale_words bf s gi j @ scale_words bf m gi j @ words16 (nibble_bytes q gi j))"
    by (simp add: frombuffer16_def)
  finally show ?thesis .
qed

lemma nth_map_indices: "in_shape ns is \<Longrightarrow> k = ravel ns is \<Longrightarrow> map f (indices ns) ! k = f is"
  by (simp add: ravel_less nth_indices)

text \<open>What the block says of its elements.\<close>

lemma block_weight_eq:
  assumes "r < 32" and "c < 256" and "nd_shape q = [nbi * 32, nbj * 256]"
  shows "block_weight fl comb (scale_words bf s gi j @ scale_words bf m gi j @ words16 (nibble_bytes q gi j)) r c =
    comb (fl_of_bf16 fl (bf (nd_get s [gi * 32 + r, j * 8 + c div 32]))) (fl_of_u8 fl (nd_get q [gi * 32 + r, j * 256 + c] AND 0xF))
         (fl_of_bf16 fl (bf (nd_get m [gi * 32 + r, j * 8 + c div 32])))"
proof -
  let ?blk = "scale_words bf s gi j @ scale_words bf m gi j @ words16 (nibble_bytes q gi j)"
  let ?g = "c div 32" and ?h = "r div 16" and ?k = "r mod 16 div 2"
  have g: "?g < 8" "?h < 2" "?k < 8" using assms(1,2) by (simp_all add: less_mult_imp_div_less)
  have w: "scale_words bf a gi j ! (?g * 32 + r) = bf (nd_get a [gi * 32 + r, j * 8 + ?g])" for a
    unfolding scale_words_def by (subst nth_map_indices [of _ "[?g, r]"]) (use g assms in simp_all)
  have i: "?g * 32 + r < 256" using g assms(1) by simp
  then have "block_scale ?blk ?g r = bf (nd_get s [gi * 32 + r, j * 8 + ?g])" "block_offset ?blk ?g r = bf (nd_get m [gi * 32 + r, j * 8 + ?g])"
    using w by (simp_all add: block_scale_def block_offset_def nth_append)
  moreover have "block_nibble ?blk r c = nd_get q [gi * 32 + r, j * 256 + c] AND 0xF"
  proof -
    have "tobytes ?blk ! (1024 + (?h * 2048 + c * 8 + ?k)) = nibble_bytes q gi j ! (?h * 2048 + c * 8 + ?k)"
      by (simp add: tobytes_words16 nth_append add.assoc)
    also have "\<dots> = push_bit 4 (nd_get q [gi * 32 + (?h * 16 + ?k * 2 + 1), j * 256 + c] AND 0xF)
        OR (nd_get q [gi * 32 + (?h * 16 + ?k * 2), j * 256 + c] AND 0xF)"
      unfolding nibble_bytes_def by (subst nth_map_indices [of _ "[?h, c, ?k]"]) (use g assms in simp_all)
    finally have b: "tobytes ?blk ! (1024 + (?h * 2048 + c * 8 + ?k)) = \<dots>" .
    have "even r \<Longrightarrow> ?h * 16 + ?k * 2 = r" "odd r \<Longrightarrow> ?h * 16 + ?k * 2 + 1 = r" by presburger+
    then show ?thesis
      unfolding block_nibble_def Let_def b by (cases "even r") (simp_all only: nibbles_apart if_True if_False simp_thms)
  qed
  ultimately show ?thesis by (simp add: block_weight_def)
qed

section \<open>Every block once\<close>

definition row_steps :: "nat \<Rightarrow> nat \<Rightarrow> nat \<Rightarrow> nat \<Rightarrow> (nat \<times> nat \<times> nat) list" where
  "row_steps n nbj lo hi = concat (map (\<lambda>(i, j). map (\<lambda>cy. (i, j, cy)) [lo..<hi]) (List.product [0..<n] [0..<nbj]))"

lemma set_row_steps [simp]: "set (row_steps n nbj lo hi) = {..<n} \<times> {..<nbj} \<times> {lo..<hi}"
  by (auto simp: row_steps_def image_iff)

lemma length_row_steps [simp]: "length (row_steps n nbj lo hi) = n * nbj * (hi - lo)"
proof -
  have "length (concat (map (\<lambda>(i, j). map (\<lambda>cy. (i, j, cy)) [lo..<hi]) steps)) = length steps * (hi - lo)"
    for steps :: "(nat \<times> nat) list"
    by (induction steps) auto
  then show ?thesis by (simp add: row_steps_def)
qed

lemma cascade_order_eq:
  "cascade_order NCY n nbj dual =
     (if \<not> dual then Inr (row_steps n nbj 0 NCY)
      else if even NCY then Inr (row_steps n nbj 0 (NCY div 2) @ row_steps n nbj (NCY div 2) NCY)
      else Inl AssertionError)"
proof -
  have two: "[0..<2] = [0, Suc 0]" by (simp add: upt_rec)
  have "NCY div 2 + NCY div 2 = NCY" if "even NCY" using that by presburger
  then show ?thesis
    by (cases dual) (simp_all add: cascade_order_def row_steps_def Let_def two even_iff_mod_2_eq_zero res_check_def)
qed

lemma cascade_order_set:
  assumes "cascade_order NCY n nbj dual = Inr ord"
  shows "set ord = {..<n} \<times> {..<nbj} \<times> {..<NCY}" and "length ord = n * nbj * NCY"
proof -
  have h: "{..<NCY} = {0..<NCY div 2} \<union> {NCY div 2..<NCY}" by auto
  show "set ord = {..<n} \<times> {..<nbj} \<times> {..<NCY}"
    using assms unfolding h by (auto simp: cascade_order_eq split: if_splits)
  have "n * nbj * (NCY div 2) + n * nbj * (NCY - NCY div 2) = n * nbj * NCY"
    by (simp flip: distrib_left)
  then show "length ord = n * nbj * NCY"
    using assms by (auto simp: cascade_order_eq split: if_splits)
qed

text \<open>Each of the three layouts reaches every row block.\<close>

lemma cascade_row_onto:
  assumes "gi < n * (NCX * NCY)"
  obtains cx i cy where "cx < NCX" "i < n" "cy < NCY" "cascade_row NCX NCY n core_major iter_major cx i cy = gi"
proof -
  have pos: "0 < n" "0 < NCX" "0 < NCY" using assms by (auto intro: gr0I)
  have split: "a div NCY < NCX" "a mod NCY < NCY" "a div NCY * NCY + a mod NCY = a" if "a < NCX * NCY" for a
    using that pos by (simp_all add: less_mult_imp_div_less)
  consider (iter) "iter_major" | (core) "\<not> iter_major" "core_major" | (rows) "\<not> iter_major" "\<not> core_major" by blast
  then show thesis
  proof cases
    case iter
    let ?a = "gi mod (NCX * NCY)"
    have a: "?a < NCX * NCY" using pos by simp
    show thesis
    proof (rule that)
      show "gi div (NCX * NCY) < n" using assms by (simp add: less_mult_imp_div_less)
      show "cascade_row NCX NCY n core_major iter_major (?a div NCY) (gi div (NCX * NCY)) (?a mod NCY) = gi"
        using iter split(3) [OF a] div_mult_mod_eq [of gi "NCX * NCY"] by (simp add: cascade_row_def add.assoc)
    qed (use split [OF a] in auto)
  next
    case core
    let ?a = "gi div n"
    have a: "?a < NCX * NCY" using assms by (simp add: less_mult_imp_div_less mult.commute)
    show thesis
    proof (rule that)
      show "cascade_row NCX NCY n core_major iter_major (?a div NCY) (gi mod n) (?a mod NCY) = gi"
        using core split(3) [OF a] by (simp add: cascade_row_def)
    qed (use split [OF a] pos in auto)
  next
    case rows
    let ?b = "gi mod (NCY * n)"
    have b: "?b < n * NCY" using pos by (simp add: mult.commute)
    show thesis
    proof (rule that)
      show "gi div (NCY * n) < NCX" using assms by (simp add: less_mult_imp_div_less ac_simps)
      show "?b div NCY < n" using b by (simp add: less_mult_imp_div_less)
      show "?b mod NCY < NCY" using pos by simp
      show "cascade_row NCX NCY n core_major iter_major (gi div (NCY * n)) (?b div NCY) (?b mod NCY) = gi"
        using rows div_mult_mod_eq [of gi "NCY * n"] div_mult_mod_eq [of ?b NCY]
        by (simp add: cascade_row_def add.assoc)
    qed
  qed
qed

lemma cascade_row_less:
  assumes "cx < NCX" "i < n" "cy < NCY"
  shows "cascade_row NCX NCY n core_major iter_major cx i cy < n * (NCX * NCY)"
proof -
  have c: "cx * NCY + cy < NCX * NCY" by (rule block_position [OF assms(1,3)])
  have "i * (NCX * NCY) + (cx * NCY + cy) < n * (NCX * NCY)" by (rule block_position [OF assms(2) c])
  moreover have "(cx * NCY + cy) * n + i < NCX * NCY * n" by (rule block_position [OF c assms(2)])
  moreover have "cx * (n * NCY) + (i * NCY + cy) < NCX * (n * NCY)"
    by (rule block_position [OF assms(1) block_position [OF assms(2,3)]])
  ultimately show ?thesis by (simp add: cascade_row_def ac_simps)
qed

lemma mset_eq_by_onto:
  assumes "set ys \<subseteq> set xs" and "length xs = length ys" and "distinct ys"
  shows "mset xs = mset ys"
proof -
  have "card (set ys) \<le> card (set xs)" using assms(1) by (rule card_mono [OF finite_set])
  then have "card (set xs) = length xs" using assms(2,3) card_length [of xs] by (simp add: distinct_card)
  then have "distinct xs" by (rule card_distinct)
  moreover have "set ys = set xs"
    using assms \<open>distinct xs\<close> by (intro card_subset_eq) (simp_all add: distinct_card)
  ultimately show ?thesis using assms(3) by (simp add: set_eq_iff_mset_eq_distinct)
qed

lemma stream_pairs:
  assumes "cascade_order NCY n nbj dual = Inr ord"
  shows "mset (map (\<lambda>(cx, i, j, cy). (cascade_row NCX NCY n core_major iter_major cx i cy, j)) (List.product [0..<NCX] ord))
    = mset (List.product [0..<n * (NCX * NCY)] [0..<nbj])"
proof (rule mset_eq_by_onto)
  show "length (map (\<lambda>(cx, i, j, cy). (cascade_row NCX NCY n core_major iter_major cx i cy, j)) (List.product [0..<NCX] ord))
      = length (List.product [0..<n * (NCX * NCY)] [0..<nbj])"
    using cascade_order_set(2) [OF assms] by simp
  show "distinct (List.product [0..<n * (NCX * NCY)] [0..<nbj])" by (simp add: distinct_product)
  show "set (List.product [0..<n * (NCX * NCY)] [0..<nbj])
      \<subseteq> set (map (\<lambda>(cx, i, j, cy). (cascade_row NCX NCY n core_major iter_major cx i cy, j)) (List.product [0..<NCX] ord))"
  proof
    fix p assume "p \<in> set (List.product [0..<n * (NCX * NCY)] [0..<nbj])"
    then obtain gi j where p: "p = (gi, j)" "gi < n * (NCX * NCY)" "j < nbj" by auto
    then obtain cx i cy where c: "cx < NCX" "i < n" "cy < NCY" "cascade_row NCX NCY n core_major iter_major cx i cy = gi"
      using cascade_row_onto by blast
    then have "(cx, i, j, cy) \<in> set (List.product [0..<NCX] ord)" using p(3) cascade_order_set(1) [OF assms] by simp
    with c(4) p(1) show "p \<in> set (map (\<lambda>(cx, i, j, cy). (cascade_row NCX NCY n core_major iter_major cx i cy, j)) (List.product [0..<NCX] ord))"
      by force
  qed
qed

lemma map_res_of_map: "map_res f (map g xs) = map_res (\<lambda>x. f (g x)) xs"
  by (induction xs) simp_all

lemma map_res_total: "(\<And>x. x \<in> set xs \<Longrightarrow> f x = Inr (g x)) \<Longrightarrow> map_res f xs = Inr (map g xs)"
  by (rule map_res_all_Inr)

text \<open>What a packer that returns has put into its stream.\<close>

lemma cascade_blocks:
  assumes "pack_q4k_cascade bf q s m NCX NCY core_major iter_major dual = Inr stream" and "nd_shape q = [M, K]"
  obtains n ord blks where "M div 32 = n * (NCX * NCY)" "cascade_order NCY n (K div 256) dual = Inr ord" "stream = concat blks"
    "map_res (\<lambda>(gi, j). block_of bf q s m gi j)
       (map (\<lambda>(cx, i, j, cy). (cascade_row NCX NCY n core_major iter_major cx i cy, j)) (List.product [0..<NCX] ord)) = Inr blks"
proof -
  let ?n = "M div 32 div (NCX * NCY)"
  have "M div 32 mod (NCX * NCY) = 0" using assms by (auto simp: pack_q4k_cascade_def Let_def res_simps split: if_splits)
  then have "M div 32 = ?n * (NCX * NCY)" using div_mult_mod_eq [of "M div 32" "NCX * NCY"] by simp
  then show thesis
    using assms that [of ?n]
    by (auto simp: pack_q4k_cascade_def Let_def res_simps map_res_of_map split_def split: if_splits)
qed

text \<open>Where the sizes fit, the packer returns.\<close>

lemma cascade_returns:
  assumes "nd_shape q = [n * (NCX * NCY) * 32, nbj * 256]" and "nd_shape s = [n * (NCX * NCY) * 32, nbj * 8]"
    and "nd_shape m = [n * (NCX * NCY) * 32, nbj * 8]" and "0 < n" "0 < nbj" "0 < NCX" "0 < NCY" and "dual \<longrightarrow> even NCY"
  obtains stream where "pack_q4k_cascade bf q s m NCX NCY core_major iter_major dual = Inr stream"
proof -
  obtain ord where ord: "cascade_order NCY n nbj dual = Inr ord" using assms(8) by (cases dual) (auto simp: cascade_order_eq)
  let ?row = "\<lambda>(cx, i, j, cy). cascade_row NCX NCY n core_major iter_major cx i cy"
  have ok: "map_res (\<lambda>(cx, i, j, cy). block_of bf q s m (cascade_row NCX NCY n core_major iter_major cx i cy) j) (List.product [0..<NCX] ord)
      = Inr (map (\<lambda>x. projr (block_of bf q s m (?row x) (fst (snd (snd x))))) (List.product [0..<NCX] ord))"
  proof (rule map_res_all_Inr)
    fix x assume x: "x \<in> set (List.product [0..<NCX] ord)"
    obtain cx i j cy where e: "x = (cx, i, j, cy)" by (cases x)
    with x cascade_order_set(1) [OF ord] have i: "cx < NCX" "i < n" "j < nbj" "cy < NCY" by auto
    show "(case x of (cx, i, j, cy) \<Rightarrow> block_of bf q s m (cascade_row NCX NCY n core_major iter_major cx i cy) j)
        = Inr (projr (block_of bf q s m (?row x) (fst (snd (snd x)))))"
      using block_of_eq [OF assms(1-3) cascade_row_less [OF i(1,2,4)] i(3)] by (simp add: e)
  qed
  have "length ord \<noteq> 0" using assms(4,5,7) by (simp add: cascade_order_set(2) [OF ord])
  then have "List.product [0..<NCX] ord \<noteq> []" using assms(6) by (cases ord) (auto simp: product_concat_map)
  with ok ord assms(1,6,7) show thesis by (intro that) (simp add: pack_q4k_cascade_def Let_def)
qed

text \<open>
  C23: the weight stream holds every block of the matrix exactly once. If the row blocks of a matrix split evenly over the
  cores, the packer returns, whichever of the three layouts is asked for and with the rows of a column in one stream or in
  two halves; and the stream is the blocks of a permutation of the block positions of the matrix, one after the other.
\<close>

theorem stream_holds_every_block:
  assumes "nd_shape q = [n * (NCX * NCY) * ROW_BLOCK, nbj * COL_BLOCK]" and "nd_shape s = [n * (NCX * NCY) * ROW_BLOCK, nbj * N_GROUPS]"
    and "nd_shape m = [n * (NCX * NCY) * ROW_BLOCK, nbj * N_GROUPS]" and "0 < n" "0 < nbj" "0 < NCX" "0 < NCY" and "dual \<longrightarrow> even NCY"
  shows "\<exists>ps blks. pack_q4k_cascade bf q s m NCX NCY core_major iter_major dual = Inr (concat blks) \<and>
    mset ps = mset (List.product [0..<n * (NCX * NCY)] [0..<nbj]) \<and> map_res (\<lambda>(gi, j). block_of bf q s m gi j) ps = Inr blks"
proof -
  obtain stream where p: "pack_q4k_cascade bf q s m NCX NCY core_major iter_major dual = Inr stream"
    by (rule cascade_returns [OF assms])
  obtain n' ord blks where b: "n * (NCX * NCY) * 32 div 32 = n' * (NCX * NCY)" "cascade_order NCY n' (nbj * 256 div 256) dual = Inr ord" "stream = concat blks"
    "map_res (\<lambda>(gi, j). block_of bf q s m gi j)
       (map (\<lambda>(cx, i, j, cy). (cascade_row NCX NCY n' core_major iter_major cx i cy, j)) (List.product [0..<NCX] ord)) = Inr blks"
    by (rule cascade_blocks [OF p assms(1)])
  have "n' = n" "nbj * 256 div 256 = nbj" using b(1) assms(6,7) by simp_all
  then show ?thesis using p b(3,4) stream_pairs [OF b(2)] by metis
qed

section \<open>The vectorised packer\<close>

lemma per_block_read:
  assumes "nd_full a" and "nd_shape a = [nbi * 32, nbj * 8]"
  obtains b where "per_block bf nbi nbj a = Inr b" "nd_shape b = [nbi, nbj, 8, 32]" "nd_full b"
    "\<And>gi j. gi < nbi \<Longrightarrow> j < nbj \<Longrightarrow> chunk 256 (gi * nbj + j) (nd_data b) = scale_words bf a gi j"
proof -
  let ?a = "a\<lparr>nd_shape := [nbi, 32, nbj, 8]\<rparr>"
  let ?b = "map_nd bf (transpose_nd [0, 2, 3, 1] ?a)"
  have r: "reshape [nbi, 32, nbj, 8] a = Inr ?a" by (rule reshape_Inr) (simp_all add: assms)
  show thesis
  proof (rule that)
    show "per_block bf nbi nbj a = Inr ?b" by (simp only: per_block_def r res_bind_simps)
    fix gi j assume gj: "gi < nbi" "j < nbj"
    note k = block_position [OF gj]
    have len: "length (nd_data ?b) = (nbi * nbj) * 256" by simp
    show "chunk 256 (gi * nbj + j) (nd_data ?b) = scale_words bf a gi j"
    proof (rule nth_equalityI)
      show "length (chunk 256 (gi * nbj + j) (nd_data ?b)) = length (scale_words bf a gi j)"
        using chunk_length [OF len k] by simp
      fix i assume "i < length (chunk 256 (gi * nbj + j) (nd_data ?b))"
      then have i: "i < 256" using chunk_length [OF len k] by simp
      define g r where "g = i div 32" and "r = i mod 32"
      have gr: "g < 8" "r < 32" "i = g * 32 + r" using i by (auto simp: g_def r_def less_mult_imp_div_less)
      have "chunk 256 (gi * nbj + j) (nd_data ?b) ! i = nd_data ?b ! ((gi * nbj + j) * 256 + i)"
        by (rule chunk_nth [OF len k i])
      also have "\<dots> = nd_get ?b [gi, j, g, r]" by (simp add: nd_get_def gr(3) algebra_simps)
      also have "\<dots> = bf (nd_get (transpose_nd [0, 2, 3, 1] ?a) [gi, j, g, r])"
        using gj gr by (intro get_map_nd) simp_all
      also have "nd_get (transpose_nd [0, 2, 3, 1] ?a) [gi, j, g, r] = nd_get ?a [gi, r, j, g]"
        using gj gr by (subst get_transpose) (simp_all add: moved_def upt_rec)
      also have "\<dots> = nd_get a [gi * 32 + r, j * 8 + g]"
        by (rule get_shape_update) (simp add: assms algebra_simps)
      also have "bf \<dots> = scale_words bf a gi j ! i"
        unfolding scale_words_def by (subst nth_map_indices [of _ "[g, r]"]) (use gr in simp_all)
      finally show "chunk 256 (gi * nbj + j) (nd_data ?b) ! i = scale_words bf a gi j ! i" .
    qed
  qed simp_all
qed

lemma pair_nibbles_read:
  assumes "nd_full q" and "nd_shape q = [nbi * 32, nbj * 256]" and "0 < nbi" "0 < nbj"
  obtains b where "pair_nibbles nbi nbj q = Inr b" "nd_shape b = [nbi, nbj, 2048]" "length (nd_data b) = nbi * nbj * 2048"
    "\<And>gi j. gi < nbi \<Longrightarrow> j < nbj \<Longrightarrow> chunk 2048 (gi * nbj + j) (nd_data b) = words16 (nibble_bytes q gi j)"
proof -
  define A where "A = q\<lparr>nd_shape := [nbi, 32, nbj, 256]\<rparr>"
  define T where "T = transpose_nd [0, 2, 1, 3] A"
  define V where "V = T\<lparr>nd_shape := [nbi, nbj, 2, 8, 2, 256]\<rparr>"
  define Z where "Z = zip_nd (\<lambda>h l. push_bit 4 h OR l) (map_nd (\<lambda>w. w AND 0xF) (pick_axis 4 1 V)) (map_nd (\<lambda>w. w AND 0xF) (pick_axis 4 0 V))"
  define Q where "Q = transpose_nd [0, 1, 2, 4, 3] Z"
  have shA: "nd_shape A = [nbi, 32, nbj, 256]" and shT: "nd_shape T = [nbi, nbj, 32, 256]" and shV: "nd_shape V = [nbi, nbj, 2, 8, 2, 256]"
    by (simp_all add: A_def T_def V_def)
  have shP: "nd_shape (pick_axis 4 k V) = [nbi, nbj, 2, 8, 256]" for k by (simp add: shV)
  have shZ: "nd_shape Z = [nbi, nbj, 2, 8, 256]" "nd_full Z" by (simp_all add: Z_def shP shV)
  have shQ: "nd_shape Q = [nbi, nbj, 2, 256, 8]" "nd_full Q" by (simp_all add: Q_def shZ)
  have lenQ: "length (nd_data Q) = (nbi * nbj) * 4096" using shQ by (simp add: nd_full_def)
  define W where "W = Q\<lparr>nd_shape := [nbi, nbj] @ [length (nd_data Q) div prod_list [nbi, nbj]]\<rparr>"
  define B where "B = \<lparr>nd_shape = [nbi, nbj, 2048], nd_data = words16 (nd_data Q)\<rparr>"
  have 1: "reshape [nbi, 32, nbj, 256] q = Inr A" unfolding A_def by (rule reshape_Inr) (simp_all add: assms)
  have 2: "reshape [nbi, nbj, 2, 8, 2, 256] T = Inr V" unfolding V_def by (rule reshape_Inr) (simp_all add: T_def shA)
  have 3: "reshape_rest [nbi, nbj] Q = Inr W" using assms(3,4) by (simp add: reshape_rest_def W_def lenQ)
  have 4: "view16 W = Inr B" using assms(3,4) by (simp add: view16_def W_def B_def lenQ)
  have d: "32 div 16 = (2 :: nat)" "16 div 2 = (8 :: nat)" by simp_all
  show thesis
  proof (rule that [of B])
    show "pair_nibbles nbi nbj q = Inr B"
      unfolding pair_nibbles_def by (simp only: d 1 res_bind_simps Let_def 2 3 4 T_def [symmetric] Z_def [symmetric] Q_def [symmetric])
    show "nd_shape B = [nbi, nbj, 2048]" "length (nd_data B) = nbi * nbj * 2048" by (simp_all add: B_def lenQ)
    fix gi j assume gj: "gi < nbi" "j < nbj"
    note k = block_position [OF gj]
    have "chunk 4096 (gi * nbj + j) (nd_data Q) = nibble_bytes q gi j"
    proof (rule nth_equalityI)
      show "length (chunk 4096 (gi * nbj + j) (nd_data Q)) = length (nibble_bytes q gi j)" using chunk_length [OF lenQ k] by simp
      fix i assume "i < length (chunk 4096 (gi * nbj + j) (nd_data Q))"
      then have i: "i < 4096" using chunk_length [OF lenQ k] by simp
      define g c p where "g = i div 2048" and "c = i mod 2048 div 8" and "p = i mod 8"
      have gcp: "g < 2" "c < 256" "p < 8" using i by (auto simp: g_def c_def p_def less_mult_imp_div_less)
      have "i mod 2048 mod 8 = i mod 8" by (rule mod_mod_cancel) simp
      then have ie: "i = g * 2048 + c * 8 + p"
        using div_mult_mod_eq [of i 2048] div_mult_mod_eq [of "i mod 2048" 8] unfolding g_def c_def p_def by linarith
      have V_get: "nd_get V [gi, j, g, p, e, c] = nd_get q [gi * 32 + (g * 16 + p * 2 + e), j * 256 + c]" if e: "e < 2" for e
      proof -
        have r: "g * 16 + p * 2 + e < 32" using gcp e by simp
        have "nd_get V [gi, j, g, p, e, c] = nd_get T [gi, j, g * 16 + p * 2 + e, c]"
          unfolding V_def by (rule get_shape_update) (simp add: shT algebra_simps)
        also have "\<dots> = nd_get A [gi, g * 16 + p * 2 + e, j, c]"
          unfolding T_def using gj gcp r by (subst get_transpose) (simp_all add: moved_def upt_rec shA)
        also have "\<dots> = nd_get q [gi * 32 + (g * 16 + p * 2 + e), j * 256 + c]"
          unfolding A_def by (rule get_shape_update) (simp add: assms algebra_simps)
        finally show ?thesis .
      qed
      have P_get: "nd_get (map_nd (\<lambda>w. w AND 0xF) (pick_axis 4 e V)) [gi, j, g, p, c] = nd_get V [gi, j, g, p, e, c] AND 0xF" for e
        using gj gcp by (subst get_map_nd) (simp_all add: shV pick_axis_def)
      have "chunk 4096 (gi * nbj + j) (nd_data Q) ! i = nd_data Q ! ((gi * nbj + j) * 4096 + i)" by (rule chunk_nth [OF lenQ k i])
      also have "\<dots> = nd_get Q [gi, j, g, c, p]" by (simp add: nd_get_def shQ ie algebra_simps)
      also have "\<dots> = nd_get Z [gi, j, g, p, c]"
        unfolding Q_def using gj gcp by (subst get_transpose) (simp_all add: moved_def upt_rec shZ)
      also have "\<dots> = push_bit 4 (nd_get V [gi, j, g, p, 1, c] AND 0xF) OR (nd_get V [gi, j, g, p, 0, c] AND 0xF)"
        unfolding Z_def by (subst get_zip_nd) (use gj gcp P_get in \<open>simp_all add: shV\<close>)
      also have "\<dots> = nibble_bytes q gi j ! i"
        unfolding nibble_bytes_def by (subst nth_map_indices [of _ "[g, c, p]"]) (use gcp ie V_get in simp_all)
      finally show "chunk 4096 (gi * nbj + j) (nd_data Q) ! i = nibble_bytes q gi j ! i" .
    qed
    then show "chunk 2048 (gi * nbj + j) (nd_data B) = words16 (nibble_bytes q gi j)"
      using words16_chunk [of 2048 "gi * nbj + j" "nd_data Q"] by (simp add: B_def)
  qed
qed

section \<open>The order of the vectorised stream\<close>

lemma concat_of_concats: "concat (concat (map f xs)) = concat (map (\<lambda>x. concat (f x)) xs)"
  by (induction xs) simp_all

lemma indices3: "indices [n, nbj, k] = map (\<lambda>(i, j, cy). [i, j, cy]) (row_steps n nbj 0 k)"
  by (simp add: indices.simps row_steps_def product_concat_map map_concat comp_def split_def concat_of_concats)

lemma row_steps_shift: "row_steps n nbj k (k + h) = map (\<lambda>(i, j, cy). (i, j, k + cy)) (row_steps n nbj 0 h)"
proof -
  have "[k..<k + h] = map ((+) k) [0..<h]" by (rule nth_equalityI) simp_all
  then show ?thesis by (simp add: row_steps_def map_concat comp_def split_def)
qed

text \<open>The number of the row block in the iteration-major layout.\<close>

definition stream_position :: "nat \<Rightarrow> nat \<Rightarrow> nat \<times> nat \<times> nat \<times> nat \<Rightarrow> nat" where
  "stream_position NCX NCY = (\<lambda>(cx, i, j, cy). i * (NCX * NCY) + cx * NCY + cy)"

lemma stream_index_eq:
  assumes "cascade_order NCY n nbj dual = Inr ord"
  obtains gi gj where "stream_index NCX NCY n nbj dual = Inr (gi, gj)"
    "nd_data gi = map (stream_position NCX NCY) (List.product [0..<NCX] ord)"
    "nd_data gj = map (\<lambda>(cx, i, j, cy). j) (List.product [0..<NCX] ord)"
proof (cases dual)
  case False
  then have ord: "ord = row_steps n nbj 0 NCY" using assms by (simp add: cascade_order_eq)
  have "indices [NCX, n, nbj, NCY] = map (\<lambda>(cx, i, j, cy). [cx, i, j, cy]) (List.product [0..<NCX] ord)"
    unfolding indices.simps(2) [of NCX] indices3 ord
    by (simp add: product_concat_map map_concat comp_def split_def)
  with False show thesis
    by (intro that) (auto simp: stream_index_def stream_position_def Let_def comp_def split_def)
next
  case True
  define H where "H = NCY div 2"
  have ev: "NCY mod 2 = 0" and ord0: "ord = row_steps n nbj 0 H @ row_steps n nbj H NCY"
    using assms True by (auto simp: cascade_order_eq H_def split: if_splits)
  have H: "NCY = H + H" using ev unfolding H_def by presburger
  have ord: "ord = row_steps n nbj 0 H @ row_steps n nbj H (H + H)" using ord0 unfolding H .
  let ?gi = "nd_build [NCX, n, nbj, NCY] (\<lambda>is. is ! 1 * (NCX * NCY) + is ! 0 * NCY + is ! 3)"
  let ?gj = "nd_build [NCX, n, nbj, NCY] (\<lambda>is. is ! 2)"
  let ?sh = "[NCX, n, nbj, 2, H]"
  have r: "reshape ?sh (nd_build [NCX, n, nbj, NCY] f) = Inr ((nd_build [NCX, n, nbj, NCY] f)\<lparr>nd_shape := ?sh\<rparr>)" for f :: "nat list \<Rightarrow> nat"
    by (rule reshape_Inr) (simp_all add: H)
  have two: "[0..<2] = [0, Suc 0]" by (simp add: upt_rec)
  have data: "nd_data (transpose_nd [0, 3, 1, 2, 4] ((nd_build [NCX, n, nbj, NCY] f)\<lparr>nd_shape := ?sh\<rparr>))
      = map (\<lambda>(cx, i, j, cy). f [cx, i, j, cy]) (List.product [0..<NCX] ord)" for f :: "nat list \<Rightarrow> nat"
  proof -
    let ?b = "nd_build [NCX, n, nbj, NCY] f"
    have "nd_data (transpose_nd [0, 3, 1, 2, 4] (?b\<lparr>nd_shape := ?sh\<rparr>))
        = map (\<lambda>is. nd_get (?b\<lparr>nd_shape := ?sh\<rparr>) (moved [0, 3, 1, 2, 4] is)) (indices [NCX, 2, n, nbj, H])"
      by (simp add: transpose_nd_def)
    also have "\<dots> = map (\<lambda>is. f [is ! 0, is ! 2, is ! 3, is ! 1 * H + is ! 4]) (indices [NCX, 2, n, nbj, H])"
    proof (rule map_indices_cong)
      fix xs assume "in_shape [NCX, 2, n, nbj, H] xs"
      then obtain cx h i j c where x: "xs = [cx, h, i, j, c]" "cx < NCX" "h < 2" "i < n" "j < nbj" "c < H" by (auto simp: inside_Cons)
      have m: "moved [0, 3, 1, 2, 4] xs = [cx, i, j, h, c]" by (simp add: x moved_def upt_rec)
      have "nd_get (?b\<lparr>nd_shape := ?sh\<rparr>) [cx, i, j, h, c] = nd_get ?b [cx, i, j, h * H + c]"
        by (rule get_shape_update) (simp add: H algebra_simps)
      moreover have "h * H + c < NCY" using block_position [OF x(3,6)] by (simp add: H)
      ultimately show "nd_get (?b\<lparr>nd_shape := ?sh\<rparr>) (moved [0, 3, 1, 2, 4] xs) = f [xs ! 0, xs ! 2, xs ! 3, xs ! 1 * H + xs ! 4]"
        using x unfolding m by simp
    qed
    also have "\<dots> = map (\<lambda>(cx, i, j, cy). f [cx, i, j, cy]) (List.product [0..<NCX] ord)"
      unfolding indices.simps(2) [of NCX] indices.simps(2) [of 2] indices3 ord row_steps_shift two
      by (simp add: product_concat_map map_concat comp_def split_def)
    finally show ?thesis .
  qed
  show thesis
  proof (rule that)
    show "stream_index NCX NCY n nbj dual = Inr (transpose_nd [0, 3, 1, 2, 4] (?gi\<lparr>nd_shape := ?sh\<rparr>), transpose_nd [0, 3, 1, 2, 4] (?gj\<lparr>nd_shape := ?sh\<rparr>))"
      unfolding stream_index_def H_def [symmetric] Let_def by (simp only: True ev r if_True res_check_simps res_bind_simps simp_thms)
  qed (unfold data stream_position_def, simp_all add: split_def)
qed

lemma stream_index_error: "cascade_order NCY n nbj dual = Inl e \<Longrightarrow> stream_index NCX NCY n nbj dual = Inl e"
  by (auto simp: cascade_order_def stream_index_def Let_def res_check_def split: if_splits)

lemma last_row_concat_last:
  assumes "as \<noteq> []" and "\<And>a. a \<in> set as \<Longrightarrow> length (nd_data a) = prod_list lead * last (nd_shape a)"
    and "butlast (nd_shape (hd as)) = lead" and "i < prod_list lead"
  shows "last_row (concat_last as) i = concat (map (\<lambda>a. last_row a i) as)"
proof -
  let ?k = "sum_list (map (last \<circ> nd_shape) as)"
  have len: "length (concat (map (\<lambda>a. last_row a i) as)) = ?k" if "i < prod_list lead" for i
    using assms(2) that unfolding last_row_def
    by (induction as) (simp_all add: chunk_length [of _ "prod_list lead"])
  have "last_row (concat_last as) i = chunk ?k i (concat (map (\<lambda>i. concat (map (\<lambda>a. last_row a i) as)) [0..<prod_list lead]))"
    unfolding last_row_def [of "concat_last as"] by (simp add: concat_last_def assms(3))
  also have "\<dots> = concat (map (\<lambda>a. last_row a i) as)"
    by (subst chunk_concat) (use len assms(4) in auto)
  finally show ?thesis .
qed

text \<open>
  C22: the vectorised packer is the packer. For matrices of nibbles, scales and offsets that fit each other and are not
  empty, \<open>pack_q4k_cascade_fast\<close> returns exactly what \<open>pack_q4k_cascade\<close> returns in its iteration-major layout,
  for every grid of cores and both kinds of feed, and raises the same exception where it raises.
\<close>

theorem fast_packer_is_packer:
  assumes "nd_full q" "nd_full s" "nd_full m" and "nd_shape q = [M, K]" and "nd_shape s = [M, K div GROUP]" and "nd_shape m = [M, K div GROUP]"
    and "0 < M" and "0 < K"
  shows "pack_q4k_cascade_fast bf q s NCX NCY dual (Some m) = pack_q4k_cascade bf q s m NCX NCY core_major True dual"
proof (cases "M mod 32 = 0 \<and> K mod 256 = 0 \<and> NCX * NCY \<noteq> 0 \<and> M div 32 mod (NCX * NCY) = 0")
  case False
  then show ?thesis using assms(4) by (auto simp: pack_q4k_cascade_fast_def pack_q4k_cascade_def Let_def res_check_def)
next
  case True
  define nbi nbj where "nbi = M div 32" and "nbj = K div 256"
  define n where "n = nbi div (NCX * NCY)"
  have M: "M = nbi * 32" and K: "K = nbj * 256" "K div 32 = nbj * 8" and nbi: "nbi = n * (NCX * NCY)" and pos: "0 < nbi" "0 < nbj"
    using True assms(7,8) div_mult_mod_eq [of M 32] div_mult_mod_eq [of K 256] div_mult_mod_eq [of "M div 32" "NCX * NCY"]
    by (auto simp: nbi_def nbj_def n_def intro!: gr0I)
  have sh: "nd_shape q = [nbi * 32, nbj * 256]" "nd_shape s = [nbi * 32, nbj * 8]" "nd_shape m = [nbi * 32, nbj * 8]"
    using assms(4-6) M K by auto
  let ?blk = "\<lambda>gi j. scale_words bf s gi j @ scale_words bf m gi j @ words16 (nibble_bytes q gi j)"
  obtain sc where sc: "per_block bf nbi nbj s = Inr sc" "nd_shape sc = [nbi, nbj, 8, 32]" "nd_full sc"
    "\<And>gi j. gi < nbi \<Longrightarrow> j < nbj \<Longrightarrow> chunk 256 (gi * nbj + j) (nd_data sc) = scale_words bf s gi j"
    by (rule per_block_read [OF assms(2) sh(2)]) (rule that; assumption)
  obtain mn where mn: "per_block bf nbi nbj m = Inr mn" "nd_shape mn = [nbi, nbj, 8, 32]" "nd_full mn"
    "\<And>gi j. gi < nbi \<Longrightarrow> j < nbj \<Longrightarrow> chunk 256 (gi * nbj + j) (nd_data mn) = scale_words bf m gi j"
    by (rule per_block_read [OF assms(3) sh(3)]) (rule that; assumption)
  obtain qs where qs: "pair_nibbles nbi nbj q = Inr qs" "nd_shape qs = [nbi, nbj, 2048]" "length (nd_data qs) = nbi * nbj * 2048"
    "\<And>gi j. gi < nbi \<Longrightarrow> j < nbj \<Longrightarrow> chunk 2048 (gi * nbj + j) (nd_data qs) = words16 (nibble_bytes q gi j)"
    by (rule pair_nibbles_read [OF assms(1) sh(1) pos]) (rule that; assumption)
  have len: "length (nd_data sc) = nbi * nbj * 256" "length (nd_data mn) = nbi * nbj * 256" using sc mn by (simp_all add: nd_full_def)
  define S T where "S = sc\<lparr>nd_shape := [nbi, nbj, 256]\<rparr>" and "T = mn\<lparr>nd_shape := [nbi, nbj, 256]\<rparr>"
  have rest: "reshape_rest [nbi, nbj] sc = Inr S" "reshape_rest [nbi, nbj] mn = Inr T"
    using pos by (simp_all add: reshape_rest_def len S_def T_def)
  have row: "last_row (concat_last [S, T, qs]) (ravel [nbi, nbj] [gi, j]) = ?blk gi j" if gj: "gi < nbi" "j < nbj" for gi j
  proof -
    have "last_row (concat_last [S, T, qs]) (gi * nbj + j) = concat (map (\<lambda>a. last_row a (gi * nbj + j)) [S, T, qs])"
      by (rule last_row_concat_last [where lead = "[nbi, nbj]"]) (use len qs block_position [OF gj] in \<open>auto simp: S_def T_def\<close>)
    with gj show ?thesis by (simp add: last_row_def S_def T_def qs(2,4) sc(4) mn(4))
  qed
  have sum: "nd_shape (concat_last [S, T, qs]) ! 2 = 2560" by (simp add: concat_last_def Let_def S_def T_def qs)
  show ?thesis
  proof (cases "cascade_order NCY n nbj dual")
    case (Inl e)
    then show ?thesis
      using True assms(4) stream_index_error [OF Inl, of NCX]
      by (simp add: pack_q4k_cascade_fast_def pack_q4k_cascade_def Let_def sc(1) mn(1) qs(1) rest sum
          flip: nbi_def nbj_def n_def)
  next
    case (Inr ord)
    obtain gi gj where g: "stream_index NCX NCY n nbj dual = Inr (gi, gj)"
      "nd_data gi = map (stream_position NCX NCY) (List.product [0..<NCX] ord)"
      "nd_data gj = map (\<lambda>(cx, i, j, cy). j) (List.product [0..<NCX] ord)"
      by (rule stream_index_eq [OF Inr]) (rule that; assumption)
    have in_range: "stream_position NCX NCY x < nbi" "fst (snd (snd x)) < nbj" if x: "x \<in> set (List.product [0..<NCX] ord)" for x
    proof -
      obtain cx i j cy where e: "x = (cx, i, j, cy)" by (cases x)
      with x cascade_order_set(1) [OF Inr] have "cx < NCX" "i < n" "j < nbj" "cy < NCY" by auto
      with cascade_row_less [of cx NCX i n cy NCY core_major True] show "stream_position NCX NCY x < nbi" "fst (snd (snd x)) < nbj"
        by (simp_all add: e stream_position_def cascade_row_def nbi)
    qed
    have fast: "map2 (\<lambda>g j. last_row (concat_last [S, T, qs]) (ravel [nbi, nbj] [g, j])) (nd_data gi) (nd_data gj)
        = map (\<lambda>x. ?blk (stream_position NCX NCY x) (fst (snd (snd x)))) (List.product [0..<NCX] ord)"
      unfolding g(2,3) by (simp add: zip_map_map zip_same_conv_map split_def) (use row in_range in auto)
    have slow: "map_res (\<lambda>(cx, i, j, cy). block_of bf q s m (cascade_row NCX NCY n core_major True cx i cy) j) (List.product [0..<NCX] ord)
        = Inr (map (\<lambda>x. ?blk (stream_position NCX NCY x) (fst (snd (snd x)))) (List.product [0..<NCX] ord))"
    proof (rule map_res_all_Inr)
      fix x assume x: "x \<in> set (List.product [0..<NCX] ord)"
      obtain cx i j cy where e: "x = (cx, i, j, cy)" by (cases x)
      show "(case x of (cx, i, j, cy) \<Rightarrow> block_of bf q s m (cascade_row NCX NCY n core_major True cx i cy) j)
          = Inr (?blk (stream_position NCX NCY x) (fst (snd (snd x))))"
        using block_of_eq [OF sh in_range [OF x]] by (simp add: e stream_position_def cascade_row_def)
    qed
    have "List.product [0..<NCX] ord \<noteq> []"
    proof -
      have "n * nbj * NCY \<noteq> 0" "NCX \<noteq> 0" using True nbi pos by auto
      moreover have "length (List.product [0..<NCX] ord) = NCX * (n * nbj * NCY)" by (simp add: cascade_order_set(2) [OF Inr])
      ultimately show ?thesis by (metis list.size(3) mult_eq_0_iff)
    qed
    with Inr slow fast g(1) True assms(4) show ?thesis
      by (simp add: pack_q4k_cascade_fast_def pack_q4k_cascade_def Let_def sc(1) mn(1) qs(1) rest sum flip: nbi_def nbj_def n_def)
  qed
qed

section \<open>Reading packed tensors\<close>

lemma chunk_of_blocks:
  assumes "map_res (\<lambda>(i, j). block_of bf q s m i j) (List.product [0..<nbi] [0..<nbj]) = Inr blks"
    and sh: "nd_shape q = [nbi * 32, nbj * 256]" "nd_shape s = [nbi * 32, nbj * 8]" "nd_shape m = [nbi * 32, nbj * 8]"
  shows "length (concat blks) = nbi * nbj * BLOCK_BF16"
    and "bi < nbi \<Longrightarrow> bj < nbj \<Longrightarrow> chunk BLOCK_BF16 (bi * nbj + bj) (concat blks)
      = scale_words bf s bi bj @ scale_words bf m bi bj @ words16 (nibble_bytes q bi bj)"
proof -
  let ?blk = "\<lambda>(i, j). scale_words bf s i j @ scale_words bf m i j @ words16 (nibble_bytes q i j)"
  have "map_res (\<lambda>(i, j). block_of bf q s m i j) (List.product [0..<nbi] [0..<nbj]) = Inr (map ?blk (List.product [0..<nbi] [0..<nbj]))"
    by (rule map_res_all_Inr) (auto intro: block_of_eq [OF sh])
  with assms(1) have b: "blks = map ?blk (List.product [0..<nbi] [0..<nbj])" by simp
  have k: "length x = BLOCK_BF16" if "x \<in> set blks" for x using that by (auto simp: b)
  show "length (concat blks) = nbi * nbj * BLOCK_BF16" using length_concat_even [of blks, OF k] by (simp add: b)
  assume i: "bi < nbi" "bj < nbj"
  have "chunk BLOCK_BF16 (bi * nbj + bj) (concat blks) = blks ! (bi * nbj + bj)"
    by (rule chunk_concat) (use k block_position [OF i] in \<open>auto simp: b\<close>)
  also have "\<dots> = ?blk (bi, bj)"
    using i block_position [OF i] product_nth [of "bi * nbj + bj" "[0..<nbi]" "[0..<nbj]"] by (simp add: b)
  finally show "chunk BLOCK_BF16 (bi * nbj + bj) (concat blks) = scale_words bf s bi bj @ scale_words bf m bi bj @ words16 (nibble_bytes q bi bj)"
    by simp
qed

lemma packed_dequant:
  assumes "map_res (\<lambda>(i, j). block_of bf q s m i j) (List.product [0..<nbi] [0..<nbj]) = Inr blks"
    and sh: "nd_shape q = [nbi * 32, nbj * 256]" "nd_shape s = [nbi * 32, nbj * 8]" "nd_shape m = [nbi * 32, nbj * 8]"
  obtains w where "dequant_blocks fl comb nbi nbj (nbi * 32) (nbj * 256) (concat blks) = Inr w" "nd_shape w = [nbi * 32, nbj * 256]"
    "\<And>r c. r < nbi * 32 \<Longrightarrow> c < nbj * 256 \<Longrightarrow> nd_get w [r, c] =
      comb (fl_of_bf16 fl (bf (nd_get s [r, c div 32]))) (fl_of_u8 fl (nd_get q [r, c] AND 0xF)) (fl_of_bf16 fl (bf (nd_get m [r, c div 32])))"
proof -
  note b = chunk_of_blocks [OF assms]
  obtain w where w: "dequant_blocks fl comb nbi nbj (nbi * 32) (nbj * 256) (concat blks) = Inr w" "nd_shape w = [nbi * 32, nbj * 256]"
    and g: "\<And>bi bj r c. bi < nbi \<Longrightarrow> bj < nbj \<Longrightarrow> r < 32 \<Longrightarrow> c < 256 \<Longrightarrow>
      nd_get w [bi * 32 + r, bj * 256 + c] = block_weight fl comb (chunk BLOCK_BF16 (bi * nbj + bj) (concat blks)) r c"
    by (rule dequant_read [OF b(1) refl refl]) (rule that; assumption)
  show thesis
  proof (rule that [OF w])
    fix r c assume rc: "r < nbi * 32" "c < nbj * 256"
    define bi r' bj c' where "bi = r div 32" and "r' = r mod 32" and "bj = c div 256" and "c' = c mod 256"
    have i: "bi < nbi" "bj < nbj" "r' < 32" "c' < 256" using rc by (simp_all add: bi_def bj_def r'_def c'_def less_mult_imp_div_less)
    have r: "r = bi * 32 + r'" and c: "c = bj * 256 + c'" by (simp_all add: bi_def bj_def r'_def c'_def)
    have "(bj * 256 + c') div 32 = bj * 8 + c' div 32" by presburger
    then show "nd_get w [r, c] = comb (fl_of_bf16 fl (bf (nd_get s [r, c div 32]))) (fl_of_u8 fl (nd_get q [r, c] AND 0xF))
        (fl_of_bf16 fl (bf (nd_get m [r, c div 32])))"
      unfolding r c g [OF i] b(2) [OF i(1,2)] block_weight_eq [OF i(3,4) sh(1)] by simp
  qed
qed

text \<open>A tensor of the bundle whose part of the file holds those words.\<close>

definition holds_words :: "q4_bundle \<Rightarrow> string \<Rightarrow> q4_entry \<Rightarrow> 16 word list \<Rightarrow> bool" where
  "holds_words b name e ws \<longleftrightarrow> bu_header b name = Some e \<and>
     (case en_offsets e of (o0, o1) \<Rightarrow> take (o1 - o0) (drop (bu_base b + o0) (bu_bytes b)) = tobytes ws)"

lemma holds_words_raw:
  assumes "holds_words b name e ws"
  shows "raw_i16 b name = Inr ws" and "gemma_raw b name = Inr ws" and "q4_entry_of b name = Inr e"
proof -
  obtain o0 o1 where o: "en_offsets e = (o0, o1)" by force
  let ?rest = "drop (bu_base b + o0) (bu_bytes b)"
  have h: "bu_header b name = Some e" "take (o1 - o0) ?rest = tobytes ws" using assms o by (auto simp: holds_words_def)
  show "q4_entry_of b name = Inr e" by (simp add: q4_entry_of_def h)
  have "raw_i16 b name = frombuffer16 (take (o1 - o0) ?rest)" by (simp add: raw_i16_def q4_entry_of_def h(1) o)
  also have "\<dots> = Inr ws" unfolding h(2) by (simp add: frombuffer16_def)
  finally show "raw_i16 b name = Inr ws" .
  have len: "2 * length ws = min (o1 - o0) (length ?rest)" using arg_cong [OF h(2), of length] by (simp add: min.commute)
  have "take (2 * ((o1 - o0) div 2)) ?rest = tobytes ws"
  proof (cases "o1 - o0 \<le> length ?rest")
    case True
    with len have "2 * ((o1 - o0) div 2) = o1 - o0" by presburger
    with h(2) show ?thesis by simp
  next
    case False
    then have "length ?rest \<le> 2 * ((o1 - o0) div 2)" using len by presburger
    then have "take (2 * ((o1 - o0) div 2)) ?rest = ?rest" by (rule take_all)
    also have "\<dots> = take (o1 - o0) ?rest" using False by simp
    finally show ?thesis unfolding h(2) .
  qed
  then show "gemma_raw b name = Inr ws" by (simp add: gemma_raw_def q4_entry_of_def h(1) o fromfile16_def)
qed

lemma checked_dequant_eq:
  assumes "q4_entry_of b name = Inr e" and "en_shape e = (M div 32) * (K div 256) # ns" and "raw name = Inr ws"
  shows "checked_dequant err raw fl b name M K = dequant_blocks fl (affine fl) (M div 32) (K div 256) M K ws"
  using assms by (simp add: checked_dequant_def Let_def)

lemma packed_readers:
  assumes "map_res (\<lambda>(i, j). block_of bf q s m i j) (List.product [0..<nbi] [0..<nbj]) = Inr blks"
    and "nd_shape q = [nbi * ROW_BLOCK, nbj * COL_BLOCK]"
    and "nd_shape s = [nbi * ROW_BLOCK, nbj * N_GROUPS]" and "nd_shape m = [nbi * ROW_BLOCK, nbj * N_GROUPS]"
    and "holds_words b name e (concat blks)"
    and "comb = (if en_dtype e = Some ''Q4NX'' then zero_point fl else affine fl)"
    and "en_shape e = (if en_dtype e = Some ''Q4NX'' then [nbi * ROW_BLOCK, nbj * COL_BLOCK] else [nbi * nbj, 5120])"
  obtains w where "llama_dequant fl b name (Some (nbi * ROW_BLOCK)) (Some (nbj * COL_BLOCK)) = Inr w"
    and "en_dtype e \<noteq> Some ''Q4NX'' \<Longrightarrow> qwen_dequant fl b name (nbi * ROW_BLOCK) (nbj * COL_BLOCK) = Inr w"
    and "en_dtype e \<noteq> Some ''Q4NX'' \<Longrightarrow> gemma_dequant fl b name (nbi * ROW_BLOCK) (nbj * COL_BLOCK) = Inr w"
    and "nd_shape w = [nbi * ROW_BLOCK, nbj * COL_BLOCK]"
    and "\<And>r c. r < nbi * ROW_BLOCK \<Longrightarrow> c < nbj * COL_BLOCK \<Longrightarrow> nd_get w [r, c] =
       comb (fl_of_bf16 fl (bf (nd_get s [r, c div GROUP]))) (fl_of_u8 fl (nd_get q [r, c] AND 0xF)) (fl_of_bf16 fl (bf (nd_get m [r, c div GROUP])))"
proof -
  note raw = holds_words_raw [OF assms(5)]
  obtain w where w: "dequant_blocks fl comb nbi nbj (nbi * 32) (nbj * 256) (concat blks) = Inr w" "nd_shape w = [nbi * 32, nbj * 256]"
    "\<And>r c. r < nbi * 32 \<Longrightarrow> c < nbj * 256 \<Longrightarrow> nd_get w [r, c] =
      comb (fl_of_bf16 fl (bf (nd_get s [r, c div 32]))) (fl_of_u8 fl (nd_get q [r, c] AND 0xF)) (fl_of_bf16 fl (bf (nd_get m [r, c div 32])))"
    by (rule packed_dequant [OF assms(1-4)]) (rule that; assumption)
  have "llama_dequant fl b name (Some (nbi * 32)) (Some (nbj * 256)) = Inr w"
    using assms(6,7) w(1) by (simp add: llama_dequant_def llama_dims_def raw Let_def split: if_splits)
  moreover have "qwen_dequant fl b name (nbi * 32) (nbj * 256) = Inr w" "gemma_dequant fl b name (nbi * 32) (nbj * 256) = Inr w"
    if "en_dtype e \<noteq> Some ''Q4NX''"
    using that assms(6,7) w(1) raw
    by (simp_all add: qwen_dequant_def gemma_dequant_def checked_dequant_eq [of b name e _ _ "[5120]"])
  ultimately show thesis using that w(2,3) by blast
qed

text \<open>
  C21: packing and dequantising are inverse up to the rounding of the scales. If a tensor of a bundle with packed shapes holds, in
  the order of the matrix, the blocks the packer makes of nibbles, scales and offsets, then the readers \<open>llama_dequant\<close> and
  \<open>gemma_dequant\<close> return the matrix of the weights: scale times nibble plus offset, where nibbles are cut to four bits and
  scales and offsets are rounded to bfloat16.
\<close>

theorem packed_tensor_dequantizes:
  assumes "map_res (\<lambda>(i, j). block_of bf q s m i j) (List.product [0..<nbi] [0..<nbj]) = Inr blks"
    and "nd_shape q = [nbi * ROW_BLOCK, nbj * COL_BLOCK]"
    and "nd_shape s = [nbi * ROW_BLOCK, nbj * N_GROUPS]" and "nd_shape m = [nbi * ROW_BLOCK, nbj * N_GROUPS]"
    and "holds_words b name e (concat blks)"
    and "en_dtype e \<noteq> Some ''Q4NX''" and "en_shape e = [nbi * nbj, 5120]"
  shows "\<exists>w. llama_dequant fl b name (Some (nbi * ROW_BLOCK)) (Some (nbj * COL_BLOCK)) = Inr w \<and>
    gemma_dequant fl b name (nbi * ROW_BLOCK) (nbj * COL_BLOCK) = Inr w \<and>
    nd_shape w = [nbi * ROW_BLOCK, nbj * COL_BLOCK] \<and>
    (\<forall>r < nbi * ROW_BLOCK. \<forall>c < nbj * COL_BLOCK. nd_get w [r, c] =
       fl_add fl (fl_mul fl (fl_of_bf16 fl (bf (nd_get s [r, c div GROUP]))) (fl_of_u8 fl (nd_get q [r, c] AND 0xF)))
         (fl_of_bf16 fl (bf (nd_get m [r, c div GROUP]))))"
proof -
  have "affine fl = (if en_dtype e = Some ''Q4NX'' then zero_point fl else affine fl)"
    "en_shape e = (if en_dtype e = Some ''Q4NX'' then [nbi * ROW_BLOCK, nbj * COL_BLOCK] else [nbi * nbj, 5120])"
    using assms(6,7) by simp_all
  from packed_readers [OF assms(1-5) this] assms(6) show ?thesis unfolding affine_def by metis
qed

text \<open>
  The third reader makes the same of such a tensor, as its docstring says and unlike a comment above it; and under the older
  header the bytes are read as scale times the difference of nibble and offset.
\<close>

lemma qwen_reads_the_same:
  assumes "map_res (\<lambda>(i, j). block_of bf q s m i j) (List.product [0..<nbi] [0..<nbj]) = Inr blks"
    and "nd_shape q = [nbi * ROW_BLOCK, nbj * COL_BLOCK]"
    and "nd_shape s = [nbi * ROW_BLOCK, nbj * N_GROUPS]" and "nd_shape m = [nbi * ROW_BLOCK, nbj * N_GROUPS]"
    and "holds_words b name e (concat blks)"
    and "en_dtype e \<noteq> Some ''Q4NX''" and "en_shape e = [nbi * nbj, 5120]"
  shows "qwen_dequant fl b name (nbi * ROW_BLOCK) (nbj * COL_BLOCK) = gemma_dequant fl b name (nbi * ROW_BLOCK) (nbj * COL_BLOCK)"
proof -
  have "affine fl = (if en_dtype e = Some ''Q4NX'' then zero_point fl else affine fl)"
    "en_shape e = (if en_dtype e = Some ''Q4NX'' then [nbi * ROW_BLOCK, nbj * COL_BLOCK] else [nbi * nbj, 5120])"
    using assms(6,7) by simp_all
  from packed_readers [OF assms(1-5) this] assms(6) show ?thesis by metis
qed

lemma older_header_subtracts:
  assumes "map_res (\<lambda>(i, j). block_of bf q s m i j) (List.product [0..<nbi] [0..<nbj]) = Inr blks"
    and "nd_shape q = [nbi * ROW_BLOCK, nbj * COL_BLOCK]"
    and "nd_shape s = [nbi * ROW_BLOCK, nbj * N_GROUPS]" and "nd_shape m = [nbi * ROW_BLOCK, nbj * N_GROUPS]"
    and "holds_words b name e (concat blks)"
    and "en_dtype e = Some ''Q4NX''" and "en_shape e = [nbi * ROW_BLOCK, nbj * COL_BLOCK]"
    and "r < nbi * ROW_BLOCK" "c < nbj * COL_BLOCK"
  shows "\<exists>w. llama_dequant fl b name (Some (nbi * ROW_BLOCK)) (Some (nbj * COL_BLOCK)) = Inr w \<and> nd_get w [r, c] =
       fl_mul fl (fl_of_bf16 fl (bf (nd_get s [r, c div GROUP])))
         (fl_sub fl (fl_of_u8 fl (nd_get q [r, c] AND 0xF)) (fl_of_bf16 fl (bf (nd_get m [r, c div GROUP]))))"
proof -
  have "zero_point fl = (if en_dtype e = Some ''Q4NX'' then zero_point fl else affine fl)"
    "en_shape e = (if en_dtype e = Some ''Q4NX'' then [nbi * ROW_BLOCK, nbj * COL_BLOCK] else [nbi * nbj, 5120])"
    using assms(6,7) by simp_all
  from packed_readers [OF assms(1-5) this] assms(8,9) show ?thesis unfolding zero_point_def by metis
qed

section \<open>A range of rows\<close>

lemma fromfile16_part:
  assumes "d + n \<le> length (fromfile16 b k pos)"
  shows "fromfile16 b n (pos + d * 2) = take n (drop d (fromfile16 b k pos))"
proof -
  let ?ws = "words16 (drop pos (bu_bytes b))"
  have k: "fromfile16 b k pos = take k ?ws" for k by (simp add: fromfile16_def words16_take_drop)
  have "fromfile16 b n (pos + d * 2) = take n (words16 (drop (2 * d) (drop pos (bu_bytes b))))"
    by (simp only: fromfile16_def words16_take_drop(2) drop_drop add.commute [of pos] mult.commute [of d])
  also have "\<dots> = take n (drop d ?ws)" by (simp only: words16_take_drop)
  also have "\<dots> = take n (drop d (take k ?ws))"
  proof -
    have "d + n \<le> k" using assms by (simp add: k)
    then have "n \<le> k - d" by simp
    then show ?thesis by (simp add: drop_take min_absorb1)
  qed
  finally show ?thesis by (simp only: k)
qed

lemma gemma_dequant_Inr:
  assumes "gemma_dequant fl b name M K = Inr w"
  obtains e o0 o1 where "q4_entry_of b name = Inr e" "en_offsets e = (o0, o1)"
    "dequant_blocks fl (affine fl) (M div 32) (K div 256) M K (fromfile16 b ((o1 - o0) div 2) (bu_base b + o0)) = Inr w"
proof -
  obtain e where e: "q4_entry_of b name = Inr e" using assms by (auto simp: gemma_dequant_def checked_dequant_def Let_def res_simps)
  obtain o0 o1 where o: "en_offsets e = (o0, o1)" by force
  show thesis
    using assms e o by (intro that [of e o0 o1]) (auto simp: gemma_dequant_def checked_dequant_def gemma_raw_def Let_def res_simps split: list.splits)
qed

lemma group_matrix_read:
  assumes "nd_full a" and "nd_shape a = [nbi * nbj, 8, 32]" and "M = nbi * 32" and "K = nbj * 256"
  obtains g where "group_matrix nbi nbj M K (map_nd f a) = Inr g" and "nd_shape g = [M, K div 32]"
    and "\<And>bi bj r c. bi < nbi \<Longrightarrow> bj < nbj \<Longrightarrow> r < 32 \<Longrightarrow> c < 8 \<Longrightarrow> nd_get g [bi * 32 + r, bj * 8 + c] = f (nd_get a [bi * nbj + bj, c, r])"
proof -
  let ?t = "transpose_nd [0, 2, 1] (map_nd f a)"
  have t: "nd_full ?t" "nd_shape ?t = [nbi * nbj, 32, 8]" by (simp_all add: assms)
  have K8: "K div 32 = nbj * 8" using assms(4) by simp
  obtain g where g: "unblock nbi nbj 32 8 M (K div 32) ?t = Inr g" "nd_shape g = [M, K div 32]" "nd_full g"
    and read: "\<And>bi bj r c. bi < nbi \<Longrightarrow> bj < nbj \<Longrightarrow> r < 32 \<Longrightarrow> c < 8 \<Longrightarrow> nd_get g [bi * 32 + r, bj * 8 + c] = nd_get ?t [bi * nbj + bj, r, c]"
    by (rule unblock_read [OF t assms(3) K8]) (rule that; assumption)
  show thesis
  proof (rule that)
    show "group_matrix nbi nbj M K (map_nd f a) = Inr g" using g(1) by (simp only: group_matrix_def)
    fix bi bj r c :: nat assume i: "bi < nbi" "bj < nbj" "r < 32" "c < 8"
    note k = block_position [OF i(1,2)]
    have "nd_get ?t [bi * nbj + bj, r, c] = nd_get (map_nd f a) [bi * nbj + bj, c, r]"
      using i k by (subst get_transpose) (simp_all add: moved_def upt_rec assms)
    also have "\<dots> = f (nd_get a [bi * nbj + bj, c, r])" using i k assms by (intro get_map_nd) simp_all
    finally show "nd_get g [bi * 32 + r, bj * 8 + c] = f (nd_get a [bi * nbj + bj, c, r])" using read [OF i] by simp
  qed (rule g)
qed

text \<open>
  C24: rows can be read on their own. Where the whole matrix of a tensor is dequantised, \<open>lm_head_rows\<close> returns, for every
  range of whole row blocks in it, exactly those rows, although it reads only their part of the file; and the nibbles,
  scales and offsets that \<open>q4nx_raw\<close> returns for the range are those the rows are computed from.
\<close>

theorem row_range_reads_matrix:
  assumes "gemma_dequant fl b name M K = Inr w" and "0 < M" and "0 < K"
    and "r0 mod ROW_BLOCK = 0" and "r1 mod ROW_BLOCK = 0" and "r0 \<le> r1" and "r1 \<le> M"
  shows "\<exists>v q s m. lm_head_rows fl b r0 r1 name K = Inr v \<and> q4nx_raw fl b name (r1 - r0) K r0 = Inr (q, s, m) \<and>
    nd_shape v = [r1 - r0, K] \<and> (\<forall>r < r1 - r0. \<forall>c < K. nd_get v [r, c] = nd_get w [r0 + r, c] \<and>
      nd_get v [r, c] = affine fl (nd_get s [r, c div GROUP]) (fl_of_u8 fl (nd_get q [r, c])) (nd_get m [r, c div GROUP]))"
proof -
  obtain e o0 o1 where e: "q4_entry_of b name = Inr e" "en_offsets e = (o0, o1)"
    and d: "dequant_blocks fl (affine fl) (M div 32) (K div 256) M K (fromfile16 b ((o1 - o0) div 2) (bu_base b + o0)) = Inr w"
    by (rule gemma_dequant_Inr [OF assms(1)])
  let ?ws = "fromfile16 b ((o1 - o0) div 2) (bu_base b + o0)"
  define nbi nbj i0 h where "nbi = M div 32" and "nbj = K div 256" and "i0 = r0 div 32" and "h = r1 div 32 - r0 div 32"
  have "M div 32 * 32 = M" "K div 256 * 256 = K"
    using whole_extents [OF dequant_blocks_Inr(2) [OF d]] assms(2,3) by simp_all
  then have M: "M = nbi * 32" and K: "K = nbj * 256" by (simp_all add: nbi_def nbj_def)
  have r0: "r0 = i0 * 32" using assms(4) div_mult_mod_eq [of r0 32] by (simp add: i0_def)
  have "r1 = (r1 div 32) * 32" using assms(5) div_mult_mod_eq [of r1 32] by simp
  moreover have "r0 div 32 \<le> r1 div 32" using assms(6) by (rule div_le_mono)
  ultimately have r1: "r1 = (i0 + h) * 32" "r1 div 32 = i0 + h" by (simp_all add: i0_def h_def)
  have hn: "i0 + h \<le> nbi" using assms(7) by (simp add: r1 M)
  have len: "length ?ws = nbi * nbj * BLOCK_BF16" using dequant_blocks_Inr(1) [OF d] by (simp add: nbi_def nbj_def)
  let ?d = "i0 * nbj * 2560"
  let ?part = "take (h * nbj * 2560) (drop ?d ?ws)"
  have fit: "?d + h * nbj * 2560 \<le> length ?ws"
    unfolding len using mult_right_mono [OF hn, of "nbj * 2560"] by (simp add: algebra_simps)
  have part: "fromfile16 b (h * nbj * 2560) (bu_base b + o0 + ?d * 2) = ?part" by (rule fromfile16_part [OF fit])
  have plen: "length ?part = h * nbj * BLOCK_BF16" using fit by simp
  have pchunk: "chunk 2560 (bi * nbj + bj) ?part = chunk 2560 ((i0 + bi) * nbj + bj) ?ws" if i: "bi < h" "bj < nbj" for bi bj
  proof -
    have "(bi * nbj + bj) * 2560 + 2560 \<le> h * nbj * 2560"
      using mult_right_mono [of "Suc (bi * nbj + bj)" "h * nbj" 2560] block_position [OF i] by simp
    then show ?thesis by (simp add: chunk_def drop_take min_def algebra_simps)
  qed
  obtain w' where w': "dequant_blocks fl (affine fl) nbi nbj M K ?ws = Inr w'"
    and wget: "\<And>bi bj r c. bi < nbi \<Longrightarrow> bj < nbj \<Longrightarrow> r < 32 \<Longrightarrow> c < 256 \<Longrightarrow>
      nd_get w' [bi * 32 + r, bj * 256 + c] = block_weight fl (affine fl) (chunk BLOCK_BF16 (bi * nbj + bj) ?ws) r c"
    by (rule dequant_read [OF len M K]) (rule that; assumption)
  have ww: "w' = w" using d w' by (simp add: nbi_def nbj_def)
  have hM: "r1 - r0 = h * 32" by (simp add: r0 r1 algebra_simps)
  obtain v where v: "dequant_blocks fl (affine fl) h nbj (r1 - r0) K ?part = Inr v" "nd_shape v = [r1 - r0, K]"
    and vget: "\<And>bi bj r c. bi < h \<Longrightarrow> bj < nbj \<Longrightarrow> r < 32 \<Longrightarrow> c < 256 \<Longrightarrow>
      nd_get v [bi * 32 + r, bj * 256 + c] = block_weight fl (affine fl) (chunk BLOCK_BF16 (bi * nbj + bj) ?part) r c"
    by (rule dequant_read [OF plen hM K]) (rule that; assumption)
  have rows: "lm_head_rows fl b r0 r1 name K = Inr v"
  proof -
    have m: "(int r1 - int r0) mod 32 = 0" by (simp add: r0 r1 algebra_simps)
    show ?thesis
      using m v(1) part assms(4,6) r1(2) by (simp add: lm_head_rows_def Let_def e ac_simps flip: nbj_def i0_def)
  qed
  obtain sc mn q where f: "block_fields (h * nbj) ?part = Inr (sc, mn, q)" "nd_shape sc = [h * nbj, 8, 32]" "nd_shape mn = [h * nbj, 8, 32]"
      "nd_shape q = [h * nbj, 32, 256]" "nd_full sc" "nd_full mn" "nd_full q"
    and fget: "\<And>b g r. b < h * nbj \<Longrightarrow> g < 8 \<Longrightarrow> r < 32 \<Longrightarrow> nd_get sc [b, g, r] = block_scale (chunk BLOCK_BF16 b ?part) g r"
      "\<And>b g r. b < h * nbj \<Longrightarrow> g < 8 \<Longrightarrow> r < 32 \<Longrightarrow> nd_get mn [b, g, r] = block_offset (chunk BLOCK_BF16 b ?part) g r"
      "\<And>b r c. b < h * nbj \<Longrightarrow> r < 32 \<Longrightarrow> c < 256 \<Longrightarrow> nd_get q [b, r, c] = block_nibble (chunk BLOCK_BF16 b ?part) r c"
    by (rule fields_read [OF plen]) (rule that; assumption)
  obtain Q where Q: "unblock h nbj 32 256 (r1 - r0) K q = Inr Q"
    and Qget: "\<And>bi bj r c. bi < h \<Longrightarrow> bj < nbj \<Longrightarrow> r < 32 \<Longrightarrow> c < 256 \<Longrightarrow> nd_get Q [bi * 32 + r, bj * 256 + c] = nd_get q [bi * nbj + bj, r, c]"
    by (rule unblock_read [OF f(7,4) hM K]) (rule that; assumption)
  obtain S where S: "group_matrix h nbj (r1 - r0) K (map_nd (fl_of_bf16 fl) sc) = Inr S"
    and Sget: "\<And>bi bj r c. bi < h \<Longrightarrow> bj < nbj \<Longrightarrow> r < 32 \<Longrightarrow> c < 8 \<Longrightarrow> nd_get S [bi * 32 + r, bj * 8 + c] = fl_of_bf16 fl (nd_get sc [bi * nbj + bj, c, r])"
    by (rule group_matrix_read [OF f(5,2) hM K]) (rule that; assumption)
  obtain T where T: "group_matrix h nbj (r1 - r0) K (map_nd (fl_of_bf16 fl) mn) = Inr T"
    and Tget: "\<And>bi bj r c. bi < h \<Longrightarrow> bj < nbj \<Longrightarrow> r < 32 \<Longrightarrow> c < 8 \<Longrightarrow> nd_get T [bi * 32 + r, bj * 8 + c] = fl_of_bf16 fl (nd_get mn [bi * nbj + bj, c, r])"
    by (rule group_matrix_read [OF f(6,3) hM K]) (rule that; assumption)
  have raw: "q4nx_raw fl b name (r1 - r0) K r0 = Inr (Q, S, T)"
  proof -
    have "(r1 - r0) div 32 = h" by (simp add: hM)
    then show ?thesis using f(1) part Q S T by (simp add: q4nx_raw_def Let_def e ac_simps flip: nbj_def i0_def)
  qed
  have "nd_get v [r, c] = nd_get w [r0 + r, c] \<and> nd_get v [r, c] = affine fl (nd_get S [r, c div 32]) (fl_of_u8 fl (nd_get Q [r, c])) (nd_get T [r, c div 32])"
    if rc: "r < r1 - r0" "c < K" for r c
  proof -
    define bi r' bj c' where "bi = r div 32" and "r' = r mod 32" and "bj = c div 256" and "c' = c mod 256"
    have i: "bi < h" "bj < nbj" "r' < 32" "c' < 256"
      using rc unfolding hM K by (simp_all add: bi_def bj_def r'_def c'_def less_mult_imp_div_less)
    then have g: "c' div 32 < 8" by (simp add: less_mult_imp_div_less)
    have r: "r = bi * 32 + r'" and c: "c = bj * 256 + c'" by (simp_all add: bi_def bj_def r'_def c'_def)
    have r0r: "r0 + (bi * 32 + r') = (i0 + bi) * 32 + r'" by (simp add: r0 algebra_simps)
    have c8: "(bj * 256 + c') div 32 = bj * 8 + c' div 32" by presburger
    have bn: "i0 + bi < nbi" using i(1) hn by simp
    note k = block_position [OF i(1,2)]
    have "nd_get v [r, c] = nd_get w [r0 + r, c]"
      unfolding r c r0r ww [symmetric] vget [OF i] wget [OF bn i(2-4)] pchunk [OF i(1,2)] ..
    moreover have "nd_get v [r, c] = affine fl (nd_get S [r, c div 32]) (fl_of_u8 fl (nd_get Q [r, c])) (nd_get T [r, c div 32])"
      unfolding r c c8 vget [OF i] Sget [OF i(1-3) g] Tget [OF i(1-3) g] Qget [OF i] fget(1,2) [OF k g i(3)] fget(3) [OF k i(3,4)]
      by (simp add: block_weight_def)
    ultimately show ?thesis by simp
  qed
  with rows raw v(2) show ?thesis by blast
qed

section \<open>Examples\<close>

text \<open>Two row blocks whose nibbles are the row numbers, with scale 3 and offset -20, and a bundle of them.\<close>

definition ex_q :: "8 word nd" where
  "ex_q = nd_build [64, 256] (\<lambda>is. of_nat (is ! 0 mod 16))"

definition ex_s :: "int nd" where
  "ex_s = nd_build [64, 8] (\<lambda>_. 3)"

definition ex_m :: "int nd" where
  "ex_m = nd_build [64, 8] (\<lambda>_. - 20)"

definition ex_block :: "nat \<Rightarrow> 16 word list" where
  "ex_block i = scale_words word_of_int ex_s i 0 @ scale_words word_of_int ex_m i 0 @ words16 (nibble_bytes ex_q i 0)"

definition ex_bundle :: q4_bundle where
  "ex_bundle = \<lparr>bu_header = (\<lambda>_. Some \<lparr>en_dtype = Some ''I8'', en_shape = [2, 5120], en_offsets = (0, 10240)\<rparr>), bu_base = 8,
     bu_bytes = replicate 8 0 @ tobytes (concat [ex_block 0, ex_block 1])\<rparr>"

definition int_ops :: "int float_ops" where
  "int_ops = \<lparr>fl_of_bf16 = sint, fl_of_u8 = uint, fl_add = (+), fl_sub = (-), fl_mul = (*)\<rparr>"

lemma ex_shapes: "nd_shape ex_q = [2 * 32, 1 * 256]" "nd_shape ex_s = [2 * 32, 1 * 8]" "nd_shape ex_m = [2 * 32, 1 * 8]"
  by (simp_all add: ex_q_def ex_s_def ex_m_def)

lemma ex_blocks: "map_res (\<lambda>(i, j). block_of word_of_int ex_q ex_s ex_m i j) (List.product [0..<2] [0..<1]) = Inr [ex_block 0, ex_block 1]"
  using block_of_eq [OF ex_shapes, of 0 0 word_of_int] block_of_eq [OF ex_shapes, of 1 0 word_of_int]
  by (simp add: upt_rec ex_block_def)

lemma ex_holds: "holds_words ex_bundle ''w'' \<lparr>en_dtype = Some ''I8'', en_shape = [2, 5120], en_offsets = (0, 10240)\<rparr> (concat [ex_block 0, ex_block 1])"
  by (simp add: holds_words_def ex_bundle_def ex_block_def)

lemma stream_holds_every_block_witness:
  "\<exists>ps blks. pack_q4k_cascade word_of_int ex_q ex_s ex_m 1 2 False False True = Inr (concat blks) \<and>
    mset ps = mset [(0, 0), (1, 0)] \<and> map_res (\<lambda>(gi, j). block_of word_of_int ex_q ex_s ex_m gi j) ps = Inr blks"
  using stream_holds_every_block [of ex_q 1 1 2 1 ex_s ex_m True word_of_int False False] ex_shapes by (simp add: upt_rec)

lemma fast_packer_is_packer_witness:
  "pack_q4k_cascade_fast word_of_int ex_q ex_s 1 2 True (Some ex_m) = pack_q4k_cascade word_of_int ex_q ex_s ex_m 1 2 False True True"
  by (rule fast_packer_is_packer [of _ _ _ 64 256]) (simp_all add: ex_q_def ex_s_def ex_m_def)

lemma packed_tensor_dequantizes_witness:
  "\<exists>w. llama_dequant int_ops ex_bundle ''w'' (Some 64) (Some 256) = Inr w \<and> gemma_dequant int_ops ex_bundle ''w'' 64 256 = Inr w \<and>
     nd_get w [40, 100] = 4"
proof -
  let ?e = "\<lparr>en_dtype = Some ''I8'', en_shape = [2, 5120], en_offsets = (0, 10240)\<rparr>"
  have e: "en_dtype ?e \<noteq> Some ''Q4NX''" "en_shape ?e = [2 * 1, 5120]" by simp_all
  obtain w where w: "llama_dequant int_ops ex_bundle ''w'' (Some (2 * 32)) (Some (1 * 256)) = Inr w"
    "gemma_dequant int_ops ex_bundle ''w'' (2 * 32) (1 * 256) = Inr w"
    "\<forall>r < 2 * 32. \<forall>c < 1 * 256. nd_get w [r, c] =
       fl_add int_ops (fl_mul int_ops (fl_of_bf16 int_ops (word_of_int (nd_get ex_s [r, c div 32])))
         (fl_of_u8 int_ops (nd_get ex_q [r, c] AND 0xF))) (fl_of_bf16 int_ops (word_of_int (nd_get ex_m [r, c div 32])))"
    using packed_tensor_dequantizes [OF ex_blocks ex_shapes ex_holds e, of int_ops] by blast
  have "nd_get w [40, 100] = 4"
    using w(3) [rule_format, of 40 100] by (simp add: int_ops_def ex_q_def ex_s_def ex_m_def)
  with w(1,2) show ?thesis by auto
qed

lemma ex_dequant:
  obtains w where "gemma_dequant int_ops ex_bundle ''w'' 64 256 = Inr w"
proof -
  obtain w where "dequant_blocks int_ops (affine int_ops) 2 1 (2 * 32) (1 * 256) (concat [ex_block 0, ex_block 1]) = Inr w"
    by (rule packed_dequant [OF ex_blocks ex_shapes])
  then show thesis
    using holds_words_raw [OF ex_holds] by (intro that) (simp add: gemma_dequant_def checked_dequant_def)
qed

lemma row_range_reads_matrix_witness:
  "\<exists>w v. gemma_dequant int_ops ex_bundle ''w'' 64 256 = Inr w \<and> lm_head_rows int_ops ex_bundle 32 64 ''w'' 256 = Inr v \<and>
     nd_get v [8, 100] = nd_get w [40, 100]"
proof -
  obtain w where w: "gemma_dequant int_ops ex_bundle ''w'' 64 256 = Inr w" by (rule ex_dequant)
  obtain v where "lm_head_rows int_ops ex_bundle 32 64 ''w'' 256 = Inr v" "\<forall>r < 32. \<forall>c < 256. nd_get v [r, c] = nd_get w [32 + r, c]"
    using row_range_reads_matrix [OF w, of 32 64] by auto
  with w show ?thesis by force
qed

end
