(* ===== verification/Gemma_Layout.thy ===== *)
theory Gemma_Layout
  imports Nd_Array Complex_Main
begin

text \<open>
  Two attention geometries in one layout: the layer tables and the rotary embedding of
  \<^verbatim>\<open>src/programming_examples/llms/gemma4_e2b_q4nx/gemma4_e2b_q4nx_weights.py\<close>, and the padding of heads and the interleaving
  of rows in \<^verbatim>\<open>gemma4_e2b_q4nx_requant.py\<close>. The cosines and sines are arguments, and so is float arithmetic, except for the
  norm, which is over the reals.
\<close>

section \<open>Layers\<close>

datatype layer_type = FullAttention | SlidingAttention

abbreviation (input) NUM_LAYERS :: nat where "NUM_LAYERS \<equiv> 35"
abbreviation (input) NUM_KV_SHARED_LAYERS :: nat where "NUM_KV_SHARED_LAYERS \<equiv> 20"

definition FIRST_KV_SHARED_LAYER :: nat where
  "FIRST_KV_SHARED_LAYER = NUM_LAYERS - NUM_KV_SHARED_LAYERS"

definition LAYER_TYPES :: "layer_type list" where
  "LAYER_TYPES = map (\<lambda>i. if i mod 5 = 4 then FullAttention else SlidingAttention) [0..<NUM_LAYERS]"

definition layer_type_of :: "nat \<Rightarrow> layer_type res" where
  "layer_type_of k = (if k < length LAYER_TYPES then Inr (LAYER_TYPES ! k) else Inl IndexError)"

definition is_sliding :: "nat \<Rightarrow> bool res" where
  "is_sliding k = res_bind (layer_type_of k) (\<lambda>t. Inr (t = SlidingAttention))"

definition head_dim :: "nat \<Rightarrow> nat res" where
  "head_dim k = res_bind (is_sliding k) (\<lambda>s. Inr (if s then 256 else 512))"

definition owns_kv :: "nat \<Rightarrow> bool" where
  "owns_kv k \<longleftrightarrow> k < FIRST_KV_SHARED_LAYER"

text \<open>\<open>xs.index(x)\<close>.\<close>

fun index_of :: "'a \<Rightarrow> 'a list \<Rightarrow> nat res" where
  "index_of x [] = Inl ValueError"
| "index_of x (y # ys) = (if y = x then Inr 0 else map_sum id Suc (index_of x ys))"

definition kv_source_layer :: "nat \<Rightarrow> nat res" where
  "kv_source_layer k =
     (if k < FIRST_KV_SHARED_LAYER then Inr k
      else
        let prev = take FIRST_KV_SHARED_LAYER LAYER_TYPES in
        res_bind (layer_type_of k) (\<lambda>want.
        res_bind (index_of want (rev prev)) (\<lambda>i. Inr (length prev - 1 - i))))"

section \<open>Vectors\<close>

text \<open>Elementwise operations on vectors broadcast a single element, as does an assignment to a slice.\<close>

definition vec2 :: "('a \<Rightarrow> 'b \<Rightarrow> 'c) \<Rightarrow> 'a list \<Rightarrow> 'b list \<Rightarrow> 'c list res" where
  "vec2 f xs ys =
     (if length xs = length ys then Inr (map2 f xs ys)
      else if length xs = 1 then Inr (map (f (hd xs)) ys)
      else if length ys = 1 then Inr (map (\<lambda>x. f x (hd ys)) xs)
      else Inl ValueError)"

definition put_slice :: "nat \<Rightarrow> nat \<Rightarrow> 'a list \<Rightarrow> 'a list \<Rightarrow> 'a list res" where
  "put_slice lo hi v xs =
     (let n = length (drop lo (take hi xs)) in
      if length v = n then Inr (take lo xs @ v @ drop (lo + n) xs)
      else if length v = 1 then Inr (take lo xs @ replicate n (hd v) @ drop (lo + n) xs)
      else Inl ValueError)"

text \<open>\<open>out[idx] = v\<close> for a list of indices.\<close>

fun put_at :: "(nat \<times> 'a) list \<Rightarrow> 'a list \<Rightarrow> 'a list" where
  "put_at [] xs = xs"
| "put_at ((i, v) # ps) xs = put_at ps (xs[i := v])"

definition put_indices :: "nat list \<Rightarrow> 'a list \<Rightarrow> 'a list \<Rightarrow> 'a list res" where
  "put_indices idx v xs =
     (if \<exists>i \<in> set idx. length xs \<le> i then Inl IndexError
      else if length v = length idx then Inr (put_at (zip idx v) xs)
      else if length v = 1 then Inr (put_at (zip idx (replicate (length idx) (hd v))) xs)
      else Inl ValueError)"

section \<open>Rotary embedding\<close>

definition apply_rope ::
  "('f \<Rightarrow> 'f \<Rightarrow> 'f) \<Rightarrow> ('f \<Rightarrow> 'f \<Rightarrow> 'f) \<Rightarrow> ('f \<Rightarrow> 'f \<Rightarrow> 'f) \<Rightarrow> 'f list \<Rightarrow> 'f list \<Rightarrow> 'f list \<Rightarrow> nat \<Rightarrow> 'f list res"
where
  "apply_rope mul add sub x cs sn rot =
     (let h = rot div 2; a = take h x; b = drop h (take rot x) in
      res_bind (vec2 mul a cs) (\<lambda>ac. res_bind (vec2 mul b sn) (\<lambda>bs. res_bind (vec2 sub ac bs) (\<lambda>lo.
      res_bind (put_slice 0 h lo x) (\<lambda>out.
      res_bind (vec2 mul b cs) (\<lambda>bc. res_bind (vec2 mul a sn) (\<lambda>as. res_bind (vec2 add bc as) (\<lambda>hi.
      put_slice h rot hi out))))))))"

text \<open>The slab of a layer, for the head width \<open>DH\<close> of the build.\<close>

definition layer_rope_w :: "'f \<Rightarrow> 'f \<Rightarrow> nat \<Rightarrow> 'f list \<times> 'f list \<times> nat \<Rightarrow> ('f list \<times> nat) res" where
  "layer_rope_w one zero DH lut =
     (case lut of (cs, sn, dh) \<Rightarrow>
        let half = DH div 2 in
        res_bind (put_slice 0 (dh div 2) cs (replicate half one)) (\<lambda>c.
        res_bind (put_slice 0 (dh div 2) sn (replicate half zero)) (\<lambda>s. Inr (c @ s, dh))))"

section \<open>Padded heads\<close>

definition head_perm :: "nat \<Rightarrow> nat \<Rightarrow> nat list" where
  "head_perm dh_real dh_build = (let h = dh_real div 2 in [0..<h] @ [dh_build div 2..<dh_build div 2 + h])"

text \<open>Along the axis of the heads; the elements are rows or columns, and \<open>zero\<close> is such a row of zeros.\<close>

fun pad_heads :: "nat \<Rightarrow> nat \<Rightarrow> 'a list \<Rightarrow> nat list \<Rightarrow> 'a list \<Rightarrow> 'a list res" where
  "pad_heads dh_real dh_build src [] out = Inr out"
| "pad_heads dh_real dh_build src (h # hs) out =
     res_bind (put_indices (map ((+) (h * dh_build)) (head_perm dh_real dh_build)) (take dh_real (drop (h * dh_real) src)) out)
       (pad_heads dh_real dh_build src hs)"

definition pad_head :: "'a \<Rightarrow> nat \<Rightarrow> nat \<Rightarrow> nat \<Rightarrow> 'a list \<Rightarrow> 'a list res" where
  "pad_head zero n_heads dh_real dh_build rows =
     (if dh_real = dh_build then Inr rows
      else pad_heads dh_real dh_build rows [0..<n_heads] (replicate (n_heads * dh_build) zero))"

text \<open>The weights of the norms of a head: scaled, and put where the head is.\<close>

definition pad_norm :: "('f \<Rightarrow> 'f) \<Rightarrow> 'f \<Rightarrow> nat \<Rightarrow> nat \<Rightarrow> 'f list \<Rightarrow> 'f list res" where
  "pad_norm scale zero dh DH w =
     put_indices (head_perm dh DH) (map (if dh = DH then id else scale) w) (replicate DH zero)"

section \<open>Interleaved rows\<close>

definition interleave_chunks :: "nat \<Rightarrow> 'a list \<Rightarrow> 'a list \<Rightarrow> 'a list res" where
  "interleave_chunks k a b =
     (if k = 0 then Inl ZeroDivisionError
      else if length a div k = 0 then Inl ValueError
      else Inr (concat (map (\<lambda>(s, h). take k (drop (s * k) (if h = 0 then a else b))) (List.product [0..<length a div k] [0..<2]))))"

definition pad_rows :: "'a \<Rightarrow> nat \<Rightarrow> 'a list \<Rightarrow> 'a list res" where
  "pad_rows zero n A = (if length A = n then Inr A else put_slice 0 (length A) A (replicate n zero))"

text \<open>\<open>_rmsnorm\<close>, over the reals.\<close>

definition rmsnorm :: "real \<Rightarrow> real list \<Rightarrow> real list option \<Rightarrow> real list res" where
  "rmsnorm eps x w =
     (let y = map (\<lambda>v. v / sqrt (sum_list (map (\<lambda>v. v ^ 2) x) / real (length x) + eps)) x in
      case w of None \<Rightarrow> Inr y | Some w \<Rightarrow> vec2 (*) y w)"

section \<open>Which layer's cache a layer reads\<close>

text \<open>Every layer reads the cache of a layer that owns one, of its own kind and not after it; a layer that owns one reads its own.\<close>

lemma kv_sources:
  assumes "k < NUM_LAYERS"
  shows "\<exists>j. kv_source_layer k = Inr j \<and> owns_kv j \<and> j \<le> k \<and> layer_type_of j = layer_type_of k \<and> (owns_kv k \<longrightarrow> j = k)"
proof -
  have "\<forall>k \<in> set [0..<NUM_LAYERS]. (case kv_source_layer k of Inl _ \<Rightarrow> False
     | Inr j \<Rightarrow> owns_kv j \<and> j \<le> k \<and> layer_type_of j = layer_type_of k \<and> (owns_kv k \<longrightarrow> j = k))"
    by code_simp
  moreover have "k \<in> set [0..<NUM_LAYERS]" using assms by simp
  ultimately have "case kv_source_layer k of Inl _ \<Rightarrow> False
     | Inr j \<Rightarrow> owns_kv j \<and> j \<le> k \<and> layer_type_of j = layer_type_of k \<and> (owns_kv k \<longrightarrow> j = k)" by (rule bspec)
  then show ?thesis by (cases "kv_source_layer k") auto
qed

section \<open>What padding does\<close>

text \<open>A padded head: its first half, zeros, its second half, zeros.\<close>

definition spread :: "'a \<Rightarrow> nat \<Rightarrow> 'a list \<Rightarrow> 'a list" where
  "spread zero DH x = (let h = length x div 2; d = DH div 2 - h in take h x @ replicate d zero @ drop h x @ replicate d zero)"

lemma put_at_append: "put_at (ps @ qs) xs = put_at qs (put_at ps xs)"
  by (induction ps arbitrary: xs) auto

lemma put_at_range: "a + length v \<le> length xs \<Longrightarrow> put_at (zip [a..<a + length v] v) xs = take a xs @ v @ drop (a + length v) xs"
proof (induction v arbitrary: a xs)
  case (Cons y v)
  have "[a..<a + length (y # v)] = a # [Suc a..<Suc a + length v]" by (simp add: upt_rec)
  moreover have "take (Suc a) (xs[a := y]) = take a xs @ [y]" using Cons.prems by (simp add: take_Suc_conv_app_nth)
  ultimately show ?case using Cons.IH [of "Suc a" "xs[a := y]"] Cons.prems by simp
qed simp

lemma map_add_range: "map ((+) n) [a..<b] = [n + a..<n + b]"
  by (rule nth_equalityI) simp_all

lemma length_concat_const: "(\<And>x. x \<in> set xs \<Longrightarrow> length (f x) = d) \<Longrightarrow> length (concat (map f xs)) = length xs * d"
  by (induction xs) auto

text \<open>The rows of one head, put into a part of the output that is still zero.\<close>

lemma pad_one:
  assumes "even dh" "even DH" "dh \<le> DH" "length x = dh"
  shows "put_indices (map ((+) (length pre)) (head_perm dh DH)) x (pre @ replicate DH zero @ post) = Inr (pre @ spread zero DH x @ post)"
proof -
  define h B where "h = dh div 2" and "B = DH div 2"
  have hB: "dh = h + h" "DH = B + B" "h \<le> B" using assms by (auto simp: h_def B_def)
  let ?n = "length pre"
  have perm: "map ((+) ?n) (head_perm dh DH) = [?n..<?n + h] @ [?n + B..<?n + B + h]"
    by (simp add: head_perm_def Let_def map_add_range add.assoc flip: h_def B_def)
  have len: "length (take h x) = h" "length (drop h x) = h" using assms(4) hB by simp_all
  have z: "zip ([?n..<?n + h] @ [?n + B..<?n + B + h]) x
      = zip [?n..<?n + length (take h x)] (take h x) @ zip [?n + B..<?n + B + length (drop h x)] (drop h x)"
    unfolding len by (simp add: zip_append1)
  have 1: "put_at (zip [?n..<?n + length (take h x)] (take h x)) (pre @ replicate DH zero @ post)
      = pre @ take h x @ replicate (DH - h) zero @ post"
    by (subst put_at_range) (use len hB in simp_all)
  have e: "DH - h = (B - h) + (h + (B - h))" using hB by simp
  have 2: "put_at (zip [?n + B..<?n + B + length (drop h x)] (drop h x)) (pre @ take h x @ replicate (DH - h) zero @ post)
      = pre @ take h x @ replicate (B - h) zero @ drop h x @ replicate (B - h) zero @ post"
    unfolding e replicate_add by (subst put_at_range) (use len hB in simp_all)
  have "put_indices (map ((+) ?n) (head_perm dh DH)) x (pre @ replicate DH zero @ post)
      = Inr (put_at (zip ([?n..<?n + h] @ [?n + B..<?n + B + h]) x) (pre @ replicate DH zero @ post))"
    unfolding perm put_indices_def using hB assms(4) by auto
  also have "\<dots> = Inr (pre @ spread zero DH x @ post)"
    unfolding z put_at_append 1 2 using assms(4) by (simp add: spread_def Let_def flip: h_def B_def)
  finally show ?thesis .
qed

lemma spread_id: "even (length x) \<Longrightarrow> spread zero (length x) x = x"
  by (simp add: spread_def)

lemma length_spread: "even DH \<Longrightarrow> even (length x) \<Longrightarrow> length x \<le> DH \<Longrightarrow> length (spread zero DH x) = DH"
  by (auto simp: spread_def Let_def)

text \<open>Every head of a matrix is spread on its own.\<close>

lemma pad_heads_spread:
  assumes "even dh" "even DH" "dh \<le> DH" "length src = n * dh" "k \<le> n"
  shows "pad_heads dh DH src [k..<n] (concat (map (\<lambda>h. spread zero DH (take dh (drop (h * dh) src))) [0..<k]) @ replicate ((n - k) * DH) zero)
    = Inr (concat (map (\<lambda>h. spread zero DH (take dh (drop (h * dh) src))) [0..<n]))"
  using assms(5)
proof (induction "n - k" arbitrary: k)
  case (Suc d)
  let ?f = "\<lambda>h. spread zero DH (take dh (drop (h * dh) src))"
  have k: "k < n" using Suc.hyps(2) by simp
  have piece: "length (take dh (drop (h * dh) src)) = dh" if "h < n" for h
    using that mult_right_mono [of "Suc h" n dh] assms(4) by simp
  have "length (concat (map ?f [0..<k])) = k * DH"
  proof -
    have "length (?f h) = DH" if "h < k" for h
      by (rule length_spread [OF assms(2)]) (use piece [of h] that k assms(1,3) in simp_all)
    then show ?thesis using length_concat_const [of "[0..<k]" ?f DH] by simp
  qed
  then have pre: "k * DH = length (concat (map ?f [0..<k]))" by simp
  have split: "(n - k) * DH = DH + (n - Suc k) * DH" using k by (simp add: Suc_diff_Suc flip: mult_Suc)
  have "pad_heads dh DH src [k..<n] (concat (map ?f [0..<k]) @ replicate ((n - k) * DH) zero)
      = pad_heads dh DH src [Suc k..<n] (concat (map ?f [0..<k]) @ ?f k @ replicate ((n - Suc k) * DH) zero)"
    using k pad_one [OF assms(1-3) piece [OF k], of "concat (map ?f [0..<k])" zero "replicate ((n - Suc k) * DH) zero"]
    unfolding split pre [symmetric] by (simp add: upt_rec replicate_add pre [symmetric])
  also have "\<dots> = Inr (concat (map ?f [0..<n]))"
    using Suc.hyps(1) [of "Suc k"] Suc.hyps(2) k by simp
  finally show ?case .
qed simp

lemma pad_head_eq:
  assumes "even dh" "even DH" "dh \<le> DH" "length src = n * dh"
  shows "pad_head zero n dh DH src = Inr (concat (map (\<lambda>h. spread zero DH (take dh (drop (h * dh) src))) [0..<n]))"
proof (cases "dh = DH")
  case True
  have "concat (map (\<lambda>h. take dh (drop (h * dh) src)) [0..<n]) = src" if "length src = n * dh" for src :: "'a list"
    using that
  proof (induction n arbitrary: src)
    case (Suc n)
    have "concat (map (\<lambda>h. take dh (drop (h * dh) src)) [0..<Suc n])
        = concat (map (\<lambda>h. take dh (drop (h * dh) (take (n * dh) src))) [0..<n]) @ drop (n * dh) src"
      using Suc.prems by (auto simp: drop_take min_def intro!: arg_cong [of _ _ concat] map_cong)
        (metis Suc_leI add_le_imp_le_diff mult_Suc mult_le_mono1 not_le)
    also have "\<dots> = src" using Suc.IH [of "take (n * dh) src"] Suc.prems by simp
    finally show ?case .
  qed simp
  then have c: "concat (map (\<lambda>h. take dh (drop (h * dh) src)) [0..<n]) = src" using assms(4) .
  have "spread zero DH (take dh (drop (h * dh) src)) = take dh (drop (h * dh) src)" if "h < n" for h
    using that mult_right_mono [of "Suc h" n dh] assms spread_id [of "take dh (drop (h * dh) src)" zero] True by simp
  then have "map (\<lambda>h. spread zero DH (take dh (drop (h * dh) src))) [0..<n] = map (\<lambda>h. take dh (drop (h * dh) src)) [0..<n]" by simp
  then have "concat (map (\<lambda>h. spread zero DH (take dh (drop (h * dh) src))) [0..<n]) = src" by (simp only: c)
  with True show ?thesis by (simp only: pad_head_def if_True simp_thms)
next
  case False
  with pad_heads_spread [OF assms, of 0 zero] show ?thesis by (simp add: pad_head_def)
qed

section \<open>Rotating a padded head\<close>

definition rotated :: "('f \<Rightarrow> 'f \<Rightarrow> 'f) \<Rightarrow> ('f \<Rightarrow> 'f \<Rightarrow> 'f) \<Rightarrow> ('f \<Rightarrow> 'f \<Rightarrow> 'f) \<Rightarrow> 'f list \<Rightarrow> 'f list \<Rightarrow> 'f list \<Rightarrow> 'f list" where
  "rotated mul add sub x cs sn =
     (let a = take (length cs) x; b = drop (length cs) x in
      map2 sub (map2 mul a cs) (map2 mul b sn) @ map2 add (map2 mul b cs) (map2 mul a sn))"

lemma length_rotated: "length x = length cs + length cs \<Longrightarrow> length sn = length cs \<Longrightarrow> length (rotated mul add sub x cs sn) = length x"
  by (simp add: rotated_def Let_def)

lemma put_slice_exact: "lo + length v \<le> length xs \<Longrightarrow> hi = lo + length v \<Longrightarrow> put_slice lo hi v xs = Inr (take lo xs @ v @ drop hi xs)"
  by (simp add: put_slice_def Let_def min_def)

lemma rope_eq:
  assumes "length x = length cs + length cs" and "length sn = length cs"
  shows "apply_rope mul add sub x cs sn (length x) = Inr (rotated mul add sub x cs sn)"
proof -
  let ?h = "length cs"
  define a b where "a = take ?h x" and "b = drop ?h x"
  have ab: "length a = ?h" "length b = ?h" "take ?h x = a" "drop ?h (take (length x) x) = b" using assms by (simp_all add: a_def b_def)
  have h: "length x div 2 = ?h" using assms(1) by simp
  have v: "vec2 f xs ys = Inr (map2 f xs ys)" if "length xs = length ys" for f :: "'a \<Rightarrow> 'a \<Rightarrow> 'a" and xs ys using that by (simp add: vec2_def)
  let ?lo = "map2 sub (map2 mul a cs) (map2 mul b sn)" and ?hi = "map2 add (map2 mul b cs) (map2 mul a sn)"
  have "put_slice 0 ?h ?lo x = Inr (?lo @ b)" by (subst put_slice_exact) (use ab assms in \<open>simp_all add: b_def\<close>)
  moreover have "put_slice ?h (length x) ?hi (?lo @ b) = Inr (?lo @ ?hi)" by (subst put_slice_exact) (use ab assms in simp_all)
  ultimately show ?thesis
    unfolding apply_rope_def Let_def h ab(3,4) by (simp add: v ab assms rotated_def Let_def flip: a_def b_def)
qed

lemma rotated_spread:
  assumes "length x = length cs + length cs" and "length sn = length cs" and "length cs \<le> B"
    and "sub (mul zero one) (mul zero zero) = zero" and "add (mul zero one) (mul zero zero) = zero"
  shows "rotated mul add sub (spread zero (B + B) x) (cs @ replicate (B - length cs) one) (sn @ replicate (B - length cs) zero)
    = spread zero (B + B) (rotated mul add sub x cs sn)"
proof -
  define h d where "h = length cs" and "d = B - length cs"
  define a b where "a = take h x" and "b = drop h x"
  have x: "x = a @ b" "length a = h" "length b = h" using assms(1) by (simp_all add: a_def b_def h_def)
  have cs: "length cs = h" "length sn = h" "B = h + d" using assms(2,3) by (simp_all add: h_def d_def)
  have z: "map2 f (replicate d u) (replicate d w) = replicate d (f u w)" for f :: "'a \<Rightarrow> 'a \<Rightarrow> 'a" and u w
    by (simp add: zip_replicate)
  show ?thesis
    unfolding spread_def rotated_def Let_def by (simp add: x cs z assms(4,5))
qed

text \<open>
  C25: a padded head is rotated like the head it holds. If the heads of a layer are padded to the width of the build and
  its table of cosines and sines is padded with ones and zeros, then rotating every padded head with the rotation of the
  nd_build gives exactly the padding of the heads rotated at their own width: halves stay paired with halves. The only
  arithmetic this uses is that the rotation of two zeros by the identity is zero.
\<close>

theorem padded_rope_is_rope:
  assumes "even dh" and "even DH" and "dh \<le> DH" and "length X = n * dh" and "length cs = dh div 2" and "length sn = dh div 2"
    and "sub (mul zero one) (mul zero zero) = zero" and "add (mul zero one) (mul zero zero) = zero"
  shows "\<exists>P c s ys ys'. pad_head zero n dh DH X = Inr P \<and> layer_rope_w one zero DH (cs, sn, dh) = Inr (c @ s, dh) \<and> length c = DH div 2 \<and>
    map_res (\<lambda>i. apply_rope mul add sub (chunk dh i X) cs sn dh) [0..<n] = Inr ys \<and>
    map_res (\<lambda>i. apply_rope mul add sub (chunk DH i P) c s DH) [0..<n] = Inr ys' \<and>
    pad_head zero n dh DH (concat ys) = Inr (concat ys')"
proof -
  define B where "B = DH div 2"
  have B: "DH = B + B" and h: "dh = length cs + length cs" "length sn = length cs" "length cs \<le> B"
    using assms(1-3,5,6) by (auto simp: B_def)
  let ?c = "cs @ replicate (B - length cs) one" and ?s = "sn @ replicate (B - length cs) zero"
  let ?x = "\<lambda>i. chunk dh i X"
  let ?y = "\<lambda>i. rotated mul add sub (?x i) cs sn"
  let ?P = "concat (map (\<lambda>i. spread zero DH (?x i)) [0..<n])"
  have len: "length (?x i) = dh" if "i < n" for i by (rule chunk_length [OF assms(4) that])
  have pad: "pad_head zero n dh DH X = Inr ?P" using pad_head_eq [OF assms(1-4), of zero] by (simp add: chunk_def)
  have lut: "layer_rope_w one zero DH (cs, sn, dh) = Inr (?c @ ?s, dh)"
    using assms(5,6) h(2,3) by (simp add: layer_rope_w_def Let_def put_slice_exact flip: B_def)
  have rope: "map_res (\<lambda>i. apply_rope mul add sub (?x i) cs sn dh) [0..<n] = Inr (map ?y [0..<n])"
    by (rule map_res_all_Inr) (use rope_eq [of "?x _" cs sn mul add sub] len h in auto)
  have slen: "length (spread zero DH (?x i)) = DH" if "i < n" for i
    by (rule length_spread) (use len [OF that] assms(1-3) in simp_all)
  have piece: "chunk DH i ?P = spread zero DH (?x i)" if "i < n" for i
    by (subst chunk_concat) (use slen that in auto)
  have rot: "apply_rope mul add sub (chunk DH i ?P) ?c ?s DH = Inr (spread zero DH (?y i))" if "i < n" for i
  proof -
    have "apply_rope mul add sub (spread zero DH (?x i)) ?c ?s (length (spread zero DH (?x i))) = Inr (rotated mul add sub (spread zero DH (?x i)) ?c ?s)"
      by (rule rope_eq) (use slen [OF that] B h in simp_all)
    moreover have "rotated mul add sub (spread zero (B + B) (?x i)) ?c ?s = spread zero (B + B) (?y i)"
      by (rule rotated_spread) (use len [OF that] h assms(7,8) in simp_all)
    ultimately show ?thesis using piece [OF that] slen [OF that] B by simp
  qed
  have rope': "map_res (\<lambda>i. apply_rope mul add sub (chunk DH i ?P) ?c ?s DH) [0..<n] = Inr (map (\<lambda>i. spread zero DH (?y i)) [0..<n])"
    by (rule map_res_all_Inr) (use rot in auto)
  have ylen: "length (?y i) = dh" if "i < n" for i using length_rotated [of "?x i" cs sn] len [OF that] h by simp
  then have "length (concat (map ?y [0..<n])) = n * dh" using length_concat_const [of "[0..<n]" ?y dh] by simp
  then have "pad_head zero n dh DH (concat (map ?y [0..<n])) = Inr (concat (map (\<lambda>i. spread zero DH (chunk dh i (concat (map ?y [0..<n])))) [0..<n]))"
    using pad_head_eq [OF assms(1-3), of "concat (map ?y [0..<n])" n zero] by (simp add: chunk_def)
  moreover have "map (\<lambda>i. spread zero DH (chunk dh i (concat (map ?y [0..<n])))) [0..<n] = map (\<lambda>i. spread zero DH (?y i)) [0..<n]"
  proof (rule map_cong [OF refl])
    fix i assume "i \<in> set [0..<n]"
    then have "chunk dh i (concat (map ?y [0..<n])) = ?y i" by (subst chunk_concat) (use ylen in auto)
    then show "spread zero DH (chunk dh i (concat (map ?y [0..<n]))) = spread zero DH (?y i)" by simp
  qed
  ultimately have "pad_head zero n dh DH (concat (map ?y [0..<n])) = Inr (concat (map (\<lambda>i. spread zero DH (?y i)) [0..<n]))"
    by (simp only:)
  moreover have "length ?c = DH div 2" using B h(3) by simp
  ultimately show ?thesis using pad lut rope rope' by blast
qed

lemma padded_rope_is_rope_witness:
  "\<exists>P c s ys ys'. pad_head (0 :: int) 2 2 4 [1, 2, 3, 4] = Inr P \<and> layer_rope_w 1 0 4 ([7], [5], 2) = Inr (c @ s, 2) \<and> length c = 2 \<and>
    map_res (\<lambda>i. apply_rope (*) (+) (-) (chunk 2 i [1, 2, 3, 4]) [7] [5] 2) [0..<2] = Inr ys \<and>
    map_res (\<lambda>i. apply_rope (*) (+) (-) (chunk 4 i P) c s 4) [0..<2] = Inr ys' \<and>
    pad_head 0 2 2 4 (concat ys) = Inr (concat ys')"
  using padded_rope_is_rope [of 2 4 "[1, 2, 3, 4 :: int]" 2 "[7]" "[5]" "(-)" "(*)" 0 1 "(+)"] by simp

section \<open>The norm of a padded head\<close>

lemma map2_spread:
  assumes "length x = length w" and "\<And>v u. f v (k u) = g v u" and "f z z' = z''"
  shows "map2 f (spread z DH x) (spread z' DH (map k w)) = spread z'' DH (map2 g x w)"
  unfolding spread_def Let_def using assms
  by (simp add: zip_append zip_replicate take_map drop_map take_zip drop_zip zip_map2 split_def comp_def)

text \<open>
  Scaling the weights by the root of the share of real elements undoes the padding for a head without the constant that
  keeps the norm finite; with it the constant counts once for every padded share.
\<close>

lemma padded_norm:
  assumes "even dh" "even DH" "0 < dh" "dh < DH" "length x = dh" "length w = dh"
  shows "\<exists>pw y. pad_norm (\<lambda>v. v * sqrt (real dh / real DH)) 0 dh DH w = Inr pw \<and>
    rmsnorm (eps * (real DH / real dh)) x (Some w) = Inr y \<and> rmsnorm eps (spread 0 DH x) (Some pw) = Inr (spread 0 DH y)"
proof -
  define B h where "B = DH div 2" and "h = dh div 2"
  have d: "DH = B + B" "dh = h + h" "h \<le> B" using assms by (auto simp: B_def h_def)
  let ?k = "sqrt (real dh / real DH)"
  let ?pw = "spread 0 DH (map (\<lambda>v. v * ?k) w)"
  have z: "map ((+) (0 :: nat)) idx = idx" for idx by (simp add: map_idI)
  have pw: "pad_norm (\<lambda>v. v * ?k) 0 dh DH w = Inr ?pw"
    using pad_one [OF assms(1,2), of "map (\<lambda>v. v * ?k) w" "[]" 0 "[]"] assms(4,6)
    by (simp add: pad_norm_def z)
  let ?S = "sum_list (map (\<lambda>v. v ^ 2) x)"
  have sum: "sum_list (map (\<lambda>v. v ^ 2) (spread 0 DH x)) = ?S"
  proof -
    have "?S = sum_list (map (\<lambda>v. v ^ 2) (take h x @ drop h x))" by simp
    then show ?thesis by (simp only: map_append sum_list_append) (simp add: spread_def Let_def assms(5) sum_list_replicate flip: h_def)
  qed
  let ?R = "sqrt (?S / real dh + eps * (real DH / real dh))" and ?R' = "sqrt (?S / real DH + eps)"
  have eq: "?S / real dh + eps * (real DH / real dh) = (?S / real DH + eps) * (real DH / real dh)"
    using assms(3,4) by (simp add: field_simps)
  have R: "?R = ?R' * sqrt (real DH / real dh)" unfolding eq by (rule real_sqrt_mult)
  have kk: "?k * sqrt (real DH / real dh) = 1" using assms(3,4) by (simp flip: real_sqrt_mult)
  have el: "v / ?R' * (u * ?k) = v / ?R * u" for u v
  proof -
    have "?k = 1 / sqrt (real DH / real dh)" using kk by (metis nonzero_eq_divide_eq mult_zero_right zero_neq_one)
    then show ?thesis unfolding R by simp
  qed
  let ?y = "map2 (\<lambda>v u. v / ?R * u) x w"
  have y: "rmsnorm (eps * (real DH / real dh)) x (Some w) = Inr ?y"
    using assms(5,6) by (simp add: rmsnorm_def vec2_def zip_map1 split_def comp_def)
  have sl: "length (spread 0 DH x) = DH" "length ?pw = DH"
    by (rule length_spread; use assms in simp)+
  have "rmsnorm eps (spread 0 DH x) (Some ?pw) = Inr (map2 (\<lambda>v u. v / ?R' * u) (spread 0 DH x) ?pw)"
    by (simp add: rmsnorm_def vec2_def zip_map1 split_def comp_def sum sl)
  moreover have "map2 (\<lambda>v u. v / ?R' * u) (spread 0 DH x) ?pw = spread 0 DH ?y"
    by (rule map2_spread) (use assms(5,6) el in auto)
  ultimately show ?thesis using pw y by auto
qed

section \<open>Interleaved rows\<close>

text \<open>A row of the stream is the row of one of the two matrices that its chunk says.\<close>

lemma interleaved_rows:
  assumes "interleave_chunks k a b = Inr rs" and "length b = length a" and "s < length a div k" "h < 2" "t < k"
  shows "rs ! ((s * 2 + h) * k + t) = (if h = 0 then a else b) ! (s * k + t)"
proof -
  let ?f = "\<lambda>(s, h). take k (drop (s * k) (if h = 0 then a else b))"
  let ?ps = "List.product [0..<length a div k] [0..<2 :: nat]"
  have rs: "rs = concat (map ?f ?ps)" using assms(1) by (auto simp: interleave_chunks_def split: if_splits)
  have fit: "s * k + k \<le> length a" if "s < length a div k" for s
  proof -
    have "Suc s * k \<le> length a div k * k" using that by (intro mult_right_mono) auto
    also have "\<dots> \<le> length a" by simp
    finally show ?thesis by simp
  qed
  have i: "s * 2 + h < length a div k * 2" using assms(3,4) by linarith
  have nth: "?ps ! (s * 2 + h) = (s, h)" using i assms(3,4) product_nth [of "s * 2 + h" "[0..<length a div k]" "[0..<2 :: nat]"] by simp
  have "rs ! ((s * 2 + h) * k + t) = map ?f ?ps ! (s * 2 + h) ! t"
    unfolding rs by (rule nth_concat_even) (use i assms(2,5) in \<open>auto dest!: fit\<close>)
  also have "\<dots> = ?f (s, h) ! t" using i nth by simp
  also have "\<dots> = (if h = 0 then a else b) ! (s * k + t)"
    using fit [OF assms(3)] assms(2,5) by simp
  finally show ?thesis .
qed

end
