(* ===== verification/Stitching.thy ===== *)
theory Stitching
  imports Py_Text "HOL-Library.List_Lexorder" "HOL-Library.Char_ord"
begin

text \<open>
  Stitching kernels: the text surgery of \<^verbatim>\<open>src/programming_examples/llms/shared/infra/stitching.py\<close>, which renames the names
  of several kernel modules with prefixes, wires their arguments and splices their bodies into one function. The regular
  expressions are modelled on character lists; the parser of the finished module is an argument. The theory shows that
  the passes of regular-expression substitutions, longest name first, act as one scan per sign over the names of the text.
\<close>

section \<open>Regular expressions on names\<close>

text \<open>
  \<open>re.findall\<close> of a pattern made of one sign, one character of a class and any number of characters of a class:
  \<open>%[a-zA-Z_]\w*\<close>, \<open>%\d+\<close> and \<open>@[\w]+\<close>.
\<close>

function find_names :: "char \<Rightarrow> (char \<Rightarrow> bool) \<Rightarrow> (char \<Rightarrow> bool) \<Rightarrow> string \<Rightarrow> string list" where
  "find_names sig st more [] = []"
| "find_names sig st more (c # cs) =
     (if c = sig \<and> cs \<noteq> [] \<and> st (hd cs)
      then (c # hd cs # takeWhile more (tl cs)) # find_names sig st more (dropWhile more (tl cs))
      else find_names sig st more cs)"
  by pat_completeness auto
termination
  by (relation "measure (\<lambda>(_, _, _, s). length s)") (auto simp: le_imp_less_Suc length_dropWhile_le neq_Nil_conv le_SucI)

definition is_digit_char :: "char \<Rightarrow> bool" where
  "is_digit_char c = (let k = (of_char c :: nat) in 48 \<le> k \<and> k \<le> 57)"

definition is_name_start :: "char \<Rightarrow> bool" where
  "is_name_start c \<longleftrightarrow> is_word_char c \<and> \<not> is_digit_char c"

text \<open>\<open>re.findall(r"#map\d*", text)\<close>: the literal, then the digits.\<close>

function find_literal :: "string \<Rightarrow> string \<Rightarrow> string list" where
  "find_literal lit [] = []"
| "find_literal lit (c # cs) =
     (if lit \<noteq> [] \<and> begins_with lit (c # cs)
      then let r = drop (length lit) (c # cs) in (lit @ takeWhile is_digit_char r) # find_literal lit (dropWhile is_digit_char r)
      else find_literal lit cs)"
  by pat_completeness auto
termination
proof (relation "measure (\<lambda>(_, s). length s)", goal_cases)
  case (2 lit c cs x)
  then have "length x \<le> length cs" by (cases lit) simp_all
  then show ?case using length_dropWhile_le [of is_digit_char x] by (simp add: le_imp_less_Suc)
qed auto

text \<open>
  \<open>re.sub(re.escape(name) + r"(?!b)", new, text)\<close> with a class \<open>b\<close>, from left to right; with the empty class it is
  \<open>text.replace(name, new)\<close>. The name is not empty.
\<close>

function sub_name :: "(char \<Rightarrow> bool) \<Rightarrow> string \<Rightarrow> string \<Rightarrow> string \<Rightarrow> string" where
  "sub_name b name new [] = []"
| "sub_name b name new (c # cs) =
     (let r = drop (length name) (c # cs) in
      if name \<noteq> [] \<and> begins_with name (c # cs) \<and> (r = [] \<or> \<not> b (hd r)) then new @ sub_name b name new r
      else c # sub_name b name new cs)"
  by pat_completeness auto
termination
  by (relation "measure (\<lambda>(_, _, _, s). length s)") auto

definition never :: "char \<Rightarrow> bool" where
  "never c = False"

text \<open>
  A set of names in the order \<open>sorted(\<dots>, key=len, reverse=True)\<close>. The order of the set among names of one length is
  Python's own; here it is the order of appearance, and the results below hold for all of them.
\<close>

definition longest_first :: "string list \<Rightarrow> string list" where
  "longest_first ns = sort_key (\<lambda>n. - int (length n)) (remdups ns)"

definition num_value :: "string \<Rightarrow> nat" where
  "num_value ds = foldl (\<lambda>v d. v * 10 + (of_char d - 48)) 0 ds"

section \<open>Renaming\<close>

text \<open>The new name: the sign, the prefix, an underscore and the rest.\<close>

definition prefixed :: "string \<Rightarrow> string \<Rightarrow> string" where
  "prefixed p name = hd name # p @ ''_'' @ tl name"

definition sub_all :: "(char \<Rightarrow> bool) \<Rightarrow> (string \<Rightarrow> string) \<Rightarrow> string list \<Rightarrow> string \<Rightarrow> string" where
  "sub_all b new ns text = fold (\<lambda>n t. sub_name b n (new n) t) ns text"

definition rename_affine :: "string \<Rightarrow> string \<Rightarrow> string" where
  "rename_affine p text =
     sub_all is_word_char (prefixed p) (longest_first (find_literal ''#map'' text @ find_literal ''#set'' text)) text"

definition rename_words :: "string \<Rightarrow> string \<Rightarrow> string" where
  "rename_words p text =
     sub_all is_word_char (prefixed p) (longest_first (find_names (CHR ''%'') is_name_start is_word_char text)) text"

definition rename_numbers :: "string \<Rightarrow> string \<Rightarrow> string" where
  "rename_numbers p text =
     sub_all is_digit_char (\<lambda>n. ''%'' @ p @ ''_n'' @ tl n)
       (sort_key (\<lambda>n. - int (num_value (tl n))) (remdups (find_names (CHR ''%'') is_digit_char is_digit_char text))) text"

definition rename_symbols :: "string \<Rightarrow> string list \<Rightarrow> string \<Rightarrow> string" where
  "rename_symbols p externs text =
     sub_all never (prefixed p)
       (filter (\<lambda>n. n \<notin> set externs) (longest_first (find_names (CHR ''@'') is_word_char is_word_char text))) text"

definition rename_all_with_externs :: "string \<Rightarrow> string \<Rightarrow> string list \<Rightarrow> string" where
  "rename_all_with_externs text p externs = rename_symbols p externs (rename_numbers p (rename_words p (rename_affine p text)))"

definition default_extern_funcs :: "string list" where
  "default_extern_funcs = [''@silu_and_mul_bf16'', ''@zero_vectorized_bf16'', ''@matmul_bf16'']"

definition rename_all :: "string \<Rightarrow> string \<Rightarrow> string" where
  "rename_all text p = rename_all_with_externs text p default_extern_funcs"

section \<open>One scan\<close>

text \<open>The specification: every maximal name of the text is mapped, everything else is kept.\<close>

function scan :: "char \<Rightarrow> (char \<Rightarrow> bool) \<Rightarrow> (char \<Rightarrow> bool) \<Rightarrow> (string \<Rightarrow> string) \<Rightarrow> string \<Rightarrow> string" where
  "scan sig st more f [] = []"
| "scan sig st more f (c # cs) =
     (if c = sig \<and> cs \<noteq> [] \<and> st (hd cs)
      then f (c # hd cs # takeWhile more (tl cs)) @ scan sig st more f (dropWhile more (tl cs))
      else c # scan sig st more f cs)"
  by pat_completeness auto
termination
  by (relation "measure (\<lambda>(_, _, _, _, s). length s)") (auto simp: le_imp_less_Suc length_dropWhile_le neq_Nil_conv le_SucI)

definition is_affine_name :: "string \<Rightarrow> bool" where
  "is_affine_name n \<longleftrightarrow> (begins_with ''#map'' n \<or> begins_with ''#set'' n) \<and> list_all is_digit_char (drop 4 n)"

definition renamed :: "string \<Rightarrow> string \<Rightarrow> string list \<Rightarrow> string" where
  "renamed text p externs =
     scan (CHR ''@'') is_word_char is_word_char (\<lambda>n. if n \<in> set externs then n else prefixed p n)
       (scan (CHR ''%'') is_digit_char is_digit_char (\<lambda>n. ''%'' @ p @ ''_n'' @ tl n)
         (scan (CHR ''%'') is_name_start is_word_char (prefixed p)
           (scan (CHR ''#'') is_word_char is_word_char (\<lambda>n. if is_affine_name n then prefixed p n else n) text)))"

section \<open>A substitution is a scan\<close>

lemma sub_skip: "s \<notin> set u \<Longrightarrow> sub_name b (s # v) new (u @ R) = u @ sub_name b (s # v) new R"
  by (induction u) (auto simp: Let_def begins_with_def)

lemma sub_hit:
  assumes "name \<noteq> []" "R = [] \<or> \<not> b (hd R)"
  shows "sub_name b name new (name @ R) = new @ sub_name b name new R"
proof -
  obtain c cs where "name = c # cs" using assms(1) by (cases name) auto
  then show ?thesis using assms begins_with_append [of name R] by (simp add: Let_def)
qed

lemma sub_miss:
  assumes "begins_with name (c # cs) \<Longrightarrow> drop (length name) (c # cs) \<noteq> [] \<and> b (hd (drop (length name) (c # cs)))"
  shows "sub_name b name new (c # cs) = c # sub_name b name new cs"
  using assms by (auto simp: Let_def)

text \<open>A scan that keeps the signs keeps the first character.\<close>

lemma hd_scan:
  assumes "\<And>w. w \<in> set (find_names sig st more text) \<Longrightarrow> \<exists>u. f w = sig # u"
  shows "scan sig st more f text = [] \<longleftrightarrow> text = []" "text \<noteq> [] \<Longrightarrow> hd (scan sig st more f text) = hd text"
  using assms by (cases "text"; force)+

lemma sub_scan:
  assumes sig: "\<not> more sig" "\<And>c. st c \<Longrightarrow> more c" and b: "\<And>c. b c \<Longrightarrow> more c"
    and name: "name = sig # v" "v \<noteq> []" "st (hd v)" "list_all more v"
    and shape: "\<And>w. w \<in> set (find_names sig st more text) \<Longrightarrow> \<exists>u. f w = sig # u \<and> sig \<notin> set u"
    and sep: "\<And>w. w \<in> set (find_names sig st more text) \<Longrightarrow> begins_with name (f w) \<Longrightarrow>
                f w = name \<or> length name < length (f w) \<and> b (f w ! length name)"
  shows "sub_name b name new (scan sig st more f text) = scan sig st more (\<lambda>w. if f w = name then new else f w) text"
  using shape sep
proof (induction "text" rule: measure_induct_rule [of length])
  case (less s)
  show ?case
  proof (cases s)
    case (Cons c cs)
    show ?thesis
    proof (cases "c = sig \<and> cs \<noteq> [] \<and> st (hd cs)")
      case True
      define w rest where "w = c # hd cs # takeWhile more (tl cs)" and "rest = dropWhile more (tl cs)"
      define R where "R = scan sig st more f rest"
      have names: "find_names sig st more s = w # find_names sig st more rest"
        and scans: "scan sig st more g s = g w @ scan sig st more g rest" for g
        using True by (simp_all add: Cons w_def rest_def)
      have len: "length rest < length s"
        using True length_dropWhile_le [of more "tl cs"] by (cases cs) (auto simp: rest_def Cons)
      have IH: "sub_name b name new R = scan sig st more (\<lambda>w. if f w = name then new else f w) rest"
        unfolding R_def using less.prems names by (intro less.IH [OF len]) auto
      from less.prems(1) names obtain u where u: "f w = sig # u" "sig \<notin> set u" by auto
      have hd_R: "R = [] \<or> \<not> more (hd R)"
      proof -
        have "rest = [] \<or> \<not> more (hd rest)" unfolding rest_def by (metis hd_dropWhile)
        moreover have "R = [] \<longleftrightarrow> rest = []" "rest \<noteq> [] \<Longrightarrow> hd R = hd rest"
          unfolding R_def using less.prems(1) names by (intro hd_scan; fastforce)+
        ultimately show ?thesis by metis
      qed
      have "sub_name b name new (f w @ R) = (if f w = name then new else f w) @ sub_name b name new R"
      proof (cases "f w = name")
        case True
        then show ?thesis using sub_hit [of name R b new] name hd_R b by auto
      next
        case False
        have "drop (length name) (f w @ R) \<noteq> [] \<and> b (hd (drop (length name) (f w @ R)))" if begins: "begins_with name (f w @ R)"
        proof (cases "length name \<le> length (f w)")
          case True
          with begins have "begins_with name (f w)" by (simp add: begins_with_def)
          with less.prems(2) names False have "length name < length (f w) \<and> b (f w ! length name)" by auto
          then show ?thesis by (simp add: hd_append hd_drop_conv_nth)
        next
          case False
          define x where "x = take (length name - length (f w)) R"
          have "name = take (length name) (f w @ R)" using begins by (simp add: begins_with_def)
          then have "name = f w @ x" using False by (simp add: x_def)
          then have x: "name = f w @ x" "x \<noteq> []" using False by auto
          then have "begins_with x R" using begins by (auto simp: begins_with_iff)
          with x have x: "name = f w @ x" "x \<noteq> []" "begins_with x R" by simp_all
          then have "R \<noteq> []" "hd R = hd x" by (auto simp: begins_with_iff)
          moreover have "more (hd x)" using x(1,2) name u(1) by (auto simp: list_all_iff)
          ultimately show ?thesis using hd_R by simp
        qed
        then have "sub_name b name new (f w @ R) = sig # sub_name b name new (u @ R)"
          unfolding u(1) append_Cons by (rule sub_miss)
        with False u show ?thesis by (simp add: name(1) sub_skip)
      qed
      then show ?thesis by (simp add: scans IH flip: R_def)
    next
      case False
      define R where "R = scan sig st more f cs"
      have names: "find_names sig st more s = find_names sig st more cs"
        and scans: "scan sig st more g s = c # scan sig st more g cs" for g
        using False by (auto simp: Cons)
      have IH: "sub_name b name new R = scan sig st more (\<lambda>w. if f w = name then new else f w) cs"
        unfolding R_def using less.prems names by (intro less.IH) (auto simp: Cons)
      have R: "R = [] \<longleftrightarrow> cs = []" "cs \<noteq> [] \<Longrightarrow> hd R = hd cs"
        unfolding R_def using less.prems(1) names by (intro hd_scan; fastforce)+
      have "\<not> begins_with name (c # R)"
      proof
        assume "begins_with name (c # R)"
        then have "c = sig" "begins_with v R" by (simp_all add: name begins_with_iff)
        with name(2) have "R \<noteq> []" "hd R = hd v" by (auto simp: begins_with_iff)
        with False R \<open>c = sig\<close> name(3) show False by simp
      qed
      then have "sub_name b name new (c # R) = c # sub_name b name new R" by (intro sub_miss) simp
      then show ?thesis by (simp add: scans IH flip: R_def)
    qed
  qed simp
qed

text \<open>The names of a text, and the scan that changes nothing.\<close>

definition named :: "char \<Rightarrow> (char \<Rightarrow> bool) \<Rightarrow> (char \<Rightarrow> bool) \<Rightarrow> string \<Rightarrow> bool" where
  "named sig st more n \<longleftrightarrow> (\<exists>v. n = sig # v \<and> v \<noteq> [] \<and> st (hd v) \<and> list_all more v)"

lemma names_induct [case_names Nil Plain Name]:
  assumes "P []"
    and "\<And>c cs. \<not> (c = sig \<and> cs \<noteq> [] \<and> st (hd cs)) \<Longrightarrow> P cs \<Longrightarrow> P (c # cs)"
    and "\<And>d ds. st d \<Longrightarrow> P (dropWhile more ds) \<Longrightarrow> P (sig # d # ds)"
  shows "P s"
proof (induction s rule: measure_induct_rule [of length])
  case (less s)
  show ?case
  proof (cases s)
    case (Cons c cs)
    show ?thesis
    proof (cases "c = sig \<and> cs \<noteq> [] \<and> st (hd cs)")
      case True
      then obtain ds where ds: "cs = hd cs # ds" by (cases cs) auto
      have "length (dropWhile more ds) < length s"
        using length_dropWhile_le [of more ds] ds by (metis Cons length_Cons le_imp_less_Suc less_SucI)
      then have "P (sig # hd cs # ds)" using True assms(3) less by blast
      then show ?thesis using True ds Cons by metis
    qed (use assms(2) less Cons in simp)
  qed (use assms(1) in simp)
qed

lemma find_names_named:
  assumes "\<And>c. st c \<Longrightarrow> more c" "w \<in> set (find_names sig st more text)"
  shows "named sig st more w"
  using assms(2)
proof (induction "text" rule: names_induct [of _ sig st more])
  case (Name d ds)
  have "list_all more (takeWhile more ds)" by (auto simp: list_all_iff dest: set_takeWhileD)
  then have "named sig st more (sig # d # takeWhile more ds)"
    unfolding named_def using Name.hyps assms(1) by (intro exI [of _ "d # takeWhile more ds"]) simp
  with Name show ?case by auto
qed auto

lemma scan_same [simp]: "scan sig st more (\<lambda>w. w) text = text"
  by (induction "text" rule: names_induct [of _ sig st more]) auto

lemma scan_cong:
  assumes "\<And>w. w \<in> set (find_names sig st more text) \<Longrightarrow> f w = g w"
  shows "scan sig st more f text = scan sig st more g text"
  using assms by (induction "text" rule: names_induct [of _ sig st more]) auto

text \<open>A sequence of substitutions, none of which meets the result of an earlier one or a part of a longer name.\<close>

lemma sub_all_scan:
  assumes sig: "\<not> more sig" "\<And>c. st c \<Longrightarrow> more c" and b: "\<And>c. b c \<Longrightarrow> more c"
    and ns: "\<And>n. n \<in> set ns \<Longrightarrow> named sig st more n"
    and new: "\<And>n. n \<in> set ns \<Longrightarrow> \<exists>u. new n = sig # u \<and> sig \<notin> set u"
    and step: "\<And>xs n ys w. ns = xs @ n # ys \<Longrightarrow> w \<in> set (find_names sig st more text) \<Longrightarrow>
      begins_with n (if w \<in> set xs then new w else w) \<Longrightarrow>
      w \<notin> set xs \<and> (w = n \<or> length n < length w \<and> b (w ! length n)) \<or>
      w \<in> set xs \<and> new w \<noteq> n \<and> length n < length (new w) \<and> b (new w ! length n)"
  shows "sub_all b new ns text = scan sig st more (\<lambda>w. if w \<in> set ns then new w else w) text"
  using ns new step
proof (induction ns rule: rev_induct)
  case Nil then show ?case by (simp add: sub_all_def)
next
  case (snoc n ns)
  define f where "f = (\<lambda>w. if w \<in> set ns then new w else w)"
  have IH: "sub_all b new ns text = scan sig st more f text"
    unfolding f_def
  proof (rule snoc.IH)
    fix xs m ys w
    assume "ns = xs @ m # ys" "w \<in> set (find_names sig st more text)" "begins_with m (if w \<in> set xs then new w else w)"
    then show "w \<notin> set xs \<and> (w = m \<or> length m < length w \<and> b (w ! length m)) \<or>
        w \<in> set xs \<and> new w \<noteq> m \<and> length m < length (new w) \<and> b (new w ! length m)"
      by (intro snoc.prems(3) [of xs m "ys @ [n]"]) simp_all
  qed (simp_all add: snoc.prems)
  obtain v where v: "n = sig # v" "v \<noteq> []" "st (hd v)" "list_all more v"
    using snoc.prems(1) by (auto simp: named_def)
  have step: "w \<notin> set ns \<and> (w = n \<or> length n < length w \<and> b (w ! length n)) \<or>
      w \<in> set ns \<and> new w \<noteq> n \<and> length n < length (new w) \<and> b (new w ! length n)"
    if "w \<in> set (find_names sig st more text)" "begins_with n (f w)" for w
    using snoc.prems(3) [of ns n "[]" w] that by (simp add: f_def)
  have "sub_name b n (new n) (scan sig st more f text) = scan sig st more (\<lambda>w. if f w = n then new n else f w) text"
  proof (rule sub_scan [where more = more and st = st and sig = sig and b = b and v = v])
    show "\<not> more sig" by (rule sig)
    show "more c" if "st c" for c using that by (rule sig)
    show "more c" if "b c" for c using that by (rule b)
    show "\<exists>u. f w = sig # u \<and> sig \<notin> set u" if "w \<in> set (find_names sig st more text)" for w
      using find_names_named [OF sig(2) that] snoc.prems(2) sig(1) by (auto simp: f_def named_def list_all_iff)
    show "f w = n \<or> length n < length (f w) \<and> b (f w ! length n)"
      if "w \<in> set (find_names sig st more text)" "begins_with n (f w)" for w
      using step [OF that] by (auto simp: f_def)
  qed (use v in simp_all)
  also have "\<dots> = scan sig st more (\<lambda>w. if w \<in> set (ns @ [n]) then new w else w) text"
  proof (rule scan_cong)
    fix w assume w: "w \<in> set (find_names sig st more text)"
    have "f w = n \<Longrightarrow> w = n \<and> w \<notin> set ns" using step [OF w] begins_with_append [of n "[]"] by (auto simp: f_def)
    then show "(if f w = n then new n else f w) = (if w \<in> set (ns @ [n]) then new w else w)"
      by (auto simp: f_def)
  qed
  finally show ?case using IH by (simp add: sub_all_def)
qed

text \<open>With the boundary of the pattern, only the name itself can stand where a name begins.\<close>

lemma begins_bounded:
  assumes "named sig st more w" "begins_with n w" "n \<noteq> []"
  shows "w = n \<or> length n < length w \<and> more (w ! length n)"
proof -
  from assms obtain r where r: "w = n @ r" by (auto simp: begins_with_iff)
  show ?thesis
  proof (cases r)
    case (Cons c cs)
    with assms r have "more c" by (cases n) (auto simp: named_def)
    with Cons r show ?thesis by simp
  qed (use r in simp)
qed

lemma longest_first_set [simp]: "set (longest_first ns) = set ns"
  by (simp add: longest_first_def)

lemma longest_first_order:
  assumes "longest_first ns = xs @ n # ys" "w \<in> set xs"
  shows "length n \<le> length w"
proof -
  have "sorted (map (\<lambda>n. - int (length n)) (xs @ n # ys))"
    using assms(1) by (metis longest_first_def sorted_sort_key)
  with assms(2) show ?thesis by (auto simp: sorted_append)
qed

section \<open>The passes\<close>

definition good_prefix :: "string \<Rightarrow> bool" where
  "good_prefix p \<longleftrightarrow> p \<noteq> [] \<and> is_name_start (hd p) \<and> list_all is_word_char p"

lemma char_classes:
  "is_digit_char c \<Longrightarrow> is_word_char c" "is_name_start c \<Longrightarrow> is_word_char c"
  "\<not> is_word_char (CHR ''%'')" "\<not> is_word_char (CHR ''@'')" "\<not> is_word_char (CHR ''#'')"
  "is_word_char (CHR ''_'')" "is_word_char (CHR ''n'')" "\<not> is_digit_char (CHR ''%'')"
  by (auto simp: is_digit_char_def is_word_char_def is_name_start_def Let_def)

lemma prefixed_named:
  assumes "good_prefix p" "named sig st is_word_char n" "st = is_name_start \<or> st = is_word_char"
  shows "named sig st is_word_char (prefixed p n)"
  using assms char_classes by (auto simp: named_def prefixed_def good_prefix_def)

lemma prefixed_length: "named sig st more n \<Longrightarrow> length n < length (prefixed p n)"
  by (auto simp: named_def prefixed_def)

text \<open>A pass with the boundary of the word, longest name first.\<close>

lemma bounded_pass:
  assumes sig: "\<not> is_word_char sig" and st: "st = is_name_start \<or> st = is_word_char" and p: "good_prefix p"
    and ns: "\<And>n. n \<in> set ns \<Longrightarrow> named sig st is_word_char n"
  shows "sub_all is_word_char (prefixed p) (longest_first ns) text =
    scan sig st is_word_char (\<lambda>w. if w \<in> set ns then prefixed p w else w) text"
proof -
  have st': "\<And>c. st c \<Longrightarrow> is_word_char c" using st char_classes by auto
  have "sub_all is_word_char (prefixed p) (longest_first ns) text =
    scan sig st is_word_char (\<lambda>w. if w \<in> set (longest_first ns) then prefixed p w else w) text"
  proof (rule sub_all_scan)
    show "\<exists>u. prefixed p n = sig # u \<and> sig \<notin> set u" if "n \<in> set (longest_first ns)" for n
      using prefixed_named [OF p ns st] that sig by (fastforce simp: named_def list_all_iff)
    fix xs n ys w
    assume n: "longest_first ns = xs @ n # ys" and w: "w \<in> set (find_names sig st is_word_char text)"
      and begins: "begins_with n (if w \<in> set xs then prefixed p w else w)"
    have "n \<in> set (longest_first ns)" "set xs \<subseteq> set (longest_first ns)" by (simp_all only: n) auto
    then have named: "named sig st is_word_char n" and xs: "w \<in> set xs \<Longrightarrow> named sig st is_word_char w" using ns by auto
    then have "n \<noteq> []" by (auto simp: named_def)
    show "w \<notin> set xs \<and> (w = n \<or> length n < length w \<and> is_word_char (w ! length n)) \<or>
        w \<in> set xs \<and> prefixed p w \<noteq> n \<and> length n < length (prefixed p w) \<and> is_word_char (prefixed p w ! length n)"
    proof (cases "w \<in> set xs")
      case True
      have "length n < length (prefixed p w)"
        using longest_first_order [OF n True] prefixed_length [OF xs [OF True]] by (rule le_less_trans)
      with True begins show ?thesis
        using begins_bounded [OF prefixed_named [OF p xs [OF True] st], of n] \<open>n \<noteq> []\<close> by auto
    next
      case False
      with begins show ?thesis using begins_bounded [OF find_names_named [OF st' w], of n] \<open>n \<noteq> []\<close> by auto
    qed
  qed (use sig st' ns in auto)
  then show ?thesis by simp
qed

lemma words_scan:
  assumes "good_prefix p"
  shows "rename_words p text = scan (CHR ''%'') is_name_start is_word_char (prefixed p) text"
  unfolding rename_words_def
  by (subst bounded_pass [where st = is_name_start and sig = "CHR ''%''"])
    (use assms char_classes in \<open>auto intro: find_names_named scan_cong\<close>)

text \<open>The literals of the affine names.\<close>

lemma find_literal_skip: "s \<notin> set u \<Longrightarrow> find_literal (s # l) (u @ R) = find_literal (s # l) R"
  by (induction u) (auto simp: Let_def begins_with_def)

lemma find_literal_form: "n \<in> set (find_literal lit text) \<Longrightarrow> \<exists>ds. n = lit @ ds \<and> list_all is_digit_char ds"
proof (induction lit "text" rule: find_literal.induct)
  case (2 lit c cs)
  then show ?case by (auto simp: Let_def list_all_iff dest: set_takeWhileD split: if_splits)
qed simp

lemma prefix_of_word:
  assumes "begins_with l (u @ R)" "list_all more l" "R = [] \<or> \<not> more (hd R)"
  shows "\<exists>u'. u = l @ u'"
  using assms
proof (induction l arbitrary: u)
  case (Cons c l)
  then show ?case by (cases u) (auto simp: begins_with_iff)
qed simp

lemma find_literal_complete:
  assumes sig: "\<not> is_word_char sig" "\<And>c. st c \<Longrightarrow> is_word_char c"
    and lit: "lit = sig # l" "list_all is_word_char l" "l \<noteq> []" "st (hd l)"
    and w: "w \<in> set (find_names sig st is_word_char text)" "w = lit @ ds" "list_all is_digit_char ds"
  shows "w \<in> set (find_literal lit text)"
  using w(1)
proof (induction "text" rule: names_induct [of _ sig st is_word_char])
  case (Plain c cs)
  have "\<not> begins_with lit (c # cs)" using Plain.hyps lit by (cases l; cases cs) auto
  with Plain show ?case by auto
next
  case (Name d e)
  define u rest where "u = d # takeWhile is_word_char e" and "rest = dropWhile is_word_char e"
  have whole: "sig # d # e = sig # u @ rest" by (simp add: u_def rest_def)
  have rest: "rest = [] \<or> \<not> is_word_char (hd rest)" unfolding rest_def by (metis hd_dropWhile)
  have u: "list_all is_word_char u" using Name.hyps sig(2) by (auto simp: u_def list_all_iff dest: set_takeWhileD)
  then have skip: "find_literal lit (v @ rest) = find_literal lit rest" if "set v \<subseteq> set u" for v
    unfolding lit(1) using that sig(1) by (intro find_literal_skip) (auto simp: list_all_iff)
  have names: "find_names sig st is_word_char (sig # d # e) =
      (sig # u) # find_names sig st is_word_char rest"
    using Name.hyps by (simp add: u_def rest_def)
  show ?case
  proof (cases "begins_with lit (sig # u @ rest)")
    case True
    then obtain u' where u': "u = l @ u'" using lit rest prefix_of_word [of l u rest is_word_char] by auto
    define r where "r = u' @ rest"
    have r: "drop (length lit) (sig # u @ rest) = r" using lit u' by (simp add: r_def)
    have digits: "takeWhile is_digit_char r = takeWhile is_digit_char u'" "dropWhile is_digit_char r = dropWhile is_digit_char u' @ rest"
    proof -
      have none: "takeWhile is_digit_char rest = [] \<and> dropWhile is_digit_char rest = rest"
        using rest char_classes(1) by (cases rest) auto
      show "takeWhile is_digit_char r = takeWhile is_digit_char u'" "dropWhile is_digit_char r = dropWhile is_digit_char u' @ rest"
        using none unfolding r_def by (induction u') auto
    qed
    have "set (dropWhile is_digit_char u') \<subseteq> set u" using u' by (auto dest: set_dropWhileD)
    then have "find_literal lit (sig # u @ rest) = (lit @ takeWhile is_digit_char u') # find_literal lit rest"
      using True lit r digits skip by (simp add: Let_def)
    moreover have "lit @ takeWhile is_digit_char u' = w" if "w = sig # u"
    proof -
      have "u' = ds" using that w(2) u' lit(1) by simp
      then show ?thesis using w(2,3) by (simp add: list_all_iff takeWhile_eq_all_conv)
    qed
    ultimately show ?thesis using Name names unfolding whole rest_def [symmetric] by auto
  next
    case False
    have "w \<noteq> sig # u" using False w(2) by (metis append_Cons append_assoc begins_with_append)
    moreover have "find_literal lit (sig # u @ rest) = find_literal lit rest" using False skip [of u] by simp
    ultimately show ?thesis using Name names unfolding whole rest_def [symmetric] by auto
  qed
qed simp

text \<open>The affine names.\<close>

lemma affine_name_iff: "is_affine_name n \<longleftrightarrow> (\<exists>lit ds. (lit = ''#map'' \<or> lit = ''#set'') \<and> n = lit @ ds \<and> list_all is_digit_char ds)"
proof
  assume "is_affine_name n"
  then obtain lit where lit: "lit = ''#map'' \<or> lit = ''#set''" "begins_with lit n" "list_all is_digit_char (drop 4 n)"
    by (auto simp: is_affine_name_def)
  then obtain r where "n = lit @ r" by (auto simp: begins_with_iff)
  with lit show "\<exists>lit ds. (lit = ''#map'' \<or> lit = ''#set'') \<and> n = lit @ ds \<and> list_all is_digit_char ds"
    by (intro exI [of _ lit] exI [of _ r]) auto
next
  assume "\<exists>lit ds. (lit = ''#map'' \<or> lit = ''#set'') \<and> n = lit @ ds \<and> list_all is_digit_char ds"
  then show "is_affine_name n" by (auto simp: is_affine_name_def)
qed

lemma affine_scan:
  assumes "good_prefix p"
  shows "rename_affine p text = scan (CHR ''#'') is_word_char is_word_char (\<lambda>n. if is_affine_name n then prefixed p n else n) text"
proof -
  define ns where "ns = find_literal ''#map'' text @ find_literal ''#set'' text"
  have lits: "list_all is_word_char ''map''" "list_all is_word_char ''set''" by code_simp+
  have form: "is_affine_name n" if "n \<in> set ns" for n
    using that find_literal_form unfolding affine_name_iff ns_def by fastforce
  have named: "named (CHR ''#'') is_word_char is_word_char n" if "n \<in> set ns" for n
  proof -
    from form [OF that] obtain l ds where l: "l = ''map'' \<or> l = ''set''" "n = CHR ''#'' # l @ ds" "list_all is_digit_char ds"
      unfolding affine_name_iff by fastforce
    moreover have "list_all is_word_char ds" using l(3) char_classes(1) by (auto simp: list_all_iff)
    ultimately show ?thesis using lits by (auto simp: named_def)
  qed
  have "w \<in> set ns" if "w \<in> set (find_names (CHR ''#'') is_word_char is_word_char text)" "is_affine_name w" for w
    using that char_classes lits
      find_literal_complete [of "CHR ''#''" is_word_char "''#map''" "''map''" w "text"]
      find_literal_complete [of "CHR ''#''" is_word_char "''#set''" "''set''" w "text"]
    unfolding affine_name_iff ns_def by auto
  then have "scan (CHR ''#'') is_word_char is_word_char (\<lambda>w. if w \<in> set ns then prefixed p w else w) text =
      scan (CHR ''#'') is_word_char is_word_char (\<lambda>n. if is_affine_name n then prefixed p n else n) text"
    using form by (intro scan_cong) auto
  then show ?thesis
    unfolding rename_affine_def ns_def [symmetric] using bounded_pass [OF _ _ assms named] char_classes by simp
qed

text \<open>The numbers: the new names are words, which no number begins.\<close>

lemma numbers_scan:
  assumes p: "good_prefix p"
  shows "rename_numbers p text = scan (CHR ''%'') is_digit_char is_digit_char (\<lambda>n. ''%'' @ p @ ''_n'' @ tl n) text"
proof -
  define new where "new = (\<lambda>n. ''%'' @ p @ ''_n'' @ tl n)"
  define found where "found = find_names (CHR ''%'') is_digit_char is_digit_char text"
  define ns where "ns = sort_key (\<lambda>n. - int (num_value (tl n))) (remdups found)"
  have ns: "set ns = set found" by (simp add: ns_def)
  have named: "named (CHR ''%'') is_digit_char is_digit_char n" if "n \<in> set found" for n
    using that unfolding found_def by (rule find_names_named [rotated])
  have "sub_all is_digit_char new ns text = scan (CHR ''%'') is_digit_char is_digit_char (\<lambda>w. if w \<in> set ns then new w else w) text"
  proof (rule sub_all_scan)
    show "\<exists>u. new n = CHR ''%'' # u \<and> CHR ''%'' \<notin> set u" if "n \<in> set ns" for n
      using named [of n] that ns p char_classes by (auto simp: new_def named_def good_prefix_def list_all_iff)
    fix xs n ys w
    assume n: "ns = xs @ n # ys" and w: "w \<in> set (find_names (CHR ''%'') is_digit_char is_digit_char text)"
      and begins: "begins_with n (if w \<in> set xs then new w else w)"
    have "n \<in> set found" using n by (simp flip: ns)
    then obtain d v where nv: "n = CHR ''%'' # d # v" "is_digit_char d"
      using named [of n] by (fastforce simp: named_def neq_Nil_conv)
    have "\<not> begins_with n (new w)"
      using p nv by (auto simp: new_def good_prefix_def is_name_start_def neq_Nil_conv)
    with begins have "w \<notin> set xs" "begins_with n w" by (auto split: if_splits)
    then show "w \<notin> set xs \<and> (w = n \<or> length n < length w \<and> is_digit_char (w ! length n)) \<or>
        w \<in> set xs \<and> new w \<noteq> n \<and> length n < length (new w) \<and> is_digit_char (new w ! length n)"
      using begins_bounded [OF named, of w n] w nv by (auto simp: found_def)
  qed (use char_classes named ns in auto)
  also have "\<dots> = scan (CHR ''%'') is_digit_char is_digit_char new text"
    by (rule scan_cong) (simp add: ns found_def)
  finally show ?thesis by (simp add: rename_numbers_def new_def ns_def found_def)
qed

text \<open>
  The symbols are replaced without a boundary. That is the scan when no name to be renamed begins an external name or a
  new name.
\<close>

definition symbols_of :: "string \<Rightarrow> string list" where
  "symbols_of text = find_names (CHR ''@'') is_word_char is_word_char text"

definition apart_symbols :: "string \<Rightarrow> string list \<Rightarrow> string \<Rightarrow> bool" where
  "apart_symbols p externs text \<longleftrightarrow>
     (\<forall>n \<in> set (symbols_of text). n \<notin> set externs \<longrightarrow>
        (\<forall>s \<in> set (symbols_of text). if s \<in> set externs then \<not> begins_with n s else \<not> begins_with n (prefixed p s)))"

lemma symbols_scan:
  assumes p: "good_prefix p" and apart: "apart_symbols p externs text"
  shows "rename_symbols p externs text =
    scan (CHR ''@'') is_word_char is_word_char (\<lambda>n. if n \<in> set externs then n else prefixed p n) text"
proof -
  define found where "found = symbols_of text"
  define ns where "ns = filter (\<lambda>n. n \<notin> set externs) (longest_first found)"
  have ns: "set ns = {n \<in> set found. n \<notin> set externs}" by (auto simp: ns_def)
  have named: "named (CHR ''@'') is_word_char is_word_char n" if "n \<in> set found" for n
    using that unfolding found_def symbols_of_def by (rule find_names_named [rotated])
  have sorted: "sorted (map (\<lambda>n. - int (length n)) ns)"
    unfolding ns_def longest_first_def by (rule sorted_filter) simp
  have "sub_all never (prefixed p) ns text =
      scan (CHR ''@'') is_word_char is_word_char (\<lambda>w. if w \<in> set ns then prefixed p w else w) text"
  proof (rule sub_all_scan)
    show "\<exists>u. prefixed p n = CHR ''@'' # u \<and> CHR ''@'' \<notin> set u" if "n \<in> set ns" for n
      using prefixed_named [OF p named, of n] that ns char_classes by (fastforce simp: named_def list_all_iff)
    fix xs n ys w
    assume n: "ns = xs @ n # ys" and w: "w \<in> set (find_names (CHR ''@'') is_word_char is_word_char text)"
      and begins: "begins_with n (if w \<in> set xs then prefixed p w else w)"
    have "n \<in> set ns" "set xs \<subseteq> set ns" using n by auto
    then have n': "n \<in> set found" "n \<notin> set externs" and xs: "w \<in> set xs \<Longrightarrow> w \<notin> set externs" using ns by auto
    have w': "w \<in> set found" using w by (simp add: found_def symbols_of_def)
    have "w \<notin> set xs" using begins xs apart n' w' unfolding apart_symbols_def found_def by (auto split: if_splits)
    moreover have "w \<notin> set externs" using begins apart n' w' calculation unfolding apart_symbols_def found_def by (auto split: if_splits)
    ultimately have "w = n \<or> w \<in> set ys" "begins_with n w" using n ns w' begins by auto
    moreover have "length w \<le> length n" if "w \<in> set ys" using sorted that by (auto simp: n sorted_append)
    ultimately have "w = n" by (auto simp: begins_with_iff)
    with \<open>w \<notin> set xs\<close> show "w \<notin> set xs \<and> (w = n \<or> length n < length w \<and> never (w ! length n)) \<or>
        w \<in> set xs \<and> prefixed p w \<noteq> n \<and> length n < length (prefixed p w) \<and> never (prefixed p w ! length n)" by simp
  qed (use char_classes named ns in \<open>auto simp: never_def\<close>)
  also have "\<dots> = scan (CHR ''@'') is_word_char is_word_char (\<lambda>n. if n \<in> set externs then n else prefixed p n) text"
    by (rule scan_cong) (simp add: ns found_def symbols_of_def)
  finally show ?thesis by (simp add: rename_symbols_def ns_def found_def symbols_of_def)
qed

text \<open>The other passes keep the symbols.\<close>

lemma find_names_skip: "s \<notin> set u \<Longrightarrow> find_names s st more (u @ R) = find_names s st more R"
  by (induction u) auto

lemma scan_skip: "s \<notin> set u \<Longrightarrow> scan s st more f (u @ R) = u @ scan s st more f R"
  by (induction u) auto

lemma symbols_of_at:
  assumes "R = [] \<or> \<not> is_word_char (hd R)" "list_all is_word_char u"
  shows "symbols_of (CHR ''@'' # u @ R) = (if u = [] then [] else [CHR ''@'' # u]) @ symbols_of R"
proof (cases u)
  case Nil then show ?thesis using assms(1) by (auto simp: symbols_of_def)
next
  case (Cons d v)
  have "takeWhile is_word_char (v @ R) = v" "dropWhile is_word_char (v @ R) = R"
    using assms Cons by (cases R; simp add: list_all_iff takeWhile_append dropWhile_append takeWhile_eq_all_conv)+
  with assms(2) Cons show ?thesis by (simp add: symbols_of_def)
qed

lemma symbols_of_skip: "list_all is_word_char u \<Longrightarrow> symbols_of (u @ R) = symbols_of R"
  unfolding symbols_of_def using char_classes by (intro find_names_skip) (auto simp: list_all_iff)

lemma symbols_kept:
  assumes sig: "\<not> is_word_char sig" "sig \<noteq> CHR ''@''" and cls: "\<And>c. st c \<Longrightarrow> more c" "\<And>c. more c \<Longrightarrow> is_word_char c"
    and f: "\<And>w. named sig st more w \<Longrightarrow> \<exists>u. f w = sig # u \<and> list_all is_word_char u"
  shows "symbols_of (scan sig st more f text) = symbols_of text"
proof (induction "text" rule: names_induct [of _ sig st more])
  case (Plain c cs)
  define u rest where "u = takeWhile is_word_char cs" and "rest = dropWhile is_word_char cs"
  define R where "R = scan sig st more f rest"
  have cs: "cs = u @ rest" by (simp add: u_def rest_def)
  have u: "list_all is_word_char u" by (auto simp: u_def list_all_iff dest: set_takeWhileD)
  have scan: "scan sig st more f cs = u @ R"
    unfolding R_def cs using u sig(1) by (intro scan_skip) (auto simp: list_all_iff)
  have rest: "rest = [] \<or> \<not> is_word_char (hd rest)" unfolding rest_def by (metis hd_dropWhile)
  have keeps: "\<exists>u. f w = sig # u" if "w \<in> set (find_names sig st more rest)" for w
    using f [OF find_names_named [OF cls(1) that]] by blast
  have "R = [] \<longleftrightarrow> rest = []" "rest \<noteq> [] \<Longrightarrow> hd R = hd rest"
    unfolding R_def by (rule hd_scan [OF keeps]; assumption)+
  with rest have R: "R = [] \<or> \<not> is_word_char (hd R)" by metis
  have same: "symbols_of R = symbols_of rest" using Plain.IH [unfolded scan] by (simp add: cs symbols_of_skip u)
  have "scan sig st more f (c # cs) = c # u @ R" using Plain.hyps scan by auto
  moreover have "symbols_of (c # u @ R) = symbols_of (c # u @ rest)"
  proof (cases "c = CHR ''@''")
    case True then show ?thesis by (simp add: symbols_of_at u R rest same)
  next
    case False
    then have "symbols_of (c # X) = symbols_of X" for X by (simp add: symbols_of_def)
    then show ?thesis by (simp add: symbols_of_skip u same)
  qed
  ultimately show ?case by (simp add: cs)
next
  case (Name d ds)
  define w where "w = d # takeWhile more ds"
  have "list_all more w" using Name.hyps cls(1) by (auto simp: w_def list_all_iff dest: set_takeWhileD)
  then have named: "named sig st more (sig # w)" and w: "list_all is_word_char w"
    using Name.hyps cls(2) by (auto simp: named_def w_def list_all_iff)
  obtain u where u: "f (sig # w) = sig # u" "list_all is_word_char u" using f [OF named] by blast
  have "symbols_of (sig # X) = symbols_of X" for X using sig(2) by (simp add: symbols_of_def)
  moreover have "symbols_of (d # ds) = symbols_of (dropWhile more ds)"
    using symbols_of_skip [OF w, of "dropWhile more ds"] by (simp add: w_def)
  moreover have "scan sig st more f (sig # d # ds) = sig # u @ scan sig st more f (dropWhile more ds)"
    using Name.hyps u(1) by (simp add: w_def)
  ultimately show ?case using Name.IH symbols_of_skip [OF u(2)] by simp
qed simp

text \<open>
  C26: for a prefix that is a name, the four passes of substitutions equal one scan per sign: every affine name, value and
  number of the text is renamed exactly once wherever it stands, and every symbol that is not external, provided that no
  such symbol begins an external symbol or a new name; nothing else changes.
\<close>

theorem renaming_scans_each_sign:
  assumes "good_prefix p" "apart_symbols p externs text"
  shows "rename_all_with_externs text p externs = renamed text p externs"
proof -
  define A where "A = scan (CHR ''#'') is_word_char is_word_char (\<lambda>n. if is_affine_name n then prefixed p n else n) text"
  define W where "W = scan (CHR ''%'') is_name_start is_word_char (prefixed p) A"
  define N where "N = scan (CHR ''%'') is_digit_char is_digit_char (\<lambda>n. ''%'' @ p @ ''_n'' @ tl n) W"
  have p: "list_all is_word_char p" using assms(1) by (simp add: good_prefix_def)
  have "symbols_of A = symbols_of text"
    unfolding A_def using char_classes p by (intro symbols_kept) (auto simp: named_def prefixed_def)
  moreover have "symbols_of W = symbols_of A"
    unfolding W_def using char_classes p by (intro symbols_kept) (auto simp: named_def prefixed_def)
  moreover have "symbols_of N = symbols_of W"
    unfolding N_def using char_classes p by (intro symbols_kept) (auto simp: named_def list_all_iff)
  ultimately have "apart_symbols p externs N" using assms(2) by (simp add: apart_symbols_def)
  then show ?thesis
    unfolding rename_all_with_externs_def renamed_def affine_scan [OF assms(1)] words_scan [OF assms(1)] numbers_scan [OF assms(1)]
      A_def [symmetric] W_def [symmetric] N_def [symmetric]
    by (rule symbols_scan [OF assms(1)])
qed

definition sample_body :: string where
  "sample_body = ''%10 = call @f(%1, %arg1) #map1 #map @kern''"

lemma renaming_scans_each_sign_witness:
  "rename_all_with_externs sample_body ''q'' [''@kern''] = renamed sample_body ''q'' [''@kern'']"
  by (rule renaming_scans_each_sign) code_simp+

lemma sample_body_renamed:
  "renamed sample_body ''q'' [''@kern''] = ''%q_n10 = call @q_f(%q_n1, %q_arg1) #q_map1 #q_map @kern''"
  by code_simp

text \<open>
  What the condition excludes: the external symbol that a symbol of the module begins is renamed with it. What it does not
  exclude: a value with a name of the form that the numbers get.
\<close>

lemma external_symbol_damaged:
  "rename_all_with_externs ''@mm @mm_bf16'' ''q'' [''@mm_bf16''] = ''@q_mm @q_mm_bf16''"
  by code_simp

lemma number_meets_name: "rename_all ''%n10 %10'' ''q'' = ''%q_n10 %q_n10''"
  by code_simp

end
