(* ===== verification/Stitch_Elf.thy ===== *)
theory Stitch_Elf
  imports Stitching
begin

text \<open>
  Assembling a multi-launch module: the extraction, wiring and assembly of
  \<^verbatim>\<open>src/programming_examples/llms/shared/infra/stitching.py\<close>, and the wrapping of a bare kernel in a launch and a segment.
  The theory shows what the wiring checks reject, where the scratch arguments stand, and that wrapping renames exactly the
  function's arguments.
\<close>

section \<open>Lines\<close>

definition lines_of :: "string \<Rightarrow> string list" where
  "lines_of t = split_on (CHR 0x0A) t"

definition unlines :: "string list \<Rightarrow> string" where
  "unlines ls = join [CHR 0x0A] ls"

definition is_public_func :: "string \<Rightarrow> bool" where
  "is_public_func l \<longleftrightarrow> contains ''func.func @'' l \<and> \<not> contains ''private'' l"

text \<open>\<open>^\s*return(\s|$|//|loc\()\<close>.\<close>

definition is_return :: "string \<Rightarrow> bool" where
  "is_return l =
     (let r = dropWhile is_space l; t = drop 6 r in
      begins_with ''return'' r \<and> (t = [] \<or> is_space (hd t) \<or> begins_with ''//'' t \<or> begins_with ''loc('' t))"

text \<open>The last public function, and the last return below its first body line. Without a function the range has no bound.\<close>

definition extract_between_func_and_return :: "string \<Rightarrow> string res" where
  "extract_between_func_and_return t =
     (let ls = lines_of t; starts = filter (\<lambda>i. is_public_func (ls ! i)) [0..<length ls] in
      if starts = [] then Inl TypeError
      else let body_start = last starts + 1;
               ends = filter (\<lambda>i. is_return (ls ! i)) [body_start + 1..<length ls];
               body_end = (if ends = [] then length ls else last ends)
           in Inr (unlines (drop body_start (take body_end ls))))"




section \<open>Wiring\<close>




record func_arg =
  fa_name :: string
  fa_type :: string


text \<open>A specification is its \<open>needs_f32_scratch\<close>, the rows and the columns of its output.\<close>

fun alloc_gemm_scratch :: "(bool \<times> int \<times> int) list \<Rightarrow> nat \<Rightarrow> func_arg list \<times> nat option list" where
  "alloc_gemm_scratch [] nxt = ([], [])"
| "alloc_gemm_scratch ((needs, r, c) # specs) nxt =
     (if needs
      then (case alloc_gemm_scratch specs (nxt + 1) of (args, idx) \<Rightarrow>
        (\<lparr>fa_name = ''%arg'' @ str_nat nxt, fa_type = ''memref<'' @ str_int r @ ''x'' @ str_int c @ ''xf32>''\<rparr> # args, Some nxt # idx))
      else (case alloc_gemm_scratch specs nxt of (args, idx) \<Rightarrow> (args, None # idx)))"



section \<open>Assembly\<close>







section \<open>Wrapping a bare kernel\<close>

text \<open>\<open>re.search(r"func\.func @\w+\(([^)]*)\)", line)\<close> and the name alone.\<close>

fun search_func_name :: "string \<Rightarrow> string option" where
  "search_func_name [] = None"
| "search_func_name (c # cs) =
     (let w = takeWhile is_word_char (drop 11 (c # cs)) in
      if begins_with ''func.func @'' (c # cs) \<and> w \<noteq> [] then Some w else search_func_name cs)"

fun search_func_args :: "string \<Rightarrow> string option" where
  "search_func_args [] = None"
| "search_func_args (c # cs) =
     (let s = drop 11 (c # cs); w = takeWhile is_word_char s; r = dropWhile is_word_char s in
      if begins_with ''func.func @'' (c # cs) \<and> w \<noteq> [] \<and> begins_with ''('' r \<and> CHR '')'' \<in> set r
      then Some (takeWhile (\<lambda>x. x \<noteq> CHR '')'') (tl r)) else search_func_args cs)"

definition parse_arg :: "string \<Rightarrow> string \<times> string" where
  "parse_arg a = (let parts = split_on (CHR '':'') a in (strip (hd parts), strip (join '':'' (tl parts))))"

definition parse_args :: "string \<Rightarrow> (string \<times> string) list" where
  "parse_args s = map parse_arg (filter (\<lambda>a. a \<noteq> []) (map strip (split_on (CHR '','') s)))"

text \<open>\<open>re.findall(r"%arg(\d+)", body)\<close>.\<close>

definition arg_numbers :: "string \<Rightarrow> nat list" where
  "arg_numbers body = map (\<lambda>n. num_value (drop 4 n)) (filter (\<lambda>n. drop 4 n \<noteq> []) (find_literal ''%arg'' body))"

definition arg_name :: "nat \<Rightarrow> string" where
  "arg_name k = ''%arg'' @ str_nat k"

text \<open>The remapping of the body, from the last argument to the first.\<close>

definition remap_body :: "string list \<Rightarrow> nat \<Rightarrow> string \<Rightarrow> string" where
  "remap_body names segment_start body =
     fold (\<lambda>i t. sub_name is_word_char (names ! i) (arg_name (segment_start + i)) t) (rev [0..<length names]) body"

definition launch_start :: "nat \<Rightarrow> string \<Rightarrow> nat" where
  "launch_start n_args body = (if arg_numbers body = [] then n_args else Max (set (arg_numbers body)) + 1)"

definition wrap_ir_in_launch :: "string \<Rightarrow> string" where
  "wrap_ir_in_launch t =
     (let ls = lines_of t in
      case filter (\<lambda>i. is_public_func (ls ! i)) [0..<length ls] of
        [] \<Rightarrow> t
      | idx # _ \<Rightarrow>
          if contains ''air.launch'' (unlines (drop (idx + 1) ls)) then t
          else (case search_func_args (ls ! idx) of
              None \<Rightarrow> t
            | Some args_str \<Rightarrow>
                let name = (case search_func_name (ls ! idx) of None \<Rightarrow> ''wrapped'' | Some w \<Rightarrow> w);
                    args = parse_args args_str; n = length args;
                    ends = filter (\<lambda>i. strip (ls ! i) = ''return'') [idx + 2..<length ls];
                    body = unlines (if ends = [] then drop (idx + 1) ls else drop (idx + 1) (take (last ends) ls));
                    ls_start = launch_start n body; seg_start = ls_start + n;
                    types = join '', '' (map snd args);
                    launch_args = join '', '' (map (\<lambda>i. arg_name (ls_start + i) @ ''='' @ fst (args ! i)) [0..<n]);
                    segment_args = join '', '' (map (\<lambda>i. arg_name (seg_start + i) @ ''='' @ arg_name (ls_start + i)) [0..<n])
                in unlines (take (idx + 1) ls @
                     [''    air.launch () in () args('' @ launch_args @ '') : '' @ types @ '' {'',
                      ''      air.segment @'' @ name @ ''_seg args('' @ segment_args @ '') : '' @ types @ '' {''] @
                     map (\<lambda>l. ''    '' @ l) (lines_of (remap_body (map fst args) seg_start body)) @
                     [''      }'', ''    }''] @
                     (if ends = [] then ls else drop (last ends) ls))))"

section \<open>What the checks reject\<close>

























section \<open>The scratch arguments\<close>

lemma alloc_count: "alloc_gemm_scratch specs nxt = (args, idx) \<Longrightarrow> length idx = length specs \<and> length args = length (filter fst specs)"
  by (induction specs arbitrary: nxt args idx) (fastforce split: prod.splits if_splits)+

lemma alloc_arg:
  assumes "alloc_gemm_scratch specs nxt = (args, idx)" "i < length specs"
  defines "before \<equiv> length (filter fst (take i specs))"
  shows "idx ! i = (if fst (specs ! i) then Some (nxt + before) else None) \<and>
    (fst (specs ! i) \<longrightarrow> before < length args \<and> args ! before =
      \<lparr>fa_name = arg_name (nxt + before),
       fa_type = ''memref<'' @ str_int (fst (snd (specs ! i))) @ ''x'' @ str_int (snd (snd (specs ! i))) @ ''xf32>''\<rparr>)"
  using assms(1,2) unfolding before_def
proof (induction specs arbitrary: nxt args idx i)
  case (Cons sp specs)
  obtain needs r c where sp: "sp = (needs, r, c)" by (cases sp)
  obtain args' idx' where rest: "alloc_gemm_scratch specs (if needs then nxt + 1 else nxt) = (args', idx')" by fastforce
  show ?case
  proof (cases i)
    case 0
    then show ?thesis using Cons.prems rest by (cases needs) (auto simp: sp arg_name_def)
  next
    case (Suc j)
    then show ?thesis using Cons.IH [OF rest, of j] Cons.prems rest by (cases needs) (auto simp: sp)
  qed
qed simp

text \<open>
  With the base arguments before it, the scratch argument of every fused multiplication stands at the index that the
  allocator announces, carries that index in its name, and has the shape of that multiplication's output; the indices of
  distinct multiplications differ, and the others get none.
\<close>

theorem scratch_stands_at_its_index:
  assumes "alloc_gemm_scratch specs (length base) = (args, idx)"
  shows "length idx = length specs \<and>
    (\<forall>i < length specs. case specs ! i of (needs, r, c) \<Rightarrow>
       (if needs then \<exists>k. idx ! i = Some k \<and> length base \<le> k \<and> k < length (base @ args) \<and>
            (base @ args) ! k = \<lparr>fa_name = arg_name k, fa_type = ''memref<'' @ str_int r @ ''x'' @ str_int c @ ''xf32>''\<rparr>
        else idx ! i = None)) \<and>
    (\<forall>i < length specs. \<forall>j < i. idx ! i = idx ! j \<longrightarrow> idx ! i = None)"
proof (intro conjI allI impI)
  show "length idx = length specs" using alloc_count [OF assms] by simp
next
  fix i assume i: "i < length specs"
  show "case specs ! i of (needs, r, c) \<Rightarrow>
       (if needs then \<exists>k. idx ! i = Some k \<and> length base \<le> k \<and> k < length (base @ args) \<and>
            (base @ args) ! k = \<lparr>fa_name = arg_name k, fa_type = ''memref<'' @ str_int r @ ''x'' @ str_int c @ ''xf32>''\<rparr>
        else idx ! i = None)"
    using alloc_arg [OF assms i] by (auto simp: nth_append split: prod.splits)
next
  fix i j assume i: "i < length specs" and j: "j < i" and same: "idx ! i = idx ! j"
  show "idx ! i = None"
  proof (rule ccontr)
    assume "idx ! i \<noteq> None"
    with same have needs: "fst (specs ! i)" "fst (specs ! j)"
      using alloc_arg [OF assms i] alloc_arg [OF assms, of j] i j by (auto split: if_splits)
    define m where "m = i - Suc j"
    have split: "i = j + Suc m" using j by (simp add: m_def)
    have "drop j specs = specs ! j # drop (Suc j) specs" using i j by (simp add: Cons_nth_drop_Suc)
    then have "take i specs = take j specs @ specs ! j # take m (drop (Suc j) specs)"
      unfolding split take_add by simp
    then have "length (filter fst (take j specs)) < length (filter fst (take i specs))" using needs(2) by simp
    with same needs show False
      using alloc_arg [OF assms i] alloc_arg [OF assms, of j] i j by simp
  qed
qed

definition sample_specs :: "(bool \<times> int \<times> int) list" where
  "sample_specs = [(True, 4, 8), (False, 4, 4), (True, 2, 6)]"

definition sample_base :: "func_arg list" where
  "sample_base = [\<lparr>fa_name = ''%arg0'', fa_type = ''memref<8xbf16>''\<rparr>]"

definition sample_scratch :: "func_arg list" where
  "sample_scratch = [\<lparr>fa_name = ''%arg1'', fa_type = ''memref<4x8xf32>''\<rparr>, \<lparr>fa_name = ''%arg2'', fa_type = ''memref<2x6xf32>''\<rparr>]"

definition sample_idx :: "nat option list" where
  "sample_idx = [Some 1, None, Some 2]"

lemma scratch_stands_at_its_index_witness:
  "length sample_idx = length sample_specs \<and>
    (\<forall>i < length sample_specs. case sample_specs ! i of (needs, r, c) \<Rightarrow>
       (if needs then \<exists>k. sample_idx ! i = Some k \<and> length sample_base \<le> k \<and> k < length (sample_base @ sample_scratch) \<and>
            (sample_base @ sample_scratch) ! k =
              \<lparr>fa_name = arg_name k, fa_type = ''memref<'' @ str_int r @ ''x'' @ str_int c @ ''xf32>''\<rparr>
        else sample_idx ! i = None)) \<and>
    (\<forall>i < length sample_specs. \<forall>j < i.
       sample_idx ! i = sample_idx ! j \<longrightarrow> sample_idx ! i = None)"
  by (rule scratch_stands_at_its_index) code_simp

section \<open>Wrapping renames the arguments\<close>

lemma digit_char_value: "d < 10 \<Longrightarrow> of_char (digit_char d) = d + (48 :: nat) \<and> is_digit_char (digit_char d)"
proof -
  assume "d < 10"
  then have "d \<in> {0, 1, 2, 3, 4, 5, 6, 7, 8, 9}" by auto
  then show ?thesis by (auto simp: digit_char_def is_digit_char_def Let_def)
qed

lemma str_nat_number: "num_value (str_nat n) = n \<and> list_all is_digit_char (str_nat n)"
proof (induction n rule: str_nat.induct)
  case (1 n)
  have "n mod 10 < 10" by simp
  then show ?case
    using 1 digit_char_value [of n] digit_char_value [of "n mod 10"]
    by (cases "n < 10") (simp_all add: num_value_def str_nat.simps [of n])
qed

lemma arg_name_named: "named (CHR ''%'') is_name_start is_word_char (arg_name k)"
proof -
  have "list_all is_word_char (str_nat k)" using str_nat_number [of k] char_classes(1) by (auto simp: list_all_iff)
  moreover have "is_name_start (CHR ''a'')" "list_all is_word_char ''arg''" by code_simp+
  ultimately show ?thesis by (simp add: named_def arg_name_def)
qed

lemma find_app: "find P (xs @ ys) = (case find P xs of Some x \<Rightarrow> Some x | None \<Rightarrow> find P ys)"
  by (induction xs) auto

lemma arg_name_inj: "arg_name i = arg_name j \<longleftrightarrow> i = j"
  by (simp add: arg_name_def str_nat_inj)

lemma made_up_fresh: "arg_name (launch_start n body + j) \<notin> set (find_names (CHR ''%'') is_name_start is_word_char body)"
proof
  define k where "k = launch_start n body + j"
  assume "arg_name (launch_start n body + j) \<in> set (find_names (CHR ''%'') is_name_start is_word_char body)"
  moreover have "is_name_start (CHR ''a'')" "list_all is_word_char ''arg''" by code_simp+
  ultimately have "arg_name k \<in> set (find_literal ''%arg'' body)"
    using char_classes str_nat_number [of k]
    by (intro find_literal_complete [of "CHR ''%''" is_name_start _ "''arg''" _ _ "str_nat k"]) (simp_all add: arg_name_def k_def)
  then have "k \<in> set (arg_numbers body)"
    using str_nat_number [of k] by (force simp: arg_numbers_def arg_name_def)
  then have "k \<le> Max (set (arg_numbers body))" "arg_numbers body \<noteq> []" by auto
  then show False by (simp add: k_def launch_start_def split: if_splits)
qed

text \<open>
  With the arguments named by position, wrapping renames in the body every use of an argument to the segment's
  argument of the same position and nothing else, although it substitutes one argument after the other; and none of the
  names it makes up for the launch and the segment occurs in the body.
\<close>

theorem wrap_renames_only_arguments:
  "remap_body (map arg_name [0..<n]) (launch_start n body + n) body =
      scan (CHR ''%'') is_name_start is_word_char
        (\<lambda>w. case find (\<lambda>i. arg_name i = w) [0..<n] of Some i \<Rightarrow> arg_name (launch_start n body + n + i) | None \<Rightarrow> w) body \<and>
    (\<forall>j. arg_name (launch_start n body + j) \<notin> set (find_names (CHR ''%'') is_name_start is_word_char body))"
proof
  define seg where "seg = launch_start n body + n"
  define new where "new = (\<lambda>w. case find (\<lambda>i. arg_name i = w) [0..<n] of Some i \<Rightarrow> arg_name (seg + i) | None \<Rightarrow> w)"
  define ns where "ns = map arg_name (rev [0..<n])"
  have found: "find (\<lambda>j. arg_name j = arg_name i) [0..<n] = (if i < n then Some i else None)" for i
    unfolding arg_name_inj by (induction n) (auto simp: find_app)
  have new: "new (arg_name i) = arg_name (seg + i)" if "i < n" for i using that by (simp add: new_def found)
  have other: "new w = w" if "w \<notin> set ns" for w
    using that by (auto simp: new_def ns_def find_None_iff split: option.splits dest!: find_Some_iff [THEN iffD1])
  have "remap_body (map arg_name [0..<n]) seg body = sub_all is_word_char new ns body"
    unfolding remap_body_def sub_all_def ns_def fold_map o_def by (rule fold_cong) (simp_all add: new)
  also have "\<dots> = scan (CHR ''%'') is_name_start is_word_char (\<lambda>w. if w \<in> set ns then new w else w) body"
  proof (rule sub_all_scan)
    show "\<exists>u. new m = CHR ''%'' # u \<and> CHR ''%'' \<notin> set u" if "m \<in> set ns" for m
      using that arg_name_named char_classes by (auto simp: ns_def new named_def list_all_iff) (metis list.inject)
    fix xs m ys w
    assume m: "ns = xs @ m # ys" and w: "w \<in> set (find_names (CHR ''%'') is_name_start is_word_char body)"
      and begins: "begins_with m (if w \<in> set xs then new w else w)"
    have "m \<in> set ns" "set xs \<subseteq> set ns" using m by auto
    then obtain i where i: "m = arg_name i" "i < n" and sub: "set xs \<subseteq> arg_name ` {0..<n}" by (auto simp: ns_def)
    have xs: "\<exists>j < n. w = arg_name j" if "w \<in> set xs" using subsetD [OF sub that] by auto
    have "m \<noteq> []" by (simp add: i arg_name_def)
    have named: "named (CHR ''%'') is_name_start is_word_char (if w \<in> set xs then new w else w)"
      using xs new arg_name_named find_names_named [OF char_classes(2) w] by auto
    have "w \<in> set xs \<Longrightarrow> new w \<noteq> m" using xs i by (auto simp: new arg_name_inj seg_def)
    with begins_bounded [OF named begins \<open>m \<noteq> []\<close>]
    show "w \<notin> set xs \<and> (w = m \<or> length m < length w \<and> is_word_char (w ! length m)) \<or>
        w \<in> set xs \<and> new w \<noteq> m \<and> length m < length (new w) \<and> is_word_char (new w ! length m)"
      by (auto split: if_splits)
  qed (use char_classes arg_name_named in \<open>auto simp: ns_def\<close>)
  also have "\<dots> = scan (CHR ''%'') is_name_start is_word_char new body" by (rule scan_cong) (simp add: other)
  finally show "remap_body (map arg_name [0..<n]) (launch_start n body + n) body =
      scan (CHR ''%'') is_name_start is_word_char
        (\<lambda>w. case find (\<lambda>i. arg_name i = w) [0..<n] of Some i \<Rightarrow> arg_name (launch_start n body + n + i) | None \<Rightarrow> w) body"
    unfolding new_def seg_def .
qed (use made_up_fresh in blast)


text \<open>
  A memory space in an argument's type separates arguments, as the signature is split at its commas. A function without
  operations keeps its \<open>return\<close> and the closing braces, as the search for the return stops above its first body line.
\<close>

lemma comma_in_type_splits:
  "parse_args ''%arg0: memref<4xi32, 2>, %arg1: i32'' = [(''%arg0'', ''memref<4xi32''), (''2>'', []), (''%arg1'', ''i32'')]"
  by code_simp

lemma empty_body_keeps_return:
  "extract_between_func_and_return (unlines [''  func.func @f() {'', ''    return'', ''  }'']) = Inr (unlines [''    return'', ''  }''])"
  by code_simp

end
