(* ===== verification/Spec2Isabelle.thy ===== *)
theory Spec2Isabelle
  imports Types Index_Expr Views View_Laws View_Access Grid Budget Regions Control Tile_Expr Emit Emit_Sem
    Emit_Correct Expr_Laws Reduce Data_Transfer Contract Channel Hierarchy Extern Compile Scope Value_Cond Ops_Ext
    Spensor_Types Spensor_Memory Spensor_Tile Spensor_Loops Spensor_Fusion Spensor_Expand Py_Text Txn_Builder
    Xrt_Compile Xrt_Runner Kernel_Contexts Kernel_Buffers Kernel_Cache Bfp16 Awq Q4nx_Stream Gemma_Layout Stitching Stitch_Elf
begin

text \<open>
  A model of the Python side of the repository where it computes something itself. Its centre is the
  tile-programming front end under \<^verbatim>\<open>src/python/air/api\<close>: the package in which a kernel is written as a launch of
  segments and herds over tensors and buffers, and which traces the kernel's body once into MLIR. It folds index
  arithmetic, rearranges views, decides herd shapes and vector widths, budgets memory, places operations in
  isolated regions and refuses what it cannot compile. Below it are the op classes of the dialect bindings
  (\<^verbatim>\<open>src/python/air/dialects\<close>) and the backends that compile, load, run and check a module
  (\<^verbatim>\<open>src/python/air/backend\<close>). Beside it stands the Spensor dialect (\<^verbatim>\<open>src/python/spensor\<close>): types of tensors placed in
  memories, and passes that turn programs over them into parallel loops. Above it stands what the language models under
  \<^verbatim>\<open>src/programming_examples/llms\<close> share: a cache of compiled kernels and their buffers, the packers of quantised weights,
  and the stitching of several kernels into one module. The classes generated from the MLIR
  dialects are outside of the repository; where the code builds an operation the model has a value that says
  which one, and where a theorem speaks of what the program computes that value is given its documented meaning.

  The parts and how they call each other. A body creates buffers (\<open>alloc\<close>), subscripts tensors and buffers into
  regions, moves regions with \<open>load\<close>, \<open>store\<close> and channels, writes elementwise expressions and reductions into
  buffers, contracts tiles with \<open>dot\<close> and calls external kernels. All offsets are index expressions over
  launch, segment, herd and loop coordinates. Opening a region rebinds the values of everything that crosses
  it; closing it frees the buffers, prunes unused operands and restores the values.

  Conventions. Python integers are \<open>int\<close>, finite Python floats are rationals, dicts with an order are association
  lists, and objects with an identity carry a number. An operation that can raise returns \<open>py_error + 'a\<close>, so
  every refusal of the source is a branch; messages are not modelled. Constructors and functions keep the
  source's names where Isabelle allows it.

  \<^item> \<^theory_text>\<open>Prelude\<close>: errors and results, the traversals shared by the components, boxes of indices, ordered
    dicts; the lemma collection \<open>res_simps\<close>.
  \<^item> \<^theory_text>\<open>Types\<close> (\<^verbatim>\<open>types.py\<close>): the element types and the guards on them. Their MLIR types are in \<open>Xrt_Runner\<close>, with
    the table they are looked up in.
  \<^item> \<^theory_text>\<open>Index_Expr\<close> (\<^verbatim>\<open>_index.py\<close>): linear forms over leaves, their operators, and their materialization.
    The affine builders are a parameter with their laws in \<open>affine_laws\<close>. The lemmas show that every operator
    computes, that differences fold exactly when they are constant, and that one \<open>affine.apply\<close> is faithful.
  \<^item> \<^theory_text>\<open>Views\<close>, \<^theory_text>\<open>View_Laws\<close>, \<^theory_text>\<open>View_Access\<close> (\<^verbatim>\<open>_value.py\<close>): tensors, buffers, subscripts and the view
    operations. A region means the list of addresses its walk visits; reshape keeps it, transpose permutes it,
    broadcast and subscripts read it through a map of the index, and no chain of views leaves its array.
  \<^item> \<^theory_text>\<open>Grid\<close>, \<^theory_text>\<open>Budget\<close>, \<^theory_text>\<open>Regions\<close>, \<^theory_text>\<open>Scope\<close> (\<^verbatim>\<open>_trace.py\<close>): symbols, grids and the strip-mining of a
    grid onto a herd (every tile once); the accounting of L1 and L2 over branch arms (the peak is the most that one
    execution allocates, with successive branches summed, and the buffers that are counted keep the budget; the scratch of
    reductions is not counted); threading of values into isolated regions, pruning, and the placement of deallocations
    after the last use, each once; the walk that finds the staged buffers a herd may name.
  \<^item> \<^theory_text>\<open>Control\<close> (\<^verbatim>\<open>_loop.py\<close>, \<^verbatim>\<open>_cond.py\<close>, \<^verbatim>\<open>_index.py\<close>): loops, conditions and the arms of branches; a
    traced body bounds what any run of it keeps live.
  \<^item> \<^theory_text>\<open>Tile_Expr\<close>, \<^theory_text>\<open>Expr_Laws\<close> (\<^verbatim>\<open>ops.py\<close>, \<^verbatim>\<open>_value.py\<close>): the expression tree, its constructors and their
    checks, and what those checks guarantee.
  \<^item> \<^theory_text>\<open>Emit\<close>, \<^theory_text>\<open>Emit_Sem\<close>, \<^theory_text>\<open>Emit_Correct\<close>, \<^theory_text>\<open>Reduce\<close> (\<^verbatim>\<open>_emit.py\<close>): the emitter of assignments and
    reductions, the meaning of a nest over an arithmetic given as a parameter, and the refinement from the
    assignment read elementwise to the nest that is emitted. It needs conditions the emitter does not check (\<open>assignable\<close>,
    \<open>reducible\<close>): typed casts, innermost axes that are kept, no element read after it is written; and for reductions a
    combining operation whose order does not matter, which the addition of floats is not.
  \<^item> \<^theory_text>\<open>Data_Transfer\<close>, \<^theory_text>\<open>Contract\<close> (\<^verbatim>\<open>ops.py\<close>): transfers with subscripts in range and regions apart copy walk
    to walk; \<open>fill\<close>; every contraction is the sum its ranks call for, and the blocked one is the product of the matrices the
    blocks lay out, over the exact values of a semiring and an accumulator in a buffer of its own.
  \<^item> \<^theory_text>\<open>Channel\<close> (\<^verbatim>\<open>_channel.py\<close>): construction, declaration order and bundle indices, as a transition system over
    the modules traced one after another.
  \<^item> \<^theory_text>\<open>Hierarchy\<close> (\<^verbatim>\<open>_compile.py\<close>, \<^verbatim>\<open>_trace.py\<close>, \<^verbatim>\<open>_channel.py\<close>): the tracing of a launch with its
    exceptions: one launch when something needs it, every use of a tensor inside the region whose value it is, and every
    scope restored on every path. The other operands of an operation are not recorded.
  \<^item> \<^theory_text>\<open>Extern\<close> (\<^verbatim>\<open>_extern.py\<close>): external kernels, how each argument is passed, and their declarations.
  \<^item> \<^theory_text>\<open>Compile\<close> (\<^verbatim>\<open>_compile.py\<close>, \<^verbatim>\<open>src/python/air/backend/xrt.py\<close>): what a launch claims, its interface, and the
    call of a compiled kernel over a device that is a parameter.
  \<^item> \<^theory_text>\<open>Value_Cond\<close> (\<^verbatim>\<open>_cond.py\<close>): branches on element values, and which region runs.
  \<^item> \<^theory_text>\<open>Ops_Ext\<close> (\<^verbatim>\<open>_air_ops_ext.py\<close>, \<^verbatim>\<open>ops.py\<close>): access patterns in static and dynamic halves, the memcpy ops, block
    arguments and calls; the op built for endpoints that an op can express moves what the transfer describes.
  \<^item> \<^theory_text>\<open>Py_Text\<close>: the string operations of Python the backends use.
  \<^item> \<^theory_text>\<open>Txn_Builder\<close> (\<^verbatim>\<open>txn_builder.py\<close>): the signatures read from a generated header, the cached library, and the
    two-call protocol.
  \<^item> \<^theory_text>\<open>Xrt_Compile\<close>, \<^theory_text>\<open>Xrt_Runner\<close> (\<^verbatim>\<open>xrt.py\<close>, \<^verbatim>\<open>xrt_runner.py\<close>): from the settings to the command line of
    \<^verbatim>\<open>aircc\<close> and the artifact; the run of a test and its exit code.
  \<^item> \<^theory_text>\<open>Spensor_Types\<close>, \<^theory_text>\<open>Spensor_Memory\<close> (\<^verbatim>\<open>spensor_dialect.py\<close>, \<^verbatim>\<open>memory_analysis.py\<close>): the result types of the
    operations, the split of an output that undoes a combination, and the declared memories.
  \<^item> \<^theory_text>\<open>Spensor_Tile\<close> (\<^verbatim>\<open>tile_parallel.py\<close>): a parallel loop cut to the grid of a memory; every index tuple once.
  \<^item> \<^theory_text>\<open>Spensor_Loops\<close>, \<^theory_text>\<open>Spensor_Fusion\<close> (\<^verbatim>\<open>parallel_analysis.py\<close>): the analysis as transformations of its tables, with
    the invariant of the tables and what a fusion does to the operations and their offsets.
  \<^item> \<^theory_text>\<open>Spensor_Expand\<close> (\<^verbatim>\<open>expand_parallel.py\<close>): the subviews of splits; over the iterations of a loop they cover the
    source once.

  \<^item> \<^theory_text>\<open>Kernel_Contexts\<close>, \<^theory_text>\<open>Kernel_Buffers\<close>, \<^theory_text>\<open>Kernel_Cache\<close> (\<^verbatim>\<open>llms/shared/infra/cache.py\<close>): the contexts open on the
    device and their eviction, the buffers of a call, and the cache as a process of many caches: the table is in the order
    of last use, the cap is kept, eviction is invisible to the calls, a key's buffers are its own, and the manifest
    restores the artifacts.
  \<^item> \<^theory_text>\<open>Bfp16\<close> (\<^verbatim>\<open>bfp16_utils.py\<close>, \<^verbatim>\<open>matmul_bf16_x_bfp16.py\<close>): block floating point; packing rounds down to the grid of a
    block, where what is read is a float32 that can be minus infinity, the packed matrix reads back in place, unshuffling undoes shuffling.
  \<^item> \<^theory_text>\<open>Awq\<close> (\<^verbatim>\<open>awq_repacker.py\<close>, \<^verbatim>\<open>awq_pack.py\<close>, \<^verbatim>\<open>matmul_int4_packed.py\<close>, \<^verbatim>\<open>matvec_int4_packed.py\<close>): four-bit weights from the
    checkpoint to the tile of the device, equal to the dense weights at every address.
  \<^item> \<^theory_text>\<open>Nd_Array\<close>: the part of numpy the weight codecs use; an array is its shape and its elements in row-major
    order, read at a tuple of indices.
  \<^item> \<^theory_text>\<open>Q4nx_Codec\<close>, \<^theory_text>\<open>Q4nx_Laws\<close>, \<^theory_text>\<open>Q4nx_Stream\<close> (\<^verbatim>\<open>fused_decode/proj_qmm_pack.py\<close>, \<^verbatim>\<open>q4_0_codec.py\<close>,
    \<^verbatim>\<open>llama32_1b_q4nx_weights.py\<close>, \<^verbatim>\<open>qwen3_8b_q4nx_weights.py\<close>, \<^verbatim>\<open>gemma4_e2b_q4nx_weights.py\<close>, \<^verbatim>\<open>fused_prefill/packing.py\<close>):
    blocks of 32 rows by 256 columns with their scales, offsets and nibbles; the stream of a core array and the
    bundle of a file. A block holds in its fields what was packed, the stream is the blocks of the matrix in another
    order, the vectorised packer makes the stream of the loop, the readers dequantise what the packer packed (scale times nibble plus offset), and a
    range of rows is read from its part of the file alone. The conversion and the arithmetic of floats are arguments.
  \<^item> \<^theory_text>\<open>Gemma_Layout\<close> (\<^verbatim>\<open>gemma4_e2b_q4nx_weights.py\<close>, \<^verbatim>\<open>gemma4_e2b_q4nx_requant.py\<close>): which layer owns the keys and values another one
    reads, the rotation, and the padding of narrow heads to the width of the build: rotating the padded heads is padding
    the rotated ones.
  \<^item> \<^theory_text>\<open>Stitching\<close>, \<^theory_text>\<open>Stitch_Elf\<close> (\<^verbatim>\<open>llms/shared/infra/stitching.py\<close>): the renaming of a module's names by passes of regular
    expressions, which are one scan per sign where no symbol begins another that is kept; the extraction, the wiring and its checks, the combined text, and the
    wrapping of a bare kernel.

  Interfaces. The locales state what one part relies on of another: \<open>isolated_region\<close> (binding of values),
  \<open>scoped_call\<close> and \<open>placing_call\<close> (a call leaves the scope as it found it and places operations),
  \<open>positional\<close> (an invoker works by position; the test runner rests on it as well as the call of a kernel),
  \<open>table_loop\<close> (a walk over the operations of a Spensor program keeps its tables), \<open>context_service\<close> (activating a kernel
  leaves buffers and artifacts alone and finds the kernel; the kernel cache runs its calls on it), and those of the view and emitter
  layers; each is interpreted on the model's own definitions, and the properties rest on those interpretations.

  Termination. Loops whose measure is structural are \<open>fun\<close>; the growing of a reshape group and the search for
  transcendental nodes have a measure. The walk of \<open>_staged_in_scope\<close> has no bound of its own and is a partial
  function, with the condition under which it returns; so is the loop of \<open>moveOps\<close>, which does not return when a
  loop is fused with itself. The chain of enclosing loops of \<open>getNestedLoop\<close> runs on fuel, the number of loops, which
  is enough because a parent is created before its loop (\<open>get_nested_loop_unfold\<close>). The retries that open a context end
  because each one that goes on has released a context; the scans over a text because each step consumes a character.

  Where the code departs from its intent the development has a lemma that evaluates the model there:
  \<open>row_and_column_share_a_read\<close>, \<open>column_read_delivers_a_row\<close>, \<open>cast_target_not_checked\<close>, \<open>argmax_ignores_region_offset\<close>,
  \<open>negative_switch_diverges\<close>, \<open>second_segment_endpoint_escapes\<close>, \<open>second_module_undeclared\<close>, \<open>unit_axis_refused\<close>,
  \<open>second_call_refused\<close>, \<open>inout_passed_out_of_place\<close>, \<open>timed_call_accumulates\<close>, \<open>f16_branch_emitted\<close>, \<open>mixed_widths_compared\<close>,
  \<open>rank0_view_moves_whole\<close>, \<open>call_drops_untyped\<close>, \<open>call_by_name_results\<close>, \<open>given_directory_keeps_old_library\<close>,
  \<open>pointer_read_as_integer\<close>, \<open>argument_truncated\<close>, \<open>bool_lowering_never_compiles\<close>, \<open>trace_only_raises\<close>,
  \<open>unmapped_type_raises\<close>, \<open>scratch_not_counted\<close>, and for Spensor \<open>copies_of_one_tile_diverge\<close>, \<open>unit_split_fusion_raises\<close>,
  \<open>third_memory_move_lost\<close>, \<open>combine_grows_unit_bound\<close>, \<open>repeat_bounds_misplaced\<close>, \<open>reverse_combine_transposes\<close>,
  \<open>reverse_combine_overwrites\<close>, \<open>split_drops_remainder\<close>, \<open>reduce_in_order_written\<close>, \<open>combine_removes_dimension\<close>; for the kernel cache
  \<open>interrupted_first_call_loses_weights\<close>, \<open>negative_output_returns_nothing\<close>, \<open>recompiled_kernel_stays_loaded\<close>,
  \<open>missing_binary_keeps_entries\<close>, \<open>pools_not_process_wide\<close>; for the packers \<open>negative_zero_decodes_below\<close>,
  \<open>subnormals_halve\<close>, \<open>most_negative_overflows\<close>, \<open>qwen_reads_the_same\<close> (the comment on its codec says otherwise), \<open>padded_norm\<close> (in general, not on one input); for the stitching
  \<open>external_symbol_damaged\<close>, \<open>number_meets_name\<close>, \<open>comma_in_type_splits\<close>, \<open>empty_body_keeps_return\<close>.

  Not modelled in these parts: the inference of names from the caller's frame, the generation probe of
  \<open>resolve_target\<close> beyond its result, the texts of errors and hints, what is printed, and the verification and printing
  of the module; the search for the Peano package and compiling from torch-mlir; the reordering of a block before
  a fused Spensor loop and the expansion of moves, combinations and reductions into \<^verbatim>\<open>scf\<close> operations. Of the rest of
  the repository: the backends that run a pass pipeline given as text, the driver and its command lines, the MLIR
  passes under \<^verbatim>\<open>src/mlir\<close> (another language), the one-to-one lowering of Spensor operations to tensors, the tiling
  search of \<^verbatim>\<open>src/python/ILP_solution.py\<close> (a statement for a solver that is not in the repository), and, apart from what
  the models share as listed above, the example programs: kernels, models, benchmarks and drivers, on which no other part
  relies. Of the kernel cache the timing records and the build directory are left out; of the packers the rounding to
  bfloat16, the float products and the parsing of a bundle's JSON header (parameters), the quantisers, the loading of
  checkpoints and whole models, the reference forward passes and the further copies of the Q4NX reader; of the
  stitching the parser of the finished module (a parameter).
\<close>

end
